(* ===== verification/Prelude.thy ===== *)
theory Prelude
  imports Main "HOL-Library.Word" "HOL-Library.Multiset" "HOL-Library.Monad_Syntax"
begin

text \<open>
  What every component of the development shares: the machine types of the sources, the
  monad of C++ member functions (a state, and a result that is a value, a thrown object, a
  failed \<^verbatim>\<open>assert\<close> or undefined behaviour), checked vector accesses, the byte memory behind
  the packet buffers and the little-endian byte codecs the code gets from \<^verbatim>\<open>memcpy\<close> and
  pointer casts on x86.
\<close>

unbundle bit_operations_syntax

section \<open>Machine types\<close>

type_synonym u8 = "8 word"
type_synonym u16 = "16 word"
type_synonym u32 = "32 word"
type_synonym u64 = "64 word"
type_synonym bytes = "8 word list"

lemma unat_add_of_nat:
  "unat (a :: 'a::len word) + n < 2 ^ LENGTH('a) \<Longrightarrow> unat (a + of_nat n) = unat a + n"
  by (simp add: unat_word_ariths unat_of_nat take_bit_eq_mod)

lemma unat_of_nat_small: "n < 2 ^ LENGTH('a) \<Longrightarrow> unat (of_nat n :: 'a::len word) = n"
  by (simp add: unat_of_nat take_bit_eq_mod)

section \<open>Member functions: state, value, exception, abort, undefined behaviour\<close>

text \<open>
  A member function takes the object and returns an outcome with the object as it is left
  behind, also when it throws. \<open>Abort\<close> is a failed \<^verbatim>\<open>assert\<close>; \<open>Undef\<close> is undefined
  behaviour, such as a store outside an array.
\<close>

datatype ('e, 'a) outcome = Val 'a | Throw 'e | Abort | Undef

type_synonym ('s, 'e, 'a) action = "'s \<Rightarrow> ('e, 'a) outcome \<times> 's"

named_theorems action_simps \<open>running sequenced member functions\<close>

definition ret :: "'a \<Rightarrow> ('s, 'e, 'a) action" where
  "ret a s = (Val a, s)"

definition seq :: "('s, 'e, 'a) action \<Rightarrow> ('a \<Rightarrow> ('s, 'e, 'b) action) \<Rightarrow> ('s, 'e, 'b) action" where
  "seq m f s = (case m s of
      (Val a, s') \<Rightarrow> f a s'
    | (Throw e, s') \<Rightarrow> (Throw e, s')
    | (Abort, s') \<Rightarrow> (Abort, s')
    | (Undef, s') \<Rightarrow> (Undef, s'))"

definition throw :: "'e \<Rightarrow> ('s, 'e, 'a) action" where
  "throw e s = (Throw e, s)"

definition assert_that :: "('s \<Rightarrow> bool) \<Rightarrow> ('s, 'e, unit) action" where
  "assert_that p s = (if p s then (Val (), s) else (Abort, s))"

definition update :: "('s \<Rightarrow> 's) \<Rightarrow> ('s, 'e, unit) action" where
  "update f s = (Val (), f s)"

definition defined_when :: "('s \<Rightarrow> bool) \<Rightarrow> ('s, 'e, unit) action" where
  \<comment> \<open>the memory accesses that follow are defined only where \<open>p\<close> holds\<close>
  "defined_when p s = (if p s then (Val (), s) else (Undef, s))"

lemma ret_run [action_simps, simp]: "ret a s = (Val a, s)"
  by (simp add: ret_def)

lemma throw_run [action_simps, simp]: "throw e s = (Throw e, s)"
  by (simp add: throw_def)

lemma assert_run [action_simps, simp]: "assert_that p s = (if p s then (Val (), s) else (Abort, s))"
  by (simp add: assert_that_def)

lemma update_run [action_simps, simp]: "update f s = (Val (), f s)"
  by (simp add: update_def)

lemma guard_run [action_simps, simp]: "defined_when p s = (if p s then (Val (), s) else (Undef, s))"
  by (simp add: defined_when_def)

lemma seq_Val [action_simps]: "m s = (Val a, s') \<Longrightarrow> seq m f s = f a s'"
  by (simp add: seq_def)

lemma seq_Throw [action_simps]: "m s = (Throw e, s') \<Longrightarrow> seq m f s = (Throw e, s')"
  by (simp add: seq_def)

lemma seq_Undef [action_simps]: "m s = (Undef, s') \<Longrightarrow> seq m f s = (Undef, s')"
  by (simp add: seq_def)

lemma seq_Abort [action_simps]: "m s = (Abort, s') \<Longrightarrow> seq m f s = (Abort, s')"
  by (simp add: seq_def)

text \<open>A sequence returns a value exactly when both parts do.\<close>

lemma seq_eq_Val:
  "seq m f s = (Val b, t) \<longleftrightarrow> (\<exists>a s'. m s = (Val a, s') \<and> f a s' = (Val b, t))"
  by (auto simp: seq_def split: prod.splits outcome.splits)

lemma seq_assoc: "seq (seq m f) g = seq m (\<lambda>a. seq (f a) g)"
  by (rule ext) (simp add: seq_def split: prod.splits outcome.splits)

text \<open>What a member function keeps true of its object, whatever its outcome.\<close>

definition preserves :: "('s \<Rightarrow> bool) \<Rightarrow> ('s, 'e, 'a) action \<Rightarrow> bool" where
  "preserves P m \<longleftrightarrow> (\<forall>s. P s \<longrightarrow> P (snd (m s)))"

text \<open>A member function that never reaches undefined behaviour from an object with \<open>P\<close>.\<close>

definition safe_from :: "('s \<Rightarrow> bool) \<Rightarrow> ('s, 'e, 'a) action \<Rightarrow> bool" where
  "safe_from P m \<longleftrightarrow> (\<forall>s. P s \<longrightarrow> fst (m s) \<noteq> Undef)"

lemma preserves_seq:
  assumes "preserves P m" and "\<And>a. preserves P (f a)"
  shows "preserves P (seq m f)"
  unfolding preserves_def
proof (intro allI impI)
  fix s
  assume "P s"
  obtain r s' where r: "m s = (r, s')" by (cases "m s")
  with assms(1) \<open>P s\<close> have "P s'" by (force simp: preserves_def)
  with assms(2) show "P (snd (seq m f s))"
    by (cases r) (simp_all add: seq_def r preserves_def)
qed

lemma safe_seq:
  assumes "preserves P m" and "safe_from P m" and "\<And>a. safe_from P (f a)"
  shows "safe_from P (seq m f)"
  unfolding safe_from_def
proof (intro allI impI)
  fix s
  assume "P s"
  obtain r s' where r: "m s = (r, s')" by (cases "m s")
  with assms(1) \<open>P s\<close> have "P s'" by (force simp: preserves_def)
  with assms(2,3) \<open>P s\<close> r show "fst (seq m f s) \<noteq> Undef"
    by (cases r) (force simp: seq_def safe_from_def)+
qed

section \<open>Checked vector accesses\<close>

text \<open>
  \<^verbatim>\<open>v[i]\<close> of a \<^verbatim>\<open>std::vector\<close> or \<^verbatim>\<open>std::string\<close> is undefined outside \<open>0 \<dots> size - 1\<close>;
  a read of the model returns \<open>None\<close> there. Indices are \<open>int\<close>, as the \<^verbatim>\<open>int\<close> counters of
  the sources may become negative.
\<close>

definition at :: "'a list \<Rightarrow> int \<Rightarrow> 'a option" where
  "at xs i = (if 0 \<le> i \<and> i < int (length xs) then Some (xs ! nat i) else None)"

definition put_at :: "'a list \<Rightarrow> int \<Rightarrow> 'a \<Rightarrow> 'a list option" where
  "put_at xs i v = (if 0 \<le> i \<and> i < int (length xs) then Some (xs[nat i := v]) else None)"

abbreviation size_of :: "'a list \<Rightarrow> int" where
  "size_of xs \<equiv> int (length xs)"

lemma at_in [simp]: "0 \<le> i \<Longrightarrow> i < int (length xs) \<Longrightarrow> at xs i = Some (xs ! nat i)"
  by (simp add: at_def)

lemma at_nat [simp]: "i < length xs \<Longrightarrow> at xs (int i) = Some (xs ! i)"
  by (simp add: at_def)

lemma at_eq_Some: "at xs i = Some x \<longleftrightarrow> 0 \<le> i \<and> i < int (length xs) \<and> xs ! nat i = x"
  by (auto simp: at_def)

lemma put_at_in [simp]:
  "0 \<le> i \<Longrightarrow> i < int (length xs) \<Longrightarrow> put_at xs i v = Some (xs[nat i := v])"
  by (simp add: put_at_def)

lemma put_at_length: "put_at xs i x = Some ys \<Longrightarrow> length ys = length xs"
  by (auto simp: put_at_def split: if_splits)

text \<open>Accesses at the border of two parts of a vector, as the loop invariants describe it.\<close>

lemma at_mid: "at (as @ x # bs) (size_of as) = Some x"
  by (simp add: at_def)

lemma put_mid: "put_at (as @ x # bs) (size_of as) y = Some (as @ y # bs)"
  by (simp add: put_at_def)

section \<open>Printing integers\<close>

fun nat_digits :: "nat \<Rightarrow> string" where
  "nat_digits n = (if n < 10 then [char_of (48 + n)] else nat_digits (n div 10) @ [char_of (48 + n mod 10)])"

definition to_string :: "int \<Rightarrow> string" where
  \<comment> \<open>\<^verbatim>\<open>std::to_string\<close>\<close>
  "to_string i = (if i < 0 then ''-'' @ nat_digits (nat (- i)) else nat_digits (nat i))"

section \<open>Reading integers\<close>

text \<open>\<^verbatim>\<open>isdigit\<close>, \<^verbatim>\<open>isspace\<close> and the value of a row of decimal digits.\<close>

definition digit_char :: "char \<Rightarrow> bool" where
  "digit_char c \<longleftrightarrow> 48 \<le> (of_char c :: int) \<and> (of_char c :: int) \<le> 57"

definition decimal_of :: "string \<Rightarrow> int" where
  "decimal_of ds = foldl (\<lambda>v c. v * 10 + (of_char c - 48)) 0 ds"

definition white_char :: "char \<Rightarrow> bool" where
  "white_char c \<longleftrightarrow> c = CHR '' '' \<or> 9 \<le> (of_char c :: int) \<and> (of_char c :: int) \<le> 13"

lemma decimal_of_snoc: "decimal_of (ds @ [c]) = decimal_of ds * 10 + (of_char c - 48)"
  by (simp add: decimal_of_def)

lemma decimal_of_append: "\<forall>c\<in>set es. digit_char c \<Longrightarrow> 0 \<le> decimal_of ds \<Longrightarrow> decimal_of ds \<le> decimal_of (ds @ es)"
proof (induction es rule: rev_induct)
  case (snoc c es)
  have "decimal_of ds \<le> decimal_of (ds @ es)" using snoc by simp
  also have "\<dots> \<le> decimal_of ((ds @ es) @ [c])" unfolding decimal_of_snoc
    using snoc calculation by (auto simp: digit_char_def)
  finally show ?case by simp
qed simp

lemma decimal_of_nonneg: "\<forall>c\<in>set ds. digit_char c \<Longrightarrow> 0 \<le> decimal_of ds"
  using decimal_of_append [of ds "[]"] by (simp add: decimal_of_def)

section \<open>Integer division as C++ does it\<close>

text \<open>\<^verbatim>\<open>/\<close> and \<^verbatim>\<open>%\<close> on signed integers round towards zero.\<close>

definition cdiv :: "int \<Rightarrow> int \<Rightarrow> int" where
  "cdiv a b = sgn a * sgn b * (\<bar>a\<bar> div \<bar>b\<bar>)"

definition cmod :: "int \<Rightarrow> int \<Rightarrow> int" where
  "cmod a b = a - b * cdiv a b"

lemma cdiv_nonneg [simp]: "0 \<le> a \<Longrightarrow> 0 < b \<Longrightarrow> cdiv a b = a div b"
  by (cases "a = 0") (auto simp: cdiv_def)

lemma cmod_nonneg [simp]: "0 \<le> a \<Longrightarrow> 0 < b \<Longrightarrow> cmod a b = a mod b"
  by (simp add: cmod_def minus_mult_div_eq_mod)

lemma cdiv_neg: "a < 0 \<Longrightarrow> 0 < b \<Longrightarrow> cdiv a b = - ((- a) div b)"
  by (simp add: cdiv_def)

lemma cmod_neg: "a < 0 \<Longrightarrow> 0 < b \<Longrightarrow> cmod a b = - ((- a) mod b)"
  by (simp add: cmod_def cdiv_neg minus_mult_div_eq_mod [symmetric])

abbreviation INT_MAX :: int where "INT_MAX \<equiv> 2147483647"
abbreviation INT_MIN :: int where "INT_MIN \<equiv> -2147483648"

definition fits_int :: "int \<Rightarrow> bool" where
  "fits_int x \<longleftrightarrow> INT_MIN \<le> x \<and> x \<le> INT_MAX"

section \<open>Systems that come to rest\<close>

text \<open>
  Threads that take turns: every step keeps an invariant and uses up some of the work that is left, and where no
  step is possible the goal has been reached. Then every run is finite, and every run that cannot go on is at the
  goal.
\<close>

locale progress =
  fixes step :: "'s \<Rightarrow> 's \<Rightarrow> bool"
    and ok :: "'s \<Rightarrow> bool"
    and work :: "'s \<Rightarrow> nat"
    and goal :: "'s \<Rightarrow> bool"
  assumes kept: "ok s \<Longrightarrow> step s s' \<Longrightarrow> ok s' \<and> work s' < work s"
    and at_rest: "ok s \<Longrightarrow> \<nexists>s'. step s s' \<Longrightarrow> goal s"
begin

lemma runs: "(step ^^ k) s s' \<Longrightarrow> ok s \<Longrightarrow> ok s' \<and> k + work s' \<le> work s"
proof (induction k arbitrary: s')
  case (Suc k)
  from Suc.prems(1) obtain t where t: "(step ^^ k) s t" "step t s'" by auto
  from Suc.IH [OF t(1) Suc.prems(2)] kept [OF _ t(2)] show ?case by fastforce
qed simp

lemma rests: "(step ^^ k) s s' \<Longrightarrow> ok s \<Longrightarrow> \<nexists>t. step s' t \<Longrightarrow> goal s'"
  using runs at_rest by blast

lemma completes: "ok s \<Longrightarrow> \<exists>k s'. (step ^^ k) s s' \<and> k \<le> work s \<and> (\<nexists>t. step s' t) \<and> goal s'"
proof (induction "work s" arbitrary: s rule: less_induct)
  case less
  show ?case
  proof (cases "\<exists>t. step s t")
    case True
    then obtain t where t: "step s t" by blast
    with kept [OF less.prems t] less.hyps obtain k s' where "(step ^^ k) t s'" "k \<le> work t" "\<nexists>u. step s' u" "goal s'" by blast
    then have "(step ^^ Suc k) s s'" "Suc k \<le> work s" "\<nexists>u. step s' u" "goal s'"
      using relpowp_Suc_I2 [of step s t k s'] t kept [OF less.prems t] by auto
    then show ?thesis by blast
  next
    case False
    then have "goal s" using at_rest less.prems by blast
    with False show ?thesis by (intro exI [of _ 0] exI [of _ s]) simp
  qed
qed

end

end
