(* ===== verification/Wire.thy ===== *)
theory Wire
  imports Prelude
begin

text \<open>
  Byte memory and little-endian codecs. The sources move integers through byte buffers with
  \<^verbatim>\<open>memcpy\<close> and pointer casts, without conversion (\<^verbatim>\<open>_HTONS(n)\<close> is \<^verbatim>\<open>n\<close>), on x86 hosts:
  a word lies in memory with its lowest byte first. \<open>fixed_codec\<close> and \<open>byte_memory\<close> are the
  two interfaces the packet, stream and file components rely on.
\<close>

section \<open>Little-endian words\<close>

definition le_enc :: "nat \<Rightarrow> 'a::len word \<Rightarrow> bytes" where
  "le_enc n w = map (\<lambda>i. ucast (drop_bit (8 * i) w)) [0..<n]"

definition le_dec :: "bytes \<Rightarrow> 'a::len word" where
  "le_dec bs = foldr (\<lambda>b acc. ucast b OR push_bit 8 acc) bs 0"

lemma length_le_enc [simp]: "length (le_enc n w) = n"
  by (simp add: le_enc_def)

lemma bit_le_dec:
  "bit (le_dec bs :: 'a::len word) i \<longleftrightarrow>
     i < LENGTH('a) \<and> i div 8 < length bs \<and> bit (bs ! (i div 8)) (i mod 8)"
proof (induction bs arbitrary: i)
  case Nil
  then show ?case by (simp add: le_dec_def)
next
  case (Cons b bs)
  have s: "le_dec (b # bs) = (ucast b OR push_bit 8 (le_dec bs) :: 'a word)"
    by (simp add: le_dec_def)
  show ?case
  proof (cases "i < 8")
    case True
    then show ?thesis by (auto simp: s bit_simps)
  next
    case False
    then obtain j where j: "i = j + 8"
      by (metis add.commute le_Suc_ex not_less)
    have d: "(j + 8) div 8 = Suc (j div 8)" "(j + 8) mod 8 = j mod 8"
      by simp_all
    have nb: "\<not> bit b (j + 8)"
      by (auto dest: bit_imp_le_length)
    show ?thesis
      unfolding s j d using Cons.IH [of j] nb
      by (auto simp: bit_simps simp del: div_add_self2 mod_add_self2)
  qed
qed

lemma le_dec_enc [simp]: "LENGTH('a) \<le> 8 * n \<Longrightarrow> le_dec (le_enc n w) = (w :: 'a::len word)"
proof (rule bit_word_eqI)
  fix i
  assume n: "LENGTH('a) \<le> 8 * n" and i: "i < LENGTH('a)"
  then have "i div 8 < n" by (auto simp: less_mult_imp_div_less algebra_simps)
  with i show "bit (le_dec (le_enc n w) :: 'a word) i = bit w i"
    by (simp add: bit_le_dec) (simp add: le_enc_def bit_simps)
qed

text \<open>Words and byte strings of the same size correspond one to one.\<close>

lemma le_enc_dec:
  assumes "length bs = n" "8 * n \<le> LENGTH('a)"
  shows "le_enc n (le_dec bs :: 'a::len word) = bs"
proof (rule nth_equalityI)
  show "length (le_enc n (le_dec bs :: 'a word)) = length bs"
    using assms(1) by simp
  fix i
  assume "i < length (le_enc n (le_dec bs :: 'a word))"
  then have i: "i < n" by simp
  show "le_enc n (le_dec bs :: 'a word) ! i = bs ! i"
  proof (rule bit_word_eqI)
    fix k
    assume "k < LENGTH(8)"
    then have k: "k < 8" by simp
    then have "(8 * i + k) div 8 = i" "(8 * i + k) mod 8 = k" "8 * i + k < LENGTH('a)"
      using i assms(2) by auto
    with i k assms(1) show "bit (le_enc n (le_dec bs :: 'a word) ! i) k = bit (bs ! i) k"
      by (simp add: le_enc_def bit_simps bit_le_dec)
  qed
qed

section \<open>The codec interface\<close>

text \<open>A type that occupies a fixed number of bytes and reads back as it was written.\<close>

locale codec =
  fixes enc :: "'a \<Rightarrow> bytes"
    and dec :: "bytes \<Rightarrow> 'a"
  assumes dec_enc: "dec (enc x) = x"
begin

lemma enc_inject: "enc x = enc y \<longleftrightarrow> x = y"
  by (metis dec_enc)

end

locale fixed_codec = codec +
  fixes width :: nat
  assumes len_enc: "length (enc x) = width"
begin

lemma dec_prefix: "dec (take width (enc x @ rest)) = x"
  by (simp add: len_enc dec_enc)

lemma len_concat: "length (concat (map enc xs)) = width * length xs"
  by (induction xs) (auto simp: len_enc)

lemma drop_prefix: "drop width (enc x @ rest) = rest"
  by (simp add: len_enc)

end

text \<open>
  A reader that takes one value off the front of the bytes; values that are written one after the other are read
  back one after the other. Every codec of a fixed width gives such a reader.
\<close>

primrec read_times :: "(bytes \<Rightarrow> 'a \<times> bytes) \<Rightarrow> nat \<Rightarrow> bytes \<Rightarrow> 'a list \<times> bytes" where
  "read_times rd 0 bs = ([], bs)"
| "read_times rd (Suc n) bs = (case rd bs of (x, more) \<Rightarrow> case read_times rd n more of (xs, rest) \<Rightarrow> (x # xs, rest))"

locale prefix_codec =
  fixes enc :: "'a \<Rightarrow> bytes"
    and rd :: "bytes \<Rightarrow> 'a \<times> bytes"
    and proper :: "'a \<Rightarrow> bool"
  assumes rd_enc: "proper x \<Longrightarrow> rd (enc x @ rest) = (x, rest)"
begin

lemma reads_back: "\<forall>x \<in> set xs. proper x \<Longrightarrow> read_times rd (length xs) (concat (map enc xs) @ rest) = (xs, rest)"
  by (induction xs) (auto simp: rd_enc)

lemma prefix_free: "proper x \<Longrightarrow> proper y \<Longrightarrow> enc x @ r = enc y @ s \<Longrightarrow> x = y \<and> r = s"
  by (metis rd_enc prod.inject)

end

sublocale fixed_codec \<subseteq> prefix_codec enc "\<lambda>bs. (dec (take width bs), drop width bs)" "\<lambda>_. True"
  by unfold_locales (simp only: dec_prefix drop_prefix)

interpretation le8: fixed_codec "le_enc 1 :: u8 \<Rightarrow> bytes" le_dec 1
  by unfold_locales auto

interpretation le16: fixed_codec "le_enc 2 :: u16 \<Rightarrow> bytes" le_dec 2
  by unfold_locales auto

interpretation le32: fixed_codec "le_enc 4 :: u32 \<Rightarrow> bytes" le_dec 4
  by unfold_locales auto

interpretation le64: fixed_codec "le_enc 8 :: u64 \<Rightarrow> bytes" le_dec 8
  by unfold_locales auto

section \<open>Byte memory\<close>

type_synonym mem = "nat \<Rightarrow> u8"

definition peek :: "mem \<Rightarrow> nat \<Rightarrow> nat \<Rightarrow> bytes" where
  "peek m i n = map m [i..<i + n]"

definition poke :: "mem \<Rightarrow> nat \<Rightarrow> bytes \<Rightarrow> mem" where
  "poke m i bs = (\<lambda>j. if i \<le> j \<and> j < i + length bs then bs ! (j - i) else m j)"

locale byte_memory =
  fixes rd :: "'m \<Rightarrow> nat \<Rightarrow> nat \<Rightarrow> bytes"
    and wr :: "'m \<Rightarrow> nat \<Rightarrow> bytes \<Rightarrow> 'm"
  assumes rd_len: "length (rd m i n) = n"
    and rd_wr: "n = length bs \<Longrightarrow> rd (wr m i bs) i n = bs"
    and rd_wr_other: "j + n \<le> i \<or> i + length bs \<le> j \<Longrightarrow> rd (wr m i bs) j n = rd m j n"
    and rd_split: "rd m i (a + b) = rd m i a @ rd m (i + a) b"
begin

lemma load_store: "LENGTH('a) \<le> 8 * n \<Longrightarrow> le_dec (rd (wr m i (le_enc n w)) i n) = (w :: 'a::len word)"
  by (simp add: rd_wr)

lemma load_store_other:
  "j + k \<le> i \<or> i + n \<le> j \<Longrightarrow>
   (le_dec (rd (wr m i (le_enc n w)) j k) :: 'b::len word) = le_dec (rd m j k)"
  by (simp add: rd_wr_other)

text \<open>Appending at the end of a region extends what is read from its start.\<close>

lemma rd_extend: "n = length bs \<Longrightarrow> rd (wr m (i + a) bs) i (a + n) = rd m i a @ bs"
  by (simp add: rd_split rd_wr rd_wr_other)

end

lemma length_peek [simp]: "length (peek m i n) = n"
  by (simp add: peek_def)

lemma nth_peek [simp]: "k < n \<Longrightarrow> peek m i n ! k = m (i + k)"
  by (simp add: peek_def)

lemma peek_0 [simp]: "peek m i 0 = []"
  by (simp add: peek_def)

lemma peek_poke: "n = length bs \<Longrightarrow> peek (poke m i bs) i n = bs"
  by (rule nth_equalityI) (auto simp: poke_def)

lemma peek_poke_other: "j + n \<le> i \<or> i + length bs \<le> j \<Longrightarrow> peek (poke m i bs) j n = peek m j n"
  by (rule nth_equalityI) (auto simp: poke_def)

lemma peek_split: "peek m i (a + b) = peek m i a @ peek m (i + a) b"
  by (rule nth_equalityI) (auto simp: nth_append)

interpretation mem: byte_memory peek poke
  by unfold_locales (simp_all add: peek_poke peek_poke_other peek_split)

lemma take_peek: "k \<le> n \<Longrightarrow> take k (peek m i n) = peek m i k"
  by (rule nth_equalityI) auto

lemma drop_peek: "drop k (peek m i n) = peek m (i + k) (n - k)"
  by (rule nth_equalityI) (auto simp: add.assoc)

end
