(* ===== verification/Packet.thy ===== *)
theory Packet
  imports Wire
begin

text \<open>
  \<^verbatim>\<open>cpp/release/packet.h\<close>: the message packets of the robot client. A packet is a buffer of
  \<^verbatim>\<open>PACKET_SIZE\<close> bytes that starts with a 12-byte header, a cursor \<^verbatim>\<open>_pos\<close> and a length
  \<^verbatim>\<open>_len\<close>, both 16 bits wide. \<^verbatim>\<open>OPacket\<close> appends fields, \<^verbatim>\<open>IPacket\<close> collects received bytes and
  extracts fields. The two classes share the record below; which operations apply to which
  is as in the source. The bytes of a fresh packet beyond its header are not initialised by
  the constructors, so these take the old memory as an argument.
\<close>

section \<open>State\<close>

abbreviation PACKET_SIZE :: nat where "PACKET_SIZE \<equiv> 32768"
abbreviation kHdrLen :: nat where "kHdrLen \<equiv> 12"
abbreviation PACKET_MAGIC :: u16 where "PACKET_MAGIC \<equiv> 0x5050"
abbreviation PACKET_FLAG_ENCRYPT :: u16 where "PACKET_FLAG_ENCRYPT \<equiv> 4"

datatype packet_exn = BadPacket | PacketOverwrite | PacketOverread

record packet =
  p_buf :: mem
  p_pos :: u16
  p_len :: u16

type_synonym 'a pact = "(packet, packet_exn, 'a) action"

section \<open>The header\<close>

definition hdr_getMagic :: "mem \<Rightarrow> u16" where "hdr_getMagic b = le_dec (peek b 0 2)"
definition hdr_setMagic :: "u16 \<Rightarrow> mem \<Rightarrow> mem" where "hdr_setMagic m b = poke b 0 (le_enc 2 m)"
definition hdr_getFlag :: "mem \<Rightarrow> u16" where "hdr_getFlag b = le_dec (peek b 2 2)"
definition hdr_setFlag :: "u16 \<Rightarrow> mem \<Rightarrow> mem" where "hdr_setFlag m b = poke b 2 (le_enc 2 m)"
definition hdr_getLen :: "mem \<Rightarrow> u16" where "hdr_getLen b = le_dec (peek b 4 2)"
definition hdr_setLen :: "u16 \<Rightarrow> mem \<Rightarrow> mem" where "hdr_setLen m b = poke b 4 (le_enc 2 m)"
definition hdr_getMid :: "mem \<Rightarrow> u16" where "hdr_getMid b = le_dec (peek b 6 2)"
definition hdr_setMid :: "u16 \<Rightarrow> mem \<Rightarrow> mem" where "hdr_setMid m b = poke b 6 (le_enc 2 m)"
definition hdr_getPid :: "mem \<Rightarrow> u32" where "hdr_getPid b = le_dec (peek b 8 4)"
definition hdr_setPid :: "u32 \<Rightarrow> mem \<Rightarrow> mem" where "hdr_setPid m b = poke b 8 (le_enc 4 m)"

lemmas hdr_defs =
  hdr_getMagic_def hdr_setMagic_def hdr_getFlag_def hdr_setFlag_def hdr_getLen_def
  hdr_setLen_def hdr_getMid_def hdr_setMid_def hdr_getPid_def hdr_setPid_def

text \<open>Every setter is read back by its getter and leaves the other fields alone.\<close>

lemma hdr_get_set [simp]:
  "hdr_getMagic (hdr_setMagic m b) = m" "hdr_getFlag (hdr_setFlag m b) = m"
  "hdr_getLen (hdr_setLen m b) = m" "hdr_getMid (hdr_setMid m b) = m"
  "hdr_getPid (hdr_setPid i b) = i"
  by (simp_all add: hdr_defs mem.load_store)

lemma hdr_get_other [simp]:
  "hdr_getMagic (hdr_setFlag m b) = hdr_getMagic b" "hdr_getMagic (hdr_setLen m b) = hdr_getMagic b"
  "hdr_getMagic (hdr_setMid m b) = hdr_getMagic b" "hdr_getMagic (hdr_setPid i b) = hdr_getMagic b"
  "hdr_getFlag (hdr_setMagic m b) = hdr_getFlag b" "hdr_getFlag (hdr_setLen m b) = hdr_getFlag b"
  "hdr_getFlag (hdr_setMid m b) = hdr_getFlag b" "hdr_getFlag (hdr_setPid i b) = hdr_getFlag b"
  "hdr_getLen (hdr_setMagic m b) = hdr_getLen b" "hdr_getLen (hdr_setFlag m b) = hdr_getLen b"
  "hdr_getLen (hdr_setMid m b) = hdr_getLen b" "hdr_getLen (hdr_setPid i b) = hdr_getLen b"
  "hdr_getMid (hdr_setMagic m b) = hdr_getMid b" "hdr_getMid (hdr_setFlag m b) = hdr_getMid b"
  "hdr_getMid (hdr_setLen m b) = hdr_getMid b" "hdr_getMid (hdr_setPid i b) = hdr_getMid b"
  "hdr_getPid (hdr_setMagic m b) = hdr_getPid b" "hdr_getPid (hdr_setFlag m b) = hdr_getPid b"
  "hdr_getPid (hdr_setLen m b) = hdr_getPid b" "hdr_getPid (hdr_setMid m b) = hdr_getPid b"
  by (simp_all add: hdr_defs mem.load_store_other)

text \<open>Bytes behind the header do not reach it, and the setters do not reach them.\<close>

lemma hdr_get_poke [simp]:
  "kHdrLen \<le> i \<Longrightarrow> hdr_getMagic (poke b i bs) = hdr_getMagic b"
  "kHdrLen \<le> i \<Longrightarrow> hdr_getFlag (poke b i bs) = hdr_getFlag b"
  "kHdrLen \<le> i \<Longrightarrow> hdr_getLen (poke b i bs) = hdr_getLen b"
  "kHdrLen \<le> i \<Longrightarrow> hdr_getMid (poke b i bs) = hdr_getMid b"
  "kHdrLen \<le> i \<Longrightarrow> hdr_getPid (poke b i bs) = hdr_getPid b"
  by (simp_all add: hdr_defs peek_poke_other)

lemma peek_hdr_set [simp]:
  "kHdrLen \<le> i \<Longrightarrow> peek (hdr_setMagic m b) i n = peek b i n"
  "kHdrLen \<le> i \<Longrightarrow> peek (hdr_setFlag m b) i n = peek b i n"
  "kHdrLen \<le> i \<Longrightarrow> peek (hdr_setLen m b) i n = peek b i n"
  "kHdrLen \<le> i \<Longrightarrow> peek (hdr_setMid m b) i n = peek b i n"
  "kHdrLen \<le> i \<Longrightarrow> peek (hdr_setPid k b) i n = peek b i n"
  by (simp_all add: hdr_defs peek_poke_other)

text \<open>The getters depend on the first twelve bytes only.\<close>

lemma hdr_get_cong:
  assumes "peek b 0 kHdrLen = peek c 0 kHdrLen"
  shows "hdr_getMagic b = hdr_getMagic c \<and> hdr_getFlag b = hdr_getFlag c \<and>
    hdr_getLen b = hdr_getLen c \<and> hdr_getMid b = hdr_getMid c \<and> hdr_getPid b = hdr_getPid c"
proof -
  have eq: "peek b i n = peek c i n" if "i + n \<le> 12" for i n
  proof -
    have "peek b i n = take n (drop i (peek b 0 kHdrLen))"
      using that by (simp add: drop_peek take_peek)
    also have "\<dots> = peek c i n"
      unfolding assms using that by (simp add: drop_peek take_peek)
    finally show ?thesis .
  qed
  show ?thesis by (simp add: hdr_defs eq)
qed

section \<open>Operations of the base class\<close>

definition getFlag :: "packet \<Rightarrow> u16" where "getFlag p = hdr_getFlag (p_buf p)"
definition setFlag :: "u16 \<Rightarrow> packet \<Rightarrow> packet" where
  "setFlag f p = p\<lparr>p_buf := hdr_setFlag f (p_buf p)\<rparr>"
definition setMsgId :: "u16 \<Rightarrow> packet \<Rightarrow> packet" where
  "setMsgId m p = p\<lparr>p_buf := hdr_setMid m (p_buf p)\<rparr>"
definition getMsgId :: "packet \<Rightarrow> u16" where "getMsgId p = hdr_getMid (p_buf p)"
definition getPid :: "packet \<Rightarrow> u32" where "getPid p = hdr_getPid (p_buf p)"
definition setPid :: "u32 \<Rightarrow> packet \<Rightarrow> packet" where
  "setPid i p = p\<lparr>p_buf := hdr_setPid i (p_buf p)\<rparr>"

definition getBuf :: "packet \<Rightarrow> bytes" where
  \<comment> \<open>the \<^verbatim>\<open>getBufSize()\<close> bytes at \<^verbatim>\<open>getBuf()\<close>, as \<^verbatim>\<open>send\<close> takes them\<close>
  "getBuf p = peek (p_buf p) 0 (unat (p_len p))"

definition getDataSize :: "packet \<Rightarrow> u16" where
  "getDataSize p = (if unat (p_len p) > kHdrLen then p_len p - 12 else 0)"

definition getData :: "packet \<Rightarrow> bytes" where
  "getData p = peek (p_buf p) kHdrLen (unat (getDataSize p))"

definition setPos :: "u16 \<Rightarrow> packet \<Rightarrow> packet" where
  "setPos pos p = p\<lparr>p_pos := (if pos > p_len p then p_len p else pos)\<rparr>"

definition copy_packet :: "mem \<Rightarrow> packet \<Rightarrow> packet" where
  \<comment> \<open>the copy constructor copies \<^verbatim>\<open>getBufSize()\<close> bytes into uninitialised memory\<close>
  "copy_packet junk p = \<lparr>p_buf = poke junk 0 (getBuf p), p_pos = p_pos p, p_len = p_len p\<rparr>"

definition setData :: "bool \<Rightarrow> bytes \<Rightarrow> unit pact" where
  \<comment> \<open>\<^verbatim>\<open>IPacket::setData\<close> (cursor to the start of the data) and \<^verbatim>\<open>OPacket::setData\<close> (to its
    end); the assertion admits \<^verbatim>\<open>PACKET_SIZE\<close> bytes, though only \<^verbatim>\<open>kDataLen\<close> of them fit\<close>
  "setData to_end bs =
     seq (assert_that (\<lambda>_. length bs \<le> PACKET_SIZE)) (\<lambda>_.
     seq (defined_when (\<lambda>_. kHdrLen + length bs \<le> PACKET_SIZE)) (\<lambda>_.
     update (\<lambda>p. let len = of_nat (kHdrLen + length bs) in
       p\<lparr>p_buf := poke (p_buf p) kHdrLen bs, p_len := len,
         p_pos := (if to_end then len else 12)\<rparr>)))"

section \<open>IPacket\<close>

definition ipacket_reset :: "packet \<Rightarrow> packet" where
  "ipacket_reset p =
     \<lparr>p_buf = hdr_setPid 0 (hdr_setMid 0 (hdr_setFlag 0 (hdr_setLen 0 (hdr_setMagic 0 (p_buf p))))),
      p_pos = 12, p_len = 0\<rparr>"

definition ipacket_new :: "mem \<Rightarrow> packet" where
  "ipacket_new junk = ipacket_reset \<lparr>p_buf = junk, p_pos = 0, p_len = 0\<rparr>"

definition ip_append :: "bytes \<Rightarrow> nat \<Rightarrow> u16 pact" where
  \<comment> \<open>\<^verbatim>\<open>append(buf, len)\<close>: the list is the memory readable at \<^verbatim>\<open>buf\<close>\<close>
  "ip_append buf len =
     seq (assert_that (\<lambda>_. len > 0)) (\<lambda>_ p0.
     let ncopy = (if unat (p_len p0) < kHdrLen then min len (kHdrLen - unat (p_len p0)) else 0) in
     seq (defined_when (\<lambda>_. ncopy \<le> length buf)) (\<lambda>_.
     seq (update (\<lambda>p. if unat (p_len p) < kHdrLen
           then p\<lparr>p_buf := poke (p_buf p) (unat (p_len p)) (take ncopy buf),
                  p_len := p_len p + of_nat ncopy\<rparr>
           else p)) (\<lambda>_ p.
     if ncopy < len then
       (let ndata = min (len - ncopy) (unat (hdr_getLen (p_buf p))) in
        if ndata + unat (p_len p) > PACKET_SIZE then (Throw BadPacket, p)
        else if ncopy + ndata > length buf then (Undef, p)
        else (Val (of_nat (ncopy + ndata)),
              p\<lparr>p_buf := poke (p_buf p) (unat (p_len p)) (take ndata (drop ncopy buf)),
                p_len := p_len p + of_nat ndata\<rparr>))
     else (Val (of_nat ncopy), p))) p0)"

definition verify :: "packet \<Rightarrow> bool" where
  "verify p \<longleftrightarrow> hdr_getMagic (p_buf p) = PACKET_MAGIC"

definition is_complete :: "packet \<Rightarrow> bool" where
  "is_complete p \<longleftrightarrow> unat (hdr_getLen (p_buf p)) + kHdrLen = unat (p_len p)"

definition checkOverread :: "nat \<Rightarrow> unit pact" where
  "checkOverread rsize p =
     (if unat (p_pos p) + rsize > unat (p_len p) then (Throw PacketOverread, p) else (Val (), p))"

definition take_bytes :: "nat \<Rightarrow> nat \<Rightarrow> bytes pact" where
  \<comment> \<open>copy \<open>n\<close> bytes from the cursor, advance it, then \<^verbatim>\<open>assert(_pos < lim)\<close>\<close>
  "take_bytes n lim =
     seq (defined_when (\<lambda>p. unat (p_pos p) + n \<le> PACKET_SIZE)) (\<lambda>_ p.
     let bs = peek (p_buf p) (unat (p_pos p)) n in
     seq (update (\<lambda>p. p\<lparr>p_pos := p_pos p + of_nat n\<rparr>)) (\<lambda>_.
     seq (assert_that (\<lambda>p. unat (p_pos p) < lim)) (\<lambda>_. ret bs)) p)"

definition read_word :: "nat \<Rightarrow> nat \<Rightarrow> ('a::len word) pact" where
  "read_word n lim = seq (checkOverread n) (\<lambda>_. seq (take_bytes n lim) (\<lambda>bs. ret (le_dec bs)))"

definition read_int8 :: "u8 pact" where "read_int8 = read_word 1 PACKET_SIZE"
definition read_uint8 :: "u8 pact" where "read_uint8 = read_word 1 (PACKET_SIZE - kHdrLen)"
definition read_int16 :: "u16 pact" where "read_int16 = read_word 2 (PACKET_SIZE - kHdrLen)"
definition read_uint16 :: "u16 pact" where "read_uint16 = read_word 2 (PACKET_SIZE - kHdrLen)"
definition read_int32 :: "u32 pact" where "read_int32 = read_word 4 (PACKET_SIZE - kHdrLen)"
definition read_uint32 :: "u32 pact" where "read_uint32 = read_word 4 (PACKET_SIZE - kHdrLen)"
definition read_int64 :: "u64 pact" where "read_int64 = read_word 8 (PACKET_SIZE - kHdrLen)"
definition read_uint64 :: "u64 pact" where "read_uint64 = read_word 8 (PACKET_SIZE - kHdrLen)"

definition read_cstr :: "bytes pact" where
  "read_cstr =
     seq (checkOverread 2) (\<lambda>_. seq read_uint16 (\<lambda>len.
     seq (checkOverread (unat len)) (\<lambda>_. take_bytes (unat len) (PACKET_SIZE - kHdrLen))))"

definition read_string :: "bytes pact" where
  "read_string =
     seq (checkOverread 2) (\<lambda>_. seq read_uint16 (\<lambda>len.
     seq (checkOverread (unat len)) (\<lambda>_. take_bytes (unat len) PACKET_SIZE)))"

section \<open>OPacket\<close>

definition opacket_new :: "mem \<Rightarrow> packet" where
  "opacket_new junk =
     \<lparr>p_buf = hdr_setPid 0 (hdr_setMid 0 (hdr_setFlag 0 (hdr_setLen 0 (hdr_setMagic PACKET_MAGIC junk)))),
      p_pos = 12, p_len = 12\<rparr>"

definition adjust :: "nat \<Rightarrow> unit pact" where
  "adjust n = update (\<lambda>p. let pos = p_pos p + of_nat n in
     p\<lparr>p_pos := pos, p_len := (if pos > p_len p then pos else p_len p)\<rparr>)"

definition checkOverwrite :: "nat \<Rightarrow> unit pact" where
  "checkOverwrite wsize p =
     (if unat (p_len p) + wsize > PACKET_SIZE then (Throw PacketOverwrite, p) else (Val (), p))"

definition store :: "bytes \<Rightarrow> unit pact" where
  \<comment> \<open>a store at the cursor, undefined outside the buffer\<close>
  "store bs =
     seq (defined_when (\<lambda>p. unat (p_pos p) + length bs \<le> PACKET_SIZE)) (\<lambda>_.
     update (\<lambda>p. p\<lparr>p_buf := poke (p_buf p) (unat (p_pos p)) bs\<rparr>))"

definition write_word :: "nat \<Rightarrow> 'a::len word \<Rightarrow> unit pact" where
  "write_word n d = seq (checkOverwrite n) (\<lambda>_. seq (store (le_enc n d)) (\<lambda>_. adjust n))"

definition write_int8 :: "u8 \<Rightarrow> unit pact" where "write_int8 d = write_word 1 d"
definition write_uint8 :: "u8 \<Rightarrow> unit pact" where "write_uint8 d = write_word 1 d"
definition write_int16 :: "u16 \<Rightarrow> unit pact" where "write_int16 d = write_word 2 d"
definition write_uint16 :: "u16 \<Rightarrow> unit pact" where "write_uint16 d = write_word 2 d"
definition write_int32 :: "u32 \<Rightarrow> unit pact" where "write_int32 d = write_word 4 d"
definition write_uint32 :: "u32 \<Rightarrow> unit pact" where "write_uint32 d = write_word 4 d"

definition write_int64 :: "u64 \<Rightarrow> unit pact" where
  \<comment> \<open>alone among the operators, this one does not call \<^verbatim>\<open>checkOverwrite\<close>\<close>
  "write_int64 d = seq (store (le_enc 8 d)) (\<lambda>_. adjust 8)"

definition write_uint64 :: "u64 \<Rightarrow> unit pact" where "write_uint64 d = write_word 8 d"

definition write_cstr :: "bytes \<Rightarrow> unit pact" where
  \<comment> \<open>the argument is the memory at \<^verbatim>\<open>str\<close> up to a terminating zero; both checks come before
    the length is written\<close>
  "write_cstr str =
     seq (checkOverwrite 2) (\<lambda>_.
     let len = (of_nat (length (takeWhile (\<lambda>b. b \<noteq> 0) str)) :: u16) in
     seq (checkOverwrite (unat len)) (\<lambda>_.
     seq (write_uint16 len) (\<lambda>_.
     seq (store (take (unat len) str)) (\<lambda>_. adjust (unat len)))))"

definition write_string :: "bytes \<Rightarrow> unit pact" where
  "write_string str =
     seq (checkOverwrite 2) (\<lambda>_.
     let len = (of_nat (length str) :: u16) in
     seq (write_uint16 len) (\<lambda>_.
     seq (checkOverwrite (unat len)) (\<lambda>_.
     seq (store (take (unat len) str)) (\<lambda>_. adjust (unat len)))))"

definition wind :: "packet \<Rightarrow> packet" where
  "wind p = p\<lparr>p_buf := hdr_setLen (getDataSize p) (p_buf p)\<rparr>"

end
