(* ===== verification/PacketFields.thy ===== *)
theory PacketFields
  imports Packet
begin

text \<open>
  What the packet operators promise. An output packet is abstracted to its payload, the bytes
  behind the header: every \<^verbatim>\<open>operator <<\<close> appends the wire form of its argument
  or throws. An input packet is a cursor into its payload: every \<^verbatim>\<open>operator >>\<close> takes the
  wire form off. A sequence of fields written to a packet, framed by \<^verbatim>\<open>wind\<close>, received by
  \<^verbatim>\<open>append\<close> and read back in the same order is returned unchanged.
\<close>

section \<open>Invariants\<close>

definition packet_wf :: "packet \<Rightarrow> bool" where
  \<comment> \<open>what the read operators need\<close>
  "packet_wf p \<longleftrightarrow> unat (p_pos p) \<le> unat (p_len p) \<and> unat (p_len p) \<le> PACKET_SIZE"

definition at_end :: "packet \<Rightarrow> bool" where
  \<comment> \<open>an output packet under construction: the cursor is at the end\<close>
  "at_end p \<longleftrightarrow> p_pos p = p_len p \<and> kHdrLen \<le> unat (p_len p) \<and> unat (p_len p) \<le> PACKET_SIZE"

lemma at_end_wf: "at_end p \<Longrightarrow> packet_wf p"
  by (simp add: at_end_def packet_wf_def)

definition payload :: "packet \<Rightarrow> bytes" where
  "payload p = peek (p_buf p) kHdrLen (unat (p_len p) - kHdrLen)"

definition append_bytes :: "bytes \<Rightarrow> packet \<Rightarrow> packet" where
  "append_bytes bs p = p\<lparr>p_buf := poke (p_buf p) (unat (p_len p)) bs,
     p_pos := p_len p + of_nat (length bs), p_len := p_len p + of_nat (length bs)\<rparr>"

definition room :: "packet \<Rightarrow> nat" where
  "room p = PACKET_SIZE - unat (p_len p)"

lemma at_end_new: "at_end (opacket_new junk)"
  by (simp add: at_end_def opacket_new_def)

lemma unat_len_add:
  "unat l + n \<le> PACKET_SIZE \<Longrightarrow> unat (l + of_nat n :: u16) = unat l + n"
  by (rule unat_add_of_nat) simp

lemma le_room: "at_end p \<Longrightarrow> n \<le> room p \<longleftrightarrow> unat (p_len p) + n \<le> PACKET_SIZE"
  by (auto simp: at_end_def room_def)

lemma append_bytes_len:
  "length bs \<le> room p \<Longrightarrow> at_end p \<Longrightarrow> unat (p_len (append_bytes bs p)) = unat (p_len p) + length bs"
  by (simp add: append_bytes_def le_room unat_len_add)

lemma append_bytes_at_end: "length bs \<le> room p \<Longrightarrow> at_end p \<Longrightarrow> at_end (append_bytes bs p)"
  using append_bytes_len [of bs p]
  by (auto simp: at_end_def append_bytes_def room_def)

lemma append_bytes_room: "length bs \<le> room p \<Longrightarrow> at_end p \<Longrightarrow> room (append_bytes bs p) = room p - length bs"
  using append_bytes_len [of bs p] by (simp add: room_def at_end_def)

lemma payload_append_bytes:
  assumes "length bs \<le> room p" "at_end p"
  shows "payload (append_bytes bs p) = payload p @ bs"
proof -
  from assms have l: "kHdrLen + (unat (p_len p) - kHdrLen) = unat (p_len p)"
    by (simp add: at_end_def)
  have "payload (append_bytes bs p) =
      peek (poke (p_buf p) (unat (p_len p)) bs) kHdrLen (unat (p_len p) - kHdrLen + length bs)"
    using assms append_bytes_len [OF assms] l by (simp add: payload_def append_bytes_def)
  also have "\<dots> = payload p @ bs"
    using mem.rd_extend [of "length bs" bs "p_buf p" kHdrLen "unat (p_len p) - kHdrLen"] l
    by (simp add: payload_def)
  finally show ?thesis .
qed

lemma append_bytes_hdr:
  "at_end p \<Longrightarrow> getMsgId (append_bytes bs p) = getMsgId p \<and> getFlag (append_bytes bs p) = getFlag p \<and>
     verify (append_bytes bs p) = verify p \<and> getPid (append_bytes bs p) = getPid p"
  by (simp add: at_end_def append_bytes_def getMsgId_def getFlag_def verify_def getPid_def)

lemma append_bytes_append:
  assumes "length as + length bs \<le> room p" "at_end p"
  shows "append_bytes bs (append_bytes as p) = append_bytes (as @ bs) p"
proof -
  have l: "unat (p_len p + of_nat (length as)) = unat (p_len p) + length as"
    using assms by (intro unat_len_add) (auto simp: le_room)
  have "poke (poke m i as) (i + length as) bs = poke m i (as @ bs)" for m i
    by (rule ext) (auto simp: poke_def nth_append)
  then show ?thesis
    using l by (simp add: append_bytes_def add.assoc)
qed

lemma append_bytes_Nil: "at_end p \<Longrightarrow> append_bytes [] p = p"
  by (cases p) (auto simp: append_bytes_def at_end_def poke_def intro!: ext)

section \<open>The write operators refine appending to the payload\<close>

lemma adjust_at_end:
  "at_end p \<Longrightarrow> n \<le> room p \<Longrightarrow> length bs = n \<Longrightarrow>
   adjust n (p\<lparr>p_buf := poke (p_buf p) (unat (p_len p)) bs\<rparr>) = (Val (), append_bytes bs p)"
proof -
  assume a: "at_end p" "n \<le> room p" "length bs = n"
  then have "unat (p_len p + of_nat n) = unat (p_len p) + n"
    by (intro unat_len_add) (auto simp: le_room)
  then have "p_len p + of_nat n > p_len p \<or> n = 0"
    by (cases "n = 0") (auto simp: word_less_nat_alt)
  with a show ?thesis
    by (auto simp: adjust_def append_bytes_def at_end_def Let_def)
qed

lemma store_adjust:
  assumes "at_end p" "length bs \<le> room p" "n = length bs"
  shows "seq (store bs) (\<lambda>_. adjust n) p = (Val (), append_bytes bs p)"
proof -
  from assms have "store bs p = (Val (), p\<lparr>p_buf := poke (p_buf p) (unat (p_len p)) bs\<rparr>)"
    by (auto simp: store_def seq_def at_end_def room_def)
  then show ?thesis
    using assms by (simp add: seq_Val adjust_at_end)
qed

lemma checkOverwrite_room:
  "at_end p \<Longrightarrow> checkOverwrite n p = (if n \<le> room p then (Val (), p) else (Throw PacketOverwrite, p))"
  by (auto simp: checkOverwrite_def le_room)

lemma write_word_at_end:
  "at_end p \<Longrightarrow> write_word n d p =
     (if n \<le> room p then (Val (), append_bytes (le_enc n d) p) else (Throw PacketOverwrite, p))"
  by (simp add: write_word_def seq_Val seq_Throw checkOverwrite_room store_adjust)

lemma write_int64_at_end:
  assumes "at_end p"
  shows "write_int64 d p =
     (if 8 \<le> room p then (Val (), append_bytes (le_enc 8 d) p) else (Undef, p))"
proof (cases "8 \<le> room p")
  case True
  then show ?thesis
    using assms by (simp add: write_int64_def store_adjust)
next
  case False
  then have "store (le_enc 8 d) p = (Undef, p)"
    using assms by (simp add: store_def seq_def at_end_def room_def)
  then show ?thesis
    using False by (simp add: write_int64_def seq_Undef)
qed

lemma write_string_at_end:
  assumes "at_end p" and "length s < 65536"
  shows "write_string s p =
     (if 2 + length s \<le> room p then (Val (), append_bytes (le_enc 2 (of_nat (length s) :: u16) @ s) p)
      else if 2 \<le> room p then (Throw PacketOverwrite, append_bytes (le_enc 2 (of_nat (length s) :: u16)) p)
      else (Throw PacketOverwrite, p))"
proof (cases "2 \<le> room p")
  case False
  then have "checkOverwrite 2 p = (Throw PacketOverwrite, p)"
    using assms by (simp add: checkOverwrite_room)
  then show ?thesis
    using False by (simp add: write_string_def seq_Throw)
next
  case True
  let ?len = "of_nat (length s) :: u16"
  let ?q = "append_bytes (le_enc 2 ?len) p"
  have ul: "unat ?len = length s"
    using assms by (intro unat_of_nat_small) simp
  have c: "checkOverwrite 2 p = (Val (), p)"
    using True assms by (simp add: checkOverwrite_room)
  have w: "write_uint16 ?len p = (Val (), ?q)"
    using True assms by (simp add: write_uint16_def write_word_at_end)
  have q: "at_end ?q" "room ?q = room p - 2"
    using True assms by (simp_all add: append_bytes_at_end append_bytes_room)
  have run: "write_string s p =
      seq (checkOverwrite (length s)) (\<lambda>_. seq (store s) (\<lambda>_. adjust (length s))) ?q"
    by (simp add: write_string_def seq_Val c w ul Let_def)
  show ?thesis
  proof (cases "2 + length s \<le> room p")
    case fit: True
    then have "checkOverwrite (length s) ?q = (Val (), ?q)"
      using q by (simp add: checkOverwrite_room)
    then have "write_string s p = (Val (), append_bytes s ?q)"
      using run q fit by (simp add: seq_Val store_adjust)
    then show ?thesis
      using fit assms by (simp add: append_bytes_append)
  next
    case nofit: False
    then have "checkOverwrite (length s) ?q = (Throw PacketOverwrite, ?q)"
      using q True by (simp add: checkOverwrite_room)
    then show ?thesis
      using run nofit True by (simp add: seq_Throw)
  qed
qed

lemma write_cstr_at_end:
  assumes "at_end p" and "length s < 65536" and "0 \<notin> set s"
  shows "write_cstr s p =
     (if 2 + length s \<le> room p then (Val (), append_bytes (le_enc 2 (of_nat (length s) :: u16) @ s) p)
      else if 2 \<le> room p \<and> length s \<le> room p
        then (Undef, append_bytes (le_enc 2 (of_nat (length s) :: u16)) p)
      else (Throw PacketOverwrite, p))"
proof -
  let ?len = "of_nat (length s) :: u16"
  let ?q = "append_bytes (le_enc 2 ?len) p"
  have tw: "takeWhile (\<lambda>b. b \<noteq> 0) s = s"
    using assms(3) by (intro takeWhile_eq_all_conv [THEN iffD2]) auto
  have ul: "unat ?len = length s"
    using assms by (intro unat_of_nat_small) simp
  note c = checkOverwrite_room [OF assms(1)]
  show ?thesis
  proof (cases "2 \<le> room p \<and> length s \<le> room p")
    case False
    then show ?thesis
      by (auto simp: write_cstr_def tw ul Let_def seq_def c)
  next
    case True
    have w: "write_uint16 ?len p = (Val (), ?q)"
      using True assms by (simp add: write_uint16_def write_word_at_end)
    have q: "at_end ?q" "room ?q = room p - 2"
      using True assms by (simp_all add: append_bytes_at_end append_bytes_room)
    have run: "write_cstr s p = seq (store s) (\<lambda>_. adjust (length s)) ?q"
      using True w by (simp add: write_cstr_def tw ul Let_def seq_Val c)
    show ?thesis
    proof (cases "2 + length s \<le> room p")
      case fit: True
      then have "write_cstr s p = (Val (), append_bytes s ?q)"
        using run q by (simp add: store_adjust)
      then show ?thesis
        using fit assms by (simp add: append_bytes_append)
    next
      case nofit: False
      then have "store s ?q = (Undef, ?q)"
        using q True by (auto simp: store_def seq_def at_end_def room_def)
      then show ?thesis
        using run nofit True by (simp add: seq_Undef)
    qed
  qed
qed

section \<open>Messages as sequences of fields\<close>

text \<open>One constructor per overload of \<^verbatim>\<open>operator <<\<close> and its counterpart \<^verbatim>\<open>operator >>\<close>.\<close>

datatype field =
    Int8 u8 | Uint8 u8 | Int16 u16 | Uint16 u16 | Int32 u32 | Uint32 u32
  | Int64 u64 | Uint64 u64 | CStr bytes | Str bytes

fun put_field :: "field \<Rightarrow> unit pact" where
  "put_field (Int8 d) = write_int8 d"
| "put_field (Uint8 d) = write_uint8 d"
| "put_field (Int16 d) = write_int16 d"
| "put_field (Uint16 d) = write_uint16 d"
| "put_field (Int32 d) = write_int32 d"
| "put_field (Uint32 d) = write_uint32 d"
| "put_field (Int64 d) = write_int64 d"
| "put_field (Uint64 d) = write_uint64 d"
| "put_field (CStr s) = write_cstr s"
| "put_field (Str s) = write_string s"

text \<open>A read is directed by the type of its target; the constructor's argument is ignored.\<close>

fun get_field :: "field \<Rightarrow> field pact" where
  "get_field (Int8 _) = seq read_int8 (\<lambda>x. ret (Int8 x))"
| "get_field (Uint8 _) = seq read_uint8 (\<lambda>x. ret (Uint8 x))"
| "get_field (Int16 _) = seq read_int16 (\<lambda>x. ret (Int16 x))"
| "get_field (Uint16 _) = seq read_uint16 (\<lambda>x. ret (Uint16 x))"
| "get_field (Int32 _) = seq read_int32 (\<lambda>x. ret (Int32 x))"
| "get_field (Uint32 _) = seq read_uint32 (\<lambda>x. ret (Uint32 x))"
| "get_field (Int64 _) = seq read_int64 (\<lambda>x. ret (Int64 x))"
| "get_field (Uint64 _) = seq read_uint64 (\<lambda>x. ret (Uint64 x))"
| "get_field (CStr _) = seq read_cstr (\<lambda>x. ret (CStr x))"
| "get_field (Str _) = seq read_string (\<lambda>x. ret (Str x))"

fun put_fields :: "field list \<Rightarrow> unit pact" where
  "put_fields [] = ret ()"
| "put_fields (f # fs) = seq (put_field f) (\<lambda>_. put_fields fs)"

fun get_fields :: "field list \<Rightarrow> field list pact" where
  "get_fields [] = ret []"
| "get_fields (f # fs) = seq (get_field f) (\<lambda>x. seq (get_fields fs) (\<lambda>xs. ret (x # xs)))"

text \<open>The bytes a field occupies in the payload.\<close>

fun wire :: "field \<Rightarrow> bytes" where
  "wire (Int8 d) = le_enc 1 d"
| "wire (Uint8 d) = le_enc 1 d"
| "wire (Int16 d) = le_enc 2 d"
| "wire (Uint16 d) = le_enc 2 d"
| "wire (Int32 d) = le_enc 4 d"
| "wire (Uint32 d) = le_enc 4 d"
| "wire (Int64 d) = le_enc 8 d"
| "wire (Uint64 d) = le_enc 8 d"
| "wire (CStr s) = le_enc 2 (of_nat (length s) :: u16) @ s"
| "wire (Str s) = le_enc 2 (of_nat (length s) :: u16) @ s"

definition wires :: "field list \<Rightarrow> bytes" where
  "wires fs = concat (map wire fs)"

text \<open>Strings whose length fits its 16-bit count, C strings without an inner zero.\<close>

fun well_sized :: "field \<Rightarrow> bool" where
  "well_sized (CStr s) \<longleftrightarrow> length s < 65536 \<and> 0 \<notin> set s"
| "well_sized (Str s) \<longleftrightarrow> length s < 65536"
| "well_sized _ \<longleftrightarrow> True"

lemma wires_simps [simp]: "wires [] = []" "wires (f # fs) = wire f @ wires fs"
  by (simp_all add: wires_def)

lemma put_field_at_end:
  assumes "at_end p" "well_sized f" "length (wire f) \<le> room p"
  shows "put_field f p = (Val (), append_bytes (wire f) p)"
  using assms
  by (cases f)
    (simp_all add: write_int8_def write_uint8_def write_int16_def write_uint16_def write_int32_def
      write_uint32_def write_uint64_def write_word_at_end write_int64_at_end write_string_at_end
      write_cstr_at_end)

lemma put_fields_at_end:
  assumes "at_end p" "\<forall>f\<in>set fs. well_sized f" "length (wires fs) \<le> room p"
  shows "put_fields fs p = (Val (), append_bytes (wires fs) p)"
  using assms
proof (induction fs arbitrary: p)
  case Nil
  then show ?case by (simp add: append_bytes_Nil)
next
  case (Cons f fs)
  let ?q = "append_bytes (wire f) p"
  have f: "put_field f p = (Val (), ?q)"
    using Cons.prems by (intro put_field_at_end) auto
  have "put_fields fs ?q = (Val (), append_bytes (wires fs) ?q)"
    using Cons.prems by (intro Cons.IH) (auto simp: append_bytes_at_end append_bytes_room)
  with f Cons.prems show ?case
    by (simp add: seq_Val append_bytes_append)
qed

section \<open>The read operators take wire forms off the cursor\<close>

definition ahead :: "packet \<Rightarrow> bytes \<Rightarrow> bool" where
  \<comment> \<open>\<open>bs\<close> is what the cursor is going to read\<close>
  "ahead p bs \<longleftrightarrow> unat (p_pos p) + length bs \<le> unat (p_len p) \<and> unat (p_len p) \<le> PACKET_SIZE \<and>
     peek (p_buf p) (unat (p_pos p)) (length bs) = bs"

definition advance :: "nat \<Rightarrow> packet \<Rightarrow> packet" where
  "advance n p = p\<lparr>p_pos := p_pos p + of_nat n\<rparr>"

lemma advance_pos:
  "unat (p_pos p) + n \<le> PACKET_SIZE \<Longrightarrow> unat (p_pos (advance n p)) = unat (p_pos p) + n"
  by (simp add: advance_def unat_len_add)

lemma advance_advance: "advance b (advance a p) = advance (a + b) p"
  by (simp add: advance_def add.assoc)

lemma ahead_append:
  "ahead p (as @ bs) \<Longrightarrow> ahead p as \<and> ahead (advance (length as) p) bs"
proof -
  assume a: "ahead p (as @ bs)"
  then have "unat (p_pos (advance (length as) p)) = unat (p_pos p) + length as"
    by (intro advance_pos) (simp add: ahead_def)
  with a show ?thesis
    by (auto simp: ahead_def peek_split advance_def)
qed

lemma take_bytes_ahead:
  assumes "ahead p bs" "unat (p_pos p) + length bs < lim"
  shows "take_bytes (length bs) lim p = (Val bs, advance (length bs) p)"
proof -
  have "unat (p_pos p) + length bs \<le> PACKET_SIZE"
    using assms(1) by (simp add: ahead_def)
  with assms advance_pos [OF this] show ?thesis
    by (simp add: take_bytes_def seq_def Let_def ahead_def advance_def)
qed

lemma checkOverread_ahead: "ahead p bs \<Longrightarrow> n \<le> length bs \<Longrightarrow> checkOverread n p = (Val (), p)"
  by (simp add: checkOverread_def ahead_def)

lemma read_word_ahead:
  fixes d :: "'a::len word"
  assumes "ahead p (le_enc n d)" "unat (p_pos p) + n < lim" "LENGTH('a) \<le> 8 * n"
  shows "read_word n lim p = (Val d, advance n p)"
proof -
  have t: "take_bytes n lim p = (Val (le_enc n d), advance n p)"
    using take_bytes_ahead [OF assms(1), of lim] assms(2) by simp
  have c: "checkOverread n p = (Val (), p)"
    using assms(1) by (rule checkOverread_ahead) simp
  show ?thesis
    using assms(3) by (simp add: read_word_def seq_Val c t)
qed

lemma read_sized_ahead:
  assumes "ahead p (le_enc 2 (of_nat (length s) :: u16) @ s)" "length s < 65536"
    and "unat (p_pos p) + 2 + length s < lim" "unat (p_pos p) + 2 < PACKET_SIZE - kHdrLen"
  shows "seq (checkOverread 2) (\<lambda>_. seq read_uint16 (\<lambda>len.
     seq (checkOverread (unat len)) (\<lambda>_. take_bytes (unat len) lim))) p =
     (Val s, advance (2 + length s) p)"
proof -
  let ?len = "of_nat (length s) :: u16"
  let ?q = "advance 2 p"
  have ul: "unat ?len = length s"
    using assms(2) by (intro unat_of_nat_small) simp
  have a: "ahead p (le_enc 2 ?len)" "ahead ?q s"
    using ahead_append [OF assms(1)] by simp_all
  have c2: "checkOverread 2 p = (Val (), p)"
    using a(1) by (rule checkOverread_ahead) simp
  have r: "read_uint16 p = (Val ?len, ?q)"
    unfolding read_uint16_def using a(1) assms(4) by (intro read_word_ahead) simp_all
  have cs: "checkOverread (length s) ?q = (Val (), ?q)"
    using a(2) by (rule checkOverread_ahead) simp
  have "unat (p_pos ?q) = unat (p_pos p) + 2"
    using a(1) by (intro advance_pos) (simp add: ahead_def)
  then have t: "take_bytes (length s) lim ?q = (Val s, advance (length s) ?q)"
    using a(2) assms(3) by (intro take_bytes_ahead) simp_all
  show ?thesis
    by (simp add: seq_Val c2 r ul cs t advance_advance)
qed

lemma get_field_ahead:
  assumes "ahead p (wire f)" "well_sized f"
    and "unat (p_pos p) + length (wire f) < PACKET_SIZE - kHdrLen"
  shows "get_field f p = (Val f, advance (length (wire f)) p)"
  using assms
  by (cases f)
    (simp_all add: read_int8_def read_uint8_def read_int16_def read_uint16_def [symmetric]
      read_int32_def read_uint32_def read_int64_def read_uint64_def seq_Val
      read_cstr_def read_string_def read_word_ahead read_sized_ahead,
     simp_all add: read_uint16_def read_word_ahead seq_Val)

lemma get_fields_ahead:
  assumes "ahead p (wires fs)" "\<forall>f\<in>set fs. well_sized f"
    and "unat (p_pos p) + length (wires fs) < PACKET_SIZE - kHdrLen"
  shows "get_fields fs p = (Val fs, advance (length (wires fs)) p)"
  using assms
proof (induction fs arbitrary: p)
  case Nil
  then show ?case by (simp add: advance_def)
next
  case (Cons f fs)
  let ?q = "advance (length (wire f)) p"
  have a: "ahead p (wire f)" "ahead ?q (wires fs)"
    using ahead_append [of p "wire f" "wires fs"] Cons.prems by simp_all
  have pos: "unat (p_pos ?q) = unat (p_pos p) + length (wire f)"
    using a(1) by (intro advance_pos) (simp add: ahead_def)
  have f: "get_field f p = (Val f, ?q)"
    using Cons.prems a by (intro get_field_ahead) auto
  have "get_fields fs ?q = (Val fs, advance (length (wires fs)) ?q)"
    using Cons.prems a pos by (intro Cons.IH) auto
  with f show ?case
    by (simp add: seq_Val advance_advance)
qed

end
