(* ===== verification/PacketFraming.thy ===== *)
theory PacketFraming
  imports PacketFields
begin

text \<open>
  How \<^verbatim>\<open>IPacket::append\<close> reassembles a packet from what the socket delivers, and the
  end-to-end statement: fields written by one side are read back by the other.
\<close>

section \<open>Frames\<close>

definition frame_body_len :: "bytes \<Rightarrow> nat" where
  "frame_body_len M = unat (le_dec (take 2 (drop 4 M)) :: u16)"

definition frame :: "bytes \<Rightarrow> bool" where
  \<comment> \<open>the bytes of one packet: header and as many data bytes as its length field says\<close>
  "frame M \<longleftrightarrow> length M = kHdrLen + frame_body_len M \<and> length M \<le> PACKET_SIZE"

text \<open>An input packet that has received the bytes \<open>r\<close>.\<close>

definition received :: "packet \<Rightarrow> bytes \<Rightarrow> bool" where
  "received p r \<longleftrightarrow> getBuf p = r \<and> unat (p_len p) \<le> PACKET_SIZE \<and> p_pos p = 12"

lemma received_len: "received p r \<Longrightarrow> unat (p_len p) = length r"
  by (auto simp: received_def getBuf_def)

lemma received_new: "received (ipacket_new junk) []"
  by (simp add: received_def getBuf_def ipacket_new_def ipacket_reset_def)

lemma received_getLen:
  assumes "received p r" "6 \<le> length r"
  shows "hdr_getLen (p_buf p) = le_dec (take 2 (drop 4 r))"
proof -
  have "r = peek (p_buf p) 0 (length r)"
    using assms(1) received_len [OF assms(1)] by (simp add: received_def getBuf_def)
  moreover have "take 2 (drop 4 (peek (p_buf p) 0 (length r))) = peek (p_buf p) 4 2"
    using assms(2) by (simp add: drop_peek take_peek)
  ultimately have "take 2 (drop 4 r) = peek (p_buf p) 4 2"
    by metis
  then show ?thesis
    by (simp add: hdr_getLen_def)
qed

lemma received_grow:
  assumes "received p r" "length r + length c \<le> PACKET_SIZE"
  shows "received (p\<lparr>p_buf := poke (p_buf p) (unat (p_len p)) c, p_len := p_len p + of_nat (length c)\<rparr>)
    (r @ c)"
proof -
  have l: "unat (p_len p + of_nat (length c)) = length r + length c"
    using assms received_len [OF assms(1)] by (simp add: unat_len_add)
  have "peek (poke (p_buf p) (length r) c) 0 (length r + length c) = peek (p_buf p) 0 (length r) @ c"
    using mem.rd_extend [of "length c" c "p_buf p" 0 "length r"] by simp
  then show ?thesis
    using assms l received_len [OF assms(1)] by (simp add: received_def getBuf_def)
qed

section \<open>append\<close>

text \<open>One call, in three cases: the header stays incomplete, it becomes complete, it was.\<close>

lemma append_short_header:
  assumes "received p r" "0 < length c" "length r + length c \<le> kHdrLen" "length r < kHdrLen"
  shows "ip_append c (length c) p =
    (Val (of_nat (length c)),
     p\<lparr>p_buf := poke (p_buf p) (unat (p_len p)) c, p_len := p_len p + of_nat (length c)\<rparr>)"
  using assms received_len [OF assms(1)]
  by (simp add: ip_append_def seq_def Let_def min_absorb1)

lemma append_body:
  assumes "received p r" "0 < length c" "kHdrLen \<le> length r"
    and "length c \<le> unat (hdr_getLen (p_buf p))" "length r + length c \<le> PACKET_SIZE"
  shows "ip_append c (length c) p =
    (Val (of_nat (length c)),
     p\<lparr>p_buf := poke (p_buf p) (unat (p_len p)) c, p_len := p_len p + of_nat (length c)\<rparr>)"
  using assms received_len [OF assms(1)]
  by (simp add: ip_append_def seq_def Let_def min_absorb1)

lemma append_cross_header:
  assumes r: "received p r" "length r < kHdrLen" "kHdrLen < length r + length c"
    and h: "h = take (kHdrLen - length r) c" and b: "b = drop (kHdrLen - length r) c"
    and body: "length b \<le> unat (le_dec (take 2 (drop 4 (r @ h))) :: u16)"
      "length r + length c \<le> PACKET_SIZE"
  shows "\<exists>p'. ip_append c (length c) p = (Val (of_nat (length c)), p') \<and> received p' (r @ c)"
proof -
  let ?p1 = "p\<lparr>p_buf := poke (p_buf p) (unat (p_len p)) h, p_len := p_len p + of_nat (length h)\<rparr>"
  let ?p2 = "?p1\<lparr>p_buf := poke (p_buf ?p1) (unat (p_len ?p1)) b, p_len := p_len ?p1 + of_nat (length b)\<rparr>"
  have lh: "length h = kHdrLen - length r" "length b = length c - (kHdrLen - length r)" "h @ b = c"
    using r(3) by (simp_all add: h b)
  have p1: "received ?p1 (r @ h)"
    using r lh by (intro received_grow) simp_all
  have l1: "unat (p_len ?p1) = kHdrLen"
    using received_len [OF p1] lh r(2) by simp
  have "received ?p2 ((r @ h) @ b)"
    using body lh r by (intro received_grow [OF p1]) auto
  then have rec: "received ?p2 (r @ c)"
    using lh(3) by simp
  have gl: "hdr_getLen (p_buf ?p1) = le_dec (take 2 (drop 4 (r @ h)))"
    using lh r(2) by (intro received_getLen [OF p1]) simp
  have nd: "min (length c - (kHdrLen - length r)) (unat (hdr_getLen (p_buf ?p1))) = length b"
    using body(1) lh(2) unfolding gl by simp
  have lim: "length b + unat (p_len ?p1) \<le> PACKET_SIZE"
    using body(2) lh r(2) unfolding l1 by simp
  have nc: "min (length c) (kHdrLen - length r) = kHdrLen - length r"
    using r(3) by simp
  have "kHdrLen - length r < length c" "c \<noteq> []"
    using r(2,3) by auto
  then have "ip_append c (length c) p = (Val (of_nat (length c)), ?p2)"
    using r(2,3) received_len [OF r(1)] nd lim lh
    by (simp add: ip_append_def seq_def Let_def nc h [symmetric] b [symmetric])
  with rec show ?thesis by blast
qed

text \<open>Any non-empty continuation of a prefix of a frame is taken whole.\<close>

lemma append_prefix:
  assumes "received p r" "c \<noteq> []" "frame M" "M = r @ c @ rest"
  shows "\<exists>p'. ip_append c (length c) p = (Val (of_nat (length c)), p') \<and> received p' (r @ c)"
proof -
  have len: "length r + length c + length rest = kHdrLen + frame_body_len M"
      "length r + length c \<le> PACKET_SIZE"
    using assms(3) by (auto simp: frame_def assms(4))
  have hdr: "take 2 (drop 4 (r @ c')) = take 2 (drop 4 M)"
    if "6 \<le> length (r @ c')" "\<exists>rest'. M = (r @ c') @ rest'" for c'
    using that by (auto simp: )
  consider (short) "length r < kHdrLen" "length r + length c \<le> kHdrLen"
    | (cross) "length r < kHdrLen" "kHdrLen < length r + length c"
    | (body) "kHdrLen \<le> length r"
    by linarith
  then show ?thesis
  proof cases
    case short
    then show ?thesis
      using append_short_header [of p r c] received_grow [of p r c] assms(1,2) len(2) by auto
  next
    case cross
    let ?h = "take (kHdrLen - length r) c"
    let ?b = "drop (kHdrLen - length r) c"
    have "take 2 (drop 4 (r @ ?h)) = take 2 (drop 4 M)"
      using cross assms(4) by (intro hdr) (auto intro: exI [of _ "?b @ rest"])
    then have e: "unat (le_dec (take 2 (drop 4 (r @ ?h))) :: u16) = frame_body_len M"
      by (simp only: frame_body_len_def)
    have "length ?b \<le> unat (le_dec (take 2 (drop 4 (r @ ?h))) :: u16)"
      unfolding e using cross len(1) by simp
    then show ?thesis
      using len(2) by (rule append_cross_header [OF assms(1) cross refl refl])
  next
    case body
    have "unat (hdr_getLen (p_buf p)) = frame_body_len M"
      using body received_getLen [OF assms(1)] hdr [of "[]"] assms(4)
      by (simp add: frame_body_len_def)
    then show ?thesis
      using append_body [of p r c] received_grow [of p r c] assms(1,2) body len by auto
  qed
qed

section \<open>Reassembly\<close>

fun feed :: "bytes list \<Rightarrow> unit pact" where
  \<comment> \<open>the fragments of one packet, each passed to \<^verbatim>\<open>append\<close> as it arrives\<close>
  "feed [] = ret ()"
| "feed (c # cs) = seq (ip_append c (length c)) (\<lambda>_. feed cs)"

lemma feed_prefix:
  assumes "received p r" "[] \<notin> set cs" "frame M" "M = r @ concat cs @ rest"
  shows "\<exists>p'. feed cs p = (Val (), p') \<and> received p' (r @ concat cs)"
  using assms
proof (induction cs arbitrary: p r)
  case Nil
  then show ?case by simp
next
  case (Cons c cs)
  have "\<exists>p'. ip_append c (length c) p = (Val (of_nat (length c)), p') \<and> received p' (r @ c)"
    using Cons.prems by (intro append_prefix [where rest = "concat cs @ rest"]) auto
  then obtain q where q: "ip_append c (length c) p = (Val (of_nat (length c)), q)" "received q (r @ c)"
    by blast
  have "\<exists>p'. feed cs q = (Val (), p') \<and> received p' ((r @ c) @ concat cs)"
    using Cons.prems q(2) by (intro Cons.IH) auto
  with q(1) show ?case
    by (auto simp: seq_Val)
qed

lemma received_complete:
  assumes "received p r" "kHdrLen \<le> length r"
  shows "frame r \<longleftrightarrow> is_complete p"
proof -
  have "unat (hdr_getLen (p_buf p)) = frame_body_len r"
    using received_getLen [OF assms(1)] assms(2) by (simp add: frame_body_len_def)
  then show ?thesis
    using received_len [OF assms(1)] assms(1)
    by (simp add: frame_def is_complete_def received_def) linarith
qed

end
