(* ===== verification/PacketProps.thy ===== *)
theory PacketProps
  imports PacketFraming
begin

text \<open>
  The properties of the packet classes: end-to-end transport, reassembly, memory safety of
  the operators and the exact inputs on which the three unchecked ones leave the buffer.
\<close>

section \<open>From writer to reader\<close>

lemma getBuf_split:
  "kHdrLen \<le> unat (p_len p) \<Longrightarrow> getBuf p = peek (p_buf p) 0 kHdrLen @ payload p"
  using peek_split [of "p_buf p" 0 kHdrLen "unat (p_len p) - kHdrLen"]
  by (simp add: getBuf_def payload_def)

lemma getBuf_hdr:
  assumes "getBuf p = getBuf q" "kHdrLen \<le> unat (p_len p)"
  shows "getMsgId p = getMsgId q" "verify p = verify q" "getFlag p = getFlag q"
    "hdr_getLen (p_buf p) = hdr_getLen (p_buf q)" "payload p = payload q"
proof -
  have l: "unat (p_len p) = unat (p_len q)"
    using arg_cong [OF assms(1), of length] by (simp add: getBuf_def)
  have e: "peek (p_buf p) 0 kHdrLen = peek (p_buf q) 0 kHdrLen \<and> payload p = payload q"
    using assms l by (simp add: getBuf_split)
  with hdr_get_cong [of "p_buf p" "p_buf q"]
  show "getMsgId p = getMsgId q" "verify p = verify q" "getFlag p = getFlag q"
    "hdr_getLen (p_buf p) = hdr_getLen (p_buf q)" "payload p = payload q"
    by (simp_all add: getMsgId_def verify_def getFlag_def)
qed

lemma wind_len: "p_len (wind p) = p_len p"
  by (simp add: wind_def)

lemma getDataSize_unat:
  "kHdrLen \<le> unat (p_len p) \<Longrightarrow> unat (getDataSize p) = unat (p_len p) - kHdrLen"
  by (auto simp: getDataSize_def unat_sub word_le_nat_alt)

lemma wind_frame: "at_end p \<Longrightarrow> frame (getBuf (wind p))"
proof -
  assume p: "at_end p"
  have "take 2 (drop 4 (getBuf (wind p))) = peek (p_buf (wind p)) 4 2"
    using p by (auto simp: getBuf_def wind_len at_end_def drop_peek take_peek)
  then have "frame_body_len (getBuf (wind p)) = unat (hdr_getLen (p_buf (wind p)))"
    by (simp add: frame_body_len_def hdr_getLen_def)
  also have "\<dots> = unat (p_len p) - kHdrLen"
    using p by (simp add: wind_def getDataSize_unat at_end_def)
  finally show ?thesis
    using p by (simp add: frame_def getBuf_def wind_len at_end_def)
qed

lemma wind_keeps: "payload (wind p) = payload p" "getMsgId (wind p) = getMsgId p" "verify (wind p) = verify p"
  by (simp_all add: payload_def wind_def getMsgId_def verify_def)

lemma received_ahead:
  assumes "received p r" "kHdrLen \<le> length r"
  shows "ahead p (payload p)"
  using assms received_len [OF assms(1)] by (simp add: received_def ahead_def payload_def)

lemma opacket_fields:
  fixes mid :: u16 and junk :: mem
  assumes "\<forall>f\<in>set fs. well_sized f" "length (wires fs) \<le> PACKET_SIZE - kHdrLen"
  defines "op \<equiv> append_bytes (wires fs) (setMsgId mid (opacket_new junk))"
  shows "put_fields fs (setMsgId mid (opacket_new junk)) = (Val (), op)"
    "at_end op" "payload op = wires fs" "getMsgId op = mid" "verify op"
proof -
  let ?p = "setMsgId mid (opacket_new junk)"
  have p: "at_end ?p" "room ?p = PACKET_SIZE - kHdrLen" "payload ?p = []" "getMsgId ?p = mid" "verify ?p"
    by (simp_all add: at_end_def room_def setMsgId_def opacket_new_def payload_def getMsgId_def verify_def)
  show "put_fields fs ?p = (Val (), op)"
    unfolding op_def using assms(1,2) p by (intro put_fields_at_end) simp_all
  show "at_end op" "payload op = wires fs" "getMsgId op = mid" "verify op"
    using assms(2) p append_bytes_hdr [OF p(1)]
    by (simp_all add: op_def append_bytes_at_end payload_append_bytes)
qed

text \<open>
  C1: A message of any fields written to a fresh output packet with \<^verbatim>\<open>operator <<\<close>, closed
  with \<^verbatim>\<open>wind\<close> and delivered in any fragmentation to an input packet by \<^verbatim>\<open>append\<close>
  arrives complete, with its magic and message id, and \<^verbatim>\<open>operator >>\<close> returns exactly the fields
  written, as long as the strings fit their 16-bit counts and the payload stays 24 bytes below
  the packet size (12 for the header, 12 for the assertions of the read operators).
\<close>

theorem packet_end_to_end:
  assumes "\<forall>f\<in>set fs. well_sized f" "length (wires fs) < PACKET_SIZE - 2 * kHdrLen"
  shows "\<exists>op. put_fields fs (setMsgId mid (opacket_new junk)) = (Val (), op) \<and>
    (\<forall>cs. [] \<notin> set cs \<longrightarrow> concat cs = getBuf (wind op) \<longrightarrow>
      (\<exists>ip. feed cs (ipacket_new junk') = (Val (), ip) \<and> is_complete ip \<and> verify ip \<and>
        getMsgId ip = mid \<and> fst (get_fields fs ip) = Val fs))"
proof -
  define op where "op = append_bytes (wires fs) (setMsgId mid (opacket_new junk))"
  have op: "put_fields fs (setMsgId mid (opacket_new junk)) = (Val (), op)"
      "at_end op" "payload op = wires fs" "getMsgId op = mid" "verify op"
    unfolding op_def using opacket_fields [OF assms(1), of mid junk] assms(2) by simp_all
  let ?M = "getBuf (wind op)"
  have M: "frame ?M" using op(2) by (rule wind_frame)
  then have M12: "kHdrLen \<le> length ?M" by (simp add: frame_def)
  have "\<exists>ip. feed cs (ipacket_new junk') = (Val (), ip) \<and> is_complete ip \<and> verify ip \<and>
      getMsgId ip = mid \<and> fst (get_fields fs ip) = Val fs"
    if cs: "[] \<notin> set cs" "concat cs = ?M" for cs
  proof -
    obtain ip where ip: "feed cs (ipacket_new junk') = (Val (), ip)" "received ip ?M"
      using feed_prefix [OF received_new cs(1) M, of "[]"] cs(2) by auto
    have same: "getBuf ip = getBuf (wind op)" and l12: "kHdrLen \<le> unat (p_len ip)"
      using ip(2) M12 received_len [OF ip(2)] by (simp_all add: received_def)
    have hdr: "is_complete ip" "verify ip" "getMsgId ip = mid" "payload ip = wires fs"
      using received_complete [OF ip(2) M12] M getBuf_hdr [OF same l12] op
      by (simp_all add: wind_keeps)
    have "ahead ip (wires fs)"
      using received_ahead [OF ip(2) M12] hdr(4) by simp
    moreover have "unat (p_pos ip) = 12"
      using ip(2) by (simp add: received_def)
    ultimately have "get_fields fs ip = (Val fs, advance (length (wires fs)) ip)"
      using assms by (intro get_fields_ahead) simp_all
    with ip(1) hdr show ?thesis by auto
  qed
  with op(1) show ?thesis by blast
qed

theorem packet_end_to_end_witness:
  "\<exists>op. put_fields [Str [104, 105], Int32 7, CStr [97]] (setMsgId 0x3001 (opacket_new (\<lambda>_. 0))) = (Val (), op) \<and>
    (\<forall>cs. [] \<notin> set cs \<longrightarrow> concat cs = getBuf (wind op) \<longrightarrow>
      (\<exists>ip. feed cs (ipacket_new (\<lambda>_. 1)) = (Val (), ip) \<and> is_complete ip \<and> verify ip \<and>
        getMsgId ip = 0x3001 \<and>
        fst (get_fields [Str [104, 105], Int32 7, CStr [97]] ip) = Val [Str [104, 105], Int32 7, CStr [97]]))"
  by (rule packet_end_to_end) simp_all

section \<open>Reassembly\<close>

text \<open>
  C3: \<^verbatim>\<open>append\<close> reassembles a packet from fragments cut anywhere, inside the header too: fed
  the non-empty fragments of one frame in order, a reset input packet ends up holding exactly
  the frame and is complete.
\<close>

theorem fragments_reassemble:
  assumes "frame M" "concat cs = M" "[] \<notin> set cs"
  shows "\<exists>p. feed cs (ipacket_new junk) = (Val (), p) \<and> getBuf p = M \<and> is_complete p"
proof -
  obtain p where p: "feed cs (ipacket_new junk) = (Val (), p)" "received p M"
    using feed_prefix [OF received_new assms(3,1), of "[]"] assms(2) by auto
  then show ?thesis
    using received_complete [OF p(2)] assms(1) by (auto simp: received_def frame_def)
qed

theorem fragments_reassemble_witness:
  "\<exists>p. feed [[80, 80, 0, 0, 2], [0, 1, 0, 0, 0, 0, 0, 8], [9]] (ipacket_new (\<lambda>_. 0)) = (Val (), p) \<and>
    getBuf p = [80, 80, 0, 0, 2, 0, 1, 0, 0, 0, 0, 0, 8, 9] \<and> is_complete p"
  by (rule fragments_reassemble) (simp_all add: frame_def frame_body_len_def le_dec_def)

text \<open>
  A fragment that reaches beyond the packet is not cut at the packet's end: once body bytes
  have arrived, \<^verbatim>\<open>append\<close> compares the fragment with the whole body length and not with what is
  still missing, so it swallows the first bytes of the next packet, and the packet, now longer than
  its length field says, does not count as complete.
\<close>

theorem append_overruns:
  assumes "received p r" "kHdrLen < length r" "length r \<le> kHdrLen + n" "n = unat (hdr_getLen (p_buf p))"
    and "kHdrLen + n - length r < length c" "length c \<le> n" "length r + length c \<le> PACKET_SIZE"
  shows "\<exists>p'. ip_append c (length c) p = (Val (of_nat (length c)), p') \<and> getBuf p' = r @ c \<and>
    \<not> is_complete p'"
proof -
  let ?p = "p\<lparr>p_buf := poke (p_buf p) (unat (p_len p)) c, p_len := p_len p + of_nat (length c)\<rparr>"
  have c: "0 < length c" using assms(5) by linarith
  have run: "ip_append c (length c) p = (Val (of_nat (length c)), ?p)"
    using assms c by (intro append_body) auto
  have rec: "received ?p (r @ c)"
    using assms by (intro received_grow) auto
  have "hdr_getLen (p_buf ?p) = hdr_getLen (p_buf p)"
    using assms(2) received_len [OF assms(1)] by simp
  then have "\<not> is_complete ?p"
    using received_len [OF rec] assms(4,5) unfolding is_complete_def by simp
  with run rec show ?thesis by (auto simp: received_def)
qed

theorem append_overruns_witness:
  "\<exists>p'. ip_append [2, 80] 2 (snd (feed [[80, 80, 0, 0, 2, 0, 1, 0, 0, 0, 0, 0, 1]] (ipacket_new (\<lambda>_. 0)))) =
      (Val 2, p') \<and>
    getBuf p' = [80, 80, 0, 0, 2, 0, 1, 0, 0, 0, 0, 0, 1, 2, 80] \<and> \<not> is_complete p'"
proof -
  let ?r = "[80, 80, 0, 0, 2, 0, 1, 0, 0, 0, 0, 0, 1] :: bytes"
  obtain p where p: "feed [?r] (ipacket_new (\<lambda>_. 0)) = (Val (), p)" "received p ?r"
    using feed_prefix [OF received_new, of "[?r]" "?r @ [2]" "[2]" "\<lambda>_. 0"]
    by (auto simp: frame_def frame_body_len_def le_dec_def)
  have n: "2 = unat (hdr_getLen (p_buf p))"
    using received_getLen [OF p(2)] by (simp add: le_dec_def)
  have "\<exists>p'. ip_append [2, 80] (length [2, 80 :: u8]) p = (Val (of_nat (length [2, 80 :: u8])), p') \<and>
      getBuf p' = ?r @ [2, 80] \<and> \<not> is_complete p'"
    by (rule append_overruns [OF p(2) _ _ n]) simp_all
  then show ?thesis using p(1) by (simp del: feed.simps add: numeral_2_eq_2)
qed

section \<open>Memory safety\<close>

lemma preserves_wf_basic:
  "preserves packet_wf (checkOverwrite n)" "preserves packet_wf (store bs)"
  "preserves packet_wf (checkOverread n)"
  by (auto simp: preserves_def checkOverwrite_def checkOverread_def store_def seq_def packet_wf_def)

lemma adjust_wf: "packet_wf p \<Longrightarrow> unat (p_pos p) + n \<le> PACKET_SIZE \<Longrightarrow> packet_wf (snd (adjust n p))"
  using unat_len_add [of "p_pos p" n]
  by (auto simp: adjust_def packet_wf_def Let_def word_less_nat_alt word_le_nat_alt)

text \<open>A checked store of \<open>n\<close> bytes: the check is on the length, the store at the cursor.\<close>

lemma checked_store:
  assumes "packet_wf p" "n = length bs"
  defines "m \<equiv> seq (checkOverwrite n) (\<lambda>_. seq (store bs) (\<lambda>_. adjust n)) p"
  shows "fst m \<noteq> Undef \<and> fst m \<noteq> Abort \<and> packet_wf (snd m)"
proof (cases "unat (p_len p) + n \<le> PACKET_SIZE")
  case False
  then show ?thesis
    using assms(1) by (simp add: m_def checkOverwrite_def seq_def)
next
  case True
  let ?q = "p\<lparr>p_buf := poke (p_buf p) (unat (p_pos p)) bs\<rparr>"
  have "packet_wf ?q" "unat (p_pos ?q) + n \<le> PACKET_SIZE"
    using assms(1) True by (auto simp: packet_wf_def)
  then have "packet_wf (snd (adjust n ?q))" by (rule adjust_wf)
  moreover have "store bs p = (Val (), ?q)"
    using assms(1,2) True by (auto simp: store_def seq_def packet_wf_def)
  ultimately show ?thesis
    using True by (simp add: m_def seq_Val checkOverwrite_def) (simp add: adjust_def)
qed

lemma write_word_safe:
  "packet_wf p \<Longrightarrow> fst (write_word n d p) \<noteq> Undef \<and> fst (write_word n d p) \<noteq> Abort \<and>
     packet_wf (snd (write_word n d p))"
  unfolding write_word_def by (rule checked_store) simp_all

lemma write_string_safe:
  assumes "packet_wf p"
  shows "fst (write_string s p) \<noteq> Undef \<and> fst (write_string s p) \<noteq> Abort \<and>
    packet_wf (snd (write_string s p))"
proof -
  let ?len = "of_nat (length s) :: u16"
  have "length (take (unat ?len) s) = unat ?len"
    by (simp add: unat_of_nat take_bit_eq_mod)
  note body = checked_store [OF _ this [symmetric]]
  have len: "write_uint16 ?len q = write_word 2 ?len q" for q
    by (simp add: write_uint16_def)
  obtain r q where w: "write_uint16 ?len p = (r, q)" by (cases "write_uint16 ?len p")
  then have q: "packet_wf q" "r \<noteq> Undef" "r \<noteq> Abort"
    using write_word_safe [OF assms, of 2 ?len] len by auto
  show ?thesis
    using assms q body [of q] w
    by (cases r) (auto simp: write_string_def seq_def Let_def checkOverwrite_def)
qed

text \<open>
  Every \<^verbatim>\<open>operator <<\<close> except those for \<^verbatim>\<open>int64\<close> and \<^verbatim>\<open>const char*\<close> is memory safe on
  any well-formed packet, also with the cursor moved back by \<^verbatim>\<open>setPos\<close>: it returns or throws,
  and leaves a well-formed packet either way.
\<close>

theorem checked_writes_safe:
  assumes "packet_wf p" "\<forall>d. f \<noteq> Int64 d" "\<forall>s. f \<noteq> CStr s"
  shows "fst (put_field f p) \<noteq> Undef \<and> fst (put_field f p) \<noteq> Abort \<and> packet_wf (snd (put_field f p))"
  using assms
  by (cases f)
    (simp_all add: write_word_safe write_string_safe write_int8_def write_uint8_def write_int16_def
      write_uint16_def write_int32_def write_uint32_def write_uint64_def)

theorem checked_writes_safe_witness:
  "fst (put_field (Str [1, 2]) (setPos 3 (opacket_new (\<lambda>_. 0)))) \<noteq> Undef \<and>
   fst (put_field (Str [1, 2]) (setPos 3 (opacket_new (\<lambda>_. 0)))) \<noteq> Abort \<and>
   packet_wf (snd (put_field (Str [1, 2]) (setPos 3 (opacket_new (\<lambda>_. 0)))))"
  by (rule checked_writes_safe) (simp_all add: packet_wf_def setPos_def opacket_new_def)

text \<open>
  C6: The two exceptions, exactly. On a packet under construction, \<^verbatim>\<open>operator <<(int64)\<close> writes
  behind the buffer when fewer than 8 bytes are left, because it does not check; and
  \<^verbatim>\<open>operator <<(const char* )\<close>, for a string of fewer than 65536 characters, does when at least the two bytes of
  its length prefix are left, and the string fits without its prefix but not with it, because both checks are
  made before the prefix is written. With fewer than two bytes left, or too few for the string alone, it throws.
\<close>

theorem unchecked_writes_overflow:
  assumes "at_end p" "length s < 65536" "0 \<notin> set s"
  shows "(fst (write_int64 d p) = Undef \<longleftrightarrow> room p < 8) \<and>
    (fst (write_cstr s p) = Undef \<longleftrightarrow> 2 \<le> room p \<and> length s \<le> room p \<and> room p < 2 + length s) \<and>
    (fst (write_cstr s p) = Throw PacketOverwrite \<longleftrightarrow> room p < 2 \<or> room p < length s)"
  using assms by (auto simp: write_int64_at_end write_cstr_at_end)

theorem unchecked_writes_overflow_witness:
  "fst (write_int64 5 \<lparr>p_buf = (\<lambda>_. 0), p_pos = 32765, p_len = 32765\<rparr>) = Undef \<and>
   fst (write_cstr [1, 2] \<lparr>p_buf = (\<lambda>_. 0), p_pos = 32765, p_len = 32765\<rparr>) = Undef"
  using unchecked_writes_overflow
    [of "\<lparr>p_buf = (\<lambda>_. 0), p_pos = 32765, p_len = 32765\<rparr>" "[1, 2]" 5]
  by (simp add: at_end_def room_def)

text \<open>
  Reads never leave the packet: the check makes the copy defined. What follows is the
  assertion on the cursor.
\<close>

lemma take_bytes_cases:
  assumes "packet_wf p" "unat (p_pos p) + n \<le> unat (p_len p)"
  shows "take_bytes n lim p =
    ((if unat (p_pos p) + n < lim then Val (peek (p_buf p) (unat (p_pos p)) n) else Abort), advance n p)"
proof -
  have "unat (p_pos p) + n \<le> PACKET_SIZE"
    using assms by (simp add: packet_wf_def)
  with advance_pos [OF this] show ?thesis
    by (simp add: take_bytes_def seq_def Let_def advance_def)
qed

lemma read_word_cases:
  assumes "packet_wf p"
  shows "read_word n lim p =
    (if unat (p_pos p) + n > unat (p_len p) then (Throw PacketOverread, p)
     else if unat (p_pos p) + n < lim then (Val (le_dec (peek (p_buf p) (unat (p_pos p)) n)), advance n p)
     else (Abort, advance n p))"
proof (cases "unat (p_pos p) + n > unat (p_len p)")
  case True
  then show ?thesis by (simp add: read_word_def seq_def checkOverread_def)
next
  case False
  then have "checkOverread n p = (Val (), p)" by (simp add: checkOverread_def)
  with False show ?thesis
    using take_bytes_cases [OF assms, of n lim]
    by (auto simp: read_word_def seq_Val seq_Abort)
qed

text \<open>
  \<^verbatim>\<open>operator >>(uint32&)\<close> on a well-formed packet, on every branch: it throws
  \<^verbatim>\<open>PacketOverread\<close> and leaves the packet alone when fewer than four bytes are left; it
  aborts, although the bytes are there, when the cursor would come within twelve bytes of the end of
  the buffer, because the assertion compares it with \<^verbatim>\<open>PACKET_SIZE - sizeof(PacketHdr)\<close>; otherwise
  it returns the little-endian word at the cursor and advances by four.
\<close>

theorem read_uint32_branches:
  assumes "packet_wf p"
  shows "read_uint32 p =
    (if unat (p_pos p) + 4 > unat (p_len p) then (Throw PacketOverread, p)
     else if unat (p_pos p) + 4 < PACKET_SIZE - kHdrLen
       then (Val (le_dec (peek (p_buf p) (unat (p_pos p)) 4)), advance 4 p)
     else (Abort, advance 4 p))"
  unfolding read_uint32_def by (rule read_word_cases [OF assms])

theorem read_uint32_branches_witness:
  "fst (read_uint32 \<lparr>p_buf = (\<lambda>_. 1), p_pos = 32755, p_len = 32768\<rparr>) = Abort \<and>
   fst (read_uint32 \<lparr>p_buf = (\<lambda>_. 1), p_pos = 20, p_len = 22\<rparr>) = Throw PacketOverread"
  by (simp add: read_uint32_branches packet_wf_def)

end
