(* ===== verification/PacketRuns.thy ===== *)
theory PacketRuns
  imports PacketProps
begin

text \<open>
  Whole runs of packet operations, whatever their outcomes: a well-formed packet stays well-formed
  and is never used outside its buffer (a type-soundness property of the two packet classes), and a
  message that arrives cut short is always reported.
\<close>

section \<open>Operations of a client\<close>

datatype packet_op =
    Put field | Get field | Set_pos u16 | Set_msg_id u16 | Set_flag u16 | Set_pid u32 | Set_data bool bytes | Wind

fun run_op :: "packet_op \<Rightarrow> unit pact" where
  "run_op (Put f) = put_field f"
| "run_op (Get f) = seq (get_field f) (\<lambda>_. ret ())"
| "run_op (Set_pos pos) = update (setPos pos)"
| "run_op (Set_msg_id m) = update (setMsgId m)"
| "run_op (Set_flag f) = update (setFlag f)"
| "run_op (Set_pid i) = update (setPid i)"
| "run_op (Set_data e bs) = setData e bs"
| "run_op Wind = update wind"

text \<open>The client may catch what an operation throws and go on with the packet as it was left.\<close>

fun run_ops :: "packet_op list \<Rightarrow> packet \<Rightarrow> (packet_exn, unit) outcome list \<times> packet" where
  "run_ops [] p = ([], p)"
| "run_ops (x # xs) p =
     (let (r, p') = run_op x p; (rs, p'') = run_ops xs p' in (r # rs, p''))"

fun guarded :: "packet_op \<Rightarrow> bool" where
  \<comment> \<open>all operations but the two that lack a check, and \<^verbatim>\<open>setData\<close> of more than the data area but not more than
    its assertion admits\<close>
  "guarded (Put (Int64 d)) = False"
| "guarded (Put (CStr s)) = False"
| "guarded (Set_data e bs) = (kHdrLen + length bs \<le> PACKET_SIZE \<or> PACKET_SIZE < length bs)"
| "guarded x = True"

definition sound :: "'a pact \<Rightarrow> bool" where
  "sound m \<longleftrightarrow> preserves packet_wf m \<and> safe_from packet_wf m"

lemma soundI: "(\<And>p. packet_wf p \<Longrightarrow> fst (m p) \<noteq> Undef \<and> packet_wf (snd (m p))) \<Longrightarrow> sound m"
  by (auto simp: sound_def preserves_def safe_from_def)

lemma soundD: "sound m \<Longrightarrow> packet_wf p \<Longrightarrow> fst (m p) \<noteq> Undef \<and> packet_wf (snd (m p))"
  by (auto simp: sound_def preserves_def safe_from_def)

lemma sound_seq: "sound m \<Longrightarrow> (\<And>a. sound (f a)) \<Longrightarrow> sound (seq m f)"
  unfolding sound_def using preserves_seq safe_seq by blast

lemma sound_ret: "sound (ret a)"
  by (rule soundI) simp

lemma sound_check: "sound (checkOverread n)"
  by (rule soundI) (simp add: checkOverread_def)

text \<open>A read is defined behind its check.\<close>

lemma sound_checked_take: "sound (seq (checkOverread n) (\<lambda>_. take_bytes n lim))"
proof (rule soundI)
  fix p
  assume p: "packet_wf p"
  let ?m = "seq (checkOverread n) (\<lambda>_. take_bytes n lim) p"
  show "fst ?m \<noteq> Undef \<and> packet_wf (snd ?m)"
  proof (cases "unat (p_pos p) + n > unat (p_len p)")
    case True
    then show ?thesis using p by (simp add: checkOverread_def seq_def)
  next
    case False
    then have n: "unat (p_pos p) + n \<le> unat (p_len p)" by simp
    then have "unat (p_pos (advance n p)) = unat (p_pos p) + n"
      using p by (intro advance_pos) (simp add: packet_wf_def)
    then have "packet_wf (advance n p)" using p n by (simp add: packet_wf_def advance_def)
    moreover have "?m = take_bytes n lim p" using n by (simp add: checkOverread_def seq_def)
    ultimately show ?thesis using take_bytes_cases [OF p n] by simp
  qed
qed

lemma sound_read_word: "sound (read_word n lim)"
  unfolding read_word_def seq_assoc [symmetric] by (intro sound_seq sound_checked_take sound_ret)

lemma sound_read_sized:
  "sound (seq (checkOverread 2) (\<lambda>_. seq read_uint16 (\<lambda>len. seq (checkOverread (unat len)) (\<lambda>_. take_bytes (unat len) lim))))"
  unfolding read_uint16_def by (intro sound_seq sound_check sound_read_word sound_checked_take)

lemma sound_get_field: "sound (get_field f)"
  by (cases f)
    (simp_all add: read_int8_def read_uint8_def read_int16_def read_int32_def read_uint32_def read_int64_def
      read_uint64_def read_cstr_def read_string_def sound_seq sound_ret sound_read_word sound_read_sized,
     simp_all add: read_uint16_def sound_seq sound_ret sound_read_word)

lemma sound_put_field: "guarded (Put f) \<Longrightarrow> sound (put_field f)"
  by (rule soundI, cases f)
    (simp_all add: write_word_safe write_string_safe write_int8_def write_uint8_def write_int16_def
      write_uint16_def write_int32_def write_uint32_def write_uint64_def)

lemma sound_setData:
  assumes "guarded (Set_data e bs)"
  shows "sound (setData e bs)"
proof (rule soundI)
  fix p
  assume p: "packet_wf p"
  show "fst (setData e bs p) \<noteq> Undef \<and> packet_wf (snd (setData e bs p))"
  proof (cases "PACKET_SIZE < length bs")
    case True
    then show ?thesis using p by (simp add: setData_def seq_def)
  next
    case False
    then have bs: "kHdrLen + length bs \<le> PACKET_SIZE" using assms by simp
    then have "unat (12 + of_nat (length bs) :: u16) = 12 + length bs"
      using unat_len_add [of 12 "length bs"] by simp
    then show ?thesis using bs by (simp add: setData_def seq_def packet_wf_def Let_def)
  qed
qed

lemma sound_run_op:
  assumes "guarded x"
  shows "sound (run_op x)"
proof (cases x)
  case (Set_pos pos)
  show ?thesis unfolding Set_pos
    by (rule soundI) (auto simp: packet_wf_def setPos_def word_le_nat_alt word_less_nat_alt)
next
  case (Get f)
  then show ?thesis by (simp add: sound_seq sound_get_field sound_ret)
next
  case (Put f)
  then show ?thesis using assms by (simp only: run_op.simps sound_put_field)
next
  case (Set_data e bs)
  then show ?thesis using assms sound_setData [of e bs] by simp
qed (auto intro!: soundI simp: packet_wf_def setMsgId_def setFlag_def setPid_def wind_def)

lemma setData_undefined:
  "fst (setData e bs p) = Undef \<longleftrightarrow> PACKET_SIZE - kHdrLen < length bs \<and> length bs \<le> PACKET_SIZE"
  by (auto simp: setData_def seq_def Let_def)

lemma run_ops_sound:
  "packet_wf p \<Longrightarrow> \<forall>x\<in>set xs. guarded x \<Longrightarrow> run_ops xs p = (rs, q) \<Longrightarrow> packet_wf q \<and> Undef \<notin> set rs"
proof (induction xs arbitrary: p q rs)
  case (Cons x xs)
  obtain r p' where x: "run_op x p = (r, p')" by fastforce
  obtain rs' q' where xs: "run_ops xs p' = (rs', q')" by fastforce
  have "r \<noteq> Undef" "packet_wf p'" using soundD [OF sound_run_op Cons.prems(1), of x] Cons.prems(2) x by simp_all
  then have "packet_wf q' \<and> Undef \<notin> set rs'" using Cons.IH Cons.prems(2) xs by simp
  then show ?case using \<open>r \<noteq> Undef\<close> Cons.prems(3) x xs by auto
qed simp

text \<open>
  C5: Type soundness of the packet classes: from a well-formed packet every run of reads, of the eight writes that
  check (all but those of an \<^verbatim>\<open>int64\<close> and of a C string), cursor movements, header updates, \<^verbatim>\<open>wind\<close>, and
  \<^verbatim>\<open>setData\<close> of any size but 32757 to 32768 bytes, in any order and with any exceptions and failed assertions
  met on the way, ends in a well-formed packet and never touches memory outside the buffer. The sizes left out
  are exactly those for which \<^verbatim>\<open>setData\<close> writes behind the buffer: its assertion compares with \<^verbatim>\<open>PACKET_SIZE\<close> and
  forgets the header.
\<close>

theorem packet_runs_sound:
  assumes "packet_wf p" "\<forall>x\<in>set xs. guarded x" "run_ops xs p = (rs, q)"
  shows "packet_wf q \<and> Undef \<notin> set rs \<and>
    (\<forall>e bs. fst (setData e bs q) = Undef \<longleftrightarrow> PACKET_SIZE - kHdrLen < length bs \<and> length bs \<le> PACKET_SIZE)"
  using run_ops_sound [OF assms] setData_undefined by blast

theorem packet_runs_sound_witness:
  "\<exists>rs q. run_ops [Put (Uint32 7), Put (Str [1, 2]), Wind, Set_pos 12, Get (Uint32 0), Get (Str []), Get (Uint8 0),
       Set_data True (replicate 40000 0)] (opacket_new (\<lambda>_. 0)) = (rs, q) \<and> packet_wf q \<and> Undef \<notin> set rs"
proof -
  let ?xs = "[Put (Uint32 7), Put (Str [1, 2]), Wind, Set_pos 12, Get (Uint32 0), Get (Str []), Get (Uint8 0),
    Set_data True (replicate 40000 0)]"
  obtain rs q where r: "run_ops ?xs (opacket_new (\<lambda>_. 0)) = (rs, q)" by fastforce
  have "packet_wf (opacket_new (\<lambda>_. 0))" by (rule at_end_wf [OF at_end_new])
  then have "packet_wf q \<and> Undef \<notin> set rs" using packet_runs_sound [OF _ _ r] by simp
  then show ?thesis using r by blast
qed

section \<open>Messages cut short\<close>

definition remaining :: "packet \<Rightarrow> bytes \<Rightarrow> bool" where
  \<comment> \<open>\<open>bs\<close> is all there is ahead of the cursor\<close>
  "remaining p bs \<longleftrightarrow> ahead p bs \<and> unat (p_len p) = unat (p_pos p) + length bs"

lemma remaining_wf: "remaining p bs \<Longrightarrow> packet_wf p"
  by (simp add: remaining_def ahead_def packet_wf_def)

lemma remaining_advance:
  assumes "remaining p (as @ bs)"
  shows "ahead p as" "remaining (advance (length as) p) bs"
proof -
  have a: "ahead p as" "ahead (advance (length as) p) bs" using ahead_append assms by (auto simp: remaining_def)
  have "unat (p_pos (advance (length as) p)) = unat (p_pos p) + length as"
    using a(1) by (intro advance_pos) (simp add: ahead_def)
  then show "ahead p as" "remaining (advance (length as) p) bs"
    using a assms by (simp_all add: remaining_def advance_def)
qed

lemma read_word_short: "remaining p bs \<Longrightarrow> length bs < n \<Longrightarrow> read_word n lim p = (Throw PacketOverread, p)"
  using read_word_cases [OF remaining_wf, of p bs n lim] by (simp add: remaining_def)

text \<open>What an extraction may do: report the overread, or fail an assertion on the cursor.\<close>

abbreviation stopped :: "(packet_exn, 'a) outcome \<Rightarrow> bool" where
  "stopped r \<equiv> r = Throw PacketOverread \<or> r = Abort"

lemma read_word_full:
  "ahead p (le_enc n (v :: 'a::len word)) \<Longrightarrow> LENGTH('a) \<le> 8 * n \<Longrightarrow>
    read_word n lim p = (if unat (p_pos p) + n < lim then Val v else Abort, advance n p)"
  using read_word_cases [of p n lim] by (auto simp: ahead_def packet_wf_def)

lemma take_bytes_full:
  "ahead p bs \<Longrightarrow> take_bytes (length bs) lim p = (if unat (p_pos p) + length bs < lim then Val bs else Abort, advance (length bs) p)"
  using take_bytes_cases [of p "length bs" lim] by (auto simp: ahead_def packet_wf_def)

lemma read_sized_short:
  assumes "remaining p bs" "length bs < 2 + length s" "bs = take (length bs) (le_enc 2 (of_nat (length s) :: u16) @ s)"
    "length s < 65536"
  shows "\<exists>r q. seq (checkOverread 2) (\<lambda>_. seq read_uint16 (\<lambda>len.
     seq (checkOverread (unat len)) (\<lambda>_. take_bytes (unat len) lim))) p = (r, q) \<and> stopped r \<and>
     (unat (p_pos p) + length bs < PACKET_SIZE - kHdrLen \<longrightarrow> r = Throw PacketOverread)"
proof (cases "length bs < 2")
  case True
  then show ?thesis using assms(1) by (simp add: checkOverread_def remaining_def seq_def)
next
  case False
  let ?len = "of_nat (length s) :: u16" and ?q = "advance 2 p"
  have bs: "bs = le_enc 2 ?len @ take (length bs - 2) s" using assms(3) False by (simp add: take_append)
  have r: "ahead p (le_enc 2 ?len)" "remaining ?q (take (length bs - 2) s)"
    using remaining_advance [of p "le_enc 2 ?len" "take (length bs - 2) s"] assms(1) bs by simp_all
  have c: "checkOverread 2 p = (Val (), p)" by (rule checkOverread_ahead [OF r(1)]) simp
  have u: "read_uint16 p = (if unat (p_pos p) + 2 < PACKET_SIZE - kHdrLen then Val ?len else Abort, ?q)"
    unfolding read_uint16_def using read_word_full [OF r(1)] by simp
  have "unat ?len = length s" using assms(4) by (intro unat_of_nat_small) simp
  moreover have "length (take (length bs - 2) s) < length s" using assms(2) False by simp
  ultimately have "checkOverread (unat ?len) ?q = (Throw PacketOverread, ?q)"
    using r(2) by (simp add: checkOverread_def remaining_def)
  then show ?thesis using u False c by (cases "unat (p_pos p) + 2 < PACKET_SIZE - kHdrLen") (auto simp: seq_def)
qed

lemma get_field_short:
  assumes "remaining p bs" "length bs < length (wire f)" "bs = take (length bs) (wire f)" "well_sized f"
  shows "\<exists>r q. get_field f p = (r, q) \<and> stopped r \<and> (unat (p_pos p) + length bs < PACKET_SIZE - kHdrLen \<longrightarrow> r = Throw PacketOverread)"
proof (cases f)
  case (CStr s)
  then have "length s < 65536" using assms(4) by simp
  then have "\<exists>r q. read_cstr p = (r, q) \<and> stopped r \<and> (unat (p_pos p) + length bs < PACKET_SIZE - kHdrLen \<longrightarrow> r = Throw PacketOverread)"
    unfolding read_cstr_def using CStr assms by (intro read_sized_short [OF assms(1)]) simp_all
  then show ?thesis using CStr by (auto simp: seq_Throw seq_Abort)
next
  case (Str s)
  then have "length s < 65536" using assms(4) by simp
  then have "\<exists>r q. read_string p = (r, q) \<and> stopped r \<and> (unat (p_pos p) + length bs < PACKET_SIZE - kHdrLen \<longrightarrow> r = Throw PacketOverread)"
    unfolding read_string_def using Str assms by (intro read_sized_short [OF assms(1)]) simp_all
  then show ?thesis using Str by (auto simp: seq_Throw seq_Abort)
qed (use assms in \<open>simp_all add: read_int8_def read_uint8_def read_int16_def read_uint16_def read_int32_def
       read_uint32_def read_int64_def read_uint64_def read_word_short seq_Throw\<close>)

lemma read_sized_full:
  assumes "ahead p (le_enc 2 (of_nat (length s) :: u16) @ s)" "length s < 65536"
  shows "fst (seq (checkOverread 2) (\<lambda>_. seq read_uint16 (\<lambda>len.
      seq (checkOverread (unat len)) (\<lambda>_. take_bytes (unat len) lim))) p) = Abort \<or>
    seq (checkOverread 2) (\<lambda>_. seq read_uint16 (\<lambda>len.
      seq (checkOverread (unat len)) (\<lambda>_. take_bytes (unat len) lim))) p = (Val s, advance (2 + length s) p)"
proof -
  let ?len = "of_nat (length s) :: u16" and ?q = "advance 2 p"
  have a: "ahead p (le_enc 2 ?len)" "ahead ?q s" using ahead_append [of p "le_enc 2 ?len" s] assms(1) by simp_all
  have c: "checkOverread 2 p = (Val (), p)" "checkOverread (length s) ?q = (Val (), ?q)"
    using checkOverread_ahead a by auto
  have u: "read_uint16 p = (if unat (p_pos p) + 2 < PACKET_SIZE - kHdrLen then Val ?len else Abort, ?q)"
    unfolding read_uint16_def using read_word_full [OF a(1)] by simp
  have "unat ?len = length s" using assms(2) by (intro unat_of_nat_small) simp
  then show ?thesis
    using u take_bytes_full [OF a(2), of lim] c
    by (cases "unat (p_pos p) + 2 < PACKET_SIZE - kHdrLen") (simp_all add: seq_def advance_advance)
qed

lemma get_field_full:
  assumes "ahead p (wire f)" "well_sized f"
  shows "fst (get_field f p) = Abort \<or> get_field f p = (Val f, advance (length (wire f)) p)"
proof (cases f)
  case (CStr s)
  then have "fst (read_cstr p) = Abort \<or> read_cstr p = (Val s, advance (2 + length s) p)"
    unfolding read_cstr_def using assms by (intro read_sized_full) simp_all
  then show ?thesis using CStr by (cases "read_cstr p") (auto simp: seq_def)
next
  case (Str s)
  then have "fst (read_string p) = Abort \<or> read_string p = (Val s, advance (2 + length s) p)"
    unfolding read_string_def using assms by (intro read_sized_full) simp_all
  then show ?thesis using Str by (cases "read_string p") (auto simp: seq_def)
qed (use assms in \<open>simp_all add: read_int8_def read_uint8_def read_int16_def read_uint16_def read_int32_def
       read_uint32_def read_int64_def read_uint64_def read_word_full seq_def\<close>)

lemma take_past:
  assumes "bs = take (length bs) (us @ vs)" "length us \<le> length bs"
  obtains cs where "bs = us @ cs" "cs = take (length cs) vs"
proof
  show "bs = us @ take (length bs - length us) vs" using assms by (metis take_all_iff take_append)
  show "take (length bs - length us) vs = take (length (take (length bs - length us) vs)) vs" by (simp add: min_def)
qed

text \<open>
  C7: A message cut short never comes through. When a receiver extracts the fields of a message whose strings fit
  their 16-bit counts, but the payload ends somewhere before their wire form does, at any byte, even inside the
  length of a string, the extraction does not return: it throws \<^verbatim>\<open>PacketOverread\<close>, or it fails an assertion
  on the cursor. It throws whenever the payload ends before the last twelve bytes of the buffer.
\<close>

theorem truncated_message_reported:
  assumes "remaining p bs" "bs = take (length bs) (wires fs)" "length bs < length (wires fs)"
    "\<forall>f\<in>set fs. well_sized f"
  shows "(fst (get_fields fs p) = Throw PacketOverread \<or> fst (get_fields fs p) = Abort) \<and>
    (unat (p_pos p) + length bs < PACKET_SIZE - kHdrLen \<longrightarrow> fst (get_fields fs p) = Throw PacketOverread)"
  using assms
proof (induction fs arbitrary: p bs)
  case (Cons f fs)
  show ?case
  proof (cases "length bs < length (wire f)")
    case True
    then have "bs = take (length bs) (wire f)" using Cons.prems(2) by (simp add: take_append)
    then show ?thesis
      using get_field_short [OF Cons.prems(1) True] Cons.prems(4) by (auto simp: seq_Throw seq_Abort)
  next
    case False
    then obtain cs where bs: "bs = wire f @ cs" "cs = take (length cs) (wires fs)"
      using Cons.prems(2) by (metis take_past not_less wires_simps(2))
    let ?q = "advance (length (wire f)) p"
    have r: "ahead p (wire f)" "remaining ?q cs"
      using remaining_advance [of p "wire f" cs] Cons.prems(1) bs(1) by simp_all
    have len: "length bs = length (wire f) + length cs" using bs(1) by simp
    have pos: "unat (p_pos ?q) = unat (p_pos p) + length (wire f)"
      using r(1) by (intro advance_pos) (simp add: ahead_def)
    have early: "get_field f p = (Val f, ?q)" if "unat (p_pos p) + length bs < PACKET_SIZE - kHdrLen"
      using r(1) Cons.prems(4) that len by (intro get_field_ahead) simp_all
    have "length cs < length (wires fs)" using Cons.prems(3) len by simp
    then have IH: "(fst (get_fields fs ?q) = Throw PacketOverread \<or> fst (get_fields fs ?q) = Abort) \<and>
        (unat (p_pos ?q) + length cs < PACKET_SIZE - kHdrLen \<longrightarrow> fst (get_fields fs ?q) = Throw PacketOverread)"
      using Cons.prems(4) by (intro Cons.IH [OF r(2) bs(2)]) simp_all
    have "fst (get_field f p) = Abort \<or> get_field f p = (Val f, ?q)"
      using get_field_full [OF r(1)] Cons.prems(4) by simp
    then show ?thesis
      using IH early pos len by (cases "get_field f p") (auto simp: seq_def split: prod.splits outcome.splits)
  qed
qed simp

theorem truncated_message_reported_witness:
  "fst (get_fields [Uint16 5, Str [1, 2, 3]] \<lparr>p_buf = poke (\<lambda>_. 0) 12 [5, 0, 3, 0, 1], p_pos = 12, p_len = 17\<rparr>) = Throw PacketOverread"
proof (rule truncated_message_reported [where bs = "[5, 0, 3, 0, 1]", THEN conjunct2, rule_format])
  let ?p = "\<lparr>p_buf = poke (\<lambda>_. 0) 12 [5, 0, 3, 0, 1], p_pos = 12, p_len = 17\<rparr> :: packet"
  have "peek (poke (\<lambda>_. 0) 12 [5, 0, 3, 0, 1]) 12 (length [5, 0, 3, 0, 1::u8]) = [5, 0, 3, 0, 1]" by (rule peek_poke) simp
  then show "remaining ?p [5, 0, 3, 0, 1]" by (simp add: remaining_def ahead_def)
  have w: "wires [Uint16 5, Str [1, 2, 3]] = [5, 0, 3, 0, 1, 2, 3]" by (simp add: le_enc_def upt_rec)
  show "[5, 0, 3, 0, 1] = take (length [5, 0, 3, 0, 1::u8]) (wires [Uint16 5, Str [1, 2, 3]])" unfolding w by simp
  show "length [5, 0, 3, 0, 1::u8] < length (wires [Uint16 5, Str [1, 2, 3]])" unfolding w by simp
qed auto

end
