(* ===== verification/Tea.thy ===== *)
theory Tea
  imports PacketProps
begin

text \<open>
  \<^verbatim>\<open>cpp/release/tea.cpp\<close> and \<^verbatim>\<open>cpp/release/packet.cpp\<close>: the 16-round block cipher, its use on
  byte strings with a two-byte length in front, and the encryption of packets.
\<close>

section \<open>One block\<close>

type_synonym tea_key = "u32 \<times> u32 \<times> u32 \<times> u32"

abbreviation tea_delta :: u32 where "tea_delta \<equiv> 0x9E3779B9"

definition mix :: "u32 \<Rightarrow> u32 \<Rightarrow> u32 \<Rightarrow> u32 \<Rightarrow> u32" where
  "mix v s k0 k1 = push_bit 4 v + (k0 XOR v) + (s XOR drop_bit 5 v) + k1"

fun encipher_loop :: "tea_key \<Rightarrow> nat \<Rightarrow> u32 \<times> u32 \<times> u32 \<Rightarrow> u32 \<times> u32 \<times> u32" where
  "encipher_loop k 0 st = st"
| "encipher_loop (a, b, c, d) (Suc n) (y, z, s) =
     (let s' = s + tea_delta;
          y' = y + mix z s' a b;
          z' = z + mix y' s' c d
      in encipher_loop (a, b, c, d) n (y', z', s'))"

fun decipher_loop :: "tea_key \<Rightarrow> nat \<Rightarrow> u32 \<times> u32 \<times> u32 \<Rightarrow> u32 \<times> u32 \<times> u32" where
  "decipher_loop k 0 st = st"
| "decipher_loop (a, b, c, d) (Suc n) (y, z, s) =
     (let z' = z - mix y s c d;
          y' = y - mix z' s a b
      in decipher_loop (a, b, c, d) n (y', z', s - tea_delta))"

definition encipher :: "tea_key \<Rightarrow> u32 \<times> u32 \<Rightarrow> u32 \<times> u32" where
  "encipher k v = (case encipher_loop k 16 (fst v, snd v, 0) of (y, z, _) \<Rightarrow> (y, z))"

definition decipher :: "tea_key \<Rightarrow> u32 \<times> u32 \<Rightarrow> u32 \<times> u32" where
  "decipher k v = (case decipher_loop k 16 (fst v, snd v, 0xe3779b90) of (y, z, _) \<Rightarrow> (y, z))"

text \<open>Deciphering undoes the last round first.\<close>

lemma encipher_loop_Suc:
  "encipher_loop (a, b, c, d) (Suc n) st =
     encipher_loop (a, b, c, d) 1 (encipher_loop (a, b, c, d) n st)"
  by (induction n arbitrary: st) (auto simp: Let_def split_paired_all)

lemma decipher_encipher_loop:
  "decipher_loop k n (encipher_loop k n st) = st"
proof (induction n arbitrary: st)
  case 0
  then show ?case by simp
next
  case (Suc n)
  obtain a b c d where k: "k = (a, b, c, d)" by (cases k)
  obtain y z s where e: "encipher_loop k n st = (y, z, s)" by (cases "encipher_loop k n st")
  have "decipher_loop k (Suc n) (encipher_loop k (Suc n) st) = decipher_loop k n (y, z, s)"
    using e unfolding k encipher_loop_Suc [of a b c d n] by (simp add: Let_def)
  also have "\<dots> = st"
    using Suc.IH e by metis
  finally show ?case .
qed

lemma encipher_loop_sum: "snd (snd (encipher_loop k n (y, z, s))) = s + of_nat n * tea_delta"
proof (induction n arbitrary: y z s)
  case (Suc n)
  then show ?case by (cases k) (simp add: Let_def algebra_simps)
qed simp

lemma decipher_encipher: "decipher k (encipher k v) = v"
proof -
  obtain y z s where e: "encipher_loop k 16 (fst v, snd v, 0) = (y, z, s)"
    by (cases "encipher_loop k 16 (fst v, snd v, 0)")
  have "s = 0xe3779b90"
    using encipher_loop_sum [of k 16 "fst v" "snd v" 0] e by simp
  then show ?thesis
    using decipher_encipher_loop [of k 16 "(fst v, snd v, 0)"] e
    by (simp add: encipher_def decipher_def)
qed

section \<open>Byte strings\<close>

abbreviation GROUP :: nat where "GROUP \<equiv> 8"

definition block_of :: "bytes \<Rightarrow> u32 \<times> u32" where
  \<comment> \<open>the cast \<^verbatim>\<open>(uint32* )p\<close> of eight bytes\<close>
  "block_of bs = (le_dec (take 4 bs), le_dec (take 4 (drop 4 bs)))"

definition of_block :: "u32 \<times> u32 \<Rightarrow> bytes" where
  "of_block v = le_enc 4 (fst v) @ le_enc 4 (snd v)"

fun each_group :: "(u32 \<times> u32 \<Rightarrow> u32 \<times> u32) \<Rightarrow> nat \<Rightarrow> bytes \<Rightarrow> bytes" where
  \<comment> \<open>the loop over the groups, in place from \<^verbatim>\<open>p\<close> on\<close>
  "each_group f 0 bs = bs"
| "each_group f (Suc n) bs = of_block (f (block_of bs)) @ each_group f n (drop GROUP bs)"

definition tea_encode :: "tea_key \<Rightarrow> bytes \<Rightarrow> nat \<Rightarrow> bytes option" where
  \<comment> \<open>\<^verbatim>\<open>None\<close> is the return value 0; otherwise the first \<^verbatim>\<open>needlen\<close> bytes of \<^verbatim>\<open>outdata\<close>\<close>
  "tea_encode k indata outlen =
     (let inlen = length indata;
          groups = (inlen + (GROUP - 1)) div GROUP;
          needlen = groups * GROUP + 2
      in if needlen > outlen then None
         else Some ([of_nat (inlen div 256), of_nat inlen] @
           each_group (encipher k) groups (indata @ replicate (needlen - (inlen + 2)) 0)))"

definition tea_decode :: "tea_key \<Rightarrow> bytes \<Rightarrow> bytes \<Rightarrow> (packet_exn, nat \<times> bytes) outcome" where
  \<comment> \<open>\<open>old\<close> is the array \<^verbatim>\<open>outdata\<close> of \<^verbatim>\<open>outlen\<close> bytes before the call; the result is the
    returned length with the array after the call. \<^verbatim>\<open>memcpy\<close> stores \<^verbatim>\<open>inlen - 2\<close> bytes, whatever
    \<^verbatim>\<open>outlen\<close> is: \<open>Undef\<close> where that is more than the array has. For input of 0 or 1
    bytes \<^verbatim>\<open>inlen - 2\<close> wraps around to a number that 8 does not divide, so that 0 is returned
    whatever bytes follow the input.\<close>
  "tea_decode k indata old =
     (let inlen = length indata;
          needlen = unat (indata ! 0) * 256 + unat (indata ! 1)
      in if inlen < 2 then Val (0, old)
         else if needlen > length old then Val (0, old)
         else if (inlen - 2) mod GROUP \<noteq> 0 then Val (0, old)
         else if inlen - 2 > length old then Undef
         else Val (needlen,
           each_group (decipher k) ((inlen - 2) div GROUP) (drop 2 indata) @ drop (inlen - 2) old))"

lemma length_of_block [simp]: "length (of_block v) = 8"
  by (simp add: of_block_def)

lemma block_of_of_block [simp]: "block_of (of_block v @ rest) = v"
  by (simp add: block_of_def of_block_def)

lemma of_block_block_of: "8 \<le> length bs \<Longrightarrow> of_block (block_of bs) = take 8 bs"
  by (simp add: of_block_def block_of_def le_enc_dec take_add [of 4 4, simplified])

lemma length_each_group: "GROUP * n \<le> length bs \<Longrightarrow> length (each_group f n bs) = length bs"
  by (induction f n bs rule: each_group.induct) auto

lemma each_group_inverse:
  assumes "\<And>v. g (f v) = v" "length bs = GROUP * n"
  shows "each_group g n (each_group f n bs) = bs"
  using assms(2)
proof (induction n arbitrary: bs)
  case 0
  then show ?case by simp
next
  case (Suc n)
  have "of_block (block_of bs) @ drop 8 bs = bs"
    using Suc.prems by (simp add: of_block_block_of)
  then show ?case
    using Suc by (simp add: assms(1))
qed

lemma length_encode: "GROUP * g = length bs \<Longrightarrow> length (each_group f g bs) = GROUP * g"
  by (simp add: length_each_group)

lemma two_byte_length:
  "n < 65536 \<Longrightarrow> unat (of_nat (n div 256) :: u8) * 256 + unat (of_nat n :: u8) = n"
  by (simp add: unat_of_nat take_bit_eq_mod less_mult_imp_div_less)

definition padded :: "bytes \<Rightarrow> bytes" where
  \<comment> \<open>the input filled up with zeros to whole groups\<close>
  "padded x = x @ replicate ((length x + 7) div GROUP * GROUP - length x) 0"

lemma length_padded: "length (padded x) = GROUP * ((length x + 7) div GROUP)"
  by (simp add: padded_def)

lemma tea_encode_eq:
  "tea_encode k x outlen =
    (if length (padded x) + 2 > outlen then None
     else Some ([of_nat (length x div 256), of_nat (length x)] @
       each_group (encipher k) ((length x + 7) div GROUP) (padded x)))"
  by (simp add: tea_encode_def Let_def padded_def mult.commute)

lemma tea_decode_encode:
  assumes "tea_encode k x outlen = Some y" "length x < 65536" "length x \<le> length old"
  shows "tea_decode k y old = (if length (padded x) \<le> length old
    then Val (length x, padded x @ drop (length (padded x)) old) else Undef)"
proof -
  let ?g = "(length x + 7) div GROUP"
  let ?e = "each_group (encipher k) ?g (padded x)"
  have y: "y = [of_nat (length x div 256), of_nat (length x)] @ ?e"
    using assms(1) by (simp add: tea_encode_eq split: if_splits)
  have le: "length ?e = GROUP * ?g"
    by (simp add: length_encode length_padded)
  have d: "each_group (decipher k) ?g ?e = padded x"
    by (rule each_group_inverse) (simp_all add: decipher_encipher length_padded)
  show ?thesis
    using assms(3) two_byte_length [OF assms(2)] le d
    by (simp add: tea_decode_def Let_def y length_padded)
qed

lemma take_padded: "take (length x) (padded x @ rest) = x"
  by (simp add: padded_def)

text \<open>
  C8: What \<^verbatim>\<open>Tea::encode\<close> writes \<^verbatim>\<open>Tea::decode\<close> reads back with the same key, if there is room for
  whole groups. For any input of less than 65536 bytes whose encoding fits its output array, decoding into an
  array that has room for the input filled up to a multiple of eight bytes returns the input's length and the
  input, and leaves the array behind the last group as it was. Into an array that has room for the input but not
  for the last group, \<^verbatim>\<open>Tea::decode\<close> writes behind its end, for it compares only the length it has found with
  \<^verbatim>\<open>outlen\<close>.
\<close>

theorem tea_roundtrip:
  assumes "tea_encode k x outlen = Some y" "length x < 65536" "length x \<le> length old"
  shows "if (length x + 7) div 8 * 8 \<le> length old
    then \<exists>out. tea_decode k y old = Val (length x, out) \<and> take (length x) out = x \<and> length out = length old \<and>
      (\<forall>i \<ge> (length x + 7) div 8 * 8. drop i out = drop i old)
    else tea_decode k y old = Undef"
proof (cases "length (padded x) \<le> length old")
  case True
  let ?out = "padded x @ drop (length (padded x)) old"
  have "drop i ?out = drop i old" if "length (padded x) \<le> i" for i
    using that True by simp
  moreover have "tea_decode k y old = Val (length x, ?out)" "take (length x) ?out = x" "length ?out = length old"
    using tea_decode_encode [OF assms] take_padded True by simp_all
  ultimately show ?thesis using True unfolding length_padded by (auto simp: mult.commute)
next
  case False
  then show ?thesis using tea_decode_encode [OF assms] by (simp add: length_padded mult.commute)
qed

theorem tea_roundtrip_witness:
  "(\<exists>out. tea_decode (1, 2, 3, 4) (the (tea_encode (1, 2, 3, 4) [10, 20, 30] 16)) (replicate 8 7) =
      Val (3, out) \<and> take 3 out = [10, 20, 30]) \<and>
   tea_decode (1, 2, 3, 4) (the (tea_encode (1, 2, 3, 4) [10, 20, 30] 16)) [0, 0, 0] = Undef"
proof -
  have e: "tea_encode (1, 2, 3, 4) [10, 20, 30] 16 = Some (the (tea_encode (1, 2, 3, 4) [10, 20, 30] 16))"
    by (simp add: tea_encode_eq padded_def)
  then show ?thesis
    using tea_roundtrip [OF e, of "replicate 8 7"] tea_roundtrip [OF e, of "[0, 0, 0]"]
    by (auto simp: numeral_3_eq_3)
qed

text \<open>
  \<^verbatim>\<open>Tea::decode\<close> believes the length it finds in front of the data: when it is larger than
  the decoded groups (and within the output array), the call succeeds, and the bytes between are
  those that were in the output array before, uninitialised stack memory at its only
  caller.
\<close>

theorem tea_decode_trusts_length:
  assumes "length body = GROUP * g" "GROUP * g < n" "n < 65536" "n \<le> length old"
  shows "\<exists>out. tea_decode k ([of_nat (n div 256), of_nat n] @ body) old = Val (n, out) \<and>
    take n out = each_group (decipher k) g body @ take (n - GROUP * g) (drop (GROUP * g) old)"
  using assms two_byte_length [OF assms(3)] length_encode [of g body "decipher k"]
  by (simp add: tea_decode_def Let_def)

theorem tea_decode_trusts_length_witness:
  "\<exists>out. tea_decode (1, 2, 3, 4) ([of_nat (4 div 256), of_nat 4] @ []) [7, 7, 7, 7, 7] = Val (4, out) \<and>
    take 4 out = each_group (decipher (1, 2, 3, 4)) 0 [] @ take (4 - GROUP * 0) (drop (GROUP * 0) [7, 7, 7, 7, 7])"
  by (rule tea_decode_trusts_length) simp_all

section \<open>Packets\<close>

definition op_encode :: "tea_key \<Rightarrow> unit pact" where
  "op_encode k p =
     (if getFlag p AND PACKET_FLAG_ENCRYPT \<noteq> 0 then (Val (), p)
      else if getDataSize p = 0 then (Val (), setFlag (getFlag p OR PACKET_FLAG_ENCRYPT) p)
      else case tea_encode k (getData p) PACKET_SIZE of
          None \<Rightarrow> (Abort, p)
        | Some out \<Rightarrow>
            seq (setData True out) (\<lambda>_. update (\<lambda>p. setFlag (getFlag p OR PACKET_FLAG_ENCRYPT) p)) p)"

definition ip_decode :: "tea_key \<Rightarrow> bytes \<Rightarrow> unit pact" where
  \<comment> \<open>\<open>stack\<close>: the bytes in the local array \<^verbatim>\<open>buf[PACKET_SIZE]\<close> before the call\<close>
  "ip_decode k stack p =
     (if getDataSize p = 0 then (Val (), p)
      else case tea_decode k (getData p) stack of
          Val (n, out) \<Rightarrow> if n = 0 then (Abort, p) else setData False (take n out) p
        | _ \<Rightarrow> (Undef, p))"

lemma getData_payload: "kHdrLen \<le> unat (p_len p) \<Longrightarrow> getData p = payload p"
  by (simp add: getData_def payload_def getDataSize_unat)

definition with_data :: "bytes \<Rightarrow> bool \<Rightarrow> packet \<Rightarrow> packet" where
  "with_data bs to_end p = (let len = of_nat (kHdrLen + length bs) in
     p\<lparr>p_buf := poke (p_buf p) kHdrLen bs, p_len := len, p_pos := (if to_end then len else 12)\<rparr>)"

lemma setData_cases:
  "setData to_end bs p =
    (if length bs > PACKET_SIZE then (Abort, p)
     else if kHdrLen + length bs > PACKET_SIZE then (Undef, p)
     else (Val (), with_data bs to_end p))"
  by (simp add: setData_def seq_def with_data_def Let_def)

lemma with_data_props:
  assumes "kHdrLen + length bs \<le> PACKET_SIZE"
  shows "payload (with_data bs e p) = bs" "at_end (with_data bs True p)"
    "unat (p_len (with_data bs e p)) = kHdrLen + length bs" "getFlag (with_data bs e p) = getFlag p"
    "getMsgId (with_data bs e p) = getMsgId p" "verify (with_data bs e p) = verify p"
proof -
  have l: "unat (of_nat (kHdrLen + length bs) :: u16) = kHdrLen + length bs"
    using assms by (intro unat_of_nat_small) simp
  then show "unat (p_len (with_data bs e p)) = kHdrLen + length bs"
      "at_end (with_data bs True p)" "payload (with_data bs e p) = bs"
    using assms by (simp_all add: with_data_def at_end_def payload_def peek_poke Let_def)
  show "getFlag (with_data bs e p) = getFlag p" "getMsgId (with_data bs e p) = getMsgId p"
      "verify (with_data bs e p) = verify p"
    by (simp_all add: with_data_def getFlag_def getMsgId_def verify_def Let_def)
qed

lemma setFlag_keeps:
  "payload (setFlag f p) = payload p" "at_end (setFlag f p) = at_end p" "p_len (setFlag f p) = p_len p"
  "getFlag (setFlag f p) = f"
  by (simp_all add: setFlag_def payload_def at_end_def getFlag_def)

lemma tea_encode_packet:
  assumes "length x \<le> PACKET_SIZE - kHdrLen"
  obtains out where "tea_encode k x PACKET_SIZE = Some out" "length out = length (padded x) + 2"
proof -
  have "length (padded x) + 2 \<le> PACKET_SIZE"
    unfolding length_padded using assms by presburger
  then show ?thesis
    using that by (simp add: tea_encode_eq length_encode length_padded)
qed

lemma op_encode_cases:
  assumes "at_end p" "getFlag p AND PACKET_FLAG_ENCRYPT = 0" "payload p \<noteq> []"
    and "tea_encode k (payload p) PACKET_SIZE = Some out"
  shows "op_encode k p =
    (if kHdrLen + length out > PACKET_SIZE then (Undef, p)
     else (Val (), setFlag (getFlag p OR PACKET_FLAG_ENCRYPT) (with_data out True p)))"
proof -
  have l12: "kHdrLen \<le> unat (p_len p)" using assms(1) by (simp add: at_end_def)
  have "unat (getDataSize p) \<noteq> 0"
    using assms(3) getDataSize_unat [OF l12] by (auto simp: payload_def)
  then have ds: "getDataSize p \<noteq> 0" by auto
  have "length out \<le> PACKET_SIZE"
    using assms(4) by (auto simp: tea_encode_eq length_encode length_padded split: if_splits)
  then show ?thesis
    using assms ds by (simp add: op_encode_def getData_payload [OF l12] setData_cases seq_def
        with_data_props)
qed

lemma encrypted_packet:
  assumes "at_end op" "getFlag op AND PACKET_FLAG_ENCRYPT = 0" "payload op \<noteq> []"
    and "length (payload op) \<le> 32752" "length stack = PACKET_SIZE"
  shows "\<exists>op'. op_encode k op = (Val (), op') \<and> getFlag op' AND PACKET_FLAG_ENCRYPT \<noteq> 0 \<and>
    (\<forall>ip. received ip (getBuf (wind op')) \<longrightarrow>
      (\<exists>ip'. ip_decode k stack ip = (Val (), ip') \<and> payload ip' = payload op \<and> p_pos ip' = 12))"
proof -
  let ?x = "payload op"
  obtain out where out: "tea_encode k ?x PACKET_SIZE = Some out" "length out = length (padded ?x) + 2"
    using assms(4) by (elim tea_encode_packet [of ?x k, rotated]) simp
  have fits: "kHdrLen + length out \<le> PACKET_SIZE"
    unfolding out(2) length_padded using assms(4) by presburger
  define op' where "op' = setFlag (getFlag op OR PACKET_FLAG_ENCRYPT) (with_data out True op)"
  have run: "op_encode k op = (Val (), op')"
    using op_encode_cases [OF assms(1-3) out(1)] fits by (simp add: op'_def)
  have flag: "getFlag op' AND PACKET_FLAG_ENCRYPT \<noteq> 0"
    by (simp add: op'_def setFlag_keeps bit.conj_disj_distrib2)
  have op': "at_end op'" "payload op' = out"
    using fits by (simp_all add: op'_def setFlag_keeps with_data_props)
  have "\<exists>ip'. ip_decode k stack ip = (Val (), ip') \<and> payload ip' = ?x \<and> p_pos ip' = 12"
    if ip: "received ip (getBuf (wind op'))" for ip
  proof -
    have l: "unat (p_len ip) = unat (p_len op')"
      using received_len [OF ip] by (simp add: getBuf_def wind_len)
    then have l12: "kHdrLen \<le> unat (p_len ip)" using op'(1) by (simp add: at_end_def)
    have "payload ip = out"
      using getBuf_hdr(5) [of ip "wind op'"] ip l12 op'(2) by (simp add: received_def wind_keeps)
    then have data: "getData ip = out" by (simp add: getData_payload [OF l12])
    have "unat (getDataSize ip) = length out"
      using arg_cong [OF data, of length] by (simp add: getData_def)
    then have ds: "getDataSize ip \<noteq> 0" using out(2) by auto
    have "length (padded ?x) \<le> length stack" unfolding length_padded using assms(4,5) by presburger
    then obtain res where res: "tea_decode k out stack = Val (length ?x, res)" "take (length ?x) res = ?x"
      using tea_decode_encode [OF out(1), of stack] assms(4,5) take_padded by auto
    have "ip_decode k stack ip = (Val (), with_data ?x False ip)"
      using ds res assms(3,4) by (simp add: ip_decode_def data setData_cases)
    moreover have "payload (with_data ?x False ip) = ?x"
      using assms(4) by (intro with_data_props) simp
    ultimately show ?thesis by (simp add: with_data_def Let_def)
  qed
  with run flag show ?thesis by blast
qed

text \<open>
  C2: Encryption and decryption of packets are inverse: a packet with 1 to 32752 data bytes is
  encrypted by \<^verbatim>\<open>OPacket::encode\<close>, carries the encryption flag, and a receiver that holds its
  bytes after \<^verbatim>\<open>wind\<close> gets the original data back from \<^verbatim>\<open>IPacket::decode\<close> with the same
  key, whatever its stack holds.
\<close>

theorem packet_crypt_roundtrip:
  assumes "at_end op" "getFlag op AND PACKET_FLAG_ENCRYPT = 0" "payload op \<noteq> []"
    and "length (payload op) \<le> 32752" "length stack = PACKET_SIZE"
  shows "\<exists>op'. op_encode k op = (Val (), op') \<and> getFlag op' AND PACKET_FLAG_ENCRYPT \<noteq> 0 \<and>
    (\<forall>ip. received ip (getBuf (wind op')) \<longrightarrow>
      (\<exists>ip'. ip_decode k stack ip = (Val (), ip') \<and> payload ip' = payload op \<and> p_pos ip' = 12))"
  using assms by (rule encrypted_packet)

text \<open>
  \<^verbatim>\<open>OPacket::encode\<close> writes behind the packet's buffer exactly when the data has more than
  32752 of the 32756 bytes a packet can carry: the output is up to 9 bytes longer than
  the data, and \<^verbatim>\<open>setData\<close> asserts \<^verbatim>\<open>len <= PACKET_SIZE\<close>, not \<^verbatim>\<open>len <= kDataLen\<close>.
\<close>

theorem packet_encode_overflow:
  assumes "at_end op" "getFlag op AND PACKET_FLAG_ENCRYPT = 0" "payload op \<noteq> []"
  shows "fst (op_encode k op) = Undef \<longleftrightarrow> 32752 < length (payload op)"
proof -
  have lp: "length (payload op) \<le> PACKET_SIZE - kHdrLen"
    using assms(1) by (auto simp: payload_def at_end_def)
  obtain out where out: "tea_encode k (payload op) PACKET_SIZE = Some out"
      "length out = length (padded (payload op)) + 2"
    using tea_encode_packet [OF lp] by blast
  have "kHdrLen + length out > PACKET_SIZE \<longleftrightarrow> 32752 < length (payload op)"
    unfolding out(2) length_padded using lp by presburger
  then show ?thesis
    using op_encode_cases [OF assms out(1)] by simp
qed

definition sample_packet :: "nat \<Rightarrow> packet" where
  \<comment> \<open>a packet under construction with \<open>n\<close> zero data bytes\<close>
  "sample_packet n = \<lparr>p_buf = (\<lambda>_. 0), p_pos = of_nat (12 + n), p_len = of_nat (12 + n)\<rparr>"

lemma sample_packet_props:
  assumes "n \<le> 32756"
  shows "at_end (sample_packet n)" "length (payload (sample_packet n)) = n"
    "getFlag (sample_packet n) = 0" "payload (sample_packet n) = [] \<longleftrightarrow> n = 0"
proof -
  have "unat (of_nat (12 + n) :: u16) = 12 + n"
    using assms by (intro unat_of_nat_small) simp
  then show "at_end (sample_packet n)" "length (payload (sample_packet n)) = n"
    using assms by (simp_all add: sample_packet_def at_end_def payload_def)
  then show "payload (sample_packet n) = [] \<longleftrightarrow> n = 0" by auto
  show "getFlag (sample_packet n) = 0"
    by (simp add: sample_packet_def getFlag_def hdr_getFlag_def peek_def le_dec_def)
qed

theorem packet_crypt_roundtrip_witness:
  "\<exists>op'. op_encode (1, 2, 3, 4) (sample_packet 5) = (Val (), op') \<and> getFlag op' AND PACKET_FLAG_ENCRYPT \<noteq> 0 \<and>
    (\<forall>ip. received ip (getBuf (wind op')) \<longrightarrow>
      (\<exists>ip'. ip_decode (1, 2, 3, 4) (replicate PACKET_SIZE 170) ip = (Val (), ip') \<and>
        payload ip' = payload (sample_packet 5) \<and> p_pos ip' = 12))"
  by (rule packet_crypt_roundtrip)
    (use sample_packet_props [of 5] in auto)

theorem packet_encode_overflow_witness:
  "fst (op_encode (1, 2, 3, 4) (sample_packet 32753)) = Undef"
  using packet_encode_overflow [of "sample_packet 32753" "(1, 2, 3, 4)"]
    sample_packet_props [of 32753]
  by auto

end
