(* ===== verification/Client.thy ===== *)
theory Client
  imports Tea
begin

text \<open>
  \<^verbatim>\<open>cpp/release/proto.h\<close>, \<^verbatim>\<open>base.h\<close>, \<^verbatim>\<open>base.cpp\<close>, \<^verbatim>\<open>login.h\<close>, \<^verbatim>\<open>login.cpp\<close> and the event
  selection of \<^verbatim>\<open>epoll.cpp\<close>: the robot client. It connects, exchanges a key with the server and
  logs in; received bytes are reassembled to packets and dispatched on their message id.

  The environment is a parameter: what the system calls return, the random numbers, OpenSSL's
  public-key encryption and the bytes uninitialised objects happen to hold. Packets handed to
  \<^verbatim>\<open>send\<close> and the descriptors passed to \<^verbatim>\<open>epoll.modify\<close> are recorded in the state.
\<close>

section \<open>Message identifiers\<close>

datatype msg =
  MSG_S2C_SECURITY_INIT | MSG_S2C_INIT_FINAL | MSG_C2S_SECURITY_INIT | MSG_G2N_BASE | MSG_G2N_INIT
  | MSG_G2N_VERIFY_USER | MSG_N2G_BASE | MSG_N2G_NOTIF | MSG_N2G_VERIFY_USER_RESULT | MSG_C2L_BASE
  | MSG_C2L_LOGIN | MSG_C2L_GET_TOKEN | MSG_C2L_LOGOUT | MSG_C2L_KEEP_ALIVE | MSG_C2L_TRACE_LOG |
  MSG_C2L_EXIT | MSG_C2L_CHECK_PIN | MSG_C2L_REQUEST_NEWPIN | MSG_L2C_BASE | MSG_L2C_LOGIN_RESULT
  | MSG_L2C_GET_TOKEN_RESULT | MSG_L2C_NOTIF | MSG_L2C_KICK | MSG_L2N_BASE | MSG_L2N_GET_TOKEN |
  MSG_L2N_LOGIN | MSG_L2N_OFFLINE | MSG_N2L_BASE | MSG_N2L_NOTIF | MSG_N2L_LOGIN | MSG_N2L_OFFLINE
  | MSG_C2G_LOGIN | MSG_G2C_LOGIN_RESULT | MSG_G2C_INIT | MSG_C2S_REQADDR | MSG_S2C_REQADDR_RESULT
  | MSG_L2S_INIT | MSG_L2S_UPDATE

fun msg_id :: "msg \<Rightarrow> u16" where
  "msg_id MSG_S2C_SECURITY_INIT = 0x1"
| "msg_id MSG_S2C_INIT_FINAL = 0x2"
| "msg_id MSG_C2S_SECURITY_INIT = 0x50"
| "msg_id MSG_G2N_BASE = 0x1000"
| "msg_id MSG_G2N_INIT = 0x1001"
| "msg_id MSG_G2N_VERIFY_USER = 0x1002"
| "msg_id MSG_N2G_BASE = 0x2000"
| "msg_id MSG_N2G_NOTIF = 0x2001"
| "msg_id MSG_N2G_VERIFY_USER_RESULT = 0x2002"
| "msg_id MSG_C2L_BASE = 0x3000"
| "msg_id MSG_C2L_LOGIN = 0x3001"
| "msg_id MSG_C2L_GET_TOKEN = 0x3002"
| "msg_id MSG_C2L_LOGOUT = 0x3003"
| "msg_id MSG_C2L_KEEP_ALIVE = 0x3004"
| "msg_id MSG_C2L_TRACE_LOG = 0x3005"
| "msg_id MSG_C2L_EXIT = 0x3006"
| "msg_id MSG_C2L_CHECK_PIN = 0x3007"
| "msg_id MSG_C2L_REQUEST_NEWPIN = 0x3008"
| "msg_id MSG_L2C_BASE = 0x4000"
| "msg_id MSG_L2C_LOGIN_RESULT = 0x4001"
| "msg_id MSG_L2C_GET_TOKEN_RESULT = 0x4002"
| "msg_id MSG_L2C_NOTIF = 0x4003"
| "msg_id MSG_L2C_KICK = 0x4004"
| "msg_id MSG_L2N_BASE = 0x5000"
| "msg_id MSG_L2N_GET_TOKEN = 0x5001"
| "msg_id MSG_L2N_LOGIN = 0x5002"
| "msg_id MSG_L2N_OFFLINE = 0x5003"
| "msg_id MSG_N2L_BASE = 0x6000"
| "msg_id MSG_N2L_NOTIF = 0x6001"
| "msg_id MSG_N2L_LOGIN = 0x6002"
| "msg_id MSG_N2L_OFFLINE = 0x6003"
| "msg_id MSG_C2G_LOGIN = 0x7000"
| "msg_id MSG_G2C_LOGIN_RESULT = 0x8000"
| "msg_id MSG_G2C_INIT = 0x8001"
| "msg_id MSG_C2S_REQADDR = 0x9000"
| "msg_id MSG_S2C_REQADDR_RESULT = 0x9100"
| "msg_id MSG_L2S_INIT = 0x9200"
| "msg_id MSG_L2S_UPDATE = 0x9201"

section \<open>State and environment\<close>

datatype secure_state = kInit | kInProgress | kDone

primrec secure_value :: "secure_state \<Rightarrow> int" where
  "secure_value kInit = 0"
| "secure_value kInProgress = 1"
| "secure_value kDone = 2"

instantiation secure_state :: linorder
begin

definition less_eq_secure_state :: "secure_state \<Rightarrow> secure_state \<Rightarrow> bool" where
  "s \<le> t \<longleftrightarrow> secure_value s \<le> secure_value t"

definition less_secure_state :: "secure_state \<Rightarrow> secure_state \<Rightarrow> bool" where
  "s < t \<longleftrightarrow> secure_value s < secure_value t"

instance
proof
  fix s t :: secure_state
  assume "s \<le> t" "t \<le> s"
  then show "s = t" by (cases s; cases t) (simp_all add: less_eq_secure_state_def)
qed (auto simp: less_eq_secure_state_def less_secure_state_def)

end

record client =
  fd :: int
  nblock :: bool
  security_key :: tea_key
  security_state :: secure_state
  username :: bytes
  passwd :: bytes
  lang :: bytes
  envname :: bytes
  cookie :: bytes
  inpkt :: packet
  sent :: "bytes list"
  epoll_mods :: "(int \<times> u32) list"

type_synonym 'a cact = "(client, packet_exn, 'a) action"

record environment =
  rand_of :: "nat \<Rightarrow> u32"
  rsa_public_encrypt :: "bytes \<Rightarrow> bytes \<Rightarrow> bytes option"
  heap_junk :: mem
  stack_junk :: bytes

section \<open>TCPClient\<close>

definition closefd :: "unit cact" where
  "closefd = seq (assert_that (\<lambda>c. fd c \<ge> 0)) (\<lambda>_. update (\<lambda>c. c\<lparr>fd := -1\<rparr>))"

text \<open>
  \<^verbatim>\<open>connect\<close> walks the addresses \<^verbatim>\<open>getaddrinfo\<close> returned. For each, the environment gives the
  descriptor \<^verbatim>\<open>socket\<close> returns and whether \<^verbatim>\<open>connect\<close> succeeds or is in progress. The
  result is the new \<^verbatim>\<open>fd_\<close> with the descriptors closed on the way.
\<close>

fun connect_loop :: "(int \<times> bool) list \<Rightarrow> int \<Rightarrow> int list \<Rightarrow> int \<times> int list" where
  "connect_loop [] f closed = (f, closed)"
| "connect_loop ((s, ok) # rest) f closed =
     (if s = -1 then connect_loop rest (-1) closed
      else if ok then (s, closed)
      else connect_loop rest (-1) (closed @ [s]))"

definition tcp_connect :: "(int \<times> bool) list \<Rightarrow> client \<Rightarrow> bool \<times> client \<times> int list" where
  "tcp_connect addrs c = (case connect_loop addrs (fd c) [] of
     (f, closed) \<Rightarrow> (\<not> f < 0, c\<lparr>fd := f\<rparr>, closed))"

section \<open>SSLClient\<close>

definition generate_key :: "(nat \<Rightarrow> u32) \<Rightarrow> tea_key \<Rightarrow> tea_key" where
  \<comment> \<open>the loop over the four words of \<^verbatim>\<open>security_key_\<close>, as it is written\<close>
  "generate_key rnd k = fold (\<lambda>i (_, b, c, d). (rnd i, b, c, d)) [0..<4] k"

fun key_bytes :: "tea_key \<Rightarrow> bytes" where
  "key_bytes (a, b, c, d) = le_enc 4 a @ le_enc 4 b @ le_enc 4 c @ le_enc 4 d"

definition send_packet :: "packet \<Rightarrow> unit cact" where
  "send_packet pkt c =
     (case (if security_state c = kDone then op_encode (security_key c) pkt else (Val (), pkt)) of
        (Val _, p) \<Rightarrow> (Val (), c\<lparr>sent := sent c @ [getBuf (wind p)]\<rparr>)
      | (Throw e, p) \<Rightarrow> (Throw e, c)
      | (Abort, p) \<Rightarrow> (Abort, c)
      | (Undef, p) \<Rightarrow> (Undef, c))"

definition with_opacket :: "environment \<Rightarrow> u16 \<Rightarrow> unit pact \<Rightarrow> unit cact" where
  \<comment> \<open>a local \<^verbatim>\<open>OPacket\<close>: set the message id, write, send\<close>
  "with_opacket e mid writer c =
     (case writer (setMsgId mid (opacket_new (heap_junk e))) of
        (Val _, p) \<Rightarrow> send_packet p c
      | (Throw x, p) \<Rightarrow> (Throw x, c)
      | (Abort, p) \<Rightarrow> (Abort, c)
      | (Undef, p) \<Rightarrow> (Undef, c))"

definition init_security :: "environment \<Rightarrow> bytes \<Rightarrow> unit cact" where
  \<comment> \<open>\<^verbatim>\<open>rsa_encrypt\<close> asserts on each of its failures, a result of no bytes among them\<close>
  "init_security e pubkey c0 =
     (if security_state c0 \<noteq> kInit then (Val (), c0)
      else let c = c0\<lparr>security_key := generate_key (rand_of e) (security_key c0)\<rparr> in
        case rsa_public_encrypt e pubkey (key_bytes (security_key c)) of
          None \<Rightarrow> (Abort, c)
        | Some buf \<Rightarrow> if buf = [] then (Abort, c) else
            seq (with_opacket e (msg_id MSG_C2S_SECURITY_INIT) (setData True buf))
              (\<lambda>_. update (\<lambda>c. c\<lparr>security_state := kInProgress\<rparr>)) c)"

definition complete_security :: "client \<Rightarrow> client" where
  "complete_security c =
     (if security_state c \<noteq> kInProgress then c else c\<lparr>security_state := kDone\<rparr>)"

section \<open>Login\<close>

definition login :: "environment \<Rightarrow> unit cact" where
  "login e c = with_opacket e (msg_id MSG_C2L_LOGIN)
     (put_fields [Str (username c), Str (passwd c), Str (lang c), Str (envname c), Int32 0]) c"

definition logout :: "environment \<Rightarrow> unit cact" where
  "logout e = with_opacket e (msg_id MSG_C2L_LOGOUT) (put_fields [])"

definition get_token :: "environment \<Rightarrow> bytes \<Rightarrow> unit cact" where
  "get_token e gameid = with_opacket e (msg_id MSG_C2L_GET_TOKEN) (put_fields [Int32 0, Str gameid])"

definition random_action :: "environment \<Rightarrow> unit cact" where
  \<comment> \<open>the branches on the random number are empty; the game id is \<^verbatim>\<open>"pwe"\<close>\<close>
  "random_action e = get_token e [112, 119, 101]"

definition on_inpkt :: "'a pact \<Rightarrow> 'a cact" where
  "on_inpkt m c = (case m (inpkt c) of (r, p) \<Rightarrow> (r, c\<lparr>inpkt := p\<rparr>))"

definition proc_security :: "environment \<Rightarrow> unit cact" where
  "proc_security e c =
     (if getMsgId (inpkt c) = msg_id MSG_S2C_SECURITY_INIT
      then seq (on_inpkt read_string) (\<lambda>pubkey. init_security e pubkey) c
      else seq (update complete_security) (\<lambda>_. login e) c)"

definition proc_login_result :: "unit cact" where
  "proc_login_result =
     seq (on_inpkt read_int8) (\<lambda>flag. seq (on_inpkt read_int8) (\<lambda>result.
     if flag = 1 then
       seq (on_inpkt read_string) (\<lambda>sid. seq (on_inpkt read_string) (\<lambda>nname.
       seq (on_inpkt read_string) (\<lambda>uname. seq (on_inpkt read_string) (\<lambda>ck.
       update (\<lambda>c. c\<lparr>cookie := ck\<rparr>)))))
     else ret ()))"

definition proc_token_result :: "unit cact" where
  "proc_token_result = seq (on_inpkt read_string) (\<lambda>token. ret ())"

definition proc_kicked :: "unit cact" where
  "proc_kicked = closefd"

definition handler :: "environment \<Rightarrow> u16 \<Rightarrow> unit cact option" where
  \<comment> \<open>the table \<^verbatim>\<open>kOperMap\<close>\<close>
  "handler e m =
     (if m = msg_id MSG_S2C_SECURITY_INIT \<or> m = msg_id MSG_S2C_INIT_FINAL then Some (proc_security e)
      else if m = msg_id MSG_L2C_LOGIN_RESULT then Some proc_login_result
      else if m = msg_id MSG_L2C_GET_TOKEN_RESULT then Some proc_token_result
      else if m = msg_id MSG_L2C_KICK then Some proc_kicked
      else None)"

definition catch_overread :: "unit cact \<Rightarrow> unit cact" where
  \<comment> \<open>the handler of \<^verbatim>\<open>PacketOverread\<close> logs and goes on; other exceptions pass\<close>
  "catch_overread h c = (case h c of (Throw PacketOverread, c') \<Rightarrow> (Val (), c') | other \<Rightarrow> other)"

definition dispatch :: "environment \<Rightarrow> unit cact" where
  "dispatch e =
     seq (\<lambda>c. if security_state c = kDone
              then on_inpkt (ip_decode (security_key c) (stack_junk e)) c else (Val (), c)) (\<lambda>_ c.
     case handler e (getMsgId (inpkt c)) of
       None \<Rightarrow> (Val (), c)
     | Some h \<Rightarrow> catch_overread h c)"

text \<open>
  The inner loop of \<^verbatim>\<open>on_readable\<close>. \<open>buf\<close> is the local array; \<^verbatim>\<open>append\<close> gets it from its
  beginning in every iteration. \<^verbatim>\<open>nbuf\<close> is an \<^verbatim>\<open>int\<close>; a negative one becomes a huge \<^verbatim>\<open>size_t\<close>.
  A loop that does not end is \<open>None\<close>.
\<close>

definition as_size :: "int \<Rightarrow> nat" where
  "as_size n = nat (n mod 2 ^ 64)"

definition append_and_dispatch :: "environment \<Rightarrow> bytes \<Rightarrow> int \<Rightarrow> u16 cact" where
  "append_and_dispatch e buf nbuf =
     seq (on_inpkt (ip_append buf (as_size nbuf))) (\<lambda>n c.
     if is_complete (inpkt c) then
       seq (dispatch e) (\<lambda>_. seq (update (\<lambda>c. c\<lparr>inpkt := ipacket_reset (inpkt c)\<rparr>)) (\<lambda>_. ret n)) c
     else (Val n, c))"

partial_function (option) recv_loop ::
  "environment \<Rightarrow> bytes \<Rightarrow> int \<Rightarrow> client \<Rightarrow> ((packet_exn, unit) outcome \<times> client) option" where
  "recv_loop e buf nbuf c =
     (case append_and_dispatch e buf nbuf c of
        (Val n, c') \<Rightarrow>
          let nbuf' = nbuf - int (unat n) in
          if nbuf' > 0 then recv_loop e buf nbuf' c' else Some (Val (), c')
      | (Throw x, c') \<Rightarrow> Some (Throw x, c')
      | (Abort, c') \<Rightarrow> Some (Abort, c')
      | (Undef, c') \<Rightarrow> Some (Undef, c'))"

abbreviation EPOLLIN :: u32 where "EPOLLIN \<equiv> 1"
abbreviation EPOLLOUT :: u32 where "EPOLLOUT \<equiv> 4"
abbreviation EPOLLRDHUP :: u32 where "EPOLLRDHUP \<equiv> 0x2000"
abbreviation EPOLLONESHOT :: u32 where "EPOLLONESHOT \<equiv> 0x40000000"
abbreviation EPOLLET :: u32 where "EPOLLET \<equiv> 0x80000000"

definition epoll_modify :: "u32 \<Rightarrow> client \<Rightarrow> client" where
  "epoll_modify ev c = c\<lparr>epoll_mods := epoll_mods c @ [(fd c, ev)]\<rparr>"

fun on_readable ::
  "environment \<Rightarrow> (int \<times> bytes) list \<Rightarrow> client \<Rightarrow> ((packet_exn, unit) outcome \<times> client) option" where
  \<comment> \<open>the results of the successive \<^verbatim>\<open>recv\<close> calls, each with the array as it leaves it; the outer
    loop asks for more only while the array was filled\<close>
  "on_readable e [] c = Some (Val (), c)"
| "on_readable e ((len, buf) # later) c =
     (if len = 0 then Some (seq closefd (\<lambda>_. update (epoll_modify
          (EPOLLIN OR EPOLLRDHUP OR EPOLLONESHOT OR EPOLLET))) c)
      else case recv_loop e buf len c of
          None \<Rightarrow> None
        | Some (Val _, c') \<Rightarrow>
            if len = int PACKET_SIZE then on_readable e later c' else Some (Val (), c')
        | Some stop \<Rightarrow> Some stop)"

section \<open>Event selection\<close>

datatype callback = on_writeable_cb | on_readable_cb | on_peer_closed_cb

definition on_writeable :: "int \<Rightarrow> int \<Rightarrow> client \<Rightarrow> client" where
  \<comment> \<open>\<open>rc\<close> is what \<^verbatim>\<open>getsockopt\<close> returns, \<open>error\<close> the pending socket error it stores\<close>
  "on_writeable rc error c =
     (if rc = 0 \<and> error = 0 then epoll_modify (EPOLLIN OR EPOLLRDHUP OR EPOLLONESHOT) c else c)"

definition epoll_select :: "u32 \<Rightarrow> callback option" where
  "epoll_select events =
     (if events AND EPOLLOUT \<noteq> 0 then Some on_writeable_cb
      else if events AND EPOLLIN \<noteq> 0 then Some on_readable_cb
      else if events AND EPOLLRDHUP \<noteq> 0 then Some on_peer_closed_cb
      else None)"

end
