(* ===== verification/ClientProps.thy ===== *)
theory ClientProps
  imports Client
begin

text \<open>
  Properties of the robot client: the key exchange as a state machine, what the login discloses,
  and what the receive loop does with the frames one \<^verbatim>\<open>recv\<close> delivers.
\<close>

section \<open>State machine of the key exchange\<close>

lemma send_packet_state [simp]: "security_state (snd (send_packet p c)) = security_state c"
  by (auto simp: send_packet_def split: prod.splits outcome.splits)

lemma with_opacket_state [simp]: "security_state (snd (with_opacket e m w c)) = security_state c"
  by (auto simp: with_opacket_def split: prod.splits outcome.splits)

lemma on_inpkt_state [simp]: "security_state (snd (on_inpkt m c)) = security_state c"
  by (auto simp: on_inpkt_def split: prod.splits)

lemma closefd_state [simp]: "security_state (snd (closefd c)) = security_state c"
  by (simp add: closefd_def seq_def)

definition keeps_state :: "'a cact \<Rightarrow> bool" where
  "keeps_state m \<longleftrightarrow> (\<forall>c. security_state (snd (m c)) = security_state c)"

lemma keeps_state_seq: "keeps_state m \<Longrightarrow> (\<And>a. keeps_state (f a)) \<Longrightarrow> keeps_state (seq m f)"
proof -
  assume m: "keeps_state m" and f: "\<And>a. keeps_state (f a)"
  have "security_state (snd (seq m f c)) = security_state c" for c
  proof -
    obtain r d where r: "m c = (r, d)" by (cases "m c")
    then have "security_state d = security_state c" using m by (metis keeps_state_def snd_conv)
    then show ?thesis using f by (cases r) (simp_all add: seq_def r keeps_state_def)
  qed
  then show ?thesis by (simp add: keeps_state_def)
qed

lemma keeps_state_basic:
  "keeps_state (on_inpkt m)" "keeps_state closefd" "keeps_state (ret x)" "keeps_state (login e)"
  "keeps_state (update (\<lambda>c. c\<lparr>cookie := ck\<rparr>))"
  by (simp_all add: keeps_state_def login_def)

lemma keeps_state_handlers:
  "keeps_state proc_login_result" "keeps_state proc_token_result" "keeps_state proc_kicked"
  unfolding proc_login_result_def proc_token_result_def proc_kicked_def
  by (auto intro!: keeps_state_seq keeps_state_basic)

lemma send_then_progress:
  "security_state (snd (seq (with_opacket e m w) (\<lambda>_. update (\<lambda>c. c\<lparr>security_state := kInProgress\<rparr>)) d)) \<in>
    {security_state d, kInProgress}"
  using with_opacket_state [of e m w d]
  by (cases "with_opacket e m w d"; cases "fst (with_opacket e m w d)") (auto simp: seq_def)

lemma init_security_state:
  "security_state (snd (init_security e k c)) = security_state c \<or>
   (security_state c = kInit \<and> security_state (snd (init_security e k c)) = kInProgress)"
proof (cases "security_state c = kInit")
  case True
  let ?c = "c\<lparr>security_key := generate_key (rand_of e) (security_key c)\<rparr>"
  show ?thesis
  proof (cases "rsa_public_encrypt e k (key_bytes (security_key ?c))")
    case None
    with True show ?thesis by (simp add: init_security_def Let_def)
  next
    case (Some buf)
    with True show ?thesis
      using send_then_progress [of e "msg_id MSG_C2S_SECURITY_INIT" "setData True buf" ?c]
      by (simp add: init_security_def Let_def)
  qed
qed (simp add: init_security_def)

lemma proc_security_state:
  "security_state (snd (proc_security e c)) = security_state c \<or>
   (security_state c = kInit \<and> getMsgId (inpkt c) = msg_id MSG_S2C_SECURITY_INIT \<and>
      security_state (snd (proc_security e c)) = kInProgress) \<or>
   (security_state c = kInProgress \<and> getMsgId (inpkt c) \<noteq> msg_id MSG_S2C_SECURITY_INIT \<and>
      security_state (snd (proc_security e c)) = kDone)"
proof (cases "getMsgId (inpkt c) = msg_id MSG_S2C_SECURITY_INIT")
  case True
  obtain r d where r: "on_inpkt read_string c = (r, d)" by (cases "on_inpkt read_string c")
  then have "security_state d = security_state c" using on_inpkt_state by (metis snd_conv)
  then show ?thesis
    using True init_security_state [of e _ d]
    by (cases r) (auto simp: proc_security_def seq_def r)
next
  case False
  have "security_state (snd (login e d)) = security_state d" for d
    using keeps_state_basic(4) by (simp add: keeps_state_def)
  then show ?thesis
    using False by (cases "security_state c") (auto simp: proc_security_def seq_def complete_security_def)
qed

definition security_step :: "u16 \<Rightarrow> secure_state \<Rightarrow> secure_state \<Rightarrow> bool" where
  "security_step m s s' \<longleftrightarrow> s' = s \<or>
     (s = kInit \<and> m = msg_id MSG_S2C_SECURITY_INIT \<and> s' = kInProgress) \<or>
     (s = kInProgress \<and> m = msg_id MSG_S2C_INIT_FINAL \<and> s' = kDone)"

lemma handler_state:
  assumes "handler e (getMsgId (inpkt c)) = Some h"
  shows "security_step (getMsgId (inpkt c)) (security_state c) (security_state (snd (h c)))"
  using assms proc_security_state [of e c] keeps_state_handlers
  by (auto simp: handler_def security_step_def keeps_state_def split: if_splits)

lemma snd_catch [simp]: "snd (catch_overread h c) = snd (h c)"
  by (cases "h c"; cases "fst (h c)") (auto simp: catch_overread_def split: packet_exn.splits)

lemma dispatch_state: "security_step (getMsgId (inpkt c)) (security_state c) (security_state (snd (dispatch e c)))"
proof (cases "security_state c = kDone")
  case False
  then show ?thesis
    using handler_state [of e c]
    by (auto simp: dispatch_def seq_def security_step_def split: option.splits)
next
  case True
  let ?m = "on_inpkt (ip_decode (security_key c) (stack_junk e))"
  obtain r d where r: "?m c = (r, d)" by (cases "?m c")
  then have s: "security_state d = kDone" using True on_inpkt_state by (metis snd_conv)
  then have "security_state (snd (dispatch e c)) = kDone"
    using handler_state [of e d] True
    by (cases r) (auto simp: dispatch_def seq_def r security_step_def split: option.splits)
  with True show ?thesis by (simp add: security_step_def)
qed

definition dispatch_all :: "(environment \<times> packet) list \<Rightarrow> client \<Rightarrow> client" where
  \<comment> \<open>packets that arrive one after the other, each with the environment it meets\<close>
  "dispatch_all pkts c = foldl (\<lambda>c (e, p). snd (dispatch e (c\<lparr>inpkt := p\<rparr>))) c pkts"

lemma security_step_le: "security_step m s t \<Longrightarrow> s \<le> t"
  by (auto simp: security_step_def less_eq_secure_state_def)

lemma dispatch_all_le: "security_state c \<le> security_state (dispatch_all pkts c)"
proof (induction pkts arbitrary: c)
  case (Cons ep pkts)
  obtain e p where ep: "ep = (e, p)" by (cases ep)
  have "security_state c \<le> security_state (snd (dispatch e (c\<lparr>inpkt := p\<rparr>)))"
    using security_step_le [OF dispatch_state [of "c\<lparr>inpkt := p\<rparr>" e]] by simp
  also have "\<dots> \<le> security_state (dispatch_all (ep # pkts) c)" using Cons.IH by (simp add: dispatch_all_def ep)
  finally show ?case .
qed (simp add: dispatch_all_def)

text \<open>
  C4: The key exchange only moves forward, one step at a time, and only on the right message:
  dispatching any packet leaves the security state as it is, or takes it from \<^verbatim>\<open>kInit\<close> to
  \<^verbatim>\<open>kInProgress\<close> on \<^verbatim>\<open>MSG_S2C_SECURITY_INIT\<close>, or from \<^verbatim>\<open>kInProgress\<close> to \<^verbatim>\<open>kDone\<close> on
  \<^verbatim>\<open>MSG_S2C_INIT_FINAL\<close>; also when a handler throws, asserts or meets undefined behaviour. So no
  sequence of packets takes the state back.
\<close>

theorem dispatch_security_step:
  "security_step (getMsgId (inpkt c)) (security_state c) (security_state (snd (dispatch e c))) \<and>
    security_state c \<le> security_state (dispatch_all pkts c)"
  by (intro conjI dispatch_state dispatch_all_le)

section \<open>The session key\<close>

text \<open>
  \<^verbatim>\<open>generate_key\<close> draws four random numbers but stores each of them in the first word of
  the key: the last one stays there, and the other three words, 96 of the 128 key bits, are
  whatever the uninitialised member held before.
\<close>

theorem generate_key_one_word: "generate_key rnd (a, b, c, d) = (rnd 3, b, c, d)"
  by (simp add: generate_key_def upt_rec numeral_nat)

section \<open>What the login discloses\<close>

definition login_fields :: "client \<Rightarrow> field list" where
  "login_fields c = [Str (username c), Str (passwd c), Str (lang c), Str (envname c), Int32 0]"

definition login_size :: "client \<Rightarrow> nat" where
  "login_size c = length (wires (login_fields c))"

lemma login_fields_sized: "login_size c \<le> 32752 \<Longrightarrow> \<forall>f\<in>set (login_fields c). well_sized f"
  by (simp add: login_size_def login_fields_def)

lemma login_packet:
  assumes "login_size c \<le> 32752"
  shows "\<exists>op. login e c = send_packet op c \<and> at_end op \<and> payload op = wires (login_fields c) \<and>
    getFlag op = 0"
proof -
  let ?op = "append_bytes (wires (login_fields c)) (setMsgId (msg_id MSG_C2L_LOGIN) (opacket_new (heap_junk e)))"
  have op: "put_fields (login_fields c) (setMsgId (msg_id MSG_C2L_LOGIN) (opacket_new (heap_junk e))) = (Val (), ?op)"
      "at_end ?op" "payload ?op = wires (login_fields c)"
    using opacket_fields [OF login_fields_sized [OF assms], of "msg_id MSG_C2L_LOGIN" "heap_junk e"]
      assms by (simp_all add: login_size_def)
  have "getFlag ?op = getFlag (setMsgId (msg_id MSG_C2L_LOGIN) (opacket_new (heap_junk e)))"
    using append_bytes_hdr [of "setMsgId (msg_id MSG_C2L_LOGIN) (opacket_new (heap_junk e))"]
    by (simp add: at_end_def setMsgId_def opacket_new_def)
  also have "\<dots> = 0"
    by (simp add: getFlag_def setMsgId_def opacket_new_def)
  finally have "getFlag ?op = 0" .
  moreover have "login e c = send_packet ?op c"
    using op(1) by (simp add: login_def login_fields_def with_opacket_def)
  ultimately show ?thesis
    using op(2,3) by blast
qed

lemma dispatch_init_final:
  assumes "security_state c \<noteq> kDone" "getMsgId (inpkt c) = msg_id MSG_S2C_INIT_FINAL"
    and "login e (complete_security c) = (Val (), c')"
  shows "dispatch e c = (Val (), c')"
  using assms by (simp add: dispatch_def seq_def handler_def proc_security_def catch_overread_def)

text \<open>
  C9: A server can have the password in clear: when \<^verbatim>\<open>MSG_S2C_INIT_FINAL\<close> arrives before any key
  exchange, \<^verbatim>\<open>complete_security\<close> does nothing, but \<^verbatim>\<open>login\<close> is called all the same, and with
  the state still \<^verbatim>\<open>kInit\<close> the packet is sent unencrypted: behind its header are the name and
  the password as they are.
\<close>

theorem login_in_clear:
  assumes "security_state c = kInit" "getMsgId (inpkt c) = msg_id MSG_S2C_INIT_FINAL"
    and "login_size c \<le> 32752"
  shows "\<exists>M. dispatch e c = (Val (), c\<lparr>sent := sent c @ [M]\<rparr>) \<and> frame M \<and>
    drop kHdrLen M = wires [Str (username c), Str (passwd c), Str (lang c), Str (envname c), Int32 0]"
proof -
  obtain op where op: "login e c = send_packet op c" "at_end op" "payload op = wires (login_fields c)"
    using login_packet [OF assms(3)] by metis
  let ?M = "getBuf (wind op)"
  have c: "complete_security c = c" using assms(1) by (simp add: complete_security_def)
  have "login e (complete_security c) = (Val (), c\<lparr>sent := sent c @ [?M]\<rparr>)"
    using assms(1) op(1) by (simp add: c send_packet_def)
  then have "dispatch e c = (Val (), c\<lparr>sent := sent c @ [?M]\<rparr>)"
    using assms(1,2) by (intro dispatch_init_final) simp_all
  moreover have "kHdrLen \<le> unat (p_len (wind op))"
    using op(2) by (simp add: wind_len at_end_def)
  then have "drop kHdrLen ?M = payload op"
    by (simp add: getBuf_split wind_keeps)
  ultimately show ?thesis
    using wind_frame [OF op(2)] op(3) by (auto simp: login_fields_def)
qed

text \<open>
  C10: In the intended order the login is protected: on \<^verbatim>\<open>MSG_S2C_INIT_FINAL\<close> after the key
  exchange was begun, the client is done with it and sends one encrypted packet, from which a
  receiver with the same key recovers exactly the login fields.
\<close>

theorem login_encrypted:
  assumes "security_state c = kInProgress" "getMsgId (inpkt c) = msg_id MSG_S2C_INIT_FINAL"
    and "login_size c \<le> 32752" "length stack = PACKET_SIZE"
  shows "\<exists>M. dispatch e c = (Val (), c\<lparr>security_state := kDone, sent := sent c @ [M]\<rparr>) \<and>
    (\<forall>ip. received ip M \<longrightarrow> (\<exists>ip'. ip_decode (security_key c) stack ip = (Val (), ip') \<and>
       payload ip' = wires [Str (username c), Str (passwd c), Str (lang c), Str (envname c), Int32 0]))"
proof -
  let ?c = "c\<lparr>security_state := kDone\<rparr>"
  have fields: "login_fields ?c = login_fields c" "login_size ?c = login_size c"
    by (simp_all add: login_fields_def login_size_def)
  have "login_size ?c \<le> 32752" using assms(3) fields by simp
  then obtain op where op: "login e ?c = send_packet op ?c" "at_end op"
      "payload op = wires (login_fields c)" "getFlag op = 0"
    using login_packet [of ?c e] fields by auto
  have ne: "payload op \<noteq> []" "length (payload op) \<le> 32752"
    using op(3) assms(3) by (auto simp: login_size_def login_fields_def le_enc_def)
  obtain op' where op': "op_encode (security_key c) op = (Val (), op')"
      "\<forall>ip. received ip (getBuf (wind op')) \<longrightarrow>
        (\<exists>ip'. ip_decode (security_key c) stack ip = (Val (), ip') \<and> payload ip' = payload op)"
    using encrypted_packet [OF op(2) _ ne assms(4), of "security_key c"] op(4) by fastforce
  have "complete_security c = ?c" using assms(1) by (simp add: complete_security_def)
  then have "login e (complete_security c) = (Val (), ?c\<lparr>sent := sent c @ [getBuf (wind op')]\<rparr>)"
    using op(1) op'(1) by (simp add: send_packet_def)
  then have "dispatch e c = (Val (), ?c\<lparr>sent := sent c @ [getBuf (wind op')]\<rparr>)"
    using assms(1,2) by (intro dispatch_init_final) simp_all
  then show ?thesis
    using op'(2) op(3) by (auto simp: login_fields_def)
qed

definition sample_client :: "secure_state \<Rightarrow> packet \<Rightarrow> client" where
  "sample_client st p = \<lparr>fd = 3, nblock = True, security_key = (1, 2, 3, 4), security_state = st,
     username = [114, 49], passwd = [112, 119], lang = [101, 110], envname = [], cookie = [],
     inpkt = p, sent = [], epoll_mods = []\<rparr>"

definition sample_env :: environment where
  "sample_env = \<lparr>rand_of = of_nat, rsa_public_encrypt = (\<lambda>k x. Some x), heap_junk = (\<lambda>_. 0),
     stack_junk = replicate PACKET_SIZE 0\<rparr>"

definition final_packet :: packet where
  "final_packet = setMsgId (msg_id MSG_S2C_INIT_FINAL) (ipacket_new (\<lambda>_. 0))"

lemma sample_client_facts:
  "getMsgId final_packet = msg_id MSG_S2C_INIT_FINAL" "login_size (sample_client st p) \<le> 32752"
  by (simp_all add: final_packet_def getMsgId_def setMsgId_def login_size_def login_fields_def
      sample_client_def)

theorem login_in_clear_witness:
  "\<exists>M. dispatch sample_env (sample_client kInit final_packet) =
     (Val (), (sample_client kInit final_packet)\<lparr>sent := [M]\<rparr>) \<and> frame M \<and>
    drop kHdrLen M = wires [Str [114, 49], Str [112, 119], Str [101, 110], Str [], Int32 0]"
  using login_in_clear [of "sample_client kInit final_packet" sample_env] sample_client_facts
  by (simp add: sample_client_def)

theorem login_encrypted_witness:
  "\<exists>M. dispatch sample_env (sample_client kInProgress final_packet) =
     (Val (), (sample_client kInProgress final_packet)\<lparr>security_state := kDone, sent := [M]\<rparr>) \<and>
    (\<forall>ip. received ip M \<longrightarrow> (\<exists>ip'. ip_decode (1, 2, 3, 4) (replicate PACKET_SIZE 9) ip = (Val (), ip') \<and>
       payload ip' = wires [Str [114, 49], Str [112, 119], Str [101, 110], Str [], Int32 0]))"
  using login_encrypted [of "sample_client kInProgress final_packet" "replicate PACKET_SIZE 9" sample_env]
    sample_client_facts
  by (simp add: sample_client_def)

section \<open>The receive loop\<close>

lemma poke_Nil [simp]: "poke m i [] = m"
  by (rule ext) (auto simp: poke_def)

text \<open>A reset packet takes exactly the frame at the front of the buffer, however much follows.\<close>

lemma append_fresh_frame:
  assumes "received p []" "frame M" "length M \<le> n" "n < 2 ^ 64"
  shows "ip_append (M @ rest) n p = ip_append M (length M) p"
proof -
  define h b where hb: "h = take kHdrLen M" "b = drop kHdrLen M"
  let ?p1 = "p\<lparr>p_buf := poke (p_buf p) 0 h, p_len := 12\<rparr>"
  have M: "M = h @ b" "length h = 12" "length b = frame_body_len M" "length b \<le> PACKET_SIZE - 12"
    using assms(2) by (auto simp: frame_def hb)
  have l0: "unat (p_len p) = 0" using received_len [OF assms(1)] by simp
  then have l0': "p_len p = 0" by (simp add: unat_eq_0)
  have "received ?p1 ([] @ h)"
    using received_grow [OF assms(1), of h] M l0' by simp
  then have "hdr_getLen (p_buf ?p1) = le_dec (take 2 (drop 4 h))"
    using M by (intro received_getLen) simp_all
  then have g: "unat (hdr_getLen (poke (p_buf p) 0 h)) = length b"
    using M by (simp add: frame_body_len_def)
  have n: "12 + length b \<le> n" "min n 12 = 12" "min (n - 12) (length b) = length b" "12 < n \<or> b = [] \<and> n = 12"
    using assms(3) M(1,2) by (cases b; force)+
  show ?thesis
    using l0 l0' M(2,4) n by (auto simp: ip_append_def seq_def Let_def g M(1))
qed

definition deliver :: "environment \<Rightarrow> bytes \<Rightarrow> unit cact" where
  \<comment> \<open>the abstract receiver: collect one frame, dispatch it, start over\<close>
  "deliver e M = seq (on_inpkt (feed [M])) (\<lambda>_. seq (dispatch e) (\<lambda>_.
     update (\<lambda>c. c\<lparr>inpkt := ipacket_reset (inpkt c)\<rparr>)))"

lemma append_and_dispatch_frame:
  assumes "received (inpkt c) []" "frame M" "int (length M) \<le> n" "n < 2 ^ 64"
  shows "append_and_dispatch e (M @ rest) n c =
    seq (deliver e M) (\<lambda>_. ret (of_nat (length M))) c"
proof -
  have sz: "as_size n = nat n" using assms(3,4) by (simp add: as_size_def)
  have M: "M \<noteq> []" "kHdrLen \<le> length M" using assms(2) by (auto simp: frame_def)
  obtain p where p: "ip_append M (length M) (inpkt c) = (Val (of_nat (length M)), p)" "received p M"
    using append_prefix [OF assms(1) M(1) assms(2), of "[]"] by auto
  have "ip_append (M @ rest) (nat n) (inpkt c) = (Val (of_nat (length M)), p)"
    using append_fresh_frame [OF assms(1,2), of "nat n" rest] assms(3,4) p(1) by simp
  then have a: "on_inpkt (ip_append (M @ rest) (as_size n)) c = (Val (of_nat (length M)), c\<lparr>inpkt := p\<rparr>)"
    by (simp add: on_inpkt_def sz)
  have f: "on_inpkt (feed [M]) c = (Val (), c\<lparr>inpkt := p\<rparr>)"
    using p(1) by (simp add: on_inpkt_def seq_def)
  have "is_complete p"
    using received_complete [OF p(2) M(2)] assms(2) by simp
  then show ?thesis
    by (simp add: append_and_dispatch_def deliver_def seq_assoc seq_Val a f del: feed.simps)
qed

lemma recv_loop_frame:
  assumes "received (inpkt c) []" "frame M" "int (length M) \<le> n" "n < 2 ^ 31"
  shows "recv_loop e (M @ rest) n c =
    (case deliver e M c of
       (Val _, c') \<Rightarrow> if n = int (length M) then Some (Val (), c')
                     else recv_loop e (M @ rest) (n - int (length M)) c'
     | stop \<Rightarrow> Some stop)"
proof -
  have l: "unat (of_nat (length M) :: u16) = length M"
    using assms(2) by (intro unat_of_nat_small) (simp add: frame_def)
  obtain r d where d: "deliver e M c = (r, d)" by (cases "deliver e M c")
  have "append_and_dispatch e (M @ rest) n c = seq (deliver e M) (\<lambda>_. ret (of_nat (length M))) c"
    using assms by (intro append_and_dispatch_frame) auto
  then show ?thesis
    using l assms(3) d by (cases r) (auto simp: recv_loop.simps [of e _ n c] seq_def Let_def)
qed

lemma deliver_fresh: "fst (deliver e M c) = Val x \<Longrightarrow> received (inpkt (snd (deliver e M c))) []"
  by (auto simp: deliver_def seq_def received_def getBuf_def ipacket_reset_def
      split: prod.splits outcome.splits)

lemma recv_loop_one:
  assumes "received (inpkt c) []" "frame M"
  shows "recv_loop e (M @ rest) (int (length M)) c = Some (deliver e M c)"
proof -
  have "length M < 2 ^ 31" using assms(2) by (simp add: frame_def)
  then have "recv_loop e (M @ rest) (int (length M)) c =
      (case deliver e M c of (Val _, c') \<Rightarrow> Some (Val (), c') | stop \<Rightarrow> Some stop)"
    using recv_loop_frame [OF assms, of "int (length M)" e rest] by (simp split: prod.splits outcome.splits)
  then show ?thesis by (auto split: prod.splits outcome.splits)
qed

text \<open>
  C11: When the input packet is empty and a \<^verbatim>\<open>recv\<close> returns exactly one packet, the inner loop of \<^verbatim>\<open>on_readable\<close>
  does what a packet receiver should: it collects the frame, dispatches it once, resets the input packet and ends,
  or ends as the handler did that threw, failed an assertion or met undefined behaviour. If the packet is shorter
  than the buffer of \<^verbatim>\<open>PACKET_SIZE\<close> bytes, this is all that \<^verbatim>\<open>on_readable\<close> does; it asks for no more. When
  it returns, the input packet is empty again.
\<close>

theorem recv_one_frame:
  assumes "received (inpkt c) []" "frame M"
  shows "recv_loop e (M @ rest) (int (length M)) c = Some (deliver e M c) \<and>
    (length M < PACKET_SIZE \<longrightarrow> on_readable e ((int (length M), M @ rest) # later) c = Some (deliver e M c)) \<and>
    (\<forall>c'. deliver e M c = (Val (), c') \<longrightarrow> received (inpkt c') [])"
proof (intro conjI impI allI)
  show run: "recv_loop e (M @ rest) (int (length M)) c = Some (deliver e M c)" by (rule recv_loop_one [OF assms])
  have "M \<noteq> []" using assms(2) by (auto simp: frame_def)
  then show "on_readable e ((int (length M), M @ rest) # later) c = Some (deliver e M c)" if "length M < PACKET_SIZE"
    using run that by (auto split: prod.splits outcome.splits)
  show "received (inpkt c') []" if "deliver e M c = (Val (), c')" for c'
    using deliver_fresh [of e M c] that by simp
qed

theorem recv_one_frame_witness:
  "on_readable sample_env [(13, [80, 80, 0, 0, 1, 0, 4, 64, 0, 0, 0, 0, 5] @ [9])]
     (sample_client kInit (ipacket_new (\<lambda>_. 0))) =
   Some (deliver sample_env [80, 80, 0, 0, 1, 0, 4, 64, 0, 0, 0, 0, 5]
     (sample_client kInit (ipacket_new (\<lambda>_. 0))))"
proof -
  let ?M = "[80, 80, 0, 0, 1, 0, 4, 64, 0, 0, 0, 0, 5] :: bytes" and ?c = "sample_client kInit (ipacket_new (\<lambda>_. 0))"
  have "received (inpkt ?c) []" using received_new by (simp add: sample_client_def)
  moreover have "frame ?M" by (simp add: frame_def frame_body_len_def le_dec_def)
  ultimately have "on_readable sample_env [(int (length ?M), ?M @ [9])] ?c = Some (deliver sample_env ?M ?c)"
    using recv_one_frame [of ?c ?M] by (simp del: on_readable.simps)
  then show ?thesis by (simp del: on_readable.simps)
qed

text \<open>
  When one \<^verbatim>\<open>recv\<close> returns two packets of the same size, the second is lost and the first
  is handled twice: \<^verbatim>\<open>append\<close> is called with \<^verbatim>\<open>buf\<close>, not with what is left of it, so that after
  dispatching the first packet the loop collects it again.
\<close>

theorem recv_two_frames:
  assumes "received (inpkt c) []" "frame M1" "frame M2" "length M1 = length M2"
    and "deliver e M1 c = (Val (), c')"
  shows "recv_loop e (M1 @ M2 @ rest) (int (length (M1 @ M2))) c = Some (deliver e M1 c')"
proof -
  let ?n = "int (length M1)"
  have len: "0 < length M1" "length M1 < 2 ^ 30" using assms(2) by (simp_all add: frame_def)
  have fresh: "received (inpkt c') []"
    using deliver_fresh [of e M1 c] assms(5) by simp
  have "recv_loop e (M1 @ M2 @ rest) (2 * ?n) c = recv_loop e (M1 @ M2 @ rest) ?n c'"
    using recv_loop_frame [OF assms(1,2), of "2 * ?n" e "M2 @ rest"] len assms(5) by simp
  also have "\<dots> = (case deliver e M1 c' of (Val _, d) \<Rightarrow> Some (Val (), d) | stop \<Rightarrow> Some stop)"
    using recv_loop_frame [OF fresh assms(2), of ?n e "M2 @ rest"] len
    by (simp split: prod.splits outcome.splits)
  also have "\<dots> = Some (deliver e M1 c')"
    by (auto split: prod.splits outcome.splits)
  finally show ?thesis using assms(4) by simp
qed

lemma received_msgId:
  assumes "received p r" "kHdrLen \<le> length r"
  shows "getMsgId p = le_dec (take 2 (drop 6 r))"
proof -
  have "r = peek (p_buf p) 0 (length r)"
    using assms(1) received_len [OF assms(1)] by (simp add: received_def getBuf_def)
  moreover have "take 2 (drop 6 (peek (p_buf p) 0 (length r))) = peek (p_buf p) 6 2"
    using assms(2) by (simp add: drop_peek take_peek)
  ultimately have "take 2 (drop 6 r) = peek (p_buf p) 6 2" by metis
  then show ?thesis by (simp add: getMsgId_def hdr_getMid_def)
qed

text \<open>A message the table does not list is dropped.\<close>

lemma deliver_unknown:
  assumes "received (inpkt c) []" "frame M" "security_state c \<noteq> kDone"
    and "handler e (le_dec (take 2 (drop 6 M))) = None"
  shows "fst (deliver e M c) = Val ()"
proof -
  have "[] \<notin> set [M]" using assms(2) by (auto simp: frame_def)
  then obtain p where p: "feed [M] (inpkt c) = (Val (), p)" "received p M"
    using feed_prefix [OF assms(1) _ assms(2), of "[M]" "[]"] by (auto simp del: feed.simps)
  have "getMsgId p = le_dec (take 2 (drop 6 M))"
    using received_msgId [OF p(2)] assms(2) by (simp add: frame_def)
  then show ?thesis
    using assms(3,4) p(1) by (simp add: deliver_def seq_def on_inpkt_def dispatch_def)
qed

theorem recv_two_frames_witness:
  "\<exists>c'. deliver sample_env [80, 80, 0, 0, 1, 0, 255, 0, 0, 0, 0, 0, 5] (sample_client kInit (ipacket_new (\<lambda>_. 0))) =
      (Val (), c') \<and>
    recv_loop sample_env ([80, 80, 0, 0, 1, 0, 255, 0, 0, 0, 0, 0, 5] @ [80, 80, 0, 0, 1, 0, 4, 64, 0, 0, 0, 0, 7] @ [])
      (int (length ([80, 80, 0, 0, 1, 0, 255, 0, 0, 0, 0, 0, 5] @ [80, 80, 0, 0, 1, 0, 4, 64, 0, 0, 0, 0, 7 :: u8])))
      (sample_client kInit (ipacket_new (\<lambda>_. 0))) =
    Some (deliver sample_env [80, 80, 0, 0, 1, 0, 255, 0, 0, 0, 0, 0, 5] c')"
proof -
  let ?M = "[80, 80, 0, 0, 1, 0, 255, 0, 0, 0, 0, 0, 5] :: bytes"
  let ?N = "[80, 80, 0, 0, 1, 0, 4, 64, 0, 0, 0, 0, 7] :: bytes"
  let ?c = "sample_client kInit (ipacket_new (\<lambda>_. 0))"
  have fr: "frame ?M" "frame ?N"
    by (simp_all add: frame_def frame_body_len_def le_dec_def)
  have r: "received (inpkt ?c) []" using received_new by (simp add: sample_client_def)
  have "handler sample_env (le_dec (take 2 (drop 6 ?M))) = None"
    by (simp add: handler_def le_dec_def)
  then have "fst (deliver sample_env ?M ?c) = Val ()"
    by (rule deliver_unknown [OF r fr(1), rotated]) (simp add: sample_client_def)
  then obtain c' where c': "deliver sample_env ?M ?c = (Val (), c')"
    by (metis prod.collapse)
  show ?thesis
    using recv_two_frames [OF r fr _ c', of "[]"] c' by auto
qed

section \<open>Connecting\<close>

definition opened :: "(int \<times> bool) list \<Rightarrow> int list" where
  "opened addrs = filter (\<lambda>s. s \<noteq> -1) (map fst addrs)"

definition fails :: "int \<times> bool \<Rightarrow> bool" where
  "fails a \<longleftrightarrow> fst a = -1 \<or> \<not> snd a"

lemma connect_loop_success:
  "\<forall>a\<in>set pre. fails a \<Longrightarrow> s \<noteq> -1 \<Longrightarrow>
   connect_loop (pre @ (s, True) # rest) f closed = (s, closed @ opened pre)"
  by (induction pre f closed rule: connect_loop.induct) (auto simp: opened_def fails_def)

lemma connect_loop_failure:
  "\<forall>a\<in>set addrs. fails a \<Longrightarrow> addrs \<noteq> [] \<Longrightarrow>
   connect_loop addrs f closed = (-1, closed @ opened addrs)"
proof (induction addrs arbitrary: f closed)
  case (Cons a addrs)
  then show ?case
    by (cases a; cases "addrs = []") (auto simp: opened_def fails_def)
qed simp

text \<open>
  Connecting leaks no descriptor: given at least one address and descriptors of \<^verbatim>\<open>socket\<close> that
  are \<open>-1\<close> or not negative, \<^verbatim>\<open>connect\<close> returns true exactly when some address gave a socket that
  connected; then \<^verbatim>\<open>fd_\<close> is the first such socket and every socket opened before it is
  closed; otherwise \<^verbatim>\<open>fd_\<close> is \<open>-1\<close> and all are closed.
\<close>

theorem tcp_connect_no_leak:
  assumes "addrs \<noteq> []" "\<forall>a\<in>set addrs. fst a = -1 \<or> 0 \<le> fst a"
    and "tcp_connect addrs c = (r, c', closed)"
  shows "(r \<longleftrightarrow> (\<exists>a\<in>set addrs. \<not> fails a)) \<and>
    (r \<longrightarrow> (\<exists>pre rest. addrs = pre @ (fd c', True) # rest \<and> (\<forall>a\<in>set pre. fails a) \<and> closed = opened pre)) \<and>
    (\<not> r \<longrightarrow> fd c' = -1 \<and> closed = opened addrs)"
proof (cases "\<forall>a\<in>set addrs. fails a")
  case True
  then show ?thesis
    using assms(1,3) by (auto simp: tcp_connect_def connect_loop_failure)
next
  case False
  then obtain pre a rest where split: "addrs = pre @ a # rest" "\<forall>a\<in>set pre. fails a" "\<not> fails a"
    using split_list_first_prop [of addrs "\<lambda>a. \<not> fails a"] by auto
  then obtain s where s: "a = (s, True)" "s \<noteq> -1" "0 \<le> s"
    using assms(2) by (cases a) (auto simp: fails_def)
  then have "r" "fd c' = s" "closed = opened pre"
    using assms(3) split connect_loop_success [OF split(2) s(2), of rest "fd c" "[]"]
    by (auto simp: tcp_connect_def)
  moreover have "\<exists>a\<in>set addrs. \<not> fails a" "addrs = pre @ (s, True) # rest"
    using split s(1) by auto
  ultimately show ?thesis using split(2) by simp metis
qed

theorem tcp_connect_no_leak_witness:
  "fst (tcp_connect [(-1, False), (5, False), (6, True), (7, True)] (sample_client kInit final_packet)) \<and>
   snd (snd (tcp_connect [(-1, False), (5, False), (6, True), (7, True)] (sample_client kInit final_packet))) = [5]"
proof -
  let ?a = "[(-1, False), (5, False), (6, True), (7, True)]"
  obtain r c' cl where t: "tcp_connect ?a (sample_client kInit final_packet) = (r, c', cl)"
    by (cases "tcp_connect ?a (sample_client kInit final_packet)")
  have "r" using tcp_connect_no_leak [OF _ _ t] by (simp add: fails_def)
  with t show ?thesis by (auto simp: tcp_connect_def)
qed

section \<open>Re-arming the descriptor\<close>

definition keeps_epoll :: "'a cact \<Rightarrow> bool" where
  "keeps_epoll m \<longleftrightarrow> (\<forall>c. epoll_mods (snd (m c)) = epoll_mods c)"

lemma keeps_epoll_seq: "keeps_epoll m \<Longrightarrow> (\<And>a. keeps_epoll (f a)) \<Longrightarrow> keeps_epoll (seq m f)"
proof -
  assume m: "keeps_epoll m" and f: "\<And>a. keeps_epoll (f a)"
  have "epoll_mods (snd (seq m f c)) = epoll_mods c" for c
  proof -
    obtain r d where r: "m c = (r, d)" by (cases "m c")
    then have "epoll_mods d = epoll_mods c" using m by (metis keeps_epoll_def snd_conv)
    then show ?thesis using f by (cases r) (simp_all add: seq_def r keeps_epoll_def)
  qed
  then show ?thesis by (simp add: keeps_epoll_def)
qed

lemma keeps_epoll_basic:
  "keeps_epoll (on_inpkt m)" "keeps_epoll closefd" "keeps_epoll (ret x)" "keeps_epoll (send_packet p)"
  "keeps_epoll (with_opacket e i w)" "keeps_epoll (update (\<lambda>c. c\<lparr>cookie := ck\<rparr>))"
  "keeps_epoll (update (\<lambda>c. c\<lparr>security_state := st\<rparr>))" "keeps_epoll (update complete_security)"
  "keeps_epoll (update (\<lambda>c. c\<lparr>inpkt := ipacket_reset (inpkt c)\<rparr>))" "keeps_epoll (login e)"
  by (auto simp: keeps_epoll_def on_inpkt_def closefd_def seq_def send_packet_def with_opacket_def
      complete_security_def login_def split: prod.splits outcome.splits)

lemma keeps_epoll_init_security: "keeps_epoll (init_security e k)"
proof -
  have "keeps_epoll (seq (with_opacket e i w) (\<lambda>_. update (\<lambda>c. c\<lparr>security_state := st\<rparr>)))" for i w st
    by (intro keeps_epoll_seq keeps_epoll_basic)
  then show ?thesis
    by (auto simp: keeps_epoll_def init_security_def Let_def split: option.splits)
qed

lemma keeps_epoll_proc_security: "keeps_epoll (proc_security e)"
proof -
  have "keeps_epoll (seq (on_inpkt read_string) (init_security e))"
    "keeps_epoll (seq (update complete_security) (\<lambda>_. login e))"
    by (intro keeps_epoll_seq keeps_epoll_basic keeps_epoll_init_security)+
  then show ?thesis by (simp add: keeps_epoll_def proc_security_def)
qed

lemma keeps_epoll_handler: "handler e m = Some h \<Longrightarrow> keeps_epoll h"
  unfolding handler_def proc_login_result_def proc_token_result_def proc_kicked_def
  by (auto intro!: keeps_epoll_seq keeps_epoll_basic keeps_epoll_proc_security split: if_splits)

lemma keeps_epoll_dispatch: "keeps_epoll (dispatch e)"
proof -
  have 1: "keeps_epoll (\<lambda>c. if security_state c = kDone
      then on_inpkt (ip_decode (security_key c) (stack_junk e)) c else (Val (), c))"
    using keeps_epoll_basic(1) by (auto simp: keeps_epoll_def)
  have "keeps_epoll (\<lambda>c. case handler e (getMsgId (inpkt c)) of None \<Rightarrow> (Val (), c)
      | Some h \<Rightarrow> catch_overread h c)"
    using keeps_epoll_handler by (auto simp: keeps_epoll_def split: option.splits)
  then show ?thesis
    unfolding dispatch_def using 1 by (intro keeps_epoll_seq)
qed

lemma keeps_epoll_iteration: "epoll_mods (snd (append_and_dispatch e buf n c)) = epoll_mods c"
proof -
  have "keeps_epoll (\<lambda>c. if is_complete (inpkt c) then
       seq (dispatch e) (\<lambda>_. seq (update (\<lambda>c. c\<lparr>inpkt := ipacket_reset (inpkt c)\<rparr>)) (\<lambda>_. ret k)) c
     else (Val k, c))" for k :: u16
  proof -
    have "keeps_epoll (seq (dispatch e) (\<lambda>_. seq (update (\<lambda>c. c\<lparr>inpkt := ipacket_reset (inpkt c)\<rparr>)) (\<lambda>_. ret k)))"
      by (intro keeps_epoll_seq keeps_epoll_basic keeps_epoll_dispatch)
    then show ?thesis by (simp add: keeps_epoll_def)
  qed
  then have "keeps_epoll (append_and_dispatch e buf n)"
    unfolding append_and_dispatch_def by (intro keeps_epoll_seq keeps_epoll_basic)
  then show ?thesis by (simp add: keeps_epoll_def)
qed

lemma recv_loop_epoll:
  assumes "recv_loop e buf n c = Some rc"
  shows "epoll_mods (snd rc) = epoll_mods c"
proof (rule recv_loop.raw_induct [where P = "\<lambda>e buf n c rc. epoll_mods (snd rc) = epoll_mods c", OF _ assms])
  fix rl e buf n c rc
  assume IH: "\<And>e buf n c rc. rl e buf n c = Some rc \<Longrightarrow> epoll_mods (snd rc) = epoll_mods c"
    and eq: "(case append_and_dispatch e buf n c of
        (Val k, c') \<Rightarrow>
          let nbuf' = n - int (unat k) in
          if nbuf' > 0 then rl e buf nbuf' c' else Some (Val (), c')
      | (Throw x, c') \<Rightarrow> Some (Throw x, c')
      | (Abort, c') \<Rightarrow> Some (Abort, c')
      | (Undef, c') \<Rightarrow> Some (Undef, c')) = Some rc"
  obtain r d where r: "append_and_dispatch e buf n c = (r, d)"
    by (cases "append_and_dispatch e buf n c")
  then have "epoll_mods d = epoll_mods c" using keeps_epoll_iteration by (metis snd_conv)
  then show "epoll_mods (snd rc) = epoll_mods c"
    using eq IH by (cases r) (auto simp: r Let_def split: if_splits)
qed

text \<open>
  \<^verbatim>\<open>on_readable\<close> never re-arms an open descriptor. The descriptor is registered with
  \<^verbatim>\<open>EPOLLONESHOT\<close>, so that after an event it is silent until the next \<^verbatim>\<open>epoll.modify\<close>;
  but whatever \<^verbatim>\<open>recv\<close> returns, \<^verbatim>\<open>on_readable\<close> either calls \<^verbatim>\<open>modify\<close> not at all, or,
  after the peer has closed, on the descriptor \<open>-1\<close> it has just closed itself.
\<close>

theorem on_readable_rearms_nothing_open:
  "on_readable e rs c = Some (r, c') \<Longrightarrow>
   epoll_mods c' = epoll_mods c \<or> (fd c' = -1 \<and> (\<exists>ev. epoll_mods c' = epoll_mods c @ [(-1, ev)]))"
proof (induction e rs c rule: on_readable.induct)
  case (1 e c)
  then show ?case by simp
next
  case (2 e len buf later c)
  show ?case
  proof (cases "len = 0")
    case True
    with 2(2) show ?thesis
      by (auto simp: closefd_def seq_def epoll_modify_def split: if_splits)
  next
    case False
    with 2(2) obtain r1 c1 where l: "recv_loop e buf len c = Some (r1, c1)"
      by (cases "recv_loop e buf len c") auto
    then have m: "epoll_mods c1 = epoll_mods c" using recv_loop_epoll by fastforce
    show ?thesis
      using 2 False l m by (cases r1) (auto split: if_splits)
  qed
qed

theorem on_readable_rearms_nothing_open_witness:
  "\<exists>r c'. on_readable sample_env [(0, [])] (sample_client kInit final_packet) = Some (r, c')
     \<and> r = Val () \<and> epoll_mods c' \<noteq> []
     \<and> (epoll_mods c' = epoll_mods (sample_client kInit final_packet)
        \<or> (fd c' = -1 \<and> (\<exists>ev. epoll_mods c' = epoll_mods (sample_client kInit final_packet) @ [(-1, ev)])))"
proof -
  let ?c = "sample_client kInit final_packet"
  let ?r = "seq closefd (\<lambda>_. update (epoll_modify (EPOLLIN OR EPOLLRDHUP OR EPOLLONESHOT OR EPOLLET))) ?c"
  have o: "on_readable sample_env [(0, [])] ?c = Some (fst ?r, snd ?r)"
    by simp
  have "fst ?r = Val ()" "epoll_mods (snd ?r) \<noteq> []"
    by (simp_all add: closefd_def seq_def sample_client_def epoll_modify_def)
  with o on_readable_rearms_nothing_open [OF o] show ?thesis
    by blast
qed

end
