(* ===== verification/Sockets.thy ===== *)
theory Sockets
  imports Client
begin

text \<open>
  The rest of \<^verbatim>\<open>cpp/release/base.cpp\<close>, \<^verbatim>\<open>epoll.cpp\<close> and \<^verbatim>\<open>util.h\<close>: addresses, the blocking mode of the
  socket, the retried \<^verbatim>\<open>recv\<close>, the registration of descriptors, the event loop and the choice of a
  random element. System calls are parameters; their results are values of the types below.
\<close>

section \<open>TCPClient\<close>

definition tcp_destroy :: "unit cact" where
  "tcp_destroy c = (if fd c \<ge> 0 then closefd c else (Val (), c))"

definition atoi :: "string \<Rightarrow> int" where
  \<comment> \<open>white space, a sign, digits; 0 when there is no digit\<close>
  "atoi s =
     (let t = dropWhile white_char s;
          u = (if t \<noteq> [] \<and> (hd t = CHR ''-'' \<or> hd t = CHR ''+'') then tl t else t);
          v = decimal_of (takeWhile digit_char u) in
      if t \<noteq> [] \<and> hd t = CHR ''-'' then - v else v)"

definition connect_address :: "(string \<Rightarrow> int \<Rightarrow> bool cact) \<Rightarrow> string \<Rightarrow> bool cact" where
  \<comment> \<open>the first argument is \<^verbatim>\<open>connect\<close> of a server and a port\<close>
  "connect_address connect addr =
     (let pos = length (takeWhile (\<lambda>c. c \<noteq> CHR '':'') addr) in
      seq (assert_that (\<lambda>_. pos < length addr)) (\<lambda>_. connect (take pos addr) (atoi (drop (pos + 1) addr))))"

definition O_NONBLOCK :: u32 where
  "O_NONBLOCK = 0x800"

datatype socket_message = No_flag int | Flag_not_set int | Receive_error int

definition set_fd_block :: "(int \<Rightarrow> u32 option) \<Rightarrow> (int \<Rightarrow> u32 \<Rightarrow> bool) \<Rightarrow> client \<Rightarrow> (int \<times> u32) option \<times> socket_message list" where
  \<comment> \<open>\<^verbatim>\<open>fcntl\<close> with \<^verbatim>\<open>F_GETFL\<close> and \<^verbatim>\<open>F_SETFL\<close>; the result is what \<^verbatim>\<open>F_SETFL\<close> was called with and what was printed\<close>
  "set_fd_block getfl setfl c =
     (case getfl (fd c) of
        None \<Rightarrow> (None, [No_flag (fd c)])
      | Some flag \<Rightarrow>
          (let flag' = (if nblock c then flag OR O_NONBLOCK else flag AND NOT O_NONBLOCK) in
           (Some (fd c, flag'), if setfl (fd c) flag' then [] else [Flag_not_set (fd c)])))"

definition set_nonblock :: "(int \<Rightarrow> u32 option) \<Rightarrow> (int \<Rightarrow> u32 \<Rightarrow> bool) \<Rightarrow> bool \<Rightarrow> client \<Rightarrow>
    client \<times> (int \<times> u32) option \<times> socket_message list" where
  "set_nonblock getfl setfl b c =
     (let c' = c\<lparr>nblock := b\<rparr> in (c', if fd c' \<ge> 0 then set_fd_block getfl setfl c' else (None, [])))"

datatype recv_answer = Received nat | Interrupted | Would_block | Recv_failed

fun tcp_recv :: "int \<Rightarrow> recv_answer list \<Rightarrow> (int \<times> socket_message list \<times> recv_answer list) option" where
  \<comment> \<open>the answers of the successive calls of \<^verbatim>\<open>::recv\<close>; \<open>None\<close> when they do not suffice\<close>
  "tcp_recv f [] = None"
| "tcp_recv f (Received n # as) = Some (int n, [], as)"
| "tcp_recv f (Interrupted # as) = tcp_recv f as"
| "tcp_recv f (Would_block # as) = Some (- 1, [], as)"
| "tcp_recv f (Recv_failed # as) = Some (- 1, [Receive_error f], as)"

section \<open>Epoll\<close>

datatype 'h ctl_request = Ctl_add int "u32 \<times> 'h" | Ctl_mod int "u32 \<times> 'h" | Ctl_del int
datatype ctl_answer = Ctl_ok | Already_exists | Ctl_failed

type_synonym ('h, 'k) ctl = "'h ctl_request \<Rightarrow> 'k \<Rightarrow> ctl_answer \<times> 'k"

definition epoll_add :: "('h, 'k) ctl \<Rightarrow> int \<Rightarrow> u32 \<Rightarrow> 'h \<Rightarrow> 'k \<Rightarrow> bool \<times> 'k" where
  "epoll_add ctl f event h k =
     (case ctl (Ctl_add f (event OR EPOLLRDHUP, h)) k of
        (Ctl_ok, k') \<Rightarrow> (True, k')
      | (Already_exists, k') \<Rightarrow> (True, k')
      | (Ctl_failed, k') \<Rightarrow> (False, k'))"

definition epoll_change :: "('h, 'k) ctl \<Rightarrow> int \<Rightarrow> u32 \<Rightarrow> 'h \<Rightarrow> 'k \<Rightarrow> bool \<times> 'k" where
  "epoll_change ctl f event h k =
     (case ctl (Ctl_mod f (event OR EPOLLRDHUP, h)) k of (r, k') \<Rightarrow> (r = Ctl_ok, k'))"

definition epoll_remove :: "('h, 'k) ctl \<Rightarrow> int \<Rightarrow> 'k \<Rightarrow> 'k" where
  "epoll_remove ctl f k = snd (ctl (Ctl_del f) k)"

function events_loop :: "('h \<Rightarrow> callback \<Rightarrow> ('s, 'e, unit) action) \<Rightarrow> (u32 \<times> 'h) list \<Rightarrow> int \<Rightarrow> int \<Rightarrow> ('s, 'e, unit) action" where
  \<comment> \<open>the array holds what \<^verbatim>\<open>epoll_wait\<close> has stored; a read of anything else is undefined\<close>
  "events_loop call events i cnt =
     (if i \<noteq> cnt then
        (case at events i of
           None \<Rightarrow> (\<lambda>s. (Undef, s))
         | Some (e, h) \<Rightarrow>
             seq (case epoll_select e of None \<Rightarrow> ret () | Some cb \<Rightarrow> call h cb)
               (\<lambda>_. events_loop call events (i + 1) cnt))
      else ret ())"
  by pat_completeness auto
termination by (relation "measure (\<lambda>(call, events, i, cnt). nat (size_of events - i))") (auto simp: at_def split: if_splits)

datatype wait_answer = Events "nat" | Wait_interrupted | Wait_failed

definition loop_round :: "('h \<Rightarrow> callback \<Rightarrow> ('s, 'e, unit) action) \<Rightarrow> (u32 \<times> 'h) list \<Rightarrow> wait_answer \<Rightarrow> ('s, 'e, bool) action" where
  \<comment> \<open>one round of \<^verbatim>\<open>mainloop\<close>; the result tells whether an error is printed\<close>
  "loop_round call events w =
     (let cnt = (case w of Events n \<Rightarrow> int n | _ \<Rightarrow> - 1) in
      seq (events_loop call events 0 cnt) (\<lambda>_. ret (w = Wait_failed)))"

declare events_loop.simps [simp del]

section \<open>Random choice\<close>

definition random_between :: "u32 \<Rightarrow> u64 \<Rightarrow> u64 \<Rightarrow> (unit, u64) outcome" where
  \<comment> \<open>the instance for \<^verbatim>\<open>size_t\<close>; the first argument is what the random device returns\<close>
  "random_between rd low high =
     (if low < high then
        let siz = high - low; val = (ucast (ucast rd mod siz) :: u32) in Val (low + scast val)
      else Abort)"

definition random_choice :: "u32 \<Rightarrow> 'a list \<Rightarrow> (unit, 'a) outcome" where
  "random_choice rd c =
     (case random_between rd 0 (of_nat (length c)) of
        Val i \<Rightarrow> (if unat i < length c then Val (c ! unat i) else Undef) | Throw e \<Rightarrow> Throw e | Abort \<Rightarrow> Abort | Undef \<Rightarrow> Undef)"

section \<open>The socket\<close>

lemma O_NONBLOCK_bit: "bit O_NONBLOCK i \<longleftrightarrow> i = 11"
proof -
  have eq: "O_NONBLOCK = push_bit 11 1" by (simp add: O_NONBLOCK_def)
  have "bit O_NONBLOCK i \<longleftrightarrow> 11 \<le> i \<and> possible_bit TYPE(u32) i \<and> i - 11 = 0"
    unfolding eq by (simp only: bit_push_bit_iff bit_1_iff)
  then show ?thesis by (auto simp: possible_bit_word)
qed

lemma takeWhile_colon: "CHR '':'' \<notin> set host \<Longrightarrow> takeWhile (\<lambda>c. c \<noteq> CHR '':'') (host @ CHR '':'' # rest) = host"
  by (subst takeWhile_append2) auto

lemma no_colon: "CHR '':'' \<notin> set host \<Longrightarrow> takeWhile (\<lambda>c. c \<noteq> CHR '':'') host = host"
  by (auto simp: takeWhile_eq_all_conv)

lemma atoi_digits:
  assumes "\<forall>c\<in>set ds. digit_char c"
  shows "atoi ds = decimal_of ds"
proof (cases ds)
  case (Cons c cs)
  have c: "\<not> white_char c" "c \<noteq> CHR ''-''" "c \<noteq> CHR ''+''"
    using assms Cons by (auto simp: digit_char_def white_char_def)
  moreover have "takeWhile digit_char ds = ds" using assms by (simp add: takeWhile_eq_all_conv)
  ultimately show ?thesis using Cons by (simp add: atoi_def)
qed (simp add: atoi_def decimal_of_def)

lemma tcp_recv_retries: "tcp_recv f (replicate n Interrupted @ as) = tcp_recv f as"
  by (induction n) simp_all

text \<open>
  The socket of the client. \<^verbatim>\<open>nonblock\<close> on an open descriptor asks for the flags it has with
  \<^verbatim>\<open>O_NONBLOCK\<close> set or cleared as told and every other flag as it was, and prints a message exactly when
  one of the two calls fails; on a closed one it only remembers the wish. \<^verbatim>\<open>recv\<close> repeats interrupted
  calls, however many, and hands on the first other answer, with a message only for a failure that
  is not the lack of data. An address is split at its first colon; without one the assertion fails.
\<close>

theorem socket_operations:
  "(fd c \<ge> 0 \<longrightarrow> getfl (fd c) = Some flag \<longrightarrow>
     (\<exists>flag'. set_nonblock getfl setfl b c =
        (c\<lparr>nblock := b\<rparr>, Some (fd c, flag'), if setfl (fd c) flag' then [] else [Flag_not_set (fd c)]) \<and>
        (\<forall>i. bit flag' i \<longleftrightarrow> (if i = 11 then b else bit flag i)))) \<and>
   (fd c \<ge> 0 \<longrightarrow> getfl (fd c) = None \<longrightarrow> set_nonblock getfl setfl b c = (c\<lparr>nblock := b\<rparr>, None, [No_flag (fd c)])) \<and>
   (fd c < 0 \<longrightarrow> set_nonblock getfl setfl b c = (c\<lparr>nblock := b\<rparr>, None, [])) \<and>
   (a \<noteq> Interrupted \<longrightarrow> tcp_recv f (replicate n Interrupted @ a # as) =
     Some (case a of Received k \<Rightarrow> int k | _ \<Rightarrow> - 1, if a = Recv_failed then [Receive_error f] else [], as)) \<and>
   (CHR '':'' \<notin> set host \<longrightarrow> (\<forall>d\<in>set port. digit_char d) \<longrightarrow>
     connect_address conn (host @ CHR '':'' # port) c = conn host (decimal_of port) c) \<and>
   (CHR '':'' \<notin> set host \<longrightarrow> connect_address conn host c = (Abort, c))"
proof (intro conjI impI)
  assume "fd c \<ge> 0" "getfl (fd c) = Some flag"
  moreover have "bit (flag OR O_NONBLOCK) i \<longleftrightarrow> (if i = 11 then True else bit flag i)"
    "bit (flag AND NOT O_NONBLOCK) i \<longleftrightarrow> (if i = 11 then False else bit flag i)" for i
    by (auto simp: bit_or_iff bit_and_iff bit_not_iff O_NONBLOCK_bit dest: bit_imp_le_length)
  ultimately show "\<exists>flag'. set_nonblock getfl setfl b c =
        (c\<lparr>nblock := b\<rparr>, Some (fd c, flag'), if setfl (fd c) flag' then [] else [Flag_not_set (fd c)]) \<and>
        (\<forall>i. bit flag' i \<longleftrightarrow> (if i = 11 then b else bit flag i))"
    by (auto simp: set_nonblock_def set_fd_block_def Let_def)
qed (auto simp: set_nonblock_def set_fd_block_def Let_def tcp_recv_retries takeWhile_colon atoi_digits
    connect_address_def seq_def no_colon split: recv_answer.splits)

text \<open>\<^verbatim>\<open>nonblock(false)\<close> on descriptor 3 with flags \<open>0x802\<close>, three interrupted calls, an address.\<close>

theorem socket_operations_witness:
  "\<exists>flag'. snd (set_nonblock (\<lambda>_. Some 0x802) (\<lambda>_ _. True) False (c\<lparr>fd := 3\<rparr>)) = (Some (3, flag'), []) \<and>
     (\<forall>i. bit flag' i \<longleftrightarrow> i \<noteq> 11 \<and> bit (0x802 :: u32) i) \<and>
     tcp_recv 3 (replicate 2 Interrupted @ [Would_block]) = Some (- 1, [], []) \<and>
     connect_address (\<lambda>h p. ret (h = ''localhost'' \<and> p = 9881)) (''localhost'' @ '':9881'') (c\<lparr>fd := 3\<rparr>) = (Val True, c\<lparr>fd := 3\<rparr>)"
proof -
  have port: "\<forall>d\<in>set ''9881''. digit_char d" "decimal_of ''9881'' = 9881" by (simp_all add: digit_char_def decimal_of_def)
  have host: "CHR '':'' \<notin> set ''localhost''" by simp
  note run = socket_operations [where c = "c\<lparr>fd := 3\<rparr>" and getfl = "\<lambda>_. Some 0x802" and flag = "0x802" and setfl = "\<lambda>_ _. True"
      and b = False and a = Would_block and f = 3 and n = 2 and as = "[]" and host = "''localhost''" and port = "''9881''"
      and conn = "\<lambda>h p. ret (h = ''localhost'' \<and> p = 9881)"]
  obtain flag' where "snd (set_nonblock (\<lambda>_. Some 0x802) (\<lambda>_ _. True) False (c\<lparr>fd := 3\<rparr>)) = (Some (3, flag'), [])"
    "\<forall>i. bit flag' i \<longleftrightarrow> (if i = 11 then False else bit (0x802 :: u32) i)"
    using run by (auto simp del: bit_numeral_simps)
  moreover have "tcp_recv 3 (replicate 2 Interrupted @ [Would_block]) = Some (- 1, [], [])" using run by simp
  moreover have "connect_address (\<lambda>h p. ret (h = ''localhost'' \<and> p = 9881)) (''localhost'' @ '':9881'') (c\<lparr>fd := 3\<rparr>) = (Val True, c\<lparr>fd := 3\<rparr>)"
    using run host port by simp
  ultimately show ?thesis by (metis (full_types))
qed

section \<open>Events\<close>

definition calls :: "(u32 \<times> 'h) list \<Rightarrow> ('h \<times> callback) list" where
  \<comment> \<open>what is to be called, by the bits \<^verbatim>\<open>EPOLLOUT\<close> (2), \<^verbatim>\<open>EPOLLIN\<close> (0) and \<^verbatim>\<open>EPOLLRDHUP\<close> (13) of the events\<close>
  "calls events = concat (map (\<lambda>(e, h).
     if bit e 2 then [(h, on_writeable_cb)]
     else if bit e 0 then [(h, on_readable_cb)]
     else if bit e 13 then [(h, on_peer_closed_cb)]
     else []) events)"

fun run_callbacks :: "('h \<Rightarrow> callback \<Rightarrow> ('s, 'e, unit) action) \<Rightarrow> ('h \<times> callback) list \<Rightarrow> ('s, 'e, unit) action" where
  "run_callbacks call [] = ret ()"
| "run_callbacks call ((h, cb) # cs) = seq (call h cb) (\<lambda>_. run_callbacks call cs)"

lemma event_bits:
  "(e :: u32) AND EPOLLOUT \<noteq> 0 \<longleftrightarrow> bit e 2" "e AND EPOLLIN \<noteq> 0 \<longleftrightarrow> bit e 0" "e AND EPOLLRDHUP \<noteq> 0 \<longleftrightarrow> bit e 13"
  using bit_iff_and_push_bit_not_eq_0 [of e 2] bit_iff_and_push_bit_not_eq_0 [of e 0]
    bit_iff_and_push_bit_not_eq_0 [of e 13]
  by simp_all

lemma epoll_select_bits:
  "epoll_select e = (if bit e 2 then Some on_writeable_cb else if bit e 0 then Some on_readable_cb
     else if bit e 13 then Some on_peer_closed_cb else None)"
  by (simp add: epoll_select_def event_bits)

lemma seq_ret: "seq (ret a) f = f a"
  by (rule ext) (simp add: seq_def)

lemma events_loop_calls:
  "k \<le> length events \<Longrightarrow> events_loop call events (int k) (size_of events) = run_callbacks call (calls (drop k events))"
proof (induction "length events - k" arbitrary: k)
  case 0
  then show ?case by (subst events_loop.simps) (simp add: calls_def)
next
  case (Suc d)
  then have k: "k < length events" by simp
  obtain e h where eh: "events ! k = (e, h)" by (cases "events ! k")
  then have drop: "drop k events = (e, h) # drop (Suc k) events" using k by (simp add: Cons_nth_drop_Suc [symmetric])
  have "int k + 1 = int (Suc k)" by simp
  then have IH: "events_loop call events (int k + 1) (size_of events) = run_callbacks call (calls (drop (Suc k) events))"
    using Suc.hyps(1) [of "Suc k"] Suc.hyps(2) k by (metis Suc_diff_Suc Suc_leI diff_Suc_1)
  show ?case
    unfolding drop using k eh IH
    by (subst events_loop.simps) (simp add: calls_def epoll_select_bits seq_ret)
qed

lemma events_loop_negative:
  "0 \<le> i \<Longrightarrow> events_loop call events i (- 1) s \<noteq> (Val (), t)"
proof (induction call events i "- 1 :: int" arbitrary: s rule: events_loop.induct)
  case (1 call events i)
  show ?case
  proof (cases "at events i")
    case None
    then show ?thesis using "1.prems" by (subst events_loop.simps) simp
  next
    case (Some x)
    obtain e h where x: "x = (e, h)" by (cases x)
    have "events_loop call events (i + 1) (- 1) s' \<noteq> (Val (), t)" for s'
      using "1.hyps" [OF _ Some x [symmetric]] "1.prems" by fastforce
    then show ?thesis
      using "1.prems" Some x by (subst events_loop.simps) (simp add: seq_eq_Val)
  qed
qed

text \<open>
  C12: A round of the event loop in which \<^verbatim>\<open>epoll_wait\<close> reports events calls, in the order of the events, one
  callback for each that has one of three bits: a writeable descriptor (bit 2, \<^verbatim>\<open>EPOLLOUT\<close>) is only told that,
  even when it is readable or closed as well; one that is readable (bit 0, \<^verbatim>\<open>EPOLLIN\<close>) and not writeable only that
  it is readable; one whose peer has closed (bit 13, \<^verbatim>\<open>EPOLLRDHUP\<close>) is told so only if it is neither. The round ends
  without an error message. A round in which \<^verbatim>\<open>epoll_wait\<close> returns \<open>-1\<close>, because of an error or of a
  signal, never ends properly, whatever the array holds: the loop over the events compares for inequality
  and runs past the array, so that the error message behind it is never reached.
\<close>

theorem events_dispatched:
  "loop_round call events (Events (length events)) = seq (run_callbacks call (calls events)) (\<lambda>_. ret False) \<and>
   length (calls events) \<le> length events \<and>
   (w = Wait_interrupted \<or> w = Wait_failed \<longrightarrow> loop_round call events w s \<noteq> (Val b, t))"
proof (intro conjI impI)
  show "loop_round call events (Events (length events)) = seq (run_callbacks call (calls events)) (\<lambda>_. ret False)"
    using events_loop_calls [of 0 events call] by (simp add: loop_round_def)
  show "length (calls events) \<le> length events"
    by (induction events) (auto simp: calls_def)
next
  assume "w = Wait_interrupted \<or> w = Wait_failed"
  then show "loop_round call events w s \<noteq> (Val b, t)"
    using events_loop_negative [of 0 call events] by (auto simp: loop_round_def seq_eq_Val)
qed

theorem events_dispatched_witness:
  "loop_round (\<lambda>h cb. update (\<lambda>xs. xs @ [(h, cb)])) [(5, 7 :: nat), (1, 8)] (Events 2) [] =
     (Val False :: (unit, bool) outcome, [(7, on_writeable_cb), (8, on_readable_cb)]) \<and>
   loop_round (\<lambda>h cb. ret ()) [(5, 7 :: nat), (1, 8)] Wait_interrupted (0 :: nat) \<noteq> (Val False :: (unit, bool) outcome, 0)"
proof -
  have c: "calls [(5, 7 :: nat), (1, 8)] = [(7, on_writeable_cb), (8, on_readable_cb)]"
    by (simp add: calls_def bit_simps flip: bit_1_0 push_bit_eq_mult)
  have "loop_round (\<lambda>h cb. update (\<lambda>xs. xs @ [(h, cb)])) [(5, 7 :: nat), (1, 8)] (Events (length [(5 :: u32, 7 :: nat), (1, 8)])) =
     seq (run_callbacks (\<lambda>h cb. update (\<lambda>xs. xs @ [(h, cb)])) (calls [(5, 7 :: nat), (1, 8)])) (\<lambda>_. ret False :: (_, unit, bool) action)"
    by (rule events_dispatched [THEN conjunct1])
  then show ?thesis
    using events_dispatched [of "\<lambda>h cb. ret () :: (nat, unit, unit) action" "[(5, 7 :: nat), (1, 8)]" Wait_interrupted 0 False 0]
    by (simp add: seq_def c numeral_2_eq_2)
qed

section \<open>Registrations\<close>

definition ctl_documented :: "('h, 'k) ctl \<Rightarrow> ('k \<Rightarrow> int \<Rightarrow> (u32 \<times> 'h) option) \<Rightarrow> bool" where
  \<comment> \<open>what the manual says of \<^verbatim>\<open>epoll_ctl\<close>: \<open>interest\<close> is the set of registrations of the kernel; every request may fail\<close>
  "ctl_documented ctl interest \<longleftrightarrow> (\<forall>k r a k'. ctl r k = (a, k') \<longrightarrow>
     (a \<noteq> Ctl_ok \<longrightarrow> interest k' = interest k) \<and>
     (case r of
        Ctl_add f x \<Rightarrow> (a = Ctl_ok \<longrightarrow> interest k f = None \<and> interest k' = (interest k)(f \<mapsto> x)) \<and>
          (a = Already_exists \<longrightarrow> interest k f \<noteq> None)
      | Ctl_mod f x \<Rightarrow> a = Ctl_ok \<longrightarrow> interest k f \<noteq> None \<and> interest k' = (interest k)(f \<mapsto> x)
      | Ctl_del f \<Rightarrow> a = Ctl_ok \<longrightarrow> interest k f \<noteq> None \<and> interest k' = (interest k)(f := None)))"

lemma ctl_lawD:
  assumes "ctl_documented ctl interest" "ctl r k = (a, k')"
  shows "a \<noteq> Ctl_ok \<Longrightarrow> interest k' = interest k"
    "r = Ctl_add f x \<Longrightarrow> a = Ctl_ok \<Longrightarrow> interest k f = None \<and> interest k' = (interest k)(f \<mapsto> x)"
    "r = Ctl_add f x \<Longrightarrow> a = Already_exists \<Longrightarrow> interest k f \<noteq> None"
    "r = Ctl_mod f x \<Longrightarrow> a = Ctl_ok \<Longrightarrow> interest k f \<noteq> None \<and> interest k' = (interest k)(f \<mapsto> x)"
    "r = Ctl_del f \<Longrightarrow> a = Ctl_ok \<Longrightarrow> interest k f \<noteq> None \<and> interest k' = (interest k)(f := None)"
  using assms unfolding ctl_documented_def by fastforce+

text \<open>
  Registering descriptors. When \<^verbatim>\<open>add\<close> returns true the descriptor is registered afterwards, but with
  the given events and handler only if it was not registered before: a registration that exists is kept
  as it is, and reported as a success. \<^verbatim>\<open>modify\<close> returns true only when it has replaced the registration of a
  registered descriptor. Both always ask for the end of the peer as well, change no other descriptor,
  and change nothing when they return false.
\<close>

theorem epoll_registers:
  assumes "ctl_documented ctl interest"
  shows "(epoll_add ctl f event h k = (True, k') \<longrightarrow>
      interest k' = (case interest k f of None \<Rightarrow> (interest k)(f \<mapsto> (event OR EPOLLRDHUP, h)) | Some _ \<Rightarrow> interest k)) \<and>
    (epoll_add ctl f event h k = (False, k') \<longrightarrow> interest k' = interest k) \<and>
    (epoll_change ctl f event h k = (True, k') \<longrightarrow>
      interest k f \<noteq> None \<and> interest k' = (interest k)(f \<mapsto> (event OR EPOLLRDHUP, h))) \<and>
    (epoll_change ctl f event h k = (False, k') \<longrightarrow> interest k' = interest k) \<and>
    (f' \<noteq> f \<longrightarrow> interest (epoll_remove ctl f k) f' = interest k f')"
proof -
  let ?x = "(event OR EPOLLRDHUP, h)"
  obtain a ka where a: "ctl (Ctl_add f ?x) k = (a, ka)" by (cases "ctl (Ctl_add f ?x) k")
  obtain m km where m: "ctl (Ctl_mod f ?x) k = (m, km)" by (cases "ctl (Ctl_mod f ?x) k")
  obtain d kd where d: "ctl (Ctl_del f) k = (d, kd)" by (cases "ctl (Ctl_del f) k")
  note add = ctl_lawD [OF assms a] and chg = ctl_lawD [OF assms m] and del = ctl_lawD [OF assms d]
  show ?thesis
  proof (intro conjI impI)
    assume "epoll_add ctl f event h k = (True, k')"
    then show "interest k' = (case interest k f of None \<Rightarrow> (interest k)(f \<mapsto> ?x) | Some _ \<Rightarrow> interest k)"
      using a add(1) add(2,3) [OF refl] by (auto simp: epoll_add_def split: ctl_answer.splits option.splits)
  next
    assume "epoll_add ctl f event h k = (False, k')"
    then show "interest k' = interest k" using a add(1) by (auto simp: epoll_add_def split: ctl_answer.splits)
  next
    assume "epoll_change ctl f event h k = (True, k')"
    then show "interest k f \<noteq> None" "interest k' = (interest k)(f \<mapsto> ?x)"
      using m chg(4) [OF refl] by (auto simp: epoll_change_def)
  next
    assume "epoll_change ctl f event h k = (False, k')"
    then show "interest k' = interest k" using m chg(1) by (auto simp: epoll_change_def)
  next
    assume "f' \<noteq> f"
    then show "interest (epoll_remove ctl f k) f' = interest k f'"
      using d del(1) del(5) [OF refl] by (cases "d = Ctl_ok") (auto simp: epoll_remove_def)
  qed
qed

fun map_ctl :: "('h, int \<Rightarrow> (u32 \<times> 'h) option) ctl" where
  \<comment> \<open>a kernel that never runs out of resources\<close>
  "map_ctl (Ctl_add f x) k = (if k f = None then (Ctl_ok, k(f \<mapsto> x)) else (Already_exists, k))"
| "map_ctl (Ctl_mod f x) k = (if k f \<noteq> None then (Ctl_ok, k(f \<mapsto> x)) else (Ctl_failed, k))"
| "map_ctl (Ctl_del f) k = (if k f \<noteq> None then (Ctl_ok, k(f := None)) else (Ctl_failed, k))"

lemma map_ctl_documented: "ctl_documented map_ctl id"
  by (auto simp: ctl_documented_def split: ctl_request.splits)

text \<open>A second \<^verbatim>\<open>add\<close> for descriptor 5 returns true and leaves the first handler in place.\<close>

theorem epoll_registers_witness:
  "\<exists>k. epoll_add map_ctl 5 EPOLLIN ''new'' [5 \<mapsto> (1, ''old'')] = (True, k) \<and> k 5 = Some (1, ''old'')"
proof -
  have add: "epoll_add map_ctl 5 EPOLLIN ''new'' [5 \<mapsto> (1, ''old'')] = (True, [5 \<mapsto> (1, ''old'')])"
    by (simp add: epoll_add_def)
  then show ?thesis
    using epoll_registers [OF map_ctl_documented, of 5 EPOLLIN "''new''" "[5 \<mapsto> (1, ''old'')]" "[5 \<mapsto> (1, ''old'')]"]
    by (intro exI [of _ "[5 \<mapsto> (1, ''old'')]"]) simp
qed

section \<open>Choosing\<close>

lemma random_between_in:
  assumes "low < high" "unat (high - low) \<le> 2 ^ 31"
  shows "random_between rd low high = Val (low + of_nat (unat rd mod unat (high - low)))"
proof -
  let ?s = "high - low" and ?m = "unat rd mod unat (high - low)"
  have "?s \<noteq> 0" using assms(1) by auto
  then have s: "0 < unat ?s" by (simp only: unat_gt_0 not_False_eq_True)
  have m: "?m < 2 ^ 31" using s assms(2) by (meson mod_less_divisor order_less_le_trans)
  have "unat rd < 2 ^ 64" using unsigned_less [of rd, where ?'a = nat] by simp
  then have "unat (ucast rd :: u64) = unat rd" by (simp add: unsigned_ucast_eq take_bit_nat_eq_self)
  then have "unat (ucast rd mod ?s :: u64) = ?m" by (simp add: unat_mod)
  moreover have m64: "unat (of_nat ?m :: u64) = ?m" "unat (of_nat ?m :: u32) = ?m"
    using m by (intro unat_of_nat_small; simp)+
  ultimately have mod: "(ucast rd mod ?s :: u64) = of_nat ?m" by (intro unsigned_word_eqI [where ?'a = nat]) simp
  have "unat (ucast (of_nat ?m :: u64) :: u32) = ?m"
    using m m64(1) by (simp add: unsigned_ucast_eq take_bit_nat_eq_self)
  then have "(ucast (ucast rd mod ?s :: u64) :: u32) = of_nat ?m"
    unfolding mod using m64(2) by (intro unsigned_word_eqI [where ?'a = nat]) simp
  moreover have "signed_take_bit 31 (int ?m) = int ?m" using m by (intro signed_take_bit_int_eq_self) simp_all
  then have "scast (of_nat ?m :: u32) = (of_nat ?m :: u64)" by (simp add: signed_of_nat)
  ultimately show ?thesis using assms(1) by (simp add: random_between_def Let_def)
qed

text \<open>
  \<^verbatim>\<open>random_choice\<close> on a container of at most \<open>2 ^ 31\<close> elements returns the element whose index is the random
  number modulo the size, so that every element can be chosen and nothing outside is read; on an empty container
  the assertion of \<^verbatim>\<open>random_between\<close> fails.
\<close>

theorem choices_made:
  "(0 < length c \<longrightarrow> length c \<le> 2 ^ 31 \<longrightarrow>
      random_choice rd c = Val (c ! (unat rd mod length c)) \<and>
      (\<forall>x\<in>set c. \<exists>rd. random_choice rd c = Val x)) \<and>
   random_choice rd [] = Abort"
proof (intro conjI impI ballI)
  assume c: "0 < length c" "length c \<le> 2 ^ 31"
  have len: "unat (of_nat (length c) :: u64) = length c" using c by (intro unat_of_nat_small) simp
  have eq: "random_choice rd c = Val (c ! (unat rd mod length c))" for rd
  proof -
    let ?i = "unat rd mod length c"
    have "0 < (of_nat (length c) :: u64)" using c len by (metis unat_gt_0 word_gt_0)
    then have "random_between rd 0 (of_nat (length c)) = Val (of_nat ?i)"
      using random_between_in [of 0 "of_nat (length c)" rd] len c by simp
    moreover have i: "?i < length c" using c by simp
    moreover have "?i < 2 ^ LENGTH(64)" using i c(2) by simp
    then have "unat (of_nat ?i :: u64) = ?i" by (rule unat_of_nat_small)
    ultimately show ?thesis by (simp add: random_choice_def)
  qed
  then show "random_choice rd c = Val (c ! (unat rd mod length c))" .
  fix x
  assume "x \<in> set c"
  then obtain i where i: "i < length c" "c ! i = x" by (auto simp: in_set_conv_nth)
  then have "unat (of_nat i :: u32) = i" using c by (intro unat_of_nat_small) simp
  then show "\<exists>rd. random_choice rd c = Val x" using eq [of "of_nat i"] i by auto
qed (simp add: random_choice_def random_between_def)

theorem choices_made_witness: "random_choice 7 ''abc'' = Val (CHR ''b'')"
  using choices_made [of "''abc''" 7, THEN conjunct1] by simp

end
