(* ===== verification/Stream.thy ===== *)
theory Stream
  imports Wire
begin

text \<open>
  \<^verbatim>\<open>cpp/money/src/stream.h\<close> (and its near copy \<^verbatim>\<open>cpp/daily/include/util/stream.h\<close>): a bounded
  output buffer, the two inputs \<^verbatim>\<open>InputBuffer\<close> and \<^verbatim>\<open>InputFile\<close>, and the class template
  \<^verbatim>\<open>InputStream<InputType>\<close> on top of an input. The template parameter becomes a record of
  the operations \<^verbatim>\<open>InputStream\<close> calls; the locale \<open>input_source\<close> states what it expects of
  them. \<^verbatim>\<open>size_t\<close> is a 64-bit word, so that \<^verbatim>\<open>size_ - offset_\<close> wraps around.
\<close>

section \<open>OutputBufferStream\<close>

record outbuf =
  ob_buf :: bytes
  ob_off :: u64

definition outbuf_new :: "bytes \<Rightarrow> outbuf" where
  \<comment> \<open>the array is not initialised: its contents are given\<close>
  "outbuf_new junk = \<lparr>ob_buf = junk, ob_off = 0\<rparr>"

definition writeable :: "outbuf \<Rightarrow> u64" where
  "writeable b = of_nat (length (ob_buf b)) - ob_off b"

definition splice :: "'a list \<Rightarrow> nat \<Rightarrow> 'a list \<Rightarrow> 'a list" where
  \<comment> \<open>\<^verbatim>\<open>memcpy\<close> to position \<open>i\<close> of an array\<close>
  "splice xs i ys = take i xs @ ys @ drop (i + length ys) xs"

definition write_pod :: "bytes \<Rightarrow> outbuf \<Rightarrow> bool \<times> outbuf" where
  "write_pod x b =
     (if unat (writeable b) < length x then (False, b)
      else (True, b\<lparr>ob_buf := splice (ob_buf b) (unat (ob_off b)) x,
                    ob_off := ob_off b + of_nat (length x)\<rparr>))"

definition write_array :: "bytes list \<Rightarrow> nat \<Rightarrow> outbuf \<Rightarrow> bool \<times> outbuf" where
  \<comment> \<open>an array of elements of \<open>w\<close> bytes each, given by their bytes\<close>
  "write_array xs w b =
     (let needed = length xs * w in
      if needed > unat (writeable b) then (False, b)
      else (True, b\<lparr>ob_buf := splice (ob_buf b) (unat (ob_off b)) (concat xs),
                    ob_off := ob_off b + of_nat needed\<rparr>))"

definition write_container :: "nat \<Rightarrow> nat \<Rightarrow> bytes list \<Rightarrow> outbuf \<Rightarrow> bool \<times> outbuf" where
  \<comment> \<open>\<^verbatim>\<open>write<_SizeType>\<close> with a size type of \<open>k\<close> bytes; the size is cut to that type\<close>
  "write_container k w xs b =
     (let needed = k + w * length xs in
      if needed > unat (writeable b) then (False, b)
      else let b1 = snd (write_pod (le_enc k (of_nat (length xs) :: u64)) b)
        in (True, fold (\<lambda>x b. snd (write_pod x b)) xs b1))"

section \<open>Inputs\<close>

datatype stream_exn =
  OverRead u32 u32 u32  \<comment> \<open>\<^verbatim>\<open>OverReadException(len, offset, readable)\<close>\<close>
| OutOfRange  \<comment> \<open>\<^verbatim>\<open>std::out_of_range\<close>, of \<^verbatim>\<open>substr\<close>\<close>

record 's input_ops =
  in_readable :: "'s \<Rightarrow> u64"
  in_offset :: "'s \<Rightarrow> u64"
  in_read :: "nat \<Rightarrow> ('s, stream_exn, bytes) action"

subsection \<open>InputBuffer\<close>

record inbuf =
  ib_buf :: bytes
  ib_size :: u64
  ib_off :: u64

definition inbuf_new :: "bytes \<Rightarrow> u64 \<Rightarrow> u64 \<Rightarrow> inbuf" where
  \<comment> \<open>the constructor does not set \<^verbatim>\<open>offset_\<close>, which holds whatever was in its memory\<close>
  "inbuf_new buffer n junk = \<lparr>ib_buf = buffer, ib_size = n, ib_off = junk\<rparr>"

definition ib_readable :: "inbuf \<Rightarrow> u64" where
  "ib_readable i = ib_size i - ib_off i"

definition ib_read :: "nat \<Rightarrow> (inbuf, stream_exn, bytes) action" where
  "ib_read len i =
     (if len > unat (ib_readable i) then (Throw (OverRead (of_nat len) (ucast (ib_off i)) (ucast (ib_size i))), i)
      else if unat (ib_off i) + len > length (ib_buf i) then (Undef, i)
      else (Val (take len (drop (unat (ib_off i)) (ib_buf i))), i))"

definition ib_skip :: "int \<Rightarrow> inbuf \<Rightarrow> inbuf" where
  "ib_skip n i = i\<lparr>ib_off := ib_off i + word_of_int n\<rparr>"

definition buffer_ops :: "inbuf input_ops" where
  "buffer_ops = \<lparr>in_readable = ib_readable, in_offset = ib_off, in_read = ib_read\<rparr>"

subsection \<open>InputFile\<close>

text \<open>
  A \<^verbatim>\<open>std::fstream\<close> is the bytes of the file, the read position and whether the stream has
  failed; \<^verbatim>\<open>tellg\<close> of a failed stream is \<open>-1\<close>. A read that fails leaves the caller's array
  unwritten, so that what is read from it is undefined.
\<close>

record infile =
  if_bytes :: bytes
  if_pos :: nat
  if_good :: bool
  if_size :: u64

definition if_offset :: "infile \<Rightarrow> u64" where
  "if_offset f = (if if_good f then of_nat (if_pos f) else - 1)"

definition infile_open :: "bytes option \<Rightarrow> infile" where
  \<comment> \<open>\<open>None\<close>: the file cannot be opened, and both calls of \<^verbatim>\<open>tellg\<close> return \<open>-1\<close>\<close>
  "infile_open content = (case content of
     Some bs \<Rightarrow> \<lparr>if_bytes = bs, if_pos = 0, if_good = True, if_size = of_nat (length bs)\<rparr>
   | None \<Rightarrow> \<lparr>if_bytes = [], if_pos = 0, if_good = False, if_size = 0\<rparr>)"

definition if_readable :: "infile \<Rightarrow> u64" where
  "if_readable f = if_size f - if_offset f"

definition if_read :: "nat \<Rightarrow> (infile, stream_exn, bytes) action" where
  "if_read len f =
     (if len > unat (if_readable f) then (Throw (OverRead (of_nat len) (ucast (if_offset f)) (ucast (if_size f))), f)
      else if \<not> if_good f \<or> if_pos f + len > length (if_bytes f) then (Undef, f\<lparr>if_good := False\<rparr>)
      else (Val (take len (drop (if_pos f) (if_bytes f))), f\<lparr>if_pos := if_pos f + len\<rparr>))"

definition if_skip :: "int \<Rightarrow> infile \<Rightarrow> infile" where
  "if_skip n f =
     (if \<not> if_good f then f
      else if int (if_pos f) + n < 0 then f\<lparr>if_good := False\<rparr>
      else f\<lparr>if_pos := nat (int (if_pos f) + n)\<rparr>)"

definition file_ops :: "infile input_ops" where
  "file_ops = \<lparr>in_readable = if_readable, in_offset = if_offset, in_read = if_read\<rparr>"

section \<open>InputStream\<close>

definition is_eof :: "'s input_ops \<Rightarrow> 's \<Rightarrow> bool" where
  "is_eof ops s = (in_readable ops s = 0)"

definition throw_overread :: "'s input_ops \<Rightarrow> nat \<Rightarrow> ('s, stream_exn, 'a) action" where
  "throw_overread ops n s =
     (Throw (OverRead (of_nat n) (ucast (in_offset ops s)) (ucast (in_readable ops s))), s)"

definition read_pod :: "'s input_ops \<Rightarrow> nat \<Rightarrow> ('s, stream_exn, bytes) action" where
  \<comment> \<open>\<^verbatim>\<open>read(DataType&)\<close> of a plain type of \<open>n\<close> bytes\<close>
  "read_pod ops n s =
     (if unat (in_readable ops s) < n then throw_overread ops n s else in_read ops n s)"

definition read_value :: "'s input_ops \<Rightarrow> nat \<Rightarrow> ('s, stream_exn, 'a::len word) action" where
  \<comment> \<open>\<^verbatim>\<open>read<_Type>()\<close> of an integer of \<open>n\<close> bytes\<close>
  "read_value ops n = seq (read_pod ops n) (\<lambda>bs. ret (le_dec bs))"

definition read_updating ::
  "'s input_ops \<Rightarrow> nat \<Rightarrow> ('s, stream_exn, 'a) action \<Rightarrow> ('s, stream_exn, 'a) action" where
  \<comment> \<open>\<^verbatim>\<open>read(DataType&)\<close> of a class with \<^verbatim>\<open>update\<close> and a size of \<open>n\<close> bytes\<close>
  "read_updating ops n upd s =
     (if unat (in_readable ops s) < n then throw_overread ops n s else upd s)"

definition read_asserted :: "'s input_ops \<Rightarrow> nat \<Rightarrow> ('s, stream_exn, 'a::len word) action" where
  \<comment> \<open>\<^verbatim>\<open>READ_FUNCTION(type)\<close>: \<^verbatim>\<open>read_char\<close>, \<^verbatim>\<open>read_int\<close>, \<dots>\<close>
  "read_asserted ops n =
     seq (assert_that (\<lambda>s. unat (in_readable ops s) \<ge> n)) (\<lambda>_. read_value ops n)"

primrec read_elements ::
  "'s input_ops \<Rightarrow> nat \<Rightarrow> (bytes \<Rightarrow> 'a) \<Rightarrow> nat \<Rightarrow> 'a list \<Rightarrow> ('s, stream_exn, 'a list) action" where
  "read_elements ops w dec 0 container = ret container"
| "read_elements ops w dec (Suc n) container =
     seq (read_pod ops w) (\<lambda>bs. read_elements ops w dec n (container @ [dec bs]))"

definition read_container ::
  "'s input_ops \<Rightarrow> nat \<Rightarrow> nat \<Rightarrow> (bytes \<Rightarrow> 'a) \<Rightarrow> 'a list \<Rightarrow> ('s, stream_exn, 'a list) action" where
  \<comment> \<open>a size of \<open>k\<close> bytes (an unsigned type of at most 32 bits, so that the product does not
    wrap), then that many elements of \<open>w\<close> bytes, behind what the container holds\<close>
  "read_container ops k w dec container =
     seq (read_value ops k :: ('s, stream_exn, u64) action) (\<lambda>size s.
     if w * unat size > unat (in_readable ops s) then throw_overread ops (w * unat size) s
     else read_elements ops w dec (unat size) container s)"

definition stream_string :: "'s input_ops \<Rightarrow> nat \<Rightarrow> ('s, stream_exn, bytes) action" where
  \<comment> \<open>\<^verbatim>\<open>readString<_SizeType>\<close>; \<^verbatim>\<open>read(std::string&)\<close> has a size of 2 bytes\<close>
  "stream_string ops k = read_container ops k 1 (\<lambda>bs. bs ! 0) []"

section \<open>What InputStream expects of an input\<close>

text \<open>
  \<open>delivers m bs v\<close>: from a good input whose remaining bytes start with \<open>bs\<close>, the reader \<open>m\<close>
  consumes exactly these and returns \<open>v\<close>. \<open>advances k m\<close>: a good input stays good, and a value
  costs at least \<open>k\<close> bytes; the reader never asserts.
\<close>

definition delivers ::
  "('s \<Rightarrow> bool) \<Rightarrow> ('s \<Rightarrow> bytes) \<Rightarrow> ('s, 'e, 'a) action \<Rightarrow> bytes \<Rightarrow> 'a \<Rightarrow> bool" where
  "delivers good rest m bs v \<longleftrightarrow>
     (\<forall>s r. good s \<and> rest s = bs @ r \<longrightarrow> (\<exists>s'. m s = (Val v, s') \<and> good s' \<and> rest s' = r))"

definition advances ::
  "('s \<Rightarrow> bool) \<Rightarrow> ('s \<Rightarrow> bytes) \<Rightarrow> nat \<Rightarrow> ('s, 'e, 'a) action \<Rightarrow> bool" where
  "advances good rest k m \<longleftrightarrow>
     (\<forall>s. good s \<longrightarrow> (case m s of
        (Val v, s') \<Rightarrow> good s' \<and> length (rest s') + k \<le> length (rest s)
      | (Throw e, s') \<Rightarrow> good s'
      | (Abort, s') \<Rightarrow> False
      | (Undef, s') \<Rightarrow> True))"

named_theorems delivery \<open>readers that return what was written\<close>
named_theorems advancing \<open>readers that consume input\<close>

lemma delivers_ret [delivery]: "delivers good rest (ret v) [] v"
  by (simp add: delivers_def)

lemma delivers_seq:
  assumes "delivers good rest m bs a" "delivers good rest (f a) cs b"
  shows "delivers good rest (seq m f) (bs @ cs) b"
  unfolding delivers_def
proof (intro allI impI)
  fix s r
  assume "good s \<and> rest s = (bs @ cs) @ r"
  with assms(1) obtain s' where "m s = (Val a, s')" "good s'" "rest s' = cs @ r"
    unfolding delivers_def by (metis append_assoc)
  with assms(2) show "\<exists>s'. seq m f s = (Val b, s') \<and> good s' \<and> rest s' = r"
    unfolding delivers_def by (simp add: seq_Val)
qed

lemma delivers_map:
  assumes "delivers good rest m bs a" "v = g a"
  shows "delivers good rest (seq m (\<lambda>x. ret (g x))) bs v"
  using delivers_seq [where f = "\<lambda>x. ret (g x)", OF assms(1) delivers_ret] assms(2)
  by (simp del: ret_run)

lemma advances_ret [advancing]: "advances good rest 0 (ret v)"
  by (simp add: advances_def)

lemma advances_seq:
  assumes "advances good rest j m" "\<And>a. advances good rest k (f a)"
  shows "advances good rest (j + k) (seq m f)"
  unfolding advances_def
proof (intro allI impI)
  fix s
  assume g: "good s"
  obtain r s' where m: "m s = (r, s')" by (cases "m s")
  show "case seq m f s of (Val v, s') \<Rightarrow> good s' \<and> length (rest s') + (j + k) \<le> length (rest s)
      | (Throw e, s') \<Rightarrow> good s' | (Abort, s') \<Rightarrow> False | (Undef, s') \<Rightarrow> True"
  proof (cases r)
    case (Val a)
    with m assms(1) g have s': "good s'" "length (rest s') + j \<le> length (rest s)"
      by (auto simp: advances_def)
    have "case f a s' of (Val v, s'') \<Rightarrow> good s'' \<and> length (rest s'') + k \<le> length (rest s')
      | (Throw e, s'') \<Rightarrow> good s'' | (Abort, s'') \<Rightarrow> False | (Undef, s'') \<Rightarrow> True"
      using assms(2) s'(1) by (simp add: advances_def)
    then show ?thesis
      using m Val s' by (auto simp: seq_def split: prod.splits outcome.splits)
  qed (use m assms(1) g in \<open>auto simp: seq_def advances_def\<close>)
qed

lemma advances_weaken: "advances good rest k m \<Longrightarrow> j \<le> k \<Longrightarrow> advances good rest j m"
  unfolding advances_def by (fastforce split: prod.splits outcome.splits)

locale input_source =
  fixes ops :: "'s input_ops"
    and good :: "'s \<Rightarrow> bool"
    and rest :: "'s \<Rightarrow> bytes"
  assumes readable: "good s \<Longrightarrow> unat (in_readable ops s) = length (rest s)"
    and read_some: "good s \<Longrightarrow> n \<le> length (rest s) \<Longrightarrow>
      \<exists>s'. in_read ops n s = (Val (take n (rest s)), s') \<and> good s' \<and> rest s' = drop n (rest s)"
begin

lemma eof: "good s \<Longrightarrow> is_eof ops s \<longleftrightarrow> rest s = []"
  using readable by (metis is_eof_def length_0_conv unat_eq_zero)

lemma pod [delivery]: "length bs = n \<Longrightarrow> delivers good rest (read_pod ops n) bs bs"
  unfolding delivers_def
proof (intro allI impI)
  fix s r
  assume n: "length bs = n" and s: "good s \<and> rest s = bs @ r"
  then have "n \<le> length (rest s)" by simp
  then obtain s' where "in_read ops n s = (Val (take n (rest s)), s')" "good s'" "rest s' = drop n (rest s)"
    using read_some s by blast
  with n s show "\<exists>s'. read_pod ops n s = (Val bs, s') \<and> good s' \<and> rest s' = r"
    by (simp add: read_pod_def readable)
qed

lemma pod_advances [advancing]: "advances good rest n (read_pod ops n)"
  unfolding advances_def
proof (intro allI impI)
  fix s
  assume s: "good s"
  show "case read_pod ops n s of (Val v, s') \<Rightarrow> good s' \<and> length (rest s') + n \<le> length (rest s)
      | (Throw e, s') \<Rightarrow> good s' | (Abort, s') \<Rightarrow> False | (Undef, s') \<Rightarrow> True"
  proof (cases "n \<le> length (rest s)")
    case True
    with s read_some obtain s' where
      "in_read ops n s = (Val (take n (rest s)), s')" "good s'" "rest s' = drop n (rest s)" by blast
    with s True show ?thesis by (simp add: read_pod_def readable)
  next
    case False
    with s show ?thesis by (simp add: read_pod_def readable throw_overread_def)
  qed
qed

lemma pod_short:
  "good s \<Longrightarrow> length (rest s) < n \<Longrightarrow> read_pod ops n s = throw_overread ops n s"
  by (simp add: read_pod_def readable)

lemma word_value [delivery]:
  assumes "LENGTH('a) \<le> 8 * n"
  shows "delivers good rest (read_value ops n) (le_enc n (v :: 'a::len word)) v"
proof -
  have "delivers good rest (read_value ops n) (le_enc n v @ []) (le_dec (le_enc n v) :: 'a word)"
    unfolding read_value_def by (rule delivers_seq [OF pod delivers_ret]) simp
  then show ?thesis using assms by simp
qed

lemma word_value_advances [advancing]: "advances good rest n (read_value ops n)"
  unfolding read_value_def using advances_seq [OF pod_advances advances_ret] by simp

lemma size_value:
  assumes "n < 2 ^ (8 * k)" "k \<le> 8"
  shows "delivers good rest (read_value ops k) (le_enc k (of_nat n :: u64)) (of_nat n :: u64)"
proof -
  have "le_dec (le_enc k (of_nat n :: u64)) = (of_nat n :: u64)"
  proof (rule bit_word_eqI)
    fix i assume "i < LENGTH(64)"
    have "\<not> bit n i" if "8 * k \<le> i"
      using assms(1) that by (metis bit_take_bit_iff not_le take_bit_nat_eq_self_iff)
    moreover have "i div 8 < k \<longleftrightarrow> i < 8 * k" by auto
    ultimately show "bit (le_dec (le_enc k (of_nat n :: u64)) :: u64) i = bit (of_nat n :: u64) i"
      using assms(2) by (auto simp: bit_le_dec le_enc_def bit_simps)
  qed
  then show ?thesis
    unfolding read_value_def
    using delivers_seq [OF pod [of "le_enc k (of_nat n :: u64)" k] delivers_ret, of "\<lambda>bs. le_dec bs :: u64"]
    by (simp del: ret_run)
qed

lemma updating: "length bs \<ge> n \<Longrightarrow> delivers good rest upd bs v \<Longrightarrow> delivers good rest (read_updating ops n upd) bs v"
  by (auto simp: delivers_def read_updating_def readable)

lemma updating_advances [advancing]:
  "advances good rest k upd \<Longrightarrow> advances good rest k (read_updating ops n upd)"
  by (simp add: advances_def read_updating_def throw_overread_def)

lemma elements:
  assumes "\<And>x. x \<in> set xs \<Longrightarrow> length (enc x) = w \<and> dec (enc x) = x"
  shows "delivers good rest (read_elements ops w dec (length xs) acc) (concat (map enc xs)) (acc @ xs)"
  using assms
proof (induction xs arbitrary: acc)
  case Nil
  then show ?case by (simp add: delivers_ret del: ret_run)
next
  case (Cons x xs)
  then have x: "length (enc x) = w" "dec (enc x) = x" by auto
  have "delivers good rest (read_elements ops w dec (length xs) (acc @ [dec (enc x)]))
      (concat (map enc xs)) ((acc @ [x]) @ xs)"
    unfolding x by (rule Cons.IH) (simp add: Cons.prems)
  from delivers_seq [where f = "\<lambda>bs. read_elements ops w dec (length xs) (acc @ [dec bs])",
      OF pod [OF x(1)] this]
  show ?case by simp
qed

lemma elements_advance: "advances good rest (w * n) (read_elements ops w dec n acc)"
proof (induction n arbitrary: acc)
  case 0
  then show ?case by (simp add: advances_ret del: ret_run)
next
  case (Suc n)
  show ?case using advances_seq [OF pod_advances Suc, of w] by (simp add: add.commute)
qed


lemma container:
  assumes "\<And>x. x \<in> set xs \<Longrightarrow> length (enc x) = w \<and> dec (enc x) = x"
    and "length xs < 2 ^ (8 * k)" "k \<le> 8"
  shows "delivers good rest (read_container ops k w dec acc)
    (le_enc k (of_nat (length xs) :: u64) @ concat (map enc xs)) (acc @ xs)"
  unfolding read_container_def
proof (rule delivers_seq [OF size_value])
  have len: "length (concat (map enc xs)) = w * length xs"
    using assms(1) by (induction xs) auto
  have "(2::nat) ^ (8 * k) \<le> 2 ^ 64" using assms(3) by (intro power_increasing) auto
  with assms(2) have n: "unat (of_nat (length xs) :: u64) = length xs"
    by (intro unat_of_nat_small) simp
  show "delivers good rest (\<lambda>s. if w * unat (of_nat (length xs) :: u64) > unat (in_readable ops s)
      then throw_overread ops (w * unat (of_nat (length xs) :: u64)) s
      else read_elements ops w dec (unat (of_nat (length xs) :: u64)) acc s) (concat (map enc xs)) (acc @ xs)"
    using elements [of xs enc w dec acc] assms(1) len unfolding n
    by (auto simp: delivers_def readable)
qed (use assms in auto)

lemma container_advances [advancing]: "advances good rest k (read_container ops k w dec acc)"
proof -
  have "advances good rest 0 (\<lambda>s. if w * unat (z :: u64) > unat (in_readable ops s)
      then throw_overread ops (w * unat z) s
      else read_elements ops w dec (unat z) acc s)" for z
    using advances_weaken [OF elements_advance, of 0 w "unat z" dec acc]
    by (auto simp: advances_def throw_overread_def)
  from advances_seq [OF word_value_advances this, of k] show ?thesis
    by (simp add: read_container_def)
qed

lemma str [delivery]:
  "length x < 2 ^ (8 * k) \<Longrightarrow> k \<le> 8 \<Longrightarrow>
   delivers good rest (stream_string ops k) (le_enc k (of_nat (length x) :: u64) @ x) x"
  using container [of x "\<lambda>b. [b]" 1 "\<lambda>bs. bs ! 0" k "[]"] by (simp add: stream_string_def)

lemma str_advances [advancing]: "advances good rest k (stream_string ops k)"
  unfolding stream_string_def by (rule container_advances)

end

text \<open>A file of fewer than \<open>2 ^ 64\<close> bytes, open, with the position inside: the file is such an input.\<close>

definition file_good :: "infile \<Rightarrow> bool" where
  "file_good f \<longleftrightarrow> if_good f \<and> if_pos f \<le> length (if_bytes f) \<and> length (if_bytes f) < 2 ^ 64
     \<and> if_size f = of_nat (length (if_bytes f))"

definition file_rest :: "infile \<Rightarrow> bytes" where
  "file_rest f = drop (if_pos f) (if_bytes f)"

lemma file_readable: "file_good f \<Longrightarrow> unat (if_readable f) = length (file_rest f)"
  by (auto simp: file_good_def file_rest_def if_readable_def if_offset_def
    simp flip: of_nat_diff intro!: unat_of_nat_small)

interpretation infile: input_source file_ops file_good file_rest
proof unfold_locales
  fix f n
  assume g: "file_good f"
  then show "unat (in_readable file_ops f) = length (file_rest f)"
    by (simp add: file_ops_def file_readable)
  assume n: "n \<le> length (file_rest f)"
  let ?f = "f\<lparr>if_pos := if_pos f + n\<rparr>"
  have "in_read file_ops n f = (Val (take n (file_rest f)), ?f)"
    using g n file_readable [OF g] by (auto simp: file_ops_def if_read_def file_good_def file_rest_def)
  moreover have "file_good ?f" "file_rest ?f = drop n (file_rest f)"
    using g n by (auto simp: file_good_def file_rest_def add.commute)
  ultimately show "\<exists>f'. in_read file_ops n f = (Val (take n (file_rest f)), f') \<and> file_good f'
      \<and> file_rest f' = drop n (file_rest f)"
    by blast
qed

lemma file_open_good: "length bs < 2 ^ 64 \<Longrightarrow> file_good (infile_open (Some bs))"
  by (simp add: infile_open_def file_good_def)

lemma file_open_rest: "file_rest (infile_open (Some bs)) = bs"
  by (simp add: infile_open_def file_rest_def)

end
