(* ===== verification/StreamProps.thy ===== *)
theory StreamProps
  imports Stream
begin

text \<open>
  Properties of the streams: the output buffer refines an append-only byte sequence with
  all-or-nothing writes; what it holds is read back from a file; the two inputs differ, for an
  \<^verbatim>\<open>InputBuffer\<close> never moves on.
\<close>

section \<open>The output buffer as a byte sequence\<close>

definition ob_ok :: "outbuf \<Rightarrow> bool" where
  "ob_ok b \<longleftrightarrow> unat (ob_off b) \<le> length (ob_buf b) \<and> length (ob_buf b) < 2 ^ 64"

definition written :: "outbuf \<Rightarrow> bytes" where
  "written b = take (unat (ob_off b)) (ob_buf b)"

definition ob_room :: "outbuf \<Rightarrow> nat" where
  "ob_room b = length (ob_buf b) - unat (ob_off b)"

lemma unat_writeable: "ob_ok b \<Longrightarrow> unat (writeable b) = ob_room b"
proof -
  assume b: "ob_ok b"
  then have n: "unat (of_nat (length (ob_buf b)) :: u64) = length (ob_buf b)"
    by (auto simp: ob_ok_def intro!: unat_of_nat_small)
  with b have "ob_off b \<le> of_nat (length (ob_buf b))"
    by (simp add: word_le_nat_alt ob_ok_def)
  with n show ?thesis by (simp add: writeable_def unat_sub ob_room_def)
qed

lemma splice_facts:
  assumes "i + length ys \<le> length xs"
  shows "length (splice xs i ys) = length xs" "take (i + length ys) (splice xs i ys) = take i xs @ ys"
proof -
  have "min (length xs) i = i" using assms by simp
  then show "length (splice xs i ys) = length xs" "take (i + length ys) (splice xs i ys) = take i xs @ ys"
    using assms by (simp_all add: splice_def)
qed

lemma appended:
  assumes "ob_ok b" "length x \<le> ob_room b"
    and "b' = b\<lparr>ob_buf := splice (ob_buf b) (unat (ob_off b)) x, ob_off := ob_off b + of_nat (length x)\<rparr>"
  shows "ob_ok b'" "written b' = written b @ x" "ob_room b' = ob_room b - length x"
    "length (ob_buf b') = length (ob_buf b)"
proof -
  have fit: "unat (ob_off b) + length x \<le> length (ob_buf b)"
    using assms(1,2) by (auto simp: ob_ok_def ob_room_def)
  then have "unat (ob_off b + of_nat (length x)) = unat (ob_off b) + length x"
    using assms(1) by (intro unat_add_of_nat) (simp add: ob_ok_def)
  with assms fit splice_facts [OF fit] show "ob_ok b'" "written b' = written b @ x"
    "ob_room b' = ob_room b - length x" "length (ob_buf b') = length (ob_buf b)"
    by (auto simp: ob_ok_def written_def ob_room_def)
qed

text \<open>The contract of a write of the bytes \<open>x\<close>: all or nothing.\<close>

definition all_or_nothing :: "bytes \<Rightarrow> (outbuf \<Rightarrow> bool \<times> outbuf) \<Rightarrow> bool" where
  "all_or_nothing x m \<longleftrightarrow>
     (\<forall>b. ob_ok b \<longrightarrow> (case m b of (done, b') \<Rightarrow> ob_ok b' \<and> length (ob_buf b') = length (ob_buf b) \<and>
        done = (length x \<le> ob_room b) \<and>
        (if done then written b' = written b @ x \<and> ob_room b' = ob_room b - length x else b' = b)))"

lemma write_pod_contract: "all_or_nothing x (write_pod x)"
  unfolding all_or_nothing_def
proof (intro allI impI)
  fix b assume "ob_ok b"
  then show "case write_pod x b of (done, b') \<Rightarrow> ob_ok b' \<and> length (ob_buf b') = length (ob_buf b) \<and>
        done = (length x \<le> ob_room b) \<and>
        (if done then written b' = written b @ x \<and> ob_room b' = ob_room b - length x else b' = b)"
    using appended [OF \<open>ob_ok b\<close> _ refl, of x] by (auto simp: write_pod_def unat_writeable)
qed

lemma write_array_contract:
  assumes "\<And>x. x \<in> set xs \<Longrightarrow> length x = w"
  shows "all_or_nothing (concat xs) (write_array xs w)"
  unfolding all_or_nothing_def
proof (intro allI impI)
  fix b assume b: "ob_ok b"
  have len: "length xs * w = length (concat xs)" using assms by (induction xs) auto
  show "case write_array xs w b of (done, b') \<Rightarrow> ob_ok b' \<and> length (ob_buf b') = length (ob_buf b) \<and>
        done = (length (concat xs) \<le> ob_room b) \<and>
        (if done then written b' = written b @ concat xs \<and> ob_room b' = ob_room b - length (concat xs)
         else b' = b)"
    using appended [OF b _ refl, of "concat xs"] b by (auto simp: write_array_def Let_def len unat_writeable)
qed

lemma pod_fits:
  assumes "ob_ok b" "length x \<le> ob_room b"
  shows "ob_ok (snd (write_pod x b))" "written (snd (write_pod x b)) = written b @ x"
    "ob_room (snd (write_pod x b)) = ob_room b - length x"
    "length (ob_buf (snd (write_pod x b))) = length (ob_buf b)"
proof -
  obtain d b' where p: "write_pod x b = (d, b')" by fastforce
  with write_pod_contract [of x] assms have "ob_ok b' \<and> length (ob_buf b') = length (ob_buf b) \<and>
      written b' = written b @ x \<and> ob_room b' = ob_room b - length x"
    unfolding all_or_nothing_def by fastforce
  with p show "ob_ok (snd (write_pod x b))" "written (snd (write_pod x b)) = written b @ x"
    "ob_room (snd (write_pod x b)) = ob_room b - length x"
    "length (ob_buf (snd (write_pod x b))) = length (ob_buf b)" by auto
qed

lemma pods_fit:
  assumes "ob_ok b" "length (concat xs) \<le> ob_room b"
  defines "b' \<equiv> fold (\<lambda>x b. snd (write_pod x b)) xs b"
  shows "ob_ok b' \<and> written b' = written b @ concat xs \<and> ob_room b' = ob_room b - length (concat xs)
     \<and> length (ob_buf b') = length (ob_buf b)"
  using assms(1,2) unfolding b'_def
proof (induction xs arbitrary: b)
  case (Cons x xs)
  then show ?case
    using Cons.IH [of "snd (write_pod x b)"] pod_fits [of b x] by simp
qed simp

lemma write_container_contract:
  assumes "\<And>x. x \<in> set xs \<Longrightarrow> length x = w"
  shows "all_or_nothing (le_enc k (of_nat (length xs) :: u64) @ concat xs) (write_container k w xs)"
  unfolding all_or_nothing_def
proof (intro allI impI)
  fix b assume b: "ob_ok b"
  let ?n = "le_enc k (of_nat (length xs) :: u64)"
  have len: "length (concat xs) = w * length xs" using assms by (induction xs) auto
  show "case write_container k w xs b of (done, b') \<Rightarrow> ob_ok b' \<and> length (ob_buf b') = length (ob_buf b) \<and>
        done = (length (?n @ concat xs) \<le> ob_room b) \<and>
        (if done then written b' = written b @ ?n @ concat xs \<and>
           ob_room b' = ob_room b - length (?n @ concat xs) else b' = b)"
  proof (cases "k + w * length xs \<le> ob_room b")
    case True
    then have k: "length ?n \<le> ob_room b" by simp
    note first = pod_fits [OF b k]
    have "length (concat xs) \<le> ob_room (snd (write_pod ?n b))"
      using True first(3) len by simp
    from pods_fit [OF first(1) this] True first b len show ?thesis
      by (auto simp: write_container_def Let_def unat_writeable)
  next
    case False
    with b len show ?thesis by (auto simp: write_container_def Let_def unat_writeable)
  qed
qed

text \<open>
  A container is written whole or not at all: on a buffer in use
  \<^verbatim>\<open>OutputBufferStream::write\<close> of a container of elements of \<open>w\<close> bytes returns true exactly
  when size field and elements fit into what is left, and then appends the size, cut to the
  size type of \<open>k\<close> bytes, and all elements; otherwise it changes nothing. The array is never
  written outside.
\<close>

theorem write_container_all_or_nothing:
  assumes "ob_ok b" "\<forall>x \<in> set xs. length x = w"
  shows "write_container k w xs b = (done, b') \<Longrightarrow>
    ob_ok b' \<and> length (ob_buf b') = length (ob_buf b) \<and> (done \<longleftrightarrow> k + w * length xs \<le> ob_room b) \<and>
    (if done then written b' = written b @ le_enc k (of_nat (length xs) :: u64) @ concat xs else b' = b)"
proof -
  assume r: "write_container k w xs b = (done, b')"
  have len: "length (concat xs) = w * length xs" using assms(2) by (induction xs) auto
  show ?thesis
    using write_container_contract [of xs w k] assms r len unfolding all_or_nothing_def by auto
qed

lemma sample_size: "le_enc 2 (2 :: u64) = [2, 0]"
  by (simp add: le_enc_def upt_rec)

theorem write_container_all_or_nothing_witness:
  "\<exists>b'. write_container 2 4 [[1, 0, 0, 0], [2, 0, 0, 0]] (outbuf_new (replicate 12 7)) = (True, b')
     \<and> written b' = [2, 0, 1, 0, 0, 0, 2, 0, 0, 0]"
proof -
  let ?b = "outbuf_new (replicate 12 7)"
  let ?xs = "[[1, 0, 0, 0], [2, 0, 0, 0]] :: bytes list"
  obtain ok b' where r: "write_container 2 4 ?xs ?b = (ok, b')" by fastforce
  have b: "ob_ok ?b" "ob_room ?b = 12" "written ?b = []"
    by (simp_all add: ob_ok_def ob_room_def written_def outbuf_new_def)
  have n: "le_enc 2 (of_nat (length ?xs) :: u64) = [2, 0]"
    by (simp add: sample_size)
  show ?thesis using write_container_all_or_nothing [OF b(1) _ r] b r n by auto
qed

section \<open>Reading back what was written\<close>

text \<open>A message: plain values and strings with a size field of \<open>k\<close> bytes.\<close>

datatype sitem = Plain bytes | Sized nat bytes

fun item_bytes :: "sitem \<Rightarrow> bytes" where
  "item_bytes (Plain x) = x"
| "item_bytes (Sized k x) = le_enc k (of_nat (length x) :: u64) @ x"

fun item_ok :: "sitem \<Rightarrow> bool" where
  "item_ok (Plain x) = True"
| "item_ok (Sized k x) = (k \<le> 8 \<and> length x < 2 ^ (8 * k))"

fun put_item :: "sitem \<Rightarrow> outbuf \<Rightarrow> bool \<times> outbuf" where
  "put_item (Plain x) b = write_pod x b"
| "put_item (Sized k x) b = write_container k 1 (map (\<lambda>c. [c]) x) b"

fun put_items :: "sitem list \<Rightarrow> outbuf \<Rightarrow> bool \<times> outbuf" where
  "put_items [] b = (True, b)"
| "put_items (x # xs) b = (case put_item x b of (done, b') \<Rightarrow>
     if done then put_items xs b' else (False, b'))"

fun get_item :: "'s input_ops \<Rightarrow> sitem \<Rightarrow> ('s, stream_exn, sitem) action" where
  "get_item ops (Plain x) = seq (read_pod ops (length x)) (\<lambda>bs. ret (Plain bs))"
| "get_item ops (Sized k x) = seq (stream_string ops k) (\<lambda>bs. ret (Sized k bs))"

fun get_items :: "'s input_ops \<Rightarrow> sitem list \<Rightarrow> ('s, stream_exn, sitem list) action" where
  "get_items ops [] = ret []"
| "get_items ops (x # xs) = seq (get_item ops x) (\<lambda>y. seq (get_items ops xs) (\<lambda>ys. ret (y # ys)))"

lemma put_item_contract: "all_or_nothing (item_bytes x) (put_item x)"
proof (cases x)
  case (Plain bs)
  have "put_item (Plain bs) = write_pod bs" by (rule ext) simp
  with Plain write_pod_contract show ?thesis by simp
next
  case (Sized k bs)
  have "put_item (Sized k bs) = write_container k 1 (map (\<lambda>c. [c]) bs)" by (rule ext) simp
  moreover have "concat (map (\<lambda>c. [c]) bs) = bs" by (induction bs) auto
  ultimately show ?thesis
    using Sized write_container_contract [of "map (\<lambda>c. [c]) bs" 1 k] by fastforce
qed

context input_source
begin

lemma item_read: "item_ok x \<Longrightarrow> delivers good rest (get_item ops x) (item_bytes x) x"
proof (cases x)
  case (Plain bs)
  have "delivers good rest (seq (read_pod ops (length bs)) (\<lambda>bs. ret (Plain bs))) bs (Plain bs)"
    by (rule delivers_map [OF pod]) simp_all
  with Plain show ?thesis by (simp del: ret_run)
next
  assume ok: "item_ok x"
  case (Sized k bs)
  have "delivers good rest (seq (stream_string ops k) (\<lambda>bs. ret (Sized k bs)))
      (le_enc k (of_nat (length bs) :: u64) @ bs) (Sized k bs)"
    by (rule delivers_map [OF str]) (use Sized ok in simp_all)
  with Sized show ?thesis by (simp del: ret_run)
qed

lemma items_read:
  "\<forall>x \<in> set xs. item_ok x \<Longrightarrow> delivers good rest (get_items ops xs) (concat (map item_bytes xs)) xs"
proof (induction xs)
  case Nil
  then show ?case by (simp add: delivers_ret del: ret_run)
next
  case (Cons x xs)
  have t: "delivers good rest (seq (get_items ops xs) (\<lambda>ys. ret (x # ys))) (concat (map item_bytes xs)) (x # xs)"
    using Cons by (intro delivers_map [of _ _ _ _ xs]) auto
  have h: "delivers good rest (get_item ops x) (item_bytes x) x"
    using Cons.prems by (intro item_read) simp
  have "delivers good rest (seq (get_item ops x) (\<lambda>y. seq (get_items ops xs) (\<lambda>ys. ret (y # ys))))
      (item_bytes x @ concat (map item_bytes xs)) (x # xs)"
    by (rule delivers_seq) (rule h, rule t)
  then show ?case by simp
qed

end

lemma put_item_room:
  assumes "ob_ok b" "put_item x b = (d, b')"
  shows "ob_ok b'" "length (ob_buf b') = length (ob_buf b)" "d \<longleftrightarrow> length (item_bytes x) \<le> ob_room b"
    "written b' = (if d then written b @ item_bytes x else written b)"
    "ob_room b' = (if d then ob_room b - length (item_bytes x) else ob_room b)"
  using put_item_contract [of x] assms unfolding all_or_nothing_def by (auto split: if_splits dest!: spec [of _ b])

text \<open>The items that are written when there is room for \<open>n\<close> bytes: all up to the first that does not fit.\<close>

fun fitting :: "nat \<Rightarrow> sitem list \<Rightarrow> sitem list" where
  "fitting n [] = []"
| "fitting n (x # xs) =
     (if length (item_bytes x) \<le> n then x # fitting (n - length (item_bytes x)) xs else [])"

lemma fitting_all: "fitting n xs = xs \<longleftrightarrow> length (concat (map item_bytes xs)) \<le> n"
  by (induction n xs rule: fitting.induct) auto

lemma put_items_fitting:
  "ob_ok b \<Longrightarrow> put_items xs b = (d, b') \<Longrightarrow>
   ob_ok b' \<and> length (ob_buf b') = length (ob_buf b) \<and>
   written b' = written b @ concat (map item_bytes (fitting (ob_room b) xs)) \<and> (d \<longleftrightarrow> fitting (ob_room b) xs = xs)"
proof (induction xs arbitrary: b)
  case (Cons x xs)
  obtain e b1 where p: "put_item x b = (e, b1)" by fastforce
  note x = put_item_room [OF Cons.prems(1) p]
  show ?case
  proof (cases e)
    case True
    then have "put_items xs b1 = (d, b')" using Cons.prems(2) p by simp
    from Cons.IH [OF x(1) this] True x(2-) show ?thesis by simp
  next
    case False
    then show ?thesis using Cons.prems(2) p x by auto
  qed
qed simp

text \<open>
  C14: What an \<^verbatim>\<open>OutputBufferStream\<close> accepts, an \<^verbatim>\<open>InputStream\<close> on a file gives back. A message
  of plain values and strings, whose lengths fit their size fields, is written to a fresh
  buffer, item by item until one is refused: completely exactly when its bytes fit, and otherwise up to the first
  item that does not fit in what is left, of which nothing is written. When it fits,
  reading the same types in the same order from a file that starts with the bytes of the buffer returns the same
  message and leaves the file behind it.
\<close>

theorem stream_roundtrip:
  assumes "\<forall>x \<in> set xs. item_ok x" "length junk + length tail < 2 ^ 64"
    and "put_items xs (outbuf_new junk) = (done, b)"
  shows "(done \<longleftrightarrow> length (concat (map item_bytes xs)) \<le> length junk) \<and>
    take (unat (ob_off b)) (ob_buf b) = concat (map item_bytes (fitting (length junk) xs)) \<and>
    length (ob_buf b) = length junk \<and>
    (done \<longrightarrow> (\<exists>f. get_items file_ops xs (infile_open (Some (take (unat (ob_off b)) (ob_buf b) @ tail))) = (Val xs, f) \<and>
      file_rest f = tail))"
proof (intro conjI impI)
  have "ob_ok (outbuf_new junk)" "ob_room (outbuf_new junk) = length junk" "written (outbuf_new junk) = []"
    using assms(2) by (auto simp: ob_ok_def ob_room_def written_def outbuf_new_def)
  with put_items_fitting [OF _ assms(3)] have w: "ob_ok b" "length (ob_buf b) = length junk"
    "written b = concat (map item_bytes (fitting (length junk) xs))" "done \<longleftrightarrow> fitting (length junk) xs = xs"
    by (simp_all add: outbuf_new_def)
  then show "done \<longleftrightarrow> length (concat (map item_bytes xs)) \<le> length junk" "length (ob_buf b) = length junk"
    "take (unat (ob_off b)) (ob_buf b) = concat (map item_bytes (fitting (length junk) xs))"
    by (simp_all add: fitting_all written_def)
  assume "done"
  with w have bs: "take (unat (ob_off b)) (ob_buf b) = concat (map item_bytes xs)"
    "length (concat (map item_bytes xs)) \<le> length junk"
    by (simp_all add: written_def flip: fitting_all)
  let ?f = "infile_open (Some (take (unat (ob_off b)) (ob_buf b) @ tail))"
  have "file_good ?f" unfolding bs(1) using assms(2) bs(2) by (intro file_open_good) simp
  moreover have "file_rest ?f = concat (map item_bytes xs) @ tail" by (simp add: file_open_rest bs(1))
  ultimately show "\<exists>f. get_items file_ops xs ?f = (Val xs, f) \<and> file_rest f = tail"
    using infile.items_read [OF assms(1)] unfolding delivers_def by metis
qed

text \<open>A message of six bytes in a buffer of ten comes back; in a buffer of five, only its first item is written.\<close>

theorem stream_roundtrip_witness:
  "(\<exists>b f. put_items [Plain [5, 6], Sized 2 [104, 105]] (outbuf_new (replicate 10 0)) = (True, b) \<and>
     get_items file_ops [Plain [5, 6], Sized 2 [104, 105]]
       (infile_open (Some (take (unat (ob_off b)) (ob_buf b) @ [9]))) = (Val [Plain [5, 6], Sized 2 [104, 105]], f) \<and>
     file_rest f = [9]) \<and>
   (\<exists>b. put_items [Plain [5, 6], Sized 2 [104, 105]] (outbuf_new (replicate 5 0)) = (False, b) \<and>
     take (unat (ob_off b)) (ob_buf b) = [5, 6])"
proof -
  let ?xs = "[Plain [5, 6], Sized 2 [104, 105]]"
  obtain d b where b: "put_items ?xs (outbuf_new (replicate 10 0)) = (d, b)" by fastforce
  obtain d' b' where b': "put_items ?xs (outbuf_new (replicate 5 0)) = (d', b')" by fastforce
  show ?thesis
    using stream_roundtrip [OF _ _ b, of "[9]"] stream_roundtrip [OF _ _ b', of "[9]"] b b' by auto
qed

section \<open>An InputBuffer does not move\<close>

lemma buffer_pod: "snd (read_pod buffer_ops n i) = i"
  by (simp add: read_pod_def throw_overread_def buffer_ops_def ib_read_def)

lemma buffer_pod_value:
  "read_pod buffer_ops n i = (Val bs, i') \<Longrightarrow> i' = i \<and> bs = take n (drop (unat (ib_off i)) (ib_buf i))"
  by (auto simp: read_pod_def throw_overread_def buffer_ops_def ib_read_def split: if_splits)

lemma buffer_elements:
  "read_elements buffer_ops w dec n acc i = (Val ys, i') \<Longrightarrow>
   i' = i \<and> ys = acc @ replicate n (dec (take w (drop (unat (ib_off i)) (ib_buf i))))"
proof (induction n arbitrary: acc)
  case (Suc n)
  from Suc.prems obtain bs i1 where "read_pod buffer_ops w i = (Val bs, i1)"
    and r: "read_elements buffer_ops w dec n (acc @ [dec bs]) i1 = (Val ys, i')"
    by (auto simp: seq_eq_Val)
  with buffer_pod_value have "i1 = i" "bs = take w (drop (unat (ib_off i)) (ib_buf i))" by blast+
  with Suc.IH [of "acc @ [dec bs]"] r show ?case by simp
qed simp

text \<open>
  Reading a container from an \<^verbatim>\<open>InputBuffer\<close> does not work: \<^verbatim>\<open>InputBuffer::read\<close> never
  advances \<^verbatim>\<open>offset_\<close>, so that every element is decoded from the bytes at the start, the size
  field included, and a following read starts there again.
\<close>

theorem buffer_container_repeats:
  "read_container buffer_ops k w dec acc i = (Val ys, i') \<Longrightarrow>
   i' = i \<and> ys = acc @ replicate (unat (le_dec (take k (drop (unat (ib_off i)) (ib_buf i))) :: u64))
     (dec (take w (drop (unat (ib_off i)) (ib_buf i))))"
proof -
  assume r: "read_container buffer_ops k w dec acc i = (Val ys, i')"
  then obtain n :: u64 and i1 where n: "read_value buffer_ops k i = (Val n, i1)"
    and rest: "(if w * unat n > unat (in_readable buffer_ops i1)
      then throw_overread buffer_ops (w * unat n) i1
      else read_elements buffer_ops w dec (unat n) acc i1) = (Val ys, i')"
    by (auto simp: read_container_def seq_eq_Val)
  from n have "i1 = i" "n = le_dec (take k (drop (unat (ib_off i)) (ib_buf i)))"
    by (auto simp: read_value_def seq_eq_Val dest: buffer_pod_value)
  with rest show ?thesis
    by (auto simp: throw_overread_def dest: buffer_elements split: if_splits)
qed

theorem buffer_container_repeats_witness:
  "stream_string buffer_ops 1 (inbuf_new [1, 104, 105] 3 0) = (Val [1], inbuf_new [1, 104, 105] 3 0)"
proof -
  let ?i = "inbuf_new [1, 104, 105] 3 0"
  have "\<exists>v. fst (stream_string buffer_ops 1 ?i) = Val v"
    by (simp add: stream_string_def read_container_def read_value_def read_pod_def seq_def buffer_ops_def
        ib_read_def ib_readable_def inbuf_new_def le_dec_def)
  then obtain ys i' where "read_container buffer_ops 1 1 (\<lambda>bs. bs ! 0) [] ?i = (Val ys, i')"
    by (metis stream_string_def prod.collapse)
  from buffer_container_repeats [OF this] this show ?thesis
    by (simp add: stream_string_def inbuf_new_def le_dec_def)
qed

text \<open>
  A file that cannot be opened is not at its end: \<^verbatim>\<open>size_\<close> is 0, \<^verbatim>\<open>offset()\<close> is \<open>-1\<close> and
  \<^verbatim>\<open>readable()\<close> is 1. Reading one byte passes the check and yields an undefined value; anything
  longer throws.
\<close>

theorem missing_file_reads:
  "\<not> is_eof file_ops (infile_open None) \<and>
   fst (read_pod file_ops 1 (infile_open None)) = Undef \<and>
   read_pod file_ops (Suc (Suc n)) (infile_open None) =
     (Throw (OverRead (of_nat (Suc (Suc n))) (- 1) 1), infile_open None)"
proof -
  have m: "ucast (- 1 :: u64) = (- 1 :: u32)" by (rule bit_word_eqI) (simp add: bit_simps)
  show ?thesis
    by (simp add: is_eof_def read_pod_def throw_overread_def file_ops_def if_readable_def if_offset_def
        infile_open_def if_read_def m)
qed

end
