(* ===== verification/CompactInt.thy ===== *)
theory CompactInt
  imports Prelude
begin

text \<open>
  The integers the market data files pack into 32 bits: the two classes \<^verbatim>\<open>BigInt\<close>
  (\<^verbatim>\<open>cpp/money/src/types.h\<close> and \<^verbatim>\<open>cpp/utils/bigint.h\<close>), which keep a mantissa and an exponent in
  signed bit-fields. A bit-field of \<open>n\<close> bits keeps the value modulo \<open>2 ^ n\<close> with sign.
\<close>

definition bitfield :: "nat \<Rightarrow> int \<Rightarrow> int" where
  "bitfield n v = signed_take_bit (n - 1) v"

lemma bitfield_fits: "- (2 ^ (n - 1)) \<le> v \<Longrightarrow> v < 2 ^ (n - 1) \<Longrightarrow> bitfield n v = v"
  by (simp add: bitfield_def signed_take_bit_int_eq_self)

lemma bitfield_mod: "bitfield (Suc n) v = (v + 2 ^ n) mod 2 ^ Suc n - 2 ^ n"
  by (simp add: bitfield_def signed_take_bit_eq_take_bit_shift take_bit_eq_mod)

lemma bitfield_above:
  assumes "2 ^ n \<le> v" "v < 2 ^ Suc n"
  shows "bitfield (Suc n) v = v - 2 ^ Suc n"
proof -
  have "(v + 2 ^ n) mod 2 ^ Suc n = (v + 2 ^ n - 2 ^ Suc n) mod 2 ^ Suc n"
    by (rule minus_mod_self2 [symmetric])
  also have "\<dots> = v + 2 ^ n - 2 ^ Suc n"
    using assms by (intro mod_pos_pos_trivial) auto
  finally show ?thesis by (simp add: bitfield_mod)
qed

lemma bitfield_below:
  assumes "- (2 ^ Suc n) \<le> v" "v < - (2 ^ n)"
  shows "bitfield (Suc n) v = v + 2 ^ Suc n"
proof -
  have "(v + 2 ^ n) mod 2 ^ Suc n = (v + 2 ^ n + 2 ^ Suc n) mod 2 ^ Suc n"
    by (rule mod_add_self2 [symmetric])
  also have "\<dots> = v + 2 ^ n + 2 ^ Suc n"
    using assms by (intro mod_pos_pos_trivial) auto
  finally show ?thesis by (simp add: bitfield_mod)
qed

lemma bitfield_Suc: "bitfield n (bitfield n a + 1) = bitfield n (a + 1)"
proof -
  let ?s = "signed_take_bit (n - 1) :: int \<Rightarrow> int"
  have "?s (?s a + 1) = ?s (?s (?s a) + ?s 1)" by (simp only: signed_take_bit_add)
  also have "\<dots> = ?s (?s a + ?s 1)" by (simp only: signed_take_bit_signed_take_bit min.idem)
  also have "\<dots> = ?s (a + 1)" by (simp only: signed_take_bit_add)
  finally show ?thesis by (simp only: bitfield_def)
qed

section \<open>Division towards zero, repeated\<close>

lemma cdiv_cdiv:
  assumes "0 < b" "0 < c"
  shows "cdiv (cdiv a b) c = cdiv a (b * c)"
proof -
  have d: "x div b div c = x div (b * c)" for x
    using assms by (simp add: zdiv_zmult2_eq)
  have n: "0 \<le> \<bar>a\<bar> div b" using assms by (simp add: pos_imp_zdiv_nonneg_iff)
  show ?thesis
  proof (cases "\<bar>a\<bar> div b = 0")
    case True
    then show ?thesis using assms d [of "\<bar>a\<bar>"] by (simp add: cdiv_def)
  next
    case False
    with n have "sgn (\<bar>a\<bar> div b) = 1" by simp
    with n assms d [of "\<bar>a\<bar>"] False show ?thesis
      by (auto simp: cdiv_def sgn_mult abs_mult)
  qed
qed

lemma cdiv_one [simp]: "cdiv a 1 = a"
  by (simp add: cdiv_def mult_sgn_abs)

lemma abs_cdiv: "0 < b \<Longrightarrow> \<bar>cdiv a b\<bar> = \<bar>a\<bar> div b"
  by (cases "a = 0") (auto simp: cdiv_def abs_mult pos_imp_zdiv_nonneg_iff)

lemma cdiv_shrinks: "1 < b \<Longrightarrow> a \<noteq> 0 \<Longrightarrow> \<bar>cdiv a b\<bar> < \<bar>a\<bar>"
  by (simp add: abs_cdiv int_div_less_self)

lemma int_div_less:
  fixes b c v :: int
  assumes "0 < b" "v < c * b"
  shows "v div b < c"
proof (rule ccontr)
  assume "\<not> v div b < c"
  then have "c * b \<le> v div b * b" using assms(1) by (intro mult_right_mono) auto
  also have "\<dots> \<le> v" using assms(1) by (smt (verit) minus_mod_eq_div_mult pos_mod_sign)
  finally show False using assms(2) by simp
qed

section \<open>BigInt of cpp/money/src/types.h\<close>

abbreviation MONEY_MAX_BASE :: int where "MONEY_MAX_BASE \<equiv> 536870911"
abbreviation MONEY_MIN_BASE :: int where "MONEY_MIN_BASE \<equiv> -536870912"

record money_bigint =
  mb_base :: int
  mb_exp :: int

function money_shrink :: "int \<Rightarrow> int \<Rightarrow> int \<times> int" where
  \<comment> \<open>the loop of \<^verbatim>\<open>from_int64\<close>; \<^verbatim>\<open>exp_\<close> is a bit-field of 3 bits\<close>
  "money_shrink val e =
     (if val > MONEY_MAX_BASE \<or> val < MONEY_MIN_BASE
      then money_shrink (cdiv val 16) (bitfield 3 (e + 1)) else (val, e))"
  by pat_completeness auto
termination
  by (relation "measure (\<lambda>(v, e). nat \<bar>v\<bar>)") (auto simp: abs_cdiv)

definition money_from_int64 :: "int \<Rightarrow> money_bigint" where
  "money_from_int64 val = (case money_shrink val 0 of
     (v, e) \<Rightarrow> \<lparr>mb_base = bitfield 29 v, mb_exp = e\<rparr>)"

definition money_to_int64 :: "money_bigint \<Rightarrow> int" where
  "money_to_int64 b = ((\<lambda>val. val * 16) ^^ nat (mb_exp b)) (mb_base b)"

section \<open>BigInt of cpp/utils/bigint.h\<close>

abbreviation UTILS_MAX_BASE :: int where "UTILS_MAX_BASE \<equiv> 65535"
abbreviation UTILS_MIN_BASE :: int where "UTILS_MIN_BASE \<equiv> -65536"

record utils_bigint =
  ub_base :: int
  ub_exp :: int
  ub_mod :: int

function utils_shrink :: "int \<Rightarrow> int \<Rightarrow> int \<times> int" where
  "utils_shrink val e =
     (if val > UTILS_MAX_BASE \<or> val < UTILS_MIN_BASE
      then utils_shrink (cdiv val 256) (bitfield 8 (e + 1)) else (val, e))"
  by pat_completeness auto
termination
  by (relation "measure (\<lambda>(v, e). nat \<bar>v\<bar>)") (auto simp: abs_cdiv)

definition utils_from_int64 :: "int \<Rightarrow> utils_bigint option" where
  \<comment> \<open>\<open>None\<close>: \<^verbatim>\<open>val -= mod_\<close> overflows \<^verbatim>\<open>int64_t\<close>\<close>
  "utils_from_int64 val =
     (let m = bitfield 8 (cmod val 256); v = val - m
      in if v < - (2 ^ 63) \<or> v \<ge> 2 ^ 63 then None
         else case utils_shrink v 0 of
           (b, e) \<Rightarrow> Some \<lparr>ub_base = bitfield 16 b, ub_exp = e, ub_mod = m\<rparr>)"

definition utils_to_int64 :: "utils_bigint \<Rightarrow> int" where
  "utils_to_int64 b = ((\<lambda>val. val * 256) ^^ nat (ub_exp b)) (ub_base b) + ub_mod b"

section \<open>What the loop computes\<close>

text \<open>
  The interface of the two loops: repeated division until the value lies between the bounds.
\<close>

locale shrinking =
  fixes lo hi base :: int and bits :: nat and shrink :: "int \<Rightarrow> int \<Rightarrow> int \<times> int"
  assumes unfold: "shrink v e =
      (if v > hi \<or> v < lo then shrink (cdiv v base) (bitfield bits (e + 1)) else (v, e))"
    and bounds: "lo \<le> 0" "0 \<le> hi" "1 < base"
begin

lemma steps:
  assumes "\<And>i. i < n \<Longrightarrow> cdiv v (base ^ i) > hi \<or> cdiv v (base ^ i) < lo"
  shows "shrink v e = shrink (cdiv v (base ^ n)) (((\<lambda>e. bitfield bits (e + 1)) ^^ n) e)"
  using assms
proof (induction n arbitrary: v e)
  case 0
  then show ?case by simp
next
  case (Suc n)
  have "v > hi \<or> v < lo" using Suc.prems [of 0] by simp
  then have "shrink v e = shrink (cdiv v base) (bitfield bits (e + 1))"
    using unfold [of v e] by simp
  also have "\<dots> = shrink (cdiv (cdiv v base) (base ^ n))
      (((\<lambda>e. bitfield bits (e + 1)) ^^ n) (bitfield bits (e + 1)))"
  proof (rule Suc.IH)
    fix i assume "i < n"
    then show "cdiv (cdiv v base) (base ^ i) > hi \<or> cdiv (cdiv v base) (base ^ i) < lo"
      using Suc.prems [of "Suc i"] bounds by (simp add: cdiv_cdiv)
  qed
  finally show ?case
    using bounds by (simp add: cdiv_cdiv funpow_Suc_right del: funpow.simps)
qed

lemma exponent: "((\<lambda>e. bitfield bits (e + 1)) ^^ Suc n) e = bitfield bits (e + int (Suc n))"
  by (induction n) (auto simp: bitfield_Suc add.assoc)

lemma stops: "lo \<le> v \<Longrightarrow> v \<le> hi \<Longrightarrow> shrink v e = (v, e)"
  using unfold [of v e] by simp

text \<open>A value whose \<open>n\<close>-th quotient is the first between the bounds.\<close>

lemma positive:
  assumes "(hi + 1) * base ^ n \<le> v" "v < (hi + 1) * base ^ Suc n"
  shows "shrink v 0 = (v div base ^ Suc n, bitfield bits (int (Suc n)))"
proof -
  have pos: "0 < base ^ i" for i using bounds by simp
  have v: "0 \<le> v" using assms(1) bounds pos [of n] by (smt (verit) mult_nonneg_nonneg)
  have big: "hi < cdiv v (base ^ i)" if "i < Suc n" for i
  proof -
    have "base ^ i \<le> base ^ n" using that bounds by (simp add: power_increasing)
    then have "(hi + 1) * base ^ i \<le> (hi + 1) * base ^ n"
      using bounds by (intro mult_left_mono) auto
    with assms(1) have "(hi + 1) * base ^ i \<le> v" by linarith
    then have "(hi + 1) * base ^ i div base ^ i \<le> v div base ^ i"
      using pos by (rule zdiv_mono1)
    then show ?thesis using v pos [of i] bounds by (simp split: if_splits)
  qed
  have "v div base ^ Suc n < hi + 1"
    using pos assms(2) by (rule int_div_less)
  moreover have "lo \<le> v div base ^ Suc n"
    using v pos [of "Suc n"] bounds by (meson order_trans pos_imp_zdiv_nonneg_iff)
  moreover have "cdiv v (base ^ Suc n) = v div base ^ Suc n"
    using v pos [of "Suc n"] by (simp del: power_Suc)
  ultimately show ?thesis
    using steps [of "Suc n" v 0] big exponent [of n 0] stops
    by (simp del: power_Suc funpow.simps)
qed

end

interpretation money: shrinking MONEY_MIN_BASE MONEY_MAX_BASE 16 3 money_shrink
  by unfold_locales (simp_all del: money_shrink.simps, subst money_shrink.simps, simp)

interpretation utils: shrinking UTILS_MIN_BASE UTILS_MAX_BASE 256 8 utils_shrink
  by unfold_locales (simp_all del: utils_shrink.simps, subst utils_shrink.simps, simp)

declare money_shrink.simps [simp del] utils_shrink.simps [simp del]

section \<open>Round trips\<close>

lemma money_to_small: "0 \<le> e \<Longrightarrow> money_to_int64 \<lparr>mb_base = b, mb_exp = e\<rparr> = b * 16 ^ nat e"
proof -
  have "((\<lambda>val. val * 16) ^^ n) b = b * 16 ^ n" for n by (induction n) auto
  then show ?thesis by (simp add: money_to_int64_def)
qed

lemma money_to_negative: "e \<le> 0 \<Longrightarrow> money_to_int64 \<lparr>mb_base = b, mb_exp = e\<rparr> = b"
  by (simp add: money_to_int64_def)

lemma money_unshrunk:
  "MONEY_MIN_BASE \<le> v \<Longrightarrow> v \<le> MONEY_MAX_BASE \<Longrightarrow> money_to_int64 (money_from_int64 v) = bitfield 29 v"
  by (simp add: money_from_int64_def money.stops money_to_negative)

lemma money_shrunk:
  assumes "536870912 * 16 ^ n \<le> v" "v < 268435456 * 16 ^ Suc n"
  shows "money_from_int64 v = \<lparr>mb_base = v div 16 ^ Suc n, mb_exp = bitfield 3 (int (Suc n))\<rparr>"
proof -
  have s: "money_shrink v 0 = (v div 16 ^ Suc n, bitfield 3 (int (Suc n)))"
    using assms by (intro money.positive) auto
  have "0 \<le> v" using assms(1) by (smt (verit) mult_nonneg_nonneg zero_le_power)
  then have "0 \<le> v div 16 ^ Suc n" by (simp add: pos_imp_zdiv_nonneg_iff)
  moreover have "v div 16 ^ Suc n < 268435456"
    using assms(2) by (intro int_div_less) auto
  ultimately have "bitfield 29 (v div 16 ^ Suc n) = v div 16 ^ Suc n"
    by (intro bitfield_fits) auto
  with s show ?thesis by (simp only: money_from_int64_def prod.case)
qed

text \<open>
  What the \<^verbatim>\<open>BigInt\<close> of the market files keeps of a number. Below \<open>2 ^ 28\<close> in size it is
  exact. From \<open>2 ^ 28\<close> to \<open>2 ^ 29 - 1\<close>, where \<^verbatim>\<open>MAX_BASE\<close> still allows exponent 0, the
  29-bit signed field flips the sign and the number comes back as \<open>v - 2 ^ 29\<close>. With an
  exponent \<open>n + 1\<close> up to 3 the low hexadecimal digits are cut off; an exponent of 4 does not fit
  the 3-bit signed field, and the number comes back divided by \<open>16 ^ 4\<close>.
\<close>

theorem money_bigint_roundtrip:
  "(-268435456 \<le> v \<longrightarrow> v < 268435456 \<longrightarrow> money_to_int64 (money_from_int64 v) = v) \<and>
   (268435456 \<le> v \<longrightarrow> v < 536870912 \<longrightarrow> money_to_int64 (money_from_int64 v) = v - 536870912) \<and>
   (n < 3 \<longrightarrow> 536870912 * 16 ^ n \<le> v \<longrightarrow> v < 268435456 * 16 ^ Suc n \<longrightarrow>
      money_to_int64 (money_from_int64 v) = v - v mod 16 ^ Suc n) \<and>
   (536870912 * 16 ^ 3 \<le> v \<longrightarrow> v < 268435456 * 16 ^ 4 \<longrightarrow>
      money_to_int64 (money_from_int64 v) = v div 16 ^ 4)"
proof (intro conjI impI)
  assume "-268435456 \<le> v" "v < 268435456"
  then show "money_to_int64 (money_from_int64 v) = v"
    by (simp add: money_unshrunk bitfield_fits)
next
  assume "268435456 \<le> v" "v < 536870912"
  then show "money_to_int64 (money_from_int64 v) = v - 536870912"
    using bitfield_above [of 28 v] by (simp add: money_unshrunk)
next
  assume n: "n < 3" and v: "536870912 * 16 ^ n \<le> v" "v < 268435456 * 16 ^ Suc n"
  have "bitfield 3 (int (Suc n)) = int (Suc n)" using n by (intro bitfield_fits) auto
  then have "money_to_int64 (money_from_int64 v) = v div 16 ^ Suc n * 16 ^ Suc n"
    by (simp only: money_shrunk [OF v] money_to_small nat_int of_nat_0_le_iff)
  then show "money_to_int64 (money_from_int64 v) = v - v mod 16 ^ Suc n"
    by (simp only: minus_mod_eq_div_mult)
next
  assume v: "536870912 * 16 ^ 3 \<le> v" "v < 268435456 * 16 ^ 4"
  have e: "bitfield 3 (int (Suc 3)) = -4" by (simp add: bitfield_mod numeral_3_eq_3 [symmetric] bitfield_def signed_take_bit_eq_take_bit_shift take_bit_eq_mod)
  have "money_from_int64 v = \<lparr>mb_base = v div 16 ^ Suc 3, mb_exp = -4\<rparr>"
    using money_shrunk [of 3 v] v e by simp
  then show "money_to_int64 (money_from_int64 v) = v div 16 ^ 4"
    by (simp only: money_to_negative) simp
qed

theorem money_bigint_roundtrip_witness:
  "money_to_int64 (money_from_int64 300000000) = -236870912 \<and>
   money_to_int64 (money_from_int64 1000000001) = 1000000000 \<and>
   money_to_int64 (money_from_int64 3000000000000) = 45776367"
  using money_bigint_roundtrip [of 300000000 0] money_bigint_roundtrip [of 1000000001 0]
    money_bigint_roundtrip [of 3000000000000 0] by simp

text \<open>\<^verbatim>\<open>mod_\<close> holds the distance to the nearest multiple of 256, which can be below zero.\<close>

lemma utils_nearest:
  assumes "0 \<le> v"
  shows "bitfield 8 (cmod v 256) = v - 256 * ((v + 128) div 256)"
proof -
  have "bitfield 8 (cmod v 256) = (v mod 256 + 128) mod 256 - 128"
    using assms bitfield_mod [of 7 "v mod 256"] by simp
  also have "\<dots> = (v + 128) mod 256 - 128" by (simp add: mod_add_left_eq)
  also have "\<dots> = v - 256 * ((v + 128) div 256)" using minus_mult_div_eq_mod [of "v + 128" 256] by linarith
  finally show ?thesis .
qed

lemma utils_from:
  assumes "0 \<le> v" "v < 2 ^ 62" "q = (v + 128) div 256" "utils_shrink (256 * q) 0 = (b, e)"
  shows "utils_from_int64 v = Some \<lparr>ub_base = bitfield 16 b, ub_exp = e, ub_mod = v - 256 * q\<rparr>"
proof -
  have w: "v - bitfield 8 (cmod v 256) = 256 * q"
    using utils_nearest [OF assms(1)] assms(3) by simp
  have "0 \<le> 256 * q" "256 * q < 2 ^ 63" using assms(1,2,3) by auto
  with w assms(4) show ?thesis
    by (simp add: utils_from_int64_def Let_def utils_nearest [OF assms(1)] assms(3))
qed

text \<open>
  What the \<^verbatim>\<open>BigInt\<close> of \<^verbatim>\<open>cpp/utils\<close> keeps of a number from 0 to \<open>2 ^ 23 - 129\<close>. It is exact
  below 32640 and from 65408 on; in between, where the mantissa is within \<^verbatim>\<open>MAX_BASE\<close> but not
  within the 16-bit signed field, the number comes back 65536 too small.
\<close>

theorem utils_bigint_roundtrip:
  assumes "0 \<le> v" "v < 8388480"
  shows "map_option utils_to_int64 (utils_from_int64 v) =
     Some (if v < 32640 \<or> 65408 \<le> v then v else v - 65536)"
proof -
  define q where "q = (v + 128) div 256"
  have q: "0 \<le> q" "v < 32640 \<longleftrightarrow> q < 128" "v < 65408 \<longleftrightarrow> q < 256" "q < 32768"
    using assms by (auto simp: q_def)
  note packed = utils_from [OF assms(1) _ q_def]
  consider "q < 128" | "128 \<le> q" "q < 256" | "256 \<le> q" by linarith
  then show ?thesis
  proof cases
    case 1
    have "utils_shrink (256 * q) 0 = (256 * q, 0)" using 1 q by (intro utils.stops) auto
    moreover have "bitfield 16 (256 * q) = 256 * q" using 1 q by (intro bitfield_fits) auto
    ultimately show ?thesis using 1 q packed assms by (simp add: utils_to_int64_def)
  next
    case 2
    have "utils_shrink (256 * q) 0 = (256 * q, 0)" using 2 q by (intro utils.stops) auto
    moreover have "bitfield 16 (256 * q) = 256 * q - 65536"
      using 2 q bitfield_above [of 15 "256 * q"] by simp
    ultimately show ?thesis using 2 q packed assms by (simp add: utils_to_int64_def)
  next
    case 3
    have "utils_shrink (256 * q) 0 = (q, 1)"
      using 3 q utils.positive [of 0 "256 * q"] by (simp add: bitfield_fits)
    moreover have "bitfield 16 q = q" using 3 q by (intro bitfield_fits) auto
    ultimately show ?thesis using 3 q packed assms by (simp add: utils_to_int64_def)
  qed
qed

theorem utils_bigint_roundtrip_witness:
  "map_option utils_to_int64 (utils_from_int64 40000) = Some (-25536)"
  using utils_bigint_roundtrip [of 40000] by simp

end
