(* ===== verification/Market.thy ===== *)
theory Market
  imports StreamProps CompactInt
begin

text \<open>
  \<^verbatim>\<open>cpp/money/src/mx.cpp\<close> with \<^verbatim>\<open>LargeInt\<close> and \<^verbatim>\<open>Digit\<close> of \<^verbatim>\<open>types.h\<close>: market data files of
  minute data and quotes. Plain \<^verbatim>\<open>int\<close>, \<^verbatim>\<open>uint\<close> and \<^verbatim>\<open>ushort\<close> members are words of their width.
\<close>

section \<open>LargeInt\<close>

definition wrap32 :: "int \<Rightarrow> int" where
  "wrap32 v = signed_take_bit 31 v"

definition large_int :: "int \<Rightarrow> int option" where
  \<comment> \<open>the body of \<^verbatim>\<open>update\<close> after the read; \<open>None\<close>: negating \<^verbatim>\<open>INT_MIN\<close>, or a left shift whose
    result does not fit \<^verbatim>\<open>unsigned\<close>, is undefined\<close>
  "large_int v0 =
     (let negative = v0 < 0; v = (if negative then - v0 else v0); times = v div 2 ^ 29 in
      if v > INT_MAX then None
      else let m = v mod 2 ^ 29 * 2 ^ nat (times * 4) in
        if times \<noteq> 0 \<and> m \<ge> 2 ^ 32 then None
        else let r = (if times \<noteq> 0 then wrap32 m else v) in
          if negative \<and> r = INT_MIN then None else Some (if negative then - r else r))"

definition large_update :: "'s input_ops \<Rightarrow> ('s, stream_exn, int) action" where
  \<comment> \<open>also \<^verbatim>\<open>from_stream\<close>\<close>
  "large_update ops =
     seq (read_value ops 4 :: ('s, stream_exn, u32) action) (\<lambda>w s. case large_int (sint w) of
       None \<Rightarrow> (Undef, s) | Some v \<Rightarrow> (Val v, s))"

lemma large_int_small: "\<bar>v\<bar> < 2 ^ 29 \<Longrightarrow> large_int v = Some v"
  by (auto simp: large_int_def Let_def)

text \<open>
  \<^verbatim>\<open>LargeInt\<close> on every input. Up to 29 bits the value is itself. Otherwise the low 29 bits
  are the mantissa and the bits above count factors of 16; the result is the exact product as
  long as it is below \<open>2 ^ 31\<close>. Beyond, it wraps to a wrong number below \<open>2 ^ 32\<close> and is
  undefined from there on, and for \<^verbatim>\<open>INT_MIN\<close>: \<^verbatim>\<open>value_\<close> is only an \<^verbatim>\<open>int\<close>.
\<close>

theorem large_int_value:
  assumes "fits_int v"
  shows "large_int v =
    (let t = \<bar>v\<bar> div 2 ^ 29; p = \<bar>v\<bar> mod 2 ^ 29 * 16 ^ nat t in
     if v = INT_MIN then None
     else if t = 0 then Some v
     else if p < 2 ^ 31 then Some (sgn v * p)
     else if p < 2 ^ 32 \<and> \<not> (v < 0 \<and> p = 2 ^ 31) then Some (sgn v * (p - 2 ^ 32))
     else None)"
proof (cases "v = INT_MIN \<or> \<bar>v\<bar> div 2 ^ 29 = 0")
  case True
  then consider "v = INT_MIN" | "\<bar>v\<bar> div 2 ^ 29 = 0" by blast
  then show ?thesis
  proof cases
    case 1
    then show ?thesis by (simp add: large_int_def)
  next
    case 2
    then have "\<bar>v\<bar> < 2 ^ 29" by (auto simp: zdiv_eq_0_iff)
    with 2 show ?thesis by (auto simp: large_int_small Let_def)
  qed
next
  case False
  define t where "t = \<bar>v\<bar> div 2 ^ 29"
  define p where "p = \<bar>v\<bar> mod 2 ^ 29 * 16 ^ nat t"
  have t: "0 < t" using False pos_imp_zdiv_nonneg_iff [of "2 ^ 29" "\<bar>v\<bar>"] by (simp add: t_def)
  have "(2::int) ^ nat (t * 4) = (2 ^ 4) ^ nat t"
    using t by (simp only: power_mult [symmetric]) (simp add: nat_mult_distrib mult.commute)
  then have m: "\<bar>v\<bar> mod 2 ^ 29 * 2 ^ nat (t * 4) = p" by (simp add: p_def)
  have p: "0 \<le> p" by (simp add: p_def)
  have w: "p < 2 ^ 31 \<Longrightarrow> wrap32 p = p" "2 ^ 31 \<le> p \<Longrightarrow> p < 2 ^ 32 \<Longrightarrow> wrap32 p = p - 2 ^ 32"
    using p bitfield_fits [of 32 p] bitfield_above [of 31 p] by (simp_all add: wrap32_def bitfield_def)
  have a: "\<bar>v\<bar> \<le> INT_MAX" "v \<noteq> 0" using False assms by (auto simp: fits_int_def)
  have l: "large_int v = (if p \<ge> 2 ^ 32 then None
      else if v < 0 \<and> wrap32 p = INT_MIN then None else Some (if v < 0 then - wrap32 p else wrap32 p))"
    using a t m unfolding large_int_def Let_def t_def [symmetric]
    by (auto simp: abs_if t_def split: if_splits)
  have "wrap32 p = INT_MIN \<longleftrightarrow> p = 2 ^ 31" if "p < 2 ^ 32"
    using w p that by (cases "p < 2 ^ 31") auto
  then show ?thesis
    using False t w a unfolding l Let_def t_def [symmetric] p_def [symmetric]
    by (auto simp: sgn_if)
qed

theorem large_int_value_witness:
  "large_int 536870917 = Some 80 \<and> large_int (-536870917) = Some (-80) \<and> large_int 1610612735 = None"
proof -
  have "fits_int 536870917" "fits_int (-536870917)" "fits_int 1610612735" by (simp_all add: fits_int_def)
  note f = this
  show ?thesis
    unfolding large_int_value [OF f(1)] large_int_value [OF f(2)] large_int_value [OF f(3)] Let_def
    by simp
qed

section \<open>Digit\<close>

fun float_exp :: "nat \<Rightarrow> nat" where
  "float_exp n = (if n < 2 ^ 24 then 0 else Suc (float_exp (n div 2)))"

declare float_exp.simps [simp del]

definition to_float :: "nat \<Rightarrow> nat" where
  \<comment> \<open>a 64-bit integer as a \<^verbatim>\<open>float\<close>: 24 significant bits, rounded to even; again an integer\<close>
  "to_float n =
     (let e = float_exp n; q = n div 2 ^ e; r = n mod 2 ^ e in
      (if 2 * r > 2 ^ e \<or> (2 * r = 2 ^ e \<and> odd q) then q + 1 else q) * 2 ^ e)"

definition digit_value :: "nat \<Rightarrow> u32 \<Rightarrow> nat" where
  \<comment> \<open>\<^verbatim>\<open>v / NR_DIGITS\<close>: \<^verbatim>\<open>NR_DIGITS\<close> is a \<^verbatim>\<open>size_t\<close>, so that \<^verbatim>\<open>v\<close> becomes unsigned of 64 bits\<close>
  "digit_value nr v = to_float (unat (scast v :: u64) div nr)"

definition digit_update :: "'s input_ops \<Rightarrow> nat \<Rightarrow> ('s, stream_exn, nat) action" where
  "digit_update ops nr = seq (read_value ops 4) (\<lambda>v. ret (digit_value nr v))"

lemma to_float_small: "n < 2 ^ 24 \<Longrightarrow> to_float n = n"
  by (simp add: to_float_def float_exp.simps)

lemma scast_small: "v < 2 ^ 31 \<Longrightarrow> unat (scast (of_nat v :: u32) :: u64) = v"
proof -
  assume v: "v < 2 ^ 31"
  have "sint (of_nat v :: u32) = int v"
    using v by (simp add: sint_uint uint_nat unat_of_nat_small signed_take_bit_int_eq_self)
  then have "scast (of_nat v :: u32) = (of_nat v :: u64)"
    using v by (simp add: scast_eq)
  with v show ?thesis by (simp add: unat_of_nat_small)
qed

lemma unat_minus_one_u64: "unat (- 1 :: u64) = 18446744073709551615"
  by (simp add: unsigned_minus_1_eq_mask mask_eq_exp_minus_1)

text \<open>
  \<^verbatim>\<open>Digit<N>\<close> divides by the number of digits \<open>N\<close>, not by \<open>10 ^ N\<close>, and without sign: a
  price of \<open>v\<close> thousandths is stored as a third of \<open>v\<close>, and \<open>-1\<close> becomes the float nearest to
  \<open>(2 ^ 64 - 1) / 3\<close>.
\<close>

theorem digit_scales_wrongly:
  "v < 2 ^ 24 \<Longrightarrow>
   digit_value 3 (of_nat v) = v div 3 \<and> digit_value 3 (- 1) = 6148914874488455168"
proof -
  assume v: "v < 2 ^ 24"
  then have "digit_value 3 (of_nat v) = v div 3"
    by (simp add: digit_value_def scast_small to_float_small)
  moreover have "scast (- 1 :: u32) = (- 1 :: u64)" by simp
  then have "digit_value 3 (- 1) = to_float 6148914691236517205"
    by (simp add: digit_value_def unat_minus_one_u64)
  moreover have "to_float 6148914691236517205 = 6148914874488455168"
    by (simp add: to_float_def float_exp.simps)
  ultimately show ?thesis by simp
qed

theorem digit_scales_wrongly_witness:
  "digit_value 3 12345 = 4115"
  using digit_scales_wrongly [of 12345] by simp

section \<open>Records of the files\<close>

text \<open>
  A \<^verbatim>\<open>from_stream\<close> reads its members one after the other; each step fills in one member.
\<close>

definition into :: "('s, 'e, 'v) action \<Rightarrow> ('v \<Rightarrow> 'r \<Rightarrow> 'r) \<Rightarrow> 'r \<Rightarrow> ('s, 'e, 'r) action" where
  "into m set_member r = seq m (\<lambda>v. ret (set_member v r))"

primrec members :: "('r \<Rightarrow> ('s, 'e, 'r) action) list \<Rightarrow> 'r \<Rightarrow> ('s, 'e, 'r) action" where
  "members [] r = ret r"
| "members (m # ms) r = seq (m r) (members ms)"

record file_header =
  data_type :: bytes
  fh_date :: u32

definition header_from_stream :: "'s input_ops \<Rightarrow> ('s, stream_exn, file_header) action" where
  "header_from_stream ops = members
    [into (stream_string ops 2) (\<lambda>v h. h\<lparr>data_type := v\<rparr>),
     into (read_value ops 4) (\<lambda>v h. h\<lparr>fh_date := v\<rparr>)] \<lparr>data_type = [], fh_date = 0\<rparr>"

record rtmin_item =
  date_time :: u32
  open_price :: u32
  highest_price :: u32
  lowest_price :: u32
  close_price :: u32
  avg_price :: u32
  volume :: int
  amount :: int
  tick_count :: u32

definition item_from_stream :: "'s input_ops \<Rightarrow> ('s, stream_exn, rtmin_item) action" where
  "item_from_stream ops = members
    [into (read_value ops 4) (\<lambda>v r. r\<lparr>date_time := v\<rparr>),
     into (read_value ops 4) (\<lambda>v r. r\<lparr>open_price := v\<rparr>),
     into (read_value ops 4) (\<lambda>v r. r\<lparr>highest_price := v\<rparr>),
     into (read_value ops 4) (\<lambda>v r. r\<lparr>lowest_price := v\<rparr>),
     into (read_value ops 4) (\<lambda>v r. r\<lparr>close_price := v\<rparr>),
     into (read_value ops 4) (\<lambda>v r. r\<lparr>avg_price := v\<rparr>),
     into (large_update ops) (\<lambda>v r. r\<lparr>volume := v\<rparr>),
     into (large_update ops) (\<lambda>v r. r\<lparr>amount := v\<rparr>),
     into (read_value ops 4) (\<lambda>v r. r\<lparr>tick_count := v\<rparr>)]
    \<lparr>date_time = 0, open_price = 0, highest_price = 0, lowest_price = 0, close_price = 0,
     avg_price = 0, volume = 0, amount = 0, tick_count = 0\<rparr>"

record rtmin_data =
  rt_stock_id :: bytes
  total_num :: u16
  call_auction_num :: u16
  rt_data :: "rtmin_item list"

primrec read_items ::
  "'s input_ops \<Rightarrow> nat \<Rightarrow> rtmin_item list \<Rightarrow> ('s, stream_exn, rtmin_item list) action" where
  "read_items ops 0 acc = ret acc"
| "read_items ops (Suc n) acc = seq (item_from_stream ops) (\<lambda>x. read_items ops n (acc @ [x]))"

definition rtmin_from_stream :: "'s input_ops \<Rightarrow> ('s, stream_exn, rtmin_data) action" where
  "rtmin_from_stream ops = members
    [into (stream_string ops 2) (\<lambda>v r. r\<lparr>rt_stock_id := v\<rparr>),
     into (read_value ops 2) (\<lambda>v r. r\<lparr>total_num := v\<rparr>),
     into (read_value ops 2) (\<lambda>v r. r\<lparr>call_auction_num := v\<rparr>),
     into (seq (read_value ops 2 :: ('s, stream_exn, u16) action) (\<lambda>n. read_items ops (unat n) []))
       (\<lambda>v r. r\<lparr>rt_data := v\<rparr>)]
    \<lparr>rt_stock_id = [], total_num = 0, call_auction_num = 0, rt_data = []\<rparr>"

definition rtmin_key :: "rtmin_data \<Rightarrow> ('s, stream_exn, bytes) action" where
  "rtmin_key r = ret (rt_stock_id r)"

record quote_data =
  stock_id :: bytes
  stock_name :: bytes
  current_price :: nat
  q_avg_price :: nat
  q_open_price :: nat
  last_close :: nat
  q_highest_price :: nat
  q_lowest_price :: nat
  volume_ratio :: nat
  turn_over_ratio :: u32
  q_volume :: int
  q_amount :: int
  zhangting :: nat
  dieting :: nat
  wai_pan :: u32
  nei_pan :: u32
  dynamic_pe :: nat
  tradable_value :: int
  income :: nat
  quarter :: u8
  total_value :: u32
  tradable_share :: u32
  total_share :: u32
  pe :: nat
  eps :: nat
  pb :: nat
  block_code :: bytes
  block_name :: bytes
  block_rise :: u32

definition quote_from_stream :: "'s input_ops \<Rightarrow> quote_data \<Rightarrow> ('s, stream_exn, quote_data) action" where
  \<comment> \<open>the second argument is the object before the reads: empty strings, \<^verbatim>\<open>LargeInt\<close>s 0, and in
    the other members whatever was in their memory\<close>
  "quote_from_stream ops = members
    [into (stream_string ops 2) (\<lambda>v q. q\<lparr>stock_id := v\<rparr>),
     into (stream_string ops 2) (\<lambda>v q. q\<lparr>stock_name := v\<rparr>),
     into (read_updating ops 4 (digit_update ops 3)) (\<lambda>v q. q\<lparr>current_price := v\<rparr>),
     into (read_updating ops 4 (digit_update ops 4)) (\<lambda>v q. q\<lparr>q_avg_price := v\<rparr>),
     into (read_updating ops 4 (digit_update ops 3)) (\<lambda>v q. q\<lparr>q_open_price := v\<rparr>),
     into (read_updating ops 4 (digit_update ops 3)) (\<lambda>v q. q\<lparr>last_close := v\<rparr>),
     into (read_updating ops 4 (digit_update ops 3)) (\<lambda>v q. q\<lparr>q_highest_price := v\<rparr>),
     into (read_updating ops 4 (digit_update ops 3)) (\<lambda>v q. q\<lparr>q_lowest_price := v\<rparr>),
     into (read_updating ops 4 (digit_update ops 4)) (\<lambda>v q. q\<lparr>volume_ratio := v\<rparr>),
     into (read_value ops 4) (\<lambda>v q. q\<lparr>turn_over_ratio := v\<rparr>),
     into (read_updating ops 4 (large_update ops)) (\<lambda>v q. q\<lparr>q_volume := v\<rparr>),
     into (read_updating ops 4 (large_update ops)) (\<lambda>v q. q\<lparr>q_amount := v\<rparr>),
     into (read_updating ops 4 (digit_update ops 3)) (\<lambda>v q. q\<lparr>zhangting := v\<rparr>),
     into (read_updating ops 4 (digit_update ops 3)) (\<lambda>v q. q\<lparr>dieting := v\<rparr>),
     into (read_value ops 4) (\<lambda>v q. q\<lparr>wai_pan := v\<rparr>),
     into (read_value ops 4) (\<lambda>v q. q\<lparr>nei_pan := v\<rparr>),
     into (read_updating ops 4 (digit_update ops 3)) (\<lambda>v q. q\<lparr>dynamic_pe := v\<rparr>),
     into (read_updating ops 4 (large_update ops)) (\<lambda>v q. q\<lparr>tradable_value := v\<rparr>),
     into (read_updating ops 4 (digit_update ops 4)) (\<lambda>v q. q\<lparr>income := v\<rparr>),
     into (read_value ops 1) (\<lambda>v q. q\<lparr>quarter := v\<rparr>),
     into (read_value ops 4) (\<lambda>v q. q\<lparr>total_value := v\<rparr>),
     into (read_value ops 4) (\<lambda>v q. q\<lparr>tradable_share := v\<rparr>),
     into (read_value ops 4) (\<lambda>v q. q\<lparr>total_share := v\<rparr>),
     into (read_updating ops 4 (digit_update ops 3)) (\<lambda>v q. q\<lparr>pe := v\<rparr>),
     into (read_updating ops 4 (digit_update ops 3)) (\<lambda>v q. q\<lparr>eps := v\<rparr>),
     into (read_updating ops 4 (digit_update ops 3)) (\<lambda>v q. q\<lparr>pe := v\<rparr>),
     into (stream_string ops 2) (\<lambda>v q. q\<lparr>block_code := v\<rparr>),
     into (stream_string ops 2) (\<lambda>v q. q\<lparr>block_name := v\<rparr>),
     into (read_value ops 4) (\<lambda>v q. q\<lparr>block_rise := v\<rparr>)]"

definition quote_key :: "quote_data \<Rightarrow> ('s, stream_exn, bytes) action" where
  \<comment> \<open>\<^verbatim>\<open>substr(2)\<close> throws for strings shorter than 2\<close>
  "quote_key q = (if length (stock_id q) < 2 then throw OutOfRange else ret (drop 2 (stock_id q)))"

section \<open>Files\<close>

partial_function (option) file_loop ::
  "'s input_ops \<Rightarrow> ('s, stream_exn, bytes \<times> 'd) action \<Rightarrow> (bytes \<rightharpoonup> 'd) \<Rightarrow> 's \<Rightarrow>
   ((stream_exn, bytes \<rightharpoonup> 'd) outcome \<times> 's) option" where
  \<comment> \<open>the loop of \<^verbatim>\<open>File::from_stream\<close>; an element comes with its key\<close>
  "file_loop ops elem data s =
     (if is_eof ops s then Some (Val data, s)
      else case elem s of
        (Val (k, e), s') \<Rightarrow> file_loop ops elem (data(k \<mapsto> e)) s'
      | (Throw x, s') \<Rightarrow> Some (Throw x, s')
      | (Abort, s') \<Rightarrow> Some (Abort, s')
      | (Undef, s') \<Rightarrow> Some (Undef, s'))"

definition keyed :: "('s, stream_exn, 'd) action \<Rightarrow> ('d \<Rightarrow> ('s, stream_exn, bytes) action) \<Rightarrow>
    ('s, stream_exn, bytes \<times> 'd) action" where
  "keyed elem key = seq elem (\<lambda>e. seq (key e) (\<lambda>k. ret (k, e)))"

definition file_from_stream ::
  "'s input_ops \<Rightarrow> ('s, stream_exn, 'd) action \<Rightarrow> ('d \<Rightarrow> ('s, stream_exn, bytes) action) \<Rightarrow> 's \<Rightarrow>
   ((stream_exn, file_header \<times> (bytes \<rightharpoonup> 'd)) outcome \<times> 's) option" where
  "file_from_stream ops elem key s =
     (case header_from_stream ops s of
        (Val h, s') \<Rightarrow> (case file_loop ops (keyed elem key) Map.empty s' of
            None \<Rightarrow> None
          | Some (Val m, s'') \<Rightarrow> Some (Val (h, m), s'')
          | Some (Throw x, s'') \<Rightarrow> Some (Throw x, s'')
          | Some (Abort, s'') \<Rightarrow> Some (Abort, s'')
          | Some (Undef, s'') \<Rightarrow> Some (Undef, s''))
      | (Throw x, s') \<Rightarrow> Some (Throw x, s')
      | (Abort, s') \<Rightarrow> Some (Abort, s')
      | (Undef, s') \<Rightarrow> Some (Undef, s'))"

definition read_rtmin_file :: "bytes option \<Rightarrow>
    ((stream_exn, file_header \<times> (bytes \<rightharpoonup> rtmin_data)) outcome \<times> infile) option" where
  "read_rtmin_file content = file_from_stream file_ops (rtmin_from_stream file_ops) rtmin_key (infile_open content)"

definition read_quote_file :: "quote_data \<Rightarrow> bytes option \<Rightarrow>
    ((stream_exn, file_header \<times> (bytes \<rightharpoonup> quote_data)) outcome \<times> infile) option" where
  "read_quote_file q content =
     file_from_stream file_ops (quote_from_stream file_ops q) quote_key (infile_open content)"

end
