(* ===== verification/MarketProps.thy ===== *)
theory MarketProps
  imports Market "HOL-Library.Sublist"
begin

text \<open>
  Composition lemmas for the readers of market data: a sequence of members delivers the record
  when each delivers its value, and advances in the file when one of them does.
\<close>

section \<open>Members\<close>

lemma delivers_into: "delivers good rest m bs v \<Longrightarrow> delivers good rest (into m f r) bs (f v r)"
  unfolding into_def by (rule delivers_map) simp_all

lemma delivers_members:
  "delivers good rest (m r) bs r' \<Longrightarrow> delivers good rest (members ms r') cs r'' \<Longrightarrow>
   delivers good rest (members (m # ms) r) (bs @ cs) r''"
  by (simp add: delivers_seq)

lemma delivers_last: "delivers good rest (m r) bs r' \<Longrightarrow> delivers good rest (members [m] r) bs r'"
  using delivers_members [of good rest m r bs r' "[]" "[]" r'] by (simp add: delivers_ret del: ret_run)

lemma advances_into: "advances good rest k m \<Longrightarrow> advances good rest k (into m f r)"
  unfolding into_def using advances_seq [OF _ advances_ret] by fastforce

lemma advances_members:
  "(\<And>r. advances good rest j (m r)) \<Longrightarrow> (\<And>r. advances good rest k (members ms r)) \<Longrightarrow>
   advances good rest (j + k) (members (m # ms) r)"
  by (simp add: advances_seq)

lemma advances_no_members: "advances good rest 0 (members [] r)"
  by (simp add: advances_ret del: ret_run)

lemma advances_some: "\<forall>m \<in> set ms. \<forall>r. advances good rest 0 (m r) \<Longrightarrow> advances good rest 0 (members ms r)"
proof (induction ms arbitrary: r)
  case Nil
  show ?case by (rule advances_no_members)
next
  case (Cons m ms)
  then have "advances good rest (0 + 0) (members (m # ms) r)"
    by (intro advances_members) auto
  then show ?case by simp
qed

text \<open>
  \<open>tame\<close>: a reader that returns has consumed bytes from the front, and meets undefined behaviour only if
  four bytes of the input are a number that \<^verbatim>\<open>LargeInt\<close> is undefined for.
\<close>

definition undef_large :: "bytes \<Rightarrow> bool" where
  "undef_large bs \<longleftrightarrow> (\<exists>us w vs. bs = us @ le_enc 4 (w :: u32) @ vs \<and> large_int (sint w) = None)"

definition tame :: "('s \<Rightarrow> bool) \<Rightarrow> ('s \<Rightarrow> bytes) \<Rightarrow> ('s, 'e, 'a) action \<Rightarrow> bool" where
  "tame good rest m \<longleftrightarrow> (\<forall>s. good s \<longrightarrow> (case m s of
     (Val v, s') \<Rightarrow> good s' \<and> suffix (rest s') (rest s)
   | (Undef, s') \<Rightarrow> undef_large (rest s)
   | _ \<Rightarrow> True))"

lemma undef_large_suffix: "undef_large as \<Longrightarrow> suffix as bs \<Longrightarrow> undef_large bs"
  unfolding undef_large_def suffix_def by (metis append.assoc)

lemma tame_Val: "tame good rest m \<Longrightarrow> good s \<Longrightarrow> m s = (Val v, s') \<Longrightarrow> good s' \<and> suffix (rest s') (rest s)"
  unfolding tame_def by fastforce

lemma tame_Undef: "tame good rest m \<Longrightarrow> good s \<Longrightarrow> m s = (Undef, s') \<Longrightarrow> undef_large (rest s)"
  unfolding tame_def by fastforce

lemma tameI:
  "(\<And>s v s'. good s \<Longrightarrow> m s = (Val v, s') \<Longrightarrow> good s' \<and> suffix (rest s') (rest s)) \<Longrightarrow>
   (\<And>s s'. good s \<Longrightarrow> m s = (Undef, s') \<Longrightarrow> undef_large (rest s)) \<Longrightarrow> tame good rest m"
  unfolding tame_def by (auto split: prod.splits outcome.splits)

lemma tame_ret: "tame good rest (ret v)"
  by (rule tameI) auto

lemma tame_throw: "tame good rest (throw e)"
  by (rule tameI) auto

lemma tame_seq:
  assumes "tame good rest m" "\<And>a. tame good rest (f a)"
  shows "tame good rest (seq m f)"
proof (rule tameI)
  fix s v s'
  assume s: "good s" "seq m f s = (Val v, s')"
  then obtain a t where t: "m s = (Val a, t)" "f a t = (Val v, s')" by (auto simp: seq_eq_Val)
  with tame_Val [OF assms(1) s(1)] tame_Val [OF assms(2)] show "good s' \<and> suffix (rest s') (rest s)"
    by (metis suffix_order.trans)
next
  fix s s'
  assume s: "good s" "seq m f s = (Undef, s')"
  show "undef_large (rest s)"
  proof (cases "m s")
    case (Pair r t)
    then show ?thesis
      using s tame_Undef [OF assms(1) s(1)] tame_Val [OF assms(1) s(1)] tame_Undef [OF assms(2)]
      by (cases r) (auto simp: seq_def intro: undef_large_suffix [of "rest t"])
  qed
qed

lemma tame_into: "tame good rest m \<Longrightarrow> tame good rest (into m f r)"
  unfolding into_def by (rule tame_seq [OF _ tame_ret])

lemma tame_members: "\<forall>m \<in> set ms. \<forall>r. tame good rest (m r) \<Longrightarrow> tame good rest (members ms r)"
proof (induction ms arbitrary: r)
  case Nil
  have "tame good rest (\<lambda>s. ret r s)" by (rule tame_ret)
  then show ?case by (simp del: ret_run)
next
  case (Cons m ms)
  then show ?case by (auto intro!: tame_seq)
qed

definition large_value :: "u32 \<Rightarrow> int" where
  \<comment> \<open>what four bytes of a \<^verbatim>\<open>LargeInt\<close> stand for, with or without an exponent; see \<open>large_int_value\<close>\<close>
  "large_value w = the (large_int (sint w))"

definition str_bytes :: "bytes \<Rightarrow> bytes" where
  "str_bytes x = le_enc 2 (of_nat (length x) :: u64) @ x"

context input_source
begin

lemma str_read: "length x < 65536 \<Longrightarrow> delivers good rest (stream_string ops 2) (str_bytes x) x"
  unfolding str_bytes_def by (rule str) simp_all

lemma large_read:
  fixes w :: u32
  assumes "large_int (sint w) \<noteq> None"
  shows "delivers good rest (large_update ops) (le_enc 4 w) (large_value w)"
proof -
  have "delivers good rest (\<lambda>s. case large_int (sint w) of None \<Rightarrow> (Undef, s) | Some v \<Rightarrow> (Val v, s)) [] (large_value w)"
    using assms by (auto simp: large_value_def delivers_def)
  from delivers_seq [where f = "\<lambda>w s. case large_int (sint w) of None \<Rightarrow> (Undef, s) | Some v \<Rightarrow> (Val v, s)",
      OF word_value [of 4 w] this] show ?thesis
    by (simp add: large_update_def)
qed

lemma large_advances: "advances good rest 4 (large_update ops)"
proof -
  have "advances good rest 0 (\<lambda>s. case large_int (sint w) of None \<Rightarrow> (Undef, s) | Some v \<Rightarrow> (Val v, s))"
    for w :: u32 by (auto simp: advances_def split: option.splits)
  from advances_seq [OF word_value_advances this, of 4] show ?thesis
    by (simp add: large_update_def)
qed

lemma digit_read:
  "delivers good rest (read_updating ops 4 (digit_update ops n)) (le_enc 4 v) (digit_value n v)"
  by (rule updating, simp) (simp add: digit_update_def delivers_map [OF word_value] del: ret_run)

lemma digit_advances: "advances good rest 4 (digit_update ops n)"
  unfolding digit_update_def using advances_seq [OF word_value_advances advances_ret] by simp

lemma large_member_read:
  "large_int (sint (w :: u32)) \<noteq> None \<Longrightarrow>
   delivers good rest (read_updating ops 4 (large_update ops)) (le_enc 4 w) (large_value w)"
  by (rule updating) (simp_all add: large_read)

lemma pod_bytes:
  assumes "good s" "read_pod ops n s = (Val bs, s')"
  shows "good s' \<and> length bs = n \<and> rest s = bs @ rest s'"
proof -
  have n: "n \<le> length (rest s)"
    using assms by (auto simp: read_pod_def readable throw_overread_def split: if_splits)
  with read_some [OF assms(1)] obtain t where
    "in_read ops n s = (Val (take n (rest s)), t)" "good t" "rest t = drop n (rest s)" by blast
  with assms n show ?thesis by (auto simp: read_pod_def readable)
qed

lemma pod_tame: "tame good rest (read_pod ops n)"
proof (rule tameI)
  fix s bs s'
  assume "good s" "read_pod ops n s = (Val bs, s')"
  from pod_bytes [OF this] show "good s' \<and> suffix (rest s') (rest s)" by (auto simp: suffix_def)
next
  fix s s'
  assume "good s" "read_pod ops n s = (Undef, s')"
  then show "undef_large (rest s)"
    using read_some [of s n] by (auto simp: read_pod_def readable throw_overread_def split: if_splits)
qed

lemma word_value_tame: "tame good rest (read_value ops n)"
  unfolding read_value_def by (rule tame_seq [OF pod_tame tame_ret])

lemma updating_tame: "tame good rest upd \<Longrightarrow> tame good rest (read_updating ops n upd)"
  by (auto simp: tame_def read_updating_def throw_overread_def)

lemma elements_tame: "tame good rest (read_elements ops w dec n acc)"
proof (induction n arbitrary: acc)
  case 0
  have "tame good rest (\<lambda>s. ret acc s)" by (rule tame_ret)
  then show ?case by (simp del: ret_run)
next
  case (Suc n)
  then show ?case by (simp add: tame_seq [OF pod_tame])
qed

lemma str_tame: "tame good rest (stream_string ops k)"
proof -
  have "tame good rest (\<lambda>s. if 1 * unat (z :: u64) > unat (in_readable ops s)
      then throw_overread ops (1 * unat z) s
      else read_elements ops 1 (\<lambda>bs. bs ! 0) (unat z) [] s)" for z
    using elements_tame [of 1 "\<lambda>bs. bs ! 0" "unat z" "[]"] by (auto simp: tame_def throw_overread_def)
  then show ?thesis unfolding stream_string_def read_container_def by (rule tame_seq [OF word_value_tame])
qed

lemma digit_tame: "tame good rest (digit_update ops n)"
  unfolding digit_update_def by (rule tame_seq [OF word_value_tame tame_ret])

text \<open>The one source of undefined behaviour.\<close>

lemma large_tame: "tame good rest (large_update ops)"
proof (rule tameI)
  fix s v s'
  assume s: "good s" "large_update ops s = (Val v, s')"
  then obtain w :: u32 where "read_value ops 4 s = (Val w, s')"
    by (auto simp: large_update_def seq_eq_Val split: option.splits)
  with tame_Val [OF word_value_tame s(1)] show "good s' \<and> suffix (rest s') (rest s)" by blast
next
  fix s s'
  assume s: "good s" "large_update ops s = (Undef, s')"
  obtain r t where r: "read_value ops 4 s = (r :: (_, u32) outcome, t)" by fastforce
  show "undef_large (rest s)"
  proof (cases r)
    case (Val w)
    then have none: "large_int (sint w) = None" using s(2) r by (auto simp: large_update_def seq_def split: option.splits)
    obtain bs where bs: "read_pod ops 4 s = (Val bs, t)" "w = le_dec bs"
      using r Val by (auto simp: read_value_def seq_eq_Val)
    with pod_bytes [OF s(1) bs(1)] have "rest s = [] @ le_enc 4 w @ rest t" by (simp add: le_enc_dec)
    with none show ?thesis unfolding undef_large_def by blast
  next
    case Undef
    then show ?thesis using tame_Undef [OF word_value_tame s(1)] r by blast
  qed (use s r in \<open>auto simp: large_update_def seq_def\<close>)
qed

lemma file_ends:
  assumes "advances good rest k elem" "0 < k" "tame good rest elem"
  shows "good s \<Longrightarrow> \<exists>r s'. file_loop ops elem data s = Some (r, s') \<and> r \<noteq> Abort \<and> (r = Undef \<longrightarrow> undef_large (rest s))"
proof (induction "length (rest s)" arbitrary: s data rule: less_induct)
  case less
  show ?case
  proof (cases "is_eof ops s")
    case True
    then show ?thesis by (simp add: file_loop.simps)
  next
    case False
    obtain r s' where e: "elem s = (r, s')" by (cases "elem s")
    show ?thesis
    proof (cases r)
      case (Val ke)
      obtain k' e' where ke: "ke = (k', e')" by (cases ke)
      have "good s'" "length (rest s') < length (rest s)" "suffix (rest s') (rest s)"
        using e Val assms(1,2) less.prems tame_Val [OF assms(3) less.prems] by (force simp: advances_def)+
      then obtain r' s'' where "file_loop ops elem (data(k' \<mapsto> e')) s' = Some (r', s'')" "r' \<noteq> Abort"
        "r' = Undef \<longrightarrow> undef_large (rest s)"
        using less.hyps undef_large_suffix by metis
      then show ?thesis using False e Val ke by (subst file_loop.simps) simp
    next
      case Abort
      then show ?thesis using e assms(1) less.prems by (auto simp: advances_def)
    next
      case (Throw x)
      then show ?thesis using False e by (subst file_loop.simps) simp
    next
      case Undef
      then show ?thesis using False e tame_Undef [OF assms(3) less.prems] by (subst file_loop.simps) simp
    qed
  qed
qed

lemma file_elements:
  assumes "\<And>x. x \<in> set xs \<Longrightarrow> enc x \<noteq> [] \<and> delivers good rest elem (enc x) (key x, val x)"
  shows "good s \<Longrightarrow> rest s = concat (map enc xs) \<Longrightarrow>
    \<exists>s'. file_loop ops elem data s = Some (Val (data ++ map_of (rev (map (\<lambda>x. (key x, val x)) xs))), s')"
  using assms
proof (induction xs arbitrary: s data)
  case Nil
  then show ?case by (simp add: file_loop.simps eof)
next
  case (Cons x xs)
  have x: "enc x \<noteq> []" "delivers good rest elem (enc x) (key x, val x)" using Cons.prems(3) by auto
  with Cons.prems(1,2) obtain s' where
    s': "elem s = (Val (key x, val x), s')" "good s'" "rest s' = concat (map enc xs)"
    unfolding delivers_def by fastforce
  have "\<not> is_eof ops s" using Cons.prems(1,2) x(1) by (simp add: eof)
  then have "file_loop ops elem data s = file_loop ops elem (data(key x \<mapsto> val x)) s'"
    using s'(1) by (subst file_loop.simps) simp
  moreover obtain s'' where "file_loop ops elem (data(key x \<mapsto> val x)) s' =
      Some (Val (data(key x \<mapsto> val x) ++ map_of (rev (map (\<lambda>x. (key x, val x)) xs))), s'')"
    using Cons.IH [OF s'(2,3)] Cons.prems(3) by (meson list.set_intros(2))
  moreover have "map_of (rev (map (\<lambda>x. (key x, val x)) (x # xs))) =
      [key x \<mapsto> val x] ++ map_of (rev (map (\<lambda>x. (key x, val x)) xs))"
    by (simp only: list.map rev.simps map_of_append) simp
  then have "data ++ map_of (rev (map (\<lambda>x. (key x, val x)) (x # xs))) =
      data(key x \<mapsto> val x) ++ map_of (rev (map (\<lambda>x. (key x, val x)) xs))"
    by (simp only: map_add_assoc map_add_upd map_add_empty)
  ultimately show ?case by simp
qed

end

end
