(* ===== verification/MarketFiles.thy ===== *)
theory MarketFiles
  imports MarketProps
begin

text \<open>
  The file format of \<^verbatim>\<open>mx.cpp\<close>, written out, and what the readers make of it.
\<close>

lemma into_word:
  assumes "input_source ops good rest" "LENGTH('a) \<le> 8 * n"
  shows "delivers good rest (into (read_value ops n) f r) (le_enc n (v :: 'a::len word)) (f v r)"
  using assms by (intro delivers_into input_source.word_value)

lemma into_str:
  assumes "input_source ops good rest" "length x < 65536"
  shows "delivers good rest (into (stream_string ops 2) f r) (str_bytes x) (f x r)"
  using assms by (intro delivers_into input_source.str_read)

lemma into_large:
  assumes "input_source ops good rest" "large_int (sint (w :: u32)) \<noteq> None"
  shows "delivers good rest (into (large_update ops) f r) (le_enc 4 w) (f (large_value w) r)"
  using assms by (intro delivers_into input_source.large_read)

lemma into_large_member:
  assumes "input_source ops good rest" "large_int (sint (w :: u32)) \<noteq> None"
  shows "delivers good rest (into (read_updating ops 4 (large_update ops)) f r) (le_enc 4 w) (f (large_value w) r)"
  using assms by (intro delivers_into input_source.large_member_read)

lemma into_digit:
  assumes "input_source ops good rest"
  shows "delivers good rest (into (read_updating ops 4 (digit_update ops n)) f r) (le_enc 4 v)
    (f (digit_value n v) r)"
  using assms by (intro delivers_into input_source.digit_read)

lemma delivers_eq: "delivers good rest m bs w \<Longrightarrow> w = v \<Longrightarrow> delivers good rest m bs v"
  by simp

lemmas into_members = into_word into_str into_large into_large_member into_digit

section \<open>Minute data\<close>

definition header_bytes :: "file_header \<Rightarrow> bytes" where
  "header_bytes h = str_bytes (data_type h) @ le_enc 4 (fh_date h)"

text \<open>The values of an item and of a stock in the order of the file, and the data they stand for.\<close>

record item_wire =
  w_date_time :: u32
  w_open_price :: u32
  w_highest_price :: u32
  w_lowest_price :: u32
  w_close_price :: u32
  w_avg_price :: u32
  w_volume :: u32
  w_amount :: u32
  w_tick_count :: u32

definition item_encoding :: "item_wire \<Rightarrow> bytes" where
  "item_encoding r = le_enc 4 (w_date_time r) @ le_enc 4 (w_open_price r) @ le_enc 4 (w_highest_price r) @
     le_enc 4 (w_lowest_price r) @ le_enc 4 (w_close_price r) @ le_enc 4 (w_avg_price r) @
     le_enc 4 (w_volume r) @ le_enc 4 (w_amount r) @ le_enc 4 (w_tick_count r)"

definition item_wf :: "item_wire \<Rightarrow> bool" where
  \<comment> \<open>the two \<^verbatim>\<open>LargeInt\<close>s have a value\<close>
  "item_wf r \<longleftrightarrow> large_int (sint (w_volume r)) \<noteq> None \<and> large_int (sint (w_amount r)) \<noteq> None"

definition item_value :: "item_wire \<Rightarrow> rtmin_item" where
  "item_value r = \<lparr>date_time = w_date_time r, open_price = w_open_price r, highest_price = w_highest_price r,
     lowest_price = w_lowest_price r, close_price = w_close_price r, avg_price = w_avg_price r,
     volume = large_value (w_volume r), amount = large_value (w_amount r), tick_count = w_tick_count r\<rparr>"

record rtmin_wire =
  w_rt_stock_id :: bytes
  w_total_num :: u16
  w_call_auction_num :: u16
  w_rt_data :: "item_wire list"

definition rtmin_bytes :: "rtmin_wire \<Rightarrow> bytes" where
  "rtmin_bytes r = str_bytes (w_rt_stock_id r) @ le_enc 2 (w_total_num r) @ le_enc 2 (w_call_auction_num r) @
     le_enc 2 (of_nat (length (w_rt_data r)) :: u16) @ concat (map item_encoding (w_rt_data r))"

definition rtmin_wf :: "rtmin_wire \<Rightarrow> bool" where
  "rtmin_wf r \<longleftrightarrow> length (w_rt_stock_id r) < 65536 \<and> length (w_rt_data r) < 65536 \<and>
     list_all item_wf (w_rt_data r)"

definition rtmin_value :: "rtmin_wire \<Rightarrow> rtmin_data" where
  "rtmin_value r = \<lparr>rt_stock_id = w_rt_stock_id r, total_num = w_total_num r, call_auction_num = w_call_auction_num r,
     rt_data = map item_value (w_rt_data r)\<rparr>"

lemma header_delivers:
  assumes "input_source ops good rest" "length (data_type h) < 65536"
  shows "delivers good rest (header_from_stream ops) (header_bytes h) h"
  unfolding header_from_stream_def header_bytes_def
  apply (rule delivers_eq)
   apply (rule delivers_last delivers_members into_members assms | simp)+
  done

lemma item_delivers:
  assumes "input_source ops good rest" "item_wf r"
  shows "delivers good rest (item_from_stream ops) (item_encoding r) (item_value r)"
proof -
  note wf = assms(2) [unfolded item_wf_def, THEN conjunct1] assms(2) [unfolded item_wf_def, THEN conjunct2]
  show ?thesis
    unfolding item_from_stream_def item_encoding_def item_value_def
    apply (rule delivers_eq)
     apply (rule delivers_last delivers_members into_members assms wf | simp)+
    done
qed

lemma items_deliver:
  assumes "input_source ops good rest" "list_all item_wf rs"
  shows "delivers good rest (read_items ops (length rs) acc) (concat (map item_encoding rs)) (acc @ map item_value rs)"
  using assms(2)
proof (induction rs arbitrary: acc)
  case Nil
  then show ?case by (simp add: delivers_ret del: ret_run)
next
  case (Cons r rs)
  have "delivers good rest (seq (item_from_stream ops) (\<lambda>x. read_items ops (length rs) (acc @ [x])))
      (item_encoding r @ concat (map item_encoding rs)) ((acc @ [item_value r]) @ map item_value rs)"
    by (rule delivers_seq, rule item_delivers [OF assms(1)])
      (use Cons.prems Cons.IH [of "acc @ [item_value r]"] in simp_all)
  then show ?case by simp
qed

lemma rtmin_delivers:
  assumes "input_source ops good rest" "rtmin_wf r"
  shows "delivers good rest (rtmin_from_stream ops) (rtmin_bytes r) (rtmin_value r)"
proof -
  have wf: "length (w_rt_stock_id r) < 65536" "length (w_rt_data r) < 65536" "list_all item_wf (w_rt_data r)"
    using assms(2) by (auto simp: rtmin_wf_def)
  then have n: "unat (of_nat (length (w_rt_data r)) :: u16) = length (w_rt_data r)"
    by (intro unat_of_nat_small) simp
  have "delivers good rest (seq (read_value ops 2 :: (_, _, u16) action) (\<lambda>n. read_items ops (unat n) []))
      (le_enc 2 (of_nat (length (w_rt_data r)) :: u16) @ concat (map item_encoding (w_rt_data r))) (map item_value (w_rt_data r))"
    by (rule delivers_seq, rule input_source.word_value [OF assms(1)])
      (use items_deliver [OF assms(1) wf(3), of "[]"] n in simp_all)
  note data = delivers_into [OF this]
  show ?thesis
    unfolding rtmin_from_stream_def rtmin_bytes_def rtmin_value_def
    apply (rule delivers_eq)
     apply (rule delivers_last delivers_members data into_members assms wf | simp)+
    done
qed

lemma delivers_keyed:
  assumes "delivers good rest elem bs e" "key e = ret k"
  shows "delivers good rest (keyed elem key) bs (k, e)"
proof -
  have "delivers good rest (seq (key e) (\<lambda>k. ret (k, e))) [] (k, e)"
    by (simp add: assms(2) delivers_def seq_def)
  from delivers_seq [where f = "\<lambda>e. seq (key e) (\<lambda>k. ret (k, e))", OF assms(1) this]
  show ?thesis by (simp add: keyed_def)
qed

lemma rtmin_nonempty: "rtmin_bytes r \<noteq> []"
  by (simp add: rtmin_bytes_def str_bytes_def le_enc_def)

text \<open>
  C13: A minute-data file that holds a header and stocks in the format is read completely. The strings fit their
  16-bit counts, as do the numbers of items, and the words of the volumes and amounts are any that \<^verbatim>\<open>LargeInt\<close>
  has a value for, with an exponent or without; prices and times are any words. The
  result is the header and the map from stock ids to the stocks the words stand for, where of several stocks with
  the same id the last one stays.
\<close>

theorem rtmin_file_read:
  assumes "length (data_type h) < 65536" "\<forall>r \<in> set rs. rtmin_wf r"
    and "length (header_bytes h @ concat (map rtmin_bytes rs)) < 2 ^ 64"
  shows "\<exists>f. read_rtmin_file (Some (header_bytes h @ concat (map rtmin_bytes rs))) =
     Some (Val (h, map_of (rev (map (\<lambda>r. (w_rt_stock_id r, rtmin_value r)) rs))), f)"
proof -
  let ?f = "infile_open (Some (header_bytes h @ concat (map rtmin_bytes rs)))"
  note src = infile.input_source_axioms
  have "file_good ?f" using assms(3) by (rule file_open_good)
  with header_delivers [OF src assms(1)] obtain f1 where
    f1: "header_from_stream file_ops ?f = (Val h, f1)" "file_good f1" "file_rest f1 = concat (map rtmin_bytes rs)"
    unfolding delivers_def by (metis file_open_rest)
  have "delivers file_good file_rest (keyed (rtmin_from_stream file_ops) rtmin_key) (rtmin_bytes r) (w_rt_stock_id r, rtmin_value r)"
    if "r \<in> set rs" for r
    using assms(2) that by (intro delivers_keyed rtmin_delivers [OF src]) (auto simp: rtmin_key_def rtmin_value_def)
  then obtain f2 where "file_loop file_ops (keyed (rtmin_from_stream file_ops) rtmin_key) Map.empty f1 =
      Some (Val (Map.empty ++ map_of (rev (map (\<lambda>r. (w_rt_stock_id r, rtmin_value r)) rs))), f2)"
    using infile.file_elements [of rs rtmin_bytes _ w_rt_stock_id rtmin_value f1 Map.empty] f1 rtmin_nonempty by blast
  with f1(1) show ?thesis by (simp add: read_rtmin_file_def file_from_stream_def)
qed

text \<open>One stock with one item, whose volume \<open>5 * 16\<close> has an exponent.\<close>

theorem rtmin_file_read_witness:
  "\<exists>h r f. map volume (rt_data (rtmin_value r)) = [80] \<and>
     read_rtmin_file (Some (header_bytes h @ rtmin_bytes r)) = Some (Val (h, [w_rt_stock_id r \<mapsto> rtmin_value r]), f)"
proof -
  let ?h = "\<lparr>data_type = [109], fh_date = 20140102\<rparr>"
  let ?i = "\<lparr>w_date_time = 1, w_open_price = 2, w_highest_price = 3, w_lowest_price = 1, w_close_price = 2,
     w_avg_price = 2, w_volume = 536870917, w_amount = -5, w_tick_count = 7\<rparr>"
  let ?r = "\<lparr>w_rt_stock_id = [54, 48], w_total_num = 1, w_call_auction_num = 0, w_rt_data = [?i]\<rparr>"
  have v: "large_int (sint (536870917 :: u32)) = Some 80" "large_int (sint (- 5 :: u32)) = Some (- 5)"
    using large_int_value_witness large_int_small [of "- 5"] by simp_all
  have "length (header_bytes ?h @ concat (map rtmin_bytes [?r])) < 2 ^ 64"
    by (simp add: header_bytes_def rtmin_bytes_def str_bytes_def item_encoding_def)
  moreover have "\<forall>r \<in> set [?r]. rtmin_wf r" using v by (simp add: rtmin_wf_def item_wf_def)
  ultimately obtain f where f: "read_rtmin_file (Some (header_bytes ?h @ rtmin_bytes ?r)) =
      Some (Val (?h, [w_rt_stock_id ?r \<mapsto> rtmin_value ?r]), f)"
    using rtmin_file_read [of ?h "[?r]"] by auto
  have "map volume (rt_data (rtmin_value ?r)) = [80]"
    using v by (simp add: rtmin_value_def item_value_def large_value_def)
  then show ?thesis using f by (intro exI [of _ ?h] exI [of _ ?r] exI [of _ f] conjI)
qed

section \<open>Quotes\<close>

text \<open>The values of a quote in the order of the file.\<close>

record quote_wire =
  w_stock_id :: bytes
  w_stock_name :: bytes
  w_current_price :: u32
  w_q_avg_price :: u32
  w_q_open_price :: u32
  w_last_close :: u32
  w_q_highest_price :: u32
  w_q_lowest_price :: u32
  w_volume_ratio :: u32
  w_turn_over_ratio :: u32
  w_q_volume :: u32
  w_q_amount :: u32
  w_zhangting :: u32
  w_dieting :: u32
  w_wai_pan :: u32
  w_nei_pan :: u32
  w_dynamic_pe :: u32
  w_tradable_value :: u32
  w_income :: u32
  w_quarter :: u8
  w_total_value :: u32
  w_tradable_share :: u32
  w_total_share :: u32
  w_pe :: u32
  w_eps :: u32
  w_pb :: u32
  w_block_code :: bytes
  w_block_name :: bytes
  w_block_rise :: u32

definition quote_bytes :: "quote_wire \<Rightarrow> bytes" where
  "quote_bytes w =
     str_bytes (w_stock_id w) @ str_bytes (w_stock_name w) @ le_enc 4 (w_current_price w) @
     le_enc 4 (w_q_avg_price w) @ le_enc 4 (w_q_open_price w) @ le_enc 4 (w_last_close w) @
     le_enc 4 (w_q_highest_price w) @ le_enc 4 (w_q_lowest_price w) @
     le_enc 4 (w_volume_ratio w) @ le_enc 4 (w_turn_over_ratio w) @
     le_enc 4 (w_q_volume w) @
     le_enc 4 (w_q_amount w) @ le_enc 4 (w_zhangting w) @
     le_enc 4 (w_dieting w) @ le_enc 4 (w_wai_pan w) @ le_enc 4 (w_nei_pan w) @
     le_enc 4 (w_dynamic_pe w) @ le_enc 4 (w_tradable_value w) @
     le_enc 4 (w_income w) @ le_enc 1 (w_quarter w) @ le_enc 4 (w_total_value w) @
     le_enc 4 (w_tradable_share w) @ le_enc 4 (w_total_share w) @ le_enc 4 (w_pe w) @
     le_enc 4 (w_eps w) @ le_enc 4 (w_pb w) @ str_bytes (w_block_code w) @
     str_bytes (w_block_name w) @ le_enc 4 (w_block_rise w)"

definition quote_wf :: "quote_wire \<Rightarrow> bool" where
  "quote_wf w \<longleftrightarrow>
     length (w_stock_id w) < 65536 \<and> length (w_stock_name w) < 65536 \<and>
     length (w_block_code w) < 65536 \<and> length (w_block_name w) < 65536 \<and>
     large_int (sint (w_q_volume w)) \<noteq> None \<and> large_int (sint (w_q_amount w)) \<noteq> None \<and>
     large_int (sint (w_tradable_value w)) \<noteq> None"

text \<open>
  A quote in the format is consumed whole, and every member gets its value but two: the
  value behind \<^verbatim>\<open>eps\<close>, which is \<^verbatim>\<open>pb\<close>'s, is stored in \<^verbatim>\<open>pe\<close> a second time; \<^verbatim>\<open>pb\<close> keeps
  whatever was in its memory and the value of \<^verbatim>\<open>pe\<close> is lost.
\<close>

theorem quote_reads_pe_twice:
  assumes "file_good s" "file_rest s = quote_bytes w @ tail" "quote_wf w" "pb q0 = old_pb"
  shows "\<exists>s'. file_rest s' = tail \<and> quote_from_stream file_ops q0 s = (Val \<lparr>
     stock_id = w_stock_id w, stock_name = w_stock_name w,
     current_price = digit_value 3 (w_current_price w),
     q_avg_price = digit_value 4 (w_q_avg_price w),
     q_open_price = digit_value 3 (w_q_open_price w),
     last_close = digit_value 3 (w_last_close w),
     q_highest_price = digit_value 3 (w_q_highest_price w),
     q_lowest_price = digit_value 3 (w_q_lowest_price w),
     volume_ratio = digit_value 4 (w_volume_ratio w), turn_over_ratio = w_turn_over_ratio w,
     q_volume = large_value (w_q_volume w), q_amount = large_value (w_q_amount w),
     zhangting = digit_value 3 (w_zhangting w), dieting = digit_value 3 (w_dieting w),
     wai_pan = w_wai_pan w, nei_pan = w_nei_pan w,
     dynamic_pe = digit_value 3 (w_dynamic_pe w), tradable_value = large_value (w_tradable_value w),
     income = digit_value 4 (w_income w), quarter = w_quarter w,
     total_value = w_total_value w, tradable_share = w_tradable_share w,
     total_share = w_total_share w, pe = digit_value 3 (w_pb w),
     eps = digit_value 3 (w_eps w), pb = old_pb, block_code = w_block_code w,
     block_name = w_block_name w, block_rise = w_block_rise w\<rparr>, s')"
proof -
  note src = infile.input_source_axioms
  have wf: "length (w_stock_id w) < 65536" "length (w_stock_name w) < 65536"
    "length (w_block_code w) < 65536" "length (w_block_name w) < 65536"
    "large_int (sint (w_q_volume w)) \<noteq> None" "large_int (sint (w_q_amount w)) \<noteq> None"
    "large_int (sint (w_tradable_value w)) \<noteq> None"
    using assms(3) by (simp_all add: quote_wf_def)
  have "delivers file_good file_rest (quote_from_stream file_ops q0) (quote_bytes w) \<lparr>
     stock_id = w_stock_id w, stock_name = w_stock_name w,
     current_price = digit_value 3 (w_current_price w),
     q_avg_price = digit_value 4 (w_q_avg_price w),
     q_open_price = digit_value 3 (w_q_open_price w),
     last_close = digit_value 3 (w_last_close w),
     q_highest_price = digit_value 3 (w_q_highest_price w),
     q_lowest_price = digit_value 3 (w_q_lowest_price w),
     volume_ratio = digit_value 4 (w_volume_ratio w), turn_over_ratio = w_turn_over_ratio w,
     q_volume = large_value (w_q_volume w), q_amount = large_value (w_q_amount w),
     zhangting = digit_value 3 (w_zhangting w), dieting = digit_value 3 (w_dieting w),
     wai_pan = w_wai_pan w, nei_pan = w_nei_pan w,
     dynamic_pe = digit_value 3 (w_dynamic_pe w), tradable_value = large_value (w_tradable_value w),
     income = digit_value 4 (w_income w), quarter = w_quarter w,
     total_value = w_total_value w, tradable_share = w_tradable_share w,
     total_share = w_total_share w, pe = digit_value 3 (w_pb w),
     eps = digit_value 3 (w_eps w), pb = old_pb, block_code = w_block_code w,
     block_name = w_block_name w, block_rise = w_block_rise w\<rparr>"
    unfolding quote_from_stream_def quote_bytes_def
    apply (rule delivers_eq)
     apply (rule delivers_last delivers_members into_members src wf | simp)+
    apply (simp add: assms(4))
    done
  with assms(1,2) show ?thesis unfolding delivers_def by blast
qed

definition blank_quote :: quote_data where
  "blank_quote = \<lparr>stock_id = [], stock_name = [], current_price = 0, q_avg_price = 0, q_open_price = 0,
    last_close = 0, q_highest_price = 0, q_lowest_price = 0, volume_ratio = 0,
    turn_over_ratio = 0, q_volume = 0, q_amount = 0, zhangting = 0, dieting = 0, wai_pan = 0,
    nei_pan = 0, dynamic_pe = 0, tradable_value = 0, income = 0, quarter = 0, total_value = 0,
    tradable_share = 0, total_share = 0, pe = 0, eps = 0, pb = 0, block_code = [],
    block_name = [], block_rise = 0\<rparr>"

definition sample_quote :: quote_wire where
  "sample_quote = \<lparr>w_stock_id = [83, 72, 54], w_stock_name = [], w_current_price = 0, w_q_avg_price = 0,
    w_q_open_price = 0, w_last_close = 0, w_q_highest_price = 0, w_q_lowest_price = 0,
    w_volume_ratio = 0, w_turn_over_ratio = 0, w_q_volume = 0, w_q_amount = 0,
    w_zhangting = 0, w_dieting = 0, w_wai_pan = 0, w_nei_pan = 0, w_dynamic_pe = 0,
    w_tradable_value = 0, w_income = 0, w_quarter = 0, w_total_value = 0,
    w_tradable_share = 0, w_total_share = 0, w_pe = 30, w_eps = 0, w_pb = 6,
    w_block_code = [], w_block_name = [], w_block_rise = 0\<rparr>"

theorem quote_reads_pe_twice_witness:
  "\<exists>q s'. quote_from_stream file_ops blank_quote (infile_open (Some (quote_bytes sample_quote @ []))) = (Val q, s')
     \<and> pe q = 2 \<and> pb q = 0 \<and> stock_id q = [83, 72, 54]"
proof -
  let ?s = "infile_open (Some (quote_bytes sample_quote @ []))"
  have wf: "quote_wf sample_quote" by (simp add: quote_wf_def sample_quote_def large_int_small)
  have "file_good ?s"
    by (rule file_open_good) (simp add: quote_bytes_def sample_quote_def str_bytes_def)
  moreover have "file_rest ?s = quote_bytes sample_quote @ []" by (simp only: file_open_rest)
  moreover have "pb blank_quote = 0" by (simp add: blank_quote_def)
  moreover have "digit_value 3 6 = 2"
    using scast_small [of 6] by (simp add: digit_value_def to_float_small)
  ultimately show ?thesis
    using quote_reads_pe_twice [of ?s sample_quote "[]" blank_quote 0] wf
    by (fastforce simp: sample_quote_def)
qed

section \<open>Reading ends\<close>

lemma advances_keyed:
  assumes "advances good rest k elem" "\<And>e. advances good rest 0 (key e)"
  shows "advances good rest k (keyed elem key)"
proof -
  have "advances good rest (0 + 0) (seq (key e) (\<lambda>k. ret (k, e)))" for e
    by (rule advances_seq [OF assms(2) advances_ret])
  then have "advances good rest 0 (seq (key e) (\<lambda>k. ret (k, e)))" for e by simp
  from advances_seq [where f = "\<lambda>e. seq (key e) (\<lambda>k. ret (k, e))", OF assms(1) this] show ?thesis
    by (simp add: keyed_def)
qed

context input_source
begin

lemmas member_advances = advances_into [OF str_advances] advances_into [OF word_value_advances]
  advances_into [OF large_advances] advances_into [OF updating_advances [OF large_advances]]
  advances_into [OF updating_advances [OF digit_advances]]

lemma zero_advances: "advances good rest k m \<Longrightarrow> advances good rest 0 m"
  by (rule advances_weaken) simp_all

lemma header_advances: "advances good rest 2 (header_from_stream ops)"
proof -
  have "advances good rest (2 + 0) (header_from_stream ops)"
    unfolding header_from_stream_def
    by (rule advances_members, rule member_advances, rule advances_some)
      (auto intro: zero_advances member_advances)
  then show ?thesis by simp
qed

lemma item_advances: "advances good rest 0 (item_from_stream ops)"
  unfolding item_from_stream_def
  by (rule advances_some) (auto intro: zero_advances member_advances)

lemma items_advance: "advances good rest 0 (read_items ops n acc)"
proof (induction n arbitrary: acc)
  case 0
  then show ?case by (simp add: advances_ret del: ret_run)
next
  case (Suc n)
  show ?case using advances_seq [OF item_advances Suc] by simp
qed

lemma rtmin_advances: "advances good rest 2 (rtmin_from_stream ops)"
proof -
  have n: "advances good rest 0 (into (seq (read_value ops 2 :: (_, _, u16) action)
      (\<lambda>n. read_items ops (unat n) [])) f r)" for f r
    using advances_seq [where f = "\<lambda>n :: u16. read_items ops (unat n) []", OF word_value_advances items_advance]
    by (intro advances_into zero_advances) blast
  have "advances good rest (2 + 0) (rtmin_from_stream ops)"
    unfolding rtmin_from_stream_def
    by (rule advances_members, rule member_advances, rule advances_some)
      (auto intro: n zero_advances member_advances)
  then show ?thesis by simp
qed

lemma quote_advances: "advances good rest 2 (quote_from_stream ops q)"
proof -
  have "advances good rest (2 + 0) (quote_from_stream ops q)"
    unfolding quote_from_stream_def
    by (rule advances_members, rule member_advances, rule advances_some)
      (auto intro: zero_advances member_advances)
  then show ?thesis by simp
qed

lemmas member_tame = tame_into [OF str_tame] tame_into [OF word_value_tame] tame_into [OF large_tame]
  tame_into [OF updating_tame [OF large_tame]] tame_into [OF updating_tame [OF digit_tame]]

lemma header_tame: "tame good rest (header_from_stream ops)"
  unfolding header_from_stream_def by (rule tame_members) (auto intro: member_tame)

lemma items_tame: "tame good rest (read_items ops n acc)"
proof (induction n arbitrary: acc)
  case 0
  have "tame good rest (\<lambda>s. ret acc s)" by (rule tame_ret)
  then show ?case by (simp del: ret_run)
next
  case (Suc n)
  have "tame good rest (item_from_stream ops)"
    unfolding item_from_stream_def by (rule tame_members) (auto intro: member_tame)
  then show ?case using Suc by (simp add: tame_seq)
qed

lemma rtmin_tame: "tame good rest (rtmin_from_stream ops)"
  unfolding rtmin_from_stream_def
  by (rule tame_members) (auto intro!: member_tame tame_into tame_seq [OF word_value_tame] items_tame)

lemma quote_tame: "tame good rest (quote_from_stream ops q)"
  unfolding quote_from_stream_def by (rule tame_members) (auto intro: member_tame)

lemma keyed_tame: "tame good rest elem \<Longrightarrow> (\<And>e. tame good rest (key e)) \<Longrightarrow> tame good rest (keyed elem key)"
  unfolding keyed_def by (intro tame_seq tame_ret)

lemma whole_file_ends:
  assumes "advances good rest 2 elem" "\<And>e. advances good rest 0 (key e)" "tame good rest elem" "\<And>e. tame good rest (key e)"
    and "good s"
  shows "\<exists>r s'. file_from_stream ops elem key s = Some (r, s') \<and> r \<noteq> Abort \<and> (r = Undef \<longrightarrow> undef_large (rest s))"
proof -
  obtain r s1 where h: "header_from_stream ops s = (r, s1)" by fastforce
  then have g: "r \<noteq> Abort" "\<And>v. r = Val v \<Longrightarrow> good s1"
    using header_advances assms(5) by (auto simp: advances_def)
  show ?thesis
  proof (cases r)
    case (Val v)
    with g have "good s1" by simp
    moreover have "advances good rest 2 (keyed elem key)" by (rule advances_keyed) (rule assms)+
    moreover have "tame good rest (keyed elem key)" by (rule keyed_tame) (rule assms)+
    ultimately obtain r2 s2 where loop: "file_loop ops (keyed elem key) Map.empty s1 = Some (r2, s2)" "r2 \<noteq> Abort"
      "r2 = Undef \<longrightarrow> undef_large (rest s1)"
      using file_ends [where elem = "keyed elem key" and k = 2] by fastforce
    have "suffix (rest s1) (rest s)" using tame_Val [OF header_tame assms(5)] h Val by blast
    with loop h Val show ?thesis
      by (cases r2) (auto simp: file_from_stream_def intro: undef_large_suffix)
  next
    case Undef
    then show ?thesis using h tame_Undef [OF header_tame assms(5)] by (auto simp: file_from_stream_def)
  qed (use h g in \<open>auto simp: file_from_stream_def\<close>)
qed

end

text \<open>
  C15: Reading a market file ends, whatever bytes it holds: the loop until \<^verbatim>\<open>eof()\<close> consumes at
  least the two bytes of a size field per element, so that it returns the data or leaves with
  an exception, never by an \<^verbatim>\<open>assert\<close>. Undefined behaviour is only that of \<^verbatim>\<open>LargeInt\<close>: if the read meets
  any, the file holds four bytes in a row that are a number \<^verbatim>\<open>LargeInt::update\<close> is undefined for. In a file
  without such bytes nothing is read behind the end or from a stream that has failed, which would be undefined.
\<close>

theorem market_files_end:
  assumes "length bs < 2 ^ 64"
  shows "(\<exists>r f. read_rtmin_file (Some bs) = Some (r, f) \<and> r \<noteq> Abort \<and> (r = Undef \<longrightarrow> undef_large bs)) \<and>
    (\<exists>r f. read_quote_file q (Some bs) = Some (r, f) \<and> r \<noteq> Abort \<and> (r = Undef \<longrightarrow> undef_large bs))"
proof -
  have k: "advances file_good file_rest 0 (rtmin_key e)" "advances file_good file_rest 0 (quote_key e')" for e e'
    by (auto simp: advances_def rtmin_key_def quote_key_def)
  have t: "tame file_good file_rest (rtmin_key e)" "tame file_good file_rest (quote_key e')" for e e'
    unfolding rtmin_key_def quote_key_def by (simp_all add: tame_ret tame_throw del: ret_run throw_run)
  have g: "file_good (infile_open (Some bs))" using assms by (rule file_open_good)
  note ends = infile.whole_file_ends [OF _ _ _ _ g, unfolded file_open_rest]
  show ?thesis
    unfolding read_rtmin_file_def read_quote_file_def
    by (intro conjI ends infile.rtmin_advances infile.quote_advances infile.rtmin_tame infile.quote_tame k t)
qed

theorem market_files_end_witness:
  "(\<exists>r f. read_rtmin_file (Some [1, 0]) = Some (r, f) \<and> r \<noteq> Abort \<and> r \<noteq> Undef) \<and>
   (\<exists>r f. read_quote_file blank_quote (Some [1, 0]) = Some (r, f) \<and> r \<noteq> Abort \<and> r \<noteq> Undef)"
proof -
  have "\<not> undef_large [1, 0]" by (auto simp: undef_large_def dest: arg_cong [of _ _ length])
  then show ?thesis using market_files_end [of "[1, 0]" blank_quote] by auto
qed

end
