(* ===== verification/BlockFile.thy ===== *)
theory BlockFile
  imports StreamProps
begin

text \<open>
  \<^verbatim>\<open>cpp/money/src/rtmin.cpp\<close> and \<^verbatim>\<open>parser.h\<close>: data files in blocks of 8192 bytes. A header of a
  summary and a table of 21840 goods is followed by chains of blocks; each block starts with
  the id of the next one. Records (\<^verbatim>\<open>RtMin\<close>, 88 bytes packed) are kept as their bytes.
\<close>

section \<open>Layout\<close>

abbreviation CODE_NAME_LENGTH :: nat where "CODE_NAME_LENGTH \<equiv> 32"
abbreviation DF_BLOCK_SIZE :: nat where "DF_BLOCK_SIZE \<equiv> 8192"
abbreviation DF_MAX_GOODSNUM :: nat where "DF_MAX_GOODSNUM \<equiv> 21840"
abbreviation SUMMARY_SIZE :: nat where "SUMMARY_SIZE \<equiv> 256"
abbreviation GOODS_SIZE :: nat where "GOODS_SIZE \<equiv> 72"
abbreviation RTMIN_SIZE :: nat where "RTMIN_SIZE \<equiv> 88"

definition HEADER_SIZE :: nat where
  "HEADER_SIZE = SUMMARY_SIZE + DF_MAX_GOODSNUM * GOODS_SIZE"

definition nr_per_block :: nat where
  "nr_per_block = (DF_BLOCK_SIZE - 4) div RTMIN_SIZE"

definition u32_at :: "nat \<Rightarrow> bytes \<Rightarrow> u32" where
  "u32_at i bs = le_dec (take 4 (drop i bs))"

record summary_info =
  s_header :: bytes
  version :: u32
  nr_total_blocks :: u32
  nr_used_blocks :: u32
  nr_goods :: u32

definition summary_of :: "bytes \<Rightarrow> summary_info" where
  "summary_of bs = \<lparr>s_header = take 32 bs, version = u32_at 32 bs, nr_total_blocks = u32_at 36 bs,
     nr_used_blocks = u32_at 40 bs, nr_goods = u32_at 44 bs\<rparr>"

record goods_info =
  g_name :: bytes
  nr_data :: u32
  first_block_id :: u32
  next_block_id :: u32
  last_block_id :: u32

definition goods_of :: "bytes \<Rightarrow> goods_info" where
  "goods_of bs = \<lparr>g_name = take CODE_NAME_LENGTH bs, nr_data = u32_at 32 bs, first_block_id = u32_at 36 bs,
     next_block_id = u32_at 40 bs, last_block_id = u32_at 44 bs\<rparr>"

definition c_string :: "bytes \<Rightarrow> bytes option" where
  \<comment> \<open>the characters before the first NUL of an array; without one, reading goes on behind it\<close>
  "c_string bs = (if 0 \<in> set bs then Some (takeWhile (\<lambda>b. b \<noteq> 0) bs) else None)"

section \<open>Reading a chain of blocks\<close>

definition read_block :: "bytes \<Rightarrow> u32 \<Rightarrow> bytes option" where
  \<comment> \<open>\<^verbatim>\<open>seekg\<close> and \<^verbatim>\<open>read\<close>; a block that is not wholly in the file leaves the local array undefined\<close>
  "read_block content bid =
     (let start = unat bid * DF_BLOCK_SIZE in
      if start + DF_BLOCK_SIZE \<le> length content then Some (take DF_BLOCK_SIZE (drop start content)) else None)"

definition block_next :: "bytes \<Rightarrow> u32" where
  "block_next block = u32_at 0 block"

definition block_records :: "nat \<Rightarrow> bytes \<Rightarrow> bytes list" where
  \<comment> \<open>the first \<open>n\<close> records of a block\<close>
  "block_records n block = map (\<lambda>i. take RTMIN_SIZE (drop (4 + i * RTMIN_SIZE) block)) [0..<n]"

lemma nr_per_block_eq: "nr_per_block = 93"
  by (simp add: nr_per_block_def)

function read_chain :: "bytes \<Rightarrow> u32 \<Rightarrow> u32 \<Rightarrow> nat \<Rightarrow> bytes list \<Rightarrow> bytes list option" where
  \<comment> \<open>the loop \<^verbatim>\<open>while (nr_data)\<close>; \<open>None\<close>: the block is undefined\<close>
  "read_chain content last_id block_id n acc =
     (if n = 0 then Some acc
      else case read_block content block_id of
        None \<Rightarrow> None
      | Some block \<Rightarrow>
          let nr_read = min n nr_per_block; next_id = block_next block;
              acc' = acc @ block_records nr_read block
          in if next_id = 0 \<or> next_id > last_id then Some acc'
             else read_chain content last_id next_id (n - nr_read) acc')"
  by pat_completeness auto
termination
  by (relation "measure (\<lambda>(_, _, _, n, _). n)") (auto simp: nr_per_block_eq)

declare read_chain.simps [simp del]

section \<open>Reading a file\<close>

type_synonym dat = "bytes \<rightharpoonup> bytes list"

definition add_records :: "bytes \<Rightarrow> bytes list \<Rightarrow> dat \<Rightarrow> dat" where
  \<comment> \<open>\<^verbatim>\<open>back_inserter(file.data[x.name])\<close>\<close>
  "add_records k rs m = m(k \<mapsto> (case m k of None \<Rightarrow> [] | Some old \<Rightarrow> old) @ rs)"

primrec read_goods :: "bytes \<Rightarrow> nat \<Rightarrow> nat \<Rightarrow> dat \<Rightarrow> (inbuf, stream_exn, dat) action" where
  \<comment> \<open>the loop over the goods from index \<open>i\<close>; \<^verbatim>\<open>goods\<close> has \<open>DF_MAX_GOODSNUM\<close> elements\<close>
  "read_goods content 0 i data = ret data"
| "read_goods content (Suc left) i data =
     seq (defined_when (\<lambda>_. i < DF_MAX_GOODSNUM)) (\<lambda>_.
     seq (read_pod buffer_ops GOODS_SIZE) (\<lambda>bs.
       let x = goods_of bs in
       if nr_data x = 0 then read_goods content left (i + 1) data
       else case c_string (g_name x) of
         None \<Rightarrow> (\<lambda>s. (Undef, s))
       | Some name \<Rightarrow>
           (case read_chain content (last_block_id x) (first_block_id x) (unat (nr_data x)) [] of
              None \<Rightarrow> (\<lambda>s. (Undef, s))
            | Some rs \<Rightarrow> read_goods content left (i + 1) (add_records name rs data))))"

definition read_dat :: "u64 \<Rightarrow> bytes option \<Rightarrow> (stream_exn, bool \<times> dat) outcome" where
  \<comment> \<open>\<open>junk\<close> is the uninitialised \<^verbatim>\<open>offset_\<close> of the \<^verbatim>\<open>InputBuffer\<close>. For a file that cannot be opened
    \<^verbatim>\<open>tellg\<close> is \<open>-1\<close>, as unsigned not less than the header size; what is read then is undefined\<close>
  "read_dat junk content = (case content of
     None \<Rightarrow> Undef
   | Some bs \<Rightarrow>
       if length bs < HEADER_SIZE then Val (False, Map.empty)
       else fst (seq (read_pod buffer_ops SUMMARY_SIZE) (\<lambda>sb.
              seq (read_goods bs (unat (nr_goods (summary_of sb))) 0 Map.empty) (\<lambda>m. ret (True, m)))
            (inbuf_new (take HEADER_SIZE bs) (of_nat HEADER_SIZE) junk)))"

text \<open>\<^verbatim>\<open>parser.h\<close> has the same loop but collects all records in one vector.\<close>

primrec read_goods_flat :: "bytes \<Rightarrow> nat \<Rightarrow> nat \<Rightarrow> bytes list \<Rightarrow> (inbuf, stream_exn, bytes list) action" where
  "read_goods_flat content 0 i data = ret data"
| "read_goods_flat content (Suc left) i data =
     seq (defined_when (\<lambda>_. i < DF_MAX_GOODSNUM)) (\<lambda>_.
     seq (read_pod buffer_ops GOODS_SIZE) (\<lambda>bs.
       let x = goods_of bs in
       if nr_data x = 0 then read_goods_flat content left (i + 1) data
       else case read_chain content (last_block_id x) (first_block_id x) (unat (nr_data x)) data of
              None \<Rightarrow> (\<lambda>s. (Undef, s))
            | Some data' \<Rightarrow> read_goods_flat content left (i + 1) data'))"

definition read_flat_dat :: "u64 \<Rightarrow> bytes option \<Rightarrow> (stream_exn, bool \<times> bytes list) outcome" where
  "read_flat_dat junk content = (case content of
     None \<Rightarrow> Undef
   | Some bs \<Rightarrow>
       if length bs < HEADER_SIZE then Val (False, [])
       else fst (seq (read_pod buffer_ops SUMMARY_SIZE) (\<lambda>sb.
              seq (read_goods_flat bs (unat (nr_goods (summary_of sb))) 0 []) (\<lambda>rs. ret (True, rs)))
            (inbuf_new (take HEADER_SIZE bs) (of_nat HEADER_SIZE) junk)))"

section \<open>The name of the output file\<close>

definition rfind :: "'a \<Rightarrow> 'a list \<Rightarrow> nat option" where
  "rfind c s = (let is = filter (\<lambda>i. s ! i = c) [0..<length s] in if is = [] then None else Some (last is))"

definition json_name :: "string \<Rightarrow> string" where
  \<comment> \<open>\<^verbatim>\<open>index - slash - 1\<close> is unsigned: a dot before the slash makes it huge\<close>
  "json_name filename = (case (rfind CHR ''/'' filename, rfind CHR ''.'' filename) of
       (Some slash, Some index) \<Rightarrow>
         if index > slash then take (index - slash - 1) (drop (slash + 1) filename)
         else drop (slash + 1) filename
     | (Some slash, None) \<Rightarrow> drop (slash + 1) filename
     | (None, Some index) \<Rightarrow> take index filename
     | (None, None) \<Rightarrow> filename) @ ''.json''"

section \<open>Chains\<close>

text \<open>\<open>linked content last_id ids\<close>: the blocks \<open>ids\<close> are in the file and linked in this order.\<close>

fun linked :: "bytes \<Rightarrow> u32 \<Rightarrow> u32 list \<Rightarrow> bool" where
  "linked content last_id [] = False"
| "linked content last_id [b] = (read_block content b \<noteq> None)"
| "linked content last_id (b # b' # ids) =
     (map_option block_next (read_block content b) = Some b' \<and> b' \<noteq> 0 \<and> b' \<le> last_id
      \<and> linked content last_id (b' # ids))"

definition records_of :: "bytes \<Rightarrow> u32 \<Rightarrow> bytes list" where
  "records_of content b = (case read_block content b of None \<Rightarrow> [] | Some block \<Rightarrow> block_records nr_per_block block)"

lemma take_block_records: "n \<le> m \<Longrightarrow> take n (block_records m block) = block_records n block"
  by (simp add: block_records_def take_map take_upt)

lemma block_records_0 [simp]: "block_records 0 block = []"
  by (simp add: block_records_def)

lemma length_records: "read_block content b \<noteq> None \<Longrightarrow> length (records_of content b) = nr_per_block"
  by (auto simp: records_of_def block_records_def)

lemma chain_collects:
  "linked content last_id (b # ids) \<Longrightarrow> n \<le> nr_per_block * length (b # ids) \<Longrightarrow>
   read_chain content last_id b n acc = Some (acc @ take n (concat (map (records_of content) (b # ids))))"
proof (induction ids arbitrary: b n acc)
  case Nil
  then obtain block where block: "read_block content b = Some block" by auto
  have n: "min n nr_per_block = n" "n - n = 0" using Nil.prems(2) by simp_all
  show ?case
    using block n take_block_records [of n nr_per_block block] Nil.prems(2)
    by (simp add: read_chain.simps [of content last_id b] read_chain.simps [of content last_id _ 0]
        Let_def records_of_def)
next
  case (Cons b' ids)
  then obtain block where block: "read_block content b = Some block" "block_next block = b'"
    and b': "b' \<noteq> 0" "\<not> b' > last_id" "linked content last_id (b' # ids)"
    by (auto simp: not_less)
  have len: "length (records_of content b) = nr_per_block" using block by (simp add: length_records)
  show ?case
  proof (cases "n = 0")
    case True
    then show ?thesis by (simp add: read_chain.simps)
  next
    case False
    let ?k = "min n nr_per_block"
    have "read_chain content last_id b n acc =
        read_chain content last_id b' (n - ?k) (acc @ block_records ?k block)"
      using False block b' by (simp add: read_chain.simps [of content last_id b] Let_def)
    also have "\<dots> = Some ((acc @ block_records ?k block) @
        take (n - ?k) (concat (map (records_of content) (b' # ids))))"
      using Cons.prems(2) by (intro Cons.IH b') auto
    also have "block_records ?k block = take n (records_of content b)"
      using block take_block_records [of n nr_per_block block] len
      by (cases "n \<le> nr_per_block") (simp_all add: records_of_def min_absorb1 min_absorb2)
    finally show ?thesis using len by (simp add: min_def split: if_splits)
  qed
qed

text \<open>
  C16: A chain of blocks that are in the file and linked is read in order: if the blocks hold at
  least \<open>n\<close> records, the loop returns exactly the first \<open>n\<close> records of the concatenated blocks.
\<close>

theorem read_chain_collects:
  assumes "linked content last_id (b # ids)" "n \<le> 93 * length (b # ids)"
  shows "read_chain content last_id b n [] = Some (take n (concat (map (records_of content) (b # ids))))"
  using chain_collects [OF assms(1), of n "[]"] assms(2) by (simp add: nr_per_block_eq)

theorem read_chain_collects_witness:
  "read_chain (replicate 4 0 @ replicate 8188 7) 0 0 1 [] = Some [replicate 88 7]"
proof -
  let ?c = "replicate 4 0 @ replicate 8188 7 :: bytes"
  have block: "read_block ?c 0 = Some ?c" by (simp add: read_block_def)
  have "take 1 (records_of ?c 0) = [replicate 88 7]"
    using take_block_records [of 1 nr_per_block ?c]
    by (simp add: records_of_def block nr_per_block_eq) (simp add: block_records_def)
  with read_chain_collects [of ?c 0 0 "[]" 1] block show ?thesis by simp
qed

section \<open>What the InputBuffer makes of the header\<close>

lemma header_pod:
  assumes "HEADER_SIZE \<le> length bs" "n \<le> HEADER_SIZE"
  shows "read_pod buffer_ops n (inbuf_new (take HEADER_SIZE bs) (of_nat HEADER_SIZE) 0) =
    (Val (take n bs), inbuf_new (take HEADER_SIZE bs) (of_nat HEADER_SIZE) 0)"
  using assms
  by (simp add: read_pod_def buffer_ops_def ib_read_def ib_readable_def inbuf_new_def HEADER_SIZE_def min_def)

lemma add_records_repeat:
  "(add_records k rs ^^ n) (m(k \<mapsto> old)) = m(k \<mapsto> old @ concat (replicate n rs))"
proof (induction n arbitrary: old)
  case (Suc n)
  have "add_records k rs (m(k \<mapsto> old)) = m(k \<mapsto> old @ rs)" by (simp add: add_records_def)
  with Suc show ?case by (simp add: funpow_Suc_right del: funpow.simps fun_upd_apply)
qed simp

lemma add_records_times: "(add_records k rs ^^ Suc n) Map.empty = [k \<mapsto> concat (replicate (Suc n) rs)]"
  using add_records_repeat [of n k rs Map.empty rs] by (simp add: funpow_Suc_right add_records_def del: funpow.simps)

lemma goods_of_header:
  "nr_data (goods_of (take GOODS_SIZE bs)) = version (summary_of (take SUMMARY_SIZE bs))"
  "first_block_id (goods_of (take GOODS_SIZE bs)) = nr_total_blocks (summary_of (take SUMMARY_SIZE bs))"
  "last_block_id (goods_of (take GOODS_SIZE bs)) = nr_goods (summary_of (take SUMMARY_SIZE bs))"
  "g_name (goods_of (take GOODS_SIZE bs)) = take 32 bs"
  by (simp_all add: goods_of_def summary_of_def u32_at_def drop_take min_def)

lemma read_goods_repeats:
  assumes "HEADER_SIZE \<le> length bs" "s = inbuf_new (take HEADER_SIZE bs) (of_nat HEADER_SIZE) 0"
    and "g = goods_of (take GOODS_SIZE bs)" "read_goods bs left i data s = (Val m, s')" "0 < left"
  shows "nr_data g = 0 \<and> m = data \<or>
    (\<exists>name rs. nr_data g \<noteq> 0 \<and> c_string (g_name g) = Some name \<and>
      read_chain bs (last_block_id g) (first_block_id g) (unat (nr_data g)) [] = Some rs \<and>
      m = (add_records name rs ^^ left) data)"
  using assms(4,5)
proof (induction left arbitrary: i data)
  case (Suc left)
  have pod: "read_pod buffer_ops GOODS_SIZE s = (Val (take GOODS_SIZE bs), s)"
    using assms(1,2) header_pod [of bs GOODS_SIZE] by (simp add: HEADER_SIZE_def)
  have i: "i < DF_MAX_GOODSNUM" using Suc.prems(1) by (simp add: seq_def split: if_splits)
  show ?case
  proof (cases "nr_data g = 0")
    case True
    with Suc.prems(1) i pod assms(3) have r: "read_goods bs left (i + 1) data s = (Val m, s')"
      by (simp add: seq_Val Let_def)
    show ?thesis
    proof (cases left)
      case 0
      with r True show ?thesis by simp
    next
      case (Suc l)
      with Suc.IH [OF r] True show ?thesis by auto
    qed
  next
    case False
    with Suc.prems(1) i pod assms(3) obtain name rs where
      name: "c_string (g_name g) = Some name"
      and rs: "read_chain bs (last_block_id g) (first_block_id g) (unat (nr_data g)) [] = Some rs"
      and r: "read_goods bs left (i + 1) (add_records name rs data) s = (Val m, s')"
      by (auto simp: seq_Val Let_def split: option.splits)
    show ?thesis
    proof (cases left)
      case 0
      with False r name rs show ?thesis by simp
    next
      case (Suc l)
      with Suc.IH [OF r] False name rs show ?thesis by (auto simp: funpow_Suc_right simp del: funpow.simps)
    qed
  qed
qed simp

text \<open>
  The table of goods is never read. As the \<^verbatim>\<open>InputBuffer\<close> does not move, even with
  \<^verbatim>\<open>offset_\<close> 0 every \<^verbatim>\<open>GoodsInfo\<close> is decoded from the bytes of the summary: the version is
  taken for \<^verbatim>\<open>nr_data\<close>, the total number of blocks for the first block and the number of goods
  for the last one; whatever is returned is one chain, repeated once per good under one name.
\<close>

theorem dat_goods_from_summary:
  assumes "read_dat 0 (Some bs) = Val (True, m)" "sm = summary_of (take 256 bs)"
  shows "m = Map.empty \<or>
    (\<exists>name rs. c_string (take 32 bs) = Some name \<and>
       read_chain bs (nr_goods sm) (nr_total_blocks sm) (unat (version sm)) [] = Some rs \<and>
       m = [name \<mapsto> concat (replicate (unat (nr_goods sm)) rs)])"
proof -
  let ?s = "inbuf_new (take HEADER_SIZE bs) (of_nat HEADER_SIZE) 0"
  have len: "HEADER_SIZE \<le> length bs" using assms(1) by (auto simp: read_dat_def split: if_splits)
  then have pod: "read_pod buffer_ops SUMMARY_SIZE ?s = (Val (take SUMMARY_SIZE bs), ?s)"
    using header_pod [of bs SUMMARY_SIZE] by (simp add: HEADER_SIZE_def)
  obtain r s' where r: "read_goods bs (unat (nr_goods sm)) 0 Map.empty ?s = (r, s')" by fastforce
  with assms len pod have r': "read_goods bs (unat (nr_goods sm)) 0 Map.empty ?s = (Val m, s')"
    by (cases r) (simp_all add: read_dat_def seq_def)
  show ?thesis
  proof (cases "unat (nr_goods sm)")
    case 0
    with r' show ?thesis by simp
  next
    case (Suc k)
    from read_goods_repeats [OF len refl refl r'] Suc show ?thesis
      unfolding goods_of_header assms(2) [symmetric] by (metis add_records_times zero_less_Suc)
  qed
qed

lemma push_zeros [simp]: "(push_bit k ^^ n) (0 :: 'a::len word) = 0"
  by (induction n) auto

definition sample_dat :: bytes where
  "sample_dat = ([97] @ replicate 31 0 @ [1, 0, 0, 0] @ replicate 8 0 @ [2, 0, 0, 0]) @ replicate (HEADER_SIZE - 48) 0"

lemma sample_dat_facts:
  shows "length sample_dat = HEADER_SIZE" "HEADER_SIZE \<le> length sample_dat"
    "summary_of (take 256 sample_dat) = \<lparr>s_header = [97] @ replicate 31 0, version = 1, nr_total_blocks = 0,
       nr_used_blocks = 0, nr_goods = 2\<rparr>"
    "c_string (take 32 sample_dat) = Some [97]"
  by (simp_all add: sample_dat_def HEADER_SIZE_def summary_of_def u32_at_def c_string_def le_dec_def
      take_Cons' drop_Cons')

lemma sample_dat_chain:
  "\<exists>rs. read_chain sample_dat 2 0 1 [] = Some rs \<and> length rs = 1"
proof -
  have b: "read_block sample_dat 0 = Some (take DF_BLOCK_SIZE sample_dat)"
    by (simp add: read_block_def sample_dat_facts(1) HEADER_SIZE_def)
  have "block_next (take DF_BLOCK_SIZE sample_dat) = 97"
    by (simp add: block_next_def u32_at_def sample_dat_def le_dec_def take_Cons' min_def HEADER_SIZE_def)
  with b show ?thesis
    by (subst read_chain.simps) (simp add: nr_per_block_eq block_records_def)
qed

theorem dat_goods_from_summary_witness:
  "\<exists>r. read_dat 0 (Some sample_dat) = Val (True, [[97] \<mapsto> [r, r]])"
proof -
  let ?s = "inbuf_new (take HEADER_SIZE sample_dat) (of_nat HEADER_SIZE) 0"
  obtain rs where rs: "read_chain sample_dat 2 0 1 [] = Some rs" "length rs = 1"
    using sample_dat_chain by blast
  have pods: "read_pod buffer_ops SUMMARY_SIZE ?s = (Val (take SUMMARY_SIZE sample_dat), ?s)"
    "read_pod buffer_ops GOODS_SIZE ?s = (Val (take GOODS_SIZE sample_dat), ?s)"
    using header_pod [OF sample_dat_facts(2)] by (simp_all add: HEADER_SIZE_def)
  note g = goods_of_header [of sample_dat, unfolded sample_dat_facts, simplified]
  have two: "(2::nat) = Suc (Suc 0)" by simp
  have "\<exists>m. read_goods sample_dat 2 0 Map.empty ?s = (Val m, ?s) \<and> m \<noteq> Map.empty"
    unfolding two
    using rs(1) pods(2) sample_dat_facts(4) by (simp add: seq_Val Let_def g add_records_def)
  then obtain m where m: "read_dat 0 (Some sample_dat) = Val (True, m)" "m \<noteq> Map.empty"
    using pods(1) sample_dat_facts by (auto simp: read_dat_def seq_Val)
  from dat_goods_from_summary [OF m(1) refl] rs m(2)
  have "m = [[97] \<mapsto> concat (replicate 2 rs)]" by (auto simp: sample_dat_facts)
  moreover obtain r where "rs = [r]" using rs(2) by (auto simp: length_Suc_conv)
  ultimately show ?thesis using m(1) by (auto simp: two simp del: fun_upd_apply)
qed

end
