(* ===== verification/BitStream.thy ===== *)
theory BitStream
  imports Prelude
begin

text \<open>
  \<^verbatim>\<open>cpp/utils/bitstream.h\<close>: a stream of bits over an array of \<^verbatim>\<open>SIZE\<close> bytes, the length of the
  list. The parameter \<open>little\<close> is the template argument \<^verbatim>\<open>USE_LITTLE\<close>. The \<^verbatim>\<open>int\<close> values are 32-bit
  words, shifts as compiled; \<open>None\<close> is an access outside the array or an undefined shift width.
  Offsets count bits and are natural numbers.
\<close>

record bitstream =
  bs_buf :: bytes
  bs_nbits :: nat
  bs_off :: nat

definition bitstream_new :: "bytes \<Rightarrow> bitstream" where
  "bitstream_new junk = \<lparr>bs_buf = junk, bs_nbits = 0, bs_off = 0\<rparr>"

definition chunk_mask :: "nat \<Rightarrow> nat \<Rightarrow> u32" where
  "chunk_mask used n = push_bit (used + n) 1 - push_bit used 1"

function write_loop :: "bool \<Rightarrow> u32 \<Rightarrow> nat \<Rightarrow> nat \<Rightarrow> bytes \<Rightarrow> nat \<Rightarrow> (bytes \<times> nat) option" where
  \<comment> \<open>\<^verbatim>\<open>value << used\<close> may shift bits of an \<^verbatim>\<open>int\<close> out at the top: they are dropped, as GCC documents and C++20
    prescribes; earlier standards leave that shift undefined\<close>
  "write_loop little n bits i buf off =
     (if i < bits then
        let idx = off div 8; used = off mod 8; nwrite = min (8 - used) (bits - i);
            mask = chunk_mask used nwrite;
            value = (if little then drop_bit (bits - i - nwrite) n else drop_bit i n)
        in if idx < length buf then
             let cleared = (ucast (buf ! idx) :: u32) AND NOT mask;
                 byte = cleared OR (push_bit used value AND mask)
             in write_loop little n bits (i + nwrite) (buf[idx := ucast byte]) (off + nwrite)
           else None
      else Some (buf, off))"
  by pat_completeness auto
termination
  by (relation "measure (\<lambda>(_, _, bits, i, _). bits - i)") auto

function read_loop :: "bool \<Rightarrow> nat \<Rightarrow> nat \<Rightarrow> u32 \<Rightarrow> bytes \<Rightarrow> nat \<Rightarrow> (u32 \<times> nat) option" where
  "read_loop little bits i n buf off =
     (if i < bits then
        let idx = off div 8; used = off mod 8; nread = min (8 - used) (bits - i);
            mask = chunk_mask used nread
        in if idx < length buf then
             let value = drop_bit used ((ucast (buf ! idx) :: u32) AND mask);
                 n' = (if little then push_bit nread n OR value else n OR push_bit i value)
             in read_loop little bits (i + nread) n' buf (off + nread)
           else None
      else Some (n, off))"
  by pat_completeness auto
termination
  by (relation "measure (\<lambda>(_, bits, i, _). bits - i)") auto

declare write_loop.simps [simp del] read_loop.simps [simp del]

definition bs_write :: "bool \<Rightarrow> u32 \<Rightarrow> nat \<Rightarrow> bitstream \<Rightarrow> bitstream option" where
  \<comment> \<open>\<^verbatim>\<open>(1 << bits) - 1\<close> is defined for up to 30 bits\<close>
  "bs_write little n bits s =
     (if bits > 30 then None
      else case write_loop little (n AND (push_bit bits 1 - 1)) bits 0 (bs_buf s) (bs_off s) of
        None \<Rightarrow> None
      | Some (buf, off) \<Rightarrow> Some (s\<lparr>bs_buf := buf, bs_off := off,
          bs_nbits := (if bs_nbits s < off then off else bs_nbits s)\<rparr>))"

definition bs_read :: "bool \<Rightarrow> nat \<Rightarrow> bitstream \<Rightarrow> (u32 \<times> bitstream) option" where
  \<comment> \<open>\<^verbatim>\<open>value << i\<close> is defined for \<open>i < 32\<close>\<close>
  "bs_read little bits s =
     (if bits > 32 \<and> \<not> little then None
      else case read_loop little bits 0 0 (bs_buf s) (bs_off s) of
        None \<Rightarrow> None
      | Some (n, off) \<Rightarrow> Some (n, s\<lparr>bs_off := off\<rparr>))"

definition bs_seek :: "nat \<Rightarrow> bitstream \<Rightarrow> bitstream" where
  "bs_seek off s = s\<lparr>bs_off := off\<rparr>"

definition bs_append :: "bool \<Rightarrow> u32 \<Rightarrow> nat \<Rightarrow> bitstream \<Rightarrow> bitstream option" where
  "bs_append little n bits s = bs_write little n bits (bs_seek (bs_nbits s) s)"

fun bs_write_raw :: "bool \<Rightarrow> bytes \<Rightarrow> bitstream \<Rightarrow> bitstream option" where
  \<comment> \<open>an array by its bytes; a \<^verbatim>\<open>char\<close> is widened with its sign\<close>
  "bs_write_raw little [] s = Some s"
| "bs_write_raw little (b # raw) s =
     Option.bind (bs_write little (scast b) 8 s) (bs_write_raw little raw)"

fun bs_read_raw :: "bool \<Rightarrow> nat \<Rightarrow> bitstream \<Rightarrow> (bytes \<times> bitstream) option" where
  "bs_read_raw little 0 s = Some ([], s)"
| "bs_read_raw little (Suc n) s =
     Option.bind (bs_read little 8 s) (\<lambda>(w, s').
     Option.bind (bs_read_raw little n s') (\<lambda>(bs, s''). Some (ucast w # bs, s'')))"

definition bs_size :: "bitstream \<Rightarrow> nat" where
  "bs_size s = (bs_nbits s + 8 - 1) div 8"

definition bs_capacity :: "bitstream \<Rightarrow> nat" where
  "bs_capacity s = length (bs_buf s) * 8"

definition dump_byte :: "bitstream \<Rightarrow> nat \<Rightarrow> string" where
  "dump_byte s i =
     (let remain = (if i = bs_size s - 1 then bs_nbits s mod 8 else 8) in
      map (\<lambda>j. if bit (bs_buf s ! i) j then CHR ''1'' else CHR ''0'') [0..<remain]
      @ [if (i + 1) mod 5 = 0 then CHR 0x0A else CHR '' ''])"

definition dump :: "bitstream \<Rightarrow> string" where
  "dump s = concat (map (dump_byte s) [0..<bs_size s]) @ [CHR 0x0A]"

section \<open>Bits of the array\<close>

definition bit_at :: "bytes \<Rightarrow> nat \<Rightarrow> bool" where
  "bit_at buf p = bit (buf ! (p div 8)) (p mod 8)"

lemma bit_chunk_mask: "used + n \<le> 8 \<Longrightarrow> bit (chunk_mask used n) k \<longleftrightarrow> used \<le> k \<and> k < used + n"
proof -
  assume u: "used + n \<le> 8"
  have "chunk_mask used n = push_bit used (mask n)"
    by (simp add: chunk_mask_def push_bit_eq_mult mask_eq_exp_minus_1 power_add algebra_simps)
  with u show ?thesis by (auto simp: bit_simps)
qed

lemma same_byte: "p div 8 = q div 8 \<Longrightarrow> (p :: nat) mod 8 - q mod 8 = p - q"
  by (metis add_diff_cancel_left div_mult_mod_eq)

definition put_chunk :: "bytes \<Rightarrow> nat \<Rightarrow> nat \<Rightarrow> u32 \<Rightarrow> bytes" where
  \<comment> \<open>the byte at the offset after \<open>n\<close> bits of it have been written\<close>
  "put_chunk buf off n v =
     buf[off div 8 := ucast ((ucast (buf ! (off div 8)) :: u32) AND NOT (chunk_mask (off mod 8) n)
       OR (push_bit (off mod 8) v AND chunk_mask (off mod 8) n))]"

definition chunk_len :: "nat \<Rightarrow> nat \<Rightarrow> nat" where
  "chunk_len off k = min (8 - off mod 8) k"

lemma chunk_len_facts:
  "off mod 8 + chunk_len off k \<le> 8" "chunk_len off k \<le> k" "0 < k \<Longrightarrow> 0 < chunk_len off k"
  using mod_less_divisor [of 8 off] unfolding chunk_len_def by linarith+

lemma length_put_chunk [simp]: "length (put_chunk buf off n v) = length buf"
  by (simp add: put_chunk_def)

lemma written_chunk:
  assumes "off mod 8 + n \<le> 8" "off div 8 < length buf"
  shows "bit_at (put_chunk buf off n v) p \<longleftrightarrow> (if off \<le> p \<and> p < off + n then bit v (p - off) else bit_at buf p)"
proof (cases "p div 8 = off div 8")
  case True
  let ?u = "off mod 8"
  have p: "off \<le> p \<longleftrightarrow> ?u \<le> p mod 8" "p < off + n \<longleftrightarrow> p mod 8 < ?u + n"
    using True div_mult_mod_eq [of p 8] div_mult_mod_eq [of off 8] by linarith+
  have d: "p mod 8 - ?u = p - off" using same_byte [OF True] by simp
  have m: "p mod 8 < 8" by simp
  have "bit_at (put_chunk buf off n v) p \<longleftrightarrow> (if ?u \<le> p mod 8 \<and> p mod 8 < ?u + n then bit v (p mod 8 - ?u) else bit_at buf p)"
    using m True assms(2) bit_chunk_mask [OF assms(1), of "p mod 8"]
    by (auto simp: put_chunk_def bit_at_def bit_simps)
  then show ?thesis using p d by simp
next
  case False
  have "\<not> (off \<le> p \<and> p < off + n)"
  proof
    assume "off \<le> p \<and> p < off + n"
    then have "off div 8 \<le> p div 8" by (simp add: div_le_mono)
    moreover have "p < off div 8 * 8 + 8"
      using \<open>off \<le> p \<and> p < off + n\<close> assms(1) div_mult_mod_eq [of off 8] by linarith
    then have "p < (off div 8 + 1) * 8" by simp
    then have "p div 8 < off div 8 + 1" by (rule less_mult_imp_div_less)
    ultimately show False using False by simp
  qed
  with False show ?thesis by (auto simp: put_chunk_def bit_at_def)
qed

lemma read_chunk:
  assumes "used = off mod 8" "used + n \<le> 8" "off div 8 < length buf"
  shows "bit (drop_bit used ((ucast (buf ! (off div 8)) :: u32) AND chunk_mask used n)) k \<longleftrightarrow>
    k < n \<and> bit_at buf (off + k)"
proof (cases "k < n")
  case True
  then have u: "used + k < 8" using assms(2) by simp
  have e: "off + k = (used + k) + off div 8 * 8"
    using assms(1) div_mult_mod_eq [of off 8] by linarith
  have q: "(off + k) div 8 = off div 8" "(off + k) mod 8 = used + k"
    using u by (simp_all only: e) simp_all
  show ?thesis
    using True assms(2) by (auto simp: bit_at_def q bit_simps bit_chunk_mask)
next
  case False
  then show ?thesis using assms(2) by (auto simp: bit_simps bit_chunk_mask)
qed

section \<open>What the loops touch\<close>

lemma write_loop_step:
  assumes "i < bits" "off div 8 < length buf" "w = chunk_len off (bits - i)"
  shows "write_loop little n bits i buf off = write_loop little n bits (i + w)
    (put_chunk buf off w (if little then drop_bit (bits - i - w) n else drop_bit i n)) (off + w)"
  using assms by (subst write_loop.simps) (simp add: Let_def put_chunk_def chunk_len_def)

lemma write_loop_frame:
  "write_loop little n bits i buf off = Some (buf', off') \<Longrightarrow> i \<le> bits \<Longrightarrow>
   off' = off + (bits - i) \<and> length buf' = length buf \<and>
   (\<forall>p. p < off \<or> off + (bits - i) \<le> p \<longrightarrow> bit_at buf' p = bit_at buf p)"
proof (induction "bits - i" arbitrary: i buf off rule: less_induct)
  case less
  show ?case
  proof (cases "i < bits")
    case False
    with less.prems show ?thesis by (simp add: write_loop.simps)
  next
    case True
    have idx: "off div 8 < length buf"
      using less.prems(1) True by (subst (asm) write_loop.simps) (auto simp: Let_def split: if_splits)
    define w where "w = chunk_len off (bits - i)"
    note w = chunk_len_facts [where off = off and k = "bits - i", folded w_def]
    let ?b = "put_chunk buf off w (if little then drop_bit (bits - i - w) n else drop_bit i n)"
    have "off' = off + w + (bits - (i + w)) \<and> length buf' = length ?b \<and>
      (\<forall>p. p < off + w \<or> off + w + (bits - (i + w)) \<le> p \<longrightarrow> bit_at buf' p = bit_at ?b p)"
      using less.prems(1) w True write_loop_step [OF True idx w_def, of little n]
      by (intro less.hyps) simp_all
    with w True written_chunk [OF w(1) idx] show ?thesis by auto
  qed
qed

lemma write_loop_total:
  "i \<le> bits \<Longrightarrow> off + (bits - i) \<le> 8 * length buf \<Longrightarrow> \<exists>r. write_loop little n bits i buf off = Some r"
proof (induction "bits - i" arbitrary: i buf off rule: less_induct)
  case less
  show ?case
  proof (cases "i < bits")
    case False
    then show ?thesis by (simp add: write_loop.simps)
  next
    case True
    then have "off < length buf * 8" using less.prems(2) by linarith
    then have idx: "off div 8 < length buf" by (rule less_mult_imp_div_less)
    define w where "w = chunk_len off (bits - i)"
    note w = chunk_len_facts [where off = off and k = "bits - i", folded w_def]
    show ?thesis
      unfolding write_loop_step [OF True idx w_def]
      using w less.prems(2) True by (intro less.hyps) simp_all
  qed
qed

section \<open>Reading back\<close>

definition got :: "bool \<Rightarrow> u32 \<Rightarrow> nat \<Rightarrow> nat \<Rightarrow> u32" where
  \<comment> \<open>what the reading loop has of \<open>n\<close> after \<open>i\<close> of \<open>bits\<close> bits\<close>
  "got little n bits i = (if little then drop_bit (bits - i) n else take_bit i n)"

lemma read_loop_step:
  assumes "i < bits" "off div 8 < length buf" "w = chunk_len off (bits - i)"
  shows "read_loop little bits i a buf off = read_loop little bits (i + w)
    (if little then push_bit w a OR drop_bit (off mod 8) ((ucast (buf ! (off div 8)) :: u32) AND chunk_mask (off mod 8) w)
     else a OR push_bit i (drop_bit (off mod 8) ((ucast (buf ! (off div 8)) :: u32) AND chunk_mask (off mod 8) w)))
    buf (off + w)"
  using assms by (subst read_loop.simps) (simp only: Let_def chunk_len_def if_True)

lemma read_step:
  assumes "i < bits" "bits \<le> 32" "off div 8 < length buf" "w = chunk_len off (bits - i)"
    and "\<And>k. k < w \<Longrightarrow> bit_at buf (off + k) = bit (if little then drop_bit (bits - i - w) n else drop_bit i n) k"
    and "take_bit bits n = n"
  shows "read_loop little bits i (got little n bits i) buf off =
    read_loop little bits (i + w) (got little n bits (i + w)) buf (off + w)"
proof -
  note w = chunk_len_facts [where off = off and k = "bits - i", folded assms(4)]
  define v where "v = drop_bit (off mod 8) ((ucast (buf ! (off div 8)) :: u32) AND chunk_mask (off mod 8) w)"
  have v: "bit v k \<longleftrightarrow> k < w \<and> bit (if little then drop_bit (bits - i - w) n else drop_bit i n) k" for k
    using read_chunk [OF refl w(1) assms(3)] assms(5) unfolding v_def by blast
  have high: "\<not> bit n k" if "bits \<le> k" for k
    using assms(6) that by (metis bit_take_bit_iff not_le)
  have iw: "i + w \<le> bits" using w assms(1) by simp
  have "(if little then push_bit w (got little n bits i) OR v else got little n bits i OR push_bit i v)
      = got little n bits (i + w)"
  proof (rule bit_word_eqI)
    fix k :: nat
    assume k: "k < LENGTH(32)"
    show "bit (if little then push_bit w (got little n bits i) OR v else got little n bits i OR push_bit i v) k
      = bit (got little n bits (i + w)) k"
    proof (cases little)
      case True
      have e: "bits - i + k - w = bits - (i + w) + k" if "w \<le> k" using that iw by simp
      have f: "bits - i - w = bits - (i + w)" by simp
      show ?thesis
        using True k v [of k] by (cases "w \<le> k") (simp_all add: got_def bit_push_bit_iff bit_or_iff bit_drop_bit_eq e f)
    next
      case False
      then show ?thesis
        using k v [of "k - i"] by (auto simp: got_def bit_push_bit_iff bit_or_iff bit_drop_bit_eq bit_take_bit_iff)
    qed
  qed
  then show ?thesis
    using read_loop_step [OF assms(1,3,4), of little "got little n bits i", folded v_def] by (simp only:)
qed

lemma read_back:
  assumes "take_bit bits n = n" "bits \<le> 32"
  shows "write_loop little n bits i buf off = Some (buf', off') \<Longrightarrow> i \<le> bits \<Longrightarrow>
    length buf'' = length buf \<Longrightarrow>
    (\<And>p. off \<le> p \<Longrightarrow> p < off + (bits - i) \<Longrightarrow> bit_at buf'' p = bit_at buf' p) \<Longrightarrow>
    read_loop little bits i (got little n bits i) buf'' off = Some (n, off')"
proof (induction "bits - i" arbitrary: i buf off rule: less_induct)
  case less
  show ?case
  proof (cases "i < bits")
    case False
    with less.prems(1,2) assms(1) show ?thesis
      by (simp add: write_loop.simps read_loop.simps got_def)
  next
    case True
    have idx: "off div 8 < length buf"
      using less.prems(1) True by (subst (asm) write_loop.simps) (auto simp: Let_def split: if_splits)
    define w where "w = chunk_len off (bits - i)"
    note w = chunk_len_facts [where off = off and k = "bits - i", folded w_def]
    let ?v = "if little then drop_bit (bits - i - w) n else drop_bit i n"
    let ?b = "put_chunk buf off w ?v"
    have rest: "write_loop little n bits (i + w) ?b (off + w) = Some (buf', off')"
      using less.prems(1) write_loop_step [OF True idx w_def] by (simp only:)
    have iw: "i + w \<le> bits" using w True by simp
    have src: "bit_at buf'' (off + k) = bit ?v k" if "k < w" for k
    proof -
      have "bit_at buf'' (off + k) = bit_at buf' (off + k)"
        using that w less.prems(4) by simp
      also have "\<dots> = bit_at ?b (off + k)" using write_loop_frame [OF rest iw] that by simp
      also have "\<dots> = bit ?v k" using written_chunk [OF w(1) idx] that by simp
      finally show ?thesis .
    qed
    have "read_loop little bits i (got little n bits i) buf'' off
        = read_loop little bits (i + w) (got little n bits (i + w)) buf'' (off + w)"
      using idx less.prems(3) by (intro read_step [OF True assms(2) _ w_def src assms(1)]) simp_all
    also have "\<dots> = Some (n, off')"
      by (rule less.hyps [OF _ rest iw]) (use less.prems(3,4) w True in simp_all)
    finally show ?thesis .
  qed
qed

lemma field_mask: "n AND (2 ^ bits - 1) = take_bit bits (n :: u32)"
  by (simp add: take_bit_eq_mask mask_eq_exp_minus_1)

lemma bs_write_frame:
  assumes "bs_write little n bits s = Some s'"
  shows "bits \<le> 30" "bs_off s' = bs_off s + bits" "length (bs_buf s') = length (bs_buf s)"
    "bs_nbits s' = max (bs_nbits s) (bs_off s + bits)"
    "p < bs_off s \<or> bs_off s + bits \<le> p \<Longrightarrow> bit_at (bs_buf s') p = bit_at (bs_buf s) p"
proof -
  from assms obtain buf off where l: "bits \<le> 30"
    "write_loop little (take_bit bits n) bits 0 (bs_buf s) (bs_off s) = Some (buf, off)"
    "s' = s\<lparr>bs_buf := buf, bs_off := off, bs_nbits := (if bs_nbits s < off then off else bs_nbits s)\<rparr>"
    by (auto simp: bs_write_def field_mask split: if_splits option.splits)
  from write_loop_frame [OF l(2)] l(1,3) show "bits \<le> 30" "bs_off s' = bs_off s + bits"
    "length (bs_buf s') = length (bs_buf s)" "bs_nbits s' = max (bs_nbits s) (bs_off s + bits)"
    "p < bs_off s \<or> bs_off s + bits \<le> p \<Longrightarrow> bit_at (bs_buf s') p = bit_at (bs_buf s) p"
    by auto
qed

lemma bs_write_total:
  "bits \<le> 30 \<Longrightarrow> bs_off s + bits \<le> 8 * length (bs_buf s) \<Longrightarrow> \<exists>s'. bs_write little n bits s = Some s'"
  using write_loop_total [of 0 bits "bs_off s" "bs_buf s" little "take_bit bits n"]
  by (auto simp: bs_write_def field_mask)

lemma bs_read_written:
  assumes "bs_write little n bits s = Some s'" "bs_off t = bs_off s" "length (bs_buf t) = length (bs_buf s)"
    and "\<And>p. bs_off s \<le> p \<Longrightarrow> p < bs_off s + bits \<Longrightarrow> bit_at (bs_buf t) p = bit_at (bs_buf s') p"
  shows "bs_read little bits t = Some (take_bit bits n, t\<lparr>bs_off := bs_off s + bits\<rparr>)"
proof -
  from assms(1) obtain buf off where l: "bits \<le> 30"
    "write_loop little (take_bit bits n) bits 0 (bs_buf s) (bs_off s) = Some (buf, off)"
    "bs_buf s' = buf" "bs_off s' = off"
    by (auto simp: bs_write_def field_mask split: if_splits option.splits)
  have g: "got little (take_bit bits n) bits 0 = 0"
    by (auto simp: got_def bit_eq_iff bit_simps)
  have "read_loop little bits 0 (got little (take_bit bits n) bits 0) (bs_buf t) (bs_off s) = Some (take_bit bits n, off)"
    using l assms(3,4) by (intro read_back [where buf = "bs_buf s" and buf' = buf]) auto
  moreover have "off = bs_off s + bits" using bs_write_frame(2) [OF assms(1)] l(4) by simp
  ultimately show ?thesis using l(1) assms(2) g by (simp add: bs_read_def)
qed

section \<open>Sequences of fields\<close>

fun write_fields :: "bool \<Rightarrow> (u32 \<times> nat) list \<Rightarrow> bitstream \<Rightarrow> bitstream option" where
  "write_fields little [] s = Some s"
| "write_fields little ((n, bits) # fs) s = Option.bind (bs_write little n bits s) (write_fields little fs)"

fun read_fields :: "bool \<Rightarrow> nat list \<Rightarrow> bitstream \<Rightarrow> (u32 list \<times> bitstream) option" where
  "read_fields little [] s = Some ([], s)"
| "read_fields little (bits # bs) s =
     Option.bind (bs_read little bits s) (\<lambda>(n, s').
     Option.bind (read_fields little bs s') (\<lambda>(ns, s''). Some (n # ns, s'')))"

lemma write_fields_frame:
  "write_fields little fs s = Some s' \<Longrightarrow>
   bs_off s' = bs_off s + sum_list (map snd fs) \<and> length (bs_buf s') = length (bs_buf s) \<and>
   (\<forall>p < bs_off s. bit_at (bs_buf s') p = bit_at (bs_buf s) p) \<and>
   bs_nbits s' = max (bs_nbits s) (if fs = [] then 0 else bs_off s + sum_list (map snd fs))"
proof (induction fs arbitrary: s)
  case (Cons f fs)
  obtain n bits where f: "f = (n, bits)" by (cases f)
  with Cons.prems obtain s1 where w: "bs_write little n bits s = Some s1"
    and r: "write_fields little fs s1 = Some s'" by (auto simp: bind_eq_Some_conv)
  show ?case using Cons.IH [OF r] bs_write_frame [OF w] f by auto
qed simp

lemma write_fields_total:
  "\<forall>(n, bits) \<in> set fs. bits \<le> 30 \<Longrightarrow> bs_off s + sum_list (map snd fs) \<le> 8 * length (bs_buf s) \<Longrightarrow>
   \<exists>s'. write_fields little fs s = Some s'"
proof (induction fs arbitrary: s)
  case (Cons f fs)
  obtain n bits where f: "f = (n, bits)" by (cases f)
  with Cons.prems obtain s1 where w: "bs_write little n bits s = Some s1"
    using bs_write_total [of bits s little n] by auto
  from Cons.IH [of s1] Cons.prems bs_write_frame [OF w] f w show ?case by auto
qed simp

lemma read_fields_written:
  "write_fields little fs s = Some s' \<Longrightarrow> bs_off t = bs_off s \<Longrightarrow> bs_buf t = bs_buf s' \<Longrightarrow>
   read_fields little (map snd fs) t =
     Some (map (\<lambda>(n, bits). take_bit bits n) fs, t\<lparr>bs_off := bs_off s + sum_list (map snd fs)\<rparr>)"
proof (induction fs arbitrary: s t)
  case (Cons f fs)
  obtain n bits where f: "f = (n, bits)" by (cases f)
  with Cons.prems obtain s1 where w: "bs_write little n bits s = Some s1"
    and r: "write_fields little fs s1 = Some s'" by (auto simp: bind_eq_Some_conv)
  note fr = bs_write_frame [OF w] write_fields_frame [OF r]
  have "bs_read little bits t = Some (take_bit bits n, t\<lparr>bs_off := bs_off s + bits\<rparr>)"
    using fr Cons.prems by (intro bs_read_written [OF w]) auto
  moreover have "read_fields little (map snd fs) (t\<lparr>bs_off := bs_off s + bits\<rparr>) =
      Some (map (\<lambda>(n, bits). take_bit bits n) fs, t\<lparr>bs_off := bs_off s1 + sum_list (map snd fs)\<rparr>)"
    using Cons.IH [OF r, of "t\<lparr>bs_off := bs_off s + bits\<rparr>"] fr Cons.prems by simp
  ultimately show ?case using f fr(2) by (simp add: add.assoc)
qed simp

text \<open>
  C25: A bit stream returns what was written, in both bit orders. Fields of up to 30 bits whose
  sizes add up to no more than the array holds are all written inside it, and after
  \<^verbatim>\<open>seek(0)\<close> reading the same sizes yields every number cut to its field.
\<close>

theorem bitstream_roundtrip:
  assumes "\<forall>(n, bits) \<in> set fs. bits \<le> 30" "sum_list (map snd fs) \<le> 8 * length junk"
  shows "\<exists>s t. write_fields little fs (bitstream_new junk) = Some s \<and>
     bs_nbits s = sum_list (map snd fs) \<and>
     read_fields little (map snd fs) (bs_seek 0 s) = Some (map (\<lambda>(n, bits). take_bit bits n) fs, t)"
proof -
  obtain s where s: "write_fields little fs (bitstream_new junk) = Some s"
    using write_fields_total [of fs "bitstream_new junk" little] assms by (auto simp: bitstream_new_def)
  moreover have "bs_nbits s = sum_list (map snd fs)"
    using write_fields_frame [OF s] by (cases fs) (auto simp: bitstream_new_def)
  ultimately show ?thesis
    using read_fields_written [OF s, of "bs_seek 0 s"] by (auto simp: bs_seek_def bitstream_new_def)
qed

theorem bitstream_roundtrip_witness:
  "\<exists>s t. write_fields True [(0x12, 5), (0xff, 8), (0x1234, 16)] (bitstream_new (replicate 4 0xAA)) = Some s \<and>
     bs_nbits s = 29 \<and> read_fields True [5, 8, 16] (bs_seek 0 s) = Some ([0x12, 0xff, 0x1234], t)"
  using bitstream_roundtrip [of "[(0x12, 5), (0xff, 8), (0x1234, 16)]" "replicate 4 0xAA" True] by simp

section \<open>Dump\<close>

lemma dump_byte_digits:
  "length (filter (\<lambda>c. c = CHR ''0'' \<or> c = CHR ''1'') (dump_byte s i)) =
    (if i = bs_size s - 1 then bs_nbits s mod 8 else 8)"
proof -
  have "filter (\<lambda>c. c = CHR ''0'' \<or> c = CHR ''1'') (map (\<lambda>j. if P j then CHR ''1'' else CHR ''0'') js)
      = map (\<lambda>j. if P j then CHR ''1'' else CHR ''0'') js" for P :: "nat \<Rightarrow> bool" and js
    by (induction js) auto
  then show ?thesis by (simp add: dump_byte_def Let_def)
qed

text \<open>
  \<^verbatim>\<open>dump\<close> prints every bit of the stream except when the last byte is full: if the number of
  bits is a multiple of 8, the last 8 bits are missing.
\<close>

theorem dump_drops_full_byte:
  "length (filter (\<lambda>c. c = CHR ''0'' \<or> c = CHR ''1'') (dump s)) =
     (if bs_nbits s mod 8 = 0 then bs_nbits s - 8 else bs_nbits s)"
proof -
  let ?f = "\<lambda>i. if i = bs_size s - 1 then bs_nbits s mod 8 else 8"
  have d: "length (filter (\<lambda>c. c = CHR ''0'' \<or> c = CHR ''1'') (dump s)) = (\<Sum>i \<leftarrow> [0..<bs_size s]. ?f i)"
    by (simp add: dump_def filter_concat length_concat o_def dump_byte_digits)
  show ?thesis
  proof (cases "bs_size s")
    case 0
    then have "bs_nbits s = 0" by (simp add: bs_size_def div_eq_0_iff)
    with d 0 show ?thesis by simp
  next
    case (Suc k)
    have "(\<Sum>i \<leftarrow> [0..<k]. ?f i) = (\<Sum>i \<leftarrow> [0..<k]. 8)"
      using Suc by (intro arg_cong [where f = sum_list] map_cong) auto
    then have "(\<Sum>i \<leftarrow> [0..<bs_size s]. ?f i) = 8 * k + bs_nbits s mod 8"
      using Suc by (simp add: sum_list_triv)
    moreover have "8 * k + m mod 8 = (if m mod 8 = 0 then m - 8 else m)" if "(m + 7) div 8 = Suc k" for m
    proof -
      define q r where "q = m div 8" and "r = m mod 8"
      have m: "m = 8 * q + r" "r < 8" by (simp_all add: q_def r_def)
      have "m + 7 = (r + 7) + q * 8" using m(1) by simp
      then have "(m + 7) div 8 = q + (r + 7) div 8" by simp
      moreover have "(r + 7) div 8 = (if r = 0 then 0 else 1)" using m(2) by (auto intro: div_nat_eqI)
      ultimately have "q = Suc k \<and> r = 0 \<or> q = k \<and> r \<noteq> 0" using that by (auto split: if_splits)
      then show ?thesis unfolding r_def [symmetric] using m(1) by auto
    qed
    then have "8 * k + bs_nbits s mod 8 = (if bs_nbits s mod 8 = 0 then bs_nbits s - 8 else bs_nbits s)"
      using Suc by (simp add: bs_size_def)
    ultimately show ?thesis using d by simp
  qed
qed

end
