(* ===== verification/TimerQueue.thy ===== *)
theory TimerQueue
  imports Prelude
begin

text \<open>
  \<^verbatim>\<open>cpp/model/base/src/net/timerqueue.cpp\<close>: timers in a binary heap ordered by \<^verbatim>\<open>when()\<close>. The
  loops of \<^verbatim>\<open>up_heap\<close> and \<^verbatim>\<open>down_heap\<close> may not end; not ending is \<open>None\<close>. Time points are
  integers, a callback is its number.
\<close>

record timer =
  due :: int
  cb :: nat
  t_index :: int

definition swap_at :: "nat \<Rightarrow> nat \<Rightarrow> 'a list \<Rightarrow> 'a list" where
  "swap_at i j xs = xs[i := xs ! j, j := xs ! i]"

partial_function (option) up_heap :: "nat \<Rightarrow> timer list \<Rightarrow> timer list option" where
  "up_heap index ts =
     (if index > 0 then
        let parent = (index - 1) div 2 in
        if due (ts ! parent) < due (ts ! index) then Some ts
        else up_heap index (swap_at parent index ts)
      else Some ts)"

definition min_child :: "nat \<Rightarrow> timer list \<Rightarrow> nat" where
  "min_child left ts =
     (if left + 1 < length ts \<and> due (ts ! (left + 1)) < due (ts ! left) then left + 1 else left)"

partial_function (option) down_heap :: "nat \<Rightarrow> timer list \<Rightarrow> timer list option" where
  "down_heap index ts =
     (let left = 2 * index + 1 in
      if left < length ts then
        if due (ts ! index) < due (ts ! min_child left ts) then Some ts
        else down_heap index (swap_at index (min_child left ts) ts)
      else Some ts)"

abbreviation INVALID_TIMER :: int where "INVALID_TIMER \<equiv> 0"

record timer_queue =
  timers :: "timer list"
  fired :: "nat list"

definition add_timer :: "int \<Rightarrow> int \<Rightarrow> nat \<Rightarrow> timer_queue \<Rightarrow> (int option \<times> timer_queue) option" where
  \<comment> \<open>\<open>now\<close> is what the clock says; the returned id is \<open>None\<close> where the function ends without a
    \<^verbatim>\<open>return\<close>\<close>
  "add_timer now w callback q =
     (if now \<ge> w then Some (Some INVALID_TIMER, q\<lparr>fired := fired q @ [callback]\<rparr>)
      else let ts = timers q @ [\<lparr>due = w, cb = callback, t_index = int (length (timers q))\<rparr>] in
        case up_heap (length ts - 1) ts of
          None \<Rightarrow> None
        | Some ts' \<Rightarrow> Some (None, q\<lparr>timers := ts'\<rparr>))"

section \<open>Where the loops end\<close>

lemma up_heap_0: "up_heap 0 ts = Some ts"
  by (simp add: up_heap.simps)

lemma swap_at_facts:
  assumes "i < length xs" "j < length xs" "i \<noteq> j"
  shows "swap_at i j xs ! i = xs ! j" "swap_at i j xs ! j = xs ! i" "length (swap_at i j xs) = length xs"
    "k \<noteq> i \<Longrightarrow> k \<noteq> j \<Longrightarrow> swap_at i j xs ! k = xs ! k"
  using assms by (auto simp: swap_at_def)

lemma mset_swap_at: "i < length xs \<Longrightarrow> j < length xs \<Longrightarrow> mset (swap_at i j xs) = mset xs"
  by (simp add: swap_at_def mset_swap)

lemma parent_less: "0 < i \<Longrightarrow> (i - 1) div 2 < (i :: nat)"
  by linarith

lemma up_heap_tie:
  assumes "up_heap i ts = Some ts'" "0 < i" "i < length ts"
  shows "due (ts ! ((i - 1) div 2)) \<noteq> due (ts ! i)"
proof -
  have "0 < i \<longrightarrow> i < length ts \<longrightarrow> due (ts ! ((i - 1) div 2)) \<noteq> due (ts ! i)"
  proof (rule up_heap.raw_induct [OF _ assms(1),
        where P = "\<lambda>i ts r. 0 < i \<longrightarrow> i < length ts \<longrightarrow> due (ts ! ((i - 1) div 2)) \<noteq> due (ts ! i)"])
    fix up i ts ts'
    assume 1: "\<And>i ts r. up i ts = Some r \<Longrightarrow>
        0 < i \<longrightarrow> i < length ts \<longrightarrow> due (ts ! ((i - 1) div 2)) \<noteq> due (ts ! i)"
      "(if 0 < i then let parent = (i - 1) div 2 in if due (ts ! parent) < due (ts ! i) then Some ts
        else up i (swap_at parent i ts) else Some ts) = Some ts'"
    show "0 < i \<longrightarrow> i < length ts \<longrightarrow> due (ts ! ((i - 1) div 2)) \<noteq> due (ts ! i)"
    proof (intro impI notI)
      assume i: "0 < i" "i < length ts" and tie: "due (ts ! ((i - 1) div 2)) = due (ts ! i)"
      let ?p = "(i - 1) div 2"
      have p: "?p < length ts" "?p \<noteq> i" using i parent_less [OF i(1)] by simp_all
      have "up i (swap_at ?p i ts) = Some ts'" using 1(2) i tie by (simp add: Let_def)
      from 1(1) [OF this] i tie swap_at_facts [OF p(1) i(2) p(2)] show False by simp
    qed
  qed
  with assms(2,3) show ?thesis by blast
qed

text \<open>\<open>index\<close> never changes in the loop, so that it either ends after one exchange or not at all.\<close>

lemma up_heap_result:
  assumes "0 < i" "i < length ts" "p = (i - 1) div 2"
  shows "up_heap i ts =
    (if due (ts ! p) < due (ts ! i) then Some ts
     else if due (ts ! i) < due (ts ! p) then Some (swap_at p i ts) else None)"
proof -
  have p: "p < length ts" "p \<noteq> i" using assms parent_less [OF assms(1)] by simp_all
  consider "due (ts ! p) < due (ts ! i)" | "due (ts ! i) < due (ts ! p)" | "due (ts ! p) = due (ts ! i)"
    by linarith
  then show ?thesis
  proof cases
    case 1
    then show ?thesis using assms by (subst up_heap.simps) (simp add: Let_def)
  next
    case 2
    then have "up_heap i ts = up_heap i (swap_at p i ts)"
      using assms by (subst up_heap.simps) (simp add: Let_def)
    also have "\<dots> = Some (swap_at p i ts)"
      using 2 assms swap_at_facts [OF p(1) assms(2) p(2)] by (subst up_heap.simps) (simp add: Let_def)
    finally show ?thesis using 2 by simp
  next
    case 3
    then have "up_heap i ts = None"
      using up_heap_tie [of i ts] assms by (cases "up_heap i ts") auto
    with 3 show ?thesis by simp
  qed
qed

section \<open>The heap\<close>

definition is_heap :: "timer list \<Rightarrow> bool" where
  "is_heap ts \<longleftrightarrow> (\<forall>i < length ts. 0 < i \<longrightarrow> due (ts ! ((i - 1) div 2)) \<le> due (ts ! i))"

lemma heap_append:
  assumes "is_heap ts" "ts \<noteq> []"
  shows "is_heap (ts @ [t]) \<longleftrightarrow> due (ts ! ((length ts - 1) div 2)) \<le> due t"
proof -
  have p: "(length ts - 1) div 2 < length ts" using assms(2) parent_less [of "length ts"] by simp
  have old: "due ((ts @ [t]) ! ((i - 1) div 2)) \<le> due ((ts @ [t]) ! i)" if "i < length ts" "0 < i" for i
    using assms(1) that parent_less [of i] by (auto simp: is_heap_def nth_append)
  show ?thesis
    using p old assms(2) by (auto simp: is_heap_def nth_append less_Suc_eq)
qed

text \<open>One exchange with the parent restores the heap exactly when the parent's parent is not later.\<close>

lemma exchanged_heap:
  assumes "is_heap ts" "0 < length ts" "p = (length ts - 1) div 2" "due t < due (ts ! p)"
  shows "is_heap (swap_at p (length ts) (ts @ [t])) \<longleftrightarrow> p = 0 \<or> due (ts ! ((p - 1) div 2)) \<le> due t"
    (is "is_heap ?s \<longleftrightarrow> ?up")
proof -
  let ?n = "length ts"
  have p: "p < ?n" using assms(2,3) parent_less [of ?n] by simp
  have s: "?s ! p = t" "?s ! ?n = ts ! p" "length ?s = Suc ?n" "\<And>k. k < ?n \<Longrightarrow> k \<noteq> p \<Longrightarrow> ?s ! k = ts ! k"
    using p swap_at_facts [of p "ts @ [t]" ?n] by (auto simp: nth_append)
  show ?thesis
  proof
    assume "is_heap ?s"
    then show ?up using p s(1,3) s(4) [of "(p - 1) div 2"] parent_less [of p]
      unfolding is_heap_def by (cases "p = 0") (auto dest!: spec [of _ p])
  next
    assume up: ?up
    show "is_heap ?s"
      unfolding is_heap_def
    proof (intro allI impI)
      fix i
      assume i: "i < length ?s" "0 < i"
      let ?q = "(i - 1) div 2"
      have q: "?q < ?n" "?q < i" using i s(3) parent_less [of i] by auto
      consider "i = ?n" | "i = p" | "i < ?n" "i \<noteq> p" "?q = p" | "i < ?n" "i \<noteq> p" "?q \<noteq> p"
        using i s(3) by linarith
      then show "due (?s ! ?q) \<le> due (?s ! i)"
      proof cases
        case 1
        then show ?thesis using assms(3,4) s(1,2) by simp
      next
        case 2
        then show ?thesis using up s(1) s(4) [OF q(1)] q(2) i(2) by simp
      next
        case 3
        then have "due (ts ! p) \<le> due (ts ! i)" using assms(1) i(2) by (auto simp: is_heap_def)
        then show ?thesis using 3 assms(4) s(1) s(4) [of i] by simp
      next
        case 4
        then show ?thesis using assms(1) i(2) s(4) [of i] s(4) [OF q(1)] by (simp add: is_heap_def)
      qed
    qed
  qed
qed

text \<open>
  C17: \<^verbatim>\<open>add_timer\<close> keeps the heap only by luck. For a due timer the callback runs at once,
  the heap is left alone and the id is \<^verbatim>\<open>INVALID_TIMER\<close>. Otherwise, with \<open>p\<close> the parent of the
  new last slot: the call never returns if and only if the parent's time equals the new one; a later timer
  just stays in the last slot; an earlier one is exchanged with the parent and no further; no id is returned.
  No timer is lost, and the result is a heap exactly if the new timer is later than its parent, or \<open>p\<close> is the
  root, or the parent of \<open>p\<close> is not later than the new timer.
\<close>

theorem add_timer_heap:
  assumes "is_heap (timers q)" "timers q \<noteq> []" "p = (length (timers q) - 1) div 2"
    and "t = \<lparr>due = w, cb = c, t_index = int (length (timers q))\<rparr>"
  shows "add_timer now w c q =
      (if w \<le> now then Some (Some INVALID_TIMER, q\<lparr>fired := fired q @ [c]\<rparr>)
       else if due (timers q ! p) < w then Some (None, q\<lparr>timers := timers q @ [t]\<rparr>)
       else if w < due (timers q ! p) then Some (None, q\<lparr>timers := (timers q)[p := t] @ [timers q ! p]\<rparr>)
       else None) \<and>
    (\<forall>tid q'. now < w \<longrightarrow> add_timer now w c q = Some (tid, q') \<longrightarrow>
      mset (timers q') = mset (timers q @ [t]) \<and>
      (is_heap (timers q') \<longleftrightarrow> due (timers q ! p) < w \<or> p = 0 \<or> due (timers q ! ((p - 1) div 2)) \<le> w))"
proof -
  let ?ts = "timers q" and ?n = "length (timers q)"
  have p: "p < ?n" "p \<noteq> ?n" "0 < ?n" using assms(2,3) parent_less [of "length (timers q)"] by simp_all
  have t: "due t = w" using assms(4) by simp
  have u: "up_heap ?n (?ts @ [t]) = (if due (?ts ! p) < w then Some (?ts @ [t])
      else if w < due (?ts ! p) then Some (swap_at p ?n (?ts @ [t])) else None)"
    using up_heap_result [OF p(3), of "?ts @ [t]" p] p assms(3) t by (simp add: nth_append)
  have s: "swap_at p ?n (?ts @ [t]) = ?ts[p := t] @ [?ts ! p]"
    using p by (simp add: swap_at_def nth_append list_update_append)
  have m: "mset (?ts[p := t] @ [?ts ! p]) = mset (?ts @ [t])"
    unfolding s [symmetric] using p by (intro mset_swap_at) simp_all
  have "is_heap (?ts @ [t])" if "due (?ts ! p) < w"
    using that heap_append [OF assms(1,2), of t] assms(3) t by simp
  moreover have "is_heap (?ts[p := t] @ [?ts ! p]) \<longleftrightarrow> p = 0 \<or> due (?ts ! ((p - 1) div 2)) \<le> w" if "w < due (?ts ! p)"
    using exchanged_heap [OF assms(1) p(3) assms(3), of t] that s t by simp
  ultimately show ?thesis
    using u s m assms(4) by (auto simp: add_timer_def Let_def)
qed

theorem add_timer_heap_witness:
  "\<exists>q'. add_timer 0 5 9 \<lparr>timers = map (\<lambda>d. \<lparr>due = d, cb = 1, t_index = 0\<rparr>) [10, 20, 30, 40], fired = []\<rparr>
      = Some (None, q') \<and> map due (timers q') = [10, 5, 30, 40, 20] \<and> \<not> is_heap (timers q')"
proof -
  let ?q = "\<lparr>timers = map (\<lambda>d. \<lparr>due = d, cb = 1, t_index = 0\<rparr>) [10, 20, 30, 40], fired = []\<rparr>"
  have h: "is_heap (timers ?q)"
    by (auto simp: is_heap_def less_Suc_eq)
  have p: "1 = (length (timers ?q) - 1) div 2" by simp
  show ?thesis
    using add_timer_heap [OF h _ p refl, of 0 5 9] by simp (simp add: is_heap_def exI [of _ 1])
qed

text \<open>The same holds of \<^verbatim>\<open>down_heap\<close>: it does not end on a timer as late as its earlier child.\<close>

lemma min_child_cases: "min_child left ts = left \<or> min_child left ts = left + 1 \<and> left + 1 < length ts"
  by (auto simp: min_child_def)

lemma min_child_due:
  "length ts' = length ts \<Longrightarrow> (\<And>k. due (ts' ! k) = due (ts ! k)) \<Longrightarrow> min_child left ts' = min_child left ts"
  by (simp add: min_child_def)

lemma due_swap:
  assumes "i < length ts" "j < length ts" "due (ts ! i) = due (ts ! j)"
  shows "due (swap_at i j ts ! k) = due (ts ! k)"
  using assms by (cases "k < length ts") (auto simp: swap_at_def nth_list_update)

lemma down_heap_tie:
  assumes "down_heap i ts = Some ts'" "2 * i + 1 < length ts"
  shows "due (ts ! i) \<noteq> due (ts ! min_child (2 * i + 1) ts)"
proof -
  have "2 * i + 1 < length ts \<longrightarrow> due (ts ! i) \<noteq> due (ts ! min_child (2 * i + 1) ts)"
  proof (rule down_heap.raw_induct [OF _ assms(1),
        where P = "\<lambda>i ts r. 2 * i + 1 < length ts \<longrightarrow> due (ts ! i) \<noteq> due (ts ! min_child (2 * i + 1) ts)"])
    fix down i ts ts'
    let ?m = "min_child (2 * i + 1) ts"
    assume 1: "\<And>i ts r. down i ts = Some r \<Longrightarrow>
        2 * i + 1 < length ts \<longrightarrow> due (ts ! i) \<noteq> due (ts ! min_child (2 * i + 1) ts)"
      "(let left = 2 * i + 1 in if left < length ts then
          if due (ts ! i) < due (ts ! min_child left ts) then Some ts
          else down i (swap_at i (min_child left ts) ts) else Some ts) = Some ts'"
    show "2 * i + 1 < length ts \<longrightarrow> due (ts ! i) \<noteq> due (ts ! ?m)"
    proof (intro impI notI)
      assume i: "2 * i + 1 < length ts" and tie: "due (ts ! i) = due (ts ! ?m)"
      have m: "i < length ts" "?m < length ts" using i min_child_cases [of "2 * i + 1" ts] by auto
      have d: "down i (swap_at i ?m ts) = Some ts'" using 1(2) i tie by (simp add: Let_def)
      have c: "min_child (2 * i + 1) (swap_at i ?m ts) = ?m"
        by (rule min_child_due [OF _ due_swap [OF m tie]]) (simp add: swap_at_def)
      have "2 * i + 1 < length (swap_at i ?m ts)" using i by (simp add: swap_at_def)
      with 1(1) [OF d] have "due (swap_at i ?m ts ! i) \<noteq> due (swap_at i ?m ts ! ?m)"
        unfolding c by blast
      then show False unfolding due_swap [OF m tie] using tie by simp
    qed
  qed
  with assms(2) show ?thesis by blast
qed

end
