(* ===== verification/TaskQueue.thy ===== *)
theory TaskQueue
  imports Prelude
begin

text \<open>
  \<^verbatim>\<open>cpp/profile/task_queue/task_queue.h\<close>: a queue of tasks with a worker thread. Every critical
  section is one step; \<^verbatim>\<open>push\<close> that waits for room is kept in a list of blocked calls, the
  worker is a small state machine. Condition variables wake up only when notified. A queue that
  has been moved from is empty.
\<close>

section \<open>State\<close>

datatype 't worker =
  NotStarted          \<comment> \<open>no thread\<close>
| LoopHead            \<comment> \<open>about to test \<^verbatim>\<open>while (running_)\<close>\<close>
| Asleep              \<comment> \<open>in \<^verbatim>\<open>data_cond_.wait\<close>\<close>
| Awake               \<comment> \<open>notified, about to test the inner loop again\<close>
| Taken "'t list"     \<comment> \<open>has moved the queue to \<^verbatim>\<open>tmp\<close>\<close>
| Batch "'t list"     \<comment> \<open>runs the tasks of \<^verbatim>\<open>tmp\<close>\<close>
| Finished            \<comment> \<open>the thread function has returned\<close>

datatype 't blocked = Blocked (task: 't) (was_empty: bool) (notified: bool)

record 't task_queue =
  tq_queue :: "'t list"
  tq_limit :: nat
  tq_running :: bool
  tq_worker :: "'t worker"
  tq_blocked :: "'t blocked list"
  tq_ran :: "'t list"

definition tq_new :: "nat \<Rightarrow> 't task_queue" where
  "tq_new limit = \<lparr>tq_queue = [], tq_limit = limit, tq_running = False, tq_worker = NotStarted,
     tq_blocked = [], tq_ran = []\<rparr>"

section \<open>Operations\<close>

definition tq_full :: "'t task_queue \<Rightarrow> bool" where
  "tq_full s \<longleftrightarrow> tq_running s \<and> tq_limit s \<noteq> 0 \<and> length (tq_queue s) \<ge> tq_limit s"

definition notify_data :: "'t task_queue \<Rightarrow> 't task_queue" where
  "notify_data s = (if tq_worker s = Asleep then s\<lparr>tq_worker := Awake\<rparr> else s)"

definition notify_free :: "'t task_queue \<Rightarrow> 't task_queue" where
  "notify_free s = s\<lparr>tq_blocked := map (\<lambda>b. Blocked (task b) (was_empty b) True) (tq_blocked s)\<rparr>"

definition finish_push :: "'t \<Rightarrow> bool \<Rightarrow> 't task_queue \<Rightarrow> 't task_queue" where
  \<comment> \<open>the part of \<^verbatim>\<open>push\<close> behind the waiting loop\<close>
  "finish_push t emp s =
     (if tq_running s then
        let s' = s\<lparr>tq_queue := tq_queue s @ [t]\<rparr> in if emp then notify_data s' else s'
      else s)"

definition tq_push :: "'t \<Rightarrow> 't task_queue \<Rightarrow> 't task_queue" where
  "tq_push t s =
     (let emp = (tq_queue s = []) in
      if tq_full s then s\<lparr>tq_blocked := tq_blocked s @ [Blocked t emp False]\<rparr>
      else finish_push t emp s)"

definition tq_resume :: "nat \<Rightarrow> 't task_queue \<Rightarrow> 't task_queue" where
  \<comment> \<open>the \<open>i\<close>-th blocked \<^verbatim>\<open>push\<close>, which has been notified, goes on in its loop\<close>
  "tq_resume i s =
     (let b = tq_blocked s ! i in
      if tq_full s then s\<lparr>tq_blocked := (tq_blocked s)[i := Blocked (task b) (was_empty b) False]\<rparr>
      else finish_push (task b) (was_empty b)
        (s\<lparr>tq_blocked := take i (tq_blocked s) @ drop (Suc i) (tq_blocked s)\<rparr>))"

definition tq_start :: "'t task_queue \<Rightarrow> 't task_queue option" where
  \<comment> \<open>assigning to a thread that is still joinable terminates the program\<close>
  "tq_start s =
     (if tq_running s then Some s
      else if tq_worker s \<noteq> NotStarted then None
      else Some (s\<lparr>tq_running := True, tq_worker := LoopHead\<rparr>))"

definition tq_stop :: "'t task_queue \<Rightarrow> 't task_queue" where
  "tq_stop s = notify_free (notify_data (s\<lparr>tq_running := False\<rparr>))"

definition tq_join :: "'t task_queue \<Rightarrow> 't task_queue" where
  "tq_join s = s\<lparr>tq_worker := NotStarted\<rparr>"

definition work_locked :: "'t task_queue \<Rightarrow> 't task_queue" where
  \<comment> \<open>from the inner loop to \<^verbatim>\<open>move(queue_)\<close>\<close>
  "work_locked s =
     (if tq_running s \<and> tq_queue s = [] then s\<lparr>tq_worker := Asleep\<rparr>
      else if \<not> tq_running s then s\<lparr>tq_worker := Finished\<rparr>
      else s\<lparr>tq_worker := Taken (tq_queue s), tq_queue := []\<rparr>)"

fun tq_work :: "'t worker \<Rightarrow> 't task_queue \<Rightarrow> 't task_queue" where
  "tq_work LoopHead s = (if tq_running s then work_locked s else s\<lparr>tq_worker := Finished\<rparr>)"
| "tq_work Awake s = work_locked s"
| "tq_work (Taken tmp) s =
     (if length tmp \<ge> tq_limit s then notify_free s else s)\<lparr>tq_worker := Batch tmp\<rparr>"
| "tq_work (Batch []) s = s\<lparr>tq_worker := LoopHead\<rparr>"
| "tq_work (Batch (t # tmp)) s = s\<lparr>tq_ran := tq_ran s @ [last (t # tmp)], tq_worker := Batch tmp\<rparr>"
| "tq_work w s = s"

section \<open>Interleavings\<close>

datatype 't event = Push 't | Resume nat | Work | Start | Stop | Join

inductive tq_step :: "'t task_queue \<Rightarrow> 't event \<Rightarrow> 't task_queue \<Rightarrow> bool" where
  push: "tq_step s (Push t) (tq_push t s)"
| resume: "i < length (tq_blocked s) \<Longrightarrow> notified (tq_blocked s ! i) \<Longrightarrow> tq_step s (Resume i) (tq_resume i s)"
| work: "tq_worker s \<notin> {NotStarted, Asleep, Finished} \<Longrightarrow> tq_step s Work (tq_work (tq_worker s) s)"
| start: "tq_start s = Some s' \<Longrightarrow> tq_step s Start s'"
| stop: "tq_step s Stop (tq_stop s)"
| join: "tq_worker s = Finished \<Longrightarrow> tq_step s Join (tq_join s)"

inductive_cases tq_step_cases:
  "tq_step s (Push t) s'" "tq_step s (Resume i) s'" "tq_step s Work s'" "tq_step s Start s'"
  "tq_step s Stop s'" "tq_step s Join s'"

inductive tq_steps :: "'t task_queue \<Rightarrow> 't event list \<Rightarrow> 't task_queue \<Rightarrow> bool" where
  none: "tq_steps s [] s"
| more: "tq_step s e s' \<Longrightarrow> tq_steps s' es s'' \<Longrightarrow> tq_steps s (e # es) s''"

inductive_simps tq_steps_simps: "tq_steps s [] s'" "tq_steps s (e # es) s'"

lemma tq_steps_invariant:
  assumes "tq_steps s es s'" "P s" "\<And>s e s'. P s \<Longrightarrow> e \<in> set es \<Longrightarrow> tq_step s e s' \<Longrightarrow> P s'"
  shows "P s'"
  using assms
proof (induction rule: tq_steps.induct)
  case (none s)
  then show ?case by blast
next
  case (more s e s' es s'')
  have "P s'" by (rule more.prems(2) [OF more.prems(1) _ more.hyps(1)]) simp
  then show ?case by (rule more.IH) (rule more.prems(2), simp_all)
qed

section \<open>The bound\<close>

definition tq_bounded :: "'t task_queue \<Rightarrow> bool" where
  "tq_bounded s \<longleftrightarrow> (tq_limit s \<noteq> 0 \<longrightarrow> length (tq_queue s) \<le> tq_limit s)"

lemma notify_keeps [simp]:
  "tq_queue (notify_data s) = tq_queue s" "tq_limit (notify_data s) = tq_limit s"
  "tq_running (notify_data s) = tq_running s" "tq_blocked (notify_data s) = tq_blocked s"
  "tq_ran (notify_data s) = tq_ran s"
  "tq_queue (notify_free s) = tq_queue s" "tq_limit (notify_free s) = tq_limit s"
  "tq_running (notify_free s) = tq_running s" "tq_worker (notify_free s) = tq_worker s"
  "tq_ran (notify_free s) = tq_ran s"
  by (simp_all add: notify_data_def notify_free_def)

lemma finish_push_bounded:
  "tq_bounded s \<Longrightarrow> \<not> tq_full s \<Longrightarrow> tq_bounded (finish_push t e s) \<and> tq_limit (finish_push t e s) = tq_limit s"
  by (auto simp: tq_bounded_def tq_full_def finish_push_def Let_def)

lemma work_bounded:
  "tq_bounded s \<Longrightarrow> tq_bounded (tq_work w s) \<and> tq_limit (tq_work w s) = tq_limit s"
  by (induction w s rule: tq_work.induct) (auto simp: tq_bounded_def work_locked_def)

lemma blocked_irrelevant [simp]:
  "tq_bounded (s\<lparr>tq_blocked := b\<rparr>) = tq_bounded s" "tq_full (s\<lparr>tq_blocked := b\<rparr>) = tq_full s"
  by (simp_all add: tq_bounded_def tq_full_def)

lemma step_bounded:
  assumes "tq_step s e s'" "tq_bounded s"
  shows "tq_bounded s' \<and> tq_limit s' = tq_limit s"
  using assms(1)
proof cases
  case (push t)
  with assms(2) show ?thesis
    by (cases "tq_full s") (simp_all add: tq_push_def finish_push_bounded)
next
  case (resume i)
  with assms(2) show ?thesis
    by (cases "tq_full s") (simp_all add: tq_resume_def Let_def finish_push_bounded)
next
  case work
  then show ?thesis using assms(2) work_bounded by blast
next
  case start
  then show ?thesis using assms(2) by (auto simp: tq_start_def tq_bounded_def split: if_splits)
qed (use assms(2) in \<open>simp_all add: tq_stop_def tq_join_def tq_bounded_def\<close>)

text \<open>
  C18: However pushes, the worker, start, stop and join interleave, a queue with a limit never
  holds more tasks than its limit.
\<close>

theorem task_queue_bounded:
  assumes "tq_steps (tq_new n) es s" "n \<noteq> 0"
  shows "length (tq_queue s) \<le> n"
proof -
  have "tq_bounded (tq_new n)" "tq_limit (tq_new n) = n" by (simp_all add: tq_new_def tq_bounded_def)
  then have "tq_bounded s \<and> tq_limit s = n"
    by (intro tq_steps_invariant [OF assms(1), where P = "\<lambda>s. tq_bounded s \<and> tq_limit s = n"])
      (auto dest: step_bounded)
  with assms(2) show ?thesis by (auto simp: tq_bounded_def)
qed

definition sample_events :: "nat event list" where
  \<comment> \<open>a queue with room for one task: the worker falls asleep, is woken by the push of 1 and takes
    it while the push of 2 waits for room\<close>
  "sample_events = [Start, Work, Push 1, Push 2, Work, Work, Work, Work, Work, Resume 0]"

fun tq_exec :: "'t event \<Rightarrow> 't task_queue \<Rightarrow> 't task_queue option" where
  "tq_exec (Push t) s = Some (tq_push t s)"
| "tq_exec (Resume i) s =
     (if i < length (tq_blocked s) \<and> notified (tq_blocked s ! i) then Some (tq_resume i s) else None)"
| "tq_exec Work s =
     (if tq_worker s \<in> {NotStarted, Asleep, Finished} then None else Some (tq_work (tq_worker s) s))"
| "tq_exec Start s = tq_start s"
| "tq_exec Stop s = Some (tq_stop s)"
| "tq_exec Join s = (if tq_worker s = Finished then Some (tq_join s) else None)"

fun tq_run :: "'t event list \<Rightarrow> 't task_queue \<Rightarrow> 't task_queue option" where
  "tq_run [] s = Some s"
| "tq_run (e # es) s = Option.bind (tq_exec e s) (tq_run es)"

lemma exec_step: "tq_exec e s = Some s' \<Longrightarrow> tq_step s e s'"
  by (cases e) (auto intro: tq_step.intros split: if_splits)

lemma run_steps: "tq_run es s = Some s' \<Longrightarrow> tq_steps s es s'"
proof (induction es arbitrary: s)
  case Nil
  then show ?case by (simp add: tq_steps.none)
next
  case (Cons e es)
  then obtain s1 where "tq_exec e s = Some s1" "tq_run es s1 = Some s'" by (auto simp: bind_eq_Some_conv)
  then show ?case using Cons.IH exec_step tq_steps.more by fast
qed

definition sleeping :: "nat task_queue" where
  "sleeping = \<lparr>tq_queue = [2], tq_limit = 1, tq_running = True, tq_worker = Asleep, tq_blocked = [],
     tq_ran = [1]\<rparr>"

lemma sample_run: "tq_run sample_events (tq_new 1) = Some sleeping"
  by (simp add: sample_events_def tq_new_def tq_start_def work_locked_def tq_push_def tq_full_def
      finish_push_def notify_data_def notify_free_def tq_resume_def sleeping_def Let_def)

lemma sample_steps: "tq_steps (tq_new 1) sample_events sleeping"
  using sample_run by (rule run_steps)

theorem task_queue_bounded_witness: "length (tq_queue sleeping) \<le> 1"
  using task_queue_bounded [OF sample_steps] by simp

section \<open>The lost wake-up\<close>

definition stuck :: "'t task_queue \<Rightarrow> bool" where
  "stuck s \<longleftrightarrow> tq_worker s = Asleep \<and> tq_running s \<and> tq_queue s \<noteq> [] \<and>
     (\<forall>b \<in> set (tq_blocked s). \<not> was_empty b)"

definition same_work :: "'t task_queue \<Rightarrow> 't task_queue \<Rightarrow> bool" where
  "same_work s s' \<longleftrightarrow> stuck s' \<and> tq_ran s' = tq_ran s"

lemma finish_push_stuck: "stuck s \<Longrightarrow> stuck (finish_push t False s) \<and> tq_ran (finish_push t False s) = tq_ran s"
  by (simp add: stuck_def finish_push_def)

lemma stuck_step:
  assumes "tq_step s e s'" "stuck s" "e \<noteq> Stop"
  shows "stuck s' \<and> tq_ran s' = tq_ran s"
  using assms(1)
proof cases
  case (push t)
  have "(tq_queue s = []) = False" using assms(2) by (simp add: stuck_def)
  with push assms(2) finish_push_stuck [OF assms(2)] show ?thesis
    by (auto simp: tq_push_def stuck_def)
next
  case (resume i)
  let ?b = "tq_blocked s ! i"
  have b: "\<not> was_empty ?b" using assms(2) resume(3) by (simp add: stuck_def)
  show ?thesis
  proof (cases "tq_full s")
    case True
    then show ?thesis
      using resume assms(2) b set_update_subset_insert [of "tq_blocked s" i "Blocked (task ?b) (was_empty ?b) False"]
      by (auto simp: tq_resume_def stuck_def)
  next
    case False
    let ?s = "s\<lparr>tq_blocked := take i (tq_blocked s) @ drop (Suc i) (tq_blocked s)\<rparr>"
    have "stuck ?s" using assms(2) by (auto simp: stuck_def dest: in_set_takeD in_set_dropD)
    from finish_push_stuck [OF this, of "task ?b"] show ?thesis
      using resume False b by (simp add: tq_resume_def Let_def)
  qed
qed (use assms(2,3) in \<open>auto simp: stuck_def tq_start_def\<close>)

text \<open>
  C19: A wake-up can be lost for good. \<^verbatim>\<open>push\<close> decides whether to notify the worker from what the
  queue was before it waited for room; once the worker sleeps over a queue that is not empty,
  no further push, finished or blocked, wakes it, and no task is run until \<^verbatim>\<open>stop\<close>.
\<close>

theorem task_queue_lost_wakeup:
  assumes "stuck s" "tq_steps s es s'" "Stop \<notin> set es"
  shows "tq_worker s' = Asleep \<and> tq_queue s' \<noteq> [] \<and> tq_ran s' = tq_ran s"
proof -
  have "stuck s' \<and> tq_ran s' = tq_ran s"
    using assms(1,3)
    by (intro tq_steps_invariant [OF assms(2), where P = "\<lambda>t. stuck t \<and> tq_ran t = tq_ran s"])
      (auto dest: stuck_step)
  then show ?thesis by (simp add: stuck_def)
qed

theorem task_queue_lost_wakeup_witness:
  "\<exists>s s'. tq_steps (tq_new 1) sample_events s \<and> tq_steps s [Push 3, Push 4] s' \<and>
     tq_worker s' = Asleep \<and> tq_queue s' \<noteq> [] \<and> tq_ran s' = [1]"
proof -
  have st: "stuck sleeping" by (simp add: stuck_def sleeping_def)
  have "tq_steps sleeping [Push 3, Push 4] (tq_push 4 (tq_push 3 sleeping))"
    by (rule run_steps) simp
  from task_queue_lost_wakeup [OF st this] this sample_steps show ?thesis
    by (fastforce simp: sleeping_def)
qed

section \<open>What a batch runs\<close>

lemma batch_runs:
  "tq_worker s = Batch tmp \<Longrightarrow> tmp \<noteq> [] \<Longrightarrow>
   ((\<lambda>s. tq_work (tq_worker s) s) ^^ length tmp) s =
     s\<lparr>tq_ran := tq_ran s @ replicate (length tmp) (last tmp), tq_worker := Batch []\<rparr>"
proof (induction tmp arbitrary: s)
  case (Cons t tmp)
  show ?case
  proof (cases tmp)
    case Nil
    with Cons.prems show ?thesis by simp
  next
    case (Cons u us)
    let ?s = "s\<lparr>tq_ran := tq_ran s @ [last tmp], tq_worker := Batch tmp\<rparr>"
    have "tq_work (tq_worker s) s = ?s" using Cons.prems(1) Cons by simp
    with Cons.IH [of ?s] Cons show ?thesis
      by (simp add: funpow_Suc_right del: funpow.simps)
  qed
qed simp

text \<open>
  The worker runs \<^verbatim>\<open>tmp.back()\<close> but removes \<^verbatim>\<open>tmp.front()\<close>: of a batch of \<open>n\<close> tasks it runs
  the last one \<open>n\<close> times and the others never.
\<close>

theorem task_batch_runs_last:
  assumes "tq_worker s = Taken tmp" "tmp \<noteq> []"
  shows "tq_ran (((\<lambda>s. tq_work (tq_worker s) s) ^^ Suc (length tmp)) s) =
    tq_ran s @ replicate (length tmp) (last tmp)"
proof -
  let ?s = "tq_work (tq_worker s) s"
  have "tq_worker ?s = Batch tmp" "tq_ran ?s = tq_ran s" using assms(1) by simp_all
  with batch_runs [of ?s tmp] assms(2) show ?thesis
    by (simp add: funpow_Suc_right del: funpow.simps)
qed

theorem task_batch_runs_last_witness:
  "tq_ran (((\<lambda>s. tq_work (tq_worker s) s) ^^ 4)
     (\<lparr>tq_queue = [], tq_limit = 0, tq_running = True, tq_worker = Taken ''abc'', tq_blocked = [],
       tq_ran = []\<rparr>)) = ''ccc''"
  using task_batch_runs_last [of "\<lparr>tq_queue = [], tq_limit = 0, tq_running = True,
      tq_worker = Taken ''abc'', tq_blocked = [], tq_ran = []\<rparr>" "''abc''"]
  by (simp add: eval_nat_numeral)

end
