(* ===== verification/Queues.thy ===== *)
theory Queues
  imports Prelude
begin

text \<open>
  The small containers: the two blocking queues of \<^verbatim>\<open>cpp/misc/queue.cpp\<close> (condition variable)
  and \<^verbatim>\<open>cpp/misc/semqueue.cpp\<close> (semaphores), the slot allocator of \<^verbatim>\<open>cpp/allocate\<close> and the
  module registry of \<^verbatim>\<open>cpp/modules\<close>. The locale \<open>batch_fifo\<close> is what producers and consumers
  rely on: nothing is lost, doubled or reordered.
\<close>

section \<open>Schedules of posts and waits\<close>

datatype 'a call = Post 'a | Wait

fun run_calls :: "('a \<Rightarrow> 's \<Rightarrow> 's) \<Rightarrow> ('s \<Rightarrow> 'a list \<times> 's) \<Rightarrow> 'a call list \<Rightarrow> 's \<Rightarrow> 'a list \<times> 's" where
  "run_calls post wait [] s = ([], s)"
| "run_calls post wait (Post x # cs) s = run_calls post wait cs (post x s)"
| "run_calls post wait (Wait # cs) s = (case wait s of (got, s') \<Rightarrow>
     case run_calls post wait cs s' of (more, s'') \<Rightarrow> (got @ more, s''))"

fun posted :: "'a call list \<Rightarrow> 'a list" where
  "posted [] = []"
| "posted (Post x # cs) = x # posted cs"
| "posted (Wait # cs) = posted cs"

locale batch_fifo =
  fixes items :: "'s \<Rightarrow> 'a list"
    and post :: "'a \<Rightarrow> 's \<Rightarrow> 's"
    and wait :: "'s \<Rightarrow> 'a list \<times> 's"
  assumes post_items: "items (post x s) = items s @ [x]"
    and wait_items: "wait s = (got, s') \<Longrightarrow> items s = got @ items s'"
begin

lemma nothing_lost:
  "run_calls post wait cs s = (got, s') \<Longrightarrow> items s @ posted cs = got @ items s'"
proof (induction cs arbitrary: s got)
  case (Cons c cs)
  show ?case
  proof (cases c)
    case (Post x)
    with Cons.IH [of "post x s"] Cons.prems show ?thesis by (simp add: post_items)
  next
    case Wait
    obtain g s1 where w: "wait s = (g, s1)" by fastforce
    obtain more where m: "run_calls post wait cs s1 = (more, s')" "got = g @ more"
      using Cons.prems Wait w by (auto split: prod.splits)
    with Cons.IH [OF m(1)] wait_items [OF w] Wait show ?thesis by simp
  qed
qed simp

end

section \<open>The queue with a condition variable\<close>

record 'a cond_queue =
  cq_items :: "'a list"
  cq_mark :: nat

definition cq_post :: "'a \<Rightarrow> 'a cond_queue \<Rightarrow> bool \<times> 'a cond_queue" where
  \<comment> \<open>also whether a waiting thread is notified\<close>
  "cq_post x q = (let oldsize = length (cq_items q) in
     (oldsize = 0 \<or> oldsize \<ge> cq_mark q, q\<lparr>cq_items := cq_items q @ [x]\<rparr>))"

primrec pop_items :: "nat \<Rightarrow> 'a list \<Rightarrow> 'a list \<Rightarrow> 'a list \<times> 'a list" where
  \<comment> \<open>the loop of \<^verbatim>\<open>front\<close>, \<^verbatim>\<open>push_back\<close> and \<^verbatim>\<open>pop\<close>\<close>
  "pop_items 0 queue got = (got, queue)"
| "pop_items (Suc n) queue got = pop_items n (tl queue) (got @ [hd queue])"

definition cq_wait :: "'a cond_queue \<Rightarrow> ('a list \<times> 'a cond_queue) option" where
  \<comment> \<open>\<open>None\<close>: the caller blocks\<close>
  "cq_wait q =
     (if cq_items q = [] then None
      else case pop_items (min (cq_mark q) (length (cq_items q))) (cq_items q) [] of
        (got, rest) \<Rightarrow> Some (got, q\<lparr>cq_items := rest\<rparr>))"

lemma pop_items_eq: "n \<le> length xs \<Longrightarrow> pop_items n xs got = (got @ take n xs, drop n xs)"
proof (induction n arbitrary: xs got)
  case (Suc n)
  then show ?case by (cases xs) auto
qed simp

definition cq_try_wait :: "'a cond_queue \<Rightarrow> 'a list \<times> 'a cond_queue" where
  \<comment> \<open>a \<^verbatim>\<open>wait\<close> that would block has no effect yet\<close>
  "cq_try_wait q = (case cq_wait q of None \<Rightarrow> ([], q) | Some r \<Rightarrow> r)"

interpretation cq: batch_fifo cq_items "\<lambda>x q. snd (cq_post x q)" cq_try_wait
  by unfold_locales
    (auto simp: cq_post_def cq_try_wait_def cq_wait_def pop_items_eq split: if_splits)

section \<open>The queue with semaphores\<close>

text \<open>
  Both calls first wait for a semaphore and then take the mutex; \<open>sq_posting\<close> and \<open>sq_taking\<close>
  count the calls in between.
\<close>

abbreviation SEM_CAPACITY :: nat where "SEM_CAPACITY \<equiv> 1111"

record 'a sem_queue =
  sq_items :: "'a list"
  sq_mark :: nat
  sq_wsem :: nat
  sq_rsem :: nat
  sq_posting :: nat
  sq_taking :: nat

definition sq_new :: "nat \<Rightarrow> 'a sem_queue" where
  "sq_new mark = \<lparr>sq_items = [], sq_mark = mark, sq_wsem = SEM_CAPACITY, sq_rsem = 0,
     sq_posting = 0, sq_taking = 0\<rparr>"

definition sq_post :: "'a \<Rightarrow> 'a sem_queue \<Rightarrow> 'a sem_queue" where
  \<comment> \<open>the locked part of \<^verbatim>\<open>post\<close>\<close>
  "sq_post x q = (let items = sq_items q @ [x] in
     q\<lparr>sq_items := items,
       sq_rsem := (if (length items - 1) mod sq_mark q = 0 then sq_rsem q + 1 else sq_rsem q)\<rparr>)"

definition sq_take :: "'a sem_queue \<Rightarrow> 'a list \<times> 'a sem_queue" where
  \<comment> \<open>the locked part of \<^verbatim>\<open>wait\<close>\<close>
  "sq_take q = (let count = min (sq_mark q) (length (sq_items q)) in
     case pop_items count (sq_items q) [] of
       (got, rest) \<Rightarrow> (got, q\<lparr>sq_items := rest, sq_wsem := sq_wsem q + count\<rparr>))"

interpretation sq: batch_fifo sq_items sq_post sq_take
  by unfold_locales (auto simp: sq_post_def sq_take_def pop_items_eq Let_def)

inductive sem_step :: "'a sem_queue \<Rightarrow> 'a sem_queue \<Rightarrow> bool" where
  post_begin: "0 < sq_wsem q \<Longrightarrow> sem_step q (q\<lparr>sq_wsem := sq_wsem q - 1, sq_posting := sq_posting q + 1\<rparr>)"
| post_locked: "0 < sq_posting q \<Longrightarrow> sem_step q (sq_post x (q\<lparr>sq_posting := sq_posting q - 1\<rparr>))"
| wait_begin: "0 < sq_rsem q \<Longrightarrow> sem_step q (q\<lparr>sq_rsem := sq_rsem q - 1, sq_taking := sq_taking q + 1\<rparr>)"
| wait_locked: "0 < sq_taking q \<Longrightarrow> sem_step q (snd (sq_take (q\<lparr>sq_taking := sq_taking q - 1\<rparr>)))"

inductive sem_reach :: "nat \<Rightarrow> 'a sem_queue \<Rightarrow> bool" for mark where
  init: "sem_reach mark (sq_new mark)"
| step: "sem_reach mark q \<Longrightarrow> sem_step q q' \<Longrightarrow> sem_reach mark q'"

definition batches :: "nat \<Rightarrow> nat \<Rightarrow> nat" where
  \<comment> \<open>how many waits it takes to empty a queue of \<open>n\<close> items\<close>
  "batches mark n = (n + (mark - 1)) div mark"

lemma batches_facts:
  assumes "0 < mark"
  shows "batches mark 0 = 0" "0 < batches mark n \<longleftrightarrow> 0 < n"
    "batches mark (Suc n) = (if n mod mark = 0 then batches mark n + 1 else batches mark n)"
    "0 < n \<Longrightarrow> batches mark (n - min mark n) + 1 = batches mark n"
    "batches mark n \<le> n"
proof -
  show z: "batches mark 0 = 0" using assms by (simp add: batches_def)
  have b: "batches mark k = k div mark + (if k mod mark = 0 then 0 else 1)" for k
  proof -
    have "k + (mark - 1) = (k mod mark + (mark - 1)) + k div mark * mark"
      using div_mult_mod_eq [of k mark] by linarith
    then have "(k + (mark - 1)) div mark = k div mark + (k mod mark + (mark - 1)) div mark"
      using assms by (metis div_mult_self1 less_irrefl add.commute)
    moreover have "(k mod mark + (mark - 1)) div mark = (if k mod mark = 0 then 0 else 1)"
      using assms mod_less_divisor [OF assms, of k] by (auto intro!: div_nat_eqI)
    ultimately show ?thesis by (simp add: batches_def)
  qed
  show "0 < batches mark n \<longleftrightarrow> 0 < n"
    using assms by (cases "n = 0") (auto simp: b div_greater_zero_iff not_less)
  show "batches mark n \<le> n"
  proof (cases "n mod mark = 0")
    case True
    then show ?thesis by (simp add: b div_le_dividend)
  next
    case False
    then have "1 < mark" "0 < n" using assms by (cases "mark = 1"; cases "n = 0"; simp)+
    then show ?thesis using False by (auto simp: b intro!: Suc_leI div_less_dividend)
  qed
  show "batches mark (Suc n) = (if n mod mark = 0 then batches mark n + 1 else batches mark n)"
    using assms by (auto simp: b div_Suc mod_Suc)
  show "0 < n \<Longrightarrow> batches mark (n - min mark n) + 1 = batches mark n"
    using assms by (cases "mark \<le> n") (auto simp: b min_def le_div_geq le_mod_geq z [unfolded b])
qed

definition sem_inv :: "nat \<Rightarrow> 'a sem_queue \<Rightarrow> bool" where
  "sem_inv mark q \<longleftrightarrow> sq_mark q = mark \<and>
     sq_wsem q + sq_posting q + length (sq_items q) = SEM_CAPACITY \<and>
     sq_rsem q + sq_taking q = batches mark (length (sq_items q))"

lemma sem_inv_step: "sem_step q q' \<Longrightarrow> 0 < mark \<Longrightarrow> sem_inv mark q \<Longrightarrow> sem_inv mark q'"
proof (induction rule: sem_step.induct)
  case (post_locked q x)
  then show ?case
    using batches_facts(3) [of mark "length (sq_items q)"]
    by (auto simp: sem_inv_def sq_post_def Let_def)
next
  case (wait_locked q)
  then have n: "0 < length (sq_items q)"
    using batches_facts(2) [of mark "length (sq_items q)"] by (auto simp: sem_inv_def)
  show ?case
    using wait_locked batches_facts(4) [OF wait_locked(2) n]
    by (auto simp: sem_inv_def sq_take_def Let_def pop_items_eq)
qed (auto simp: sem_inv_def)

lemma sem_reach_inv: "sem_reach mark q \<Longrightarrow> 0 < mark \<Longrightarrow> sem_inv mark q"
proof (induction rule: sem_reach.induct)
  case init
  then show ?case by (simp add: sem_inv_def sq_new_def batches_facts)
qed (blast intro: sem_inv_step)

text \<open>
  C21: The semaphore queue loses no wake-up. With a positive water mark, in every state that
  producers and consumers can reach by interleaving their semaphore and mutex sections, free
  slots, posts under way and items add up to the capacity, and a consumer can pass its
  semaphore (or one is already past it) exactly when the queue holds something: no consumer is
  left waiting over items, and none finds the queue empty.
\<close>

theorem sem_queue_accounting:
  assumes "sem_reach mark q" "0 < mark"
  shows "sq_wsem q + sq_posting q + length (sq_items q) = 1111 \<and>
    (0 < sq_rsem q + sq_taking q \<longleftrightarrow> sq_items q \<noteq> []) \<and> sq_taking q \<le> length (sq_items q)"
proof -
  have i: "sem_inv mark q" using assms by (rule sem_reach_inv)
  show ?thesis
    using i batches_facts(2,5) [OF assms(2), of "length (sq_items q)"]
    by (auto simp: sem_inv_def)
qed

lemma sem_sample:
  "sem_reach 100 (sq_post (7 :: int) ((sq_new 100)\<lparr>sq_wsem := 1110, sq_posting := 0\<rparr>))"
proof -
  have "sem_step (sq_new 100 :: int sem_queue) ((sq_new 100)\<lparr>sq_wsem := 1110, sq_posting := 1\<rparr>)"
    using sem_step.post_begin [of "sq_new 100 :: int sem_queue"] by (simp add: sq_new_def)
  moreover have "sem_step ((sq_new 100)\<lparr>sq_wsem := 1110, sq_posting := 1\<rparr>)
      (sq_post (7 :: int) ((sq_new 100)\<lparr>sq_wsem := 1110, sq_posting := 0\<rparr>))"
    using sem_step.post_locked [of "(sq_new 100)\<lparr>sq_wsem := 1110, sq_posting := 1\<rparr>" 7] by simp
  ultimately show ?thesis by (meson sem_reach.intros)
qed

theorem sem_queue_accounting_witness:
  "\<exists>q :: int sem_queue. sem_reach 100 q \<and> sq_items q = [7] \<and> 0 < sq_rsem q + sq_taking q"
  using sem_queue_accounting [OF sem_sample] sem_sample
  by (auto simp: sq_post_def Let_def sq_new_def intro!: exI [of _ "sq_post 7 ((sq_new 100)\<lparr>sq_wsem := 1110, sq_posting := 0\<rparr>)"])

text \<open>
  C22: Both blocking queues are first-in first-out and lose nothing: in any sequence of posts
  and waits the items handed out, followed by what is left, are the items that were there,
  followed by the posted ones.
\<close>

theorem queues_fifo:
  "cq_items q @ posted cs =
     fst (run_calls (\<lambda>x q. snd (cq_post x q)) cq_try_wait cs q) @
     cq_items (snd (run_calls (\<lambda>x q. snd (cq_post x q)) cq_try_wait cs q)) \<and>
   sq_items r @ posted cs = fst (run_calls sq_post sq_take cs r) @ sq_items (snd (run_calls sq_post sq_take cs r))"
  by (simp add: cq.nothing_lost [OF surjective_pairing] sq.nothing_lost [OF surjective_pairing])

section \<open>The slot allocator\<close>

record allocator =
  al_size :: nat
  al_unused :: "nat list"

definition al_new :: "nat \<Rightarrow> allocator" where
  \<comment> \<open>slot \<open>i\<close> is \<^verbatim>\<open>block_ + i * sizeof(T)\<close>; the top of the stack is the head of the list\<close>
  "al_new n = \<lparr>al_size = n, al_unused = fold (\<lambda>i st. i # st) [0..<n] []\<rparr>"

definition al_alloc :: "allocator \<Rightarrow> nat option \<times> allocator" where
  "al_alloc a = (case al_unused a of
     [] \<Rightarrow> (None, a)
   | fmem # rest \<Rightarrow> (Some fmem, a\<lparr>al_unused := rest\<rparr>))"

definition al_dealloc :: "nat \<Rightarrow> allocator \<Rightarrow> allocator" where
  "al_dealloc p a = a\<lparr>al_unused := p # al_unused a\<rparr>"

definition free_slots :: "allocator \<Rightarrow> nat" where
  "free_slots a = length (al_unused a)"

text \<open>\<open>live\<close> are the slots the callers hold.\<close>

definition al_ok :: "allocator \<Rightarrow> nat set \<Rightarrow> bool" where
  "al_ok a live \<longleftrightarrow> distinct (al_unused a) \<and> set (al_unused a) \<inter> live = {} \<and>
     set (al_unused a) \<union> live = {..<al_size a}"

lemma fold_Cons: "fold (\<lambda>i st. i # st) xs ys = rev xs @ ys"
  by (induction xs arbitrary: ys) auto

lemma al_new_ok: "al_ok (al_new n) {}"
  by (auto simp: al_ok_def al_new_def fold_Cons)

lemma al_free: "al_ok a live \<Longrightarrow> free_slots a + card live = al_size a"
  unfolding al_ok_def free_slots_def
  by (metis card_Un_disjoint card_lessThan distinct_card finite_Un finite_lessThan)

text \<open>
  The allocator hands out every slot to one holder at a time: while the slots in use and the
  free ones partition the block, \<^verbatim>\<open>alloc\<close> returns a slot nobody holds, and fails exactly when
  all are held; giving a held slot back restores the partition.
\<close>

theorem allocator_exclusive:
  assumes "al_ok a live"
  shows "(case al_alloc a of
      (None, a') \<Rightarrow> a' = a \<and> card live = al_size a
    | (Some p, a') \<Rightarrow> p < al_size a \<and> p \<notin> live \<and> al_ok a' (insert p live) \<and>
        al_ok (al_dealloc p a') live \<and> free_slots a' + 1 = free_slots a)"
proof (cases "al_unused a")
  case Nil
  with al_free [OF assms] show ?thesis by (simp add: al_alloc_def free_slots_def)
next
  case (Cons p rest)
  with assms show ?thesis
    by (auto simp: al_alloc_def al_ok_def al_dealloc_def free_slots_def)
qed

theorem allocator_exclusive_witness:
  "\<exists>a'. al_alloc (al_new 3) = (Some 2, a') \<and> al_ok a' {2}"
proof -
  have "al_alloc (al_new 3) = (Some 2, \<lparr>al_size = 3, al_unused = [1, 0]\<rparr>)"
    by (simp add: al_alloc_def al_new_def upt_rec)
  with allocator_exclusive [OF al_new_ok, of 3] show ?thesis by simp
qed

section \<open>The module registry\<close>

text \<open>\<^verbatim>\<open>std::map\<close> as an association list in the order of the keys.\<close>

type_synonym ('k, 'm) registry = "('k \<times> 'm) list"

fun reg_insert :: "'k::linorder \<Rightarrow> 'm \<Rightarrow> ('k, 'm) registry \<Rightarrow> ('k, 'm) registry" where
  "reg_insert k m [] = [(k, m)]"
| "reg_insert k m ((k', m') # r) = (if k < k' then (k, m) # (k', m') # r else (k', m') # reg_insert k m r)"

definition regist :: "'k::linorder \<Rightarrow> 'm \<Rightarrow> ('k, 'm) registry \<Rightarrow> bool \<times> ('k, 'm) registry" where
  "regist name m r = (if map_of r name \<noteq> None then (False, r) else (True, reg_insert name m r))"

definition unregist :: "'k \<Rightarrow> ('k, 'm) registry \<Rightarrow> ('k, 'm) registry" where
  "unregist name r = filter (\<lambda>(k, _). k \<noteq> name) r"

definition work_all :: "('k, 'm) registry \<Rightarrow> 'm list" where
  \<comment> \<open>the modules in the order \<^verbatim>\<open>work()\<close> calls them\<close>
  "work_all r = map snd r"

definition reg_ok :: "('k::linorder, 'm) registry \<Rightarrow> bool" where
  "reg_ok r \<longleftrightarrow> sorted_wrt (<) (map fst r)"

lemma reg_insert_keys: "set (map fst (reg_insert k m r)) = insert k (set (map fst r))"
  by (induction k m r rule: reg_insert.induct) auto

lemma regist_ok:
  assumes "reg_ok r"
  shows "reg_ok (snd (regist k m r)) \<and> reg_ok (unregist k r) \<and>
    (fst (regist k m r) \<longleftrightarrow> map_of r k = None) \<and>
    map_of (snd (regist k m r)) = (if map_of r k = None then (map_of r)(k \<mapsto> m) else map_of r)"
proof -
  have i: "sorted_wrt (<) (map fst r) \<Longrightarrow> k \<notin> fst ` set r \<Longrightarrow>
      sorted_wrt (<) (map fst (reg_insert k m r)) \<and> map_of (reg_insert k m r) = (map_of r)(k \<mapsto> m)"
  proof (induction k m r rule: reg_insert.induct)
    case (2 k m k' m' r)
    then show ?case
      using reg_insert_keys [of k m r] by (auto simp: fun_upd_twist image_iff)
  qed simp
  have "sorted_wrt (<) (map fst (unregist k r))"
    using assms by (simp add: reg_ok_def unregist_def sorted_wrt_map sorted_wrt_filter)
  with i assms show ?thesis by (auto simp: reg_ok_def regist_def map_of_eq_None_iff)
qed

end
