(* ===== verification/ZkConfig.thy ===== *)
theory ZkConfig
  imports Prelude
begin

text \<open>
  \<^verbatim>\<open>cpp/zkcfg/lib\<close>: a configuration manager on top of the asynchronous ZooKeeper client. A
  request is answered later by a completion that does not say which path it belongs to; the
  manager takes the path from the front of \<^verbatim>\<open>pending_path_\<close>. The client library runs watchers
  and completions one after the other and answers requests in their order: requests in flight
  are a queue, its results are parameters of the steps.
\<close>

type_synonym path = string

datatype request = Exists path | Get path

fun req_path :: "request \<Rightarrow> path" where
  "req_path (Exists p) = p"
| "req_path (Get p) = p"

datatype log_line = FailedFor path | GotData path bytes | DataError path | StatError path | GetError path

record config_manager =
  zhandle :: bool
  zid :: nat
  location :: string
  stype :: string
  pending_path :: "path list"
  in_flight :: "request list"
  logged :: "log_line list"

type_synonym 'a cm_action = "(config_manager, unit, 'a) action"

section \<open>Names of states and events\<close>

fun state_to_string :: "int \<times> int \<times> int \<times> int \<times> int \<Rightarrow> int \<Rightarrow> string" where
  \<comment> \<open>the constants of the library are parameters\<close>
  "state_to_string (connecting, associating, connected, expired, auth_failed) state =
     (if state = 0 then ''CLOSED_STATE''
      else if state = connecting then ''CONNECTING_STATE''
      else if state = associating then ''ASSOCIATING_STATE''
      else if state = connected then ''CONNECTED_STATE''
      else if state = expired then ''EXPIRED_SESSION_STATE''
      else if state = auth_failed then ''AUTH_FAILED_STATE''
      else ''INVALID_STATE'')"

datatype zk_event_type = CREATED | DELETED | CHANGED | CHILD | SESSION | NOTWATCHING | OTHER

fun type_to_string :: "zk_event_type \<Rightarrow> string" where
  "type_to_string CREATED = ''CREATED_EVENT''"
| "type_to_string DELETED = ''DELETED_EVENT''"
| "type_to_string CHANGED = ''CHANGED_EVENT''"
| "type_to_string CHILD = ''CHILD_EVENT''"
| "type_to_string SESSION = ''SESSION_EVENT''"
| "type_to_string NOTWATCHING = ''NOTWATCHING_EVENT''"
| "type_to_string OTHER = ''UNKNOWN_EVENT_TYPE''"

datatype zk_state = CONNECTED | AUTH_FAILED | EXPIRED | OTHER_STATE

section \<open>Requests\<close>

definition request_ok :: "bool \<Rightarrow> request \<Rightarrow> config_manager \<Rightarrow> config_manager" where
  \<comment> \<open>a call of the client library that accepts the request or not\<close>
  "request_ok ok r s = (if ok then s\<lparr>in_flight := in_flight s @ [r]\<rparr> else s)"

definition check_path :: "bool \<Rightarrow> path \<Rightarrow> unit cm_action" where
  \<comment> \<open>\<^verbatim>\<open>vsprintf\<close> writes the path and a NUL to an array of 256\<close>
  "check_path ok p =
     seq (defined_when (\<lambda>_. length p < 256)) (\<lambda>_. update (\<lambda>s.
       let s' = request_ok ok (Exists p) s in
       if ok then s'\<lparr>pending_path := pending_path s' @ [p]\<rparr>
       else s'\<lparr>logged := logged s' @ [FailedFor p]\<rparr>))"

definition check_exists :: "bool \<times> bool \<times> bool \<Rightarrow> string \<Rightarrow> unit cm_action" where
  "check_exists oks f s = (case oks of (ok1, ok2, ok3) \<Rightarrow>
     seq (check_path ok1 (''/'' @ f)) (\<lambda>_.
     seq (check_path ok2 (''/'' @ stype s @ ''/'' @ f)) (\<lambda>_.
     check_path ok3 (''/'' @ stype s @ ''/'' @ location s @ ''/'' @ f))) s)"

section \<open>Handlers\<close>

definition handle_zk_event ::
  "bool \<times> bool \<times> bool \<Rightarrow> bool \<Rightarrow> nat \<Rightarrow> path \<Rightarrow> zk_event_type \<Rightarrow> zk_state \<Rightarrow> unit cm_action" where
  \<comment> \<open>the first arguments: what \<^verbatim>\<open>zoo_aexists\<close> and \<^verbatim>\<open>zoo_aget\<close> return, and the client id\<close>
  "handle_zk_event oks ok client p type state =
     (if type = SESSION then
        (if state = CONNECTED then
           seq (update (\<lambda>s. s\<lparr>zid := client\<rparr>)) (\<lambda>_. check_exists oks ''level.xml'')
         else if state = AUTH_FAILED \<or> state = EXPIRED then update (\<lambda>s. s\<lparr>zhandle := False\<rparr>)
         else ret ())
      else if type = CREATED \<or> type = CHANGED then
        update (\<lambda>s. let s' = request_ok ok (Get p) s in
          if ok then s'\<lparr>pending_path := pending_path s' @ [p]\<rparr> else s')
      else ret ())"

definition pop_pending :: "path cm_action" where
  \<comment> \<open>\<^verbatim>\<open>front\<close> and \<^verbatim>\<open>pop_front\<close>, undefined on an empty deque\<close>
  "pop_pending s = (case pending_path s of
     [] \<Rightarrow> (Undef, s) | p # ps \<Rightarrow> (Val p, s\<lparr>pending_path := ps\<rparr>))"

definition c_data :: "bytes \<Rightarrow> bytes" where
  \<comment> \<open>printed as a C string\<close>
  "c_data dat = takeWhile (\<lambda>b. b \<noteq> 0) dat"

definition handle_data :: "bool \<Rightarrow> bytes \<Rightarrow> unit cm_action" where
  "handle_data ok dat = seq pop_pending (\<lambda>p. update (\<lambda>s.
     if \<not> ok then s\<lparr>logged := logged s @ [DataError p]\<rparr>
     else s\<lparr>logged := logged s @ [GotData p (c_data dat)]\<rparr>))"

definition handle_stat :: "bool \<Rightarrow> bool \<Rightarrow> unit cm_action" where
  "handle_stat ok get_ok = seq pop_pending (\<lambda>p. update (\<lambda>s.
     if ok then
       let s' = request_ok get_ok (Get p) s in
       if get_ok then s'\<lparr>pending_path := pending_path s' @ [p]\<rparr>
       else s'\<lparr>logged := logged s' @ [GetError p]\<rparr>
     else s\<lparr>logged := logged s @ [StatError p]\<rparr>))"

definition complete_one :: "bool \<Rightarrow> bytes \<Rightarrow> bool \<Rightarrow> unit cm_action" where
  \<comment> \<open>the library answers the oldest request\<close>
  "complete_one ok dat get_ok s = (case in_flight s of
     [] \<Rightarrow> (Val (), s)
   | Exists p # rs \<Rightarrow> handle_stat ok get_ok (s\<lparr>in_flight := rs\<rparr>)
   | Get p # rs \<Rightarrow> handle_data ok dat (s\<lparr>in_flight := rs\<rparr>))"

section \<open>Runs\<close>

inductive zk_step :: "config_manager \<Rightarrow> (unit, unit) outcome \<Rightarrow> config_manager \<Rightarrow> bool" where
  event: "handle_zk_event oks ok client p type state s = (r, s') \<Longrightarrow> zk_step s r s'"
| completion: "in_flight s \<noteq> [] \<Longrightarrow> complete_one ok dat get_ok s = (r, s') \<Longrightarrow> zk_step s r s'"

inductive zk_reach :: "config_manager \<Rightarrow> config_manager \<Rightarrow> bool" for s0 where
  init: "zk_reach s0 s0"
| step: "zk_reach s0 s \<Longrightarrow> zk_step s (Val ()) s' \<Longrightarrow> zk_reach s0 s'"

definition matched :: "config_manager \<Rightarrow> bool" where
  "matched s \<longleftrightarrow> pending_path s = map req_path (in_flight s)"

definition short_names :: "config_manager \<Rightarrow> bool" where
  "short_names s \<longleftrightarrow> length (stype s) + length (location s) + 12 < 256"

lemma check_path_run:
  "length p < 256 \<Longrightarrow> matched s \<Longrightarrow>
   \<exists>s'. check_path ok p s = (Val (), s') \<and> matched s' \<and> stype s' = stype s \<and> location s' = location s"
  by (simp add: check_path_def seq_def request_ok_def matched_def)

lemma check_exists_run:
  assumes "matched s" "short_names s"
  shows "\<exists>s'. check_exists oks ''level.xml'' s = (Val (), s') \<and> matched s' \<and> stype s' = stype s \<and> location s' = location s"
proof -
  obtain ok1 ok2 ok3 where oks: "oks = (ok1, ok2, ok3)" by (cases oks)
  let ?p1 = "''/'' @ ''level.xml''" and ?p2 = "''/'' @ stype s @ ''/'' @ ''level.xml''"
    and ?p3 = "''/'' @ stype s @ ''/'' @ location s @ ''/'' @ ''level.xml''"
  have l: "length ?p1 < 256" "length ?p2 < 256" "length ?p3 < 256"
    using assms(2) by (simp_all add: short_names_def)
  obtain s1 where s1: "check_path ok1 ?p1 s = (Val (), s1)" "matched s1" "stype s1 = stype s" "location s1 = location s"
    using check_path_run [OF l(1) assms(1)] by blast
  obtain s2 where s2: "check_path ok2 ?p2 s1 = (Val (), s2)" "matched s2" "stype s2 = stype s1" "location s2 = location s1"
    using check_path_run [OF l(2) s1(2)] by blast
  obtain s3 where "check_path ok3 ?p3 s2 = (Val (), s3)" "matched s3" "stype s3 = stype s2" "location s3 = location s2"
    using check_path_run [OF l(3) s2(2)] by blast
  then show ?thesis
    using s1 s2 by (simp add: check_exists_def oks seq_def)
qed

lemma zk_step_matched:
  assumes "zk_step s r s'" "matched s" "short_names s"
  shows "r = Val () \<and> matched s' \<and> short_names s'"
  using assms(1)
proof cases
  case (event oks ok client p type state)
  show ?thesis
  proof (cases "type = SESSION \<and> state = CONNECTED")
    case True
    then show ?thesis
      using event assms(2,3) check_exists_run [of "s\<lparr>zid := client\<rparr>" oks]
      by (auto simp: handle_zk_event_def seq_def matched_def short_names_def)
  next
    case False
    then show ?thesis
      using event assms(2,3)
      by (auto simp: handle_zk_event_def matched_def short_names_def request_ok_def Let_def split: if_splits)
  qed
next
  case (completion ok dat get_ok)
  then show ?thesis
    using assms(2,3)
    by (auto simp: complete_one_def handle_stat_def handle_data_def pop_pending_def seq_def matched_def
        short_names_def request_ok_def Let_def split: list.splits request.splits if_splits)
qed

text \<open>
  C24: Completions find their own path. With requests answered in order and handlers run one
  after the other, and with names short enough for the path buffer, the pending paths are at
  all times those of the requests in flight, in order; so no handler ever takes the front of an
  empty deque. The answer to a request for data logs the data, or the error, under the path of that
  request. The answer to a check that the node exists logs an error under its own path, or sends the request for the data
  of that path behind the requests in flight, or logs under its own path that this one was refused.
\<close>

theorem zk_completions_matched:
  assumes "zk_reach s0 s" "pending_path s0 = []" "in_flight s0 = []" "short_names s0"
  shows "pending_path s = map req_path (in_flight s) \<and> (zk_step s r s' \<longrightarrow> r = Val ()) \<and>
    (in_flight s = Get p # rs \<longrightarrow> complete_one ok dat get_ok s =
      (Val (), s\<lparr>pending_path := map req_path rs, in_flight := rs,
         logged := logged s @ [if ok then GotData p (c_data dat) else DataError p]\<rparr>)) \<and>
    (in_flight s = Exists p # rs \<longrightarrow> complete_one ok dat get_ok s =
      (Val (), if ok \<and> get_ok then s\<lparr>pending_path := map req_path rs @ [p], in_flight := rs @ [Get p]\<rparr>
         else s\<lparr>pending_path := map req_path rs, in_flight := rs,
           logged := logged s @ [if ok then GetError p else StatError p]\<rparr>))"
proof -
  have inv: "matched s \<and> short_names s"
    using assms(1)
  proof induction
    case init
    then show ?case using assms by (simp add: matched_def)
  next
    case (step s s')
    then show ?case using zk_step_matched by blast
  qed
  then show ?thesis
    using zk_step_matched [of s r s']
    by (auto simp: matched_def complete_one_def handle_data_def handle_stat_def pop_pending_def seq_def
        request_ok_def Let_def)
qed

lemma zk_sample:
  "\<exists>s. zk_reach \<lparr>zhandle = True, zid = 0, location = ''bj'', stype = ''gw'', pending_path = [],
      in_flight = [], logged = []\<rparr> s \<and> in_flight s = [Get ''/a'']"
proof -
  let ?s = "\<lparr>zhandle = True, zid = 0, location = ''bj'', stype = ''gw'', pending_path = [],
      in_flight = [], logged = []\<rparr> :: config_manager"
  let ?t = "?s\<lparr>pending_path := [''/a''], in_flight := [Get ''/a'']\<rparr>"
  have "zk_step ?s (Val ()) ?t"
    by (rule event [of "(True, True, True)" True 0 "''/a''" CREATED CONNECTED])
      (simp add: handle_zk_event_def request_ok_def)
  then have "zk_reach ?s ?t" by (meson zk_reach.intros)
  moreover have "in_flight ?t = [Get ''/a'']" by simp
  ultimately show ?thesis by blast
qed

theorem zk_completions_matched_witness:
  "\<exists>s. logged (snd (complete_one True [120, 0] True s)) = logged s @ [GotData ''/a'' [120]] \<and>
     pending_path s = [''/a'']"
proof -
  obtain s where s: "zk_reach \<lparr>zhandle = True, zid = 0, location = ''bj'', stype = ''gw'', pending_path = [],
      in_flight = [], logged = []\<rparr> s" "in_flight s = [Get ''/a'']" using zk_sample by blast
  have n: "short_names \<lparr>zhandle = True, zid = 0, location = ''bj'', stype = ''gw'', pending_path = [],
      in_flight = [], logged = []\<rparr>" by (simp add: short_names_def)
  have "complete_one True [120, 0] True s =
      (Val (), s\<lparr>pending_path := [], in_flight := [], logged := logged s @ [GotData ''/a'' [120]]\<rparr>) \<and> pending_path s = [''/a'']"
    using zk_completions_matched [OF s(1) _ _ n, where p = "''/a''" and rs = "[]" and dat = "[120, 0]" and ok = True and get_ok = True] s(2)
    by (auto simp: c_data_def)
  then show ?thesis by (intro exI [of _ s]) simp
qed

section \<open>Paths of cpp/zkcfg/lib/definitions.h\<close>

definition get_config_path :: "string option \<Rightarrow> string \<Rightarrow> string option" where
  \<comment> \<open>the location is \<open>None\<close> for a null pointer; the result is \<open>None\<close> where \<^verbatim>\<open>sprintf\<close> writes behind the
    array of 256\<close>
  "get_config_path loc cfgfile =
     (let path = (case loc of
          Some (c # cs) \<Rightarrow> ''/foreign/config'' @ ''/'' @ (c # cs) @ ''/'' @ cfgfile
        | _ \<Rightarrow> ''/foreign/config/universal'' @ ''/'' @ cfgfile)
      in if length path < 256 then Some path else None)"

lemma get_config_path_defined:
  "get_config_path loc f \<noteq> None \<longleftrightarrow>
     (case loc of Some (c # cs) \<Rightarrow> length cs + length f < 238 | _ \<Rightarrow> length f < 230)"
  by (auto simp: get_config_path_def split: option.splits list.splits)

end
