(* ===== verification/ZkDownstream.thy ===== *)
theory ZkDownstream
  imports ZkConfig
begin

text \<open>
  \<^verbatim>\<open>cprog/zkcfg/downstream.c\<close>: a C client that asks ZooKeeper for three nodes and prints what it gets. The
  library calls the watcher and the completions one after the other and answers requests in their
  order. Every path handed to it is a fresh string of \<^verbatim>\<open>strdup\<close>, which the completion reads through its pointer
  and frees. A watch is set by the answer to a request that asks for one and serves for one event; the library keeps
  one watch of a path at most. What the calls of the library return, and its answers, are parameters of the steps.
\<close>

section \<open>State\<close>

datatype ds_request = Ds_request (wants_data: bool) (target: path) (watching: bool) (text_ptr: nat)

datatype ds_line =
  Watcher_line zk_event_type path | New_session nat | Auth_failure | Session_expired
  | Exists_refused path | Get_refused path | No_data path | Data_line path nat string | Stat_line path nat

record downstream =
  zh :: bool
  myid :: nat
  asked :: "ds_request list"
  live :: "(nat \<times> string) list"   \<comment> \<open>the strings of the heap\<close>
  next_ptr :: nat
  watches :: "path list"
  printed :: "ds_line list"

type_synonym 'a ds_action = "(downstream, unit, 'a) action"

definition state2String :: "int \<times> int \<times> int \<times> int \<times> int \<Rightarrow> int \<Rightarrow> string" where
  \<comment> \<open>the same table as in \<^verbatim>\<open>config_manager.cpp\<close>\<close>
  "state2String consts state = state_to_string consts state"

definition type2String :: "zk_event_type \<Rightarrow> string" where
  "type2String t = type_to_string t"

definition say_line :: "ds_line \<Rightarrow> downstream \<Rightarrow> downstream" where
  "say_line l s = s\<lparr>printed := printed s @ [l]\<rparr>"

section \<open>Requests and completions\<close>

definition strdup :: "string \<Rightarrow> downstream \<Rightarrow> nat \<times> downstream" where
  \<comment> \<open>a copy that no other pointer points to\<close>
  "strdup text s = (next_ptr s, s\<lparr>live := (next_ptr s, text) # live s, next_ptr := next_ptr s + 1\<rparr>)"

definition ask :: "bool \<Rightarrow> bool \<Rightarrow> path \<Rightarrow> bool \<Rightarrow> downstream \<Rightarrow> downstream" where
  \<comment> \<open>\<^verbatim>\<open>zoo_aget\<close> or \<^verbatim>\<open>zoo_aexists\<close> with a copy of the path; \<open>ok\<close> tells whether the library takes the request\<close>
  "ask ok dat p w s = (case strdup p s of (ptr, s') \<Rightarrow>
     if ok then s'\<lparr>asked := asked s' @ [Ds_request dat p w ptr]\<rparr> else s')"

definition read_text :: "nat \<Rightarrow> string ds_action" where
  \<comment> \<open>undefined where the string has been freed\<close>
  "read_text ptr s = (case map_of (live s) ptr of None \<Rightarrow> (Undef, s) | Some text \<Rightarrow> (Val text, s))"

definition free_text :: "nat \<Rightarrow> unit ds_action" where
  "free_text ptr = seq (defined_when (\<lambda>s. map_of (live s) ptr \<noteq> None))
     (\<lambda>_. update (\<lambda>s. s\<lparr>live := filter (\<lambda>x. fst x \<noteq> ptr) (live s)\<rparr>))"

definition my_data_completion :: "bool \<Rightarrow> string \<Rightarrow> nat \<Rightarrow> nat \<Rightarrow> unit ds_action" where
  "my_data_completion ok dat version ptr =
     seq (seq (read_text ptr) (\<lambda>p. update (say_line (if \<not> ok then No_data p else Data_line p version dat))))
       (\<lambda>_. free_text ptr)"

definition my_stat_completion :: "bool \<Rightarrow> nat \<Rightarrow> nat \<Rightarrow> unit ds_action" where
  "my_stat_completion ok version ptr =
     seq (seq (read_text ptr) (\<lambda>p. update (say_line (if \<not> ok then No_data p else Stat_line p version))))
       (\<lambda>_. free_text ptr)"

definition watcher :: "bool \<Rightarrow> nat \<Rightarrow> zk_event_type \<Rightarrow> zk_state \<Rightarrow> path \<Rightarrow> downstream \<Rightarrow> downstream" where
  \<comment> \<open>\<open>ok\<close>: what \<^verbatim>\<open>zoo_aget\<close> returns; \<open>client\<close>: the id of the session\<close>
  "watcher ok client type state p s =
     (let s = say_line (Watcher_line type p) s in
      if type = SESSION then
        (if state = CONNECTED then
           (if myid s = 0 \<or> myid s \<noteq> client then say_line (New_session client) (s\<lparr>myid := client\<rparr>) else s)
         else if state = AUTH_FAILED then (say_line Auth_failure s)\<lparr>zh := False\<rparr>
         else if state = EXPIRED then (say_line Session_expired s)\<lparr>zh := False\<rparr>
         else s)
      else if type = CREATED then ask ok True p False s
      else if type = CHANGED then ask ok True p False s
      else s)"

definition get_all_config :: "bool \<times> bool \<times> bool \<Rightarrow> string \<Rightarrow> unit ds_action" where
  "get_all_config oks loc = (case oks of (ok1, ok2, ok3) \<Rightarrow>
     let market = ''/mds/zp/marketinfo.xml''; universal = ''/foreign/config/universal/id.xml'';
         complain = (\<lambda>ok l s. if ok then s else say_line l s) in
     seq (update (\<lambda>s. complain ok1 (Exists_refused universal) (ask ok1 False market True s))) (\<lambda>_.
     seq (update (\<lambda>s. complain ok2 (Get_refused universal) (ask ok2 True universal True s))) (\<lambda>_.
       case get_config_path (Some loc) ''id.xml'' of
         None \<Rightarrow> (\<lambda>s. (Undef, s))
       | Some p \<Rightarrow> update (\<lambda>s. complain ok3 (Get_refused universal) (ask ok3 True p True s)))))"

section \<open>Runs\<close>

datatype ds_label = Node_event zk_event_type path bool | Session_event zk_state nat | Answer bool string nat

definition answer :: "bool \<Rightarrow> string \<Rightarrow> nat \<Rightarrow> ds_request \<Rightarrow> unit ds_action" where
  "answer ok dat version q =
     (if wants_data q then my_data_completion ok dat version (text_ptr q)
      else my_stat_completion ok version (text_ptr q))"

inductive ds_step :: "downstream \<Rightarrow> ds_label \<Rightarrow> (unit, unit) outcome \<Rightarrow> downstream \<Rightarrow> bool" where
  node: "type \<noteq> SESSION \<Longrightarrow> p \<in> set (watches s) \<Longrightarrow>
    ds_step s (Node_event type p ok) (Val ()) (watcher ok 0 type state p (s\<lparr>watches := remove1 p (watches s)\<rparr>))"
| session: "ds_step s (Session_event state client) (Val ()) (watcher True client SESSION state [] s)"
| answered: "asked s = q # qs \<Longrightarrow>
    answer ok dat version q (s\<lparr>asked := qs,
      watches := (if watching q \<and> (ok \<or> \<not> wants_data q) then List.insert (target q) (watches s) else watches s)\<rparr>) = (r, s') \<Longrightarrow>
    ds_step s (Answer ok dat version) r s'"

inductive ds_run :: "downstream \<Rightarrow> ds_label list \<Rightarrow> downstream \<Rightarrow> bool" for s0 where
  start: "ds_run s0 [] s0"
| run_step: "ds_run s0 ls s \<Longrightarrow> ds_step s l (Val ()) s' \<Longrightarrow> ds_run s0 (ls @ [l]) s'"

section \<open>Watches and strings\<close>

fun noticed :: "ds_label list \<Rightarrow> path list" where
  \<comment> \<open>the nodes whose changes the watcher is told of\<close>
  "noticed [] = []"
| "noticed (Node_event type p ok # ls) = p # noticed ls"
| "noticed (l # ls) = noticed ls"

fun refused :: "ds_label \<Rightarrow> bool" where
  \<comment> \<open>a request made in the watcher that the library does not take\<close>
  "refused (Node_event type p ok) \<longleftrightarrow> (type = CREATED \<or> type = CHANGED) \<and> \<not> ok"
| "refused _ = False"

definition potential :: "downstream \<Rightarrow> path multiset" where
  \<comment> \<open>watches set or still to be set\<close>
  "potential s = mset (watches s) + mset (map target (filter watching (asked s)))"

definition strings_ok :: "downstream \<Rightarrow> bool" where
  "strings_ok s \<longleftrightarrow> distinct (map fst (live s)) \<and> (\<forall>x\<in>set (live s). fst x < next_ptr s) \<and>
     distinct (map text_ptr (asked s)) \<and> (\<forall>q\<in>set (asked s). (text_ptr q, target q) \<in> set (live s))"

lemma noticed_append: "noticed (ls @ ms) = noticed ls @ noticed ms"
  by (induction ls rule: noticed.induct) auto

lemma mset_insert_at_most: "mset (List.insert x xs) \<subseteq># add_mset x (mset xs)"
  by (cases "x \<in> set xs") (auto simp: List.insert_def)

lemma length_filter_key:
  "distinct (map fst xs) \<Longrightarrow> (k, v) \<in> set xs \<Longrightarrow> Suc (length (filter (\<lambda>x. fst x \<noteq> k) xs)) = length xs"
proof (induction xs)
  case (Cons x xs)
  show ?case
  proof (cases "fst x = k")
    case True
    with Cons.prems(1) have "filter (\<lambda>x. fst x \<noteq> k) xs = xs" by (intro filter_True) (auto simp: image_iff)
    with True show ?thesis by simp
  next
    case False
    with Cons show ?thesis by auto
  qed
qed simp

lemma say_line_same [simp]:
  "zh (say_line l s) = zh s" "asked (say_line l s) = asked s" "live (say_line l s) = live s"
  "next_ptr (say_line l s) = next_ptr s" "watches (say_line l s) = watches s" "myid (say_line l s) = myid s"
  by (simp_all add: say_line_def)

lemma say_line_ok [simp]: "strings_ok (say_line l s) = strings_ok s" "potential (say_line l s) = potential s"
  by (simp_all add: strings_ok_def potential_def)

lemma ask_effect:
  "strings_ok s \<Longrightarrow> strings_ok (ask ok dat p w s)"
  "potential (ask ok dat p w s) = potential s + (if ok \<and> w then {#p#} else {#})"
  "length (live (ask ok dat p w s)) = Suc (length (live s))"
  "length (asked (ask ok dat p w s)) = length (asked s) + (if ok then 1 else 0)"
  by (force simp: ask_def strdup_def strings_ok_def potential_def)+

lemma watcher_node:
  assumes "type \<noteq> SESSION"
  shows "watcher ok client type state p s =
    (let s = say_line (Watcher_line type p) s in if type = CREATED \<or> type = CHANGED then ask ok True p False s else s)"
  using assms by (simp add: watcher_def Let_def)

lemma watcher_session:
  "strings_ok (watcher ok client SESSION state p s) = strings_ok s"
  "potential (watcher ok client SESSION state p s) = potential s"
  "live (watcher ok client SESSION state p s) = live s" "asked (watcher ok client SESSION state p s) = asked s"
  by (simp_all add: watcher_def Let_def strings_ok_def potential_def say_line_def)

definition answer_line :: "bool \<Rightarrow> string \<Rightarrow> nat \<Rightarrow> ds_request \<Rightarrow> ds_line" where
  "answer_line ok dat version q =
     (if \<not> ok then No_data (target q) else if wants_data q then Data_line (target q) version dat
      else Stat_line (target q) version)"

lemma answer_run:
  assumes "map_of (live s) (text_ptr q) = Some (target q)"
  shows "answer ok dat version q s =
    (Val (), (say_line (answer_line ok dat version q) s)\<lparr>live := filter (\<lambda>x. fst x \<noteq> text_ptr q) (live s)\<rparr>)"
  using assms
  by (simp add: answer_def my_data_completion_def my_stat_completion_def seq_def read_text_def free_text_def answer_line_def)

lemma answered_effect:
  assumes "strings_ok s" "asked s = q # qs"
    and "w = (if watching q \<and> (ok \<or> \<not> wants_data q) then List.insert (target q) (watches s) else watches s)"
    and "s' = (say_line l (s\<lparr>asked := qs, watches := w\<rparr>))\<lparr>live := filter (\<lambda>x. fst x \<noteq> text_ptr q) (live s)\<rparr>"
  shows "strings_ok s'" "potential s' \<subseteq># potential s" "Suc (length (live s')) = length (live s)" "asked s' = qs"
proof -
  have q: "(text_ptr q, target q) \<in> set (live s)" using assms(1,2) by (simp add: strings_ok_def)
  show "strings_ok s'"
    using assms(1,2) unfolding assms(4)
    by (auto simp: strings_ok_def say_line_def distinct_map_filter) (metis imageI)
  have "mset w \<subseteq># mset (watches s) + (if watching q then {#target q#} else {#})"
    using mset_insert_at_most [of "target q" "watches s"] assms(3) by auto
  then show "potential s' \<subseteq># potential s"
    unfolding assms(4) using assms(2) by (auto simp: potential_def say_line_def)
  show "Suc (length (live s')) = length (live s)"
    unfolding assms(4) using length_filter_key [OF _ q] assms(1) by (simp add: strings_ok_def)
  show "asked s' = qs" unfolding assms(4) by (simp add: say_line_def)
qed

lemma answered_step:
  assumes "ds_step s (Answer ok dat version) r s'" "strings_ok s"
  shows "\<exists>q qs w. asked s = q # qs \<and> r = Val () \<and>
    w = (if watching q \<and> (ok \<or> \<not> wants_data q) then List.insert (target q) (watches s) else watches s) \<and>
    s' = (say_line (answer_line ok dat version q) (s\<lparr>asked := qs, watches := w\<rparr>))\<lparr>live := filter (\<lambda>x. fst x \<noteq> text_ptr q) (live s)\<rparr>"
  using assms(1)
proof cases
  case (answered q qs)
  have "map_of (live s) (text_ptr q) = Some (target q)"
    using assms(2) answered(1) by (simp add: strings_ok_def)
  then show ?thesis using answered answer_run by simp
qed

lemma ds_step_effect:
  assumes "ds_step s l r s'" "strings_ok s"
  shows "r = Val () \<and> strings_ok s' \<and> potential s' + mset (noticed [l]) \<subseteq># potential s \<and>
    length (live s') + length (asked s) = length (live s) + length (asked s') + (if refused l then 1 else 0)"
proof (cases l)
  case (Node_event type p ok)
  from assms(1) [unfolded Node_event] obtain state where
    n: "type \<noteq> SESSION" "p \<in> set (watches s)" "r = Val ()" "s' = watcher ok 0 type state p (s\<lparr>watches := remove1 p (watches s)\<rparr>)"
    by cases auto
  let ?s = "s\<lparr>watches := remove1 p (watches s)\<rparr>"
  have "strings_ok ?s" "potential ?s + {#p#} = potential s" "live ?s = live s" "asked ?s = asked s"
    using assms(2) n(2) by (simp_all add: strings_ok_def potential_def)
  then show ?thesis
    using n Node_event by (auto simp: watcher_node Let_def ask_effect)
next
  case (Session_event state client)
  from assms(1) [unfolded Session_event] assms(2) Session_event show ?thesis by cases (simp add: watcher_session)
next
  case (Answer ok dat version)
  obtain q qs w where a: "asked s = q # qs" "r = Val ()"
    "w = (if watching q \<and> (ok \<or> \<not> wants_data q) then List.insert (target q) (watches s) else watches s)"
    "s' = (say_line (answer_line ok dat version q) (s\<lparr>asked := qs, watches := w\<rparr>))\<lparr>live := filter (\<lambda>x. fst x \<noteq> text_ptr q) (live s)\<rparr>"
    using answered_step [OF assms(1) [unfolded Answer] assms(2)] by blast
  show ?thesis using answered_effect [OF assms(2) a(1,3,4)] a(1,2) Answer by auto
qed

lemma ds_run_effect:
  assumes "ds_run s0 ls s" "strings_ok s0"
  shows "strings_ok s \<and> potential s + mset (noticed ls) \<subseteq># potential s0 \<and>
    length (live s) + length (asked s0) = length (live s0) + length (asked s) + length (filter refused ls)"
  using assms(1)
proof induction
  case start
  then show ?case using assms(2) by simp
next
  case (run_step ls s l s')
  note e = ds_step_effect [OF run_step.hyps(2)] run_step.IH
  have "potential s' + mset (noticed [l]) + mset (noticed ls) \<subseteq># potential s0"
    using e by (meson subset_mset.add_right_mono subset_mset.order_trans)
  then show ?case using e by (auto simp: noticed_append [of ls "[l]"] ac_simps)
qed

definition ds_init :: "downstream" where
  "ds_init = \<lparr>zh = True, myid = 0, asked = [], live = [], next_ptr = 0, watches = [], printed = []\<rparr>"

text \<open>The nodes that are asked for, each with whether the library takes the request.\<close>

definition start_paths :: "bool \<times> bool \<times> bool \<Rightarrow> string \<Rightarrow> path list" where
  "start_paths oks loc = (case oks of (ok1, ok2, ok3) \<Rightarrow>
     (if ok1 then [''/mds/zp/marketinfo.xml''] else []) @ (if ok2 then [''/foreign/config/universal/id.xml''] else []) @
     (if ok3 then [if loc = [] then ''/foreign/config/universal/id.xml'' else ''/foreign/config/'' @ loc @ ''/id.xml''] else []))"

lemma get_all_config_run:
  assumes "length loc < 200"
  shows "\<exists>s0. get_all_config oks loc ds_init = (Val (), s0) \<and> strings_ok s0 \<and> length (live s0) = 3 \<and>
    potential s0 = mset (start_paths oks loc) \<and> length (asked s0) = length (start_paths oks loc)"
proof -
  obtain ok1 ok2 ok3 where oks: "oks = (ok1, ok2, ok3)" by (cases oks)
  have p: "get_config_path (Some loc) ''id.xml'' =
      Some (if loc = [] then ''/foreign/config/universal/id.xml'' else ''/foreign/config/'' @ loc @ ''/id.xml'')"
    using assms by (cases loc) (simp_all add: get_config_path_def Let_def)
  have "strings_ok ds_init" "potential ds_init = {#}" "live ds_init = []" "asked ds_init = []"
    by (simp_all add: ds_init_def strings_ok_def potential_def)
  then show ?thesis by (simp add: get_all_config_def oks p seq_def Let_def ask_effect start_paths_def)
qed

lemma start_paths_distinct:
  assumes "loc \<noteq> []" "loc \<noteq> ''universal''"
  shows "distinct (start_paths oks loc)"
proof -
  have "loc @ ''/id.xml'' \<noteq> ''universal/id.xml''"
  proof
    assume "loc @ ''/id.xml'' = ''universal/id.xml''"
    then have "loc @ ''/id.xml'' = ''universal'' @ ''/id.xml''" by simp
    then have "loc = ''universal''" by (subst (asm) append_same_eq)
    with assms(2) show False by blast
  qed
  then show ?thesis using assms(1) by (cases oks) (auto simp: start_paths_def)
qed

lemma distinct_mset_subset:
  assumes "mset xs \<subseteq># mset ys" "distinct ys"
  shows "distinct xs"
proof -
  have "count (mset xs) a \<le> 1" for a
    using mset_subset_eq_count [OF assms(1), of a] assms(2) unfolding distinct_count_atmost_1
    by (metis le_trans le_refl zero_le_one)
  then show ?thesis unfolding distinct_count_atmost_1
    by (metis count_mset_0_iff le_neq_implies_less less_one)
qed

text \<open>
  C26: After the three requests of the start, in any order of events and answers: no completion reads or frees a
  string that has been freed; the answer to a request prints one line, about the node of that request. Every request
  in flight has a string of its own, and there are as many others, lost for good, as the library refused calls. The changes of nodes the watcher is told of are, one by one, of nodes whose request was
  accepted at the start: it asks for the new data without setting a watch, so that the second change of a node goes
  unnoticed (when the three nodes are different, that is unless the location is empty or \<^verbatim>\<open>universal\<close>).
\<close>

theorem downstream_runs:
  assumes "length loc < 200" "get_all_config oks loc ds_init = (r0, s0)" "ds_run s0 ls s"
  shows "r0 = Val () \<and> (\<forall>l r s'. ds_step s l r s' \<longrightarrow> r = Val ()) \<and>
    (\<forall>ok dat version r s'. ds_step s (Answer ok dat version) r s' \<longrightarrow>
      printed s' = printed s @ [let q = hd (asked s) in
        if \<not> ok then No_data (target q) else if wants_data q then Data_line (target q) version dat
        else Stat_line (target q) version]) \<and>
    distinct (map text_ptr (asked s)) \<and> (\<forall>q\<in>set (asked s). map_of (live s) (text_ptr q) = Some (target q)) \<and>
    length (live s) = length (asked s) + (3 - length (start_paths oks loc)) + length (filter refused ls) \<and>
    mset (noticed ls) \<subseteq># mset (start_paths oks loc) \<and>
    (loc \<noteq> [] \<and> loc \<noteq> ''universal'' \<longrightarrow> distinct (noticed ls))"
proof -
  have s0: "r0 = Val ()" "strings_ok s0" "length (live s0) = 3" "potential s0 = mset (start_paths oks loc)"
    "length (asked s0) = length (start_paths oks loc)"
    using get_all_config_run [OF assms(1), of oks] assms(2) by auto
  note run = ds_run_effect [OF assms(3) s0(2)]
  have a: "r = Val ()" if "ds_step s l r s'" for l r s' using ds_step_effect [OF that] run by blast
  have b: "printed s' = printed s @ [let q = hd (asked s) in
        if \<not> ok then No_data (target q) else if wants_data q then Data_line (target q) version dat
        else Stat_line (target q) version]" if "ds_step s (Answer ok dat version) r s'" for ok dat version r s'
    using answered_step [OF that] run by (auto simp: answer_line_def say_line_def Let_def)
  have c: "mset (noticed ls) \<subseteq># mset (start_paths oks loc)"
    using run s0(4) by (metis mset_subset_eq_add_right subset_mset.order_trans)
  have "length (start_paths oks loc) \<le> 3" by (cases oks) (simp add: start_paths_def)
  then have d: "length (live s) = length (asked s) + (3 - length (start_paths oks loc)) + length (filter refused ls)"
    using run s0 by linarith
  have e: "distinct (map text_ptr (asked s))" "\<forall>q\<in>set (asked s). map_of (live s) (text_ptr q) = Some (target q)"
    using run by (simp_all add: strings_ok_def)
  show ?thesis
    using a b c d e s0(1) distinct_mset_subset [OF c start_paths_distinct] by blast
qed

text \<open>With all three requests accepted, the answer to the second one, and a change of its node.\<close>

theorem downstream_runs_witness:
  "\<exists>s0 s. ds_run s0 [Answer True ''a'' 1, Answer True ''b'' 1, Node_event CHANGED ''/foreign/config/universal/id.xml'' True] s \<and>
     length (live s) = length (asked s) \<and> watches s = [''/mds/zp/marketinfo.xml'']"
proof -
  let ?m = "''/mds/zp/marketinfo.xml''" and ?u = "''/foreign/config/universal/id.xml''" and ?p = "''/foreign/config/sh/id.xml''"
  let ?s0 = "\<lparr>zh = True, myid = 0, asked = [Ds_request False ?m True 0, Ds_request True ?u True 1, Ds_request True ?p True 2],
    live = [(2, ?p), (1, ?u), (0, ?m)], next_ptr = 3, watches = [], printed = []\<rparr>"
  let ?s1 = "\<lparr>zh = True, myid = 0, asked = [Ds_request True ?u True 1, Ds_request True ?p True 2],
    live = [(2, ?p), (1, ?u)], next_ptr = 3, watches = [?m], printed = [Stat_line ?m 1]\<rparr>"
  let ?s2 = "\<lparr>zh = True, myid = 0, asked = [Ds_request True ?p True 2],
    live = [(2, ?p)], next_ptr = 3, watches = [?u, ?m], printed = [Stat_line ?m 1, Data_line ?u 1 ''b'']\<rparr>"
  let ?s3 = "\<lparr>zh = True, myid = 0, asked = [Ds_request True ?p True 2, Ds_request True ?u False 3],
    live = [(3, ?u), (2, ?p)], next_ptr = 4, watches = [?m], printed = [Stat_line ?m 1, Data_line ?u 1 ''b'', Watcher_line CHANGED ?u]\<rparr>"
  have init: "get_all_config (True, True, True) ''sh'' ds_init = (Val (), ?s0)"
    by (simp add: get_all_config_def ds_init_def seq_def Let_def ask_def strdup_def get_config_path_def)
  have "ds_step ?s0 (Answer True ''a'' 1) (Val ()) ?s1"
    by (rule answered) (auto simp: answer_def my_stat_completion_def seq_def read_text_def free_text_def say_line_def)
  moreover have "ds_step ?s1 (Answer True ''b'' 1) (Val ()) ?s2"
    by (rule answered) (auto simp: answer_def my_data_completion_def seq_def read_text_def free_text_def say_line_def)
  moreover have "watcher True 0 CHANGED CONNECTED ?u (?s2\<lparr>watches := remove1 ?u (watches ?s2)\<rparr>) = ?s3"
    by (simp add: watcher_node Let_def ask_def strdup_def say_line_def)
  then have "ds_step ?s2 (Node_event CHANGED ?u True) (Val ()) ?s3"
    using node [of CHANGED ?u ?s2 True CONNECTED] by simp
  ultimately have run: "ds_run ?s0 [Answer True ''a'' 1, Answer True ''b'' 1, Node_event CHANGED ?u True] ?s3"
    using run_step [OF run_step [OF run_step [OF start]]] by fastforce
  then show ?thesis
    using downstream_runs [OF _ init run] by (intro exI [of _ ?s0] exI [of _ ?s3]) (simp add: start_paths_def)
qed

end
