(* ===== verification/EtcdClient.thy ===== *)
theory EtcdClient
  imports Prelude
begin

text \<open>
  \<^verbatim>\<open>cpp/opensrc/etcd/raw-grpc/etcd_client.cc\<close>: a client that reads configuration keys from etcd and watches
  them. gRPC and the XML reader of boost are not part of the program: the answers of the server, in the
  order of the calls, and the look-ups in the configuration file are parameters. The calls made to the
  library and to the callback are recorded in the state.
\<close>

section \<open>State\<close>

datatype status_code = UNAVAILABLE | DEADLINE_EXCEEDED | Other_code nat
datatype rpc_status = Status_ok | Status_error status_code string

type_synonym key_value = "string \<times> string"

datatype event_type = Event_PUT | Event_DELETE | Event_other

record watch_event =
  ev_type :: event_type
  ev_version :: int
  ev_kv :: "key_value option"

datatype rpc =
  Authenticate string string
  | Range_call string "string option" \<comment> \<open>the key, and the token in the metadata\<close>
  | Open_watch "string option"
  | Create_watch string
  | Writes_done | Finish_watch

datatype etcd_line =
  Token_is string | Rpc_error status_code string | Error_code status_code | Found string string | Empty_value
  | Create_event | Put_event | Delete_event | Read_error | Finished | Warning_ssl

record etcd_client =
  token :: string
  has_callback :: bool
  called :: "(string \<times> string \<times> string) list"
  rpcs :: "rpc list"
  pending_gets :: "nat list"
  next_call :: nat
  has_stream :: bool
  lines :: "etcd_line list"

datatype etcd_exn = Bad_function_call | Bad_path string

type_synonym 'a etcd_action = "(etcd_client, etcd_exn, 'a) action"

definition put_line :: "etcd_line \<Rightarrow> unit etcd_action" where
  "put_line l = update (\<lambda>s. s\<lparr>lines := lines s @ [l]\<rparr>)"

definition put_rpc :: "rpc \<Rightarrow> unit etcd_action" where
  "put_rpc r = update (\<lambda>s. s\<lparr>rpcs := rpcs s @ [r]\<rparr>)"

definition call_func :: "string \<Rightarrow> string \<Rightarrow> string \<Rightarrow> unit etcd_action" where
  "call_func error key val s =
     (if has_callback s then (Val (), s\<lparr>called := called s @ [(error, key, val)]\<rparr>) else (Throw Bad_function_call, s))"

definition metadata :: "etcd_client \<Rightarrow> string option" where
  "metadata s = (if token s \<noteq> [] then Some (token s) else None)"

section \<open>Authentication, answers\<close>

definition auth :: "rpc_status \<Rightarrow> string \<Rightarrow> string \<Rightarrow> string \<Rightarrow> bool etcd_action" where
  \<comment> \<open>\<open>tok\<close>: the token in the reply\<close>
  "auth st tok user passwd =
     seq (put_rpc (Authenticate user passwd)) (\<lambda>_.
       case st of
         Status_ok \<Rightarrow> seq (update (\<lambda>s. s\<lparr>token := tok\<rparr>)) (\<lambda>_. seq (put_line (Token_is tok)) (\<lambda>_. ret True))
       | Status_error code msg \<Rightarrow> seq (put_line (Rpc_error code msg)) (\<lambda>_. ret False))"

definition process_get_response :: "rpc_status \<Rightarrow> key_value list \<Rightarrow> string etcd_action" where
  "process_get_response st kvs =
     (case st of
        Status_ok \<Rightarrow>
          (case kvs of
             (k, v) # _ \<Rightarrow> seq (put_line (Found k v)) (\<lambda>_. ret v)
           | [] \<Rightarrow> seq (put_line Empty_value) (\<lambda>_. ret []))
      | Status_error code msg \<Rightarrow> seq (put_line (Rpc_error code msg)) (\<lambda>_. ret ''RPC failed''))"

fun call_pairs :: "key_value list \<Rightarrow> unit etcd_action" where
  "call_pairs [] = ret ()"
| "call_pairs ((k, v) # kvs) = seq (call_func [] k v) (\<lambda>_. call_pairs kvs)"

definition process_key_response :: "string \<Rightarrow> rpc_status \<Rightarrow> key_value list \<Rightarrow> unit etcd_action" where
  "process_key_response key st kvs =
     (case st of
        Status_ok \<Rightarrow> seq (call_pairs kvs) (\<lambda>_. if kvs = [] then call_func [] key [] else ret ())
      | Status_error code msg \<Rightarrow> call_func msg key [])"

definition get :: "rpc_status \<times> key_value list \<Rightarrow> string \<Rightarrow> string etcd_action" where
  "get answer key s =
     seq (put_rpc (Range_call key (metadata s))) (\<lambda>_. process_get_response (fst answer) (snd answer)) s"

section \<open>GetAndWatch\<close>

type_synonym range_answer = "rpc_status \<times> key_value list"

fun range_key :: "string \<Rightarrow> range_answer list \<Rightarrow> (bool \<times> range_answer list) option etcd_action" where
  \<comment> \<open>the \<^verbatim>\<open>while (true)\<close> for one key; \<open>None\<close>: no further answer; the flag tells to go on with the next key\<close>
  "range_key key [] = ret None"
| "range_key key ((st, kvs) # answers) = (\<lambda>s.
     seq (put_rpc (Range_call key (metadata s))) (\<lambda>_.
     seq (process_key_response key st kvs) (\<lambda>_.
       case st of
         Status_ok \<Rightarrow> ret (Some (True, answers))
       | Status_error code msg \<Rightarrow>
           seq (put_line (Error_code code)) (\<lambda>_.
             if code \<noteq> UNAVAILABLE \<and> code \<noteq> DEADLINE_EXCEEDED then ret (Some (False, answers))
             else range_key key answers))) s)"

fun range_keys :: "string list \<Rightarrow> range_answer list \<Rightarrow> (bool \<times> range_answer list) option etcd_action" where
  "range_keys [] answers = ret (Some (True, answers))"
| "range_keys (key # keys) answers =
     seq (range_key key answers) (\<lambda>r. case r of
       None \<Rightarrow> ret None
     | Some (False, answers') \<Rightarrow> ret (Some (False, answers'))
     | Some (True, answers') \<Rightarrow> range_keys keys answers')"

fun write_watches :: "string list \<Rightarrow> unit etcd_action" where
  "write_watches [] = ret ()"
| "write_watches (key # keys) = seq (put_rpc (Create_watch key)) (\<lambda>_. write_watches keys)"

definition handle_event :: "watch_event \<Rightarrow> unit etcd_action" where
  "handle_event ev =
     seq (if ev_type ev = Event_PUT then (if ev_version ev = 1 then put_line Create_event else put_line Put_event)
          else if ev_type ev = Event_DELETE then put_line Delete_event else ret ())
       (\<lambda>_. case ev_kv ev of None \<Rightarrow> ret () | Some (k, v) \<Rightarrow> call_func [] k v)"

fun handle_response :: "watch_event list \<Rightarrow> unit etcd_action" where
  \<comment> \<open>the loop over the events ends with a \<^verbatim>\<open>break\<close>\<close>
  "handle_response [] = ret ()"
| "handle_response (ev # evs) = handle_event ev"

fun read_responses :: "watch_event list list \<Rightarrow> unit etcd_action" where
  \<comment> \<open>the responses until \<^verbatim>\<open>Read\<close> fails\<close>
  "read_responses [] = ret ()"
| "read_responses (r # rs) = seq (handle_response r) (\<lambda>_. read_responses rs)"

definition get_and_watch :: "string list \<Rightarrow> range_answer list \<Rightarrow> watch_event list list \<Rightarrow> unit option etcd_action" where
  "get_and_watch keys answers responses =
     seq (range_keys keys answers) (\<lambda>r. case r of
       None \<Rightarrow> ret None
     | Some (False, _) \<Rightarrow> ret (Some ())
     | Some (True, _) \<Rightarrow>
         seq (put_rpc (Open_watch None)) (\<lambda>_.
         seq (write_watches keys) (\<lambda>_.
         seq (put_rpc Writes_done) (\<lambda>_.
         seq (read_responses responses) (\<lambda>_.
         seq (put_line Read_error) (\<lambda>_.
         seq (put_rpc Finish_watch) (\<lambda>_.
         seq (put_line Finished) (\<lambda>_. ret (Some ())))))))))"

section \<open>Asynchronous calls\<close>

definition async_get :: "string \<Rightarrow> unit etcd_action" where
  \<comment> \<open>the call object is allocated here; its address is the tag\<close>
  "async_get user = update (\<lambda>s.
     s\<lparr>rpcs := rpcs s @ [Range_call user (metadata s)], pending_gets := pending_gets s @ [next_call s],
       next_call := next_call s + 1\<rparr>)"

definition complete_rpc :: "nat \<Rightarrow> range_answer \<Rightarrow> unit etcd_action" where
  \<comment> \<open>one round of \<^verbatim>\<open>AsyncCompleteRpc\<close>: the call object of the tag is read and deleted\<close>
  "complete_rpc tag answer =
     seq (defined_when (\<lambda>s. tag \<in> set (pending_gets s))) (\<lambda>_.
     seq (process_get_response (fst answer) (snd answer)) (\<lambda>_.
     update (\<lambda>s. s\<lparr>pending_gets := remove1 tag (pending_gets s)\<rparr>)))"

definition async_watch :: "string \<Rightarrow> unit etcd_action" where
  "async_watch key =
     seq (update (\<lambda>s. if has_stream s then s else s\<lparr>has_stream := True, rpcs := rpcs s @ [Open_watch None]\<rparr>)) (\<lambda>_.
     put_rpc (Create_watch key))"

definition set_callback :: "unit etcd_action" where
  "set_callback = update (\<lambda>s. s\<lparr>has_callback := True\<rparr>)"

section \<open>Configuration\<close>

record xml_view =
  \<comment> \<open>what the property tree of the file answers\<close>
  xml_string :: "string \<Rightarrow> string option"
  xml_child :: "string \<Rightarrow> bool"
  xml_bool :: "string \<Rightarrow> bool option"

record etcd_config =
  host :: string
  ca_file :: string
  cert_file :: string
  key_file :: string
  cfg_user :: string
  cfg_passwd :: string
  ssl_on :: bool
  auth_on :: bool

definition xml_get :: "xml_view \<Rightarrow> string \<Rightarrow> string etcd_action" where
  "xml_get x p = (case xml_string x p of None \<Rightarrow> throw (Bad_path p) | Some v \<Rightarrow> ret v)"

definition load_ssl :: "xml_view \<Rightarrow> etcd_config \<Rightarrow> etcd_config etcd_action" where
  "load_ssl x c =
     (if xml_child x ''xml.ssl'' \<and> xml_bool x ''xml.ssl.on'' = Some True then
        seq (xml_get x ''xml.ssl.ca-file'') (\<lambda>ca.
        seq (xml_get x ''xml.ssl.cert-file'') (\<lambda>cert.
        seq (xml_get x ''xml.ssl.key-file'') (\<lambda>k.
        ret (c\<lparr>ssl_on := True, ca_file := ca, cert_file := cert, key_file := k\<rparr>))))
      else ret c)"

definition load_auth :: "xml_view \<Rightarrow> etcd_config \<Rightarrow> etcd_config etcd_action" where
  "load_auth x c =
     (if xml_child x ''xml.auth'' \<and> xml_bool x ''xml.auth.on'' = Some True then
        seq (if \<not> ssl_on c then put_line Warning_ssl else ret ()) (\<lambda>_.
        seq (xml_get x ''xml.auth.user'') (\<lambda>u.
        seq (xml_get x ''xml.auth.passwd'') (\<lambda>p.
        ret (c\<lparr>auth_on := True, cfg_user := u, cfg_passwd := p\<rparr>))))
      else ret c)"

definition load_config :: "xml_view \<Rightarrow> etcd_config etcd_action" where
  "load_config x =
     seq (xml_get x ''xml.host'') (\<lambda>h.
     seq (load_ssl x \<lparr>host = h, ca_file = [], cert_file = [], key_file = [], cfg_user = [], cfg_passwd = [],
       ssl_on = False, auth_on = False\<rparr>) (load_auth x))"

datatype credentials = Insecure | Ssl string string string

definition read_file :: "(string \<Rightarrow> string option) \<Rightarrow> string \<Rightarrow> string" where
  \<comment> \<open>empty when the file cannot be opened\<close>
  "read_file files p = (case files p of None \<Rightarrow> [] | Some c \<Rightarrow> c)"

definition connect_client :: "(string \<Rightarrow> string option) \<Rightarrow> rpc_status \<Rightarrow> string \<Rightarrow> etcd_config \<Rightarrow> (credentials \<times> string) etcd_action" where
  \<comment> \<open>the credentials of the channel and the token handed to the client\<close>
  "connect_client files st tok c =
     (if auth_on c then
        seq (auth st tok (cfg_user c) (cfg_passwd c)) (\<lambda>ok.
          ret (Ssl (read_file files (ca_file c)) (read_file files (key_file c)) (read_file files (cert_file c)), if ok then tok else []))
      else ret (Insecure, []))"

section \<open>What GetAndWatch does\<close>

definition retried :: "status_code \<Rightarrow> bool" where
  "retried c \<longleftrightarrow> c = UNAVAILABLE \<or> c = DEADLINE_EXCEEDED"

type_synonym attempts = "(status_code \<times> string) list"

definition failures :: "attempts \<Rightarrow> range_answer list" where
  "failures errs = map (\<lambda>(c, m). (Status_error c m, [])) errs"

definition failure_calls :: "string \<Rightarrow> attempts \<Rightarrow> (string \<times> string \<times> string) list" where
  "failure_calls key errs = map (\<lambda>(c, m). (m, key, [])) errs"

definition value_calls :: "string \<Rightarrow> key_value list \<Rightarrow> (string \<times> string \<times> string) list" where
  "value_calls key kvs = (if kvs = [] then [([], key, [])] else map (\<lambda>(k, v). ([], k, v)) kvs)"

definition response_calls :: "watch_event list list \<Rightarrow> (string \<times> string \<times> string) list" where
  \<comment> \<open>the first event of each response\<close>
  "response_calls rs = concat (map (\<lambda>r. case r of [] \<Rightarrow> [] | ev # _ \<Rightarrow>
     (case ev_kv ev of None \<Rightarrow> [] | Some (k, v) \<Rightarrow> [([], k, v)])) rs)"

named_theorems etcd_simps \<open>running the calls of the client\<close>

declare put_line_def [etcd_simps] put_rpc_def [etcd_simps] call_func_def [etcd_simps] seq_def [etcd_simps] metadata_def [etcd_simps]

lemma call_pairs_run:
  "has_callback s \<Longrightarrow> call_pairs kvs s = (Val (), s\<lparr>called := called s @ map (\<lambda>(k, v). ([], k, v)) kvs\<rparr>)"
proof (induction kvs arbitrary: s)
  case (Cons kv kvs)
  then show ?case by (cases kv) (simp add: etcd_simps)
qed simp

lemma range_key_step:
  assumes "has_callback s"
  shows "range_key key ((Status_ok, kvs) # answers) s = (Val (Some (True, answers)),
      s\<lparr>called := called s @ value_calls key kvs, rpcs := rpcs s @ [Range_call key (metadata s)]\<rparr>)"
    "range_key key ((Status_error c m, kvs) # answers) s =
      (let s' = s\<lparr>called := called s @ [(m, key, [])], rpcs := rpcs s @ [Range_call key (metadata s)], lines := lines s @ [Error_code c]\<rparr> in
       if retried c then range_key key answers s' else (Val (Some (False, answers)), s'))"
  using assms
  by (cases s; simp add: etcd_simps process_key_response_def call_pairs_run value_calls_def retried_def split: status_code.splits)+

declare range_key.simps [simp del]

definition after_failures :: "string \<Rightarrow> attempts \<Rightarrow> etcd_client \<Rightarrow> etcd_client" where
  "after_failures key errs s = s\<lparr>called := called s @ failure_calls key errs,
     rpcs := rpcs s @ replicate (length errs) (Range_call key (metadata s)), lines := lines s @ map (\<lambda>(c, m). Error_code c) errs\<rparr>"

lemma range_key_failures:
  "has_callback s \<Longrightarrow> \<forall>(c, m)\<in>set errs. retried c \<Longrightarrow>
   range_key key (failures errs @ answers) s = range_key key answers (after_failures key errs s)"
proof (induction errs arbitrary: s)
  case Nil
  then show ?case by (simp add: failures_def after_failures_def failure_calls_def)
next
  case (Cons e errs)
  obtain c m where e: "e = (c, m)" by (cases e)
  let ?s = "s\<lparr>called := called s @ [(m, key, [])], rpcs := rpcs s @ [Range_call key (metadata s)], lines := lines s @ [Error_code c]\<rparr>"
  have "range_key key (failures (e # errs) @ answers) s = range_key key (failures errs @ answers) ?s"
    using Cons.prems e by (simp add: failures_def range_key_step(2) Let_def)
  also have "\<dots> = range_key key answers (after_failures key errs ?s)" using Cons by simp
  also have "after_failures key errs ?s = after_failures key (e # errs) s"
    by (simp add: after_failures_def failure_calls_def metadata_def e)
  finally show ?case .
qed

type_synonym script = "(string \<times> attempts \<times> key_value list) list"

definition script_ok :: "script \<Rightarrow> bool" where
  "script_ok sc \<longleftrightarrow> (\<forall>(key, errs, kvs)\<in>set sc. \<forall>(c, m)\<in>set errs. retried c)"

definition script_answers :: "script \<Rightarrow> range_answer list" where
  "script_answers sc = concat (map (\<lambda>(key, errs, kvs). failures errs @ [(Status_ok, kvs)]) sc)"

definition script_calls :: "script \<Rightarrow> (string \<times> string \<times> string) list" where
  "script_calls sc = concat (map (\<lambda>(key, errs, kvs). failure_calls key errs @ value_calls key kvs) sc)"

definition script_rpcs :: "string option \<Rightarrow> script \<Rightarrow> rpc list" where
  "script_rpcs tok sc = concat (map (\<lambda>(key, errs, kvs). replicate (Suc (length errs)) (Range_call key tok)) sc)"

definition script_lines :: "script \<Rightarrow> etcd_line list" where
  "script_lines sc = concat (map (\<lambda>(key, errs, kvs). map (\<lambda>(c, m). Error_code c) errs) sc)"

definition after_script :: "script \<Rightarrow> etcd_client \<Rightarrow> etcd_client" where
  "after_script sc s = s\<lparr>called := called s @ script_calls sc, rpcs := rpcs s @ script_rpcs (metadata s) sc,
     lines := lines s @ script_lines sc\<rparr>"

lemma range_keys_script:
  "has_callback s \<Longrightarrow> script_ok sc \<Longrightarrow>
   range_keys (map fst sc @ keys) (script_answers sc @ answers) s = range_keys keys answers (after_script sc s)"
proof (induction sc arbitrary: s)
  case Nil
  then show ?case by (simp add: script_answers_def after_script_def script_calls_def script_rpcs_def script_lines_def)
next
  case (Cons x sc)
  obtain key errs kvs where x: "x = (key, errs, kvs)" by (cases x) auto
  let ?s1 = "after_failures key errs s"
  let ?s2 = "?s1\<lparr>called := called ?s1 @ value_calls key kvs, rpcs := rpcs ?s1 @ [Range_call key (metadata ?s1)]\<rparr>"
  have ok: "\<forall>(c, m)\<in>set errs. retried c" "script_ok sc" using Cons.prems(2) x by (auto simp: script_ok_def)
  have cb: "has_callback ?s1" "has_callback ?s2" using Cons.prems(1) by (simp_all add: after_failures_def)
  have "range_key key (script_answers (x # sc) @ answers) s = (Val (Some (True, script_answers sc @ answers)), ?s2)"
    using range_key_failures [OF Cons.prems(1) ok(1), of key "(Status_ok, kvs) # script_answers sc @ answers"]
      range_key_step(1) [OF cb(1)] by (simp add: script_answers_def x)
  then have "range_keys (map fst (x # sc) @ keys) (script_answers (x # sc) @ answers) s =
      range_keys (map fst sc @ keys) (script_answers sc @ answers) ?s2" by (simp add: x seq_def)
  also have "\<dots> = range_keys keys answers (after_script sc ?s2)" using Cons.IH [OF cb(2) ok(2)] .
  also have "metadata ?s2 = metadata s" "metadata ?s1 = metadata s" by (simp_all add: metadata_def after_failures_def)
  then have "after_script sc ?s2 = after_script (x # sc) s"
    by (simp add: after_script_def after_failures_def script_calls_def script_rpcs_def script_lines_def x
        replicate_append_same [symmetric])
  finally show ?case .
qed

lemma write_watches_run: "write_watches keys s = (Val (), s\<lparr>rpcs := rpcs s @ map Create_watch keys\<rparr>)"
  by (induction keys arbitrary: s) (simp_all add: etcd_simps)

lemma read_responses_run:
  "has_callback s \<Longrightarrow> \<exists>ls. read_responses rs s = (Val (), s\<lparr>called := called s @ response_calls rs, lines := lines s @ ls\<rparr>)"
proof (induction rs arbitrary: s)
  case Nil
  then show ?case by (auto simp: response_calls_def intro: exI [of _ "[]"])
next
  case (Cons r rs)
  have "\<exists>ls. handle_response r s = (Val (), s\<lparr>called := called s @ response_calls [r], lines := lines s @ ls\<rparr>)"
  proof (cases r)
    case Nil
    then show ?thesis by (auto simp: response_calls_def intro: exI [of _ "[]"])
  next
    case (Cons ev evs)
    then show ?thesis using \<open>has_callback s\<close>
      by (cases s) (auto simp: handle_event_def etcd_simps response_calls_def split: option.splits intro: exI [of _ "[]"])
  qed
  then obtain ls where ls: "handle_response r s = (Val (), s\<lparr>called := called s @ response_calls [r], lines := lines s @ ls\<rparr>)" by blast
  let ?s = "s\<lparr>called := called s @ response_calls [r], lines := lines s @ ls\<rparr>"
  obtain ls' where "read_responses rs ?s = (Val (), ?s\<lparr>called := called ?s @ response_calls rs, lines := lines ?s @ ls'\<rparr>)"
    using Cons.IH [of ?s] Cons.prems by auto
  moreover have "response_calls (r # rs) = response_calls [r] @ response_calls rs" by (simp add: response_calls_def)
  ultimately show ?case using ls by (auto simp: seq_def)
qed

text \<open>
  C27: \<^verbatim>\<open>GetAndWatch\<close>. Each key is asked for again while the server is unavailable or too slow, however often;
  every failure and every value of the answer, or the empty value when there is none, reaches the callback, in the
  order of the keys; with any other failure the function returns at once and opens no watch. After the last key one
  stream is opened with one request per key, in order; of every response only the first event reaches
  the callback. The reads carry the token when there is one, the watch never does.
\<close>

theorem get_and_watch_run:
  assumes "has_callback s" "script_ok sc"
  shows "(\<exists>s'. get_and_watch (map fst sc) (script_answers sc @ answers) responses s = (Val (Some ()), s') \<and>
      called s' = called s @ script_calls sc @ response_calls responses \<and>
      rpcs s' = rpcs s @ script_rpcs (metadata s) sc @ [Open_watch None] @ map (\<lambda>(key, _). Create_watch key) sc @ [Writes_done, Finish_watch]) \<and>
    (\<not> retried c \<longrightarrow> (\<forall>(c, m)\<in>set errs. retried c) \<longrightarrow>
      (\<exists>s'. get_and_watch (map fst sc @ key # keys) (script_answers sc @ failures errs @ (Status_error c m, kvs) # answers) responses s =
          (Val (Some ()), s') \<and>
        called s' = called s @ script_calls sc @ failure_calls key errs @ [(m, key, [])] \<and>
        rpcs s' = rpcs s @ script_rpcs (metadata s) sc @ replicate (Suc (length errs)) (Range_call key (metadata s))))"
proof (intro conjI impI)
  let ?s1 = "after_script sc s"
  let ?s2 = "?s1\<lparr>rpcs := rpcs ?s1 @ [Open_watch None] @ map Create_watch (map fst sc) @ [Writes_done]\<rparr>"
  have cb: "has_callback ?s1" "has_callback ?s2" using assms(1) by (simp_all add: after_script_def)
  have keys: "range_keys (map fst sc) (script_answers sc @ answers) s = (Val (Some (True, answers)), ?s1)"
    using range_keys_script [OF assms, of "[]" answers] by simp
  obtain ls where ls: "read_responses responses ?s2 = (Val (), ?s2\<lparr>called := called ?s2 @ response_calls responses, lines := lines ?s2 @ ls\<rparr>)"
    using read_responses_run [OF cb(2)] by blast
  have map: "map (\<lambda>(key, _). Create_watch key) sc = map Create_watch (map fst sc)" by auto
  show "\<exists>s'. get_and_watch (map fst sc) (script_answers sc @ answers) responses s = (Val (Some ()), s') \<and>
      called s' = called s @ script_calls sc @ response_calls responses \<and>
      rpcs s' = rpcs s @ script_rpcs (metadata s) sc @ [Open_watch None] @ map (\<lambda>(key, _). Create_watch key) sc @ [Writes_done, Finish_watch]"
    using ls unfolding map
    by (simp add: get_and_watch_def seq_def keys put_rpc_def put_line_def write_watches_run after_script_def)
next
  assume c: "\<not> retried c" "\<forall>(c, m)\<in>set errs. retried c"
  let ?s1 = "after_script sc s" let ?s2 = "after_failures key errs ?s1"
  have cb: "has_callback ?s1" "has_callback ?s2" using assms(1) by (simp_all add: after_script_def after_failures_def)
  have md: "metadata ?s1 = metadata s" "metadata ?s2 = metadata s" by (simp_all add: metadata_def after_script_def after_failures_def)
  have "range_keys (map fst sc @ key # keys) (script_answers sc @ failures errs @ (Status_error c m, kvs) # answers) s =
      range_keys (key # keys) (failures errs @ (Status_error c m, kvs) # answers) ?s1"
    by (rule range_keys_script [OF assms])
  also have "\<dots> = (Val (Some (False, answers)), ?s2\<lparr>called := called ?s2 @ [(m, key, [])],
      rpcs := rpcs ?s2 @ [Range_call key (metadata ?s2)], lines := lines ?s2 @ [Error_code c]\<rparr>)"
    using range_key_failures [OF cb(1) c(2), of key] range_key_step(2) [OF cb(2)] c(1) by (simp add: seq_def Let_def)
  finally show "\<exists>s'. get_and_watch (map fst sc @ key # keys) (script_answers sc @ failures errs @ (Status_error c m, kvs) # answers) responses s =
          (Val (Some ()), s') \<and>
        called s' = called s @ script_calls sc @ failure_calls key errs @ [(m, key, [])] \<and>
        rpcs s' = rpcs s @ script_rpcs (metadata s) sc @ replicate (Suc (length errs)) (Range_call key (metadata s))"
    by (simp add: get_and_watch_def seq_def md)
      (simp add: after_script_def after_failures_def metadata_def replicate_append_same [symmetric])
qed

text \<open>
  One key that is unavailable once and has one value, a response with two events of which the second is lost; then
  a key that may not be read.
\<close>

theorem get_and_watch_run_witness:
  "\<exists>s'. get_and_watch [''a''] [(Status_error UNAVAILABLE ''down'', []), (Status_ok, [(''a'', ''1'')])]
        [[\<lparr>ev_type = Event_PUT, ev_version = 1, ev_kv = Some (''a'', ''2'')\<rparr>, \<lparr>ev_type = Event_PUT, ev_version = 2, ev_kv = Some (''a'', ''3'')\<rparr>]]
        \<lparr>token = ''t'', has_callback = True, called = [], rpcs = [], pending_gets = [], next_call = 0, has_stream = False, lines = []\<rparr> =
      (Val (Some ()), s') \<and>
    called s' = [(''down'', ''a'', []), ([], ''a'', ''1''), ([], ''a'', ''2'')] \<and>
    rpcs s' = [Range_call ''a'' (Some ''t''), Range_call ''a'' (Some ''t''), Open_watch None, Create_watch ''a'', Writes_done, Finish_watch]"
proof -
  let ?s = "\<lparr>token = ''t'', has_callback = True, called = [], rpcs = [], pending_gets = [], next_call = 0, has_stream = False, lines = []\<rparr>"
  have "has_callback ?s" "script_ok [(''a'', [(UNAVAILABLE, ''down'')], [(''a'', ''1'')])]"
    by (simp_all add: script_ok_def retried_def)
  from get_and_watch_run [where answers = "[]" and responses =
      "[[\<lparr>ev_type = Event_PUT, ev_version = 1, ev_kv = Some (''a'', ''2'')\<rparr>, \<lparr>ev_type = Event_PUT, ev_version = 2, ev_kv = Some (''a'', ''3'')\<rparr>]]",
      OF this, THEN conjunct1]
  show ?thesis
    by (simp add: script_answers_def script_calls_def script_rpcs_def failures_def failure_calls_def value_calls_def
        response_calls_def metadata_def)
qed

section \<open>Asynchronous calls and configuration\<close>

text \<open>Every call object is deleted once, when its answer is read, and there is one stream for all watches.\<close>

definition gets_ok :: "etcd_client \<Rightarrow> bool" where
  "gets_ok s \<longleftrightarrow> distinct (pending_gets s) \<and> (\<forall>t\<in>set (pending_gets s). t < next_call s) \<and>
     (has_stream s \<longleftrightarrow> Open_watch None \<in> set (rpcs s)) \<and> length (filter (\<lambda>r. r = Open_watch None) (rpcs s)) \<le> 1"

lemma async_get_run:
  "gets_ok s \<Longrightarrow> \<exists>s'. async_get user s = (Val (), s') \<and> gets_ok s' \<and> pending_gets s' = pending_gets s @ [next_call s] \<and>
     next_call s \<notin> set (pending_gets s)"
  by (auto simp: async_get_def gets_ok_def)

lemma complete_rpc_run:
  assumes "gets_ok s"
  shows "(\<exists>s'. complete_rpc tag answer s = (Val (), s')) \<longleftrightarrow> tag \<in> set (pending_gets s)"
    "complete_rpc tag answer s = (Val (), s') \<Longrightarrow> gets_ok s' \<and> set (pending_gets s') = set (pending_gets s) - {tag}"
  using assms
  by (auto simp: complete_rpc_def process_get_response_def etcd_simps gets_ok_def split: rpc_status.splits list.splits if_splits)

lemma async_watch_run:
  assumes "gets_ok s"
  shows "\<exists>s'. async_watch key s = (Val (), s') \<and> gets_ok s' \<and> has_stream s'"
proof -
  have none: "filter (\<lambda>r. r = Open_watch None) xs = []" if "Open_watch None \<notin> set xs" for xs
    using that by (auto simp: filter_empty_conv)
  show ?thesis using assms none by (auto simp: async_watch_def etcd_simps gets_ok_def)
qed

definition ssl_enabled :: "xml_view \<Rightarrow> bool" where
  "ssl_enabled x \<longleftrightarrow> xml_child x ''xml.ssl'' \<and> xml_bool x ''xml.ssl.on'' = Some True"

definition auth_enabled :: "xml_view \<Rightarrow> bool" where
  "auth_enabled x \<longleftrightarrow> xml_child x ''xml.auth'' \<and> xml_bool x ''xml.auth.on'' = Some True"

lemma xml_get_eq_Val: "xml_get x p s = (Val v, s') \<longleftrightarrow> xml_string x p = Some v \<and> s' = s"
  by (auto simp: xml_get_def split: option.splits)

lemma xml_get_ex: "(\<exists>v s'. xml_get x p s = (Val v, s') \<and> P v s') \<longleftrightarrow> (\<exists>v. xml_string x p = Some v \<and> P v s)"
  by (auto simp: xml_get_eq_Val)

lemma load_ssl_run:
  "load_ssl x c s = (Val c', s') \<longleftrightarrow>
     (if ssl_enabled x then s' = s \<and> (\<exists>ca cert k. xml_string x ''xml.ssl.ca-file'' = Some ca \<and>
        xml_string x ''xml.ssl.cert-file'' = Some cert \<and> xml_string x ''xml.ssl.key-file'' = Some k \<and>
        c' = c\<lparr>ssl_on := True, ca_file := ca, cert_file := cert, key_file := k\<rparr>)
      else c' = c \<and> s' = s)"
  by (auto simp: load_ssl_def ssl_enabled_def seq_eq_Val xml_get_eq_Val)

lemma load_auth_run:
  "load_auth x c s = (Val c', s') \<longleftrightarrow>
     (if auth_enabled x then s' = (if ssl_on c then s else s\<lparr>lines := lines s @ [Warning_ssl]\<rparr>) \<and>
        (\<exists>u p. xml_string x ''xml.auth.user'' = Some u \<and> xml_string x ''xml.auth.passwd'' = Some p \<and>
          c' = c\<lparr>auth_on := True, cfg_user := u, cfg_passwd := p\<rparr>)
      else c' = c \<and> s' = s)"
  by (auto simp: load_auth_def auth_enabled_def seq_eq_Val xml_get_eq_Val put_line_def split: if_splits)

definition config_complete :: "xml_view \<Rightarrow> bool" where
  "config_complete x \<longleftrightarrow> xml_string x ''xml.host'' \<noteq> None \<and>
     (ssl_enabled x \<longrightarrow> (\<forall>p\<in>set [''xml.ssl.ca-file'', ''xml.ssl.cert-file'', ''xml.ssl.key-file'']. xml_string x p \<noteq> None)) \<and>
     (auth_enabled x \<longrightarrow> (\<forall>p\<in>set [''xml.auth.user'', ''xml.auth.passwd'']. xml_string x p \<noteq> None))"

lemma load_config_val:
  assumes "load_config x s = (Val c, s')"
  shows "config_complete x" "ssl_on c = ssl_enabled x" "auth_on c = auth_enabled x"
    "lines s' = lines s @ (if auth_enabled x \<and> \<not> ssl_enabled x then [Warning_ssl] else [])"
    "\<not> ssl_enabled x \<Longrightarrow> ca_file c = [] \<and> cert_file c = [] \<and> key_file c = []"
  using assms
  by (auto simp: load_config_def seq_eq_Val xml_get_eq_Val load_ssl_run load_auth_run config_complete_def split: if_splits)

lemma load_config_complete:
  assumes "config_complete x"
  shows "\<exists>c s'. load_config x s = (Val c, s')"
proof -
  obtain h where h: "xml_string x ''xml.host'' = Some h" using assms by (auto simp: config_complete_def)
  let ?c = "\<lparr>host = h, ca_file = [], cert_file = [], key_file = [], cfg_user = [], cfg_passwd = [], ssl_on = False, auth_on = False\<rparr>"
  have "\<exists>c1. load_ssl x ?c s = (Val c1, s)" using assms by (auto simp: load_ssl_run config_complete_def)
  then obtain c1 where c1: "load_ssl x ?c s = (Val c1, s)" by blast
  have "\<exists>c s'. load_auth x c1 s = (Val c, s')" using assms by (auto simp: load_auth_run config_complete_def)
  then show ?thesis using h c1 by (auto simp: load_config_def seq_eq_Val xml_get_eq_Val)
qed

lemma connect_client_run:
  "\<exists>s'. connect_client files st tok c s =
     (Val (if auth_on c then Ssl (read_file files (ca_file c)) (read_file files (key_file c)) (read_file files (cert_file c)) else Insecure,
       if auth_on c \<and> st = Status_ok then tok else []), s')"
  by (auto simp: connect_client_def auth_def seq_def put_line_def put_rpc_def split: rpc_status.splits)

text \<open>
  Reading the configuration and connecting. The constructor returns exactly when the host and all
  values of the enabled sections are there; a section without \<^verbatim>\<open>on\<close>, or with \<^verbatim>\<open>on\<close> false, is
  ignored. The channel is encrypted exactly when authentication is on: with SSL enabled and
  authentication off it is insecure, and with authentication on and SSL off it uses SSL with the contents of
  the file with the empty name, after a warning. The client has a token only after a successful authentication.
\<close>

theorem configuration_loaded:
  "((\<exists>c s'. load_config x s = (Val c, s')) \<longleftrightarrow> config_complete x) \<and>
   (load_config x s = (Val c, s') \<longrightarrow>
      lines s' = lines s @ (if auth_enabled x \<and> \<not> ssl_enabled x then [Warning_ssl] else []) \<and>
      (\<exists>creds s''. connect_client files st tok c s' = (Val (creds, if auth_enabled x \<and> st = Status_ok then tok else []), s'') \<and>
        (creds = Insecure \<longleftrightarrow> \<not> auth_enabled x) \<and>
        (auth_enabled x \<and> \<not> ssl_enabled x \<longrightarrow> creds = Ssl (read_file files []) (read_file files []) (read_file files []))))"
proof (intro conjI impI)
  show "(\<exists>c s'. load_config x s = (Val c, s')) \<longleftrightarrow> config_complete x"
    using load_config_val(1) load_config_complete by blast
next
  assume load: "load_config x s = (Val c, s')"
  note val = load_config_val [OF load]
  show "lines s' = lines s @ (if auth_enabled x \<and> \<not> ssl_enabled x then [Warning_ssl] else [])" by (rule val(4))
  show "\<exists>creds s''. connect_client files st tok c s' = (Val (creds, if auth_enabled x \<and> st = Status_ok then tok else []), s'') \<and>
        (creds = Insecure \<longleftrightarrow> \<not> auth_enabled x) \<and>
        (auth_enabled x \<and> \<not> ssl_enabled x \<longrightarrow> creds = Ssl (read_file files []) (read_file files []) (read_file files []))"
    using connect_client_run [of files st tok c s'] val(3,5) by auto
qed

text \<open>SSL on and authentication off: the channel is insecure.\<close>

theorem configuration_loaded_witness:
  "\<exists>c s' s''. load_config \<lparr>xml_string = (\<lambda>p. Some ''v''), xml_child = (\<lambda>p. p = ''xml.ssl''), xml_bool = (\<lambda>p. Some True)\<rparr> s = (Val c, s') \<and>
     ssl_on c \<and> connect_client (\<lambda>_. None) Status_ok ''t'' c s' = (Val (Insecure, []), s'')"
proof -
  let ?x = "\<lparr>xml_string = (\<lambda>p. Some ''v''), xml_child = (\<lambda>p. p = ''xml.ssl''), xml_bool = (\<lambda>p. Some True)\<rparr>"
  have x: "config_complete ?x" "ssl_enabled ?x" "\<not> auth_enabled ?x"
    by (simp_all add: config_complete_def ssl_enabled_def auth_enabled_def)
  obtain c s' where load: "load_config ?x s = (Val c, s')"
    using configuration_loaded [THEN conjunct1, of ?x s] x(1) by blast
  then show ?thesis
    using configuration_loaded [THEN conjunct2, of ?x s c s' "\<lambda>_. None" Status_ok "''t''"] load_config_val(2) [OF load] x
    by auto
qed

end
