(* ===== verification/SetOps.thy ===== *)
theory SetOps
  imports Prelude
begin

text \<open>
  Small algorithms: the comparison of two collections (\<^verbatim>\<open>cpp/misc/set_intersection.cpp\<close>,
  \<^verbatim>\<open>cpp/profile/tranform\<close>), string splitting (\<^verbatim>\<open>cpp/misc/string_split.cpp\<close>), the byte copies of
  \<^verbatim>\<open>cpp/misc/bits.cpp\<close>, \<^verbatim>\<open>gcd\<close> of \<^verbatim>\<open>hobbies/taocpp\<close> and the binary literals of \<^verbatim>\<open>cpp/meta\<close>.
\<close>

section \<open>Comparing two collections\<close>

fun set_inter :: "'a::linorder list \<Rightarrow> 'a list \<Rightarrow> 'a list" where
  \<comment> \<open>\<^verbatim>\<open>std::set_intersection\<close> of sorted ranges\<close>
  "set_inter [] ys = []"
| "set_inter xs [] = []"
| "set_inter (x # xs) (y # ys) =
     (if x < y then set_inter xs (y # ys)
      else if y < x then set_inter (x # xs) ys
      else x # set_inter xs ys)"

fun set_diff :: "'a::linorder list \<Rightarrow> 'a list \<Rightarrow> 'a list" where
  \<comment> \<open>\<^verbatim>\<open>std::set_difference\<close> of sorted ranges\<close>
  "set_diff [] ys = []"
| "set_diff xs [] = xs"
| "set_diff (x # xs) (y # ys) =
     (if x < y then x # set_diff xs (y # ys)
      else if y < x then set_diff (x # xs) ys
      else set_diff xs ys)"

type_synonym 'a comparison = "'a list \<times> 'a list \<times> 'a list"

definition compare_sorted :: "'a::linorder list \<Rightarrow> 'a list \<Rightarrow> 'a comparison \<Rightarrow> 'a comparison" where
  \<comment> \<open>\<^verbatim>\<open>compare\<close>: the results are appended to \<^verbatim>\<open>in_both\<close>, \<^verbatim>\<open>in_a\<close>, \<^verbatim>\<open>in_b\<close>\<close>
  "compare_sorted a b out = (case out of (in_both, in_a, in_b) \<Rightarrow>
     let newa = sort a; newb = sort b in
       (in_both @ set_inter newa newb, in_a @ set_diff newa newb, in_b @ set_diff newb newa))"

fun vector_compare_a :: "'a list \<Rightarrow> 'a list \<Rightarrow> 'a list \<Rightarrow> 'a list \<Rightarrow> 'a list \<times> 'a list" where
  "vector_compare_a [] b in_both in_a = (in_both, in_a)"
| "vector_compare_a (x # a) b in_both in_a =
     (if x \<in> set b then vector_compare_a a b (in_both @ [x]) in_a
      else vector_compare_a a b in_both (in_a @ [x]))"

fun vector_compare_b :: "'a list \<Rightarrow> 'a list \<Rightarrow> 'a list \<Rightarrow> 'a list" where
  "vector_compare_b a [] in_b = in_b"
| "vector_compare_b a (y # b) in_b =
     (if y \<notin> set a then vector_compare_b a b (in_b @ [y]) else vector_compare_b a b in_b)"

definition vector_compare :: "'a list \<Rightarrow> 'a list \<Rightarrow> 'a comparison \<Rightarrow> 'a comparison" where
  "vector_compare a b out = (case out of (in_both, in_a, in_b) \<Rightarrow>
     case vector_compare_a a b in_both in_a of (in_both', in_a') \<Rightarrow>
       (in_both', in_a', vector_compare_b a b in_b))"

definition key_intersect :: "('k::linorder \<times> 'v) list \<Rightarrow> ('k \<times> 'v) list \<Rightarrow> 'k comparison \<Rightarrow> 'k comparison" where
  \<comment> \<open>a \<^verbatim>\<open>std::map\<close> is the list of its pairs in the order of the keys\<close>
  "key_intersect one another out = (case out of (same, in_one, in_another) \<Rightarrow>
     let one_vec = map fst one; another_vec = map fst another in
       (same @ set_inter one_vec another_vec, in_one @ set_diff one_vec another_vec,
        in_another @ set_diff another_vec one_vec))"

text \<open>
  The contract of a comparison of two collections: the values in both, only in the first, only
  in the second, each once. Both implementations are used interchangeably.
\<close>

definition splits_into :: "'a list \<Rightarrow> 'a list \<Rightarrow> 'a comparison \<Rightarrow> bool" where
  "splits_into a b r \<longleftrightarrow> (case r of (in_both, in_a, in_b) \<Rightarrow>
     mset in_both = mset (filter (\<lambda>x. x \<in> set b) a) \<and>
     mset in_a = mset (filter (\<lambda>x. x \<notin> set b) a) \<and>
     mset in_b = mset (filter (\<lambda>y. y \<notin> set a) b))"

locale comparison =
  fixes comp :: "'a::linorder list \<Rightarrow> 'a list \<Rightarrow> 'a comparison \<Rightarrow> 'a comparison"
  assumes splits: "distinct a \<Longrightarrow> distinct b \<Longrightarrow> splits_into a b (comp a b ([], [], []))"
begin

lemma partition_sets:
  assumes "distinct a" "distinct b" "comp a b ([], [], []) = (in_both, in_a, in_b)"
  shows "set in_both = set a \<inter> set b" "set in_a = set a - set b" "set in_b = set b - set a"
    "mset a = mset in_both + mset in_a"
proof -
  have s: "mset in_both = mset (filter (\<lambda>x. x \<in> set b) a)" "mset in_a = mset (filter (\<lambda>x. x \<notin> set b) a)"
    "mset in_b = mset (filter (\<lambda>y. y \<notin> set a) b)"
    using splits [OF assms(1,2)] assms(3) by (simp_all add: splits_into_def)
  show "set in_both = set a \<inter> set b" using s(1) [THEN mset_eq_setD] by auto
  show "set in_a = set a - set b" using s(2) [THEN mset_eq_setD] by auto
  show "set in_b = set b - set a" using s(3) [THEN mset_eq_setD] by auto
  show "mset a = mset in_both + mset in_a"
    unfolding s mset_filter by (rule multiset_partition)
qed

end

lemma set_inter_filter:
  "sorted_wrt (<) xs \<Longrightarrow> sorted_wrt (<) ys \<Longrightarrow> set_inter xs ys = filter (\<lambda>x. x \<in> set ys) xs"
proof (induction xs ys rule: set_inter.induct)
  case step: (3 x xs y ys)
  have skip: "filter (\<lambda>z. z = y \<or> z \<in> set ys) zs = filter (\<lambda>z. z \<in> set ys) zs" if "y \<notin> set zs" for zs
    using that by (intro filter_cong) auto
  consider "x < y" | "y < x" | "x = y" by (rule linorder_cases)
  then show ?case
  proof cases
    case 1
    then have "x \<notin> set (y # ys)" using step.prems by auto
    with step 1 show ?thesis by simp
  next
    case 2
    then have "y \<notin> set (x # xs)" using step.prems by auto
    with step 2 skip [of "x # xs"] show ?thesis by auto
  next
    case 3
    then have "y \<notin> set xs" using step.prems by auto
    with step.IH step.prems 3 skip [of xs] show ?thesis by auto
  qed
qed auto

lemma set_diff_filter:
  "sorted_wrt (<) xs \<Longrightarrow> sorted_wrt (<) ys \<Longrightarrow> set_diff xs ys = filter (\<lambda>x. x \<notin> set ys) xs"
proof (induction xs ys rule: set_diff.induct)
  case step: (3 x xs y ys)
  have skip: "filter (\<lambda>z. z \<noteq> y \<and> z \<notin> set ys) zs = filter (\<lambda>z. z \<notin> set ys) zs" if "y \<notin> set zs" for zs
    using that by (intro filter_cong) auto
  consider "x < y" | "y < x" | "x = y" by (rule linorder_cases)
  then show ?case
  proof cases
    case 1
    then have "x \<notin> set (y # ys)" using step.prems by auto
    with step 1 show ?thesis by simp
  next
    case 2
    then have "y \<notin> set (x # xs)" using step.prems by auto
    with step 2 skip [of "x # xs"] show ?thesis by auto
  next
    case 3
    then have "y \<notin> set xs" using step.prems by auto
    with step.IH step.prems 3 skip [of xs] show ?thesis by auto
  qed
qed auto

lemma sort_strict: "distinct xs \<Longrightarrow> sorted_wrt (<) (sort xs)"
  by (simp add: strict_sorted_iff)

lemma vector_compare_a_eq:
  "vector_compare_a a b in_both in_a =
     (in_both @ filter (\<lambda>x. x \<in> set b) a, in_a @ filter (\<lambda>x. x \<notin> set b) a)"
  by (induction a b in_both in_a rule: vector_compare_a.induct) auto

lemma vector_compare_b_eq: "vector_compare_b a b in_b = in_b @ filter (\<lambda>y. y \<notin> set a) b"
  by (induction a b in_b rule: vector_compare_b.induct) auto

interpretation sorted_comparison: comparison compare_sorted
  by unfold_locales
    (simp add: splits_into_def compare_sorted_def set_inter_filter set_diff_filter sort_strict Let_def
      mset_filter)

interpretation linear_comparison: comparison vector_compare
  by unfold_locales
    (simp add: splits_into_def vector_compare_def vector_compare_a_eq vector_compare_b_eq)

text \<open>
  The two ways to compare collections agree: on lists without duplicates the sorted and the
  quadratic comparison return the same values in both, only in the first and only in the second
  list, and together the first two are a permutation of the first list.
\<close>

theorem comparisons_agree:
  assumes "distinct a" "distinct b"
    and "compare_sorted a b ([], [], []) = (s1, s2, s3)" "vector_compare a b ([], [], []) = (v1, v2, v3)"
  shows "set s1 = set v1 \<and> set s2 = set v2 \<and> set s3 = set v3 \<and>
    set s1 = set a \<inter> set b \<and> set s2 = set a - set b \<and> set s3 = set b - set a \<and> mset a = mset s1 + mset s2"
  using sorted_comparison.partition_sets [OF assms(1-3)] linear_comparison.partition_sets [OF assms(1,2,4)]
  by simp

theorem comparisons_agree_witness:
  "set [1 :: int, 2] = {2, 1 :: int} \<and> mset [2, 1, 5 :: int] = mset [1, 2] + mset [5]"
  using comparisons_agree [of "[2, 1, 5 :: int]" "[1, 2, 3]" "[1, 2]" "[5]" "[3]" "[2, 1]" "[5]" "[3]"]
  by (simp add: compare_sorted_def vector_compare_def)

lemma key_intersect_maps:
  assumes "sorted_wrt (<) (map fst one)" "sorted_wrt (<) (map fst another)"
  shows "key_intersect one another ([], [], []) =
    (filter (\<lambda>k. map_of another k \<noteq> None) (map fst one), filter (\<lambda>k. map_of another k = None) (map fst one),
     filter (\<lambda>k. map_of one k = None) (map fst another))"
  using assms by (simp add: key_intersect_def set_inter_filter set_diff_filter map_of_eq_None_iff Let_def)

section \<open>Splitting a string\<close>

text \<open>
  \<^verbatim>\<open>start\<close> is an index into the string; the model carries the rest of the string from
  \<^verbatim>\<open>start\<close>, the empty rest being \<^verbatim>\<open>npos\<close>.
\<close>

function for_each_splited_string :: "'c list \<Rightarrow> ('c \<Rightarrow> bool) \<Rightarrow> ('c list \<Rightarrow> 's \<Rightarrow> 's) \<Rightarrow> 's \<Rightarrow> 's" where
  "for_each_splited_string str delimeter func st =
     (let to_end = dropWhile (\<lambda>c. \<not> delimeter c) str in
      if to_end = [] then st
      else for_each_splited_string (dropWhile delimeter to_end) delimeter func
             (func (takeWhile (\<lambda>c. \<not> delimeter c) str) st))"
  by pat_completeness auto
termination
proof (relation "measure (\<lambda>(str, _). length str)")
  fix str to_end :: "'c list" and d :: "'c \<Rightarrow> bool"
  assume "to_end = dropWhile (\<lambda>c. \<not> d c) str" and "to_end \<noteq> []"
  then obtain c r where "to_end = c # r" "d c" "length (c # r) \<le> length str"
    by (metis hd_dropWhile length_dropWhile_le list.collapse)
  then have "length (dropWhile d to_end) < length str"
    using length_dropWhile_le [of d r] by simp
  then show "((dropWhile d to_end, d, f, g), str, d, f, h) \<in> measure (\<lambda>(str, _). length str)" for f g h
    by simp
qed simp

declare for_each_splited_string.simps [simp del]

definition split_string :: "'c list \<Rightarrow> ('c \<Rightarrow> bool) \<Rightarrow> 'c list list" where
  "split_string str delimeter = for_each_splited_string str delimeter (\<lambda>t splited. splited @ [t]) []"

fun join_tokens :: "('c list \<times> 'c list) list \<Rightarrow> 'c list" where
  \<comment> \<open>tokens, each followed by its separator\<close>
  "join_tokens [] = []"
| "join_tokens ((t, sep) # ps) = t @ sep @ join_tokens ps"

definition token_ok :: "('c \<Rightarrow> bool) \<Rightarrow> 'c list \<times> 'c list \<Rightarrow> bool" where
  "token_ok d p \<longleftrightarrow> fst p \<noteq> [] \<and> list_all (\<lambda>c. \<not> d c) (fst p) \<and> snd p \<noteq> [] \<and> list_all d (snd p)"

lemma takeWhile_block: "list_all p xs \<Longrightarrow> \<not> p c \<Longrightarrow> takeWhile p (xs @ c # ys) = xs"
  by (induction xs) auto

lemma dropWhile_block: "list_all p xs \<Longrightarrow> ys = [] \<or> \<not> p (hd ys) \<Longrightarrow> dropWhile p (xs @ ys) = ys"
  by (induction xs) (cases ys; auto)+

lemma join_tokens_head:
  assumes "list_all (token_ok d) ps" "list_all (\<lambda>c. \<not> d c) rest"
  shows "join_tokens ps @ rest = [] \<or> \<not> d (hd (join_tokens ps @ rest))"
  using assms by (cases ps) (auto simp: token_ok_def neq_Nil_conv list_all_iff)

lemma split_tokens:
  assumes "list_all (token_ok d) ps" "list_all (\<lambda>c. \<not> d c) rest"
  shows "for_each_splited_string (join_tokens ps @ rest) d func st = fold (\<lambda>p. func (fst p)) ps st"
  using assms(1)
proof (induction ps arbitrary: st)
  case Nil
  then show ?case using assms(2) dropWhile_block [of "\<lambda>c. \<not> d c" rest "[]"]
    by (subst for_each_splited_string.simps) simp
next
  case (Cons p ps)
  obtain t sep where p: "p = (t, sep)" by (cases p)
  with Cons.prems have ok: "list_all (\<lambda>c. \<not> d c) t" "sep \<noteq> []" "list_all d sep" "list_all (token_ok d) ps"
    by (simp_all add: token_ok_def [of d "(t, sep)"])
  then obtain c sep' where sep: "sep = c # sep'" "d c" by (cases sep) auto
  let ?more = "join_tokens ps @ rest"
  have "takeWhile (\<lambda>c. \<not> d c) (t @ sep @ ?more) = t" "dropWhile (\<lambda>c. \<not> d c) (t @ sep @ ?more) = sep @ ?more"
    using ok sep takeWhile_block [of "\<lambda>c. \<not> d c" t c] dropWhile_block [of "\<lambda>c. \<not> d c" t "sep @ ?more"] by simp_all
  moreover have "dropWhile d (sep @ ?more) = ?more"
    using ok join_tokens_head [OF ok(4) assms(2)] dropWhile_block [of d sep ?more] by simp
  ultimately show ?case
    using Cons.IH [OF ok(4)] ok sep
    by (subst for_each_splited_string.simps) (simp add: p Let_def)
qed

lemma fold_collect: "fold (\<lambda>p acc. acc @ [fst p]) ps acc = acc @ map fst ps"
  by (induction ps arbitrary: acc) auto

text \<open>
  Splitting returns the tokens that end in a delimiter, in order, with runs of delimiters
  counted once: for non-empty tokens each followed by a non-empty separator the result is exactly
  these tokens. A last token that no delimiter follows is dropped, whatever it is.
\<close>

theorem split_string_tokens:
  assumes "list_all (token_ok d) ps" "list_all (\<lambda>c. \<not> d c) rest"
  shows "split_string (join_tokens ps @ rest) d = map fst ps"
  unfolding split_string_def split_tokens [OF assms] by (simp add: fold_collect)

theorem split_string_tokens_witness:
  "split_string ''ab,:cd-efg'' (\<lambda>c. c \<in> set '',:-'') = [''ab'', ''cd'']"
  using split_string_tokens [of "\<lambda>c. c \<in> set '',:-''" "[(''ab'', '',:''), (''cd'', ''-'')]" "''efg''"]
  by (simp add: token_ok_def)

section \<open>Greatest common divisors\<close>

function gcd_loop :: "u32 \<Rightarrow> u32 \<Rightarrow> u32 \<Rightarrow> u32" where
  "gcd_loop m n r = (if r \<noteq> 0 then gcd_loop n r (n mod r) else n)"
  by pat_completeness auto
termination
  by (relation "measure (\<lambda>(m, n, r). unat r)")
    (auto simp: unat_mod_distrib word_less_nat_alt unat_eq_0 mod_less_divisor unat_gt_0)

declare gcd_loop.simps [simp del]

definition gcd_euclid :: "u32 \<Rightarrow> u32 \<Rightarrow> u32 option" where
  \<comment> \<open>\<^verbatim>\<open>gcd\<close>: \<^verbatim>\<open>m % n\<close> of \<open>n = 0\<close> is undefined\<close>
  "gcd_euclid m n = (if n = 0 then None else Some (gcd_loop m n (m mod n)))"

function gcd2 :: "u32 \<Rightarrow> u32 \<Rightarrow> u32" where
  "gcd2 m n = (if m \<noteq> 0 then if m \<le> n then gcd2 m (n - m) else gcd2 n m else n)"
  by pat_completeness auto
termination
  by (relation "measures [\<lambda>(m, n). unat m + unat n, \<lambda>(m, n). if n < m then 1 else 0]")
    (auto simp: unat_sub word_le_nat_alt unat_gt_0 word_less_nat_alt unat_eq_0)

declare gcd2.simps [simp del]

lemma gcd_loop_gcd: "r = m mod n \<Longrightarrow> unat (gcd_loop m n r) = gcd (unat m) (unat n)"
proof (induction m n r rule: gcd_loop.induct)
  case (1 m n r)
  have "gcd (unat n) (unat r) = gcd (unat m) (unat n)"
    using 1(2) by (simp add: unat_mod_distrib gcd.commute flip: gcd_red_nat)
  then show ?case
    using 1 by (cases "r = 0") (simp_all add: gcd_loop.simps [of m n])
qed

lemma gcd2_gcd: "unat (gcd2 m n) = gcd (unat m) (unat n)"
proof (induction m n rule: gcd2.induct)
  case (1 m n)
  have "m \<le> n \<Longrightarrow> gcd (unat m) (unat (n - m)) = gcd (unat m) (unat n)"
    by (metis gcd.commute gcd_diff1_nat unat_sub word_le_nat_alt)
  with 1 show ?case by (subst gcd2.simps) (auto simp: gcd.commute)
qed

text \<open>Both compute the greatest common divisor; only the first is undefined for \<open>n = 0\<close>.\<close>

lemma gcds_agree: "gcd_euclid m n = (if n = 0 then None else Some (gcd2 m n))"
proof -
  have "unat (gcd_loop m n (m mod n)) = unat (gcd2 m n)" by (simp add: gcd_loop_gcd gcd2_gcd)
  then show ?thesis by (simp add: gcd_euclid_def unsigned_word_eqI)
qed

section \<open>Binary literals\<close>

text \<open>
  \<^verbatim>\<open>binary<101>::value\<close> reads the decimal digits of its argument as binary digits. A digit
  other than 0 and 1 selects no template, an error of the compilation: \<open>None\<close>. The arguments are
  not negative here.
\<close>

fun binary_int :: "nat \<Rightarrow> nat option" where
  "binary_int n = (if n = 0 then Some 0 else if n mod 10 < 2 then
     map_option (\<lambda>v. 2 * v + n mod 10) (binary_int (n div 10)) else None)"

function binary_helper :: "nat \<Rightarrow> nat \<Rightarrow> int option" where
  "binary_helper n pos = (if pos > 31 then None
     else if pos = 31 \<and> n = 0 then Some 0
     else if pos = 31 \<and> n = 1 then Some (-1)
     else if n mod 10 < 2 then
       map_option (\<lambda>v. 2 * v + int (n mod 10)) (binary_helper (n div 10) (pos + 1))
     else None)"
  by pat_completeness auto
termination by (relation "measure (\<lambda>(n, pos). 32 - pos)") auto

definition binary_value :: "nat \<Rightarrow> int option" where
  "binary_value n = binary_helper n 0"

declare binary_int.simps [simp del] binary_helper.simps [simp del]

lemma binary_helper_int:
  "pos \<le> 31 \<Longrightarrow> n < 10 ^ (31 - pos) \<Longrightarrow> binary_helper n pos = map_option int (binary_int n)"
proof (induction n pos rule: binary_helper.induct)
  case (1 n pos)
  show ?case
  proof (cases "pos = 31")
    case True
    with 1 show ?thesis by (simp add: binary_helper.simps binary_int.simps)
  next
    case False
    with 1(2) have "31 - pos = Suc (31 - (pos + 1))" by simp
    with 1(3) have "n < 10 * 10 ^ (31 - (pos + 1))" by simp
    then have "n div 10 < 10 ^ (31 - (pos + 1))" by (simp add: less_mult_imp_div_less mult.commute)
    then have "n mod 10 < 2 \<Longrightarrow> binary_helper (n div 10) (pos + 1) = map_option int (binary_int (n div 10))"
      using 1 False by simp
    with False 1(2) show ?thesis
      by (subst binary_helper.simps, subst binary_int.simps)
        (auto simp: option.map_comp o_def binary_int.simps [of 0])
  qed
qed

text \<open>The two literals agree on every \<^verbatim>\<open>int\<close> argument: 31 positions are enough.\<close>

lemma binary_literals_agree: "n < 2 ^ 31 \<Longrightarrow> binary_value n = map_option int (binary_int n)"
  unfolding binary_value_def by (rule binary_helper_int) auto

end
