(* ===== verification/LcCommon.thy ===== *)
theory LcCommon
  imports SetOps
begin

text \<open>
  Common elements of two collections: \<^verbatim>\<open>hobbies/leetcode/algorithms/common_elements_of_2_array\<close>,
  \<^verbatim>\<open>solution_349\<close>, \<^verbatim>\<open>solution_350\<close>, and the comparison of the keys of two maps through iterators in
  \<^verbatim>\<open>cpp/profile/tranform\<close> and \<^verbatim>\<open>cpp/utils/iterator.h\<close>. A pair of iterators into a vector is the part of the
  vector between them; what lies behind its end cannot be read: \<open>None\<close>.
\<close>

section \<open>The programs\<close>

fun find_common :: "int list \<Rightarrow> int list \<Rightarrow> int list \<Rightarrow> int list" where
  \<comment> \<open>the rests of the two vectors from \<^verbatim>\<open>i\<close> and \<^verbatim>\<open>j\<close>\<close>
  "find_common (a # va) (b # vb) result =
     (if a = b then find_common va vb (result @ [a])
      else if a < b then find_common va (b # vb) result
      else find_common (a # va) vb result)"
| "find_common va vb result = result"

definition lower_bound :: "int list \<Rightarrow> int \<Rightarrow> int list" where
  \<comment> \<open>\<^verbatim>\<open>std::lower_bound\<close> on a sorted range: the range from the first element that is not smaller\<close>
  "lower_bound xs v = dropWhile (\<lambda>x. x < v) xs"

function find_common_helper :: "int list \<Rightarrow> int list \<Rightarrow> int list \<Rightarrow> int list" where
  "find_common_helper (a # r1) (b # r2) result =
     (if a = b then find_common_helper r1 r2 (result @ [a])
      else if a > b then find_common_helper (lower_bound (b # r2) a) (a # r1) result
      else find_common_helper (lower_bound (a # r1) b) (b # r2) result)"
| "find_common_helper [] r2 result = result"
| "find_common_helper (a # r1) [] result = result"
  by pat_completeness auto
termination
proof (relation "measure (\<lambda>(xs, ys, r). length xs + length ys)")
  have "length (dropWhile p xs) \<le> length xs" for p and xs :: "int list" by (rule length_dropWhile_le)
  then show "\<And>a r1 b r2 result. a \<noteq> b \<Longrightarrow> a > b \<Longrightarrow>
      ((lower_bound (b # r2) a, a # r1, result), a # r1, b # r2, result) \<in> measure (\<lambda>(xs, ys, r). length xs + length ys)"
    "\<And>a r1 b r2 result. a \<noteq> b \<Longrightarrow> \<not> a > b \<Longrightarrow>
      ((lower_bound (a # r1) b, b # r2, result), a # r1, b # r2, result) \<in> measure (\<lambda>(xs, ys, r). length xs + length ys)"
    by (auto simp: lower_bound_def less_Suc_eq_le add_mono)
qed auto

definition first_step :: "int list \<Rightarrow> int list \<Rightarrow> int list \<Rightarrow> int list \<times> int list \<times> int list" where
  \<comment> \<open>the first half of \<^verbatim>\<open>find_common_helper2\<close>, for ranges that are not empty\<close>
  "first_step r1 r2 result =
     (if hd r1 = hd r2 then (tl r1, tl r2, result @ [hd r1])
      else if hd r1 > hd r2 then (lower_bound r2 (hd r1), r1, result)
      else (lower_bound r1 (hd r2), r2, result))"

definition find_common_helper2 :: "int list \<Rightarrow> int list \<Rightarrow> int list \<Rightarrow> int list option" where
  "find_common_helper2 r1 r2 result =
     (if r1 = [] \<or> r2 = [] then Some result
      else case first_step r1 r2 result of (r1, r2, result) \<Rightarrow>
        if r1 = [] \<or> r2 = [] then Some result
        else if last r1 = last r2 then Some (find_common_helper (butlast r1) (butlast r2) (result @ [last r1]))
        else None)"

definition find_common1 :: "int list \<Rightarrow> int list \<Rightarrow> int list" where
  "find_common1 va vb = find_common_helper va vb []"

definition find_common2 :: "int list \<Rightarrow> int list \<Rightarrow> int list option" where
  "find_common2 va vb = find_common_helper2 va vb []"

definition intersection_unique :: "int list \<Rightarrow> int list \<Rightarrow> int list" where
  \<comment> \<open>\<^verbatim>\<open>std::set\<close> of both vectors\<close>
  "intersection_unique nums1 nums2 = set_inter (remdups (sort nums1)) (remdups (sort nums2))"

definition intersection_multi :: "int list \<Rightarrow> int list \<Rightarrow> int list" where
  "intersection_multi nums1 nums2 = set_inter (sort nums1) (sort nums2)"

declare find_common_helper.simps [simp del]

section \<open>Common elements of sorted vectors\<close>

text \<open>
  The contract of the programs on sorted vectors: each value as often as in both, in order. It determines
  the result.
\<close>

locale common_elements =
  fixes common :: "int list \<Rightarrow> int list \<Rightarrow> int list"
  assumes elements: "sorted xs \<Longrightarrow> sorted ys \<Longrightarrow> mset (common xs ys) = mset xs \<inter># mset ys"
    and in_order: "sorted xs \<Longrightarrow> sorted ys \<Longrightarrow> sorted (common xs ys)"
begin

lemma determined:
  "sorted xs \<Longrightarrow> sorted ys \<Longrightarrow> common xs ys = sorted_list_of_multiset (mset xs \<inter># mset ys)"
  by (metis elements in_order sorted_list_of_multiset_mset sorted_sort_id)

lemma symmetric: "sorted xs \<Longrightarrow> sorted ys \<Longrightarrow> common xs ys = common ys xs"
  unfolding determined [of xs ys] determined [of ys xs] by (simp add: subset_mset.inf_commute)

lemma common_set: "sorted xs \<Longrightarrow> sorted ys \<Longrightarrow> set (common xs ys) = set xs \<inter> set ys"
  using elements [of xs ys] by (metis set_mset_inter set_mset_mset)

lemma idempotent: "sorted xs \<Longrightarrow> common xs xs = xs"
  using determined [of xs xs] by (simp add: sorted_sort_id)

end

lemma inter_skip: "x \<notin># N \<Longrightarrow> add_mset x M \<inter># N = M \<inter># N" "x \<notin># N \<Longrightarrow> N \<inter># add_mset x M = N \<inter># M"
  by (simp_all add: inter_add_left1 inter_add_right1)

lemma set_inter_Nil2 [simp]: "set_inter xs [] = []"
  by (cases xs) simp_all

lemma set_inter_commute: "set_inter xs ys = set_inter ys xs"
  by (induction xs ys rule: set_inter.induct) auto

lemma set_inter_elements: "sorted xs \<Longrightarrow> sorted ys \<Longrightarrow> mset (set_inter xs ys) = mset xs \<inter># mset ys"
proof (induction xs ys rule: set_inter.induct)
  case (3 x xs y ys)
  consider "x < y" | "y < x" | "x = y" by (rule linorder_cases)
  then show ?case
  proof cases
    case 1
    then have "x \<notin># mset (y # ys)" using 3 by auto
    then show ?thesis using 3 1 by (simp add: inter_skip del: mset.simps(2)) (simp add: inter_skip)
  next
    case 2
    then have "y \<notin># mset (x # xs)" using 3 by auto
    then show ?thesis using 3 2 by (simp add: inter_skip)
  qed (use 3 in simp)
qed simp_all

lemma set_inter_subset: "set (set_inter xs ys) \<subseteq> set xs"
  by (induction xs ys rule: set_inter.induct) auto

lemma set_inter_sorted: "sorted xs \<Longrightarrow> sorted ys \<Longrightarrow> sorted (set_inter xs ys)"
proof (induction xs ys rule: set_inter.induct)
  case (3 x xs y ys)
  then show ?case using set_inter_subset [of xs ys] by auto
qed auto

interpretation merged: common_elements set_inter
  by unfold_locales (simp_all add: set_inter_elements set_inter_sorted)

lemma find_common_inter: "find_common va vb r = r @ set_inter va vb"
  by (induction va vb r rule: find_common.induct) auto

lemma set_inter_lower_bound: "set_inter (lower_bound xs y) (y # ys) = set_inter xs (y # ys)"
  by (induction xs) (auto simp: lower_bound_def)

lemma helper_inter: "find_common_helper r1 r2 r = r @ set_inter r1 r2"
proof (induction r1 r2 r rule: find_common_helper.induct)
  case (1 a r1 b r2 r)
  consider "a = b" | "a > b" | "a < b" by fastforce
  then show ?case
  proof cases
    case 2
    then have "find_common_helper (a # r1) (b # r2) r = r @ set_inter (lower_bound (b # r2) a) (a # r1)"
      using 1 by (subst find_common_helper.simps) simp
    also have "set_inter (lower_bound (b # r2) a) (a # r1) = set_inter (a # r1) (b # r2)"
      unfolding set_inter_lower_bound by (rule set_inter_commute)
    finally show ?thesis .
  next
    case 3
    then have "find_common_helper (a # r1) (b # r2) r = r @ set_inter (lower_bound (a # r1) b) (b # r2)"
      using 1 by (subst find_common_helper.simps) simp
    then show ?thesis unfolding set_inter_lower_bound .
  qed (use 1 in \<open>simp add: find_common_helper.simps\<close>)
qed (simp_all add: find_common_helper.simps)

interpretation helper: common_elements find_common1
  by unfold_locales (simp_all add: find_common1_def helper_inter set_inter_elements set_inter_sorted)

interpretation plain: common_elements "\<lambda>va vb. find_common va vb []"
  by unfold_locales (simp_all add: find_common_inter set_inter_elements set_inter_sorted)

interpretation multi: common_elements intersection_multi
  by unfold_locales (simp_all add: intersection_multi_def set_inter_elements set_inter_sorted)

section \<open>From both ends\<close>

lemma mset_butlast: "xs \<noteq> [] \<Longrightarrow> mset xs = add_mset (last xs) (mset (butlast xs))"
  by (induction xs rule: rev_induct) simp_all

lemma sorted_lower_bound: "sorted xs \<Longrightarrow> sorted (lower_bound xs v)"
  by (simp add: lower_bound_def sorted_dropWhile)

lemma first_step_keeps:
  assumes "sorted r1" "sorted r2" "r1 \<noteq> []" "r2 \<noteq> []" "first_step r1 r2 r = (r1', r2', r')"
  shows "sorted r1' \<and> sorted r2' \<and> mset r' + mset r1' \<inter># mset r2' = mset r + mset r1 \<inter># mset r2"
proof -
  obtain a as b bs where r: "r1 = a # as" "r2 = b # bs" using assms(3,4) by (auto simp: neq_Nil_conv)
  have bound: "mset (lower_bound xs y) \<inter># mset (y # ys) = mset xs \<inter># mset (y # ys)"
    if "sorted xs" "sorted (y # ys)" for xs ys y
    using set_inter_elements [OF that] set_inter_elements [OF sorted_lower_bound [OF that(1), of y] that(2)]
    unfolding set_inter_lower_bound by simp
  consider "a = b" | "a > b" | "a < b" by fastforce
  then show ?thesis
  proof cases
    case 1
    then show ?thesis using assms r by (auto simp: first_step_def)
  next
    case 2
    then have "r1' = lower_bound r2 a" "r2' = r1" "r' = r" using assms(5) r by (simp_all add: first_step_def)
    moreover have "mset (lower_bound r2 a) \<inter># mset r1 = mset r1 \<inter># mset r2"
      using bound [of r2 a as] assms(1,2) r by (simp add: subset_mset.inf_commute)
    ultimately show ?thesis using assms(1,2) sorted_lower_bound by simp
  next
    case 3
    then have "r1' = lower_bound r1 b" "r2' = r2" "r' = r" using assms(5) r by (simp_all add: first_step_def)
    then show ?thesis using bound [of r1 b bs] assms(1,2) r sorted_lower_bound by simp
  qed
qed

lemma find_common2_elements:
  assumes "sorted va" "sorted vb" "find_common2 va vb = Some r"
  shows "mset r = mset va \<inter># mset vb"
proof (cases "va = [] \<or> vb = []")
  case True
  then show ?thesis using assms(3) by (auto simp: find_common2_def find_common_helper2_def)
next
  case False
  obtain r1 r2 r' where st: "first_step va vb [] = (r1, r2, r')" by (cases "first_step va vb []")
  note keep = first_step_keeps [OF assms(1,2) _ _ st]
  have run: "(if r1 = [] \<or> r2 = [] then Some r' else if last r1 = last r2
      then Some (find_common_helper (butlast r1) (butlast r2) (r' @ [last r1])) else None) = Some r"
    using assms(3) False st by (simp add: find_common2_def find_common_helper2_def)
  show ?thesis
  proof (cases "r1 = [] \<or> r2 = []")
    case True
    then show ?thesis using run keep False by auto
  next
    case ne: False
    then have "last r1 = last r2" "r = (r' @ [last r1]) @ set_inter (butlast r1) (butlast r2)"
      using run by (simp_all add: helper_inter split: if_splits)
    moreover have "sorted (butlast r1)" "sorted (butlast r2)" using keep False by (auto intro: sorted_butlast)
    moreover have "mset r1 \<inter># mset r2 = add_mset (last r1) (mset (butlast r1) \<inter># mset (butlast r2))"
      if "last r1 = last r2" using ne that mset_butlast [of r1] mset_butlast [of r2] by simp
    ultimately show ?thesis using keep False by (auto simp: set_inter_elements)
  qed
qed

lemma find_common2_undefined:
  "find_common2 va vb = None \<longleftrightarrow> va \<noteq> [] \<and> vb \<noteq> [] \<and>
     (case first_step va vb [] of (r1, r2, r) \<Rightarrow> r1 \<noteq> [] \<and> r2 \<noteq> [] \<and> last r1 \<noteq> last r2)"
  by (auto simp: find_common2_def find_common_helper2_def split: prod.splits if_splits)

section \<open>Keys of two maps\<close>

text \<open>
  An iterator of a map is a position in the list of its pairs; \<^verbatim>\<open>KeyIterator\<close> and boost's transform
  iterator wrap one and take the first component where it is read. The standard algorithms use
  \<^verbatim>\<open>*\<close>, \<^verbatim>\<open>++\<close> and \<^verbatim>\<open>==\<close> only.
\<close>

record key_iterator =
  map_pos :: nat

definition key_deref :: "('k \<times> 'v) list \<Rightarrow> key_iterator \<Rightarrow> 'k" where
  "key_deref m it = fst (m ! map_pos it)"

definition value_deref :: "('k \<times> 'v) list \<Rightarrow> key_iterator \<Rightarrow> 'v" where
  "value_deref m it = snd (m ! map_pos it)"

definition it_next :: "key_iterator \<Rightarrow> key_iterator" where
  "it_next it = it\<lparr>map_pos := map_pos it + 1\<rparr>"

definition it_begin :: "('k \<times> 'v) list \<Rightarrow> key_iterator" where
  "it_begin m = \<lparr>map_pos = 0\<rparr>"

definition it_end :: "('k \<times> 'v) list \<Rightarrow> key_iterator" where
  "it_end m = \<lparr>map_pos = length m\<rparr>"

partial_function (option) iter_intersection ::
  "(key_iterator \<Rightarrow> 'k::linorder) \<Rightarrow> key_iterator \<Rightarrow> key_iterator \<Rightarrow> (key_iterator \<Rightarrow> 'k) \<Rightarrow> key_iterator \<Rightarrow> key_iterator \<Rightarrow> 'k list \<Rightarrow> 'k list option" where
  "iter_intersection d1 f1 l1 d2 f2 l2 out =
     (if f1 \<noteq> l1 \<and> f2 \<noteq> l2 then
        if d1 f1 < d2 f2 then iter_intersection d1 (it_next f1) l1 d2 f2 l2 out
        else if d2 f2 < d1 f1 then iter_intersection d1 f1 l1 d2 (it_next f2) l2 out
        else iter_intersection d1 (it_next f1) l1 d2 (it_next f2) l2 (out @ [d1 f1])
      else Some out)"

partial_function (option) iter_difference ::
  "(key_iterator \<Rightarrow> 'k::linorder) \<Rightarrow> key_iterator \<Rightarrow> key_iterator \<Rightarrow> (key_iterator \<Rightarrow> 'k) \<Rightarrow> key_iterator \<Rightarrow> key_iterator \<Rightarrow> 'k list \<Rightarrow> 'k list option" where
  "iter_difference d1 f1 l1 d2 f2 l2 out =
     (if f1 = l1 then Some out
      else if f2 = l2 then iter_difference d1 (it_next f1) l1 d2 f2 l2 (out @ [d1 f1])
      else if d1 f1 < d2 f2 then iter_difference d1 (it_next f1) l1 d2 f2 l2 (out @ [d1 f1])
      else if d2 f2 < d1 f1 then iter_difference d1 f1 l1 d2 (it_next f2) l2 out
      else iter_difference d1 (it_next f1) l1 d2 (it_next f2) l2 out)"

definition key_intersect_transform ::
  "('k::linorder \<times> 'v) list \<Rightarrow> ('k \<times> 'v) list \<Rightarrow> 'k comparison \<Rightarrow> 'k comparison option" where
  "key_intersect_transform one another out = (case out of (same, in_one, in_another) \<Rightarrow>
     let d1 = key_deref one; d2 = key_deref another;
         b1 = it_begin one; e1 = it_end one; b2 = it_begin another; e2 = it_end another in do {
     same' \<leftarrow> iter_intersection d1 b1 e1 d2 b2 e2 same;
     in_one' \<leftarrow> iter_difference d1 b1 e1 d2 b2 e2 in_one;
     in_another' \<leftarrow> iter_difference d2 b2 e2 d1 b1 e1 in_another;
     Some (same', in_one', in_another') })"

definition map_same_diff :: "('k::linorder \<times> 'v) list \<Rightarrow> ('k \<times> 'v) list \<Rightarrow> (unit, unit) outcome" where
  \<comment> \<open>the assertions of the comparison of both versions\<close>
  "map_same_diff one another =
     (case key_intersect_transform one another ([], [], []) of
        None \<Rightarrow> Undef
      | Some (same_tf, in_one_tf, in_another_tf) \<Rightarrow>
          (case key_intersect one another ([], [], []) of (same, in_one, in_another) \<Rightarrow>
            if same = same_tf \<and> in_one = in_one_tf \<and> in_another = in_another_tf then Val () else Abort))"

definition rest_keys :: "('k \<times> 'v) list \<Rightarrow> nat \<Rightarrow> 'k list" where
  "rest_keys m i = map fst (drop i m)"

lemma rest_keys_Cons: "i < length m \<Longrightarrow> rest_keys m i = key_deref m \<lparr>map_pos = i\<rparr> # rest_keys m (Suc i)"
  by (simp add: rest_keys_def key_deref_def Cons_nth_drop_Suc [symmetric])

lemma rest_keys_end [simp]: "rest_keys m (length m) = []"
  by (simp add: rest_keys_def)

lemma it_next_at [simp]: "it_next \<lparr>map_pos = i\<rparr> = \<lparr>map_pos = Suc i\<rparr>"
  by (simp add: it_next_def)

lemma iter_intersection_keys:
  "i \<le> length one \<Longrightarrow> j \<le> length another \<Longrightarrow>
   iter_intersection (key_deref one) \<lparr>map_pos = i\<rparr> (it_end one) (key_deref another) \<lparr>map_pos = j\<rparr> (it_end another) out =
     Some (out @ set_inter (rest_keys one i) (rest_keys another j))"
proof (induction "length one - i + (length another - j)" arbitrary: i j out rule: less_induct)
  case less
  show ?case
  proof (cases "i < length one \<and> j < length another")
    case False
    then have "i = length one \<or> j = length another" using less.prems by auto
    then show ?thesis by (subst iter_intersection.simps) (auto simp: it_end_def)
  next
    case True
    then have IH: "iter_intersection (key_deref one) \<lparr>map_pos = i'\<rparr> (it_end one) (key_deref another) \<lparr>map_pos = j'\<rparr> (it_end another) out' =
        Some (out' @ set_inter (rest_keys one i') (rest_keys another j'))"
      if "(i' = Suc i \<and> j' = j) \<or> (i' = i \<and> j' = Suc j) \<or> (i' = Suc i \<and> j' = Suc j)" for i' j' out'
      using that by (intro less.hyps) auto
    show ?thesis
      using True by (subst iter_intersection.simps) (simp add: it_end_def [of one] it_end_def [of another] IH [unfolded it_end_def] rest_keys_Cons)
  qed
qed

lemma iter_difference_keys:
  "i \<le> length one \<Longrightarrow> j \<le> length another \<Longrightarrow>
   iter_difference (key_deref one) \<lparr>map_pos = i\<rparr> (it_end one) (key_deref another) \<lparr>map_pos = j\<rparr> (it_end another) out =
     Some (out @ set_diff (rest_keys one i) (rest_keys another j))"
proof (induction "length one - i + (length another - j)" arbitrary: i j out rule: less_induct)
  case less
  have IH: "iter_difference (key_deref one) \<lparr>map_pos = i'\<rparr> (it_end one) (key_deref another) \<lparr>map_pos = j'\<rparr> (it_end another) out' =
      Some (out' @ set_diff (rest_keys one i') (rest_keys another j'))"
    if "i \<le> i'" "j \<le> j'" "i' \<le> length one" "j' \<le> length another" "i < i' \<or> j < j'" for i' j' out'
    using that by (intro less.hyps) auto
  have nil: "set_diff xs [] = xs" for xs :: "'a list" by (cases xs) simp_all
  show ?case
  proof (cases "i < length one")
    case False
    then have "i = length one" using less.prems by simp
    then show ?thesis by (subst iter_difference.simps) (simp add: it_end_def)
  next
    case i: True
    show ?thesis
    proof (cases "j < length another")
      case True
      then show ?thesis
        using i by (subst iter_difference.simps) (simp add: it_end_def IH [unfolded it_end_def] rest_keys_Cons)
    next
      case False
      then have "j = length another" using less.prems by simp
      then show ?thesis
        using i by (subst iter_difference.simps) (simp add: it_end_def IH [unfolded it_end_def] rest_keys_Cons nil)
    qed
  qed
qed

text \<open>
  The keys of two maps. Reading them through iterators and copying them to vectors first gives the same
  three results, whatever the maps hold, so the assertions of the program hold, and on maps (keys in
  ascending order) these are the keys in both, only in the first and only in the second.
\<close>

theorem map_comparison:
  "map_same_diff one another = Val () \<and>
   (sorted_wrt (<) (map fst one) \<longrightarrow> sorted_wrt (<) (map fst another) \<longrightarrow>
     key_intersect_transform one another ([], [], []) =
       Some (filter (\<lambda>k. k \<in> fst ` set another) (map fst one), filter (\<lambda>k. k \<notin> fst ` set another) (map fst one),
         filter (\<lambda>k. k \<notin> fst ` set one) (map fst another)))"
proof -
  have keys: "rest_keys m 0 = map fst m" for m :: "('a \<times> 'b) list" by (simp add: rest_keys_def)
  have eq: "key_intersect_transform one another ([], [], []) = Some (key_intersect one another ([], [], []))"
    using iter_intersection_keys [of 0 one 0 another] iter_difference_keys [of 0 one 0 another] iter_difference_keys [of 0 another 0 one]
    by (simp add: key_intersect_transform_def key_intersect_def it_begin_def keys Let_def)
  have "map_same_diff one another = Val ()" by (simp add: map_same_diff_def eq split: prod.splits)
  then show ?thesis using eq by (simp add: key_intersect_def set_inter_filter set_diff_filter Let_def)
qed

theorem map_comparison_witness:
  "key_intersect_transform [(1 :: int, ''a''), (2, ''b''), (3, ''c'')] [(1, ''a''), (2, ''c''), (5, ''d'')] ([], [], []) =
     Some ([1, 2], [3], [5])"
  using map_comparison [of "[(1 :: int, ''a''), (2, ''b''), (3, ''c'')]" "[(1, ''a''), (2, ''c''), (5, ''d'')]", THEN conjunct2]
  by simp

text \<open>
  Common elements. On sorted vectors the plain merge and the one that jumps with \<^verbatim>\<open>lower_bound\<close> return
  each value as often as it stands in both vectors, in ascending order; the version that also looks at
  the ends returns, when it returns, the same values in another order, and it reads behind the end of a vector
  exactly when after its first step the two last elements differ. The two intersections of unsorted
  vectors return this multiset of common elements, and each common value once.
\<close>

theorem common_elements_found:
  assumes "sorted va" "sorted vb"
  shows "find_common va vb [] = sorted_list_of_multiset (mset va \<inter># mset vb) \<and>
    find_common1 va vb = find_common va vb [] \<and>
    (find_common2 va vb = Some r \<longrightarrow> mset r = mset va \<inter># mset vb) \<and>
    (find_common2 va vb = None \<longleftrightarrow> va \<noteq> [] \<and> vb \<noteq> [] \<and>
      (case first_step va vb [] of (r1, r2, r) \<Rightarrow> r1 \<noteq> [] \<and> r2 \<noteq> [] \<and> last r1 \<noteq> last r2)) \<and>
    intersection_multi nums1 nums2 = sorted_list_of_multiset (mset nums1 \<inter># mset nums2) \<and>
    intersection_unique nums1 nums2 = sorted_list_of_set (set nums1 \<inter> set nums2)"
proof -
  have "intersection_unique nums1 nums2 = sorted_list_of_set (set nums1 \<inter> set nums2)"
  proof (rule sorted_distinct_set_unique)
    have s: "sorted_wrt (<) (remdups (sort xs))" for xs :: "int list" by (simp add: strict_sorted_iff)
    have eq: "intersection_unique nums1 nums2 = filter (\<lambda>x. x \<in> set nums2) (remdups (sort nums1))"
      using set_inter_filter [OF s s, of nums1 nums2] by (simp add: intersection_unique_def)
    show "sorted (intersection_unique nums1 nums2)" unfolding eq by (intro sorted_wrt_filter) simp
    show "distinct (intersection_unique nums1 nums2)" "set (intersection_unique nums1 nums2) = set (sorted_list_of_set (set nums1 \<inter> set nums2))"
      unfolding eq by auto
  qed simp_all
  moreover have "intersection_multi nums1 nums2 = sorted_list_of_multiset (mset nums1 \<inter># mset nums2)"
    using merged.determined [of "sort nums1" "sort nums2"] by (simp add: intersection_multi_def)
  ultimately show ?thesis
    using plain.determined [OF assms] helper.determined [OF assms] find_common2_elements [OF assms] find_common2_undefined [of va vb]
    by simp
qed

theorem common_elements_found_witness:
  "find_common [1, 2, 2, 4] [2, 2, 3] [] = [2, 2] \<and> find_common1 [1, 2, 2, 4] [2, 2, 3] = [2, 2] \<and>
   find_common2 [1, 2, 2, 4] [2, 2, 3] = None"
proof -
  have "sorted [1 :: int, 2, 2, 4]" "sorted [2 :: int, 2, 3]" by simp_all
  from common_elements_found [OF this] show ?thesis by (simp add: first_step_def lower_bound_def)
qed

end
