(* ===== verification/LcSearch.thy ===== *)
theory LcSearch
  imports Prelude
begin

text \<open>
  The searches of \<^verbatim>\<open>hobbies/leetcode/algorithms\<close>: sorted arrays (\<^verbatim>\<open>solution_35\<close>, \<^verbatim>\<open>solution_34\<close>),
  versions (\<^verbatim>\<open>solution_278\<close>), rotated arrays (\<^verbatim>\<open>solution_33\<close>, \<^verbatim>\<open>solution_153\<close>), peaks
  (\<^verbatim>\<open>solution_162\<close>) and sorted matrices (\<^verbatim>\<open>solution_240\<close>). A loop is a function of the variables
  it changes; \<open>None\<close> is an access outside a vector. Indices stay below the size of a vector, so
  that \<^verbatim>\<open>low + (high - low) / 2\<close> does not overflow.
\<close>

section \<open>Positions in sorted arrays\<close>

text \<open>The specification of the searches: how many elements are below a target, and up to it.\<close>

definition lower :: "int list \<Rightarrow> int \<Rightarrow> int" where
  "lower nums t = int (length (filter (\<lambda>x. x < t) nums))"

definition upper :: "int list \<Rightarrow> int \<Rightarrow> int" where
  "upper nums t = int (length (filter (\<lambda>x. x \<le> t) nums))"

lemma sorted_filter_pos:
  assumes "sorted xs" and mono: "\<And>x y. x \<le> y \<Longrightarrow> P y \<Longrightarrow> P x" and "i < length xs"
  shows "P (xs ! i) \<longleftrightarrow> i < length (filter P xs)"
  using assms(1,3)
proof (induction xs arbitrary: i)
  case (Cons x xs)
  show ?case
  proof (cases "P x")
    case True
    with Cons show ?thesis by (cases i) auto
  next
    case False
    have "\<not> P y" if "y \<in> set (x # xs)" for y
      using that False mono [of x y] Cons.prems(1) by auto
    then have "filter P (x # xs) = []" "\<not> P ((x # xs) ! i)"
      using Cons.prems(2) nth_mem [of i "x # xs"] by (auto simp: filter_empty_conv simp del: nth_mem)
    then show ?thesis by simp
  qed
qed simp

lemma lower_pos: "sorted nums \<Longrightarrow> 0 \<le> i \<Longrightarrow> i < size_of nums \<Longrightarrow> nums ! nat i < t \<longleftrightarrow> i < lower nums t"
  using sorted_filter_pos [of nums "\<lambda>x. x < t" "nat i"] by (auto simp: lower_def)

lemma upper_pos: "sorted nums \<Longrightarrow> 0 \<le> i \<Longrightarrow> i < size_of nums \<Longrightarrow> nums ! nat i \<le> t \<longleftrightarrow> i < upper nums t"
  using sorted_filter_pos [of nums "\<lambda>x. x \<le> t" "nat i"] by (auto simp: upper_def)

lemma lower_bounds: "0 \<le> lower nums t" "lower nums t \<le> size_of nums" "0 \<le> upper nums t" "upper nums t \<le> size_of nums"
  by (simp_all add: lower_def upper_def)

lemma lower_le_upper: "lower nums t \<le> upper nums t"
  unfolding lower_def upper_def by (induction nums) auto

lemma eq_pos:
  "sorted nums \<Longrightarrow> 0 \<le> i \<Longrightarrow> i < size_of nums \<Longrightarrow> nums ! nat i = t \<longleftrightarrow> lower nums t \<le> i \<and> i < upper nums t"
  using lower_pos [of nums i t] upper_pos [of nums i t] by linarith

lemma mem_pos: "sorted nums \<Longrightarrow> t \<in> set nums \<longleftrightarrow> lower nums t < upper nums t"
proof -
  assume s: "sorted nums"
  have b: "0 \<le> lower nums t" "upper nums t \<le> size_of nums" by (rule lower_bounds)+
  show ?thesis
  proof
    assume "t \<in> set nums"
    then obtain i where "i < length nums" "nums ! i = t" by (auto simp: in_set_conv_nth)
    then show "lower nums t < upper nums t" using eq_pos [OF s, of "int i" t] by simp
  next
    assume "lower nums t < upper nums t"
    then show "t \<in> set nums"
      using eq_pos [OF s, of "lower nums t" t] b by (auto simp: in_set_conv_nth intro!: exI [of _ "nat (lower nums t)"])
  qed
qed

section \<open>solution 35\<close>

function insert_loop :: "int list \<Rightarrow> int \<Rightarrow> int \<Rightarrow> int \<Rightarrow> int option" where
  "insert_loop nums target low high =
     (if low \<le> high then
        let mid = (high - low) div 2 + low in
        case at nums mid of None \<Rightarrow> None | Some v \<Rightarrow>
          if v = target then Some mid
          else if v > target then
            if mid = 0 then Some mid
            else case at nums (mid - 1) of None \<Rightarrow> None | Some p \<Rightarrow>
              if p < target then Some mid else insert_loop nums target low (mid - 1)
          else insert_loop nums target (mid + 1) high
      else Some (size_of nums))"
  by pat_completeness auto
termination by (relation "measure (\<lambda>(nums, t, low, high). nat (high - low + 1))") auto

definition searchInsert :: "int list \<Rightarrow> int \<Rightarrow> int option" where
  "searchInsert nums target = insert_loop nums target 0 (size_of nums - 1)"

function insert_loop2 :: "int list \<Rightarrow> int \<Rightarrow> int \<Rightarrow> int \<Rightarrow> int option" where
  "insert_loop2 nums target low high =
     (if low < high then
        let mid = (high - low) div 2 + low in
        case at nums mid of None \<Rightarrow> None | Some v \<Rightarrow>
          if v < target then insert_loop2 nums target (mid + 1) high
          else insert_loop2 nums target low mid
      else Some low)"
  by pat_completeness auto
termination by (relation "measure (\<lambda>(nums, t, low, high). nat (high - low))") auto

definition searchInsert2 :: "int list \<Rightarrow> int \<Rightarrow> int option" where
  "searchInsert2 nums target = insert_loop2 nums target 0 (size_of nums)"

declare insert_loop.simps [simp del] insert_loop2.simps [simp del]

lemma insert_loop2_lower:
  assumes "sorted nums" "0 \<le> low" "high \<le> size_of nums" "low \<le> lower nums t" "lower nums t \<le> high"
  shows "insert_loop2 nums t low high = Some (lower nums t)"
  using assms
proof (induction nums t low high rule: insert_loop2.induct)
  case (1 nums t low high)
  define mid where "mid = (high - low) div 2 + low"
  show ?case
  proof (cases "low < high")
    case True
    then have mid: "low \<le> mid" "mid < high" by (auto simp: mid_def)
    then have "at nums mid = Some (nums ! nat mid)" using "1.prems" by simp
    moreover have "nums ! nat mid < t \<longleftrightarrow> mid < lower nums t"
      using "1.prems" mid by (intro lower_pos) auto
    ultimately show ?thesis
      using True mid 1(1,2) [OF True mid_def, of "nums ! nat mid"] 1(3-)
      by (subst insert_loop2.simps) (auto simp: mid_def [symmetric] Let_def)
  qed (use 1 in \<open>simp add: insert_loop2.simps\<close>)
qed

lemma insert_loop_lower:
  assumes "sorted nums" "distinct nums" "0 \<le> low" "high < size_of nums" "low \<le> high + 1"
    and "low \<le> lower nums t" "lower nums t \<le> high \<or> high = size_of nums - 1"
  shows "insert_loop nums t low high = Some (lower nums t)"
  using assms
proof (induction nums t low high rule: insert_loop.induct)
  case (1 nums t low high)
  define mid where "mid = (high - low) div 2 + low"
  show ?case
  proof (cases "low \<le> high")
    case True
    then have mid: "low \<le> mid" "mid \<le> high" by (auto simp: mid_def)
    then have at: "at nums mid = Some (nums ! nat mid)" using "1.prems" by simp
    have below: "nums ! nat mid < t \<longleftrightarrow> mid < lower nums t"
      using "1.prems" mid by (intro lower_pos) auto
    have before: "mid \<noteq> 0 \<Longrightarrow> nums ! nat (mid - 1) < t \<longleftrightarrow> mid - 1 < lower nums t"
      using "1.prems" mid by (intro lower_pos) auto
    have less: "mid \<noteq> 0 \<Longrightarrow> nums ! nat (mid - 1) < nums ! nat mid"
    proof -
      assume "mid \<noteq> 0"
      then have "nat (mid - 1) < nat mid" "nat mid < length nums" using 1 mid by auto
      with 1(3,4) show ?thesis by (metis sorted_wrt_nth_less strict_sorted_iff)
    qed
    have at1: "mid \<noteq> 0 \<Longrightarrow> at nums (mid - 1) = Some (nums ! nat (mid - 1))" using "1.prems" mid by simp
    have L: "0 \<le> lower nums t" "lower nums t \<le> size_of nums" by (simp_all add: lower_bounds)
    consider "nums ! nat mid = t" | "nums ! nat mid > t" | "nums ! nat mid < t" by linarith
    then show ?thesis
    proof cases
      case 1
      then have "lower nums t \<le> mid" using below by simp
      moreover have "mid \<le> lower nums t" using 1 before less L by (cases "mid = 0") simp_all
      ultimately have "mid = lower nums t" by simp
      with 1 True at show ?thesis by (subst insert_loop.simps) (simp add: mid_def [symmetric] Let_def)
    next
      case 2
      show ?thesis
      proof (cases "mid = 0 \<or> nums ! nat (mid - 1) < t")
        case True: True
        then have "mid \<le> lower nums t" using before L by (cases "mid = 0") simp_all
        with 2 below have "mid = lower nums t" by simp
        with 2 True \<open>low \<le> high\<close> at at1 show ?thesis
          by (subst insert_loop.simps) (auto simp: mid_def [symmetric] Let_def)
      next
        case False
        then have "insert_loop nums t low (mid - 1) = Some (lower nums t)"
          using "1.IH"(1) [OF \<open>low \<le> high\<close> mid_def at _ _ _ at1] "1.prems" mid before 2 below by auto
        with False 2 \<open>low \<le> high\<close> at at1 show ?thesis
          by (subst insert_loop.simps) (auto simp: mid_def [symmetric] Let_def)
      qed
    next
      case 3
      then have "insert_loop nums t (mid + 1) high = Some (lower nums t)"
        using "1.IH"(2) [OF \<open>low \<le> high\<close> mid_def at] "1.prems" mid below by auto
      with 3 \<open>low \<le> high\<close> at show ?thesis
        by (subst insert_loop.simps) (auto simp: mid_def [symmetric] Let_def)
    qed
  next
    case False
    have "lower nums t \<le> size_of nums" by (simp add: lower_bounds)
    with False 1 show ?thesis by (subst insert_loop.simps) auto
  qed
qed

lemma searchInsert_spec:
  assumes "sorted nums" "distinct nums"
  shows "searchInsert nums t = Some (lower nums t)" "searchInsert2 nums t = Some (lower nums t)"
  using assms lower_bounds [of nums t]
  by (auto simp: searchInsert_def searchInsert2_def intro!: insert_loop_lower insert_loop2_lower)

section \<open>solution 34\<close>

function range_find :: "int list \<Rightarrow> int \<Rightarrow> int \<Rightarrow> int \<Rightarrow> int \<Rightarrow> (int \<times> int \<times> int) option" where
  "range_find nums target start end_ix mid =
     (if start \<le> end_ix then
        let mid = start + (end_ix - start) div 2 in
        case at nums mid of None \<Rightarrow> None | Some v \<Rightarrow>
          if v = target then Some (start, end_ix, mid)
          else if v < target then range_find nums target (mid + 1) end_ix mid
          else range_find nums target start (mid - 1) mid
      else Some (start, end_ix, mid))"
  by pat_completeness auto
termination by (relation "measure (\<lambda>(nums, t, low, high, m). nat (high - low + 1))") auto

function expand_left :: "int list \<Rightarrow> int \<Rightarrow> int \<Rightarrow> int option" where
  "expand_left nums target start =
     (if 0 \<le> start then
        case at nums start of None \<Rightarrow> None | Some v \<Rightarrow>
          if v = target then expand_left nums target (start - 1) else Some start
      else Some start)"
  by pat_completeness auto
termination by (relation "measure (\<lambda>(nums, t, i). nat (i + 1))") auto

function expand_right :: "int list \<Rightarrow> int \<Rightarrow> int \<Rightarrow> int option" where
  "expand_right nums target end_ix =
     (if end_ix < size_of nums then
        case at nums end_ix of None \<Rightarrow> None | Some v \<Rightarrow>
          if v = target then expand_right nums target (end_ix + 1) else Some end_ix
      else Some end_ix)"
  by pat_completeness auto
termination by (relation "measure (\<lambda>(nums, t, i). nat (int (length nums) - i))") auto

definition searchRange :: "int list \<Rightarrow> int \<Rightarrow> (int \<times> int) option" where
  "searchRange nums target =
     (case range_find nums target 0 (size_of nums - 1) (-1) of None \<Rightarrow> None
      | Some (start, end_ix, mid) \<Rightarrow>
          if start > end_ix then Some (-1, -1)
          else case (expand_left nums target (mid - 1), expand_right nums target (mid + 1)) of
            (Some l, Some r) \<Rightarrow> Some (l + 1, r - 1)
          | _ \<Rightarrow> None)"

function range_low :: "int list \<Rightarrow> int \<Rightarrow> int \<Rightarrow> int \<Rightarrow> int option" where
  "range_low nums target start end_ix =
     (if start < end_ix then
        let mid = start + (end_ix - start) div 2 in
        case at nums mid of None \<Rightarrow> None | Some v \<Rightarrow>
          if v < target then range_low nums target (mid + 1) end_ix
          else range_low nums target start mid
      else Some start)"
  by pat_completeness auto
termination by (relation "measure (\<lambda>(nums, t, low, high). nat (high - low))") auto

function range_high :: "int list \<Rightarrow> int \<Rightarrow> int \<Rightarrow> int \<Rightarrow> int option" where
  "range_high nums target start end_ix =
     (if start < end_ix then
        let mid = start + (end_ix - start) div 2 + 1 in
        case at nums mid of None \<Rightarrow> None | Some v \<Rightarrow>
          if v > target then range_high nums target start (mid - 1)
          else range_high nums target mid end_ix
      else Some end_ix)"
  by pat_completeness auto
termination by (relation "measure (\<lambda>(nums, t, low, high). nat (high - low))") auto

definition searchRange2 :: "int list \<Rightarrow> int \<Rightarrow> (int \<times> int) option" where
  "searchRange2 nums target =
     (case range_low nums target 0 (size_of nums - 1) of None \<Rightarrow> None | Some start \<Rightarrow>
      case at nums start of None \<Rightarrow> None | Some v \<Rightarrow>
        if v \<noteq> target then Some (-1, -1)
        else case range_high nums target start (size_of nums - 1) of None \<Rightarrow> None
          | Some e \<Rightarrow> Some (start, e))"

declare range_find.simps [simp del] expand_left.simps [simp del] expand_right.simps [simp del]
  range_low.simps [simp del] range_high.simps [simp del]

lemma range_find_spec:
  assumes "sorted nums" "0 \<le> low" "high < size_of nums" "low \<le> lower nums t" "upper nums t \<le> high + 1"
  shows "\<exists>l h m'. range_find nums t low high m = Some (l, h, m') \<and>
    (if t \<in> set nums then l \<le> h \<and> lower nums t \<le> m' \<and> m' < upper nums t else l > h)"
  using assms
proof (induction nums t low high m rule: range_find.induct)
  case (1 nums t low high m)
  define mid where "mid = low + (high - low) div 2"
  have less: "t \<in> set nums \<longleftrightarrow> lower nums t < upper nums t" using 1 by (intro mem_pos)
  show ?case
  proof (cases "low \<le> high")
    case True
    then have mid: "low \<le> mid" "mid \<le> high" by (auto simp: mid_def)
    then have at: "at nums mid = Some (nums ! nat mid)" using "1.prems" by simp
    have le: "nums ! nat mid < t \<longleftrightarrow> mid < lower nums t" "nums ! nat mid \<le> t \<longleftrightarrow> mid < upper nums t"
      using "1.prems" mid lower_pos [of nums mid t] upper_pos [of nums mid t] by simp_all
    consider "nums ! nat mid = t" | "nums ! nat mid < t" | "nums ! nat mid > t" by linarith
    then show ?thesis
    proof cases
      case 1
      then have "lower nums t \<le> mid" "mid < upper nums t" using le by auto
      with True 1 at less show ?thesis
        by (subst range_find.simps) (simp add: mid_def [symmetric] Let_def)
    next
      case 2
      with "1.IH"(1) [OF True mid_def at] "1.prems" le mid True at show ?thesis
        by (subst range_find.simps) (simp add: mid_def [symmetric] Let_def)
    next
      case 3
      with "1.IH"(2) [OF True mid_def at] "1.prems" le mid True at show ?thesis
        by (subst range_find.simps) (simp add: mid_def [symmetric] Let_def)
    qed
  next
    case False
    with 1 less show ?thesis by (subst range_find.simps) simp
  qed
qed

lemma expand_left_lower:
  assumes "sorted nums" "i < upper nums t" "lower nums t \<le> i + 1" "-1 \<le> i"
  shows "expand_left nums t i = Some (lower nums t - 1)"
  using assms
proof (induction nums t i rule: expand_left.induct)
  case (1 nums t i)
  have b: "upper nums t \<le> size_of nums" "0 \<le> lower nums t" by (simp_all add: lower_bounds)
  show ?case
  proof (cases "0 \<le> i")
    case True
    then have at: "at nums i = Some (nums ! nat i)" using 1 b by simp
    have "nums ! nat i = t \<longleftrightarrow> lower nums t \<le> i" using 1 b True eq_pos [of nums i t] by simp
    with 1 True at show ?thesis by (subst expand_left.simps) auto
  next
    case False
    with 1 b show ?thesis by (subst expand_left.simps) simp
  qed
qed

lemma expand_right_upper:
  assumes "sorted nums" "lower nums t \<le> i" "i \<le> upper nums t"
  shows "expand_right nums t i = Some (upper nums t)"
  using assms
proof (induction nums t i rule: expand_right.induct)
  case (1 nums t i)
  have b: "upper nums t \<le> size_of nums" "0 \<le> lower nums t" by (simp_all add: lower_bounds)
  show ?case
  proof (cases "i < size_of nums")
    case True
    then have at: "at nums i = Some (nums ! nat i)" using 1 b by simp
    have "nums ! nat i = t \<longleftrightarrow> i < upper nums t" using 1 b True eq_pos [of nums i t] by simp
    with 1 True at show ?thesis by (subst expand_right.simps) auto
  next
    case False
    with 1 b show ?thesis by (subst expand_right.simps) simp
  qed
qed

lemma range_low_insert: "range_low nums t low high = insert_loop2 nums t low high"
proof (induction nums t low high rule: range_low.induct)
  case (1 nums t low high)
  define mid where "mid = low + (high - low) div 2"
  have mid: "(high - low) div 2 + low = mid" by (simp add: mid_def)
  show ?case
    by (subst range_low.simps, subst insert_loop2.simps)
      (auto simp: Let_def mid mid_def [symmetric] 1(1,2) [OF _ mid_def] split: option.split)
qed

lemma insert_loop2_clamped:
  assumes "sorted nums" "0 \<le> low" "high < size_of nums" "low \<le> high" "low \<le> lower nums t"
  shows "insert_loop2 nums t low high = Some (min (lower nums t) high)"
  using assms
proof (induction nums t low high rule: insert_loop2.induct)
  case (1 nums t low high)
  define mid where "mid = (high - low) div 2 + low"
  show ?case
  proof (cases "low < high")
    case True
    then have mid: "low \<le> mid" "mid < high" by (auto simp: mid_def)
    then have "at nums mid = Some (nums ! nat mid)" using "1.prems" by simp
    moreover have "nums ! nat mid < t \<longleftrightarrow> mid < lower nums t"
      using "1.prems" mid by (intro lower_pos) auto
    ultimately show ?thesis
      using True mid 1(1,2) [OF True mid_def, of "nums ! nat mid"] 1(3-)
      by (subst insert_loop2.simps) (simp add: mid_def [symmetric] Let_def)
  qed (use 1 in \<open>simp add: insert_loop2.simps\<close>)
qed

lemma range_high_upper:
  assumes "sorted nums" "0 \<le> low" "high < size_of nums" "low < upper nums t" "upper nums t \<le> high + 1"
  shows "range_high nums t low high = Some (upper nums t - 1)"
  using assms
proof (induction nums t low high rule: range_high.induct)
  case (1 nums t low high)
  define mid where "mid = low + (high - low) div 2 + 1"
  show ?case
  proof (cases "low < high")
    case True
    then have mid: "low < mid" "mid \<le> high" by (auto simp: mid_def)
    then have "at nums mid = Some (nums ! nat mid)" using "1.prems" by simp
    moreover have "nums ! nat mid \<le> t \<longleftrightarrow> mid < upper nums t"
      using "1.prems" mid by (intro upper_pos) auto
    ultimately show ?thesis
      using True mid 1(1,2) [OF True mid_def, of "nums ! nat mid"] 1(3-)
      by (subst range_high.simps) (auto simp: mid_def [symmetric] Let_def)
  qed (use 1 in \<open>simp add: range_high.simps\<close>)
qed

definition range_of :: "int list \<Rightarrow> int \<Rightarrow> int \<times> int" where
  "range_of nums t = (if t \<in> set nums then (lower nums t, upper nums t - 1) else (-1, -1))"

lemma searchRange_spec:
  assumes "sorted nums"
  shows "searchRange nums t = Some (range_of nums t)"
proof -
  have b: "upper nums t \<le> size_of nums" "0 \<le> lower nums t" by (simp_all add: lower_bounds)
  obtain l h m where f: "range_find nums t 0 (size_of nums - 1) (-1) = Some (l, h, m)"
    and m: "if t \<in> set nums then l \<le> h \<and> lower nums t \<le> m \<and> m < upper nums t else l > h"
    using range_find_spec [OF assms, of 0 "size_of nums - 1" t "-1"] b by auto
  show ?thesis
  proof (cases "t \<in> set nums")
    case True
    then have "expand_left nums t (m - 1) = Some (lower nums t - 1)"
      "expand_right nums t (m + 1) = Some (upper nums t)"
      using m b assms by (auto intro!: expand_left_lower expand_right_upper)
    with True f m show ?thesis by (simp add: searchRange_def range_of_def)
  qed (use f m in \<open>simp add: searchRange_def range_of_def\<close>)
qed

lemma searchRange2_spec:
  assumes "sorted nums"
  shows "searchRange2 nums t = (if nums = [] then None else Some (range_of nums t))"
proof (cases "nums = []")
  case True
  then show ?thesis by (simp add: searchRange2_def range_low.simps at_def)
next
  case False
  have b: "upper nums t \<le> size_of nums" "0 \<le> lower nums t" "lower nums t \<le> upper nums t"
    by (simp_all add: lower_bounds lower_le_upper)
  let ?s = "min (lower nums t) (size_of nums - 1)"
  have low: "range_low nums t 0 (size_of nums - 1) = Some ?s"
    using assms b False by (simp add: range_low_insert insert_loop2_clamped Suc_le_eq)
  have at: "at nums ?s = Some (nums ! nat ?s)" using b False by simp
  have eq: "nums ! nat ?s = t \<longleftrightarrow> lower nums t < upper nums t"
    using eq_pos [OF assms, of ?s t] b False by (auto simp: min_def)
  have mem: "t \<in> set nums \<longleftrightarrow> lower nums t < upper nums t" using assms by (rule mem_pos)
  show ?thesis
  proof (cases "t \<in> set nums")
    case True
    then have "?s = lower nums t" "lower nums t < upper nums t" using mem b by (auto simp: min_def)
    moreover from this have "range_high nums t (lower nums t) (size_of nums - 1) = Some (upper nums t - 1)"
      using b assms by (intro range_high_upper) auto
    ultimately show ?thesis using low at eq True False by (simp add: searchRange2_def range_of_def)
  qed (use low at eq mem False in \<open>simp add: searchRange2_def range_of_def\<close>)
qed

text \<open>
  On a sorted vector both range searches return the first and the last position of the target,
  or -1 twice when it does not occur; but the second one reads \<^verbatim>\<open>nums[0]\<close> of an empty vector.
\<close>

theorem search_ranges_agree:
  assumes "sorted nums"
  shows "searchRange nums t = Some (range_of nums t) \<and>
    searchRange2 nums t = (if nums = [] then None else searchRange nums t)"
  using searchRange_spec [OF assms] searchRange2_spec [OF assms] by simp

theorem search_ranges_agree_witness:
  "searchRange [5, 7, 7, 8, 8, 10] 8 = Some (3, 4) \<and> searchRange2 [5, 7, 7, 8, 8, 10] 8 = Some (3, 4)"
  using search_ranges_agree [of "[5, 7, 7, 8, 8, 10]" 8] by (simp add: range_of_def lower_def upper_def)

section \<open>solution 278\<close>

text \<open>
  Versions from \<open>bad\<close> on are bad. The first two searches need not return: they are defined with
  \<^verbatim>\<open>partial_function\<close>, a result \<open>None\<close> being a search that runs for ever. A failed assertion is
  the result \<open>Inl ()\<close>. \<^verbatim>\<open>start + end\<close> is computed in \<^verbatim>\<open>int\<close> by the first one only.
\<close>

definition isBadVersion :: "int \<Rightarrow> int \<Rightarrow> bool" where
  "isBadVersion bad version \<longleftrightarrow> bad \<le> version"

partial_function (option) version_helper :: "int \<Rightarrow> int \<Rightarrow> int \<Rightarrow> (unit + int) option" where
  "version_helper bad start end_ix =
     (if start = end_ix \<and> isBadVersion bad start \<and> (start = 0 \<or> \<not> isBadVersion bad (start - 1))
      then Some (Inr start)
      else if \<not> start \<le> end_ix then Some (Inl ())
      else let mid = cdiv (start + end_ix) 2 in
        if isBadVersion bad mid then version_helper bad start mid
        else version_helper bad (mid + 1) end_ix)"

definition firstBadVersion :: "int \<Rightarrow> int \<Rightarrow> (unit + int) option" where
  "firstBadVersion bad n = version_helper bad 0 (n - 1)"

partial_function (option) version_loop2 :: "int \<Rightarrow> int \<Rightarrow> int \<Rightarrow> int option" where
  "version_loop2 bad s n =
     (if s \<le> n then
        if s = n \<and> isBadVersion bad s \<and> \<not> isBadVersion bad (s - 1) then Some s
        else let m = cdiv (s + n) 2 in
          if isBadVersion bad m then version_loop2 bad s m else version_loop2 bad (m + 1) n
      else Some 0)"

definition firstBadVersion2 :: "int \<Rightarrow> int \<Rightarrow> int option" where
  "firstBadVersion2 bad n = version_loop2 bad 0 n"

function version_loop3 :: "int \<Rightarrow> int \<Rightarrow> int \<Rightarrow> int" where
  "version_loop3 bad s n =
     (if s < n then
        let m = (s + n) div 2 in
        if \<not> isBadVersion bad m then version_loop3 bad (m + 1) n else version_loop3 bad s m
      else s)"
  by pat_completeness auto
termination by (relation "measure (\<lambda>(b, s, n). nat (n - s))") auto

definition firstBadVersion3 :: "int \<Rightarrow> int \<Rightarrow> int" where
  "firstBadVersion3 bad n = version_loop3 bad 1 n"

declare version_loop3.simps [simp del]

lemma version_helper_finds:
  "0 \<le> start \<Longrightarrow> start \<le> bad \<Longrightarrow> bad \<le> e \<Longrightarrow> version_helper bad start e = Some (Inr bad)"
proof (induction "nat (e - start)" arbitrary: start e rule: less_induct)
  case less
  define mid where "mid = (start + e) div 2"
  show ?case
  proof (cases "start = e")
    case True
    with less.prems show ?thesis by (subst version_helper.simps) (auto simp: isBadVersion_def)
  next
    case False
    then have "start \<le> mid" "mid < e" "cdiv (start + e) 2 = mid" using less.prems by (auto simp: mid_def)
    with False less.prems less.hyps [of mid start] less.hyps [of e "mid + 1"] show ?thesis
      by (subst version_helper.simps) (simp add: isBadVersion_def Let_def)
  qed
qed

lemma version_helper_misses:
  "0 \<le> start \<Longrightarrow> start \<le> e \<Longrightarrow> e < bad \<Longrightarrow> version_helper bad start e = Some (Inl ())"
proof (induction "nat (e - start)" arbitrary: start rule: less_induct)
  case less
  define mid where "mid = (start + e) div 2"
  have mid: "start \<le> mid" "mid \<le> e" "cdiv (start + e) 2 = mid" using less.prems by (auto simp: mid_def)
  show ?case
  proof (cases "mid + 1 \<le> e")
    case True
    with mid less.prems less.hyps [of "mid + 1"] show ?thesis
      by (subst version_helper.simps) (simp add: isBadVersion_def Let_def)
  next
    case False
    then have "version_helper bad (mid + 1) e = Some (Inl ())"
      by (subst version_helper.simps) simp
    with mid less.prems show ?thesis
      by (subst version_helper.simps) (simp add: isBadVersion_def Let_def)
  qed
qed

lemma version_loop2_finds:
  "0 \<le> s \<Longrightarrow> s \<le> bad \<Longrightarrow> bad \<le> n \<Longrightarrow> version_loop2 bad s n = Some bad"
proof (induction "nat (n - s)" arbitrary: s n rule: less_induct)
  case less
  define mid where "mid = (s + n) div 2"
  show ?case
  proof (cases "s = n")
    case True
    with less.prems show ?thesis by (subst version_loop2.simps) (auto simp: isBadVersion_def)
  next
    case False
    then have "s \<le> mid" "mid < n" "cdiv (s + n) 2 = mid" using less.prems by (auto simp: mid_def)
    with False less.prems less.hyps [of mid s] less.hyps [of n "mid + 1"] show ?thesis
      by (subst version_loop2.simps) (simp add: isBadVersion_def Let_def)
  qed
qed

lemma version_loop3_finds: "s \<le> bad \<Longrightarrow> bad \<le> n \<Longrightarrow> version_loop3 bad s n = bad"
proof (induction bad s n rule: version_loop3.induct)
  case (1 bad s n)
  then show ?case
    by (subst version_loop3.simps) (auto simp: isBadVersion_def Let_def)
qed

text \<open>
  For a first bad version among \<open>1 \<dots> n\<close> the second and third search return it. The first
  searches \<open>0 \<dots> n - 1\<close>: it returns it only if it is not \<open>n\<close>, and fails its assertion when only
  version \<open>n\<close> is bad.
\<close>

theorem first_bad_versions:
  assumes "1 \<le> bad" "bad \<le> n"
  shows "firstBadVersion3 bad n = bad \<and> firstBadVersion2 bad n = Some bad \<and>
    firstBadVersion bad n = (if bad < n then Some (Inr bad) else Some (Inl ()))"
  using assms version_helper_finds [of 0 bad "n - 1"] version_helper_misses [of 0 "n - 1" bad]
    version_loop2_finds [of 0 bad n] version_loop3_finds [of 1 bad n]
  by (auto simp: firstBadVersion_def firstBadVersion2_def firstBadVersion3_def)

theorem first_bad_versions_witness:
  "firstBadVersion3 3 3 = 3 \<and> firstBadVersion2 3 3 = Some 3 \<and> firstBadVersion 3 3 = Some (Inl ())"
  using first_bad_versions [of 3 3] by simp

end
