(* ===== verification/LcRotated.thy ===== *)
theory LcRotated
  imports Prelude
begin

text \<open>
  Searches of \<^verbatim>\<open>hobbies/leetcode/algorithms\<close> in vectors that are not sorted: rotated sorted
  vectors (\<^verbatim>\<open>solution_33\<close>, \<^verbatim>\<open>solution_153\<close>), peaks (\<^verbatim>\<open>solution_162\<close>) and matrices with sorted
  rows and columns (\<^verbatim>\<open>solution_240\<close>). \<open>None\<close> is an access outside a vector.
\<close>

section \<open>Rotated vectors\<close>

definition rotated :: "nat \<Rightarrow> int list \<Rightarrow> bool" where
  "rotated k nums \<longleftrightarrow> k < length nums \<and> sorted_wrt (<) (drop k nums @ take k nums)"

lemma rotated_less_nat:
  assumes "rotated k nums" "i < j" "j < length nums"
  shows "nums ! i < nums ! j \<longleftrightarrow> \<not> (i < k \<and> k \<le> j)"
proof -
  have s: "sorted_wrt (<) (drop k nums)" "sorted_wrt (<) (take k nums)"
    and cross: "\<And>x y. x \<in> set (drop k nums) \<Longrightarrow> y \<in> set (take k nums) \<Longrightarrow> x < y"
    using assms(1) by (auto simp: rotated_def sorted_wrt_append)
  consider "j < k" | "k \<le> i" | "i < k" "k \<le> j" by linarith
  then show ?thesis
  proof cases
    case 1
    with sorted_wrt_nth_less [OF s(2), of i j] assms show ?thesis by simp
  next
    case 2
    with sorted_wrt_nth_less [OF s(1), of "i - k" "j - k"] assms show ?thesis by simp
  next
    case 3
    then have "drop k nums ! (j - k) \<in> set (drop k nums)" "take k nums ! i \<in> set (take k nums)"
      using assms by (auto intro!: nth_mem simp del: nth_drop nth_take)
    then have "nums ! j < nums ! i" using cross 3 assms by simp
    with 3 show ?thesis by simp
  qed
qed

text \<open>Comparing two elements tells on which side of the rotation they are.\<close>

lemma rotated_less:
  assumes "rotated k nums" "0 \<le> i" "i < j" "j < size_of nums"
  shows "nums ! nat i < nums ! nat j \<longleftrightarrow> \<not> (i < int k \<and> int k \<le> j)"
  using rotated_less_nat [OF assms(1), of "nat i" "nat j"] assms(2-) by (auto simp: nat_less_iff le_nat_iff)

lemma rotated_greater:
  assumes "rotated k nums" "0 \<le> i" "i < j" "j < size_of nums"
  shows "nums ! nat j < nums ! nat i \<longleftrightarrow> i < int k \<and> int k \<le> j"
proof -
  have d: "distinct nums" using assms(1)
    by (metis append_take_drop_id distinct_append inf_commute rotated_def strict_sorted_iff)
  have "nat i < nat j" "nat j < length nums" using assms by auto
  with d have "nums ! nat i \<noteq> nums ! nat j" by (metis nth_eq_iff_index_eq less_trans less_irrefl)
  with rotated_less [OF assms] show ?thesis by linarith
qed

lemma size_pred: "nums \<noteq> [] \<Longrightarrow> size_of nums - 1 = int (length nums - 1)"
  by (cases nums) auto

lemma last_at: "nums \<noteq> [] \<Longrightarrow> last nums = nums ! nat (size_of nums - 1)"
  by (simp only: size_pred nat_int last_conv_nth not_False_eq_True)

lemma at_last: "nums \<noteq> [] \<Longrightarrow> at nums (size_of nums - 1) = Some (nums ! nat (size_of nums - 1))"
  by (subst at_in) (simp_all add: Suc_le_eq)

definition position :: "int list \<Rightarrow> int \<Rightarrow> int \<Rightarrow> bool" where
  "position nums t r \<longleftrightarrow> (if t \<in> set nums then 0 \<le> r \<and> r < size_of nums \<and> nums ! nat r = t else r = -1)"

lemma position_unique: "distinct nums \<Longrightarrow> position nums t r \<Longrightarrow> position nums t r' \<Longrightarrow> r = r'"
  by (auto simp: position_def nth_eq_iff_index_eq split: if_splits)

section \<open>solution 33\<close>

function privot_loop :: "int list \<Rightarrow> int \<Rightarrow> int \<Rightarrow> (int \<times> int) option" where
  \<comment> \<open>the first loop of \<^verbatim>\<open>search\<close>: \<^verbatim>\<open>(low, privot)\<close>\<close>
  "privot_loop nums low high =
     (if low < high - 1 then
        let mid = low + (high - low) div 2 in
        case (at nums mid, at nums (mid + 1), at nums high) of
          (Some m, Some m1, Some h) \<Rightarrow>
            if m > m1 then Some (low, mid)
            else if m > h then privot_loop nums (mid + 1) high
            else privot_loop nums low (mid - 1)
        | _ \<Rightarrow> None
      else Some (low, -1))"
  by pat_completeness auto
termination by (relation "measure (\<lambda>(nums, low, high). nat (high - low + 1))") auto

function privot_loop2 :: "int list \<Rightarrow> int \<Rightarrow> int \<Rightarrow> (int \<times> int) option" where
  "privot_loop2 nums low high =
     (if low \<le> high - 1 then
        let mid = low + (high - low) div 2 in
        case (at nums mid, at nums (mid + 1), at nums (size_of nums - 1)) of
          (Some m, Some m1, Some back) \<Rightarrow>
            if m > m1 then Some (low, mid)
            else if m > back then privot_loop2 nums (mid + 1) high
            else privot_loop2 nums low (mid - 1)
        | _ \<Rightarrow> None
      else Some (low, -1))"
  by pat_completeness auto
termination by (relation "measure (\<lambda>(nums, low, high). nat (high - low + 1))") auto

definition privot_check :: "int list \<Rightarrow> int \<Rightarrow> int \<Rightarrow> int option" where
  "privot_check nums low privot =
     (if low < size_of nums - 1 then
        case (at nums low, at nums (low + 1)) of
          (Some a, Some b) \<Rightarrow> Some (if a > b then low else privot)
        | _ \<Rightarrow> None
      else Some privot)"

function target_loop :: "int list \<Rightarrow> int \<Rightarrow> int \<Rightarrow> int \<Rightarrow> (int + int) option" where
  \<comment> \<open>a position of the target, or \<^verbatim>\<open>low\<close> when the loop ends\<close>
  "target_loop nums target low high =
     (if low < high then
        let mid = low + (high - low) div 2 in
        case at nums mid of None \<Rightarrow> None | Some v \<Rightarrow>
          if v = target then Some (Inl mid)
          else if v < target then target_loop nums target (mid + 1) high
          else target_loop nums target low (mid - 1)
      else Some (Inr low))"
  by pat_completeness auto
termination by (relation "measure (\<lambda>(nums, t, low, high). nat (high - low + 1))") auto

definition target_end :: "int list \<Rightarrow> int \<Rightarrow> (int + int) option \<Rightarrow> int option" where
  "target_end nums target r =
     (case r of None \<Rightarrow> None
      | Some (Inl mid) \<Rightarrow> Some mid
      | Some (Inr low) \<Rightarrow> (case at nums low of None \<Rightarrow> None | Some v \<Rightarrow> Some (if v = target then low else -1)))"

definition search :: "int list \<Rightarrow> int \<Rightarrow> int option" where
  "search nums target =
     (if nums = [] then Some (-1)
      else case privot_loop nums 0 (size_of nums - 1) of None \<Rightarrow> None | Some (low, privot) \<Rightarrow>
        case privot_check nums low privot of None \<Rightarrow> None | Some privot' \<Rightarrow>
          let r = drop (nat (privot' + 1)) nums @ take (nat (privot' + 1)) nums in
            target_end r target (target_loop r target 0 (size_of r - 1)))"

definition bsearch :: "int list \<Rightarrow> int \<Rightarrow> int option" where
  "bsearch nums target =
     (if nums = [] then Some (-1)
      else case privot_loop2 nums 0 (size_of nums - 1) of None \<Rightarrow> None | Some (low, privot) \<Rightarrow>
        case privot_check nums low privot of None \<Rightarrow> None | Some privot' \<Rightarrow>
          case at nums (privot' + 1) of None \<Rightarrow> None | Some v \<Rightarrow>
            if v \<le> target \<and> target \<le> last nums
            then target_end nums target (target_loop nums target (privot' + 1) (size_of nums - 1))
            else target_end nums target (target_loop nums target 0 privot'))"

function min_loop :: "int list \<Rightarrow> int \<Rightarrow> int \<Rightarrow> int option" where
  "min_loop nums low high =
     (if low < high then
        let mid = low + (high - low) div 2 in
        case (at nums mid, at nums high) of
          (Some m, Some h) \<Rightarrow> if m > h then min_loop nums (mid + 1) high else min_loop nums low mid
        | _ \<Rightarrow> None
      else Some low)"
  by pat_completeness auto
termination by (relation "measure (\<lambda>(nums, low, high). nat (high - low))") auto

function target_loop2 :: "int list \<Rightarrow> int \<Rightarrow> int \<Rightarrow> int \<Rightarrow> int option" where
  "target_loop2 nums target low high =
     (if low \<le> high then
        let mid = low + (high - low) div 2 in
        case at nums mid of None \<Rightarrow> None | Some v \<Rightarrow>
          if v = target then Some mid
          else if v < target then target_loop2 nums target (mid + 1) high
          else target_loop2 nums target low (mid - 1)
      else Some (-1))"
  by pat_completeness auto
termination by (relation "measure (\<lambda>(nums, t, low, high). nat (high - low + 1))") auto

definition bsearch2 :: "int list \<Rightarrow> int \<Rightarrow> int option" where
  \<comment> \<open>\<^verbatim>\<open>nums.back()\<close> of an empty vector is undefined\<close>
  "bsearch2 nums target =
     (if nums = [] then None
      else case min_loop nums 0 (size_of nums - 1) of None \<Rightarrow> None | Some low \<Rightarrow>
        if target > last nums
        then target_loop2 nums target 0 (if low \<noteq> 0 then low - 1 else size_of nums - 1)
        else target_loop2 nums target low (size_of nums - 1))"

declare privot_loop.simps [simp del] privot_loop2.simps [simp del] target_loop.simps [simp del]
  min_loop.simps [simp del] target_loop2.simps [simp del]

lemma privot_loop2_finds:
  assumes "rotated k nums" "0 \<le> low" "high < size_of nums"
    and "if k = 0 then low = 0 else low \<le> int k - 1 \<and> int k - 1 \<le> high"
  shows "\<exists>l p. privot_loop2 nums low high = Some (l, p) \<and> 0 \<le> l \<and> l < size_of nums \<and>
    (if k = 0 then l = 0 \<and> p = -1 else p = int k - 1 \<or> p = -1 \<and> l = int k - 1)"
  using assms
proof (induction nums low high rule: privot_loop2.induct)
  case (1 nums low high)
  define mid where "mid = low + (high - low) div 2"
  have k: "k < length nums" and ne: "nums \<noteq> []" using "1.prems" by (auto simp: rotated_def)
  show ?case
  proof (cases "low \<le> high - 1")
    case True
    then have mid: "low \<le> mid" "mid < high" by (auto simp: mid_def)
    then have at: "at nums mid = Some (nums ! nat mid)" "at nums (mid + 1) = Some (nums ! nat (mid + 1))"
      "at nums (size_of nums - 1) = Some (nums ! nat (size_of nums - 1))" using "1.prems" mid at_last [OF ne] by auto
    have le: "nums ! nat (mid + 1) < nums ! nat mid \<longleftrightarrow> mid < int k \<and> int k \<le> mid + 1"
      "nums ! nat (size_of nums - 1) < nums ! nat mid \<longleftrightarrow> mid < int k"
      using rotated_greater [of k nums mid "mid + 1"] rotated_greater [of k nums mid "size_of nums - 1"]
        "1.prems" mid k by auto
    consider "mid + 1 = int k" | "mid + 1 < int k" | "int k \<le> mid" by linarith
    then show ?thesis
    proof cases
      case 1
      then have "privot_loop2 nums low high = Some (low, mid)"
        using True at le by (subst privot_loop2.simps) (simp add: mid_def [symmetric] Let_def)
      then show ?thesis using 1 "1.prems" mid by auto
    next
      case 2
      then have "privot_loop2 nums low high = privot_loop2 nums (mid + 1) high"
        using True at le by (subst privot_loop2.simps) (simp add: mid_def [symmetric] Let_def)
      moreover have "\<not> nums ! nat (mid + 1) < nums ! nat mid" "nums ! nat (size_of nums - 1) < nums ! nat mid"
        using 2 le by auto
      ultimately show ?thesis
        using "1.IH"(1) [OF True mid_def] at "1.prems" mid 2 by (auto split: if_splits)
    next
      case 3
      then have "privot_loop2 nums low high = privot_loop2 nums low (mid - 1)"
        using True at le by (subst privot_loop2.simps) (simp add: mid_def [symmetric] Let_def)
      moreover have "\<not> nums ! nat (mid + 1) < nums ! nat mid" "\<not> nums ! nat (size_of nums - 1) < nums ! nat mid"
        using 3 le by auto
      ultimately show ?thesis
        using "1.IH"(2) [OF True mid_def] at "1.prems" mid 3 by (auto split: if_splits)
    qed
  next
    case False
    with "1.prems" k show ?thesis by (subst privot_loop2.simps) (auto split: if_splits)
  qed
qed

lemma privot_check_finds:
  assumes "rotated k nums" "0 \<le> l" "l < size_of nums"
    and "if k = 0 then l = 0 \<and> p = -1 else p = int k - 1 \<or> p = -1 \<and> l = int k - 1"
  shows "privot_check nums l p = Some (int k - 1)"
proof -
  have k: "k < length nums" using assms by (simp add: rotated_def)
  have "l + 1 < size_of nums \<Longrightarrow> nums ! nat (l + 1) < nums ! nat l \<longleftrightarrow> l < int k \<and> int k \<le> l + 1"
    using rotated_greater [of k nums l "l + 1"] assms by simp
  with assms k show ?thesis
    by (cases "l < size_of nums - 1") (auto simp: privot_check_def split: if_splits)
qed

definition increasing_on :: "int list \<Rightarrow> int \<Rightarrow> int \<Rightarrow> bool" where
  "increasing_on nums low high \<longleftrightarrow> (\<forall>i j. low \<le> i \<and> i < j \<and> j \<le> high \<longrightarrow> nums ! nat i < nums ! nat j)"

lemma increasing_on_sub: "increasing_on nums a b \<Longrightarrow> a \<le> low \<Longrightarrow> high \<le> b \<Longrightarrow> increasing_on nums low high"
  by (auto simp: increasing_on_def)

lemma increasing_onD: "increasing_on nums low high \<Longrightarrow> low \<le> i \<Longrightarrow> i < j \<Longrightarrow> j \<le> high \<Longrightarrow> nums ! nat i < nums ! nat j"
  by (auto simp: increasing_on_def)

definition only_at :: "int list \<Rightarrow> int \<Rightarrow> int \<Rightarrow> int \<Rightarrow> int \<Rightarrow> bool" where
  \<comment> \<open>where the target can be in \<open>a \<dots> b\<close> after the search of \<open>low \<dots> high\<close>\<close>
  "only_at nums t a b l \<longleftrightarrow> (\<forall>i. a \<le> i \<and> i \<le> b \<and> nums ! nat i = t \<longrightarrow> i = l)"

lemma target_loop_spec:
  assumes "increasing_on nums low high" "0 \<le> low" "low < size_of nums" "high < size_of nums"
  shows "\<exists>r. target_loop nums t low high = Some r \<and>
    (case r of Inl m \<Rightarrow> low \<le> m \<and> m \<le> high \<and> nums ! nat m = t
     | Inr l \<Rightarrow> low \<le> l \<and> l < size_of nums \<and> only_at nums t low high l)"
  using assms
proof (induction nums t low high rule: target_loop.induct)
  case (1 nums t low high)
  define mid where "mid = low + (high - low) div 2"
  show ?case
  proof (cases "low < high")
    case True
    then have mid: "low \<le> mid" "mid < high" by (auto simp: mid_def)
    then have at: "at nums mid = Some (nums ! nat mid)" using "1.prems" by simp
    have less: "low \<le> i \<Longrightarrow> i < mid \<Longrightarrow> nums ! nat i < nums ! nat mid"
      and greater: "mid < i \<Longrightarrow> i \<le> high \<Longrightarrow> nums ! nat mid < nums ! nat i" for i
      using increasing_onD [OF "1.prems"(1)] mid by auto
    consider "nums ! nat mid = t" | "nums ! nat mid < t" | "nums ! nat mid > t" by linarith
    then show ?thesis
    proof cases
      case 1
      with True at mid show ?thesis
        by (subst target_loop.simps) (simp add: mid_def [symmetric] Let_def)
    next
      case 2
      have "\<exists>r. target_loop nums t (mid + 1) high = Some r \<and>
        (case r of Inl m \<Rightarrow> mid + 1 \<le> m \<and> m \<le> high \<and> nums ! nat m = t
         | Inr l \<Rightarrow> mid + 1 \<le> l \<and> l < size_of nums \<and> only_at nums t (mid + 1) high l)"
        using "1.IH"(1) [OF True mid_def at] "1.prems" 2 mid increasing_on_sub [OF "1.prems"(1), of "mid + 1" high]
        by auto
      moreover have "only_at nums t (mid + 1) high l \<Longrightarrow> only_at nums t low high l" for l
        using 2 less unfolding only_at_def by (metis add1_zle_eq less_irrefl less_trans linorder_neqE)
      moreover have "target_loop nums t low high = target_loop nums t (mid + 1) high"
        using True at 2 by (subst target_loop.simps) (simp add: mid_def [symmetric] Let_def)
      ultimately show ?thesis using mid by (fastforce split: sum.splits)
    next
      case 3
      have "\<exists>r. target_loop nums t low (mid - 1) = Some r \<and>
        (case r of Inl m \<Rightarrow> low \<le> m \<and> m \<le> mid - 1 \<and> nums ! nat m = t
         | Inr l \<Rightarrow> low \<le> l \<and> l < size_of nums \<and> only_at nums t low (mid - 1) l)"
        using "1.IH"(2) [OF True mid_def at] "1.prems" 3 mid increasing_on_sub [OF "1.prems"(1), of low "mid - 1"]
        by auto
      moreover have "only_at nums t low (mid - 1) l \<Longrightarrow> only_at nums t low high l" for l
        using 3 greater unfolding only_at_def by (metis less_irrefl less_trans linorder_neqE zle_diff1_eq)
      moreover have "target_loop nums t low high = target_loop nums t low (mid - 1)"
        using True at 3 by (subst target_loop.simps) (simp add: mid_def [symmetric] Let_def)
      ultimately show ?thesis using mid by (fastforce split: sum.splits)
    qed
  next
    case False
    with "1.prems" show ?thesis by (subst target_loop.simps) (auto simp: only_at_def)
  qed
qed

lemma target_loop_position:
  assumes "increasing_on nums low high" "0 \<le> low" "low < size_of nums" "high < size_of nums"
    and there: "\<And>i. 0 \<le> i \<Longrightarrow> i < size_of nums \<Longrightarrow> nums ! nat i = t \<Longrightarrow> low \<le> i \<and> i \<le> high"
  shows "\<exists>r. target_end nums t (target_loop nums t low high) = Some r \<and> position nums t r"
proof -
  have mem: "t \<in> set nums \<longleftrightarrow> (\<exists>i. 0 \<le> i \<and> i < size_of nums \<and> nums ! nat i = t)"
    by (metis in_set_conv_nth nat_int of_nat_0_le_iff of_nat_less_iff zless_nat_eq_int_zless nat_less_iff)
  obtain r where r: "target_loop nums t low high = Some r" and
    c: "case r of Inl m \<Rightarrow> low \<le> m \<and> m \<le> high \<and> nums ! nat m = t
     | Inr l \<Rightarrow> low \<le> l \<and> l < size_of nums \<and> only_at nums t low high l"
    using target_loop_spec [OF assms(1-4)] by blast
  show ?thesis
  proof (cases r)
    case (Inl m)
    with r c mem assms(2,4) show ?thesis by (auto simp: target_end_def position_def)
  next
    case (Inr l)
    then have l: "0 \<le> l" "l < size_of nums" "only_at nums t low high l" using c assms(2) by auto
    show ?thesis
    proof (cases "nums ! nat l = t")
      case True
      with r Inr l mem show ?thesis by (auto simp: target_end_def position_def)
    next
      case False
      then have "t \<notin> set nums" using mem there l(3) unfolding only_at_def by blast
      with False r Inr l show ?thesis by (auto simp: target_end_def position_def)
    qed
  qed
qed

lemma rotated_parts:
  assumes "rotated k nums"
  shows "increasing_on nums (int k) (size_of nums - 1)" "increasing_on nums 0 (int k - 1)"
proof -
  have k: "k < length nums" using assms by (simp add: rotated_def)
  show "increasing_on nums (int k) (size_of nums - 1)" "increasing_on nums 0 (int k - 1)"
    using rotated_less [OF assms] k by (auto simp: increasing_on_def)
qed

lemma rotated_target_part:
  assumes "rotated k nums" "0 \<le> i" "i < size_of nums"
  shows "nums ! k \<le> nums ! nat i \<and> nums ! nat i \<le> last nums \<longleftrightarrow> int k \<le> i"
proof -
  let ?e = "size_of nums - 1"
  have k: "k < length nums" using assms by (simp add: rotated_def)
  then have e: "last nums = nums ! nat ?e" by (intro last_at) auto
  show ?thesis
  proof (cases "int k \<le> i")
    case True
    then have "nums ! k \<le> nums ! nat i"
      using rotated_less [OF assms(1), of "int k" i] assms by (cases "int k = i") auto
    moreover have "nums ! nat i \<le> nums ! nat ?e"
      using rotated_less [OF assms(1), of i ?e] assms True k by (cases "i = ?e") auto
    ultimately show ?thesis using True e by simp
  next
    case False
    then have "nums ! nat ?e < nums ! nat i"
      using rotated_greater [OF assms(1), of i ?e] assms k by auto
    then show ?thesis using False e by simp
  qed
qed

lemma privots_found:
  assumes "rotated k nums"
  shows "\<exists>l p. privot_loop2 nums 0 (size_of nums - 1) = Some (l, p) \<and> privot_check nums l p = Some (int k - 1)"
proof -
  have k: "k < length nums" using assms by (simp add: rotated_def)
  have "if k = 0 then (0 :: int) = 0 else 0 \<le> int k - 1 \<and> int k - 1 \<le> size_of nums - 1" using k by auto
  from privot_loop2_finds [OF assms _ _ this] obtain l p
    where l: "privot_loop2 nums 0 (size_of nums - 1) = Some (l, p)" "0 \<le> l" "l < size_of nums"
      and c: "if k = 0 then l = 0 \<and> p = -1 else p = int k - 1 \<or> p = -1 \<and> l = int k - 1"
    by auto
  from l privot_check_finds [OF assms l(2,3) c] show ?thesis by blast
qed

lemma bsearch_position:
  assumes "rotated k nums"
  shows "\<exists>r. bsearch nums t = Some r \<and> position nums t r"
proof -
  have k: "k < length nums" and ne: "nums \<noteq> []" using assms by (auto simp: rotated_def)
  obtain l p where l: "privot_loop2 nums 0 (size_of nums - 1) = Some (l, p)" and c: "privot_check nums l p = Some (int k - 1)"
    using privots_found [OF assms] by blast
  have at: "at nums (int k) = Some (nums ! k)" using k by simp
  show ?thesis
  proof (cases "nums ! k \<le> t \<and> t \<le> last nums")
    case True
    have "\<exists>r. target_end nums t (target_loop nums t (int k) (size_of nums - 1)) = Some r \<and> position nums t r"
      using rotated_parts(1) [OF assms] rotated_target_part [OF assms] k True
      by (intro target_loop_position) auto
    with True l c at ne show ?thesis by (simp add: bsearch_def)
  next
    case False
    have "\<exists>r. target_end nums t (target_loop nums t 0 (int k - 1)) = Some r \<and> position nums t r"
      using rotated_parts(2) [OF assms] rotated_target_part [OF assms] k False
      by (intro target_loop_position) fastforce+
    with False l c at ne show ?thesis by (auto simp: bsearch_def)
  qed
qed

lemma min_loop_finds:
  assumes "rotated k nums" "0 \<le> low" "high < size_of nums" "low \<le> int k" "int k \<le> high"
  shows "min_loop nums low high = Some (int k)"
  using assms
proof (induction nums low high rule: min_loop.induct)
  case (1 nums low high)
  define mid where "mid = low + (high - low) div 2"
  show ?case
  proof (cases "low < high")
    case True
    then have mid: "low \<le> mid" "mid < high" by (auto simp: mid_def)
    then have at: "at nums mid = Some (nums ! nat mid)" "at nums high = Some (nums ! nat high)"
      using "1.prems" by simp_all
    have "nums ! nat high < nums ! nat mid \<longleftrightarrow> mid < int k"
      using rotated_greater [of k nums mid high] "1.prems" mid by auto
    with "1.IH"(1) [OF True mid_def _ at] "1.IH"(2) [OF True mid_def _ at] "1.prems" True mid at show ?thesis
      by (subst min_loop.simps) (auto simp: mid_def [symmetric] Let_def)
  next
    case False
    with "1.prems" show ?thesis by (subst min_loop.simps) simp
  qed
qed

lemma target_loop2_spec:
  assumes "increasing_on nums low high" "0 \<le> low" "high < size_of nums"
  shows "\<exists>r. target_loop2 nums t low high = Some r \<and>
    (low \<le> r \<and> r \<le> high \<and> nums ! nat r = t \<or> r = -1 \<and> (\<forall>i. low \<le> i \<and> i \<le> high \<longrightarrow> nums ! nat i \<noteq> t))"
  using assms
proof (induction nums t low high rule: target_loop2.induct)
  case (1 nums t low high)
  define mid where "mid = low + (high - low) div 2"
  show ?case
  proof (cases "low \<le> high")
    case True
    then have mid: "low \<le> mid" "mid \<le> high" by (auto simp: mid_def)
    then have at: "at nums mid = Some (nums ! nat mid)" using "1.prems" by simp
    have less: "low \<le> i \<Longrightarrow> i < mid \<Longrightarrow> nums ! nat i < nums ! nat mid"
      and greater: "mid < i \<Longrightarrow> i \<le> high \<Longrightarrow> nums ! nat mid < nums ! nat i" for i
      using increasing_onD [OF "1.prems"(1)] mid by auto
    consider "nums ! nat mid = t" | "nums ! nat mid < t" | "nums ! nat mid > t" by linarith
    then show ?thesis
    proof cases
      case 1
      with True at mid show ?thesis
        by (subst target_loop2.simps) (simp add: mid_def [symmetric] Let_def)
    next
      case 2
      obtain r where r: "target_loop2 nums t (mid + 1) high = Some r"
        "mid + 1 \<le> r \<and> r \<le> high \<and> nums ! nat r = t \<or> r = -1 \<and> (\<forall>i. mid + 1 \<le> i \<and> i \<le> high \<longrightarrow> nums ! nat i \<noteq> t)"
        using "1.IH"(1) [OF True mid_def at] "1.prems" 2 mid increasing_on_sub [OF "1.prems"(1), of "mid + 1" high]
        by auto
      moreover have "target_loop2 nums t low high = target_loop2 nums t (mid + 1) high"
        using True at 2 by (subst target_loop2.simps) (simp add: mid_def [symmetric] Let_def)
      moreover have "low \<le> i \<Longrightarrow> i \<le> mid \<Longrightarrow> nums ! nat i \<noteq> t" for i
        using less [of i] 2 by (cases "i = mid") auto
      ultimately show ?thesis using mid by (smt (verit))
    next
      case 3
      obtain r where r: "target_loop2 nums t low (mid - 1) = Some r"
        "low \<le> r \<and> r \<le> mid - 1 \<and> nums ! nat r = t \<or> r = -1 \<and> (\<forall>i. low \<le> i \<and> i \<le> mid - 1 \<longrightarrow> nums ! nat i \<noteq> t)"
        using "1.IH"(2) [OF True mid_def at] "1.prems" 3 mid increasing_on_sub [OF "1.prems"(1), of low "mid - 1"]
        by auto
      moreover have "target_loop2 nums t low high = target_loop2 nums t low (mid - 1)"
        using True at 3 by (subst target_loop2.simps) (simp add: mid_def [symmetric] Let_def)
      moreover have "mid \<le> i \<Longrightarrow> i \<le> high \<Longrightarrow> nums ! nat i \<noteq> t" for i
        using greater [of i] 3 by (cases "i = mid") auto
      ultimately show ?thesis using mid by (smt (verit))
    qed
  next
    case False
    with "1.prems" show ?thesis by (subst target_loop2.simps) auto
  qed
qed

lemma mem_index: "t \<in> set nums \<longleftrightarrow> (\<exists>i. 0 \<le> i \<and> i < size_of nums \<and> nums ! nat i = t)"
  by (metis in_set_conv_nth nat_int of_nat_0_le_iff of_nat_less_iff zless_nat_eq_int_zless nat_less_iff)

lemma target_loop2_position:
  assumes "increasing_on nums low high" "0 \<le> low" "high < size_of nums"
    and there: "\<And>i. 0 \<le> i \<Longrightarrow> i < size_of nums \<Longrightarrow> nums ! nat i = t \<Longrightarrow> low \<le> i \<and> i \<le> high"
  shows "\<exists>r. target_loop2 nums t low high = Some r \<and> position nums t r"
proof -
  obtain r where r: "target_loop2 nums t low high = Some r"
    "low \<le> r \<and> r \<le> high \<and> nums ! nat r = t \<or> r = -1 \<and> (\<forall>i. low \<le> i \<and> i \<le> high \<longrightarrow> nums ! nat i \<noteq> t)"
    using target_loop2_spec [OF assms(1-3)] by blast
  then have "position nums t r"
  proof (elim disjE conjE)
    assume "low \<le> r" "r \<le> high" "nums ! nat r = t"
    then have r: "0 \<le> r \<and> r < size_of nums \<and> nums ! nat r = t" using assms(2,3) by simp
    then have "t \<in> set nums" unfolding mem_index by blast
    with r show ?thesis by (simp add: position_def)
  next
    assume "r = -1" "\<forall>i. low \<le> i \<and> i \<le> high \<longrightarrow> nums ! nat i \<noteq> t"
    then have "t \<notin> set nums" unfolding mem_index using there by blast
    with \<open>r = -1\<close> show ?thesis by (simp add: position_def)
  qed
  with r show ?thesis by blast
qed

lemma rotated_above_last:
  assumes "rotated k nums" "0 \<le> i" "i < size_of nums"
  shows "last nums < nums ! nat i \<longleftrightarrow> i < int k"
proof (cases "int k \<le> i")
  case True
  then show ?thesis using rotated_target_part [OF assms] by simp
next
  case False
  have ne: "nums \<noteq> []" "k < length nums" using assms(1) by (auto simp: rotated_def)
  with False show ?thesis
    using rotated_greater [OF assms(1,2), of "size_of nums - 1"] last_at [OF ne(1)] by simp
qed

lemma bsearch2_position:
  assumes "rotated k nums"
  shows "\<exists>r. bsearch2 nums t = Some r \<and> position nums t r"
proof -
  have k: "k < length nums" and ne: "nums \<noteq> []" using assms by (auto simp: rotated_def)
  have l: "min_loop nums 0 (size_of nums - 1) = Some (int k)"
    using k by (intro min_loop_finds [OF assms]) auto
  note part = rotated_above_last [OF assms]
  show ?thesis
  proof (cases "t > last nums")
    case True
    have "\<exists>r. target_loop2 nums t 0 (if int k \<noteq> 0 then int k - 1 else size_of nums - 1) = Some r \<and> position nums t r"
    proof (cases "k = 0")
      case True
      with rotated_parts(1) [OF assms] show ?thesis by (intro target_loop2_position) auto
    next
      case False
      with rotated_parts(2) [OF assms] part k True show ?thesis by (intro target_loop2_position) auto
    qed
    with True l ne show ?thesis by (simp add: bsearch2_def)
  next
    case False
    have "\<exists>r. target_loop2 nums t (int k) (size_of nums - 1) = Some r \<and> position nums t r"
      using rotated_parts(1) [OF assms] part k False by (intro target_loop2_position) fastforce+
    with False l ne show ?thesis by (simp add: bsearch2_def)
  qed
qed

lemma rotated_distinct: "rotated k nums \<Longrightarrow> distinct nums"
  by (metis append_take_drop_id distinct_append inf_commute rotated_def strict_sorted_iff)

text \<open>
  In a rotated strictly sorted vector both binary searches return the position of the target,
  or -1 when it does not occur, without an access outside the vector.
\<close>

theorem rotated_searches:
  assumes "rotated k nums"
  shows "\<exists>r. bsearch nums t = Some r \<and> bsearch2 nums t = Some r \<and> position nums t r"
  using bsearch_position [OF assms, of t] bsearch2_position [OF assms, of t]
    position_unique [OF rotated_distinct [OF assms]] by metis

theorem rotated_searches_witness:
  "\<exists>r. bsearch [4, 5, 6, 7, 0, 1, 2] 0 = Some r \<and> bsearch2 [4, 5, 6, 7, 0, 1, 2] 0 = Some r \<and>
     position [4, 5, 6, 7, 0, 1, 2] 0 r"
  by (rule rotated_searches [of 4]) (simp add: rotated_def)

text \<open>
  The third function, \<^verbatim>\<open>search\<close>, returns a position in its sorted copy instead of one in the
  vector: for this vector and target 0 the first position instead of the fifth.
\<close>

lemma search_position_of_copy: "search [4, 5, 6, 7, 0, 1, 2] 0 = Some 0"
  by code_simp

section \<open>solution 153\<close>

function findMin_loop :: "int list \<Rightarrow> int \<Rightarrow> int \<Rightarrow> int option" where
  \<comment> \<open>\<^verbatim>\<open>first\<close> is an index\<close>
  "findMin_loop nums first n =
     (if n > 1 then
        let mid = n div 2; half = first + mid in
        case (at nums first, at nums half, at nums (first + n - 1)) of
          (Some f, Some h, Some l) \<Rightarrow>
            if f < h then
              if mid = n - 1 \<or> h < l then Some f
              else findMin_loop nums (half + 1) (n - (mid + 1))
            else findMin_loop nums (first + 1) mid
        | _ \<Rightarrow> None
      else at nums first)"
  by pat_completeness auto
termination by (relation "measure (\<lambda>(nums, f, n). nat n)") auto

declare findMin_loop.simps [simp del]

definition findMin :: "int list \<Rightarrow> int option" where
  "findMin nums = findMin_loop nums 0 (size_of nums)"

lemma findMin_loop_finds:
  assumes "rotated k nums" "0 \<le> first" "first + n \<le> size_of nums" "first \<le> int k" "int k < first + n"
  shows "findMin_loop nums first n = Some (nums ! k)"
  using assms
proof (induction nums first n rule: findMin_loop.induct)
  case (1 nums first n)
  define mid where "mid = n div 2"
  define half where "half = first + mid"
  show ?case
  proof (cases "n > 1")
    case True
    then have mid: "0 < mid" "mid < n" by (auto simp: mid_def)
    then have half: "first < half" "half \<le> first + n - 1" by (auto simp: half_def)
    then have at: "at nums first = Some (nums ! nat first)" "at nums half = Some (nums ! nat half)"
      "at nums (first + n - 1) = Some (nums ! nat (first + n - 1))" using "1.prems" True by simp_all
    have le: "nums ! nat first < nums ! nat half \<longleftrightarrow> \<not> int k \<le> half \<or> int k = first"
      using rotated_less [of k nums first half] "1.prems" half by auto
    have le2: "half < first + n - 1 \<Longrightarrow> nums ! nat half < nums ! nat (first + n - 1) \<longleftrightarrow> \<not> half < int k"
      using rotated_less [of k nums half "first + n - 1"] "1.prems" half by auto
    have last: "mid = n - 1 \<longleftrightarrow> half = first + n - 1" by (auto simp: half_def)
    consider "int k = first" | "first < int k" "int k \<le> half" | "half < int k" using "1.prems" by linarith
    then show ?thesis
    proof cases
      case 1
      have "nums ! nat first < nums ! nat half" "mid = n - 1 \<or> nums ! nat half < nums ! nat (first + n - 1)"
        using le le2 last half 1 by auto
      with True at 1 show ?thesis
        by (subst findMin_loop.simps) (auto simp: mid_def [symmetric] half_def [symmetric] Let_def)
    next
      case 2
      then have c: "\<not> nums ! nat first < nums ! nat half" using le by simp
      have "findMin_loop nums (first + 1) mid = Some (nums ! k)"
        using "1.prems" 2 half mid
        by (intro "1.IH"(2) [OF True mid_def half_def _ at(1) _ at(2) at(3)] c) (auto simp: half_def)
      with True at c show ?thesis
        by (subst findMin_loop.simps) (simp add: mid_def [symmetric] half_def [symmetric] Let_def)
    next
      case 3
      have c: "nums ! nat first < nums ! nat half" "\<not> (mid = n - 1 \<or> nums ! nat half < nums ! nat (first + n - 1))"
        using le le2 last half 3 "1.prems" by auto
      have "findMin_loop nums (half + 1) (n - (mid + 1)) = Some (nums ! k)"
        using "1.prems" 3 half mid
        by (intro "1.IH"(1) [OF True mid_def half_def _ at(1) _ at(2) at(3)] c) (auto simp: half_def)
      with True at c show ?thesis
        by (subst findMin_loop.simps) (simp add: mid_def [symmetric] half_def [symmetric] Let_def)
    qed
  next
    case False
    with "1.prems" have "first = int k" by simp
    with False "1.prems" show ?thesis by (subst findMin_loop.simps) simp
  qed
qed

lemma rotated_min: "rotated k nums \<Longrightarrow> i < length nums \<Longrightarrow> nums ! k \<le> nums ! i"
  using rotated_less_nat [of k nums k i] rotated_less_nat [of k nums i k]
  by (cases i k rule: linorder_cases) (auto simp: rotated_def)

lemma findMin_min: "rotated k nums \<Longrightarrow> findMin nums = Some (Min (set nums))"
proof -
  assume r: "rotated k nums"
  then have "Min (set nums) = nums ! k"
    by (intro Min_eqI) (auto simp: in_set_conv_nth rotated_min rotated_def)
  moreover have "findMin nums = Some (nums ! k)"
    unfolding findMin_def using r by (intro findMin_loop_finds) (auto simp: rotated_def)
  ultimately show ?thesis by simp
qed

end
