(* ===== verification/LcMatrix.thy ===== *)
theory LcMatrix
  imports Prelude
begin

text \<open>
  \<^verbatim>\<open>solution_162\<close> (peaks of a vector) and \<^verbatim>\<open>solution_240\<close> (search in a matrix with sorted rows and
  columns) of \<^verbatim>\<open>hobbies/leetcode/algorithms\<close>. \<open>None\<close> is an access outside a vector.
\<close>

section \<open>solution 162\<close>

function peak_loop :: "int list \<Rightarrow> int \<Rightarrow> int \<Rightarrow> int option" where
  "peak_loop nums start end_ix =
     (if start < end_ix then
        let mid = start + (end_ix - start) div 2 in
        case at nums mid of None \<Rightarrow> None | Some m \<Rightarrow>
          if mid = 0 then
            (case at nums (mid + 1) of None \<Rightarrow> None | Some r \<Rightarrow>
               if m > r then Some mid else peak_loop nums (mid + 1) end_ix)
          else if mid = size_of nums - 1 then
            (case at nums (mid - 1) of None \<Rightarrow> None | Some l \<Rightarrow>
               if m > l then Some mid else peak_loop nums start (mid - 1))
          else
            (case (at nums (mid + 1), at nums (mid - 1)) of
               (Some r, Some l) \<Rightarrow>
                 if m > r \<and> m > l then Some mid
                 else if m < r then peak_loop nums (mid + 1) end_ix
                 else peak_loop nums start (mid - 1)
             | _ \<Rightarrow> None)
      else Some start)"
  by pat_completeness auto
termination by (relation "measure (\<lambda>(nums, s, e). nat (e - s + 1))") auto

definition findPeakElement :: "int list \<Rightarrow> int option" where
  "findPeakElement nums = peak_loop nums 0 (size_of nums - 1)"

function peak_loop2 :: "int list \<Rightarrow> int \<Rightarrow> int \<Rightarrow> (int + int \<times> int) option" where
  \<comment> \<open>a peak, or \<^verbatim>\<open>(start, end)\<close> when the loop ends\<close>
  "peak_loop2 nums start end_ix =
     (if start < end_ix - 1 then
        let mid = start + (end_ix - start) div 2 in
        case (at nums mid, at nums (mid + 1), at nums (mid - 1)) of
          (Some m, Some r, Some l) \<Rightarrow>
            if m > r \<and> m > l then Some (Inl mid)
            else if m < r then peak_loop2 nums (mid + 1) end_ix
            else peak_loop2 nums start (mid - 1)
        | _ \<Rightarrow> None
      else Some (Inr (start, end_ix)))"
  by pat_completeness auto
termination by (relation "measure (\<lambda>(nums, s, e). nat (e - s + 1))") auto

definition findPeakElement2 :: "int list \<Rightarrow> int option" where
  "findPeakElement2 nums =
     (case peak_loop2 nums 0 (size_of nums - 1) of None \<Rightarrow> None
      | Some (Inl mid) \<Rightarrow> Some mid
      | Some (Inr (start, end_ix)) \<Rightarrow>
          (case (at nums start, at nums end_ix) of
             (Some s, Some e) \<Rightarrow> Some (if s > e then start else end_ix)
           | _ \<Rightarrow> None))"

declare peak_loop.simps [simp del] peak_loop2.simps [simp del]

definition rises :: "int list \<Rightarrow> int \<Rightarrow> bool" where
  \<comment> \<open>there is no left neighbour, or it is smaller\<close>
  "rises nums i \<longleftrightarrow> i = 0 \<or> nums ! nat (i - 1) < nums ! nat i"

definition falls :: "int list \<Rightarrow> int \<Rightarrow> bool" where
  "falls nums i \<longleftrightarrow> i = size_of nums - 1 \<or> nums ! nat (i + 1) < nums ! nat i"

definition peak :: "int list \<Rightarrow> int \<Rightarrow> bool" where
  "peak nums i \<longleftrightarrow> 0 \<le> i \<and> i < size_of nums \<and> rises nums i \<and> falls nums i"

definition no_plateau :: "int list \<Rightarrow> bool" where
  "no_plateau nums \<longleftrightarrow> (\<forall>i. 0 \<le> i \<and> i + 1 < size_of nums \<longrightarrow> nums ! nat i \<noteq> nums ! nat (i + 1))"

lemma no_plateauD: "no_plateau nums \<Longrightarrow> 0 \<le> i \<Longrightarrow> i + 1 < size_of nums \<Longrightarrow> nums ! nat i \<noteq> nums ! nat (i + 1)"
  by (simp add: no_plateau_def)

lemma rises_not_falls:
  assumes "no_plateau nums" "0 \<le> i" "i + 1 < size_of nums"
  shows "rises nums (i + 1) \<longleftrightarrow> nums ! nat i < nums ! nat (i + 1)" "falls nums i \<longleftrightarrow> \<not> nums ! nat i < nums ! nat (i + 1)"
  using no_plateauD [OF assms] assms by (auto simp: rises_def falls_def)

lemma peak_loop_finds:
  assumes "no_plateau nums" "0 \<le> start" "start \<le> e" "e < size_of nums" "rises nums start" "falls nums e"
  shows "\<exists>i. peak_loop nums start e = Some i \<and> peak nums i"
  using assms
proof (induction nums start e rule: peak_loop.induct)
  case (1 nums start e)
  define mid where "mid = start + (e - start) div 2"
  show ?case
  proof (cases "start < e")
    case True
    then have mid: "start \<le> mid" "mid < e" by (auto simp: mid_def)
    have at: "at nums mid = Some (nums ! nat mid)" "at nums (mid + 1) = Some (nums ! nat (mid + 1))"
      using "1.prems" mid by auto
    have up: "rises nums (mid + 1) \<longleftrightarrow> nums ! nat mid < nums ! nat (mid + 1)"
      "falls nums mid \<longleftrightarrow> \<not> nums ! nat mid < nums ! nat (mid + 1)"
      using rises_not_falls [of nums mid] "1.prems" mid by auto
    have ne: "nums ! nat mid \<noteq> nums ! nat (mid + 1)" using no_plateauD [of nums mid] "1.prems" mid by auto
    have nl: "mid \<noteq> size_of nums - 1" using mid "1.prems" by simp
    show ?thesis
    proof (cases "mid = 0")
      case zero: True
      show ?thesis
      proof (cases "falls nums mid")
        case fall: True
        then have "peak_loop nums start e = Some mid" using True zero at up ne
          by (subst peak_loop.simps) (simp add: mid_def [symmetric] Let_def)
        moreover have "peak nums mid" using fall zero "1.prems" mid by (auto simp: peak_def rises_def)
        ultimately show ?thesis by blast
      next
        case rise: False
        then have "peak_loop nums start e = peak_loop nums (mid + 1) e" using True zero at up
          by (subst peak_loop.simps) (simp add: mid_def [symmetric] Let_def)
        moreover have "\<not> nums ! nat (mid + 1) < nums ! nat mid" using rise up by simp
        ultimately show ?thesis
          using "1.IH"(1) [OF True mid_def at(1) zero at(2)] "1.prems" mid up rise by auto
      qed
    next
      case pos: False
      then have at3: "at nums (mid - 1) = Some (nums ! nat (mid - 1))" using "1.prems" mid by auto
      have down: "rises nums mid \<longleftrightarrow> nums ! nat (mid - 1) < nums ! nat mid"
        "falls nums (mid - 1) \<longleftrightarrow> \<not> nums ! nat (mid - 1) < nums ! nat mid"
        using rises_not_falls [of nums "mid - 1"] "1.prems" mid pos by auto
      consider "falls nums mid" "rises nums mid" | "\<not> falls nums mid" | "falls nums mid" "\<not> rises nums mid" by blast
      then show ?thesis
      proof cases
        case 1
        then have "peak_loop nums start e = Some mid" using True pos nl at at3 up down ne
          by (subst peak_loop.simps) (simp add: mid_def [symmetric] Let_def)
        moreover have "peak nums mid" using 1 "1.prems" mid by (simp add: peak_def)
        ultimately show ?thesis by blast
      next
        case 2
        then have "peak_loop nums start e = peak_loop nums (mid + 1) e" using True pos nl at at3 up
          by (subst peak_loop.simps) (simp add: mid_def [symmetric] Let_def)
        moreover have "\<exists>i. peak_loop nums (mid + 1) e = Some i \<and> peak nums i"
          using "1.prems" mid up 2 at at3
          by (intro "1.IH"(3) [OF True mid_def at(1) pos nl refl at(2) at3]) auto
        ultimately show ?thesis by simp
      next
        case 3
        then have "mid \<noteq> start" using "1.prems" by auto
        have "peak_loop nums start e = peak_loop nums start (mid - 1)" using 3 True pos nl at at3 up down
          by (subst peak_loop.simps) (simp add: mid_def [symmetric] Let_def)
        moreover have "\<exists>i. peak_loop nums start (mid - 1) = Some i \<and> peak nums i"
          using "1.prems" mid up down 3 at at3 \<open>mid \<noteq> start\<close>
          by (intro "1.IH"(4) [OF True mid_def at(1) pos nl refl at(2) at3]) auto
        ultimately show ?thesis by simp
      qed
    qed
  next
    case False
    with "1.prems" have "e = start" by simp
    with "1.prems" show ?thesis by (subst peak_loop.simps) (auto simp: peak_def)
  qed
qed

lemma peak_loop2_finds:
  assumes "no_plateau nums" "0 \<le> start" "start \<le> e" "e < size_of nums" "rises nums start" "falls nums e"
  shows "\<exists>r. peak_loop2 nums start e = Some r \<and>
    (case r of Inl i \<Rightarrow> peak nums i
     | Inr (s, e') \<Rightarrow> 0 \<le> s \<and> (e' = s \<or> e' = s + 1) \<and> e' < size_of nums \<and> rises nums s \<and> falls nums e')"
  using assms
proof (induction nums start e rule: peak_loop2.induct)
  case (1 nums start e)
  define mid where "mid = start + (e - start) div 2"
  show ?case
  proof (cases "start < e - 1")
    case True
    then have mid: "start < mid" "mid < e" by (auto simp: mid_def)
    have at: "at nums mid = Some (nums ! nat mid)" "at nums (mid + 1) = Some (nums ! nat (mid + 1))"
      "at nums (mid - 1) = Some (nums ! nat (mid - 1))" using "1.prems" mid by auto
    have up: "rises nums (mid + 1) \<longleftrightarrow> nums ! nat mid < nums ! nat (mid + 1)"
      "falls nums mid \<longleftrightarrow> \<not> nums ! nat mid < nums ! nat (mid + 1)"
      and down: "rises nums mid \<longleftrightarrow> nums ! nat (mid - 1) < nums ! nat mid"
        "falls nums (mid - 1) \<longleftrightarrow> \<not> nums ! nat (mid - 1) < nums ! nat mid"
      using rises_not_falls [of nums mid] rises_not_falls [of nums "mid - 1"] "1.prems" mid by auto
    have ne: "nums ! nat mid \<noteq> nums ! nat (mid + 1)" using no_plateauD [of nums mid] "1.prems" mid by auto
    consider "falls nums mid" "rises nums mid" | "\<not> falls nums mid" | "falls nums mid" "\<not> rises nums mid" by blast
    then show ?thesis
    proof cases
      case 1
      then have "peak_loop2 nums start e = Some (Inl mid)" using True at up down ne
        by (subst peak_loop2.simps) (simp add: mid_def [symmetric] Let_def)
      moreover have "peak nums mid" using 1 "1.prems" mid by (simp add: peak_def)
      ultimately show ?thesis by auto
    next
      case 2
      then have c: "\<not> (nums ! nat (mid + 1) < nums ! nat mid \<and> nums ! nat (mid - 1) < nums ! nat mid)"
        "nums ! nat mid < nums ! nat (mid + 1)" using up by auto
      then have "peak_loop2 nums start e = peak_loop2 nums (mid + 1) e" using True at
        by (subst peak_loop2.simps) (simp add: mid_def [symmetric] Let_def)
      with "1.IH"(1) [OF True mid_def _ at(1) _ at(2,3) c] "1.prems" mid up 2 show ?thesis by simp
    next
      case 3
      then have c: "\<not> (nums ! nat (mid + 1) < nums ! nat mid \<and> nums ! nat (mid - 1) < nums ! nat mid)"
        "\<not> nums ! nat mid < nums ! nat (mid + 1)" using up down by auto
      then have "peak_loop2 nums start e = peak_loop2 nums start (mid - 1)" using True at
        by (subst peak_loop2.simps) (auto simp: mid_def [symmetric] Let_def)
      with "1.IH"(2) [OF True mid_def _ at(1) _ at(2,3) c] "1.prems" mid down 3 show ?thesis by simp
    qed
  next
    case False
    with "1.prems" have "e = start \<or> e = start + 1" by auto
    with "1.prems" show ?thesis by (subst peak_loop2.simps) auto
  qed
qed

lemma findPeakElement2_peak:
  assumes "no_plateau nums" "nums \<noteq> []"
  shows "\<exists>i. findPeakElement2 nums = Some i \<and> peak nums i"
proof -
  obtain r where r: "peak_loop2 nums 0 (size_of nums - 1) = Some r" and
    c: "case r of Inl i \<Rightarrow> peak nums i
     | Inr (s, e') \<Rightarrow> 0 \<le> s \<and> (e' = s \<or> e' = s + 1) \<and> e' < size_of nums \<and> rises nums s \<and> falls nums e'"
    using peak_loop2_finds [OF assms(1), of 0 "size_of nums - 1"] assms by (auto simp: rises_def falls_def Suc_le_eq)
  show ?thesis
  proof (cases r)
    case (Inl i)
    with r c show ?thesis by (simp add: findPeakElement2_def)
  next
    case (Inr p)
    obtain s e where p: "p = (s, e)" by (cases p)
    have se: "0 \<le> s" "e = s \<or> e = s + 1" "e < size_of nums" "rises nums s" "falls nums e"
      using c Inr p by simp_all
    then have at: "at nums s = Some (nums ! nat s)" "at nums e = Some (nums ! nat e)" by auto
    have "e = s + 1 \<Longrightarrow> rises nums e \<longleftrightarrow> \<not> falls nums s" "e = s + 1 \<Longrightarrow> falls nums s \<longleftrightarrow> nums ! nat e < nums ! nat s"
      using rises_not_falls [OF assms(1), of s] no_plateauD [OF assms(1), of s] se by auto
    then have "peak nums (if nums ! nat e < nums ! nat s then s else e)"
      using se by (auto simp: peak_def)
    with r Inr p at show ?thesis by (simp add: findPeakElement2_def)
  qed
qed

text \<open>
  In a vector without two equal neighbours both functions return a peak: an element that is
  larger than its neighbours.
\<close>

theorem peaks_found:
  assumes "no_plateau nums" "nums \<noteq> []"
  shows "(\<exists>i. findPeakElement nums = Some i \<and> peak nums i) \<and> (\<exists>i. findPeakElement2 nums = Some i \<and> peak nums i)"
  using peak_loop_finds [OF assms(1), of 0 "size_of nums - 1"] findPeakElement2_peak [OF assms] assms(2)
  by (auto simp: findPeakElement_def rises_def falls_def Suc_le_eq)

theorem peaks_found_witness:
  "(\<exists>i. findPeakElement [1, 2, 1, 3, 5, 6, 4] = Some i \<and> peak [1, 2, 1, 3, 5, 6, 4] i) \<and>
   (\<exists>i. findPeakElement2 [1, 2, 1, 3, 5, 6, 4] = Some i \<and> peak [1, 2, 1, 3, 5, 6, 4] i)"
proof (rule peaks_found)
  have "\<forall>j < 6. [1, 2, 1, 3, 5, 6, 4 :: int] ! j \<noteq> [1, 2, 1, 3, 5, 6, 4] ! Suc j" by (simp add: All_less_Suc numeral_eq_Suc)
  then have "[1, 2, 1, 3, 5, 6, 4 :: int] ! nat i \<noteq> [1, 2, 1, 3, 5, 6, 4] ! nat (i + 1)" if "0 \<le> i" "i < 6" for i
    using that by (simp add: nat_add_distrib)
  then show "no_plateau [1, 2, 1, 3, 5, 6, 4]" by (simp add: no_plateau_def)
qed simp

section \<open>solution 240\<close>

function searchHelper2 :: "int list \<Rightarrow> int \<Rightarrow> int \<Rightarrow> int \<Rightarrow> bool option" where
  "searchHelper2 nums target start end_ix =
     (if start < end_ix then
        let mid = start + (end_ix - start) div 2 in
        case at nums mid of None \<Rightarrow> None | Some m \<Rightarrow>
          if m = target then Some True
          else if m > target then searchHelper2 nums target start (mid - 1)
          else searchHelper2 nums target (mid + 1) end_ix
      else map_option (\<lambda>v. v = target) (at nums start))"
  by pat_completeness auto
termination by (relation "measure (\<lambda>(nums, t, s, e). nat (e - s + 1))") auto

declare searchHelper2.simps [simp del]

lemma sorted_at_mono: "sorted nums \<Longrightarrow> 0 \<le> i \<Longrightarrow> i \<le> j \<Longrightarrow> j < size_of nums \<Longrightarrow> nums ! nat i \<le> nums ! nat j"
  by (rule sorted_nth_mono) auto

lemma searchHelper2_loop:
  assumes "sorted nums" "0 \<le> start" "start < size_of nums" "e < size_of nums"
    "start \<le> e \<or> (start = e + 1 \<and> nums ! nat start \<noteq> t)"
  shows "searchHelper2 nums t start e = Some (\<exists>i. start \<le> i \<and> i \<le> e \<and> nums ! nat i = t)"
  using assms
proof (induction nums t start e rule: searchHelper2.induct)
  case (1 nums t start e)
  define mid where "mid = start + (e - start) div 2"
  show ?case
  proof (cases "start < e")
    case True
    then have mid: "start \<le> mid" "mid < e" by (auto simp: mid_def)
    with "1.prems" have at: "at nums mid = Some (nums ! nat mid)" by auto
    have unfolded: "searchHelper2 nums t start e =
        (if nums ! nat mid = t then Some True
         else if nums ! nat mid > t then searchHelper2 nums t start (mid - 1)
         else searchHelper2 nums t (mid + 1) e)"
      using True at by (subst searchHelper2.simps) (simp add: mid_def [symmetric] Let_def)
    consider "nums ! nat mid = t" | "nums ! nat mid > t" | "nums ! nat mid < t" by linarith
    then show ?thesis
    proof cases
      case 1
      with unfolded mid show ?thesis by auto
    next
      case 2
      have "searchHelper2 nums t start (mid - 1) = Some (\<exists>i. start \<le> i \<and> i \<le> mid - 1 \<and> nums ! nat i = t)"
      proof (rule "1.IH"(1) [OF True mid_def at])
        show "start \<le> mid - 1 \<or> (start = mid - 1 + 1 \<and> nums ! nat start \<noteq> t)"
          using 2 mid by (cases "start = mid") auto
      qed (use 2 "1.prems" mid in auto)
      moreover have "nums ! nat i \<noteq> t" if "mid \<le> i" "i \<le> e" for i
        using sorted_at_mono [of nums mid i] "1.prems" mid that 2 by auto
      then have "(\<exists>i. start \<le> i \<and> i \<le> mid - 1 \<and> nums ! nat i = t) \<longleftrightarrow> (\<exists>i. start \<le> i \<and> i \<le> e \<and> nums ! nat i = t)"
        using mid by (smt (verit))
      ultimately show ?thesis using unfolded 2 by simp
    next
      case 3
      have "searchHelper2 nums t (mid + 1) e = Some (\<exists>i. mid + 1 \<le> i \<and> i \<le> e \<and> nums ! nat i = t)"
        by (rule "1.IH"(2) [OF True mid_def at]) (use 3 "1.prems" mid in auto)
      moreover have "nums ! nat i \<noteq> t" if "start \<le> i" "i \<le> mid" for i
        using sorted_at_mono [of nums i mid] "1.prems" mid that 3 by auto
      then have "(\<exists>i. mid + 1 \<le> i \<and> i \<le> e \<and> nums ! nat i = t) \<longleftrightarrow> (\<exists>i. start \<le> i \<and> i \<le> e \<and> nums ! nat i = t)"
        using mid by (smt (verit))
      ultimately show ?thesis using unfolded 3 by simp
    qed
  next
    case False
    then have "searchHelper2 nums t start e = Some (nums ! nat start = t)"
      using "1.prems" by (subst searchHelper2.simps) simp
    moreover have "(\<exists>i. start \<le> i \<and> i \<le> e \<and> nums ! nat i = t) \<longleftrightarrow> nums ! nat start = t"
      using "1.prems"(5) False by (smt (verit))
    ultimately show ?thesis by simp
  qed
qed

text \<open>
  The search in a part of one row: on a sorted vector the loop tells whether the target stands
  between the two indices, both included.
\<close>

theorem row_searched:
  assumes "sorted nums" "0 \<le> start" "start \<le> e" "e < size_of nums"
  shows "searchHelper2 nums t start e = Some (\<exists>i. start \<le> i \<and> i \<le> e \<and> nums ! nat i = t)"
  using searchHelper2_loop [of nums start e t] assms by simp

theorem row_searched_witness: "searchHelper2 [1, 3, 5, 7, 10] 10 1 4 = Some True"
  using row_searched [of "[1, 3, 5, 7, 10]" 1 4 10] by (auto intro!: exI [of _ 4])

type_synonym matrix = "int list list"

definition cell :: "matrix \<Rightarrow> int \<Rightarrow> int \<Rightarrow> int option" where
  \<comment> \<open>\<^verbatim>\<open>matrix[i][j]\<close>\<close>
  "cell m i j = (case at m i of None \<Rightarrow> None | Some r \<Rightarrow> at r j)"

definition either :: "bool option \<Rightarrow> bool option \<Rightarrow> bool option" where
  \<comment> \<open>\<^verbatim>\<open>||\<close>\<close>
  "either a b = (case a of None \<Rightarrow> None | Some True \<Rightarrow> Some True | Some False \<Rightarrow> b)"

function matrix_helper :: "matrix \<Rightarrow> int \<Rightarrow> int \<Rightarrow> int \<Rightarrow> int \<Rightarrow> int \<Rightarrow> bool option" where
  "matrix_helper m target up left low right =
     (if up > low \<or> left > right then Some False
      else if up = low \<and> left = right then map_option (\<lambda>v. v = target) (cell m up left)
      else let rmid = up + (low - up) div 2; cmid = left + (right - left) div 2 in
        case cell m rmid cmid of None \<Rightarrow> None | Some v \<Rightarrow>
          if v = target then Some True
          else if v < target then
            either (matrix_helper m target up (cmid + 1) rmid right)
                   (matrix_helper m target (rmid + 1) left low right)
          else
            either (matrix_helper m target up left (rmid - 1) right)
                   (matrix_helper m target rmid left low (cmid - 1)))"
  by pat_completeness auto
termination
proof (relation "measure (\<lambda>(m, t, up, left, low, right). nat (low - up + 1) + nat (right - left + 1))")
  fix m :: matrix and target up left low right rmid cmid :: int
  assume a: "\<not> (up > low \<or> left > right)"
    and d: "rmid = up + (low - up) div 2" "cmid = left + (right - left) div 2"
  then have "up \<le> rmid" "rmid \<le> low" "left \<le> cmid" "cmid \<le> right" by auto
  then show "((m, target, up, cmid + 1, rmid, right), m, target, up, left, low, right)
      \<in> measure (\<lambda>(m, t, up, left, low, right). nat (low - up + 1) + nat (right - left + 1))"
    and "((m, target, rmid + 1, left, low, right), m, target, up, left, low, right)
      \<in> measure (\<lambda>(m, t, up, left, low, right). nat (low - up + 1) + nat (right - left + 1))"
    and "((m, target, up, left, rmid - 1, right), m, target, up, left, low, right)
      \<in> measure (\<lambda>(m, t, up, left, low, right). nat (low - up + 1) + nat (right - left + 1))"
    and "((m, target, rmid, left, low, cmid - 1), m, target, up, left, low, right)
      \<in> measure (\<lambda>(m, t, up, left, low, right). nat (low - up + 1) + nat (right - left + 1))"
    using a by simp_all
qed simp

definition searchMatrix :: "matrix \<Rightarrow> int \<Rightarrow> bool option" where
  "searchMatrix m target =
     (if m = [] \<or> hd m = [] then Some False
      else matrix_helper m target 0 0 (size_of m - 1) (size_of (hd m) - 1))"

function stairs :: "matrix \<Rightarrow> int \<Rightarrow> int \<Rightarrow> int \<Rightarrow> bool option" where
  "stairs m target i j =
     (if i < size_of m \<and> 0 \<le> j then
        case cell m i j of None \<Rightarrow> None | Some v \<Rightarrow>
          if v = target then Some True
          else if v < target then stairs m target (i + 1) j
          else stairs m target i (j - 1)
      else Some False)"
  by pat_completeness auto
termination by (relation "measure (\<lambda>(m, t, i, j). nat (size_of m - i) + nat (j + 1))") auto

definition searchMatrix2 :: "matrix \<Rightarrow> int \<Rightarrow> bool option" where
  "searchMatrix2 m target =
     (if m = [] \<or> hd m = [] then Some False else stairs m target 0 (size_of (hd m) - 1))"

declare matrix_helper.simps [simp del] stairs.simps [simp del]

definition sorted_matrix :: "int \<Rightarrow> matrix \<Rightarrow> bool" where
  "sorted_matrix cols m \<longleftrightarrow> (\<forall>r \<in> set m. int (length r) = cols \<and> sorted r) \<and>
     sorted_wrt (\<lambda>r r'. \<forall>j < nat cols. r ! j \<le> r' ! j) m"

abbreviation elem :: "matrix \<Rightarrow> int \<Rightarrow> int \<Rightarrow> int" where
  "elem m i j \<equiv> m ! nat i ! nat j"

lemma cell_elem:
  assumes "sorted_matrix cols m" "0 \<le> i" "i < size_of m" "0 \<le> j" "j < cols"
  shows "cell m i j = Some (elem m i j)"
  using assms by (auto simp: cell_def sorted_matrix_def)

lemma elem_mono:
  assumes "sorted_matrix cols m" "0 \<le> i" "i \<le> i'" "i' < size_of m" "0 \<le> j" "j \<le> j'" "j' < cols"
  shows "elem m i j \<le> elem m i' j'"
proof -
  have "m ! nat i \<in> set m" using assms by simp
  then have "sorted (m ! nat i)" "int (length (m ! nat i)) = cols" using assms(1) by (auto simp: sorted_matrix_def)
  then have "elem m i j \<le> elem m i j'" using assms by (intro sorted_nth_mono) auto
  also have "elem m i j' \<le> elem m i' j'"
  proof (cases "i = i'")
    case False
    with assms have "nat i < nat i'" "nat i' < length m" "nat j' < nat cols" by auto
    with assms(1) sorted_wrt_nth_less [of "\<lambda>r r'. \<forall>j < nat cols. r ! j \<le> r' ! j" m "nat i" "nat i'"]
    show ?thesis by (auto simp: sorted_matrix_def)
  qed simp
  finally show ?thesis .
qed

definition occurs :: "matrix \<Rightarrow> int \<Rightarrow> int \<Rightarrow> int \<Rightarrow> int \<Rightarrow> int \<Rightarrow> bool" where
  "occurs m t up left low right \<longleftrightarrow>
     (\<exists>i j. up \<le> i \<and> i \<le> low \<and> left \<le> j \<and> j \<le> right \<and> elem m i j = t)"

lemma occurs_mono:
  assumes "occurs m t t1 l1 b1 r1" "up \<le> t1" "b1 \<le> low" "left \<le> l1" "r1 \<le> right"
  shows "occurs m t up left low right"
proof -
  obtain i j where "t1 \<le> i" "i \<le> b1" "l1 \<le> j" "j \<le> r1" "elem m i j = t"
    using assms(1) by (auto simp: occurs_def)
  with assms(2-) show ?thesis
    unfolding occurs_def by (intro exI [of _ i] exI [of _ j]) simp
qed

lemma occurs_split:
  assumes "\<And>i j. up \<le> i \<Longrightarrow> i \<le> low \<Longrightarrow> left \<le> j \<Longrightarrow> j \<le> right \<Longrightarrow> elem m i j = t \<Longrightarrow>
      t1 \<le> i \<and> i \<le> b1 \<and> l1 \<le> j \<and> j \<le> r1 \<or> t2 \<le> i \<and> i \<le> b2 \<and> l2 \<le> j \<and> j \<le> r2"
    and "up \<le> t1" "b1 \<le> low" "left \<le> l1" "r1 \<le> right"
    and "up \<le> t2" "b2 \<le> low" "left \<le> l2" "r2 \<le> right"
  shows "occurs m t up left low right \<longleftrightarrow> occurs m t t1 l1 b1 r1 \<or> occurs m t t2 l2 b2 r2"
proof
  assume "occurs m t up left low right"
  then obtain i j where "up \<le> i" "i \<le> low" "left \<le> j" "j \<le> right" "elem m i j = t"
    by (auto simp: occurs_def)
  with assms(1) [of i j] show "occurs m t t1 l1 b1 r1 \<or> occurs m t t2 l2 b2 r2"
    unfolding occurs_def by blast
next
  assume "occurs m t t1 l1 b1 r1 \<or> occurs m t t2 l2 b2 r2"
  then show "occurs m t up left low right"
  proof
    assume "occurs m t t1 l1 b1 r1"
    then show ?thesis using assms(2-5) by (rule occurs_mono)
  next
    assume "occurs m t t2 l2 b2 r2"
    then show ?thesis using assms(6-9) by (rule occurs_mono)
  qed
qed

lemma either_Some: "either (Some a) (Some b) = Some (a \<or> b)"
  by (cases a) (simp_all add: either_def)

lemma matrix_helper_occurs:
  assumes "sorted_matrix cols m" "0 \<le> up" "low < size_of m" "0 \<le> left" "right < cols"
  shows "matrix_helper m t up left low right = Some (occurs m t up left low right)"
  using assms
proof (induction m t up left low right rule: matrix_helper.induct)
  case (1 m t up left low right)
  define rmid where "rmid = up + (low - up) div 2"
  define cmid where "cmid = left + (right - left) div 2"
  note mono = elem_mono [OF "1.prems"(1)]
  show ?case
  proof (cases "up > low \<or> left > right \<or> up = low \<and> left = right")
    case True
    moreover have "occurs m t up left up left \<longleftrightarrow> elem m up left = t"
      unfolding occurs_def by (metis order_antisym order_refl)
    moreover have "up > low \<or> left > right \<Longrightarrow> \<not> occurs m t up left low right" by (auto simp: occurs_def)
    ultimately show ?thesis
      using "1.prems" cell_elem [OF "1.prems"(1), of up left] by (subst matrix_helper.simps) auto
  next
    case False
    then have small: "\<not> (up > low \<or> left > right)" "\<not> (up = low \<and> left = right)" by auto
    then have mid: "up \<le> rmid" "rmid \<le> low" "left \<le> cmid" "cmid \<le> right"
      by (auto simp: rmid_def cmid_def)
    then have cell: "cell m rmid cmid = Some (elem m rmid cmid)"
      using "1.prems" cell_elem [OF "1.prems"(1), of rmid cmid] by simp
    consider "elem m rmid cmid = t" | "elem m rmid cmid < t" | "elem m rmid cmid > t" by linarith
    then show ?thesis
    proof cases
      case 1
      then have "matrix_helper m t up left low right = Some True" using small cell
        by (subst matrix_helper.simps) (auto simp: rmid_def [symmetric] cmid_def [symmetric] Let_def)
      moreover have "occurs m t up left low right" using 1 mid unfolding occurs_def by blast
      ultimately show ?thesis by simp
    next
      case 2
      have "matrix_helper m t up left low right =
        either (matrix_helper m t up (cmid + 1) rmid right) (matrix_helper m t (rmid + 1) left low right)"
        using small cell 2
        by (subst matrix_helper.simps) (auto simp: rmid_def [symmetric] cmid_def [symmetric] Let_def)
      moreover have "\<not> (i \<le> rmid \<and> j \<le> cmid)" if "up \<le> i" "left \<le> j" "elem m i j = t" for i j
        using mono [of i rmid j cmid] that 2 mid "1.prems" by auto
      then have "occurs m t up left low right \<longleftrightarrow>
        occurs m t up (cmid + 1) rmid right \<or> occurs m t (rmid + 1) left low right"
        using mid by (intro occurs_split) force+
      ultimately show ?thesis
        using "1.IH"(1,2) [OF small rmid_def cmid_def cell] 2 mid "1.prems" by (simp add: either_Some)
    next
      case 3
      have "matrix_helper m t up left low right =
        either (matrix_helper m t up left (rmid - 1) right) (matrix_helper m t rmid left low (cmid - 1))"
        using small cell 3
        by (subst matrix_helper.simps) (auto simp: rmid_def [symmetric] cmid_def [symmetric] Let_def)
      moreover have "\<not> (rmid \<le> i \<and> cmid \<le> j)" if "i \<le> low" "j \<le> right" "elem m i j = t" for i j
        using mono [of rmid i cmid j] that 3 mid "1.prems" by auto
      then have "occurs m t up left low right \<longleftrightarrow>
        occurs m t up left (rmid - 1) right \<or> occurs m t rmid left low (cmid - 1)"
        using mid by (intro occurs_split) force+
      ultimately show ?thesis
        using "1.IH"(3,4) [OF small rmid_def cmid_def cell] 3 mid "1.prems" by (simp add: either_Some)
    qed
  qed
qed

lemma stairs_occurs:
  assumes "sorted_matrix cols m" "0 \<le> i" "j < cols"
  shows "stairs m t i j = Some (occurs m t i 0 (size_of m - 1) j)"
  using assms
proof (induction m t i j rule: stairs.induct)
  case (1 m t i j)
  note mono = elem_mono [OF "1.prems"(1)]
  show ?case
  proof (cases "i < size_of m \<and> 0 \<le> j")
    case True
    then have cell: "cell m i j = Some (elem m i j)"
      using "1.prems" cell_elem [OF "1.prems"(1), of i j] by simp
    consider "elem m i j = t" | "elem m i j < t" | "elem m i j > t" by linarith
    then show ?thesis
    proof cases
      case 1
      then have "stairs m t i j = Some True" using True cell by (subst stairs.simps) simp
      moreover have "occurs m t i 0 (size_of m - 1) j"
        using 1 True unfolding occurs_def by (intro exI [of _ i] exI [of _ j]) simp
      ultimately show ?thesis by simp
    next
      case 2
      then have "stairs m t i j = stairs m t (i + 1) j" using True cell by (subst stairs.simps) simp
      moreover have "elem m i j' \<noteq> t" if "0 \<le> j'" "j' \<le> j" for j'
        using mono [of i i j' j] that 2 True "1.prems" by auto
      then have "occurs m t i 0 (size_of m - 1) j \<longleftrightarrow> occurs m t (i + 1) 0 (size_of m - 1) j"
        unfolding occurs_def by (metis add1_zle_eq order_le_less order_less_imp_le)
      ultimately show ?thesis using "1.IH"(1) [OF True cell] 2 "1.prems" by simp
    next
      case 3
      then have "stairs m t i j = stairs m t i (j - 1)" using True cell by (subst stairs.simps) simp
      moreover have "elem m i' j \<noteq> t" if "i \<le> i'" "i' \<le> size_of m - 1" for i'
        using mono [of i i' j j] that 3 True "1.prems" by auto
      then have "occurs m t i 0 (size_of m - 1) j \<longleftrightarrow> occurs m t i 0 (size_of m - 1) (j - 1)"
        unfolding occurs_def by (metis order_le_less order_less_imp_le zle_diff1_eq)
      ultimately show ?thesis using "1.IH"(2) [OF True cell] 3 "1.prems" by simp
    qed
  next
    case False
    with "1.prems" show ?thesis by (subst stairs.simps) (auto simp: occurs_def)
  qed
qed

lemma occurs_everywhere:
  assumes "sorted_matrix cols m"
  shows "occurs m t 0 0 (size_of m - 1) (cols - 1) \<longleftrightarrow> (\<exists>r \<in> set m. t \<in> set r)"
proof
  assume "occurs m t 0 0 (size_of m - 1) (cols - 1)"
  then obtain i j where ij: "0 \<le> i" "i < size_of m" "0 \<le> j" "j < cols" "elem m i j = t" by (auto simp: occurs_def)
  then have "m ! nat i \<in> set m" by simp
  moreover from this have "int (length (m ! nat i)) = cols" using assms by (simp add: sorted_matrix_def)
  then have "t \<in> set (m ! nat i)" using ij by (auto simp: in_set_conv_nth intro!: exI [of _ "nat j"])
  ultimately show "\<exists>r \<in> set m. t \<in> set r" by blast
next
  assume "\<exists>r \<in> set m. t \<in> set r"
  then obtain i j where "i < length m" "j < length (m ! i)" "m ! i ! j = t" by (metis in_set_conv_nth)
  moreover from this have "int (length (m ! i)) = cols" using assms by (simp add: sorted_matrix_def)
  ultimately show "occurs m t 0 0 (size_of m - 1) (cols - 1)"
    unfolding occurs_def by (intro exI [of _ "int i"] exI [of _ "int j"]) auto
qed

text \<open>
  In a matrix with rows and columns in ascending order both searches, the one that splits it
  in four and the one that walks along a staircase, tell whether the target occurs in it.
\<close>

theorem matrix_searches:
  assumes "sorted_matrix cols m"
  shows "searchMatrix m t = Some (\<exists>r \<in> set m. t \<in> set r) \<and> searchMatrix2 m t = Some (\<exists>r \<in> set m. t \<in> set r)"
proof (cases "m = [] \<or> hd m = []")
  case True
  moreover have "\<forall>r \<in> set m. r = []"
    using True assms by (cases m) (auto simp: sorted_matrix_def)
  ultimately show ?thesis by (auto simp: searchMatrix_def searchMatrix2_def)
next
  case False
  then have "int (length (hd m)) = cols" using assms by (simp add: sorted_matrix_def)
  with False assms occurs_everywhere [OF assms, of t] matrix_helper_occurs [OF assms, of 0 "size_of m - 1" 0 "cols - 1" t]
    stairs_occurs [OF assms, of 0 "cols - 1" t]
  show ?thesis by (simp add: searchMatrix_def searchMatrix2_def)
qed

theorem matrix_searches_witness:
  "searchMatrix [[1, 4, 7], [2, 5, 8]] 5 = Some True \<and> searchMatrix2 [[1, 4, 7], [2, 5, 8]] 5 = Some True"
  using matrix_searches [of 3 "[[1, 4, 7], [2, 5, 8]]" 5] by (simp add: sorted_matrix_def All_less_Suc numeral_eq_Suc)

end
