(* ===== verification/LcBits.thy ===== *)
theory LcBits
  imports Prelude
begin

text \<open>
  The bit tricks of \<^verbatim>\<open>hobbies/leetcode/algorithms\<close>: single numbers (\<^verbatim>\<open>solution_136\<close>,
  \<^verbatim>\<open>solution_137\<close>, \<^verbatim>\<open>solution_260\<close>), the missing number (\<^verbatim>\<open>solution_268\<close>), sums without \<open>+\<close>
  (\<^verbatim>\<open>solution_371\<close>), reversed bits (\<^verbatim>\<open>solution_190\<close>) and the added letter (\<^verbatim>\<open>solution_389\<close>).
  A 32-bit \<^verbatim>\<open>int\<close> is the word of its bits.
\<close>

section \<open>Exclusive or of a vector\<close>

fun xor_loop :: "u32 \<Rightarrow> u32 list \<Rightarrow> u32" where
  "xor_loop x [] = x"
| "xor_loop x (num # nums) = xor_loop (x XOR num) nums"

definition singleNumber :: "u32 list \<Rightarrow> u32" where
  "singleNumber nums = xor_loop 0 nums"

definition ones :: "nat \<Rightarrow> u32 list \<Rightarrow> nat" where
  \<comment> \<open>how many elements have bit \<open>i\<close>\<close>
  "ones i nums = length (filter (\<lambda>w. bit w i) nums)"

lemma ones_simps [simp]:
  "ones i [] = 0" "ones i (w # ws) = of_bool (bit w i) + ones i ws" "ones i (xs @ ys) = ones i xs + ones i ys"
  by (simp_all add: ones_def)

lemma ones_mset: "ones i nums = size (filter_mset (\<lambda>w. bit w i) (mset nums))"
  by (simp add: ones_def flip: mset_filter)

lemma bit_xor_loop: "bit (xor_loop x nums) i \<longleftrightarrow> bit x i \<noteq> odd (ones i nums)"
  by (induction x nums rule: xor_loop.induct) (auto simp: bit_xor_iff)

lemma single_parity:
  assumes "mset nums = M + M + R"
  shows "odd (ones i nums) \<longleftrightarrow> odd (size (filter_mset (\<lambda>w. bit w i) R))"
  by (simp add: ones_mset assms)

lemma singleNumber_single:
  assumes "mset nums = M + M + {#x#}"
  shows "singleNumber nums = x"
  by (rule bit_eqI) (simp add: singleNumber_def bit_xor_loop single_parity [OF assms])

section \<open>solution 137\<close>

fun single3_loop :: "u32 \<Rightarrow> u32 \<Rightarrow> u32 list \<Rightarrow> u32" where
  "single3_loop x y [] = x"
| "single3_loop x y (num # nums) =
     (let x' = (num XOR x) AND NOT y; y' = (num XOR y) AND NOT x' in single3_loop x' y' nums)"

definition singleNumber3 :: "u32 list \<Rightarrow> u32" where
  "singleNumber3 nums = single3_loop 0 0 nums"

definition counts3 :: "nat \<Rightarrow> u32 \<Rightarrow> u32 \<Rightarrow> nat \<Rightarrow> bool" where
  \<comment> \<open>\<open>x\<close> and \<open>y\<close> hold the two digits of a count modulo three\<close>
  "counts3 i x y n \<longleftrightarrow> (bit x i \<longleftrightarrow> n mod 3 = 1) \<and> (bit y i \<longleftrightarrow> n mod 3 = 2)"

lemma counts3_step:
  assumes "counts3 i x y n" "i < 32"
  shows "counts3 i ((num XOR x) AND NOT y) ((num XOR y) AND NOT ((num XOR x) AND NOT y)) (n + of_bool (bit num i))"
proof -
  have "n mod 3 = 0 \<or> n mod 3 = 1 \<or> n mod 3 = 2" by auto
  moreover have "n mod 3 = 0 \<Longrightarrow> Suc n mod 3 = 1" "n mod 3 = 1 \<Longrightarrow> Suc n mod 3 = 2" "n mod 3 = 2 \<Longrightarrow> Suc n mod 3 = 0"
    by (simp_all add: mod_Suc)
  ultimately show ?thesis
    using assms by (cases "bit num i") (auto simp: counts3_def bit_simps)
qed

lemma single3_loop_counts:
  "counts3 i x y n \<Longrightarrow> i < 32 \<Longrightarrow> bit (single3_loop x y nums) i \<longleftrightarrow> (n + ones i nums) mod 3 = 1"
proof (induction x y nums arbitrary: n rule: single3_loop.induct)
  case (1 x y)
  then show ?case by (simp add: counts3_def)
next
  case (2 x y num nums)
  have "counts3 i ((num XOR x) AND NOT y) ((num XOR y) AND NOT ((num XOR x) AND NOT y)) (n + of_bool (bit num i))"
    using 2(2,3) by (rule counts3_step)
  from 2(1) [OF refl refl this \<open>i < 32\<close>] show ?case by (simp add: Let_def ac_simps)
qed

lemma singleNumber3_single:
  assumes "mset nums = M + M + M + {#x#}"
  shows "singleNumber3 nums = x"
proof (rule bit_word_eqI)
  fix i
  assume i: "i < LENGTH(32)"
  have "ones i nums = 3 * size (filter_mset (\<lambda>w. bit w i) M) + of_bool (bit x i)"
    by (simp add: ones_mset assms)
  then show "bit (singleNumber3 nums) i \<longleftrightarrow> bit x i"
    using single3_loop_counts [of i 0 0 0 nums] i by (simp add: singleNumber3_def counts3_def)
qed

text \<open>
  When every value occurs twice but one, xor returns that one; when every value occurs three
  times but one, the two-word counter returns that one, whatever the order of the vector.
\<close>

theorem single_numbers:
  "(mset nums = M + M + {#x#} \<longrightarrow> singleNumber nums = x) \<and>
   (mset nums' = M + M + M + {#x#} \<longrightarrow> singleNumber3 nums' = x)"
  using singleNumber_single singleNumber3_single by blast

theorem single_numbers_witness: "singleNumber [1, 2, 3, 2, 1] = 3 \<and> singleNumber3 [1, 2, 1, 3, 2, 2, 1] = 3"
  using single_numbers [of "[1, 2, 3, 2, 1]" "{#1, 2#}" 3 "[1, 2, 1, 3, 2, 2, 1]"] by simp

section \<open>solution 260\<close>

fun toggle_all :: "u32 list \<Rightarrow> u32 set \<Rightarrow> u32 set" where
  "toggle_all [] us = us"
| "toggle_all (x # nums) us = toggle_all nums (if x \<in> us then us - {x} else insert x us)"

definition singleNumbers_set :: "u32 list \<Rightarrow> u32 set" where
  \<comment> \<open>the vector returned has the elements of an \<^verbatim>\<open>unordered_set\<close>, in some order\<close>
  "singleNumbers_set nums = toggle_all nums {}"

fun split_loop :: "u32 \<Rightarrow> u32 list \<Rightarrow> u32 \<times> u32 \<Rightarrow> u32 \<times> u32" where
  "split_loop rt [] r = r"
| "split_loop rt (x # nums) (r0, r1) =
     split_loop rt nums (if x AND rt AND (- rt) \<noteq> 0 then (r0 XOR x, r1) else (r0, r1 XOR x))"

definition singleNumbers2 :: "u32 list \<Rightarrow> u32 \<times> u32" where
  "singleNumbers2 nums = split_loop (xor_loop 0 nums) nums (0, 0)"

lemma toggle_all_odd: "toggle_all nums us = {x. (x \<in> us) \<noteq> odd (count (mset nums) x)}"
  by (induction nums us rule: toggle_all.induct) (auto split: if_splits)

lemma split_loop_filter:
  "split_loop rt nums (r0, r1) =
     (xor_loop r0 (filter (\<lambda>x. x AND rt AND (- rt) \<noteq> 0) nums),
      xor_loop r1 (filter (\<lambda>x. \<not> x AND rt AND (- rt) \<noteq> 0) nums))"
  by (induction rt nums "(r0, r1)" arbitrary: r0 r1 rule: split_loop.induct) (simp_all add: ac_simps)

text \<open>\<open>w AND (- w)\<close> is the lowest set bit of \<open>w\<close>.\<close>

lemma lowest_bit:
  fixes w :: u32
  assumes "w \<noteq> 0"
  shows "\<exists>i < 32. bit w i \<and> w AND (- w) = push_bit i 1"
proof -
  obtain n where "bit w n" using assms by (auto simp: bit_eq_iff)
  define i where "i = (LEAST i. bit w i)"
  have i: "bit w i" unfolding i_def using \<open>bit w n\<close> by (rule LeastI)
  have below: "\<not> bit w j" if "j < i" for j using that unfolding i_def by (rule not_less_Least)
  from i have "i < 32" using bit_imp_le_length [of w i] by simp
  define u where "u = drop_bit (Suc i) w"
  have w: "w = push_bit (Suc i) u OR push_bit i 1"
  proof (rule bit_word_eqI)
    fix k
    assume "k < LENGTH(32)"
    then show "bit w k \<longleftrightarrow> bit (push_bit (Suc i) u OR push_bit i 1) k"
      using i below [of k] by (cases k i rule: linorder_cases) (auto simp: u_def bit_simps simp del: push_bit_Suc)
  qed
  also have "\<dots> = push_bit (Suc i) u + push_bit i 1"
    by (rule disjunctive_add [symmetric]) (auto simp: bit_simps simp del: push_bit_Suc)
  finally have "w - 1 = push_bit (Suc i) u + mask i" by (simp add: mask_eq_exp_minus_1 push_bit_eq_mult)
  also have "\<dots> = push_bit (Suc i) u OR mask i"
    by (rule disjunctive_add) (auto simp: bit_simps simp del: push_bit_Suc)
  finally have m: "w - 1 = push_bit (Suc i) u OR mask i" .
  have "w AND (- w) = w AND NOT (w - 1)" by (simp add: minus_eq_not_minus_1)
  also have "\<dots> = push_bit i 1"
    unfolding m
    by (subst w, rule bit_word_eqI) (auto simp: bit_simps simp del: push_bit_Suc)
  finally show ?thesis using i \<open>i < 32\<close> by blast
qed

lemma singleNumber_filter:
  assumes "mset nums = M + M + {#x#}"
  shows "xor_loop 0 nums = x"
  using singleNumber_single [OF assms] by (simp add: singleNumber_def)

lemma singleNumbers2_pair:
  assumes "mset nums = M + M + {#a, b#}" "a \<noteq> b"
  shows "singleNumbers2 nums = (a, b) \<or> singleNumbers2 nums = (b, a)"
proof -
  have r: "xor_loop 0 nums = a XOR b"
  proof (rule bit_eqI)
    fix i
    show "bit (xor_loop 0 nums) i \<longleftrightarrow> bit (a XOR b) i"
      using single_parity [OF assms(1), of i] by (auto simp: bit_xor_loop bit_xor_iff)
  qed
  have "a XOR b \<noteq> 0" using assms(2) by (auto simp: bit_eq_iff bit_xor_iff)
  then obtain i where i: "bit (a XOR b) i" "(a XOR b) AND - (a XOR b) = push_bit i 1" "i < 32"
    using lowest_bit by blast
  have mask: "x AND (a XOR b) AND - (a XOR b) \<noteq> 0 \<longleftrightarrow> bit x i" for x
    unfolding and.assoc i(2) by (rule bit_iff_and_push_bit_not_eq_0 [symmetric])
  have ab: "bit a i \<noteq> bit b i" using i(1) by (simp add: bit_xor_iff)
  have split: "singleNumbers2 nums =
      (xor_loop 0 (filter (\<lambda>x. bit x i) nums), xor_loop 0 (filter (\<lambda>x. \<not> bit x i) nums))"
    by (simp add: singleNumbers2_def split_loop_filter r mask)
  let ?M = "filter_mset (\<lambda>x. bit x i) M" and ?N = "filter_mset (\<lambda>x. \<not> bit x i) M"
  show ?thesis
  proof (cases "bit a i")
    case True
    then have "mset (filter (\<lambda>x. bit x i) nums) = ?M + ?M + {#a#}" "mset (filter (\<lambda>x. \<not> bit x i) nums) = ?N + ?N + {#b#}"
      using ab by (simp_all add: mset_filter assms(1))
    then show ?thesis unfolding split by (simp add: singleNumber_filter)
  next
    case False
    then have "mset (filter (\<lambda>x. bit x i) nums) = ?M + ?M + {#b#}" "mset (filter (\<lambda>x. \<not> bit x i) nums) = ?N + ?N + {#a#}"
      using ab by (simp_all add: mset_filter assms(1))
    then show ?thesis unfolding split by (simp add: singleNumber_filter)
  qed
qed

lemma singleNumbers_set_pair:
  assumes "mset nums = M + M + {#a, b#}" "a \<noteq> b"
  shows "singleNumbers_set nums = {a, b}"
  using assms(2) by (auto simp: singleNumbers_set_def toggle_all_odd assms(1))

section \<open>solution 268\<close>

fun missing_loop :: "u32 \<Rightarrow> nat \<Rightarrow> u32 list \<Rightarrow> u32" where
  "missing_loop m i [] = m"
| "missing_loop m i (num # nums) = missing_loop (m XOR (of_nat i XOR num)) (Suc i) nums"

definition missingNumber :: "u32 list \<Rightarrow> u32" where
  "missingNumber nums = missing_loop (of_nat (length nums)) 0 nums"

lemma xor_loop_xor: "xor_loop x nums = x XOR xor_loop 0 nums"
  by (rule bit_eqI) (auto simp: bit_xor_loop bit_xor_iff)

lemma xor_loop_append: "xor_loop x (xs @ ys) = xor_loop (xor_loop x xs) ys"
  by (induction x xs rule: xor_loop.induct) simp_all

lemma missing_loop_xor:
  "missing_loop m i nums = xor_loop m (map of_nat [i..<i + length nums] @ nums)"
proof (induction m i nums rule: missing_loop.induct)
  case (2 m i num nums)
  have "xor_loop (m XOR (of_nat i XOR num)) (map of_nat [Suc i..<Suc i + length nums] @ nums)
      = xor_loop m (map of_nat [i..<i + length (num # nums)] @ num # nums)"
    by (rule bit_eqI) (auto simp: bit_xor_loop bit_xor_iff upt_conv_Cons simp del: upt_Suc)
  with 2 show ?case by simp
qed simp

lemma missingNumber_missing:
  assumes "mset nums + {#of_nat k#} = mset (map of_nat [0..<Suc (length nums)])"
  shows "missingNumber nums = of_nat k"
proof -
  let ?all = "map of_nat [0..<length nums] @ nums @ [of_nat (length nums)] :: u32 list"
  have "mset ?all = mset nums + mset nums + {#of_nat k#}"
    using assms by (simp add: ac_simps)
  moreover have "missingNumber nums = xor_loop 0 ?all"
    by (rule bit_eqI) (auto simp: missingNumber_def missing_loop_xor bit_xor_loop)
  ultimately show ?thesis using singleNumber_filter by metis
qed

section \<open>solution 371\<close>

partial_function (option) getSum :: "u32 \<Rightarrow> u32 \<Rightarrow> u32 option" where
  "getSum a b = (if a AND b = 0 then Some (a XOR b) else getSum (push_bit 1 (a AND b)) (a XOR b))"

lemma add_xor_and: "(a :: u32) + b = push_bit 1 (a AND b) + (a XOR b)"
proof -
  have "a OR b = (a XOR b) OR (a AND b)" by (rule bit_eqI) (auto simp: bit_simps)
  also have "\<dots> = (a XOR b) + (a AND b)" by (rule disjunctive_add [symmetric]) (auto simp: bit_simps)
  finally have "a + b = (a AND b) + ((a XOR b) + (a AND b))" by (metis word_plus_and_or)
  then show ?thesis by (simp add: push_bit_eq_mult)
qed

lemma getSum_aux: "\<forall>j < 32 - n. \<not> bit a j \<Longrightarrow> getSum a b = Some (a + b)"
proof (induction n arbitrary: a b)
  case 0
  then have "a = 0" by (intro bit_word_eqI) simp
  then show ?case by (subst getSum.simps) simp
next
  case (Suc n)
  show ?case
  proof (cases "a AND b = 0")
    case True
    then have "a + b = a XOR b" using add_xor_and [of a b] by simp
    with True show ?thesis by (subst getSum.simps) simp
  next
    case False
    have "\<not> bit (push_bit 1 (a AND b)) j" if "j < 32 - n" for j
      unfolding bit_push_bit_iff using that Suc.prems by (auto simp: bit_and_iff)
    then have "getSum (push_bit 1 (a AND b)) (a XOR b) = Some (a + b)"
      using Suc.IH add_xor_and [of a b] by simp
    with False show ?thesis by (subst getSum.simps) simp
  qed
qed

text \<open>The loop returns, after at most 32 rounds, the sum modulo \<open>2 ^ 32\<close>.\<close>

lemma getSum_sum: "getSum a b = Some (a + b)"
  by (rule getSum_aux [of 32]) simp

text \<open>
  Without arithmetic: the two numbers that do not occur twice are returned in some order, the
  number missing from \<open>0 \<dots> n\<close> is returned, and the sum from \<^verbatim>\<open>&\<close>, \<^verbatim>\<open>^\<close> and shifts always
  returns and is the sum of the two words.
\<close>

theorem xor_tricks:
  assumes "mset nums = M + M + {#a, b#}" "a \<noteq> b"
    and "mset nums' + {#of_nat k#} = mset (map of_nat [0..<Suc (length nums')])"
  shows "(singleNumbers2 nums = (a, b) \<or> singleNumbers2 nums = (b, a)) \<and> singleNumbers_set nums = {a, b} \<and>
    missingNumber nums' = of_nat k \<and> getSum a b = Some (a + b)"
  using singleNumbers2_pair [OF assms(1,2)] singleNumbers_set_pair [OF assms(1,2)]
    missingNumber_missing [OF assms(3)] getSum_sum by simp

theorem xor_tricks_witness:
  "singleNumbers_set [1, 2, 1, 3] = {2, 3} \<and> missingNumber [2, 0] = 1 \<and> getSum 2 3 = Some 5"
  using xor_tricks [of "[1, 2, 1, 3]" "{#1#}" 2 3 "[2, 0]" 1] by (simp add: numeral_eq_Suc add_mset_commute)

section \<open>solution 190\<close>

definition swap_bits :: "nat \<Rightarrow> u32 \<Rightarrow> u32 \<Rightarrow> u32 \<Rightarrow> u32" where
  "swap_bits k low high n = push_bit k (n AND low) OR drop_bit k (n AND high)"

definition reverseBits :: "u32 \<Rightarrow> u32" where
  "reverseBits n =
     swap_bits 16 0x0000FFFF 0xFFFF0000
       (swap_bits 8 0x00FF00FF 0xFF00FF00
         (swap_bits 4 0x0F0F0F0F 0xF0F0F0F0
           (swap_bits 2 0x33333333 0xCCCCCCCC
             (swap_bits 1 0x55555555 0xAAAAAAAA n))))"

lemma swap_bits_bit:
  "i < 32 \<Longrightarrow> bit (swap_bits k low high n) i \<longleftrightarrow>
     k \<le> i \<and> bit low (i - k) \<and> bit n (i - k) \<or> bit high (i + k) \<and> bit n (i + k)"
  by (auto simp: swap_bits_def bit_simps ac_simps)

lemma upto32: "[0..<32] = 0 # 1 # [2..<32]"
  using upt_conv_Cons [of 0 32] upt_conv_Cons [of 1 32] by (simp add: numeral_2_eq_2 del: upt_rec_numeral)

lemma reverseBits_all: "list_all (\<lambda>i. bit (reverseBits n) i \<longleftrightarrow> bit n (31 - i)) [0..<32]"
  unfolding upto32 by (simp add: reverseBits_def swap_bits_bit flip: numeral_2_eq_2 numeral_3_eq_3)

lemma reverseBits_bit: "i < 32 \<Longrightarrow> bit (reverseBits n) i \<longleftrightarrow> bit n (31 - i)"
  using reverseBits_all [of n] by (simp only: list_all_iff set_upt) simp

lemma reverseBits_twice: "reverseBits (reverseBits n) = n"
  by (rule bit_word_eqI) (simp add: reverseBits_bit)

end
