(* ===== verification/LcBrackets.thy ===== *)
theory LcBrackets
  imports Prelude
begin

text \<open>
  \<^verbatim>\<open>solution_20\<close> and \<^verbatim>\<open>solution_22\<close> of \<^verbatim>\<open>hobbies/leetcode/algorithms\<close>: three ways to check
  brackets, and the list of all bracket strings. The specification is the grammar of balanced
  strings.
\<close>

section \<open>solution 20\<close>

definition openers :: "char set" where
  "openers = {CHR ''('', CHR ''['', CHR ''{''}"

definition closers :: "char set" where
  "closers = {CHR '')'', CHR '']'', CHR ''}''}"

fun valid_loop :: "string \<Rightarrow> string \<Rightarrow> bool" where
  \<comment> \<open>the loop of \<^verbatim>\<open>isValid\<close> with the stack \<^verbatim>\<open>sc\<close>\<close>
  "valid_loop [] sc = (sc = [])"
| "valid_loop (c # s) sc =
     (if c \<in> openers then valid_loop s (c # sc)
      else if c \<in> closers then
        if sc = [] then False
        else if c = CHR '')'' \<and> hd sc \<noteq> CHR ''('' \<or> c = CHR '']'' \<and> hd sc \<noteq> CHR ''['' \<or>
                c = CHR ''}'' \<and> hd sc \<noteq> CHR ''{'' then False
        else valid_loop s (tl sc)
      else False)"

definition isValid :: "string \<Rightarrow> bool" where
  "isValid s = (if length s mod 2 \<noteq> 0 then False else valid_loop s [])"

definition pm :: "char \<Rightarrow> char option" where
  "pm = [CHR '')'' \<mapsto> CHR ''('', CHR '']'' \<mapsto> CHR ''['', CHR ''}'' \<mapsto> CHR ''{'']"

fun valid_loop2 :: "string \<Rightarrow> string \<Rightarrow> bool" where
  "valid_loop2 [] left = (left = [])"
| "valid_loop2 (c # s) left =
     (case pm c of
        Some f \<Rightarrow> if left = [] \<or> hd left \<noteq> f then False else valid_loop2 s (tl left)
      | None \<Rightarrow> valid_loop2 s (c # left))"

definition isValid2 :: "string \<Rightarrow> bool" where
  "isValid2 s = (if length s mod 2 \<noteq> 0 then False else valid_loop2 s [])"

fun erase_first :: "char \<Rightarrow> char \<Rightarrow> string \<Rightarrow> string option" where
  \<comment> \<open>\<^verbatim>\<open>find\<close> of a string of two characters and \<^verbatim>\<open>erase\<close>; \<open>None\<close> is \<^verbatim>\<open>npos\<close>\<close>
  "erase_first a b (x # y # s) =
     (if x = a \<and> y = b then Some s else map_option ((#) x) (erase_first a b (y # s)))"
| "erase_first a b s = None"

definition erased :: "char \<Rightarrow> char \<Rightarrow> string \<Rightarrow> string" where
  "erased a b s = (case erase_first a b s of Some s' \<Rightarrow> s' | None \<Rightarrow> s)"

lemma erase_first_length: "erase_first a b s = Some s' \<Longrightarrow> length s = Suc (Suc (length s'))"
  by (induction a b s arbitrary: s' rule: erase_first.induct) (auto split: if_splits)

lemma erased_length:
  "length (erased a b s) \<le> length s" "erase_first a b s \<noteq> None \<Longrightarrow> length (erased a b s) < length s"
  by (auto simp: erased_def dest: erase_first_length split: option.splits)

function valid_loop3 :: "string \<Rightarrow> bool" where
  "valid_loop3 s =
     (if s = [] then True
      else let s1 = erased (CHR ''('') (CHR '')'') s; s2 = erased (CHR ''['') (CHR '']'') s1;
               s3 = erased (CHR ''{'') (CHR ''}'') s2 in
        if erase_first (CHR ''('') (CHR '')'') s = None \<and> erase_first (CHR ''['') (CHR '']'') s1 = None \<and>
           erase_first (CHR ''{'') (CHR ''}'') s2 = None then False
        else valid_loop3 s3)"
  by pat_completeness auto
termination
proof (relation "measure length")
  fix s s1 s2 s3 :: string
  assume "s1 = erased (CHR ''('') (CHR '')'') s" "s2 = erased (CHR ''['') (CHR '']'') s1"
    "s3 = erased (CHR ''{'') (CHR ''}'') s2"
    and "\<not> (erase_first (CHR ''('') (CHR '')'') s = None \<and> erase_first (CHR ''['') (CHR '']'') s1 = None \<and>
           erase_first (CHR ''{'') (CHR ''}'') s2 = None)"
  then show "(s3, s) \<in> measure length"
    using erased_length [of "CHR ''(''" "CHR '')''" s] erased_length [of "CHR ''[''" "CHR '']''" s1]
      erased_length [of "CHR ''{''" "CHR ''}''" s2] by auto
qed simp

declare valid_loop3.simps [simp del]

definition isValid3 :: "string \<Rightarrow> bool" where
  "isValid3 s = (if length s mod 2 \<noteq> 0 then False else valid_loop3 s)"

subsection \<open>Balanced strings\<close>

definition matching :: "char \<Rightarrow> char \<Rightarrow> bool" where
  "matching a b \<longleftrightarrow> (a, b) \<in> {(CHR ''('', CHR '')''), (CHR ''['', CHR '']''), (CHR ''{'', CHR ''}'')}"

inductive balanced :: "string \<Rightarrow> bool" where
  empty: "balanced []"
| wrap: "balanced s \<Longrightarrow> matching a b \<Longrightarrow> balanced (a # s @ [b])"
| append: "balanced s \<Longrightarrow> balanced t \<Longrightarrow> balanced (s @ t)"

lemma matching_sets: "matching a b \<Longrightarrow> a \<in> openers \<and> b \<in> closers \<and> b \<notin> openers"
  by (auto simp: matching_def openers_def closers_def)

lemma closer_matching: "c \<in> closers \<Longrightarrow>
  (c = CHR '')'' \<and> x \<noteq> CHR ''('' \<or> c = CHR '']'' \<and> x \<noteq> CHR ''['' \<or> c = CHR ''}'' \<and> x \<noteq> CHR ''{'') \<longleftrightarrow> \<not> matching x c"
  by (auto simp: matching_def closers_def)

lemma valid_loop_Cons:
  "valid_loop (c # s) sc = (if c \<in> openers then valid_loop s (c # sc)
     else c \<in> closers \<and> sc \<noteq> [] \<and> matching (hd sc) c \<and> valid_loop s (tl sc))"
  by (simp add: closer_matching)

declare valid_loop.simps(2) [simp del]

lemma valid_loop_pair:
  assumes "matching a b"
  shows "valid_loop (xs @ a # b # ys) sc = valid_loop (xs @ ys) sc"
proof (induction xs arbitrary: sc)
  case Nil
  then show ?case using assms matching_sets [OF assms] by (simp add: valid_loop_Cons)
qed (simp add: valid_loop_Cons)

lemma balanced_skip: "balanced s \<Longrightarrow> valid_loop (s @ t) sc = valid_loop t sc"
proof (induction s arbitrary: t sc rule: balanced.induct)
  case (wrap s a b)
  then show ?case using matching_sets [of a b] by (simp add: valid_loop_Cons)
qed simp_all

fun closes :: "string \<Rightarrow> string \<Rightarrow> bool" where
  \<comment> \<open>the string closes the brackets of the stack, with balanced strings in between\<close>
  "closes [] s = balanced s"
| "closes (a # sc) s = (\<exists>x b y. s = x @ b # y \<and> balanced x \<and> matching a b \<and> closes sc y)"

lemma closes_append: "balanced x \<Longrightarrow> closes sc y \<Longrightarrow> closes sc (x @ y)"
proof (cases sc)
  case (Cons a sc')
  assume "balanced x" "closes sc y"
  then obtain x' b y' where "y = x' @ b # y'" "balanced (x @ x')" "matching a b" "closes sc' y'"
    using Cons by (auto intro: balanced.append)
  then show ?thesis using Cons by (metis append_assoc closes.simps(2))
qed (simp add: balanced.append)

lemma valid_loop_closes: "valid_loop s sc \<Longrightarrow> closes sc s"
proof (induction s arbitrary: sc)
  case Nil
  then show ?case by (simp add: balanced.empty)
next
  case (Cons c s)
  show ?case
  proof (cases "c \<in> openers")
    case True
    with Cons.prems have "valid_loop s (c # sc)" by (simp add: valid_loop_Cons)
    then have "closes (c # sc) s" by (rule Cons.IH)
    then obtain x b y where s: "s = x @ b # y" "balanced x" "matching c b" "closes sc y" by auto
    then have "closes sc ((c # x @ [b]) @ y)" by (intro closes_append balanced.wrap)
    with s show ?thesis by simp
  next
    case False
    with Cons have "sc \<noteq> []" "matching (hd sc) c" "closes (tl sc) s" by (simp_all add: valid_loop_Cons)
    then have "closes (hd sc # tl sc) ([] @ c # s)" unfolding closes.simps using balanced.empty by blast
    with \<open>sc \<noteq> []\<close> show ?thesis by simp
  qed
qed

lemma valid_loop_balanced: "valid_loop s [] \<longleftrightarrow> balanced s"
  using valid_loop_closes [of s "[]"] balanced_skip [of s "[]" "[]"] by auto

lemma balanced_even: "balanced s \<Longrightarrow> even (length s)"
  by (induction rule: balanced.induct) auto

lemma isValid_balanced: "isValid s \<longleftrightarrow> balanced s"
  using balanced_even by (auto simp: isValid_def valid_loop_balanced even_iff_mod_2_eq_zero)

lemma pm_matching: "pm c = Some f \<longleftrightarrow> matching f c" "pm c = None \<longleftrightarrow> c \<notin> closers"
  by (auto simp: pm_def matching_def closers_def)

lemma valid_loop2_Cons:
  "valid_loop2 (c # s) left = (if c \<in> closers then left \<noteq> [] \<and> matching (hd left) c \<and> valid_loop2 s (tl left)
     else valid_loop2 s (c # left))"
proof (cases "pm c")
  case None
  then show ?thesis using pm_matching [of c] by simp
next
  case (Some f)
  then have "matching f c" "c \<in> closers" using pm_matching [of c] by auto
  moreover have "matching x c \<longleftrightarrow> x = f" for x using Some by (simp add: eq_commute flip: pm_matching)
  ultimately show ?thesis using Some by simp
qed

declare valid_loop2.simps(2) [simp del]

lemma valid_loop2_stuck: "\<not> set left \<subseteq> openers \<Longrightarrow> \<not> valid_loop2 s left"
proof (induction s arbitrary: left)
  case (Cons c s)
  then show ?case using matching_sets by (cases left) (auto simp: valid_loop2_Cons)
qed auto

lemma opener_not_closer: "c \<in> openers \<Longrightarrow> c \<notin> closers"
  by (auto simp: openers_def closers_def)

lemma valid_loop2_eq: "set left \<subseteq> openers \<Longrightarrow> valid_loop2 s left = valid_loop s left"
proof (induction s arbitrary: left)
  case (Cons c s)
  consider "c \<in> openers" | "c \<in> closers" "c \<notin> openers" | "c \<notin> openers" "c \<notin> closers" by blast
  then show ?case
  proof cases
    case 1
    with Cons opener_not_closer show ?thesis by (simp add: valid_loop2_Cons valid_loop_Cons)
  next
    case 2
    with Cons show ?thesis by (cases left) (auto simp: valid_loop2_Cons valid_loop_Cons)
  next
    case 3
    then have "\<not> valid_loop2 s (c # left)" by (intro valid_loop2_stuck) auto
    with 3 show ?thesis by (simp add: valid_loop2_Cons valid_loop_Cons)
  qed
qed simp

lemma erase_first_split: "erase_first a b s = Some s' \<Longrightarrow> \<exists>xs ys. s = xs @ a # b # ys \<and> s' = xs @ ys"
proof (induction a b s arbitrary: s' rule: erase_first.induct)
  case (1 a b x y s)
  show ?case
  proof (cases "x = a \<and> y = b")
    case True
    with "1.prems" have "x # y # s = [] @ a # b # s \<and> s' = [] @ s" by simp
    then show ?thesis by blast
  next
    case False
    with "1.prems" obtain r where r: "erase_first a b (y # s) = Some r" "s' = x # r" by auto
    with "1.IH" [OF False] obtain xs ys where "y # s = xs @ a # b # ys" "r = xs @ ys" by blast
    with r have "x # y # s = (x # xs) @ a # b # ys \<and> s' = (x # xs) @ ys" by simp
    then show ?thesis by blast
  qed
qed simp_all

lemma erase_first_None: "erase_first a b (xs @ a # b # ys) \<noteq> None"
proof (induction xs)
  case (Cons x xs)
  then show ?case by (cases xs) auto
qed simp

lemma erased_valid: "matching a b \<Longrightarrow> valid_loop (erased a b s) sc = valid_loop s sc"
  by (auto simp: erased_def valid_loop_pair dest: erase_first_split split: option.splits)

lemma balanced_pair: "balanced s \<Longrightarrow> s \<noteq> [] \<Longrightarrow> \<exists>xs a b ys. matching a b \<and> s = xs @ a # b # ys"
proof (induction rule: balanced.induct)
  case (wrap s a b)
  show ?case
  proof (cases "s = []")
    case True
    with wrap have "matching a b \<and> a # s @ [b] = [] @ a # b # []" by simp
    then show ?thesis by blast
  next
    case False
    with wrap obtain xs c d ys where "matching c d" "s = xs @ c # d # ys" by blast
    then have "matching c d \<and> a # s @ [b] = (a # xs) @ c # d # (ys @ [b])" by simp
    then show ?thesis by blast
  qed
next
  case (append s t)
  show ?case
  proof (cases "s = []")
    case False
    with append obtain xs c d ys where "matching c d" "s = xs @ c # d # ys" by blast
    then have "matching c d \<and> s @ t = xs @ c # d # (ys @ t)" by simp
    then show ?thesis by blast
  qed (use append in simp)
qed simp

lemma erased_None: "erase_first a b s = None \<Longrightarrow> erased a b s = s"
  by (simp add: erased_def)

lemma valid_loop3_eq: "valid_loop3 s = valid_loop s []"
proof (induction s rule: valid_loop3.induct)
  case (1 s)
  define s1 where "s1 = erased (CHR ''('') (CHR '')'') s"
  define s2 where "s2 = erased (CHR ''['') (CHR '']'') s1"
  define s3 where "s3 = erased (CHR ''{'') (CHR ''}'') s2"
  show ?case
  proof (cases "s = [] \<or> \<not> (erase_first (CHR ''('') (CHR '')'') s = None \<and> erase_first (CHR ''['') (CHR '']'') s1 = None \<and>
           erase_first (CHR ''{'') (CHR ''}'') s2 = None)")
    case True
    have "valid_loop s3 [] = valid_loop s []"
      by (simp add: s1_def s2_def s3_def erased_valid matching_def)
    with True 1 [OF _ s1_def s2_def s3_def] show ?thesis
      by (subst valid_loop3.simps) (auto simp: Let_def s1_def [symmetric] s2_def [symmetric] s3_def [symmetric])
  next
    case False
    then have none: "erase_first (CHR ''('') (CHR '')'') s = None" "erase_first (CHR ''['') (CHR '']'') s = None"
      "erase_first (CHR ''{'') (CHR ''}'') s = None" using erased_None s1_def s2_def by metis+
    have "\<not> balanced s"
    proof
      assume "balanced s"
      then obtain xs a b ys where ab: "matching a b" and s: "s = xs @ a # b # ys" using balanced_pair False by blast
      from ab none have "erase_first a b s = None"
        unfolding matching_def insert_iff prod.inject empty_iff by (elim disjE conjE) (simp_all only:)
      then show False unfolding s using erase_first_None by blast
    qed
    with False show ?thesis
      by (subst valid_loop3.simps) (simp add: Let_def s1_def [symmetric] s2_def [symmetric] valid_loop_balanced)
  qed
qed

text \<open>
  The three checks, with a stack, with a table of pairs and by erasing pairs until nothing
  changes, accept the same strings: those of the grammar of balanced brackets.
\<close>

theorem valid_brackets: "isValid s = balanced s \<and> isValid2 s = balanced s \<and> isValid3 s = balanced s"
proof -
  have "isValid2 s = isValid s" "isValid3 s = isValid s"
    by (simp_all add: isValid_def isValid2_def isValid3_def valid_loop2_eq valid_loop3_eq)
  then show ?thesis by (simp add: isValid_balanced)
qed

section \<open>solution 22\<close>

function parens_helper :: "nat \<Rightarrow> nat \<Rightarrow> string \<Rightarrow> string list \<Rightarrow> string list" where
  \<comment> \<open>\<^verbatim>\<open>helper\<close>; \<^verbatim>\<open>left\<close> and \<^verbatim>\<open>right\<close> stay in \<open>0 \<dots> n\<close>\<close>
  "parens_helper left right current res =
     (if left = 0 \<and> right = 0 then res @ [current]
      else let res1 = (if left > 0 then parens_helper (left - 1) right (current @ ''('') res else res) in
        if left < right then parens_helper left (right - 1) (current @ '')'') res1 else res1)"
  by pat_completeness auto
termination by (relation "measure (\<lambda>(l, r, c, res). l + r)") auto

declare parens_helper.simps [simp del]

definition generateParentheses :: "nat \<Rightarrow> string list" where
  "generateParentheses n = parens_helper n n [] []"

definition completes :: "nat \<Rightarrow> nat \<Rightarrow> string \<Rightarrow> bool" where
  \<comment> \<open>\<open>left\<close> opening and \<open>right\<close> closing parentheses that complete \<open>right - left\<close> open ones\<close>
  "completes left right w \<longleftrightarrow> set w \<subseteq> {CHR ''('', CHR '')''} \<and> count_list w (CHR ''('') = left \<and>
     count_list w (CHR '')'') = right \<and> valid_loop w (replicate (right - left) (CHR ''(''))"

lemma paren_sets: "CHR ''('' \<in> openers" "CHR '')'' \<notin> openers" "CHR '')'' \<in> closers" "matching (CHR ''('') (CHR '')'')"
  by (simp_all add: openers_def closers_def matching_def)

lemma completes_Nil: "left \<le> right \<Longrightarrow> completes left right [] \<longleftrightarrow> left = 0 \<and> right = 0"
  by (auto simp: completes_def)

lemma completes_open:
  "left \<le> right \<Longrightarrow> completes left right (CHR ''('' # w) \<longleftrightarrow> left > 0 \<and> completes (left - 1) right w"
proof (cases left)
  case (Suc l)
  moreover assume "left \<le> right"
  ultimately have "right - l = Suc (right - left)" by simp
  then show ?thesis using Suc paren_sets by (auto simp: completes_def valid_loop_Cons)
qed (simp add: completes_def)

lemma completes_close:
  "left \<le> right \<Longrightarrow> completes left right (CHR '')'' # w) \<longleftrightarrow> left < right \<and> completes left (right - 1) w"
proof (cases "left < right")
  case True
  then have "right - left = Suc (right - 1 - left)" by simp
  then have "replicate (right - left) (CHR ''('') = CHR ''('' # replicate (right - 1 - left) (CHR ''('')"
    by (simp only: replicate_Suc)
  then show ?thesis using True paren_sets by (auto simp: completes_def valid_loop_Cons)
next
  case False
  moreover assume "left \<le> right"
  ultimately have "right - left = 0" by simp
  then show ?thesis using False paren_sets by (simp add: completes_def valid_loop_Cons)
qed

lemma completes_other: "completes left right (a # w) \<Longrightarrow> a = CHR ''('' \<or> a = CHR '')''"
  by (auto simp: completes_def)

lemma completes_split:
  assumes "left \<le> right"
  shows "{w. completes left right w} = (if left = 0 \<and> right = 0 then {[]} else
     (#) (CHR ''('') ` {w. left > 0 \<and> completes (left - 1) right w} \<union>
     (#) (CHR '')'') ` {w. left < right \<and> completes left (right - 1) w})"
    (is "?L = ?R")
proof (rule set_eqI)
  fix w
  show "w \<in> ?L \<longleftrightarrow> w \<in> ?R"
  proof (cases w)
    case Nil
    with assms show ?thesis by (auto simp: completes_Nil)
  next
    case (Cons a v)
    consider "a = CHR ''(''" | "a = CHR '')''" | "a \<noteq> CHR ''(''" "a \<noteq> CHR '')''" by blast
    then show ?thesis
      using Cons assms completes_other [of left right a v] by cases (auto simp: completes_open completes_close)
  qed
qed

lemma parens_set:
  "left \<le> right \<Longrightarrow> set (parens_helper left right current res) = set res \<union> (\<lambda>w. current @ w) ` {w. completes left right w}"
proof (induction left right current res rule: parens_helper.induct)
  case (1 left right current res)
  note step = completes_split [OF "1.prems"]
  show ?case
  proof (cases "left = 0 \<and> right = 0")
    case True
    with step show ?thesis by (subst parens_helper.simps) simp
  next
    case False
    define res1 where "res1 = (if left > 0 then parens_helper (left - 1) right (current @ ''('') res else res)"
    have r1: "set res1 = set res \<union> (\<lambda>w. current @ w) ` (#) (CHR ''('') ` {w. left > 0 \<and> completes (left - 1) right w}"
      using "1.IH"(1) [OF False] "1.prems" by (auto simp: res1_def image_image)
    have "set (parens_helper left right current res) =
        set res1 \<union> (\<lambda>w. current @ w) ` (#) (CHR '')'') ` {w. left < right \<and> completes left (right - 1) w}"
      using "1.IH"(2) [OF False res1_def] False
      by (subst parens_helper.simps) (auto simp: res1_def [symmetric] Let_def image_image)
    with r1 step False show ?thesis by (simp add: image_Un Un_assoc)
  qed
qed

text \<open>The list has exactly the balanced strings of \<open>n\<close> pairs of parentheses.\<close>

lemma generateParentheses_set:
  "set (generateParentheses n) =
     {w. balanced w \<and> set w \<subseteq> {CHR ''('', CHR '')''} \<and> count_list w (CHR ''('') = n \<and> count_list w (CHR '')'') = n}"
  by (auto simp: generateParentheses_def parens_set completes_def valid_loop_balanced)

end
