(* ===== verification/LcCompact.thy ===== *)
theory LcCompact
  imports Prelude
begin

text \<open>
  In-place filters of \<^verbatim>\<open>hobbies/leetcode/algorithms\<close>: \<^verbatim>\<open>solution_26\<close>, \<^verbatim>\<open>solution_80\<close>,
  \<^verbatim>\<open>solution_27\<close> and \<^verbatim>\<open>solution_283\<close>. A loop takes the vector and its indices and returns the
  vector as the loop leaves it; \<open>None\<close> is an access outside the vector. The loops that write the
  elements they keep to the front share the locale \<open>compaction\<close>.
\<close>

section \<open>Loops that compact a vector\<close>

function unique_loop :: "int list \<Rightarrow> int \<Rightarrow> int \<Rightarrow> (int list \<times> int) option" where
  \<comment> \<open>\<^verbatim>\<open>solution_26\<close>, the loop of \<^verbatim>\<open>removeDuplicates2\<close>\<close>
  "unique_loop nums i pos =
     (if i < size_of nums then
        case (at nums i, if i = 0 then Some 0 else at nums (pos - 1)) of
          (Some x, Some p) \<Rightarrow>
            if i = 0 \<or> x \<noteq> p then
              (case put_at nums pos x of None \<Rightarrow> None
               | Some nums' \<Rightarrow> unique_loop nums' (i + 1) (pos + 1))
            else unique_loop nums (i + 1) pos
        | _ \<Rightarrow> None
      else Some (nums, pos))"
  by pat_completeness auto
termination by (relation "measure (\<lambda>(nums, i, pos). nat (size_of nums - i))") (auto dest: put_at_length)

definition removeDuplicates2 :: "int list \<Rightarrow> (int list \<times> int) option" where
  "removeDuplicates2 nums = unique_loop nums 0 0"

function twice_loop :: "int list \<Rightarrow> int \<Rightarrow> int \<Rightarrow> (int list \<times> int) option" where
  \<comment> \<open>\<^verbatim>\<open>solution_80\<close>, the loop of \<^verbatim>\<open>removeDuplicates3\<close>: \<^verbatim>\<open>k\<close> is the position of the range-for,
     \<^verbatim>\<open>num\<close> a copy of the element there\<close>
  "twice_loop nums k i =
     (if k < size_of nums then
        case (at nums k, if i < 2 then Some 0 else at nums (i - 2)) of
          (Some num, Some p) \<Rightarrow>
            if i < 2 \<or> num \<noteq> p then
              (case put_at nums i num of None \<Rightarrow> None
               | Some nums' \<Rightarrow> twice_loop nums' (k + 1) (i + 1))
            else twice_loop nums (k + 1) i
        | _ \<Rightarrow> None
      else Some (nums, i))"
  by pat_completeness auto
termination by (relation "measure (\<lambda>(nums, k, i). nat (size_of nums - k))") (auto dest: put_at_length)

definition remove3_duplicates3 :: "int list \<Rightarrow> (int list \<times> int) option" where
  "remove3_duplicates3 nums = twice_loop nums 0 0"

function nonzero_loop :: "int list \<Rightarrow> int \<Rightarrow> int \<Rightarrow> (int list \<times> int) option" where
  \<comment> \<open>\<^verbatim>\<open>solution_283\<close>, the first loop of \<^verbatim>\<open>moveZeroes\<close>\<close>
  "nonzero_loop nums i pos =
     (if i < size_of nums then
        case at nums i of None \<Rightarrow> None | Some x \<Rightarrow>
          if x \<noteq> 0 then
            (case put_at nums pos x of None \<Rightarrow> None
             | Some nums' \<Rightarrow> nonzero_loop nums' (i + 1) (pos + 1))
          else nonzero_loop nums (i + 1) pos
      else Some (nums, pos))"
  by pat_completeness auto
termination by (relation "measure (\<lambda>(nums, i, pos). nat (size_of nums - i))") (auto dest: put_at_length)

function zero_loop :: "int list \<Rightarrow> int \<Rightarrow> int list option" where
  "zero_loop nums pos =
     (if pos < size_of nums then
        case put_at nums pos 0 of None \<Rightarrow> None
        | Some nums' \<Rightarrow> zero_loop nums' (pos + 1)
      else Some nums)"
  by pat_completeness auto
termination by (relation "measure (\<lambda>(nums, pos). nat (size_of nums - pos))") (auto dest: put_at_length)

definition moveZeroes :: "int list \<Rightarrow> int list option" where
  "moveZeroes nums = (case nonzero_loop nums 0 0 of None \<Rightarrow> None | Some (nums', pos) \<Rightarrow> zero_loop nums' pos)"

definition moveZeroes2 :: "int list \<Rightarrow> int list" where
  \<comment> \<open>\<^verbatim>\<open>find_if\<close>, \<^verbatim>\<open>copy_if\<close> to the place found, \<^verbatim>\<open>fill\<close>\<close>
  "moveZeroes2 nums =
     (let front = takeWhile (\<lambda>x. x \<noteq> 0) nums; copied = filter (\<lambda>x. x \<noteq> 0) (dropWhile (\<lambda>x. x \<noteq> 0) nums)
      in front @ copied @ replicate (length nums - length front - length copied) 0)"

declare unique_loop.simps [simp del] twice_loop.simps [simp del] nonzero_loop.simps [simp del] zero_loop.simps [simp del]

definition keep_all :: "('a list \<Rightarrow> 'a \<Rightarrow> bool) \<Rightarrow> 'a list \<Rightarrow> 'a list \<Rightarrow> 'a list" where
  \<comment> \<open>which elements a compaction keeps, given those it has kept\<close>
  "keep_all keep kept xs = fold (\<lambda>x ks. if keep ks x then ks @ [x] else ks) xs kept"

lemma keep_all_simps [simp]:
  "keep_all keep kept [] = kept"
  "keep_all keep kept (x # xs) = keep_all keep (if keep kept x then kept @ [x] else kept) xs"
  by (simp_all add: keep_all_def)

locale compaction =
  fixes loop :: "int list \<Rightarrow> int \<Rightarrow> int \<Rightarrow> (int list \<times> int) option"
    and keep :: "int list \<Rightarrow> int \<Rightarrow> bool"
  assumes finish: "loop nums (size_of nums) p = Some (nums, p)"
    and step: "i < length nums \<Longrightarrow> pos \<le> i \<Longrightarrow> i = 0 \<or> 0 < pos \<or> (\<exists>x. \<not> keep [] x) \<Longrightarrow>
      loop nums (int i) (int pos) =
        (if keep (take pos nums) (nums ! i) then loop (nums[pos := nums ! i]) (int i + 1) (int pos + 1)
         else loop nums (int i + 1) (int pos))"
begin

lemma write_front: "(ds @ js @ r # rs)[length ds := r] = (ds @ [r]) @ tl (js @ [r]) @ rs"
  by (cases js) simp_all

lemma loop_keeps:
  assumes "ds @ js = [] \<or> ds \<noteq> [] \<or> (\<exists>x. \<not> keep [] x)"
  shows "\<exists>junk. loop (ds @ js @ rs) (int (length (ds @ js))) (int (length ds)) =
    Some (keep_all keep ds rs @ junk, int (length (keep_all keep ds rs))) \<and>
    length (keep_all keep ds rs @ junk) = length (ds @ js @ rs)"
  using assms
proof (induction rs arbitrary: ds js)
  case Nil
  then show ?case using finish [of "ds @ js" "int (length ds)"] by auto
next
  case (Cons r rs)
  let ?nums = "ds @ js @ r # rs"
  have s: "loop ?nums (int (length (ds @ js))) (int (length ds)) =
    (if keep ds r then loop (?nums[length ds := r]) (int (length (ds @ js)) + 1) (int (length ds) + 1)
     else loop ?nums (int (length (ds @ js)) + 1) (int (length ds)))"
    using step [of "length (ds @ js)" ?nums "length ds"] Cons.prems by (auto simp: nth_append)
  show ?case
  proof (cases "keep ds r")
    case True
    with s have "loop ?nums (int (length (ds @ js))) (int (length ds)) =
        loop ((ds @ [r]) @ tl (js @ [r]) @ rs) (int (length ((ds @ [r]) @ tl (js @ [r])))) (int (length (ds @ [r])))"
      by (simp only: write_front) (simp add: add_ac)
    with Cons.IH [of "ds @ [r]" "tl (js @ [r])"] True show ?thesis by auto
  next
    case False
    with s have "loop ?nums (int (length (ds @ js))) (int (length ds)) =
        loop (ds @ (js @ [r]) @ rs) (int (length (ds @ js @ [r]))) (int (length ds))"
      by (simp add: add_ac)
    moreover have "ds \<noteq> [] \<or> (\<exists>x. \<not> keep [] x)" using False by (cases ds) auto
    ultimately show ?thesis using Cons.IH [of ds "js @ [r]"] False by auto
  qed
qed

lemma compacts:
  "\<exists>junk. loop nums 0 0 = Some (keep_all keep [] nums @ junk, int (length (keep_all keep [] nums))) \<and>
     length (keep_all keep [] nums @ junk) = length nums"
  using loop_keeps [of "[]" "[]" nums] by simp

end

definition keep_new :: "int list \<Rightarrow> int \<Rightarrow> bool" where
  "keep_new ks x \<longleftrightarrow> ks = [] \<or> x \<noteq> last ks"

definition keep_two :: "int list \<Rightarrow> int \<Rightarrow> bool" where
  "keep_two ks x \<longleftrightarrow> length ks < 2 \<or> x \<noteq> ks ! (length ks - 2)"

lemma nat_pred: "0 < n \<Longrightarrow> nat (int n - 1) = n - 1" "2 \<le> n \<Longrightarrow> nat (int n - 2) = n - 2"
  by (simp_all add: nat_diff_distrib)

interpretation unique: compaction unique_loop keep_new
proof
  fix nums :: "int list" and p
  show "unique_loop nums (size_of nums) p = Some (nums, p)" by (simp add: unique_loop.simps)
next
  fix i pos and nums :: "int list"
  assume a: "i < length nums" "pos \<le> i" "i = 0 \<or> 0 < pos \<or> (\<exists>x. \<not> keep_new [] x)"
  then have pos: "i = 0 \<or> 0 < pos" by (simp add: keep_new_def)
  have "0 < pos \<Longrightarrow> at nums (int pos - 1) = Some (nums ! (pos - 1))" using a by (simp add: at_def nat_pred)
  moreover have "0 < pos \<Longrightarrow> last (take pos nums) = nums ! (pos - 1)" using a by (subst last_conv_nth) auto
  ultimately show "unique_loop nums (int i) (int pos) =
      (if keep_new (take pos nums) (nums ! i) then unique_loop (nums[pos := nums ! i]) (int i + 1) (int pos + 1)
       else unique_loop nums (int i + 1) (int pos))"
    using a pos by (subst unique_loop.simps) (auto simp: keep_new_def)
qed

interpretation twice: compaction twice_loop keep_two
proof
  fix nums :: "int list" and p
  show "twice_loop nums (size_of nums) p = Some (nums, p)" by (simp add: twice_loop.simps)
next
  fix i pos and nums :: "int list"
  assume a: "i < length nums" "pos \<le> i"
  have "2 \<le> pos \<Longrightarrow> at nums (int pos - 2) = Some (nums ! (pos - 2))" using a by (simp add: at_def nat_pred)
  moreover have "length (take pos nums) = pos" "\<not> pos < 2 \<Longrightarrow> take pos nums ! (pos - 2) = nums ! (pos - 2)" using a by auto
  ultimately show "twice_loop nums (int i) (int pos) =
      (if keep_two (take pos nums) (nums ! i) then twice_loop (nums[pos := nums ! i]) (int i + 1) (int pos + 1)
       else twice_loop nums (int i + 1) (int pos))"
    using a by (cases "pos < 2"; subst twice_loop.simps) (simp_all add: keep_two_def)
qed

interpretation nonzero: compaction nonzero_loop "\<lambda>ks x. x \<noteq> 0"
proof
  fix nums :: "int list" and p
  show "nonzero_loop nums (size_of nums) p = Some (nums, p)" by (simp add: nonzero_loop.simps)
next
  fix i pos and nums :: "int list"
  assume "i < length nums" "pos \<le> i"
  then show "nonzero_loop nums (int i) (int pos) =
      (if nums ! i \<noteq> 0 then nonzero_loop (nums[pos := nums ! i]) (int i + 1) (int pos + 1)
       else nonzero_loop nums (int i + 1) (int pos))"
    by (subst nonzero_loop.simps) simp
qed

lemma keep_new_remdups: "keep_all keep_new ks xs = (if ks = [] then remdups_adj xs else butlast ks @ remdups_adj (last ks # xs))"
proof (induction xs arbitrary: ks)
  case (Cons x xs)
  then show ?case by (cases "ks = []") (auto simp: keep_new_def butlast_append append_assoc [symmetric] simp del: append_assoc)
qed auto

lemma keep_filter: "keep_all (\<lambda>ks x. P x) ks xs = ks @ filter P xs"
  by (induction xs arbitrary: ks) auto

lemma removeDuplicates2_spec:
  "\<exists>junk. removeDuplicates2 nums = Some (remdups_adj nums @ junk, size_of (remdups_adj nums))"
  using unique.compacts [of nums] by (auto simp: removeDuplicates2_def keep_new_remdups)

lemma zero_loop_fills: "zero_loop (xs @ ys) (size_of xs) = Some (xs @ replicate (length ys) 0)"
proof (induction ys arbitrary: xs)
  case (Cons y ys)
  have "zero_loop (xs @ y # ys) (size_of xs) = zero_loop ((xs @ [0]) @ ys) (size_of (xs @ [0]))"
    by (subst zero_loop.simps) (simp add: add_ac)
  with Cons.IH [of "xs @ [0]"] show ?case by simp
qed (simp add: zero_loop.simps)

lemma filter_count: "length (filter (\<lambda>x. x \<noteq> 0) nums) + count_list nums 0 = length nums"
  by (induction nums) auto

lemma moveZeroes_spec:
  "moveZeroes nums = Some (filter (\<lambda>x. x \<noteq> 0) nums @ replicate (count_list nums 0) 0)"
proof -
  obtain junk where j: "nonzero_loop nums 0 0 = Some (filter (\<lambda>x. x \<noteq> 0) nums @ junk, size_of (filter (\<lambda>x. x \<noteq> 0) nums))"
    "length (filter (\<lambda>x. x \<noteq> 0) nums @ junk) = length nums"
    using nonzero.compacts [of nums] by (auto simp: keep_filter)
  with filter_count [of nums] show ?thesis by (simp add: moveZeroes_def zero_loop_fills)
qed

lemma moveZeroes2_eq: "Some (moveZeroes2 nums) = moveZeroes nums"
proof -
  let ?A = "takeWhile (\<lambda>x. x \<noteq> 0) nums" and ?B = "filter (\<lambda>x. x \<noteq> 0) (dropWhile (\<lambda>x. x \<noteq> 0) nums)"
  have AB: "?A @ ?B = filter (\<lambda>x. x \<noteq> 0) nums"
    by (induction nums) auto
  then have "length ?A + length ?B + count_list nums 0 = length nums"
    using filter_count [of nums] by (metis length_append)
  then have "length nums - length ?A - length ?B = count_list nums 0" by linarith
  with AB show ?thesis unfolding moveZeroes_spec moveZeroes2_def Let_def
    by (metis append_assoc)
qed

text \<open>At most two copies of each value of a sorted vector.\<close>

lemma keep_two_count:
  assumes "sorted ks" "\<forall>y \<in> set ks. y \<le> x"
  shows "keep_two ks x \<longleftrightarrow> count_list ks x < 2"
proof (cases "rev ks")
  case (Cons a r)
  then have ks: "ks = rev r @ [a]" by (simp add: rev_swap)
  show ?thesis
  proof (cases r)
    case (Cons b r')
    then have "ks = rev r' @ [b, a]" using ks by simp
    moreover have "b \<noteq> x \<Longrightarrow> x \<notin> set (rev r' @ [b])" using assms calculation by (fastforce simp: sorted_append)
    ultimately show ?thesis
      using assms by (auto simp: keep_two_def nth_append sorted_append count_list_0_iff)
  qed (simp add: ks keep_two_def)
qed (simp add: keep_two_def)

lemma keep_two_all:
  assumes "sorted (ks @ xs)" "\<forall>y. count_list ks y \<le> 2"
  shows "sorted (keep_all keep_two ks xs) \<and> count_list (keep_all keep_two ks xs) y = min 2 (count_list ks y + count_list xs y)"
  using assms
proof (induction xs arbitrary: ks)
  case (Cons x xs)
  have k: "keep_two ks x \<longleftrightarrow> count_list ks x < 2"
    using Cons.prems by (intro keep_two_count) (auto simp: sorted_append)
  show ?case
  proof (cases "keep_two ks x")
    case True
    have "sorted ((ks @ [x]) @ xs)" "\<forall>y. count_list (ks @ [x]) y \<le> 2"
      using Cons.prems True k by auto
    from Cons.IH [OF this] True show ?thesis by auto
  next
    case False
    have "count_list ks x = 2" using False k Cons.prems(2) by (metis le_antisym not_less)
    moreover have "sorted (ks @ xs)" using Cons.prems(1) by (auto simp: sorted_append)
    ultimately show ?thesis using Cons.IH [of ks] Cons.prems(2) False by auto
  qed
qed (auto simp: min_def intro: le_antisym)

lemma remove3_duplicates3_spec:
  assumes "sorted nums"
  shows "\<exists>kept junk. remove3_duplicates3 nums = Some (kept @ junk, size_of kept) \<and> sorted kept \<and>
    (\<forall>y. count_list kept y = min 2 (count_list nums y))"
proof -
  have "sorted (keep_all keep_two [] nums) \<and> (\<forall>y. count_list (keep_all keep_two [] nums) y = min 2 (count_list nums y))"
    using keep_two_all [of "[]" nums] assms by auto
  then show ?thesis using twice.compacts [of nums] unfolding remove3_duplicates3_def by blast
qed

section \<open>solution 26, moving the rest of the vector\<close>

function shift_loop :: "int list \<Rightarrow> int \<Rightarrow> int \<Rightarrow> int list option" where
  "shift_loop nums j end_ix =
     (if j < end_ix then
        case at nums j of None \<Rightarrow> None | Some x \<Rightarrow>
          (case put_at nums (j - 1) x of None \<Rightarrow> None | Some nums' \<Rightarrow> shift_loop nums' (j + 1) end_ix)
      else Some nums)"
  by pat_completeness auto
termination by (relation "measure (\<lambda>(nums, j, e). nat (e - j))") auto

function dedup_loop :: "int list \<Rightarrow> int \<Rightarrow> int \<Rightarrow> int option \<Rightarrow> (int list \<times> int) option" where
  \<comment> \<open>\<open>lst\<close> is \<^verbatim>\<open>last\<close>, \<open>None\<close> before it is assigned\<close>
  "dedup_loop nums i end_ix lst =
     (if i < end_ix then
        case at nums i of None \<Rightarrow> None | Some x \<Rightarrow>
          if i = 0 then dedup_loop nums (i + 1) end_ix (Some x)
          else (case lst of None \<Rightarrow> None | Some l \<Rightarrow>
            if l \<noteq> x then dedup_loop nums (i + 1) end_ix (Some x)
            else (case shift_loop nums (i + 1) end_ix of None \<Rightarrow> None
              | Some nums' \<Rightarrow> dedup_loop nums' i (end_ix - 1) lst))
      else Some (nums, end_ix))"
  by pat_completeness auto
termination by (relation "measure (\<lambda>(nums, i, e, l). nat (e - i))") auto

definition removeDuplicates :: "int list \<Rightarrow> (int list \<times> int) option" where
  "removeDuplicates nums = dedup_loop nums 0 (size_of nums) None"

declare shift_loop.simps [simp del] dedup_loop.simps [simp del]

lemma shift_loop_shifts:
  "shift_loop (ds @ x # rs @ junk) (size_of ds + 1) (size_of ds + 1 + size_of rs) = Some (ds @ rs @ last (x # rs) # junk)"
proof (induction rs arbitrary: ds x)
  case Nil
  then show ?case by (simp add: shift_loop.simps)
next
  case (Cons r rs)
  have "at (ds @ x # r # rs @ junk) (size_of ds + 1) = Some r" by (auto simp: at_def nth_append nat_add_distrib)
  moreover have "put_at (ds @ x # r # rs @ junk) (size_of ds + 1 - 1) r = Some ((ds @ [r]) @ r # rs @ junk)"
    by (simp add: put_at_def)
  ultimately have "shift_loop (ds @ x # (r # rs) @ junk) (size_of ds + 1) (size_of ds + 1 + size_of (r # rs)) =
      shift_loop ((ds @ [r]) @ r # rs @ junk) (size_of (ds @ [r]) + 1) (size_of (ds @ [r]) + 1 + size_of rs)"
    by (subst shift_loop.simps) (simp add: algebra_simps)
  with Cons.IH [of "ds @ [r]" r] show ?case by simp
qed

lemma dedup_loop_spec:
  assumes "ds \<noteq> []"
  shows "\<exists>junk'. dedup_loop (ds @ rs @ junk) (size_of ds) (size_of ds + size_of rs) (Some (last ds)) =
    Some ((butlast ds @ remdups_adj (last ds # rs)) @ junk', size_of (butlast ds @ remdups_adj (last ds # rs)))"
  using assms
proof (induction rs arbitrary: ds junk)
  case Nil
  then show ?case by (simp add: dedup_loop.simps)
next
  case (Cons r rs)
  have at: "at (ds @ (r # rs) @ junk) (size_of ds) = Some r" by (simp add: at_def)
  show ?case
  proof (cases "last ds = r")
    case True
    have "dedup_loop (ds @ (r # rs) @ junk) (size_of ds) (size_of ds + size_of (r # rs)) (Some (last ds)) =
        dedup_loop (ds @ rs @ last (r # rs) # junk) (size_of ds) (size_of ds + size_of rs) (Some (last ds))"
      using True at Cons.prems shift_loop_shifts [of ds r rs junk]
      by (subst dedup_loop.simps) (simp add: algebra_simps)
    with Cons.IH [OF Cons.prems, of "last (r # rs) # junk"] True show ?thesis by simp
  next
    case False
    have "dedup_loop (ds @ (r # rs) @ junk) (size_of ds) (size_of ds + size_of (r # rs)) (Some (last ds)) =
        dedup_loop ((ds @ [r]) @ rs @ junk) (size_of (ds @ [r])) (size_of (ds @ [r]) + size_of rs) (Some (last (ds @ [r])))"
      using False at Cons.prems by (subst dedup_loop.simps) (simp add: algebra_simps)
    moreover have "1 + int (length ds - Suc 0) = size_of ds" using Cons.prems by (cases ds) auto
    ultimately show ?thesis using Cons.IH [of "ds @ [r]" junk] False Cons.prems
      by (auto simp: append_assoc [symmetric] simp del: append_assoc)
  qed
qed

text \<open>Both versions of \<^verbatim>\<open>solution_26\<close> agree.\<close>

lemma removeDuplicates_spec:
  "\<exists>junk. removeDuplicates nums = Some (remdups_adj nums @ junk, size_of (remdups_adj nums))"
proof (cases nums)
  case Nil
  then show ?thesis by (simp add: removeDuplicates_def dedup_loop.simps)
next
  case (Cons x xs)
  have "removeDuplicates nums = dedup_loop ([x] @ xs @ []) (size_of [x]) (size_of [x] + size_of xs) (Some (last [x]))"
    using Cons by (simp add: removeDuplicates_def dedup_loop.simps [of "x # xs" 0])
  with dedup_loop_spec [of "[x]" xs "[]"] Cons show ?thesis by simp
qed

section \<open>solution 27\<close>

function remove_loop :: "int list \<Rightarrow> int \<Rightarrow> int \<Rightarrow> int \<Rightarrow> (int list \<times> int) option" where
  "remove_loop nums val i lst =
     (if i \<le> lst then
        case (at nums i, at nums lst) of
          (Some a, Some b) \<Rightarrow>
            if a = val then
              (case put_at nums i b of None \<Rightarrow> None | Some nums1 \<Rightarrow>
                case put_at nums1 lst a of None \<Rightarrow> None | Some nums2 \<Rightarrow> remove_loop nums2 val i (lst - 1))
            else remove_loop nums val (i + 1) lst
        | _ \<Rightarrow> None
      else Some (nums, lst + 1))"
  by pat_completeness auto
termination by (relation "measure (\<lambda>(nums, v, i, l). nat (l - i + 1))") auto

definition removeElement :: "int list \<Rightarrow> int \<Rightarrow> (int list \<times> int) option" where
  "removeElement nums val = (if nums = [] then Some (nums, 0) else remove_loop nums val 0 (size_of nums - 1))"

declare remove_loop.simps [simp del]

lemma remove_loop_spec:
  assumes "val \<notin> set ds"
  shows "\<exists>kept junk. remove_loop (ds @ ms @ junk0) val (size_of ds) (size_of ds + size_of ms - 1) = Some (kept @ junk, size_of kept) \<and>
    mset kept = mset (ds @ filter (\<lambda>x. x \<noteq> val) ms) \<and> mset (kept @ junk) = mset (ds @ ms @ junk0)"
  using assms
proof (induction "length ms" arbitrary: ds ms junk0)
  case 0
  then show ?case by (intro exI [of _ ds] exI [of _ junk0]) (simp add: remove_loop.simps)
next
  case (Suc n)
  then obtain a ms' where ms: "ms = a # ms'" by (cases ms) auto
  have at: "at (ds @ ms @ junk0) (size_of ds) = Some a" by (simp add: ms at_def)
  show ?case
  proof (cases "a = val")
    case False
    have "at (ds @ ms @ junk0) (size_of ds + size_of ms - 1) \<noteq> None" by (simp add: ms at_def)
    then have "remove_loop (ds @ ms @ junk0) val (size_of ds) (size_of ds + size_of ms - 1) =
        remove_loop ((ds @ [a]) @ ms' @ junk0) val (size_of (ds @ [a])) (size_of (ds @ [a]) + size_of ms' - 1)"
      using False at by (subst remove_loop.simps) (auto simp: ms algebra_simps)
    with Suc.hyps(1) [of ms' "ds @ [a]" junk0] Suc.hyps(2) Suc.prems False ms show ?thesis by auto
  next
    case True
    show ?thesis
    proof (cases "ms' = []")
      case last: True
      have "remove_loop (ds @ ms @ junk0) val (size_of ds) (size_of ds + size_of ms - 1) =
          remove_loop (ds @ [] @ a # junk0) val (size_of ds) (size_of ds + size_of ([] :: int list) - 1)"
        using True at last by (subst remove_loop.simps) (simp add: ms put_at_def)
      with Suc.hyps(1) [of "[]" ds "a # junk0"] Suc.hyps(2) Suc.prems True ms last show ?thesis by auto
    next
      case more: False
      then obtain ms'' b where ms': "ms' = ms'' @ [b]" by (metis rev_exhaust)
      have atb: "at (ds @ ms @ junk0) (size_of ds + size_of ms - 1) = Some b"
        by (simp add: ms ms' at_def nth_append nat_add_distrib)
      have p1: "put_at (ds @ ms @ junk0) (size_of ds) b = Some (ds @ b # ms'' @ b # junk0)"
        by (simp add: ms ms' put_at_def)
      have p2: "put_at (ds @ b # ms'' @ b # junk0) (size_of ds + size_of ms - 1) a = Some (ds @ (b # ms'') @ a # junk0)"
        by (simp add: ms ms' put_at_def list_update_append nat_add_distrib)
      have eq: "remove_loop (ds @ ms @ junk0) val (size_of ds) (size_of ds + size_of ms - 1) =
          remove_loop (ds @ (b # ms'') @ a # junk0) val (size_of ds) (size_of ds + size_of (b # ms'') - 1)"
        using True at atb p1 p2 by (subst remove_loop.simps) (simp add: ms ms' algebra_simps)
      have ms_eq: "mset (ds @ filter (\<lambda>x. x \<noteq> val) ms) = mset (ds @ filter (\<lambda>x. x \<noteq> val) (b # ms''))"
        "mset (ds @ ms @ junk0) = mset (ds @ (b # ms'') @ a # junk0)"
        using True by (simp_all add: ms ms')
      show ?thesis
        unfolding eq ms_eq using Suc.hyps(2) ms ms' by (intro Suc.hyps(1) Suc.prems) simp
    qed
  qed
qed

text \<open>The elements other than \<open>val\<close>, in some order, at the front; nothing is lost.\<close>

lemma removeElement_spec:
  "\<exists>kept junk. removeElement nums val = Some (kept @ junk, size_of kept) \<and>
     mset kept = mset (filter (\<lambda>x. x \<noteq> val) nums) \<and> mset (kept @ junk) = mset nums"
  using remove_loop_spec [of val "[]" nums "[]"] by (cases "nums = []") (auto simp: removeElement_def)

section \<open>solution 80, run by run\<close>

function run_end :: "int list \<Rightarrow> int \<Rightarrow> int option" where
  \<comment> \<open>the inner loop of \<^verbatim>\<open>removeDuplicates\<close>\<close>
  "run_end nums i =
     (if i < size_of nums - 1 then
        case (at nums (i + 1), at nums i) of
          (Some b, Some a) \<Rightarrow> if b = a then run_end nums (i + 1) else Some i
        | _ \<Rightarrow> None
      else Some i)"
  by pat_completeness auto
termination by (relation "measure (\<lambda>(nums, i). nat (size_of nums - i))") auto

function runs_loop :: "nat \<Rightarrow> int list \<Rightarrow> int \<Rightarrow> int \<Rightarrow> (int list \<times> int) option" where
  \<comment> \<open>the outer loop; its rounds are counted down from the size of the vector\<close>
  "runs_loop b nums i pos =
     (if i < size_of nums then
        if b = 0 then None
        else case at nums i of None \<Rightarrow> None | Some x \<Rightarrow>
          case put_at nums pos x of None \<Rightarrow> None | Some nums1 \<Rightarrow>
            case run_end nums1 i of None \<Rightarrow> None | Some i' \<Rightarrow>
              if i' \<noteq> i then
                case at nums1 i of None \<Rightarrow> None | Some y \<Rightarrow>
                  case put_at nums1 (pos + 1) y of None \<Rightarrow> None | Some nums2 \<Rightarrow>
                    runs_loop (b - 1) nums2 (i' + 1) (pos + 2)
              else runs_loop (b - 1) nums1 (i' + 1) (pos + 1)
      else Some (nums, pos))"
  by pat_completeness auto
termination by (relation "measure (\<lambda>(b, nums, i, pos). b)") auto

definition remove3_duplicates :: "int list \<Rightarrow> (int list \<times> int) option" where
  "remove3_duplicates nums = runs_loop (length nums) nums 0 0"

function count_loop :: "int list \<Rightarrow> int \<Rightarrow> int \<Rightarrow> (int list \<times> int) option" where
  "count_loop nums i cnt =
     (if i < size_of nums then
        case (at nums i, at nums (i - 2 - cnt)) of
          (Some x, Some p) \<Rightarrow>
            if x \<noteq> p then count_loop nums (i + 1) (cnt + 1)
            else (case put_at nums (i - cnt) x of None \<Rightarrow> None | Some nums' \<Rightarrow> count_loop nums' (i + 1) cnt)
        | _ \<Rightarrow> None
      else Some (nums, size_of nums - cnt))"
  by pat_completeness auto
termination by (relation "measure (\<lambda>(nums, i, c). nat (size_of nums - i))") (auto dest: put_at_length)

definition remove3_duplicates2 :: "int list \<Rightarrow> (int list \<times> int) option" where
  "remove3_duplicates2 nums = count_loop nums 2 0"

declare run_end.simps [simp del] runs_loop.simps [simp del] count_loop.simps [simp del]

lemma run_end_replicate:
  assumes "rs = [] \<or> hd rs \<noteq> x"
  shows "run_end (as @ replicate (Suc m) x @ rs) (size_of as) = Some (size_of as + int m)"
proof (induction m arbitrary: as)
  case 0
  then show ?case
    using assms by (cases rs) (auto simp: run_end.simps [of _ "size_of as"] at_def nth_append nat_add_distrib)
next
  case (Suc m)
  have "run_end (as @ replicate (Suc (Suc m)) x @ rs) (size_of as) =
      run_end ((as @ [x]) @ replicate (Suc m) x @ rs) (size_of (as @ [x]))"
    by (subst run_end.simps) (simp add: at_def nth_append nat_add_distrib add_ac)
  with Suc [of "as @ [x]"] show ?case by simp
qed

definition two_of :: "nat \<Rightarrow> int \<Rightarrow> int list" where
  "two_of n x = replicate (min 2 n) x"

lemma runs_step:
  assumes "rs = [] \<or> hd rs \<noteq> x" and "b \<noteq> 0"
  shows "\<exists>js'. runs_loop b (ds @ js @ replicate (Suc m) x @ rs) (size_of (ds @ js)) (size_of ds) =
      runs_loop (b - 1) ((ds @ two_of (Suc m) x) @ js' @ rs) (size_of ((ds @ two_of (Suc m) x) @ js'))
        (size_of (ds @ two_of (Suc m) x)) \<and>
    length js' + length (two_of (Suc m) x) = length js + Suc m"
proof -
  let ?nums = "ds @ js @ replicate (Suc m) x @ rs"
  define as where "as = tl (js @ [x])"
  have at: "at ?nums (size_of (ds @ js)) = Some x" using at_mid [of "ds @ js" x "replicate m x @ rs"] by simp
  have put: "put_at ?nums (size_of ds) x = Some ((ds @ [x]) @ as @ replicate m x @ rs)"
    by (cases js) (simp_all add: put_at_def as_def)
  have len: "length as = length js" by (simp add: as_def)
  have last: "(ds @ [x]) @ as = butlast ((ds @ [x]) @ as) @ [x]"
    by (cases js) (simp_all add: as_def butlast_append)
  have blen: "length (butlast ((ds @ [x]) @ as)) = length (ds @ js)" by (simp add: len)
  have nums1: "(ds @ [x]) @ as @ replicate m x @ rs = butlast ((ds @ [x]) @ as) @ replicate (Suc m) x @ rs"
    using last by (metis append_Cons append_Nil append_assoc replicate_Suc)
  have run: "run_end ((ds @ [x]) @ as @ replicate m x @ rs) (size_of (ds @ js)) = Some (size_of (ds @ js) + int m)"
    unfolding nums1 using run_end_replicate [OF assms(1), of "butlast ((ds @ [x]) @ as)" m] blen by simp
  show ?thesis
  proof (cases m)
    case 0
    have "runs_loop b ?nums (size_of (ds @ js)) (size_of ds) =
        runs_loop (b - 1) ((ds @ [x]) @ as @ rs) (size_of (ds @ js) + 1) (size_of ds + 1)"
      using at put run assms(2) 0 by (subst runs_loop.simps) simp
    with 0 len show ?thesis by (intro exI [of _ as]) (simp add: two_of_def add_ac)
  next
    case (Suc k)
    define bs where "bs = tl (as @ replicate m x)"
    have at1: "at ((ds @ [x]) @ as @ replicate m x @ rs) (size_of (ds @ js)) = Some x"
      unfolding nums1 using at_mid [of "butlast ((ds @ [x]) @ as)" x "replicate m x @ rs"] blen by simp
    have put1: "put_at ((ds @ [x]) @ as @ replicate m x @ rs) (size_of ds + 1) x = Some ((ds @ [x, x]) @ bs @ rs)"
      unfolding bs_def using Suc by (cases as) (simp_all add: put_at_def nat_add_distrib list_update_append)
    have blen: "length bs = length js + m - 1" by (simp add: bs_def len)
    have "runs_loop b ?nums (size_of (ds @ js)) (size_of ds) =
        runs_loop (b - 1) ((ds @ [x, x]) @ bs @ rs) (size_of (ds @ js) + int m + 1) (size_of ds + 2)"
      using at put run at1 put1 assms(2) Suc by (subst runs_loop.simps) simp
    with Suc blen show ?thesis by (intro exI [of _ bs]) (simp add: two_of_def add_ac)
  qed
qed

function limit2 :: "int list \<Rightarrow> int list" where
  "limit2 [] = []"
| "limit2 (x # xs) = two_of (Suc (length (takeWhile (\<lambda>y. y = x) xs))) x @ limit2 (dropWhile (\<lambda>y. y = x) xs)"
  by pat_completeness auto
termination by (relation "measure length") (auto simp: le_imp_less_Suc length_dropWhile_le)

lemma count_list_replicate: "count_list (replicate n x) y = (if x = y then n else 0)"
  by (induction n) auto

lemma run_split: "xs = replicate (length (takeWhile (\<lambda>y. y = x) xs)) x @ dropWhile (\<lambda>y. y = x) xs"
  by (induction xs) auto

lemma runs_loop_limit2:
  "length rs \<le> b \<Longrightarrow> \<exists>junk. runs_loop b (ds @ js @ rs) (size_of (ds @ js)) (size_of ds) =
     Some ((ds @ limit2 rs) @ junk, size_of (ds @ limit2 rs))"
proof (induction rs arbitrary: b ds js rule: limit2.induct)
  case 1
  then show ?case by (simp add: runs_loop.simps)
next
  case (2 x xs)
  define m where "m = length (takeWhile (\<lambda>y. y = x) xs)"
  define rs where "rs = dropWhile (\<lambda>y. y = x) xs"
  have xs: "x # xs = replicate (Suc m) x @ rs" using run_split [of xs x] by (simp add: m_def rs_def)
  have rs: "rs = [] \<or> hd rs \<noteq> x" using hd_dropWhile [of "\<lambda>y. y = x" xs] by (auto simp: rs_def)
  have b: "b \<noteq> 0" "length rs \<le> b - 1"
    using "2.prems" length_dropWhile_le [of "\<lambda>y. y = x" xs] by (auto simp: rs_def)
  obtain js' where "runs_loop b (ds @ js @ x # xs) (size_of (ds @ js)) (size_of ds) =
      runs_loop (b - 1) ((ds @ two_of (Suc m) x) @ js' @ rs) (size_of ((ds @ two_of (Suc m) x) @ js'))
        (size_of (ds @ two_of (Suc m) x))"
    unfolding xs using runs_step [OF rs b(1)] by blast
  moreover have "limit2 (x # xs) = two_of (Suc m) x @ limit2 rs" by (simp add: m_def rs_def)
  ultimately show ?case
    using "2.IH" [of "b - 1" "ds @ two_of (Suc m) x" js'] b(2) by (simp add: rs_def)
qed

lemma limit2_count:
  "sorted xs \<Longrightarrow> sorted (limit2 xs) \<and> set (limit2 xs) \<subseteq> set xs \<and> count_list (limit2 xs) y = min 2 (count_list xs y)"
proof (induction xs rule: limit2.induct)
  case (2 x xs)
  define m where "m = length (takeWhile (\<lambda>y. y = x) xs)"
  define rs where "rs = dropWhile (\<lambda>y. y = x) xs"
  have xs: "xs = replicate m x @ rs" using run_split [of xs x] by (simp add: m_def rs_def)
  have s: "sorted rs" "\<forall>z \<in> set rs. x \<le> z" using 2(2) by (auto simp: xs sorted_append)
  have "x \<notin> set rs"
  proof
    assume "x \<in> set rs"
    then obtain z zs where rs: "rs = z # zs" by (cases rs) auto
    then have "z \<noteq> x" using hd_dropWhile [of "\<lambda>y. y = x" xs] by (auto simp: rs_def)
    then show False using s rs \<open>x \<in> set rs\<close> by auto
  qed
  have two: "count_list (two_of n x) y = (if x = y then min 2 n else 0)" "set (two_of n x) \<subseteq> {x}" "sorted (two_of n x)" for n
    by (auto simp: two_of_def count_list_replicate)
  have l: "limit2 (x # xs) = two_of (Suc m) x @ limit2 rs" by (simp add: m_def rs_def)
  have IH: "sorted (limit2 rs)" "set (limit2 rs) \<subseteq> set rs" "count_list (limit2 rs) y = min 2 (count_list rs y)"
    using 2(1) s(1) by (simp_all add: rs_def)
  have c: "count_list (x # xs) y = (if x = y then Suc m else 0) + count_list rs y"
    by (simp add: xs count_list_replicate)
  have sub: "set (limit2 (x # xs)) \<subseteq> set (x # xs)" using two(2) [of "Suc m"] IH(2) unfolding l by (auto simp: xs)
  have "a \<le> z" if "a \<in> set (two_of (Suc m) x)" "z \<in> set (limit2 rs)" for a z
    using that two(2) [of "Suc m"] IH(2) s(2) by blast
  then have "sorted (limit2 (x # xs))" unfolding l using two(3) IH(1) by (simp add: sorted_append)
  moreover have "count_list (limit2 (x # xs)) y = min 2 (count_list (x # xs) y)"
    using \<open>x \<notin> set rs\<close> unfolding l c by (auto simp: two(1) IH(3) count_list_0_iff)
  ultimately show ?case using sub by blast
qed simp

text \<open>On a sorted vector the first and the third version of \<^verbatim>\<open>solution_80\<close> keep the same elements.\<close>

lemma remove3_duplicates_spec:
  assumes "sorted nums"
  shows "\<exists>junk. remove3_duplicates nums = Some (keep_all keep_two [] nums @ junk, size_of (keep_all keep_two [] nums))"
proof -
  have "mset (limit2 nums) = mset (keep_all keep_two [] nums)"
    using limit2_count [OF assms] keep_two_all [of "[]" nums] assms
    by (intro multiset_eqI) (simp add: count_mset)
  then have "limit2 nums = keep_all keep_two [] nums"
    using limit2_count [OF assms] keep_two_all [of "[]" nums] assms by (metis append_Nil count_list.simps(1) le0 properties_for_sort)
  then show ?thesis using runs_loop_limit2 [of nums "length nums" "[]" "[]"] by (simp add: remove3_duplicates_def)
qed

text \<open>
  The second version has the condition of the count the wrong way round: of three different
  elements it keeps two.
\<close>

lemma remove3_duplicates2_drops: "remove3_duplicates2 [1, 2, 3] = Some ([1, 2, 3], 2)"
  by code_simp

text \<open>
  The in-place filters leave at the front of the vector what they should keep, and never
  access it outside: without equal neighbours (\<^verbatim>\<open>solution_26\<close>, both versions), a sorted vector with
  at most two copies of each value (\<^verbatim>\<open>solution_80\<close>, first and third version), the other elements in
  some order (\<^verbatim>\<open>solution_27\<close>), the non-zero elements in order and then zeros (\<^verbatim>\<open>solution_283\<close>,
  both versions).
\<close>

theorem in_place_filters:
  assumes "sorted sor"
  shows "(\<exists>junk. removeDuplicates nums = Some (remdups_adj nums @ junk, size_of (remdups_adj nums))) \<and>
    (\<exists>junk. removeDuplicates2 nums = Some (remdups_adj nums @ junk, size_of (remdups_adj nums))) \<and>
    (\<exists>kept junk junk'. remove3_duplicates sor = Some (kept @ junk, size_of kept) \<and>
       remove3_duplicates3 sor = Some (kept @ junk', size_of kept) \<and> sorted kept \<and>
       (\<forall>y. count_list kept y = min 2 (count_list sor y))) \<and>
    (\<exists>kept junk. removeElement nums val = Some (kept @ junk, size_of kept) \<and>
       mset kept = mset (filter (\<lambda>x. x \<noteq> val) nums)) \<and>
    moveZeroes nums = Some (filter (\<lambda>x. x \<noteq> 0) nums @ replicate (count_list nums 0) 0) \<and>
    Some (moveZeroes2 nums) = moveZeroes nums"
proof -
  let ?kept = "keep_all keep_two [] sor"
  have "sorted ?kept \<and> (\<forall>y. count_list ?kept y = min 2 (count_list sor y))"
    using keep_two_all [of "[]" sor] assms by auto
  moreover have "\<exists>junk'. remove3_duplicates3 sor = Some (?kept @ junk', size_of ?kept)"
    using twice.compacts [of sor] unfolding remove3_duplicates3_def by blast
  ultimately show ?thesis
    using removeDuplicates_spec [of nums] removeDuplicates2_spec [of nums] remove3_duplicates_spec [OF assms]
      removeElement_spec [of nums val] moveZeroes_spec [of nums] moveZeroes2_eq [of nums] by blast
qed

theorem in_place_filters_witness:
  "\<exists>kept junk junk'. remove3_duplicates [1, 1, 1, 2] = Some (kept @ junk, size_of kept) \<and>
     remove3_duplicates3 [1, 1, 1, 2] = Some (kept @ junk', size_of kept) \<and> sorted kept \<and>
     (\<forall>y. count_list kept y = min 2 (count_list [1, 1, 1, 2] y))"
proof -
  have "sorted [1, 1, 1, 2 :: int]" by simp
  from in_place_filters [OF this, of "[]" 0] show ?thesis by blast
qed

end
