(* ===== verification/LcVectors.thy ===== *)
theory LcVectors
  imports Prelude
begin

text \<open>
  Vectors of \<^verbatim>\<open>hobbies/leetcode/algorithms\<close>: merging (\<^verbatim>\<open>solution_88\<close>), rotating
  (\<^verbatim>\<open>solution_189\<close>), majority (\<^verbatim>\<open>solution_169\<close>), incrementing a decimal number
  (\<^verbatim>\<open>solution_66\<close>), pairs with a sum (\<^verbatim>\<open>solution_1\<close>) and near duplicates (\<^verbatim>\<open>solution_219\<close>,
  \<^verbatim>\<open>solution_217\<close>). \<open>None\<close> is an access outside a vector.
\<close>

section \<open>solution 88\<close>

function merge2_loop :: "int list \<Rightarrow> int list \<Rightarrow> int \<Rightarrow> int \<Rightarrow> int \<Rightarrow> int list option" where
  "merge2_loop nums1 nums2 i j e =
     (if 0 \<le> j then
        case (if 0 \<le> i then at nums1 i else Some 0, at nums2 j) of
          (Some a, Some b) \<Rightarrow>
            if 0 \<le> i \<and> a > b then
              (case put_at nums1 e a of None \<Rightarrow> None | Some nums1' \<Rightarrow> merge2_loop nums1' nums2 (i - 1) j (e - 1))
            else
              (case put_at nums1 e b of None \<Rightarrow> None | Some nums1' \<Rightarrow> merge2_loop nums1' nums2 i (j - 1) (e - 1))
        | _ \<Rightarrow> None
      else Some nums1)"
  by pat_completeness auto
termination by (relation "measure (\<lambda>(n1, n2, i, j, e). nat (i + 1) + nat (j + 1))") auto

definition merge2 :: "int list \<Rightarrow> int \<Rightarrow> int list \<Rightarrow> int \<Rightarrow> int list option" where
  "merge2 nums1 m nums2 n = merge2_loop nums1 nums2 (m - 1) (n - 1) (m + n - 1)"

function skip_le :: "int list \<Rightarrow> int \<Rightarrow> int \<Rightarrow> int \<Rightarrow> int option" where
  \<comment> \<open>\<^verbatim>\<open>while (i < m && nums[i] <= v) ++i\<close>\<close>
  "skip_le nums i m v =
     (if i < m then case at nums i of None \<Rightarrow> None | Some x \<Rightarrow> if x \<le> v then skip_le nums (i + 1) m v else Some i
      else Some i)"
  by pat_completeness auto
termination by (relation "measure (\<lambda>(n, i, m, v). nat (m - i))") auto

function skip_lt :: "int list \<Rightarrow> int \<Rightarrow> int \<Rightarrow> int \<Rightarrow> int option" where
  "skip_lt nums i m v =
     (if i < m then case at nums i of None \<Rightarrow> None | Some x \<Rightarrow> if x < v then skip_lt nums (i + 1) m v else Some i
      else Some i)"
  by pat_completeness auto
termination by (relation "measure (\<lambda>(n, i, m, v). nat (m - i))") auto

definition insert_at :: "int list \<Rightarrow> int \<Rightarrow> int list \<Rightarrow> int list" where
  "insert_at nums i xs = take (nat i) nums @ xs @ drop (nat i) nums"

partial_function (option) merge_loop :: "int list \<Rightarrow> int \<Rightarrow> int list \<Rightarrow> int \<Rightarrow> int \<Rightarrow> int \<Rightarrow> (int list \<times> int \<times> int) option" where
  "merge_loop nums1 m nums2 n i j =
     (if j < n then
        case at nums2 j of None \<Rightarrow> None | Some v \<Rightarrow>
          case skip_le nums1 i m v of None \<Rightarrow> None | Some i' \<Rightarrow>
            if i' = m then Some (nums1, i', j)
            else case at nums1 i' of None \<Rightarrow> None | Some w \<Rightarrow>
              case skip_lt nums2 j n w of None \<Rightarrow> None | Some j' \<Rightarrow>
                merge_loop (insert_at nums1 i' (take (nat (j' - j)) (drop (nat j) nums2))) (m + (j' - j)) nums2 n i' j'
      else Some (nums1, i, j))"

definition merge_vectors :: "int list \<Rightarrow> int \<Rightarrow> int list \<Rightarrow> int \<Rightarrow> int list option" where
  "merge_vectors nums1 m nums2 n =
     (case merge_loop nums1 m nums2 n 0 0 of None \<Rightarrow> None
      | Some (nums1', i, j) \<Rightarrow> Some (if j \<noteq> n then insert_at nums1' i (drop (nat j) nums2) else nums1'))"

declare merge2_loop.simps [simp del] skip_le.simps [simp del] skip_lt.simps [simp del]

lemma merge2_loop_spec:
  assumes "length js = length bs" "sorted as" "sorted bs"
  shows "\<exists>ms. merge2_loop (as @ js @ cs) (bs @ rest) (size_of as - 1) (size_of bs - 1) (size_of as + size_of bs - 1) =
    Some (ms @ cs) \<and> sorted ms \<and> mset ms = mset as + mset bs"
  using assms
proof (induction "length as + length bs" arbitrary: as bs js cs rest)
  case 0
  then show ?case by (simp add: merge2_loop.simps)
next
  case (Suc k)
  show ?case
  proof (cases "bs = []")
    case True
    with Suc.prems show ?thesis by (intro exI [of _ as]) (simp add: merge2_loop.simps)
  next
    case False
    then obtain bs' b where bs: "bs = bs' @ [b]" by (metis rev_exhaust)
    then obtain js' z where js: "js = js' @ [z]" using Suc.prems(1) by (metis length_0_conv rev_exhaust False)
    have len: "length js' = length bs'" using Suc.prems(1) bs js by simp
    have atb: "at (bs @ rest) (size_of bs - 1) = Some b" using at_mid [of bs' b rest] by (simp add: bs)
    have put: "put_at (as @ js @ cs) (size_of as + size_of bs - 1) y = Some (as @ js' @ y # cs)" for y
      using put_mid [of "as @ js'" z cs y] len by (simp add: bs js)
    show ?thesis
    proof (cases "as \<noteq> [] \<and> last as > b")
      case True
      then obtain as' a where as: "as = as' @ [a]" and ab: "a > b" by (metis append_butlast_last_id)
      have ata: "at (as @ js @ cs) (size_of as - 1) = Some a" using at_mid [of as' a "js @ cs"] by (simp add: as)
      have "merge2_loop (as @ js @ cs) (bs @ rest) (size_of as - 1) (size_of bs - 1) (size_of as + size_of bs - 1) =
          merge2_loop (as' @ (a # js') @ (a # cs)) (bs @ rest) (size_of as' - 1) (size_of bs - 1) (size_of as' + size_of bs - 1)"
        using ata atb put [of a] ab by (subst merge2_loop.simps) (simp add: as bs algebra_simps)
      moreover obtain ms where "merge2_loop (as' @ (a # js') @ (a # cs)) (bs @ rest) (size_of as' - 1) (size_of bs - 1)
          (size_of as' + size_of bs - 1) = Some (ms @ a # cs)" "sorted ms" "mset ms = mset as' + mset bs"
        using Suc.hyps(1) [of as' bs "a # js'" "a # cs" rest] Suc.hyps(2) Suc.prems by (auto simp: as bs js sorted_append)
      moreover from this have "\<forall>x \<in> set ms. x \<le> a"
        using Suc.prems ab by (fastforce simp: as bs sorted_append dest!: mset_eq_setD [of ms "as' @ bs", simplified])
      ultimately show ?thesis by (intro exI [of _ "ms @ [a]"]) (simp add: as sorted_append)
    next
      case False
      have "merge2_loop (as @ js @ cs) (bs @ rest) (size_of as - 1) (size_of bs - 1) (size_of as + size_of bs - 1) =
          merge2_loop (as @ js' @ (b # cs)) (bs' @ b # rest) (size_of as - 1) (size_of bs' - 1) (size_of as + size_of bs' - 1)"
      proof (cases "as = []")
        case True
        then show ?thesis using atb put [of b] by (subst merge2_loop.simps) (simp add: bs algebra_simps)
      next
        case ne: False
        then obtain as' a where as: "as = as' @ [a]" by (metis rev_exhaust)
        have "at (as @ js @ cs) (size_of as - 1) = Some a" using at_mid [of as' a "js @ cs"] by (simp add: as)
        then show ?thesis using atb put [of b] False as by (subst merge2_loop.simps) (simp add: bs algebra_simps)
      qed
      moreover obtain ms where "merge2_loop (as @ js' @ (b # cs)) (bs' @ b # rest) (size_of as - 1) (size_of bs' - 1)
          (size_of as + size_of bs' - 1) = Some (ms @ b # cs)" "sorted ms" "mset ms = mset as + mset bs'"
        using Suc.hyps(1) [of as bs' js' "b # cs" "b # rest"] Suc.hyps(2) Suc.prems len by (auto simp: bs sorted_append)
      moreover have "\<forall>x \<in> set as. x \<le> b"
        using Suc.prems(2) False by (cases as rule: rev_cases) (auto simp: sorted_append)
      moreover from calculation have "\<forall>x \<in> set ms. x \<le> b"
        using Suc.prems by (auto simp: bs sorted_append dest!: mset_eq_setD [of ms "as @ bs'", simplified])
      ultimately show ?thesis by (intro exI [of _ "ms @ [b]"]) (simp add: bs sorted_append)
    qed
  qed
qed

lemma skip_le_takeWhile:
  "skip_le (ds @ as @ zs) (size_of ds) (size_of ds + size_of as) v = Some (size_of ds + size_of (takeWhile (\<lambda>x. x \<le> v) as))"
proof (induction as arbitrary: ds)
  case Nil
  then show ?case by (simp add: skip_le.simps)
next
  case (Cons a as)
  show ?case
    using Cons [of "ds @ [a]"] at_mid [of ds a "as @ zs"] by (subst skip_le.simps) (simp add: algebra_simps)
qed

lemma skip_lt_takeWhile:
  "skip_lt (ds @ as @ zs) (size_of ds) (size_of ds + size_of as) v = Some (size_of ds + size_of (takeWhile (\<lambda>x. x < v) as))"
proof (induction as arbitrary: ds)
  case Nil
  then show ?case by (simp add: skip_lt.simps)
next
  case (Cons a as)
  show ?case
    using Cons [of "ds @ [a]"] at_mid [of ds a "as @ zs"] by (subst skip_lt.simps) (simp add: algebra_simps)
qed

definition merge_end :: "int list \<Rightarrow> int \<Rightarrow> int list \<times> int \<times> int \<Rightarrow> int list" where
  "merge_end nums2 n r = (case r of (nums1, i, j) \<Rightarrow> if j \<noteq> n then insert_at nums1 i (drop (nat j) nums2) else nums1)"

lemma ball_le_trans: "\<forall>x \<in> A. x \<le> w \<Longrightarrow> \<forall>y \<in> B. w \<le> y \<Longrightarrow> \<forall>x \<in> A. \<forall>y \<in> B. x \<le> (y :: int)"
  by (meson order_trans)

lemma merge_loop_spec:
  assumes "sorted (ds @ as)" "sorted bs" "\<forall>x \<in> set ds. \<forall>y \<in> set bs. x \<le> y"
  shows "\<exists>r ms. merge_loop (ds @ as @ zs) (size_of (ds @ as)) (es @ bs) (size_of (es @ bs)) (size_of ds) (size_of es) = Some r \<and>
    merge_end (es @ bs) (size_of (es @ bs)) r = ms @ zs \<and> sorted ms \<and> mset ms = mset (ds @ as @ bs)"
  using assms
proof (induction "length bs" arbitrary: ds as bs es rule: less_induct)
  case less
  show ?case
  proof (cases bs)
    case Nil
    with less.prems show ?thesis
      by (intro exI [of _ "(ds @ as @ zs, size_of ds, size_of es)"] exI [of _ "ds @ as"])
        (simp add: merge_loop.simps merge_end_def)
  next
    case (Cons v bs0)
    define as1 where "as1 = takeWhile (\<lambda>x. x \<le> v) as"
    define as2 where "as2 = dropWhile (\<lambda>x. x \<le> v) as"
    have as: "as = as1 @ as2" by (simp add: as1_def as2_def)
    have as1: "\<forall>x \<in> set as1. x \<le> v" by (auto simp: as1_def dest: set_takeWhileD)
    have atv: "at (es @ bs) (size_of es) = Some v" using at_mid [of es v bs0] Cons by simp
    have skip: "skip_le (ds @ as @ zs) (size_of ds) (size_of (ds @ as)) v = Some (size_of (ds @ as1))"
      using skip_le_takeWhile [of ds as zs v] by (simp add: as1_def)
    have vb: "\<forall>y \<in> set bs. v \<le> y" using less.prems(2) Cons by auto
    show ?thesis
    proof (cases as2)
      case Nil
      have "merge_loop (ds @ as @ zs) (size_of (ds @ as)) (es @ bs) (size_of (es @ bs)) (size_of ds) (size_of es)
          = Some (ds @ as @ zs, size_of (ds @ as), size_of es)"
        using atv skip Nil as Cons by (subst merge_loop.simps) simp
      moreover have "merge_end (es @ bs) (size_of (es @ bs)) (ds @ as @ zs, size_of (ds @ as), size_of es) = (ds @ as @ bs) @ zs"
        using Cons by (simp add: merge_end_def insert_at_def nat_add_distrib)
      moreover have "sorted (ds @ as @ bs)"
        using less.prems as1 vb as Nil by (force simp: sorted_append)
      ultimately show ?thesis by blast
    next
      case as2: (Cons w as3)
      define bs1 where "bs1 = takeWhile (\<lambda>x. x < w) bs"
      define bs2 where "bs2 = dropWhile (\<lambda>x. x < w) bs"
      have bs: "bs = bs1 @ bs2" by (simp add: bs1_def bs2_def)
      have bs1: "\<forall>x \<in> set bs1. x < w" by (auto simp: bs1_def dest: set_takeWhileD)
      have vw: "v < w" using as2 unfolding as2_def dropWhile_eq_Cons_conv by simp
      then have small: "length bs2 < length bs"
        using Cons length_dropWhile_le [of "\<lambda>x. x < w" bs0] by (simp add: bs2_def)
      have atw: "at (ds @ as @ zs) (size_of (ds @ as1)) = Some w"
        using at_mid [of "ds @ as1" w "as3 @ zs"] as as2 by simp
      have skip2: "skip_lt (es @ bs) (size_of es) (size_of (es @ bs)) w = Some (size_of (es @ bs1))"
        using skip_lt_takeWhile [of es bs "[]" w] by (simp add: bs1_def)
      have ins: "insert_at (ds @ as @ zs) (size_of (ds @ as1)) (take (nat (size_of (es @ bs1) - size_of es)) (drop (nat (size_of es)) (es @ bs)))
          = (ds @ as1) @ (bs1 @ as2) @ zs"
        by (simp add: insert_at_def as bs nat_add_distrib)
      have "merge_loop (ds @ as @ zs) (size_of (ds @ as)) (es @ bs) (size_of (es @ bs)) (size_of ds) (size_of es)
          = merge_loop ((ds @ as1) @ (bs1 @ as2) @ zs) (size_of ((ds @ as1) @ (bs1 @ as2))) ((es @ bs1) @ bs2)
              (size_of ((es @ bs1) @ bs2)) (size_of (ds @ as1)) (size_of (es @ bs1))"
      proof -
        have eqs: "as1 @ as2 = as" "bs1 @ bs2 = bs" using as bs by simp_all
        have "size_of (es @ bs1) - size_of es = size_of bs1" by simp
        moreover have "size_of (ds @ as1) \<noteq> size_of (ds @ as)" "size_of es < size_of (es @ bs)"
          using as2 as Cons by simp_all
        moreover have "size_of (ds @ as) + size_of bs1 = size_of ((ds @ as1) @ (bs1 @ as2))"
          using as by simp
        ultimately show ?thesis
          using atv skip atw skip2 ins
          by (subst merge_loop.simps) (simp del: length_append append_assoc add: eqs append_assoc [of es bs1 bs2])
      qed
      moreover have "\<exists>r ms. merge_loop ((ds @ as1) @ (bs1 @ as2) @ zs) (size_of ((ds @ as1) @ (bs1 @ as2))) ((es @ bs1) @ bs2)
              (size_of ((es @ bs1) @ bs2)) (size_of (ds @ as1)) (size_of (es @ bs1)) = Some r \<and>
          merge_end ((es @ bs1) @ bs2) (size_of ((es @ bs1) @ bs2)) r = ms @ zs \<and> sorted ms \<and>
          mset ms = mset ((ds @ as1) @ (bs1 @ as2) @ bs2)"
      proof (rule less.hyps [OF small])
        have "sorted as2" using less.prems(1) as by (simp add: sorted_append)
        then have "\<forall>x \<in> set as2. w \<le> x" unfolding as2 by simp
        moreover have "\<forall>x \<in> set bs1. \<forall>y \<in> set as2. x \<le> y"
          by (rule ball_le_trans) (use bs1 calculation in \<open>simp_all add: less_imp_le\<close>)
        moreover have "\<forall>x \<in> set as1. \<forall>y \<in> set bs1. x \<le> y"
          by (rule ball_le_trans [OF as1]) (use vb bs in simp)
        moreover have "\<forall>x \<in> set ds. \<forall>y \<in> set bs1. x \<le> y" using less.prems(3) bs by simp
        moreover have "sorted (ds @ as1 @ as2)" "sorted bs1"
          using less.prems(1,2) as bs by (simp_all add: sorted_append)
        ultimately show "sorted ((ds @ as1) @ bs1 @ as2)" by (simp add: sorted_append ball_Un)
        show "sorted bs2" using less.prems(2) bs by (simp add: sorted_append)
        show "\<forall>x \<in> set (ds @ as1). \<forall>y \<in> set bs2. x \<le> y"
          using less.prems(3) ball_le_trans [OF as1 vb] bs by (simp add: ball_Un)
      qed
      ultimately show ?thesis by (simp add: as bs ac_simps)
    qed
  qed
qed

text \<open>
  Both merges leave the sorted union of the two sorted ranges at the front of the vector: the
  one that inserts runs leaves what was behind the range behind it, the one that fills from the
  back uses the space behind the range.
\<close>

theorem merges_sorted:
  assumes "sorted as" "sorted bs" "length js = length bs"
  shows "(\<exists>ms. merge_vectors (as @ zs) (size_of as) bs (size_of bs) = Some (ms @ zs) \<and> sorted ms \<and> mset ms = mset as + mset bs) \<and>
    (\<exists>ms. merge2 (as @ js @ zs) (size_of as) bs (size_of bs) = Some (ms @ zs) \<and> sorted ms \<and> mset ms = mset as + mset bs)"
proof -
  obtain r ms where "merge_loop (as @ zs) (size_of as) bs (size_of bs) 0 0 = Some r"
    "merge_end bs (size_of bs) r = ms @ zs" "sorted ms" "mset ms = mset as + mset bs"
    using merge_loop_spec [of "[]" as bs zs "[]"] assms by auto
  then have "merge_vectors (as @ zs) (size_of as) bs (size_of bs) = Some (ms @ zs)"
    by (auto simp: merge_vectors_def merge_end_def split: prod.splits)
  moreover have "\<exists>ms. merge2 (as @ js @ zs) (size_of as) bs (size_of bs) = Some (ms @ zs) \<and> sorted ms \<and> mset ms = mset as + mset bs"
    using merge2_loop_spec [OF assms(3,1,2), of zs "[]"] by (simp add: merge2_def)
  ultimately show ?thesis using \<open>sorted ms\<close> \<open>mset ms = mset as + mset bs\<close> by blast
qed

theorem merges_sorted_witness:
  "\<exists>ms. merge2 [1, 4, 0, 0] 2 [2, 3] 2 = Some (ms @ []) \<and> sorted ms \<and> mset ms = {#2, 3, 1, 4 :: int#}"
  using merges_sorted [of "[1, 4]" "[2, 3]" "[0, 0]" "[]"] by simp

section \<open>solution 189\<close>

function reverse_loop :: "int list \<Rightarrow> int \<Rightarrow> int \<Rightarrow> int list option" where
  "reverse_loop nums i j =
     (if i < j then
        case (at nums i, at nums j) of
          (Some a, Some b) \<Rightarrow>
            (case put_at nums i b of None \<Rightarrow> None | Some nums1 \<Rightarrow>
              case put_at nums1 j a of None \<Rightarrow> None | Some nums2 \<Rightarrow> reverse_loop nums2 (i + 1) (j - 1))
        | _ \<Rightarrow> None
      else Some nums)"
  by pat_completeness auto
termination by (relation "measure (\<lambda>(n, i, j). nat (j - i))") auto

declare reverse_loop.simps [simp del]

definition rotate_vector :: "int list \<Rightarrow> nat \<Rightarrow> int list option" where
  \<comment> \<open>\<^verbatim>\<open>rotate\<close>, for \<^verbatim>\<open>k\<close> not negative\<close>
  "rotate_vector nums k0 =
     (let n = length nums in
      if n = 0 then Some nums
      else let k = k0 mod n in
        if k = 0 then Some nums
        else case reverse_loop nums 0 (int (n - k) - 1) of None \<Rightarrow> None | Some a \<Rightarrow>
          case reverse_loop a (int (n - k)) (int n - 1) of None \<Rightarrow> None | Some b \<Rightarrow>
            reverse_loop b 0 (int n - 1))"

lemma reverse_loop_rev:
  "reverse_loop (as @ xs @ bs) (size_of as) (size_of as + size_of xs - 1) = Some (as @ rev xs @ bs)"
proof (induction "length xs" arbitrary: as xs bs rule: less_induct)
  case less
  show ?case
  proof (cases xs)
    case Nil
    then show ?thesis by (simp add: reverse_loop.simps)
  next
    case (Cons x ys)
    show ?thesis
    proof (cases "ys = []")
      case True
      with Cons show ?thesis by (simp add: reverse_loop.simps)
    next
      case False
      then obtain zs z where xs: "xs = x # zs @ [z]" using Cons by (metis rev_exhaust)
      have at: "at (as @ xs @ bs) (size_of as) = Some x" "at (as @ xs @ bs) (size_of as + size_of xs - 1) = Some z"
        using at_mid [of as x "zs @ z # bs"] at_mid [of "as @ x # zs" z bs] by (simp_all add: xs add_ac)
      have put: "put_at (as @ xs @ bs) (size_of as) z = Some (as @ z # zs @ z # bs)"
        "put_at (as @ z # zs @ z # bs) (size_of as + size_of xs - 1) x = Some ((as @ [z]) @ zs @ (x # bs))"
        using put_mid [of as x "zs @ z # bs" z] put_mid [of "as @ z # zs" z bs x] by (simp_all add: xs add_ac)
      have "reverse_loop (as @ xs @ bs) (size_of as) (size_of as + size_of xs - 1) =
          reverse_loop ((as @ [z]) @ zs @ (x # bs)) (size_of (as @ [z])) (size_of (as @ [z]) + size_of zs - 1)"
        using at put by (subst reverse_loop.simps) (simp add: xs add_ac)
      also have "\<dots> = Some ((as @ [z]) @ rev zs @ x # bs)" by (rule less.hyps) (simp add: xs)
      finally show ?thesis by (simp add: xs)
    qed
  qed
qed

lemma rotate_vector_spec:
  "rotate_vector nums k = Some (drop (length nums - k mod length nums) nums @ take (length nums - k mod length nums) nums)"
proof (cases "nums = [] \<or> k mod length nums = 0")
  case True
  then show ?thesis by (auto simp: rotate_vector_def Let_def)
next
  case False
  define n r where "n = length nums" and "r = k mod n"
  have r: "0 < r" "r < n" using False by (simp_all add: n_def r_def)
  let ?a = "take (n - r) nums" and ?b = "drop (n - r) nums"
  have la: "size_of ?a = int (n - r)" "size_of ?b = int r" using r by (simp_all add: n_def)
  have "reverse_loop nums 0 (int (n - r) - 1) = Some (rev ?a @ ?b)"
    using reverse_loop_rev [of "[]" ?a ?b] la by simp
  moreover have "reverse_loop (rev ?a @ ?b) (int (n - r)) (int n - 1) = Some (rev ?a @ rev ?b)"
    using reverse_loop_rev [of "rev ?a" ?b "[]"] la r by (simp add: algebra_simps)
  moreover have "reverse_loop (rev ?a @ rev ?b) 0 (int n - 1) = Some (?b @ ?a)"
    using reverse_loop_rev [of "[]" "rev ?a @ rev ?b" "[]"] la r by (simp add: algebra_simps)
  ultimately show ?thesis
    using False r by (simp add: rotate_vector_def Let_def flip: n_def r_def)
qed

function gcd_sub :: "nat \<Rightarrow> nat \<Rightarrow> nat" where
  "gcd_sub m n = (if m \<noteq> 0 then if m \<le> n then gcd_sub m (n - m) else gcd_sub n m else n)"
  by pat_completeness auto
termination
  by (relation "measures [\<lambda>(m, n). m + n, \<lambda>(m, n). if n < m then 1 else 0]") auto

function cycle_loop :: "int list \<Rightarrow> int \<Rightarrow> int \<Rightarrow> int \<Rightarrow> int \<Rightarrow> int \<Rightarrow> int list option" where
  \<comment> \<open>the loop of \<^verbatim>\<open>rotate2\<close>; \<open>period\<close> is \<^verbatim>\<open>n / cycles\<close>\<close>
  "cycle_loop nums k period i j r =
     (if i < size_of nums then
        let r = (if r \<ge> size_of nums then r - size_of nums else r) in
        case (at nums r, at nums j) of
          (Some t, Some u) \<Rightarrow>
            (case put_at nums r u of None \<Rightarrow> None | Some nums1 \<Rightarrow>
              case put_at nums1 j t of None \<Rightarrow> None | Some nums2 \<Rightarrow>
                if (i + 1) mod period = 0 then cycle_loop nums2 k period (i + 1) (j + 1) (r + k + 1)
                else cycle_loop nums2 k period (i + 1) j (r + k))
        | _ \<Rightarrow> None
      else Some nums)"
  by pat_completeness auto
termination by (relation "measure (\<lambda>(nums, k, p, i, j, r). nat (size_of nums - i))") (auto simp: put_at_def split: if_splits)

definition rotate2 :: "int list \<Rightarrow> nat \<Rightarrow> int list option" where
  "rotate2 nums k0 =
     (let n = length nums in
      if n = 0 then Some nums
      else let k = k0 mod n; cycles = gcd_sub k n in
        if cycles = n then Some nums
        else cycle_loop nums (int k) (int (n div cycles)) 0 0 (int k))"

declare gcd_sub.simps [simp del] cycle_loop.simps [simp del]

lemma gcd_sub_gcd: "gcd_sub m n = gcd m n"
proof (induction m n rule: gcd_sub.induct)
  case (1 m n)
  have "m \<le> n \<Longrightarrow> gcd m (n - m) = gcd m n" by (metis gcd.commute gcd_diff1_nat)
  with 1 show ?case by (subst gcd_sub.simps) (auto simp: gcd.commute)
qed

lemma swap_mset: "r < length xs \<Longrightarrow> j < length xs \<Longrightarrow> mset (xs[r := xs ! j, j := xs ! r]) = mset xs"
  by (rule mset_swap)

lemma cycle_loop_mset: "cycle_loop nums k p i j r = Some nums' \<Longrightarrow> mset nums' = mset nums"
proof (induction nums k p i j r rule: cycle_loop.induct)
  case (1 nums k p i j r)
  define r' where "r' = (if r \<ge> size_of nums then r - size_of nums else r)"
  show ?case
  proof (cases "i < size_of nums")
    case True
    with "1.prems" obtain t u nums1 nums2 where
      at: "at nums r' = Some t" "at nums j = Some u" and put: "put_at nums r' u = Some nums1" "put_at nums1 j t = Some nums2"
      and rest: "(if (i + 1) mod p = 0 then cycle_loop nums2 k p (i + 1) (j + 1) (r' + k + 1)
        else cycle_loop nums2 k p (i + 1) j (r' + k)) = Some nums'"
      by (subst (asm) cycle_loop.simps) (auto simp: r'_def [symmetric] Let_def split: option.splits)
    have "nums2 = nums[nat r' := nums ! nat j, nat j := nums ! nat r']" "nat r' < length nums" "nat j < length nums"
      using at put by (auto simp: put_at_def at_eq_Some split: if_splits)
    then have "mset nums2 = mset nums" by (simp add: swap_mset)
    moreover have "mset nums' = mset nums2"
      using "1.IH" [OF True r'_def refl at put] rest by (simp split: if_splits)
    ultimately show ?thesis by simp
  next
    case False
    with "1.prems" show ?thesis by (simp add: cycle_loop.simps)
  qed
qed

text \<open>
  Reversing the two parts and then the whole rotates the vector to the right by \<open>k\<close> modulo its
  size; the version that follows cycles only ever exchanges elements, so nothing is lost.
\<close>

theorem rotations:
  "rotate_vector nums k = Some (drop (length nums - k mod length nums) nums @ take (length nums - k mod length nums) nums) \<and>
   (rotate2 nums k = Some nums' \<longrightarrow> mset nums' = mset nums)"
  using rotate_vector_spec cycle_loop_mset by (auto simp: rotate2_def Let_def split: if_splits)

lemma rotate2_example: "rotate2 [1, 2, 3, 4, 5, 6] 4 = rotate_vector [1, 2, 3, 4, 5, 6] 4"
  by code_simp

section \<open>solution 169\<close>

fun majority_loop :: "int list \<Rightarrow> int \<Rightarrow> int \<Rightarrow> int" where
  "majority_loop [] target cnt = target"
| "majority_loop (x # nums) target cnt =
     (let cnt' = cnt + (if x = target then 1 else -1) in
      if cnt' < 0 then majority_loop nums x 1 else majority_loop nums target cnt')"

definition majorityElement :: "int list \<Rightarrow> int option" where
  "majorityElement nums = (case nums of [] \<Rightarrow> None | x # xs \<Rightarrow> Some (majority_loop xs x 1))"

lemma majority_loop_votes:
  assumes "0 \<le> cnt" and "\<And>v. 2 * int (count_list seen v) \<le> size_of seen + (if v = target then cnt else - cnt)"
  shows "v \<noteq> majority_loop nums target cnt \<Longrightarrow> 2 * int (count_list (seen @ nums) v) \<le> size_of (seen @ nums)"
  using assms
proof (induction nums target cnt arbitrary: seen rule: majority_loop.induct)
  case (1 target cnt)
  from 1(3) [of v] 1(1,2) show ?case by (auto split: if_splits)
next
  case (2 x nums target cnt)
  define cnt' where "cnt' = cnt + (if x = target then 1 else -1)"
  have seen: "2 * int (count_list (seen @ [x]) w) \<le> size_of (seen @ [x]) + (if w = target then cnt' else - cnt')" for w
    using "2.prems"(3) [of w] by (auto simp: cnt'_def)
  show ?case
  proof (cases "cnt' < 0")
    case True
    then have c0: "cnt = 0" "x \<noteq> target" using "2.prems"(2) by (auto simp: cnt'_def split: if_splits)
    have new: "2 * int (count_list (seen @ [x]) w) \<le> size_of (seen @ [x]) + (if w = x then 1 else - 1)" for w
      using "2.prems"(3) [of w] c0 by (cases "w = x") (simp_all split: if_splits)
    show ?thesis
      using "2.IH"(1) [OF cnt'_def True _ _ new] "2.prems"(1) True by (simp add: Let_def flip: cnt'_def)
  next
    case False
    then show ?thesis
      using "2.IH"(2) [OF cnt'_def False _ _ seen] "2.prems"(1) by (simp add: Let_def flip: cnt'_def)
  qed
qed

text \<open>
  The one-pass vote returns the majority element: an element that fills more than half of the
  vector is the result, whatever the order of the votes.
\<close>

theorem majority_wins:
  assumes "length nums < 2 * count_list nums v"
  shows "majorityElement nums = Some v"
proof (cases nums)
  case Nil
  with assms show ?thesis by simp
next
  case (Cons x xs)
  have "2 * int (count_list [x] w) \<le> size_of [x] + (if w = x then 1 else - 1)" for w by simp
  from majority_loop_votes [of 1 "[x]" x v xs, OF _ this] assms Cons have "v = majority_loop xs x 1"
    by fastforce
  with Cons show ?thesis by (simp add: majorityElement_def)
qed

theorem majority_wins_witness: "majorityElement [1, 2, 3, 1, 1] = Some 1"
  by (rule majority_wins) simp

section \<open>solution 66\<close>

function plus_loop :: "int list \<Rightarrow> int \<Rightarrow> int \<Rightarrow> (int list \<times> int) option" where
  "plus_loop result i flag =
     (if 0 \<le> i then
        case at result i of None \<Rightarrow> None | Some d \<Rightarrow>
          if d + flag < 10 then Some (result[nat i := d + flag], 0)
          else plus_loop (result[nat i := cmod (d + flag) 10]) (i - 1) flag
      else Some (result, flag))"
  by pat_completeness auto
termination by (relation "measure (\<lambda>(r, i, f). nat (i + 1))") auto

definition plusOne :: "int list \<Rightarrow> int list option" where
  "plusOne digits =
     (if digits = [] then Some []
      else case plus_loop digits (size_of digits - 1) 1 of None \<Rightarrow> None
        | Some (result, flag) \<Rightarrow> Some (if flag \<noteq> 0 then 1 # result else result))"

fun plus2_loop :: "int list \<Rightarrow> nat \<Rightarrow> int list \<times> bool" where
  \<comment> \<open>the flag tells whether the loop returned\<close>
  "plus2_loop digits 0 = (digits, False)"
| "plus2_loop digits (Suc i) =
     (if digits ! i < 9 then (digits[i := digits ! i + 1], True) else plus2_loop (digits[i := 0]) i)"

definition plusOne2 :: "int list \<Rightarrow> int list option" where
  "plusOne2 digits =
     (case plus2_loop digits (length digits) of
        (ds, True) \<Rightarrow> Some ds
      | (ds, False) \<Rightarrow> (case at ds 0 of None \<Rightarrow> None | Some d \<Rightarrow> Some (ds[0 := d + 1] @ [0])))"

declare plus_loop.simps [simp del]

definition decimal :: "int list \<Rightarrow> int" where
  "decimal ds = foldl (\<lambda>a d. a * 10 + d) 0 ds"

definition digits_ok :: "int list \<Rightarrow> bool" where
  "digits_ok ds \<longleftrightarrow> (\<forall>d \<in> set ds. 0 \<le> d \<and> d \<le> 9)"

lemma decimal_snoc: "decimal (ds @ [d]) = decimal ds * 10 + d"
  by (simp add: decimal_def)

lemma decimal_Cons: "decimal (d # ds) = d * 10 ^ length ds + decimal ds"
  by (induction ds rule: rev_induct) (simp_all add: decimal_def algebra_simps)

lemma plus_loops_spec:
  assumes "digits_ok xs"
  shows "\<exists>ys f. plus_loop (xs @ zs) (size_of xs - 1) 1 = Some (ys @ zs, f) \<and>
    plus2_loop (xs @ zs) (length xs) = (ys @ zs, f = 0) \<and> length ys = length xs \<and> digits_ok ys \<and>
    f * 10 ^ length xs + decimal ys = decimal xs + 1 \<and> (f = 0 \<or> f = 1 \<and> ys = replicate (length xs) 0)"
  using assms
proof (induction xs arbitrary: zs rule: rev_induct)
  case Nil
  then show ?case by (simp add: plus_loop.simps decimal_def digits_ok_def)
next
  case (snoc x xs)
  have at: "at ((xs @ [x]) @ zs) (size_of (xs @ [x]) - 1) = Some x" using at_mid [of xs x zs] by simp
  have n: "nat (int (length xs)) = length xs" by simp
  show ?case
  proof (cases "x < 9")
    case True
    with snoc.prems at show ?thesis
      by (intro exI [of _ "xs @ [x + 1]"] exI [of _ 0])
        (subst plus_loop.simps, auto simp: nth_append list_update_append decimal_snoc digits_ok_def)
  next
    case False
    with snoc.prems have x: "x = 9" by (simp add: digits_ok_def)
    have "plus_loop ((xs @ [x]) @ zs) (size_of (xs @ [x]) - 1) 1 = plus_loop (xs @ 0 # zs) (size_of xs - 1) 1"
      using at by (subst plus_loop.simps) (simp add: x list_update_append)
    moreover have "plus2_loop ((xs @ [x]) @ zs) (length (xs @ [x])) = plus2_loop (xs @ 0 # zs) (length xs)"
      by (simp add: x nth_append list_update_append)
    moreover obtain ys f where "plus_loop (xs @ 0 # zs) (size_of xs - 1) 1 = Some (ys @ 0 # zs, f)"
      "plus2_loop (xs @ 0 # zs) (length xs) = (ys @ 0 # zs, f = 0)" "length ys = length xs" "digits_ok ys"
      "f * 10 ^ length xs + decimal ys = decimal xs + 1" "f = 0 \<or> f = 1 \<and> ys = replicate (length xs) 0"
      using snoc.IH [of "0 # zs"] snoc.prems by (auto simp: digits_ok_def)
    ultimately show ?thesis
      by (intro exI [of _ "ys @ [0]"] exI [of _ f])
        (auto simp: decimal_snoc digits_ok_def x algebra_simps replicate_append_same)
  qed
qed

text \<open>
  Both increments of a decimal number return the digits of its successor, also when the carry
  makes the number longer; they agree on every number that has a digit.
\<close>

theorem plus_one_value:
  assumes "digits_ok ds" "ds \<noteq> []"
  shows "\<exists>r. plusOne ds = Some r \<and> plusOne2 ds = Some r \<and> digits_ok r \<and> decimal r = decimal ds + 1"
proof -
  obtain ys f where r: "plus_loop ds (size_of ds - 1) 1 = Some (ys, f)" "plus2_loop ds (length ds) = (ys, f = 0)"
    "length ys = length ds" "digits_ok ys" "f * 10 ^ length ds + decimal ys = decimal ds + 1"
    "f = 0 \<or> f = 1 \<and> ys = replicate (length ds) 0"
    using plus_loops_spec [of ds "[]"] assms(1) by auto
  show ?thesis
  proof (cases "f = 0")
    case True
    with r assms(2) show ?thesis by (auto simp: plusOne_def plusOne2_def)
  next
    case False
    obtain m where m: "length ds = Suc m" using assms(2) by (cases ds) auto
    have "plusOne ds = Some (1 # ys)" using False r(1) assms(2) by (simp add: plusOne_def)
    moreover have "plusOne2 ds = Some (1 # ys)"
      using False r m by (simp add: plusOne2_def replicate_append_same)
    moreover have "digits_ok (1 # ys)" using r by (simp add: digits_ok_def)
    moreover have "decimal (1 # ys) = decimal ds + 1" using r False by (simp add: decimal_Cons)
    ultimately show ?thesis by blast
  qed
qed

theorem plus_one_value_witness:
  "\<exists>r. plusOne [9, 9] = Some r \<and> plusOne2 [9, 9] = Some r \<and> digits_ok r \<and> decimal r = decimal [9, 9] + 1"
  by (rule plus_one_value) (simp_all add: digits_ok_def)

lemma plus_one_empty: "plusOne [] = Some [] \<and> plusOne2 [] = None"
  by (simp add: plusOne_def plusOne2_def at_def)

section \<open>solutions 1, 217 and 219\<close>

fun two_loop :: "int list \<Rightarrow> int \<Rightarrow> (int \<Rightarrow> int option) \<Rightarrow> int \<Rightarrow> int list" where
  "two_loop [] i waits target = []"
| "two_loop (x # nums) i waits target =
     (case waits x of
        None \<Rightarrow> two_loop nums (i + 1) (waits(target - x \<mapsto> i)) target
      | Some w \<Rightarrow> [w + 1, i + 1])"

definition twoSum :: "int list \<Rightarrow> int \<Rightarrow> int list" where
  "twoSum nums target = two_loop nums 0 Map.empty target"

definition containsDuplicate :: "int list \<Rightarrow> bool" where
  "containsDuplicate nums \<longleftrightarrow> card (set nums) \<noteq> length nums"

fun near_loop :: "int list \<Rightarrow> int \<Rightarrow> (int \<Rightarrow> int option) \<Rightarrow> int \<Rightarrow> bool" where
  "near_loop [] i um k = False"
| "near_loop (x # nums) i um k =
     (if case um x of None \<Rightarrow> False | Some e \<Rightarrow> e + k \<ge> i then True else near_loop nums (i + 1) (um(x \<mapsto> i)) k)"

definition containsNearbyDuplicate :: "int list \<Rightarrow> int \<Rightarrow> bool" where
  "containsNearbyDuplicate nums k = near_loop nums 0 Map.empty k"

function near2_loop :: "int list \<Rightarrow> int \<Rightarrow> int set \<Rightarrow> int \<Rightarrow> bool option" where
  "near2_loop nums i us k =
     (if i < size_of nums then
        case (if i > k then at nums (i - k - 1) else Some 0, at nums i) of
          (Some old, Some x) \<Rightarrow>
            let us = (if i > k then us - {old} else us) in
            if x \<in> us then Some True else near2_loop nums (i + 1) (insert x us) k
        | _ \<Rightarrow> None
      else Some False)"
  by pat_completeness auto
termination by (relation "measure (\<lambda>(nums, i, us, k). nat (size_of nums - i))") auto

definition containsNearbyDuplicate2 :: "int list \<Rightarrow> int \<Rightarrow> bool option" where
  "containsNearbyDuplicate2 nums k = near2_loop nums 0 {} k"

declare near2_loop.simps [simp del]

definition pair_at :: "int list \<Rightarrow> int \<Rightarrow> nat \<Rightarrow> nat \<Rightarrow> bool" where
  "pair_at nums target a b \<longleftrightarrow> a < b \<and> b < length nums \<and> nums ! a + nums ! b = target"

lemma two_loop_spec:
  assumes "\<And>v w. waits v = Some w \<Longrightarrow> \<exists>a < length seen. w = int a \<and> seen ! a + v = target"
    and "\<And>a. a < length seen \<Longrightarrow> waits (target - seen ! a) \<noteq> None"
    and "\<And>a b. \<not> pair_at seen target a b"
  shows "(two_loop nums (size_of seen) waits target = [] \<and> (\<forall>a b. \<not> pair_at (seen @ nums) target a b)) \<or>
    (\<exists>a b. two_loop nums (size_of seen) waits target = [int a + 1, int b + 1] \<and> pair_at (seen @ nums) target a b)"
  using assms
proof (induction nums arbitrary: seen waits)
  case Nil
  then show ?case by simp
next
  case (Cons x nums)
  show ?case
  proof (cases "waits x")
    case (Some w)
    with Cons.prems(1) obtain a where "a < length seen" "w = int a" "seen ! a + x = target" by blast
    then have "pair_at (seen @ x # nums) target a (length seen)" by (simp add: pair_at_def nth_append)
    with Some \<open>w = int a\<close> show ?thesis by fastforce
  next
    case None
    have "two_loop nums (size_of (seen @ [x])) (waits(target - x \<mapsto> size_of seen)) target =
        two_loop (x # nums) (size_of seen) waits target"
      using None by (simp add: add.commute)
    moreover have "(two_loop nums (size_of (seen @ [x])) (waits(target - x \<mapsto> size_of seen)) target = [] \<and>
        (\<forall>a b. \<not> pair_at ((seen @ [x]) @ nums) target a b)) \<or>
      (\<exists>a b. two_loop nums (size_of (seen @ [x])) (waits(target - x \<mapsto> size_of seen)) target = [int a + 1, int b + 1] \<and>
        pair_at ((seen @ [x]) @ nums) target a b)"
    proof (rule Cons.IH)
      fix v w
      assume "(waits(target - x \<mapsto> size_of seen)) v = Some w"
      then show "\<exists>a < length (seen @ [x]). w = int a \<and> (seen @ [x]) ! a + v = target"
        using Cons.prems(1) [of v w] by (force simp: nth_append less_Suc_eq split: if_splits)
    next
      fix a
      assume "a < length (seen @ [x])"
      then show "(waits(target - x \<mapsto> size_of seen)) (target - (seen @ [x]) ! a) \<noteq> None"
        using Cons.prems(2) [of a] by (auto simp: nth_append less_Suc_eq)
    next
      fix a b
      show "\<not> pair_at (seen @ [x]) target a b"
      proof
        assume "pair_at (seen @ [x]) target a b"
        then consider "pair_at seen target a b" | "a < length seen" "target - seen ! a = x"
          by (cases "b = length seen") (auto simp: pair_at_def nth_append split: if_splits)
        then show False using Cons.prems(2) [of a] Cons.prems(3) None by cases auto
      qed
    qed
    ultimately show ?thesis by simp
  qed
qed

text \<open>
  \<^verbatim>\<open>twoSum\<close> answers with the one-based positions of two elements that add up to the target, and
  with nothing exactly when there are none.
\<close>

theorem two_sum_pairs:
  "(twoSum nums target = [] \<and> (\<forall>a b. \<not> pair_at nums target a b)) \<or>
   (\<exists>a b. twoSum nums target = [int a + 1, int b + 1] \<and> pair_at nums target a b)"
  using two_loop_spec [of Map.empty "[]" target nums] by (simp add: twoSum_def pair_at_def)

definition near_pair :: "int list \<Rightarrow> int \<Rightarrow> bool" where
  "near_pair nums k \<longleftrightarrow> (\<exists>a b. a < b \<and> b < length nums \<and> nums ! a = nums ! b \<and> int b \<le> int a + k)"

lemma near_pair_snoc:
  "near_pair (seen @ [x]) k \<longleftrightarrow> near_pair seen k \<or> (\<exists>a < length seen. seen ! a = x \<and> size_of seen \<le> int a + k)"
proof
  assume "near_pair (seen @ [x]) k"
  then obtain a b where ab: "a < b" "b < length (seen @ [x])" "(seen @ [x]) ! a = (seen @ [x]) ! b" "int b \<le> int a + k"
    by (auto simp: near_pair_def)
  then show "near_pair seen k \<or> (\<exists>a < length seen. seen ! a = x \<and> size_of seen \<le> int a + k)"
    by (cases "b = length seen") (auto simp: near_pair_def nth_append)
next
  assume "near_pair seen k \<or> (\<exists>a < length seen. seen ! a = x \<and> size_of seen \<le> int a + k)"
  then show "near_pair (seen @ [x]) k"
  proof
    assume "near_pair seen k"
    then obtain a b where "a < b" "b < length seen" "seen ! a = seen ! b" "int b \<le> int a + k"
      by (auto simp: near_pair_def)
    then show ?thesis unfolding near_pair_def by (intro exI [of _ a] exI [of _ b]) (simp add: nth_append)
  next
    assume "\<exists>a < length seen. seen ! a = x \<and> size_of seen \<le> int a + k"
    then obtain a where "a < length seen" "seen ! a = x" "size_of seen \<le> int a + k" by blast
    then show ?thesis
      unfolding near_pair_def by (intro exI [of _ a] exI [of _ "length seen"]) (simp add: nth_append)
  qed
qed

lemma near_pair_append: "near_pair seen k \<Longrightarrow> near_pair (seen @ nums) k"
  by (induction nums rule: rev_induct) (simp_all add: near_pair_snoc flip: append_assoc)

lemma near_loop_spec:
  assumes "\<not> near_pair seen k"
    and "\<And>v e. um v = Some e \<Longrightarrow> \<exists>a < length seen. e = int a \<and> seen ! a = v"
    and "\<And>a. a < length seen \<Longrightarrow> \<exists>e \<ge> int a. um (seen ! a) = Some e"
  shows "near_loop nums (size_of seen) um k \<longleftrightarrow> near_pair (seen @ nums) k"
  using assms
proof (induction nums arbitrary: seen um)
  case Nil
  then show ?case by simp
next
  case (Cons x nums)
  have last_x: "(\<exists>e. um x = Some e \<and> e + k \<ge> size_of seen) \<longleftrightarrow> near_pair (seen @ [x]) k"
    using Cons.prems by (fastforce simp: near_pair_snoc)
  show ?case
  proof (cases "near_pair (seen @ [x]) k")
    case True
    with last_x near_pair_append [OF True, of nums] show ?thesis by auto
  next
    case False
    have "near_loop (x # nums) (size_of seen) um k = near_loop nums (size_of (seen @ [x])) (um(x \<mapsto> size_of seen)) k"
      using False last_x by (auto simp: add.commute split: option.splits)
    also have "\<dots> = near_pair ((seen @ [x]) @ nums) k"
    proof (rule Cons.IH [OF False])
      fix v e
      assume "(um(x \<mapsto> size_of seen)) v = Some e"
      then show "\<exists>a < length (seen @ [x]). e = int a \<and> (seen @ [x]) ! a = v"
        using Cons.prems(2) [of v e] by (force simp: nth_append less_Suc_eq split: if_splits)
    next
      fix a
      assume "a < length (seen @ [x])"
      then show "\<exists>e \<ge> int a. (um(x \<mapsto> size_of seen)) ((seen @ [x]) ! a) = Some e"
        using Cons.prems(3) [of a] by (auto simp: nth_append less_Suc_eq)
    qed
    finally show ?thesis by simp
  qed
qed

definition recent :: "int list \<Rightarrow> int \<Rightarrow> int set" where
  "recent seen k = {seen ! a | a. a < length seen \<and> size_of seen \<le> int a + k}"

lemma recent_iff: "v \<in> recent seen k \<longleftrightarrow> (\<exists>a < length seen. seen ! a = v \<and> size_of seen \<le> int a + k)"
  by (auto simp: recent_def)

lemma recent_step:
  assumes "0 \<le> k"
  shows "recent (seen @ [x]) (k + 1) = insert x (recent seen k)"
proof (rule set_eqI)
  fix v
  have "(\<exists>a < Suc (length seen). (seen @ [x]) ! a = v \<and> size_of seen + 1 \<le> int a + (k + 1)) \<longleftrightarrow>
      v = x \<or> (\<exists>a < length seen. seen ! a = v \<and> size_of seen \<le> int a + k)"
    using assms by (auto simp: Ex_less_Suc nth_append)
  then show "v \<in> recent (seen @ [x]) (k + 1) \<longleftrightarrow> v \<in> insert x (recent seen k)"
    by (simp add: recent_iff algebra_simps)
qed

lemma recent_shrink:
  assumes "0 \<le> k" "\<not> near_pair seen k"
  shows "recent seen k =
    (if k < size_of seen then recent seen (k + 1) - {seen ! nat (size_of seen - k - 1)} else recent seen (k + 1))"
proof (rule set_eqI)
  fix v
  let ?o = "nat (size_of seen - k - 1)"
  have "a = ?o" if "a < length seen" "seen ! a = seen ! ?o" "size_of seen \<le> int a + k + 1" "k < size_of seen" for a
  proof (rule ccontr)
    assume "a \<noteq> ?o"
    with that assms(1) have "?o < a" "int a \<le> int ?o + k" by linarith+
    with that have "near_pair seen k" unfolding near_pair_def by metis
    with assms(2) show False ..
  qed
  moreover have "size_of seen \<le> int a + k \<longleftrightarrow> size_of seen \<le> int a + k + 1 \<and> \<not> (k < size_of seen \<and> a = ?o)"
    if "a < length seen" for a using that assms(1) by linarith
  ultimately show "v \<in> recent seen k \<longleftrightarrow> v \<in> (if k < size_of seen then recent seen (k + 1) - {seen ! ?o} else recent seen (k + 1))"
    by (auto simp: recent_iff algebra_simps)
qed

lemma near2_loop_spec:
  assumes "0 \<le> k" "\<not> near_pair seen k"
  shows "near2_loop (seen @ nums) (size_of seen) (recent seen (k + 1)) k = Some (near_pair (seen @ nums) k)"
  using assms(2)
proof (induction nums arbitrary: seen)
  case Nil
  then show ?case by (simp add: near2_loop.simps)
next
  case (Cons x nums)
  have at: "at (seen @ x # nums) (size_of seen) = Some x" by (rule at_mid)
  have us: "(if size_of seen > k then recent seen (k + 1) - {if size_of seen > k then seen ! nat (size_of seen - k - 1) else 0}
      else recent seen (k + 1)) = recent seen k"
    using recent_shrink [OF assms(1) Cons.prems] by simp
  have old: "(if size_of seen > k then at (seen @ x # nums) (size_of seen - k - 1) else Some 0) =
      Some (if size_of seen > k then seen ! nat (size_of seen - k - 1) else 0)"
    using assms(1) by (auto simp: nth_append)
  have hit: "x \<in> recent seen k \<longleftrightarrow> near_pair (seen @ [x]) k"
    using Cons.prems by (auto simp: near_pair_snoc recent_def)
  have step: "near2_loop (seen @ x # nums) (size_of seen) (recent seen (k + 1)) k =
      (if x \<in> recent seen k then Some True
       else near2_loop (seen @ x # nums) (size_of seen + 1) (insert x (recent seen k)) k)"
    by (subst near2_loop.simps) (simp only: old at Let_def us prod.case option.case, simp)
  show ?case
  proof (cases "near_pair (seen @ [x]) k")
    case True
    with step hit near_pair_append [OF True, of nums] show ?thesis by simp
  next
    case False
    with step hit Cons.IH [OF False] recent_step [OF assms(1)] show ?thesis by (simp add: add.commute)
  qed
qed

text \<open>
  Both searches for near duplicates answer whether two equal elements stand at most \<open>k\<close> apart:
  the map of last positions and the sliding set are the same function.
\<close>

theorem near_duplicates:
  assumes "0 \<le> k"
  shows "containsNearbyDuplicate nums k = near_pair nums k \<and>
    containsNearbyDuplicate2 nums k = Some (near_pair nums k)"
  using near_loop_spec [of "[]" k Map.empty nums] near2_loop_spec [OF assms, of "[]" nums]
  by (simp add: containsNearbyDuplicate_def containsNearbyDuplicate2_def near_pair_def recent_def)

theorem near_duplicates_witness: "containsNearbyDuplicate2 [1, 2, 3, 2] 2 = Some (near_pair [1, 2, 3, 2] 2)"
  by (rule near_duplicates [THEN conjunct2]) simp

lemma contains_duplicate_iff: "containsDuplicate nums \<longleftrightarrow> (\<exists>k. near_pair nums k)"
proof
  assume "containsDuplicate nums"
  then have "\<not> distinct nums" by (auto simp: containsDuplicate_def dest: distinct_card)
  then obtain a b where "a < b" "b < length nums" "nums ! a = nums ! b"
    by (auto simp: distinct_conv_nth) (metis nat_neq_iff)
  then have "near_pair nums (int b)" unfolding near_pair_def by (intro exI [of _ a] exI [of _ b]) simp
  then show "\<exists>k. near_pair nums k" ..
next
  assume "\<exists>k. near_pair nums k"
  then have "\<not> distinct nums" by (force simp: near_pair_def distinct_conv_nth)
  then show "containsDuplicate nums" by (auto simp: containsDuplicate_def dest: card_distinct)
qed

end
