(* ===== verification/LcHeap.thy ===== *)
theory LcHeap
  imports Prelude
begin

text \<open>
  The linked lists of \<^verbatim>\<open>hobbies/leetcode/algorithms/solution.h\<close>: a store of \<^verbatim>\<open>ListNode\<close>s, pointers
  into it, the variables a \<^verbatim>\<open>ListNode**\<close> may point to, and what the list programs share: list
  segments, their behaviour under writes, and the list before a slot. An access through a null or
  dangling pointer is \<open>None\<close>; a loop that does not end is \<open>None\<close> too.
\<close>

section \<open>Nodes and pointers\<close>

type_synonym ref = "nat option"
  \<comment> \<open>\<^verbatim>\<open>ListNode*\<close>: an address, or \<open>None\<close> for the null pointer\<close>

record list_node =
  node_val :: int
  node_next :: ref

type_synonym heap = "list_node list"

definition node_at :: "heap \<Rightarrow> nat \<Rightarrow> list_node option" where
  "node_at h a = (if a < length h then Some (h ! a) else None)"

definition deref :: "heap \<Rightarrow> ref \<Rightarrow> list_node option" where
  "deref h p = Option.bind p (node_at h)"

definition next_of :: "heap \<Rightarrow> ref \<Rightarrow> ref option" where
  "next_of h p = map_option node_next (deref h p)"

definition val_of :: "heap \<Rightarrow> ref \<Rightarrow> int option" where
  "val_of h p = map_option node_val (deref h p)"

definition set_next :: "heap \<Rightarrow> ref \<Rightarrow> ref \<Rightarrow> heap option" where
  "set_next h p r =
     (case p of None \<Rightarrow> None
      | Some a \<Rightarrow> (case node_at h a of None \<Rightarrow> None | Some n \<Rightarrow> Some (h[a := n\<lparr>node_next := r\<rparr>])))"

definition new_node :: "heap \<Rightarrow> int \<Rightarrow> heap \<times> ref" where
  "new_node h x = (h @ [\<lparr>node_val = x, node_next = None\<rparr>], Some (length h))"

text \<open>What a \<^verbatim>\<open>ListNode**\<close> of the programs points to: the local \<^verbatim>\<open>head\<close>, or the link of a node.\<close>

datatype slot = Head | Link nat

definition next_slot :: "heap \<Rightarrow> ref \<Rightarrow> slot option" where
  \<comment> \<open>\<^verbatim>\<open>&node->next\<close>\<close>
  "next_slot h p = (case p of None \<Rightarrow> None | Some a \<Rightarrow> if a < length h then Some (Link a) else None)"

definition load_slot :: "heap \<Rightarrow> ref \<Rightarrow> slot \<Rightarrow> ref option" where
  "load_slot h head s = (case s of Head \<Rightarrow> Some head | Link a \<Rightarrow> next_of h (Some a))"

definition store_slot :: "heap \<Rightarrow> ref \<Rightarrow> slot \<Rightarrow> ref \<Rightarrow> (heap \<times> ref) option" where
  "store_slot h head s r =
     (case s of Head \<Rightarrow> Some (h, r)
      | Link a \<Rightarrow> (case set_next h (Some a) r of None \<Rightarrow> None | Some h' \<Rightarrow> Some (h', head)))"

fun create_loop :: "heap \<Rightarrow> ref \<Rightarrow> ref \<Rightarrow> int list \<Rightarrow> (heap \<times> ref) option" where
  "create_loop h head pos [] = Some (h, head)"
| "create_loop h head pos (x # nums) =
     (case new_node h x of (h1, n) \<Rightarrow>
        if head = None then create_loop h1 n n nums
        else (case set_next h1 pos n of None \<Rightarrow> None | Some h2 \<Rightarrow>
          case next_of h2 pos of None \<Rightarrow> None | Some pos' \<Rightarrow> create_loop h2 head pos' nums))"

definition create_list :: "heap \<Rightarrow> int list \<Rightarrow> (heap \<times> ref) option" where
  "create_list h nums = create_loop h None None nums"

section \<open>List segments\<close>

type_synonym nodes = "(nat \<times> int) list"

abbreviation addrs :: "nodes \<Rightarrow> nat set" where "addrs ns \<equiv> fst ` set ns"
abbreviation vals :: "nodes \<Rightarrow> int list" where "vals ns \<equiv> map snd ns"

fun seg :: "heap \<Rightarrow> ref \<Rightarrow> nodes \<Rightarrow> ref \<Rightarrow> bool" where
  "seg h p [] q \<longleftrightarrow> p = q"
| "seg h p (n # ns) q \<longleftrightarrow> p = Some (fst n) \<and>
     (\<exists>r. node_at h (fst n) = Some \<lparr>node_val = snd n, node_next = r\<rparr> \<and> seg h r ns q)"

definition list_at :: "heap \<Rightarrow> ref \<Rightarrow> nodes \<Rightarrow> bool" where
  \<comment> \<open>the list at \<open>p\<close> consists of these nodes, in this order, and ends\<close>
  "list_at h p ns \<longleftrightarrow> seg h p ns None \<and> distinct (map fst ns)"

named_theorems heap_simps \<open>reading and writing nodes\<close>

lemma cell_update [heap_simps]:
  "node_at (h[a := n]) b = (if a = b \<and> b < length h then Some n else node_at h b)"
  by (auto simp: node_at_def)

lemma cell_new [heap_simps]: "node_at (h @ [n]) b = (if b = length h then Some n else node_at h b)"
  by (auto simp: node_at_def nth_append)

lemma cell_length: "node_at h a = Some n \<Longrightarrow> a < length h"
  by (simp add: node_at_def split: if_splits)

lemma next_of_cell [heap_simps]: "node_at h a = Some n \<Longrightarrow> next_of h (Some a) = Some (node_next n)"
  by (simp add: next_of_def deref_def)

lemma val_of_cell [heap_simps]: "node_at h a = Some n \<Longrightarrow> val_of h (Some a) = Some (node_val n)"
  by (simp add: val_of_def deref_def)

lemma set_next_cell [heap_simps]:
  "node_at h a = Some n \<Longrightarrow> set_next h (Some a) r = Some (h[a := n\<lparr>node_next := r\<rparr>])"
  by (simp add: set_next_def)

lemma next_slot_cell [heap_simps]: "node_at h a = Some n \<Longrightarrow> next_slot h (Some a) = Some (Link a)"
  by (simp add: next_slot_def cell_length)

lemma null_access [simp]:
  "next_of h None = None" "val_of h None = None" "set_next h None r = None" "next_slot h None = None"
  by (simp_all add: next_of_def val_of_def deref_def set_next_def next_slot_def)

lemma node_eta: "node_at h a = Some n \<Longrightarrow> node_at h a = Some \<lparr>node_val = node_val n, node_next = node_next n\<rparr>"
  by simp

lemma seg_append: "seg h p (ms @ ns) q \<longleftrightarrow> (\<exists>r. seg h p ms r \<and> seg h r ns q)"
  by (induction ms arbitrary: p) auto

lemma seg_cong:
  "(\<And>a. a \<in> addrs ns \<Longrightarrow> node_at h' a = node_at h a) \<Longrightarrow> seg h' p ns q = seg h p ns q"
  by (induction ns arbitrary: p) auto

lemma seg_write [heap_simps]: "a \<notin> addrs ns \<Longrightarrow> seg (h[a := n]) p ns q = seg h p ns q"
  by (rule seg_cong) (auto simp: cell_update)

lemma seg_node: "seg h p ns q \<Longrightarrow> n \<in> set ns \<Longrightarrow> fst n < length h"
  by (induction ns arbitrary: p) (auto dest: cell_length)

lemma seg_new [heap_simps]: "seg h p ns q \<Longrightarrow> seg (h @ [n]) p ns q"
  by (rule iffD2 [OF seg_cong]) (auto simp: cell_new dest: seg_node)

lemma seg_relink:
  assumes "seg h p (ns @ [n]) q" "distinct (map fst (ns @ [n]))"
  shows "seg (h[fst n := \<lparr>node_val = snd n, node_next = q'\<rparr>]) p (ns @ [n]) q'"
  using assms by (auto simp: seg_append heap_simps dest: cell_length)

lemma list_at_Nil [simp]: "list_at h p [] \<longleftrightarrow> p = None"
  by (simp add: list_at_def)

lemma list_at_Cons:
  "list_at h p (n # ns) \<longleftrightarrow> p = Some (fst n) \<and> fst n \<notin> addrs ns \<and>
    (\<exists>r. node_at h (fst n) = Some \<lparr>node_val = snd n, node_next = r\<rparr> \<and> list_at h r ns)"
  by (auto simp: list_at_def)

lemma list_at_append: "list_at h p (ms @ ns) \<longleftrightarrow>
    (\<exists>r. seg h p ms r \<and> list_at h r ns) \<and> distinct (map fst ms) \<and> addrs ms \<inter> addrs ns = {}"
  by (auto simp: list_at_def seg_append)

lemma list_at_write [heap_simps]: "a \<notin> addrs ns \<Longrightarrow> list_at (h[a := n]) p ns = list_at h p ns"
  by (simp add: list_at_def seg_write)

lemma list_at_cong: "(\<And>a. a \<in> addrs ns \<Longrightarrow> node_at h' a = node_at h a) \<Longrightarrow> list_at h' p ns = list_at h p ns"
  using seg_cong [of ns h' h p None] by (simp add: list_at_def)

lemma list_at_None [simp]: "list_at h None ns \<longleftrightarrow> ns = []"
  by (cases ns) (auto simp: list_at_Cons)

lemma seg_fun: "seg h p ns q \<Longrightarrow> seg h p ns q' \<Longrightarrow> q = q'"
  by (induction ns arbitrary: p) auto

lemma list_at_fun: "list_at h p ns \<Longrightarrow> list_at h p ns' \<Longrightarrow> ns = ns'"
proof (induction ns arbitrary: p ns')
  case Nil
  then show ?case by simp
next
  case (Cons n ns)
  from Cons.prems obtain n' ns'' where "ns' = n' # ns''" by (cases ns') (auto simp: list_at_Cons)
  with Cons show ?case by (fastforce simp: list_at_Cons prod_eq_iff)
qed

section \<open>The list before a slot\<close>

definition slot_after :: "nodes \<Rightarrow> slot" where
  "slot_after ms = (if ms = [] then Head else Link (fst (last ms)))"

lemma slot_after_Nil [simp]: "slot_after [] = Head"
  by (simp add: slot_after_def)

lemma slot_after_snoc [simp]: "slot_after (ms @ [n]) = Link (fst n)"
  by (simp add: slot_after_def)

definition same_outside :: "nat set \<Rightarrow> heap \<Rightarrow> heap \<Rightarrow> bool" where
  \<comment> \<open>only nodes of \<open>A\<close> have changed, and new ones may have been added\<close>
  "same_outside A h h' \<longleftrightarrow> length h \<le> length h' \<and> (\<forall>a < length h. a \<notin> A \<longrightarrow> node_at h' a = node_at h a)"

lemma same_outside_refl [simp]: "same_outside A h h"
  by (simp add: same_outside_def)

lemma same_outside_new: "same_outside A h (h @ [n])"
  by (simp add: same_outside_def cell_new)

lemma same_outside_update: "a \<in> A \<Longrightarrow> same_outside A h (h[a := n])"
  by (auto simp: same_outside_def cell_update)

lemma same_outside_trans: "same_outside A h h1 \<Longrightarrow> same_outside A h1 h2 \<Longrightarrow> same_outside A h h2"
  by (auto simp: same_outside_def)

lemma same_outside_mono: "same_outside A h h' \<Longrightarrow> A \<subseteq> B \<Longrightarrow> same_outside B h h'"
  by (auto simp: same_outside_def)

lemma same_outside_cell: "same_outside A h h' \<Longrightarrow> a \<notin> A \<Longrightarrow> node_at h a = Some n \<Longrightarrow> node_at h' a = Some n"
  by (auto simp: same_outside_def dest: cell_length)

lemma same_outside_seg: "same_outside A h h' \<Longrightarrow> seg h p ns q \<Longrightarrow> addrs ns \<inter> A = {} \<Longrightarrow> seg h' p ns q"
  by (rule iffD2 [OF seg_cong [of ns h' h]]) (force simp: same_outside_def dest: seg_node)+

lemma same_outside_linked: "same_outside A h h' \<Longrightarrow> list_at h p ns \<Longrightarrow> addrs ns \<inter> A = {} \<Longrightarrow> list_at h' p ns"
  by (auto simp: list_at_def intro: same_outside_seg)

text \<open>Storing a pointer where a list segment ends.\<close>

lemma set_next_last:
  assumes "seg h p ns q" "ns \<noteq> []" "distinct (map fst ns)"
  obtains h' where "set_next h (Some (fst (last ns))) r = Some h'" "seg h' p ns r"
    "same_outside {fst (last ns)} h h'" "next_of h' (Some (fst (last ns))) = Some r"
proof -
  obtain ns0 n where ns: "ns = ns0 @ [n]" using assms(2) by (metis rev_exhaust)
  let ?h = "h[fst n := \<lparr>node_val = snd n, node_next = r\<rparr>]"
  have c: "node_at h (fst n) = Some \<lparr>node_val = snd n, node_next = q\<rparr>" using assms(1) ns by (auto simp: seg_append)
  have "set_next h (Some (fst n)) r = Some ?h" using c by (simp add: set_next_cell)
  moreover have "seg ?h p ns r" using seg_relink [of h p ns0 n q r] assms ns by simp
  moreover have "next_of ?h (Some (fst n)) = Some r"
    using cell_length [OF c] by (simp add: next_of_def deref_def cell_update)
  ultimately show ?thesis using that [of ?h] ns by (simp add: same_outside_update)
qed

lemma store_slot_after:
  assumes "seg h head ms q" "distinct (map fst ms)"
  obtains h' head' where "store_slot h head (slot_after ms) r = Some (h', head')" "seg h' head' ms r"
    "same_outside (addrs ms) h h'"
proof (cases ms rule: rev_cases)
  case Nil
  with that [of h r] show ?thesis by (simp add: store_slot_def)
next
  case (snoc ms' n)
  then obtain h' where "set_next h (Some (fst n)) r = Some h'" "seg h' head ms r" "same_outside {fst n} h h'"
    using set_next_last [OF assms(1) _ assms(2)] by (metis last_snoc snoc_eq_iff_butlast)
  with snoc that [of h' head] show ?thesis
    by (auto simp: store_slot_def intro: same_outside_mono)
qed

lemma load_slot_after: "seg h head ms q \<Longrightarrow> load_slot h head (slot_after ms) = Some q"
  by (cases ms rule: rev_cases) (auto simp: load_slot_def seg_append heap_simps)

text \<open>\<^verbatim>\<open>create_list\<close> builds the list of its arguments out of new nodes.\<close>

lemma create_loop_linked:
  assumes "list_at h head ns" "ns \<noteq> []" "pos = Some (fst (last ns))"
  shows "\<exists>h' ns'. create_loop h head pos nums = Some (h', head) \<and> list_at h' head (ns @ ns') \<and> vals ns' = nums \<and>
    (\<forall>a. a \<notin> addrs (ns @ ns') \<longrightarrow> node_at h' a = node_at h a)"
  using assms
proof (induction nums arbitrary: h ns pos)
  case Nil
  then show ?case by force
next
  case (Cons x nums)
  then obtain ns0 n where ns: "ns = ns0 @ [n]" by (metis rev_exhaust)
  let ?h1 = "h @ [\<lparr>node_val = x, node_next = None\<rparr>]"
  let ?h2 = "?h1[fst n := \<lparr>node_val = snd n, node_next = Some (length h)\<rparr>]"
  have old: "a < length h" if "a \<in> addrs ns" for a
    using Cons.prems(1) that by (auto simp: list_at_def dest: seg_node)
  have "node_at h (fst n) = Some \<lparr>node_val = snd n, node_next = None\<rparr>" using Cons.prems(1) by (simp add: ns list_at_def seg_append)
  then have cn: "node_at ?h1 (fst n) = Some \<lparr>node_val = snd n, node_next = None\<rparr>" "fst n < length h"
    by (auto simp: cell_new dest: cell_length)
  have "seg ?h2 head ns (Some (length h))"
    using Cons.prems(1) unfolding ns list_at_def by (intro seg_relink [OF seg_new]) auto
  moreover have "node_at ?h2 (length h) = Some \<lparr>node_val = x, node_next = None\<rparr>"
    using cn(2) by (simp add: cell_update cell_new)
  ultimately have "list_at ?h2 head (ns @ [(length h, x)])"
    using old Cons.prems(1) by (fastforce simp: list_at_def seg_append)
  from Cons.IH [OF this] obtain h' ns' where
    h': "create_loop ?h2 head (Some (length h)) nums = Some (h', head)" "list_at h' head (ns @ (length h, x) # ns')" "vals ns' = nums"
    "\<forall>a. a \<notin> addrs (ns @ (length h, x) # ns') \<longrightarrow> node_at h' a = node_at ?h2 a"
    by auto
  have "create_loop h head pos (x # nums) = Some (h', head)"
    using h'(1) cn Cons.prems by (auto simp: new_node_def set_next_cell next_of_cell cell_update ns)
  with h' show ?case
    by (intro exI [of _ h'] exI [of _ "(length h, x) # ns'"]) (auto simp: cell_update cell_new ns)
qed

lemma create_list_linked:
  "\<exists>h' p ns. create_list h nums = Some (h', p) \<and> list_at h' p ns \<and> vals ns = nums"
proof (cases nums)
  case Nil
  then show ?thesis by (simp add: create_list_def)
next
  case (Cons x xs)
  let ?h = "h @ [\<lparr>node_val = x, node_next = None\<rparr>]"
  have "list_at ?h (Some (length h)) [(length h, x)]" by (simp add: list_at_def cell_new)
  from create_loop_linked [OF this, of "Some (length h)" xs] Cons show ?thesis
    by (fastforce simp: create_list_def new_node_def)
qed

end
