(* ===== verification/LcLists.thy ===== *)
theory LcLists
  imports LcHeap
begin

text \<open>
  Programs on linked lists of \<^verbatim>\<open>hobbies/leetcode/algorithms\<close>: reversing (\<^verbatim>\<open>solution_206\<close>), merging
  (\<^verbatim>\<open>solution_21\<close>, \<^verbatim>\<open>solution_23\<close>) and removing (\<^verbatim>\<open>solution_203\<close>, \<^verbatim>\<open>solution_83\<close>,
  \<^verbatim>\<open>solution_82\<close>). Each is the loop of the source over the store of nodes; the specifications
  say which nodes the result links, in which order, so that no node is lost or duplicated.
\<close>

section \<open>solution 206\<close>

partial_function (option) rev_loop :: "heap \<Rightarrow> ref \<Rightarrow> ref \<Rightarrow> (heap \<times> ref) option" where
  "rev_loop h prev node =
     (if node = None then Some (h, prev)
      else do {
        tmp \<leftarrow> next_of h node;
        h1 \<leftarrow> set_next h node prev;
        rev_loop h1 node tmp })"

definition reverseList :: "heap \<Rightarrow> ref \<Rightarrow> (heap \<times> ref) option" where
  "reverseList h head = rev_loop h None head"

partial_function (option) rev2_loop :: "heap \<Rightarrow> ref \<Rightarrow> ref \<Rightarrow> (heap \<times> ref) option" where
  "rev2_loop h tail head = do {
     tmp \<leftarrow> next_of h tail;
     if tmp = None then Some (h, head)
     else do {
       n \<leftarrow> next_of h tmp;
       h1 \<leftarrow> set_next h tail n;
       h2 \<leftarrow> set_next h1 tmp head;
       rev2_loop h2 tail tmp } }"

definition reverseList2 :: "heap \<Rightarrow> ref \<Rightarrow> (heap \<times> ref) option" where
  "reverseList2 h head = rev2_loop h head head"

lemma rev_loop_spec:
  assumes "list_at h node ns" "list_at h prev ms" "addrs ns \<inter> addrs ms = {}"
  shows "\<exists>h' p. rev_loop h prev node = Some (h', p) \<and> list_at h' p (rev ns @ ms) \<and> same_outside (addrs ns) h h'"
  using assms
proof (induction ns arbitrary: h prev node ms)
  case Nil
  then show ?case by (simp add: rev_loop.simps)
next
  case (Cons n ns)
  then obtain r where n: "node = Some (fst n)" "node_at h (fst n) = Some \<lparr>node_val = snd n, node_next = r\<rparr>"
    "list_at h r ns" "fst n \<notin> addrs ns" "fst n \<notin> addrs ms" by (auto simp: list_at_Cons)
  let ?h = "h[fst n := \<lparr>node_val = snd n, node_next = prev\<rparr>]"
  have "list_at ?h r ns" "list_at ?h node (n # ms)" "addrs ns \<inter> addrs (n # ms) = {}"
    using n Cons.prems cell_length [OF n(2)] by (auto simp: list_at_Cons heap_simps)
  from Cons.IH [OF this] obtain h' p where
    h': "rev_loop ?h node r = Some (h', p)" "list_at h' p (rev (n # ns) @ ms)" "same_outside (addrs ns) ?h h'" by auto
  have "rev_loop h prev node = Some (h', p)"
    using n h'(1) by (subst rev_loop.simps) (simp add: next_of_cell set_next_cell)
  moreover have "same_outside (addrs (n # ns)) h h'"
    by (rule same_outside_trans [OF same_outside_update same_outside_mono [OF h'(3)]]) auto
  ultimately show ?case using h'(2) by blast
qed

lemma rev2_loop_spec:
  assumes "seg h head ms (Some (fst t))" "distinct (map fst ms)" "list_at h (Some (fst t)) (t # ns)" "addrs ms \<inter> addrs (t # ns) = {}"
  shows "\<exists>h' p. rev2_loop h (Some (fst t)) head = Some (h', p) \<and> list_at h' p (rev ns @ ms @ [t])"
  using assms
proof (induction ns arbitrary: h head ms)
  case Nil
  then show ?case by (subst rev2_loop.simps) (auto simp: list_at_Cons list_at_append next_of_cell)
next
  case (Cons n ns)
  then obtain r where t: "node_at h (fst t) = Some \<lparr>node_val = snd t, node_next = Some (fst n)\<rparr>"
    and n: "node_at h (fst n) = Some \<lparr>node_val = snd n, node_next = r\<rparr>" "list_at h r ns"
    and new: "fst n \<notin> addrs ns" "fst n \<notin> addrs ms" "fst t \<notin> addrs ns" "fst t \<notin> addrs ms" "fst t \<noteq> fst n"
    by (auto simp: list_at_Cons)
  let ?h1 = "h[fst t := \<lparr>node_val = snd t, node_next = r\<rparr>]"
  let ?h2 = "?h1[fst n := \<lparr>node_val = snd n, node_next = head\<rparr>]"
  have cn: "node_at ?h1 (fst n) = Some \<lparr>node_val = snd n, node_next = r\<rparr>" using n new by (simp add: cell_update)
  have "seg ?h2 (Some (fst n)) (n # ms) (Some (fst t))" "list_at ?h2 (Some (fst t)) (t # ns)"
    "distinct (map fst (n # ms))" "addrs (n # ms) \<inter> addrs (t # ns) = {}"
    using Cons.prems t n new cell_length [OF t] cell_length [OF n(1)] by (auto simp: list_at_Cons heap_simps)
  from Cons.IH [OF this(1,3,2,4)] obtain h' p where
    "rev2_loop ?h2 (Some (fst t)) (Some (fst n)) = Some (h', p)" "list_at h' p (rev (n # ns) @ ms @ [t])" by auto
  then show ?case
    using t n cn by (subst rev2_loop.simps) (simp add: next_of_cell set_next_cell)
qed

text \<open>
  C31: Both reversals relink exactly the nodes of the list, in the opposite order; the second one
  reads through the null pointer when the list is empty.
\<close>

theorem lists_reversed:
  assumes "list_at h head ns"
  shows "(\<exists>h' p. reverseList h head = Some (h', p) \<and> list_at h' p (rev ns)) \<and>
    (if ns = [] then reverseList2 h head = None
     else \<exists>h' p. reverseList2 h head = Some (h', p) \<and> list_at h' p (rev ns))"
proof (cases ns)
  case Nil
  with assms rev_loop_spec [of h head ns None "[]"] show ?thesis
    by (simp add: reverseList_def reverseList2_def rev2_loop.simps) blast
next
  case (Cons t ts)
  with assms rev2_loop_spec [of h head "[]" t ts] rev_loop_spec [of h head ns None "[]"] show ?thesis
    by (force simp: reverseList_def reverseList2_def list_at_Cons)
qed

theorem lists_reversed_witness:
  "\<exists>h' p. reverseList [\<lparr>node_val = 7, node_next = Some 1\<rparr>, \<lparr>node_val = 8, node_next = None\<rparr>] (Some 0) = Some (h', p) \<and>
     list_at h' p [(1, 8), (0, 7)]"
  using lists_reversed [of "[\<lparr>node_val = 7, node_next = Some 1\<rparr>, \<lparr>node_val = 8, node_next = None\<rparr>]" "Some 0" "[(0, 7), (1, 8)]"]
  by (simp add: list_at_def node_at_def)

section \<open>solutions 21 and 23\<close>

partial_function (option) mtl_loop :: "heap \<Rightarrow> ref \<Rightarrow> ref \<Rightarrow> ref \<Rightarrow> (heap \<times> ref \<times> ref \<times> ref) option" where
  "mtl_loop h tail l1 l2 =
     (if l1 \<noteq> None \<and> l2 \<noteq> None then do {
        v1 \<leftarrow> val_of h l1;
        v2 \<leftarrow> val_of h l2;
        if v1 < v2 then do {
          h1 \<leftarrow> set_next h tail l1;
          l1' \<leftarrow> next_of h1 l1;
          tail' \<leftarrow> next_of h1 tail;
          mtl_loop h1 tail' l1' l2 }
        else do {
          h1 \<leftarrow> set_next h tail l2;
          l2' \<leftarrow> next_of h1 l2;
          tail' \<leftarrow> next_of h1 tail;
          mtl_loop h1 tail' l1 l2' } }
      else Some (h, tail, l1, l2))"

definition mergeTwoLists :: "heap \<Rightarrow> ref \<Rightarrow> ref \<Rightarrow> (heap \<times> ref) option" where
  \<comment> \<open>the \<^verbatim>\<open>dummy\<close> on the stack is a new node\<close>
  "mergeTwoLists h l1 l2 =
     (case new_node h 0 of (h0, dummy) \<Rightarrow> do {
        (h1, tail, l1', l2') \<leftarrow> mtl_loop h0 dummy l1 l2;
        h2 \<leftarrow> set_next h1 tail (if l1' \<noteq> None then l1' else l2');
        p \<leftarrow> next_of h2 dummy;
        Some (h2, p) })"

partial_function (option) mtl_loop2 :: "heap \<Rightarrow> ref \<Rightarrow> ref \<Rightarrow> ref \<Rightarrow> (heap \<times> ref \<times> ref \<times> ref) option" where
  \<comment> \<open>\<open>fst_list\<close> says whether \<^verbatim>\<open>tmp\<close> points to \<^verbatim>\<open>l1\<close> or to \<^verbatim>\<open>l2\<close>\<close>
  "mtl_loop2 h tail l1 l2 =
     (if l1 \<noteq> None \<and> l2 \<noteq> None then do {
        v1 \<leftarrow> val_of h l1;
        v2 \<leftarrow> val_of h l2;
        let fst_list = (v1 < v2);
        h1 \<leftarrow> set_next h tail (if fst_list then l1 else l2);
        nx \<leftarrow> next_of h1 (if fst_list then l1 else l2);
        tail' \<leftarrow> next_of h1 tail;
        mtl_loop2 h1 tail' (if fst_list then nx else l1) (if fst_list then l2 else nx) }
      else Some (h, tail, l1, l2))"

definition mergeTwoLists2 :: "heap \<Rightarrow> ref \<Rightarrow> ref \<Rightarrow> (heap \<times> ref) option" where
  "mergeTwoLists2 h l1 l2 =
     (case new_node h 0 of (h0, dummy) \<Rightarrow> do {
        (h1, tail, l1', l2') \<leftarrow> mtl_loop2 h0 dummy l1 l2;
        h2 \<leftarrow> set_next h1 tail (if l1' \<noteq> None then l1' else l2');
        p \<leftarrow> next_of h2 dummy;
        Some (h2, p) })"

function mergeKLists_range :: "heap \<Rightarrow> ref list \<Rightarrow> (heap \<times> ref) option" where
  \<comment> \<open>the pointer and size of the source are the range of the vector\<close>
  "mergeKLists_range h ls =
     (if length ls < 2 then (case ls of [] \<Rightarrow> None | p # _ \<Rightarrow> Some (h, p))
      else if length ls = 2 then mergeTwoLists h (ls ! 0) (ls ! 1)
      else do {
        (h1, first) \<leftarrow> mergeKLists_range h (take (length ls div 2) ls);
        (h2, second) \<leftarrow> mergeKLists_range h1 (drop (length ls div 2) ls);
        mergeTwoLists h2 first second })"
  by pat_completeness auto
termination by (relation "measure (\<lambda>(h, ls). length ls)") auto

definition mergeKLists :: "heap \<Rightarrow> ref list \<Rightarrow> (heap \<times> ref) option" where
  "mergeKLists h ls = (if ls = [] then Some (h, None) else mergeKLists_range h ls)"

declare mergeKLists_range.simps [simp del]

lemma mtl_loop2_same: "mtl_loop h tail l1 l2 = Some r \<Longrightarrow> mtl_loop2 h tail l1 l2 = Some r"
proof (induction h tail l1 l2 r rule: mtl_loop.raw_induct [rotated, consumes 1])
  case (1 f h tail l1 l2 r)
  then show ?case
    by (cases r rule: prod_cases4, subst mtl_loop2.simps) (auto simp: Let_def split: if_splits bind_splits)
qed

fun merged :: "nodes \<Rightarrow> nodes \<Rightarrow> nodes" where
  "merged [] ns = ns"
| "merged ms [] = ms"
| "merged (m # ms) (n # ns) = (if snd m < snd n then m # merged ms (n # ns) else n # merged (m # ms) ns)"

lemma merged_Nil2 [simp]: "merged ms [] = ms"
  by (cases ms) auto

lemma mset_merged: "mset (merged ms ns) = mset ms + mset ns"
  by (induction ms ns rule: merged.induct) auto

lemma set_merged: "set (merged ms ns) = set ms \<union> set ns"
  using mset_merged [of ms ns] by (metis set_mset_mset set_mset_union)

lemma sorted_merged: "sorted (vals ms) \<Longrightarrow> sorted (vals ns) \<Longrightarrow> sorted (vals (merged ms ns))"
  by (induction ms ns rule: merged.induct) (auto simp: set_merged image_Un intro: order_trans less_imp_le)

lemma link_rest:
  assumes "seg h (Some d) ds q" "ds \<noteq> []" "distinct (map fst ds)" "list_at h l rs" "addrs ds \<inter> addrs rs = {}"
  obtains h1 where "set_next h (Some (fst (last ds))) l = Some h1" "list_at h1 (Some d) (ds @ rs)" "same_outside (addrs ds) h h1"
proof -
  obtain h1 where h1: "set_next h (Some (fst (last ds))) l = Some h1" "seg h1 (Some d) ds l" "same_outside {fst (last ds)} h h1"
    by (rule set_next_last [OF assms(1-3)])
  have t: "fst (last ds) \<in> addrs ds" using assms(2) by simp
  have "addrs rs \<inter> {fst (last ds)} = {}" using t assms(5) by (metis disjoint_iff singletonD)
  then have "list_at h1 l rs" by (rule same_outside_linked [OF h1(3) assms(4)])
  then have "list_at h1 (Some d) (ds @ rs)" using h1(2) assms(3,5) by (auto simp: list_at_append)
  moreover have "same_outside (addrs ds) h h1" using h1(3) t by (auto intro: same_outside_mono)
  ultimately show ?thesis using that h1(1) by blast
qed

lemma move_node:
  assumes "seg h (Some d) ds q" "ds \<noteq> []" "distinct (map fst ds)" "list_at h l (n # ns)" "addrs ds \<inter> addrs (n # ns) = {}"
  obtains h1 r where "set_next h (Some (fst (last ds))) l = Some h1" "next_of h1 l = Some r"
    "next_of h1 (Some (fst (last ds))) = Some l" "list_at h1 r ns" "seg h1 (Some d) (ds @ [n]) r" "same_outside (addrs ds) h h1"
proof -
  obtain h1 where h1: "set_next h (Some (fst (last ds))) l = Some h1" "seg h1 (Some d) ds l" "same_outside {fst (last ds)} h h1"
    "next_of h1 (Some (fst (last ds))) = Some l"
    by (rule set_next_last [OF assms(1-3)])
  have t: "fst (last ds) \<in> addrs ds" using assms(2) by simp
  then have "addrs (n # ns) \<inter> {fst (last ds)} = {}" using assms(5) by (metis disjoint_iff singletonD)
  then have "list_at h1 l (n # ns)" by (rule same_outside_linked [OF h1(3) assms(4)])
  then obtain r where "l = Some (fst n)" "node_at h1 (fst n) = Some \<lparr>node_val = snd n, node_next = r\<rparr>" "list_at h1 r ns"
    by (auto simp: list_at_Cons)
  moreover from this have "seg h1 (Some d) (ds @ [n]) r" using h1(2) by (simp add: seg_append)
  moreover have "same_outside (addrs ds) h h1" using h1(3) t by (auto intro: same_outside_mono)
  ultimately show ?thesis using that h1(1,4) by (simp add: next_of_cell)
qed

lemma mtl_loop_spec:
  assumes "seg h (Some d) ds q" "ds \<noteq> []" "distinct (map fst ds)" "list_at h l1 ms" "list_at h l2 ns"
    "addrs ds \<inter> addrs ms = {}" "addrs ds \<inter> addrs ns = {}" "addrs ms \<inter> addrs ns = {}"
  shows "\<exists>h1 tail l1' l2' h2. mtl_loop h (Some (fst (last ds))) l1 l2 = Some (h1, tail, l1', l2') \<and>
    set_next h1 tail (if l1' \<noteq> None then l1' else l2') = Some h2 \<and> list_at h2 (Some d) (ds @ merged ms ns) \<and>
    same_outside (addrs ds \<union> addrs ms \<union> addrs ns) h h2"
  using assms
proof (induction ms ns arbitrary: h ds q l1 l2 rule: merged.induct)
  case (1 ns)
  obtain h2 where "set_next h (Some (fst (last ds))) l2 = Some h2" "list_at h2 (Some d) (ds @ ns)" "same_outside (addrs ds) h h2"
    by (rule link_rest [OF "1.prems"(1,2,3,5,7)])
  with "1.prems"(4) show ?case by (subst mtl_loop.simps) (auto intro: same_outside_mono)
next
  case (2 m ms)
  obtain h2 where "set_next h (Some (fst (last ds))) l1 = Some h2" "list_at h2 (Some d) (ds @ m # ms)" "same_outside (addrs ds) h h2"
    by (rule link_rest [OF "2.prems"(1,2,3,4,6)])
  with "2.prems"(4,5) show ?case
    by (subst mtl_loop.simps) (auto simp: list_at_Cons intro: same_outside_mono)
next
  case (3 m ms n ns)
  let ?A = "addrs ds \<union> addrs (m # ms) \<union> addrs (n # ns)"
  have v: "l1 \<noteq> None" "l2 \<noteq> None" "val_of h l1 = Some (snd m)" "val_of h l2 = Some (snd n)"
    using "3.prems"(4,5) by (auto simp: list_at_Cons val_of_cell)
  show ?case
  proof (cases "snd m < snd n")
    case True
    obtain h1 r where h1: "set_next h (Some (fst (last ds))) l1 = Some h1" "next_of h1 l1 = Some r"
      "next_of h1 (Some (fst (last ds))) = Some l1" "list_at h1 r ms" "seg h1 (Some d) (ds @ [m]) r" "same_outside (addrs ds) h h1"
      by (rule move_node [OF "3.prems"(1,2,3,4,6)])
    have l1: "l1 = Some (fst (last (ds @ [m])))" using "3.prems"(4) by (simp add: list_at_Cons)
    have "list_at h1 l2 (n # ns)" using same_outside_linked [OF h1(6) "3.prems"(5)] "3.prems"(7) by blast
    then obtain h2 tail l1' l2' h3 where
      "mtl_loop h1 l1 r l2 = Some (h2, tail, l1', l2')" "set_next h2 tail (if l1' \<noteq> None then l1' else l2') = Some h3"
      "list_at h3 (Some d) ((ds @ [m]) @ merged ms (n # ns))" "same_outside (addrs (ds @ [m]) \<union> addrs ms \<union> addrs (n # ns)) h1 h3"
      using "3.IH"(1) [OF True h1(5) _ _ h1(4)] "3.prems"(3,4,6,7,8) unfolding l1 by (auto simp: list_at_Cons)
    moreover have "same_outside ?A h h3"
      by (rule same_outside_trans [OF same_outside_mono [OF h1(6)] same_outside_mono [OF calculation(4)]]) auto
    ultimately show ?thesis using v h1 True by (subst mtl_loop.simps) auto
  next
    case False
    obtain h1 r where h1: "set_next h (Some (fst (last ds))) l2 = Some h1" "next_of h1 l2 = Some r"
      "next_of h1 (Some (fst (last ds))) = Some l2" "list_at h1 r ns" "seg h1 (Some d) (ds @ [n]) r" "same_outside (addrs ds) h h1"
      by (rule move_node [OF "3.prems"(1,2,3,5,7)])
    have l2: "l2 = Some (fst (last (ds @ [n])))" using "3.prems"(5) by (simp add: list_at_Cons)
    have "list_at h1 l1 (m # ms)" using same_outside_linked [OF h1(6) "3.prems"(4)] "3.prems"(6) by blast
    then obtain h2 tail l1' l2' h3 where
      "mtl_loop h1 l2 l1 r = Some (h2, tail, l1', l2')" "set_next h2 tail (if l1' \<noteq> None then l1' else l2') = Some h3"
      "list_at h3 (Some d) ((ds @ [n]) @ merged (m # ms) ns)" "same_outside (addrs (ds @ [n]) \<union> addrs (m # ms) \<union> addrs ns) h1 h3"
      using "3.IH"(2) [OF False h1(5) _ _ _ h1(4)] "3.prems"(3,5,6,7,8) unfolding l2 by (auto simp: list_at_Cons)
    moreover have "same_outside ?A h h3"
      by (rule same_outside_trans [OF same_outside_mono [OF h1(6)] same_outside_mono [OF calculation(4)]]) auto
    ultimately show ?thesis using v h1 False by (subst mtl_loop.simps) auto
  qed
qed

lemma mergeTwoLists_spec:
  assumes "list_at h l1 ms" "list_at h l2 ns" "addrs ms \<inter> addrs ns = {}"
  obtains h' p where "mergeTwoLists h l1 l2 = Some (h', p)" "mergeTwoLists2 h l1 l2 = Some (h', p)"
    "list_at h' p (merged ms ns)" "same_outside (addrs ms \<union> addrs ns) h h'"
proof -
  let ?h = "h @ [\<lparr>node_val = 0, node_next = None\<rparr>]" and ?d = "length h"
  have ms: "list_at ?h l1 ms" "?d \<notin> addrs ms" and ns: "list_at ?h l2 ns" "?d \<notin> addrs ns"
    using assms by (auto simp: list_at_def seg_new dest: seg_node)
  obtain h1 tail l1' l2' h2 where r: "mtl_loop ?h (Some ?d) l1 l2 = Some (h1, tail, l1', l2')"
    "set_next h1 tail (if l1' \<noteq> None then l1' else l2') = Some h2" "list_at h2 (Some ?d) ((?d, 0) # merged ms ns)"
    "same_outside (insert ?d (addrs ms \<union> addrs ns)) ?h h2"
    using mtl_loop_spec [of ?h ?d "[(?d, 0)]" None l1 ms l2 ns] ms ns assms(3) by (auto simp: cell_new)
  then obtain p where p: "next_of h2 (Some ?d) = Some p" "list_at h2 p (merged ms ns)"
    by (auto simp: list_at_Cons next_of_cell)
  have "mtl_loop2 ?h (Some ?d) l1 l2 = Some (h1, tail, l1', l2')"
    by (rule mtl_loop2_same [OF r(1)])
  then have "mergeTwoLists h l1 l2 = Some (h2, p)" "mergeTwoLists2 h l1 l2 = Some (h2, p)"
    using r(1,2) p(1) by (simp_all add: mergeTwoLists_def mergeTwoLists2_def new_node_def)
  moreover have "same_outside (addrs ms \<union> addrs ns) h h2"
    using r(4) by (auto simp: same_outside_def cell_new)
  ultimately show ?thesis using that p(2) by blast
qed

lemma list_at_lists_outside:
  assumes "same_outside A h h'" "list_all2 (list_at h) ls nss" "addrs (concat nss) \<inter> A = {}"
  shows "list_all2 (list_at h') ls nss"
  using assms(2,3)
proof (induction rule: list_all2_induct)
  case Nil
  then show ?case by simp
next
  case (Cons l ls ns nss)
  then show ?case using same_outside_linked [OF assms(1) Cons(1)] by (auto simp: image_Un)
qed

lemma mergeKLists_range_spec:
  assumes "list_all2 (list_at h) ls nss" "ls \<noteq> []" "distinct (map fst (concat nss))" "\<forall>ns \<in> set nss. sorted (vals ns)"
  shows "\<exists>h' p ns. mergeKLists_range h ls = Some (h', p) \<and> list_at h' p ns \<and> sorted (vals ns) \<and>
    mset ns = mset (concat nss) \<and> same_outside (addrs (concat nss)) h h'"
  using assms
proof (induction h ls arbitrary: nss rule: mergeKLists_range.induct)
  case (1 h ls)
  have len: "length nss = length ls" using "1.prems"(1) by (simp add: list_all2_lengthD)
  consider "length ls = 1" | "length ls = 2" | "length ls > 2" using "1.prems"(2)
    by (metis One_nat_def Suc_1 length_0_conv less_2_cases linorder_neqE_nat)
  then show ?case
  proof cases
    case 1
    then obtain l ns where "ls = [l]" "nss = [ns]" using len by (auto simp: length_Suc_conv)
    with "1.prems" show ?thesis by (auto simp: mergeKLists_range.simps)
  next
    case 2
    then obtain l1 l2 ms ns where ls: "ls = [l1, l2]" "nss = [ms, ns]"
      using len by (auto simp: numeral_2_eq_2 length_Suc_conv)
    then have l: "list_at h l1 ms" "list_at h l2 ns" "addrs ms \<inter> addrs ns = {}" using "1.prems" by auto
    obtain h' p where "mergeTwoLists h l1 l2 = Some (h', p)"
      "list_at h' p (merged ms ns)" "same_outside (addrs ms \<union> addrs ns) h h'"
      by (rule mergeTwoLists_spec [OF l])
    with ls "1.prems"(4) show ?thesis
      by (auto simp: mergeKLists_range.simps mset_merged image_Un intro!: sorted_merged)
  next
    case 3
    let ?m = "length ls div 2"
    have c: "\<not> length ls < 2" "length ls \<noteq> 2" using 3 by simp_all
    have nss: "nss = take ?m nss @ drop ?m nss" by simp
    have "distinct (map fst (concat (take ?m nss) @ concat (drop ?m nss)))"
      using "1.prems"(3) by (simp flip: concat_append)
    then have d: "distinct (map fst (concat (take ?m nss)))" "distinct (map fst (concat (drop ?m nss)))"
      "addrs (concat (take ?m nss)) \<inter> addrs (concat (drop ?m nss)) = {}"
      by (simp_all del: set_concat)
    have all: "\<forall>ns \<in> set (take ?m nss). sorted (vals ns)" "\<forall>ns \<in> set (drop ?m nss). sorted (vals ns)"
      using "1.prems"(4) by (auto dest: in_set_takeD in_set_dropD)
    have la: "list_all2 (list_at h) (take ?m ls) (take ?m nss)" "list_all2 (list_at h) (drop ?m ls) (drop ?m nss)"
      using "1.prems"(1) by (simp_all add: list_all2_takeI list_all2_dropI)
    have ne: "take ?m ls \<noteq> []" "drop ?m ls \<noteq> []" using 3 by auto
    obtain h1 first ms where 1: "mergeKLists_range h (take ?m ls) = Some (h1, first)" "list_at h1 first ms" "sorted (vals ms)"
      "mset ms = mset (concat (take ?m nss))" "same_outside (addrs (concat (take ?m nss))) h h1"
      using "1.IH"(1) [OF c la(1) ne(1) d(1) all(1)] by blast
    have la2: "list_all2 (list_at h1) (drop ?m ls) (drop ?m nss)"
      by (rule list_at_lists_outside [OF 1(5) la(2)]) (use d(3) in blast)
    obtain h2 second ns where 2: "mergeKLists_range h1 (drop ?m ls) = Some (h2, second)" "list_at h2 second ns" "sorted (vals ns)"
      "mset ns = mset (concat (drop ?m nss))" "same_outside (addrs (concat (drop ?m nss))) h1 h2"
      using "1.IH"(2) [OF c 1(1) refl la2 ne(2) d(2) all(2)] by blast
    have sets: "addrs ms = addrs (concat (take ?m nss))" "addrs ns = addrs (concat (drop ?m nss))"
      using mset_eq_setD [OF 1(4)] mset_eq_setD [OF 2(4)] by simp_all
    have "list_at h2 first ms" by (rule same_outside_linked [OF 2(5) 1(2)]) (use d(3) sets in simp)
    then obtain h' p where 3: "mergeTwoLists h2 first second = Some (h', p)" "list_at h' p (merged ms ns)"
      "same_outside (addrs ms \<union> addrs ns) h2 h'"
      using mergeTwoLists_spec [OF _ 2(2), of first ms] d(3) sets by metis
    let ?A = "addrs (concat nss)"
    have A: "?A = addrs ms \<union> addrs ns" by (subst nss) (simp only: sets concat_append set_append image_Un)
    have "same_outside ?A h h'"
      unfolding A
      by (rule same_outside_trans [OF same_outside_mono [OF 1(5)] same_outside_trans [OF same_outside_mono [OF 2(5)] 3(3)]])
        (simp_all only: sets Un_upper1 Un_upper2)
    moreover have "mset (merged ms ns) = mset (concat nss)"
      by (subst nss) (simp only: mset_merged 1(4) 2(4) concat_append mset_append)
    moreover have "mergeKLists_range h ls = Some (h', p)"
      using c 1(1) 2(1) 3(1) by (subst mergeKLists_range.simps) simp
    ultimately show ?thesis using 3(2) sorted_merged [OF 1(3) 2(3)] by blast
  qed
qed

text \<open>
  C33: Merging sorted lists, two in either way or any number of them, relinks exactly their nodes
  into one sorted list; a vector without lists gives the null pointer.
\<close>

theorem lists_merged:
  assumes "list_all2 (list_at h) ls nss" "distinct (map fst (concat nss))" "\<forall>ns \<in> set nss. sorted (vals ns)"
  shows "(\<exists>h' p ns. mergeKLists h ls = Some (h', p) \<and> list_at h' p ns \<and> sorted (vals ns) \<and> mset ns = mset (concat nss)) \<and>
    (\<forall>l1 l2. ls = [l1, l2] \<longrightarrow> (\<exists>h' p ns. mergeTwoLists h l1 l2 = Some (h', p) \<and> mergeTwoLists2 h l1 l2 = Some (h', p) \<and>
      list_at h' p ns \<and> sorted (vals ns) \<and> mset ns = mset (concat nss)))"
proof (intro conjI allI impI)
  show "\<exists>h' p ns. mergeKLists h ls = Some (h', p) \<and> list_at h' p ns \<and> sorted (vals ns) \<and> mset ns = mset (concat nss)"
  proof (cases "ls = []")
    case True
    with assms(1) show ?thesis by (simp add: mergeKLists_def)
  next
    case False
    from mergeKLists_range_spec [OF assms(1) False assms(2,3)] False show ?thesis by (auto simp: mergeKLists_def)
  qed
next
  fix l1 l2
  assume "ls = [l1, l2]"
  with assms obtain ms ns where ns: "nss = [ms, ns]" and l: "list_at h l1 ms" "list_at h l2 ns" "addrs ms \<inter> addrs ns = {}"
    by (auto simp: list_all2_Cons1)
  obtain h' p where "mergeTwoLists h l1 l2 = Some (h', p)" "mergeTwoLists2 h l1 l2 = Some (h', p)" "list_at h' p (merged ms ns)"
    by (rule mergeTwoLists_spec [OF l])
  moreover have "sorted (vals (merged ms ns))" "mset (merged ms ns) = mset (concat nss)"
    using assms(3) ns by (simp_all add: sorted_merged mset_merged)
  ultimately show "\<exists>h' p ns. mergeTwoLists h l1 l2 = Some (h', p) \<and> mergeTwoLists2 h l1 l2 = Some (h', p) \<and>
      list_at h' p ns \<and> sorted (vals ns) \<and> mset ns = mset (concat nss)" by blast
qed

theorem lists_merged_witness:
  "\<exists>h' p ns. mergeKLists [\<lparr>node_val = 7, node_next = None\<rparr>, \<lparr>node_val = 3, node_next = None\<rparr>] [Some 0, Some 1] = Some (h', p) \<and>
     list_at h' p ns \<and> sorted (vals ns) \<and> mset ns = {#(0, 7), (1, 3)#}"
  using lists_merged [of "[\<lparr>node_val = 7, node_next = None\<rparr>, \<lparr>node_val = 3, node_next = None\<rparr>]" "[Some 0, Some 1]" "[[(0, 7)], [(1, 3)]]"]
  by (simp add: list_at_def node_at_def add_mset_commute)

section \<open>solutions 203, 83 and 82\<close>

partial_function (option) rem_loop :: "heap \<Rightarrow> ref \<Rightarrow> slot \<Rightarrow> ref \<Rightarrow> int \<Rightarrow> (heap \<times> ref) option" where
  "rem_loop h head prev node val =
     (if node = None then Some (h, head)
      else do {
        v \<leftarrow> val_of h node;
        if v = val then do {
          nx \<leftarrow> next_of h node;
          (h1, head1) \<leftarrow> store_slot h head prev nx;
          node' \<leftarrow> next_of h1 node;
          rem_loop h1 head1 prev node' val }
        else do {
          prev' \<leftarrow> next_slot h node;
          node' \<leftarrow> next_of h node;
          rem_loop h head prev' node' val } })"

definition removeElements :: "heap \<Rightarrow> ref \<Rightarrow> int \<Rightarrow> (heap \<times> ref) option" where
  "removeElements h head val = rem_loop h head Head head val"

partial_function (option) dd_loop :: "heap \<Rightarrow> ref \<Rightarrow> ref \<Rightarrow> heap option" where
  "dd_loop h prev node =
     (if node = None then Some h
      else do {
        v \<leftarrow> val_of h node;
        w \<leftarrow> val_of h prev;
        if v = w then do {
          nx \<leftarrow> next_of h node;
          h1 \<leftarrow> set_next h prev nx;
          node' \<leftarrow> next_of h1 node;
          dd_loop h1 prev node' }
        else do {
          node' \<leftarrow> next_of h node;
          dd_loop h node node' } })"

definition deleteDuplicates :: "heap \<Rightarrow> ref \<Rightarrow> (heap \<times> ref) option" where
  "deleteDuplicates h head =
     (if head = None then Some (h, head)
      else do {
        node \<leftarrow> next_of h head;
        h1 \<leftarrow> dd_loop h head node;
        Some (h1, head) })"

partial_function (option) skip_same :: "heap \<Rightarrow> ref \<Rightarrow> ref \<Rightarrow> ref option" where
  \<comment> \<open>the inner loop of \<^verbatim>\<open>solution_82\<close>\<close>
  "skip_same h node ref =
     (if node = None then Some node
      else do {
        v \<leftarrow> val_of h node;
        w \<leftarrow> val_of h ref;
        if v = w then do {
          node' \<leftarrow> next_of h node;
          skip_same h node' ref }
        else Some node })"

partial_function (option) dda_loop :: "heap \<Rightarrow> ref \<Rightarrow> slot \<Rightarrow> ref \<Rightarrow> (heap \<times> ref) option" where
  "dda_loop h head prev node =
     (if node = None then Some (h, head)
      else do {
        nx \<leftarrow> next_of h node;
        same \<leftarrow> (if nx = None then Some False
                 else do { v \<leftarrow> val_of h nx; w \<leftarrow> val_of h node; Some (v = w) });
        if same then do {
          node' \<leftarrow> skip_same h node node;
          (h1, head1) \<leftarrow> store_slot h head prev node';
          dda_loop h1 head1 prev node' }
        else do {
          prev' \<leftarrow> next_slot h node;
          dda_loop h head prev' nx } })"

definition deleteDuplicates_all :: "heap \<Rightarrow> ref \<Rightarrow> (heap \<times> ref) option" where
  \<comment> \<open>\<^verbatim>\<open>deleteDuplicates\<close> of \<^verbatim>\<open>solution_82\<close>\<close>
  "deleteDuplicates_all h head =
     (if head = None then Some (h, head)
      else do {
        nx \<leftarrow> next_of h head;
        if nx = None then Some (h, head) else dda_loop h head Head head })"

lemma rem_loop_spec:
  assumes "seg h head ms node" "list_at h node ns" "distinct (map fst ms)" "addrs ms \<inter> addrs ns = {}"
  shows "\<exists>h' p. rem_loop h head (slot_after ms) node val = Some (h', p) \<and>
    list_at h' p (ms @ filter (\<lambda>n. snd n \<noteq> val) ns)"
  using assms
proof (induction ns arbitrary: h head ms node)
  case Nil
  then show ?case by (subst rem_loop.simps) (auto simp: list_at_def)
next
  case (Cons n ns)
  then obtain r where n: "node = Some (fst n)" "node_at h (fst n) = Some \<lparr>node_val = snd n, node_next = r\<rparr>"
    "list_at h r ns" "fst n \<notin> addrs ns" "fst n \<notin> addrs ms" by (auto simp: list_at_Cons)
  show ?case
  proof (cases "snd n = val")
    case True
    obtain h1 head1 where h1: "store_slot h head (slot_after ms) r = Some (h1, head1)" "seg h1 head1 ms r"
      "same_outside (addrs ms) h h1"
      by (rule store_slot_after [OF Cons.prems(1,3)])
    have "node_at h1 (fst n) = Some \<lparr>node_val = snd n, node_next = r\<rparr>" by (rule same_outside_cell [OF h1(3) n(5,2)])
    moreover have "list_at h1 r ns" by (rule same_outside_linked [OF h1(3) n(3)]) (use Cons.prems(4) in auto)
    ultimately show ?thesis
      using Cons.IH [OF h1(2) _ Cons.prems(3)] Cons.prems(4) n True h1(1)
      by (subst rem_loop.simps) (simp add: val_of_cell next_of_cell)
  next
    case False
    have "seg h head (ms @ [n]) r" using Cons.prems(1) n by (simp add: seg_append)
    then have "\<exists>h' p. rem_loop h head (slot_after (ms @ [n])) r val = Some (h', p) \<and>
        list_at h' p ((ms @ [n]) @ filter (\<lambda>n. snd n \<noteq> val) ns)"
      by (rule Cons.IH) (use n Cons.prems in auto)
    then show ?thesis
      using n False by (subst rem_loop.simps) (simp add: val_of_cell next_of_cell next_slot_cell)
  qed
qed

fun first_of_runs :: "nodes \<Rightarrow> nodes" where
  "first_of_runs (m # n # ns) = (if snd n = snd m then first_of_runs (m # ns) else m # first_of_runs (n # ns))"
| "first_of_runs ns = ns"

lemma vals_first_of_runs: "vals (first_of_runs ns) = remdups_adj (vals ns)"
proof (induction ns rule: first_of_runs.induct)
  case (1 m n ns)
  then show ?case by (cases ns) auto
qed simp_all

lemma dd_loop_spec:
  assumes "seg h head (ms @ [m]) node" "list_at h node ns" "distinct (map fst (ms @ [m]))" "addrs (ms @ [m]) \<inter> addrs ns = {}"
  shows "\<exists>h'. dd_loop h (Some (fst m)) node = Some h' \<and> list_at h' head (ms @ first_of_runs (m # ns))"
  using assms
proof (induction ns arbitrary: h ms m node)
  case Nil
  then show ?case by (subst dd_loop.simps) (auto simp: list_at_def)
next
  case (Cons n ns)
  then obtain r where n: "node = Some (fst n)" "node_at h (fst n) = Some \<lparr>node_val = snd n, node_next = r\<rparr>"
    "list_at h r ns" "fst n \<notin> addrs ns" "fst n \<notin> addrs (ms @ [m])" by (auto simp: list_at_Cons)
  have m: "val_of h (Some (fst m)) = Some (snd m)" using Cons.prems(1) by (auto simp: seg_append val_of_cell)
  show ?case
  proof (cases "snd n = snd m")
    case True
    obtain h1 where h1: "set_next h (Some (fst m)) r = Some h1" "seg h1 head (ms @ [m]) r" "same_outside {fst m} h h1"
      by (rule set_next_last [OF Cons.prems(1) _ Cons.prems(3)]) auto
    have "node_at h1 (fst n) = Some \<lparr>node_val = snd n, node_next = r\<rparr>"
      by (rule same_outside_cell [OF h1(3) _ n(2)]) (use n(5) in auto)
    moreover have "list_at h1 r ns" by (rule same_outside_linked [OF h1(3) n(3)]) (use Cons.prems(4) in auto)
    ultimately show ?thesis
      using Cons.IH [OF h1(2) _ Cons.prems(3)] Cons.prems(4) n m True h1(1)
      by (subst dd_loop.simps) (simp add: val_of_cell next_of_cell)
  next
    case False
    have "seg h head ((ms @ [m]) @ [n]) r" using Cons.prems(1) n by (simp only: seg_append [of _ _ "ms @ [m]"]) simp
    then have "\<exists>h'. dd_loop h (Some (fst n)) r = Some h' \<and> list_at h' head ((ms @ [m]) @ first_of_runs (n # ns))"
      by (rule Cons.IH) (use n Cons.prems in auto)
    then show ?thesis
      using n m False by (subst dd_loop.simps) (simp add: val_of_cell next_of_cell)
  qed
qed

lemma skip_same_spec:
  assumes "list_at h node ns" "val_of h ref = Some v"
  shows "\<exists>p. skip_same h node ref = Some p \<and> list_at h p (dropWhile (\<lambda>n. snd n = v) ns)"
  using assms
proof (induction ns arbitrary: node)
  case Nil
  then show ?case by (simp add: skip_same.simps)
next
  case (Cons n ns)
  then obtain r where "node = Some (fst n)" "node_at h (fst n) = Some \<lparr>node_val = snd n, node_next = r\<rparr>" "list_at h r ns"
    by (auto simp: list_at_Cons)
  with Cons show ?case by (subst skip_same.simps) (auto simp: val_of_cell next_of_cell)
qed

function single_runs :: "nodes \<Rightarrow> nodes" where
  "single_runs [] = []"
| "single_runs [n] = [n]"
| "single_runs (m # n # ns) =
     (if snd n = snd m then single_runs (dropWhile (\<lambda>k. snd k = snd m) ns) else m # single_runs (n # ns))"
  by pat_completeness auto
termination by (relation "measure length") (auto simp: le_imp_less_Suc length_dropWhile_le less_SucI)

lemma dda_loop_spec:
  assumes "seg h head ms node" "list_at h node ns" "distinct (map fst ms)" "addrs ms \<inter> addrs ns = {}"
  shows "\<exists>h' p. dda_loop h head (slot_after ms) node = Some (h', p) \<and> list_at h' p (ms @ single_runs ns)"
  using assms
proof (induction ns arbitrary: h head ms node rule: single_runs.induct)
  case 1
  then show ?case by (subst dda_loop.simps) (auto simp: list_at_def)
next
  case (2 n)
  then have "seg h head (ms @ [n]) None" "dda_loop h head (slot_after (ms @ [n])) None = Some (h, head)"
    by (auto simp: seg_append list_at_def dda_loop.simps)
  with 2 show ?case
    by (subst dda_loop.simps) (auto simp: list_at_Cons next_of_cell next_slot_cell list_at_def)
next
  case (3 m n ns)
  then obtain r where m: "node = Some (fst m)" "node_at h (fst m) = Some \<lparr>node_val = snd m, node_next = Some (fst n)\<rparr>"
    "node_at h (fst n) = Some \<lparr>node_val = snd n, node_next = r\<rparr>" "list_at h r ns" "fst m \<notin> addrs (n # ns)" "fst m \<notin> addrs ms"
    and mn: "list_at h (Some (fst n)) (n # ns)"
    by (auto simp: list_at_Cons)
  let ?rest = "dropWhile (\<lambda>k. snd k = snd m) ns"
  show ?case
  proof (cases "snd n = snd m")
    case True
    obtain p where p: "skip_same h node node = Some p" "list_at h p ?rest"
      using skip_same_spec [OF "3.prems"(2), of node "snd m"] m True by (auto simp: val_of_cell)
    obtain h1 head1 where h1: "store_slot h head (slot_after ms) p = Some (h1, head1)" "seg h1 head1 ms p"
      "same_outside (addrs ms) h h1"
      by (rule store_slot_after [OF "3.prems"(1,3)])
    have sub: "addrs ms \<inter> addrs ?rest = {}" using "3.prems"(4) by (auto dest!: set_dropWhileD)
    have "list_at h1 p ?rest" by (rule same_outside_linked [OF h1(3) p(2)]) (use sub in auto)
    from "3.IH"(1) [OF True h1(2) this "3.prems"(3) sub] show ?thesis
      using True m p(1) h1(1) by (subst dda_loop.simps) (auto simp: val_of_cell next_of_cell)
  next
    case False
    have "seg h head (ms @ [m]) (Some (fst n))" using "3.prems"(1) m by (simp add: seg_append)
    then have "\<exists>h' p. dda_loop h head (slot_after (ms @ [m])) (Some (fst n)) = Some (h', p) \<and>
        list_at h' p ((ms @ [m]) @ single_runs (n # ns))"
      by (rule "3.IH"(2) [OF False _ mn]) (use m "3.prems" in auto)
    then show ?thesis
      using m False by (subst dda_loop.simps) (simp add: val_of_cell next_of_cell next_slot_cell)
  qed
qed

lemma count_none: "\<forall>k \<in> set xs. snd k = v \<Longrightarrow> v \<noteq> w \<Longrightarrow> count_list (vals xs) w = 0"
  by (induction xs) auto

lemma single_runs_count:
  "sorted (vals ns) \<Longrightarrow> single_runs ns = filter (\<lambda>n. count_list (vals ns) (snd n) = 1) ns"
proof (induction ns rule: single_runs.induct)
  case (3 m n ns)
  show ?case
  proof (cases "snd n = snd m")
    case True
    let ?rest = "dropWhile (\<lambda>k. snd k = snd m) ns"
    let ?eq = "takeWhile (\<lambda>k. snd k = snd m) ns"
    have ns: "ns = ?eq @ ?rest" by simp
    have s: "sorted (vals (?eq @ ?rest))" using "3.prems" by simp
    then have srest: "sorted (vals ?rest)" unfolding map_append sorted_append by blast
    have gt: "\<forall>k \<in> set ?rest. snd m < snd k"
    proof (cases ?rest)
      case Nil
      then show ?thesis by (simp only: list.set ball_empty)
    next
      case (Cons k ks)
      then have "snd k \<noteq> snd m" using hd_dropWhile [of "\<lambda>k. snd k = snd m" ns] by auto
      moreover have "k \<in> set ns" by (rule set_dropWhileD [of k "\<lambda>k. snd k = snd m"]) (simp add: Cons)
      ultimately have "snd m < snd k" using "3.prems" by force
      with Cons srest show ?thesis by auto
    qed
    have eq: "\<forall>k \<in> set ?eq. snd k = snd m" by (auto dest: set_takeWhileD)
    have cnt: "count_list (vals (m # n # ns)) (snd k) = count_list (vals ?rest) (snd k)" if "k \<in> set ?rest" for k
    proof -
      have "snd m \<noteq> snd k" using gt that by force
      moreover have "count_list (vals ?eq) (snd k) = 0"  by (rule count_none [OF eq \<open>snd m \<noteq> snd k\<close>])
      moreover have "count_list (vals ns) (snd k) = count_list (vals (?eq @ ?rest)) (snd k)" by simp
      ultimately show ?thesis using True by (simp only: list.map count_list.simps map_append count_list_append) simp
    qed
    have two: "count_list (vals (m # n # ns)) (snd m) \<noteq> 1" using True by simp
    have none: "filter (\<lambda>k. count_list (vals (m # n # ns)) (snd k) = 1) ?eq = []"
      unfolding filter_empty_conv using eq two by metis
    have "filter (\<lambda>k. count_list (vals (m # n # ns)) (snd k) = 1) (m # n # ns)
        = filter (\<lambda>k. count_list (vals (m # n # ns)) (snd k) = 1) (?eq @ ?rest)"
      using True by (subst ns [symmetric]) simp
    also have "\<dots> = filter (\<lambda>k. count_list (vals (m # n # ns)) (snd k) = 1) ?rest"
      by (simp only: filter_append none append_Nil)
    also have "\<dots> = filter (\<lambda>k. count_list (vals ?rest) (snd k) = 1) ?rest"
      by (rule filter_cong) (simp_all only: cnt)
    finally show ?thesis using "3.IH"(1) [OF True srest] True by simp
  next
    case False
    then have "\<forall>k \<in> set (n # ns). snd m < snd k" using "3.prems" by force
    then have "count_list (vals (n # ns)) (snd m) = 0" by (force simp: count_list_0_iff)
    moreover have "filter (\<lambda>k. count_list (vals (m # n # ns)) (snd k) = 1) (n # ns) =
        filter (\<lambda>k. count_list (vals (n # ns)) (snd k) = 1) (n # ns)"
      by (rule filter_cong) (use \<open>\<forall>k \<in> set (n # ns). snd m < snd k\<close> in auto)
    ultimately show ?thesis using "3.IH"(2) [OF False] "3.prems" False by simp
  qed
qed simp_all

text \<open>
  Removing from a list: the nodes with a value, the repetitions of each run, and, from a sorted
  list, every node whose value is not alone. The remaining nodes keep their order and the result
  is a proper list, also when the first nodes go.
\<close>

theorem lists_filtered:
  assumes "list_at h head ns" "list_at h head' ms" "sorted (vals ms)"
  shows "(\<exists>h' p. removeElements h head val = Some (h', p) \<and> list_at h' p (filter (\<lambda>n. snd n \<noteq> val) ns)) \<and>
    (\<exists>h' p ks. deleteDuplicates h head = Some (h', p) \<and> list_at h' p ks \<and> vals ks = remdups_adj (vals ns) \<and> set ks \<subseteq> set ns) \<and>
    (\<exists>h' p. deleteDuplicates_all h head' = Some (h', p) \<and> list_at h' p (filter (\<lambda>n. count_list (vals ms) (snd n) = 1) ms))"
proof (intro conjI)
  show "\<exists>h' p. removeElements h head val = Some (h', p) \<and> list_at h' p (filter (\<lambda>n. snd n \<noteq> val) ns)"
    using rem_loop_spec [of h head "[]" head ns val] assms(1) by (simp add: removeElements_def)
next
  have sub: "set (first_of_runs ns) \<subseteq> set ns" for ns by (induction ns rule: first_of_runs.induct) auto
  show "\<exists>h' p ks. deleteDuplicates h head = Some (h', p) \<and> list_at h' p ks \<and> vals ks = remdups_adj (vals ns) \<and> set ks \<subseteq> set ns"
  proof (cases ns)
    case Nil
    with assms(1) show ?thesis by (simp add: deleteDuplicates_def)
  next
    case (Cons n ns')
    with assms(1) obtain r where n: "head = Some (fst n)" "node_at h (fst n) = Some \<lparr>node_val = snd n, node_next = r\<rparr>"
      "list_at h r ns'" "fst n \<notin> addrs ns'" by (auto simp: list_at_Cons)
    then obtain h' where "dd_loop h head r = Some h'" "list_at h' head (first_of_runs ns)"
      using dd_loop_spec [of h head "[]" n r ns'] Cons by auto
    with n sub [of ns] show ?thesis
      by (intro exI [of _ h'] exI [of _ head] exI [of _ "first_of_runs ns"])
        (simp add: deleteDuplicates_def next_of_cell vals_first_of_runs)
  qed
next
  have "\<exists>h' p. deleteDuplicates_all h head' = Some (h', p) \<and> list_at h' p (single_runs ms)"
  proof (cases ms rule: single_runs.cases)
    case 1
    with assms(2) show ?thesis by (simp add: deleteDuplicates_all_def)
  next
    case (2 n)
    with assms(2) show ?thesis by (simp add: deleteDuplicates_all_def list_at_Cons next_of_cell)
  next
    case (3 m n ns)
    with assms(2) have "head' \<noteq> None" "next_of h head' = Some (Some (fst n))"
      by (auto simp: list_at_Cons next_of_cell)
    with dda_loop_spec [of h head' "[]" head' ms] assms(2) show ?thesis
      by (auto simp: deleteDuplicates_all_def)
  qed
  then show "\<exists>h' p. deleteDuplicates_all h head' = Some (h', p) \<and>
      list_at h' p (filter (\<lambda>n. count_list (vals ms) (snd n) = 1) ms)"
    using single_runs_count [OF assms(3)] by simp
qed

theorem lists_filtered_witness:
  "\<exists>h' p. deleteDuplicates_all [\<lparr>node_val = 7, node_next = Some 1\<rparr>, \<lparr>node_val = 7, node_next = Some 2\<rparr>, \<lparr>node_val = 8, node_next = None\<rparr>]
     (Some 0) = Some (h', p) \<and> list_at h' p [(2, 8)]"
  using lists_filtered [of "[\<lparr>node_val = 7, node_next = Some 1\<rparr>, \<lparr>node_val = 7, node_next = Some 2\<rparr>, \<lparr>node_val = 8, node_next = None\<rparr>]"
      "Some 0" "[(0, 7), (1, 7), (2, 8)]" "Some 0" "[(0, 7), (1, 7), (2, 8)]"]
  by (simp add: list_at_def node_at_def)

end
