(* ===== verification/LcRelink.thy ===== *)
theory LcRelink
  imports LcLists
begin

text \<open>
  Rearranging linked lists of \<^verbatim>\<open>hobbies/leetcode/algorithms\<close>: swapping neighbours
  (\<^verbatim>\<open>solution_24\<close>), partitioning (\<^verbatim>\<open>solution_86\<close>), reversing a range (\<^verbatim>\<open>solution_92\<close>) and
  removing the node at a distance from the end (\<^verbatim>\<open>solution_19\<close>).
\<close>

section \<open>solution 24\<close>

partial_function (option) swap_loop :: "heap \<Rightarrow> ref \<Rightarrow> slot \<Rightarrow> ref \<Rightarrow> (heap \<times> ref) option" where
  "swap_loop h head prev slow =
     (if slow = None then Some (h, head)
      else do {
        fast \<leftarrow> next_of h slow;
        if fast = None then Some (h, head)
        else do {
          nx \<leftarrow> next_of h fast;
          (h1, head1) \<leftarrow> store_slot h head prev fast;
          h2 \<leftarrow> set_next h1 fast slow;
          h3 \<leftarrow> set_next h2 slow nx;
          prev' \<leftarrow> next_slot h3 slow;
          swap_loop h3 head1 prev' nx } })"

definition swapPairs :: "heap \<Rightarrow> ref \<Rightarrow> (heap \<times> ref) option" where
  "swapPairs h head = swap_loop h head Head head"

fun swapped :: "'a list \<Rightarrow> 'a list" where
  "swapped (a # b # xs) = b # a # swapped xs"
| "swapped xs = xs"

lemma swap_loop_spec:
  assumes "seg h head ms slow" "list_at h slow ns" "distinct (map fst ms)" "addrs ms \<inter> addrs ns = {}"
  shows "\<exists>h' p. swap_loop h head (slot_after ms) slow = Some (h', p) \<and> list_at h' p (ms @ swapped ns)"
  using assms
proof (induction ns arbitrary: h head ms slow rule: swapped.induct)
  case (1 a b ns)
  then obtain r where a: "slow = Some (fst a)" "node_at h (fst a) = Some \<lparr>node_val = snd a, node_next = Some (fst b)\<rparr>"
    and b: "node_at h (fst b) = Some \<lparr>node_val = snd b, node_next = r\<rparr>" "list_at h r ns"
    and new: "fst a \<noteq> fst b" "fst a \<notin> addrs ns" "fst b \<notin> addrs ns" "fst a \<notin> addrs ms" "fst b \<notin> addrs ms"
    by (auto simp: list_at_Cons)
  obtain h1 head1 where h1: "store_slot h head (slot_after ms) (Some (fst b)) = Some (h1, head1)" "seg h1 head1 ms (Some (fst b))"
    "same_outside (addrs ms) h h1"
    by (rule store_slot_after [OF "1.prems"(1,3)])
  have c: "node_at h1 (fst a) = Some \<lparr>node_val = snd a, node_next = Some (fst b)\<rparr>" "node_at h1 (fst b) = Some \<lparr>node_val = snd b, node_next = r\<rparr>"
    "list_at h1 r ns"
    using same_outside_cell [OF h1(3) new(4) a(2)] same_outside_cell [OF h1(3) new(5) b(1)]
      same_outside_linked [OF h1(3) b(2)] "1.prems"(4) by auto
  let ?h2 = "h1[fst b := \<lparr>node_val = snd b, node_next = slow\<rparr>]"
  let ?h3 = "?h2[fst a := \<lparr>node_val = snd a, node_next = r\<rparr>]"
  have c2: "node_at ?h2 (fst a) = Some \<lparr>node_val = snd a, node_next = Some (fst b)\<rparr>" using c new by (simp add: cell_update)
  have c3: "node_at ?h3 (fst a) = Some \<lparr>node_val = snd a, node_next = r\<rparr>" "node_at ?h3 (fst b) = Some \<lparr>node_val = snd b, node_next = slow\<rparr>"
    using new cell_length [OF c(1)] cell_length [OF c(2)] by (simp_all add: cell_update)
  have "seg ?h3 head1 (ms @ [b, a]) r" "list_at ?h3 r ns"
    using h1(2) c(3) c3 new a(1) by (simp_all add: seg_append seg_write list_at_write)
  then have "\<exists>h' p. swap_loop ?h3 head1 (slot_after (ms @ [b, a])) r = Some (h', p) \<and> list_at h' p ((ms @ [b, a]) @ swapped ns)"
    by (rule "1.IH") (use "1.prems" new in auto)
  moreover have "slot_after (ms @ [b, a]) = Link (fst a)" by (simp add: slot_after_def)
  ultimately show ?case
    using a b(1) h1(1) c(1,2) c2 c3(1) by (subst swap_loop.simps) (simp add: next_of_cell set_next_cell next_slot_cell)
qed (subst swap_loop.simps, auto simp: list_at_Cons seg_append list_at_def next_of_cell)+

section \<open>solution 86\<close>

partial_function (option) part_loop :: "heap \<Rightarrow> ref \<Rightarrow> ref \<Rightarrow> slot \<Rightarrow> slot \<Rightarrow> ref \<Rightarrow> int \<Rightarrow> (heap \<times> ref \<times> ref \<times> slot \<times> slot) option" where
  \<comment> \<open>\<open>f\<close> and \<open>s\<close> are the links of the two dummies on the stack, \<^verbatim>\<open>first.next\<close> and \<^verbatim>\<open>second.next\<close>\<close>
  "part_loop h f s middle end_slot node x =
     (if node = None then Some (h, f, s, middle, end_slot)
      else do {
        nx \<leftarrow> next_of h node;
        v \<leftarrow> val_of h node;
        if v < x then do {
          (h1, f1) \<leftarrow> store_slot h f middle node;
          middle' \<leftarrow> next_slot h1 node;
          part_loop h1 f1 s middle' end_slot nx x }
        else do {
          (h1, s1) \<leftarrow> store_slot h s end_slot node;
          end' \<leftarrow> next_slot h1 node;
          part_loop h1 f s1 middle end' nx x } })"

definition partition_list :: "heap \<Rightarrow> ref \<Rightarrow> int \<Rightarrow> (heap \<times> ref) option" where
  \<comment> \<open>\<^verbatim>\<open>partition\<close>\<close>
  "partition_list h head x = do {
     (h1, f, s, middle, end_slot) \<leftarrow> part_loop h None None Head Head head x;
     (h2, f2) \<leftarrow> store_slot h1 f middle s;
     (h3, s3) \<leftarrow> store_slot h2 s end_slot None;
     Some (h3, f2) }"

lemma part_loop_spec:
  assumes "seg h f as qa" "seg h s bs qb" "list_at h node ns" "distinct (map fst (as @ bs @ ns))" "bs = [] \<longrightarrow> qb = None"
  shows "\<exists>h' f' s' qa' qb'. part_loop h f s (slot_after as) (slot_after bs) node x =
      Some (h', f', s', slot_after (as @ filter (\<lambda>n. snd n < x) ns), slot_after (bs @ filter (\<lambda>n. \<not> snd n < x) ns)) \<and>
    seg h' f' (as @ filter (\<lambda>n. snd n < x) ns) qa' \<and> seg h' s' (bs @ filter (\<lambda>n. \<not> snd n < x) ns) qb' \<and>
    (bs @ filter (\<lambda>n. \<not> snd n < x) ns = [] \<longrightarrow> qb' = None)"
  using assms
proof (induction ns arbitrary: h f s as bs qa qb node)
  case Nil
  then show ?case by (subst part_loop.simps) auto
next
  case (Cons n ns)
  then obtain r where n: "node = Some (fst n)" "node_at h (fst n) = Some \<lparr>node_val = snd n, node_next = r\<rparr>" "list_at h r ns"
    by (auto simp: list_at_Cons)
  have new: "fst n \<notin> addrs as" "fst n \<notin> addrs bs" "addrs as \<inter> addrs bs = {}" "addrs as \<inter> addrs ns = {}" "addrs bs \<inter> addrs ns = {}"
    using Cons.prems(4) by auto
  show ?case
  proof (cases "snd n < x")
    case True
    obtain h1 f1 where h1: "store_slot h f (slot_after as) node = Some (h1, f1)" "seg h1 f1 as node" "same_outside (addrs as) h h1"
      by (rule store_slot_after [OF Cons.prems(1)]) (use Cons.prems(4) in auto)
    have c: "node_at h1 (fst n) = Some \<lparr>node_val = snd n, node_next = r\<rparr>" by (rule same_outside_cell [OF h1(3) new(1) n(2)])
    have "seg h1 f1 (as @ [n]) r" using h1(2) c n(1) by (simp add: seg_append)
    moreover have "seg h1 s bs qb" by (rule same_outside_seg [OF h1(3) Cons.prems(2)]) (use new in auto)
    moreover have "list_at h1 r ns" by (rule same_outside_linked [OF h1(3) n(3)]) (use new in auto)
    ultimately have "\<exists>h' f' s' qa' qb'. part_loop h1 f1 s (slot_after (as @ [n])) (slot_after bs) r x =
        Some (h', f', s', slot_after ((as @ [n]) @ filter (\<lambda>n. snd n < x) ns), slot_after (bs @ filter (\<lambda>n. \<not> snd n < x) ns)) \<and>
      seg h' f' ((as @ [n]) @ filter (\<lambda>n. snd n < x) ns) qa' \<and> seg h' s' (bs @ filter (\<lambda>n. \<not> snd n < x) ns) qb' \<and>
      (bs @ filter (\<lambda>n. \<not> snd n < x) ns = [] \<longrightarrow> qb' = None)"
      by (rule Cons.IH) (use Cons.prems(4,5) in auto)
    then show ?thesis using n h1(1) c True by (subst part_loop.simps) (simp add: next_of_cell val_of_cell next_slot_cell)
  next
    case False
    obtain h1 s1 where h1: "store_slot h s (slot_after bs) node = Some (h1, s1)" "seg h1 s1 bs node" "same_outside (addrs bs) h h1"
      by (rule store_slot_after [OF Cons.prems(2)]) (use Cons.prems(4) in auto)
    have c: "node_at h1 (fst n) = Some \<lparr>node_val = snd n, node_next = r\<rparr>" by (rule same_outside_cell [OF h1(3) new(2) n(2)])
    have "seg h1 s1 (bs @ [n]) r" using h1(2) c n(1) by (simp add: seg_append)
    moreover have "seg h1 f as qa" by (rule same_outside_seg [OF h1(3) Cons.prems(1)]) (use new in auto)
    moreover have "list_at h1 r ns" by (rule same_outside_linked [OF h1(3) n(3)]) (use new in auto)
    ultimately have "\<exists>h' f' s' qa' qb'. part_loop h1 f s1 (slot_after as) (slot_after (bs @ [n])) r x =
        Some (h', f', s', slot_after (as @ filter (\<lambda>n. snd n < x) ns), slot_after ((bs @ [n]) @ filter (\<lambda>n. \<not> snd n < x) ns)) \<and>
      seg h' f' (as @ filter (\<lambda>n. snd n < x) ns) qa' \<and> seg h' s' ((bs @ [n]) @ filter (\<lambda>n. \<not> snd n < x) ns) qb' \<and>
      ((bs @ [n]) @ filter (\<lambda>n. \<not> snd n < x) ns = [] \<longrightarrow> qb' = None)"
      by (intro Cons.IH) (use Cons.prems(4) in auto)
    then show ?thesis using n h1(1) c False by (subst part_loop.simps) (simp add: next_of_cell val_of_cell next_slot_cell)
  qed
qed

lemma partition_list_spec:
  assumes "list_at h head ns"
  shows "\<exists>h' p. partition_list h head x = Some (h', p) \<and>
    list_at h' p (filter (\<lambda>n. snd n < x) ns @ filter (\<lambda>n. \<not> snd n < x) ns)"
proof -
  let ?a = "filter (\<lambda>n. snd n < x) ns" and ?b = "filter (\<lambda>n. \<not> snd n < x) ns"
  have dist: "distinct (map fst ?a)" "distinct (map fst ?b)" "addrs ?a \<inter> addrs ?b = {}"
    using assms by (auto simp: list_at_def distinct_map inj_on_def)
  obtain h1 f s qa qb where 1: "part_loop h None None Head Head head x = Some (h1, f, s, slot_after ?a, slot_after ?b)"
    "seg h1 f ?a qa" "seg h1 s ?b qb" "?b = [] \<longrightarrow> qb = None"
    using part_loop_spec [of h None "[]" None None "[]" None head ns x] assms by (auto simp: list_at_def)
  obtain h2 f2 where 2: "store_slot h1 f (slot_after ?a) s = Some (h2, f2)" "seg h2 f2 ?a s" "same_outside (addrs ?a) h1 h2"
    by (rule store_slot_after [OF 1(2) dist(1)])
  have s2: "seg h2 s ?b qb" by (rule same_outside_seg [OF 2(3) 1(3)]) (use dist(3) in auto)
  obtain h3 s3 where 3: "store_slot h2 s (slot_after ?b) None = Some (h3, s3)" "seg h3 s3 ?b None" "same_outside (addrs ?b) h2 h3"
    by (rule store_slot_after [OF s2 dist(2)])
  have "s3 = s" using 3(1,2) s2 1(4) by (cases "?b = []") (auto simp: store_slot_def slot_after_def split: option.splits)
  moreover have "seg h3 f2 ?a s" by (rule same_outside_seg [OF 3(3) 2(2) dist(3)])
  ultimately have "list_at h3 f2 (?a @ ?b)" using 3(2) dist by (auto simp: list_at_def seg_append)
  then show ?thesis using 1(1) 2(1) 3(1) by (simp add: partition_list_def)
qed

section \<open>solution 92\<close>

partial_function (option) find_pos :: "heap \<Rightarrow> slot \<Rightarrow> ref \<Rightarrow> int \<Rightarrow> int \<Rightarrow> (slot \<times> ref \<times> int) option" where
  \<comment> \<open>the first loop: the slot and the node at position \<open>m\<close>\<close>
  "find_pos h prev cur pos m =
     (if cur \<noteq> None \<and> pos < m then do {
        prev' \<leftarrow> next_slot h cur;
        cur' \<leftarrow> next_of h cur;
        find_pos h prev' cur' (pos + 1) m }
      else Some (prev, cur, pos))"

partial_function (option) turn_loop :: "heap \<Rightarrow> ref \<Rightarrow> ref \<Rightarrow> int \<Rightarrow> int \<Rightarrow> (heap \<times> ref) option" where
  \<comment> \<open>the second loop\<close>
  "turn_loop h tail pos_node pos n = do {
     cur \<leftarrow> next_of h tail;
     if cur \<noteq> None \<and> pos < n then do {
       nx \<leftarrow> next_of h cur;
       h1 \<leftarrow> set_next h tail nx;
       h2 \<leftarrow> set_next h1 cur pos_node;
       turn_loop h2 tail cur (pos + 1) n }
     else Some (h, pos_node) }"

definition reverseBetween :: "heap \<Rightarrow> ref \<Rightarrow> int \<Rightarrow> int \<Rightarrow> (heap \<times> ref) option" where
  "reverseBetween h head m n = do {
     (prev, cur, pos) \<leftarrow> find_pos h Head head 1 m;
     if cur = None then Some (h, head)
     else do {
       (h1, pos_node) \<leftarrow> turn_loop h cur cur pos n;
       store_slot h1 head prev pos_node } }"

lemma seg_start: "seg h head [] head"
  by simp

lemma find_pos_spec:
  assumes "seg h head ms cur" "list_at h cur ns"
  shows "\<exists>cur' ms' ns' pos'. find_pos h (slot_after ms) cur pos m = Some (slot_after (ms @ ms'), cur', pos') \<and>
    seg h head (ms @ ms') cur' \<and> list_at h cur' ns' \<and> ns = ms' @ ns' \<and>
    ms' = take (nat (m - pos)) ns \<and> (ns' \<noteq> [] \<longrightarrow> pos' = max pos m)"
  using assms
proof (induction ns arbitrary: ms cur pos)
  case Nil
  then show ?case by (subst find_pos.simps) auto
next
  case (Cons n ns)
  then obtain r where n: "cur = Some (fst n)" "node_at h (fst n) = Some \<lparr>node_val = snd n, node_next = r\<rparr>" "list_at h r ns"
    by (auto simp: list_at_Cons)
  show ?case
  proof (cases "pos < m")
    case True
    have "seg h head (ms @ [n]) r" using Cons.prems(1) n by (simp add: seg_append)
    then obtain cur' ms' ns' pos' where r: "find_pos h (slot_after (ms @ [n])) r (pos + 1) m = Some (slot_after ((ms @ [n]) @ ms'), cur', pos')"
      "seg h head ((ms @ [n]) @ ms') cur'" "list_at h cur' ns'" "ns = ms' @ ns'" "ms' = take (nat (m - (pos + 1))) ns"
      "ns' \<noteq> [] \<longrightarrow> pos' = max (pos + 1) m"
      using Cons.IH [OF _ n(3), of "ms @ [n]" "pos + 1"] by blast
    have "find_pos h (slot_after ms) cur pos m = Some (slot_after (ms @ n # ms'), cur', pos')"
      using r(1) n True by (subst find_pos.simps) (simp add: next_slot_cell next_of_cell)
    moreover have "seg h head (ms @ n # ms') cur'" using r(2) by simp
    moreover have "n # ms' = take (nat (m - pos)) (n # ns)"
    proof -
      have "nat (m - pos) = Suc (nat (m - (pos + 1)))" using True by linarith
      with r(5) show ?thesis by simp
    qed
    moreover have "n # ns = (n # ms') @ ns'" using r(4) by simp
    moreover have "ns' \<noteq> [] \<longrightarrow> pos' = max pos m" using r(6) True by simp
    ultimately show ?thesis using r(3) by blast
  next
    case False
    with Cons.prems show ?thesis
      by (subst find_pos.simps, intro exI [of _ cur] exI [of _ "[]"] exI [of _ "n # ns"] exI [of _ pos]) simp
  qed
qed

lemma turn_loop_spec:
  assumes "seg h p as (Some (fst t))" "list_at h (Some (fst t)) (t # ns)" "distinct (map fst as)" "addrs as \<inter> addrs (t # ns) = {}"
  shows "\<exists>h' p'. turn_loop h (Some (fst t)) p pos n = Some (h', p') \<and>
    list_at h' p' (rev (take (nat (n - pos)) ns) @ as @ t # drop (nat (n - pos)) ns) \<and>
    same_outside (addrs (as @ t # ns)) h h'"
  using assms
proof (induction ns arbitrary: h p as pos)
  case Nil
  then show ?case by (subst turn_loop.simps) (auto simp: list_at_Cons list_at_append next_of_cell)
next
  case (Cons u ns)
  then obtain r where t: "node_at h (fst t) = Some \<lparr>node_val = snd t, node_next = Some (fst u)\<rparr>"
    and u: "node_at h (fst u) = Some \<lparr>node_val = snd u, node_next = r\<rparr>" "list_at h r ns"
    and new: "fst u \<notin> addrs ns" "fst u \<notin> addrs as" "fst t \<notin> addrs ns" "fst t \<notin> addrs as" "fst t \<noteq> fst u"
    by (auto simp: list_at_Cons)
  show ?case
  proof (cases "pos < n")
    case True
    let ?h1 = "h[fst t := \<lparr>node_val = snd t, node_next = r\<rparr>]"
    let ?h2 = "?h1[fst u := \<lparr>node_val = snd u, node_next = p\<rparr>]"
    have cu: "node_at ?h1 (fst u) = Some \<lparr>node_val = snd u, node_next = r\<rparr>" using u new by (simp add: cell_update)
    have "seg ?h2 (Some (fst u)) (u # as) (Some (fst t))" "list_at ?h2 (Some (fst t)) (t # ns)"
      "distinct (map fst (u # as))" "addrs (u # as) \<inter> addrs (t # ns) = {}"
      using Cons.prems t u new cell_length [OF t] cell_length [OF u(1)] by (auto simp: list_at_Cons heap_simps)
    from Cons.IH [OF this] obtain h' p' where r: "turn_loop ?h2 (Some (fst t)) (Some (fst u)) (pos + 1) n = Some (h', p')"
      "list_at h' p' (rev (take (nat (n - (pos + 1))) ns) @ (u # as) @ t # drop (nat (n - (pos + 1))) ns)"
      "same_outside (addrs ((u # as) @ t # ns)) ?h2 h'" by blast
    have "nat (n - pos) = Suc (nat (n - (pos + 1)))" using True by simp
    moreover have "same_outside (addrs (as @ t # u # ns)) h h'"
      by (rule same_outside_trans [OF same_outside_trans [OF same_outside_update same_outside_update] same_outside_mono [OF r(3)]]) auto
    ultimately show ?thesis using r(1,2) t u cu True
      by (subst turn_loop.simps) (simp add: next_of_cell set_next_cell)
  next
    case False
    with Cons.prems t show ?thesis by (subst turn_loop.simps) (auto simp: list_at_append next_of_cell)
  qed
qed

lemma reverseBetween_spec:
  fixes m n :: int
  assumes "list_at h head ns"
  defines "a \<equiv> nat (m - 1)" and "b \<equiv> nat (n - max 1 m) + 1"
  shows "\<exists>h' p. reverseBetween h head m n = Some (h', p) \<and>
    list_at h' p (take a ns @ rev (take b (drop a ns)) @ drop b (drop a ns))"
proof -
  obtain cur ms rest pos where 1: "find_pos h Head head 1 m = Some (slot_after ms, cur, pos)" "seg h head ms cur"
    "list_at h cur rest" "ns = ms @ rest" "ms = take a ns" "rest \<noteq> [] \<longrightarrow> pos = max 1 m"
    using find_pos_spec [OF seg_start assms(1), of 1 m] unfolding a_def append_Nil slot_after_Nil by blast
  have rest: "rest = drop a ns" 
  proof -
    have "ms @ rest = ms @ drop a ns" using 1(4,5) append_take_drop_id [of a ns] by metis
    then show ?thesis by simp
  qed
  show ?thesis
  proof (cases rest)
    case Nil
    then have "drop a ns = []" "take a ns = ns" using rest by simp_all
    with Nil 1(1,3) assms(1) show ?thesis by (simp add: reverseBetween_def)
  next
    case (Cons t ts)
    have dist: "distinct (map fst ms)" "addrs ms \<inter> addrs (t # ts) = {}" using assms(1) 1(4) Cons by (auto simp: list_at_def)
    have cur: "cur = Some (fst t)" using 1(3) Cons by (simp add: list_at_Cons)
    obtain h1 p where 2: "turn_loop h cur cur pos n = Some (h1, p)"
      "list_at h1 p (rev (take (nat (n - pos)) ts) @ t # drop (nat (n - pos)) ts)" "same_outside (addrs (t # ts)) h h1"
      using turn_loop_spec [of h cur "[]" t ts pos n] 1(3) Cons cur by auto
    have "seg h1 head ms cur" by (rule same_outside_seg [OF 2(3) 1(2) dist(2)])
    then obtain h2 p2 where 3: "store_slot h1 head (slot_after ms) p = Some (h2, p2)" "seg h2 p2 ms p" "same_outside (addrs ms) h1 h2"
      by (rule store_slot_after [OF _ dist(1)])
    let ?turned = "rev (take (nat (n - pos)) ts) @ t # drop (nat (n - pos)) ts"
    have set: "set ?turned = set (t # ts)" by (metis append_take_drop_id set_append set_rev Un_insert_right list.simps(15))
    then have d: "addrs ?turned \<inter> addrs ms = {}" using dist(2) by (metis inf_commute)
    have "list_at h2 p ?turned" by (rule same_outside_linked [OF 3(3) 2(2) d])
    then have "list_at h2 p2 (ms @ ?turned)" using 3(2) dist(1) d by (auto simp: list_at_append)
    moreover have "?turned = rev (take b rest) @ drop b rest" using 1(6) Cons by (simp add: b_def)
    ultimately show ?thesis using 1(1,5) 2(1) 3(1) cur rest by (auto simp: reverseBetween_def)
  qed
qed

section \<open>solution 19\<close>

function step_nodes :: "heap \<Rightarrow> ref \<Rightarrow> int \<Rightarrow> int \<Rightarrow> ref option" where
  \<comment> \<open>\<^verbatim>\<open>for (int i = ...; i < n; ++i) fast = fast->next\<close>\<close>
  "step_nodes h p i n =
     (if i < n then (case next_of h p of None \<Rightarrow> None | Some q \<Rightarrow> step_nodes h q (i + 1) n) else Some p)"
  by pat_completeness auto
termination by (relation "measure (\<lambda>(h, p, i, n). nat (n - i))") auto

declare step_nodes.simps [simp del]

partial_function (option) lag_loop :: "heap \<Rightarrow> ref \<Rightarrow> ref \<Rightarrow> ref option" where
  "lag_loop h slow fast = do {
     f \<leftarrow> next_of h fast;
     if f \<noteq> None then do {
       slow' \<leftarrow> next_of h slow;
       lag_loop h slow' f }
     else Some slow }"

definition removeNthFromEnd :: "heap \<Rightarrow> ref \<Rightarrow> int \<Rightarrow> (heap \<times> ref) option" where
  "removeNthFromEnd h head n =
     (if head = None then Some (h, None)
      else do {
        nx \<leftarrow> next_of h head;
        if nx = None then Some (h, None)
        else do {
          fast \<leftarrow> step_nodes h head 0 n;
          if fast = None then Some (h, nx)
          else do {
            slow \<leftarrow> lag_loop h head fast;
            s \<leftarrow> next_of h slow;
            t \<leftarrow> next_of h s;
            h1 \<leftarrow> set_next h slow t;
            Some (h1, head) } } })"

partial_function (option) lag_slot_loop :: "heap \<Rightarrow> ref \<Rightarrow> slot \<Rightarrow> ref \<Rightarrow> slot option" where
  "lag_slot_loop h head slow fast = do {
     f \<leftarrow> next_of h fast;
     if f \<noteq> None then do {
       p \<leftarrow> load_slot h head slow;
       slow' \<leftarrow> next_slot h p;
       lag_slot_loop h head slow' f }
     else Some slow }"

definition removeNthFromEnd2 :: "heap \<Rightarrow> ref \<Rightarrow> int \<Rightarrow> (heap \<times> ref) option" where
  "removeNthFromEnd2 h head n = do {
     fast \<leftarrow> step_nodes h head 1 n;
     slow \<leftarrow> lag_slot_loop h head Head fast;
     p \<leftarrow> load_slot h head slow;
     q \<leftarrow> next_of h p;
     store_slot h head slow q }"

lemma list_at_drop: "list_at h p (n # ns) \<Longrightarrow> \<exists>r. next_of h p = Some r \<and> list_at h r ns"
  by (auto simp: list_at_Cons next_of_cell)

lemma step_nodes_spec:
  assumes "list_at h p ns" "nat (n - i) \<le> length ns"
  shows "\<exists>q. step_nodes h p i n = Some q \<and> list_at h q (drop (nat (n - i)) ns)"
  using assms
proof (induction h p i n arbitrary: ns rule: step_nodes.induct)
  case (1 h p i n)
  show ?case
  proof (cases "i < n")
    case True
    with "1.prems" obtain m ns' where ns: "ns = m # ns'" by (cases ns) auto
    obtain r where r: "next_of h p = Some r" "list_at h r ns'" using list_at_drop "1.prems"(1) ns by blast
    have k: "nat (n - i) = Suc (nat (n - (i + 1)))" using True by linarith
    then have "\<exists>q. step_nodes h r (i + 1) n = Some q \<and> list_at h q (drop (nat (n - (i + 1))) ns')"
      using "1.IH" [OF True r] "1.prems"(2) ns by simp
    then show ?thesis using True r(1) k ns by (subst step_nodes.simps) simp
  next
    case False
    with "1.prems" show ?thesis by (subst step_nodes.simps) simp
  qed
qed

lemma lag_loop_spec:
  assumes "list_at h slow (as @ bs)" "list_at h fast cs" "length cs = Suc (length as)"
  shows "\<exists>q. lag_loop h slow fast = Some q \<and> list_at h q bs \<and> seg h slow as q"
  using assms
proof (induction as arbitrary: slow fast cs)
  case Nil
  then obtain c where "cs = [c]" by (auto simp: length_Suc_conv)
  with Nil show ?case by (subst lag_loop.simps) (auto simp: list_at_Cons next_of_cell)
next
  case (Cons a as)
  then obtain c d cs' where cs: "cs = c # d # cs'" by (auto simp: length_Suc_conv)
  with Cons.prems obtain f where f: "next_of h fast = Some f" "list_at h f (d # cs')" "f \<noteq> None"
    using list_at_drop [of h fast c "d # cs'"] by (auto simp: list_at_Cons)
  from Cons.prems(1) obtain s where s: "next_of h slow = Some s" "list_at h s (as @ bs)" "seg h slow [a] s"
    by (auto simp: list_at_Cons next_of_cell)
  have "length (d # cs') = Suc (length as)" using Cons.prems(3) cs by simp
  then obtain q where "lag_loop h s f = Some q" "list_at h q bs" "seg h s as q"
    using Cons.IH [OF s(2) f(2)] by blast
  with s f show ?case by (subst lag_loop.simps) auto
qed

lemma lag_slot_loop_spec:
  assumes "seg h head ms p" "list_at h p (as @ bs)" "list_at h fast cs" "length cs = Suc (length as)"
  shows "lag_slot_loop h head (slot_after ms) fast = Some (slot_after (ms @ as))"
  using assms
proof (induction as arbitrary: ms p fast cs)
  case Nil
  then obtain c where "cs = [c]" by (auto simp: length_Suc_conv)
  with Nil show ?case by (subst lag_slot_loop.simps) (auto simp: list_at_Cons next_of_cell)
next
  case (Cons a as)
  then obtain c d cs' where cs: "cs = c # d # cs'" by (auto simp: length_Suc_conv)
  with Cons.prems obtain f where f: "next_of h fast = Some f" "list_at h f (d # cs')" "f \<noteq> None"
    using list_at_drop [of h fast c "d # cs'"] by (auto simp: list_at_Cons)
  from Cons.prems(2) obtain r where r: "p = Some (fst a)" "node_at h (fst a) = Some \<lparr>node_val = snd a, node_next = r\<rparr>" "list_at h r (as @ bs)"
    by (auto simp: list_at_Cons)
  have s: "seg h head (ms @ [a]) r" using Cons.prems(1) r by (simp add: seg_append)
  have "length (d # cs') = Suc (length as)" using Cons.prems(4) cs by simp
  from Cons.IH [OF s r(3) f(2) this] show ?case
    using f r(1,2) load_slot_after [OF Cons.prems(1)] by (subst lag_slot_loop.simps) (simp add: next_slot_cell)
qed

lemma removeNth_both:
  assumes "list_at h head ns" "1 \<le> n" "nat n \<le> length ns"
  defines "k \<equiv> length ns - nat n"
  shows "(\<exists>h' p. removeNthFromEnd h head n = Some (h', p) \<and> list_at h' p (take k ns @ drop (Suc k) ns)) \<and>
    (\<exists>h' p. removeNthFromEnd2 h head n = Some (h', p) \<and> list_at h' p (take k ns @ drop (Suc k) ns))"
proof
  have k: "k < length ns" using assms(2,3) by (auto simp: k_def)
  then obtain x where split: "ns = take k ns @ x # drop (Suc k) ns" by (metis id_take_nth_drop)
  have lin: "list_at h head (take k ns @ x # drop (Suc k) ns)"
    by (rule subst [OF split, of "list_at h head"]) (rule assms(1))
  then have dist: "distinct (map fst (take k ns))" "addrs (take k ns) \<inter> addrs (x # drop (Suc k) ns) = {}"
    unfolding list_at_append by blast+
  obtain p where p: "seg h head (take k ns) p" "list_at h p (x # drop (Suc k) ns)"
    using lin unfolding list_at_append by blast
  then obtain r where r: "next_of h p = Some r" "list_at h r (drop (Suc k) ns)" using list_at_drop by blast
  obtain h1 head1 where st: "store_slot h head (slot_after (take k ns)) r = Some (h1, head1)" "seg h1 head1 (take k ns) r"
    "same_outside (addrs (take k ns)) h h1"
    by (rule store_slot_after [OF p(1) dist(1)])
  have "list_at h1 r (drop (Suc k) ns)" by (rule same_outside_linked [OF st(3) r(2)]) (use dist(2) in auto)
  then have fin: "list_at h1 head1 (take k ns @ drop (Suc k) ns)" using st(2) dist by (auto simp: list_at_append)
  obtain fast where fast: "step_nodes h head 1 n = Some fast" "list_at h fast (drop (nat (n - 1)) ns)"
  proof -
    have "nat (n - 1) \<le> length ns" using assms(3) by linarith
    from step_nodes_spec [OF assms(1) this] that show thesis by blast
  qed
  have "length (drop (nat (n - 1)) ns) = Suc (length (take k ns))" using assms(2,3) by (simp add: k_def)
  then have "lag_slot_loop h head Head fast = Some (slot_after (take k ns))"
    using lag_slot_loop_spec [OF seg_start lin fast(2)] by simp
  then show "\<exists>h' p. removeNthFromEnd2 h head n = Some (h', p) \<and> list_at h' p (take k ns @ drop (Suc k) ns)"
    using fast(1) load_slot_after [OF p(1)] r(1) st(1) fin by (simp add: removeNthFromEnd2_def)
  show "\<exists>h' p. removeNthFromEnd h head n = Some (h', p) \<and> list_at h' p (take k ns @ drop (Suc k) ns)"
  proof (cases "length ns = 1")
    case True
    with k obtain y where "k = 0" "ns = [y]" by (auto simp: length_Suc_conv)
    with assms(1) show ?thesis by (simp add: removeNthFromEnd_def list_at_Cons next_of_cell)
  next
    case False
    then obtain a b ns' where ns: "ns = a # b # ns'" using k by (cases ns rule: remdups_adj.cases) auto
    with assms(1) obtain nx where nx: "head \<noteq> None" "next_of h head = Some nx" "nx \<noteq> None" "list_at h nx (b # ns')"
      using list_at_drop [of h head a "b # ns'"] by (auto simp: list_at_Cons)
    obtain f where f: "step_nodes h head 0 n = Some f" "list_at h f (drop (nat n) ns)"
      using step_nodes_spec [OF assms(1), of n 0] assms(3) by auto
    show ?thesis
    proof (cases "k = 0")
      case True
      then have "f = None" using f(2) assms(3) by (simp add: k_def)
      with True nx f(1) ns show ?thesis by (auto simp: removeNthFromEnd_def)
    next
      case k0: False
      then obtain j where j: "k = Suc j" by (cases k) auto
      define y where "y = ns ! j"
      have y: "take k ns = take j ns @ [y]" using j k by (simp add: take_Suc_conv_app_nth y_def)
      have sp: "list_at h head (take j ns @ y # x # drop (Suc k) ns)" using lin y by simp
      have f0: "f \<noteq> None" using f(2) k0 by (cases "drop (nat n) ns") (auto simp: k_def list_at_Cons)
      have "length (drop (nat n) ns) = Suc (length (take j ns))" using j k by (simp add: k_def)
      then obtain q where q: "lag_loop h head f = Some q" "list_at h q (y # x # drop (Suc k) ns)"
        using lag_loop_spec [OF sp f(2)] by blast
      have "q = Some (fst y)" "next_of h q = Some p" using q(2) p(2) by (auto simp: list_at_Cons next_of_cell)
      moreover have "set_next h (Some (fst y)) r = Some h1" "head1 = head"
        using st(1) y by (auto simp: store_slot_def slot_after_def split: option.splits)
      ultimately show ?thesis
        using nx(1-3) f(1) f0 q(1) r(1) fin by (auto simp: removeNthFromEnd_def)
    qed
  qed
qed

text \<open>
  C34: The programs that rearrange a list in place link exactly its nodes in the order they promise:
  neighbours swapped, the smaller values first with the order kept, the positions \<open>m\<close> to \<open>n\<close>
  reversed whatever \<open>m\<close> and \<open>n\<close> are, the \<open>n\<close>-th node from the end taken out by both programs.
\<close>

theorem lists_rearranged:
  assumes "list_at h head ns"
  shows "(\<exists>h' p. swapPairs h head = Some (h', p) \<and> list_at h' p (swapped ns)) \<and>
    (\<exists>h' p. partition_list h head x = Some (h', p) \<and>
      list_at h' p (filter (\<lambda>n. snd n < x) ns @ filter (\<lambda>n. \<not> snd n < x) ns)) \<and>
    (let a = nat (m - 1); b = nat (n - max 1 m) + 1 in
      \<exists>h' p. reverseBetween h head m n = Some (h', p) \<and>
        list_at h' p (take a ns @ rev (take b (drop a ns)) @ drop b (drop a ns))) \<and>
    (1 \<le> l \<and> nat l \<le> length ns \<longrightarrow> (let k = length ns - nat l in
      (\<exists>h' p. removeNthFromEnd h head l = Some (h', p) \<and> list_at h' p (take k ns @ drop (Suc k) ns)) \<and>
      (\<exists>h' p. removeNthFromEnd2 h head l = Some (h', p) \<and> list_at h' p (take k ns @ drop (Suc k) ns))))"
  using swap_loop_spec [OF seg_start assms] partition_list_spec [OF assms] reverseBetween_spec [OF assms]
    removeNth_both [OF assms, of l]
  by (simp add: swapPairs_def Let_def)

theorem lists_rearranged_witness:
  "\<exists>h' p. removeNthFromEnd [\<lparr>node_val = 7, node_next = Some 1\<rparr>, \<lparr>node_val = 8, node_next = None\<rparr>] (Some 0) 2 = Some (h', p) \<and>
     list_at h' p [(1, 8)]"
  using lists_rearranged [of "[\<lparr>node_val = 7, node_next = Some 1\<rparr>, \<lparr>node_val = 8, node_next = None\<rparr>]" "Some 0" "[(0, 7), (1, 8)]" 0 0 0 2]
  by (simp add: list_at_def node_at_def Let_def)

end
