(* ===== verification/LcHalves.thy ===== *)
theory LcHalves
  imports LcRelink
begin

text \<open>
  List programs of \<^verbatim>\<open>hobbies/leetcode/algorithms\<close> that cut a list and join it differently:
  palindromes (\<^verbatim>\<open>solution_234\<close>), weaving the reversed second half in (\<^verbatim>\<open>solution_143\<close>) and
  rotating through a cycle (\<^verbatim>\<open>solution_61\<close>).
\<close>

section \<open>Finding the middle\<close>

partial_function (option) mid_loop :: "heap \<Rightarrow> ref \<Rightarrow> ref \<Rightarrow> ref option" where
  \<comment> \<open>\<^verbatim>\<open>while (fast && fast->next)\<close>\<close>
  "mid_loop h slow fast =
     (if fast = None then Some slow
      else do {
        f \<leftarrow> next_of h fast;
        if f = None then Some slow
        else do {
          slow' \<leftarrow> next_of h slow;
          f' \<leftarrow> next_of h f;
          mid_loop h slow' f' } })"

partial_function (option) mid2_loop :: "heap \<Rightarrow> ref \<Rightarrow> ref \<Rightarrow> ref option" where
  \<comment> \<open>\<^verbatim>\<open>while (fast->next && fast->next->next)\<close>\<close>
  "mid2_loop h slow fast = do {
     f \<leftarrow> next_of h fast;
     if f = None then Some slow
     else do {
       f' \<leftarrow> next_of h f;
       if f' = None then Some slow
       else do {
         slow' \<leftarrow> next_of h slow;
         mid2_loop h slow' f' } } }"

lemma list_at_next:
  assumes "list_at h p (n # ns)"
  obtains r where "p = Some (fst n)" "next_of h p = Some r" "val_of h p = Some (snd n)" "list_at h r ns" "seg h p [n] r"
  using assms that by (auto simp: list_at_Cons next_of_cell val_of_cell)

lemma mid_loop_spec:
  assumes "list_at h slow xs" "list_at h fast ys" "length ys div 2 \<le> length xs"
  shows "\<exists>q. mid_loop h slow fast = Some q \<and> seg h slow (take (length ys div 2) xs) q \<and> list_at h q (drop (length ys div 2) xs)"
  using assms
proof (induction ys arbitrary: slow fast xs rule: induct_list012)
  case 1
  then show ?case by (subst mid_loop.simps) auto
next
  case (2 y)
  then show ?case by (subst mid_loop.simps) (auto simp: list_at_Cons next_of_cell)
next
  case (3 y z ys)
  then obtain x xs' where xs: "xs = x # xs'" by (cases xs) auto
  obtain f where f: "fast = Some (fst y)" "next_of h fast = Some f" "list_at h f (z # ys)" by (rule list_at_next [OF "3.prems"(2)])
  obtain f' where f': "f = Some (fst z)" "next_of h f = Some f'" "list_at h f' ys" by (rule list_at_next [OF f(3)])
  obtain s where s: "next_of h slow = Some s" "list_at h s xs'" "seg h slow [x] s"
    using "3.prems"(1) unfolding xs by (rule list_at_next)
  obtain q where "mid_loop h s f' = Some q" "seg h s (take (length ys div 2) xs') q" "list_at h q (drop (length ys div 2) xs')"
    using "3.IH"(1) [OF s(2) f'(3)] "3.prems"(3) xs by auto
  with s f f' show ?case by (subst mid_loop.simps) (auto simp: xs)
qed

lemma mid2_loop_spec:
  assumes "list_at h slow xs" "list_at h fast ys" "ys \<noteq> []" "(length ys - 1) div 2 < length xs"
  shows "\<exists>q. mid2_loop h slow fast = Some q \<and> seg h slow (take ((length ys - 1) div 2) xs) q \<and>
    list_at h q (drop ((length ys - 1) div 2) xs)"
  using assms
proof (induction ys arbitrary: slow fast xs rule: induct_list012)
  case 1
  then show ?case by simp
next
  case (2 y)
  then show ?case by (subst mid2_loop.simps) (auto simp: list_at_Cons next_of_cell)
next
  case (3 y z ys)
  obtain f where f: "fast = Some (fst y)" "next_of h fast = Some f" "list_at h f (z # ys)" by (rule list_at_next [OF "3.prems"(2)])
  obtain f' where f': "f = Some (fst z)" "next_of h f = Some f'" "list_at h f' ys" by (rule list_at_next [OF f(3)])
  show ?case
  proof (cases ys)
    case Nil
    with f f' "3.prems"(1) show ?thesis by (subst mid2_loop.simps) auto
  next
    case (Cons w ws)
    with "3.prems"(4) obtain x xs' where xs: "xs = x # xs'" by (cases xs) auto
    obtain s where s: "next_of h slow = Some s" "list_at h s xs'" "seg h slow [x] s"
      using "3.prems"(1) unfolding xs by (rule list_at_next)
    have ne: "f' \<noteq> None" using f'(3) Cons by (auto simp: list_at_Cons)
    have k: "(length (y # z # ys) - 1) div 2 = Suc ((length ys - 1) div 2)" using Cons by simp
    have "(length ys - 1) div 2 < length xs'" using "3.prems"(4) unfolding k xs by simp
    then obtain q where "mid2_loop h s f' = Some q" "seg h s (take ((length ys - 1) div 2) xs') q"
      "list_at h q (drop ((length ys - 1) div 2) xs')"
      using "3.IH"(1) [OF s(2) f'(3)] Cons by blast
    with s f f' ne show ?thesis unfolding k by (subst mid2_loop.simps) (auto simp: xs)
  qed
qed

section \<open>solution 234\<close>

partial_function (option) len_loop :: "heap \<Rightarrow> ref \<Rightarrow> int \<Rightarrow> int option" where
  "len_loop h node n =
     (if node = None then Some n else do { node' \<leftarrow> next_of h node; len_loop h node' (n + 1) })"

function half_loop :: "heap \<Rightarrow> ref \<Rightarrow> ref \<Rightarrow> int \<Rightarrow> int \<Rightarrow> (ref \<times> ref) option" where
  "half_loop h prev node i k =
     (if i < k then (case next_of h node of None \<Rightarrow> None | Some nx \<Rightarrow> half_loop h node nx (i + 1) k)
      else Some (prev, node))"
  by pat_completeness auto
termination by (relation "measure (\<lambda>(h, p, n, i, k). nat (k - i))") auto

partial_function (option) pal_loop :: "heap \<Rightarrow> ref \<Rightarrow> ref \<Rightarrow> ref option" where
  "pal_loop h tail head =
     (if tail = None then Some tail
      else do {
        v \<leftarrow> val_of h tail;
        w \<leftarrow> val_of h head;
        if v = w then do {
          tail' \<leftarrow> next_of h tail;
          head' \<leftarrow> next_of h head;
          pal_loop h tail' head' }
        else Some tail })"

definition isPalindrome :: "heap \<Rightarrow> ref \<Rightarrow> (heap \<times> bool) option" where
  "isPalindrome h head =
     (if head = None then Some (h, True)
      else do {
        n \<leftarrow> len_loop h head 0;
        (prev, node) \<leftarrow> half_loop h head head 0 (cdiv (n + 1) 2);
        (h1, tail) \<leftarrow> rev_loop h None node;
        h2 \<leftarrow> set_next h1 prev tail;
        r \<leftarrow> pal_loop h2 tail head;
        Some (h2, r = None) })"

partial_function (option) pal2_loop :: "heap \<Rightarrow> ref \<Rightarrow> ref \<Rightarrow> bool option" where
  "pal2_loop h tail head =
     (if tail = None then Some True
      else do {
        v \<leftarrow> val_of h tail;
        w \<leftarrow> val_of h head;
        if v \<noteq> w then Some False
        else do {
          tail' \<leftarrow> next_of h tail;
          head' \<leftarrow> next_of h head;
          pal2_loop h tail' head' } })"

definition isPalindrome2 :: "heap \<Rightarrow> ref \<Rightarrow> (heap \<times> bool) option" where
  "isPalindrome2 h head =
     (if head = None then Some (h, True)
      else do {
        slow \<leftarrow> mid2_loop h head head;
        node \<leftarrow> next_of h slow;
        (h1, tail) \<leftarrow> rev_loop h None node;
        h2 \<leftarrow> set_next h1 slow tail;
        r \<leftarrow> pal2_loop h2 tail head;
        Some (h2, r) })"

declare half_loop.simps [simp del]

lemma len_loop_spec: "list_at h p ns \<Longrightarrow> len_loop h p n = Some (n + size_of ns)"
proof (induction ns arbitrary: p n)
  case Nil
  then show ?case by (simp add: len_loop.simps)
next
  case (Cons m ns)
  obtain r where "p = Some (fst m)" "next_of h p = Some r" "list_at h r ns" by (rule list_at_next [OF Cons.prems])
  with Cons.IH show ?case by (subst len_loop.simps) simp
qed

lemma half_loop_spec:
  assumes "list_at h node (as @ bs)" "size_of as = k - i"
  shows "\<exists>q. half_loop h prev node i k = Some (if as = [] then prev else Some (fst (last as)), q) \<and> seg h node as q \<and> list_at h q bs"
  using assms
proof (induction as arbitrary: node prev i)
  case Nil
  then show ?case by (subst half_loop.simps) auto
next
  case (Cons a as)
  then have "list_at h node (a # as @ bs)" by simp
  then obtain r where r: "node = Some (fst a)" "next_of h node = Some r" "list_at h r (as @ bs)" "seg h node [a] r" by (rule list_at_next)
  have "i < k" "size_of as = k - (i + 1)" using Cons.prems(2) by simp_all
  with Cons.IH [OF r(3), of "i + 1" node] r show ?case by (subst half_loop.simps) auto
qed

lemma pal_loops_spec:
  assumes "list_at h tail ts" "list_at h head hs" "length ts \<le> length hs"
  shows "\<exists>r. pal_loop h tail head = Some r \<and> (r = None \<longleftrightarrow> vals ts = take (length ts) (vals hs))"
    "pal2_loop h tail head = Some (vals ts = take (length ts) (vals hs))"
  using assms
proof (induction ts arbitrary: tail head hs)
  case Nil
  { case 1 then show ?case using Nil by (subst pal_loop.simps) simp }
  { case 2 then show ?case using Nil by (subst pal2_loop.simps) simp }
next
  case (Cons t ts)
  { case 1
    then obtain x hs' where hs: "hs = x # hs'" by (cases hs) auto
    obtain r where r: "tail = Some (fst t)" "next_of h tail = Some r" "val_of h tail = Some (snd t)" "list_at h r ts" by (rule list_at_next [OF 1(1)])
    obtain s where s: "next_of h head = Some s" "val_of h head = Some (snd x)" "list_at h s hs'" using 1(2) unfolding hs by (rule list_at_next)
    from Cons.IH(1) [OF r(4) s(3)] 1(3) r s show ?case by (subst pal_loop.simps) (auto simp: hs) }
  { case 2
    then obtain x hs' where hs: "hs = x # hs'" by (cases hs) auto
    obtain r where r: "tail = Some (fst t)" "next_of h tail = Some r" "val_of h tail = Some (snd t)" "list_at h r ts" by (rule list_at_next [OF 2(1)])
    obtain s where s: "next_of h head = Some s" "val_of h head = Some (snd x)" "list_at h s hs'" using 2(2) unfolding hs by (rule list_at_next)
    from Cons.IH(2) [OF r(4) s(3)] 2(3) r s show ?case by (subst pal2_loop.simps) (auto simp: hs) }
qed

lemma halves_palindrome:
  assumes "length as = length bs \<or> length as = Suc (length bs)"
  shows "rev bs = take (length bs) (as @ rev bs) \<longleftrightarrow> rev (as @ bs) = as @ bs"
proof -
  obtain cs ds where as: "as = cs @ ds" "length cs = length bs" "length ds \<le> 1"
    using assms that [of "take (length bs) as" "drop (length bs) as"] by auto
  then have "rev ds = ds" by (cases ds) auto
  with as show ?thesis by (auto simp: append_eq_append_conv)
qed

lemma turn_second_half:
  assumes "seg h head as q" "list_at h q bs" "as \<noteq> []" "distinct (map fst (as @ bs))"
  obtains h1 t where "rev_loop h None q = Some (h1, t)" "list_at h1 t (rev bs)" "seg h1 head as q" "same_outside (addrs bs) h h1"
proof -
  obtain h1 t where r: "rev_loop h None q = Some (h1, t)" "list_at h1 t (rev bs)" "same_outside (addrs bs) h h1"
    using rev_loop_spec [OF assms(2), of None "[]"] by auto
  moreover have "seg h1 head as q" by (rule same_outside_seg [OF r(3) assms(1)]) (use assms(4) in auto)
  ultimately show ?thesis using that by blast
qed

lemma link_second_half:
  assumes "seg h head as q" "list_at h t bs" "as \<noteq> []" "distinct (map fst (as @ bs))"
  obtains h1 where "set_next h (Some (fst (last as))) t = Some h1" "list_at h1 head (as @ bs)" "list_at h1 t bs"
proof -
  obtain h1 where h1: "set_next h (Some (fst (last as))) t = Some h1" "seg h1 head as t" "same_outside {fst (last as)} h h1"
    by (rule set_next_last [OF assms(1,3)]) (use assms(4) in auto)
  have "fst (last as) \<in> addrs as" using assms(3) by simp
  then have "list_at h1 t bs" by (intro same_outside_linked [OF h1(3) assms(2)]) (use assms(4) in auto)
  moreover from this have "list_at h1 head (as @ bs)" using h1(2) assms(4) by (auto simp: list_at_append)
  ultimately show ?thesis using that h1(1) by blast
qed

definition palindrome :: "'a list \<Rightarrow> bool" where
  "palindrome xs \<longleftrightarrow> rev xs = xs"

lemma distinct_turned: "distinct (map fst (as @ bs)) \<Longrightarrow> distinct (map fst (as @ rev bs))"
  by (simp flip: rev_map)

lemma isPalindrome_halves:
  assumes "list_at h head ns" "ns \<noteq> []"
  defines "k \<equiv> (length ns + 1) div 2"
  shows "\<exists>h'. isPalindrome h head = Some (h', palindrome (vals ns)) \<and> isPalindrome2 h head = Some (h', palindrome (vals ns)) \<and>
    list_at h' head (take k ns @ rev (drop k ns))"
proof -
  let ?as = "take k ns" and ?bs = "drop k ns"
  have ne: "?as \<noteq> []" "head \<noteq> None" and k: "k \<le> length ns" using assms by (cases ns; auto simp: list_at_Cons)+
  have dist: "distinct (map fst (?as @ ?bs))" using assms(1) by (simp only: append_take_drop_id list_at_def)
  then have dist': "distinct (map fst (?as @ rev ?bs))" by (rule distinct_turned)
  have lin: "list_at h head (?as @ ?bs)" using assms(1) by simp
  then obtain q where q: "seg h head ?as q" "list_at h q ?bs" by (auto simp only: list_at_append)
  obtain h1 t where h1: "rev_loop h None q = Some (h1, t)" "list_at h1 t (rev ?bs)" "seg h1 head ?as q"
    by (rule turn_second_half [OF q ne(1) dist])
  obtain h2 where h2: "set_next h1 (Some (fst (last ?as))) t = Some h2" "list_at h2 head (?as @ rev ?bs)" "list_at h2 t (rev ?bs)"
    by (rule link_second_half [OF h1(3,2) ne(1) dist'])
  have len: "length (rev ?bs) \<le> length (?as @ rev ?bs)" by simp
  have "length (vals ?as) = length (vals ?bs) \<or> length (vals ?as) = Suc (length (vals ?bs))" using k by (auto simp: k_def)
  from halves_palindrome [OF this]
  have pal: "vals (rev ?bs) = take (length (rev ?bs)) (vals (?as @ rev ?bs)) \<longleftrightarrow> palindrome (vals ns)"
    by (simp add: palindrome_def rev_map flip: map_append)
  obtain r where r: "pal_loop h2 t head = Some r" "r = None \<longleftrightarrow> palindrome (vals ns)"
    using pal_loops_spec(1) [OF h2(3,2) len] pal by auto
  have r2: "pal2_loop h2 t head = Some (palindrome (vals ns))"
    using pal_loops_spec(2) [OF h2(3,2) len] pal by simp
  have half: "half_loop h head head 0 (cdiv (size_of ns + 1) 2) = Some (Some (fst (last ?as)), q)"
  proof -
    have "size_of ?as = cdiv (size_of ns + 1) 2 - 0" using k by (simp add: k_def zdiv_int)
    from half_loop_spec [OF lin this, of head] obtain q' where
      "half_loop h head head 0 (cdiv (size_of ns + 1) 2) = Some (Some (fst (last ?as)), q')" "seg h head ?as q'"
      using ne(1) by auto
    with seg_fun [OF q(1)] show ?thesis by blast
  qed
  have slow: "mid2_loop h head head = Some (Some (fst (last ?as)))" "next_of h (Some (fst (last ?as))) = Some q"
  proof -
    define j where "j = (length ns - 1) div 2"
    have j: "k = Suc j" "j < length ns" using assms(2) by (cases ns; simp add: k_def j_def)+
    obtain s where s: "mid2_loop h head head = Some s" "list_at h s (drop j ns)"
      using mid2_loop_spec [OF assms(1,1,2)] j(2) by (auto simp: j_def)
    have as: "?as = take j ns @ [ns ! j]" using j by (simp add: take_Suc_conv_app_nth)
    have "drop j ns = ns ! j # ?bs" using j by (simp add: Cons_nth_drop_Suc)
    then have "s = Some (fst (ns ! j))" using s(2) by (simp add: list_at_Cons)
    with s as show "mid2_loop h head head = Some (Some (fst (last ?as)))" by simp
    show "next_of h (Some (fst (last ?as))) = Some q" using q(1) unfolding as by (auto simp: seg_append next_of_cell)
  qed
  have "isPalindrome h head = Some (h2, palindrome (vals ns))"
    using ne len_loop_spec [OF assms(1), of 0] half h1(1) h2(1) r by (auto simp: isPalindrome_def)
  moreover have "isPalindrome2 h head = Some (h2, palindrome (vals ns))"
    using ne slow h1(1) h2(1) r2 by (auto simp: isPalindrome2_def)
  ultimately show ?thesis using h2(2) by blast
qed

text \<open>
  Both palindrome tests answer whether the list reads the same backwards; both leave the list
  with its second half reversed.
\<close>

theorem palindrome_lists:
  assumes "list_at h head ns"
  shows "\<exists>h'. isPalindrome h head = Some (h', palindrome (vals ns)) \<and> isPalindrome2 h head = Some (h', palindrome (vals ns)) \<and>
    list_at h' head (take ((length ns + 1) div 2) ns @ rev (drop ((length ns + 1) div 2) ns))"
proof (cases "ns = []")
  case True
  with assms show ?thesis by (simp add: isPalindrome_def isPalindrome2_def palindrome_def)
next
  case False
  with assms show ?thesis by (rule isPalindrome_halves)
qed

theorem palindrome_lists_witness:
  "\<exists>h'. isPalindrome [\<lparr>node_val = 7, node_next = Some 1\<rparr>, \<lparr>node_val = 8, node_next = None\<rparr>] (Some 0) = Some (h', False)"
  using palindrome_lists [of "[\<lparr>node_val = 7, node_next = Some 1\<rparr>, \<lparr>node_val = 8, node_next = None\<rparr>]" "Some 0" "[(0, 7), (1, 8)]"]
  by (auto simp: list_at_def node_at_def palindrome_def)

section \<open>solution 143\<close>

partial_function (option) weave_loop :: "heap \<Rightarrow> ref \<Rightarrow> ref \<Rightarrow> heap option" where
  "weave_loop h head tail =
     (if head \<noteq> None \<and> tail \<noteq> None then do {
        tmp \<leftarrow> next_of h tail;
        n \<leftarrow> next_of h head;
        h1 \<leftarrow> set_next h tail n;
        h2 \<leftarrow> set_next h1 head tail;
        head' \<leftarrow> next_of h2 tail;
        weave_loop h2 head' tmp }
      else Some h)"

definition reorderList :: "heap \<Rightarrow> ref \<Rightarrow> heap option" where
  "reorderList h head = do {
     slow \<leftarrow> mid_loop h head head;
     node \<leftarrow> next_of h slow;
     (h1, tail) \<leftarrow> rev_loop h None node;
     h2 \<leftarrow> set_next h1 slow None;
     weave_loop h2 head tail }"

fun weave :: "'a list \<Rightarrow> 'a list \<Rightarrow> 'a list" where
  "weave (a # as) (b # bs) = a # b # weave as bs"
| "weave as [] = as"
| "weave [] bs = []"

lemma weave_loop_spec:
  assumes "seg h p ms head" "list_at h head as" "list_at h tail bs" "distinct (map fst (ms @ as @ bs))" "length bs \<le> length as"
  shows "\<exists>h'. weave_loop h head tail = Some h' \<and> list_at h' p (ms @ weave as bs)"
  using assms
proof (induction as bs arbitrary: h ms head tail rule: weave.induct)
  case (1 a as b bs)
  obtain x where x: "head = Some (fst a)" "node_at h (fst a) = Some \<lparr>node_val = snd a, node_next = x\<rparr>" "list_at h x as"
    using "1.prems"(2) by (auto simp: list_at_Cons)
  obtain y where y: "tail = Some (fst b)" "node_at h (fst b) = Some \<lparr>node_val = snd b, node_next = y\<rparr>" "list_at h y bs"
    using "1.prems"(3) by (auto simp: list_at_Cons)
  have new: "fst a \<noteq> fst b" "fst a \<notin> addrs ms" "fst a \<notin> addrs as" "fst a \<notin> addrs bs"
    "fst b \<notin> addrs ms" "fst b \<notin> addrs as" "fst b \<notin> addrs bs" using "1.prems"(4) by auto
  let ?h1 = "h[fst b := \<lparr>node_val = snd b, node_next = x\<rparr>]"
  let ?h2 = "?h1[fst a := \<lparr>node_val = snd a, node_next = tail\<rparr>]"
  have c1: "node_at ?h1 (fst a) = Some \<lparr>node_val = snd a, node_next = x\<rparr>" using new x by (simp add: cell_update)
  have c2: "node_at ?h2 (fst b) = Some \<lparr>node_val = snd b, node_next = x\<rparr>" "node_at ?h2 (fst a) = Some \<lparr>node_val = snd a, node_next = tail\<rparr>"
    using new cell_length [OF x(2)] cell_length [OF y(2)] by (simp_all add: cell_update)
  have "seg ?h2 p (ms @ [a, b]) x" "list_at ?h2 x as" "list_at ?h2 y bs"
    using "1.prems"(1) x y c2 new by (simp_all add: seg_append seg_write list_at_write)
  then have "\<exists>h'. weave_loop ?h2 x y = Some h' \<and> list_at h' p ((ms @ [a, b]) @ weave as bs)"
    by (rule "1.IH") (use "1.prems"(4,5) in auto)
  then show ?case using x y c1 c2(1) by (subst weave_loop.simps) (simp add: next_of_cell set_next_cell)
next
  case (2 as)
  then show ?case by (subst weave_loop.simps) (auto simp: list_at_def seg_append)
next
  case (3 b bs)
  then show ?case by simp
qed

section \<open>solution 61\<close>

partial_function (option) tail_loop :: "heap \<Rightarrow> ref \<Rightarrow> int \<Rightarrow> (ref \<times> int) option" where
  "tail_loop h tail n = do {
     nx \<leftarrow> next_of h tail;
     if nx \<noteq> None then tail_loop h nx (n + 1) else Some (tail, n) }"

definition rotateRight :: "heap \<Rightarrow> ref \<Rightarrow> int \<Rightarrow> (heap \<times> ref) option" where
  "rotateRight h head k =
     (if head = None then Some (h, head)
      else do {
        nx \<leftarrow> next_of h head;
        if nx = None then Some (h, head)
        else do {
          (tail, n) \<leftarrow> tail_loop h head 1;
          h1 \<leftarrow> set_next h tail head;
          let k = cmod k n;
          tail \<leftarrow> (if k \<noteq> 0 then step_nodes h1 tail 0 (n - k) else Some tail);
          head' \<leftarrow> next_of h1 tail;
          h2 \<leftarrow> set_next h1 tail None;
          Some (h2, head') } })"

lemma tail_loop_spec:
  "list_at h p (n # ns) \<Longrightarrow> tail_loop h p s = Some (Some (fst (last (n # ns))), s + size_of ns)"
proof (induction ns arbitrary: p n s)
  case Nil
  then show ?case by (subst tail_loop.simps) (auto simp: list_at_Cons next_of_cell)
next
  case (Cons m ns)
  obtain r where r: "next_of h p = Some r" "list_at h r (m # ns)" by (rule list_at_next [OF Cons.prems])
  then have "r \<noteq> None" by (auto simp: list_at_Cons)
  with Cons.IH [OF r(2), of "s + 1"] r(1) show ?case by (subst tail_loop.simps) auto
qed

lemma step_nodes_seg:
  assumes "seg h p as q" "n - i = size_of as"
  shows "step_nodes h p i n = Some q"
  using assms
proof (induction as arbitrary: p i)
  case Nil
  then show ?case by (subst step_nodes.simps) simp
next
  case (Cons a as)
  then obtain r where r: "next_of h p = Some r" "seg h r as q" by (auto simp: next_of_cell)
  moreover have "n - (i + 1) = size_of as" "i < n" using Cons.prems(2) by simp_all
  ultimately show ?case using Cons.IH by (subst step_nodes.simps) simp
qed

lemma reorderList_spec:
  assumes "list_at h head ns" "ns \<noteq> []"
  defines "k \<equiv> length ns div 2 + 1"
  shows "\<exists>h'. reorderList h head = Some h' \<and> list_at h' head (weave (take k ns) (rev (drop k ns)))"
proof -
  define j where "j = length ns div 2"
  let ?as = "take k ns" and ?bs = "drop k ns"
  have j: "k = Suc j" "j < length ns" using assms(2) by (simp_all add: k_def j_def)
  have dist: "distinct (map fst (?as @ ?bs))" using assms(1) by (simp only: append_take_drop_id list_at_def)
  have as: "?as = take j ns @ [ns ! j]" "?as \<noteq> []" using j by (simp_all add: take_Suc_conv_app_nth)
  have "list_at h head (?as @ ?bs)" using assms(1) by simp
  then obtain q where q: "seg h head ?as q" "list_at h q ?bs" by (auto simp only: list_at_append)
  obtain s where s: "mid_loop h head head = Some s" "list_at h s (drop j ns)"
    using mid_loop_spec [OF assms(1,1)] by (auto simp: j_def)
  have "drop j ns = ns ! j # ?bs" using j by (simp add: Cons_nth_drop_Suc)
  then have slow: "s = Some (fst (last ?as))" using s(2) as(1) by (simp add: list_at_Cons)
  have nx: "next_of h (Some (fst (last ?as))) = Some q" using q(1) unfolding as(1) by (auto simp: seg_append next_of_cell)
  obtain h1 t where h1: "rev_loop h None q = Some (h1, t)" "list_at h1 t (rev ?bs)" "seg h1 head ?as q"
    by (rule turn_second_half [OF q as(2) dist])
  obtain h2 where h2: "set_next h1 (Some (fst (last ?as))) None = Some h2" "seg h2 head ?as None" "same_outside {fst (last ?as)} h1 h2"
    by (rule set_next_last [OF h1(3) as(2)]) (use dist in \<open>simp only: map_append distinct_append\<close>)
  have "fst (last ?as) \<in> addrs ?as" using as(2) by (metis image_eqI last_in_set)
  moreover have "addrs ?as \<inter> addrs (rev ?bs) = {}" using distinct_turned [OF dist] by (simp only: map_append distinct_append set_map)
  ultimately have "addrs (rev ?bs) \<inter> {fst (last ?as)} = {}" by (metis disjoint_iff singletonD)
  then have "list_at h2 t (rev ?bs)" by (rule same_outside_linked [OF h2(3) h1(2)])
  moreover have "list_at h2 head ?as" using h2(2) dist by (simp only: list_at_def map_append distinct_append)
  moreover have "distinct (map fst ([] @ ?as @ rev ?bs))" using distinct_turned [OF dist] by simp
  moreover have "length (rev ?bs) \<le> length ?as" by (simp add: k_def)
  ultimately obtain h' where "weave_loop h2 head t = Some h'" "list_at h' head ([] @ weave ?as (rev ?bs))"
    using weave_loop_spec [OF seg_start, of h2 head ?as t "rev ?bs"] by blast
  with s(1) slow nx h1(1) h2(1) show ?thesis by (simp add: reorderList_def)
qed

lemma reorderList_empty: "reorderList h None = None"
  by (simp add: reorderList_def mid_loop.simps)

lemma rotateRight_spec:
  assumes "list_at h head ns" "0 \<le> k"
  defines "j \<equiv> length ns - nat k mod length ns"
  shows "\<exists>h' p. rotateRight h head k = Some (h', p) \<and> list_at h' p (drop j ns @ take j ns)"
proof -
  consider "ns = []" | a where "ns = [a]" | a b ns' where "ns = a # b # ns'" by (cases ns rule: remdups_adj.cases) auto
  then show ?thesis
  proof cases
    case 1
    with assms(1) show ?thesis by (simp add: rotateRight_def)
  next
    case 2
    with assms(1) show ?thesis by (auto simp: rotateRight_def list_at_Cons next_of_cell j_def)
  next
    case (3 a b ns')
    have j: "0 < j" "j \<le> length ns" using 3 by (simp_all add: j_def)
    have n: "cmod k (size_of ns) = int (nat k mod length ns)" using 3 assms(2) by (simp add: nat_mod_as_int)
    have dist: "distinct (map fst ns)" "ns \<noteq> []" "seg h head ns None" using assms(1) 3 by (auto simp: list_at_def)
    obtain nx where nx: "head = Some (fst a)" "next_of h head = Some nx" "list_at h nx (b # ns')"
      using assms(1) unfolding 3 by (rule list_at_next)
    obtain y where nxn: "nx = Some y" using nx(3) by (auto simp: list_at_Cons)
    have tail: "tail_loop h head 1 = Some (Some (fst (last ns)), size_of ns)"
      using tail_loop_spec [of h head a "b # ns'" 1] assms(1) 3 by simp
    obtain h1 where h1: "set_next h (Some (fst (last ns))) head = Some h1" "seg h1 head ns head"
      "next_of h1 (Some (fst (last ns))) = Some head"
      by (rule set_next_last [OF dist(3,2,1)])
    obtain r where r: "seg h1 head (take j ns) r" "seg h1 r (drop j ns) head"
      using h1(2) seg_append [of h1 head "take j ns" "drop j ns" head] by auto
    obtain i where i: "j = Suc i" using j by (cases j) auto
    define t where "t = ns ! i"
    have tj: "take j ns = take i ns @ [t]" "take j ns \<noteq> []" "last (take j ns) = t"
      using j by (simp_all add: t_def i take_Suc_conv_app_nth)
    have stop: "(if cmod k (size_of ns) \<noteq> 0 then step_nodes h1 (Some (fst (last ns))) 0 (size_of ns - cmod k (size_of ns))
        else Some (Some (fst (last ns)))) = Some (Some (fst t))"
    proof (cases "nat k mod length ns = 0")
      case True
      then have "take j ns = ns" by (simp add: j_def)
      with tj(3) True n show ?thesis by simp
    next
      case False
      have k: "size_of ns - cmod k (size_of ns) = int j" using n 3 by (simp add: j_def of_nat_diff)
      have "seg h1 head (take i ns) (Some (fst t))" using r(1) unfolding tj(1) by (auto simp: seg_append)
      from step_nodes_seg [OF this, of "int j" 1] j i have "step_nodes h1 head 1 (int j) = Some (Some (fst t))" by simp
      then have "step_nodes h1 (Some (fst (last ns))) 0 (int j) = Some (Some (fst t))"
        using h1(3) j by (subst step_nodes.simps) simp
      with False n k show ?thesis by simp
    qed
    have nt: "next_of h1 (Some (fst t)) = Some r" using r(1) unfolding tj(1) by (auto simp: seg_append next_of_cell)
    obtain h2 where h2: "set_next h1 (Some (fst t)) None = Some h2" "seg h2 head (take j ns) None" "same_outside {fst t} h1 h2"
      using set_next_last [OF r(1) tj(2)] dist(1) unfolding tj(3) by (metis distinct_take take_map)
    have d: "distinct (map fst (take j ns @ drop j ns))" using dist(1) by simp
    have "addrs (drop j ns) \<inter> {fst t} = {}" using d unfolding tj(1) by (auto simp del: append_take_drop_id)
    then have "seg h2 r (drop j ns) head" by (rule same_outside_seg [OF h2(3) r(2)])
    moreover have "distinct (map fst (drop j ns @ take j ns))" using d by (simp only: map_append distinct_append) blast
    ultimately have "list_at h2 r (drop j ns @ take j ns)" using h2(2) by (auto simp: list_at_def seg_append)
    moreover have "rotateRight h head k = Some (h2, r)"
      using nx nxn tail h1(1) stop nt h2(1) by (simp add: rotateRight_def Let_def)
    ultimately show ?thesis by blast
  qed
qed

text \<open>
  Reordering a list weaves its second half, reversed, into the first, and rotating moves the
  last \<open>k\<close> nodes (modulo the length) to the front; every node is linked exactly once and no cycle is
  left behind. The empty list is rotated to itself but not reordered: the null pointer is read.
\<close>

theorem lists_cut_and_joined:
  assumes "list_at h head ns" "0 \<le> k"
  shows "(if ns = [] then reorderList h head = None
     else \<exists>h'. reorderList h head = Some h' \<and>
       list_at h' head (weave (take (length ns div 2 + 1) ns) (rev (drop (length ns div 2 + 1) ns)))) \<and>
    (\<exists>h' p. rotateRight h head k = Some (h', p) \<and>
       list_at h' p (drop (length ns - nat k mod length ns) ns @ take (length ns - nat k mod length ns) ns))"
  using reorderList_spec [OF assms(1)] reorderList_empty [of h] rotateRight_spec [OF assms] assms(1) by auto

theorem lists_cut_and_joined_witness:
  "\<exists>h' p. rotateRight [\<lparr>node_val = 7, node_next = Some 1\<rparr>, \<lparr>node_val = 8, node_next = None\<rparr>] (Some 0) 5 = Some (h', p) \<and>
     list_at h' p [(1, 8), (0, 7)]"
proof -
  have l: "list_at [\<lparr>node_val = 7, node_next = Some 1\<rparr>, \<lparr>node_val = 8, node_next = None\<rparr>] (Some 0) [(0, 7), (1, 8)]"
    by (simp add: list_at_def node_at_def)
  have "nat 5 mod length [(0 :: nat, 7 :: int), (1, 8)] = 1" by (simp flip: numeral_2_eq_2)
  with lists_cut_and_joined [OF l, of 5] show ?thesis by simp
qed

end
