(* ===== verification/LcCycle.thy ===== *)
theory LcCycle
  imports LcHeap
begin

text \<open>
  Cycles in linked lists: the two pointers of \<^verbatim>\<open>hobbies/leetcode/algorithms/solution_141\<close> and
  \<^verbatim>\<open>solution_142\<close>.
\<close>

partial_function (option) cycle_search :: "heap \<Rightarrow> ref \<Rightarrow> ref \<Rightarrow> bool option" where
  "cycle_search h slow fast =
     (if fast = None then Some False
      else do {
        f \<leftarrow> next_of h fast;
        if f = None then Some False
        else do {
          slow' \<leftarrow> next_of h slow;
          fast' \<leftarrow> next_of h f;
          if slow' = fast' then Some True else cycle_search h slow' fast' } })"

definition hasCycle :: "heap \<Rightarrow> ref \<Rightarrow> bool option" where
  "hasCycle h head = cycle_search h head head"

partial_function (option) entry_loop :: "heap \<Rightarrow> ref \<Rightarrow> ref \<Rightarrow> ref option" where
  "entry_loop h prev slow =
     (if prev \<noteq> slow then do {
        slow' \<leftarrow> next_of h slow;
        prev' \<leftarrow> next_of h prev;
        entry_loop h prev' slow' }
      else Some prev)"

partial_function (option) detect_loop :: "heap \<Rightarrow> ref \<Rightarrow> ref \<Rightarrow> ref \<Rightarrow> ref option" where
  "detect_loop h prev slow fast =
     (if fast = None then Some None
      else do {
        f \<leftarrow> next_of h fast;
        if f = None then Some None
        else do {
          slow' \<leftarrow> next_of h slow;
          fast' \<leftarrow> next_of h f;
          if slow' = fast' then entry_loop h prev slow' else detect_loop h prev slow' fast' } })"

definition detectCycle :: "heap \<Rightarrow> ref \<Rightarrow> ref option" where
  "detectCycle h head = detect_loop h head head head"

section \<open>Lists that end\<close>

lemma searches_end:
  assumes "list_at h slow (xs @ ys)" "list_at h fast ys"
  shows "cycle_search h slow fast = Some False \<and> detect_loop h prev slow fast = Some None"
  using assms
proof (induction ys arbitrary: slow fast xs rule: induct_list012)
  case 1
  then show ?case by (subst cycle_search.simps, subst detect_loop.simps) simp
next
  case (2 y)
  then show ?case by (subst cycle_search.simps, subst detect_loop.simps) (auto simp: list_at_Cons next_of_cell)
next
  case (3 y z ys)
  obtain f where f: "fast = Some (fst y)" "next_of h fast = Some (Some (fst z))" "next_of h (Some (fst z)) = Some f" "list_at h f ys"
    using "3.prems"(2) by (auto simp: list_at_Cons next_of_cell)
  obtain x xs' where xs: "xs @ [y, z] = x # xs'" "xs' \<noteq> []" by (cases xs) auto
  have "list_at h slow (x # xs' @ ys)" using "3.prems"(1) xs(1) by (metis append.assoc append_Cons append_Nil)
  then obtain s where s: "next_of h slow = Some s" "list_at h s (xs' @ ys)" by (auto simp: list_at_Cons next_of_cell)
  have "s \<noteq> f"
  proof
    assume "s = f"
    with s(2) f(4) have "xs' @ ys = ys" by (metis list_at_fun)
    with xs(2) show False by simp
  qed
  with "3.IH"(1) [OF s(2) f(4)] f s(1) show ?case
    by (subst cycle_search.simps, subst detect_loop.simps) simp
qed

section \<open>Lists with a cycle\<close>

text \<open>
  A list that runs through the nodes \<open>ms\<close> into the cycle \<open>cs\<close>; \<open>walk\<close> is the node reached after some
  steps.
\<close>

definition looped :: "heap \<Rightarrow> ref \<Rightarrow> nodes \<Rightarrow> nodes \<Rightarrow> bool" where
  "looped h p ms cs \<longleftrightarrow> cs \<noteq> [] \<and> seg h p (ms @ cs) (Some (fst (hd cs))) \<and> distinct (map fst (ms @ cs))"

definition walk_index :: "nat \<Rightarrow> nat \<Rightarrow> nat \<Rightarrow> nat" where
  "walk_index m c i = (if i < m then i else m + (i - m) mod c)"

definition walk :: "nodes \<Rightarrow> nodes \<Rightarrow> nat \<Rightarrow> ref" where
  "walk ms cs i = Some (fst ((ms @ cs) ! walk_index (length ms) (length cs) i))"

lemma walk_index_less: "0 < c \<Longrightarrow> walk_index m c i < m + c"
  by (simp add: walk_index_def)

lemma walk_index_Suc:
  "0 < c \<Longrightarrow> walk_index m c (Suc i) = (if Suc (walk_index m c i) < m + c then Suc (walk_index m c i) else m)"
  by (auto simp: walk_index_def Suc_diff_le mod_Suc) (metis Suc_lessI mod_less_divisor)

lemma seg_next:
  assumes "seg h p ns q" "i < length ns"
  shows "next_of h (Some (fst (ns ! i))) = Some (if Suc i < length ns then Some (fst (ns ! Suc i)) else q)"
  using assms
proof (induction ns arbitrary: p i)
  case Nil
  then show ?case by simp
next
  case (Cons n ns)
  then show ?case by (cases i; cases ns) (auto simp: next_of_cell)
qed

lemma walk_next:
  assumes "looped h p ms cs"
  shows "next_of h (walk ms cs i) = Some (walk ms cs (Suc i))"
proof -
  have c: "0 < length cs" and s: "seg h p (ms @ cs) (Some (fst (hd cs)))" using assms by (auto simp: looped_def)
  have "(ms @ cs) ! length ms = hd cs" using c by (simp add: nth_append hd_conv_nth)
  then show ?thesis
    using seg_next [OF s, of "walk_index (length ms) (length cs) i"] walk_index_less [OF c, of "length ms" i]
    by (simp add: walk_def walk_index_Suc [OF c])
qed

lemma walk_0: "looped h p ms cs \<Longrightarrow> p = walk ms cs 0"
  by (cases ms; cases cs) (auto simp: looped_def walk_def walk_index_def)

lemma walk_eq:
  assumes "looped h p ms cs"
  shows "walk ms cs i = walk ms cs j \<longleftrightarrow> walk_index (length ms) (length cs) i = walk_index (length ms) (length cs) j"
proof -
  have c: "0 < length cs" and d: "distinct (map fst (ms @ cs))" using assms by (auto simp: looped_def)
  have "fst ((ms @ cs) ! a) = fst ((ms @ cs) ! b) \<longleftrightarrow> a = b" if "a < length (ms @ cs)" "b < length (ms @ cs)" for a b
    using nth_eq_iff_index_eq [OF d, of a b] that by (simp del: map_append)
  then show ?thesis using walk_index_less [OF c] by (simp add: walk_def)
qed

text \<open>Two equal nodes at steps \<open>i\<close> and \<open>2 * i\<close>: a multiple of the length, inside the cycle.\<close>

lemma meet_iff:
  assumes "0 < c" "0 < i"
  shows "walk_index m c i = walk_index m c (2 * i) \<longleftrightarrow> m \<le> i \<and> c dvd i"
proof (cases "m \<le> i")
  case True
  then have "walk_index m c i = walk_index m c (2 * i) \<longleftrightarrow> (i - m) mod c = (i - m + i) mod c"
    by (simp add: walk_index_def mult_2)
  also have "\<dots> \<longleftrightarrow> c dvd i"
    by (metis add.commute add_cancel_right_right dvd_eq_mod_eq_0 mod_add_right_eq mod_eq_dvd_iff_nat diff_add_inverse le_add2)
  finally show ?thesis using True by simp
next
  case False
  then show ?thesis using assms by (auto simp: walk_index_def)
qed

lemma cycle_search_meets:
  assumes "looped h p ms cs" "0 < k" "length ms \<le> k" "length cs dvd k"
    and "\<And>j. 0 < j \<Longrightarrow> j < k \<Longrightarrow> \<not> (length ms \<le> j \<and> length cs dvd j)" and "i < k"
  shows "cycle_search h (walk ms cs i) (walk ms cs (2 * i)) = Some True \<and>
    detect_loop h p (walk ms cs i) (walk ms cs (2 * i)) = entry_loop h p (walk ms cs k)"
  using assms(6)
proof (induction "k - i" arbitrary: i)
  case 0
  then show ?case by simp
next
  case (Suc d)
  have c: "0 < length cs" using assms(1) by (simp add: looped_def)
  have nx: "next_of h (walk ms cs (2 * i)) = Some (walk ms cs (Suc (2 * i)))"
    "next_of h (walk ms cs (Suc (2 * i))) = Some (walk ms cs (2 * Suc i))" "next_of h (walk ms cs i) = Some (walk ms cs (Suc i))"
    using walk_next [OF assms(1)] by simp_all
  have ne: "walk ms cs (2 * i) \<noteq> None" "walk ms cs (Suc (2 * i)) \<noteq> None" by (simp_all add: walk_def)
  have meet: "walk ms cs (Suc i) = walk ms cs (2 * Suc i) \<longleftrightarrow> length ms \<le> Suc i \<and> length cs dvd Suc i"
    unfolding walk_eq [OF assms(1)] by (rule meet_iff [OF c]) simp
  show ?case
  proof (cases "Suc i = k")
    case True
    then have "walk ms cs (Suc i) = walk ms cs (2 * Suc i)" using meet assms(3,4) by simp
    then show ?thesis using nx ne True by (subst cycle_search.simps, subst detect_loop.simps) simp
  next
    case False
    then have i: "Suc i < k" using Suc.prems by simp
    then have "walk ms cs (Suc i) \<noteq> walk ms cs (2 * Suc i)" using meet assms(5) [of "Suc i"] by simp
    moreover have "d = k - Suc i" using Suc.hyps(2) by simp
    ultimately show ?thesis
      using nx ne Suc.hyps(1) [OF _ i] by (subst cycle_search.simps, subst detect_loop.simps) simp
  qed
qed

lemma entry_loop_finds:
  assumes "looped h p ms cs" "0 < k" "length ms \<le> k" "length cs dvd k" "j \<le> length ms"
  shows "entry_loop h (walk ms cs j) (walk ms cs (j + k)) = Some (Some (fst (hd cs)))"
  using assms(5)
proof (induction "length ms - j" arbitrary: j)
  case 0
  have c: "0 < length cs" using assms(1) by (simp add: looped_def)
  have j: "j = length ms" using 0 by simp
  have "walk_index (length ms) (length cs) (j + k) = walk_index (length ms) (length cs) j"
    using assms(4) j by (simp add: walk_index_def)
  then have "walk ms cs (j + k) = walk ms cs j" by (simp add: walk_def)
  moreover have "walk ms cs j = Some (fst (hd cs))" using c j by (simp add: walk_def walk_index_def nth_append hd_conv_nth)
  ultimately show ?case by (subst entry_loop.simps) simp
next
  case (Suc d)
  then have j: "j < length ms" by simp
  have "walk_index (length ms) (length cs) (j + k) \<noteq> j" using j assms(2,3) by (simp add: walk_index_def)
  moreover have "walk_index (length ms) (length cs) j = j" using j by (simp add: walk_index_def)
  ultimately have "walk ms cs j \<noteq> walk ms cs (j + k)" unfolding walk_eq [OF assms(1)] by simp
  with Suc.hyps(1) [of "Suc j"] Suc.hyps(2) j walk_next [OF assms(1)] show ?case
    by (subst entry_loop.simps) simp
qed

text \<open>
  C35: The tortoise and the hare: on a list that ends both searches return, with no cycle found; on
  a list that runs into a cycle they return too, the first with the answer that there is one, the
  second with the node where the cycle begins.
\<close>

theorem cycles_found:
  "(list_at h p ns \<longrightarrow> hasCycle h p = Some False \<and> detectCycle h p = Some None) \<and>
   (looped h p ms cs \<longrightarrow> hasCycle h p = Some True \<and> detectCycle h p = Some (Some (fst (hd cs))))"
proof (intro conjI impI)
  assume "list_at h p ns"
  then show "hasCycle h p = Some False" "detectCycle h p = Some None"
    using searches_end [of h p "[]" ns p p] by (simp_all add: hasCycle_def detectCycle_def)
next
  assume l: "looped h p ms cs"
  define meets where "meets = (\<lambda>k. 0 < k \<and> length ms \<le> k \<and> length cs dvd k)"
  have "0 < length cs" using l by (simp add: looped_def)
  moreover from this have "length ms \<le> Suc (length ms) * length cs" by (cases cs) simp_all
  ultimately have "meets (Suc (length ms) * length cs)" by (simp add: meets_def del: mult_Suc)
  then obtain k where k: "meets k" "\<And>j. j < k \<Longrightarrow> \<not> meets j" by (metis exists_least_iff)
  have p: "p = walk ms cs 0" by (rule walk_0 [OF l])
  have "cycle_search h (walk ms cs 0) (walk ms cs (2 * 0)) = Some True \<and>
      detect_loop h p (walk ms cs 0) (walk ms cs (2 * 0)) = entry_loop h p (walk ms cs k)"
    using k by (intro cycle_search_meets [OF l]) (auto simp: meets_def)
  moreover have "entry_loop h (walk ms cs 0) (walk ms cs (0 + k)) = Some (Some (fst (hd cs)))"
    using k(1) by (intro entry_loop_finds [OF l]) (simp_all add: meets_def)
  ultimately show "hasCycle h p = Some True" "detectCycle h p = Some (Some (fst (hd cs)))"
    by (simp_all add: hasCycle_def detectCycle_def flip: p)
qed

theorem cycles_found_witness:
  "detectCycle [\<lparr>node_val = 7, node_next = Some 1\<rparr>, \<lparr>node_val = 8, node_next = Some 1\<rparr>] (Some 0) = Some (Some 1)"
  using cycles_found [of "[\<lparr>node_val = 7, node_next = Some 1\<rparr>, \<lparr>node_val = 8, node_next = Some 1\<rparr>]" "Some 0" "[]" "[(0, 7)]" "[(1, 8)]"]
  by (simp add: looped_def node_at_def)

end
