(* ===== verification/LcTrees.thy ===== *)
theory LcTrees
  imports Prelude "HOL-Library.Tree"
begin

text \<open>
  Binary trees of \<^verbatim>\<open>hobbies/leetcode/algorithms\<close>: the store of \<^verbatim>\<open>TreeNode\<close>s of \<^verbatim>\<open>solution.h\<close>, balance
  (\<^verbatim>\<open>solution_110\<close>), depth (\<^verbatim>\<open>solution_111\<close>), paths with a sum (\<^verbatim>\<open>solution_112\<close>, \<^verbatim>\<open>solution_113\<close>),
  inversion (\<^verbatim>\<open>solution_226\<close>) and the traversals of \<^verbatim>\<open>dfs_bfs\<close>. An access through a null or dangling
  pointer, and a recursion or loop that does not end, is \<open>None\<close>. Sums are \<open>int\<close>.
\<close>

section \<open>Nodes and the trees they form\<close>

type_synonym tref = "nat option"

record tree_node =
  tn_val :: int
  tn_left :: tref
  tn_right :: tref

type_synonym tree_heap = "tree_node list"

definition tnode :: "tree_heap \<Rightarrow> tref \<Rightarrow> tree_node option" where
  \<comment> \<open>the node behind a pointer\<close>
  "tnode h p = (case p of None \<Rightarrow> None | Some a \<Rightarrow> if a < length h then Some (h ! a) else None)"

definition set_left :: "tree_heap \<Rightarrow> tref \<Rightarrow> tref \<Rightarrow> tree_heap option" where
  "set_left h p q = map_option (\<lambda>n. h[the p := n\<lparr>tn_left := q\<rparr>]) (tnode h p)"

definition set_right :: "tree_heap \<Rightarrow> tref \<Rightarrow> tref \<Rightarrow> tree_heap option" where
  "set_right h p q = map_option (\<lambda>n. h[the p := n\<lparr>tn_right := q\<rparr>]) (tnode h p)"

type_synonym nodes_tree = "(nat \<times> int) tree"

fun tree_to :: "tree_heap \<Rightarrow> tref \<Rightarrow> nodes_tree \<Rightarrow> tref \<Rightarrow> bool" where
  \<comment> \<open>the tree at \<open>p\<close>; the right pointer of its last node is \<open>q\<close>\<close>
  "tree_to h p Leaf q \<longleftrightarrow> p = q"
| "tree_to h p (Node l n r) q \<longleftrightarrow> p = Some (fst n) \<and>
     (\<exists>pl pr. tnode h p = Some \<lparr>tn_val = snd n, tn_left = pl, tn_right = pr\<rparr> \<and> tree_to h pl l None \<and> tree_to h pr r q)"

definition distinct_tree :: "nodes_tree \<Rightarrow> bool" where
  "distinct_tree t \<longleftrightarrow> distinct (map fst (inorder t))"

definition tree_at :: "tree_heap \<Rightarrow> tref \<Rightarrow> nodes_tree \<Rightarrow> bool" where
  "tree_at h p t \<longleftrightarrow> tree_to h p t None \<and> distinct_tree t"

abbreviation tree_addrs :: "nodes_tree \<Rightarrow> nat set" where "tree_addrs t \<equiv> fst ` set_tree t"

lemma distinct_tree_simps [simp]:
  "distinct_tree Leaf"
  "distinct_tree (Node l n r) \<longleftrightarrow> distinct_tree l \<and> distinct_tree r \<and> fst n \<notin> tree_addrs l \<and> fst n \<notin> tree_addrs r \<and>
     tree_addrs l \<inter> tree_addrs r = {}"
  by (auto simp: distinct_tree_def)

lemma tree_at_Leaf [simp]: "tree_at h p Leaf \<longleftrightarrow> p = None"
  by (simp add: tree_at_def)

lemma tree_at_Node:
  "tree_at h p (Node l n r) \<longleftrightarrow> p = Some (fst n) \<and> distinct_tree (Node l n r) \<and>
     (\<exists>pl pr. tnode h p = Some \<lparr>tn_val = snd n, tn_left = pl, tn_right = pr\<rparr> \<and> tree_at h pl l \<and> tree_at h pr r)"
  by (auto simp: tree_at_def)

lemma tree_to_None: "tree_to h None t q \<Longrightarrow> t = Leaf"
  by (cases t) auto

lemma tree_at_None [simp]: "tree_at h None t \<longleftrightarrow> t = Leaf"
  by (cases t) (auto simp: tree_at_Node)

lemma tree_at_null: "tree_at h p t \<Longrightarrow> p = None \<longleftrightarrow> t = Leaf"
  by (cases t) (auto simp: tree_at_Node)

lemma tree_at_Some: "tree_at h (Some a) t \<Longrightarrow> t \<noteq> Leaf"
  by auto

section \<open>solutions 110 and 111\<close>

partial_function (option) tree_height :: "tree_heap \<Rightarrow> tref \<Rightarrow> int option" where
  \<comment> \<open>\<^verbatim>\<open>height\<close>\<close>
  "tree_height h root =
     (if root = None then Some 0
      else do {
        n \<leftarrow> tnode h root;
        l \<leftarrow> tree_height h (tn_left n);
        r \<leftarrow> tree_height h (tn_right n);
        Some (max l r + 1) })"

partial_function (option) isBalanced :: "tree_heap \<Rightarrow> tref \<Rightarrow> bool option" where
  "isBalanced h root =
     (if root = None then Some True
      else do {
        n \<leftarrow> tnode h root;
        l \<leftarrow> tree_height h (tn_left n);
        r \<leftarrow> tree_height h (tn_right n);
        if \<bar>l - r\<bar> \<le> 1 then do {
          b \<leftarrow> isBalanced h (tn_left n);
          if b then isBalanced h (tn_right n) else Some False }
        else Some False })"

partial_function (option) minDepth :: "tree_heap \<Rightarrow> tref \<Rightarrow> int option" where
  "minDepth h root =
     (if root = None then Some 1
      else do {
        n \<leftarrow> tnode h root;
        if tn_left n = None \<and> tn_right n = None then Some 1
        else if tn_left n \<noteq> None \<and> tn_right n \<noteq> None then do {
          l \<leftarrow> minDepth h (tn_left n);
          r \<leftarrow> minDepth h (tn_right n);
          Some (min l r + 1) }
        else if tn_left n \<noteq> None then do { l \<leftarrow> minDepth h (tn_left n); Some (l + 1) }
        else do { r \<leftarrow> minDepth h (tn_right n); Some (r + 1) } })"

fun height_balanced :: "'a tree \<Rightarrow> bool" where
  "height_balanced Leaf = True"
| "height_balanced (Node l x r) =
     (height_balanced l \<and> height_balanced r \<and> \<bar>int (height l) - int (height r)\<bar> \<le> 1)"

fun root_paths :: "'a tree \<Rightarrow> 'a list list" where
  "root_paths Leaf = []"
| "root_paths (Node l x r) = (if l = Leaf \<and> r = Leaf then [[x]] else map ((#) x) (root_paths l @ root_paths r))"

lemma tree_height_spec: "tree_at h p t \<Longrightarrow> tree_height h p = Some (int (height t))"
proof (induction t arbitrary: p)
  case Leaf
  then show ?case by (simp add: tree_height.simps)
next
  case (Node l n r)
  then show ?case by (subst tree_height.simps) (auto simp: tree_at_Node)
qed

lemma isBalanced_spec: "tree_at h p t \<Longrightarrow> isBalanced h p = Some (height_balanced t)"
proof (induction t arbitrary: p)
  case Leaf
  then show ?case by (simp add: isBalanced.simps)
next
  case (Node l n r)
  then obtain pl pr where "p = Some (fst n)" "tnode h p = Some \<lparr>tn_val = snd n, tn_left = pl, tn_right = pr\<rparr>"
    "tree_at h pl l" "tree_at h pr r" by (auto simp: tree_at_Node)
  with Node.IH tree_height_spec [of h pl l] tree_height_spec [of h pr r] show ?case
    by (subst isBalanced.simps) auto
qed

lemma root_paths_Nil: "root_paths t = [] \<longleftrightarrow> t = Leaf"
  by (induction t) auto

lemma minDepth_spec:
  "tree_at h p t \<Longrightarrow> minDepth h p = Some (if t = Leaf then 1 else int (Min (length ` set (root_paths t))))"
proof (induction t arbitrary: p)
  case Leaf
  then show ?case by (simp add: minDepth.simps)
next
  case (Node l n r)
  then obtain pl pr where n: "p = Some (fst n)" "tnode h p = Some \<lparr>tn_val = snd n, tn_left = pl, tn_right = pr\<rparr>"
    "tree_at h pl l" "tree_at h pr r" by (auto simp: tree_at_Node)
  note null = tree_at_null [OF n(3)] tree_at_null [OF n(4)]
  have Suc_Min: "Min (length ` (#) n ` A) = Suc (Min (length ` A))" if "finite A" "A \<noteq> {}" for A
    using hom_Min_commute [of Suc "length ` A"] that by (simp add: image_image mono_def min_def)
  have ne: "set (root_paths u) \<noteq> {} \<longleftrightarrow> u \<noteq> Leaf" for u :: nodes_tree by (simp add: root_paths_Nil)
  have Un: "Min (length ` (A \<union> B)) = min (Min (length ` A)) (Min (length ` B))"
    if "finite A" "A \<noteq> {}" "finite B" "B \<noteq> {}" for A B :: "(nat \<times> int) list set"
    using that by (simp add: image_Un Min_Un)
  show ?case
    using n null Node.IH(1) [OF n(3)] Node.IH(2) [OF n(4)] ne [of l] ne [of r]
    by (subst minDepth.simps) (auto simp: Suc_Min Un image_Un simp flip: image_Un)
qed

text \<open>
  Height, balance and minimal depth of a tree are computed as defined: the longest and the
  shortest way to a leaf, and at every node two subtrees whose heights differ by at most one. The
  empty tree has minimal depth 1, not 0.
\<close>

theorem tree_measures:
  assumes "tree_at h p t"
  shows "tree_height h p = Some (int (height t)) \<and> isBalanced h p = Some (height_balanced t) \<and>
    minDepth h p = Some (if t = Leaf then 1 else int (Min (length ` set (root_paths t))))"
  using tree_height_spec [OF assms] isBalanced_spec [OF assms] minDepth_spec [OF assms] by blast

theorem tree_measures_witness:
  "minDepth [\<lparr>tn_val = 5, tn_left = None, tn_right = Some 1\<rparr>, \<lparr>tn_val = 6, tn_left = None, tn_right = None\<rparr>] (Some 0) = Some 2"
  using tree_measures [of "[\<lparr>tn_val = 5, tn_left = None, tn_right = Some 1\<rparr>, \<lparr>tn_val = 6, tn_left = None, tn_right = None\<rparr>]"
    "Some 0" "Node Leaf (0, 5) (Node Leaf (1, 6) Leaf)"]
  by (simp add: tree_at_Node tnode_def)

section \<open>solutions 112 and 113\<close>

definition push_if :: "tref \<Rightarrow> tref list \<Rightarrow> tref list" where
  \<comment> \<open>\<^verbatim>\<open>if (p) stack.push(p)\<close>\<close>
  "push_if p stk = (if p = None then stk else p # stk)"

partial_function (option) path_loop :: "tree_heap \<Rightarrow> tref list \<Rightarrow> tref set \<Rightarrow> int \<Rightarrow> int \<Rightarrow> bool option" where
  "path_loop h visting visited acc target =
     (if visting = [] then Some False
      else do {
        let node = hd visting;
        n \<leftarrow> tnode h node;
        if node \<in> visited then path_loop h (tl visting) (visited - {node}) (acc - tn_val n) target
        else if tn_left n = None \<and> tn_right n = None then
          (if acc + tn_val n = target then Some True
           else path_loop h (tl visting) visited (acc + tn_val n - tn_val n) target)
        else path_loop h (push_if (tn_left n) (push_if (tn_right n) visting)) (insert node visited) (acc + tn_val n) target })"

definition hasPathSum :: "tree_heap \<Rightarrow> tref \<Rightarrow> int \<Rightarrow> bool option" where
  "hasPathSum h root target = (if root = None then Some False else path_loop h [root] {} 0 target)"

partial_function (option) hasPathSum2 :: "tree_heap \<Rightarrow> tref \<Rightarrow> int \<Rightarrow> bool option" where
  "hasPathSum2 h root target =
     (if root = None then Some False
      else do {
        n \<leftarrow> tnode h root;
        if tn_left n = None \<and> tn_right n = None then Some (tn_val n = target)
        else do {
          b \<leftarrow> hasPathSum2 h (tn_left n) (target - tn_val n);
          if b then Some True else hasPathSum2 h (tn_right n) (target - tn_val n) } })"

fun path_vals :: "tree_heap \<Rightarrow> tref list \<Rightarrow> int list option" where
  "path_vals h [] = Some []"
| "path_vals h (p # ps) = do { n \<leftarrow> tnode h p; vs \<leftarrow> path_vals h ps; Some (tn_val n # vs) }"

partial_function (option) paths_loop ::
  "tree_heap \<Rightarrow> tref list \<Rightarrow> tref list \<Rightarrow> int \<Rightarrow> int \<Rightarrow> int list list \<Rightarrow> int list list option" where
  "paths_loop h visting visited acc target result =
     (if visting = [] then Some result
      else do {
        let node = hd visting;
        n \<leftarrow> tnode h node;
        if visited \<noteq> [] \<and> last visited = node then
          paths_loop h (tl visting) (butlast visited) (acc - tn_val n) target result
        else if tn_left n = None \<and> tn_right n = None then
          (if acc + tn_val n = target then do {
             nums \<leftarrow> path_vals h visited;
             paths_loop h (tl visting) visited (acc + tn_val n - tn_val n) target (result @ [nums @ [tn_val n]]) }
           else paths_loop h (tl visting) visited (acc + tn_val n - tn_val n) target result)
        else paths_loop h (push_if (tn_left n) (push_if (tn_right n) visting)) (visited @ [node]) (acc + tn_val n) target result })"

definition pathSum :: "tree_heap \<Rightarrow> tref \<Rightarrow> int \<Rightarrow> int list list option" where
  "pathSum h root target = (if root = None then Some [] else paths_loop h [root] [] 0 target [])"

definition path_sums :: "nodes_tree \<Rightarrow> int \<Rightarrow> int list list" where
  "path_sums t target = filter (\<lambda>vs. sum_list vs = target) (map (map snd) (root_paths t))"

lemma path_sums_Leaf [simp]: "path_sums Leaf target = []"
  by (simp add: path_sums_def)

lemma path_sums_single [simp]: "path_sums (Node Leaf n Leaf) target = (if snd n = target then [[snd n]] else [])"
  by (simp add: path_sums_def)

lemma path_sums_Node:
  "l \<noteq> Leaf \<or> r \<noteq> Leaf \<Longrightarrow> path_sums (Node l n r) target =
     map ((#) (snd n)) (path_sums l (target - snd n) @ path_sums r (target - snd n))"
  by (auto simp: path_sums_def filter_map comp_def algebra_simps intro!: arg_cong2 [where f = "(@)"] arg_cong [where f = "map _"] filter_cong)

lemma hasPathSum2_spec: "tree_at h p t \<Longrightarrow> hasPathSum2 h p target = Some (path_sums t target \<noteq> [])"
proof (induction t arbitrary: p target)
  case Leaf
  then show ?case by (simp add: hasPathSum2.simps)
next
  case (Node l n r)
  then obtain pl pr where n: "p = Some (fst n)" "tnode h p = Some \<lparr>tn_val = snd n, tn_left = pl, tn_right = pr\<rparr>"
    "tree_at h pl l" "tree_at h pr r" by (auto simp: tree_at_Node)
  note null = tree_at_null [OF n(3)] tree_at_null [OF n(4)]
  show ?case
  proof (cases "l = Leaf \<and> r = Leaf")
    case True
    with n null show ?thesis by (subst hasPathSum2.simps) auto
  next
    case False
    with n null Node.IH(1) [OF n(3)] Node.IH(2) [OF n(4)] show ?thesis
      by (subst hasPathSum2.simps) (auto simp: path_sums_Node)
  qed
qed

lemma path_loop_spec:
  assumes "tree_at h p t" "Some ` tree_addrs t \<inter> visited = {}"
  shows "path_loop h (push_if p stk) visited acc target =
    (if path_sums t (target - acc) \<noteq> [] then Some True else path_loop h stk visited acc target)"
  using assms
proof (induction t arbitrary: p visited acc stk)
  case Leaf
  then show ?case by (simp add: push_if_def)
next
  case (Node l n r)
  then obtain pl pr where n: "p = Some (fst n)" "tnode h p = Some \<lparr>tn_val = snd n, tn_left = pl, tn_right = pr\<rparr>"
    "tree_at h pl l" "tree_at h pr r" and d: "fst n \<notin> tree_addrs l" "fst n \<notin> tree_addrs r" by (auto simp: tree_at_Node)
  note null = tree_at_null [OF n(3)] tree_at_null [OF n(4)]
  have new: "p \<notin> visited" using Node.prems(2) n(1) by auto
  have push: "push_if p stk = p # stk" using n(1) by (simp add: push_if_def)
  show ?case
  proof (cases "l = Leaf \<and> r = Leaf")
    case True
    with n(1,2) null new show ?thesis
      unfolding push by (subst path_loop.simps) (auto simp: Let_def algebra_simps)
  next
    case False
    let ?vis = "insert p visited" and ?acc = "acc + snd n"
    have dis: "Some ` tree_addrs l \<inter> ?vis = {}" "Some ` tree_addrs r \<inter> ?vis = {}" 
      using Node.prems(2) d n(1) by (auto simp: image_Un Int_Un_distrib2 Int_Un_distrib)
    have "path_loop h (p # stk) visited acc target = path_loop h (push_if pl (push_if pr (p # stk))) ?vis ?acc target"
      using n(2) null new False by (subst path_loop.simps) (auto simp: Let_def)
    also have "\<dots> = (if path_sums (Node l n r) (target - acc) \<noteq> [] then Some True else path_loop h (p # stk) ?vis ?acc target)"
      using Node.IH(1) [OF n(3) dis(1)] Node.IH(2) [OF n(4) dis(2)] False by (simp add: path_sums_Node algebra_simps)
    also have "path_loop h (p # stk) ?vis ?acc target = path_loop h stk visited acc target"
      using n(2) new by (subst path_loop.simps) (simp add: Let_def)
    finally show ?thesis unfolding push .
  qed
qed

lemma path_vals_snoc: "path_vals h (ps @ [p]) = do { vs \<leftarrow> path_vals h ps; n \<leftarrow> tnode h p; Some (vs @ [tn_val n]) }"
  by (induction ps) (auto split: bind_splits)

lemma paths_loop_spec:
  assumes "tree_at h p t" "Some ` tree_addrs t \<inter> set visited = {}" "path_vals h visited = Some vs"
  shows "paths_loop h (push_if p stk) visited acc target result =
    paths_loop h stk visited acc target (result @ map ((@) vs) (path_sums t (target - acc)))"
  using assms
proof (induction t arbitrary: p visited vs acc stk result)
  case Leaf
  then show ?case by (simp add: push_if_def)
next
  case (Node l n r)
  then obtain pl pr where n: "p = Some (fst n)" "tnode h p = Some \<lparr>tn_val = snd n, tn_left = pl, tn_right = pr\<rparr>"
    "tree_at h pl l" "tree_at h pr r" and d: "fst n \<notin> tree_addrs l" "fst n \<notin> tree_addrs r" by (auto simp: tree_at_Node)
  note null = tree_at_null [OF n(3)] tree_at_null [OF n(4)]
  have "p \<notin> set visited" using Node.prems(2) n(1) by auto
  then have new: "\<not> (visited \<noteq> [] \<and> last visited = p)" using last_in_set by metis
  have push: "push_if p stk = p # stk" using n(1) by (simp add: push_if_def)
  show ?case
  proof (cases "l = Leaf \<and> r = Leaf")
    case True
    with n(1,2) null new Node.prems(3) show ?thesis
      unfolding push by (subst paths_loop.simps) (auto simp: Let_def algebra_simps)
  next
    case False
    let ?vis = "visited @ [p]" and ?acc = "acc + snd n"
    have dis: "Some ` tree_addrs l \<inter> set ?vis = {}" "Some ` tree_addrs r \<inter> set ?vis = {}" 
      using Node.prems(2) d n(1) by (auto simp: image_Un Int_Un_distrib2 Int_Un_distrib)
    have pv: "path_vals h ?vis = Some (vs @ [snd n])" using Node.prems(3) n(2) by (simp add: path_vals_snoc)
    have "paths_loop h (p # stk) visited acc target result = paths_loop h (push_if pl (push_if pr (p # stk))) ?vis ?acc target result"
      using n(2) null new False by (subst paths_loop.simps) (auto simp: Let_def)
    also have "\<dots> = paths_loop h (p # stk) ?vis ?acc target (result @ map ((@) vs) (path_sums (Node l n r) (target - acc)))"
      using Node.IH(1) [OF n(3) dis(1) pv] Node.IH(2) [OF n(4) dis(2) pv] False
      by (simp add: path_sums_Node algebra_simps comp_def)
    also have "\<dots> = paths_loop h stk visited acc target (result @ map ((@) vs) (path_sums (Node l n r) (target - acc)))"
      using n(2) by (subst paths_loop.simps) (simp add: Let_def)
    finally show ?thesis unfolding push .
  qed
qed

text \<open>
  Both tests for a path to a leaf with a given sum agree with the list of these paths, and the
  explicit stack of \<^verbatim>\<open>pathSum\<close> collects exactly them, from left to right.
\<close>

theorem path_sums_found:
  assumes "tree_at h p t"
  shows "hasPathSum h p target = Some (path_sums t target \<noteq> []) \<and> hasPathSum2 h p target = Some (path_sums t target \<noteq> []) \<and>
    pathSum h p target = Some (path_sums t target)"
proof (cases "p = None")
  case True
  with assms show ?thesis by (simp add: hasPathSum_def hasPathSum2.simps pathSum_def)
next
  case False
  then have push: "push_if p [] = [p]" by (simp add: push_if_def)
  from path_loop_spec [OF assms, of "{}" "[]" 0 target] paths_loop_spec [OF assms, of "[]" "[]" "[]" 0 target "[]"]
    hasPathSum2_spec [OF assms, of target] False
  show ?thesis unfolding push
    by (auto simp: hasPathSum_def pathSum_def path_loop.simps [of _ "[]"] paths_loop.simps [of _ "[]"] map_idI)
qed

theorem path_sums_found_witness:
  "pathSum [\<lparr>tn_val = 5, tn_left = None, tn_right = Some 1\<rparr>, \<lparr>tn_val = 6, tn_left = None, tn_right = None\<rparr>] (Some 0) 11 = Some [[5, 6]]"
  using path_sums_found [of "[\<lparr>tn_val = 5, tn_left = None, tn_right = Some 1\<rparr>, \<lparr>tn_val = 6, tn_left = None, tn_right = None\<rparr>]"
    "Some 0" "Node Leaf (0, 5) (Node Leaf (1, 6) Leaf)" 11]
  by (simp add: tree_at_Node tnode_def path_sums_def)

section \<open>dfs and bfs\<close>

text \<open>The values printed after \<^verbatim>\<open>visiting\<close>, in order.\<close>

partial_function (option) dfs_loop :: "tree_heap \<Rightarrow> tref list \<Rightarrow> int \<Rightarrow> int list \<Rightarrow> int list option" where
  "dfs_loop h stk v out =
     (if stk = [] then Some out
      else do {
        n \<leftarrow> tnode h (hd stk);
        let out' = out @ [tn_val n];
        if tn_val n = v then Some out'
        else dfs_loop h (push_if (tn_left n) (push_if (tn_right n) (tl stk))) v out' })"

definition dfs :: "tree_heap \<Rightarrow> tref \<Rightarrow> int \<Rightarrow> int list option" where
  "dfs h root v = dfs_loop h [root] v []"

definition enqueue_if :: "tref \<Rightarrow> tref list \<Rightarrow> tref list" where
  "enqueue_if p q = (if p = None then q else q @ [p])"

partial_function (option) bfs_loop :: "tree_heap \<Rightarrow> tref list \<Rightarrow> int \<Rightarrow> int list \<Rightarrow> int list option" where
  "bfs_loop h q v out =
     (if q = [] then Some out
      else do {
        n \<leftarrow> tnode h (hd q);
        let out' = out @ [tn_val n];
        if tn_val n = v then Some out'
        else bfs_loop h (enqueue_if (tn_right n) (enqueue_if (tn_left n) (tl q))) v out' })"

definition bfs :: "tree_heap \<Rightarrow> tref \<Rightarrow> int \<Rightarrow> int list option" where
  "bfs h root v = bfs_loop h [root] v []"

definition up_to :: "'a \<Rightarrow> 'a list \<Rightarrow> 'a list" where
  "up_to v xs = takeWhile (\<lambda>x. x \<noteq> v) xs @ take 1 (dropWhile (\<lambda>x. x \<noteq> v) xs)"

lemma up_to_simps [simp]: "up_to v [] = []" "up_to v (x # xs) = (if x = v then [x] else x # up_to v xs)"
  by (simp_all add: up_to_def)

lemma up_to_append: "up_to v (xs @ ys) = (if v \<in> set xs then up_to v xs else xs @ up_to v ys)"
  by (induction xs) auto

lemma dfs_loop_spec:
  "tree_at h p t \<Longrightarrow> dfs_loop h (push_if p stk) v out =
     (if v \<in> set (map snd (preorder t)) then Some (out @ up_to v (map snd (preorder t)))
      else dfs_loop h stk v (out @ map snd (preorder t)))"
proof (induction t arbitrary: p stk out)
  case Leaf
  then show ?case by (simp add: push_if_def)
next
  case (Node l n r)
  then obtain pl pr where n: "p = Some (fst n)" "tnode h p = Some \<lparr>tn_val = snd n, tn_left = pl, tn_right = pr\<rparr>"
    "tree_at h pl l" "tree_at h pr r" by (auto simp: tree_at_Node)
  have push: "push_if p stk = p # stk" using n(1) by (simp add: push_if_def)
  have "dfs_loop h (p # stk) v out = (if snd n = v then Some (out @ [snd n])
      else dfs_loop h (push_if pl (push_if pr stk)) v (out @ [snd n]))"
    using n(2) by (subst dfs_loop.simps) (simp add: Let_def)
  then show ?case
    unfolding push using Node.IH(1) [OF n(3), of "push_if pr stk" "out @ [snd n]"]
      Node.IH(2) [OF n(4), of stk "out @ snd n # map snd (preorder l)"]
    by (auto simp: up_to_append)
qed

fun forest_size :: "'a tree list \<Rightarrow> nat" where
  "forest_size [] = 0"
| "forest_size (t # ts) = Suc (2 * size t) + forest_size ts"

lemma forest_size_append [simp]: "forest_size (ts @ us) = forest_size ts + forest_size us"
  by (induction ts) auto

function queue_order :: "'a tree list \<Rightarrow> 'a list" where
  "queue_order [] = []"
| "queue_order (Leaf # ts) = queue_order ts"
| "queue_order (Node l x r # ts) = x # queue_order (ts @ [l, r])"
  by pat_completeness auto
termination by (relation "measure forest_size") auto

text \<open>The levels of a forest from the top: its roots, then those of the subtrees below.\<close>

fun roots :: "'a tree list \<Rightarrow> 'a list" where
  "roots [] = []"
| "roots (Leaf # ts) = roots ts"
| "roots (Node l x r # ts) = x # roots ts"

fun below :: "'a tree list \<Rightarrow> 'a tree list" where
  "below [] = []"
| "below (Leaf # ts) = below ts"
| "below (Node l x r # ts) = l # r # below ts"

primrec levels :: "nat \<Rightarrow> 'a tree list \<Rightarrow> 'a list list" where
  "levels 0 ts = []"
| "levels (Suc n) ts = roots ts # levels n (below ts)"

definition level_order :: "'a tree \<Rightarrow> 'a list" where
  "level_order t = concat (levels (height t) [t])"

lemma queue_order_roots: "queue_order (ts @ us) = roots ts @ queue_order (us @ below ts)"
proof (induction ts arbitrary: us rule: roots.induct)
  case (3 l x r ts)
  from 3 [of "us @ [l, r]"] show ?case by simp
qed simp_all

lemma height_below: "\<forall>t \<in> set ts. height t \<le> Suc n \<Longrightarrow> \<forall>t \<in> set (below ts). height t \<le> n"
  by (induction ts rule: below.induct) auto

lemma queue_order_levels: "\<forall>t \<in> set ts. height t \<le> n \<Longrightarrow> queue_order ts = concat (levels n ts)"
proof (induction n arbitrary: ts)
  case 0
  then show ?case by (induction ts) auto
next
  case (Suc n)
  from Suc.IH [OF height_below [OF Suc.prems]] queue_order_roots [of ts "[]"] show ?case by simp
qed

lemma queue_order_skip: "queue_order (ts @ Leaf # us) = queue_order (ts @ us)"
proof (induction "ts @ us" arbitrary: ts us rule: queue_order.induct)
  case (3 l x r vs)
  show ?case
  proof (cases ts)
    case Nil
    then show ?thesis by simp
  next
    case (Cons t ts')
    with 3 have "t = Node l x r" "vs = ts' @ us" by simp_all
    with 3(1) [of ts' "us @ [l, r]"] Cons show ?thesis by simp
  qed
next
  case (2 vs)
  show ?case
  proof (cases ts)
    case Nil
    then show ?thesis by simp
  next
    case (Cons t ts')
    with 2 have "t = Leaf" "vs = ts' @ us" by simp_all
    with 2(1) [of ts' us] Cons show ?thesis by simp
  qed
qed simp

lemma bfs_loop_spec:
  assumes "list_all2 (tree_at h) q ts" "None \<notin> set q"
  shows "bfs_loop h q v out = Some (out @ up_to v (map snd (queue_order ts)))"
  using assms
proof (induction "forest_size ts" arbitrary: q ts out rule: less_induct)
  case less
  show ?case
  proof (cases ts)
    case Nil
    with less.prems show ?thesis by (subst bfs_loop.simps) simp
  next
    case (Cons t ts')
    with less.prems obtain p q' where q: "q = p # q'" "tree_at h p t" "list_all2 (tree_at h) q' ts'" "p \<noteq> None" "None \<notin> set q'"
      by (auto simp: list_all2_Cons2 simp del: not_None_eq)
    then obtain l n r where t: "t = Node l n r" by (cases t) auto
    obtain pl pr where n: "tnode h p = Some \<lparr>tn_val = snd n, tn_left = pl, tn_right = pr\<rparr>" "tree_at h pl l" "tree_at h pr r"
      using q(2) by (auto simp: t tree_at_Node)
    let ?q = "enqueue_if pr (enqueue_if pl q')"
    let ?ts = "(ts' @ (if pl = None then [] else [l])) @ (if pr = None then [] else [r])"
    have l2: "list_all2 (tree_at h) ?q ?ts" "None \<notin> set ?q"
      using q(3,5) n(2,3) by (auto simp: enqueue_if_def list_all2_appendI)
    have "forest_size ?ts < forest_size ts" by (simp add: Cons t)
    from less.hyps [OF this l2] have IH: "bfs_loop h ?q v (out @ [snd n]) = Some ((out @ [snd n]) @ up_to v (map snd (queue_order ?ts)))" .
    have "queue_order ?ts = queue_order (ts' @ [l, r])"
      using tree_at_null [OF n(2)] tree_at_null [OF n(3)] queue_order_skip [of "ts' @ [l]" "[]"] queue_order_skip [of ts' "[r]"]
        queue_order_skip [of ts' "[]"] by auto
    with IH q(1) n(1) show ?thesis by (subst bfs_loop.simps) (simp add: Let_def Cons t)
  qed
qed

text \<open>
  From a tree that is not empty, the stack visits its values in preorder and the queue level by
  level, each up to the first occurrence of the value searched; an empty tree is read through the
  null pointer by both.
\<close>

theorem traversals_visit:
  assumes "tree_at h p t"
  shows "dfs h p v = (if t = Leaf then None else Some (up_to v (map snd (preorder t)))) \<and>
    bfs h p v = (if t = Leaf then None else Some (up_to v (map snd (level_order t))))"
proof (cases "p = None")
  case True
  with assms show ?thesis by (simp add: dfs_def bfs_def dfs_loop.simps bfs_loop.simps tnode_def)
next
  case False
  then have ne: "t \<noteq> Leaf" and push: "push_if p [] = [p]" using tree_at_null [OF assms] by (simp_all add: push_if_def)
  have "\<not> v \<in> set (map snd (preorder t)) \<Longrightarrow> up_to v (map snd (preorder t)) = map snd (preorder t)"
    using up_to_append [of v "map snd (preorder t)" "[]"] by simp
  with dfs_loop_spec [OF assms, of "[]" v "[]"] have "dfs h p v = Some (up_to v (map snd (preorder t)))"
    unfolding push by (auto simp: dfs_def dfs_loop.simps [of _ "[]"])
  moreover have "bfs h p v = Some (up_to v (map snd (level_order t)))"
    using bfs_loop_spec [of h "[p]" "[t]" v "[]"] assms False queue_order_levels [of "[t]" "height t"]
    by (simp add: bfs_def level_order_def)
  ultimately show ?thesis using ne by simp
qed

theorem traversals_visit_witness:
  "bfs [\<lparr>tn_val = 5, tn_left = None, tn_right = Some 1\<rparr>, \<lparr>tn_val = 6, tn_left = None, tn_right = None\<rparr>] (Some 0) 9 = Some [5, 6]"
  using traversals_visit [of "[\<lparr>tn_val = 5, tn_left = None, tn_right = Some 1\<rparr>, \<lparr>tn_val = 6, tn_left = None, tn_right = None\<rparr>]"
    "Some 0" "Node Leaf (0, 5) (Node Leaf (1, 6) Leaf)" 9]
  by (simp add: tree_at_Node tnode_def level_order_def numeral_2_eq_2)

end
