(* ===== verification/LcMorris.thy ===== *)
theory LcMorris
  imports LcTrees
begin

text \<open>
  More programs on binary trees of \<^verbatim>\<open>hobbies/leetcode/algorithms\<close>: the search tree test with threads
  (\<^verbatim>\<open>solution_98\<close>), lowest common ancestors (\<^verbatim>\<open>solution_235\<close>), the paths as strings
  (\<^verbatim>\<open>solution_257\<close>) and inversion (\<^verbatim>\<open>solution_226\<close>).
\<close>

section \<open>solution 98\<close>

partial_function (option) pred_loop :: "tree_heap \<Rightarrow> tref \<Rightarrow> tref \<Rightarrow> tref option" where
  "pred_loop h prev cur = do {
     n \<leftarrow> tnode h prev;
     if tn_right n \<noteq> None \<and> tn_right n \<noteq> cur then pred_loop h (tn_right n) cur else Some prev }"

partial_function (option) morris_loop :: "tree_heap \<Rightarrow> tref \<Rightarrow> int list \<Rightarrow> (tree_heap \<times> int list) option" where
  "morris_loop h cur out =
     (if cur = None then Some (h, out)
      else do {
        n \<leftarrow> tnode h cur;
        if tn_left n = None then morris_loop h (tn_right n) (out @ [tn_val n])
        else do {
          prev \<leftarrow> pred_loop h (tn_left n) cur;
          m \<leftarrow> tnode h prev;
          if tn_right m \<noteq> None then do {
            h1 \<leftarrow> set_right h prev None;
            n1 \<leftarrow> tnode h1 cur;
            morris_loop h1 (tn_right n1) (out @ [tn_val n1]) }
          else do {
            h1 \<leftarrow> set_right h prev cur;
            n1 \<leftarrow> tnode h1 cur;
            morris_loop h1 (tn_left n1) out } } })"

function increasing_from :: "int list \<Rightarrow> int \<Rightarrow> bool option" where
  \<comment> \<open>the last loop, from \<open>i\<close> down to 1\<close>
  "increasing_from xs i =
     (if 1 \<le> i then
        (case (at xs (i - 1), at xs i) of
           (Some a, Some b) \<Rightarrow> if \<not> a < b then Some False else increasing_from xs (i - 1)
         | _ \<Rightarrow> None)
      else Some True)"
  by pat_completeness auto
termination by (relation "measure (\<lambda>(xs, i). nat i)") auto

declare increasing_from.simps [simp del]

definition isValidBST :: "tree_heap \<Rightarrow> tref \<Rightarrow> (tree_heap \<times> bool) option" where
  "isValidBST h root =
     (if root = None then Some (h, True)
      else do {
        (h1, xs) \<leftarrow> morris_loop h root [];
        b \<leftarrow> increasing_from xs (size_of xs - 1);
        Some (h1, b) })"

lemma tnode_update: "tnode (h[a := n]) p = (if p = Some a \<and> a < length h then Some n else tnode h p)"
  by (auto simp: tnode_def split: option.splits)

lemma tnode_length: "tnode h (Some a) = Some n \<Longrightarrow> a < length h \<and> h ! a = n"
  by (auto simp: tnode_def split: if_splits)

lemma tree_to_write: "a \<notin> tree_addrs t \<Longrightarrow> tree_to (h[a := n]) p t q = tree_to h p t q"
  by (induction t arbitrary: p q) (auto simp: tnode_update image_Un)

lemma tree_to_null: "tree_to h p t q \<Longrightarrow> t \<noteq> Leaf \<Longrightarrow> p \<noteq> None"
  by (cases t) auto

lemma thread_end:
  assumes "tree_to h p t q" "t \<noteq> Leaf" "q = None \<or> q = cur" "cur \<notin> Some ` tree_addrs t" "distinct_tree t"
  defines "w \<equiv> fst (last (inorder t))"
  shows "\<exists>n. pred_loop h p cur = Some (Some w) \<and> w \<in> tree_addrs t \<and> tnode h (Some w) = Some n \<and> tn_right n = q \<and>
    (\<forall>q'. tree_to (h[w := n\<lparr>tn_right := q'\<rparr>]) p t q')"
  using assms(1-5) unfolding w_def
proof (induction t arbitrary: p)
  case Leaf
  then show ?case by simp
next
  case (Node l m r)
  then obtain pl pr where m: "p = Some (fst m)" "tnode h p = Some \<lparr>tn_val = snd m, tn_left = pl, tn_right = pr\<rparr>"
    "tree_to h pl l None" "tree_to h pr r q" by auto
  have d: "fst m \<notin> tree_addrs l" "fst m \<notin> tree_addrs r" "tree_addrs l \<inter> tree_addrs r = {}" "distinct_tree r"
    using Node.prems(5) by auto
  have len: "fst m < length h" using m(1,2) tnode_length by blast
  show ?case
  proof (cases "r = Leaf")
    case True
    then have pr: "pr = q" using m(4) by simp
    have "tree_to (h[fst m := \<lparr>tn_val = snd m, tn_left = pl, tn_right = q'\<rparr>]) p (Node l m r) q'" for q'
      using m True len d(1) by (auto simp: tnode_update tree_to_write)
    moreover have "pred_loop h p cur = Some (Some (fst m))"
      using m(1,2) pr Node.prems(3) by (subst pred_loop.simps) auto
    ultimately show ?thesis using m(1,2) pr
      by (intro exI [of _ "\<lparr>tn_val = snd m, tn_left = pl, tn_right = pr\<rparr>"]) (simp add: True)
  next
    case False
    have cr: "cur \<notin> Some ` tree_addrs r" using Node.prems(4) by auto
    let ?w = "fst (last (inorder r))"
    obtain n where w: "pred_loop h pr cur = Some (Some ?w)" "?w \<in> tree_addrs r" "tnode h (Some ?w) = Some n" "tn_right n = q"
      "\<And>q'. tree_to (h[?w := n\<lparr>tn_right := q'\<rparr>]) pr r q'"
      using Node.IH(2) [OF m(4) False Node.prems(3) cr d(4)] by blast
    have lw: "fst (last (inorder (Node l m r))) = ?w" using False by (cases r) auto
    have "?w \<notin> tree_addrs l" "?w \<noteq> fst m" using w(2) d by (metis disjoint_iff)+
    then have "tree_to (h[?w := n\<lparr>tn_right := q'\<rparr>]) p (Node l m r) q'" for q'
      using m w(5) by (auto simp: tnode_update tree_to_write)
    moreover have "pr \<noteq> None" using tree_to_null [OF m(4) False] .
    moreover have "pr \<noteq> cur" using m(4) False cr by (cases r) auto
    ultimately show ?thesis unfolding lw using m(1,2) w(1-4)
      by (intro exI [of _ n]) (subst pred_loop.simps, auto)
  qed
qed

lemma morris_visits:
  assumes "tree_to h p t q" "q \<notin> Some ` tree_addrs t" "distinct_tree t"
  shows "morris_loop h p out = morris_loop h q (out @ map snd (inorder t))"
  using assms
proof (induction t arbitrary: h p q out)
  case Leaf
  then show ?case by simp
next
  case (Node l m r)
  then obtain pl pr where m: "p = Some (fst m)" "tnode h p = Some \<lparr>tn_val = snd m, tn_left = pl, tn_right = pr\<rparr>"
    "tree_to h pl l None" "tree_to h pr r q" by auto
  have d: "fst m \<notin> tree_addrs l" "distinct_tree l" "distinct_tree r" "q \<notin> Some ` tree_addrs r"
    using Node.prems(2,3) by auto
  show ?case
  proof (cases "l = Leaf")
    case True
    then have "morris_loop h p out = morris_loop h pr (out @ [snd m])"
      using m by (subst morris_loop.simps) simp
    with Node.IH(2) [OF m(4) d(4,3)] True show ?thesis by simp
  next
    case False
    obtain b where pl: "pl = Some b" using tree_to_null [OF m(3) False] by auto
    have pc: "p \<notin> Some ` tree_addrs l" using d(1) m(1) by auto
    define w where "w = fst (last (inorder l))"
    obtain n where w: "pred_loop h pl p = Some (Some w)" "w \<in> tree_addrs l" "tnode h (Some w) = Some n" "tn_right n = None"
      "tree_to (h[w := n\<lparr>tn_right := p\<rparr>]) pl l p"
      using thread_end [OF m(3) False _ pc d(2)] unfolding w_def by blast
    let ?h = "h[w := n\<lparr>tn_right := p\<rparr>]"
    have wm: "w \<noteq> fst m" "w < length h" "h ! w = n" using w(2,3) d(1) tnode_length by metis+
    have cm: "tnode ?h p = Some \<lparr>tn_val = snd m, tn_left = pl, tn_right = pr\<rparr>" using m(1,2) wm by (simp add: tnode_update)
    have "morris_loop h p out = morris_loop ?h pl out"
      using m(1,2) pl w(1,3,4) cm by (subst morris_loop.simps) (simp add: set_right_def)
    also have "\<dots> = morris_loop ?h p (out @ map snd (inorder l))" by (rule Node.IH(1) [OF w(5) pc d(2)])
    also have "\<dots> = morris_loop h pr (out @ map snd (inorder l) @ [snd m])"
    proof -
      obtain n' where w': "pred_loop ?h pl p = Some (Some w)" "tnode ?h (Some w) = Some n'" "tn_right n' = p"
        using thread_end [OF w(5) False _ pc d(2)] unfolding w_def by blast
      have "n' = n\<lparr>tn_right := p\<rparr>" using w'(2) wm by (simp add: tnode_update)
      moreover from this have "?h[w := n'\<lparr>tn_right := None\<rparr>] = h" using wm w(4) by (simp add: list_update_same_conv)
      ultimately show ?thesis
        using m(1,2) pl cm w' by (subst morris_loop.simps) (simp add: set_right_def)
    qed
    also have "\<dots> = morris_loop h q (out @ map snd (inorder l) @ [snd m] @ map snd (inorder r))"
      using Node.IH(2) [OF m(4) d(4,3)] by simp
    finally show ?thesis by simp
  qed
qed

lemma increasing_from_spec:
  "i < size_of xs \<Longrightarrow> increasing_from xs i = Some (\<forall>j. 0 \<le> j \<longrightarrow> j < i \<longrightarrow> xs ! nat j < xs ! nat (j + 1))"
proof (induction xs i rule: increasing_from.induct)
  case (1 xs i)
  show ?case
  proof (cases "1 \<le> i")
    case True
    then have at: "at xs (i - 1) = Some (xs ! nat (i - 1))" "at xs i = Some (xs ! nat i)" using "1.prems" by simp_all
    have split: "j < i \<longleftrightarrow> j < i - 1 \<or> j = i - 1" for j using True by auto
    have "(\<forall>j. 0 \<le> j \<longrightarrow> j < i \<longrightarrow> xs ! nat j < xs ! nat (j + 1)) \<longleftrightarrow>
        xs ! nat (i - 1) < xs ! nat i \<and> (\<forall>j. 0 \<le> j \<longrightarrow> j < i - 1 \<longrightarrow> xs ! nat j < xs ! nat (j + 1))"
      unfolding split using True by (auto dest: spec [of _ "i - 1"])
    with "1.IH" [OF True refl at] "1.prems" True at show ?thesis
      by (subst increasing_from.simps) auto
  next
    case False
    then show ?thesis by (subst increasing_from.simps) auto
  qed
qed

lemma increasing_sorted:
  "increasing_from xs (size_of xs - 1) = Some (sorted_wrt (<) xs)"
proof -
  have "(\<forall>j. 0 \<le> j \<longrightarrow> j < size_of xs - 1 \<longrightarrow> xs ! nat j < xs ! nat (j + 1)) \<longleftrightarrow> (\<forall>i. Suc i < length xs \<longrightarrow> xs ! i < xs ! Suc i)"
  proof (intro iffI allI impI)
    fix i
    assume "\<forall>j. 0 \<le> j \<longrightarrow> j < size_of xs - 1 \<longrightarrow> xs ! nat j < xs ! nat (j + 1)" "Suc i < length xs"
    then have "xs ! nat (int i) < xs ! nat (int i + 1)" by (elim allE [of _ "int i"]) simp
    then show "xs ! i < xs ! Suc i" by (simp add: nat_add_distrib)
  next
    fix j
    assume "\<forall>i. Suc i < length xs \<longrightarrow> xs ! i < xs ! Suc i" "0 \<le> j" "j < size_of xs - 1"
    then show "xs ! nat j < xs ! nat (j + 1)" by (simp add: nat_add_distrib)
  qed
  then show ?thesis using increasing_from_spec [of "size_of xs - 1" xs]
    by (simp add: sorted_wrt_iff_nth_Suc_transp)
qed

text \<open>
  C36: The test for a binary search tree threads the tree while it walks through it and takes every
  thread out again: it answers whether the tree is one and leaves the store exactly as it was.
\<close>

theorem morris_checks_bst:
  assumes "tree_at h p t"
  shows "isValidBST h p = Some (h, bst (map_tree snd t))"
proof (cases "p = None")
  case True
  with assms show ?thesis by (simp add: isValidBST_def)
next
  case False
  have "morris_loop h p [] = Some (h, map snd (inorder t))"
    using morris_visits [of h p t None "[]"] assms by (simp add: tree_at_def morris_loop.simps [of _ None])
  with False show ?thesis
    by (auto simp: isValidBST_def increasing_sorted bst_iff_sorted_wrt_less inorder_map)
qed

theorem morris_checks_bst_witness:
  "\<exists>h. isValidBST [\<lparr>tn_val = 5, tn_left = Some 1, tn_right = None\<rparr>, \<lparr>tn_val = 6, tn_left = None, tn_right = None\<rparr>] (Some 0) = Some (h, False)"
  using morris_checks_bst [of "[\<lparr>tn_val = 5, tn_left = Some 1, tn_right = None\<rparr>, \<lparr>tn_val = 6, tn_left = None, tn_right = None\<rparr>]"
    "Some 0" "Node (Node Leaf (1, 6) Leaf) (0, 5) Leaf"]
  by (simp add: tree_at_Node tnode_def)

section \<open>solution 235\<close>

partial_function (option) lca_loop :: "tree_heap \<Rightarrow> tref \<Rightarrow> tref \<Rightarrow> tref \<Rightarrow> tref option" where
  "lca_loop h root p q =
     (if root = None then Some root
      else do {
        n \<leftarrow> tnode h root;
        np \<leftarrow> tnode h p;
        nq \<leftarrow> tnode h q;
        if tn_val n < min (tn_val np) (tn_val nq) then lca_loop h (tn_right n) p q
        else if tn_val n > max (tn_val np) (tn_val nq) then lca_loop h (tn_left n) p q
        else Some root })"

definition lowestCommonAncestor :: "tree_heap \<Rightarrow> tref \<Rightarrow> tref \<Rightarrow> tref \<Rightarrow> tref option" where
  "lowestCommonAncestor h root p q = do {
     np \<leftarrow> tnode h p;
     if tn_left np = q \<or> tn_right np = q then Some p
     else do {
       nq \<leftarrow> tnode h q;
       if tn_left nq = p \<or> tn_right nq = p then Some q else lca_loop h root p q } }"

definition lowest_common :: "nodes_tree \<Rightarrow> nat \<Rightarrow> nat \<Rightarrow> nat \<Rightarrow> bool" where
  \<comment> \<open>the subtree at \<open>a\<close> holds both nodes and neither of its two parts does\<close>
  "lowest_common t p q a \<longleftrightarrow> (\<exists>l x r. Node l x r \<in> subtrees t \<and> fst x = a \<and> {p, q} \<subseteq> tree_addrs (Node l x r) \<and>
     \<not> {p, q} \<subseteq> tree_addrs l \<and> \<not> {p, q} \<subseteq> tree_addrs r)"

lemma tree_at_subtree: "s \<in> subtrees t \<Longrightarrow> tree_at h p t \<Longrightarrow> \<exists>p'. tree_at h p' s"
proof (induction t arbitrary: p)
  case Leaf
  then show ?case by auto
next
  case (Node l x r)
  then show ?case by (auto simp: tree_at_Node)
qed

lemma distinct_tree_vals: "distinct_tree t \<Longrightarrow> (a, v) \<in> set_tree t \<Longrightarrow> (a, w) \<in> set_tree t \<Longrightarrow> v = w"
  by (metis distinct_tree_def eq_key_imp_eq_value set_inorder)

lemma subtree_of_node: "x \<in> set_tree t \<Longrightarrow> \<exists>l r. Node l x r \<in> subtrees t"
  by (induction t) auto

lemma tnode_of_member:
  assumes "tree_at h p t" "(a, v) \<in> set_tree t"
  obtains l r pl pr where "Node l (a, v) r \<in> subtrees t" "tnode h (Some a) = Some \<lparr>tn_val = v, tn_left = pl, tn_right = pr\<rparr>"
    "tree_at h pl l" "tree_at h pr r" "distinct_tree (Node l (a, v) r)"
  using subtree_of_node [OF assms(2)] tree_at_subtree [OF _ assms(1)] that
  by (fastforce simp: tree_at_Node)

lemma lca_loop_spec:
  assumes "tree_at h root t" "bst (map_tree snd t)" "(p, vp) \<in> set_tree t" "(q, vq) \<in> set_tree t"
    "tnode h (Some p) = Some np" "tn_val np = vp" "tnode h (Some q) = Some nq" "tn_val nq = vq"
  shows "\<exists>a. lca_loop h root (Some p) (Some q) = Some (Some a) \<and> lowest_common t p q a"
  using assms(1-4)
proof (induction t arbitrary: root)
  case Leaf
  then show ?case by simp
next
  case (Node l x r)
  then obtain pl pr where x: "root = Some (fst x)" "tnode h root = Some \<lparr>tn_val = snd x, tn_left = pl, tn_right = pr\<rparr>"
    "tree_at h pl l" "tree_at h pr r" by (auto simp: tree_at_Node)
  have d: "distinct_tree (Node l x r)" using Node.prems(1) by (simp add: tree_at_def)
  have b: "bst (map_tree snd l)" "bst (map_tree snd r)" "\<And>y. y \<in> set_tree l \<Longrightarrow> snd y < snd x" "\<And>y. y \<in> set_tree r \<Longrightarrow> snd x < snd y"
    using Node.prems(2) by (auto simp: tree.set_map)
  consider "snd x < min vp vq" | "snd x > max vp vq" | "\<not> snd x < min vp vq" "\<not> snd x > max vp vq" by blast
  then show ?case
  proof cases
    case 1
    then have "(p, vp) \<in> set_tree r" "(q, vq) \<in> set_tree r" using Node.prems(3,4) b(3) by fastforce+
    from Node.IH(2) [OF x(4) b(2) this] obtain a where "lca_loop h pr (Some p) (Some q) = Some (Some a)" "lowest_common r p q a" by blast
    moreover from this(2) have "lowest_common (Node l x r) p q a" unfolding lowest_common_def by auto
    ultimately show ?thesis using x(1,2) assms(5-8) 1 by (subst lca_loop.simps) auto
  next
    case 2
    then have "(p, vp) \<in> set_tree l" "(q, vq) \<in> set_tree l" using Node.prems(3,4) b(4) by fastforce+
    from Node.IH(1) [OF x(3) b(1) this] obtain a where "lca_loop h pl (Some p) (Some q) = Some (Some a)" "lowest_common l p q a" by blast
    moreover from this(2) have "lowest_common (Node l x r) p q a" unfolding lowest_common_def by auto
    ultimately show ?thesis using x(1,2) assms(5-8) 2 by (subst lca_loop.simps) auto
  next
    case 3
    have in_tree: "{p, q} \<subseteq> tree_addrs (Node l x r)" using Node.prems(3,4) by force
    have val: "v = vp" if "(p, v) \<in> set_tree (Node l x r)" for v by (rule distinct_tree_vals [OF d that Node.prems(3)])
    have val': "v = vq" if "(q, v) \<in> set_tree (Node l x r)" for v by (rule distinct_tree_vals [OF d that Node.prems(4)])
    have "\<not> {p, q} \<subseteq> tree_addrs l"
    proof
      assume "{p, q} \<subseteq> tree_addrs l"
      then obtain v w where "(p, v) \<in> set_tree l" "(q, w) \<in> set_tree l" by auto
      with val val' b(3) have "vp < snd x" "vq < snd x" by fastforce+
      with 3(2) show False by simp
    qed
    moreover have "\<not> {p, q} \<subseteq> tree_addrs r"
    proof
      assume "{p, q} \<subseteq> tree_addrs r"
      then obtain v w where "(p, v) \<in> set_tree r" "(q, w) \<in> set_tree r" by auto
      with val val' b(4) have "snd x < vp" "snd x < vq" by fastforce+
      with 3(1) show False by simp
    qed
    ultimately have "lowest_common (Node l x r) p q (fst x)" 
      unfolding lowest_common_def using in_tree by (intro exI [of _ l] exI [of _ x] exI [of _ r] conjI) simp_all
    then show ?thesis using x(1,2) assms(5-8) 3 by (subst lca_loop.simps) auto
  qed
qed

lemma parent_lowest:
  assumes "tree_at h root t" "(p, vp) \<in> set_tree t" "(q, vq) \<in> set_tree t" "tnode h (Some p) = Some np"
    "tn_left np = Some q \<or> tn_right np = Some q"
  shows "lowest_common t p q p"
proof -
  obtain l r pl pr where s: "Node l (p, vp) r \<in> subtrees t" "tnode h (Some p) = Some \<lparr>tn_val = vp, tn_left = pl, tn_right = pr\<rparr>"
    "tree_at h pl l" "tree_at h pr r" "distinct_tree (Node l (p, vp) r)"
    by (rule tnode_of_member [OF assms(1,2)])
  then have "pl = Some q \<or> pr = Some q" using assms(4,5) by auto
  then have "q \<in> tree_addrs l \<or> q \<in> tree_addrs r" using s(3,4) by (cases l; cases r) (auto simp: tree_at_Node)
  then show ?thesis using s(1,5) unfolding lowest_common_def
    by (intro exI [of _ l] exI [of _ "(p, vp)"] exI [of _ r]) auto
qed

text \<open>
  In a binary search tree the lowest common ancestor of two of its nodes is found: its subtree
  holds both, and neither subtree below it does.
\<close>

theorem ancestor_found:
  assumes "tree_at h root t" "bst (map_tree snd t)" "p \<in> tree_addrs t" "q \<in> tree_addrs t"
  shows "\<exists>a. lowestCommonAncestor h root (Some p) (Some q) = Some (Some a) \<and> lowest_common t p q a"
proof -
  obtain vp vq where v: "(p, vp) \<in> set_tree t" "(q, vq) \<in> set_tree t" using assms(3,4) by auto
  obtain np where np: "tnode h (Some p) = Some np" "tn_val np = vp" using tnode_of_member [OF assms(1) v(1)] by (metis tree_node.select_convs(1))
  obtain nq where nq: "tnode h (Some q) = Some nq" "tn_val nq = vq" using tnode_of_member [OF assms(1) v(2)] by (metis tree_node.select_convs(1))
  have swap: "lowest_common t q p q \<Longrightarrow> lowest_common t p q q" by (simp add: lowest_common_def insert_commute)
  show ?thesis
    using parent_lowest [OF assms(1) v np(1)] swap [OF parent_lowest [OF assms(1) v(2,1) nq(1)]]
      lca_loop_spec [OF assms(1,2) v np nq] np(1) nq(1)
    by (auto simp: lowestCommonAncestor_def)
qed

theorem ancestor_found_witness:
  "\<exists>a. lowestCommonAncestor [\<lparr>tn_val = 5, tn_left = None, tn_right = Some 1\<rparr>, \<lparr>tn_val = 6, tn_left = None, tn_right = None\<rparr>] (Some 0) (Some 1) (Some 0)
    = Some (Some a) \<and> lowest_common (Node Leaf (0, 5) (Node Leaf (1, 6) Leaf)) 1 0 a"
  by (rule ancestor_found) (auto simp: tree_at_Node tnode_def)

section \<open>solution 257\<close>

partial_function (option) binaryTreePaths :: "tree_heap \<Rightarrow> tref \<Rightarrow> string list option" where
  "binaryTreePaths h root =
     (if root = None then Some []
      else do {
        n \<leftarrow> tnode h root;
        if tn_left n = None \<and> tn_right n = None then Some [to_string (tn_val n)]
        else do {
          let leading = to_string (tn_val n) @ ''->'';
          ls \<leftarrow> binaryTreePaths h (tn_left n);
          rs \<leftarrow> binaryTreePaths h (tn_right n);
          Some (map ((@) leading) ls @ map ((@) leading) rs) } })"

fun arrow_path :: "int list \<Rightarrow> string" where
  "arrow_path [] = []"
| "arrow_path [v] = to_string v"
| "arrow_path (v # w # vs) = to_string v @ ''->'' @ arrow_path (w # vs)"

lemma root_paths_ne: "vs \<in> set (root_paths t) \<Longrightarrow> vs \<noteq> []"
  by (induction t) (auto split: if_splits)

lemma arrow_path_Cons: "vs \<noteq> [] \<Longrightarrow> arrow_path (v # vs) = to_string v @ ''->'' @ arrow_path vs"
  by (cases vs) auto

lemma binaryTreePaths_spec: "tree_at h p t \<Longrightarrow> binaryTreePaths h p = Some (map (arrow_path \<circ> map snd) (root_paths t))"
proof (induction t arbitrary: p)
  case Leaf
  then show ?case by (simp add: binaryTreePaths.simps)
next
  case (Node l n r)
  then obtain pl pr where n: "p = Some (fst n)" "tnode h p = Some \<lparr>tn_val = snd n, tn_left = pl, tn_right = pr\<rparr>"
    "tree_at h pl l" "tree_at h pr r" by (auto simp: tree_at_Node)
  note null = tree_at_null [OF n(3)] tree_at_null [OF n(4)]
  have step: "map (arrow_path \<circ> map snd \<circ> (#) n) (root_paths u) =
      map ((@) (to_string (snd n) @ ''->'')) (map (arrow_path \<circ> map snd) (root_paths u))" for u
    by (auto simp: arrow_path_Cons dest: root_paths_ne)
  show ?case
    using n(1,2) null Node.IH(1) [OF n(3)] Node.IH(2) [OF n(4)] step [of l] step [of r]
    by (subst binaryTreePaths.simps) (auto simp: Let_def comp_assoc)
qed

section \<open>solution 226\<close>

partial_function (option) invertTree :: "tree_heap \<Rightarrow> tref \<Rightarrow> (tree_heap \<times> tref) option" where
  "invertTree h root =
     (if root = None then Some (h, None)
      else do {
        n \<leftarrow> tnode h root;
        (h1, r) \<leftarrow> invertTree h (tn_right n);
        h2 \<leftarrow> set_left h1 root r;
        n2 \<leftarrow> tnode h2 root;
        (h3, l) \<leftarrow> invertTree h2 (tn_left n2);
        h4 \<leftarrow> set_right h3 root l;
        Some (h4, root) })"

fun right_chain :: "tree_heap \<Rightarrow> tref \<Rightarrow> nat list \<Rightarrow> bool" where
  "right_chain h p [] \<longleftrightarrow> p = None"
| "right_chain h p (a # as) \<longleftrightarrow> p = Some a \<and> (\<exists>n. tnode h p = Some n \<and> right_chain h (tn_right n) as)"

lemma right_chain_cong: "(\<And>a. a \<in> set as \<Longrightarrow> tnode h' (Some a) = tnode h (Some a)) \<Longrightarrow> right_chain h' p as = right_chain h p as"
  by (induction as arbitrary: p) auto

text \<open>After an inversion every node of the chain has its right neighbour on both sides.\<close>

definition doubled :: "tree_heap \<Rightarrow> nat list \<Rightarrow> bool" where
  "doubled h as \<longleftrightarrow> (\<forall>a \<in> set as. \<exists>n. tnode h (Some a) = Some n \<and> tn_left n = tn_right n)"

lemma same_left: "\<exists>l. n = n\<lparr>tn_left := l\<rparr>"
  by (cases n) auto

lemma invertTree_chain:
  assumes "right_chain h p as" "distinct as"
  shows "\<exists>h'. invertTree h p = Some (h', p) \<and> right_chain h' p as \<and> doubled h' as \<and>
    (\<forall>a. a \<notin> set as \<longrightarrow> tnode h' (Some a) = tnode h (Some a)) \<and>
    (\<forall>a n. tnode h (Some a) = Some n \<longrightarrow> (\<exists>l. tnode h' (Some a) = Some (n\<lparr>tn_left := l\<rparr>)))"
  using assms
proof (induction as arbitrary: h p)
  case Nil
  then show ?case by (subst invertTree.simps) (auto simp: doubled_def intro: same_left)
next
  case (Cons a as)
  obtain n where n: "p = Some a" "tnode h (Some a) = Some n" "right_chain h (tn_right n) as" using Cons.prems(1) by auto
  obtain h1 where h1: "invertTree h (tn_right n) = Some (h1, tn_right n)" "right_chain h1 (tn_right n) as" "doubled h1 as"
    "\<And>b. b \<notin> set as \<Longrightarrow> tnode h1 (Some b) = tnode h (Some b)"
    "\<And>b m. tnode h (Some b) = Some m \<Longrightarrow> \<exists>l. tnode h1 (Some b) = Some (m\<lparr>tn_left := l\<rparr>)"
    using Cons.IH [OF n(3)] Cons.prems(2) by auto
  have c1: "tnode h1 (Some a) = Some n" using h1(4) [of a] Cons.prems(2) n(2) by simp
  let ?h2 = "h1[a := n\<lparr>tn_left := tn_right n\<rparr>]"
  have c2: "tnode ?h2 (Some b) = (if b = a then Some (n\<lparr>tn_left := tn_right n\<rparr>) else tnode h1 (Some b))" for b
    using tnode_length [OF c1] by (auto simp: tnode_update)
  have "right_chain ?h2 (tn_right n) as"
    by (rule iffD2 [OF right_chain_cong [of as ?h2 h1]]) (use h1(2) c2 Cons.prems(2) in auto)
  then obtain h3 where h3: "invertTree ?h2 (tn_right n) = Some (h3, tn_right n)" "right_chain h3 (tn_right n) as" "doubled h3 as"
    "\<And>b. b \<notin> set as \<Longrightarrow> tnode h3 (Some b) = tnode ?h2 (Some b)"
    "\<And>b m. tnode ?h2 (Some b) = Some m \<Longrightarrow> \<exists>l. tnode h3 (Some b) = Some (m\<lparr>tn_left := l\<rparr>)"
    using Cons.IH [of ?h2 "tn_right n"] Cons.prems(2) by auto
  have c3: "tnode h3 (Some a) = Some (n\<lparr>tn_left := tn_right n\<rparr>)" using h3(4) [of a] Cons.prems(2) c2 by simp
  have "h3[a := n\<lparr>tn_left := tn_right n, tn_right := tn_right n\<rparr>] = h3"
    using tnode_length [OF c3] by (simp add: list_update_same_conv)
  then have "invertTree h p = Some (h3, p)"
    using n(1,2) h1(1) c1 c2 [of a] h3(1) c3 by (subst invertTree.simps) (simp add: set_left_def set_right_def)
  moreover have "right_chain h3 p (a # as)" using n(1) c3 h3(2) by simp
  moreover have "doubled h3 (a # as)" using h3(3) c3 by (auto simp: doubled_def)
  moreover have "tnode h3 (Some b) = tnode h (Some b)" if "b \<notin> set (a # as)" for b
    using that h3(4) [of b] h1(4) [of b] c2 [of b] by simp
  moreover have "\<exists>l. tnode h3 (Some b) = Some (m\<lparr>tn_left := l\<rparr>)" if m: "tnode h (Some b) = Some m" for b m
  proof (cases "b = a")
    case True
    with m n(2) c3 show ?thesis by auto
  next
    case False
    obtain l where "tnode h1 (Some b) = Some (m\<lparr>tn_left := l\<rparr>)" using h1(5) [OF m] by blast
    then have "tnode ?h2 (Some b) = Some (m\<lparr>tn_left := l\<rparr>)" using c2 [of b] False by simp
    from h3(5) [OF this] show ?thesis by auto
  qed
  ultimately show ?case by blast
qed

lemma tree_right_chain:
  "tree_at h p t \<Longrightarrow> \<exists>as. right_chain h p as \<and> distinct as \<and> set as \<subseteq> tree_addrs t"
proof (induction t arbitrary: p)
  case Leaf
  then show ?case by (intro exI [of _ "[]"]) simp
next
  case (Node l x r)
  then obtain pl pr where x: "p = Some (fst x)" "tnode h p = Some \<lparr>tn_val = snd x, tn_left = pl, tn_right = pr\<rparr>" "tree_at h pr r"
    "fst x \<notin> tree_addrs r" by (auto simp: tree_at_Node)
  from Node.IH(2) [OF x(3)] obtain as where "right_chain h pr as" "distinct as" "set as \<subseteq> tree_addrs r" by blast
  with x show ?case by (intro exI [of _ "fst x # as"]) auto
qed

text \<open>
  \<^verbatim>\<open>invertTree\<close> overwrites the left pointer before it has used it: it returns the root, but with
  the right subtree on both sides. The left subtree is lost.
\<close>

theorem invert_loses_left:
  assumes "tree_at h p (Node l x r)"
  shows "\<exists>h' n n'. invertTree h p = Some (h', p) \<and> tnode h p = Some n \<and> tnode h' p = Some n' \<and>
    tn_right n' = tn_right n \<and> tn_left n' = tn_right n"
proof -
  obtain as where "right_chain h p as" "distinct as" using tree_right_chain [OF assms] by blast
  then obtain h' where h': "invertTree h p = Some (h', p)" "right_chain h' p as" "doubled h' as"
    "\<And>a n. tnode h (Some a) = Some n \<Longrightarrow> \<exists>l. tnode h' (Some a) = Some (n\<lparr>tn_left := l\<rparr>)"
    using invertTree_chain by blast
  obtain n where n: "p = Some (fst x)" "tnode h p = Some n" using assms by (auto simp: tree_at_Node)
  then obtain lp where "tnode h' p = Some (n\<lparr>tn_left := lp\<rparr>)" using h'(4) by blast
  moreover from this have "lp = tn_right n" using h'(2,3) n(1) by (cases as) (auto simp: doubled_def)
  ultimately show ?thesis using h'(1) n(2) by force
qed

theorem invert_loses_left_witness:
  "\<exists>h' n n'. invertTree [\<lparr>tn_val = 5, tn_left = Some 1, tn_right = None\<rparr>, \<lparr>tn_val = 6, tn_left = None, tn_right = None\<rparr>] (Some 0) = Some (h', Some 0) \<and>
     tnode [\<lparr>tn_val = 5, tn_left = Some 1, tn_right = None\<rparr>, \<lparr>tn_val = 6, tn_left = None, tn_right = None\<rparr>] (Some 0) = Some n \<and>
     tnode h' (Some 0) = Some n' \<and> tn_right n' = tn_right n \<and> tn_left n' = tn_right n"
  by (rule invert_loses_left [of _ _ "Node Leaf (1, 6) Leaf" "(0, 5)" Leaf]) (simp add: tree_at_Node tnode_def)

end
