(* ===== verification/LcNumbers.thy ===== *)
theory LcNumbers
  imports Prelude
begin

text \<open>
  Arithmetic of \<^verbatim>\<open>hobbies/leetcode/algorithms\<close>: reversing the digits of an \<^verbatim>\<open>int\<close>
  (\<^verbatim>\<open>solution_7\<close>), decimal palindromes (\<^verbatim>\<open>solution_9\<close>), division by shifting and subtracting
  (\<^verbatim>\<open>solution_29\<close>), square roots by Newton's iteration (\<^verbatim>\<open>solution_69\<close>), the zeroes a
  factorial ends with (\<^verbatim>\<open>solution_172\<close>) and ugly numbers (\<^verbatim>\<open>solution_263\<close>). \<open>None\<close> is signed
  overflow, division by zero or a loop that does not end.
\<close>

section \<open>Decimal digits\<close>

fun digits10 :: "nat \<Rightarrow> nat list" where
  \<comment> \<open>the decimal digits, the last one first\<close>
  "digits10 n = (if n = 0 then [] else n mod 10 # digits10 (n div 10))"

declare digits10.simps [simp del]

definition horner10 :: "nat \<Rightarrow> nat list \<Rightarrow> nat" where
  \<comment> \<open>the number whose digits are those of \<open>y\<close> followed by \<open>ds\<close>\<close>
  "horner10 y ds = foldl (\<lambda>y d. y * 10 + d) y ds"

lemma digits10_0 [simp]: "digits10 0 = []"
  by (simp add: digits10.simps)

lemma digits10_pos: "n > 0 \<Longrightarrow> digits10 n = n mod 10 # digits10 (n div 10)"
  by (simp add: digits10.simps [of n])

lemma digits10_Cons: "d < 10 \<Longrightarrow> y * 10 + d > 0 \<Longrightarrow> digits10 (y * 10 + d) = d # digits10 y"
  by (subst digits10_pos) simp_all

lemma horner10_Nil [simp]: "horner10 y [] = y"
  by (simp add: horner10_def)

lemma horner10_Cons [simp]: "horner10 y (d # ds) = horner10 (y * 10 + d) ds"
  by (simp add: horner10_def)

lemma horner10_ge: "y \<le> horner10 y ds"
proof (induction ds arbitrary: y)
  case (Cons d ds)
  have "y \<le> y * 10 + d" by simp
  also have "\<dots> \<le> horner10 (y * 10 + d) ds" by (rule Cons.IH)
  finally show ?case by simp
qed simp

section \<open>solution 7\<close>

function reverse_int_loop :: "int \<Rightarrow> int \<Rightarrow> int" where
  "reverse_int_loop x y =
     (if x \<noteq> 0 then
        let y' = y * 10 + cmod x 10 in
        if y' > INT_MAX \<or> y' < INT_MIN then 0 else reverse_int_loop (cdiv x 10) y'
      else y)"
  by pat_completeness auto
termination
  by (relation "measure (\<lambda>(x, y). nat \<bar>x\<bar>)") (auto simp: cdiv_def abs_mult)

definition reverse_int :: "int \<Rightarrow> int" where
  "reverse_int x = reverse_int_loop x 0"

declare reverse_int_loop.simps [simp del]

lemma reverse_int_loop_nonneg:
  "reverse_int_loop (int n) (int y) =
     (let r = int (horner10 y (digits10 n)) in if n = 0 \<or> r \<le> INT_MAX then r else 0)"
proof (induction n arbitrary: y rule: digits10.induct)
  case (1 n)
  show ?case
  proof (cases "n = 0")
    case True
    then show ?thesis by (simp add: reverse_int_loop.simps)
  next
    case False
    let ?y = "y * 10 + n mod 10"
    have y: "int y * 10 + cmod (int n) 10 = int ?y" by (simp add: zmod_int)
    have d: "cdiv (int n) 10 = int (n div 10)" by (simp add: zdiv_int)
    show ?thesis
    proof (cases "int ?y \<le> INT_MAX")
      case True
      then have run: "reverse_int_loop (int n) (int y) = reverse_int_loop (int (n div 10)) (int ?y)"
        using False y d by (subst reverse_int_loop.simps) (simp add: Let_def)
      show ?thesis
        unfolding run "1.IH" [OF False]
        using False True by (cases "n div 10 = 0") (simp_all add: digits10_pos Let_def)
    next
      case over: False
      then have "reverse_int_loop (int n) (int y) = 0"
        using False y d by (subst reverse_int_loop.simps) (simp add: Let_def)
      moreover have "int ?y \<le> int (horner10 y (digits10 n))"
        using False horner10_ge [of ?y "digits10 (n div 10)"] unfolding of_nat_le_iff by (simp add: digits10_pos)
      ultimately show ?thesis using over False by (simp add: Let_def)
    qed
  qed
qed

lemma reverse_int_loop_nonpos:
  "reverse_int_loop (- int n) (- int y) =
     (let r = - int (horner10 y (digits10 n)) in if n = 0 \<or> INT_MIN \<le> r then r else 0)"
proof (induction n arbitrary: y rule: digits10.induct)
  case (1 n)
  show ?case
  proof (cases "n = 0")
    case True
    then show ?thesis by (simp add: reverse_int_loop.simps)
  next
    case False
    let ?y = "y * 10 + n mod 10"
    have y: "- int y * 10 + cmod (- int n) 10 = - int ?y" using False by (simp add: zmod_int cmod_neg)
    have d: "cdiv (- int n) 10 = - int (n div 10)" using False by (simp add: zdiv_int cdiv_neg)
    show ?thesis
    proof (cases "INT_MIN \<le> - int ?y")
      case True
      then have run: "reverse_int_loop (- int n) (- int y) = reverse_int_loop (- int (n div 10)) (- int ?y)"
        using False y d by (subst reverse_int_loop.simps) (simp add: Let_def)
      show ?thesis
        unfolding run "1.IH" [OF False]
        using False True by (cases "n div 10 = 0") (simp_all add: digits10_pos Let_def)
    next
      case over: False
      then have "reverse_int_loop (- int n) (- int y) = 0"
        using False y d by (subst reverse_int_loop.simps) (simp add: Let_def)
      moreover have "int ?y \<le> int (horner10 y (digits10 n))"
        using False horner10_ge [of ?y "digits10 (n div 10)"] unfolding of_nat_le_iff by (simp add: digits10_pos)
      ultimately show ?thesis using over False by (simp add: Let_def)
    qed
  qed
qed

lemma reverse_int_value:
  "reverse_int x = (let r = sgn x * int (horner10 0 (digits10 (nat \<bar>x\<bar>))) in if fits_int r then r else 0)"
proof (cases "x \<ge> 0")
  case True
  then obtain n where x: "x = int n" by (metis nonneg_int_cases)
  show ?thesis
    using reverse_int_loop_nonneg [of n 0]
    by (cases "n = 0") (simp_all add: reverse_int_def x Let_def fits_int_def)
next
  case False
  then obtain n where x: "x = - int n" and "n > 0" by (metis neg_int_cases not_le)
  then show ?thesis
    using reverse_int_loop_nonpos [of n 0]
    by (simp add: reverse_int_def Let_def fits_int_def)
qed

section \<open>solution 9\<close>

partial_function (option) mirror_loop :: "int \<Rightarrow> int \<Rightarrow> (int \<times> int) option" where
  "mirror_loop x half =
     (if x > half then
        let half' = half * 10 + cmod x 10 in
        if fits_int half' then mirror_loop (cdiv x 10) half' else None
      else Some (x, half))"

definition isPalindrome_int :: "int \<Rightarrow> bool option" where
  "isPalindrome_int x =
     (if x < 0 \<or> (x \<noteq> 0 \<and> cmod x 10 = 0) then Some False
      else case mirror_loop x 0 of None \<Rightarrow> None
        | Some (x', half) \<Rightarrow> Some (x' = half \<or> x' = cdiv half 10))"

lemma length_digits10_mono: "m \<le> n \<Longrightarrow> length (digits10 m) \<le> length (digits10 n)"
proof (induction n arbitrary: m rule: digits10.induct)
  case (1 n)
  show ?case
  proof (cases "m = 0")
    case False
    then have "n \<noteq> 0" using "1.prems" by simp
    then show ?thesis using "1.IH" [of "m div 10"] "1.prems" False by (simp add: digits10_pos div_le_mono)
  qed simp
qed

lemma digits10_inj: "digits10 m = digits10 n \<longleftrightarrow> m = n"
proof (induction n arbitrary: m rule: digits10.induct)
  case (1 n)
  show ?case
  proof (cases "m = 0 \<or> n = 0")
    case True
    then show ?thesis by (auto simp: digits10_pos intro: ccontr)
  next
    case False
    then have "digits10 m = digits10 n \<longleftrightarrow> m mod 10 = n mod 10 \<and> m div 10 = n div 10"
      using "1.IH" by (simp add: digits10_pos)
    also have "\<dots> \<longleftrightarrow> m = n" by (metis div_mult_mod_eq)
    finally show ?thesis .
  qed
qed

lemma digits10_last: "n > 0 \<Longrightarrow> last (digits10 n) \<noteq> 0"
proof (induction n rule: digits10.induct)
  case (1 n)
  then show ?case by (cases "n div 10 = 0") (auto simp: digits10_pos)
qed

lemma digits10_div: "digits10 (n div 10) = tl (digits10 n)"
  by (cases "n = 0") (simp_all add: digits10_pos)

text \<open>
  The loop has split the digits \<open>ds @ es\<close> of the number: \<open>es\<close> are those of \<open>x\<close>, and \<open>ds\<close>,
  in the other order, those of \<open>half\<close>.
\<close>

lemma mirror_loop_spec:
  assumes "digits10 half = rev ds" "length ds \<le> Suc (length (digits10 x))"
    "half = 0 \<or> int x \<le> 214748364" "int x \<le> INT_MAX" "ds = [] \<Longrightarrow> x mod 10 \<noteq> 0 \<or> x = 0"
  shows "\<exists>x' half'. mirror_loop (int x) (int half) = Some (int x', int half') \<and>
    ((x' = half' \<or> x' = half' div 10) \<longleftrightarrow> rev (ds @ digits10 x) = ds @ digits10 x)"
  using assms
proof (induction x arbitrary: half ds rule: digits10.induct)
  case (1 x)
  let ?es = "digits10 x"
  show ?case
  proof (cases "x > half")
    case False
    then have run: "mirror_loop (int x) (int half) = Some (int x, int half)"
      by (subst mirror_loop.simps) simp
    have ln: "length ?es \<le> length ds"
      using length_digits10_mono [of x half] False "1.prems"(1) by simp
    have eq: "x = half \<longleftrightarrow> ?es = rev ds" "x = half div 10 \<longleftrightarrow> ?es = tl (rev ds)"
      using digits10_inj [of x] "1.prems"(1) by (auto simp: digits10_div simp flip: digits10_inj)
    show ?thesis
    proof (cases "length ds = length ?es")
      case True
      then have "tl (rev ds) \<noteq> ?es \<or> ?es = []" by (cases ?es) (auto dest: arg_cong [of _ _ length])
      then show ?thesis using run eq True by (auto dest: arg_cong [of _ _ rev])
    next
      case False
      then have len: "length ds = Suc (length ?es)" using ln "1.prems"(2) by simp
      then obtain d ds' where ds: "ds = ds' @ [d]" and l': "length ds' = length ?es"
        by (cases ds rule: rev_cases) auto
      have "?es \<noteq> rev ds" using len by (auto dest: arg_cong [of _ _ length])
      moreover have "rev (ds @ ?es) = ds @ ?es \<longleftrightarrow> ?es = rev ds'" using l' by (auto simp: ds)
      ultimately show ?thesis using run eq by (auto simp: ds)
    qed
  next
    case True
    let ?h = "half * 10 + x mod 10"
    have x0: "x \<noteq> 0" using True by simp
    have es: "?es = x mod 10 # digits10 (x div 10)" using x0 by (simp add: digits10_pos)
    have h: "int half * 10 + cmod (int x) 10 = int ?h" by (simp add: zmod_int)
    have h0: "?h > 0" using "1.prems"(1,5) x0 by (cases "ds = []"; cases "half = 0") auto
    have dh: "digits10 ?h = rev (ds @ [x mod 10])" using h0 "1.prems"(1) by (simp add: digits10_Cons)
    have "fits_int (int ?h)" using "1.prems"(3) True by (auto simp: fits_int_def)
    then have run: "mirror_loop (int x) (int half) = mirror_loop (int (x div 10)) (int ?h)"
      using True h by (subst mirror_loop.simps) (simp add: Let_def zdiv_int)
    have lds: "length ds \<le> length ?es"
      using length_digits10_mono [of half x] True "1.prems"(1) by simp
    show ?thesis
    proof (cases "length ds = length ?es")
      case eql: True
      have "?es \<noteq> rev ds" using digits10_inj [of x half] "1.prems"(1) True by simp
      then have "\<not> rev (ds @ ?es) = ds @ ?es" using eql by (auto dest: arg_cong [of _ _ rev])
      moreover have lh: "length (digits10 ?h) = Suc (Suc (length (digits10 (x div 10))))"
        using dh eql es by simp
      moreover have "\<not> x div 10 > ?h"
        using lh length_digits10_mono [of ?h "x div 10"] by auto
      then have "mirror_loop (int (x div 10)) (int ?h) = Some (int (x div 10), int ?h)"
        by (subst mirror_loop.simps) simp
      moreover have "x div 10 \<noteq> ?h" using lh by (metis n_not_Suc_n Suc_n_not_le_n le_SucI order_refl)
      moreover have "x div 10 \<noteq> ?h div 10" using lh digits10_div [of ?h] by (metis length_tl diff_Suc_1 n_not_Suc_n)
      ultimately show ?thesis using run by metis
    next
      case False
      have "int (x div 10) \<le> 214748364" using "1.prems"(4) by linarith
      then have "\<exists>x' half'. mirror_loop (int (x div 10)) (int ?h) = Some (int x', int half') \<and>
          ((x' = half' \<or> x' = half' div 10) \<longleftrightarrow>
            rev ((ds @ [x mod 10]) @ digits10 (x div 10)) = (ds @ [x mod 10]) @ digits10 (x div 10))"
        using dh lds False es by (intro "1.IH") (auto simp: x0)
      then show ?thesis using run es by simp
    qed
  qed
qed

lemma isPalindrome_int_nat:
  assumes "int n \<le> INT_MAX"
  shows "isPalindrome_int (int n) = Some (rev (digits10 n) = digits10 n)"
proof (cases "n \<noteq> 0 \<and> n mod 10 = 0")
  case True
  have "last (digits10 n) \<noteq> 0" using digits10_last True by simp
  moreover have "hd (digits10 n) = 0" using True by (simp add: digits10_pos)
  ultimately have "rev (digits10 n) \<noteq> digits10 n" by (metis hd_rev)
  moreover have "cmod (int n) 10 = int (n mod 10)" by (simp add: zmod_int)
  ultimately show ?thesis using True by (simp add: isPalindrome_int_def)
next
  case False
  then obtain x' half' where "mirror_loop (int n) 0 = Some (int x', int half')"
    "(x' = half' \<or> x' = half' div 10) \<longleftrightarrow> rev (digits10 n) = digits10 n"
    using mirror_loop_spec [of 0 "[]" n] assms by auto
  moreover have "int x' = cdiv (int half') 10 \<longleftrightarrow> x' = half' div 10"
    using of_nat_eq_iff [of x' "half' div 10", where 'a = int] by (simp add: zdiv_int)
  moreover have "\<not> (int n < 0 \<or> int n \<noteq> 0 \<and> cmod (int n) 10 = 0)"
    using False by simp presburger
  ultimately show ?thesis by (auto simp: isPalindrome_int_def)
qed

section \<open>solution 29\<close>

partial_function (option) double_loop :: "int \<Rightarrow> int \<Rightarrow> int \<Rightarrow> (int \<times> int) option" where
  "double_loop x z k = (if x \<ge> 2 * z then double_loop x (2 * z) (2 * k) else Some (z, k))"

partial_function (option) divide_loop :: "int \<Rightarrow> int \<Rightarrow> int \<Rightarrow> int option" where
  "divide_loop x y result =
     (if x \<ge> y then case double_loop x y 1 of None \<Rightarrow> None | Some (z, k) \<Rightarrow> divide_loop (x - z) y (result + k)
      else Some result)"

definition divide_int :: "int \<Rightarrow> int \<Rightarrow> int option" where
  "divide_int dividend divisor =
     (if divisor = 0 \<or> (dividend = INT_MIN \<and> divisor = -1) then Some INT_MAX
      else let same_sign = (dividend > 0 \<and> divisor > 0) \<or> (dividend < 0 \<and> divisor < 0) in
        map_option (\<lambda>result. if same_sign then result else - result) (divide_loop \<bar>dividend\<bar> \<bar>divisor\<bar> 0))"

lemma double_loop_spec:
  assumes "0 < z" "0 < k" "z \<le> x"
  shows "\<exists>j. double_loop x z k = Some (z * j, k * j) \<and> 0 < j \<and> z * j \<le> x"
  using assms
proof (induction "nat (x - z)" arbitrary: z k rule: less_induct)
  case less
  show ?case
  proof (cases "x \<ge> 2 * z")
    case True
    then obtain j where "double_loop x (2 * z) (2 * k) = Some (2 * z * j, 2 * k * j)" "0 < j" "2 * z * j \<le> x"
      using less.hyps [of "2 * z" "2 * k"] less.prems by auto
    then show ?thesis using True
      by (subst double_loop.simps) (auto simp: algebra_simps intro!: exI [of _ "2 * j"])
  next
    case False
    then show ?thesis using less.prems by (subst double_loop.simps) (auto intro!: exI [of _ 1])
  qed
qed

lemma divide_loop_spec:
  assumes "0 < y" "0 \<le> x"
  shows "divide_loop x y result = Some (result + x div y)"
  using assms(2)
proof (induction "nat x" arbitrary: x result rule: less_induct)
  case less
  show ?case
  proof (cases "x \<ge> y")
    case True
    then obtain j where j: "double_loop x y 1 = Some (y * j, j)" "0 < j" "y * j \<le> x"
      using double_loop_spec [of y 1 x] assms(1) by auto
    have "divide_loop x y result = divide_loop (x - y * j) y (result + j)"
      using True j(1) by (subst divide_loop.simps) simp
    also have "\<dots> = Some (result + j + (x - y * j) div y)"
      using less.hyps [of "x - y * j" "result + j"] j assms(1) less.prems mult_pos_pos [OF assms(1) j(2)] by simp
    also have "(x - y * j) div y = x div y - j" using assms(1) div_mult_self2 [of y x "- j"] by simp
    finally show ?thesis by simp
  next
    case False
    then show ?thesis using less.prems by (subst divide_loop.simps) simp
  qed
qed

lemma divide_value:
  assumes "b \<noteq> 0" "\<not> (a = INT_MIN \<and> b = -1)"
  shows "divide_int a b = Some (cdiv a b)"
proof -
  have "divide_loop \<bar>a\<bar> \<bar>b\<bar> 0 = Some (\<bar>a\<bar> div \<bar>b\<bar>)" using divide_loop_spec [of "\<bar>b\<bar>" "\<bar>a\<bar>" 0] assms(1) by simp
  then show ?thesis using assms
    by (cases "a = 0") (auto simp: divide_int_def Let_def cdiv_def sgn_if)
qed

lemma divide_fits:
  assumes "fits_int a" "fits_int b"
  shows "\<exists>q. divide_int a b = Some q \<and> fits_int q"
proof (cases "b = 0 \<or> (a = INT_MIN \<and> b = -1)")
  case True
  then show ?thesis by (auto simp: divide_int_def fits_int_def)
next
  case False
  have "fits_int (cdiv a b)"
  proof (cases "\<bar>b\<bar> = 1")
    case True
    then have "b = 1 \<or> b = -1" by linarith
    then show ?thesis
    proof
      assume "b = 1"
      then show ?thesis using assms(1) by (simp add: cdiv_def sgn_mult_abs)
    next
      assume b: "b = -1"
      then have "cdiv a b = - a" by (simp add: cdiv_def sgn_mult_abs)
      then show ?thesis using assms(1) False b by (simp add: fits_int_def)
    qed
  next
    case two: False
    have "\<bar>a\<bar> div \<bar>b\<bar> \<le> \<bar>a\<bar> div 2" using two False by (intro zdiv_mono2) auto
    moreover have "\<bar>a\<bar> \<le> 2147483648" using assms(1) unfolding fits_int_def by linarith
    ultimately have le: "\<bar>a\<bar> div \<bar>b\<bar> \<le> 1073741824" by linarith
    have "\<bar>cdiv a b\<bar> \<le> \<bar>a\<bar> div \<bar>b\<bar>" by (auto simp: cdiv_def abs_mult sgn_if pos_imp_zdiv_nonneg_iff)
    then show ?thesis using le by (auto simp: fits_int_def)
  qed
  then show ?thesis using divide_value [of b a] False by auto
qed

section \<open>solution 69\<close>

partial_function (option) sqrt_loop :: "int \<Rightarrow> int \<Rightarrow> int option" where
  "sqrt_loop x root =
     (if root * root > x then if root = 0 then None else sqrt_loop x (cdiv (root + cdiv x root) 2)
      else Some root)"

definition mySqrt :: "int \<Rightarrow> int option" where
  "mySqrt x = (if x < 0 then Some INT_MIN else sqrt_loop x x)"

lemma newton_above:
  assumes "(0::int) < r" "0 \<le> x"
  shows "x < ((r + x div r) div 2 + 1) * ((r + x div r) div 2 + 1)"
proof -
  define q where "q = x div r"
  define m where "m = (r + q) div 2 + 1"
  have "x < r * (q + 1)" using assms by (simp add: q_def) (metis add.commute mult.commute mult_div_mod_eq add_strict_left_mono pos_mod_bound distrib_left mult.right_neutral)
  moreover have "4 * (r * (q + 1)) \<le> (r + q + 1) * (r + q + 1)"
    using zero_le_square [of "r - (q + 1)"] by (simp add: algebra_simps)
  moreover have "r + q + 1 \<le> 2 * m" by (simp add: m_def)
  moreover have "0 \<le> q" using assms by (simp add: q_def pos_imp_zdiv_nonneg_iff)
  ultimately have "4 * x < (2 * m) * (2 * m)"
    using assms mult_mono [of "r + q + 1" "2 * m" "r + q + 1" "2 * m"] by linarith
  then have "x < m * m" by simp
  then show ?thesis by (simp only: m_def q_def)
qed

lemma sqrt_loop_spec:
  assumes "0 \<le> x" "0 \<le> root" "x < (root + 1) * (root + 1)"
  shows "\<exists>r. sqrt_loop x root = Some r \<and> 0 \<le> r \<and> r \<le> root \<and> r * r \<le> x \<and> x < (r + 1) * (r + 1)"
  using assms(2,3)
proof (induction "nat root" arbitrary: root rule: less_induct)
  case less
  show ?case
  proof (cases "root * root > x")
    case True
    then have pos: "root > 0" using less.prems assms(1) by (cases "root = 0") auto
    let ?r = "(root + x div root) div 2"
    have "root * (x div root) \<le> x" using pos mult_div_mod_eq [of root x] pos_mod_sign [of root x] by linarith
    then have "root * (x div root) < root * root" using True by linarith
    then have q: "0 \<le> x div root" "x div root < root"
      using pos assms(1) by (simp_all add: pos_imp_zdiv_nonneg_iff)
    have run: "sqrt_loop x root = sqrt_loop x ?r"
      using True pos q assms(1) by (subst sqrt_loop.simps) simp
    have "\<exists>r. sqrt_loop x ?r = Some r \<and> 0 \<le> r \<and> r \<le> ?r \<and> r * r \<le> x \<and> x < (r + 1) * (r + 1)"
      using q pos assms(1) newton_above [OF pos assms(1)] by (intro less.hyps) auto
    then show ?thesis using run q by fastforce
  next
    case False
    then show ?thesis using less.prems by (subst sqrt_loop.simps) auto
  qed
qed

lemma mySqrt_floor:
  assumes "0 \<le> x"
  shows "\<exists>r. mySqrt x = Some r \<and> 0 \<le> r \<and> r \<le> x \<and> r * r \<le> x \<and> x < (r + 1) * (r + 1)"
proof -
  have "x < (x + 1) * (x + 1)" using assms by (simp add: algebra_simps add_pos_nonneg)
  then show ?thesis using sqrt_loop_spec [of x x] assms by (simp add: mySqrt_def)
qed

section \<open>solution 172\<close>

function zeroes_loop :: "int \<Rightarrow> int \<Rightarrow> int" where
  "zeroes_loop n total_count = (if n \<ge> 5 then zeroes_loop (cdiv n 5) (total_count + cdiv n 5) else total_count)"
  by pat_completeness auto
termination by (relation "measure (\<lambda>(n, c). nat n)") auto

definition trailingZeroes :: "int \<Rightarrow> int" where
  "trailingZeroes n = zeroes_loop n 0"

declare zeroes_loop.simps [simp del]

text \<open>Euclid's lemma for the small primes these programs work with.\<close>

definition splits_products :: "nat \<Rightarrow> bool" where
  "splits_products p \<longleftrightarrow> 1 < p \<and> (\<forall>a b. p dvd a * b \<longrightarrow> p dvd a \<or> p dvd b)"

lemma splits_productsI:
  assumes "1 < p" "\<And>d. d dvd p \<Longrightarrow> d = 1 \<or> d = p"
  shows "splits_products p"
  unfolding splits_products_def
proof (intro conjI allI impI assms(1))
  fix a b
  assume ab: "p dvd a * b"
  have "gcd p a = 1 \<or> gcd p a = p" by (rule assms(2)) simp
  then show "p dvd a \<or> p dvd b"
  proof
    assume "gcd p a = 1"
    then have "coprime p a" by (simp add: coprime_iff_gcd_eq_1)
    then show ?thesis using ab by (simp add: coprime_dvd_mult_right_iff)
  next
    assume "gcd p a = p"
    then show ?thesis by (metis gcd_dvd2)
  qed
qed

lemma splits_2: "splits_products 2"
proof (rule splits_productsI)
  fix d :: nat
  assume d: "d dvd 2"
  then have "d \<le> 2" by (rule dvd_imp_le) simp
  then consider "d = 0" | "d = 1" | "d = 2" by linarith
  then show "d = 1 \<or> d = 2" by cases (use d in simp_all)
qed simp

lemma splits_3: "splits_products 3"
proof (rule splits_productsI)
  fix d :: nat
  assume d: "d dvd 3"
  then have "d \<le> 3" by (rule dvd_imp_le) simp
  then consider "d = 0" | "d = 1" | "d = 2" | "d = 3" by linarith
  then show "d = 1 \<or> d = 3" by cases (use d in simp_all)
qed simp

lemma splits_5: "splits_products 5"
proof (rule splits_productsI)
  fix d :: nat
  assume d: "d dvd 5"
  then have "d \<le> 5" by (rule dvd_imp_le) simp
  then consider "d = 0" | "d = 1" | "d = 2" | "d = 3" | "d = 4" | "d = 5" by linarith
  then show "d = 1 \<or> d = 5" by cases (use d in simp_all)
qed simp

lemmas splits_2_3_5 = splits_2 splits_3 splits_5

lemma splits_power: "splits_products p \<Longrightarrow> p dvd x ^ k \<Longrightarrow> p dvd x"
  by (induction k) (auto simp: splits_products_def)

text \<open>Legendre's formula: the multiples of \<open>p\<close> in \<open>n!\<close> are \<open>p\<close> times the factors of \<open>(n div p)!\<close>.\<close>

lemma fact_split:
  assumes "splits_products p"
  shows "\<exists>r. (fact n :: nat) = p ^ (n div p) * fact (n div p) * r \<and> \<not> p dvd r"
proof (induction n)
  case 0
  then show ?case using assms by (auto simp: splits_products_def intro!: exI [of _ 1])
next
  case (Suc n)
  then obtain r where r: "(fact n :: nat) = p ^ (n div p) * fact (n div p) * r" "\<not> p dvd r" by blast
  show ?case
  proof (cases "p dvd Suc n")
    case True
    then have d: "Suc n div p = Suc (n div p)" by (simp add: div_Suc dvd_eq_mod_eq_0)
    have "Suc n = p * Suc (n div p)" using True d by (metis dvd_mult_div_cancel)
    then have "fact (Suc n) = p * Suc (n div p) * fact n" by (metis fact_Suc of_nat_id)
    also have "\<dots> = p ^ Suc (n div p) * fact (Suc (n div p)) * r"
      unfolding r(1) by (simp only: power_Suc fact_Suc of_nat_id ac_simps)
    finally show ?thesis using r(2) unfolding d by blast
  next
    case False
    then have "Suc n div p = n div p" by (simp add: div_Suc dvd_eq_mod_eq_0)
    moreover have "\<not> p dvd Suc n * r" using r(2) False assms unfolding splits_products_def by blast
    moreover have "fact (Suc n) = p ^ (n div p) * fact (n div p) * (Suc n * r)"
      unfolding fact_Suc of_nat_id r(1) by (simp only: ac_simps)
    ultimately show ?thesis by metis
  qed
qed

lemma zeroes_loop_add: "zeroes_loop n (a + b) = a + zeroes_loop n b"
proof (induction n b rule: zeroes_loop.induct)
  case (1 n b)
  show ?case
  proof (cases "n \<ge> 5")
    case True
    then show ?thesis using 1 by (subst (1 2) zeroes_loop.simps) (simp add: add.assoc)
  next
    case False
    then show ?thesis by (simp add: zeroes_loop.simps)
  qed
qed

lemma trailingZeroes_step:
  "trailingZeroes (int n) = (if n < 5 then 0 else int (n div 5) + trailingZeroes (int (n div 5)))"
  using zeroes_loop_add [of "int (n div 5)" "int (n div 5)" 0]
  by (auto simp: trailingZeroes_def zeroes_loop.simps [of "int n"] zdiv_int)

lemma trailingZeroes_fives:
  "\<exists>k m. trailingZeroes (int n) = int k \<and> (fact n :: nat) = 5 ^ k * m \<and> \<not> 5 dvd m \<and> 2 ^ k dvd (fact n :: nat)"
proof (induction n rule: less_induct)
  case (less n)
  obtain r where r: "(fact n :: nat) = 5 ^ (n div 5) * fact (n div 5) * r" "\<not> 5 dvd r"
    using fact_split [OF splits_2_3_5(3)] by blast
  show ?case
  proof (cases "n < 5")
    case True
    then show ?thesis using r
      by (intro exI [of _ 0] exI [of _ r]) (simp add: trailingZeroes_step [of n])
  next
    case False
    then obtain k m where k: "trailingZeroes (int (n div 5)) = int k" "(fact (n div 5) :: nat) = 5 ^ k * m" "\<not> 5 dvd m"
      "2 ^ k dvd (fact (n div 5) :: nat)"
      using less.IH [of "n div 5"] by auto
    obtain q where q: "(fact n :: nat) = 2 ^ (n div 2) * fact (n div 2) * q"
      using fact_split [OF splits_2_3_5(1)] by blast
    have "2 ^ (n div 5) dvd (2 ^ (n div 2) :: nat)" by (rule le_imp_power_dvd) simp
    moreover have "fact (n div 5) dvd (fact (n div 2) :: nat)" by (rule fact_dvd) simp
    ultimately have "2 ^ (n div 5) * 2 ^ k dvd (fact n :: nat)"
      unfolding q using k(4) by (meson dvd_mult2 dvd_trans mult_dvd_mono)
    moreover have "\<not> 5 dvd m * r" using k(3) r(2) splits_2_3_5(3) unfolding splits_products_def by blast
    moreover have "(fact n :: nat) = 5 ^ (n div 5 + k) * (m * r)" using r(1) k(2) by (simp add: power_add ac_simps)
    ultimately show ?thesis using False k(1)
      by (intro exI [of _ "n div 5 + k"] exI [of _ "m * r"]) (simp add: trailingZeroes_step [of n] power_add)
  qed
qed

lemma trailingZeroes_exact:
  "\<exists>k. trailingZeroes (int n) = int k \<and> 10 ^ k dvd (fact n :: nat) \<and> \<not> 10 ^ Suc k dvd (fact n :: nat)"
proof -
  obtain k m where k: "trailingZeroes (int n) = int k" "(fact n :: nat) = 5 ^ k * m" "\<not> 5 dvd m" "2 ^ k dvd (fact n :: nat)"
    using trailingZeroes_fives by blast
  have cop: "coprime (2 ^ k) (5 ^ k :: nat)" by (simp add: coprime_power_left_iff coprime_power_right_iff coprime_iff_gcd_eq_1 gcd_non_0_nat)
  have "2 ^ k * 5 ^ k dvd (fact n :: nat)"
    using k(2,4) cop by (intro divides_mult) auto
  moreover have "\<not> 10 ^ Suc k dvd (fact n :: nat)"
  proof
    assume "10 ^ Suc k dvd (fact n :: nat)"
    then have "5 ^ Suc k dvd (5 ^ k * m)" unfolding k(2) [symmetric]
      by (rule dvd_trans [rotated]) (simp add: power_mult_distrib [of 2 5, simplified] del: power_Suc)
    then show False using k(3) by (simp add: ac_simps)
  qed
  moreover have "(10 :: nat) ^ k = 2 ^ k * 5 ^ k" by (simp flip: power_mult_distrib)
  ultimately show ?thesis using k(1) by metis
qed

section \<open>solution 263\<close>

partial_function (option) strip_factor :: "nat \<Rightarrow> nat \<Rightarrow> nat option" where
  \<comment> \<open>\<^verbatim>\<open>while (number % e == 0) number /= e\<close>\<close>
  "strip_factor e number = (if number mod e = 0 then strip_factor e (number div e) else Some number)"

fun ugly_loop :: "nat list \<Rightarrow> nat \<Rightarrow> nat option" where
  "ugly_loop [] number = Some number"
| "ugly_loop (e # es) number =
     (case strip_factor e number of None \<Rightarrow> None | Some number' \<Rightarrow> ugly_loop es number')"

definition isUgly :: "u32 \<Rightarrow> bool option" where
  "isUgly number =
     (if number = 0 then Some False
      else map_option (\<lambda>n. n = 1) (ugly_loop [2, 3, 5] (unat number)))"

definition smooth :: "nat \<Rightarrow> bool" where
  "smooth n \<longleftrightarrow> (\<exists>a b c. n = 2 ^ a * 3 ^ b * 5 ^ c)"

lemma smooth_dvd: "splits_products p \<Longrightarrow> smooth n \<Longrightarrow> p dvd n \<Longrightarrow> p dvd 2 \<or> p dvd 3 \<or> p dvd 5"
  unfolding smooth_def splits_products_def using splits_power [of p] unfolding splits_products_def by blast

lemma smooth_mult: "smooth m \<Longrightarrow> smooth n \<Longrightarrow> smooth (m * n)"
proof -
  assume "smooth m" "smooth n"
  then obtain a b c a' b' c' where "m = 2 ^ a * 3 ^ b * 5 ^ c" "n = 2 ^ a' * 3 ^ b' * 5 ^ c'"
    unfolding smooth_def by blast
  then show ?thesis unfolding smooth_def
    by (intro exI [of _ "a + a'"] exI [of _ "b + b'"] exI [of _ "c + c'"]) (simp add: power_add ac_simps)
qed

lemma smooth_prime: "smooth 2" "smooth 3" "smooth 5" "smooth 1"
  unfolding smooth_def
  by (rule exI [of _ 1], rule exI [of _ 0], rule exI [of _ 0], simp)
    (rule exI [of _ 0], rule exI [of _ 1], rule exI [of _ 0], simp,
     rule exI [of _ 0], rule exI [of _ 0], rule exI [of _ 1], simp,
     rule exI [of _ 0], rule exI [of _ 0], rule exI [of _ 0], simp)

lemma smooth_cancel:
  assumes "e \<in> {2, 3, 5}" "smooth (e * n)"
  shows "smooth n"
proof -
  from assms(2) obtain a b c where abc: "e * n = 2 ^ a * 3 ^ b * 5 ^ c" unfolding smooth_def by blast
  have not: "\<not> 2 dvd (3 ^ b * 5 ^ c :: nat)" "\<not> 3 dvd (2 ^ a * 5 ^ c :: nat)" "\<not> 5 dvd (2 ^ a * 3 ^ b :: nat)"
    using splits_2_3_5 splits_power [of 2 3 b] splits_power [of 2 5 c] splits_power [of 3 2 a] splits_power [of 3 5 c]
      splits_power [of 5 2 a] splits_power [of 5 3 b]
    unfolding splits_products_def by auto
  have dvd: "e dvd 2 ^ a * 3 ^ b * 5 ^ c" using abc by (metis dvd_triv_left)
  from assms(1) consider "e = 2" | "e = 3" | "e = 5" by blast
  then show ?thesis
  proof cases
    case 1
    then obtain a' where "a = Suc a'" using not(1) dvd by (cases a) (auto simp: ac_simps)
    then show ?thesis using abc 1 unfolding smooth_def by (intro exI [of _ a'] exI [of _ b] exI [of _ c]) simp
  next
    case 2
    then obtain b' where "b = Suc b'" using not(2) dvd by (cases b) (auto simp: ac_simps)
    then show ?thesis using abc 2 unfolding smooth_def by (intro exI [of _ a] exI [of _ b'] exI [of _ c]) simp
  next
    case 3
    then obtain c' where "c = Suc c'" using not(3) dvd by (cases c) (auto simp: ac_simps)
    then show ?thesis using abc 3 unfolding smooth_def by (intro exI [of _ a] exI [of _ b] exI [of _ c']) simp
  qed
qed

lemma strip_factor_spec:
  assumes "e \<in> {2, 3, 5}" "n > 0"
  shows "\<exists>m. strip_factor e n = Some m \<and> m > 0 \<and> m dvd n \<and> \<not> e dvd m \<and> (smooth m \<longleftrightarrow> smooth n)"
  using assms(2)
proof (induction n rule: less_induct)
  case (less n)
  show ?case
  proof (cases "e dvd n")
    case True
    then obtain k where k: "n = e * k" by blast
    have lt: "k < n" "k > 0" "n div e = k" using k less.prems assms(1) by auto
    have "smooth n \<longleftrightarrow> smooth k"
      using k smooth_cancel [OF assms(1)] smooth_mult [of e k] smooth_prime assms(1) by auto
    moreover have "strip_factor e n = strip_factor e k"
      using True lt(3) by (subst strip_factor.simps) (simp add: dvd_eq_mod_eq_0)
    ultimately show ?thesis using less.IH [OF lt(1,2)] k by (metis dvd_mult)
  next
    case False
    then show ?thesis using less.prems by (subst strip_factor.simps) (auto simp: dvd_eq_mod_eq_0)
  qed
qed

lemma isUgly_smooth: "number \<noteq> 0 \<Longrightarrow> isUgly number = Some (smooth (unat number))"
proof -
  assume nz: "number \<noteq> 0"
  then have pos: "unat number > 0" by (simp add: unat_gt_0)
  obtain a where a: "strip_factor 2 (unat number) = Some a" "a > 0" "\<not> 2 dvd a" "smooth a \<longleftrightarrow> smooth (unat number)"
    using strip_factor_spec [of 2 "unat number"] pos by auto
  obtain b where b: "strip_factor 3 a = Some b" "b > 0" "b dvd a" "\<not> 3 dvd b" "smooth b \<longleftrightarrow> smooth a"
    using strip_factor_spec [of 3 a] a by auto
  obtain c where c: "strip_factor 5 b = Some c" "c > 0" "c dvd b" "\<not> 5 dvd c" "smooth c \<longleftrightarrow> smooth b"
    using strip_factor_spec [of 5 b] b by auto
  have no: "\<not> 2 dvd c" "\<not> 3 dvd c" "\<not> 5 dvd c" using a(3) b(3,4) c(3,4) by (meson dvd_trans)+
  have "smooth c \<longleftrightarrow> c = 1"
  proof
    assume "smooth c"
    then obtain i j k where ijk: "c = 2 ^ i * 3 ^ j * 5 ^ k" unfolding smooth_def by blast
    have "i = 0" using no(1) ijk by (cases i) auto
    moreover have "j = 0" using no(2) ijk by (cases j) auto
    moreover have "k = 0" using no(3) ijk by (cases k) auto
    ultimately show "c = 1" using ijk by simp
  qed (use smooth_prime in metis)
  then show ?thesis using nz a b c by (simp add: isUgly_def)
qed

section \<open>What the programs compute\<close>

text \<open>
  On \<^verbatim>\<open>int\<close> arguments the arithmetic programs compute, without signed overflow: the
  number with the digits reversed, or 0 where it is no \<^verbatim>\<open>int\<close> (7); whether the digits read the
  same both ways, no negative number being a palindrome (9); the quotient rounded towards zero,
  and \<^verbatim>\<open>INT_MAX\<close> for a division by zero or the one that overflows (29); the floor of the square
  root (69); the exact number of zeroes \<open>n!\<close> ends with (172); and whether a number is a product of
  twos, threes and fives (263). The loops of all six end.
\<close>

theorem arithmetic_programs:
  assumes "fits_int x" "fits_int y"
  shows "reverse_int x = (let r = sgn x * int (horner10 0 (digits10 (nat \<bar>x\<bar>))) in if fits_int r then r else 0) \<and>
    isPalindrome_int x = Some (0 \<le> x \<and> rev (digits10 (nat x)) = digits10 (nat x)) \<and>
    (\<exists>q. fits_int q \<and> divide_int x y = Some q \<and> q = (if y = 0 \<or> (x = INT_MIN \<and> y = -1) then INT_MAX else cdiv x y)) \<and>
    (0 \<le> x \<longrightarrow> (\<exists>r. mySqrt x = Some r \<and> 0 \<le> r \<and> r * r \<le> x \<and> x < (r + 1) * (r + 1))) \<and>
    (0 \<le> x \<longrightarrow> (\<exists>k. trailingZeroes x = int k \<and> 10 ^ k dvd (fact (nat x) :: nat) \<and> \<not> 10 ^ Suc k dvd (fact (nat x) :: nat))) \<and>
    isUgly number = Some (number \<noteq> 0 \<and> smooth (unat number))"
proof (intro conjI impI)
  show "reverse_int x = (let r = sgn x * int (horner10 0 (digits10 (nat \<bar>x\<bar>))) in if fits_int r then r else 0)"
    by (rule reverse_int_value)
  show "isPalindrome_int x = Some (0 \<le> x \<and> rev (digits10 (nat x)) = digits10 (nat x))"
  proof (cases "0 \<le> x")
    case True
    then show ?thesis using isPalindrome_int_nat [of "nat x"] assms(1) by (simp add: fits_int_def)
  qed (simp add: isPalindrome_int_def)
  have "divide_int x y = Some (if y = 0 \<or> (x = INT_MIN \<and> y = -1) then INT_MAX else cdiv x y)"
  proof (cases "y = 0 \<or> (x = INT_MIN \<and> y = -1)")
    case True
    then show ?thesis by (simp add: divide_int_def)
  next
    case False
    then show ?thesis using divide_value [of y x] by auto
  qed
  then show "\<exists>q. fits_int q \<and> divide_int x y = Some q \<and> q = (if y = 0 \<or> (x = INT_MIN \<and> y = -1) then INT_MAX else cdiv x y)"
    using divide_fits [OF assms] by auto
  show "\<exists>r. mySqrt x = Some r \<and> 0 \<le> r \<and> r * r \<le> x \<and> x < (r + 1) * (r + 1)" if "0 \<le> x"
    using mySqrt_floor [OF that] by blast
  show "\<exists>k. trailingZeroes x = int k \<and> 10 ^ k dvd (fact (nat x) :: nat) \<and> \<not> 10 ^ Suc k dvd (fact (nat x) :: nat)"
    if "0 \<le> x"
    using trailingZeroes_exact [of "nat x"] that by simp
  show "isUgly number = Some (number \<noteq> 0 \<and> smooth (unat number))"
    using isUgly_smooth [of number] by (cases "number = 0") (simp_all add: isUgly_def)
qed

theorem arithmetic_programs_witness:
  "isPalindrome_int 1001 = Some (rev (digits10 1001) = digits10 1001) \<and> divide_int 1001 0 = Some INT_MAX \<and>
   (\<exists>r. mySqrt 1001 = Some r \<and> r * r \<le> 1001 \<and> 1001 < (r + 1) * (r + 1))"
proof -
  have "fits_int 1001" "fits_int 0" by (simp_all add: fits_int_def)
  from arithmetic_programs [OF this, of 0] show ?thesis by auto
qed

end
