(* ===== verification/LcNumerals.thy ===== *)
theory LcNumerals
  imports Prelude
begin

text \<open>
  Numerals of \<^verbatim>\<open>hobbies/leetcode/algorithms\<close>: spreadsheet columns (\<^verbatim>\<open>solution_168\<close>,
  \<^verbatim>\<open>solution_171\<close>), roman numerals (\<^verbatim>\<open>solution_12\<close>, \<^verbatim>\<open>solution_13\<close>) and the two additions of
  binary strings (\<^verbatim>\<open>solution_67\<close>). Strings are character lists; \<open>None\<close> is signed overflow or the
  use of an iterator past the end.
\<close>

abbreviation code_of :: "char \<Rightarrow> int" where
  "code_of c \<equiv> of_char c"

abbreviation char_at :: "int \<Rightarrow> char" where
  \<comment> \<open>the conversion of an \<^verbatim>\<open>int\<close> to \<^verbatim>\<open>char\<close>\<close>
  "char_at k \<equiv> char_of k"

section \<open>solution 168 and 171: columns\<close>

function title_loop :: "int \<Rightarrow> string \<Rightarrow> string" where
  "title_loop n s =
     (if n > 0 then title_loop (cdiv (n - 1) 26) (s @ [char_at (cmod (n - 1) 26 + 65)]) else s)"
  by pat_completeness auto
termination by (relation "measure (\<lambda>(n, s). nat n)") auto

definition convertToTitle :: "int \<Rightarrow> string" where
  "convertToTitle n = rev (title_loop n [])"

fun title_value :: "string \<Rightarrow> int \<Rightarrow> int option" where
  "title_value [] num = Some num"
| "title_value (x # s) num =
     (let num' = num * 26 + (code_of x - 65 + 1) in
      if fits_int (num * 26) \<and> fits_int num' then title_value s num' else None)"

definition titleToNumber :: "string \<Rightarrow> int option" where
  "titleToNumber s = title_value s 0"

declare title_loop.simps [simp del]

lemma title_loop_acc: "title_loop n s = s @ title_loop n []"
proof (induction "nat n" arbitrary: n s rule: less_induct)
  case less
  show ?case
  proof (cases "n > 0")
    case True
    let ?m = "cdiv (n - 1) 26" and ?c = "char_at (cmod (n - 1) 26 + 65)"
    have m: "nat ?m < nat n" using True by simp
    show ?thesis
      using less [OF m, of "s @ [?c]"] less [OF m, of "[?c]"] True by (simp add: title_loop.simps [of n])
  qed (simp add: title_loop.simps)
qed

lemma convertToTitle_0: "convertToTitle 0 = []"
  by (simp add: convertToTitle_def title_loop.simps)

lemma convertToTitle_snoc:
  assumes "0 \<le> m" "0 \<le> d" "d < 26"
  shows "convertToTitle (m * 26 + d + 1) = convertToTitle m @ [char_at (d + 65)]"
proof -
  have "cdiv (m * 26 + d) 26 = m" "cmod (m * 26 + d) 26 = d" using assms by simp_all
  then show ?thesis
    using assms title_loop_acc [of m "[char_at (d + 65)]"]
    by (simp add: convertToTitle_def title_loop.simps [of "m * 26 + d + 1"])
qed

lemma title_value_snoc:
  "title_value (s @ [x]) num = (case title_value s num of None \<Rightarrow> None | Some m \<Rightarrow>
     (let m' = m * 26 + (code_of x - 65 + 1) in if fits_int (m * 26) \<and> fits_int m' then Some m' else None))"
  by (induction s arbitrary: num) (simp_all add: Let_def)

lemma title_of_number:
  assumes "0 \<le> n" "n \<le> INT_MAX"
  shows "titleToNumber (convertToTitle n) = Some n"
  using assms
proof (induction "nat n" arbitrary: n rule: less_induct)
  case less
  show ?case
  proof (cases "n = 0")
    case True
    then show ?thesis by (simp add: convertToTitle_0 titleToNumber_def)
  next
    case False
    let ?m = "(n - 1) div 26" and ?d = "(n - 1) mod 26"
    have n: "?m * 26 + ?d + 1 = n" by simp
    moreover have d: "0 \<le> ?d" "?d < 26" by simp_all
    moreover have "0 \<le> ?m" using False less.prems by (simp add: pos_imp_zdiv_nonneg_iff)
    ultimately have m: "0 \<le> ?m" "?m < n" "?m * 26 < n" by linarith+
    have "titleToNumber (convertToTitle ?m) = Some ?m" using less m by auto
    moreover have "convertToTitle n = convertToTitle ?m @ [char_at (?d + 65)]"
      using convertToTitle_snoc [OF m(1) d] n by simp
    ultimately show ?thesis
      using n d m less.prems by (simp add: titleToNumber_def title_value_snoc fits_int_def)
  qed
qed

lemma number_of_title:
  assumes "titleToNumber s = Some n" "list_all (\<lambda>c. 65 \<le> code_of c \<and> code_of c \<le> 90) s"
  shows "0 \<le> n \<and> convertToTitle n = s"
  using assms
proof (induction s arbitrary: n rule: rev_induct)
  case Nil
  then show ?case by (simp add: titleToNumber_def convertToTitle_0)
next
  case (snoc c s)
  from snoc.prems obtain m where m: "titleToNumber s = Some m" "n = m * 26 + (code_of c - 65) + 1"
    by (auto simp: titleToNumber_def title_value_snoc Let_def split: option.splits if_splits)
  have IH: "0 \<le> m" "convertToTitle m = s" using snoc m(1) by auto
  have "char_at (code_of c - 65 + 65) = c" by simp
  then show ?case
    using convertToTitle_snoc [of m "code_of c - 65"] IH m(2) snoc.prems(2) by simp
qed

section \<open>solution 12 and 13: roman numerals\<close>

definition roman_table :: "(int \<times> string) list" where
  \<comment> \<open>the ordered map, from its largest key down\<close>
  "roman_table =
     [(1000, ''M''), (900, ''CM''), (500, ''D''), (400, ''CD''), (100, ''C''), (90, ''XC''), (50, ''L''),
      (40, ''XL''), (10, ''X''), (9, ''IX''), (5, ''V''), (4, ''IV''), (1, ''I'')]"

partial_function (option) roman_loop :: "int \<Rightarrow> (int \<times> string) list \<Rightarrow> string \<Rightarrow> string option" where
  "roman_loop num it result =
     (if num > 0 then
        case it of [] \<Rightarrow> None
        | (v, s) # rest \<Rightarrow>
            if num < v then roman_loop num rest result else roman_loop (num - v) it (result @ s)
      else Some result)"

definition intToRoman :: "int \<Rightarrow> string option" where
  "intToRoman num = roman_loop num roman_table []"

definition roman_digit :: "char \<Rightarrow> int" where
  \<comment> \<open>\<^verbatim>\<open>table[c]\<close>: a missing key is added with the value 0\<close>
  "roman_digit c =
     (if c = CHR ''I'' then 1 else if c = CHR ''V'' then 5 else if c = CHR ''X'' then 10
      else if c = CHR ''L'' then 50 else if c = CHR ''C'' then 100 else if c = CHR ''D'' then 500
      else if c = CHR ''M'' then 1000 else 0)"

primrec roman_value_loop :: "string \<Rightarrow> char option \<Rightarrow> int \<Rightarrow> int \<Rightarrow> int" where
  \<comment> \<open>the characters from \<open>i\<close> on, and the one before, which is missing when \<open>i = 0\<close>\<close>
  "roman_value_loop [] before result sign = result * sign"
| "roman_value_loop (c # s) before result sign =
     (case before of
        None \<Rightarrow>
          if c = CHR ''-'' then roman_value_loop s (Some c) result (- 1)
          else roman_value_loop s (Some c) (result + roman_digit c) sign
      | Some b \<Rightarrow>
          if roman_digit c > roman_digit b
          then roman_value_loop s (Some c) (result + (roman_digit c - 2 * roman_digit b)) sign
          else roman_value_loop s (Some c) (result + roman_digit c) sign)"

definition romanToInt :: "string \<Rightarrow> int" where
  "romanToInt s = roman_value_loop s None 0 1"

lemma roman_value_add:
  "roman_value_loop s (Some b) (r + r') 1 = r + roman_value_loop s (Some b) r' 1"
proof (induction s arbitrary: b r')
  case (Cons c s)
  show ?case
    using Cons [of c "r' + roman_digit c"] Cons [of c "r' + (roman_digit c - 2 * roman_digit b)"]
    by (simp add: add.assoc )
qed simp

lemma roman_value_append:
  assumes "s \<noteq> []" "b \<noteq> None \<or> hd s \<noteq> CHR ''-''"
  shows "roman_value_loop (s @ t) b r 1 = roman_value_loop t (Some (last s)) (roman_value_loop s b r 1) 1"
  using assms
proof (induction s arbitrary: b r)
  case (Cons c s)
  then show ?case by (cases "s = []"; cases b) (simp_all )
qed simp

lemma roman_value_restart:
  assumes "t \<noteq> []" "hd t \<noteq> CHR ''-''" "roman_digit (hd t) \<le> roman_digit b"
  shows "roman_value_loop t (Some b) r 1 = r + romanToInt t"
proof -
  obtain c t' where t: "t = c # t'" using assms(1) by (cases t) auto
  show ?thesis
    using assms(2,3) roman_value_add [of t' c r "roman_digit c"]
    by (simp add: t romanToInt_def )
qed

lemma romanToInt_append:
  assumes "s \<noteq> []" "hd s \<noteq> CHR ''-''" "t \<noteq> []" "hd t \<noteq> CHR ''-''" "roman_digit (hd t) \<le> roman_digit (last s)"
  shows "romanToInt (s @ t) = romanToInt s + romanToInt t"
  using roman_value_append [of s None t 0] roman_value_restart [of t "last s" "romanToInt s"] assms
  by (simp add: romanToInt_def)

text \<open>What makes the table right: each entry has its value, and an entry may follow itself and those above it.\<close>

fun roman_entries :: "(int \<times> string) list \<Rightarrow> bool" where
  "roman_entries [] \<longleftrightarrow> True"
| "roman_entries ((v, s) # rest) \<longleftrightarrow>
     s \<noteq> [] \<and> 0 < v \<and> romanToInt s = v \<and>
     list_all (\<lambda>(v', s'). s' \<noteq> [] \<and> hd s' \<noteq> CHR ''-'' \<and> roman_digit (hd s') \<le> roman_digit (last s)) ((v, s) # rest) \<and>
     roman_entries rest"

lemma roman_table_entries: "roman_entries roman_table"
  by (simp add: roman_table_def romanToInt_def roman_digit_def)

lemma roman_loop_spec:
  assumes "roman_entries it" "it \<noteq> []" "fst (last it) = 1" "0 \<le> num"
    "result = [] \<or> hd result \<noteq> CHR ''-'' \<and>
       list_all (\<lambda>(v, s). roman_digit (hd s) \<le> roman_digit (last result)) it"
  shows "\<exists>r. roman_loop num it result = Some r \<and> romanToInt r = romanToInt result + num"
  using assms
proof (induction "nat num + length it" arbitrary: num it result rule: less_induct)
  case less
  show ?case
  proof (cases "num > 0")
    case False
    then show ?thesis using less.prems(4) by (subst roman_loop.simps) simp
  next
    case True
    obtain v s rest where it: "it = (v, s) # rest" using less.prems(2) by (cases it) auto
    show ?thesis
    proof (cases "num < v")
      case lt: True
      then have ne: "rest \<noteq> []" using less.prems(3) True it by auto
      have "\<exists>r. roman_loop num rest result = Some r \<and> romanToInt r = romanToInt result + num"
        using less.prems ne by (intro less.hyps) (auto simp: it)
      then show ?thesis using lt True it by (subst roman_loop.simps) simp
    next
      case ge: False
      have s: "s \<noteq> []" "hd s \<noteq> CHR ''-''" "0 < v" "romanToInt s = v"
        "list_all (\<lambda>(v', s'). roman_digit (hd s') \<le> roman_digit (last s)) it"
        using less.prems(1) by (auto simp: it list_all_iff)
      have "roman_digit (hd s) \<le> roman_digit (last result)" if "result \<noteq> []"
        using less.prems(5) that by (simp add: it )
      then have app: "romanToInt (result @ s) = romanToInt result + v" "hd (result @ s) \<noteq> CHR ''-''"
        using romanToInt_append [of result s] s less.prems(5) by (cases "result = []"; simp add: romanToInt_def [of "[]"])+
      have "\<exists>r. roman_loop (num - v) it (result @ s) = Some r \<and> romanToInt r = romanToInt (result @ s) + (num - v)"
        using less.prems(1-4) s ge app(2) by (intro less.hyps) auto
      then show ?thesis using ge True it app(1) by (subst roman_loop.simps) simp
    qed
  qed
qed

lemma roman_round_trip: "0 \<le> n \<Longrightarrow> \<exists>s. intToRoman n = Some s \<and> romanToInt s = n"
  using roman_loop_spec [of roman_table n "[]"] roman_table_entries
  by (simp add: intToRoman_def roman_table_def romanToInt_def)

section \<open>solution 67: adding binary strings\<close>

abbreviation bit_of :: "char \<Rightarrow> int" where
  "bit_of c \<equiv> code_of c - 48"

partial_function (option) add_binary_loop :: "string \<Rightarrow> string \<Rightarrow> int \<Rightarrow> int \<Rightarrow> int \<Rightarrow> string \<Rightarrow> string option" where
  "add_binary_loop a b i j flag result =
     (if i \<ge> 0 \<or> j \<ge> 0 \<or> flag \<noteq> 0 then do {
        x \<leftarrow> (if i \<ge> 0 then map_option bit_of (at a i) else Some 0);
        y \<leftarrow> (if j \<ge> 0 then map_option bit_of (at b j) else Some 0);
        let flag' = flag + x + y;
        add_binary_loop a b (if i \<ge> 0 then i - 1 else i) (if j \<ge> 0 then j - 1 else j) (cdiv flag' 2)
          (char_at (cmod flag' 2 + 48) # result) }
      else Some result)"

definition addBinary :: "string \<Rightarrow> string \<Rightarrow> string option" where
  "addBinary a b = add_binary_loop a b (size_of a - 1) (size_of b - 1) 0 []"

function add_helper :: "string \<Rightarrow> string \<Rightarrow> int \<Rightarrow> string" where
  "add_helper a b flag =
     (if a = [] \<and> b = [] then if flag \<noteq> 0 then to_string flag else []
      else if a = [] then add_helper (replicate (length b) (CHR ''0'')) b flag
      else if b = [] then add_helper a (replicate (length a) (CHR ''0'')) flag
      else
        let sum = bit_of (last a) + bit_of (last b) + flag in
        add_helper (butlast a) (butlast b) (cdiv sum 2) @ [char_at (cmod sum 2 + 48)])"
  by pat_completeness auto
termination
  by (relation "measure (\<lambda>(a, b, f). 2 * max (length a) (length b) + (if a = [] \<or> b = [] then 1 else 0))")
    (auto simp: max_def neq_Nil_conv split: if_splits)

definition addBinary2 :: "string \<Rightarrow> string \<Rightarrow> string" where
  "addBinary2 a b = add_helper a b 0"

declare add_helper.simps [simp del]

definition binary :: "string \<Rightarrow> bool" where
  "binary s \<longleftrightarrow> set s \<subseteq> {CHR ''0'', CHR ''1''}"

text \<open>Addition of digit lists with the least significant digit first, and their values.\<close>

fun add_bits :: "string \<Rightarrow> string \<Rightarrow> int \<Rightarrow> string" where
  "add_bits [] [] f = (if f = 0 then [] else [char_at (f + 48)])"
| "add_bits (x # xs) [] f = (let t = f + bit_of x in char_at (t mod 2 + 48) # add_bits xs [] (t div 2))"
| "add_bits [] (y # ys) f = (let t = f + bit_of y in char_at (t mod 2 + 48) # add_bits [] ys (t div 2))"
| "add_bits (x # xs) (y # ys) f =
     (let t = f + bit_of x + bit_of y in char_at (t mod 2 + 48) # add_bits xs ys (t div 2))"

fun bits_value :: "string \<Rightarrow> int" where
  "bits_value [] = 0"
| "bits_value (x # xs) = bit_of x + 2 * bits_value xs"

definition bits_string_value :: "string \<Rightarrow> int" where
  "bits_string_value s = bits_value (rev s)"

lemma binary_simps [simp]:
  "binary []" "binary (x # s) \<longleftrightarrow> (x = CHR ''0'' \<or> x = CHR ''1'') \<and> binary s" "binary (rev s) \<longleftrightarrow> binary s"
  by (auto simp: binary_def)

lemma bit_cases: "x = CHR ''0'' \<or> x = CHR ''1'' \<Longrightarrow> bit_of x = 0 \<or> bit_of x = 1"
  by auto

lemma bit_char: "char_at (t mod 2 + 48) \<in> {CHR ''0'', CHR ''1''} \<and> bit_of (char_at (t mod 2 + 48)) = t mod 2"
proof -
  have "t mod 2 = 0 \<or> t mod 2 = 1" by auto
  then show ?thesis by (auto simp: char_of_def)
qed

lemma carry_bit:
  assumes "f \<in> {0, 1}" "x = CHR ''0'' \<or> x = CHR ''1''" "y = CHR ''0'' \<or> y = CHR ''1''"
  shows "(f + bit_of x) div 2 \<in> {0, 1}" "(f + bit_of x + bit_of y) div 2 \<in> {0, 1}"
    "0 \<le> f + bit_of x" "0 \<le> f + bit_of x + bit_of y"
  using assms by auto

lemma add_bits_value:
  assumes "binary xs" "binary ys" "f \<in> {0, 1}"
  shows "binary (add_bits xs ys f) \<and> bits_value (add_bits xs ys f) = bits_value xs + bits_value ys + f"
  using assms
proof (induction xs ys f rule: add_bits.induct)
  case (1 f)
  then show ?case by (auto simp: char_of_def)
next
  case (2 x xs f)
  let ?t = "f + bit_of x"
  have "binary (add_bits xs [] (?t div 2)) \<and> bits_value (add_bits xs [] (?t div 2)) = bits_value xs + bits_value [] + ?t div 2"
    using 2 carry_bit(1) [of f x x] by simp
  then show ?case using bit_char [of ?t] by (simp add: Let_def)
next
  case (3 y ys f)
  let ?t = "f + bit_of y"
  have "binary (add_bits [] ys (?t div 2)) \<and> bits_value (add_bits [] ys (?t div 2)) = bits_value [] + bits_value ys + ?t div 2"
    using 3 carry_bit(1) [of f y y] by simp
  then show ?case using bit_char [of ?t] by (simp add: Let_def)
next
  case (4 x xs y ys f)
  let ?t = "f + bit_of x + bit_of y"
  have "binary (add_bits xs ys (?t div 2)) \<and> bits_value (add_bits xs ys (?t div 2)) = bits_value xs + bits_value ys + ?t div 2"
    using 4 carry_bit(2) [of f x y] by simp
  then show ?case using bit_char [of ?t] by (simp add: Let_def)
qed

lemma at_rev_Cons: "at (rev (x # xs) @ rest) (size_of xs) = Some x"
  using at_mid [of "rev xs" x rest] by simp

lemma add_binary_loop_bits:
  assumes "binary xs" "binary ys" "f \<in> {0, 1}"
  shows "add_binary_loop (rev xs @ as) (rev ys @ bs) (size_of xs - 1) (size_of ys - 1) f result =
    Some (rev (add_bits xs ys f) @ result)"
  using assms
proof (induction xs ys f arbitrary: as bs result rule: add_bits.induct)
  case (1 f)
  have stop: "add_binary_loop a b (- 1) (- 1) 0 r = Some r" for a b r by (subst add_binary_loop.simps) simp
  show ?case using 1 stop by (subst add_binary_loop.simps) (auto simp: Let_def)
next
  case (2 x xs f)
  let ?t = "f + bit_of x"
  have c: "?t div 2 \<in> {0, 1}" "0 \<le> ?t" using 2 carry_bit(1,3) [of f x x] by simp_all
  have "add_binary_loop (rev xs @ x # as) (rev [] @ bs) (size_of xs - 1) (size_of [] - 1) (?t div 2)
      (char_at (?t mod 2 + 48) # result) = Some (rev (add_bits xs [] (?t div 2)) @ char_at (?t mod 2 + 48) # result)"
    using 2 c by simp
  then show ?case using c at_rev_Cons [of x xs as] by (subst add_binary_loop.simps) (simp add: Let_def)
next
  case (3 y ys f)
  let ?t = "f + bit_of y"
  have c: "?t div 2 \<in> {0, 1}" "0 \<le> ?t" using 3 carry_bit(1,3) [of f y y] by simp_all
  have "add_binary_loop (rev [] @ as) (rev ys @ y # bs) (size_of [] - 1) (size_of ys - 1) (?t div 2)
      (char_at (?t mod 2 + 48) # result) = Some (rev (add_bits [] ys (?t div 2)) @ char_at (?t mod 2 + 48) # result)"
    using 3 c by simp
  then show ?case using c at_rev_Cons [of y ys bs] by (subst add_binary_loop.simps) (simp add: Let_def)
next
  case (4 x xs y ys f)
  let ?t = "f + bit_of x + bit_of y"
  have c: "?t div 2 \<in> {0, 1}" "0 \<le> ?t" using 4 carry_bit(2,4) [of f x y] by simp_all
  have "add_binary_loop (rev xs @ x # as) (rev ys @ y # bs) (size_of xs - 1) (size_of ys - 1) (?t div 2)
      (char_at (?t mod 2 + 48) # result) = Some (rev (add_bits xs ys (?t div 2)) @ char_at (?t mod 2 + 48) # result)"
    using 4 c by simp
  then show ?case using c at_rev_Cons [of x xs as] at_rev_Cons [of y ys bs]
    by (subst add_binary_loop.simps) (simp add: Let_def)
qed

lemma add_bits_pad_left: "add_bits (replicate (length ys) (CHR ''0'')) ys f = add_bits [] ys f"
  by (induction ys arbitrary: f) (simp_all add: Let_def)

lemma add_bits_pad_right: "add_bits xs (replicate (length xs) (CHR ''0'')) f = add_bits xs [] f"
  by (induction xs arbitrary: f) (simp_all add: Let_def)

lemma binary_replicate: "binary (replicate n (CHR ''0''))"
  by (auto simp: binary_def)

lemma print_1: "to_string 1 = ''1''" "[char_at 49] = ''1''"
  by (simp_all add: to_string_def char_of_def bit_0)

lemma add_helper_bits:
  assumes "binary xs" "binary ys" "f \<in> {0, 1}"
  shows "add_helper (rev xs) (rev ys) f = rev (add_bits xs ys f)"
  using assms
proof (induction "2 * max (length xs) (length ys) + (if xs = [] \<or> ys = [] then 1 else 0)" arbitrary: xs ys f rule: less_induct)
  case less
  show ?case
  proof (cases xs)
    case Nil
    show ?thesis
    proof (cases ys)
      case Nil
      with \<open>xs = []\<close> less.prems(3) show ?thesis
        by (subst add_helper.simps) (auto simp: print_1)
    next
      case (Cons y ys')
      have "add_helper (rev (replicate (length ys) (CHR ''0''))) (rev ys) f = rev (add_bits (replicate (length ys) (CHR ''0'')) ys f)"
        using less.prems Nil Cons by (intro less.hyps) (simp_all add: binary_replicate)
      moreover have "add_helper [] (rev ys) f = add_helper (replicate (length ys) (CHR ''0'')) (rev ys) f"
        using Cons by (subst add_helper.simps) simp
      ultimately show ?thesis using Nil add_bits_pad_left [of ys f] by (simp only: rev.simps rev_replicate)
    qed
  next
    case (Cons x xs')
    show ?thesis
    proof (cases ys)
      case Nil
      have "add_helper (rev xs) (rev (replicate (length xs) (CHR ''0''))) f = rev (add_bits xs (replicate (length xs) (CHR ''0'')) f)"
        using less.prems Nil Cons by (intro less.hyps) (simp_all add: binary_replicate)
      moreover have "add_helper (rev xs) [] f = add_helper (rev xs) (replicate (length xs) (CHR ''0'')) f"
        using Cons by (subst add_helper.simps) simp
      ultimately show ?thesis using Nil add_bits_pad_right [of xs f] by (simp only: rev.simps rev_replicate)
    next
      case (Cons y ys')
      let ?t = "f + bit_of x + bit_of y"
      have c: "?t div 2 \<in> {0, 1}" "0 \<le> ?t"
        using less.prems \<open>xs = x # xs'\<close> Cons carry_bit(2,4) [of f x y] by simp_all
      have "add_helper (rev xs') (rev ys') (?t div 2) = rev (add_bits xs' ys' (?t div 2))"
        using less.prems \<open>xs = x # xs'\<close> Cons c by (intro less.hyps) (auto simp: max_def)
      then show ?thesis using \<open>xs = x # xs'\<close> Cons c
        by (subst add_helper.simps) (simp add: Let_def ac_simps)
    qed
  qed
qed

text \<open>
  Numerals: every \<^verbatim>\<open>int\<close> from 0 on is the number of its column title (168, 171), and a title of
  capital letters whose number is an \<^verbatim>\<open>int\<close> is the title of that number; every number from 0 on
  is the value of its roman numeral, and the table never runs out (12, 13); and the two additions
  of binary strings return the same string, whose value is the sum (67).
\<close>

theorem numerals_round_trip:
  "(0 \<le> n \<and> n \<le> INT_MAX \<longrightarrow> titleToNumber (convertToTitle n) = Some n) \<and>
   (titleToNumber s = Some m \<and> list_all (\<lambda>c. 65 \<le> code_of c \<and> code_of c \<le> 90) s \<longrightarrow> convertToTitle m = s) \<and>
   (0 \<le> n \<longrightarrow> (\<exists>r. intToRoman n = Some r \<and> romanToInt r = n)) \<and>
   (binary a \<and> binary b \<longrightarrow> addBinary a b = Some (addBinary2 a b) \<and> binary (addBinary2 a b) \<and>
     bits_string_value (addBinary2 a b) = bits_string_value a + bits_string_value b)"
proof (intro conjI impI; (elim conjE)?)
  show "titleToNumber (convertToTitle n) = Some n" if "0 \<le> n" "n \<le> INT_MAX" using that by (rule title_of_number)
  show "convertToTitle m = s" if "titleToNumber s = Some m" "list_all (\<lambda>c. 65 \<le> code_of c \<and> code_of c \<le> 90) s"
    using number_of_title [OF that] by blast
  show "\<exists>r. intToRoman n = Some r \<and> romanToInt r = n" if "0 \<le> n" using that by (rule roman_round_trip)
  assume "binary a" "binary b"
  then have b: "binary (rev a)" "binary (rev b)" "(0::int) \<in> {0, 1}" by simp_all
  have two: "addBinary2 a b = rev (add_bits (rev a) (rev b) 0)"
    using add_helper_bits [OF b] by (simp add: addBinary2_def)
  then show "addBinary a b = Some (addBinary2 a b)"
    using add_binary_loop_bits [OF b, of "[]" "[]" "[]"] by (simp add: addBinary_def)
  show "binary (addBinary2 a b)" "bits_string_value (addBinary2 a b) = bits_string_value a + bits_string_value b"
    using add_bits_value [OF b] two by (simp_all add: bits_string_value_def)
qed

theorem numerals_round_trip_witness:
  "titleToNumber (convertToTitle 28) = Some 28 \<and> (\<exists>r. intToRoman 1990 = Some r \<and> romanToInt r = 1990) \<and>
   addBinary ''10100'' ''111'' = Some (addBinary2 ''10100'' ''111'')"
  using numerals_round_trip [of 28 "[]" 0 "''10100''" "''111''"] numerals_round_trip [of 1990 "[]" 0 "[]" "[]"]
  by (simp add: binary_def)

end
