(* ===== verification/LcKmp.thy ===== *)
theory LcKmp
  imports Prelude "HOL-Library.Sublist"
begin

text \<open>
  Searching a string for another (\<^verbatim>\<open>hobbies/leetcode/algorithms/solution_28\<close>): the algorithm of
  Knuth, Morris and Pratt, with a failure table whose entries are \<open>-1\<close> or the length of a
  border. Reading \<^verbatim>\<open>needle[needle.size()]\<close> is defined and gives the terminating zero; other
  accesses outside a string or the table are \<open>None\<close>.
\<close>

definition str_at :: "string \<Rightarrow> int \<Rightarrow> char option" where
  "str_at s i = at (s @ [CHR 0x00]) i"

partial_function (option) fall_back :: "string \<Rightarrow> int list \<Rightarrow> char \<Rightarrow> int \<Rightarrow> int option" where
  \<comment> \<open>\<^verbatim>\<open>while (j >= 0 && c != needle[j]) j = table[j]\<close>\<close>
  "fall_back needle table c j =
     (if j \<ge> 0 then do {
        d \<leftarrow> str_at needle j;
        if c \<noteq> d then do { j' \<leftarrow> at table j; fall_back needle table c j' } else Some j }
      else Some j)"

partial_function (option) build_table :: "string \<Rightarrow> int list \<Rightarrow> int \<Rightarrow> int \<Rightarrow> int list option" where
  "build_table needle table i j =
     (if i < size_of needle - 1 then do {
        c \<leftarrow> str_at needle i;
        j' \<leftarrow> fall_back needle table c j;
        table' \<leftarrow> put_at table (i + 1) (j' + 1);
        build_table needle table' (i + 1) (j' + 1) }
      else Some table)"

partial_function (option) find_loop :: "string \<Rightarrow> string \<Rightarrow> int list \<Rightarrow> int \<Rightarrow> int \<Rightarrow> int option" where
  "find_loop haystack needle table i j =
     (if i < size_of haystack then do {
        c \<leftarrow> str_at haystack i;
        j' \<leftarrow> fall_back needle table c j;
        if j' + 1 = size_of needle then Some ((i + 1) - (j' + 1))
        else find_loop haystack needle table (i + 1) (j' + 1) }
      else Some (- 1))"

definition strStr :: "string \<Rightarrow> string \<Rightarrow> int option" where
  "strStr haystack needle = do {
     table \<leftarrow> build_table needle (replicate (length needle) (- 1)) 0 (- 1);
     find_loop haystack needle table 0 0 }"

section \<open>Borders\<close>

text \<open>
  An entry is kept as \<open>n - 1\<close>: \<open>n = 0\<close> for position 0, and otherwise \<open>n - 1\<close> is the length of
  the longest proper prefix of \<open>p\<close> that the first \<open>k\<close> characters end with.
\<close>

definition entry :: "string \<Rightarrow> nat \<Rightarrow> nat \<Rightarrow> bool" where
  "entry p k n \<longleftrightarrow> n \<le> k \<and> (0 < n \<longrightarrow> suffix (take (n - 1) p) (take k p)) \<and>
     (\<forall>l<k. n \<le> l \<longrightarrow> \<not> suffix (take l p) (take k p))"

definition entries :: "string \<Rightarrow> int list \<Rightarrow> nat \<Rightarrow> bool" where
  "entries p t n \<longleftrightarrow> length t = length p \<and> (\<forall>k<n. \<exists>e. t ! k = int e - 1 \<and> entry p k e)"

lemma str_at_in [simp]: "n < length s \<Longrightarrow> str_at s (int n) = Some (s ! n)"
  by (simp add: str_at_def nth_append)

lemma suffix_take_Suc:
  assumes "k < length p"
  shows "suffix (take (Suc k) p) (u @ [c]) \<longleftrightarrow> suffix (take k p) u \<and> p ! k = c"
  using assms by (auto simp: take_Suc_conv_app_nth suffix_snoc)

lemma fall_back_spec:
  assumes "entries p t n" "n \<le> length p" "0 < n \<longrightarrow> suffix (take (n - 1) p) u"
  shows "\<exists>n'. fall_back p t c (int n - 1) = Some (int n' - 1) \<and> n' \<le> n \<and>
    (0 < n' \<longrightarrow> suffix (take (n' - 1) p) u \<and> p ! (n' - 1) = c) \<and>
    (\<forall>l<n. n' \<le> l \<and> suffix (take l p) u \<longrightarrow> p ! l \<noteq> c)"
  using assms
proof (induction n rule: less_induct)
  case (less n)
  show ?case
  proof (cases n)
    case 0
    then show ?thesis by (subst fall_back.simps) simp
  next
    case (Suc j)
    then have j: "j < length p" "suffix (take j p) u" using less.prems by simp_all
    show ?thesis
    proof (cases "p ! j = c")
      case True
      then show ?thesis using Suc j by (subst fall_back.simps) (auto intro!: exI [of _ n])
    next
      case False
      obtain e where e: "t ! j = int e - 1" "entry p j e"
        using less.prems(1) Suc by (auto simp: entries_def)
      then have ej: "e \<le> j" by (simp add: entry_def)
      have "0 < e \<longrightarrow> suffix (take (e - 1) p) u"
        using e(2) j(2) by (auto simp: entry_def intro: suffix_order.trans)
      moreover have "entries p t e" using less.prems(1) ej Suc by (simp add: entries_def)
      ultimately obtain n' where n': "fall_back p t c (int e - 1) = Some (int n' - 1)" "n' \<le> e"
        "0 < n' \<longrightarrow> suffix (take (n' - 1) p) u \<and> p ! (n' - 1) = c"
        "\<forall>l<e. n' \<le> l \<and> suffix (take l p) u \<longrightarrow> p ! l \<noteq> c"
        using less.IH [of e] ej Suc j(1) by auto
      have "length t = length p" using less.prems(1) by (simp add: entries_def)
      then have run: "fall_back p t c (int n - 1) = fall_back p t c (int e - 1)"
        using Suc False j(1) e(1) by (subst fall_back.simps) simp
      have "p ! l \<noteq> c" if ln: "l < n" and nl: "n' \<le> l" and sl: "suffix (take l p) u" for l
      proof -
        consider "l < e" | "l = j" | "e \<le> l" "l < j" using ln Suc by linarith
        then show ?thesis
        proof cases
          case 3
          have "suffix (take l p) (take j p)"
            using suffix_length_suffix [OF sl j(2)] 3 j(1) by simp
          then show ?thesis using e(2) 3 by (simp add: entry_def)
        qed (use n'(4) nl sl False in auto)
      qed
      then show ?thesis using run n' ej Suc by (intro exI [of _ n']) auto
    qed
  qed
qed

text \<open>What one step of either loop does to the longest prefix the text read so far ends with.\<close>

lemma fall_back_next:
  assumes "entries p t n" "n \<le> length p" "0 < n \<longrightarrow> suffix (take (n - 1) p) u"
    and max: "\<forall>l<b. n \<le> l \<longrightarrow> \<not> suffix (take l p) u" and b: "b \<le> length p"
  shows "\<exists>n'. fall_back p t c (int n - 1) = Some (int n' - 1) \<and> n' \<le> n \<and> suffix (take n' p) (u @ [c]) \<and>
    (\<forall>l. l \<le> b \<and> n' < l \<longrightarrow> \<not> suffix (take l p) (u @ [c]))"
proof -
  obtain n' where n': "fall_back p t c (int n - 1) = Some (int n' - 1)" "n' \<le> n"
    "0 < n' \<longrightarrow> suffix (take (n' - 1) p) u \<and> p ! (n' - 1) = c"
    "\<forall>l<n. n' \<le> l \<and> suffix (take l p) u \<longrightarrow> p ! l \<noteq> c"
    using fall_back_spec [OF assms(1-3)] by blast
  have "suffix (take n' p) (u @ [c])"
  proof (cases n')
    case (Suc k)
    then show ?thesis using suffix_take_Suc [of k p u c] n'(2,3) assms(2) by simp
  qed simp
  moreover have "\<not> suffix (take l p) (u @ [c])" if l: "l \<le> b" "n' < l" for l
  proof -
    obtain k where k: "l = Suc k" using l(2) by (cases l) auto
    have "\<not> (suffix (take k p) u \<and> p ! k = c)"
      using n'(4) max l k by (cases "k < n") auto
    then show ?thesis using suffix_take_Suc [of k p u c] k l(1) b by simp
  qed
  ultimately show ?thesis using n'(1,2) by blast
qed

lemma build_table_spec:
  assumes "entries p t (Suc i)" "entry p i n" "i < length p"
  shows "\<exists>t'. build_table p t (int i) (int n - 1) = Some t' \<and> entries p t' (length p)"
  using assms
proof (induction "length p - i" arbitrary: i n t)
  case 0
  then show ?case by simp
next
  case (Suc d)
  show ?case
  proof (cases "Suc i < length p")
    case False
    then show ?thesis using Suc.prems by (subst build_table.simps) (auto simp: entries_def)
  next
    case True
    have ent: "entries p t n" using Suc.prems(1,2) by (auto simp: entries_def entry_def)
    have pre: "n \<le> length p" "0 < n \<longrightarrow> suffix (take (n - 1) p) (take i p)"
      "\<forall>l<i. n \<le> l \<longrightarrow> \<not> suffix (take l p) (take i p)" "i \<le> length p"
      using Suc.prems(2,3) by (simp_all add: entry_def)
    obtain n' where n': "fall_back p t (p ! i) (int n - 1) = Some (int n' - 1)" "n' \<le> n"
      "suffix (take n' p) (take i p @ [p ! i])"
      "\<forall>l. l \<le> i \<and> n' < l \<longrightarrow> \<not> suffix (take l p) (take i p @ [p ! i])"
      using fall_back_next [OF ent pre, of "p ! i"] by (elim exE conjE) (rule that)
    have ti: "take (Suc i) p = take i p @ [p ! i]" using True by (simp add: take_Suc_conv_app_nth)
    have "n' \<le> i" using n'(2) Suc.prems(2) by (simp add: entry_def)
    then have e': "entry p (Suc i) (Suc n')" using n'(3,4) unfolding entry_def ti
      by (simp add: Suc_le_eq less_Suc_eq_le)
    let ?t = "t[Suc i := int n']"
    have len: "length t = length p" using Suc.prems(1) by (simp add: entries_def)
    have new: "\<exists>e. int n' = int e - 1 \<and> entry p (Suc i) e" using e' by (intro exI [of _ "Suc n'"]) simp
    have ent': "entries p ?t (Suc (Suc i))"
      using Suc.prems(1) new True len by (auto simp: entries_def nth_list_update less_Suc_eq)
    have "put_at t (int i + 1) (int n') = Some ?t" using len True by (simp add: nat_add_distrib)
    then have "build_table p t (int i) (int n - 1) = build_table p ?t (int (Suc i)) (int (Suc n') - 1)"
      using n'(1) True by (subst build_table.simps) (simp add: add.commute)
    then show ?thesis using Suc.hyps(1) [OF _ ent' e'] Suc.hyps(2) True by simp
  qed
qed

text \<open>Occurrences, and the position the search returns.\<close>

definition occurs_at :: "string \<Rightarrow> string \<Rightarrow> nat \<Rightarrow> bool" where
  "occurs_at s p k \<longleftrightarrow> prefix p (drop k s)"

lemma occurs_ends:
  assumes "k \<le> length s"
  shows "suffix p (take k s) \<longleftrightarrow> length p \<le> k \<and> occurs_at s p (k - length p)"
proof
  assume "suffix p (take k s)"
  then obtain v where v: "take k s = v @ p" by (auto simp: suffix_def)
  then have "length v + length p = k" using assms by (metis length_append length_take min.absorb2)
  moreover have "s = v @ p @ drop k s" using v by (metis append_take_drop_id append.assoc)
  then have "drop (length v) s = p @ drop k s" by (metis append_eq_conv_conj)
  ultimately show "length p \<le> k \<and> occurs_at s p (k - length p)" by (auto simp: occurs_at_def)
next
  assume "length p \<le> k \<and> occurs_at s p (k - length p)"
  then obtain r where r: "length p \<le> k" "drop (k - length p) s = p @ r"
    by (auto simp: occurs_at_def prefix_def)
  have "take k s = take (k - length p) s @ take (length p) (drop (k - length p) s)"
    using r(1) by (metis le_add_diff_inverse2 take_add)
  then show "suffix p (take k s)" using r by (simp add: suffix_def)
qed

lemma find_loop_spec:
  assumes "entries p t (length p)" "p \<noteq> []" "i \<le> length s" "j < length p" "suffix (take j p) (take i s)"
    "\<forall>l. j < l \<and> l \<le> length p \<longrightarrow> \<not> suffix (take l p) (take i s)" "\<forall>k. k + length p \<le> i \<longrightarrow> \<not> occurs_at s p k"
  shows "(\<exists>k. find_loop s p t (int i) (int j) = Some (int k) \<and> occurs_at s p k \<and> (\<forall>l<k. \<not> occurs_at s p l)) \<or>
    (find_loop s p t (int i) (int j) = Some (- 1) \<and> (\<forall>k. \<not> occurs_at s p k))"
  using assms(3-)
proof (induction "length s - i" arbitrary: i j)
  case 0
  then have "occurs_at s p k \<longrightarrow> k + length p \<le> i" for k
    using assms(2) by (auto simp: occurs_at_def prefix_def dest!: arg_cong [of _ _ length])
  with 0 show ?case by (subst (1 2) find_loop.simps) auto
next
  case (Suc d)
  then have i: "i < length s" by simp
  have ent: "entries p t (Suc j)" using assms(1) Suc.prems(2) by (simp add: entries_def)
  obtain n' where n': "fall_back p t (s ! i) (int (Suc j) - 1) = Some (int n' - 1)" "n' \<le> Suc j"
    "suffix (take n' p) (take i s @ [s ! i])"
    "\<forall>l. l \<le> length p \<and> n' < l \<longrightarrow> \<not> suffix (take l p) (take i s @ [s ! i])"
    using fall_back_next [OF ent, of "take i s" "length p" "s ! i"] Suc.prems(2,3,4) by (auto simp: Suc_le_eq)
  have ti: "take i s @ [s ! i] = take (Suc i) s" using i by (simp add: take_Suc_conv_app_nth)
  show ?case
  proof (cases "n' = length p")
    case True
    then have o: "length p \<le> Suc i" "occurs_at s p (Suc i - length p)"
      using n'(3) occurs_ends [of "Suc i" s p] i by (simp_all add: ti)
    moreover have "\<not> occurs_at s p l" if "l < Suc i - length p" for l
      using Suc.prems(5) that by simp
    moreover have "find_loop s p t (int i) (int j) = Some (int (Suc i - length p))"
      using i n'(1) True o(1) by (subst find_loop.simps) (simp add: of_nat_diff)
    ultimately show ?thesis by blast
  next
    case False
    have "\<not> occurs_at s p k" if "k + length p \<le> Suc i" for k
    proof (cases "k + length p = Suc i")
      case True
      have "\<not> suffix (take (length p) p) (take (Suc i) s)" using n'(2,4) False Suc.prems(2) by (auto simp: ti)
      then show ?thesis using occurs_ends [of "Suc i" s p] i True by (metis Suc_leI add_diff_cancel_right' le_add2 take_all order_refl)
    qed (use Suc.prems(5) that in simp)
    moreover have "find_loop s p t (int i) (int j) = find_loop s p t (int (Suc i)) (int n')"
      using i n'(1) False by (subst find_loop.simps) (simp add: add.commute)
    ultimately show ?thesis
      using Suc.hyps(1) [of "Suc i" n'] Suc.hyps(2) n'(2,3,4) Suc.prems(2) False i by (simp add: ti)
  qed
qed

lemma empty_needle:
  "strStr haystack [] = (if haystack = [] \<or> haystack = [CHR 0x00] then Some (- 1) else None)"
proof -
  have no_table: "build_table [] [] 0 (- 1) = Some []" by (subst build_table.simps) simp
  have none: "fall_back [] [] c 1 = None" for c
    by (subst fall_back.simps) (simp add: str_at_def at_def)
  have zero: "fall_back [] [] c 0 = (if c = CHR 0x00 then Some 0 else None)" for c
    by (subst fall_back.simps) (simp add: str_at_def at_def)
  have two: "find_loop (c # h) [] [] 1 1 = (if h = [] then Some (- 1) else None)" for c h
    by (subst find_loop.simps) (auto simp: none split: bind_splits)
  have "find_loop (c # h) [] [] 0 0 = (if c = CHR 0x00 \<and> h = [] then Some (- 1) else None)" for c h
    using str_at_in [of 0 "c # h"] two [of c h] by (subst find_loop.simps) (auto simp: zero)
  moreover have "find_loop [] [] [] 0 0 = Some (- 1)" by (subst find_loop.simps) simp
  ultimately show ?thesis
    using no_table by (cases haystack) (auto simp: strStr_def)
qed

text \<open>
  C39: \<^verbatim>\<open>strStr\<close> with a needle that is not empty returns, without an access outside the strings
  or the table, the position of the first occurrence of the needle, and \<open>-1\<close> when there is none.
  With an empty needle it returns only for the empty haystack and for the one whose only character is zero, and what it
  returns is \<open>-1\<close>; for any other haystack it reads behind the empty table or the zero behind the needle.
\<close>

theorem strStr_finds:
  "(needle \<noteq> [] \<longrightarrow>
     (\<exists>k. strStr haystack needle = Some (int k) \<and> occurs_at haystack needle k \<and> (\<forall>l<k. \<not> occurs_at haystack needle l)) \<or>
     strStr haystack needle = Some (- 1) \<and> (\<forall>k. \<not> occurs_at haystack needle k)) \<and>
   strStr haystack [] = (if haystack = [] \<or> haystack = [CHR 0x00] then Some (- 1) else None)"
proof (intro conjI impI)
  assume ne: "needle \<noteq> []"
  have "entries needle (replicate (length needle) (- 1)) (Suc 0)" "entry needle 0 0"
    using ne by (auto simp: entries_def entry_def)
  moreover have "0 < length needle" using ne by simp
  ultimately have "\<exists>t. build_table needle (replicate (length needle) (- 1)) (int 0) (int 0 - 1) = Some t \<and>
      entries needle t (length needle)"
    by (rule build_table_spec)
  then obtain t where
    t: "build_table needle (replicate (length needle) (- 1)) 0 (- 1) = Some t" "entries needle t (length needle)"
    by auto
  have "\<forall>k. k + length needle \<le> 0 \<longrightarrow> \<not> occurs_at haystack needle k" using ne by simp
  note search = find_loop_spec [OF t(2) ne _ _ _ _ this]
  show "(\<exists>k. strStr haystack needle = Some (int k) \<and> occurs_at haystack needle k \<and> (\<forall>l<k. \<not> occurs_at haystack needle l)) \<or>
     strStr haystack needle = Some (- 1) \<and> (\<forall>k. \<not> occurs_at haystack needle k)"
    using search [of 0] t(1) ne by (simp add: strStr_def)
qed (rule empty_needle)

theorem strStr_finds_witness:
  "strStr ''abcab'' ''ab'' = Some 0 \<and> strStr ''x'' [] = None"
proof -
  have o: "occurs_at ''abcab'' ''ab'' 0" by (simp add: occurs_at_def)
  have "''ab'' \<noteq> []" by simp
  with strStr_finds [of "''ab''" "''abcab''"] o
  obtain k where k: "strStr ''abcab'' ''ab'' = Some (int k)" "\<forall>l<k. \<not> occurs_at ''abcab'' ''ab'' l"
    by blast
  have "k = 0" using k(2) o by (cases k) auto
  moreover have "strStr ''x'' [] = None" using strStr_finds [of "[]" "''x''"] by simp
  ultimately show ?thesis using k(1) by simp
qed

end
