(* ===== verification/LcRegex.thy ===== *)
theory LcRegex
  imports Prelude
begin

text \<open>
  Regular expressions with \<^verbatim>\<open>.\<close> and \<^verbatim>\<open>*\<close> (\<^verbatim>\<open>hobbies/leetcode/algorithms/solution_10\<close>): the
  recursive matcher and the iterative one, against the language of the pattern. \<open>None\<close> is an access
  outside a string; \<^verbatim>\<open>p[p.size()]\<close> is defined and gives the terminating zero.
\<close>

definition char_fits :: "char \<Rightarrow> char \<Rightarrow> bool" where
  "char_fits c x \<longleftrightarrow> c = CHR ''.'' \<or> x = c"

function match :: "string \<Rightarrow> nat \<Rightarrow> string \<Rightarrow> nat \<Rightarrow> bool option"
  and star_loop :: "string \<Rightarrow> nat \<Rightarrow> string \<Rightarrow> nat \<Rightarrow> char \<Rightarrow> bool option" where
  "match s spos p ppos =
     (if ppos = length p then Some (spos = length s)
      else if ppos + 1 < length p \<and> p ! (ppos + 1) = CHR ''*'' then star_loop s spos p (ppos + 2) (p ! ppos)
      else if ppos < length p then
        if spos < length s \<and> char_fits (p ! ppos) (s ! spos) then match s (spos + 1) p (ppos + 1) else Some False
      else None)"
| "star_loop s spos p ppos c =
     (case match s spos p ppos of
        None \<Rightarrow> None
      | Some found \<Rightarrow>
          if found then Some True
          else if spos < length s \<and> char_fits c (s ! spos) then star_loop s (spos + 1) p ppos c else Some False)"
  by pat_completeness auto
termination
  by (relation "measures [\<lambda>x. case x of Inl (s, i, p, j) \<Rightarrow> 2 * (length p - j) | Inr (s, i, p, j, c) \<Rightarrow> 2 * (length p - j) + 1,
        \<lambda>x. case x of Inl (s, i, p, j) \<Rightarrow> 0 | Inr (s, i, p, j, c) \<Rightarrow> length s - i]") auto

definition isMatch :: "string \<Rightarrow> string \<Rightarrow> bool option" where
  "isMatch s p = match s 0 p 0"

function star2_loop :: "string \<Rightarrow> nat \<Rightarrow> char \<Rightarrow> string \<Rightarrow> (bool \<times> nat) option" where
  \<comment> \<open>whether a match was found, and \<open>j\<close>, which has moved past the character that ends the loop\<close>
  "star2_loop s j c rest =
     (case isMatch (drop j s) rest of
        None \<Rightarrow> None
      | Some found \<Rightarrow>
          if found then Some (True, j)
          else if j < length s then
            if char_fits c (s ! j) then star2_loop s (j + 1) c rest else Some (False, j + 1)
          else Some (False, j))"
  by pat_completeness auto
termination by (relation "measure (\<lambda>(s, j, c, r). length s - j)") auto

definition next_is_star :: "string \<Rightarrow> nat \<Rightarrow> bool" where
  "next_is_star p i \<longleftrightarrow> i + 1 < length p \<and> p ! (i + 1) = CHR ''*''"

function match2_loop :: "string \<Rightarrow> string \<Rightarrow> nat \<Rightarrow> nat \<Rightarrow> bool option" where
  "match2_loop s p i j =
     (if i < length p then
        case (if next_is_star p i then star2_loop s j (p ! i) (drop (i + 2) p) else Some (False, j)) of
          None \<Rightarrow> None
        | Some (found, j') \<Rightarrow>
            if found then Some True
            else if j' \<ge> length s \<or> \<not> char_fits (p ! i) (s ! j') then Some (i = length p \<and> j' = length s)
            else match2_loop s p (i + 1) (j' + 1)
      else Some (i = length p \<and> j = length s))"
  by pat_completeness auto
termination by (relation "measure (\<lambda>(s, p, i, j). length p - i)") auto

definition isMatch2 :: "string \<Rightarrow> string \<Rightarrow> bool option" where
  "isMatch2 s p = match2_loop s p 0 0"

declare match.simps [simp del] star_loop.simps [simp del] star2_loop.simps [simp del] match2_loop.simps [simp del]

section \<open>The language of a pattern\<close>

fun pattern_items :: "string \<Rightarrow> (char \<times> bool) list" where
  \<comment> \<open>the elements of the pattern, each with whether a star follows it\<close>
  "pattern_items [] = []"
| "pattern_items [c] = [(c, False)]"
| "pattern_items (c # d # p) = (if d = CHR ''*'' then (c, True) # pattern_items p else (c, False) # pattern_items (d # p))"

inductive in_language :: "(char \<times> bool) list \<Rightarrow> string \<Rightarrow> bool" where
  done_with: "in_language [] []"
| one: "char_fits c x \<Longrightarrow> in_language r s \<Longrightarrow> in_language ((c, False) # r) (x # s)"
| star_end: "in_language r s \<Longrightarrow> in_language ((c, True) # r) s"
| star_more: "char_fits c x \<Longrightarrow> in_language ((c, True) # r) s \<Longrightarrow> in_language ((c, True) # r) (x # s)"

inductive_simps in_language_Nil [simp]: "in_language [] s"
inductive_simps in_language_one [simp]: "in_language ((c, False) # r) s"
inductive_simps in_language_star_Nil: "in_language ((c, True) # r) []"
inductive_simps in_language_star_Cons: "in_language ((c, True) # r) (x # s)"

lemma items_star: "i + 1 < length p \<Longrightarrow> p ! (i + 1) = CHR ''*'' \<Longrightarrow>
    pattern_items (drop i p) = (p ! i, True) # pattern_items (drop (i + 2) p)"
  by (simp add: Cons_nth_drop_Suc [symmetric, of i] Cons_nth_drop_Suc [symmetric, of "Suc i"])

lemma items_one: "i < length p \<Longrightarrow> \<not> next_is_star p i \<Longrightarrow>
    pattern_items (drop i p) = (p ! i, False) # pattern_items (drop (i + 1) p)"
  by (cases "i + 1 < length p")
    (simp_all add: next_is_star_def Cons_nth_drop_Suc [symmetric, of i] Cons_nth_drop_Suc [symmetric, of "Suc i"])

lemma match_language:
  "spos \<le> length s \<Longrightarrow> ppos \<le> length p \<Longrightarrow>
     match s spos p ppos = Some (in_language (pattern_items (drop ppos p)) (drop spos s))"
  "spos \<le> length s \<Longrightarrow> ppos \<le> length p \<Longrightarrow>
     star_loop s spos p ppos c = Some (in_language ((c, True) # pattern_items (drop ppos p)) (drop spos s))"
proof (induction s spos p ppos and s spos p ppos c rule: match_star_loop.induct)
  case (1 s spos p ppos)
  show ?case
  proof (cases "ppos = length p")
    case True
    then show ?thesis using "1.prems" by (auto simp: match.simps)
  next
    case False
    show ?thesis
    proof (cases "next_is_star p ppos")
      case True
      then show ?thesis using 1 False by (simp add: match.simps [of s spos] next_is_star_def items_star)
    next
      case nostar: False
      have drop: "spos < length s \<Longrightarrow> drop spos s = s ! spos # drop (spos + 1) s" by (simp add: Cons_nth_drop_Suc)
      have pp: "ppos < length p" using False "1.prems" by simp
      have run: "match s spos p ppos =
          (if spos < length s \<and> char_fits (p ! ppos) (s ! spos) then match s (spos + 1) p (ppos + 1) else Some False)"
        using pp nostar by (subst match.simps) (auto simp: next_is_star_def)
      show ?thesis
      proof (cases "spos < length s \<and> char_fits (p ! ppos) (s ! spos)")
        case True
        then have "match s (spos + 1) p (ppos + 1) = Some (in_language (pattern_items (drop (ppos + 1) p)) (drop (spos + 1) s))"
          using pp nostar by (intro "1.IH"(2)) (auto simp: next_is_star_def)
        then show ?thesis using True run items_one [OF pp nostar] drop by simp
      next
        case False
        then show ?thesis using run items_one [OF pp nostar] drop by (cases "spos < length s") auto
      qed
    qed
  qed
next
  case (2 s spos p ppos c)
  have m: "match s spos p ppos = Some (in_language (pattern_items (drop ppos p)) (drop spos s))"
    using "2.IH"(1) "2.prems" by blast
  have drop: "spos < length s \<Longrightarrow> drop spos s = s ! spos # drop (spos + 1) s" by (simp add: Cons_nth_drop_Suc)
  show ?case
  proof (cases "in_language (pattern_items (drop ppos p)) (drop spos s)")
    case True
    then show ?thesis using m star_end [OF True] by (subst star_loop.simps) simp
  next
    case no: False
    then have run: "star_loop s spos p ppos c =
        (if spos < length s \<and> char_fits c (s ! spos) then star_loop s (spos + 1) p ppos c else Some False)"
      using m by (subst star_loop.simps) simp
    show ?thesis
    proof (cases "spos < length s \<and> char_fits c (s ! spos)")
      case True
      then have "star_loop s (spos + 1) p ppos c = Some (in_language ((c, True) # pattern_items (drop ppos p)) (drop (spos + 1) s))"
        using no m "2.prems" by (intro "2.IH"(2)) auto
      then show ?thesis using True run drop no by (simp add: in_language_star_Cons)
    next
      case False
      then show ?thesis using run drop no "2.prems"
        by (cases "spos < length s") (simp_all add: in_language_star_Cons in_language_star_Nil)
    qed
  qed
qed

lemma isMatch_language: "isMatch s p = Some (in_language (pattern_items p) s)"
  using match_language(1) [of 0 s 0 p] by (simp add: isMatch_def)

text \<open>A pattern as the problem means it: every star follows an element, and no star follows a star.\<close>

definition proper_pattern :: "string \<Rightarrow> bool" where
  "proper_pattern p \<longleftrightarrow> (\<forall>i<length p. p ! i = CHR ''*'' \<longrightarrow> 0 < i \<and> p ! (i - 1) \<noteq> CHR ''*'')"

lemma star2_loop_language:
  "j \<le> length s \<Longrightarrow> \<exists>j'. star2_loop s j c r = Some (in_language ((c, True) # pattern_items r) (drop j s), j')"
proof (induction s j c r rule: star2_loop.induct)
  case (1 s j c r)
  show ?case
  proof (cases "in_language (pattern_items r) (drop j s)")
    case True
    then show ?thesis using star_end [OF True] by (subst star2_loop.simps) (simp add: isMatch_language)
  next
    case False
    have drop: "j < length s \<Longrightarrow> drop j s = s ! j # drop (j + 1) s" by (simp add: Cons_nth_drop_Suc)
    then have run: "star2_loop s j c r =
        (if j < length s then if char_fits c (s ! j) then star2_loop s (j + 1) c r else Some (False, j + 1)
         else Some (False, j))"
      using False by (subst star2_loop.simps) (simp add: isMatch_language)
    show ?thesis
    proof (cases "j < length s \<and> char_fits c (s ! j)")
      case True
      then obtain j' where "star2_loop s (j + 1) c r = Some (in_language ((c, True) # pattern_items r) (drop (j + 1) s), j')"
        using "1.IH" [of False] False isMatch_language by auto
      then show ?thesis using True run drop False by (simp add: in_language_star_Cons)
    next
      case no: False
      then show ?thesis using run drop False "1.prems"
        by (cases "j < length s") (simp_all add: in_language_star_Cons in_language_star_Nil)
    qed
  qed
qed

lemma match2_loop_literal_star:
  assumes "CHR ''*'' \<notin> set s" "i < length p" "p ! i = CHR ''*''" "\<not> next_is_star p i"
  shows "match2_loop s p i j = Some False"
proof -
  have "j < length s \<Longrightarrow> s ! j \<noteq> CHR ''*''" using assms(1) nth_mem by metis
  then have "j < length s \<Longrightarrow> \<not> char_fits (p ! i) (s ! j)" using assms(3) by (simp add: char_fits_def)
  then show ?thesis using assms(2,4) by (subst match2_loop.simps) auto
qed

lemma match2_loop_language:
  assumes "CHR ''*'' \<notin> set s" "proper_pattern p"
  shows "j \<le> length s \<Longrightarrow> i \<le> length p \<Longrightarrow> i < length p \<longrightarrow> p ! i \<noteq> CHR ''*'' \<Longrightarrow>
    match2_loop s p i j = Some (in_language (pattern_items (drop i p)) (drop j s))"
proof (induction "length p - i" arbitrary: i j)
  case 0
  then show ?case by (subst match2_loop.simps) auto
next
  case (Suc d)
  then have i: "i < length p" by simp
  show ?case
  proof (cases "next_is_star p i")
    case True
    then have star: "i + 1 < length p" "p ! (i + 1) = CHR ''*''" by (auto simp: next_is_star_def)
    obtain j' where j': "star2_loop s j (p ! i) (drop (i + 2) p) = Some (in_language (pattern_items (drop i p)) (drop j s), j')"
      using star2_loop_language [of j s "p ! i" "drop (i + 2) p"] Suc.prems(1) items_star [OF star] by auto
    have "\<not> next_is_star p (i + 1)"
      using assms(2) star by (auto simp: next_is_star_def proper_pattern_def)
    then have "match2_loop s p (i + 1) (j' + 1) = Some False"
      using match2_loop_literal_star [OF assms(1)] star by blast
    then show ?thesis using True i j'
      by (subst match2_loop.simps) auto
  next
    case False
    then have nostar: "i + 1 < length p \<longrightarrow> p ! (i + 1) \<noteq> CHR ''*''" by (auto simp: next_is_star_def)
    have run: "match2_loop s p i j =
        (if j \<ge> length s \<or> \<not> char_fits (p ! i) (s ! j) then Some False else match2_loop s p (i + 1) (j + 1))"
      using i False by (subst match2_loop.simps) simp
    show ?thesis
    proof (cases "j < length s")
      case True
      then have "drop j s = s ! j # drop (j + 1) s" by (simp add: Cons_nth_drop_Suc)
      moreover have "match2_loop s p (i + 1) (j + 1) = Some (in_language (pattern_items (drop (i + 1) p)) (drop (j + 1) s))"
        using Suc nostar True i by (intro Suc.hyps(1)) auto
      ultimately show ?thesis using run True items_one [OF i False] by auto
    qed (use run items_one [OF i False] in simp)
  qed
qed

text \<open>
  C40: \<^verbatim>\<open>isMatch\<close> decides, for any two strings and without an access outside them, whether the
  string is in the language of the pattern. \<^verbatim>\<open>isMatch2\<close> does when every star of the pattern follows
  an element and the string has no star in it; on other strings it does not, because its inner loop
  has moved past the character that ended it when the next element is compared.
\<close>

theorem regex_matchers:
  "isMatch s p = Some (in_language (pattern_items p) s) \<and>
   (CHR ''*'' \<notin> set s \<and> proper_pattern p \<longrightarrow> isMatch2 s p = isMatch s p) \<and>
   isMatch2 ''xa*b'' ''a*b'' \<noteq> isMatch ''xa*b'' ''a*b''"
proof (intro conjI impI; (elim conjE)?)
  show "isMatch s p = Some (in_language (pattern_items p) s)" by (rule isMatch_language)
  show "isMatch2 s p = isMatch s p" if "CHR ''*'' \<notin> set s" "proper_pattern p"
  proof -
    have "0 < length p \<longrightarrow> p ! 0 \<noteq> CHR ''*''" using that(2) by (auto simp: proper_pattern_def)
    then show ?thesis
      using match2_loop_language [OF that, of 0 0] by (simp add: isMatch2_def isMatch_language)
  qed
  show "isMatch2 ''xa*b'' ''a*b'' \<noteq> isMatch ''xa*b'' ''a*b''"
    by (simp add: isMatch_language isMatch2_def match2_loop.simps star2_loop.simps next_is_star_def char_fits_def
        in_language_star_Cons in_language_star_Nil)
qed

theorem regex_matchers_witness:
  "isMatch2 ''aab'' ''c*a*b'' = isMatch ''aab'' ''c*a*b''"
proof -
  have "CHR ''*'' \<notin> set ''aab''" by simp
  moreover have "proper_pattern ''c*a*b''"
    by (simp add: proper_pattern_def All_less_Suc)
  ultimately show ?thesis using regex_matchers [of "''aab''" "''c*a*b''"] by blast
qed

end
