(* ===== verification/LcRob.thy ===== *)
theory LcRob
  imports Prelude
begin

text \<open>
  Choosing houses no two of which are neighbours (\<^verbatim>\<open>hobbies/leetcode/algorithms\<close>,
  \<^verbatim>\<open>solution_198\<close> in a row, by two dynamic programs, and \<^verbatim>\<open>solution_213\<close> in a circle), against the
  optimum over all choices. \<open>None\<close> is an access outside a vector; sums are \<open>int\<close>.
\<close>

section \<open>The programs\<close>

function rob_table :: "int list \<Rightarrow> int list \<Rightarrow> int \<Rightarrow> int list option" where
  "rob_table nums maxn i =
     (if i < size_of nums then do {
        x \<leftarrow> at nums i;
        v \<leftarrow> (if i \<ge> 3 then do {
                 a \<leftarrow> at maxn (i - 1); b \<leftarrow> at maxn (i - 2); c \<leftarrow> at maxn (i - 3);
                 Some (max a (max (x + b) (x + c))) }
               else if i \<ge> 2 then do { a \<leftarrow> at maxn (i - 1); b \<leftarrow> at maxn (i - 2); Some (max a (x + b)) }
               else if i \<ge> 1 then do { a \<leftarrow> at maxn (i - 1); Some (max a x) }
               else Some x);
        maxn' \<leftarrow> put_at maxn i v;
        rob_table nums maxn' (i + 1) }
      else Some maxn)"
  by pat_completeness auto
termination by (relation "measure (\<lambda>(n, m, i). nat (size_of n - i))") (auto simp: at_def split: if_splits)

definition rob :: "int list \<Rightarrow> int option" where
  "rob nums = do {
     maxn \<leftarrow> rob_table nums (replicate (length nums) 0) 0;
     if size_of nums > 0 then at maxn (size_of nums - 1) else Some 0 }"

function rob_loop :: "int list \<Rightarrow> int \<Rightarrow> int \<Rightarrow> int \<Rightarrow> int \<Rightarrow> int option" where
  "rob_loop nums i n max_prev_1 max_prev_2 =
     (if i < n then do {
        x \<leftarrow> at nums i;
        rob_loop nums (i + 1) n (max (max_prev_2 + x) max_prev_1) max_prev_1 }
      else Some max_prev_1)"
  by pat_completeness auto
termination by (relation "measure (\<lambda>(n, i, m, a, b). nat (m - i))") (auto simp: at_def split: if_splits)

definition rob2 :: "int list \<Rightarrow> int option" where
  "rob2 nums = rob_loop nums 0 (size_of nums) 0 0"

definition rob_circle :: "int list \<Rightarrow> int option" where
  "rob_circle nums =
     (if length nums = 1 then at nums 0
      else do {
        max_prev_1 \<leftarrow> rob_loop nums 0 (size_of nums - 1) 0 0;
        max_prev_t1 \<leftarrow> rob_loop nums 1 (size_of nums) 0 0;
        Some (max max_prev_1 max_prev_t1) })"

declare rob_table.simps [simp del] rob_loop.simps [simp del]

section \<open>The optimum\<close>

definition choices :: "nat \<Rightarrow> nat set set" where
  \<comment> \<open>sets of the first \<open>n\<close> houses without neighbours\<close>
  "choices n = {S. S \<subseteq> {..<n} \<and> (\<forall>i\<in>S. Suc i \<notin> S)}"

definition loot :: "int list \<Rightarrow> nat set \<Rightarrow> int" where
  "loot nums S = (\<Sum>i\<in>S. nums ! i)"

definition best :: "int list \<Rightarrow> nat \<Rightarrow> int" where
  "best nums n = Max (loot nums ` choices n)"

lemma choices_finite [simp]: "finite (choices n)"
  by (rule finite_subset [of _ "Pow {..<n}"]) (auto simp: choices_def)

lemma choices_empty [simp]: "{} \<in> choices n"
  by (simp add: choices_def)

lemma choices_nonempty [simp]: "choices n \<noteq> {}"
  using choices_empty by blast

lemma choices_0 [simp]: "choices 0 = {{}}"
  by (auto simp: choices_def)

lemma choices_1 [simp]: "choices (Suc 0) = {{}, {0}}"
  by (auto simp: choices_def lessThan_Suc)

lemma choices_Suc_Suc: "choices (Suc (Suc n)) = choices (Suc n) \<union> insert (Suc n) ` choices n"
proof (intro equalityI subsetI)
  fix S
  assume S: "S \<in> choices (Suc (Suc n))"
  show "S \<in> choices (Suc n) \<union> insert (Suc n) ` choices n"
  proof (cases "Suc n \<in> S")
    case True
    then have "n \<notin> S" using S by (auto simp: choices_def)
    moreover have "i < n" if "i \<in> S" "i \<noteq> Suc n" for i
    proof -
      have "i < Suc (Suc n)" using S that by (auto simp: choices_def)
      then show ?thesis using that \<open>n \<notin> S\<close> by (cases "i = n") auto
    qed
    ultimately have "S - {Suc n} \<in> choices n" using S by (auto simp: choices_def)
    moreover have "S = insert (Suc n) (S - {Suc n})" using True by auto
    ultimately show ?thesis by blast
  next
    case False
    then show ?thesis using S by (auto simp: choices_def less_Suc_eq)
  qed
qed (auto simp: choices_def)

lemma loot_insert: "S \<in> choices n \<Longrightarrow> loot nums (insert (Suc n) S) = loot nums S + nums ! Suc n"
proof -
  assume "S \<in> choices n"
  then have "finite S" "Suc n \<notin> S" by (auto simp: choices_def dest: finite_subset)
  then show ?thesis by (simp add: loot_def)
qed

lemma best_0 [simp]: "best nums 0 = 0"
  by (simp add: best_def loot_def)

lemma best_1 [simp]: "best nums (Suc 0) = max 0 (nums ! 0)"
  by (simp add: best_def loot_def)

lemma best_Suc_Suc: "best nums (Suc (Suc n)) = max (best nums n + nums ! Suc n) (best nums (Suc n))"
proof -
  have "loot nums ` insert (Suc n) ` choices n = (\<lambda>v. v + nums ! Suc n) ` loot nums ` choices n"
    unfolding image_image by (rule image_cong) (simp_all add: loot_insert)
  moreover have "Max ((\<lambda>v. v + nums ! Suc n) ` loot nums ` choices n) = best nums n + nums ! Suc n"
    unfolding best_def
    by (subst mono_Max_commute [where f = "\<lambda>v. v + nums ! Suc n", symmetric])
      (auto simp: mono_def)
  ultimately show ?thesis
    unfolding best_def choices_Suc_Suc image_Un
    by (subst Max_Un) (auto simp: best_def max.commute)
qed

lemma best_step: "max ((if n = 0 then 0 else best nums (n - 1)) + nums ! n) (best nums n) = best nums (Suc n)"
  by (cases n) (simp_all add: best_Suc_Suc max.commute)

lemma best_mono: "best nums n \<le> best nums (Suc n)"
  using best_step [of n nums] by (metis max.cobounded2)

lemma rob_loop_best:
  assumes "i \<le> n" "m + n \<le> length nums"
  shows "rob_loop nums (int (m + i)) (int (m + n)) (best (drop m nums) i) (if i = 0 then 0 else best (drop m nums) (i - 1)) =
    Some (best (drop m nums) n)"
  using assms
proof (induction "n - i" arbitrary: i)
  case 0
  then show ?case by (subst rob_loop.simps) simp
next
  case (Suc d)
  then have i: "i < n" by simp
  then have "nums ! (m + i) = drop m nums ! i" "m + i < length nums" using Suc.prems by simp_all
  then have "rob_loop nums (int (m + i)) (int (m + n)) (best (drop m nums) i) (if i = 0 then 0 else best (drop m nums) (i - 1)) =
      rob_loop nums (int (m + Suc i)) (int (m + n)) (best (drop m nums) (Suc i)) (best (drop m nums) i)"
    using i best_step [of i "drop m nums"] at_nat [of "m + i" nums]
    by (subst rob_loop.simps) (simp add: ac_simps)
  then show ?case using Suc.hyps(1) [of "Suc i"] Suc.hyps(2) Suc.prems i by simp
qed

lemma rob2_best: "rob2 nums = Some (best nums (length nums))"
  using rob_loop_best [of 0 "length nums" 0 nums] by (simp add: rob2_def)

lemma best_nonneg: "0 \<le> best nums n"
  using best_mono [of nums] by (induction n) (auto intro: order.trans)

lemma rob_table_best:
  assumes "\<forall>x\<in>set nums. 0 \<le> x" "length maxn = length nums" "i \<le> length nums" "\<forall>k<i. maxn ! k = best nums (Suc k)"
  shows "\<exists>t. rob_table nums maxn (int i) = Some t \<and> length t = length nums \<and> (\<forall>k<length nums. t ! k = best nums (Suc k))"
  using assms(2-)
proof (induction "length nums - i" arbitrary: i maxn)
  case 0
  then show ?case by (subst rob_table.simps) simp
next
  case (Suc d)
  then have i: "i < length nums" by simp
  have x: "0 \<le> nums ! i" using assms(1) i by simp
  let ?t = "maxn[i := best nums (Suc i)]"
  have run: "rob_table nums maxn (int i) = rob_table nums ?t (int (Suc i))"
  proof -
    have at0: "at maxn 0 = Some (maxn ! 0)" using i Suc.prems(1) by (cases maxn) (auto simp: at_def)
    consider "i = 0" | "i = 1" | "i = 2" | j where "i = Suc (Suc (Suc j))"
      by (metis One_nat_def Suc_1 not0_implies_Suc)
    then show ?thesis
    proof cases
      case 1
      then show ?thesis using i x Suc.prems(1) by (subst rob_table.simps) (simp add: max_def)
    next
      case 2
      then show ?thesis using i x Suc.prems by (subst rob_table.simps) (simp add: at0 best_Suc_Suc max.commute)
    next
      case 3
      then show ?thesis using i x Suc.prems best_Suc_Suc [of nums 1]
        by (subst rob_table.simps) (simp add: at0 max.commute add.commute numeral_2_eq_2)
    next
      case (4 j)
      have "best nums (Suc j) \<le> best nums (Suc (Suc j))" by (rule best_mono)
      then have "max (best nums i) (max (nums ! i + best nums (Suc (Suc j))) (nums ! i + best nums (Suc j))) = best nums (Suc i)"
        by (simp add: 4 best_Suc_Suc [of nums "Suc (Suc j)"] max_def)
      moreover have "at maxn (int i - 1) = Some (best nums i)" "at maxn (int i - 2) = Some (best nums (Suc (Suc j)))"
        "at maxn (int i - 3) = Some (best nums (Suc j))"
        using Suc.prems i 4 at_nat [of "Suc (Suc j)" maxn] at_nat [of "Suc j" maxn] at_nat [of j maxn]
        by (simp_all add: algebra_simps)
      moreover have "3 \<le> int i" using 4 by simp
      ultimately show ?thesis using i Suc.prems(1) by (subst rob_table.simps) (simp add: add.commute)
    qed
  qed
  have "\<forall>k<Suc i. ?t ! k = best nums (Suc k)" using Suc.prems i by (simp add: nth_list_update less_Suc_eq)
  then show ?case using Suc.hyps(1) [of "Suc i" ?t] Suc.hyps(2) Suc.prems(1) i run by simp
qed

lemma rob_best:
  assumes "\<forall>x\<in>set nums. 0 \<le> x"
  shows "rob nums = Some (best nums (length nums))"
proof (cases "nums = []")
  case True
  then show ?thesis by (simp add: rob_def rob_table.simps)
next
  case False
  then obtain n where n: "length nums = Suc n" by (cases nums) auto
  obtain t where t: "rob_table nums (replicate (length nums) 0) 0 = Some t" "length t = length nums"
    "\<forall>k<length nums. t ! k = best nums (Suc k)"
    using rob_table_best [OF assms, of "replicate (length nums) 0" 0] by auto
  have "at t (size_of nums - 1) = Some (t ! n)" using at_nat [of n t] t(2) n by simp
  then show ?thesis using t n False by (simp add: rob_def)
qed

section \<open>The circle\<close>

text \<open>In a circle of at least two houses the first and the last are neighbours as well.\<close>

definition circle_choices :: "nat \<Rightarrow> nat set set" where
  "circle_choices n = {S \<in> choices n. \<not> (0 \<in> S \<and> n - 1 \<in> S)}"

lemma choices_shift: "{S \<in> choices (Suc n). 0 \<notin> S} = (image Suc) ` choices n"
proof (intro equalityI subsetI)
  fix S
  assume S: "S \<in> {S \<in> choices (Suc n). 0 \<notin> S}"
  let ?T = "{i. Suc i \<in> S}"
  have "S = Suc ` ?T"
  proof (intro equalityI subsetI)
    fix i
    assume "i \<in> S"
    then show "i \<in> Suc ` ?T" using S by (cases i) auto
  qed auto
  moreover have "?T \<in> choices n" using S by (auto simp: choices_def)
  ultimately show "S \<in> image Suc ` choices n" by blast
qed (auto simp: choices_def)

lemma circle_split: "n > 0 \<Longrightarrow> circle_choices (Suc n) = choices n \<union> image Suc ` choices n"
  unfolding choices_shift [symmetric] by (auto simp: circle_choices_def choices_def less_Suc_eq)

lemma loot_shift: "loot nums (Suc ` S) = loot (drop 1 nums) S" if "S \<subseteq> {..<length nums - 1}"
proof -
  have "loot nums (Suc ` S) = (\<Sum>i\<in>S. nums ! Suc i)" by (simp add: loot_def sum.reindex)
  also have "\<dots> = loot (drop 1 nums) S" unfolding loot_def
  proof (rule sum.cong)
    fix i
    assume "i \<in> S"
    then have "i < length nums - 1" using that by auto
    then show "nums ! Suc i = drop 1 nums ! i" by simp
  qed simp
  finally show ?thesis .
qed

lemma circle_best:
  assumes "length nums = Suc n" "n > 0"
  shows "Max (loot nums ` circle_choices (Suc n)) = max (best nums n) (best (drop 1 nums) n)"
proof -
  have "loot nums ` image Suc ` choices n = loot (drop 1 nums) ` choices n"
    unfolding image_image
  proof (rule image_cong)
    fix S
    assume "S \<in> choices n"
    then show "loot nums (Suc ` S) = loot (drop 1 nums) S"
      using assms by (intro loot_shift) (auto simp: choices_def)
  qed simp
  then show ?thesis
    unfolding circle_split [OF assms(2)] image_Un best_def by (subst Max_Un) auto
qed

text \<open>
  Both dynamic programs for houses in a row return the greatest sum over sets of houses
  without neighbours: the one with two variables for any numbers, the one with a table when no
  number is negative. In a circle the program returns the greatest sum over sets that also do not
  contain both ends, and the number itself for a single house. No access is outside a vector.
\<close>

theorem robbers_optimal:
  "rob2 nums = Some (best nums (length nums)) \<and>
   ((\<forall>x\<in>set nums. 0 \<le> x) \<longrightarrow> rob nums = rob2 nums) \<and>
   (length nums \<ge> 2 \<longrightarrow> rob_circle nums = Some (Max (loot nums ` circle_choices (length nums)))) \<and>
   rob_circle [x] = Some x \<and> rob_circle [] = Some 0"
proof (intro conjI impI)
  show "rob2 nums = Some (best nums (length nums))" by (rule rob2_best)
  show "rob nums = rob2 nums" if "\<forall>x\<in>set nums. 0 \<le> x" using rob_best [OF that] rob2_best by simp
  show "rob_circle nums = Some (Max (loot nums ` circle_choices (length nums)))" if "length nums \<ge> 2"
  proof -
    define n where "n = length nums - 1"
    have n: "length nums = Suc n" "n > 0" using that by (simp_all add: n_def)
    have "rob_loop nums 0 (size_of nums - 1) 0 0 = Some (best nums n)"
      using rob_loop_best [of 0 n 0 nums] n by simp
    moreover have "rob_loop nums 1 (size_of nums) 0 0 = Some (best (drop 1 nums) n)"
      using rob_loop_best [of 0 n 1 nums] n by simp
    ultimately show ?thesis using circle_best [OF n] n that by (simp add: rob_circle_def)
  qed
  show "rob_circle [x] = Some x" "rob_circle [] = Some 0"
    by (simp_all add: rob_circle_def rob_loop.simps at_def)
qed

theorem robbers_optimal_witness:
  "rob [15, 4, 6] = rob2 [15, 4, 6] \<and>
   rob_circle [15, 4, 6] = Some (Max (loot [15, 4, 6] ` circle_choices (length [15, 4, 6 :: int])))"
  using robbers_optimal [of "[15, 4, 6]" 0] by simp

end
