(* ===== verification/LcCoins.thy ===== *)
theory LcCoins
  imports Prelude
begin

text \<open>
  The fewest coins for an amount (\<^verbatim>\<open>hobbies/leetcode/algorithms/solution_322\<close>): a search from the
  largest coin down that stops when it cannot get better, and a dynamic program. The range of
  iterators of the search is the list of the coins in it. \<open>None\<close> is a division by zero or an access
  outside the table; numbers are \<open>int\<close>.
\<close>

section \<open>The programs\<close>

function coin_search :: "int list \<Rightarrow> int \<Rightarrow> int option"
  and coin_loop :: "int list \<Rightarrow> int \<Rightarrow> int \<Rightarrow> int \<Rightarrow> int option" where
  "coin_search coins v =
     (if v = 0 then Some 0
      else if coins = [] then Some (- 1)
      else if last coins = 0 then None
      else
        let steps = cdiv v (last coins) in
        if cmod v (last coins) = 0 then Some steps else coin_loop coins v steps (v + 1))"
| "coin_loop coins v k mink =
     (if k \<ge> 0 \<and> coins \<noteq> [] then
        let x = v - k * last coins; rest = butlast coins in
        if rest \<noteq> [] \<and> last rest = 0 then None
        else if rest \<noteq> [] \<and> k + cdiv (x + last rest - 1) (last rest) \<ge> mink then Some (if mink > v then - 1 else mink)
        else
          case coin_search rest x of None \<Rightarrow> None
          | Some n \<Rightarrow> coin_loop coins v (k - 1) (if n \<ge> 0 then min mink (n + k) else mink)
      else Some (if mink > v then - 1 else mink))"
  by pat_completeness auto
termination
  by (relation "measures [\<lambda>x. case x of Inl (cs, v) \<Rightarrow> 2 * length cs | Inr (cs, v, k, m) \<Rightarrow> 2 * length cs - 1,
        \<lambda>x. case x of Inl (cs, v) \<Rightarrow> 0 | Inr (cs, v, k, m) \<Rightarrow> nat (k + 1)]")
    (auto simp: neq_Nil_conv)

definition coinChange :: "int list \<Rightarrow> int \<Rightarrow> int option" where
  "coinChange coins amount = coin_search (sort coins) amount"

primrec coins_inner :: "int list \<Rightarrow> int \<Rightarrow> int list \<Rightarrow> int list option" where
  "coins_inner [] i steps = Some steps"
| "coins_inner (c # cs) i steps =
     (if c \<le> i then do {
        a \<leftarrow> at steps (i - c);
        b \<leftarrow> at steps i;
        steps' \<leftarrow> put_at steps i (min (a + 1) b);
        coins_inner cs i steps' }
      else coins_inner cs i steps)"

function coins_outer :: "int list \<Rightarrow> int \<Rightarrow> int \<Rightarrow> int list \<Rightarrow> int list option" where
  "coins_outer coins i amount steps =
     (if i < amount + 1 then
        case coins_inner coins i steps of None \<Rightarrow> None | Some steps' \<Rightarrow> coins_outer coins (i + 1) amount steps'
      else Some steps)"
  by pat_completeness auto
termination by (relation "measure (\<lambda>(c, i, a, s). nat (a + 1 - i))") auto

definition coinChangeDP :: "int list \<Rightarrow> int \<Rightarrow> int option" where
  "coinChangeDP coins amount = do {
     steps0 \<leftarrow> put_at (replicate (nat (amount + 1)) (amount + 1)) 0 0;
     steps \<leftarrow> coins_outer coins 1 amount steps0;
     s \<leftarrow> at steps amount;
     Some (if s > amount then - 1 else s) }"

declare coin_search.simps [simp del] coin_loop.simps [simp del] coins_outer.simps [simp del]

section \<open>Amounts and the number of coins\<close>

definition pays :: "int list \<Rightarrow> nat \<Rightarrow> int \<Rightarrow> bool" where
  \<comment> \<open>\<open>v\<close> is the sum of \<open>m\<close> coins\<close>
  "pays coins m v \<longleftrightarrow> (\<exists>M. set_mset M \<subseteq> set coins \<and> size M = m \<and> sum_mset M = v)"

definition fewest :: "int list \<Rightarrow> int \<Rightarrow> int \<Rightarrow> bool" where
  \<comment> \<open>the number of coins the problem asks for, or \<open>-1\<close>\<close>
  "fewest coins v r \<longleftrightarrow>
     (r = - 1 \<and> (\<forall>m. \<not> pays coins m v)) \<or> (0 \<le> r \<and> pays coins (nat r) v \<and> (\<forall>m. pays coins m v \<longrightarrow> r \<le> int m))"

abbreviation proper_coins :: "int list \<Rightarrow> bool" where
  "proper_coins coins \<equiv> \<forall>c\<in>set coins. 0 < c"

lemma pays_0 [simp]: "pays coins 0 v \<longleftrightarrow> v = 0"
  by (auto simp: pays_def)

lemma pays_Nil [simp]: "pays [] m v \<longleftrightarrow> m = 0 \<and> v = 0"
  by (auto simp: pays_def)

lemma sum_mset_bounds: "\<forall>c\<in>set_mset M. a \<le> c \<and> c \<le> b \<Longrightarrow> int (size M) * a \<le> sum_mset M \<and> sum_mset M \<le> int (size M) * b"
  for a b :: int
  by (induction M) (auto simp: algebra_simps)

lemma pays_bounds:
  assumes "pays coins m v" "proper_coins coins"
  shows "int m \<le> v" "\<forall>c\<in>set coins. c \<le> y \<Longrightarrow> v \<le> int m * y"
proof -
  obtain M where M: "set_mset M \<subseteq> set coins" "size M = m" "sum_mset M = v" using assms(1) by (auto simp: pays_def)
  have "\<forall>c\<in>set_mset M. 1 \<le> c \<and> c \<le> Max (insert 1 (set coins))" using M(1) assms(2) by force
  then show "int m \<le> v" using sum_mset_bounds [of M 1] M(2,3) by auto
  show "v \<le> int m * y" if "\<forall>c\<in>set coins. c \<le> y"
    using sum_mset_bounds [of M 1 y] M that assms(2) by force
qed

lemma pays_Suc: "pays coins (Suc m) v \<longleftrightarrow> (\<exists>c\<in>set coins. pays coins m (v - c))"
proof
  assume "pays coins (Suc m) v"
  then obtain M where M: "set_mset M \<subseteq> set coins" "size M = Suc m" "sum_mset M = v" by (auto simp: pays_def)
  then obtain c N where "M = add_mset c N" by (metis size_eq_Suc_imp_eq_union)
  then have "c \<in> set coins" "pays coins m (v - c)" using M by (auto simp: pays_def intro!: exI [of _ N])
  then show "\<exists>c\<in>set coins. pays coins m (v - c)" by blast
next
  assume "\<exists>c\<in>set coins. pays coins m (v - c)"
  then obtain c M where "c \<in> set coins" "set_mset M \<subseteq> set coins" "size M = m" "sum_mset M = v - c" by (auto simp: pays_def)
  then show "pays coins (Suc m) v" unfolding pays_def by (intro exI [of _ "add_mset c M"]) auto
qed

text \<open>Splitting off the copies of one coin.\<close>

lemma pays_snoc: "pays (ds @ [l]) m v \<longleftrightarrow> (\<exists>j\<le>m. pays ds (m - j) (v - int j * l))"
proof
  assume "pays (ds @ [l]) m v"
  then obtain M where M: "set_mset M \<subseteq> insert l (set ds)" "size M = m" "sum_mset M = v" by (auto simp: pays_def)
  let ?j = "count M l"
  have split: "M = filter_mset (\<lambda>x. x \<noteq> l) M + replicate_mset ?j l"
    by (rule multiset_eqI) auto
  have "size M = size (filter_mset (\<lambda>x. x \<noteq> l) M) + ?j" by (subst (1) split) simp
  moreover have "sum_mset M = sum_mset (filter_mset (\<lambda>x. x \<noteq> l) M) + int ?j * l" by (subst (1) split) simp
  moreover have "set_mset (filter_mset (\<lambda>x. x \<noteq> l) M) \<subseteq> set ds" using M(1) by auto
  ultimately show "\<exists>j\<le>m. pays ds (m - j) (v - int j * l)"
    using M(2,3) unfolding pays_def by (intro exI [of _ ?j] conjI exI [of _ "filter_mset (\<lambda>x. x \<noteq> l) M"]) auto
next
  assume "\<exists>j\<le>m. pays ds (m - j) (v - int j * l)"
  then obtain j M where "j \<le> m" "set_mset M \<subseteq> set ds" "size M = m - j" "sum_mset M = v - int j * l" by (auto simp: pays_def)
  then show "pays (ds @ [l]) m v" unfolding pays_def
    by (intro exI [of _ "M + replicate_mset j l"]) (auto dest: in_replicate_mset [THEN iffD1])
qed

section \<open>The search\<close>

text \<open>
  A candidate \<open>mink\<close>: the number of coins of some payment, or \<open>v + 1\<close> as long as none is known, and
  no greater than that of any payment with more than \<open>k\<close> of the largest coin.
\<close>

definition candidate :: "int list \<Rightarrow> int \<Rightarrow> int \<Rightarrow> int \<Rightarrow> bool" where
  "candidate coins v k mink \<longleftrightarrow>
     (mink = v + 1 \<or> 0 \<le> mink \<and> pays coins (nat mink) v) \<and>
     (\<forall>j m. k < int j \<and> pays (butlast coins) m (v - int j * last coins) \<longrightarrow> mink \<le> int j + int m)"

lemma candidate_final:
  assumes "candidate coins v (- 1) mink" "proper_coins coins" "coins \<noteq> []"
  shows "fewest coins v (if mink > v then - 1 else mink)"
proof -
  have le: "mink \<le> int m" if p: "pays coins m v" for m
  proof -
    have "pays (butlast coins @ [last coins]) m v" using p assms(3) by simp
    then obtain j where "j \<le> m" "pays (butlast coins) (m - j) (v - int j * last coins)"
      unfolding pays_snoc by blast
    then have "mink \<le> int j + int (m - j)" using assms(1) unfolding candidate_def by fastforce
    then show ?thesis using \<open>j \<le> m\<close> by simp
  qed
  show ?thesis
  proof (cases "mink > v")
    case True
    have "\<not> pays coins m v" for m
      using le [of m] pays_bounds(1) [of coins m v] assms(2) True by force
    then show ?thesis using True by (simp add: fewest_def)
  next
    case False
    then show ?thesis using assms(1) le by (auto simp: candidate_def fewest_def)
  qed
qed

lemma candidate_step:
  assumes "candidate coins v k mink" "coins \<noteq> []" "fewest (butlast coins) (v - k * last coins) n" "0 \<le> k"
  shows "candidate coins v (k - 1) (if n \<ge> 0 then min mink (n + k) else mink)"
proof -
  let ?x = "v - k * last coins" and ?m = "if n \<ge> 0 then min mink (n + k) else mink"
  have ind: "?m = v + 1 \<or> 0 \<le> ?m \<and> pays coins (nat ?m) v"
  proof (cases "n \<ge> 0 \<and> n + k < mink")
    case True
    then have "pays (butlast coins) (nat n) ?x" using assms(3) by (auto simp: fewest_def)
    then have "pays (butlast coins @ [last coins]) (nat (n + k)) v"
      unfolding pays_snoc using True assms(4) by (intro exI [of _ "nat k"]) (auto simp: nat_add_distrib)
    then show ?thesis using True assms(2,4) by simp
  next
    case False
    then show ?thesis using assms(1) by (auto simp: candidate_def min_def)
  qed
  have low: "?m \<le> int j + int m" if j: "k - 1 < int j" "pays (butlast coins) m (v - int j * last coins)" for j m
  proof (cases "int j = k")
    case True
    then have "n \<le> int m" "0 \<le> n" using assms(3) j(2) by (auto simp: fewest_def)
    then show ?thesis using True by auto
  next
    case False
    then have "mink \<le> int j + int m" using assms(1) j by (auto simp: candidate_def)
    then show ?thesis by auto
  qed
  show ?thesis unfolding candidate_def using ind low by blast
qed

text \<open>Stopping early: fewer of the largest coin cannot give fewer coins.\<close>

lemma ceil_div: "0 < y \<Longrightarrow> (x::int) \<le> m * y \<Longrightarrow> (x + y - 1) div y \<le> m"
proof -
  assume y: "0 < y" and x: "x \<le> m * y"
  have "(x + y - 1) div y \<le> (m * y + (y - 1)) div y" using x y by (intro zdiv_mono1) auto
  also have "\<dots> = m" using y by simp
  finally show ?thesis .
qed

lemma candidate_stop:
  assumes "candidate coins v k mink" "coins \<noteq> []" "butlast coins \<noteq> []" "sorted coins" "proper_coins coins"
    and stop: "k + (v - k * last coins + last (butlast coins) - 1) div last (butlast coins) \<ge> mink"
  shows "candidate coins v (- 1) mink"
proof -
  let ?l = "last coins" and ?y = "last (butlast coins)"
  have coins: "coins = butlast coins @ [?l]" using assms(2) by simp
  have y: "0 < ?y" "?y \<le> ?l" "\<forall>c\<in>set (butlast coins). c \<le> ?y" "proper_coins (butlast coins)"
  proof -
    have "?y \<in> set (butlast coins)" using assms(3) by simp
    then show "0 < ?y" using assms(5) in_set_butlastD by metis
    have "sorted (butlast coins @ [?l])" using assms(4) coins by simp
    then show "?y \<le> ?l" using \<open>?y \<in> set (butlast coins)\<close> by (simp add: sorted_append)
    have "sorted (butlast coins)" using \<open>sorted (butlast coins @ [?l])\<close> by (simp add: sorted_append)
    moreover obtain es where "butlast coins = es @ [?y]" using assms(3) by (metis append_butlast_last_id)
    ultimately show "\<forall>c\<in>set (butlast coins). c \<le> ?y" by (metis sorted_append Un_iff empty_iff empty_set list.set(2) set_append insert_iff order_refl)
    show "proper_coins (butlast coins)" using assms(5) by (auto dest: in_set_butlastD)
  qed
  have "mink \<le> int j + int m" if p: "pays (butlast coins) m (v - int j * ?l)" and "int j \<le> k" for j m
  proof -
    have "v - int j * ?l \<le> int m * ?y" using pays_bounds(2) [OF p y(4,3)] .
    moreover have "(k - int j) * ?y \<le> (k - int j) * ?l" using y(2) that(2) by (intro mult_left_mono) auto
    ultimately have "v - k * ?l \<le> (int m - (k - int j)) * ?y" by (simp add: algebra_simps)
    then have "(v - k * ?l + ?y - 1) div ?y \<le> int m - (k - int j)" by (rule ceil_div [OF y(1)])
    then show ?thesis using stop by simp
  qed
  then show ?thesis using assms(1) unfolding candidate_def by (metis linorder_not_le)
qed

lemma coin_loop_fewest:
  assumes rest: "\<And>x. 0 \<le> x \<Longrightarrow> \<exists>n. coin_search (butlast coins) x = Some n \<and> fewest (butlast coins) x n"
    and coins: "coins \<noteq> []" "sorted coins" "proper_coins coins"
  shows "- 1 \<le> k \<Longrightarrow> k * last coins \<le> v \<Longrightarrow> candidate coins v k mink \<Longrightarrow>
    \<exists>r. coin_loop coins v k mink = Some r \<and> fewest coins v r"
proof (induction "nat (k + 1)" arbitrary: k mink)
  case 0
  then have "k = - 1" by simp
  then show ?case using candidate_final [of coins v mink] 0 coins by (subst coin_loop.simps) auto
next
  case (Suc d)
  then have k: "0 \<le> k" by simp
  let ?x = "v - k * last coins" and ?y = "last (butlast coins)"
  have l: "0 < last coins" using coins by simp
  have x: "0 \<le> ?x" using Suc.prems(2) by simp
  have y: "butlast coins \<noteq> [] \<Longrightarrow> 0 < ?y" using coins(3) by (metis in_set_butlastD last_in_set)
  obtain n where n: "coin_search (butlast coins) ?x = Some n" "fewest (butlast coins) ?x n" using rest [OF x] by blast
  show ?case
  proof (cases "butlast coins \<noteq> [] \<and> k + cdiv (?x + ?y - 1) ?y \<ge> mink")
    case True
    then have "0 < ?y" using y by blast
    then have "cdiv (?x + ?y - 1) ?y = (?x + ?y - 1) div ?y" using x by simp
    then have "candidate coins v (- 1) mink"
      using candidate_stop [OF Suc.prems(3) coins(1) _ coins(2,3)] True by simp
    then have "fewest coins v (if mink > v then - 1 else mink)" using candidate_final coins by blast
    then show ?thesis using True k coins(1) \<open>0 < ?y\<close> by (subst coin_loop.simps) (simp add: Let_def)
  next
    case False
    let ?m = "if n \<ge> 0 then min mink (n + k) else mink"
    have "coin_loop coins v k mink = coin_loop coins v (k - 1) ?m"
      using False y k coins(1) n(1) by (subst coin_loop.simps) (auto simp: Let_def)
    moreover have "(k - 1) * last coins \<le> v" using Suc.prems(2) l by (simp add: algebra_simps)
    ultimately show ?thesis
      using Suc.hyps(1) [of "k - 1" ?m] Suc.hyps(2) k candidate_step [OF Suc.prems(3) coins(1) n(2) k] by auto
  qed
qed

lemma coin_search_fewest:
  "sorted coins \<Longrightarrow> proper_coins coins \<Longrightarrow> 0 \<le> v \<Longrightarrow> \<exists>r. coin_search coins v = Some r \<and> fewest coins v r"
proof (induction "length coins" arbitrary: coins v)
  case 0
  then show ?case by (subst coin_search.simps) (auto simp: fewest_def)
next
  case (Suc d)
  then have ne: "coins \<noteq> []" by auto
  have coins: "coins = butlast coins @ [last coins]" using ne by simp
  have l: "0 < last coins" using Suc.prems(2) ne by simp
  have butlast: "sorted (butlast coins)" "proper_coins (butlast coins)"
    using Suc.prems(1,2) coins by (metis sorted_append, auto dest: in_set_butlastD)
  show ?case
  proof (cases "v mod last coins = 0")
    case True
    let ?q = "v div last coins"
    have v: "v = ?q * last coins" using True by auto
    have q: "0 \<le> ?q" using l Suc.prems(3) by (simp add: pos_imp_zdiv_nonneg_iff)
    have "pays coins (nat ?q) v" unfolding pays_def
      using q v ne by (intro exI [of _ "replicate_mset (nat ?q) (last coins)"]) (auto dest: in_replicate_mset [THEN iffD1])
    moreover have "?q \<le> int m" if "pays coins m v" for m
    proof -
      have "\<forall>c\<in>set coins. c \<le> last coins"
        using Suc.prems(1) coins by (metis sorted_append Un_iff empty_iff empty_set insert_iff list.set(2) list.set_intros(1) order_refl set_append)
      then have "v \<le> int m * last coins" using pays_bounds(2) [OF that Suc.prems(2)] by blast
      then have "?q * last coins \<le> int m * last coins" using v by simp
      then show ?thesis using l by simp
    qed
    ultimately have "fewest coins v ?q" using q by (simp add: fewest_def)
    then show ?thesis using ne l True Suc.prems(3)
      by (subst coin_search.simps) (auto simp: Let_def)
  next
    case False
    let ?k = "v div last coins"
    have k: "0 \<le> ?k" "?k * last coins \<le> v"
      using l Suc.prems(3) by (simp_all add: pos_imp_zdiv_nonneg_iff) (metis div_mult_mod_eq le_add_same_cancel1 pos_mod_sign)
    have "candidate coins v ?k (v + 1)"
      unfolding candidate_def
    proof (intro conjI allI impI; (elim conjE)?)
      fix j m
      assume j: "?k < int j" and p: "pays (butlast coins) m (v - int j * last coins)"
      have "v < (?k + 1) * last coins"
        using pos_mod_bound [OF l, of v] div_mult_mod_eq [of v "last coins"] unfolding distrib_right mult_1 by linarith
      also have "\<dots> \<le> int j * last coins" using j l by (intro mult_right_mono) auto
      finally have "v < int j * last coins" .
      then show "v + 1 \<le> int j + int m" using pays_bounds(1) [OF p butlast(2)] by simp
    qed simp
    moreover have "\<exists>n. coin_search (butlast coins) x = Some n \<and> fewest (butlast coins) x n" if "0 \<le> x" for x
      using Suc.hyps(1) [of "butlast coins" x] Suc.hyps(2) butlast that by simp
    ultimately have "\<exists>r. coin_loop coins v ?k (v + 1) = Some r \<and> fewest coins v r"
      using coin_loop_fewest [of coins ?k v "v + 1"] ne Suc.prems(1,2) k by auto
    moreover have "v \<noteq> 0" using False by auto
    ultimately show ?thesis using ne l False Suc.prems(3) by (subst coin_search.simps) (simp add: Let_def)
  qed
qed

section \<open>The dynamic program\<close>

definition coin_cell :: "int list \<Rightarrow> int \<Rightarrow> nat \<Rightarrow> int \<Rightarrow> bool" where
  \<comment> \<open>what the table holds for the amount \<open>i\<close> when it is finished\<close>
  "coin_cell coins amount i x \<longleftrightarrow>
     (x = amount + 1 \<and> (\<forall>m. \<not> pays coins m (int i))) \<or>
     (0 \<le> x \<and> pays coins (nat x) (int i) \<and> (\<forall>m. pays coins m (int i) \<longrightarrow> x \<le> int m))"

definition open_cell :: "int list \<Rightarrow> int list \<Rightarrow> int \<Rightarrow> nat \<Rightarrow> int \<Rightarrow> bool" where
  \<comment> \<open>what it holds once the coins \<open>cs\<close> have been tried\<close>
  "open_cell coins cs amount i x \<longleftrightarrow>
     (x = amount + 1 \<or> 0 \<le> x \<and> pays coins (nat x) (int i)) \<and> x \<le> amount + 1 \<and>
     (\<forall>c\<in>set cs. \<forall>m. pays coins m (int i - c) \<longrightarrow> x \<le> int m + 1)"

lemma open_cell_closed:
  assumes "open_cell coins coins amount i x" "0 < i" "int i \<le> amount" "proper_coins coins"
  shows "coin_cell coins amount i x"
proof -
  have low: "x \<le> int m" if p: "pays coins m (int i)" for m
  proof (cases m)
    case 0
    then show ?thesis using p assms(2) by simp
  next
    case (Suc m')
    then obtain c where "c \<in> set coins" "pays coins m' (int i - c)" using p pays_Suc [of coins m' "int i"] by auto
    then show ?thesis using assms(1) Suc by (fastforce simp: open_cell_def)
  qed
  have "m \<le> nat amount" if "pays coins m (int i)" for m
    using pays_bounds(1) [OF that assms(4)] assms(3) by linarith
  then show ?thesis
    using assms(1,3) low unfolding open_cell_def coin_cell_def by (cases "x = amount + 1") force+
qed

lemma coins_inner_cell:
  assumes "length steps = nat amount + 1" "0 < i" "int i \<le> amount" "proper_coins coins" "set cs \<subseteq> set coins"
    "\<forall>k<i. coin_cell coins amount k (steps ! k)" "open_cell coins tried amount i (steps ! i)"
  shows "\<exists>x. coins_inner cs (int i) steps = Some (steps[i := x]) \<and> open_cell coins (tried @ cs) amount i x"
  using assms(1,5-)
proof (induction cs arbitrary: steps tried)
  case Nil
  then show ?case by (intro exI [of _ "steps ! i"]) simp
next
  case (Cons c cs)
  have c: "0 < c" using Cons.prems(2) assms(4) by simp
  have "i < length steps" using assms(2,3) Cons.prems(1) by linarith
  show ?case
  proof (cases "c \<le> int i")
    case False
    then have "\<not> pays coins m (int i - c)" for m using pays_bounds(1) [of coins m "int i - c"] assms(4) by force
    then have "open_cell coins (tried @ [c]) amount i (steps ! i)"
      using Cons.prems(4) by (auto simp: open_cell_def)
    then show ?thesis using Cons.IH [of steps "tried @ [c]"] Cons.prems False by simp
  next
    case True
    define k where "k = nat (int i - c)"
    have k: "int k = int i - c" "k < i" using True c by (auto simp: k_def)
    let ?a = "steps ! k" and ?b = "steps ! i"
    let ?x = "min (?a + 1) ?b"
    have a: "coin_cell coins amount k ?a" using Cons.prems(3) k(2) by blast
    have b: "open_cell coins tried amount i ?b" by (rule Cons.prems(4))
    have "?x = amount + 1 \<or> 0 \<le> ?x \<and> pays coins (nat ?x) (int i)"
    proof (cases "?a + 1 < ?b")
      case True
      then have "0 \<le> ?a" "pays coins (nat ?a) (int i - c)" using a b k(1) by (auto simp: coin_cell_def open_cell_def)
      then have "pays coins (Suc (nat ?a)) (int i)" unfolding pays_Suc using Cons.prems(2) by auto
      then show ?thesis using True \<open>0 \<le> ?a\<close> by (simp add: Suc_nat_eq_nat_zadd1 min_def add.commute)
    next
      case False
      then show ?thesis using b by (simp add: open_cell_def min_def)
    qed
    moreover have "?x \<le> int m + 1" if "pays coins m (int i - c)" for m
      using a that k(1) by (auto simp: coin_cell_def min_def)
    moreover have "?x \<le> int m + 1" if "d \<in> set tried" "pays coins m (int i - d)" for d m
      using b that by (auto simp: open_cell_def min_def) force+
    ultimately have x: "open_cell coins (tried @ [c]) amount i ?x"
      using b by (auto simp: open_cell_def)
    have "at steps (int i - c) = Some ?a" using k \<open>i < length steps\<close> at_nat [of k steps] by simp
    then have run: "coins_inner (c # cs) (int i) steps = coins_inner cs (int i) (steps[i := ?x])"
      using True \<open>i < length steps\<close> by simp
    obtain y where "coins_inner cs (int i) (steps[i := ?x]) = Some ((steps[i := ?x])[i := y])"
      "open_cell coins ((tried @ [c]) @ cs) amount i y"
      using Cons.IH [of "steps[i := ?x]" "tried @ [c]"] Cons.prems x \<open>i < length steps\<close> by auto
    then show ?thesis using run by auto
  qed
qed

lemma coins_outer_cells:
  assumes "proper_coins coins" "0 \<le> amount"
  shows "length steps = nat amount + 1 \<Longrightarrow> 0 < i \<Longrightarrow> i \<le> nat amount + 1 \<Longrightarrow> \<forall>k<i. coin_cell coins amount k (steps ! k) \<Longrightarrow>
    \<forall>k<length steps. i \<le> k \<longrightarrow> steps ! k = amount + 1 \<Longrightarrow>
    \<exists>t. coins_outer coins (int i) amount steps = Some t \<and> length t = nat amount + 1 \<and> (\<forall>k\<le>nat amount. coin_cell coins amount k (t ! k))"
proof (induction "nat amount + 1 - i" arbitrary: i steps)
  case 0
  then have "i = nat amount + 1" by simp
  then show ?case using 0 assms(2) by (subst coins_outer.simps) auto
next
  case (Suc d)
  then have i: "int i \<le> amount" "i < length steps" by linarith+
  have "open_cell coins [] amount i (steps ! i)" using Suc.prems(5) i by (simp add: open_cell_def)
  then obtain x where x: "coins_inner coins (int i) steps = Some (steps[i := x])" "open_cell coins coins amount i x"
    using coins_inner_cell [of steps amount i coins coins "[]"] Suc.prems i assms(1) by auto
  have "coin_cell coins amount i x" using open_cell_closed [OF x(2)] Suc.prems(2) i(1) assms(1) by blast
  then have "\<forall>k<Suc i. coin_cell coins amount k (steps[i := x] ! k)"
    using Suc.prems(4) i(2) by (simp add: nth_list_update less_Suc_eq)
  moreover have "coins_outer coins (int i) amount steps = coins_outer coins (int (Suc i)) amount (steps[i := x])"
    using x(1) i(1) by (subst coins_outer.simps) (simp add: add.commute)
  ultimately show ?case
    using Suc.hyps(1) [of "Suc i" "steps[i := x]"] Suc.hyps(2) Suc.prems i by (auto simp: nth_list_update)
qed

lemma fewest_unique: "fewest coins v r \<Longrightarrow> fewest coins v r' \<Longrightarrow> r = r'"
  unfolding fewest_def by (metis nat_0_le order_antisym)

lemma coinChangeDP_fewest:
  assumes "proper_coins coins" "0 \<le> amount"
  shows "\<exists>r. coinChangeDP coins amount = Some r \<and> fewest coins amount r"
proof -
  let ?s = "(replicate (nat (amount + 1)) (amount + 1))[0 := 0]"
  have len: "length ?s = nat amount + 1" using assms(2) by (simp add: nat_add_distrib)
  have "coin_cell coins amount 0 (?s ! 0)" using assms(2) by (simp add: coin_cell_def)
  moreover have "\<forall>k<length ?s. 1 \<le> k \<longrightarrow> ?s ! k = amount + 1" by simp
  ultimately obtain t where t: "coins_outer coins 1 amount ?s = Some t" "length t = nat amount + 1"
    "\<forall>k\<le>nat amount. coin_cell coins amount k (t ! k)"
    using coins_outer_cells [OF assms len, of 1] by auto
  let ?x = "t ! nat amount"
  have coin_cell: "coin_cell coins amount (nat amount) ?x" using t(3) by blast
  have run: "coinChangeDP coins amount = Some (if ?x > amount then - 1 else ?x)"
    using t(1,2) assms(2) by (simp add: coinChangeDP_def)
  have "fewest coins amount (if ?x > amount then - 1 else ?x)"
  proof (cases "\<exists>m. pays coins m amount")
    case True
    then obtain m where "pays coins m amount" by blast
    then have "?x \<le> int m" "int m \<le> amount" using coin_cell assms(2) pays_bounds(1) [OF _ assms(1)] by (auto simp: coin_cell_def)
    then show ?thesis using coin_cell assms(2) True by (auto simp: coin_cell_def fewest_def)
  next
    case False
    then have "?x = amount + 1" using coin_cell assms(2) by (auto simp: coin_cell_def)
    then show ?thesis using False by (simp add: fewest_def)
  qed
  then show ?thesis using run by blast
qed

text \<open>
  For positive coins and an amount that is not negative, the search over the sorted coins,
  with its early stop, and the dynamic program both return: the least number of coins that pay the
  amount, and \<open>-1\<close> when no number of coins does.
\<close>

theorem coin_changes_agree:
  assumes "\<forall>c\<in>set coins. 0 < c" "0 \<le> amount"
  shows "\<exists>r. coinChange coins amount = Some r \<and> coinChangeDP coins amount = Some r \<and> fewest coins amount r"
proof -
  have same: "fewest (sort coins) amount r = fewest coins amount r" for r by (simp add: fewest_def pays_def)
  obtain r where "coinChange coins amount = Some r" "fewest coins amount r"
    using coin_search_fewest [of "sort coins" amount] assms same by (auto simp: coinChange_def)
  moreover obtain r' where "coinChangeDP coins amount = Some r'" "fewest coins amount r'"
    using coinChangeDP_fewest [OF assms] by blast
  ultimately show ?thesis using fewest_unique by blast
qed

theorem coin_changes_agree_witness:
  "\<exists>r. coinChange [1, 2, 5] 11 = Some r \<and> coinChangeDP [1, 2, 5] 11 = Some r \<and> fewest [1, 2, 5] 11 r"
  by (rule coin_changes_agree) simp_all

end
