(* ===== verification/LcProducts.thy ===== *)
theory LcProducts
  imports Prelude
begin

text \<open>
  Products in a vector (\<^verbatim>\<open>hobbies/leetcode/algorithms\<close>): the greatest product of a contiguous part
  (\<^verbatim>\<open>solution_152\<close>, two programs) and the products of all other elements (\<^verbatim>\<open>solution_238\<close>, three
  programs). \<open>None\<close> is an access outside a vector; products are \<open>int\<close>.
\<close>

section \<open>solution 152\<close>

primrec max_product_loop :: "int list \<Rightarrow> int \<Rightarrow> int \<Rightarrow> int \<Rightarrow> int" where
  \<comment> \<open>over the elements from the second on\<close>
  "max_product_loop [] max_product max_cur min_cur = max_product"
| "max_product_loop (x # xs) max_product max_cur min_cur =
     (let tmp_max = max (max (max_cur * x) (min_cur * x)) x;
          tmp_min = min (min (max_cur * x) (min_cur * x)) x in
      max_product_loop xs (max max_product tmp_max) tmp_max tmp_min)"

definition maxProduct :: "int list \<Rightarrow> int" where
  "maxProduct nums =
     (case nums of [] \<Rightarrow> 0 | x # xs \<Rightarrow> max_product_loop xs x x x)"

function products_row :: "int list \<Rightarrow> int \<Rightarrow> int list \<Rightarrow> int \<Rightarrow> (int list \<times> int) option" where
  \<comment> \<open>the inner loop of \<^verbatim>\<open>maxProduct2\<close> on one row of the table, from the column \<open>j\<close> on\<close>
  "products_row nums j row max_product =
     (if j < size_of nums then do {
        a \<leftarrow> at row (j - 1);
        x \<leftarrow> at nums j;
        row' \<leftarrow> put_at row j (a * x);
        products_row nums (j + 1) row' (if a * x > max_product then a * x else max_product) }
      else Some (row, max_product))"
  by pat_completeness auto
termination by (relation "measure (\<lambda>(n, j, r, m). nat (size_of n - j))") (auto simp: at_def split: if_splits)

primrec diagonal :: "nat \<Rightarrow> int list \<Rightarrow> int list list \<Rightarrow> int list list option" where
  \<comment> \<open>the first loop, from the last row it has to do to the first\<close>
  "diagonal 0 nums table = Some table"
| "diagonal (Suc i) nums table = do {
     table' \<leftarrow> diagonal i nums table;
     row \<leftarrow> at table' (int i);
     x \<leftarrow> at nums (int i);
     row' \<leftarrow> put_at row (int i) x;
     put_at table' (int i) row' }"

function products_rows :: "int list \<Rightarrow> int \<Rightarrow> int list list \<Rightarrow> int \<Rightarrow> int option" where
  "products_rows nums i table max_product =
     (if i < size_of nums then do {
        row \<leftarrow> at table i;
        (row', m) \<leftarrow> products_row nums (i + 1) row max_product;
        table' \<leftarrow> put_at table i row';
        products_rows nums (i + 1) table' m }
      else Some max_product)"
  by pat_completeness auto
termination by (relation "measure (\<lambda>(n, i, t, m). nat (size_of n - i))") (auto simp: at_def split: if_splits)

definition maxProduct2 :: "int list \<Rightarrow> int option" where
  "maxProduct2 nums =
     (if nums = [] then Some 0
      else do {
        table \<leftarrow> diagonal (length nums) nums (replicate (length nums) (replicate (length nums) 0));
        max0 \<leftarrow> at nums 0;
        products_rows nums 0 table max0 })"

section \<open>solution 238\<close>

function ascend_loop :: "int list \<Rightarrow> int \<Rightarrow> int list \<Rightarrow> int list option" where
  "ascend_loop nums i result =
     (if i < size_of nums then do {
        a \<leftarrow> at result (i - 1);
        x \<leftarrow> at nums (i - 1);
        result' \<leftarrow> put_at result i (a * x);
        ascend_loop nums (i + 1) result' }
      else Some result)"
  by pat_completeness auto
termination by (relation "measure (\<lambda>(n, i, r). nat (size_of n - i))") (auto simp: at_def split: if_splits)

function descend_loop :: "int list \<Rightarrow> int \<Rightarrow> int list \<Rightarrow> int list option" where
  "descend_loop nums i result =
     (if i \<ge> 0 then do {
        a \<leftarrow> at result (i + 1);
        x \<leftarrow> at nums (i + 1);
        result' \<leftarrow> put_at result i (a * x);
        descend_loop nums (i - 1) result' }
      else Some result)"
  by pat_completeness auto
termination by (relation "measure (\<lambda>(n, i, r). nat (i + 1))") auto

definition productExceptSelf :: "int list \<Rightarrow> int list option" where
  "productExceptSelf nums =
     (if nums = [] then Some []
      else do {
        asscend \<leftarrow> ascend_loop nums 1 (replicate (length nums) 1);
        descend \<leftarrow> descend_loop nums (size_of nums - 2) (replicate (length nums) 1);
        Some (map2 (*) asscend descend) })"

function back_products :: "int list \<Rightarrow> int \<Rightarrow> int \<Rightarrow> int list \<Rightarrow> int list option" where
  "back_products nums i product result =
     (if i \<ge> 0 then do {
        r \<leftarrow> at result i;
        x \<leftarrow> at nums i;
        result' \<leftarrow> put_at result i (r * product);
        back_products nums (i - 1) (product * x) result' }
      else Some result)"
  by pat_completeness auto
termination by (relation "measure (\<lambda>(n, i, p, r). nat (i + 1))") auto

definition productExceptSelf2 :: "int list \<Rightarrow> int list option" where
  "productExceptSelf2 nums = do {
     result \<leftarrow> ascend_loop nums 1 (replicate (length nums) 1);
     back_products nums (size_of nums - 1) 1 result }"

function both_products :: "int list \<Rightarrow> int \<Rightarrow> int \<Rightarrow> int \<Rightarrow> int list \<Rightarrow> int list option" where
  "both_products nums i ltor rtol result =
     (if i < size_of nums then do {
        r \<leftarrow> at result i;
        x \<leftarrow> at nums i;
        result1 \<leftarrow> put_at result i (r * ltor);
        q \<leftarrow> at result1 (size_of nums - i - 1);
        y \<leftarrow> at nums (size_of nums - 1 - i);
        result2 \<leftarrow> put_at result1 (size_of nums - i - 1) (q * rtol);
        both_products nums (i + 1) (ltor * x) (rtol * y) result2 }
      else Some result)"
  by pat_completeness auto
termination by (relation "measure (\<lambda>(n, i, a, b, r). nat (size_of n - i))") (auto simp: at_def split: if_splits)

definition productExceptSelf3 :: "int list \<Rightarrow> int list option" where
  "productExceptSelf3 nums = both_products nums 0 1 1 (replicate (length nums) 1)"

declare products_row.simps [simp del] products_rows.simps [simp del] ascend_loop.simps [simp del]
  descend_loop.simps [simp del] back_products.simps [simp del] both_products.simps [simp del]

section \<open>The greatest product\<close>

definition segments :: "'a list \<Rightarrow> 'a list set" where
  \<comment> \<open>the contiguous parts that are not empty\<close>
  "segments xs = {ys. ys \<noteq> [] \<and> (\<exists>us vs. xs = us @ ys @ vs)}"

definition tails :: "'a list \<Rightarrow> 'a list set" where
  "tails xs = {ys. ys \<noteq> [] \<and> (\<exists>us. xs = us @ ys)}"

lemma tails_snoc: "tails (xs @ [x]) = insert [x] ((\<lambda>ys. ys @ [x]) ` tails xs)"
proof (intro equalityI subsetI)
  fix ys
  assume "ys \<in> tails (xs @ [x])"
  then obtain us where us: "ys \<noteq> []" "xs @ [x] = us @ ys" by (auto simp: tails_def)
  then obtain zs where zs: "ys = zs @ [x]" "xs = us @ zs"
    by (metis append_butlast_last_id append_assoc last_appendR last_snoc append_same_eq butlast_append butlast_snoc)
  then show "ys \<in> insert [x] ((\<lambda>ys. ys @ [x]) ` tails xs)" by (auto simp: tails_def)
qed (auto simp: tails_def)

lemma segments_snoc: "segments (xs @ [x]) = segments xs \<union> tails (xs @ [x])"
proof (intro equalityI subsetI)
  fix ys
  assume "ys \<in> segments (xs @ [x])"
  then obtain us vs where us: "ys \<noteq> []" "xs @ [x] = us @ ys @ vs" by (auto simp: segments_def)
  show "ys \<in> segments xs \<union> tails (xs @ [x])"
  proof (cases vs rule: rev_cases)
    case Nil
    then show ?thesis using us by (auto simp: tails_def)
  next
    case (snoc vs' v)
    then have "xs = us @ ys @ vs'" using us(2) by simp
    then show ?thesis using us(1) by (auto simp: segments_def)
  qed
next
  fix ys
  assume "ys \<in> segments xs \<union> tails (xs @ [x])"
  then consider us vs where "ys \<noteq> []" "xs = us @ ys @ vs" | us where "ys \<noteq> []" "xs @ [x] = us @ ys @ []"
    by (auto simp: segments_def tails_def)
  then show "ys \<in> segments (xs @ [x])"
  proof cases
    case (1 us vs)
    then have "xs @ [x] = us @ ys @ (vs @ [x])" by simp
    then show ?thesis using 1(1) unfolding segments_def by blast
  next
    case (2 us)
    then show ?thesis unfolding segments_def by blast
  qed
qed

lemma tails_finite: "finite (tails xs)"
  by (induction xs rule: rev_induct) (simp_all add: tails_snoc, simp add: tails_def)

lemma segments_finite: "finite (segments xs)"
  by (induction xs rule: rev_induct) (simp_all add: segments_snoc tails_finite, simp add: segments_def)

lemma segments_Nil [simp]: "segments [] = {}" "tails [] = {}"
  by (auto simp: segments_def tails_def)

definition greatest_in :: "int set \<Rightarrow> int \<Rightarrow> bool" where
  "greatest_in A m \<longleftrightarrow> m \<in> A \<and> (\<forall>a\<in>A. a \<le> m)"

definition least_in :: "int set \<Rightarrow> int \<Rightarrow> bool" where
  "least_in A m \<longleftrightarrow> m \<in> A \<and> (\<forall>a\<in>A. m \<le> a)"

lemma scale_bounds: "l \<le> a \<Longrightarrow> a \<le> h \<Longrightarrow> min (h * x) (l * x) \<le> a * x \<and> a * x \<le> max (h * x) (l * x)" for a h l x :: int
  by (cases "0 \<le> x") (auto simp: min_le_iff_disj le_max_iff_disj mult_right_mono mult_right_mono_neg)

lemma scaled_extremes:
  assumes "greatest_in A h" "least_in A l"
  shows "greatest_in (insert x ((\<lambda>a. a * x) ` A)) (max (max (h * x) (l * x)) x)"
    "least_in (insert x ((\<lambda>a. a * x) ` A)) (min (min (h * x) (l * x)) x)"
proof -
  have b: "min (h * x) (l * x) \<le> a * x" "a * x \<le> max (h * x) (l * x)" if "a \<in> A" for a
    using scale_bounds [of l a h x] assms that by (auto simp: greatest_in_def least_in_def)
  have m: "h * x \<in> (\<lambda>a. a * x) ` A" "l * x \<in> (\<lambda>a. a * x) ` A"
    using assms by (auto simp: greatest_in_def least_in_def)
  show "greatest_in (insert x ((\<lambda>a. a * x) ` A)) (max (max (h * x) (l * x)) x)"
    unfolding greatest_in_def
  proof (intro conjI ballI)
    show "max (max (h * x) (l * x)) x \<in> insert x ((\<lambda>a. a * x) ` A)" using m by (simp add: max_def)
  qed (use b(2) in \<open>auto intro: max.coboundedI1\<close>)
  show "least_in (insert x ((\<lambda>a. a * x) ` A)) (min (min (h * x) (l * x)) x)"
    unfolding least_in_def
  proof (intro conjI ballI)
    show "min (min (h * x) (l * x)) x \<in> insert x ((\<lambda>a. a * x) ` A)" using m by (simp add: min_def)
  qed (use b(1) in \<open>auto intro: min.coboundedI1\<close>)
qed

lemma tails_step:
  assumes "greatest_in (prod_list ` tails xs) h" "least_in (prod_list ` tails xs) l"
  shows "greatest_in (prod_list ` tails (xs @ [x])) (max (max (h * x) (l * x)) x)"
    "least_in (prod_list ` tails (xs @ [x])) (min (min (h * x) (l * x)) x)"
proof -
  have "prod_list ` tails (xs @ [x]) = insert x ((\<lambda>a. a * x) ` prod_list ` tails xs)"
    by (auto simp: tails_snoc image_image)
  then show "greatest_in (prod_list ` tails (xs @ [x])) (max (max (h * x) (l * x)) x)"
    "least_in (prod_list ` tails (xs @ [x])) (min (min (h * x) (l * x)) x)"
    using scaled_extremes [OF assms] by simp_all
qed

lemma max_product_loop_greatest:
  assumes "greatest_in (prod_list ` segments xs) m" "greatest_in (prod_list ` tails xs) h" "least_in (prod_list ` tails xs) l"
  shows "greatest_in (prod_list ` segments (xs @ ys)) (max_product_loop ys m h l)"
  using assms
proof (induction ys arbitrary: xs m h l)
  case (Cons x ys)
  let ?h = "max (max (h * x) (l * x)) x"
  have "greatest_in (prod_list ` segments (xs @ [x])) (max m ?h)"
    using Cons.prems(1) tails_step(1) [OF Cons.prems(2,3), of x]
    unfolding segments_snoc image_Un greatest_in_def by (auto simp: max_def)
  from Cons.IH [OF this tails_step [OF Cons.prems(2,3)]] show ?case by (simp add: Let_def)
qed simp

lemma maxProduct_greatest: "nums \<noteq> [] \<Longrightarrow> greatest_in (prod_list ` segments nums) (maxProduct nums)"
proof -
  assume "nums \<noteq> []"
  then obtain x xs where n: "nums = [x] @ xs" by (metis append_Cons append_Nil list.exhaust)
  have "tails [x] = {[x]}" "segments [x] = {[x]}" using tails_snoc [of "[]" x] segments_snoc [of "[]" x] by simp_all
  then have "greatest_in (prod_list ` segments [x]) x" "greatest_in (prod_list ` tails [x]) x" "least_in (prod_list ` tails [x]) x"
    by (simp_all add: greatest_in_def least_in_def)
  from max_product_loop_greatest [OF this, of xs] show ?thesis by (simp add: n maxProduct_def)
qed

text \<open>The table of \<^verbatim>\<open>maxProduct2\<close>: row \<open>i\<close> holds the products of the parts that begin at \<open>i\<close>.\<close>

definition part :: "'a list \<Rightarrow> nat \<Rightarrow> nat \<Rightarrow> 'a list" where
  "part xs i j = take (Suc j - i) (drop i xs)"

lemma part_Suc: "i \<le> j \<Longrightarrow> Suc j < length xs \<Longrightarrow> part xs i (Suc j) = part xs i j @ [xs ! Suc j]"
  by (simp add: part_def Suc_diff_le take_Suc_conv_app_nth)

lemma part_self: "i < length xs \<Longrightarrow> part xs i i = [xs ! i]"
  by (simp add: part_def Suc_diff_le take_Suc_conv_app_nth)

lemma segments_parts: "segments xs = {part xs i j | i j. i \<le> j \<and> j < length xs}"
proof (intro equalityI subsetI)
  fix ys
  assume "ys \<in> segments xs"
  then obtain us vs where "ys \<noteq> []" "xs = us @ ys @ vs" by (auto simp: segments_def)
  then have "ys = part xs (length us) (length us + length ys - 1)" "length us \<le> length us + length ys - 1"
    "length us + length ys - 1 < length xs"
    by (cases ys; simp add: part_def)+
  then show "ys \<in> {part xs i j | i j. i \<le> j \<and> j < length xs}" by blast
next
  fix ys
  assume "ys \<in> {part xs i j | i j. i \<le> j \<and> j < length xs}"
  then obtain i j where "ys = take (Suc j - i) (drop i xs)" "i \<le> j" "j < length xs" by (auto simp: part_def)
  then have "ys \<noteq> []" "xs = take i xs @ ys @ drop (Suc j - i) (drop i xs)" by (simp_all del: drop_drop)
  then show "ys \<in> segments xs" unfolding segments_def by blast
qed

lemma products_row_spec:
  assumes "i \<le> j" "j < length nums" "length row = length nums" "row ! j = prod_list (part nums i j)"
    and "greatest_in A m"
  shows "\<exists>row' m'. products_row nums (int j + 1) row m = Some (row', m') \<and> length row' = length nums \<and>
    greatest_in (A \<union> {prod_list (part nums i k) | k. j < k \<and> k < length nums}) m'"
  using assms
proof (induction "length nums - j" arbitrary: j row m A)
  case (Suc d)
  show ?case
  proof (cases "Suc j < length nums")
    case False
    then have "{prod_list (part nums i k) | k. j < k \<and> k < length nums} = {}" by auto
    then have "greatest_in (A \<union> {prod_list (part nums i k) | k. j < k \<and> k < length nums}) m"
      using Suc.prems(5) by (simp only: Un_empty_right)
    moreover have "products_row nums (int j + 1) row m = Some (row, m)" using False by (subst products_row.simps) simp
    ultimately show ?thesis using Suc.prems(3) by blast
  next
    case True
    let ?v = "prod_list (part nums i (Suc j))"
    have v: "row ! j * nums ! Suc j = ?v" using part_Suc [OF Suc.prems(1) True] Suc.prems(4) by simp
    let ?m = "if ?v > m then ?v else m"
    have m: "greatest_in (insert ?v A) ?m" using Suc.prems(5) by (auto simp: greatest_in_def)
    have run: "products_row nums (int j + 1) row m = products_row nums (int (Suc j) + 1) (row[Suc j := ?v]) ?m"
      using True Suc.prems(3) v at_nat [of "Suc j" nums] by (subst products_row.simps) (simp add: nat_add_distrib algebra_simps)
    have set: "insert ?v A \<union> {prod_list (part nums i k) | k. Suc j < k \<and> k < length nums} =
        A \<union> {prod_list (part nums i k) | k. j < k \<and> k < length nums}"
      using True by (auto simp: Suc_le_eq) (metis Suc_lessI)
    have "d = length nums - Suc j" "row[Suc j := ?v] ! Suc j = ?v" using Suc.hyps(2) Suc.prems(3) True by simp_all
    then show ?thesis
      using Suc.hyps(1) [of "Suc j" "row[Suc j := ?v]" "insert ?v A" ?m] Suc.prems m True run set by simp
  qed
qed simp

lemma diagonal_spec:
  assumes "length table = n" "\<forall>r\<in>set table. length r = n" "n = length nums" "i \<le> n"
  shows "\<exists>t. diagonal i nums table = Some t \<and> length t = n \<and> (\<forall>r\<in>set t. length r = n) \<and> (\<forall>k<i. t ! k ! k = nums ! k)"
  using assms(4)
proof (induction i)
  case 0
  then show ?case using assms by simp
next
  case (Suc i)
  then obtain t where t: "diagonal i nums table = Some t" "length t = n" "\<forall>r\<in>set t. length r = n" "\<forall>k<i. t ! k ! k = nums ! k"
    by auto
  have "length (t ! i) = n" using t(2,3) Suc.prems by simp
  then have "diagonal (Suc i) nums table = Some (t[i := (t ! i)[i := nums ! i]])"
    using t Suc.prems assms(3) by simp
  moreover have "\<forall>r\<in>set (t[i := (t ! i)[i := nums ! i]]). length r = n"
    using t(3) \<open>length (t ! i) = n\<close> set_update_subset_insert [of t i "(t ! i)[i := nums ! i]"] by auto
  ultimately show ?case
    using t \<open>length (t ! i) = n\<close> Suc.prems by (auto simp: nth_list_update less_Suc_eq)
qed

lemma products_rows_spec:
  assumes "length t = length nums" "\<forall>r\<in>set t. length r = length nums" "\<forall>k<length nums. i \<le> k \<longrightarrow> t ! k ! k = nums ! k"
    "i \<le> length nums" "greatest_in A m"
  shows "\<exists>m'. products_rows nums (int i) t m = Some m' \<and>
    greatest_in (A \<union> {prod_list (part nums j k) | j k. i \<le> j \<and> j < k \<and> k < length nums}) m'"
  using assms
proof (induction "length nums - i" arbitrary: i t m A)
  case 0
  then have "{prod_list (part nums j k) | j k. i \<le> j \<and> j < k \<and> k < length nums} = {}" by auto
  then have "greatest_in (A \<union> {prod_list (part nums j k) | j k. i \<le> j \<and> j < k \<and> k < length nums}) m"
    using 0(6) by (simp only: Un_empty_right)
  moreover have "products_rows nums (int i) t m = Some m" using 0 by (subst products_rows.simps) simp
  ultimately show ?case by blast
next
  case (Suc d)
  then have i: "i < length nums" by simp
  then have row: "length (t ! i) = length nums" "t ! i ! i = prod_list (part nums i i)"
    using Suc.prems by (simp_all add: part_self)
  obtain row' m' where r: "products_row nums (int i + 1) (t ! i) m = Some (row', m')" "length row' = length nums"
    "greatest_in (A \<union> {prod_list (part nums i k) | k. i < k \<and> k < length nums}) m'"
    using products_row_spec [OF _ i row Suc.prems(5)] by blast
  have run: "products_rows nums (int i) t m = products_rows nums (int (Suc i)) (t[i := row']) m'"
    using r(1) i Suc.prems(1) by (subst products_rows.simps) (simp add: add.commute)
  have "\<forall>r\<in>set (t[i := row']). length r = length nums"
    using Suc.prems(2) r(2) set_update_subset_insert [of t i row'] by auto
  moreover have "\<forall>k<length nums. Suc i \<le> k \<longrightarrow> t[i := row'] ! k ! k = nums ! k" using Suc.prems(3) by simp
  moreover have "d = length nums - Suc i" "length (t[i := row']) = length nums" "Suc i \<le> length nums"
    using Suc.hyps(2) Suc.prems(1) i by simp_all
  ultimately obtain m2 where "products_rows nums (int (Suc i)) (t[i := row']) m' = Some m2"
    "greatest_in (A \<union> {prod_list (part nums i k) | k. i < k \<and> k < length nums} \<union>
       {prod_list (part nums j k) | j k. Suc i \<le> j \<and> j < k \<and> k < length nums}) m2"
    using Suc.hyps(1) [OF _ _ _ _ _ r(3), of "Suc i" "t[i := row']"] by blast
  moreover have "{prod_list (part nums i k) | k. i < k \<and> k < length nums} \<union>
       {prod_list (part nums j k) | j k. Suc i \<le> j \<and> j < k \<and> k < length nums} =
      {prod_list (part nums j k) | j k. i \<le> j \<and> j < k \<and> k < length nums}" (is "?R \<union> ?S = ?T")
  proof (intro equalityI subsetI)
    fix x
    assume "x \<in> ?T"
    then obtain j k where "x = prod_list (part nums j k)" "i \<le> j" "j < k" "k < length nums" by blast
    then show "x \<in> ?R \<union> ?S" by (cases "j = i") (blast, metis (mono_tags, lifting) UnI2 le_neq_implies_less mem_Collect_eq Suc_leI)
  next
    fix x
    assume "x \<in> ?R \<union> ?S"
    then show "x \<in> ?T" by (blast intro: Suc_leD)
  qed
  ultimately have "products_rows nums (int i) t m = Some m2 \<and> greatest_in (A \<union> ?T) m2"
    using run by (simp only: Un_assoc simp_thms)
  then show ?case by (rule exI)
qed

text \<open>\<^verbatim>\<open>maxProduct2\<close> looks at the first element and at the parts of at least two elements only.\<close>

lemma maxProduct2_greatest:
  assumes "nums \<noteq> []"
  shows "\<exists>m. maxProduct2 nums = Some m \<and>
    greatest_in (insert (hd nums) (prod_list ` {ys \<in> segments nums. 2 \<le> length ys})) m"
proof -
  let ?n = "length nums" and ?P = "{prod_list (part nums j k) | j k. 0 \<le> j \<and> j < k \<and> k < length nums}"
  have "\<exists>t. diagonal ?n nums (replicate ?n (replicate ?n 0)) = Some t \<and> length t = ?n \<and> (\<forall>r\<in>set t. length r = ?n) \<and>
      (\<forall>k<?n. t ! k ! k = nums ! k)"
    by (rule diagonal_spec) simp_all
  then obtain t where t: "diagonal ?n nums (replicate ?n (replicate ?n 0)) = Some t" "length t = ?n"
    "\<forall>r\<in>set t. length r = ?n" "\<forall>k<?n. t ! k ! k = nums ! k"
    by blast
  have "greatest_in {hd nums} (hd nums)" by (simp add: greatest_in_def)
  moreover have "\<forall>k<?n. 0 \<le> k \<longrightarrow> t ! k ! k = nums ! k" using t(4) by blast
  ultimately obtain m where m: "products_rows nums (int 0) t (hd nums) = Some m" "greatest_in ({hd nums} \<union> ?P) m"
    using products_rows_spec [OF t(2,3), of 0 "{hd nums}" "hd nums"] by blast
  have "{ys \<in> segments nums. 2 \<le> length ys} = {part nums j k | j k. 0 \<le> j \<and> j < k \<and> k < ?n}"
  proof (intro equalityI subsetI)
    fix ys
    assume "ys \<in> {ys \<in> segments nums. 2 \<le> length ys}"
    then obtain j k where jk: "ys = part nums j k" "j \<le> k" "k < ?n" "2 \<le> length ys"
      unfolding segments_parts by auto
    then have "j < k" by (auto simp: part_def)
    then show "ys \<in> {part nums j k | j k. 0 \<le> j \<and> j < k \<and> k < ?n}" using jk by blast
  next
    fix ys
    assume "ys \<in> {part nums j k | j k. 0 \<le> j \<and> j < k \<and> k < ?n}"
    then obtain j k where jk: "ys = part nums j k" "j < k" "k < ?n" by auto
    then have "2 \<le> length ys" by (simp add: part_def)
    moreover have "ys \<in> segments nums" unfolding segments_parts using jk by fastforce
    ultimately show "ys \<in> {ys \<in> segments nums. 2 \<le> length ys}" by simp
  qed
  then have "prod_list ` {ys \<in> segments nums. 2 \<le> length ys} = ?P" by auto
  moreover have "at nums 0 = Some (hd nums)" using assms by (cases nums) (simp_all add: at_def)
  ultimately show ?thesis using m t(1) assms by (simp add: maxProduct2_def)
qed

section \<open>The products of all other elements\<close>

definition others :: "int list \<Rightarrow> int list" where
  \<comment> \<open>at each position the product of the elements before it and of those after it\<close>
  "others nums = map (\<lambda>i. prod_list (take i nums) * prod_list (drop (Suc i) nums)) [0..<length nums]"

lemma prod_take_Suc: "i < length xs \<Longrightarrow> prod_list (take (Suc i) xs) = prod_list (take i xs) * xs ! i" for xs :: "int list"
  by (simp add: take_Suc_conv_app_nth)

lemma prod_drop: "i < length xs \<Longrightarrow> prod_list (drop i xs) = xs ! i * prod_list (drop (Suc i) xs)" for xs :: "int list"
  by (simp add: Cons_nth_drop_Suc [symmetric])

lemma ascend_loop_spec:
  assumes "length r = length nums" "0 < i" "\<forall>k<length nums. k < i \<longrightarrow> r ! k = prod_list (take k nums)"
  shows "\<exists>t. ascend_loop nums (int i) r = Some t \<and> length t = length nums \<and> (\<forall>k<length nums. t ! k = prod_list (take k nums))"
  using assms
proof (induction "length nums - i" arbitrary: i r)
  case 0
  then show ?case by (subst ascend_loop.simps) simp
next
  case (Suc d)
  then have i: "i < length nums" by simp
  obtain j where j: "i = Suc j" using Suc.prems(2) by (cases i) auto
  have v: "r ! j * nums ! j = prod_list (take i nums)" using Suc.prems(3) i j by (simp add: prod_take_Suc)
  have "at r (int i - 1) = Some (r ! j)" "at nums (int i - 1) = Some (nums ! j)"
    using at_nat [of j r] at_nat [of j nums] i j Suc.prems(1) by simp_all
  then have "ascend_loop nums (int i) r = ascend_loop nums (int (Suc i)) (r[i := prod_list (take i nums)])"
    using i v Suc.prems(1) by (subst ascend_loop.simps) (simp add: add.commute)
  moreover have "\<forall>k<length nums. k < Suc i \<longrightarrow> r[i := prod_list (take i nums)] ! k = prod_list (take k nums)"
    using Suc.prems i by (simp add: nth_list_update less_Suc_eq)
  ultimately show ?case
    using Suc.hyps(1) [of "Suc i" "r[i := prod_list (take i nums)]"] Suc.hyps(2) Suc.prems(1) by simp
qed

lemma descend_loop_spec:
  assumes "length r = length nums" "i < length nums" "\<forall>k<length nums. i \<le> k \<longrightarrow> r ! k = prod_list (drop (Suc k) nums)"
  shows "\<exists>t. descend_loop nums (int i - 1) r = Some t \<and> length t = length nums \<and> (\<forall>k<length nums. t ! k = prod_list (drop (Suc k) nums))"
  using assms
proof (induction i arbitrary: r)
  case 0
  then show ?case by (subst descend_loop.simps) simp
next
  case (Suc i)
  have v: "r ! Suc i * nums ! Suc i = prod_list (drop (Suc i) nums)"
    using Suc.prems by (simp add: prod_drop [of "Suc i"] mult.commute)
  let ?r = "r[i := prod_list (drop (Suc i) nums)]"
  have "at r (int i + 1) = Some (r ! Suc i)" "at nums (int i + 1) = Some (nums ! Suc i)"
    using at_nat [of "Suc i" r] at_nat [of "Suc i" nums] Suc.prems by (simp_all add: add.commute)
  then have "descend_loop nums (int (Suc i) - 1) r = descend_loop nums (int i - 1) ?r"
    using v Suc.prems by (subst descend_loop.simps) simp
  moreover have "\<forall>k<length nums. i \<le> k \<longrightarrow> ?r ! k = prod_list (drop (Suc k) nums)"
    using Suc.prems by (auto simp: nth_list_update)
  ultimately show ?case using Suc.IH [of ?r] Suc.prems by simp
qed

lemma back_products_spec:
  assumes "length r = length nums" "i \<le> length nums" "p = prod_list (drop i nums)"
    "\<forall>k<i. r ! k = prod_list (take k nums)" "\<forall>k<length nums. i \<le> k \<longrightarrow> r ! k = others nums ! k"
  shows "back_products nums (int i - 1) p r = Some (others nums)"
  using assms
proof (induction i arbitrary: r p)
  case 0
  then have "r = others nums" by (intro nth_equalityI) (simp_all add: others_def)
  then show ?case by (subst back_products.simps) simp
next
  case (Suc i)
  have v: "r ! i * p = others nums ! i" using Suc.prems by (simp add: others_def)
  let ?r = "r[i := others nums ! i]"
  have "back_products nums (int (Suc i) - 1) p r = back_products nums (int i - 1) (p * nums ! i) ?r"
    using v Suc.prems by (subst back_products.simps) simp
  moreover have "p * nums ! i = prod_list (drop i nums)"
    using Suc.prems(2,3) by (simp add: prod_drop [of i] mult.commute)
  moreover have "\<forall>k<length nums. i \<le> k \<longrightarrow> ?r ! k = others nums ! k"
    using Suc.prems by (auto simp: nth_list_update)
  ultimately show ?case using Suc.IH [of ?r "p * nums ! i"] Suc.prems by simp
qed

text \<open>
  \<^verbatim>\<open>productExceptSelf3\<close> multiplies from both ends at once: after \<open>i\<close> steps a position holds the
  product of those before it if one of the first \<open>i\<close>, times the product of those after it if one of
  the last \<open>i\<close>.
\<close>

definition half_done :: "int list \<Rightarrow> nat \<Rightarrow> nat \<Rightarrow> int" where
  "half_done nums i k =
     (if k < i then prod_list (take k nums) else 1) *
     (if length nums - i \<le> k then prod_list (drop (Suc k) nums) else 1)"

lemma both_products_spec:
  assumes "length r = length nums" "i \<le> length nums" "\<forall>k<length nums. r ! k = half_done nums i k"
  shows "both_products nums (int i) (prod_list (take i nums)) (prod_list (drop (length nums - i) nums)) r = Some (others nums)"
  using assms
proof (induction "length nums - i" arbitrary: i r)
  case 0
  then have "r = others nums" by (intro nth_equalityI) (simp_all add: others_def half_done_def)
  then show ?case using 0 by (subst both_products.simps) simp
next
  case (Suc d)
  then have i: "i < length nums" by simp
  let ?n = "length nums"
  define j where "j = ?n - Suc i"
  have j: "j < ?n" "int j = int ?n - int i - 1" "int j = int ?n - 1 - int i" "Suc j = ?n - i" using i by (auto simp: j_def)
  let ?l = "prod_list (take i nums)" and ?t = "prod_list (drop (?n - i) nums)"
  let ?r1 = "r[i := r ! i * ?l]"
  let ?r2 = "?r1[j := ?r1 ! j * ?t]"
  have run: "both_products nums (int i) ?l ?t r = both_products nums (int (Suc i)) (?l * nums ! i) (?t * nums ! j) ?r2"
    using i j(1) Suc.prems(1) by (subst both_products.simps) (simp add: j(2,3) [symmetric] add.commute)
  have l: "?l * nums ! i = prod_list (take (Suc i) nums)" using i by (simp add: prod_take_Suc)
  have t: "?t * nums ! j = prod_list (drop (?n - Suc i) nums)"
    using j prod_drop [of j nums] by (simp add: j_def mult.commute)
  have "\<forall>k<?n. ?r2 ! k = half_done nums (Suc i) k"
  proof (intro allI impI)
    fix k
    assume k: "k < ?n"
    have f: "r ! k = half_done nums i k" "k < Suc i \<longleftrightarrow> k < i \<or> k = i" "?n - Suc i \<le> k \<longleftrightarrow> ?n - i \<le> k \<or> k = j"
      using Suc.prems(3) k i by (auto simp: j_def)
    show "?r2 ! k = half_done nums (Suc i) k"
      using Suc.prems(1) k f i j(1,4) by (simp add: half_done_def nth_list_update) (auto simp: half_done_def)
  qed
  then have "both_products nums (int (Suc i)) (prod_list (take (Suc i) nums)) (prod_list (drop (?n - Suc i) nums)) ?r2 = Some (others nums)"
    using Suc.prems(1) Suc.hyps(2) i by (intro Suc.hyps(1)) auto
  then show ?case using run l t by simp
qed

lemma products_of_others:
  "productExceptSelf nums = Some (others nums)" "productExceptSelf2 nums = Some (others nums)"
  "productExceptSelf3 nums = Some (others nums)"
proof -
  let ?n = "length nums" and ?ones = "replicate (length nums) 1"
  show "productExceptSelf3 nums = Some (others nums)"
    using both_products_spec [of ?ones nums 0] by (simp add: productExceptSelf3_def half_done_def)
  obtain t where t: "ascend_loop nums 1 ?ones = Some t" "length t = ?n" "\<forall>k<?n. t ! k = prod_list (take k nums)"
    using ascend_loop_spec [of ?ones nums 1] by auto
  show "productExceptSelf2 nums = Some (others nums)"
    using back_products_spec [of t nums ?n 1] t by (simp add: productExceptSelf2_def)
  show "productExceptSelf nums = Some (others nums)"
  proof (cases "nums = []")
    case True
    then show ?thesis by (simp add: productExceptSelf_def others_def)
  next
    case False
    then obtain m where m: "?n = Suc m" by (cases nums) auto
    have ones: "\<forall>k<?n. m \<le> k \<longrightarrow> ?ones ! k = prod_list (drop (Suc k) nums)" using m by (simp del: replicate.simps)
    obtain u where u: "descend_loop nums (int m - 1) ?ones = Some u" "length u = ?n"
      "\<forall>k<?n. u ! k = prod_list (drop (Suc k) nums)"
      using descend_loop_spec [OF _ _ ones] m by auto
    have "map2 (*) t u = others nums"
      using t(2,3) u(2,3) by (intro nth_equalityI) (simp_all add: others_def)
    then show ?thesis using t(1) u(1) m False by (simp add: productExceptSelf_def)
  qed
qed

text \<open>
  \<^verbatim>\<open>maxProduct\<close> returns the greatest product of a contiguous part of a vector that is not
  empty. \<^verbatim>\<open>maxProduct2\<close> does not: it returns the greatest of the first element and the products of
  the parts of at least two elements, so a single later element is missed. The three programs for
  the products of all other elements agree and return them, zeroes included.
\<close>

theorem vector_products:
  "(nums \<noteq> [] \<longrightarrow> greatest_in (prod_list ` segments nums) (maxProduct nums) \<and>
     (\<exists>m. maxProduct2 nums = Some m \<and> greatest_in (insert (hd nums) (prod_list ` {ys \<in> segments nums. 2 \<le> length ys})) m)) \<and>
   maxProduct2 [- 2, 3] \<noteq> Some (maxProduct [- 2, 3]) \<and>
   productExceptSelf nums = Some (others nums) \<and> productExceptSelf2 nums = Some (others nums) \<and>
   productExceptSelf3 nums = Some (others nums)"
  using maxProduct_greatest maxProduct2_greatest products_of_others
  by (simp add: maxProduct_def maxProduct2_def products_rows.simps products_row.simps at_def put_at_def)

theorem vector_products_witness:
  "greatest_in (prod_list ` segments [2, 3, - 2, 4]) (maxProduct [2, 3, - 2, 4])"
  using vector_products [of "[2, 3, - 2, 4]"] by blast

end
