(* ===== verification/LcWindow.thy ===== *)
theory LcWindow
  imports Prelude
begin

text \<open>
  Two indices moving over a sequence (\<^verbatim>\<open>hobbies/leetcode/algorithms\<close>): the longest substring
  without a repeated character (\<^verbatim>\<open>solution_3\<close>) and the container with the most water
  (\<^verbatim>\<open>solution_11\<close>). \<open>None\<close> is an access outside the vector; areas are \<open>int\<close>.
\<close>

section \<open>solution 3\<close>

function window_loop :: "string \<Rightarrow> int \<Rightarrow> (char \<rightharpoonup> int) \<Rightarrow> int \<Rightarrow> int \<Rightarrow> int option" where
  "window_loop s i um start longest =
     (if i < size_of s then
        case at s i of None \<Rightarrow> None
        | Some c \<Rightarrow>
            let start' = (case um c of None \<Rightarrow> start | Some j \<Rightarrow> max j start) in
            window_loop s (i + 1) (um(c \<mapsto> i)) start' (max longest (i - start'))
      else Some longest)"
  by pat_completeness auto
termination by (relation "measure (\<lambda>(s, i, um, a, l). nat (size_of s - i))") (auto simp: at_def split: if_splits)

definition lengthOfLongestSubstring :: "string \<Rightarrow> int option" where
  "lengthOfLongestSubstring s = window_loop s 0 Map.empty (- 1) 0"

declare window_loop.simps [simp del]

definition nodup :: "'a list \<Rightarrow> nat \<Rightarrow> nat \<Rightarrow> bool" where
  \<comment> \<open>no repetition from position \<open>a\<close> up to and without position \<open>b\<close>\<close>
  "nodup s a b \<longleftrightarrow> (\<forall>j k. a \<le> j \<and> j < k \<and> k < b \<longrightarrow> s ! j \<noteq> s ! k)"

lemma nodup_distinct: "nodup (us @ ys @ vs) (length us) (length us + length ys) \<longleftrightarrow> distinct ys"
proof
  assume n: "nodup (us @ ys @ vs) (length us) (length us + length ys)"
  have "ys ! j \<noteq> ys ! k" if "j < k" "k < length ys" for j k
    using n [unfolded nodup_def, rule_format, of "length us + j" "length us + k"] that by (simp add: nth_append)
  then show "distinct ys" unfolding distinct_conv_nth by (metis linorder_neqE_nat)
next
  assume d: "distinct ys"
  show "nodup (us @ ys @ vs) (length us) (length us + length ys)"
    unfolding nodup_def
  proof (intro allI impI)
    fix j k
    assume jk: "length us \<le> j \<and> j < k \<and> k < length us + length ys"
    then have "ys ! (j - length us) \<noteq> ys ! (k - length us)" using d by (auto simp: distinct_conv_nth)
    then show "(us @ ys @ vs) ! j \<noteq> (us @ ys @ vs) ! k" using jk by (auto simp: nth_append)
  qed
qed

definition last_seen :: "string \<Rightarrow> nat \<Rightarrow> (char \<rightharpoonup> int) \<Rightarrow> bool" where
  \<comment> \<open>\<open>um\<close> holds the last position of every character before \<open>i\<close>\<close>
  "last_seen s i um \<longleftrightarrow>
     (\<forall>c. case um c of None \<Rightarrow> (\<forall>k<i. s ! k \<noteq> c)
        | Some j \<Rightarrow> (\<exists>n. j = int n \<and> n < i \<and> s ! n = c \<and> (\<forall>k. n < k \<and> k < i \<longrightarrow> s ! k \<noteq> c)))"

lemma last_seen_Suc: "last_seen s i um \<Longrightarrow> last_seen s (Suc i) (um(s ! i \<mapsto> int i))"
  unfolding last_seen_def
proof (intro allI)
  fix c
  assume seen: "\<forall>c. case um c of None \<Rightarrow> (\<forall>k<i. s ! k \<noteq> c)
      | Some j \<Rightarrow> (\<exists>n. j = int n \<and> n < i \<and> s ! n = c \<and> (\<forall>k. n < k \<and> k < i \<longrightarrow> s ! k \<noteq> c))"
  show "case (um(s ! i \<mapsto> int i)) c of None \<Rightarrow> (\<forall>k<Suc i. s ! k \<noteq> c)
      | Some j \<Rightarrow> (\<exists>n. j = int n \<and> n < Suc i \<and> s ! n = c \<and> (\<forall>k. n < k \<and> k < Suc i \<longrightarrow> s ! k \<noteq> c))"
  proof (cases "c = s ! i")
    case True
    then show ?thesis by auto
  next
    case False
    then show ?thesis using seen [rule_format, of c] by (cases "um c") (auto simp: less_Suc_eq)
  qed
qed

definition longest_nodup :: "string \<Rightarrow> nat \<Rightarrow> nat \<Rightarrow> bool" where
  "longest_nodup s n l \<longleftrightarrow>
     (\<exists>a b. a \<le> b \<and> b \<le> n \<and> nodup s a b \<and> l = b - a) \<and> (\<forall>a b. a \<le> b \<and> b \<le> n \<and> nodup s a b \<longrightarrow> b - a \<le> l)"

text \<open>One step: the window \<open>w \<dots> i - 1\<close> is the longest that ends there; the next character moves its begin.\<close>

lemma window_step:
  assumes seen: "last_seen s i um" and w: "w \<le> i" "nodup s w i" "\<forall>a<w. \<not> nodup s a i"
    and l: "longest_nodup s i l"
  defines "w' \<equiv> (case um (s ! i) of None \<Rightarrow> w | Some j \<Rightarrow> max (nat j + 1) w)"
  shows "w' \<le> Suc i \<and> nodup s w' (Suc i) \<and> (\<forall>a<w'. \<not> nodup s a (Suc i)) \<and> longest_nodup s (Suc i) (max l (Suc i - w'))"
proof -
  have ww: "w \<le> w'" by (auto simp: w'_def split: option.splits)
  have no: "s ! k \<noteq> s ! i" if "w' \<le> k" "k < i" for k
    using seen [unfolded last_seen_def, rule_format, of "s ! i"] that
    by (auto simp: w'_def split: option.splits)
  have 1: "nodup s w' (Suc i)"
    unfolding nodup_def
  proof (intro allI impI)
    fix j k
    assume jk: "w' \<le> j \<and> j < k \<and> k < Suc i"
    show "s ! j \<noteq> s ! k"
    proof (cases "k = i")
      case True
      then show ?thesis using no [of j] jk by simp
    next
      case False
      then show ?thesis using w(2) ww jk by (simp add: nodup_def)
    qed
  qed
  have 2: "\<not> nodup s a (Suc i)" if a: "a < w'" for a
  proof (cases "a < w")
    case True
    then have "\<not> nodup s a i" using w(3) by blast
    then show ?thesis unfolding nodup_def by (meson less_Suc_eq)
  next
    case False
    then obtain n where n: "um (s ! i) = Some (int n)" "n < i" "s ! n = s ! i" "a \<le> n"
      using seen [unfolded last_seen_def, rule_format, of "s ! i"] a by (auto simp: w'_def split: option.splits)
    then show ?thesis unfolding nodup_def by (metis lessI)
  qed
  have 3: "w' \<le> Suc i"
    using seen [unfolded last_seen_def, rule_format, of "s ! i"] w(1) by (auto simp: w'_def split: option.splits)
  have "b - a \<le> max l (Suc i - w')" if ab: "a \<le> b" "b \<le> Suc i" "nodup s a b" for a b
  proof (cases "b = Suc i")
    case True
    then have "w' \<le> a" using 2 ab(3) by (metis linorder_not_le)
    then show ?thesis using True by simp
  next
    case False
    then have "b - a \<le> l" using l ab unfolding longest_nodup_def by (metis le_SucE)
    then show ?thesis by simp
  qed
  moreover have "\<exists>a b. a \<le> b \<and> b \<le> Suc i \<and> nodup s a b \<and> max l (Suc i - w') = b - a"
  proof (cases "l \<le> Suc i - w'")
    case True
    then show ?thesis using 1 3 by (intro exI [of _ w'] exI [of _ "Suc i"]) simp
  next
    case False
    then show ?thesis using l unfolding longest_nodup_def by (metis le_SucI linorder_not_le max_def order_less_imp_le)
  qed
  ultimately show ?thesis using 1 2 3 unfolding longest_nodup_def by blast
qed

lemma window_loop_longest:
  assumes "i \<le> length s" "last_seen s i um" "w \<le> i" "nodup s w i" "\<forall>a<w. \<not> nodup s a i" "longest_nodup s i l"
  shows "\<exists>r. window_loop s (int i) um (int w - 1) (int l) = Some (int r) \<and> longest_nodup s (length s) r"
  using assms
proof (induction "length s - i" arbitrary: i um w l)
  case 0
  then show ?case by (subst window_loop.simps) simp
next
  case (Suc d)
  then have i: "i < length s" by simp
  define w' where "w' = (case um (s ! i) of None \<Rightarrow> w | Some j \<Rightarrow> max (nat j + 1) w)"
  have st: "w' \<le> Suc i" "nodup s w' (Suc i)" "\<forall>a<w'. \<not> nodup s a (Suc i)" "longest_nodup s (Suc i) (max l (Suc i - w'))"
    using window_step [OF Suc.prems(2-6)] unfolding w'_def by blast+
  have "(case um (s ! i) of None \<Rightarrow> int w - 1 | Some j \<Rightarrow> max j (int w - 1)) = int w' - 1"
    using Suc.prems(2) [unfolded last_seen_def, rule_format, of "s ! i"] by (auto simp: w'_def max_def split: option.splits)
  moreover have "max (int l) (int i - (int w' - 1)) = int (max l (Suc i - w'))" using st(1) unfolding of_nat_max by simp
  ultimately have "window_loop s (int i) um (int w - 1) (int l) =
      window_loop s (int (Suc i)) (um(s ! i \<mapsto> int i)) (int w' - 1) (int (max l (Suc i - w')))"
    using i by (subst window_loop.simps) (simp add: Let_def add.commute)
  then show ?case
    using Suc.hyps(1) [OF _ _ last_seen_Suc [OF Suc.prems(2)] st] Suc.hyps(2) i by simp
qed

lemma lengthOfLongestSubstring_longest:
  "\<exists>r. lengthOfLongestSubstring s = Some (int r) \<and>
     (\<exists>us ys vs. s = us @ ys @ vs \<and> distinct ys \<and> length ys = r) \<and>
     (\<forall>us ys vs. s = us @ ys @ vs \<and> distinct ys \<longrightarrow> length ys \<le> r)"
proof -
  have "last_seen s 0 Map.empty" "nodup s 0 0" "longest_nodup s 0 0"
    by (simp_all add: last_seen_def nodup_def longest_nodup_def)
  then obtain r where r: "lengthOfLongestSubstring s = Some (int r)" "longest_nodup s (length s) r"
    using window_loop_longest [of 0 s Map.empty 0 0] by (auto simp: lengthOfLongestSubstring_def)
  obtain a b where ab: "a \<le> b" "b \<le> length s" "nodup s a b" "r = b - a" using r(2) unfolding longest_nodup_def by blast
  have s: "s = take a s @ take (b - a) (drop a s) @ drop b s"
    using ab(1) by (metis append_take_drop_id drop_drop le_add_diff_inverse2)
  have "distinct (take (b - a) (drop a s))"
    using nodup_distinct [of "take a s" "take (b - a) (drop a s)" "drop b s"] s ab by simp
  then have "\<exists>us ys vs. s = us @ ys @ vs \<and> distinct ys \<and> length ys = r"
    using s ab by (intro exI [of _ "take a s"] exI [of _ "take (b - a) (drop a s)"] exI [of _ "drop b s"]) simp
  moreover have "length ys \<le> r" if "s = us @ ys @ vs" "distinct ys" for us ys vs
    using r(2) [unfolded longest_nodup_def, THEN conjunct2, rule_format, of "length us" "length us + length ys"]
      nodup_distinct [of us ys vs] that by simp
  ultimately show ?thesis using r(1) by blast
qed

section \<open>solution 11\<close>

function skip_up :: "int list \<Rightarrow> int \<Rightarrow> int \<Rightarrow> int \<Rightarrow> int option" where
  "skip_up height h i j =
     (if i < j then case at height i of None \<Rightarrow> None | Some x \<Rightarrow> if x \<le> h then skip_up height h (i + 1) j else Some i
      else Some i)"
  by pat_completeness auto
termination by (relation "measure (\<lambda>(v, h, i, j). nat (j - i))") auto

function skip_down :: "int list \<Rightarrow> int \<Rightarrow> int \<Rightarrow> int \<Rightarrow> int option" where
  "skip_down height h i j =
     (if j > i then case at height j of None \<Rightarrow> None | Some x \<Rightarrow> if x \<le> h then skip_down height h i (j - 1) else Some j
      else Some j)"
  by pat_completeness auto
termination by (relation "measure (\<lambda>(v, h, i, j). nat (j - i))") auto

partial_function (option) area_loop :: "int list \<Rightarrow> int \<Rightarrow> int \<Rightarrow> int \<Rightarrow> int option" where
  "area_loop height i j max_area =
     (if i < j then do {
        x \<leftarrow> at height i;
        y \<leftarrow> at height j;
        i' \<leftarrow> skip_up height (min x y) i j;
        j' \<leftarrow> skip_down height (min x y) i' j;
        area_loop height i' j' (if (j - i) * min x y > max_area then (j - i) * min x y else max_area) }
      else Some max_area)"

definition maxArea :: "int list \<Rightarrow> int option" where
  "maxArea height = area_loop height 0 (size_of height - 1) 0"

declare skip_up.simps [simp del] skip_down.simps [simp del]

definition area :: "int list \<Rightarrow> nat \<Rightarrow> nat \<Rightarrow> int" where
  "area height p q = (int q - int p) * min (height ! p) (height ! q)"

lemma skip_up_spec:
  assumes "i \<le> j" "j < length v"
  shows "\<exists>i'. skip_up v h (int i) (int j) = Some (int i') \<and> i \<le> i' \<and> i' \<le> j \<and> (\<forall>p. i \<le> p \<and> p < i' \<longrightarrow> v ! p \<le> h) \<and>
    (i < j \<and> v ! i \<le> h \<longrightarrow> i < i')"
  using assms(1)
proof (induction "j - i" arbitrary: i)
  case 0
  then show ?case by (subst skip_up.simps) auto
next
  case (Suc d)
  show ?case
  proof (cases "v ! i \<le> h")
    case True
    have lt: "i < j" using Suc.hyps(2) by simp
    have "d = j - Suc i" "Suc i \<le> j" using Suc.hyps(2) by simp_all
    then obtain i' where i': "skip_up v h (int (Suc i)) (int j) = Some (int i')" "Suc i \<le> i'" "i' \<le> j"
      "\<forall>p. Suc i \<le> p \<and> p < i' \<longrightarrow> v ! p \<le> h"
      using Suc.hyps(1) [of "Suc i"] by blast
    moreover have "skip_up v h (int i) (int j) = skip_up v h (int (Suc i)) (int j)"
      using lt assms(2) True by (subst skip_up.simps) (simp add: add.commute)
    moreover have "\<forall>p. i \<le> p \<and> p < i' \<longrightarrow> v ! p \<le> h" using i'(4) True by (metis Suc_leI le_neq_implies_less)
    ultimately show ?thesis by (intro exI [of _ i']) auto
  next
    case False
    then have "skip_up v h (int i) (int j) = Some (int i)"
      using Suc.hyps(2) assms(2) by (subst skip_up.simps) simp
    then show ?thesis using Suc.prems False by auto
  qed
qed

lemma skip_down_spec:
  assumes "i \<le> j" "j < length v"
  shows "\<exists>j'. skip_down v h (int i) (int j) = Some (int j') \<and> i \<le> j' \<and> j' \<le> j \<and> (\<forall>q. j' < q \<and> q \<le> j \<longrightarrow> v ! q \<le> h) \<and>
    (i < j \<and> v ! j \<le> h \<longrightarrow> j' < j)"
  using assms
proof (induction "j - i" arbitrary: j)
  case 0
  then show ?case by (subst skip_down.simps) auto
next
  case (Suc d)
  then obtain k where k: "j = Suc k" by (cases j) auto
  show ?case
  proof (cases "v ! j \<le> h")
    case True
    have lt: "int i < int j" using Suc.hyps(2) by simp
    have "d = k - i" "i \<le> k" "k < length v" using Suc.hyps(2) Suc.prems k by simp_all
    then obtain j' where j': "skip_down v h (int i) (int k) = Some (int j')" "i \<le> j'" "j' \<le> k"
      "\<forall>q. j' < q \<and> q \<le> k \<longrightarrow> v ! q \<le> h"
      using Suc.hyps(1) [of k] by blast
    moreover have "at v (int j) = Some (v ! j)" using Suc.prems(2) by simp
    then have "skip_down v h (int i) (int j) = skip_down v h (int i) (int k)"
      using lt True k by (subst skip_down.simps) simp
    moreover have "\<forall>q. j' < q \<and> q \<le> j \<longrightarrow> v ! q \<le> h" using j'(4) True k by (metis le_SucE)
    ultimately show ?thesis using k by (intro exI [of _ j']) auto
  next
    case False
    then have "skip_down v h (int i) (int j) = Some (int j)"
      using Suc.hyps(2) Suc.prems(2) by (subst skip_down.simps) simp
    then show ?thesis using Suc.prems False by auto
  qed
qed

lemma area_bounded:
  assumes "i \<le> p" "p < q" "q \<le> j" "v ! p \<le> h \<or> v ! q \<le> h" "0 \<le> m" "(int j - int i) * h \<le> m"
  shows "area v p q \<le> m"
proof -
  have "area v p q \<le> (int q - int p) * h"
    unfolding area_def using assms(2,4) by (intro mult_left_mono) auto
  moreover have "(int q - int p) * h \<le> m"
  proof (cases "0 \<le> h")
    case True
    then have "(int q - int p) * h \<le> (int j - int i) * h" using assms(1,3) by (intro mult_right_mono) auto
    then show ?thesis using assms(6) by simp
  next
    case False
    then have "(int q - int p) * h \<le> 0" using assms(2) by (intro mult_nonneg_nonpos) auto
    then show ?thesis using assms(5) by simp
  qed
  ultimately show ?thesis by simp
qed

definition largest_area :: "int list \<Rightarrow> int \<Rightarrow> bool" where
  "largest_area v m \<longleftrightarrow> (m = 0 \<or> (\<exists>p q. p < q \<and> q < length v \<and> m = area v p q)) \<and> 0 \<le> m \<and>
     (\<forall>p q. p < q \<and> q < length v \<longrightarrow> area v p q \<le> m)"

lemma area_loop_largest:
  assumes "i \<le> j" "j < length v" "m = 0 \<or> (\<exists>p q. p < q \<and> q < length v \<and> m = area v p q)" "0 \<le> m"
    "\<forall>p q. p < q \<and> q < length v \<and> (p < i \<or> j < q) \<longrightarrow> area v p q \<le> m"
  shows "\<exists>r. area_loop v (int i) (int j) m = Some r \<and> largest_area v r"
  using assms
proof (induction "j - i" arbitrary: i j m rule: less_induct)
  case less
  show ?case
  proof (cases "i < j")
    case False
    then have "area v p q \<le> m" if "p < q" "q < length v" for p q
      using less.prems(1,5) that by (metis le_antisym le_less_trans linorder_not_le order_less_imp_le)
    then have "largest_area v m" using less.prems(3,4) by (auto simp: largest_area_def)
    then show ?thesis using False by (subst area_loop.simps) simp
  next
    case True
    let ?h = "min (v ! i) (v ! j)"
    let ?m = "if (int j - int i) * ?h > m then (int j - int i) * ?h else m"
    obtain i' where i': "skip_up v ?h (int i) (int j) = Some (int i')" "i \<le> i'" "i' \<le> j"
      "\<forall>p. i \<le> p \<and> p < i' \<longrightarrow> v ! p \<le> ?h" "v ! i \<le> ?h \<longrightarrow> i < i'"
      using skip_up_spec [OF less.prems(1,2), of ?h] True by blast
    obtain j' where j': "skip_down v ?h (int i') (int j) = Some (int j')" "i' \<le> j'" "j' \<le> j"
      "\<forall>q. j' < q \<and> q \<le> j \<longrightarrow> v ! q \<le> ?h" "i' < j \<and> v ! j \<le> ?h \<longrightarrow> j' < j"
      using skip_down_spec [OF i'(3) less.prems(2), of ?h] by blast
    have run: "area_loop v (int i) (int j) m = area_loop v (int i') (int j') ?m"
      using True less.prems(2) i'(1) j'(1) by (subst area_loop.simps) simp
    have "v ! i \<le> ?h \<or> v ! j \<le> ?h" by auto
    then have shrink: "j' - i' < j - i" using i'(2,3,5) j'(2,3,5) True by linarith
    have m: "?m = 0 \<or> (\<exists>p q. p < q \<and> q < length v \<and> ?m = area v p q)" "0 \<le> ?m" "m \<le> ?m" "(int j - int i) * ?h \<le> ?m"
      using less.prems(2,3,4) True by (auto simp: area_def)
    have "area v p q \<le> ?m" if pq: "p < q" "q < length v" "p < i' \<or> j' < q" for p q
    proof (cases "p < i \<or> j < q")
      case True
      then show ?thesis using less.prems(5) pq m(3) by force
    next
      case False
      then have "v ! p \<le> ?h \<or> v ! q \<le> ?h" using i'(4) j'(4) pq(3) by (meson linorder_not_le)
      then show ?thesis using area_bounded [of i p q j v ?h ?m] False pq(1) m(2,4) by simp
    qed
    then show ?thesis
      using less.hyps [OF shrink j'(2) _ m(1,2)] j'(3) less.prems(2) run by auto
  qed
qed

lemma maxArea_largest: "\<exists>r. maxArea v = Some r \<and> largest_area v r"
proof (cases "v = []")
  case True
  then show ?thesis by (simp add: maxArea_def largest_area_def) (subst area_loop.simps, simp)
next
  case False
  then obtain n where n: "length v = Suc n" by (cases v) auto
  then show ?thesis using area_loop_largest [of 0 n v 0] by (auto simp: maxArea_def)
qed

text \<open>
  The two programs with moving indices return, without an access outside their sequence: the
  length of the longest part of the string without a repeated character; and the largest area
  \<open>(q - p) * min (v\<^sub>p, v\<^sub>q)\<close> over two lines, or 0 when there are no two lines or every area is
  negative, although each round skips all lines that are not higher than the lower end.
\<close>

theorem windows_optimal:
  "(\<exists>r. lengthOfLongestSubstring s = Some (int r) \<and>
      (\<exists>us ys vs. s = us @ ys @ vs \<and> distinct ys \<and> length ys = r) \<and>
      (\<forall>us ys vs. s = us @ ys @ vs \<and> distinct ys \<longrightarrow> length ys \<le> r)) \<and>
   (\<exists>m. maxArea v = Some m \<and> (m = 0 \<or> (\<exists>p q. p < q \<and> q < length v \<and> m = area v p q)) \<and>
      (\<forall>p q. p < q \<and> q < length v \<longrightarrow> area v p q \<le> m))"
  using lengthOfLongestSubstring_longest [of s] maxArea_largest [of v] unfolding largest_area_def by blast

theorem windows_optimal_witness:
  "\<exists>m. maxArea [10, 20, 10, 10, 15] = Some m \<and> area [10, 20, 10, 10, 15] 1 4 \<le> m"
  using windows_optimal [of "[]" "[10, 20, 10, 10, 15]"] by (auto intro: exI)

end
