(* ===== verification/LcPalindrome.thy ===== *)
theory LcPalindrome
  imports Prelude
begin

text \<open>
  The longest palindromic substring (\<^verbatim>\<open>hobbies/leetcode/algorithms/solution_5\<close>): by expanding
  around every centre, by comparing with the reversed string, and by Manacher's algorithm on the
  string with separators. \<open>None\<close> is an access outside a string or a table.
\<close>

section \<open>Expanding around centres\<close>

function expand_loop :: "string \<Rightarrow> int \<Rightarrow> int \<Rightarrow> int \<Rightarrow> int \<Rightarrow> (int \<times> int) option" where
  "expand_loop s low high max_len start =
     (if low \<ge> 0 \<and> high < size_of s then do {
        x \<leftarrow> at s low;
        y \<leftarrow> at s high;
        if x = y then
          (if high - low + 1 > max_len then expand_loop s (low - 1) (high + 1) (high - low + 1) low
           else expand_loop s (low - 1) (high + 1) max_len start)
        else Some (max_len, start) }
      else Some (max_len, start))"
  by pat_completeness auto
termination by (relation "measure (\<lambda>(s, l, h, m, a). nat (l + 1))") auto

function centres_loop :: "string \<Rightarrow> int \<Rightarrow> int \<Rightarrow> int \<Rightarrow> (int \<times> int) option" where
  "centres_loop s i max_len start =
     (if i < size_of s then do {
        (m1, s1) \<leftarrow> expand_loop s (i - 1) i max_len start;
        (m2, s2) \<leftarrow> expand_loop s (i - 1) (i + 1) m1 s1;
        centres_loop s (i + 1) m2 s2 }
      else Some (max_len, start))"
  by pat_completeness auto
termination by (relation "measure (\<lambda>(s, i, m, a). nat (size_of s - i))") auto

definition longestPalindrome :: "string \<Rightarrow> string option" where
  "longestPalindrome s =
     (if s = [] then Some []
      else map_option (\<lambda>(max_len, start). take (nat max_len) (drop (nat start) s)) (centres_loop s 1 1 0))"

declare expand_loop.simps [simp del] centres_loop.simps [simp del]

section \<open>Palindromes in a string\<close>

definition pal :: "'a list \<Rightarrow> nat \<Rightarrow> nat \<Rightarrow> bool" where
  \<comment> \<open>the part from \<open>a\<close> up to and without \<open>b\<close> is a palindrome\<close>
  "pal s a b \<longleftrightarrow> a \<le> b \<and> b \<le> length s \<and> (\<forall>t. a + t < b \<longrightarrow> s ! (a + t) = s ! (b - 1 - t))"

lemma pal_rev: "pal s a b \<longleftrightarrow> a \<le> b \<and> b \<le> length s \<and> rev (take (b - a) (drop a s)) = take (b - a) (drop a s)"
proof (cases "a \<le> b \<and> b \<le> length s")
  case True
  let ?p = "take (b - a) (drop a s)"
  have l: "length ?p = b - a" using True diff_le_mono [of b "length s" a] by simp
  have "rev ?p = ?p \<longleftrightarrow> (\<forall>t<b - a. rev ?p ! t = ?p ! t)"
    using l by (auto intro: nth_equalityI)
  also have "\<dots> \<longleftrightarrow> (\<forall>t<b - a. s ! (b - 1 - t) = s ! (a + t))"
  proof -
    have "rev ?p ! t = s ! (b - 1 - t)" "?p ! t = s ! (a + t)" if "t < b - a" for t
    proof -
      have "rev ?p ! t = ?p ! (b - a - 1 - t)" using that l by (simp add: rev_nth)
      also have "\<dots> = s ! (a + (b - a - 1 - t))" using that True by simp
      also have "a + (b - a - 1 - t) = b - 1 - t" using that by simp
      finally show "rev ?p ! t = s ! (b - 1 - t)" .
      show "?p ! t = s ! (a + t)" using that True by simp
    qed
    then show ?thesis by simp
  qed
  also have "\<dots> \<longleftrightarrow> (\<forall>t. a + t < b \<longrightarrow> s ! (a + t) = s ! (b - 1 - t))"
    by (metis add.commute less_diff_conv)
  finally show ?thesis using True by (auto simp: pal_def)
qed (auto simp: pal_def)

definition longest_palindrome :: "'a list \<Rightarrow> 'a list \<Rightarrow> bool" where
  "longest_palindrome s r \<longleftrightarrow> rev r = r \<and> (\<exists>us vs. s = us @ r @ vs) \<and>
     (\<forall>us ys vs. s = us @ ys @ vs \<and> rev ys = ys \<longrightarrow> length ys \<le> length r)"

lemma longest_palindromeI:
  assumes "pal s a (a + l)" "\<And>a b. pal s a b \<Longrightarrow> b - a \<le> l"
  shows "longest_palindrome s (take l (drop a s))"
  unfolding longest_palindrome_def
proof (intro conjI allI impI)
  show "rev (take l (drop a s)) = take l (drop a s)" using assms(1) by (simp add: pal_rev)
  show "\<exists>us vs. s = us @ take l (drop a s) @ vs" by (metis append_take_drop_id)
  fix us ys vs
  assume "s = us @ ys @ vs \<and> rev ys = ys"
  then have "pal s (length us) (length us + length ys)" by (simp add: pal_rev)
  then have "length ys \<le> l" using assms(2) by fastforce
  moreover have "length (take l (drop a s)) = l" using assms(1) by (auto simp: pal_def min_def)
  ultimately show "length ys \<le> length (take l (drop a s))" by simp
qed

section \<open>The expansion is exhaustive\<close>

lemma expand_loop_spec:
  assumes "pal s l h" "pal s (nat start) (nat start + nat m)" "0 \<le> start" "0 \<le> m"
  shows "\<exists>m' start'. expand_loop s (int l - 1) (int h) m start = Some (m', start') \<and>
    pal s (nat start') (nat start' + nat m') \<and> 0 \<le> start' \<and> m \<le> m' \<and>
    (\<forall>a b. pal s a b \<and> a + b = l + h \<and> a < l \<longrightarrow> int (b - a) \<le> m')"
  using assms
proof (induction l arbitrary: h m start)
  case 0
  then show ?case by (subst expand_loop.simps) simp
next
  case (Suc l)
  show ?case
  proof (cases "h < length s \<and> s ! l = s ! h")
    case False
    have no: "\<not> (pal s a b \<and> a + b = Suc l + h \<and> a < Suc l)" for a b
    proof
      assume ab: "pal s a b \<and> a + b = Suc l + h \<and> a < Suc l"
      then have "\<forall>t. a + t < b \<longrightarrow> s ! (a + t) = s ! (b - 1 - t)" "b \<le> length s" by (auto simp: pal_def)
      moreover have "a + (l - a) < b" "h < b" using ab Suc.prems(1) by (auto simp: pal_def)
      ultimately have "s ! (a + (l - a)) = s ! (b - 1 - (l - a))" "h < length s" by (blast, simp)
      moreover have "a + (l - a) = l" "b - 1 - (l - a) = h" using ab by auto
      ultimately show False using False by simp
    qed
    have "expand_loop s (int (Suc l) - 1) (int h) m start = Some (m, start)"
      using False Suc.prems(1) by (subst expand_loop.simps) (auto simp: pal_def)
    then show ?thesis using no Suc.prems by blast
  next
    case True
    have p: "pal s l (Suc h)"
      unfolding pal_def
    proof (intro conjI allI impI)
      show "l \<le> Suc h" "Suc h \<le> length s" using Suc.prems(1) True by (auto simp: pal_def)
      fix t
      assume t: "l + t < Suc h"
      show "s ! (l + t) = s ! (Suc h - 1 - t)"
      proof (cases t)
        case 0
        then show ?thesis using True by simp
      next
        case (Suc t')
        show ?thesis
        proof (cases "l + t = h")
          case True
          then show ?thesis using \<open>h < length s \<and> s ! l = s ! h\<close> Suc by auto
        next
          case False
          then have "s ! (Suc l + t') = s ! (h - 1 - t')" using Suc.prems(1) t Suc unfolding pal_def by simp
          then show ?thesis using Suc by simp
        qed
      qed
    qed
    let ?len = "int h - int l + 1"
    have len: "?len = int (Suc h - l)" using p by (simp add: pal_def of_nat_diff)
    obtain m0 s0 where r: "m0 = (if ?len > m then ?len else m)" "s0 = (if ?len > m then int l else start)" by blast
    have "nat ?len = Suc h - l" "l + (Suc h - l) = Suc h" using len p by (simp_all only: nat_int pal_def le_add_diff_inverse)
    then have pl: "pal s l (l + nat ?len)" using p by simp
    have 0: "pal s (nat s0) (nat s0 + nat m0)" "0 \<le> s0" "0 \<le> m0" "m \<le> m0" "?len \<le> m0"
      using Suc.prems pl unfolding r by auto
    have run: "expand_loop s (int (Suc l) - 1) (int h) m start = expand_loop s (int l - 1) (int (Suc h)) m0 s0"
      using True Suc.prems(1) unfolding r by (subst expand_loop.simps) (auto simp: pal_def add.commute)
    obtain m' start' where IH: "expand_loop s (int l - 1) (int (Suc h)) m0 s0 = Some (m', start')"
      "pal s (nat start') (nat start' + nat m')" "0 \<le> start'" "m0 \<le> m'"
      "\<forall>a b. pal s a b \<and> a + b = l + Suc h \<and> a < l \<longrightarrow> int (b - a) \<le> m'"
      using Suc.IH [OF p 0(1-3)] by blast
    have "int (b - a) \<le> m'" if ab: "pal s a b" "a + b = Suc l + h" "a < Suc l" for a b
    proof (cases "a = l")
      case True
      then have "b = Suc h" using ab(2) by simp
      then show ?thesis using True IH(4) 0(5) len by simp
    next
      case False
      then have "a + b = l + Suc h" "a < l" using ab by auto
      then show ?thesis using IH(5) ab(1) by blast
    qed
    then show ?thesis using run IH 0(4) by (intro exI [of _ m'] exI [of _ start']) auto
  qed
qed

lemma pal_trivial: "a \<le> length s \<Longrightarrow> pal s a a" "a < length s \<Longrightarrow> pal s a (Suc a)"
  by (auto simp: pal_def)

lemma centres_loop_spec:
  assumes "0 < i" "i \<le> length s" "pal s (nat start) (nat start + nat m)" "0 \<le> start" "1 \<le> m"
    "\<forall>a b. pal s a b \<and> a + b < 2 * i \<longrightarrow> int (b - a) \<le> m"
  shows "\<exists>m' start'. centres_loop s (int i) m start = Some (m', start') \<and>
    pal s (nat start') (nat start' + nat m') \<and> 0 \<le> start' \<and> 1 \<le> m' \<and> (\<forall>a b. pal s a b \<longrightarrow> int (b - a) \<le> m')"
  using assms
proof (induction "length s - i" arbitrary: i m start)
  case 0
  have "int (b - a) \<le> m" if "pal s a b" for a b
  proof (cases "a + b < 2 * i")
    case False
    then have "a = b" using that 0 by (auto simp: pal_def)
    then show ?thesis using 0 by simp
  qed (use 0 that in blast)
  then show ?case using 0 by (subst centres_loop.simps) auto
next
  case (Suc d)
  then have i: "i < length s" by simp
  obtain m1 s1 where 1: "expand_loop s (int i - 1) (int i) m start = Some (m1, s1)" "pal s (nat s1) (nat s1 + nat m1)"
    "0 \<le> s1" "m \<le> m1" "\<forall>a b. pal s a b \<and> a + b = i + i \<and> a < i \<longrightarrow> int (b - a) \<le> m1"
    using expand_loop_spec [OF pal_trivial(1) [of i s] Suc.prems(3,4)] i Suc.prems(5) by auto
  obtain m2 s2 where 2: "expand_loop s (int i - 1) (int (Suc i)) m1 s1 = Some (m2, s2)" "pal s (nat s2) (nat s2 + nat m2)"
    "0 \<le> s2" "m1 \<le> m2" "\<forall>a b. pal s a b \<and> a + b = i + Suc i \<and> a < i \<longrightarrow> int (b - a) \<le> m2"
    using expand_loop_spec [OF pal_trivial(2) [OF i] 1(2,3)] Suc.prems(5) 1(4) by auto
  have run: "centres_loop s (int i) m start = centres_loop s (int (Suc i)) m2 s2"
    using 1(1) 2(1) i by (subst centres_loop.simps) (simp add: add.commute)
  have "int (b - a) \<le> m2" if ab: "pal s a b" "a + b < 2 * Suc i" for a b
  proof -
    consider "a + b < 2 * i" | "a + b = i + i" "a < i" | "a + b = i + Suc i" "a < i" | "b - a \<le> 1"
      using ab by (auto simp: pal_def) linarith
    then show ?thesis using Suc.prems(5,6) 1(4,5) 2(4,5) ab(1) by cases force+
  qed
  then show ?case
    using Suc.hyps(1) [of "Suc i" s2 m2] Suc.hyps(2) 1(4) 2(2,3,4) Suc.prems(5) run i by auto
qed

lemma longestPalindrome_longest: "\<exists>r. longestPalindrome s = Some r \<and> longest_palindrome s r"
proof (cases "s = []")
  case True
  then show ?thesis by (simp add: longestPalindrome_def longest_palindrome_def)
next
  case False
  have "int (b - a) \<le> 1" if "pal s a b \<and> a + b < 2 * 1" for a b using that by (auto simp: pal_def)
  then obtain m st where m: "centres_loop s 1 1 0 = Some (m, st)" "pal s (nat st) (nat st + nat m)" "1 \<le> m"
    "\<forall>a b. pal s a b \<longrightarrow> int (b - a) \<le> m"
    using centres_loop_spec [of 1 s 0 1] pal_trivial(2) [of 0 s] False by (auto simp: Suc_le_eq)
  have "b - a \<le> nat m" if "pal s a b" for a b using m(3,4) that by (simp add: le_nat_iff)
  then show ?thesis using longest_palindromeI [OF m(2)] m(1) False by (simp add: longestPalindrome_def)
qed

section \<open>Manacher's algorithm\<close>

function spread_loop :: "string \<Rightarrow> int \<Rightarrow> string \<Rightarrow> string option" where
  "spread_loop s i ext =
     (if i < size_of s then do { x \<leftarrow> at s i; e \<leftarrow> put_at ext (2 * i + 1) x; spread_loop s (i + 1) e }
      else Some ext)"
  by pat_completeness auto
termination by (relation "measure (\<lambda>(s, i, e). nat (size_of s - i))") auto

function radius_loop :: "string \<Rightarrow> int \<Rightarrow> int \<Rightarrow> int \<Rightarrow> int option" where
  \<comment> \<open>the value \<^verbatim>\<open>records[i]\<close> reaches\<close>
  "radius_loop ext i j rec =
     (if i - j \<ge> 0 \<and> i + j < size_of ext then do {
        x \<leftarrow> at ext (i - j);
        y \<leftarrow> at ext (i + j);
        if x = y then radius_loop ext i (j + 1) (rec + 1) else Some rec }
      else Some rec)"
  by pat_completeness auto
termination by (relation "measure (\<lambda>(e, i, j, k). nat (i - j + 1))") auto

function manacher_loop :: "string \<Rightarrow> int \<Rightarrow> int list \<Rightarrow> int \<Rightarrow> int \<Rightarrow> int \<Rightarrow> (int list \<times> int) option" where
  "manacher_loop ext i records c r max_pos =
     (if i < size_of ext then do {
        k \<leftarrow> (if r > i then map_option (\<lambda>m. min m (r - i)) (at records (2 * c - i)) else Some 0);
        rad \<leftarrow> radius_loop ext i (k + 1) k;
        records' \<leftarrow> put_at records i rad;
        best \<leftarrow> at records' max_pos;
        let (c', r') = (if rad + i > r then (i, rad + i) else (c, r)) in
        manacher_loop ext (i + 1) records' c' r' (if rad > best then i else max_pos) }
      else Some (records, max_pos))"
  by pat_completeness auto
termination by (relation "measure (\<lambda>(e, i, t, c, r, m). nat (size_of e - i))") auto

definition longestPalindrome3 :: "string \<Rightarrow> string option" where
  "longestPalindrome3 s = do {
     ext \<leftarrow> spread_loop s 0 (replicate (2 * length s + 1) CHR ''#'');
     (records, max_pos) \<leftarrow> manacher_loop ext 1 (replicate (length ext) 0) 0 0 0;
     k \<leftarrow> at records max_pos;
     if 0 \<le> max_pos - k \<and> max_pos + k \<le> size_of ext
     then Some (filter (\<lambda>c. c \<noteq> CHR ''#'') (take (nat (2 * k)) (drop (nat (max_pos - k)) ext)))
     else None }"

declare spread_loop.simps [simp del] radius_loop.simps [simp del] manacher_loop.simps [simp del]

lemma manacher_examples:
  "longestPalindrome3 ''abbada'' = Some ''abba''" "longestPalindrome3 ''abaa'' = Some ''aba''"
  "longestPalindrome3 [] = Some []" "longestPalindrome3 ''a#b#a'' = Some ''aba''"
  by code_simp+

definition around :: "'a list \<Rightarrow> nat \<Rightarrow> nat \<Rightarrow> bool" where
  "around e i k \<longleftrightarrow> k \<le> i \<and> i + k < length e \<and> (\<forall>j\<le>k. e ! (i - j) = e ! (i + j))"

definition radius :: "'a list \<Rightarrow> nat \<Rightarrow> nat \<Rightarrow> bool" where
  "radius e i k \<longleftrightarrow> around e i k \<and> \<not> around e i (Suc k)"

lemma around_0: "i < length e \<Longrightarrow> around e i 0"
  by (simp add: around_def)

lemma around_mono: "around e i k \<Longrightarrow> j \<le> k \<Longrightarrow> around e i j"
  by (auto simp: around_def)

lemma around_Suc:
  "around e i (Suc k) \<longleftrightarrow> around e i k \<and> Suc k \<le> i \<and> i + Suc k < length e \<and> e ! (i - Suc k) = e ! (i + Suc k)"
  by (auto simp: around_def le_Suc_eq)

lemma radius_max: "radius e i k \<Longrightarrow> around e i j \<Longrightarrow> j \<le> k"
  unfolding radius_def using around_mono [of e i j "Suc k"] by (metis not_less_eq_eq)

lemma radius_loop_spec:
  assumes "around e i k"
  shows "\<exists>m. radius_loop e (int i) (int k + 1) (int k) = Some (int m) \<and> radius e i m"
  using assms
proof (induction "length e - k" arbitrary: k rule: less_induct)
  case less
  show ?case
  proof (cases "around e i (Suc k)")
    case True
    then have k: "Suc k \<le> i" "i + Suc k < length e" "e ! (i - Suc k) = e ! (i + Suc k)" by (auto simp: around_Suc)
    have "int i - (int k + 1) = int (i - Suc k)" "int i + (int k + 1) = int (i + Suc k)" using k by auto
    then have "at e (int i - (int k + 1)) = Some (e ! (i - Suc k))" "at e (int i + (int k + 1)) = Some (e ! (i - Suc k))"
      using k by (metis at_nat less_imp_diff_less less_trans_Suc trans_less_add1 le_less_trans add_lessD1, metis at_nat)
    then have "radius_loop e (int i) (int k + 1) (int k) = radius_loop e (int i) (int k + 1 + 1) (int k + 1)"
      using k by (subst radius_loop.simps) simp
    then have "radius_loop e (int i) (int k + 1) (int k) = radius_loop e (int i) (int (Suc k) + 1) (int (Suc k))"
      by (simp add: add.commute)
    then show ?thesis using less.hyps [OF _ True] k by simp
  next
    case False
    have n: "nat (int i - (int k + 1)) = i - Suc k" "nat (int i + (int k + 1)) = i + Suc k" by auto
    have "radius_loop e (int i) (int k + 1) (int k) = Some (int k)"
      using False less.prems by (subst radius_loop.simps) (auto simp: n around_Suc)
    then show ?thesis using False less.prems by (auto simp: radius_def)
  qed
qed

text \<open>A palindrome around \<open>i\<close> inside the palindrome around \<open>c\<close> is that around the mirror image of \<open>i\<close>.\<close>

lemma around_mirror:
  assumes "around e c R" "c < i" "i < c + R" "around e (2 * c - i) m" "k \<le> m" "k \<le> c + R - i"
  shows "around e i k"
  unfolding around_def
proof (intro conjI allI impI)
  have c: "R \<le> c" "c + R < length e" "\<And>j. j \<le> R \<Longrightarrow> e ! (c - j) = e ! (c + j)" using assms(1) by (auto simp: around_def)
  show "k \<le> i" "i + k < length e" using assms c by auto
  fix j
  assume j: "j \<le> k"
  have mir: "e ! (2 * c - x) = e ! x" if "c - R \<le> x" "x \<le> c + R" for x
  proof (cases "c \<le> x")
    case True
    then have "c - (x - c) = 2 * c - x" "c + (x - c) = x" by auto
    then show ?thesis using c(3) [of "x - c"] that by simp
  next
    case False
    then have "c + (c - x) = 2 * c - x" "c - (c - x) = x" by auto
    then show ?thesis using c(3) [of "c - x"] that by simp
  qed
  have "e ! (2 * c - i - j) = e ! (2 * c - i + j)" using assms(4,5) j by (auto simp: around_def)
  moreover have "2 * c - i - j = 2 * c - (i + j)" "2 * c - i + j = 2 * c - (i - j)" using j assms c by auto
  ultimately show "e ! (i - j) = e ! (i + j)" using mir [of "i - j"] mir [of "i + j"] j assms c by auto
qed

definition man_inv :: "'a list \<Rightarrow> nat \<Rightarrow> int list \<Rightarrow> nat \<Rightarrow> nat \<Rightarrow> nat \<Rightarrow> bool" where
  "man_inv e i t c R mp \<longleftrightarrow> length t = length e \<and> c < i \<and> mp < i \<and> radius e c R \<and>
     (\<forall>k<i. radius e k (nat (t ! k)) \<and> 0 \<le> t ! k \<and> t ! k \<le> t ! mp)"

lemma man_inv_step:
  assumes "man_inv e i t c R mp" "i < length e" "radius e i m"
  shows "man_inv e (Suc i) (t[i := int m]) (if m + i > c + R then i else c) (if m + i > c + R then m else R)
     (if int m > t ! mp then i else mp)"
  using assms unfolding man_inv_def
  by (auto simp: nth_list_update less_Suc_eq)

lemma man_start:
  assumes "man_inv e i t c R mp" "i < length e"
  shows "\<exists>k. (if int (c + R) > int i then map_option (\<lambda>m. min m (int (c + R) - int i)) (at t (2 * int c - int i)) else Some 0)
      = Some (int k) \<and> around e i k"
proof (cases "i < c + R")
  case True
  have c: "c < i" "radius e c R" "length t = length e" using assms(1) by (auto simp: man_inv_def)
  then have R: "R \<le> c" "around e c R" by (auto simp: radius_def around_def)
  then have i: "2 * c - i < i" "2 * int c - int i = int (2 * c - i)" using c True by auto
  let ?m = "nat (t ! (2 * c - i))"
  have m: "radius e (2 * c - i) ?m" "t ! (2 * c - i) = int ?m" using assms(1) i(1) by (auto simp: man_inv_def)
  have "at t (2 * int c - int i) = Some (int ?m)" using i assms(2) c(3) m(2) by (metis at_nat less_trans)
  moreover have "int (c + R) - int i = int (c + R - i)" using True by simp
  moreover have "around e i (min ?m (c + R - i))"
    using around_mirror [OF R(2) c(1) True, of ?m] m(1) by (simp add: radius_def)
  moreover have "min (int ?m) (int (c + R - i)) = int (min ?m (c + R - i))" by (simp add: of_nat_min)
  moreover have "int (c + R) > int i" using True by simp
  ultimately have "(if int (c + R) > int i then map_option (\<lambda>m. min m (int (c + R) - int i)) (at t (2 * int c - int i)) else Some 0)
      = Some (int (min ?m (c + R - i))) \<and> around e i (min ?m (c + R - i))"
    by (simp only: if_True option.map)
  then show ?thesis ..
qed (use assms around_0 in auto)

lemma manacher_loop_spec:
  assumes "man_inv e i t c R mp" "i \<le> length e"
  shows "\<exists>t' mp' c' R'. manacher_loop e (int i) t (int c) (int (c + R)) (int mp) = Some (t', int mp') \<and>
    man_inv e (length e) t' c' R' mp'"
  using assms
proof (induction "length e - i" arbitrary: i t c R mp)
  case 0
  then show ?case by (subst manacher_loop.simps) auto
next
  case (Suc d)
  then have i: "i < length e" by simp
  obtain k where k: "(if int (c + R) > int i then map_option (\<lambda>m. min m (int (c + R) - int i)) (at t (2 * int c - int i)) else Some 0)
      = Some (int k)" "around e i k"
    using man_start [OF Suc.prems(1) i] by blast
  obtain m where m: "radius_loop e (int i) (int k + 1) (int k) = Some (int m)" "radius e i m"
    using radius_loop_spec [OF k(2)] by blast
  have t: "length t = length e" "mp < i" using Suc.prems(1) by (auto simp: man_inv_def)
  let ?t = "t[i := int m]"
  have "put_at t (int i) (int m) = Some ?t" "at ?t (int mp) = Some (t ! mp)" using i t by (auto simp: put_at_in)
  then have run: "manacher_loop e (int i) t (int c) (int (c + R)) (int mp) =
      manacher_loop e (int (Suc i)) ?t (int (if m + i > c + R then i else c))
        (int ((if m + i > c + R then i else c) + (if m + i > c + R then m else R)))
        (int (if int m > t ! mp then i else mp))"
    by (subst manacher_loop.simps) (use k(1) m(1) i in \<open>simp add: add.commute\<close>)
  show ?case
    using Suc.hyps(1) [OF _ man_inv_step [OF Suc.prems(1) i m(2)]] Suc.hyps(2) i unfolding run by simp
qed


section \<open>Separators between the characters\<close>

definition separated :: "string \<Rightarrow> string \<Rightarrow> bool" where
  "separated s e \<longleftrightarrow> length e = 2 * length s + 1 \<and> (\<forall>k<length s. e ! (2 * k + 1) = s ! k) \<and>
     (\<forall>k\<le>length s. e ! (2 * k) = CHR ''#'')"

lemma spread_loop_spec:
  assumes "i \<le> length s" "length ext = 2 * length s + 1" "\<forall>k<i. ext ! (2 * k + 1) = s ! k"
    "\<forall>k\<le>length s. ext ! (2 * k) = CHR ''#''"
  shows "\<exists>e. spread_loop s (int i) ext = Some e \<and> separated s e"
  using assms
proof (induction "length s - i" arbitrary: i ext)
  case 0
  then show ?case by (subst spread_loop.simps) (simp add: separated_def)
next
  case (Suc d)
  then have i: "i < length s" by simp
  let ?e = "ext[2 * i + 1 := s ! i]"
  have "2 * int i + 1 = int (2 * i + 1)" by simp
  then have "put_at ext (2 * int i + 1) (s ! i) = Some ?e" using i Suc.prems(2) by (simp only: put_at_def nat_int) simp
  then have run: "spread_loop s (int i) ext = spread_loop s (int (Suc i)) ?e"
    using i by (subst spread_loop.simps) (simp add: add.commute)
  have odd: "2 * k \<noteq> 2 * i + 1" for k by presburger
  show ?case unfolding run
  proof (rule Suc.hyps(1))
    show "\<forall>k<Suc i. ?e ! (2 * k + 1) = s ! k" using Suc.prems(2,3) i by (auto simp: nth_list_update less_Suc_eq)
    show "\<forall>k\<le>length s. ?e ! (2 * k) = CHR ''#''" using Suc.prems(4) odd by (metis nth_list_update_neq)
  qed (use Suc.hyps(2) Suc.prems i in auto)
qed

lemma separated_even: "separated s e \<Longrightarrow> even x \<Longrightarrow> x < length e \<Longrightarrow> e ! x = CHR ''#''"
  by (auto simp: separated_def elim!: evenE)

lemma separated_odd: "separated s e \<Longrightarrow> x < length s \<Longrightarrow> e ! Suc (2 * x) = s ! x"
  by (simp add: separated_def)

lemma pal_around:
  assumes "separated s e" "pal s a b"
  shows "around e (a + b) (b - a)"
  unfolding around_def
proof (intro conjI allI impI)
  have ab: "a \<le> b" "b \<le> length s" "\<And>t. a + t < b \<Longrightarrow> s ! (a + t) = s ! (b - 1 - t)" using assms(2) by (auto simp: pal_def)
  have len: "length e = 2 * length s + 1" using assms(1) by (simp add: separated_def)
  show "b - a \<le> a + b" "a + b + (b - a) < length e" using ab(1,2) len by auto
  fix j
  assume j: "j \<le> b - a"
  show "e ! (a + b - j) = e ! (a + b + j)"
  proof (cases "even (a + b + j)")
    case True
    then have "even (a + b - j)" using j ab(1) by presburger
    then show ?thesis using separated_even [OF assms(1)] True j ab(1,2) len by simp
  next
    case False
    then obtain v where v: "a + b + j = Suc (2 * v)" by (metis Suc_eq_plus1 oddE)
    define t where "t = b - 1 - v"
    have t: "v = b - 1 - t" "a + t < b" "a + b - j = Suc (2 * (a + t))" "a + t < length s" "v < length s"
      using v j ab(1,2) unfolding t_def by auto
    show ?thesis 
      unfolding t(3) v separated_odd [OF assms(1) t(4)] separated_odd [OF assms(1) t(5)] using ab(3) [OF t(2)] t(1) by simp
  qed
qed

lemma around_pal:
  assumes "separated s e" "a \<le> b" "b \<le> length s" "around e (a + b) (b - a)"
  shows "pal s a b"
  unfolding pal_def
proof (intro conjI allI impI)
  have ar: "\<And>j. j \<le> b - a \<Longrightarrow> e ! (a + b - j) = e ! (a + b + j)" using assms(4) by (auto simp: around_def)
  fix t
  assume t: "a + t < b"
  have c: "e ! Suc (2 * (a + t)) = s ! (a + t)" "e ! Suc (2 * (b - 1 - t)) = s ! (b - 1 - t)"
    by (rule separated_odd [OF assms(1)]; use t assms(2,3) in simp)+
  show "s ! (a + t) = s ! (b - 1 - t)"
  proof (cases "2 * t + 1 \<le> b - a")
    case True
    then have "a + b - (b - a - (2 * t + 1)) = Suc (2 * (a + t))" "a + b + (b - a - (2 * t + 1)) = Suc (2 * (b - 1 - t))" by auto
    then show ?thesis using ar [of "b - a - (2 * t + 1)"] c by simp
  next
    case False
    then have "a + b + (2 * t + 1 - (b - a)) = Suc (2 * (a + t))" "a + b - (2 * t + 1 - (b - a)) = Suc (2 * (b - 1 - t))"
      "2 * t + 1 - (b - a) \<le> b - a" using t by auto
    then show ?thesis using ar [of "2 * t + 1 - (b - a)"] c by simp
  qed
qed (use assms in auto)

lemma radius_ends:
  assumes "separated s e" "radius e i k"
  obtains a b where "i = a + b" "k = b - a" "a \<le> b" "b \<le> length s"
proof -
  have k: "k \<le> i" "i + k < 2 * length s + 1" "around e i k" "\<not> around e i (Suc k)" and len: "length e = 2 * length s + 1"
    using assms by (auto simp: radius_def around_def separated_def)
  have "even (i - k)"
  proof (rule ccontr)
    assume odd: "odd (i - k)"
    then have o: "Suc k \<le> i" "even (i - Suc k)" "even (i + Suc k)" "i + Suc k < length e" using k(1,2) len by presburger+
    then have "e ! (i - Suc k) = e ! (i + Suc k)" using separated_even [OF assms(1)] by simp
    then show False using k(3,4) o by (simp add: around_Suc)
  qed
  then obtain a where a: "i - k = 2 * a" by blast
  show ?thesis by (rule that [of a "a + k"]) (use a k in auto)
qed

lemma filter_separated:
  assumes "separated s e" "CHR ''#'' \<notin> set s" "a + l \<le> length s"
  shows "filter (\<lambda>c. c \<noteq> CHR ''#'') (take (2 * l) (drop (2 * a) e)) = take l (drop a s)"
  using assms(3)
proof (induction l)
  case 0
  then show ?case by simp
next
  case (Suc l)
  have len: "length e = 2 * length s + 1" using assms(1) by (simp add: separated_def)
  have "take (2 * Suc l) (drop (2 * a) e) = take (2 * l) (drop (2 * a) e) @ [e ! (2 * (a + l)), e ! Suc (2 * (a + l))]"
  proof -
    have "take (2 * Suc l) (drop (2 * a) e) = take (Suc (Suc (2 * l))) (drop (2 * a) e)" by simp
    also have "\<dots> = take (2 * l) (drop (2 * a) e) @ [drop (2 * a) e ! (2 * l), drop (2 * a) e ! Suc (2 * l)]"
      using Suc.prems len by (simp add: take_Suc_conv_app_nth del: nth_drop)
    finally show ?thesis using Suc.prems len by simp
  qed
  moreover have "e ! (2 * (a + l)) = CHR ''#''" using separated_even [OF assms(1), of "2 * (a + l)"] Suc.prems len by simp
  moreover have "e ! Suc (2 * (a + l)) = s ! (a + l)" by (rule separated_odd [OF assms(1)]) (use Suc.prems in simp)
  moreover have "s ! (a + l) \<noteq> CHR ''#''" using assms(2) Suc.prems nth_mem [of "a + l" s] by force
  moreover have "take (Suc l) (drop a s) = take l (drop a s) @ [s ! (a + l)]"
    using Suc.prems by (simp add: take_Suc_conv_app_nth)
  ultimately show ?case using Suc by simp
qed

lemma longestPalindrome3_longest:
  assumes "CHR ''#'' \<notin> set s"
  shows "\<exists>r. longestPalindrome3 s = Some r \<and> longest_palindrome s r"
proof -
  obtain e where e: "spread_loop s 0 (replicate (2 * length s + 1) CHR ''#'') = Some e" "separated s e"
    using spread_loop_spec [of 0 s "replicate (2 * length s + 1) CHR ''#''"]
    by (simp del: replicate.simps add: nth_replicate) blast
  have len: "length e = 2 * length s + 1" using e(2) by (simp add: separated_def)
  have "man_inv e 1 (replicate (length e) 0) 0 0 0" using len by (simp add: man_inv_def radius_def around_def)
  then obtain t mp c R where m: "manacher_loop e 1 (replicate (length e) 0) 0 0 0 = Some (t, int mp)"
    "man_inv e (length e) t c R mp"
    using manacher_loop_spec [of e 1 "replicate (length e) 0" 0 0 0] len by auto
  let ?k = "nat (t ! mp)"
  have mp: "mp < length t" "length t = length e" "radius e mp ?k" "t ! mp = int ?k"
    and best: "\<And>i. i < length e \<Longrightarrow> radius e i (nat (t ! i)) \<and> nat (t ! i) \<le> ?k"
    using m(2) by (auto simp: man_inv_def)
  obtain a b where ab: "mp = a + b" "?k = b - a" "a \<le> b" "b \<le> length s" by (rule radius_ends [OF e(2) mp(3)])
  have "around e (a + b) (b - a)" using mp(3) unfolding ab(1) [symmetric] ab(2) [symmetric] by (simp add: radius_def)
  then have pal: "pal s a (a + (b - a))" using around_pal [OF e(2) ab(3,4)] ab(3) by simp
  have "y - x \<le> b - a" if "pal s x y" for x y
  proof -
    have xy: "around e (x + y) (y - x)" using pal_around [OF e(2) that] .
    then have "x + y < length e" by (simp add: around_def)
    then show ?thesis using best [of "x + y"] radius_max [OF _ xy] ab(2) by (metis le_trans)
  qed
  then have long: "longest_palindrome s (take (b - a) (drop a s))" using longest_palindromeI [OF pal] by blast
  have "at t (int mp) = Some (int ?k)" using mp by (metis at_nat)
  moreover have "nat (int mp - int ?k) = 2 * a" "0 \<le> int mp - int ?k" "int mp + int ?k \<le> size_of e" "nat (2 * int ?k) = 2 * (b - a)"
    using ab len by auto
  ultimately have "longestPalindrome3 s = Some (filter (\<lambda>c. c \<noteq> CHR ''#'') (take (2 * (b - a)) (drop (2 * a) e)))"
    unfolding longestPalindrome3_def using e(1) m(1) by simp
  then show ?thesis using long filter_separated [OF e(2) assms, of a "b - a"] ab(3,4) by simp
qed

section \<open>Comparing with the reversed string\<close>

definition tab_at :: "int list list \<Rightarrow> int \<Rightarrow> int \<Rightarrow> int option" where
  "tab_at t i j = do { row \<leftarrow> at t i; at row j }"

definition tab_put :: "int list list \<Rightarrow> int \<Rightarrow> int \<Rightarrow> int \<Rightarrow> int list list option" where
  "tab_put t i j v = do { row \<leftarrow> at t i; row' \<leftarrow> put_at row j v; put_at t i row' }"

function common_row :: "string \<Rightarrow> string \<Rightarrow> int \<Rightarrow> int \<Rightarrow> int list list \<Rightarrow> int \<Rightarrow> int \<Rightarrow> (int list list \<times> int \<times> int) option" where
  "common_row s r i j records max_i max_j =
     (if j < size_of r then do {
        x \<leftarrow> at s i;
        y \<leftarrow> at r j;
        v \<leftarrow> (if i = 0 \<or> j = 0 then Some (if x = y then 1 else 0)
             else if x = y then map_option (\<lambda>k. k + 1) (tab_at records (i - 1) (j - 1))
             else Some 0);
        records' \<leftarrow> tab_put records i j v;
        a \<leftarrow> tab_at records' i j;
        b \<leftarrow> tab_at records' max_i max_j;
        if a > b then common_row s r i (j + 1) records' i j
        else common_row s r i (j + 1) records' max_i max_j }
      else Some (records, max_i, max_j))"
  by pat_completeness auto
termination by (relation "measure (\<lambda>(s, r, i, j, t, a, b). nat (size_of r - j))") auto

function common_rows :: "string \<Rightarrow> string \<Rightarrow> int \<Rightarrow> int list list \<Rightarrow> int \<Rightarrow> int \<Rightarrow> (int list list \<times> int \<times> int) option" where
  "common_rows s r i records max_i max_j =
     (if i < size_of s then do {
        (records', mi, mj) \<leftarrow> common_row s r i 0 records max_i max_j;
        common_rows s r (i + 1) records' mi mj }
      else Some (records, max_i, max_j))"
  by pat_completeness auto
termination by (relation "measure (\<lambda>(s, r, i, t, a, b). nat (size_of s - i))") auto

definition longestPalindrome2 :: "string \<Rightarrow> string option" where
  "longestPalindrome2 s =
     (if s = [] then Some []
      else do {
        (records, max_i, max_j) \<leftarrow> common_rows s (rev s) 0 (replicate (length s) (replicate (length s) 0)) 0 0;
        k \<leftarrow> tab_at records max_i max_j;
        if 0 \<le> max_i + 1 - k \<and> max_i + 1 - k \<le> size_of s
        then Some (take (nat k) (drop (nat (max_i + 1 - k)) s))
        else None })"

declare common_row.simps [simp del] common_rows.simps [simp del]

lemma reversed_examples:
  "longestPalindrome2 ''abbada'' = Some ''abba''" "longestPalindrome2 ''abxyba'' = Some ''ab''"
  by code_simp+

fun common_end :: "'a list \<Rightarrow> 'a list \<Rightarrow> nat \<Rightarrow> nat \<Rightarrow> nat" where
  \<comment> \<open>the length of the longest common part that ends at \<open>i\<close> in the one and at \<open>j\<close> in the other\<close>
  "common_end s r i j =
     (if s ! i \<noteq> r ! j then 0 else if i = 0 \<or> j = 0 then 1 else Suc (common_end s r (i - 1) (j - 1)))"

declare common_end.simps [simp del]

lemma common_end_iff:
  "k \<le> common_end s r i j \<longleftrightarrow> k \<le> Suc i \<and> k \<le> Suc j \<and> (\<forall>t<k. s ! (i - t) = r ! (j - t))"
proof (induction s r i j arbitrary: k rule: common_end.induct)
  case (1 s r i j)
  show ?case
  proof (cases "k = 0 \<or> s ! i \<noteq> r ! j \<or> i = 0 \<or> j = 0")
    case True
    then show ?thesis by (subst common_end.simps) (auto simp: le_Suc_eq)
  next
    case False
    then obtain k' where k: "k = Suc k'" by (cases k) auto
    have "(\<forall>t<k. s ! (i - t) = r ! (j - t)) \<longleftrightarrow> (\<forall>t<k'. s ! (i - 1 - t) = r ! (j - 1 - t))"
      using False unfolding k by (auto simp: All_less_Suc2)
    then show ?thesis using 1 [of k'] False k by (subst common_end.simps) auto
  qed
qed

lemma common_end_bound: "common_end s r i j \<le> Suc i" "common_end s r i j \<le> Suc j"
  using common_end_iff [of "common_end s r i j" s r i j] by simp_all

definition before :: "nat \<Rightarrow> nat \<Rightarrow> nat \<Rightarrow> nat \<Rightarrow> bool" where
  \<comment> \<open>the cell \<open>x, y\<close> comes before \<open>i, j\<close> in the order of the loops\<close>
  "before i j x y \<longleftrightarrow> x < i \<or> x = i \<and> y < j"

definition common_inv :: "'a list \<Rightarrow> 'a list \<Rightarrow> nat \<Rightarrow> nat \<Rightarrow> int list list \<Rightarrow> nat \<Rightarrow> nat \<Rightarrow> bool" where
  "common_inv s r i j t mi mj \<longleftrightarrow> length t = length s \<and> (\<forall>x<length s. length (t ! x) = length r) \<and>
     mi < length s \<and> mj < length r \<and> (before i j mi mj \<or> mi = 0 \<and> mj = 0) \<and>
     (\<forall>x<length s. \<forall>y<length r. before i j x y \<longrightarrow>
        t ! x ! y = int (common_end s r x y) \<and> t ! x ! y \<le> t ! mi ! mj)"

lemma before_Suc: "before i (Suc j) x y \<longleftrightarrow> before i j x y \<or> x = i \<and> y = j"
  by (auto simp: before_def)

lemma tab_at_nat: "i < length t \<Longrightarrow> j < length (t ! i) \<Longrightarrow> tab_at t (int i) (int j) = Some (t ! i ! j)"
  by (simp add: tab_at_def)

lemma tab_put_nat:
  "i < length t \<Longrightarrow> j < length (t ! i) \<Longrightarrow> tab_put t (int i) (int j) v = Some (t[i := (t ! i)[j := v]])"
  by (simp add: tab_put_def put_at_in)

lemma common_inv_step:
  assumes "common_inv s r i j t mi mj" "i < length s" "j < length r"
  defines "t' \<equiv> t[i := (t ! i)[j := int (common_end s r i j)]]"
  defines "better \<equiv> t' ! i ! j > t' ! mi ! mj"
  shows "common_inv s r i (Suc j) t' (if better then i else mi) (if better then j else mj)"
proof -
  have len: "length t = length s" "\<And>x. x < length s \<Longrightarrow> length (t ! x) = length r" "mi < length s" "mj < length r"
    and m: "before i j mi mj \<or> mi = 0 \<and> mj = 0"
    and old: "\<And>x y. x < length s \<Longrightarrow> y < length r \<Longrightarrow> before i j x y \<Longrightarrow>
        t ! x ! y = int (common_end s r x y) \<and> t ! x ! y \<le> t ! mi ! mj"
    using assms(1) unfolding common_inv_def by blast+
  have new: "t' ! i ! j = int (common_end s r i j)" using len assms(2,3) by (simp add: t'_def)
  have keep: "t' ! x ! y = t ! x ! y" if "\<not> (x = i \<and> y = j)" for x y
    using that len(1) assms(2) unfolding t'_def by (cases "x = i") auto
  have 0: "\<not> before i j i j" by (simp add: before_def)
  have mb: "t ! x ! y \<le> t' ! mi ! mj" if "before i j x y" "x < length s" "y < length r" for x y
  proof (cases "mi = i \<and> mj = j")
    case True
    then show ?thesis using m 0 that(1) by (auto simp: before_def)
  next
    case False
    have "\<not> (x = i \<and> y = j)" using that(1) 0 by blast
    then show ?thesis using old [OF that(2,3,1)] keep [of x y] keep [OF False] by simp
  qed
  show ?thesis
    unfolding common_inv_def
  proof (intro conjI allI impI)
    show "length t' = length s" using len by (simp add: t'_def)
    show "length (t' ! x) = length r" if "x < length s" for x
      using that len assms(2) unfolding t'_def by (cases "x = i") auto
    show "(if better then i else mi) < length s" "(if better then j else mj) < length r" using len assms(2,3) by auto
    show "before i (Suc j) (if better then i else mi) (if better then j else mj) \<or>
        (if better then i else mi) = 0 \<and> (if better then j else mj) = 0"
      using m by (auto simp: before_Suc)
    fix x y
    assume xy: "x < length s" "y < length r" "before i (Suc j) x y"
    show "t' ! x ! y = int (common_end s r x y)"
      using xy old new keep by (cases "x = i \<and> y = j") (auto simp: before_Suc)
    show "t' ! x ! y \<le> t' ! (if better then i else mi) ! (if better then j else mj)"
    proof (cases "x = i \<and> y = j")
      case True
      then show ?thesis by (auto simp: better_def)
    next
      case False
      then have "before i j x y" using xy(3) by (auto simp: before_Suc)
      then have "t' ! x ! y \<le> t' ! mi ! mj" using keep [OF False] mb xy(1,2) by simp
      then show ?thesis by (auto simp: better_def)
    qed
  qed
qed


lemma common_row_spec:
  assumes "common_inv s r i j t mi mj" "i < length s" "j \<le> length r"
  shows "\<exists>t' mi' mj'. common_row s r (int i) (int j) t (int mi) (int mj) = Some (t', int mi', int mj') \<and>
    common_inv s r i (length r) t' mi' mj'"
  using assms
proof (induction "length r - j" arbitrary: j t mi mj)
  case 0
  then show ?case by (subst common_row.simps) auto
next
  case (Suc d)
  then have j: "j < length r" by simp
  have len: "length t = length s" "\<And>x. x < length s \<Longrightarrow> length (t ! x) = length r" "mi < length s" "mj < length r"
    using Suc.prems(1) by (auto simp: common_inv_def)
  let ?v = "int (common_end s r i j)"
  define t' where "t' = t[i := (t ! i)[j := ?v]]"
  have len': "length t' = length s" "\<And>x. x < length s \<Longrightarrow> length (t' ! x) = length r"
    using len Suc.prems(2) unfolding t'_def by (auto simp: nth_list_update)
  have v: "(if int i = 0 \<or> int j = 0 then Some (if s ! i = r ! j then 1 else 0)
      else if s ! i = r ! j then map_option (\<lambda>k. k + 1) (tab_at t (int i - 1) (int j - 1)) else Some 0) = Some ?v"
  proof (cases "i = 0 \<or> j = 0 \<or> s ! i \<noteq> r ! j")
    case True
    then show ?thesis by (subst common_end.simps) auto
  next
    case False
    then have p: "int i - 1 = int (i - 1)" "int j - 1 = int (j - 1)" "before i j (i - 1) (j - 1)" by (auto simp: before_def)
    have "i - 1 < length s" "j - 1 < length r" using Suc.prems(2) j by auto
    moreover from this have "t ! (i - 1) ! (j - 1) = int (common_end s r (i - 1) (j - 1))"
      using Suc.prems(1) p(3) by (simp add: common_inv_def)
    ultimately have "tab_at t (int i - 1) (int j - 1) = Some (int (common_end s r (i - 1) (j - 1)))"
      unfolding p(1,2) using len by (simp add: tab_at_nat)
    moreover have "?v = int (common_end s r (i - 1) (j - 1)) + 1" using False by (subst common_end.simps) simp
    ultimately show ?thesis using False by simp
  qed
  define better where "better \<longleftrightarrow> t' ! i ! j > t' ! mi ! mj"
  have step: "common_inv s r i (Suc j) t' (if better then i else mi) (if better then j else mj)"
    using common_inv_step [OF Suc.prems(1,2) j] unfolding t'_def better_def .
  have "tab_put t (int i) (int j) ?v = Some t'" using len Suc.prems(2) j unfolding t'_def by (simp add: tab_put_nat)
  moreover have "tab_at t' (int i) (int j) = Some (t' ! i ! j)" "tab_at t' (int mi) (int mj) = Some (t' ! mi ! mj)"
    using len len' Suc.prems(2) j by (auto simp: tab_at_nat)
  ultimately have run: "common_row s r (int i) (int j) t (int mi) (int mj) =
      common_row s r (int i) (int (Suc j)) t' (int (if better then i else mi)) (int (if better then j else mj))"
    using v Suc.prems(2) j by (subst common_row.simps) (simp add: better_def add.commute del: of_nat_eq_0_iff)
  show ?case unfolding run by (rule Suc.hyps(1) [OF _ step]) (use Suc.hyps(2) Suc.prems j in auto)
qed

lemma common_rows_spec:
  assumes "common_inv s r i 0 t mi mj" "i \<le> length s"
  shows "\<exists>t' mi' mj'. common_rows s r (int i) t (int mi) (int mj) = Some (t', int mi', int mj') \<and>
    common_inv s r (length s) 0 t' mi' mj'"
  using assms
proof (induction "length s - i" arbitrary: i t mi mj)
  case 0
  then show ?case by (subst common_rows.simps) auto
next
  case (Suc d)
  then have i: "i < length s" by simp
  obtain t' mi' mj' where row: "common_row s r (int i) 0 t (int mi) (int mj) = Some (t', int mi', int mj')"
    "common_inv s r i (length r) t' mi' mj'"
    using common_row_spec [OF Suc.prems(1) i] by auto
  have "before i (length r) x y \<longleftrightarrow> before (Suc i) 0 x y" if "y < length r" for x y
    using that by (auto simp: before_def)
  then have next_row: "common_inv s r (Suc i) 0 t' mi' mj'" using row(2) unfolding common_inv_def by blast
  have "common_rows s r (int i) t (int mi) (int mj) = common_rows s r (int (Suc i)) t' (int mi') (int mj')"
    using row(1) i by (subst common_rows.simps) (simp add: add.commute)
  then show ?case using Suc.hyps(1) [OF _ next_row] Suc.hyps(2) i by simp
qed

text \<open>It finds a longest common part of the string and the reversed string, palindrome or not.\<close>

definition longest_common :: "'a list \<Rightarrow> 'a list \<Rightarrow> 'a list \<Rightarrow> bool" where
  "longest_common s r c \<longleftrightarrow> (\<exists>us vs. s = us @ c @ vs) \<and> (\<exists>us vs. r = us @ c @ vs) \<and>
     (\<forall>ys us vs us' vs'. s = us @ ys @ vs \<and> r = us' @ ys @ vs' \<longrightarrow> length ys \<le> length c)"

lemma common_end_part:
  assumes "i < length s" "j < length r" "k = common_end s r i j"
  shows "take k (drop (i + 1 - k) s) = take k (drop (j + 1 - k) r)" "length (take k (drop (i + 1 - k) s)) = k"
proof -
  have k: "k \<le> Suc i" "k \<le> Suc j" "\<And>t. t < k \<Longrightarrow> s ! (i - t) = r ! (j - t)"
    using common_end_iff [of k s r i j] assms(3) by auto
  have len: "length (take k (drop (i + 1 - k) s)) = k" "length (take k (drop (j + 1 - k) r)) = k"
    using assms(1,2) k(1,2) by (auto simp: min_def)
  show "take k (drop (i + 1 - k) s) = take k (drop (j + 1 - k) r)"
  proof (rule nth_equalityI)
    fix t
    assume "t < length (take k (drop (i + 1 - k) s))"
    then have t: "t < k" using len by simp
    then have "i + 1 - k + t = i - (k - 1 - t)" "j + 1 - k + t = j - (k - 1 - t)" using k(1,2) by auto
    then have "s ! (i + 1 - k + t) = r ! (j + 1 - k + t)" using k(3) [of "k - 1 - t"] t by simp
    then show "take k (drop (i + 1 - k) s) ! t = take k (drop (j + 1 - k) r) ! t" using t k(1,2) assms(1,2) by simp
  qed (use len in simp)
  show "length (take k (drop (i + 1 - k) s)) = k" by (rule len(1))
qed

lemma common_end_longest:
  assumes "s = us @ ys @ vs" "r = us' @ ys @ vs'" "ys \<noteq> []"
  shows "length ys \<le> common_end s r (length us + length ys - 1) (length us' + length ys - 1)"
proof -
  let ?n = "length ys"
  have "s ! (length us + ?n - 1 - t) = r ! (length us' + ?n - 1 - t)" if "t < ?n" for t
  proof -
    have "length us + ?n - 1 - t = length us + (?n - 1 - t)" "length us' + ?n - 1 - t = length us' + (?n - 1 - t)"
      using that by auto
    moreover have "s ! (length us + x) = ys ! x" "r ! (length us' + x) = ys ! x" if "x < ?n" for x
      using that unfolding assms(1,2) by (simp_all add: nth_append)
    moreover have "?n - 1 - t < ?n" using that by simp
    ultimately show ?thesis by metis
  qed
  then show ?thesis using assms(3) by (simp add: common_end_iff)
qed

lemma longestPalindrome2_common: "\<exists>c. longestPalindrome2 s = Some c \<and> longest_common s (rev s) c"
proof (cases "s = []")
  case True
  then show ?thesis by (simp add: longestPalindrome2_def longest_common_def)
next
  case False
  let ?r = "rev s"
  have "common_inv s ?r 0 0 (replicate (length s) (replicate (length s) 0)) 0 0"
    using False by (simp add: common_inv_def before_def)
  then obtain t mi mj where m: "common_rows s ?r 0 (replicate (length s) (replicate (length s) 0)) 0 0 = Some (t, int mi, int mj)"
    "common_inv s ?r (length s) 0 t mi mj"
    using common_rows_spec [of s ?r 0] by fastforce
  have b: "before (length s) 0 x y" if "x < length s" for x y using that by (simp add: before_def)
  define k where "k = common_end s ?r mi mj"
  have mi: "mi < length s" "mj < length ?r" and t: "length t = length s" "\<And>x. x < length s \<Longrightarrow> length (t ! x) = length ?r"
    and best: "\<And>x y. x < length s \<Longrightarrow> y < length ?r \<Longrightarrow> t ! x ! y = int (common_end s ?r x y) \<and> t ! x ! y \<le> t ! mi ! mj"
    using m(2) b unfolding common_inv_def by blast+
  then have k: "tab_at t (int mi) (int mj) = Some (int k)" unfolding k_def by (simp add: tab_at_nat)
  let ?c = "take k (drop (mi + 1 - k) s)"
  have "k \<le> mi + 1" using common_end_bound [of s ?r mi mj] by (simp add: k_def)
  then have n: "nat (int mi + 1 - int k) = mi + 1 - k" by simp
  then have res: "longestPalindrome2 s = Some ?c"
    unfolding longestPalindrome2_def using False m(1) k mi(1) \<open>k \<le> mi + 1\<close> by (simp add: n)
  have "longest_common s ?r ?c"
    unfolding longest_common_def
  proof (intro conjI allI impI)
    show "\<exists>us vs. s = us @ ?c @ vs" by (metis append_take_drop_id)
    show "\<exists>us vs. ?r = us @ ?c @ vs"
      unfolding common_end_part(1) [OF mi k_def] by (metis append_take_drop_id)
    fix ys us vs us' vs'
    assume e: "s = us @ ys @ vs \<and> ?r = us' @ ys @ vs'"
    show "length ys \<le> length ?c"
    proof (cases "ys = []")
      case False
      let ?x = "length us + length ys - 1" and ?y = "length us' + length ys - 1"
      have "length s = length us + length ys + length vs" "length ?r = length us' + length ys + length vs'"
        using e by (metis length_append add.assoc)+
      then have xy: "?x < length s" "?y < length ?r" using False by (cases ys; simp)+
      have "length ys \<le> common_end s ?r ?x ?y" using common_end_longest e False by blast
      also have "\<dots> \<le> k" using best [OF xy] best [OF mi] by (simp add: k_def)
      finally show ?thesis using common_end_part(2) [OF mi k_def] by simp
    qed simp
  qed
  then show ?thesis using res by blast
qed


section \<open>The three together\<close>

text \<open>
  C37: on every string, expanding around the centres returns a longest palindromic part of it; on a
  string without the separator character \<^verbatim>\<open>#\<close> so does Manacher's algorithm; and the comparison with
  the reversed string returns a longest part the string has in common with its reversal, which is at
  least as long as every palindromic part but need not be one.
\<close>

theorem palindromes_found:
  "(\<exists>r. longestPalindrome s = Some r \<and> longest_palindrome s r) \<and>
   (CHR ''#'' \<notin> set s \<longrightarrow> (\<exists>r. longestPalindrome3 s = Some r \<and> longest_palindrome s r)) \<and>
   (\<exists>c. longestPalindrome2 s = Some c \<and> longest_common s (rev s) c \<and>
      (\<forall>r. longest_palindrome s r \<longrightarrow> length r \<le> length c))"
proof -
  obtain c where c: "longestPalindrome2 s = Some c" "longest_common s (rev s) c"
    using longestPalindrome2_common by blast
  have "length r \<le> length c" if "longest_palindrome s r" for r
  proof -
    obtain us vs where s: "s = us @ r @ vs" "rev r = r" using \<open>longest_palindrome s r\<close> by (auto simp: longest_palindrome_def)
    then have "rev s = rev vs @ r @ rev us" by simp
    then show ?thesis using c(2) s(1) unfolding longest_common_def by blast
  qed
  then show ?thesis using c longestPalindrome_longest longestPalindrome3_longest by blast
qed

lemma palindromes_found_witness:
  "(\<exists>r. longestPalindrome3 ''abaa'' = Some r \<and> longest_palindrome ''abaa'' r) \<and>
   longestPalindrome2 ''abxyba'' = Some ''ab'' \<and> rev ''ab'' \<noteq> ''ab''"
  using palindromes_found [of "''abaa''"] reversed_examples by simp

end
