(* ===== verification/LcWordBreak.thy ===== *)
theory LcWordBreak
  imports Prelude
begin

text \<open>
  Breaking a string into the words of a dictionary (\<^verbatim>\<open>hobbies/leetcode/algorithms/solution_139\<close>): with
  the set of all breakable parts, by growing length, and with a table over the prefixes. The
  \<^verbatim>\<open>unordered_set\<close>s are sets; \<open>None\<close> is an access outside the table.
\<close>

section \<open>The programs\<close>

definition part_of :: "string \<Rightarrow> nat \<Rightarrow> nat \<Rightarrow> string" where
  \<comment> \<open>\<^verbatim>\<open>s.substr(pos, len)\<close>\<close>
  "part_of s pos len = take len (drop pos s)"

function split_helper :: "string set \<Rightarrow> string \<Rightarrow> nat \<Rightarrow> bool" where
  "split_helper records s len =
     (if len < length s then
        if part_of s 0 len \<in> records \<and> part_of s len (length s - len) \<in> records then True
        else split_helper records s (len + 1)
      else False)"
  by pat_completeness auto
termination by (relation "measure (\<lambda>(r, s, len). length s - len)") auto

function singles_loop :: "string set \<Rightarrow> string \<Rightarrow> nat \<Rightarrow> string set \<Rightarrow> string set" where
  "singles_loop wordDict s i records =
     (if i < length s then
        let tmp = part_of s i 1 in
        singles_loop wordDict s (i + 1) (if tmp \<in> wordDict then insert tmp records else records)
      else records)"
  by pat_completeness auto
termination by (relation "measure (\<lambda>(d, s, i, r). length s - i)") auto

function parts_loop :: "string set \<Rightarrow> string \<Rightarrow> nat \<Rightarrow> nat \<Rightarrow> string set \<Rightarrow> string set" where
  "parts_loop wordDict s len j records =
     (if int j \<le> size_of s - int len then
        let tmp = part_of s j len in
        parts_loop wordDict s len (j + 1)
          (if split_helper records tmp 1 \<or> tmp \<in> wordDict then insert tmp records else records)
      else records)"
  by pat_completeness auto
termination by (relation "measure (\<lambda>(d, s, len, j, r). Suc (length s) - j)") auto

function lengths_loop :: "string set \<Rightarrow> string \<Rightarrow> nat \<Rightarrow> string set \<Rightarrow> string set" where
  "lengths_loop wordDict s len records =
     (if len \<le> length s then lengths_loop wordDict s (len + 1) (parts_loop wordDict s len 0 records) else records)"
  by pat_completeness auto
termination by (relation "measure (\<lambda>(d, s, len, r). Suc (length s) - len)") auto

definition wordBreak :: "string \<Rightarrow> string set \<Rightarrow> bool" where
  "wordBreak s wordDict = (if length s = 0 then False else s \<in> lengths_loop wordDict s 2 (singles_loop wordDict s 0 {}))"

fun back_search :: "string \<Rightarrow> string set \<Rightarrow> bool list \<Rightarrow> nat \<Rightarrow> nat \<Rightarrow> bool list option" where
  \<comment> \<open>the inner loop over \<open>i - 1, \<dots>, 0\<close>\<close>
  "back_search s wordDict records len 0 = Some records"
| "back_search s wordDict records len (Suc i) = do {
     a \<leftarrow> at records (int i);
     b \<leftarrow> at records (int len);
     if a \<and> \<not> b \<and> part_of s i (len - i) \<in> wordDict then put_at records (int len) True
     else back_search s wordDict records len i }"

function prefix_loop :: "string \<Rightarrow> string set \<Rightarrow> bool list \<Rightarrow> nat \<Rightarrow> bool list option" where
  "prefix_loop s wordDict records len =
     (if len \<le> length s then do {
        records' \<leftarrow> back_search s wordDict records len len;
        prefix_loop s wordDict records' (len + 1) }
      else Some records)"
  by pat_completeness auto
termination by (relation "measure (\<lambda>(s, d, r, len). Suc (length s) - len)") auto

definition wordBreak2 :: "string \<Rightarrow> string set \<Rightarrow> bool option" where
  "wordBreak2 s wordDict = do {
     records \<leftarrow> put_at (replicate (length s + 1) False) 0 True;
     records' \<leftarrow> prefix_loop s wordDict records 1;
     at records' (size_of s) }"

declare split_helper.simps [simp del] singles_loop.simps [simp del] parts_loop.simps [simp del]
  lengths_loop.simps [simp del] prefix_loop.simps [simp del]

lemma word_break_examples:
  "wordBreak ''dogs'' {''dog'', ''do'', ''gs''}" "\<not> wordBreak ''bb'' {''a'', ''bbb''}"
  "wordBreak2 ''dogs'' {''dog'', ''do'', ''gs''} = Some True" "wordBreak2 ''bb'' {''a'', ''bbb''} = Some False"
  by code_simp+

section \<open>Breakable strings\<close>

definition breakable :: "'a list set \<Rightarrow> 'a list \<Rightarrow> bool" where
  "breakable d s \<longleftrightarrow> (\<exists>ws. set ws \<subseteq> d \<and> concat ws = s)"

lemma breakable_Nil [simp]: "breakable d []"
  unfolding breakable_def by (rule exI [of _ "[]"]) simp

lemma breakable_word: "w \<in> d \<Longrightarrow> breakable d w"
  unfolding breakable_def by (rule exI [of _ "[w]"]) simp

lemma breakable_append:
  assumes "breakable d s" "breakable d t"
  shows "breakable d (s @ t)"
proof -
  obtain us vs where "set us \<subseteq> d" "concat us = s" "set vs \<subseteq> d" "concat vs = t"
    using assms unfolding breakable_def by blast
  then show ?thesis unfolding breakable_def by (intro exI [of _ "us @ vs"]) auto
qed

lemma breakable_last:
  assumes "breakable d s" "s \<noteq> []"
  obtains t w where "s = t @ w" "breakable d t" "w \<in> d" "w \<noteq> []"
proof -
  obtain ws where "set ws \<subseteq> d" "concat ws = s" using assms(1) by (auto simp: breakable_def)
  then have "\<exists>t w. s = t @ w \<and> breakable d t \<and> w \<in> d \<and> w \<noteq> []" using assms(2)
  proof (induction ws arbitrary: s rule: rev_induct)
    case (snoc w ws)
    show ?case
    proof (cases "w = []")
      case True
      then show ?thesis using snoc by simp
    next
      case False
      have "breakable d (concat ws)" using snoc.prems(1) by (auto simp: breakable_def)
      then show ?thesis using snoc.prems False by auto
    qed
  qed simp
  then show ?thesis using that by blast
qed

lemma breakable_prefix_iff:
  assumes "0 < k" "k \<le> length s"
  shows "breakable d (take k s) \<longleftrightarrow> (\<exists>i<k. breakable d (take i s) \<and> part_of s i (k - i) \<in> d)"
proof
  assume "breakable d (take k s)"
  then obtain t w where t: "take k s = t @ w" "breakable d t" "w \<in> d" "w \<noteq> []"
    using assms by (metis breakable_last take_eq_Nil list.size(3) not_less0 le_zero_eq neq0_conv)
  have len: "length t < k" using arg_cong [OF t(1), of length] t(4) assms by simp
  have "take (length t) s = t" using arg_cong [OF t(1), of "take (length t)"] len by (simp add: min_absorb1)
  moreover have "part_of s (length t) (k - length t) = w"
    using arg_cong [OF t(1), of "drop (length t)"] by (simp add: part_of_def drop_take)
  ultimately show "\<exists>i<k. breakable d (take i s) \<and> part_of s i (k - i) \<in> d" using t len by auto
next
  assume "\<exists>i<k. breakable d (take i s) \<and> part_of s i (k - i) \<in> d"
  then obtain i where i: "i < k" "breakable d (take i s)" "part_of s i (k - i) \<in> d" by blast
  have "take k s = take i s @ part_of s i (k - i)" using i(1) by (simp add: part_of_def take_add [symmetric])
  then show "breakable d (take k s)" using breakable_append i(2) breakable_word [OF i(3)] by metis
qed

lemma breakable_split_iff:
  assumes "2 \<le> length s"
  shows "breakable d s \<longleftrightarrow> s \<in> d \<or> (\<exists>k. 0 < k \<and> k < length s \<and> breakable d (take k s) \<and> breakable d (drop k s))"
proof
  assume "breakable d s"
  then obtain t w where t: "s = t @ w" "breakable d t" "w \<in> d" "w \<noteq> []"
    using assms by (metis breakable_last list.size(3) not_numeral_le_zero)
  show "s \<in> d \<or> (\<exists>k. 0 < k \<and> k < length s \<and> breakable d (take k s) \<and> breakable d (drop k s))"
  proof (cases "t = []")
    case False
    then show ?thesis using t breakable_word [OF t(3)] by (intro disjI2 exI [of _ "length t"]) simp
  qed (use t in simp)
next
  assume "s \<in> d \<or> (\<exists>k. 0 < k \<and> k < length s \<and> breakable d (take k s) \<and> breakable d (drop k s))"
  then show "breakable d s" using breakable_word breakable_append by (metis append_take_drop_id)
qed

section \<open>The set of parts\<close>

lemma split_helper_iff:
  assumes "1 \<le> len"
  shows "split_helper R s len \<longleftrightarrow> (\<exists>k. len \<le> k \<and> k < length s \<and> take k s \<in> R \<and> drop k s \<in> R)"
  using assms
proof (induction "length s - len" arbitrary: len)
  case 0
  then show ?case by (subst split_helper.simps) auto
next
  case (Suc n)
  have "split_helper R s len \<longleftrightarrow> take len s \<in> R \<and> drop len s \<in> R \<or> split_helper R s (len + 1)"
    using Suc.hyps(2) by (subst split_helper.simps) (auto simp: part_of_def)
  also have "split_helper R s (len + 1) \<longleftrightarrow> (\<exists>k\<ge>len + 1. k < length s \<and> take k s \<in> R \<and> drop k s \<in> R)"
    using Suc.hyps(1) [of "len + 1"] Suc.hyps(2) by simp
  finally show ?case using Suc.hyps(2) by (metis Suc_eq_plus1 Suc_leI le_neq_implies_less le_refl less_imp_le Suc_leD zero_less_Suc zero_less_diff)
qed

definition parts_inv :: "string set \<Rightarrow> string \<Rightarrow> nat \<Rightarrow> nat \<Rightarrow> string set \<Rightarrow> bool" where
  \<comment> \<open>\<open>R\<close> has the breakable parts of less than \<open>len\<close> characters, and of \<open>len\<close> those before \<open>j\<close>\<close>
  "parts_inv d s len j R \<longleftrightarrow> (\<forall>p k. 0 < k \<and> p + k \<le> length s \<and> (k < len \<or> k = len \<and> p < j) \<and> breakable d (part_of s p k) \<longrightarrow>
       part_of s p k \<in> R) \<and> (\<forall>t\<in>R. breakable d t)"

lemma singles_loop_parts:
  assumes "parts_inv d s 1 i R" "i \<le> length s"
  shows "parts_inv d s 2 0 (singles_loop d s i R)"
  using assms
proof (induction "length s - i" arbitrary: i R)
  case 0
  then have "parts_inv d s 2 0 R" by (auto simp: parts_inv_def less_Suc_eq numeral_2_eq_2)
  then show ?case using 0 by (subst singles_loop.simps) simp
next
  case (Suc n)
  then have i: "i < length s" by simp
  let ?t = "part_of s i 1"
  have t: "?t = [s ! i]" using i by (simp add: part_of_def take_Suc_conv_app_nth)
  have b: "breakable d ?t \<longleftrightarrow> ?t \<in> d"
  proof
    assume "breakable d ?t"
    then obtain u w where "?t = u @ w" "w \<in> d" "w \<noteq> []" using t by (metis breakable_last list.distinct(1))
    then show "?t \<in> d" using t by (cases u) auto
  qed (rule breakable_word)
  have "parts_inv d s 1 (Suc i) (if ?t \<in> d then insert ?t R else R)"
    using Suc.prems(1) b unfolding parts_inv_def by (auto simp: less_Suc_eq)
  then have "parts_inv d s 2 0 (singles_loop d s (Suc i) (if ?t \<in> d then insert ?t R else R))"
    by (rule Suc.hyps(1) [rotated]) (use Suc.hyps(2) i in auto)
  then show ?case using i by (subst singles_loop.simps) (simp only: Let_def if_True Suc_eq_plus1)
qed

lemma parts_loop_parts:
  assumes "parts_inv d s len j R" "2 \<le> len" "len \<le> length s" "j \<le> length s - len + 1"
  shows "parts_inv d s (Suc len) 0 (parts_loop d s len j R)"
  using assms
proof (induction "length s - len + 1 - j" arbitrary: j R)
  case 0
  then have j: "\<And>p. p + len \<le> length s \<longleftrightarrow> p < j" by auto
  then have "parts_inv d s (Suc len) 0 R" using 0 by (auto simp: parts_inv_def less_Suc_eq)
  then show ?case using 0 by (subst parts_loop.simps) simp
next
  case (Suc n)
  then have j: "j + len \<le> length s" by simp
  let ?t = "part_of s j len"
  have len: "length ?t = len" using j by (auto simp: part_of_def min_def)
  have b: "breakable d ?t \<longleftrightarrow> split_helper R ?t 1 \<or> ?t \<in> d"
  proof -
    have "take k ?t \<in> R \<longleftrightarrow> breakable d (take k ?t)" "drop k ?t \<in> R \<longleftrightarrow> breakable d (drop k ?t)"
      if "0 < k" "k < len" for k
    proof -
      have "take k ?t = part_of s j k" "drop k ?t = part_of s (j + k) (len - k)"
        using that by (auto simp: part_of_def drop_take min_def add.commute)
      moreover have "0 < len - k" "len - k < len" "j + k + (len - k) \<le> length s" "j + k \<le> length s" using that j by auto
      ultimately show "take k ?t \<in> R \<longleftrightarrow> breakable d (take k ?t)" "drop k ?t \<in> R \<longleftrightarrow> breakable d (drop k ?t)"
        using Suc.prems(1) that unfolding parts_inv_def by auto
    qed
    then show ?thesis
      using breakable_split_iff [of ?t d] Suc.prems(2) len split_helper_iff [of 1 R ?t]
      by (auto simp: Suc_le_eq)
  qed
  have "parts_inv d s len (Suc j) (if split_helper R ?t 1 \<or> ?t \<in> d then insert ?t R else R)"
    using Suc.prems(1) b unfolding parts_inv_def by (auto simp: less_Suc_eq)
  then have "parts_inv d s (Suc len) 0 (parts_loop d s len (Suc j) (if split_helper R ?t 1 \<or> ?t \<in> d then insert ?t R else R))"
    by (rule Suc.hyps(1) [rotated]) (use Suc.hyps(2) Suc.prems in auto)
  moreover have "int j \<le> size_of s - int len" using j by simp
  ultimately show ?case by (subst parts_loop.simps) (simp only: Let_def if_True Suc_eq_plus1)
qed

lemma lengths_loop_parts:
  assumes "parts_inv d s len 0 R" "2 \<le> len"
  shows "\<exists>m. length s < m \<and> parts_inv d s m 0 (lengths_loop d s len R)"
  using assms
proof (induction "Suc (length s) - len" arbitrary: len R)
  case 0
  then have "length s < len" by simp
  then have "lengths_loop d s len R = R" by (subst lengths_loop.simps) simp
  then show ?case using 0 \<open>length s < len\<close> by auto
next
  case (Suc n)
  then have "len \<le> length s" by simp
  then show ?case
    using Suc.hyps(1) [OF _ parts_loop_parts [OF Suc.prems]] Suc.hyps(2) Suc.prems(2)
    by (subst lengths_loop.simps) auto
qed

lemma wordBreak_iff: "wordBreak s d \<longleftrightarrow> s \<noteq> [] \<and> breakable d s"
proof (cases "s = []")
  case False
  have "parts_inv d s 1 0 {}" by (auto simp: parts_inv_def)
  then have "parts_inv d s 2 0 (singles_loop d s 0 {})" by (rule singles_loop_parts) simp
  then obtain m where m: "length s < m" "parts_inv d s m 0 (lengths_loop d s 2 (singles_loop d s 0 {}))"
    using lengths_loop_parts by (metis order_refl)
  have s: "part_of s 0 (length s) = s" by (simp add: part_of_def)
  have "s \<in> lengths_loop d s 2 (singles_loop d s 0 {}) \<longleftrightarrow> breakable d s"
    using m False s unfolding parts_inv_def by (metis add_0 length_greater_0_conv order_refl)
  then show ?thesis using False by (simp add: wordBreak_def)
qed (simp add: wordBreak_def)

section \<open>The table of prefixes\<close>

lemma back_search_spec:
  assumes "length R = length s + 1" "len \<le> length s" "\<not> R ! len" "i \<le> len"
  shows "back_search s d R len i = Some (R[len := (\<exists>k<i. R ! k \<and> part_of s k (len - k) \<in> d)])"
  using assms
proof (induction i)
  case 0
  then have "R[len := False] = R" by (simp add: list_update_same_conv)
  then show ?case by simp
next
  case (Suc i)
  then have "at R (int i) = Some (R ! i)" "at R (int len) = Some False" by auto
  moreover have "(\<exists>k<Suc i. R ! k \<and> part_of s k (len - k) \<in> d) \<longleftrightarrow>
      R ! i \<and> part_of s i (len - i) \<in> d \<or> (\<exists>k<i. R ! k \<and> part_of s k (len - k) \<in> d)"
    by (auto simp: less_Suc_eq)
  ultimately show ?case using Suc by (cases "R ! i \<and> part_of s i (len - i) \<in> d") (simp_all add: put_at_in, blast?)
qed

lemma prefix_loop_spec:
  assumes "length R = length s + 1" "1 \<le> len" "len \<le> length s + 1"
    "\<forall>k\<le>length s. R ! k \<longleftrightarrow> k < len \<and> breakable d (take k s)"
  shows "\<exists>R'. prefix_loop s d R len = Some R' \<and> length R' = length s + 1 \<and> (\<forall>k\<le>length s. R' ! k \<longleftrightarrow> breakable d (take k s))"
  using assms
proof (induction "Suc (length s) - len" arbitrary: len R)
  case 0
  then show ?case by (subst prefix_loop.simps) auto
next
  case (Suc n)
  then have len: "len \<le> length s" by simp
  let ?b = "\<exists>k<len. R ! k \<and> part_of s k (len - k) \<in> d"
  have b: "?b \<longleftrightarrow> breakable d (take len s)"
    using breakable_prefix_iff [of len s d] len Suc.prems(2,4) by (auto simp: Suc_le_eq)
  have run: "prefix_loop s d R len = prefix_loop s d (R[len := ?b]) (len + 1)"
    using back_search_spec [OF Suc.prems(1) len, of len d] Suc.prems(4) len by (subst prefix_loop.simps) simp
  show ?case unfolding run
  proof (rule Suc.hyps(1))
    show "\<forall>k\<le>length s. R[len := ?b] ! k \<longleftrightarrow> k < len + 1 \<and> breakable d (take k s)"
    proof (intro allI impI)
      fix k
      assume "k \<le> length s"
      then show "R[len := ?b] ! k \<longleftrightarrow> k < len + 1 \<and> breakable d (take k s)"
        using b len Suc.prems(1,4) by (cases "k = len") (simp_all, auto)
    qed
  qed (use Suc.hyps(2) Suc.prems len in auto)
qed

lemma wordBreak2_iff: "wordBreak2 s d = Some (breakable d s)"
proof -
  let ?R = "(replicate (length s + 1) False)[0 := True]"
  have "\<forall>k\<le>length s. ?R ! k \<longleftrightarrow> k < 1 \<and> breakable d (take k s)"
    by (auto simp: nth_list_update simp del: replicate.simps)
  then obtain R' where "prefix_loop s d ?R 1 = Some R'" "length R' = length s + 1" "R' ! length s \<longleftrightarrow> breakable d s"
    using prefix_loop_spec [of ?R s 1 d] by auto
  then show ?thesis by (simp add: wordBreak2_def put_at_in)
qed

text \<open>
  both programs decide whether the string is a sequence of words of the dictionary; on the empty
  string, a sequence of no words, \<open>wordBreak\<close> says no and \<open>wordBreak2\<close> yes, elsewhere they agree.
\<close>

theorem word_breaks_agree:
  "wordBreak2 s d = Some (\<exists>ws. set ws \<subseteq> d \<and> concat ws = s) \<and>
   wordBreak s d = (s \<noteq> [] \<and> (\<exists>ws. set ws \<subseteq> d \<and> concat ws = s)) \<and>
   (wordBreak2 s d = Some (wordBreak s d)) = (s \<noteq> [])"
  using wordBreak_iff [of s d] wordBreak2_iff [of s d] by (auto simp: breakable_def [symmetric])

end
