(* ===== verification/LcWords.thy ===== *)
theory LcWords
  imports Prelude
begin

text \<open>
  The words of a string: the length of the last one (\<^verbatim>\<open>hobbies/leetcode/algorithms/solution_58\<close>) and
  reversing their order (\<^verbatim>\<open>solution_151\<close>). The searches of \<^verbatim>\<open>std::string\<close> are modelled as far as the
  sources use them; \<^verbatim>\<open>string::npos\<close> is \<open>None\<close> of a position. \<open>None\<close> of a result is an access outside a
  string.
\<close>

section \<open>Splitting at a character\<close>

fun split_on :: "'a \<Rightarrow> 'a list \<Rightarrow> 'a list list" where
  "split_on c [] = [[]]"
| "split_on c (x # xs) =
     (if x = c then [] # split_on c xs
      else case split_on c xs of [] \<Rightarrow> [[x]] | p # ps \<Rightarrow> (x # p) # ps)"

lemma split_on_plain: "c \<notin> set w \<Longrightarrow> split_on c w = [w]"
  by (induction w) auto

lemma split_on_not_Nil [simp]: "split_on c xs \<noteq> []"
  by (induction xs) (auto split: list.splits)

lemma split_on_append: "split_on c (xs @ c # ys) = split_on c xs @ split_on c ys"
  by (induction xs) (auto split: list.splits)

abbreviation space :: char where "space \<equiv> CHR '' ''"

definition word_list :: "string \<Rightarrow> string list" where
  \<comment> \<open>the maximal parts without spaces\<close>
  "word_list s = filter (\<lambda>w. w \<noteq> []) (split_on space s)"

lemma word_list_Nil [simp]: "word_list [] = []"
  by (simp add: word_list_def)

lemma word_list_plain: "space \<notin> set w \<Longrightarrow> word_list w = (if w = [] then [] else [w])"
  by (simp add: word_list_def split_on_plain)

lemma word_list_append: "word_list (s @ space # t) = word_list s @ word_list t"
  by (simp add: word_list_def split_on_append)

lemma word_list_space: "word_list (space # t) = word_list t"
  using word_list_append [of "[]" t] by simp

lemma word_list_first:
  "space \<notin> set w \<Longrightarrow> t = [] \<or> hd t = space \<Longrightarrow> word_list (w @ t) = word_list w @ word_list t"
  using word_list_append [of w "tl t"] word_list_space [of "tl t"] by (cases t) auto

lemma word_list_words: "w \<in> set (word_list s) \<Longrightarrow> w \<noteq> []"
  by (simp add: word_list_def)

section \<open>The last word\<close>

function last_loop :: "string \<Rightarrow> int \<Rightarrow> int \<Rightarrow> int option" where
  "last_loop s i cend =
     (if i \<ge> 0 then do {
        x \<leftarrow> at s i;
        let cend' = (if x \<noteq> space \<and> cend < 0 then i else cend) in
        if x = space \<and> cend' \<ge> 0 then Some (cend' - i) else last_loop s (i - 1) cend' }
      else Some (if cend < 0 then 0 else cend + 1))"
  by pat_completeness auto
termination by (relation "measure (\<lambda>(s, i, c). nat (i + 1))") auto

definition lengthOfLastWord :: "string \<Rightarrow> int option" where
  "lengthOfLastWord s = last_loop s (size_of s - 1) (- 1)"

declare last_loop.simps [simp del]

fun find_last :: "(char \<Rightarrow> bool) \<Rightarrow> string \<Rightarrow> nat \<Rightarrow> nat option" where
  \<comment> \<open>the greatest position below \<open>k\<close> with \<open>p\<close>\<close>
  "find_last p s 0 = None"
| "find_last p s (Suc k) = (if k < length s \<and> p (s ! k) then Some k else find_last p s k)"

definition find_last_from :: "(char \<Rightarrow> bool) \<Rightarrow> string \<Rightarrow> nat option \<Rightarrow> nat option" where
  \<comment> \<open>\<^verbatim>\<open>find_last_of\<close> and \<^verbatim>\<open>find_last_not_of\<close> with the position to start from\<close>
  "find_last_from p s pos = find_last p s (case pos of None \<Rightarrow> length s | Some k \<Rightarrow> min (Suc k) (length s))"

definition lengthOfLastWord2 :: "string \<Rightarrow> int" where
  "lengthOfLastWord2 s =
     (let pos = find_last_from (\<lambda>c. c \<noteq> space) s None;
          end_pos = find_last_from (\<lambda>c. c = space) s pos in
      case pos of None \<Rightarrow> 0
      | Some p \<Rightarrow> (case end_pos of None \<Rightarrow> int p + 1 | Some e \<Rightarrow> int p - int e))"

definition last_length :: "string \<Rightarrow> int" where
  "last_length s = (if word_list s = [] then 0 else size_of (last (word_list s)))"

lemma last_length_spaces: "set t \<subseteq> {space} \<Longrightarrow> last_length (s @ t) = last_length s"
proof (induction t arbitrary: s)
  case (Cons x t)
  then have "last_length ((s @ [space]) @ t) = last_length (s @ [space])" by (intro Cons.IH) simp
  then show ?case using Cons.prems word_list_append [of s "[]"] by (simp add: last_length_def)
qed simp

lemma last_length_word:
  assumes "space \<notin> set w" "w \<noteq> []"
  shows "last_length w = size_of w" "last_length (s @ space # w) = size_of w"
  using assms by (simp_all add: last_length_def word_list_plain word_list_append)

text \<open>The three shapes a string has, seen from its end.\<close>

lemma string_end_cases:
  obtains "set s \<subseteq> {space}"
  | w t where "s = w @ t" "set t \<subseteq> {space}" "w \<noteq> []" "space \<notin> set w"
  | u w t where "s = u @ space # w @ t" "set t \<subseteq> {space}" "w \<noteq> []" "space \<notin> set w"
proof -
  define t where "t = rev (takeWhile (\<lambda>c. c = space) (rev s))"
  define r where "r = dropWhile (\<lambda>c. c = space) (rev s)"
  have s: "s = rev r @ t" unfolding t_def r_def by (metis rev_append rev_rev_ident takeWhile_dropWhile_id)
  have t: "set t \<subseteq> {space}" unfolding t_def using set_takeWhileD by fastforce
  show ?thesis
  proof (cases "r = []")
    case True
    then show ?thesis using s t that(1) by simp
  next
    case False
    define w where "w = rev (takeWhile (\<lambda>c. c \<noteq> space) r)"
    define u where "u = dropWhile (\<lambda>c. c \<noteq> space) r"
    have r: "rev r = rev u @ w" unfolding w_def u_def by (metis rev_append takeWhile_dropWhile_id)
    have w: "space \<notin> set w" unfolding w_def using set_takeWhileD by fastforce
    have "hd r \<noteq> space" using False hd_dropWhile [of "\<lambda>c. c = space" "rev s"] by (simp add: r_def)
    then have w0: "w \<noteq> []" using False unfolding w_def by (cases r) auto
    show ?thesis
    proof (cases u)
      case Nil
      then show ?thesis using that(2) [of w t] s r t w w0 by simp
    next
      case (Cons x u')
      then have "x = space" using hd_dropWhile [of "\<lambda>c. c \<noteq> space" r] by (simp add: u_def)
      then show ?thesis using that(3) [of "rev u'" w t] s r t w w0 Cons by simp
    qed
  qed
qed

lemma last_loop_spaces:
  assumes "set t \<subseteq> {space}"
  shows "last_loop (u @ t @ v) (size_of (u @ t) - 1) (- 1) = last_loop (u @ t @ v) (size_of u - 1) (- 1)"
  using assms
proof (induction t arbitrary: v rule: rev_induct)
  case (snoc x t)
  have "at (u @ (t @ [x]) @ v) (size_of (u @ t @ [x]) - 1) = Some space"
    using at_mid [of "u @ t" x v] snoc.prems by simp
  then have "last_loop (u @ (t @ [x]) @ v) (size_of (u @ t @ [x]) - 1) (- 1) =
      last_loop (u @ (t @ [x]) @ v) (size_of (u @ t) - 1) (- 1)"
    by (subst last_loop.simps) (simp add: Let_def add.commute)
  then show ?case using snoc.IH [of "x # v"] snoc.prems by simp
qed simp

lemma last_loop_word:
  assumes "space \<notin> set w" "0 \<le> cend"
  shows "last_loop (u @ w @ v) (size_of (u @ w) - 1) cend = last_loop (u @ w @ v) (size_of u - 1) cend"
  using assms
proof (induction w arbitrary: v rule: rev_induct)
  case (snoc x t)
  have x: "x \<noteq> space" using snoc.prems(1) by auto
  have "at (u @ (t @ [x]) @ v) (size_of (u @ t @ [x]) - 1) = Some x"
    using at_mid [of "u @ t" x v] by simp
  then have "last_loop (u @ (t @ [x]) @ v) (size_of (u @ t @ [x]) - 1) cend =
      last_loop (u @ (t @ [x]) @ v) (size_of (u @ t) - 1) cend"
    using snoc.prems(2) x by (subst last_loop.simps) (simp add: Let_def add.commute)
  then show ?case using snoc.IH [of "x # v"] snoc.prems by simp
qed simp

lemma last_loop_start:
  assumes "space \<notin> set w" "w \<noteq> []"
  shows "last_loop (u @ w @ v) (size_of (u @ w) - 1) (- 1) = last_loop (u @ w @ v) (size_of u - 1) (size_of (u @ w) - 1)"
proof -
  obtain w' x where w: "w = w' @ [x]" using assms(2) by (metis rev_exhaust)
  have x: "x \<noteq> space" using assms(1) w by auto
  have "at (u @ w @ v) (size_of (u @ w) - 1) = Some x"
    using at_mid [of "u @ w'" x v] w by simp
  then have "last_loop (u @ w @ v) (size_of (u @ w) - 1) (- 1) =
      last_loop (u @ w @ v) (size_of (u @ w') - 1) (size_of (u @ w) - 1)"
    using x w by (subst last_loop.simps) (simp add: Let_def add.commute)
  then show ?thesis using last_loop_word [of w' "size_of (u @ w) - 1" u "x # v"] assms(1) w by simp
qed

lemma lengthOfLastWord_last: "lengthOfLastWord s = Some (last_length s)"
proof (cases s rule: string_end_cases)
  case 1
  then have "lengthOfLastWord s = last_loop s (- 1) (- 1)"
    using last_loop_spaces [of s "[]" "[]"] by (simp add: lengthOfLastWord_def)
  then show ?thesis using last_length_spaces [of s "[]"] 1
    by (subst (asm) last_loop.simps) (simp add: last_length_def)
next
  case (2 w t)
  then have "lengthOfLastWord s = last_loop s (- 1) (size_of w - 1)"
    using last_loop_spaces [of t w "[]"] last_loop_start [of w "[]" t] by (simp add: lengthOfLastWord_def)
  then have "lengthOfLastWord s = Some (size_of w)"
    using 2(3) by (subst (asm) last_loop.simps) (auto simp: Suc_le_eq)
  then show ?thesis using 2 last_length_spaces [of t w] last_length_word by simp
next
  case (3 u w t)
  let ?u = "u @ [space]"
  have s: "s = ?u @ w @ t" using 3 by simp
  then have "lengthOfLastWord s = last_loop s (size_of ?u - 1) (size_of (?u @ w) - 1)"
    using last_loop_spaces [of t "?u @ w" "[]"] last_loop_start [of w ?u t] 3 by (simp add: lengthOfLastWord_def)
  moreover have "at s (size_of ?u - 1) = Some space" using at_mid [of u space "w @ t"] s by simp
  ultimately have "lengthOfLastWord s = Some (size_of w)"
    by (subst (asm) last_loop.simps) (simp add: Let_def)
  then show ?thesis using s 3 last_length_spaces [of t "?u @ w"] last_length_word(2) [of w u] by simp
qed


lemma find_last_Some:
  assumes "k < n" "k < length s" "p (s ! k)" "\<And>j. k < j \<Longrightarrow> j < length s \<Longrightarrow> j < n \<Longrightarrow> \<not> p (s ! j)"
  shows "find_last p s n = Some k"
  using assms by (induction n) (auto simp: less_Suc_eq)

lemma find_last_None: "(\<And>j. j < n \<Longrightarrow> j < length s \<Longrightarrow> \<not> p (s ! j)) \<Longrightarrow> find_last p s n = None"
  by (induction n) auto

lemma nth_space: "set t \<subseteq> {space} \<Longrightarrow> i < length t \<Longrightarrow> t ! i = space"
  by (meson in_mono nth_mem singletonD)

lemma nth_no_space: "space \<notin> set w \<Longrightarrow> i < length w \<Longrightarrow> w ! i \<noteq> space"
  by (metis nth_mem)

lemma lengthOfLastWord2_last: "lengthOfLastWord2 s = last_length s"
proof (cases s rule: string_end_cases)
  case 1
  then have "find_last_from (\<lambda>c. c \<noteq> space) s None = None"
    unfolding find_last_from_def by (intro find_last_None) (simp add: nth_space)
  then show ?thesis using last_length_spaces [of s "[]"] 1 by (simp add: lengthOfLastWord2_def last_length_def)
next
  case (2 w t)
  have w: "w ! i \<noteq> space" if "i < length w" for i using nth_no_space [OF 2(4) that] .
  have t: "t ! i = space" if "i < length t" for i using nth_space [OF 2(2) that] .
  have "length w - 1 < length w" using 2(3) by simp
  then have "length w - 1 < length (w @ t)" by simp
  then have "find_last_from (\<lambda>c. c \<noteq> space) s None = Some (length w - 1)"
    unfolding find_last_from_def 2(1) using 2(3) w t by (intro find_last_Some) (auto simp: nth_append)
  moreover have "find_last_from (\<lambda>c. c = space) s (Some (length w - 1)) = None"
    unfolding find_last_from_def 2(1) using w 2(3) by (intro find_last_None) (auto simp: nth_append Suc_pred)
  ultimately show ?thesis
    using 2 last_length_spaces [of t w] last_length_word by (cases w) (simp_all add: lengthOfLastWord2_def)
next
  case (3 u w t)
  have w: "w ! i \<noteq> space" if "i < length w" for i using nth_no_space [OF 3(4) that] .
  have t: "t ! i = space" if "i < length t" for i using nth_space [OF 3(2) that] .
  have s: "s = (u @ [space]) @ w @ t" using 3 by simp
  have "find_last_from (\<lambda>c. c \<noteq> space) s None = Some (length u + length w)"
    unfolding find_last_from_def s using 3(3) w t by (intro find_last_Some) (auto simp: nth_append)
  moreover have "find_last_from (\<lambda>c. c = space) s (Some (length u + length w)) = Some (length u)"
    unfolding find_last_from_def s using w by (intro find_last_Some) (auto simp: nth_append)
  ultimately show ?thesis
    using s 3 last_length_spaces [of t "(u @ [space]) @ w"] last_length_word(2) [of w u] by (simp add: lengthOfLastWord2_def)
qed

section \<open>Reversing the words\<close>

function push_range :: "string \<Rightarrow> int \<Rightarrow> int \<Rightarrow> string \<Rightarrow> string option" where
  "push_range s j end_pos result =
     (if j \<le> end_pos then do { x \<leftarrow> at s j; push_range s (j + 1) end_pos (result @ [x]) } else Some result)"
  by pat_completeness auto
termination by (relation "measure (\<lambda>(s, j, e, r). nat (e + 1 - j))") auto

definition separate :: "string \<Rightarrow> string" where
  \<comment> \<open>\<^verbatim>\<open>if (!result.empty()) result.push_back(' ')\<close>\<close>
  "separate result = (if result \<noteq> [] then result @ [space] else result)"

function words_loop :: "string \<Rightarrow> int \<Rightarrow> int \<Rightarrow> string \<Rightarrow> (int \<times> string) option" where
  "words_loop s i end_pos result =
     (if i \<ge> 0 then do {
        x \<leftarrow> at s i;
        if x \<noteq> space \<and> end_pos < 0 then words_loop s (i - 1) i result
        else if end_pos \<ge> 0 \<and> x = space then do {
          result' \<leftarrow> push_range s (i + 1) end_pos (separate result);
          words_loop s (i - 1) (- 1) result' }
        else words_loop s (i - 1) end_pos result }
      else Some (end_pos, result))"
  by pat_completeness auto
termination by (relation "measure (\<lambda>(s, i, e, r). nat (i + 1))") auto

definition reverseWords :: "string \<Rightarrow> string option" where
  "reverseWords s = do {
     (end_pos, result) \<leftarrow> words_loop s (size_of s - 1) (- 1) [];
     if end_pos \<ge> 0 then push_range s 0 end_pos (separate result) else Some result }"

declare push_range.simps [simp del] words_loop.simps [simp del]

fun join_with :: "'a \<Rightarrow> 'a list list \<Rightarrow> 'a list" where
  "join_with c [] = []"
| "join_with c [w] = w"
| "join_with c (w # ws) = w @ c # join_with c ws"

lemma join_with_snoc: "join_with c (ws @ [w]) = (if ws = [] then w else join_with c ws @ c # w)"
  by (induction c ws rule: join_with.induct) auto

lemma join_with_Nil: "\<forall>w\<in>set ws. w \<noteq> [] \<Longrightarrow> join_with c ws = [] \<longleftrightarrow> ws = []"
  by (cases "(c, ws)" rule: join_with.cases) auto

lemma push_range_take:
  assumes "j \<le> e" "e \<le> length s"
  shows "push_range s (int j) (int e - 1) r = Some (r @ take (e - j) (drop j s))"
  using assms
proof (induction "e - j" arbitrary: j r)
  case 0
  then show ?case by (subst push_range.simps) simp
next
  case (Suc n)
  then have "j < e" "j < length s" by auto
  then have "push_range s (int j) (int e - 1) r = push_range s (int (Suc j)) (int e - 1) (r @ [s ! j])"
    by (subst push_range.simps) (simp add: add.commute)
  also have "\<dots> = Some ((r @ [s ! j]) @ take (e - Suc j) (drop (Suc j) s))"
    by (rule Suc.hyps(1)) (use Suc.hyps(2) Suc.prems in auto)
  also have "(r @ [s ! j]) @ take (e - Suc j) (drop (Suc j) s) = r @ take (e - j) (drop j s)"
    using Suc.hyps(2) Suc.prems by (simp add: Cons_nth_drop_Suc [symmetric] Suc_diff_le take_Cons')
  finally show ?case .
qed

lemma push_range_mid: "push_range (u @ w @ v) (size_of u) (size_of (u @ w) - 1) r = Some (r @ w)"
  using push_range_take [of "length u" "length (u @ w)" "u @ w @ v" r] by simp

lemma separate_join: "separate (join_with space (rev (word_list v))) @ w = join_with space (rev (word_list v) @ [w])"
  using join_with_Nil [of "rev (word_list v)" space] word_list_words by (auto simp: separate_def join_with_snoc)

text \<open>
  At a position the string is \<open>u @ w @ v\<close>: \<open>u\<close> is to be read, \<open>w\<close> is the word being read, empty while
  there is none, and the words of \<open>v\<close> are in the result.
\<close>

definition finish_words :: "string \<Rightarrow> (int \<times> string) option \<Rightarrow> string option" where
  "finish_words s r = do { (e, result) \<leftarrow> r; if e \<ge> 0 then push_range s 0 e (separate result) else Some result }"

lemma words_loop_spec:
  assumes "space \<notin> set w" "v = [] \<or> hd v = space"
  shows "finish_words (u @ w @ v) (words_loop (u @ w @ v) (size_of u - 1) (if w = [] then - 1 else size_of (u @ w) - 1)
      (join_with space (rev (word_list v)))) = Some (join_with space (rev (word_list (u @ w @ v))))"
  using assms
proof (induction u arbitrary: w v rule: rev_induct)
  case Nil
  have "word_list (w @ v) = word_list w @ word_list v" using Nil word_list_first [of w v] by auto
  then show ?case
    using Nil(1) push_range_mid [of "[]" w v] separate_join [of v w]
    by (subst words_loop.simps) (auto simp: finish_words_def word_list_plain Suc_le_eq)
next
  case (snoc x u)
  let ?s = "(u @ [x]) @ w @ v" and ?r = "join_with space (rev (word_list v))"
  have x: "at ?s (size_of (u @ [x]) - 1) = Some x" using at_mid [of u x "w @ v"] by simp
  consider "x \<noteq> space" "w = []" | "x \<noteq> space" "w \<noteq> []" | "x = space" "w = []" | "x = space" "w \<noteq> []" by blast
  then show ?case
  proof cases
    case 1
    then have "words_loop ?s (size_of (u @ [x]) - 1) (- 1) ?r = words_loop ?s (size_of u - 1) (size_of (u @ [x]) - 1) ?r"
      using x by (subst words_loop.simps) simp
    then show ?thesis using snoc.IH [of "[x]" v] snoc.prems 1 by simp
  next
    case 2
    then have "words_loop ?s (size_of (u @ [x]) - 1) (size_of ((u @ [x]) @ w) - 1) ?r =
        words_loop ?s (size_of u - 1) (size_of ((u @ [x]) @ w) - 1) ?r"
      using x by (subst words_loop.simps) simp
    then show ?thesis using snoc.IH [of "x # w" v] snoc.prems 2 by simp
  next
    case 3
    then have "words_loop ?s (size_of (u @ [x]) - 1) (- 1) ?r = words_loop ?s (size_of u - 1) (- 1) ?r"
      using x by (subst words_loop.simps) simp
    then show ?thesis using snoc.IH [of "[]" "space # v"] snoc.prems 3 by (simp add: word_list_space)
  next
    case 4
    have "push_range ?s (size_of (u @ [x])) (size_of ((u @ [x]) @ w) - 1) (separate ?r) =
        Some (join_with space (rev (word_list (space # w @ v))))"
      using push_range_mid [of "u @ [x]" w v] separate_join [of v w] word_list_first [of w v] snoc.prems 4
      by (simp add: word_list_space word_list_plain)
    then have "words_loop ?s (size_of (u @ [x]) - 1) (size_of ((u @ [x]) @ w) - 1) ?r =
        words_loop ?s (size_of u - 1) (- 1) (join_with space (rev (word_list (space # w @ v))))"
      using x 4 by (subst words_loop.simps) (simp add: add.commute)
    then show ?thesis using snoc.IH [of "[]" "space # w @ v"] 4 by simp
  qed
qed

lemma reverseWords_words: "reverseWords s = Some (join_with space (rev (word_list s)))"
  using words_loop_spec [of "[]" "[]" s] by (simp add: reverseWords_def finish_words_def)

text \<open>What it returns has the same words, in reverse order, with single spaces between them.\<close>

lemma word_list_join:
  "\<forall>w\<in>set ws. w \<noteq> [] \<and> space \<notin> set w \<Longrightarrow> word_list (join_with space ws) = ws"
  by (induction space ws rule: join_with.induct) (simp_all add: word_list_plain word_list_append)

lemma split_on_parts: "p \<in> set (split_on c s) \<Longrightarrow> c \<notin> set p"
proof (induction s arbitrary: p)
  case (Cons x s)
  show ?case
  proof (cases "x = c")
    case False
    then obtain q qs where "split_on c s = q # qs" by (cases "split_on c s") auto
    then show ?thesis using Cons False by (auto split: if_splits)
  qed (use Cons in auto)
qed simp

lemma word_list_reversed: "word_list (join_with space (rev (word_list s))) = rev (word_list s)"
  by (rule word_list_join) (auto simp: word_list_def dest: split_on_parts)

text \<open>
  the two programs for the last word agree and return the length of the last of the words of the
  string, 0 when there is none; \<open>reverseWords\<close> returns the words of the string in reverse order joined by
  single spaces, and run on its own result it restores the order of the words.
\<close>

theorem word_programs:
  "lengthOfLastWord s = Some (if word_list s = [] then 0 else size_of (last (word_list s))) \<and>
   lengthOfLastWord s = Some (lengthOfLastWord2 s) \<and>
   (\<exists>r. reverseWords s = Some r \<and> r = join_with space (rev (word_list s)) \<and> word_list r = rev (word_list s) \<and>
      reverseWords r = Some (join_with space (word_list s)))"
  using lengthOfLastWord_last [of s] lengthOfLastWord2_last [of s] reverseWords_words word_list_reversed [of s]
  by (simp add: last_length_def)

end
