(* ===== verification/LcVersions.thy ===== *)
theory LcVersions
  imports LcWords
begin

text \<open>
  Comparing version numbers (\<^verbatim>\<open>hobbies/leetcode/algorithms/solution_165\<close>), once with \<^verbatim>\<open>find\<close> and
  \<^verbatim>\<open>std::stoi\<close>, once digit by digit. \<^verbatim>\<open>string::npos\<close> is \<open>None\<close> of a position; \<open>None\<close> of a result is an
  exception of \<^verbatim>\<open>stoi\<close> (no digits, or a value outside \<^verbatim>\<open>int\<close>) or an overflow of \<^verbatim>\<open>int\<close>.
\<close>

section \<open>The programs\<close>

definition stoi :: "string \<Rightarrow> int option" where
  \<comment> \<open>white space, a sign, digits; the rest is ignored\<close>
  "stoi s =
     (let t = dropWhile white_char s;
          u = (if t \<noteq> [] \<and> (hd t = CHR ''-'' \<or> hd t = CHR ''+'') then tl t else t);
          ds = takeWhile digit_char u;
          v = (if t \<noteq> [] \<and> hd t = CHR ''-'' then - decimal_of ds else decimal_of ds) in
      if ds \<noteq> [] \<and> fits_int v then Some v else None)"

definition find_char :: "string \<Rightarrow> char \<Rightarrow> nat \<Rightarrow> nat option" where
  \<comment> \<open>\<^verbatim>\<open>s.find(c, pos)\<close>\<close>
  "find_char s c pos =
     (let n = length (takeWhile (\<lambda>x. x \<noteq> c) (drop pos s)) in if pos + n < length s then Some (pos + n) else None)"

definition next_number :: "string \<Rightarrow> nat option \<Rightarrow> (int \<times> nat option) option" where
  "next_number version op =
     (case op of
        None \<Rightarrow> Some (0, None)
      | Some p \<Rightarrow>
          (case find_char version CHR ''.'' (p + 1) of
             Some q \<Rightarrow> map_option (\<lambda>v. (v, Some (q + 1))) (stoi (take (q - p + 1) (drop p version)))
           | None \<Rightarrow> map_option (\<lambda>v. (v, None)) (stoi (drop p version))))"

definition inside :: "nat option \<Rightarrow> string \<Rightarrow> bool" where
  \<comment> \<open>\<^verbatim>\<open>op < version.size()\<close>, false for \<^verbatim>\<open>npos\<close>\<close>
  "inside op version \<longleftrightarrow> (case op of None \<Rightarrow> False | Some p \<Rightarrow> p < length version)"

partial_function (option) version_loop :: "string \<Rightarrow> string \<Rightarrow> nat option \<Rightarrow> nat option \<Rightarrow> int option" where
  "version_loop version1 version2 op1 op2 =
     (if inside op1 version1 \<or> inside op2 version2 then do {
        (v1, op1') \<leftarrow> next_number version1 op1;
        (v2, op2') \<leftarrow> next_number version2 op2;
        if v1 > v2 then Some 1
        else if v1 < v2 then Some (- 1)
        else version_loop version1 version2 op1' op2' }
      else Some 0)"

definition compareVersion :: "string \<Rightarrow> string \<Rightarrow> int option" where
  "compareVersion version1 version2 = version_loop version1 version2 (Some 0) (Some 0)"

function digits_loop :: "string \<Rightarrow> nat \<Rightarrow> int \<Rightarrow> (int \<times> nat) option" where
  "digits_loop version i v =
     (if i < length version \<and> digit_char (version ! i) then
        let v' = v * 10 + (of_char (version ! i) - 48) in
        if fits_int v' then digits_loop version (i + 1) v' else None
      else Some (v, i))"
  by pat_completeness auto
termination by (relation "measure (\<lambda>(s, i, v). length s - i)") auto

partial_function (option) version_loop_b :: "string \<Rightarrow> string \<Rightarrow> nat \<Rightarrow> nat \<Rightarrow> int option" where
  "version_loop_b version1 version2 i j =
     (if i < length version1 \<or> j < length version2 then do {
        (v1, i') \<leftarrow> digits_loop version1 i 0;
        (v2, j') \<leftarrow> digits_loop version2 j 0;
        if v1 < v2 then Some (- 1)
        else if v1 > v2 then Some 1
        else version_loop_b version1 version2 (i' + 1) (j' + 1) }
      else Some 0)"

definition compareVersion2 :: "string \<Rightarrow> string \<Rightarrow> int option" where
  "compareVersion2 version1 version2 = version_loop_b version1 version2 0 0"

declare digits_loop.simps [simp del] version_loop.simps [code] version_loop_b.simps [code]

section \<open>Version strings and their order\<close>

definition number_string :: "string \<Rightarrow> bool" where
  "number_string ds \<longleftrightarrow> ds \<noteq> [] \<and> (\<forall>c\<in>set ds. digit_char c) \<and> fits_int (decimal_of ds)"

definition version_string :: "string list \<Rightarrow> bool" where
  "version_string ps \<longleftrightarrow> (\<forall>p\<in>set ps. number_string p)"

abbreviation dotted :: "string list \<Rightarrow> string" where
  "dotted \<equiv> join_with CHR ''.''"

definition component :: "string list \<Rightarrow> nat \<Rightarrow> int" where
  \<comment> \<open>the numbers of a version; those it does not have count as 0\<close>
  "component ps k = (if k < length ps then decimal_of (ps ! k) else 0)"

definition compare_components :: "(nat \<Rightarrow> int) \<Rightarrow> (nat \<Rightarrow> int) \<Rightarrow> int \<Rightarrow> bool" where
  \<comment> \<open>the result decides at the first number in which the versions differ\<close>
  "compare_components f g r \<longleftrightarrow>
     (if \<forall>k. f k = g k then r = 0
      else \<exists>k. (\<forall>j<k. f j = g j) \<and> f k \<noteq> g k \<and> r = (if f k > g k then 1 else - 1))"

lemma compare_components_head:
  "f 0 \<noteq> g 0 \<Longrightarrow> compare_components f g (if f 0 > g 0 then 1 else - 1)"
  unfolding compare_components_def by (auto intro!: exI [of _ 0])

lemma compare_components_tail:
  assumes "f 0 = g 0" "compare_components (\<lambda>k. f (Suc k)) (\<lambda>k. g (Suc k)) r"
  shows "compare_components f g r"
proof (cases "\<forall>k. f k = g k")
  case True
  then show ?thesis using assms(2) by (simp add: compare_components_def)
next
  case False
  then have "\<not> (\<forall>k. f (Suc k) = g (Suc k))" using assms(1) by (metis not0_implies_Suc)
  then obtain k where k: "\<forall>j<k. f (Suc j) = g (Suc j)" "f (Suc k) \<noteq> g (Suc k)" "r = (if f (Suc k) > g (Suc k) then 1 else - 1)"
    using assms(2) unfolding compare_components_def by (simp only: if_False) blast
  have "\<forall>j<Suc k. f j = g j" using k(1) assms(1) by (simp add: All_less_Suc2)
  then show ?thesis using False k unfolding compare_components_def by auto
qed

lemma component_head: "component (p # ps) 0 = decimal_of p" "component [] 0 = 0"
  by (simp_all add: component_def)

lemma component_tail: "(\<lambda>k. component ps (Suc k)) = component (tl ps)"
  by (cases ps) (auto simp: component_def fun_eq_iff)

section \<open>Reading a number\<close>

lemma digit_char_plain: "digit_char c \<Longrightarrow> c \<noteq> CHR ''.'' \<and> c \<noteq> CHR ''-'' \<and> c \<noteq> CHR ''+'' \<and> \<not> white_char c"
  by (auto simp: digit_char_def white_char_def)

lemma digit_char_dot [simp]: "\<not> digit_char CHR ''.''"
  by (simp add: digit_char_def)

lemma stoi_number:
  assumes "number_string ds" "rest = [] \<or> hd rest = CHR ''.''"
  shows "stoi (ds @ rest) = Some (decimal_of ds)"
proof -
  obtain c cs where ds: "ds = c # cs" using assms(1) by (cases ds) (auto simp: number_string_def)
  have c: "digit_char c" using assms(1) ds by (simp add: number_string_def)
  have "takeWhile digit_char (ds @ rest) = ds"
    using assms by (cases rest) (auto simp: number_string_def takeWhile_append)
  then show ?thesis using assms(1) c digit_char_plain [OF c] ds
    by (simp add: stoi_def Let_def number_string_def)
qed

lemma dotted_Cons: "dotted (p # ps) = p @ (if ps = [] then [] else CHR ''.'' # dotted ps)"
  by (cases ps) simp_all

lemma dotted_not_Nil: "ps \<noteq> [] \<Longrightarrow> version_string ps \<Longrightarrow> dotted ps \<noteq> []"
  by (cases ps) (auto simp: dotted_Cons version_string_def number_string_def)

lemma dotted_inside: "drop i v = dotted ps \<Longrightarrow> ps \<noteq> [] \<Longrightarrow> version_string ps \<Longrightarrow> i < length v"
  using dotted_not_Nil by (metis drop_eq_Nil not_le)

definition at_version :: "string \<Rightarrow> nat option \<Rightarrow> string list \<Rightarrow> bool" where
  "at_version v op ps \<longleftrightarrow>
     (case op of None \<Rightarrow> ps = [] | Some p \<Rightarrow> ps \<noteq> [] \<and> p < length v \<and> drop p v = dotted ps)"

lemma next_number_step:
  assumes "at_version v op ps" "version_string ps"
  shows "\<exists>op'. next_number v op = Some (component ps 0, op') \<and> at_version v op' (tl ps)"
proof (cases op)
  case None
  then show ?thesis using assms by (simp add: next_number_def at_version_def component_def)
next
  case (Some p)
  then obtain d ds where ps: "ps = d # ds" and p: "p < length v" "drop p v = dotted ps"
    using assms(1) by (cases ps) (auto simp: at_version_def)
  have d: "number_string d" and ds: "version_string ds" using assms(2) ps by (auto simp: version_string_def)
  then obtain c cs where c: "d = c # cs" by (cases d) (auto simp: number_string_def)
  let ?rest = "if ds = [] then [] else CHR ''.'' # dotted ds"
  have dr: "drop p v = d @ ?rest" using p(2) ps dotted_Cons by simp
  then have v: "v = take p v @ d @ ?rest" by (metis append_take_drop_id)
  have "drop (p + 1) v = tl (drop p v)" by (simp add: drop_Suc tl_drop)
  then have dr1: "drop (p + 1) v = cs @ ?rest" using dr c by simp
  have nodot: "CHR ''.'' \<notin> set cs" using d c digit_char_plain by (auto simp: number_string_def)
  have len: "length v = p + length d + length ?rest" using arg_cong [OF v, of length] p(1) by simp
  show ?thesis
  proof (cases "ds = []")
    case True
    then have "takeWhile (\<lambda>x. x \<noteq> CHR ''.'') (drop (p + 1) v) = cs"
      unfolding dr1 using nodot by (auto simp: takeWhile_eq_all_conv)
    then have "find_char v CHR ''.'' (p + 1) = None" using len True c by (simp add: find_char_def)
    then show ?thesis
      using Some dr True stoi_number [OF d, of "[]"] ps by (simp add: next_number_def at_version_def component_head)
  next
    case False
    then have "takeWhile (\<lambda>x. x \<noteq> CHR ''.'') (drop (p + 1) v) = cs"
      unfolding dr1 using nodot by (auto simp: takeWhile_append takeWhile_eq_all_conv)
    then have f: "find_char v CHR ''.'' (p + 1) = Some (p + length d)" using len False c by (simp add: find_char_def)
    have t: "take (length d + 1) (drop p v) = d @ [CHR ''.'']" unfolding dr using False by simp
    have "drop (p + length d + 1) v = drop (length d + 1) (drop p v)" by (simp add: add.commute add.left_commute)
    then have "drop (p + length d + 1) v = dotted ds" unfolding dr using False by simp
    moreover from this have "p + length d + 1 < length v" using dotted_inside False ds by blast
    ultimately show ?thesis
      using Some f t False stoi_number [OF d, of "[CHR ''.'']"] ps
      by (simp add: next_number_def at_version_def component_head)
  qed
qed


lemma inside_version: "at_version v op ps \<Longrightarrow> inside op v \<longleftrightarrow> ps \<noteq> []"
  by (auto simp: at_version_def inside_def split: option.splits)

lemma version_string_tl: "version_string ps \<Longrightarrow> version_string (tl ps)"
  by (cases ps) (simp_all add: version_string_def)

lemma compare_components_refl: "compare_components f f 0"
  by (simp add: compare_components_def)

lemma version_loop_spec:
  assumes "at_version v op ps" "at_version w oq qs" "version_string ps" "version_string qs"
  shows "\<exists>r. version_loop v w op oq = Some r \<and> compare_components (component ps) (component qs) r"
  using assms
proof (induction "length ps + length qs" arbitrary: ps qs op oq rule: less_induct)
  case less
  show ?case
  proof (cases "ps = [] \<and> qs = []")
    case True
    then show ?thesis using less.prems inside_version compare_components_refl by (subst version_loop.simps) auto
  next
    case False
    obtain op' where p: "next_number v op = Some (component ps 0, op')" "at_version v op' (tl ps)"
      using next_number_step less.prems by blast
    obtain oq' where q: "next_number w oq = Some (component qs 0, oq')" "at_version w oq' (tl qs)"
      using next_number_step less.prems by blast
    have run: "version_loop v w op oq =
        (if component ps 0 > component qs 0 then Some 1 else if component ps 0 < component qs 0 then Some (- 1)
         else version_loop v w op' oq')"
      using False inside_version less.prems p(1) q(1) by (subst version_loop.simps) auto
    show ?thesis
    proof (cases "component ps 0 = component qs 0")
      case True
      have "length (tl ps) + length (tl qs) < length ps + length qs" using False by (cases ps; cases qs) auto
      then obtain r where "version_loop v w op' oq' = Some r" "compare_components (component (tl ps)) (component (tl qs)) r"
        using less.hyps p(2) q(2) version_string_tl less.prems by blast
      then show ?thesis using compare_components_tail [of "component ps" "component qs"] True run by (simp add: component_tail)
    next
      case False
      then show ?thesis using compare_components_head [of "component ps" "component qs"] run by (auto split: if_splits)
    qed
  qed
qed

section \<open>Digit by digit\<close>

lemma digits_loop_number:
  assumes "\<forall>c\<in>set (ds @ es). digit_char c" "fits_int (decimal_of (ds @ es))" "rest = [] \<or> hd rest = CHR ''.''"
  shows "digits_loop (u @ ds @ es @ rest) (length (u @ ds)) (decimal_of ds) = Some (decimal_of (ds @ es), length (u @ ds @ es))"
  using assms
proof (induction es arbitrary: ds)
  case Nil
  then show ?case by (subst digits_loop.simps) (cases rest; simp add: nth_append)
next
  case (Cons c es)
  let ?v = "u @ ds @ (c # es) @ rest"
  have c: "?v ! length (u @ ds) = c" by (simp add: nth_append)
  have "decimal_of (ds @ [c]) \<le> decimal_of (ds @ c # es)" "0 \<le> decimal_of (ds @ [c])"
    using decimal_of_append [of es "ds @ [c]"] decimal_of_nonneg [of "ds @ [c]"] Cons.prems(1) by auto
  then have "fits_int (decimal_of (ds @ [c]))" using Cons.prems(2) by (auto simp: fits_int_def)
  then have "digits_loop ?v (length (u @ ds)) (decimal_of ds) = digits_loop ?v (length (u @ ds) + 1) (decimal_of (ds @ [c]))"
    using Cons.prems(1) c by (subst digits_loop.simps) (simp add: decimal_of_snoc Let_def)
  then show ?case using Cons.IH [of "ds @ [c]"] Cons.prems by simp
qed

definition at_version_b :: "string \<Rightarrow> nat \<Rightarrow> string list \<Rightarrow> bool" where
  "at_version_b v i ps \<longleftrightarrow> (if ps = [] then length v \<le> i else i < length v \<and> drop i v = dotted ps)"

lemma digits_loop_step:
  assumes "at_version_b v i ps" "version_string ps"
  shows "\<exists>i'. digits_loop v i 0 = Some (component ps 0, i') \<and> at_version_b v (i' + 1) (tl ps)"
proof (cases ps)
  case Nil
  then show ?thesis using assms by (subst digits_loop.simps) (auto simp: at_version_b_def component_def)
next
  case (Cons d ds)
  have d: "number_string d" and ds: "version_string ds" using assms(2) Cons by (auto simp: version_string_def)
  let ?rest = "if ds = [] then [] else CHR ''.'' # dotted ds"
  have dr: "i < length v" "drop i v = d @ ?rest" using assms(1) Cons dotted_Cons by (auto simp: at_version_b_def)
  then have v: "v = take i v @ [] @ d @ ?rest" by (metis append_Nil append_take_drop_id)
  have "digits_loop v i 0 = Some (decimal_of d, i + length d)"
    using digits_loop_number [of "[]" d ?rest "take i v"] d dr(1) v by (simp add: number_string_def decimal_of_def min_absorb2)
  moreover have "at_version_b v (i + length d + 1) ds"
  proof (cases "ds = []")
    case True
    then show ?thesis using arg_cong [OF dr(2), of length] dr(1) by (simp add: at_version_b_def)
  next
    case False
    have "drop (i + length d + 1) v = drop (length d + 1) (drop i v)" by (simp add: add.commute add.left_commute)
    then have "drop (i + length d + 1) v = dotted ds" unfolding dr(2) using False by simp
    moreover from this have "i + length d + 1 < length v" using dotted_inside False ds by blast
    ultimately show ?thesis using False by (simp add: at_version_b_def)
  qed
  ultimately show ?thesis using Cons by (simp add: component_head)
qed

lemma version_loop_b_spec:
  assumes "at_version_b v i ps" "at_version_b w j qs" "version_string ps" "version_string qs"
  shows "\<exists>r. version_loop_b v w i j = Some r \<and> compare_components (component ps) (component qs) r"
  using assms
proof (induction "length ps + length qs" arbitrary: ps qs i j rule: less_induct)
  case less
  have ij: "i < length v \<or> j < length w \<longleftrightarrow> \<not> (ps = [] \<and> qs = [])"
    using less.prems(1,2) by (auto simp: at_version_b_def split: if_splits)
  show ?case
  proof (cases "ps = [] \<and> qs = []")
    case True
    then show ?thesis using ij compare_components_refl by (subst version_loop_b.simps) auto
  next
    case False
    obtain i' where p: "digits_loop v i 0 = Some (component ps 0, i')" "at_version_b v (i' + 1) (tl ps)"
      using digits_loop_step less.prems by blast
    obtain j' where q: "digits_loop w j 0 = Some (component qs 0, j')" "at_version_b w (j' + 1) (tl qs)"
      using digits_loop_step less.prems by blast
    have run: "version_loop_b v w i j =
        (if component ps 0 < component qs 0 then Some (- 1) else if component ps 0 > component qs 0 then Some 1
         else version_loop_b v w (i' + 1) (j' + 1))"
      using False ij p(1) q(1) by (subst version_loop_b.simps) auto
    show ?thesis
    proof (cases "component ps 0 = component qs 0")
      case True
      have "length (tl ps) + length (tl qs) < length ps + length qs" using False by (cases ps; cases qs) auto
      then obtain r where "version_loop_b v w (i' + 1) (j' + 1) = Some r"
        "compare_components (component (tl ps)) (component (tl qs)) r"
        using less.hyps p(2) q(2) version_string_tl less.prems by blast
      then show ?thesis using compare_components_tail [of "component ps" "component qs"] True run by (simp add: component_tail)
    next
      case False
      then show ?thesis using compare_components_head [of "component ps" "component qs"] run by (auto split: if_splits)
    qed
  qed
qed

lemma compare_components_unique:
  assumes "compare_components f g r" "compare_components f g r'"
  shows "r = r'"
proof (cases "\<forall>k. f k = g k")
  case False
  then obtain k k' where "\<forall>j<k. f j = g j" "f k \<noteq> g k" "r = (if f k > g k then 1 else - 1)"
    "\<forall>j<k'. f j = g j" "f k' \<noteq> g k'" "r' = (if f k' > g k' then 1 else - 1)"
    using assms unfolding compare_components_def by (simp only: if_False) blast
  then show ?thesis by (metis linorder_neqE_nat)
qed (use assms in \<open>simp add: compare_components_def\<close>)

lemma at_version_start:
  assumes "ps \<noteq> []" "version_string ps"
  shows "at_version (dotted ps) (Some 0) ps" "at_version_b (dotted ps) 0 ps"
proof -
  have "dotted ps \<noteq> []" using assms by (rule dotted_not_Nil)
  then show "at_version (dotted ps) (Some 0) ps" "at_version_b (dotted ps) 0 ps"
    using assms(1) by (simp_all add: at_version_def at_version_b_def)
qed

text \<open>
  on version strings, numbers that fit into \<^verbatim>\<open>int\<close> separated by dots, both programs return without
  an exception or overflow, and the result is that of the first number in which the versions differ,
  where a missing number counts as 0: 1 when it is greater, -1 when it is less, 0 when there is none.
  On strings that are not versions they differ: an empty number is an exception of \<open>compareVersion\<close>
  and 0 for \<open>compareVersion2\<close>.
\<close>

theorem versions_compared:
  assumes "ps \<noteq> []" "qs \<noteq> []" "version_string ps" "version_string qs"
  shows "\<exists>r. compareVersion (dotted ps) (dotted qs) = Some r \<and> compareVersion2 (dotted ps) (dotted qs) = Some r \<and>
    compare_components (component ps) (component qs) r"
proof -
  obtain r where "compareVersion (dotted ps) (dotted qs) = Some r" "compare_components (component ps) (component qs) r"
    unfolding compareVersion_def using version_loop_spec at_version_start assms by blast
  moreover obtain r' where "compareVersion2 (dotted ps) (dotted qs) = Some r'" "compare_components (component ps) (component qs) r'"
    unfolding compareVersion2_def using version_loop_b_spec at_version_start assms by blast
  ultimately show ?thesis using compare_components_unique by blast
qed

lemma version_examples:
  "compareVersion ''1.10'' ''1.9.3'' = Some 1" "compareVersion ''1'' ''1.0'' = Some 0" "compareVersion ''1..2'' ''1.0'' = None"
  "compareVersion2 ''1.10'' ''1.9.3'' = Some 1" "compareVersion2 ''1..2'' ''1.0'' = Some 1"
  by code_simp+

lemma versions_compared_witness:
  "\<exists>r. compareVersion ''1.10'' ''1.9.3'' = Some r \<and> compareVersion2 ''1.10'' ''1.9.3'' = Some r \<and>
    compare_components (component [''1'', ''10'']) (component [''1'', ''9'', ''3'']) r"
  using versions_compared [of "[''1'', ''10'']" "[''1'', ''9'', ''3'']"]
  by (simp add: version_string_def number_string_def digit_char_def decimal_of_def fits_int_def)

end
