(* ===== verification/LcSieve.thy ===== *)
theory LcSieve
  imports Prelude
begin

text \<open>
  Counting primes with a sieve (\<^verbatim>\<open>hobbies/leetcode/algorithms/solution_204\<close>). Values are \<^verbatim>\<open>int\<close>;
  \<open>None\<close> is an overflow, an access outside the vector or a loop that does not end.
\<close>

section \<open>The programs\<close>

definition checked :: "int \<Rightarrow> int option" where
  \<comment> \<open>the result of an \<^verbatim>\<open>int\<close> operation, undefined when it overflows\<close>
  "checked x = (if fits_int x then Some x else None)"

lemma checked_fits [simp]: "fits_int x \<Longrightarrow> checked x = Some x"
  by (simp add: checked_def)

lemma checked_over [simp]: "\<not> fits_int x \<Longrightarrow> checked x = None"
  by (simp add: checked_def)

partial_function (option) strike_loop :: "int \<Rightarrow> int \<Rightarrow> int \<Rightarrow> bool list \<Rightarrow> bool list option" where
  "strike_loop n i j primes =
     (if j < n then do {
        primes' \<leftarrow> put_at primes j False;
        j' \<leftarrow> checked (j + i);
        strike_loop n i j' primes' }
      else Some primes)"

partial_function (option) sieve_loop :: "int \<Rightarrow> int \<Rightarrow> bool list \<Rightarrow> bool list option" where
  "sieve_loop n i primes = do {
     sq \<leftarrow> checked (i * i);
     if sq < n then do {
       b \<leftarrow> at primes i;
       primes' \<leftarrow> (if \<not> b then Some primes else strike_loop n i sq primes);
       sieve_loop n (i + 1) primes' }
     else Some primes }"

function tally_loop :: "int \<Rightarrow> int \<Rightarrow> bool list \<Rightarrow> int \<Rightarrow> int option" where
  "tally_loop n i primes cnt =
     (if i < n then do { b \<leftarrow> at primes i; tally_loop n (i + 1) primes (if b then cnt + 1 else cnt) }
      else Some cnt)"
  by pat_completeness auto
termination by (relation "measure (\<lambda>(n, i, p, c). nat (n - i))") auto

definition countPrimes :: "int \<Rightarrow> int option" where
  \<comment> \<open>a vector of negative size is not constructed\<close>
  "countPrimes n =
     (if n < 0 then None
      else do { primes \<leftarrow> sieve_loop n 2 (replicate (nat n) True); tally_loop n 2 primes 0 })"

partial_function (option) sieve_count_loop :: "int \<Rightarrow> int \<Rightarrow> bool list \<Rightarrow> int \<Rightarrow> int option" where
  "sieve_count_loop n i primes cnt =
     (if i < n then do {
        b \<leftarrow> at primes i;
        if \<not> b then sieve_count_loop n (i + 1) primes cnt
        else do {
          sq \<leftarrow> checked (i * i);
          primes' \<leftarrow> strike_loop n i sq primes;
          sieve_count_loop n (i + 1) primes' (cnt + 1) } }
      else Some cnt)"

definition countPrimes2 :: "int \<Rightarrow> int option" where
  "countPrimes2 n = (if n < 0 then None else sieve_count_loop n 2 (replicate (nat n) True) 0)"

declare tally_loop.simps [simp del] strike_loop.simps [code] sieve_loop.simps [code] sieve_count_loop.simps [code]

lemma sieve_examples: "countPrimes 30 = Some 10" "countPrimes2 30 = Some 10"
  by code_simp+

section \<open>Primes\<close>

definition prime_number :: "nat \<Rightarrow> bool" where
  "prime_number p \<longleftrightarrow> 2 \<le> p \<and> (\<forall>d. 2 \<le> d \<and> d < p \<longrightarrow> \<not> d dvd p)"

definition primes_below :: "nat \<Rightarrow> nat" where
  "primes_below n = card {p. prime_number p \<and> p < n}"

lemma primes_below_Suc: "primes_below (Suc n) = primes_below n + (if prime_number n then 1 else 0)"
proof -
  have "{p. prime_number p \<and> p < Suc n} = {p. prime_number p \<and> p < n} \<union> (if prime_number n then {n} else {})"
    by (auto simp: less_Suc_eq)
  then show ?thesis by (simp add: primes_below_def)
qed

lemma primes_below_2: "n \<le> 2 \<Longrightarrow> primes_below n = 0"
  unfolding primes_below_def prime_number_def by (auto intro!: card_eq_0_iff [THEN iffD2])

definition unstruck :: "nat \<Rightarrow> nat \<Rightarrow> bool" where
  \<comment> \<open>no number from 2 up to and without \<open>i\<close> strikes \<open>k\<close>\<close>
  "unstruck i k \<longleftrightarrow> (\<forall>p. 2 \<le> p \<and> p < i \<and> p * p \<le> k \<longrightarrow> \<not> p dvd k)"

lemma small_divisor:
  assumes "2 \<le> d" "d < k" "d dvd (k :: nat)"
  shows "\<exists>p. 2 \<le> p \<and> p * p \<le> k \<and> p dvd k"
proof -
  obtain e where e: "k = d * e" using assms(3) by blast
  have "e \<noteq> 0" using e assms(2) by (metis mult_0_right not_less0)
  moreover have "e \<noteq> 1" using e assms(2) by (metis mult.right_neutral less_irrefl)
  ultimately have e2: "2 \<le> e" by simp
  show ?thesis
  proof (cases "d \<le> e")
    case True
    then show ?thesis using assms(1,3) e mult_le_mono2 [OF True, of d] by blast
  next
    case False
    then have "e * e \<le> k" using e mult_le_mono1 [of e d e] by simp
    moreover have "e dvd k" unfolding e by simp
    ultimately have "e * e \<le> k \<and> e dvd k" by blast
    then show ?thesis using e2 by blast
  qed
qed

lemma unstruck_prime:
  assumes "2 \<le> k" "k \<le> i \<or> k < i * i"
  shows "unstruck i k \<longleftrightarrow> prime_number k"
proof
  assume u: "unstruck i k"
  have "\<not> d dvd k" if d: "2 \<le> d" "d < k" for d
  proof
    assume "d dvd k"
    then obtain p where p: "2 \<le> p" "p * p \<le> k" "p dvd k" using small_divisor [OF d] by blast
    have "p < i"
    proof (rule ccontr)
      assume "\<not> p < i"
      then have "i \<le> p" by simp
      then have "i * i \<le> p * p" using mult_le_mono by blast
      moreover have "p < p * p" using p(1) by simp
      ultimately have "i * i \<le> k" "i < k" using p(2) \<open>i \<le> p\<close> by (meson le_trans, meson le_less_trans less_le_trans)
      then show False using assms(2) by (meson not_le)
    qed
    then show False using u p by (auto simp: unstruck_def)
  qed
  then show "prime_number k" using assms(1) by (simp add: prime_number_def)
next
  assume k: "prime_number k"
  have "\<not> p dvd k" if "2 \<le> p" "p * p \<le> k" for p
  proof -
    have "p < p * p" using that(1) by simp
    then have "p < k" using that(2) by (rule less_le_trans)
    then show ?thesis using k that(1) by (simp add: prime_number_def)
  qed
  then show "unstruck i k" by (simp add: unstruck_def)
qed

lemma unstruck_Suc: "unstruck (Suc i) k \<longleftrightarrow> unstruck i k \<and> \<not> (2 \<le> i \<and> i * i \<le> k \<and> i dvd k)"
  by (auto simp: unstruck_def less_Suc_eq)

lemma unstruck_skip:
  assumes "\<not> unstruck i i"
  shows "unstruck (Suc i) k \<longleftrightarrow> unstruck i k"
proof -
  have "\<not> unstruck i k" if "i * i \<le> k" "i dvd k"
  proof -
    obtain p where p: "2 \<le> p" "p < i" "p * p \<le> i" "p dvd i" using assms by (auto simp: unstruck_def)
    have "p * p \<le> i * i" using p(2) mult_le_mono less_imp_le by blast
    then show ?thesis using p that unfolding unstruck_def by (meson dvd_trans le_trans)
  qed
  then show ?thesis by (auto simp: unstruck_Suc)
qed

section \<open>Striking out\<close>

lemma fits_int_le: "0 \<le> x \<Longrightarrow> x \<le> y \<Longrightarrow> fits_int y \<Longrightarrow> fits_int x"
  by (simp add: fits_int_def)

lemma fits_nat: "n \<le> 2147483647 \<Longrightarrow> fits_int (int n)"
  by (simp add: fits_int_def)

lemma strike_loop_spec:
  assumes "0 < i" "length ps = n"
  shows "(\<exists>ps'. strike_loop (int n) (int i) (int j) ps = Some ps' \<and> length ps' = n \<and>
      (\<forall>k<n. ps' ! k \<longleftrightarrow> ps ! k \<and> \<not> (j \<le> k \<and> i dvd k - j))) \<or>
    strike_loop (int n) (int i) (int j) ps = None \<and> \<not> fits_int (int (n + i))"
  using assms(2)
proof (induction "n - j" arbitrary: j ps rule: less_induct)
  case less
  show ?case
  proof (cases "j < n")
    case False
    then show ?thesis using less.prems by (subst strike_loop.simps) auto
  next
    case True
    let ?ps = "ps[j := False]"
    have run: "strike_loop (int n) (int i) (int j) ps =
        (if fits_int (int (j + i)) then strike_loop (int n) (int i) (int (j + i)) ?ps else None)"
      using True less.prems by (subst strike_loop.simps) (simp add: put_at_in)
    have over: "\<not> fits_int (int (n + i))" if "\<not> fits_int (int (j + i))"
      using fits_int_le [of "int (j + i)" "int (n + i)"] True that by auto
    have "n - (j + i) < n - j" using True assms(1) by simp
    then consider "strike_loop (int n) (int i) (int j) ps = None \<and> \<not> fits_int (int (n + i))"
      | ps' where "strike_loop (int n) (int i) (int j) ps = Some ps'" "length ps' = n"
      "\<forall>k<n. ps' ! k \<longleftrightarrow> ?ps ! k \<and> \<not> (j + i \<le> k \<and> i dvd k - (j + i))"
      using less.hyps [of "j + i" ?ps] less.prems run over by (cases "fits_int (int (j + i))") auto
    then show ?thesis
    proof cases
    case 1
    then show ?thesis by blast
    next
    case ps': 2
    have "ps' ! k \<longleftrightarrow> ps ! k \<and> \<not> (j \<le> k \<and> i dvd k - j)" if k: "k < n" for k
    proof -
      have "(j \<le> k \<and> i dvd k - j) \<longleftrightarrow> k = j \<or> (j + i \<le> k \<and> i dvd k - (j + i))"
      proof (cases "j < k")
        case True
        show ?thesis
        proof (cases "j + i \<le> k")
          case True
          then have "k - j = (k - (j + i)) + i" by simp
          then have "i dvd k - j \<longleftrightarrow> i dvd k - (j + i)" by (metis dvd_add_triv_right_iff)
          then show ?thesis using True assms(1) by auto
        next
          case False
          then have "\<not> i dvd k - j" using \<open>j < k\<close> by (metis dvd_imp_le less_diff_conv2 less_imp_le not_le zero_less_diff add.commute)
          then show ?thesis using False \<open>j < k\<close> by auto
        qed
      qed (use assms(1) in auto)
      then show ?thesis using ps'(3) k less.prems by (auto simp: nth_list_update)
    qed
    then show ?thesis using ps' by auto
    qed
  qed
qed

definition sieve_inv :: "nat \<Rightarrow> nat \<Rightarrow> bool list \<Rightarrow> bool" where
  "sieve_inv n i ps \<longleftrightarrow> length ps = n \<and> (\<forall>k<n. 2 \<le> k \<longrightarrow> (ps ! k \<longleftrightarrow> unstruck i k))"

lemma sieve_inv_skip:
  assumes "sieve_inv n i ps" "2 \<le> i" "i < n" "\<not> ps ! i"
  shows "sieve_inv n (Suc i) ps"
  using assms unstruck_skip [of i] by (auto simp: sieve_inv_def)

lemma sieve_inv_strike:
  assumes "sieve_inv n i ps" "2 \<le> i"
  shows "(\<exists>ps'. strike_loop (int n) (int i) (int (i * i)) ps = Some ps' \<and> sieve_inv n (Suc i) ps') \<or>
    strike_loop (int n) (int i) (int (i * i)) ps = None \<and> \<not> fits_int (int (n + i))"
proof -
  consider "strike_loop (int n) (int i) (int (i * i)) ps = None \<and> \<not> fits_int (int (n + i))"
    | ps' where "strike_loop (int n) (int i) (int (i * i)) ps = Some ps'" "length ps' = n"
    "\<forall>k<n. ps' ! k \<longleftrightarrow> ps ! k \<and> \<not> (i * i \<le> k \<and> i dvd k - i * i)"
    using strike_loop_spec [of i ps n "i * i"] assms unfolding sieve_inv_def by fastforce
  then show ?thesis
  proof cases
  case ps': 2
  have "i * i \<le> k \<and> i dvd k - i * i \<longleftrightarrow> i * i \<le> k \<and> i dvd k" for k
    by (metis dvd_diff_nat dvd_triv_left le_add_diff_inverse dvd_add)
  then have "sieve_inv n (Suc i) ps'" using ps'(2,3) assms(1,2) by (auto simp: sieve_inv_def unstruck_Suc)
  then show ?thesis using ps'(1) by blast
  qed blast
qed

lemma sieve_loop_spec:
  assumes "sieve_inv n i ps" "2 \<le> i" "i \<le> 46340" "n \<le> 46340 * 46340"
  shows "\<exists>ps' j. sieve_loop (int n) (int i) ps = Some ps' \<and> sieve_inv n j ps' \<and> n \<le> j * j"
  using assms
proof (induction "46340 - i" arbitrary: i ps rule: less_induct)
  case less
  have sq: "i * i \<le> 46340 * 46340" using less.prems(3) mult_le_mono by blast
  then have "fits_int (int (i * i))" by (intro fits_nat) simp
  then have ch: "checked (int i * int i) = Some (int (i * i))" by simp
  show ?case
  proof (cases "i * i < n")
    case False
    then have "\<not> int i * int i < int n" by (metis of_nat_less_iff of_nat_mult)
    then have "sieve_loop (int n) (int i) ps = Some ps" using ch by (subst sieve_loop.simps) simp
    then show ?thesis using False less.prems by auto
  next
    case True
    have i: "i < 46340"
    proof (rule ccontr)
      assume "\<not> i < 46340"
      then have "i = 46340" using less.prems(3) by simp
      then show False using True less.prems(4) by simp
    qed
    have "i < i * i" using less.prems(2) by simp
    then have "i < n" using True by linarith
    moreover from this have "at ps (int i) = Some (ps ! i)" using less.prems(1) by (simp add: sieve_inv_def)
    ultimately have at: "at ps (int i) = Some (ps ! i)" "i < n" by blast+
    have "\<exists>ps'. (if \<not> ps ! i then Some ps else strike_loop (int n) (int i) (int (i * i)) ps) = Some ps' \<and> sieve_inv n (Suc i) ps'"
    proof (cases "ps ! i")
      case True
      have "fits_int (int (n + i))" using less.prems(3,4) by (simp add: fits_int_def)
      then show ?thesis using sieve_inv_strike [OF less.prems(1,2)] True by (simp del: of_nat_mult)
    qed (use sieve_inv_skip less.prems(1,2) at(2) in auto)
    then obtain ps' where ps': "(if \<not> ps ! i then Some ps else strike_loop (int n) (int i) (int (i * i)) ps) = Some ps'"
      "sieve_inv n (Suc i) ps'" by blast
    have "int i * int i < int n" using True by (metis of_nat_less_iff of_nat_mult)
    then have "sieve_loop (int n) (int i) ps = sieve_loop (int n) (int (Suc i)) ps'"
      using ch at ps'(1) [unfolded of_nat_mult] by (subst sieve_loop.simps) (auto simp: add.commute split: if_splits)
    then show ?thesis using less.hyps [of "Suc i" ps'] ps'(2) less.prems i by auto
  qed
qed

lemma count_loop_spec:
  assumes "length ps = n" "\<forall>k<n. 2 \<le> k \<longrightarrow> (ps ! k \<longleftrightarrow> prime_number k)" "2 \<le> i" "i \<le> n"
  shows "tally_loop (int n) (int i) ps (int (primes_below i)) = Some (int (primes_below n))"
  using assms(3,4)
proof (induction "n - i" arbitrary: i)
  case 0
  then show ?case by (subst tally_loop.simps) simp
next
  case (Suc m)
  then have "tally_loop (int n) (int i) ps (int (primes_below i)) =
      tally_loop (int n) (int (Suc i)) ps (int (primes_below (Suc i)))"
    using assms(1,2) by (subst tally_loop.simps) (auto simp: primes_below_Suc add.commute)
  moreover have "tally_loop (int n) (int (Suc i)) ps (int (primes_below (Suc i))) = Some (int (primes_below n))"
    by (rule Suc.hyps(1)) (use Suc.hyps(2) Suc.prems in auto)
  ultimately show ?case by simp
qed

lemma countPrimes_below:
  assumes "n \<le> 46340 * 46340"
  shows "countPrimes (int n) = Some (int (primes_below n))"
proof -
  have "sieve_inv n 2 (replicate n True)" by (auto simp: sieve_inv_def unstruck_def)
  then obtain ps j where s: "sieve_loop (int n) 2 (replicate n True) = Some ps" "sieve_inv n j ps" "n \<le> j * j"
    using sieve_loop_spec [of n 2 "replicate n True"] assms by auto
  have ps: "length ps = n" "\<forall>k<n. 2 \<le> k \<longrightarrow> (ps ! k \<longleftrightarrow> prime_number k)"
    using s(2,3) unstruck_prime [of _ j] by (auto simp: sieve_inv_def)
  show ?thesis
  proof (cases "2 \<le> n")
    case True
    then show ?thesis using s(1) count_loop_spec [OF ps, of 2] by (simp add: countPrimes_def primes_below_2)
  next
    case False
    then have "tally_loop (int n) 2 ps 0 = Some 0" by (subst tally_loop.simps) simp
    then show ?thesis using s(1) False by (simp add: countPrimes_def primes_below_2)
  qed
qed


section \<open>The sieve that counts on the way\<close>

lemma prime_number_divisor: "prime_number i \<Longrightarrow> 2 \<le> d \<Longrightarrow> d < i \<Longrightarrow> i mod d \<noteq> 0"
  by (auto simp: prime_number_def dvd_eq_mod_eq_0)

lemma no_primes:
  assumes "46341 \<le> i" "i < 46349"
  shows "\<not> prime_number i"
proof
  assume p: "prime_number i"
  have "i \<in> {46341, 46342, 46343, 46344, 46345, 46346, 46347, 46348}" using assms by auto
  then show False
    using prime_number_divisor [OF p, of 2] prime_number_divisor [OF p, of 3] prime_number_divisor [OF p, of 5]
      prime_number_divisor [OF p, of 11]
    by (elim insertE emptyE) simp_all
qed

lemma prime_46349: "prime_number 46349"
proof -
  have "list_all (\<lambda>p. 46349 mod p \<noteq> (0::int)) [2..215]" by code_simp
  then have "\<forall>p\<in>{2..215}. 46349 mod p \<noteq> (0::int)" unfolding list_all_iff set_upto .
  then have p: "46349 mod p \<noteq> 0" if "2 \<le> p" "p < 216" for p :: int using that by simp
  have "\<not> p dvd 46349" if "2 \<le> p" "p < 216" for p :: nat
  proof
    assume "p dvd 46349"
    then have "int p dvd int 46349" by (rule of_nat_dvd_iff [THEN iffD2])
    then show False using p [of "int p"] that by (simp add: dvd_eq_mod_eq_0)
  qed
  then have "unstruck 216 46349" unfolding unstruck_def by blast
  moreover have "(2::nat) \<le> 46349" "46349 < (216::nat) * 216" by simp_all
  ultimately show ?thesis using unstruck_prime by blast
qed

lemma sieve_count_step:
  assumes "sieve_inv n i ps" "2 \<le> i" "i < n"
  shows "sieve_count_loop (int n) (int i) ps (int (primes_below i)) =
    (if \<not> prime_number i then sieve_count_loop (int n) (int (Suc i)) ps (int (primes_below (Suc i)))
     else do { sq \<leftarrow> checked (int i * int i); ps' \<leftarrow> strike_loop (int n) (int i) sq ps;
       sieve_count_loop (int n) (int (Suc i)) ps' (int (primes_below (Suc i))) })"
proof -
  have "at ps (int i) = Some (prime_number i)"
    using assms unstruck_prime [of i i] by (simp add: sieve_inv_def)
  then show ?thesis using assms(3) by (subst sieve_count_loop.simps) (simp add: primes_below_Suc add.commute)
qed

lemma sieve_inv_next:
  assumes "sieve_inv n i ps" "2 \<le> i" "i < n" "\<not> prime_number i"
  shows "sieve_inv n (Suc i) ps"
  using sieve_inv_skip [OF assms(1-3)] assms unstruck_prime [of i i] by (simp add: sieve_inv_def)

lemma sieve_count_ok:
  assumes "sieve_inv n i ps" "2 \<le> i" "i \<le> n" "n \<le> 46349"
  shows "sieve_count_loop (int n) (int i) ps (int (primes_below i)) = Some (int (primes_below n))"
  using assms(1-3)
proof (induction "n - i" arbitrary: i ps)
  case 0
  then show ?case by (subst sieve_count_loop.simps) simp
next
  case (Suc m)
  then have i: "i < n" by simp
  show ?case
  proof (cases "prime_number i")
    case False
    have "sieve_count_loop (int n) (int (Suc i)) ps (int (primes_below (Suc i))) = Some (int (primes_below n))"
      by (rule Suc.hyps(1) [OF _ sieve_inv_next [OF Suc.prems(1,2) i False]]) (use Suc.hyps(2) i Suc.prems(2) in auto)
    then show ?thesis using sieve_count_step [OF Suc.prems(1,2) i] False by simp
  next
    case True
    then have small: "i \<le> 46340" using no_primes [of i] i assms(4) by force
    then have "i * i \<le> 46340 * 46340" using mult_le_mono by blast
    then have ch: "checked (int i * int i) = Some (int (i * i))" using fits_nat [of "i * i"] by simp
    have "fits_int (int (n + i))" using small assms(4) by (intro fits_nat) simp
    then obtain ps' where ps': "strike_loop (int n) (int i) (int (i * i)) ps = Some ps'" "sieve_inv n (Suc i) ps'"
      using sieve_inv_strike [OF Suc.prems(1,2)] by blast
    then have "sieve_count_loop (int n) (int i) ps (int (primes_below i)) =
        sieve_count_loop (int n) (int (Suc i)) ps' (int (primes_below (Suc i)))"
      using sieve_count_step [OF Suc.prems(1,2) i] True ch by simp
    moreover have "sieve_count_loop (int n) (int (Suc i)) ps' (int (primes_below (Suc i))) = Some (int (primes_below n))"
      by (rule Suc.hyps(1) [OF _ ps'(2)]) (use Suc.hyps(2) i Suc.prems(2) in auto)
    ultimately show ?thesis by simp
  qed
qed

lemma sieve_count_overflow:
  assumes "sieve_inv n i ps" "2 \<le> i" "i \<le> 46349" "46349 < n" "n \<le> 2147483647"
  shows "sieve_count_loop (int n) (int i) ps (int (primes_below i)) = None"
  using assms(1-3)
proof (induction "46349 - i" arbitrary: i ps)
  case 0
  then have "i = 46349" by simp
  moreover have "checked (int 46349 * int 46349) = None" by (simp add: checked_def fits_int_def)
  ultimately show ?case using sieve_count_step [OF 0(2,3)] prime_46349 assms(4) by simp
next
  case (Suc m)
  then have i: "i < 46349" "i < n" using assms(4) by auto
  show ?case
  proof (cases "prime_number i")
    case False
    have "sieve_count_loop (int n) (int (Suc i)) ps (int (primes_below (Suc i))) = None"
      by (rule Suc.hyps(1) [OF _ sieve_inv_next [OF Suc.prems(1,2) i(2) False]]) (use Suc.hyps(2) i Suc.prems(2) in auto)
    then show ?thesis using sieve_count_step [OF Suc.prems(1,2) i(2)] False by simp
  next
    case True
    then have small: "i \<le> 46340" using no_primes [of i] i(1) by fastforce
    then have "i * i \<le> 46340 * 46340" using mult_le_mono by blast
    then have "checked (int i * int i) = Some (int (i * i))" using fits_nat [of "i * i"] by simp
    then have run: "sieve_count_loop (int n) (int i) ps (int (primes_below i)) =
        do { ps' \<leftarrow> strike_loop (int n) (int i) (int (i * i)) ps; sieve_count_loop (int n) (int (Suc i)) ps' (int (primes_below (Suc i))) }"
      using sieve_count_step [OF Suc.prems(1,2) i(2)] True by simp
    show ?thesis
    proof (cases "strike_loop (int n) (int i) (int (i * i)) ps")
      case (Some ps')
      then have ps': "strike_loop (int n) (int i) (int (i * i)) ps = Some ps'" "sieve_inv n (Suc i) ps'"
        using sieve_inv_strike [OF Suc.prems(1,2)] by simp_all
      have "sieve_count_loop (int n) (int (Suc i)) ps' (int (primes_below (Suc i))) = None"
        by (rule Suc.hyps(1) [OF _ ps'(2)]) (use Suc.hyps(2) Suc.prems i in auto)
      then show ?thesis using run ps'(1) by simp
    qed (use run in simp)
  qed
qed


text \<open>
  \<open>countPrimes\<close> returns the number of primes below \<open>n\<close>, and nothing overflows, up to
  \<open>46340 ^ 2\<close>; \<open>countPrimes2\<close> does so exactly up to 46349, the first prime whose square is not an
  \<^verbatim>\<open>int\<close>: with it below \<open>n\<close> the start of its inner loop overflows.
\<close>

theorem primes_counted:
  "(n \<le> 46340 * 46340 \<longrightarrow> countPrimes (int n) = Some (int (card {p. prime_number p \<and> p < n}))) \<and>
   (n \<le> 46349 \<longrightarrow> countPrimes2 (int n) = Some (int (card {p. prime_number p \<and> p < n}))) \<and>
   (46349 < n \<and> n \<le> 2147483647 \<longrightarrow> countPrimes2 (int n) = None)"
proof (intro conjI impI)
  assume "n \<le> 46340 * 46340"
  then show "countPrimes (int n) = Some (int (card {p. prime_number p \<and> p < n}))"
    using countPrimes_below by (simp add: primes_below_def)
next
  have inv: "sieve_inv n 2 (replicate n True)" by (auto simp: sieve_inv_def unstruck_def)
  assume n: "n \<le> 46349"
  show "countPrimes2 (int n) = Some (int (card {p. prime_number p \<and> p < n}))"
  proof (cases "2 \<le> n")
    case True
    then show ?thesis using sieve_count_ok [OF inv _ True n] primes_below_2 [of 2] by (simp add: countPrimes2_def primes_below_def [of n])
  next
    case False
    then have "sieve_count_loop (int n) 2 (replicate n True) 0 = Some 0" by (subst sieve_count_loop.simps) simp
    then show ?thesis using False primes_below_2 [of n] by (simp add: countPrimes2_def primes_below_def)
  qed
next
  have inv: "sieve_inv n 2 (replicate n True)" by (auto simp: sieve_inv_def unstruck_def)
  assume "46349 < n \<and> n \<le> 2147483647"
  then show "countPrimes2 (int n) = None"
    using sieve_count_overflow [OF inv] primes_below_2 [of 2] by (simp add: countPrimes2_def)
qed

lemma primes_counted_witness:
  "countPrimes 30 = Some (int (card {p. prime_number p \<and> p < 30})) \<and>
   countPrimes2 30 = countPrimes 30 \<and> countPrimes2 1000000 = None"
  using primes_counted [of 30] primes_counted [of 1000000] by simp

end
