(* ===== verification/LcPaths.thy ===== *)
theory LcPaths
  imports LcSieve
begin

text \<open>
  Counting ways: paths through a grid (\<^verbatim>\<open>hobbies/leetcode/algorithms/solution_62\<close>) and steps on a
  stair (\<^verbatim>\<open>solution_70\<close>), with \<^verbatim>\<open>int\<close> results that overflow, and the happy numbers of
  \<^verbatim>\<open>solution_202\<close>. \<open>None\<close> is an overflow or an access outside a vector.
\<close>

section \<open>Paths through a grid\<close>

definition grid_at :: "int list list \<Rightarrow> int \<Rightarrow> int \<Rightarrow> int option" where
  "grid_at g i j = do { row \<leftarrow> at g i; at row j }"

definition grid_put :: "int list list \<Rightarrow> int \<Rightarrow> int \<Rightarrow> int \<Rightarrow> int list list option" where
  "grid_put g i j v = do { row \<leftarrow> at g i; row' \<leftarrow> put_at row j v; put_at g i row' }"

function last_column_loop :: "int \<Rightarrow> int \<Rightarrow> int \<Rightarrow> int list list \<Rightarrow> int list list option" where
  "last_column_loop m n i g =
     (if i < m then do { g' \<leftarrow> grid_put g i (n - 1) 1; last_column_loop m n (i + 1) g' } else Some g)"
  by pat_completeness auto
termination by (relation "measure (\<lambda>(m, n, i, g). nat (m - i))") auto

function last_row_loop :: "int \<Rightarrow> int \<Rightarrow> int \<Rightarrow> int list list \<Rightarrow> int list list option" where
  "last_row_loop m n i g =
     (if i < n then do { g' \<leftarrow> grid_put g (m - 1) i 1; last_row_loop m n (i + 1) g' } else Some g)"
  by pat_completeness auto
termination by (relation "measure (\<lambda>(m, n, i, g). nat (n - i))") auto

function grid_row_loop :: "int \<Rightarrow> int \<Rightarrow> int list list \<Rightarrow> int list list option" where
  "grid_row_loop i j g =
     (if j \<ge> 0 then do {
        a \<leftarrow> grid_at g i (j + 1);
        b \<leftarrow> grid_at g (i + 1) j;
        v \<leftarrow> checked (a + b);
        g' \<leftarrow> grid_put g i j v;
        grid_row_loop i (j - 1) g' }
      else Some g)"
  by pat_completeness auto
termination by (relation "measure (\<lambda>(i, j, g). nat (j + 1))") auto

function grid_rows_loop :: "int \<Rightarrow> int \<Rightarrow> int list list \<Rightarrow> int list list option" where
  "grid_rows_loop n i g =
     (if i \<ge> 0 then do { g' \<leftarrow> grid_row_loop i (n - 2) g; grid_rows_loop n (i - 1) g' } else Some g)"
  by pat_completeness auto
termination by (relation "measure (\<lambda>(n, i, g). nat (i + 1))") auto

definition uniquePaths :: "int \<Rightarrow> int \<Rightarrow> int option" where
  \<comment> \<open>a vector of negative size is not constructed\<close>
  "uniquePaths m n =
     (if m < 0 \<or> n < 0 then None
      else do {
        g1 \<leftarrow> last_column_loop m n 0 (replicate (nat m) (replicate (nat n) 0));
        g2 \<leftarrow> last_row_loop m n 0 g1;
        g3 \<leftarrow> grid_rows_loop n (m - 2) g2;
        grid_at g3 0 0 })"

section \<open>Steps on a stair\<close>

function stairs_loop :: "int \<Rightarrow> int \<Rightarrow> int list \<Rightarrow> int list option" where
  "stairs_loop n i res =
     (if i \<le> n then do {
        a \<leftarrow> at res (i - 1);
        b \<leftarrow> at res (i - 2);
        v \<leftarrow> checked (a + b);
        res' \<leftarrow> put_at res i v;
        stairs_loop n (i + 1) res' }
      else Some res)"
  by pat_completeness auto
termination by (relation "measure (\<lambda>(n, i, r). nat (n + 1 - i))") auto

definition climbStairs :: "int \<Rightarrow> int option" where
  "climbStairs n =
     (if n \<le> 0 then Some 0
      else do {
        len \<leftarrow> checked (n + 1);
        r1 \<leftarrow> put_at (replicate (nat len) 0) 1 1;
        r2 \<leftarrow> put_at r1 2 2;
        res \<leftarrow> stairs_loop n 3 r2;
        at res n })"

declare last_column_loop.simps [simp del] last_row_loop.simps [simp del] grid_row_loop.simps [simp del]
  grid_rows_loop.simps [simp del] stairs_loop.simps [simp del]

lemma counting_examples:
  "uniquePaths 3 7 = Some 28" "uniquePaths 1 1 = Some 1" "uniquePaths 0 1 = None" "climbStairs 5 = Some 8" "climbStairs 1 = None"
  by code_simp+

section \<open>The grid\<close>

text \<open>
  A path from \<open>(i, j)\<close> to the last cell is a word of as many steps down and right as there are rows and
  columns left.
\<close>

definition grid_paths :: "nat \<Rightarrow> nat \<Rightarrow> bool list set" where
  "grid_paths a b = {p. length (filter id p) = a \<and> length (filter Not p) = b}"

fun path_count :: "nat \<Rightarrow> nat \<Rightarrow> nat" where
  "path_count 0 b = 1"
| "path_count (Suc a) 0 = 1"
| "path_count (Suc a) (Suc b) = path_count (Suc a) b + path_count a (Suc b)"

lemma path_count_0: "path_count a 0 = 1"
  by (cases a) simp_all

lemma grid_paths_left: "grid_paths 0 b = {replicate b False}"
proof -
  have "p = replicate b False" if "filter id p = []" "length (filter Not p) = b" for p
    using that by (induction p arbitrary: b) (auto split: if_splits)
  then show ?thesis by (auto simp: grid_paths_def filter_replicate)
qed

lemma grid_paths_right: "grid_paths a 0 = {replicate a True}"
proof -
  have "p = replicate a True" if "filter Not p = []" "length (filter id p) = a" for p
    using that by (induction p arbitrary: a) (auto split: if_splits)
  then show ?thesis by (auto simp: grid_paths_def filter_replicate)
qed

lemma grid_paths_Suc:
  "grid_paths (Suc a) (Suc b) = Cons True ` grid_paths a (Suc b) \<union> Cons False ` grid_paths (Suc a) b"
proof (rule set_eqI)
  fix p
  show "p \<in> grid_paths (Suc a) (Suc b) \<longleftrightarrow> p \<in> Cons True ` grid_paths a (Suc b) \<union> Cons False ` grid_paths (Suc a) b"
    by (cases p) (auto simp: grid_paths_def)
qed

lemma card_grid_paths: "finite (grid_paths a b) \<and> card (grid_paths a b) = path_count a b"
proof (induction a b rule: path_count.induct)
  case (3 a b)
  have "card (Cons True ` grid_paths a (Suc b) \<union> Cons False ` grid_paths (Suc a) b) =
      card (grid_paths a (Suc b)) + card (grid_paths (Suc a) b)"
    using 3 by (subst card_Un_disjoint) (auto simp: card_image inj_on_def)
  then show ?case using 3 by (simp add: grid_paths_Suc)
qed (simp_all add: grid_paths_left grid_paths_right)

lemma path_count_mono: "path_count a b \<le> path_count (Suc a) b" "path_count a b \<le> path_count a (Suc b)"
  by (cases b; simp add: path_count_0) (cases a; simp)

lemma path_count_mono2: "a \<le> a' \<Longrightarrow> b \<le> b' \<Longrightarrow> path_count a b \<le> path_count a' b'"
proof -
  assume ab: "a \<le> a'" "b \<le> b'"
  have "path_count a b \<le> path_count a' b" using lift_Suc_mono_le [of "\<lambda>x. path_count x b"] path_count_mono(1) ab(1) by blast
  also have "\<dots> \<le> path_count a' b'" using lift_Suc_mono_le [of "path_count a'"] path_count_mono(2) ab(2) by blast
  finally show ?thesis .
qed

definition grid_shape :: "nat \<Rightarrow> nat \<Rightarrow> int list list \<Rightarrow> bool" where
  "grid_shape m n g \<longleftrightarrow> length g = m \<and> (\<forall>i<m. length (g ! i) = n)"

lemma grid_at_nat: "grid_shape m n g \<Longrightarrow> i < m \<Longrightarrow> j < n \<Longrightarrow> grid_at g (int i) (int j) = Some (g ! i ! j)"
  by (simp add: grid_at_def grid_shape_def)

lemma grid_put_nat:
  "grid_shape m n g \<Longrightarrow> i < m \<Longrightarrow> j < n \<Longrightarrow>
   \<exists>g'. grid_put g (int i) (int j) v = Some g' \<and> grid_shape m n g' \<and>
     (\<forall>x<m. \<forall>y<n. g' ! x ! y = (if x = i \<and> y = j then v else g ! x ! y))"
  by (auto simp: grid_put_def grid_shape_def put_at_in nth_list_update)

lemma last_column_spec:
  assumes "grid_shape m n g" "0 < n" "i \<le> m"
  shows "\<exists>g'. last_column_loop (int m) (int n) (int i) g = Some g' \<and> grid_shape m n g' \<and>
    (\<forall>x<m. \<forall>y<n. g' ! x ! y = (if i \<le> x \<and> y = n - 1 then 1 else g ! x ! y))"
  using assms(1,3)
proof (induction "m - i" arbitrary: i g)
  case 0
  then show ?case by (subst last_column_loop.simps) auto
next
  case (Suc d)
  then have i: "i < m" and d: "d = m - Suc i" "Suc i \<le> m" by simp_all
  have n: "int n - 1 = int (n - 1)" "n - 1 < n" using assms(2) by auto
  obtain g1 where g1: "grid_put g (int i) (int (n - 1)) 1 = Some g1" "grid_shape m n g1"
    "\<forall>x<m. \<forall>y<n. g1 ! x ! y = (if x = i \<and> y = n - 1 then 1 else g ! x ! y)"
    using grid_put_nat [OF Suc.prems(1) i n(2)] by blast
  have run: "last_column_loop (int m) (int n) (int i) g = last_column_loop (int m) (int n) (int (Suc i)) g1"
    using g1(1) i by (subst last_column_loop.simps) (simp add: n(1) add.commute del: of_nat_diff)
  obtain g' where "last_column_loop (int m) (int n) (int (Suc i)) g1 = Some g'" "grid_shape m n g'"
    "\<forall>x<m. \<forall>y<n. g' ! x ! y = (if Suc i \<le> x \<and> y = n - 1 then 1 else g1 ! x ! y)"
    using Suc.hyps(1) [OF d(1) g1(2) d(2)] by blast
  then show ?case unfolding run using g1(3) by (intro exI [of _ g']) (auto simp: Suc_le_eq)
qed

lemma last_row_spec:
  assumes "grid_shape m n g" "0 < m" "i \<le> n"
  shows "\<exists>g'. last_row_loop (int m) (int n) (int i) g = Some g' \<and> grid_shape m n g' \<and>
    (\<forall>x<m. \<forall>y<n. g' ! x ! y = (if i \<le> y \<and> x = m - 1 then 1 else g ! x ! y))"
  using assms(1,3)
proof (induction "n - i" arbitrary: i g)
  case 0
  then show ?case by (subst last_row_loop.simps) auto
next
  case (Suc d)
  then have i: "i < n" and d: "d = n - Suc i" "Suc i \<le> n" by simp_all
  have m: "int m - 1 = int (m - 1)" "m - 1 < m" using assms(2) by auto
  obtain g1 where g1: "grid_put g (int (m - 1)) (int i) 1 = Some g1" "grid_shape m n g1"
    "\<forall>x<m. \<forall>y<n. g1 ! x ! y = (if x = m - 1 \<and> y = i then 1 else g ! x ! y)"
    using grid_put_nat [OF Suc.prems(1) m(2) i] by blast
  have run: "last_row_loop (int m) (int n) (int i) g = last_row_loop (int m) (int n) (int (Suc i)) g1"
    using g1(1) i by (subst last_row_loop.simps) (simp add: m(1) add.commute del: of_nat_diff)
  obtain g' where "last_row_loop (int m) (int n) (int (Suc i)) g1 = Some g'" "grid_shape m n g'"
    "\<forall>x<m. \<forall>y<n. g' ! x ! y = (if Suc i \<le> y \<and> x = m - 1 then 1 else g1 ! x ! y)"
    using Suc.hyps(1) [OF d(1) g1(2) d(2)] by blast
  then show ?case unfolding run using g1(3) by (intro exI [of _ g']) (auto simp: Suc_le_eq)
qed


definition filled :: "nat \<Rightarrow> nat \<Rightarrow> nat \<Rightarrow> nat \<Rightarrow> int list list \<Rightarrow> bool" where
  \<comment> \<open>the rows after \<open>i\<close> and of row \<open>i\<close> the columns from \<open>j\<close> on hold their numbers of paths\<close>
  "filled m n i j g \<longleftrightarrow> grid_shape m n g \<and>
     (\<forall>x<m. \<forall>y<n. x = m - 1 \<or> y = n - 1 \<or> i < x \<or> x = i \<and> j \<le> y \<longrightarrow> g ! x ! y = int (path_count (m - 1 - x) (n - 1 - y)))"

lemma filledD:
  "filled m n i j g \<Longrightarrow> x < m \<Longrightarrow> y < n \<Longrightarrow> x = m - 1 \<or> y = n - 1 \<or> i < x \<or> x = i \<and> j \<le> y \<Longrightarrow>
   g ! x ! y = int (path_count (m - 1 - x) (n - 1 - y))"
  unfolding filled_def by blast

lemma filled_weaken: "filled m n i j g \<Longrightarrow> (\<And>x y. x < m \<Longrightarrow> y < n \<Longrightarrow> i' < x \<or> x = i' \<and> j' \<le> y \<Longrightarrow>
    x = m - 1 \<or> y = n - 1 \<or> i < x \<or> x = i \<and> j \<le> y) \<Longrightarrow> filled m n i' j' g"
  unfolding filled_def by blast

definition ways_fit :: "nat \<Rightarrow> nat \<Rightarrow> bool" where
  "ways_fit a b \<longleftrightarrow> fits_int (int (path_count a b))"

lemma ways_fit_mono: "ways_fit a' b' \<Longrightarrow> a \<le> a' \<Longrightarrow> b \<le> b' \<Longrightarrow> ways_fit a b"
  using path_count_mono2 [of a a' b b'] by (simp add: ways_fit_def fits_int_def)

lemma ways_fit_0 [simp]: "ways_fit 0 b" "ways_fit a 0"
  by (simp_all add: ways_fit_def fits_int_def path_count_0)

lemma filled_step:
  assumes "filled m n i (Suc j) g" "Suc i < m" "Suc j < n"
  shows "grid_row_loop (int i) (int j) g =
      (if ways_fit (m - 1 - i) (n - 1 - j)
       then do { g' \<leftarrow> grid_put g (int i) (int j) (int (path_count (m - 1 - i) (n - 1 - j))); grid_row_loop (int i) (int j - 1) g' }
       else None)"
proof -
  have g: "grid_shape m n g" using assms(1) by (simp add: filled_def)
  obtain a b where ab: "m - 1 - i = Suc a" "n - 1 - j = Suc b" "m - 1 - Suc i = a" "n - 1 - Suc j = b"
    using assms(2,3) by (metis Suc_diff_Suc Suc_lessD diff_Suc_1 diff_Suc_eq_diff_pred less_diff_conv2 zero_less_diff less_Suc_eq_le not_less)
  have "grid_at g (int i) (int (Suc j)) = Some (int (path_count (Suc a) b))"
    using grid_at_nat [OF g, of i "Suc j"] filledD [OF assms(1), of i "Suc j"] assms(2,3) ab by simp
  moreover have "grid_at g (int (Suc i)) (int j) = Some (int (path_count a (Suc b)))"
    using grid_at_nat [OF g, of "Suc i" j] filledD [OF assms(1), of "Suc i" j] assms(2,3) ab by simp
  ultimately show ?thesis
    unfolding ab(1,2) by (subst grid_row_loop.simps) (simp add: checked_def ways_fit_def add.commute)
qed

lemma filled_put:
  assumes "filled m n i (Suc j) g" "Suc i < m" "Suc j < n"
  obtains g' where "grid_put g (int i) (int j) (int (path_count (m - 1 - i) (n - 1 - j))) = Some g'" "filled m n i j g'"
proof -
  have "grid_shape m n g" "i < m" "j < n" using assms by (auto simp: filled_def)
  then obtain g' where g': "grid_put g (int i) (int j) (int (path_count (m - 1 - i) (n - 1 - j))) = Some g'"
    "grid_shape m n g'" "\<forall>x<m. \<forall>y<n. g' ! x ! y = (if x = i \<and> y = j then int (path_count (m - 1 - i) (n - 1 - j)) else g ! x ! y)"
    using grid_put_nat by blast
  have "filled m n i j g'" unfolding filled_def
  proof (intro conjI allI impI g'(2))
    fix x y
    assume xy: "x < m" "y < n" "x = m - 1 \<or> y = n - 1 \<or> i < x \<or> x = i \<and> j \<le> y"
    show "g' ! x ! y = int (path_count (m - 1 - x) (n - 1 - y))"
    proof (cases "x = i \<and> y = j")
      case False
      then have "x = m - 1 \<or> y = n - 1 \<or> i < x \<or> x = i \<and> Suc j \<le> y" using xy(3) by auto
      then show ?thesis using g'(3) xy(1,2) False filledD [OF assms(1) xy(1,2)] by simp
    qed (use g'(3) xy in simp)
  qed
  then show ?thesis using that g'(1) by blast
qed

lemma grid_row_spec:
  assumes "filled m n i j g" "Suc i < m" "j < n" "ways_fit (m - 1 - i) (n - 1 - j)"
  shows "if ways_fit (m - 1 - i) (n - 1) then \<exists>g'. grid_row_loop (int i) (int j - 1) g = Some g' \<and> filled m n i 0 g'
    else grid_row_loop (int i) (int j - 1) g = None"
  using assms
proof (induction j arbitrary: g)
  case 0
  then show ?case by (subst (1 2) grid_row_loop.simps) simp
next
  case (Suc j)
  have step: "grid_row_loop (int i) (int (Suc j) - 1) g = grid_row_loop (int i) (int j) g" by simp
  show ?case
  proof (cases "ways_fit (m - 1 - i) (n - 1 - j)")
    case True
    obtain g' where g': "grid_put g (int i) (int j) (int (path_count (m - 1 - i) (n - 1 - j))) = Some g'" "filled m n i j g'"
      using filled_put [OF Suc.prems(1-3)] by blast
    have "grid_row_loop (int i) (int j) g = grid_row_loop (int i) (int j - 1) g'"
      using filled_step [OF Suc.prems(1-3)] True g'(1) by simp
    then show ?thesis using Suc.IH [OF g'(2) Suc.prems(2) _ True] Suc.prems(3) step by simp
  next
    case False
    then have "\<not> ways_fit (m - 1 - i) (n - 1)" 
      using ways_fit_mono [of "m - 1 - i" "n - 1" "m - 1 - i" "n - 1 - j"] diff_le_self by blast
    then show ?thesis using filled_step [OF Suc.prems(1-3)] False step by simp
  qed
qed

lemma grid_rows_spec:
  assumes "filled m n i 0 g" "i < m" "0 < n" "ways_fit (m - 1 - i) (n - 1)"
  shows "if ways_fit (m - 1) (n - 1) then \<exists>g'. grid_rows_loop (int n) (int i - 1) g = Some g' \<and> filled m n 0 0 g'
    else grid_rows_loop (int n) (int i - 1) g = None"
  using assms
proof (induction i arbitrary: g)
  case 0
  then show ?case by (subst (1 2) grid_rows_loop.simps) simp
next
  case (Suc i)
  have n: "n - 1 < n" "int n - 2 = int (n - 1) - 1" "n - 1 - (n - 1) = 0" using Suc.prems(3) by auto
  have f: "filled m n i (n - 1) g" by (rule filled_weaken [OF Suc.prems(1)]) auto
  have row: "if ways_fit (m - 1 - i) (n - 1) then \<exists>g'. grid_row_loop (int i) (int n - 2) g = Some g' \<and> filled m n i 0 g'
      else grid_row_loop (int i) (int n - 2) g = None"
    using grid_row_spec [OF f Suc.prems(2) n(1)] unfolding n(2,3) by simp
  have run: "grid_rows_loop (int n) (int (Suc i) - 1) g = do { g' \<leftarrow> grid_row_loop (int i) (int n - 2) g; grid_rows_loop (int n) (int i - 1) g' }"
    by (subst grid_rows_loop.simps) simp
  show ?case
  proof (cases "ways_fit (m - 1 - i) (n - 1)")
    case True
    then obtain g' where g': "grid_row_loop (int i) (int n - 2) g = Some g'" "filled m n i 0 g'" using row by auto
    show ?thesis using Suc.IH [OF g'(2) _ Suc.prems(3) True] Suc.prems(2) unfolding run g'(1) by simp
  next
    case False
    then have "\<not> ways_fit (m - 1) (n - 1)" using ways_fit_mono [of "m - 1" "n - 1" "m - 1 - i" "n - 1"] diff_le_self by blast
    then show ?thesis using False row run by simp
  qed
qed

lemma uniquePaths_count:
  assumes "0 < m" "0 < n"
  shows "uniquePaths (int m) (int n) = (if ways_fit (m - 1) (n - 1) then Some (int (path_count (m - 1) (n - 1))) else None)"
proof -
  have "grid_shape m n (replicate m (replicate n 0))" by (simp add: grid_shape_def)
  then obtain g1 where g1: "last_column_loop (int m) (int n) 0 (replicate m (replicate n 0)) = Some g1" "grid_shape m n g1"
    "\<forall>x<m. \<forall>y<n. g1 ! x ! y = (if y = n - 1 then 1 else replicate m (replicate n 0) ! x ! y)"
    using last_column_spec [of m n _ 0] assms by fastforce
  then obtain g2 where g2: "last_row_loop (int m) (int n) 0 g1 = Some g2" "grid_shape m n g2"
    "\<forall>x<m. \<forall>y<n. g2 ! x ! y = (if x = m - 1 then 1 else g1 ! x ! y)"
    using last_row_spec [of m n g1 0] assms by fastforce
  have f: "filled m n (m - 1) 0 g2" using g1(3) g2(2,3) by (auto simp: filled_def path_count_0)
  have m: "int m - 2 = int (m - 1) - 1" "m - 1 < m" "m - 1 - (m - 1) = 0" using assms(1) by auto
  have rows: "if ways_fit (m - 1) (n - 1) then \<exists>g'. grid_rows_loop (int n) (int m - 2) g2 = Some g' \<and> filled m n 0 0 g'
      else grid_rows_loop (int n) (int m - 2) g2 = None"
    using grid_rows_spec [OF f m(2) assms(2)] unfolding m(1,3) by simp
  show ?thesis
  proof (cases "ways_fit (m - 1) (n - 1)")
    case True
    then obtain g3 where g3: "grid_rows_loop (int n) (int m - 2) g2 = Some g3" "filled m n 0 0 g3" using rows by auto
    then have "grid_at g3 0 0 = Some (int (path_count (m - 1) (n - 1)))"
      using grid_at_nat [of m n g3 0 0] assms by (simp add: filled_def)
    then show ?thesis using True g1(1) g2(1) g3(1) by (simp add: uniquePaths_def)
  next
    case False
    then show ?thesis using rows g1(1) g2(1) by (simp add: uniquePaths_def)
  qed
qed


section \<open>The stair\<close>

definition climbs :: "nat \<Rightarrow> nat list set" where
  "climbs n = {ss. set ss \<subseteq> {1, 2} \<and> sum_list ss = n}"

fun climb_count :: "nat \<Rightarrow> nat" where
  "climb_count 0 = 1"
| "climb_count (Suc 0) = 1"
| "climb_count (Suc (Suc n)) = climb_count (Suc n) + climb_count n"

lemma climbs_Suc_Suc: "climbs (Suc (Suc n)) = Cons 1 ` climbs (Suc n) \<union> Cons 2 ` climbs n"
proof (rule set_eqI)
  fix ss
  show "ss \<in> climbs (Suc (Suc n)) \<longleftrightarrow> ss \<in> Cons 1 ` climbs (Suc n) \<union> Cons 2 ` climbs n"
    by (cases ss) (auto simp: climbs_def)
qed

lemma climbs_0: "climbs 0 = {[]}"
proof (rule set_eqI)
  fix ss
  show "ss \<in> climbs 0 \<longleftrightarrow> ss \<in> {[]}" by (cases ss) (auto simp: climbs_def)
qed

lemma climbs_1: "climbs (Suc 0) = {[1]}"
proof (rule set_eqI)
  fix ss
  show "ss \<in> climbs (Suc 0) \<longleftrightarrow> ss \<in> {[1]}"
  proof (cases ss)
    case (Cons a t)
    then have "ss \<in> climbs (Suc 0) \<longleftrightarrow> a = 1 \<and> t \<in> climbs 0" by (auto simp: climbs_def)
    then show ?thesis using Cons by (simp add: climbs_0)
  qed (simp add: climbs_def)
qed

lemma card_climbs: "finite (climbs n) \<and> card (climbs n) = climb_count n"
proof (induction n rule: climb_count.induct)
  case (3 n)
  have "card (Cons 1 ` climbs (Suc n) \<union> Cons 2 ` climbs n) = card (climbs (Suc n)) + card (climbs n)"
    using 3 by (subst card_Un_disjoint) (auto simp: card_image inj_on_def)
  then show ?case using 3 by (simp add: climbs_Suc_Suc)
qed (simp_all add: climbs_0 climbs_1)

lemma climb_count_mono: "n \<le> m \<Longrightarrow> climb_count n \<le> climb_count m"
proof (rule lift_Suc_mono_le [of climb_count])
  show "climb_count k \<le> climb_count (Suc k)" for k by (cases k) simp_all
qed

lemma climb_count_ge: "n \<le> climb_count n"
proof (induction n rule: climb_count.induct)
  case (3 n)
  have "1 \<le> climb_count n" using climb_count_mono [of 0 n] by simp
  then show ?case using 3 by simp
qed simp_all

lemma climb_count_gt:
  assumes "4 \<le> n"
  shows "n < climb_count n"
proof -
  obtain k where "n = Suc (Suc k)" "2 \<le> k" using assms by (cases n; cases "n - 1") auto
  then show ?thesis using climb_count_ge [of k] climb_count_ge [of "Suc k"] by simp
qed

lemma fits_climb_mono: "fits_int (int (climb_count m)) \<Longrightarrow> n \<le> m \<Longrightarrow> fits_int (int (climb_count n))"
  using climb_count_mono [of n m] by (simp add: fits_int_def)

lemma stairs_loop_spec:
  assumes "length res = n + 1" "3 \<le> i" "i \<le> n + 1" "\<forall>k. 1 \<le> k \<and> k < i \<longrightarrow> res ! k = int (climb_count k)"
    "fits_int (int (climb_count (i - 1)))"
  shows "if fits_int (int (climb_count n)) then \<exists>res'. stairs_loop (int n) (int i) res = Some res' \<and> length res' = n + 1 \<and>
      res' ! n = int (climb_count n)
    else stairs_loop (int n) (int i) res = None"
  using assms
proof (induction "n + 1 - i" arbitrary: i res)
  case 0
  then have "i = n + 1" by simp
  then show ?case using 0 by (subst (1 2) stairs_loop.simps) simp
next
  case (Suc d)
  then have i: "i \<le> n" "d = n + 1 - Suc i" by simp_all
  obtain k where k: "i = Suc (Suc k)" "1 \<le> k" using Suc.prems(2) by (cases i; cases "i - 1") auto
  have "int i - 1 = int (Suc k)" "int i - 2 = int k" using k by auto
  then have "at res (int i - 1) = Some (int (climb_count (Suc k)))" "at res (int i - 2) = Some (int (climb_count k))"
    using Suc.prems(1,4) i k by (simp_all only: at_nat) auto
  then have run: "stairs_loop (int n) (int i) res =
      (if fits_int (int (climb_count i)) then stairs_loop (int n) (int (Suc i)) (res[i := int (climb_count i)]) else None)"
    using i(1) Suc.prems(1) k by (subst stairs_loop.simps) (simp add: checked_def put_at_in add.commute nat_add_distrib)
  show ?case
  proof (cases "fits_int (int (climb_count i))")
    case True
    have "\<forall>j. 1 \<le> j \<and> j < Suc i \<longrightarrow> res[i := int (climb_count i)] ! j = int (climb_count j)"
    proof (intro allI impI)
      fix j
      assume "1 \<le> j \<and> j < Suc i"
      then show "res[i := int (climb_count i)] ! j = int (climb_count j)"
        using Suc.prems(1,4) i(1) by (cases "j = i") auto
    qed
    then have "if fits_int (int (climb_count n)) then \<exists>res'. stairs_loop (int n) (int (Suc i)) (res[i := int (climb_count i)]) = Some res' \<and>
        length res' = n + 1 \<and> res' ! n = int (climb_count n)
      else stairs_loop (int n) (int (Suc i)) (res[i := int (climb_count i)]) = None"
      by (intro Suc.hyps(1) [OF i(2)]) (use Suc.prems(1,2) i(1) True in simp_all)
    then show ?thesis unfolding run using True by (simp only: if_True)
  next
    case False
    then show ?thesis using fits_climb_mono [of n i] i(1) run by auto
  qed
qed

lemma climbStairs_count:
  assumes "2 \<le> n"
  shows "climbStairs (int n) = (if fits_int (int (climb_count n)) then Some (int (climb_count n)) else None)"
proof (cases "fits_int (int n + 1)")
  case False
  then have n: "2147483647 \<le> n" by (simp add: fits_int_def)
  then have "n < climb_count n" by (intro climb_count_gt) simp
  then have "\<not> fits_int (int (climb_count n))" using n by (simp add: fits_int_def)
  then show ?thesis using False assms by (simp add: climbStairs_def)
next
  case True
  define r where "r = (replicate (n + 1) (0::int))[1 := 1, 2 := 2]"
  have len: "length r = n + 1" by (simp add: r_def)
  have c: "checked (int n + 1) = Some (int n + 1)" "nat (int n + 1) = n + 1" using True by auto
  have r: "do { r1 \<leftarrow> put_at (replicate (n + 1) 0) 1 1; put_at r1 2 2 } = Some r"
    using assms by (simp add: r_def put_at_in del: replicate.simps)
  have "\<forall>k. 1 \<le> k \<and> k < 3 \<longrightarrow> r ! k = int (climb_count k)"
  proof (intro allI impI)
    fix k :: nat
    assume "1 \<le> k \<and> k < 3"
    then have "k = 1 \<or> k = 2" by auto
    then show "r ! k = int (climb_count k)"
      using assms unfolding r_def by (elim disjE) (simp_all add: numeral_2_eq_2 del: replicate.simps)
  qed
  then have loop: "if fits_int (int (climb_count n)) then \<exists>res'. stairs_loop (int n) 3 r = Some res' \<and> length res' = n + 1 \<and>
      res' ! n = int (climb_count n) else stairs_loop (int n) 3 r = None"
  proof -
    have "fits_int (int (climb_count (3 - 1)))" by (simp add: numeral_2_eq_2 fits_int_def)
    moreover have "int 3 = 3" by simp
    ultimately show ?thesis using stairs_loop_spec [OF len order_refl] assms \<open>\<forall>k. 1 \<le> k \<and> k < 3 \<longrightarrow> r ! k = int (climb_count k)\<close>
      by (metis Suc_eq_plus1 Suc_le_mono numeral_2_eq_2 numeral_3_eq_3)
  qed
  have "climbStairs (int n) = do { res \<leftarrow> stairs_loop (int n) 3 r; at res (int n) }"
    using r c assms unfolding climbStairs_def by (auto simp: bind_eq_Some_conv simp del: replicate.simps)
  then show ?thesis using loop by (cases "fits_int (int (climb_count n))") (simp_all, force)
qed


section \<open>Happy numbers\<close>

function digit_squares :: "nat \<Rightarrow> nat \<Rightarrow> nat \<times> nat" where
  \<comment> \<open>\<^verbatim>\<open>while (x > 10)\<close>: the sum, and what is left of \<^verbatim>\<open>x\<close>\<close>
  "digit_squares x s = (if x > 10 then digit_squares (x div 10) (s + (x mod 10) * (x mod 10)) else (s, x))"
  by pat_completeness auto
termination by (relation "measure fst") auto

partial_function (option) happy_loop :: "nat \<Rightarrow> nat set \<Rightarrow> bool option" where
  "happy_loop x vars =
     (if x \<noteq> 1 then
        if x \<in> vars then Some False
        else happy_loop (fst (digit_squares x 0)) (insert x vars)
      else Some (x = 1))"

definition isHappy :: "int \<Rightarrow> bool option" where
  "isHappy n = (if n < 0 then Some False else happy_loop (nat n) {})"

declare digit_squares.simps [simp del] happy_loop.simps [code]

definition happy_step :: "nat \<Rightarrow> nat" where
  "happy_step x = fst (digit_squares x 0)"

fun square_sum :: "nat \<Rightarrow> nat" where
  \<comment> \<open>the sum of the squares of all digits\<close>
  "square_sum x = (if x < 10 then x * x else square_sum (x div 10) + (x mod 10) * (x mod 10))"

declare square_sum.simps [simp del]

lemma digit_squares_sum: "fst (digit_squares x s) = s + fst (digit_squares x 0)"
proof (induction x arbitrary: s rule: less_induct)
  case (less x)
  show ?case
  proof (cases "x > 10")
    case True
    then have "fst (digit_squares (x div 10) (s + (x mod 10) * (x mod 10))) =
        s + fst (digit_squares (x div 10) (0 + (x mod 10) * (x mod 10)))"
      using less [of "x div 10" "s + (x mod 10) * (x mod 10)"] less [of "x div 10" "0 + (x mod 10) * (x mod 10)"] by simp
    then show ?thesis using True by (subst (1 2) digit_squares.simps) simp
  qed (simp add: digit_squares.simps)
qed

lemma happy_step_rec: "happy_step x = (if x > 10 then happy_step (x div 10) + (x mod 10) * (x mod 10) else 0)"
  unfolding happy_step_def using digit_squares_sum [of "x div 10" "x mod 10 * (x mod 10)"]
  by (subst digit_squares.simps) simp

text \<open>The first digit is always lost; below a thousand digits the values stay small.\<close>

lemma happy_step_le: "happy_step x \<le> square_sum x"
proof (induction x rule: less_induct)
  case (less x)
  show ?case
  proof (cases "x > 10")
    case True
    then show ?thesis using less [of "x div 10"] by (subst happy_step_rec, subst square_sum.simps) simp
  qed (simp add: happy_step_rec [of x])
qed

lemma square_sum_bound: "x < 10 ^ d \<Longrightarrow> square_sum x \<le> 81 * d"
proof (induction d arbitrary: x)
  case 0
  then show ?case by (simp add: square_sum.simps)
next
  case (Suc d)
  have dig: "y * y \<le> 81" if "y \<le> 9" for y :: nat using mult_le_mono [OF that that] by simp
  show ?case
  proof (cases "x < 10")
    case True
    then show ?thesis using dig [of x] by (subst square_sum.simps) simp
  next
    case False
    have "x div 10 < 10 ^ d" using Suc.prems by (simp add: less_mult_imp_div_less mult.commute)
    then have "square_sum (x div 10) \<le> 81 * d" by (rule Suc.IH)
    moreover have "(x mod 10) * (x mod 10) \<le> 81" using dig [of "x mod 10"] by simp
    ultimately show ?thesis using False by (subst square_sum.simps) simp
  qed
qed

lemma happy_step_bound: "x \<le> 2147483647 \<Longrightarrow> happy_step x \<le> 810"
  using happy_step_le [of x] square_sum_bound [of x 10] by simp

abbreviation happy_iter :: "nat \<Rightarrow> nat \<Rightarrow> nat" where
  "happy_iter x k \<equiv> (happy_step ^^ k) x"

lemma happy_iter_bound:
  assumes "x \<le> 2147483647" "0 < k"
  shows "happy_iter x k \<le> 810"
proof -
  have "happy_iter x (Suc k) \<le> 810" for k
  proof (induction k)
    case 0
    then show ?case using happy_step_bound [OF assms(1)] by simp
  next
    case (Suc k)
    then have "happy_iter x (Suc k) \<le> 2147483647" by linarith
    then have "happy_step (happy_iter x (Suc k)) \<le> 810" by (rule happy_step_bound)
    then show ?case by simp
  qed
  then show ?thesis using assms(2) by (cases k) auto
qed

lemma happy_iter_cycle:
  assumes "happy_iter x j = happy_iter x i" "i < j"
  shows "\<exists>m<j. happy_iter x k = happy_iter x m"
proof (induction k)
  case 0
  then show ?case using assms(2) by (intro exI [of _ 0]) simp
next
  case (Suc k)
  then obtain m where m: "m < j" "happy_iter x k = happy_iter x m" by blast
  then have "happy_iter x (Suc k) = happy_iter x (Suc m)" by simp
  moreover have "Suc m < j \<or> Suc m = j" using m(1) by auto
  ultimately show ?case using assms by metis
qed

lemma happy_loop_spec:
  assumes "x \<le> 2147483647" "inj_on (happy_iter x) {..<j}" "\<forall>i<j. happy_iter x i \<noteq> 1"
  shows "happy_loop (happy_iter x j) (happy_iter x ` {..<j}) = Some (\<exists>k. happy_iter x k = 1)"
  using assms(2,3)
proof (induction "812 - j" arbitrary: j rule: less_induct)
  case less
  let ?y = "happy_iter x j" and ?vars = "happy_iter x ` {..<j}"
  have loop: "happy_loop ?y ?vars =
      (if ?y \<noteq> 1 then if ?y \<in> ?vars then Some False else happy_loop (happy_iter x (Suc j)) (happy_iter x ` {..<Suc j}) else Some True)"
    by (subst happy_loop.simps) (simp add: happy_step_def [symmetric] lessThan_Suc)
  consider "?y = 1" | "?y \<noteq> 1" "?y \<in> ?vars" | "?y \<noteq> 1" "?y \<notin> ?vars" by blast
  then show ?case
  proof cases
    case 1
    then show ?thesis using loop by auto
  next
    case 2
    then obtain i where "i < j" "happy_iter x j = happy_iter x i" by auto
    then have "happy_iter x k \<noteq> 1" for k using happy_iter_cycle [of j x i k] less.prems(2) by auto
    then show ?thesis using loop 2 by simp
  next
    case 3
    have inj: "inj_on (happy_iter x) {..<Suc j}" using less.prems(1) 3(2) by (simp add: lessThan_Suc)
    have "happy_iter x ` {1..<Suc j} \<subseteq> {..810}" using happy_iter_bound [OF assms(1)] by auto
    moreover have "card (happy_iter x ` {1..<Suc j}) = j"
      using inj by (subst card_image) (auto intro: inj_on_subset)
    ultimately have "j \<le> 811" using card_mono [of "{..810::nat}" "happy_iter x ` {1..<Suc j}"] by simp
    then have "812 - Suc j < 812 - j" by simp
    then have "happy_loop (happy_iter x (Suc j)) (happy_iter x ` {..<Suc j}) = Some (\<exists>k. happy_iter x k = 1)"
      by (rule less.hyps [OF _ inj]) (use less.prems(2) 3(1) in \<open>simp add: less_Suc_eq_le le_less, blast?\<close>)
    then show ?thesis using loop 3 by simp
  qed
qed

lemma isHappy_decides:
  assumes "0 \<le> n" "n \<le> INT_MAX"
  shows "isHappy n = Some (\<exists>k. happy_iter (nat n) k = 1)"
  using happy_loop_spec [of "nat n" 0] assms by (simp add: isHappy_def)

text \<open>
  \<open>uniquePaths\<close> returns the number of paths through a grid when it fits into \<^verbatim>\<open>int\<close>, and overflows
  otherwise; \<open>climbStairs\<close> the number of ways to climb \<open>n\<close> steps one or two at a time in the same sense from
  \<open>n = 2\<close> on, while for \<open>n = 1\<close> it writes outside its vector; \<open>isHappy\<close> always returns, deciding whether the
  iteration of its step reaches 1, but its step forgets the first digit of the number, so that 7 is not
  happy for it.
\<close>

theorem ways_counted:
  "(\<forall>a b. uniquePaths (int a + 1) (int b + 1) =
      (if fits_int (int (card (grid_paths a b))) then Some (int (card (grid_paths a b))) else None)) \<and>
   (\<forall>n. climbStairs (int n + 2) =
      (if fits_int (int (card (climbs (n + 2)))) then Some (int (card (climbs (n + 2)))) else None)) \<and>
   climbStairs 1 = None \<and>
   (\<forall>n. 0 \<le> n \<and> n \<le> INT_MAX \<longrightarrow> isHappy n = Some (\<exists>k. (happy_step ^^ k) (nat n) = 1)) \<and>
   isHappy 7 = Some False \<and> (square_sum ^^ 5) 7 = 1"
proof (intro conjI allI impI)
  fix a b
  show "uniquePaths (int a + 1) (int b + 1) =
      (if fits_int (int (card (grid_paths a b))) then Some (int (card (grid_paths a b))) else None)"
    using uniquePaths_count [of "Suc a" "Suc b"] card_grid_paths [of a b] by (simp add: ways_fit_def add.commute)
next
  fix n
  show "climbStairs (int n + 2) =
      (if fits_int (int (card (climbs (n + 2)))) then Some (int (card (climbs (n + 2)))) else None)"
  proof -
    have n: "int (n + 2) = int n + 2" "card (climbs (n + 2)) = climb_count (n + 2)" using card_climbs by simp_all
    show ?thesis unfolding n(2) using climbStairs_count [of "n + 2"] unfolding n(1) by simp
  qed
next
  show "climbStairs 1 = None" by (rule counting_examples)
  show "isHappy n = Some (\<exists>k. (happy_step ^^ k) (nat n) = 1)" if "0 \<le> n \<and> n \<le> INT_MAX" for n
    using isHappy_decides that by blast
  show "isHappy 7 = Some False" by code_simp
  have "square_sum 7 = 49" "square_sum 49 = 97" "square_sum 97 = 130" "square_sum 130 = 10" "square_sum 10 = 1"
    by (simp_all add: square_sum.simps)
  then show "(square_sum ^^ 5) 7 = 1" by (simp add: numeral_eq_Suc)
qed

lemma ways_counted_witness: "isHappy 19 = Some (\<exists>k. (happy_step ^^ k) 19 = 1) \<and> card (grid_paths 2 6) = 28"
proof
  have "0 \<le> (19::int) \<and> 19 \<le> INT_MAX" by simp
  then have "isHappy 19 = Some (\<exists>k. (happy_step ^^ k) (nat 19) = 1)" using ways_counted by blast
  then show "isHappy 19 = Some (\<exists>k. (happy_step ^^ k) 19 = 1)" by simp
  have "uniquePaths (int 2 + 1) (int 6 + 1) =
      (if fits_int (int (card (grid_paths 2 6))) then Some (int (card (grid_paths 2 6))) else None)"
    using ways_counted by blast
  then show "card (grid_paths 2 6) = 28" using counting_examples(1) by (simp split: if_splits)
qed

end
