(* ===== verification/LcStrings.thy ===== *)
theory LcStrings
  imports Prelude "HOL-Library.Sublist" "HOL-Library.Char_ord" "HOL-Library.List_Lexorder"
begin

text \<open>
  Common prefixes (\<^verbatim>\<open>hobbies/leetcode/algorithms/solution_14\<close>), palindromes up to case and punctuation
  (\<^verbatim>\<open>solution_125\<close>), isomorphic strings (\<^verbatim>\<open>solution_205\<close>) and anagrams (\<^verbatim>\<open>solution_242\<close>). \<^verbatim>\<open>std::sort\<close>
  is \<open>sort\<close>, for strings by the order of \<open>List_Lexorder\<close> over the codes of the characters, and the maps are
  partial functions. \<open>None\<close> is an access outside a string; \<^verbatim>\<open>s[s.size()]\<close> is the terminating zero.
\<close>

section \<open>Common prefixes\<close>

fun same_length :: "string \<Rightarrow> string \<Rightarrow> nat" where
  \<comment> \<open>the inner loop: how far the strings agree\<close>
  "same_length (x # xs) (y # ys) = (if x = y then Suc (same_length xs ys) else 0)"
| "same_length _ _ = 0"

fun prefix_length_loop :: "string \<Rightarrow> string list \<Rightarrow> nat \<Rightarrow> nat option" where
  \<comment> \<open>\<open>None\<close> stands for the early return of the empty string\<close>
  "prefix_length_loop common [] len = Some len"
| "prefix_length_loop common (s # ss) len =
     (let j = same_length (take len common) s in
      if j = 0 then None else prefix_length_loop common ss (if j < len then j else len))"

definition longestCommonPrefix :: "string list \<Rightarrow> string" where
  "longestCommonPrefix strs =
     (case strs of [] \<Rightarrow> []
      | common # ss \<Rightarrow>
          (case prefix_length_loop common ss (length common) of None \<Rightarrow> [] | Some len \<Rightarrow> take len common))"

fun prefix_length_loop_b :: "string \<Rightarrow> string list \<Rightarrow> nat \<Rightarrow> nat option" where
  "prefix_length_loop_b common [] len = Some len"
| "prefix_length_loop_b common (s # ss) len =
     (let j = same_length (take (min len (length s)) s) common in
      if j = 0 then None else prefix_length_loop_b common ss j)"

definition longestCommonPrefix2 :: "string list \<Rightarrow> string" where
  "longestCommonPrefix2 strs =
     (case sort strs of [] \<Rightarrow> []
      | common # ss \<Rightarrow>
          (case prefix_length_loop_b common ss (length common) of None \<Rightarrow> [] | Some len \<Rightarrow> take len common))"

definition char_or_nul :: "string \<Rightarrow> nat \<Rightarrow> char option" where
  "char_or_nul s i = (if i < length s then Some (s ! i) else if i = length s then Some CHR 0x00 else None)"

fun all_same_at :: "char \<Rightarrow> nat \<Rightarrow> string list \<Rightarrow> bool option" where
  "all_same_at c i [] = Some True"
| "all_same_at c i (s # ss) = do { x \<leftarrow> char_or_nul s i; if x \<noteq> c then Some False else all_same_at c i ss }"

function prefix_grow_loop :: "string \<Rightarrow> string list \<Rightarrow> nat \<Rightarrow> string \<Rightarrow> string option" where
  "prefix_grow_loop common ss i acc =
     (if i < length common then do {
        b \<leftarrow> all_same_at (common ! i) i ss;
        if \<not> b then Some acc else prefix_grow_loop common ss (i + 1) (acc @ [common ! i]) }
      else Some acc)"
  by pat_completeness auto
termination by (relation "measure (\<lambda>(c, ss, i, p). length c - i)") auto

definition longestCommonPrefix3 :: "string list \<Rightarrow> string option" where
  "longestCommonPrefix3 strs = (case strs of [] \<Rightarrow> Some [] | common # ss \<Rightarrow> prefix_grow_loop common ss 0 [])"

declare prefix_grow_loop.simps [simp del]

lemma prefix_examples:
  "longestCommonPrefix [''abc'', ''ab'', ''abdef''] = ''ab''" "longestCommonPrefix3 [''abc'', '''', ''ab''] = Some []"
  by code_simp+

lemma same_length_prefix: "take k s = take k t \<and> k \<le> length s \<and> k \<le> length t \<longleftrightarrow> k \<le> same_length s t"
proof (induction s t arbitrary: k rule: same_length.induct)
  case (1 x xs y ys)
  show ?case using 1 [of "k - 1"] by (cases k) auto
qed auto

lemma same_length_le: "same_length s t \<le> length s" "same_length s t \<le> length t"
  using same_length_prefix [of "same_length s t" s t] by auto

lemma prefix_take_iff: "k \<le> length s \<Longrightarrow> prefix (take k s) t \<longleftrightarrow> take k s = take k t \<and> k \<le> length t"
  by (metis length_take min.absorb2 prefix_length_le take_is_prefix append_eq_conv_conj prefix_def)

definition is_common_prefix :: "string \<Rightarrow> string list \<Rightarrow> bool" where
  "is_common_prefix p strs \<longleftrightarrow> (\<forall>s\<in>set strs. prefix p s)"

definition longest_prefix_length :: "string \<Rightarrow> string list \<Rightarrow> nat \<Rightarrow> bool" where
  "longest_prefix_length common ss k \<longleftrightarrow> k \<le> length common \<and>
     (\<forall>j\<le>length common. is_common_prefix (take j common) ss \<longleftrightarrow> j \<le> k)"

lemma longest_prefix_length_Nil: "longest_prefix_length common [] (length common)"
  by (simp add: longest_prefix_length_def is_common_prefix_def)

lemma longest_prefix_length_Cons:
  assumes "longest_prefix_length common ss k"
  shows "longest_prefix_length common (ss @ [s]) (same_length (take k common) s)"
  unfolding longest_prefix_length_def
proof (intro conjI allI impI)
  have k: "k \<le> length common" using assms by (simp add: longest_prefix_length_def)
  then show "same_length (take k common) s \<le> length common" using same_length_le(1) [of "take k common" s] by simp
  fix j
  assume j: "j \<le> length common"
  have "is_common_prefix (take j common) (ss @ [s]) \<longleftrightarrow> j \<le> k \<and> prefix (take j common) s"
    using assms j by (auto simp: longest_prefix_length_def is_common_prefix_def)
  also have "\<dots> \<longleftrightarrow> j \<le> same_length (take k common) s"
    using prefix_take_iff [OF j, of s] same_length_prefix [of j "take k common" s] j k by (auto simp: min_def split: if_splits)
  finally show "is_common_prefix (take j common) (ss @ [s]) \<longleftrightarrow> j \<le> same_length (take k common) s" .
qed

lemma same_length_commute: "same_length s t = same_length t s"
  by (induction s t rule: same_length.induct) auto

lemma longest_prefix_length_zero:
  assumes "longest_prefix_length common ss 0"
  shows "longest_prefix_length common (ss @ ts) 0"
  using assms unfolding longest_prefix_length_def is_common_prefix_def
  by (auto simp: le_Suc_eq)

lemma prefix_length_loop_spec:
  assumes "longest_prefix_length common done_strs len"
  shows "longest_prefix_length common (done_strs @ ss) (case prefix_length_loop common ss len of None \<Rightarrow> 0 | Some k \<Rightarrow> k)"
  using assms
proof (induction ss arbitrary: done_strs len)
  case (Cons s ss)
  let ?j = "same_length (take len common) s"
  have j: "longest_prefix_length common (done_strs @ [s]) ?j" using Cons.prems by (rule longest_prefix_length_Cons)
  have "(if ?j < len then ?j else len) = ?j" using same_length_le(1) [of "take len common" s] Cons.prems
    by (auto simp: longest_prefix_length_def)
  then show ?case
    using Cons.IH [OF j] j longest_prefix_length_zero [of common "done_strs @ [s]" ss] by (auto simp: Let_def)
qed simp

lemma prefix_length_loop_b_spec:
  assumes "longest_prefix_length common done_strs len"
  shows "longest_prefix_length common (done_strs @ ss) (case prefix_length_loop_b common ss len of None \<Rightarrow> 0 | Some k \<Rightarrow> k)"
  using assms
proof (induction ss arbitrary: done_strs len)
  case (Cons s ss)
  let ?j = "same_length (take len common) s"
  have j: "longest_prefix_length common (done_strs @ [s]) ?j" using Cons.prems by (rule longest_prefix_length_Cons)
  have "same_length (take (min len (length s)) s) common = ?j"
  proof (rule antisym)
    show "same_length (take (min len (length s)) s) common \<le> ?j"
      by (rule same_length_prefix [THEN iffD1]) (use same_length_prefix [of "same_length (take (min len (length s)) s) common" "take (min len (length s)) s" common] in \<open>auto simp: min_def split: if_splits\<close>)
    show "?j \<le> same_length (take (min len (length s)) s) common"
      by (rule same_length_prefix [THEN iffD1]) (use same_length_prefix [of ?j "take len common" s] in \<open>auto simp: min_def split: if_splits\<close>)
  qed
  then show ?case
    using Cons.IH [OF j] j longest_prefix_length_zero [of common "done_strs @ [s]" ss] by (auto simp: Let_def)
qed simp

lemma longest_prefix_is:
  assumes "longest_prefix_length common ss k"
  shows "Longest_common_prefix (set (common # ss)) = take k common"
proof (rule Longest_common_prefix_eq)
  have k: "k \<le> length common" "is_common_prefix (take k common) ss" using assms by (auto simp: longest_prefix_length_def)
  then show "\<forall>xs\<in>set (common # ss). prefix (take k common) xs" by (simp add: is_common_prefix_def take_is_prefix)
  show "\<forall>qs. (\<forall>xs\<in>set (common # ss). prefix qs xs) \<longrightarrow> size qs \<le> size (take k common)"
  proof (intro allI impI)
    fix qs
    assume q: "\<forall>xs\<in>set (common # ss). prefix qs xs"
    then have qs: "qs = take (length qs) common" "length qs \<le> length common"
      by (auto simp: prefix_def) 
    then have "is_common_prefix (take (length qs) common) ss" using q by (simp add: is_common_prefix_def)
    then show "size qs \<le> size (take k common)" using assms qs(2) k(1) by (simp add: longest_prefix_length_def)
  qed
qed simp

lemma longestCommonPrefix_longest: "strs \<noteq> [] \<Longrightarrow> longestCommonPrefix strs = Longest_common_prefix (set strs)"
  using prefix_length_loop_spec [OF longest_prefix_length_Nil, of "hd strs" "tl strs"] longest_prefix_is
  by (cases strs) (auto simp: longestCommonPrefix_def split: option.splits)

lemma longestCommonPrefix2_longest:
  assumes "strs \<noteq> []"
  shows "longestCommonPrefix2 strs = Longest_common_prefix (set strs)"
proof -
  obtain c ss where s: "sort strs = c # ss" using assms by (metis neq_Nil_conv sort_key_simps(1) length_sort length_0_conv)
  have "set strs = set (c # ss)" using s by (metis set_sort)
  then show ?thesis
    using prefix_length_loop_b_spec [OF longest_prefix_length_Nil, of c ss] longest_prefix_is s
    by (auto simp: longestCommonPrefix2_def split: option.splits)
qed


lemma all_same_at_spec:
  assumes "\<forall>s\<in>set ss. i \<le> length s \<and> CHR 0x00 \<notin> set s" "c \<noteq> CHR 0x00"
  shows "all_same_at c i ss = Some (\<forall>s\<in>set ss. i < length s \<and> s ! i = c)"
  using assms by (induction ss) (auto simp: char_or_nul_def)

lemma common_prefix_step:
  assumes "i < length common" "is_common_prefix (take i common) ss"
  shows "is_common_prefix (take (Suc i) common) ss \<longleftrightarrow> (\<forall>s\<in>set ss. i < length s \<and> s ! i = common ! i)"
proof -
  have "prefix (take (Suc i) common) s \<longleftrightarrow> i < length s \<and> s ! i = common ! i" if "prefix (take i common) s" for s
  proof -
    have i: "take i common = take i s" "i \<le> length s" using that prefix_take_iff [of i common s] assms(1) by auto
    have "prefix (take (Suc i) common) s \<longleftrightarrow> take (Suc i) common = take (Suc i) s \<and> Suc i \<le> length s"
      using prefix_take_iff [of "Suc i" common s] assms(1) by simp
    also have "\<dots> \<longleftrightarrow> i < length s \<and> s ! i = common ! i"
      using i assms(1) by (cases "i < length s") (auto simp: take_Suc_conv_app_nth)
    finally show ?thesis .
  qed
  then show ?thesis using assms(2) by (auto simp: is_common_prefix_def)
qed

lemma prefix_grow_loop_spec:
  assumes "\<forall>s\<in>set (common # ss). CHR 0x00 \<notin> set s" "i \<le> length common" "is_common_prefix (take i common) ss"
  shows "\<exists>k. prefix_grow_loop common ss i (take i common) = Some (take k common) \<and> longest_prefix_length common ss k"
  using assms(2,3)
proof (induction "length common - i" arbitrary: i)
  case 0
  then have i: "i = length common" by simp
  have "is_common_prefix (take j common) ss" if "j \<le> length common" for j
    using 0(3) i that prefix_order.trans [OF take_is_prefix] by (auto simp: is_common_prefix_def)
  then have "longest_prefix_length common ss (length common)" by (simp add: longest_prefix_length_def)
  then show ?case using i by (subst prefix_grow_loop.simps) (auto intro!: exI [of _ "length common"])
next
  case (Suc d)
  then have i: "i < length common" by simp
  have le: "\<forall>s\<in>set ss. i \<le> length s \<and> CHR 0x00 \<notin> set s"
    using Suc.prems(2) prefix_take_iff [of i common] i assms(1) by (auto simp: is_common_prefix_def)
  have "common ! i \<noteq> CHR 0x00" using assms(1) i by (metis list.set_intros(1) nth_mem)
  then have b: "all_same_at (common ! i) i ss = Some (is_common_prefix (take (Suc i) common) ss)"
    using all_same_at_spec [OF le] common_prefix_step [OF i Suc.prems(2)] by simp
  show ?case
  proof (cases "is_common_prefix (take (Suc i) common) ss")
    case True
    have "prefix_grow_loop common ss i (take i common) = prefix_grow_loop common ss (Suc i) (take (Suc i) common)"
      using b True i by (subst prefix_grow_loop.simps) (simp add: take_Suc_conv_app_nth)
    then show ?thesis using Suc.hyps(1) [of "Suc i"] Suc.hyps(2) True i by auto
  next
    case False
    have "is_common_prefix (take j common) ss \<longleftrightarrow> j \<le> i" if "j \<le> length common" for j
    proof (cases "j \<le> i")
      case True
      then have "prefix (take j common) (take i common)" by (metis min.absorb1 take_is_prefix take_take)
      then show ?thesis using True Suc.prems(2) prefix_order.trans by (auto simp: is_common_prefix_def)
    next
      case False
      then have "prefix (take (Suc i) common) (take j common)" by (metis min.absorb1 take_is_prefix take_take not_less_eq_eq)
      then show ?thesis using False \<open>\<not> is_common_prefix (take (Suc i) common) ss\<close> prefix_order.trans
        by (auto simp: is_common_prefix_def)
    qed
    then have "longest_prefix_length common ss i" using i by (simp add: longest_prefix_length_def)
    then show ?thesis using b False i by (subst prefix_grow_loop.simps) auto
  qed
qed

lemma longestCommonPrefix3_longest:
  assumes "strs \<noteq> []" "\<forall>s\<in>set strs. CHR 0x00 \<notin> set s"
  shows "longestCommonPrefix3 strs = Some (Longest_common_prefix (set strs))"
proof -
  obtain c ss where s: "strs = c # ss" using assms(1) by (cases strs) auto
  have "is_common_prefix (take 0 c) ss" by (simp add: is_common_prefix_def)
  then obtain k where "prefix_grow_loop c ss 0 (take 0 c) = Some (take k c)" "longest_prefix_length c ss k"
    using prefix_grow_loop_spec [of c ss 0] assms(2) s by blast
  then show ?thesis using longest_prefix_is s by (simp add: longestCommonPrefix3_def)
qed

section \<open>Palindromes up to case and punctuation\<close>

definition alnum :: "char \<Rightarrow> bool" where
  \<comment> \<open>\<^verbatim>\<open>isalnum\<close> of an ASCII character\<close>
  "alnum c \<longleftrightarrow> (let n = of_char c :: nat in 48 \<le> n \<and> n \<le> 57 \<or> 65 \<le> n \<and> n \<le> 90 \<or> 97 \<le> n \<and> n \<le> 122)"

definition to_lower :: "char \<Rightarrow> char" where
  "to_lower c = (let n = of_char c :: nat in if 65 \<le> n \<and> n \<le> 90 then char_of (n + 32) else c)"

definition isPalindrome_str :: "string \<Rightarrow> bool" where
  "isPalindrome_str s =
     (let t = filter alnum s in t = [] \<or> list_all2 (\<lambda>a b. to_lower a = to_lower b) t (rev t))"

function skip_up_to_alnum :: "string \<Rightarrow> int \<Rightarrow> int \<Rightarrow> int option" where
  "skip_up_to_alnum s i j = do {
     x \<leftarrow> at s i;
     if \<not> alnum x \<and> i < j then skip_up_to_alnum s (i + 1) j else Some i }"
  by pat_completeness auto
termination by (relation "measure (\<lambda>(s, i, j). nat (j - i))") auto

function skip_down_to_alnum :: "string \<Rightarrow> int \<Rightarrow> int \<Rightarrow> int option" where
  "skip_down_to_alnum s i j = do {
     y \<leftarrow> at s j;
     if \<not> alnum y \<and> j > i then skip_down_to_alnum s i (j - 1) else Some j }"
  by pat_completeness auto
termination by (relation "measure (\<lambda>(s, i, j). nat (j - i))") auto

partial_function (option) two_ends_loop :: "string \<Rightarrow> int \<Rightarrow> int \<Rightarrow> bool option" where
  "two_ends_loop s i j =
     (if i < j then do {
        i' \<leftarrow> skip_up_to_alnum s i j;
        j' \<leftarrow> skip_down_to_alnum s i' j;
        x \<leftarrow> at s i';
        y \<leftarrow> at s j';
        if to_lower x \<noteq> to_lower y then Some False else two_ends_loop s (i' + 1) (j' - 1) }
      else Some True)"

definition isPalindrome2_str :: "string \<Rightarrow> bool option" where
  "isPalindrome2_str s = two_ends_loop s 0 (size_of s - 1)"

definition isPalindrome3_str :: "string \<Rightarrow> bool" where
  "isPalindrome3_str s =
     (let kept = filter alnum s; new_rend = rev kept in
      s = [] \<or> list_all2 (\<lambda>a b. to_lower a = to_lower b) kept new_rend)"

declare skip_up_to_alnum.simps [simp del] skip_down_to_alnum.simps [simp del] two_ends_loop.simps [code]

definition plain_text :: "string \<Rightarrow> string" where
  "plain_text s = map to_lower (filter alnum s)"

lemma list_all2_lower: "list_all2 (\<lambda>a b. to_lower a = to_lower b) t u \<longleftrightarrow> map to_lower t = map to_lower u"
  unfolding list.rel_eq [symmetric] by (simp add: list_all2_map1 list_all2_map2)

lemma palindrome_ends:
  assumes "alnum x" "alnum y"
  shows "rev (plain_text (x # m @ [y])) = plain_text (x # m @ [y]) \<longleftrightarrow>
    to_lower x = to_lower y \<and> rev (plain_text m) = plain_text m"
  using assms by (auto simp: plain_text_def)

lemma palindrome_short: "length m \<le> 1 \<Longrightarrow> rev (plain_text m) = plain_text m"
  by (cases m) (auto simp: plain_text_def)

definition two_ends_body :: "string \<Rightarrow> int \<Rightarrow> int \<Rightarrow> bool option" where
  "two_ends_body s i j = do {
     i' \<leftarrow> skip_up_to_alnum s i j;
     j' \<leftarrow> skip_down_to_alnum s i' j;
     x \<leftarrow> at s i';
     y \<leftarrow> at s j';
     if to_lower x \<noteq> to_lower y then Some False else two_ends_loop s (i' + 1) (j' - 1) }"

lemma two_ends_loop_body: "two_ends_loop s i j = (if i < j then two_ends_body s i j else Some True)"
  by (subst two_ends_loop.simps) (simp add: two_ends_body_def)

lemma two_ends_body_spec:
  assumes "m \<noteq> []"
  shows "two_ends_body (u @ m @ v) (size_of u) (size_of u + size_of m - 1) = Some (rev (plain_text m) = plain_text m)"
  using assms
proof (induction "length m" arbitrary: u m v rule: less_induct)
  case less
  let ?s = "u @ m @ v" and ?i = "size_of u" and ?j = "size_of u + size_of m - 1"
  show ?case
  proof (cases "length m = 1")
    case True
    then obtain x where m: "m = [x]" by (cases m) auto
    have x: "at ?s ?i = Some x" using at_mid m by simp
    have "skip_up_to_alnum ?s ?i ?i = Some ?i" "skip_down_to_alnum ?s ?i ?i = Some ?i"
      using x by (subst skip_up_to_alnum.simps skip_down_to_alnum.simps; simp)+
    then have "two_ends_body ?s ?i ?j = two_ends_loop ?s (?i + 1) (?i - 1)" using x m by (simp add: two_ends_body_def)
    then show ?thesis using palindrome_short [of m] m by (simp add: two_ends_loop_body)
  next
    case False
    then obtain x m2 y where m: "m = x # m2 @ [y]" using less.prems
      by (metis One_nat_def append_Nil length_Cons list.size(3) neq_Nil_conv rev_exhaust append_Cons)
    have x: "at ?s ?i = Some x" using at_mid [of u x "m2 @ y # v"] m by simp
    have y: "at ?s ?j = Some y" using at_mid [of "u @ x # m2" y v] m by (simp add: add.commute add.left_commute)
    have ij: "?i < ?j" using m by simp
    consider "\<not> alnum x" | "alnum x" "\<not> alnum y" | "alnum x" "alnum y" by blast
    then show ?thesis
    proof cases
      case 1
      have "skip_up_to_alnum ?s ?i ?j = skip_up_to_alnum ?s (?i + 1) ?j"
        using x 1 ij by (subst skip_up_to_alnum.simps) simp
      then have "two_ends_body ?s ?i ?j = two_ends_body ?s (?i + 1) ?j" by (simp add: two_ends_body_def)
      also have "\<dots> = Some (rev (plain_text (m2 @ [y])) = plain_text (m2 @ [y]))"
        using less.hyps [of "m2 @ [y]" "u @ [x]" v] m by (simp add: add.commute add.left_commute)
      finally show ?thesis using 1 m by (simp add: plain_text_def)
    next
      case 2
      have up: "skip_up_to_alnum ?s ?i k = Some ?i" for k using x 2 by (subst skip_up_to_alnum.simps) simp
      have "skip_down_to_alnum ?s ?i ?j = skip_down_to_alnum ?s ?i (?j - 1)"
        using y 2 ij by (subst skip_down_to_alnum.simps) simp
      then have "two_ends_body ?s ?i ?j = two_ends_body ?s ?i (?j - 1)" using up by (simp add: two_ends_body_def)
      also have "\<dots> = Some (rev (plain_text (x # m2)) = plain_text (x # m2))"
        using less.hyps [of "x # m2" u "y # v"] m by (simp add: add.commute add.left_commute)
      finally show ?thesis using 2 m by (simp add: plain_text_def)
    next
      case 3
      have "skip_up_to_alnum ?s ?i ?j = Some ?i" "skip_down_to_alnum ?s ?i ?j = Some ?j"
        using x y 3 by (subst skip_up_to_alnum.simps skip_down_to_alnum.simps; simp)+
      then have body: "two_ends_body ?s ?i ?j =
          (if to_lower x \<noteq> to_lower y then Some False else two_ends_loop ?s (?i + 1) (?j - 1))"
        using x y by (simp add: two_ends_body_def)
      have "two_ends_loop ?s (?i + 1) (?j - 1) = Some (rev (plain_text m2) = plain_text m2)"
      proof (cases "length m2 \<le> 1")
        case True
        then show ?thesis using m palindrome_short [OF True] by (simp add: two_ends_loop_body)
      next
        case False
        then have "m2 \<noteq> []" "length m2 < length m" "1 < length m2" using m by auto
        then show ?thesis using less.hyps [of m2 "u @ [x]" "y # v"] m
          by (simp add: two_ends_loop_body add.commute add.left_commute)
      qed
      then show ?thesis using body m palindrome_ends [OF 3, of m2] by simp
    qed
  qed
qed

lemma isPalindrome2_str_iff: "isPalindrome2_str s = Some (rev (plain_text s) = plain_text s)"
proof (cases "length s \<le> 1")
  case True
  then show ?thesis using palindrome_short [OF True] by (simp add: isPalindrome2_str_def two_ends_loop_body)
next
  case False
  then have "s \<noteq> []" by auto
  then show ?thesis using two_ends_body_spec [of s "[]" "[]"] False by (simp add: isPalindrome2_str_def two_ends_loop_body)
qed

lemma isPalindrome_str_iff:
  "isPalindrome_str s \<longleftrightarrow> rev (plain_text s) = plain_text s" "isPalindrome3_str s \<longleftrightarrow> rev (plain_text s) = plain_text s"
  by (auto simp: isPalindrome_str_def isPalindrome3_str_def plain_text_def list_all2_lower Let_def rev_map)

section \<open>Isomorphic strings and anagrams\<close>

function iso_loop :: "string \<Rightarrow> string \<Rightarrow> nat \<Rightarrow> (char \<rightharpoonup> char) \<Rightarrow> (char \<rightharpoonup> char) \<Rightarrow> bool option" where
  "iso_loop s t i s2t t2s =
     (if i < length s then do {
        b \<leftarrow> char_or_nul t i;
        let a = s ! i in
        case s2t a of
          Some b' \<Rightarrow>
            if b' \<noteq> b then Some False
            else (case t2s b of
                None \<Rightarrow> iso_loop s t (i + 1) s2t (t2s(b \<mapsto> a))
              | Some a' \<Rightarrow> if a' \<noteq> a then Some False else iso_loop s t (i + 1) s2t t2s)
        | None \<Rightarrow>
            (case t2s b of
                None \<Rightarrow> iso_loop s t (i + 1) (s2t(a \<mapsto> b)) (t2s(b \<mapsto> a))
              | Some a' \<Rightarrow> if a' \<noteq> a then Some False else iso_loop s t (i + 1) (s2t(a \<mapsto> b)) t2s) }
      else Some True)"
  by pat_completeness auto
termination by (relation "measure (\<lambda>(s, t, i, f, g). length s - i)") auto

definition isIsomorphic :: "string \<Rightarrow> string \<Rightarrow> bool option" where
  "isIsomorphic s t = iso_loop s t 0 Map.empty Map.empty"

definition isAnagram :: "string \<Rightarrow> string \<Rightarrow> bool" where
  "isAnagram s t \<longleftrightarrow> mset s = mset t"

definition isAnagram2 :: "string \<Rightarrow> string \<Rightarrow> bool" where
  "isAnagram2 s t \<longleftrightarrow> sort s = sort t"

declare iso_loop.simps [simp del]

definition same_pattern :: "'a list \<Rightarrow> 'b list \<Rightarrow> nat \<Rightarrow> bool" where
  "same_pattern s t n \<longleftrightarrow> (\<forall>k<n. \<forall>l<n. s ! k = s ! l \<longleftrightarrow> t ! k = t ! l)"

lemma same_pattern_Suc:
  "same_pattern s t (Suc n) \<longleftrightarrow> same_pattern s t n \<and> (\<forall>k<n. s ! k = s ! n \<longleftrightarrow> t ! k = t ! n)"
  by (auto simp: same_pattern_def less_Suc_eq)

definition pairs_map :: "'a list \<Rightarrow> 'b list \<Rightarrow> nat \<Rightarrow> ('a \<rightharpoonup> 'b) \<Rightarrow> bool" where
  "pairs_map s t n f \<longleftrightarrow> (\<forall>a b. f a = Some b \<longleftrightarrow> (\<exists>k<n. s ! k = a \<and> t ! k = b))"

lemma pairs_map_None: "pairs_map s t n f \<Longrightarrow> f a = None \<longleftrightarrow> (\<forall>k<n. s ! k \<noteq> a)"
  unfolding pairs_map_def by (metis not_None_eq)

lemma pairs_map_new:
  assumes "pairs_map s t n f" "f (s ! n) = None"
  shows "pairs_map s t (Suc n) (f(s ! n \<mapsto> t ! n))"
proof -
  have "\<forall>k<n. s ! k \<noteq> s ! n" using pairs_map_None [OF assms(1)] assms(2) by simp
  then show ?thesis using assms(1) by (auto simp: pairs_map_def less_Suc_eq)
qed

lemma pairs_map_old:
  assumes "pairs_map s t n f" "f (s ! n) = Some (t ! n)"
  shows "pairs_map s t (Suc n) f"
  using assms by (auto simp: pairs_map_def less_Suc_eq)

lemma iso_loop_spec:
  assumes "length s = length t" "pairs_map s t i f" "pairs_map t s i g" "same_pattern s t i" "i \<le> length s"
  shows "iso_loop s t i f g = Some (same_pattern s t (length s))"
  using assms(2-5)
proof (induction "length s - i" arbitrary: i f g)
  case 0
  then show ?case by (subst iso_loop.simps) simp
next
  case (Suc d)
  then have i: "i < length s" and d: "d = length s - Suc i" "Suc i \<le> length s" by simp_all
  let ?a = "s ! i" and ?b = "t ! i"
  have b: "char_or_nul t i = Some ?b" using i assms(1) by (simp add: char_or_nul_def)
  have bad: "\<not> same_pattern s t (length s)" if "k < i" "(s ! k = ?a) \<noteq> (t ! k = ?b)" for k
    using that i unfolding same_pattern_def by (metis less_trans)
  show ?case
  proof (cases "\<forall>k<i. s ! k = ?a \<longleftrightarrow> t ! k = ?b")
    case True
    then have sp: "same_pattern s t (Suc i)" using Suc.prems(3) by (simp add: same_pattern_Suc)
    show ?thesis
    proof (cases "\<exists>k<i. s ! k = ?a")
      case old: True
      then have f: "f ?a = Some ?b" "g ?b = Some ?a" using True Suc.prems(1,2) by (auto simp: pairs_map_def)
      have "iso_loop s t i f g = iso_loop s t (Suc i) f g" using i b f by (subst iso_loop.simps) (simp add: Let_def)
      then show ?thesis using Suc.hyps(1) [OF d(1) pairs_map_old pairs_map_old sp d(2)] Suc.prems f by simp
    next
      case False
      then have f: "f ?a = None" "g ?b = None"
        using True pairs_map_None [OF Suc.prems(1)] pairs_map_None [OF Suc.prems(2)] by auto
      have "iso_loop s t i f g = iso_loop s t (Suc i) (f(?a \<mapsto> ?b)) (g(?b \<mapsto> ?a))"
        using i b f by (subst iso_loop.simps) (simp add: Let_def)
      then show ?thesis using Suc.hyps(1) [OF d(1) pairs_map_new pairs_map_new sp d(2)] Suc.prems f by simp
    qed
  next
    case False
    then obtain k where k: "k < i" "(s ! k = ?a) \<noteq> (t ! k = ?b)" by blast
    have "f (s ! k) = Some (t ! k)" "g (t ! k) = Some (s ! k)" using Suc.prems(1,2) k(1) by (auto simp: pairs_map_def)
    then have "f ?a \<noteq> None \<and> f ?a \<noteq> Some ?b \<or> g ?b \<noteq> None \<and> g ?b \<noteq> Some ?a" using k(2) by auto
    then have "iso_loop s t i f g = Some False"
      using i b by (subst iso_loop.simps) (auto simp: Let_def split: option.splits)
    then show ?thesis using bad [OF k] by simp
  qed
qed

lemma same_pattern_iff:
  assumes "length s = length t"
  shows "same_pattern s t (length s) \<longleftrightarrow> (\<exists>f. inj_on f (set s) \<and> map f s = t)"
proof
  assume p: "same_pattern s t (length s)"
  define f where "f a = t ! (LEAST k. k < length s \<and> s ! k = a)" for a
  have f: "f (s ! k) = t ! k" if "k < length s" for k
  proof -
    have "(LEAST l. l < length s \<and> s ! l = s ! k) < length s \<and> s ! (LEAST l. l < length s \<and> s ! l = s ! k) = s ! k"
      by (rule LeastI [of _ k]) (use that in simp)
    then show ?thesis using p that by (auto simp: f_def same_pattern_def)
  qed
  have "map f s = t" by (rule nth_equalityI) (use f assms in auto)
  moreover have "inj_on f (set s)"
  proof (rule inj_onI)
    fix a b
    assume "a \<in> set s" "b \<in> set s" "f a = f b"
    then obtain k l where "k < length s" "a = s ! k" "l < length s" "b = s ! l" by (metis in_set_conv_nth)
    then show "a = b" using f p \<open>f a = f b\<close> by (auto simp: same_pattern_def)
  qed
  ultimately show "\<exists>f. inj_on f (set s) \<and> map f s = t" by blast
next
  assume "\<exists>f. inj_on f (set s) \<and> map f s = t"
  then obtain f where "inj_on f (set s)" "map f s = t" by blast
  then show "same_pattern s t (length s)" by (auto simp: same_pattern_def inj_on_def)
qed

lemma isIsomorphic_iff:
  "length s = length t \<Longrightarrow> isIsomorphic s t = Some (\<exists>f. inj_on f (set s) \<and> map f s = t)"
  using iso_loop_spec [of s t 0 Map.empty Map.empty] same_pattern_iff [of s t]
  by (simp add: isIsomorphic_def pairs_map_def same_pattern_def)

lemma isAnagrams: "isAnagram s t = isAnagram2 s t"
  by (metis isAnagram_def isAnagram2_def mset_sort properties_for_sort sorted_sort)

text \<open>
  the three programs for the longest common prefix return the longest common prefix of a non-empty
  vector of strings, the third one when no string contains a zero character; the three palindrome tests
  agree with the reversal of the lower-case alphanumeric text; \<open>isIsomorphic\<close> decides for strings of equal
  length whether an injective replacement of characters turns one into the other, and the two anagram
  tests agree.
\<close>

theorem string_programs:
  "(strs \<noteq> [] \<longrightarrow>
      longestCommonPrefix strs = Longest_common_prefix (set strs) \<and>
      longestCommonPrefix2 strs = Longest_common_prefix (set strs) \<and>
      ((\<forall>s\<in>set strs. CHR 0x00 \<notin> set s) \<longrightarrow> longestCommonPrefix3 strs = Some (Longest_common_prefix (set strs)))) \<and>
   isPalindrome2_str s = Some (rev (plain_text s) = plain_text s) \<and>
   isPalindrome_str s = (rev (plain_text s) = plain_text s) \<and> isPalindrome3_str s = isPalindrome_str s \<and>
   (length s = length t \<longrightarrow> isIsomorphic s t = Some (\<exists>f. inj_on f (set s) \<and> map f s = t)) \<and>
   isAnagram s t = isAnagram2 s t"
  using longestCommonPrefix_longest longestCommonPrefix2_longest longestCommonPrefix3_longest
    isPalindrome2_str_iff [of s] isPalindrome_str_iff [of s] isIsomorphic_iff [of s t] isAnagrams [of s t]
  by blast

lemma string_programs_witness:
  "longestCommonPrefix3 [''flow'', ''flight''] = Some (longestCommonPrefix [''flow'', ''flight'']) \<and>
   (\<exists>f. inj_on f (set ''egg'') \<and> map f ''egg'' = ''add'')"
proof
  show "longestCommonPrefix3 [''flow'', ''flight''] = Some (longestCommonPrefix [''flow'', ''flight''])"
    using string_programs [of "[''flow'', ''flight'']"] by simp
  have "isIsomorphic ''egg'' ''add'' = Some True" by code_simp
  then show "\<exists>f. inj_on f (set ''egg'') \<and> map f ''egg'' = ''add''" using string_programs [where s = "''egg''" and t = "''add''"] by simp
qed

end
