(* ===== verification/LcZigzag.thy ===== *)
theory LcZigzag
  imports Prelude
begin

text \<open>
  The zigzag conversion (\<^verbatim>\<open>hobbies/leetcode/algorithms/solution_6\<close>) and the count-and-say sequence
  (\<^verbatim>\<open>solution_38\<close>). Positions and counters are unbounded; \<open>None\<close> is an access outside a string or a
  loop that does not end.
\<close>

section \<open>The programs\<close>

partial_function (option) zigzag_row :: "string \<Rightarrow> nat \<Rightarrow> nat \<Rightarrow> nat \<Rightarrow> bool \<Rightarrow> string \<Rightarrow> string option" where
  "zigzag_row s numRows i j flag result =
     (if j < length s then
        let result' = result @ [s ! j] in
        if i = 1 \<or> i = numRows then zigzag_row s numRows i (j + 2 * (numRows - 1)) flag result'
        else zigzag_row s numRows i (j + 2 * (if flag then numRows - i else i - 1)) (\<not> flag) result'
      else Some result)"

function zigzag_rows :: "string \<Rightarrow> nat \<Rightarrow> nat \<Rightarrow> string \<Rightarrow> string option" where
  "zigzag_rows s numRows i result =
     (if i \<le> numRows then do {
        result' \<leftarrow> zigzag_row s numRows i (i - 1) True result;
        zigzag_rows s numRows (i + 1) result' }
      else Some result)"
  by pat_completeness auto
termination by (relation "measure (\<lambda>(s, n, i, r). Suc n - i)") auto

definition convert :: "string \<Rightarrow> int \<Rightarrow> string option" where
  "convert s numRows = (if numRows < 2 then Some s else zigzag_rows s (nat numRows) 1 [])"

function say_loop :: "string \<Rightarrow> int \<Rightarrow> int \<Rightarrow> int \<Rightarrow> string \<Rightarrow> (string \<times> int \<times> int) option" where
  "say_loop s i cnt prev oss =
     (if i < size_of s then do {
        x \<leftarrow> at s i;
        y \<leftarrow> at s prev;
        if x \<noteq> y then say_loop s (i + 1) 1 i (oss @ to_string cnt @ [y])
        else say_loop s (i + 1) (cnt + 1) prev oss }
      else Some (oss, cnt, prev))"
  by pat_completeness auto
termination by (relation "measure (\<lambda>(s, i, c, p, r). nat (size_of s - i))") auto

definition say_next :: "string \<Rightarrow> string option" where
  "say_next s = do {
     (oss, cnt, prev) \<leftarrow> say_loop s 1 1 0 [];
     y \<leftarrow> at s prev;
     Some (oss @ to_string cnt @ [y]) }"

function say_outer_loop :: "int \<Rightarrow> int \<Rightarrow> string \<Rightarrow> string option" where
  "say_outer_loop n i s = (if i \<le> n then do { s' \<leftarrow> say_next s; say_outer_loop n (i + 1) s' } else Some s)"
  by pat_completeness auto
termination by (relation "measure (\<lambda>(n, i, s). nat (n + 1 - i))") auto

definition countAndSay :: "int \<Rightarrow> string option" where
  "countAndSay n = (if n \<le> 1 then Some ''1'' else say_outer_loop n 2 ''1'')"

declare zigzag_rows.simps [simp del] say_loop.simps [simp del] say_outer_loop.simps [simp del] zigzag_row.simps [code]

lemma zigzag_examples:
  "convert ''PAYPALISHIRING'' 3 = Some ''PAHNAPLSIIGYIR''" "countAndSay 5 = Some ''111221''"
  by code_simp+

section \<open>Rows of the zigzag\<close>

definition zigzag_of :: "nat \<Rightarrow> nat \<Rightarrow> nat" where
  \<comment> \<open>the row of position \<open>p\<close>, counted from 0\<close>
  "zigzag_of numRows p = (let t = 2 * (numRows - 1); m = p mod t in min m (t - m))"

definition row_text :: "string \<Rightarrow> nat \<Rightarrow> nat \<Rightarrow> nat \<Rightarrow> string" where
  "row_text s numRows r j = map ((!) s) (filter (\<lambda>p. zigzag_of numRows p = r) [j..<length s])"

lemma row_text_next:
  assumes "zigzag_of n j = r" "j < length s" "j < j'" "\<And>p. j < p \<Longrightarrow> p < j' \<Longrightarrow> zigzag_of n p \<noteq> r"
  shows "row_text s n r j = s ! j # row_text s n r j'"
proof -
  have "[j..<length s] = j # [Suc j..<length s]" using assms(2) by (rule upt_conv_Cons)
  moreover have "filter (\<lambda>p. zigzag_of n p = r) [Suc j..<length s] = filter (\<lambda>p. zigzag_of n p = r) [j'..<length s]"
  proof (cases "j' \<le> length s")
    case True
    then have "[Suc j..<length s] = [Suc j..<j'] @ [j'..<length s]"
      using assms(3) upt_add_eq_append [of "Suc j" j' "length s - j'"] by simp
    moreover have "filter (\<lambda>p. zigzag_of n p = r) [Suc j..<j'] = []" using assms(4) by (auto simp: filter_empty_conv)
    ultimately show ?thesis by simp
  next
    case False
    then have "filter (\<lambda>p. zigzag_of n p = r) [Suc j..<length s] = []" using assms(4) by (auto simp: filter_empty_conv)
    then show ?thesis using False by simp
  qed
  ultimately show ?thesis using assms(1) by (simp add: row_text_def)
qed

lemma row_text_end: "length s \<le> j \<Longrightarrow> row_text s n r j = []"
  by (simp add: row_text_def)

lemma zigzag_of_eq: "t = 2 * (n - 1) \<Longrightarrow> m < t \<Longrightarrow> zigzag_of n (t * k + m) = min m (t - m)"
  by (simp add: zigzag_of_def Let_def)

lemma position_split:
  assumes "0 < (t::nat)" "t * k \<le> p" "p < t * k + t"
  obtains m where "p = t * k + m" "m < t"
  using that [of "p - t * k"] assms by simp

text \<open>From a position on the way down the next one of its row is on the way up, and conversely.\<close>

lemma down_gap:
  assumes t: "t = 2 * (n - 1)" "0 < t" and "t * k + r < p" "p < t * k + (t - r)"
  shows "zigzag_of n p \<noteq> r"
proof -
  have "t * k \<le> p" "p < t * k + t" using assms(3,4) by linarith+
  then obtain m where m: "p = t * k + m" "m < t" by (rule position_split [OF t(2)])
  then have "zigzag_of n p = min m (t - m)" using zigzag_of_eq [OF t(1)] by simp
  moreover have "r < m" "m < t - r" using m(1) assms(3,4) by linarith+
  ultimately show ?thesis by linarith
qed

lemma up_gap:
  assumes t: "t = 2 * (n - 1)" "0 < t" and "0 < r" "r < t" "t * k + (t - r) < p" "p < t * k + t + r"
  shows "zigzag_of n p \<noteq> r"
proof (cases "p < t * k + t")
  case True
  have "t * k \<le> p" using assms(5) by linarith
  then obtain m where m: "p = t * k + m" "m < t" using True by (rule position_split [OF t(2)])
  then have "zigzag_of n p = min m (t - m)" using zigzag_of_eq [OF t(1)] by simp
  moreover have "t - m < r" using m assms(4,5) by linarith
  ultimately show ?thesis by linarith
next
  case False
  then have "t * Suc k \<le> p" "p < t * Suc k + t" using assms(4,6) by simp_all
  then obtain m where m: "p = t * Suc k + m" "m < t" by (rule position_split [OF t(2)])
  then have "zigzag_of n p = min m (t - m)" using zigzag_of_eq [OF t(1), of m "Suc k"] by simp
  moreover have "m < r" using m(1) assms(6) by simp
  ultimately show ?thesis by linarith
qed

lemma zigzag_outer:
  assumes n: "2 \<le> n" "r = 0 \<or> r = n - 1" and t: "t = 2 * (n - 1)" and "j = t * k + r"
  shows "zigzag_row s n (Suc r) j flag result = Some (result @ row_text s n r j)"
  using assms(4)
proof (induction "length s - j" arbitrary: j k result rule: less_induct)
  case less
  show ?case
  proof (cases "j < length s")
    case False
    then show ?thesis by (subst zigzag_row.simps) (simp add: row_text_end)
  next
    case True
    have t0: "0 < t" "r < t" using n t by auto
    have j: "j + t = t * Suc k + r" using less.prems by simp
    have run: "zigzag_row s n (Suc r) j flag result = zigzag_row s n (Suc r) (j + t) flag (result @ [s ! j])"
      using True n unfolding t by (subst zigzag_row.simps) (auto simp: Let_def)
    have "min r (t - r) = r" using n t by auto
    then have z: "zigzag_of n j = r" unfolding less.prems using zigzag_of_eq [OF t t0(2)] by simp
    have "zigzag_of n p \<noteq> r" if "j < p" "p < j + t" for p
    proof (cases "r = 0")
      case True
      then show ?thesis using down_gap [OF t t0(1), of k r p] that less.prems by simp
    next
      case False
      then have "t - r = r" using n t by auto
      then show ?thesis using up_gap [OF t t0(1) _ t0(2), of k p] False that less.prems by simp
    qed
    then have "row_text s n r j = s ! j # row_text s n r (j + t)" using row_text_next [OF z True, of "j + t"] t0 by simp
    moreover have "length s - (j + t) < length s - j" using True t0 by simp
    ultimately show ?thesis using run less.hyps [OF _ j] by simp
  qed
qed

lemma zigzag_inner:
  assumes n: "0 < r" "r < n - 1" and t: "t = 2 * (n - 1)" and "j = t * k + (if flag then r else t - r)"
  shows "zigzag_row s n (Suc r) j flag result = Some (result @ row_text s n r j)"
  using assms(4)
proof (induction "length s - j" arbitrary: j k flag result rule: less_induct)
  case less
  show ?case
  proof (cases "j < length s")
    case False
    then show ?thesis by (subst zigzag_row.simps) (simp add: row_text_end)
  next
    case True
    have t0: "0 < t" "2 * r < t" "r < t" "t - r < t" using n t by auto
    let ?j = "j + 2 * (if flag then n - Suc r else r)"
    have run: "zigzag_row s n (Suc r) j flag result = zigzag_row s n (Suc r) ?j (\<not> flag) (result @ [s ! j])"
      using True n by (subst zigzag_row.simps) (auto simp: Let_def)
    have "min r (t - r) = r" "min (t - r) (t - (t - r)) = r" using t0 by auto
    then have z: "zigzag_of n j = r"
      unfolding less.prems using zigzag_of_eq [OF t t0(3), of k] zigzag_of_eq [OF t t0(4), of k] by (cases flag) simp_all
    have "2 * (n - Suc r) = t - 2 * r" using n t by simp
    then have j: "?j = t * (if flag then k else Suc k) + (if \<not> flag then r else t - r)" 
      using less.prems t0 by (cases flag) auto
    have gap: "zigzag_of n p \<noteq> r" if p: "j < p" "p < ?j" for p
    proof (cases flag)
      case True
      then show ?thesis using down_gap [OF t t0(1), of k r p] p j less.prems by simp
    next
      case False
      then show ?thesis using up_gap [OF t t0(1) n(1) t0(3), of k p] p j less.prems by simp
    qed
    have "j < ?j" using n by auto
    then have "row_text s n r j = s ! j # row_text s n r ?j" using row_text_next [OF z True _ gap] by blast
    moreover have "length s - ?j < length s - j" using True \<open>j < ?j\<close> by simp
    ultimately show ?thesis using run less.hyps [OF _ j] by simp
  qed
qed

lemma row_text_skip:
  assumes "\<And>p. p < j \<Longrightarrow> zigzag_of n p \<noteq> r"
  shows "row_text s n r j = row_text s n r 0"
proof (cases "j \<le> length s")
  case True
  then have "[0..<length s] = [0..<j] @ [j..<length s]" using upt_add_eq_append [of 0 j "length s - j"] by simp
  moreover have "filter (\<lambda>p. zigzag_of n p = r) [0..<j] = []" using assms by (auto simp: filter_empty_conv)
  ultimately show ?thesis by (simp add: row_text_def)
next
  case False
  then have "filter (\<lambda>p. zigzag_of n p = r) [0..<length s] = []" using assms by (auto simp: filter_empty_conv)
  then show ?thesis using False by (simp add: row_text_def)
qed

lemma zigzag_row_spec:
  assumes "2 \<le> n" "r < n"
  shows "zigzag_row s n (Suc r) r True result = Some (result @ row_text s n r 0)"
proof -
  have "zigzag_of n p \<noteq> r" if "p < r" for p
    using zigzag_of_eq [OF refl, of p n 0] that assms by simp
  then have "row_text s n r r = row_text s n r 0" by (rule row_text_skip)
  moreover have "zigzag_row s n (Suc r) r True result = Some (result @ row_text s n r r)"
  proof (cases "r = 0 \<or> r = n - 1")
    case True
    then show ?thesis using zigzag_outer [OF assms(1) True refl, of r 0] by simp
  next
    case False
    then have "0 < r" "r < n - 1" using assms by auto
    then show ?thesis using zigzag_inner [OF _ _ refl, of r n r 0 True] by simp
  qed
  ultimately show ?thesis by simp
qed

lemma zigzag_rows_spec:
  assumes "2 \<le> n" "1 \<le> i" "i \<le> n + 1"
  shows "zigzag_rows s n i result = Some (result @ concat (map (\<lambda>r. row_text s n r 0) [i - 1..<n]))"
  using assms(2,3)
proof (induction "n + 1 - i" arbitrary: i result)
  case 0
  then show ?case by (subst zigzag_rows.simps) simp
next
  case (Suc d)
  then have i: "i - 1 < n" "Suc (i - 1) = i" by auto
  have "zigzag_rows s n i result = zigzag_rows s n (i + 1) (result @ row_text s n (i - 1) 0)"
    using zigzag_row_spec [OF assms(1) i(1), of s result] i by (subst zigzag_rows.simps) simp
  also have "\<dots> = Some ((result @ row_text s n (i - 1) 0) @ concat (map (\<lambda>r. row_text s n r 0) [i..<n]))"
    using Suc.hyps(1) [of "i + 1"] Suc.hyps(2) Suc.prems by simp
  also have "[i - 1..<n] = (i - 1) # [i..<n]" using i by (simp add: upt_conv_Cons)
  then have "Some ((result @ row_text s n (i - 1) 0) @ concat (map (\<lambda>r. row_text s n r 0) [i..<n])) =
      Some (result @ concat (map (\<lambda>r. row_text s n r 0) [i - 1..<n]))" by simp
  finally show ?case .
qed

lemma zigzag_of_less: "2 \<le> n \<Longrightarrow> zigzag_of n p < n"
  by (auto simp: zigzag_of_def Let_def min_def)

lemma rows_mset:
  assumes "2 \<le> n"
  shows "mset (concat (map (\<lambda>r. row_text s n r 0) [0..<n])) = mset s"
proof -
  have part: "(\<Sum>r\<leftarrow>[0..<n]. mset (filter (\<lambda>p. f p = r) ps)) = mset ps" if "\<forall>p\<in>set ps. f p < n" for ps :: "nat list" and f
    using that
  proof (induction ps)
    case (Cons p ps)
    have "(\<Sum>r\<leftarrow>[0..<n]. mset (filter (\<lambda>x. f x = r) (p # ps))) =
        (\<Sum>r\<leftarrow>[0..<n]. (if r = f p then {#p#} else {#}) + mset (filter (\<lambda>x. f x = r) ps))"
      by (rule arg_cong [where f = sum_list]) auto
    also have "\<dots> = (\<Sum>r\<leftarrow>[0..<n]. (if r = f p then {#p#} else {#})) + (\<Sum>r\<leftarrow>[0..<n]. mset (filter (\<lambda>x. f x = r) ps))"
      by (rule sum_list_addf)
    also have "(\<Sum>r\<leftarrow>[0..<n]. (if r = f p then {#p#} else {#})) = {#p#}"
      using Cons.prems by (simp add: interv_sum_list_conv_sum_set_nat)
    finally show ?case using Cons by simp
  qed simp
  have "mset (concat (map (\<lambda>r. row_text s n r 0) [0..<n])) = (\<Sum>r\<leftarrow>[0..<n]. mset (row_text s n r 0))"
    by (simp add: mset_concat comp_def)
  also have "\<dots> = (\<Sum>r\<leftarrow>[0..<n]. image_mset ((!) s) (mset (filter (\<lambda>p. zigzag_of n p = r) [0..<length s])))"
    by (simp add: row_text_def)
  also have "\<dots> = image_mset ((!) s) (\<Sum>r\<leftarrow>[0..<n]. mset (filter (\<lambda>p. zigzag_of n p = r) [0..<length s]))"
  proof -
    have "(\<Sum>r\<leftarrow>rs. image_mset ((!) s) (f r)) = image_mset ((!) s) (\<Sum>r\<leftarrow>rs. f r)" for rs :: "nat list" and f
      by (induction rs) simp_all
    then show ?thesis .
  qed
  also have "\<dots> = image_mset ((!) s) (mset [0..<length s])"
    by (rule arg_cong [where f = "image_mset ((!) s)"], rule part) (simp add: zigzag_of_less [OF assms])
  also have "\<dots> = mset s" by (metis map_nth mset_map)
  finally show ?thesis .
qed

text \<open>
  The zigzag conversion returns the text unchanged for fewer than two rows; otherwise it returns
  the rows of the zigzag one after the other, from the top: in each row the characters of the positions
  whose zigzag row it is, in the order of the text, where the row of a position rises from 0 to
  \<open>numRows - 1\<close> and falls back with period \<open>2 * (numRows - 1)\<close>. The walk that alternates the two
  strides never leaves its row nor skips a position of it, and no character is lost or repeated.
\<close>

theorem zigzag_converted:
  "convert s numRows = Some (if numRows < 2 then s else concat (map (\<lambda>r. row_text s (nat numRows) r 0) [0..<nat numRows])) \<and>
   mset (the (convert s numRows)) = mset s"
proof (cases "numRows < 2")
  case False
  then have n: "2 \<le> nat numRows" by simp
  then have "convert s numRows = Some (concat (map (\<lambda>r. row_text s (nat numRows) r 0) [0..<nat numRows]))"
    using False zigzag_rows_spec [OF n, of 1] by (simp add: convert_def)
  then show ?thesis using False rows_mset [OF n] by simp
qed (simp add: convert_def)

section \<open>Counting and saying\<close>

fun run_lengths :: "string \<Rightarrow> (char \<times> nat) list" where
  \<comment> \<open>the maximal runs of equal characters\<close>
  "run_lengths [] = []"
| "run_lengths (c # cs) = (case run_lengths cs of [] \<Rightarrow> [(c, 1)]
     | (d, k) # rs \<Rightarrow> if c = d then (d, k + 1) # rs else (c, 1) # (d, k) # rs)"

definition say :: "string \<Rightarrow> string" where
  "say s = concat (map (\<lambda>(c, k). to_string (int k) @ [c]) (run_lengths s))"

lemma run_lengths_replicate:
  assumes "0 < k" "ys = [] \<or> hd ys \<noteq> c"
  shows "run_lengths (replicate k c @ ys) = (c, k) # run_lengths ys"
proof -
  have hd: "run_lengths ys = [] \<or> fst (hd (run_lengths ys)) = hd ys" for ys :: string
    by (induction ys rule: run_lengths.induct) (auto split: list.splits)
  have base: "run_lengths (c # ys) = (c, 1) # run_lengths ys"
    using assms(2) hd [of ys] by (cases ys) (auto split: list.splits)
  have "run_lengths (replicate (Suc j) c @ ys) = (c, Suc j) # run_lengths ys" for j
    by (induction j) (use base in simp_all)
  then show ?thesis using assms(1) by (cases k) simp_all
qed

lemma say_loop_spec:
  assumes "s = ds @ replicate k c @ ys" "0 < k"
  shows "\<exists>oss' cnt prev. say_loop s (size_of ds + int k) (int k) (size_of ds) oss = Some (oss', cnt, prev) \<and>
    0 \<le> prev \<and> prev < size_of s \<and>
    oss' @ to_string cnt @ [s ! nat prev] = oss @ say (replicate k c @ ys)"
  using assms
proof (induction ys arbitrary: ds k c oss)
  case Nil
  have "say (replicate k c) = to_string (int k) @ [c]"
    using run_lengths_replicate [of k "[]" c] Nil.prems(2) by (simp add: say_def)
  then show ?case using Nil.prems by (subst say_loop.simps) (simp add: nth_append)
next
  case (Cons y ys)
  have s1: "s = (ds @ replicate k c) @ y # ys" using Cons.prems(1) by simp
  obtain j where "k = Suc j" using Cons.prems(2) by (cases k) auto
  then have s2: "s = ds @ c # (replicate j c @ y # ys)" using Cons.prems(1) by simp
  have at: "at s (size_of ds + int k) = Some y" "at s (size_of ds) = Some c" "size_of ds + int k < size_of s"
    using at_mid [of "ds @ replicate k c" y ys] at_mid [of ds c "replicate j c @ y # ys"] s1 s2
    by (simp_all only: length_append length_replicate of_nat_add length_Cons)
  show ?case
  proof (cases "y = c")
    case True
    have s: "s = ds @ replicate (Suc k) c @ ys" "0 < Suc k"
      using Cons.prems True by (simp_all add: replicate_app_Cons_same)
    have eq: "replicate (Suc k) c @ ys = replicate k c @ y # ys" using True by (simp add: replicate_app_Cons_same)
    have "say_loop s (size_of ds + int k) (int k) (size_of ds) oss = say_loop s (size_of ds + int (Suc k)) (int (Suc k)) (size_of ds) oss"
      using at True by (subst say_loop.simps) (simp add: ac_simps)
    then show ?thesis using Cons.IH [OF s] unfolding eq by simp
  next
    case False
    let ?ds = "ds @ replicate k c"
    have s: "s = ?ds @ replicate 1 y @ ys" using Cons.prems by simp
    have "run_lengths (replicate k c @ y # ys) = (c, k) # run_lengths (y # ys)"
      using run_lengths_replicate [OF Cons.prems(2), of "y # ys"] False by simp
    then have say: "say (replicate k c @ y # ys) = to_string (int k) @ [c] @ say (replicate 1 y @ ys)"
      unfolding say_def by simp
    have "say_loop s (size_of ds + int k) (int k) (size_of ds) oss =
        say_loop s (size_of ?ds + int 1) (int 1) (size_of ?ds) (oss @ to_string (int k) @ [c])"
      using at False by (subst say_loop.simps) (simp add: ac_simps)
    then show ?thesis using Cons.IH [OF s, of "oss @ to_string (int k) @ [c]"] unfolding say by simp
  qed
qed

lemma say_next_spec: "s \<noteq> [] \<Longrightarrow> say_next s = Some (say s)"
proof -
  assume "s \<noteq> []"
  then obtain c cs where s: "s = [] @ replicate 1 c @ cs" by (cases s) auto
  from say_loop_spec [OF this, of "[]"] obtain oss cnt prev where
    "say_loop s 1 1 0 [] = Some (oss, cnt, prev)" "0 \<le> prev" "prev < size_of s" "oss @ to_string cnt @ [s ! nat prev] = say s"
    unfolding s by auto
  then show ?thesis by (simp add: say_next_def)
qed

lemma say_nonempty: "s \<noteq> [] \<Longrightarrow> say s \<noteq> []"
  by (cases s) (auto simp: say_def split: list.splits)

lemma say_outer_loop_spec: "s \<noteq> [] \<Longrightarrow> say_outer_loop n i s = Some ((say ^^ nat (n + 1 - i)) s)"
proof (induction n i s rule: say_outer_loop.induct)
  case (1 n i s)
  show ?case
  proof (cases "i \<le> n")
    case True
    then have "nat (n + 1 - i) = Suc (nat (n + 1 - (i + 1)))" by simp
    then show ?thesis using 1 True say_next_spec [OF "1.prems"] say_nonempty [OF "1.prems"]
      by (subst say_outer_loop.simps) (simp add: funpow_swap1)
  qed (simp add: say_outer_loop.simps)
qed

text \<open>
  The count-and-say program returns, for every \<open>n\<close>, the text obtained from \<open>1\<close> by reading it
  aloud \<open>n - 1\<close> times: each maximal run of equal characters becomes its length, in decimal, followed by the
  character. The loops access no position outside the text.
\<close>

theorem counted_and_said: "countAndSay n = Some ((say ^^ nat (n - 1)) ''1'')"
  by (simp add: countAndSay_def say_outer_loop_spec)

end
