(* ===== verification/LcCalc.thy ===== *)
theory LcCalc
  imports LcVersions LcStrings
begin

text \<open>
  The two calculators of \<^verbatim>\<open>hobbies/leetcode/algorithms/solution_224\<close>: a recursive-descent parser that
  moves a position through the text, and a single pass with a stack of results and a stack of
  signs. Results are \<^verbatim>\<open>int\<close>: an overflow is \<open>Undef\<close>, as is a read behind the terminating NUL or the
  top of an empty stack; \<open>Abort\<close> is a failed \<^verbatim>\<open>assert\<close> and \<open>Throw\<close> what \<^verbatim>\<open>std::stol\<close> throws. The file
  \<^verbatim>\<open>solution_227\<close> repeats both.
\<close>

section \<open>The recursive descent\<close>

datatype stol_error = Out_of_range

fun obind :: "('e, 'a) outcome \<Rightarrow> ('a \<Rightarrow> ('e, 'b) outcome) \<Rightarrow> ('e, 'b) outcome" where
  "obind (Val a) f = f a"
| "obind (Throw e) f = Throw e"
| "obind Abort f = Abort"
| "obind Undef f = Undef"

lemma obind_cong [fundef_cong]:
  "m = m' \<Longrightarrow> (\<And>a. m' = Val a \<Longrightarrow> f a = f' a) \<Longrightarrow> obind m f = obind m' f'"
  by (cases m') simp_all

lemma obind_eq_Val: "obind m f = Val b \<longleftrightarrow> (\<exists>a. m = Val a \<and> f a = Val b)"
  by (cases m) simp_all

definition int_value :: "int \<Rightarrow> (stol_error, int) outcome" where
  \<comment> \<open>the result of an arithmetic operation on \<^verbatim>\<open>int\<close>\<close>
  "int_value x = (if fits_int x then Val x else Undef)"

definition stol :: "string \<Rightarrow> (stol_error, int \<times> nat) outcome" where
  \<comment> \<open>\<^verbatim>\<open>std::stol\<close> of a text that begins with a digit, cut to \<^verbatim>\<open>int\<close> by the caller, and the number of digits\<close>
  "stol s = (let ds = takeWhile digit_char s; v = decimal_of ds in
     if v < 2 ^ 63 then Val (signed_take_bit 31 v, length ds) else Throw Out_of_range)"

type_synonym parsed = "(stol_error, int \<times> nat) outcome"

function prim :: "string \<Rightarrow> nat \<Rightarrow> parsed"
  and prim_loop :: "string \<Rightarrow> nat \<Rightarrow> parsed"
  and expr :: "string \<Rightarrow> nat \<Rightarrow> parsed"
  and expr_loop :: "string \<Rightarrow> nat \<Rightarrow> int \<Rightarrow> parsed" where
  "prim s pos = (if pos < length s then prim_loop s pos else Abort)"
| "prim_loop s pos =
     (if pos < length s then
        if digit_char (s ! pos) then obind (stol (drop pos s)) (\<lambda>(v, idx). Val (v, pos + idx))
        else if s ! pos = CHR ''-'' then
          obind (prim s (pos + 1)) (\<lambda>(v, pos'). obind (int_value (- v)) (\<lambda>r. Val (r, pos')))
        else if s ! pos = CHR ''('' then
          obind (expr s (pos + 1)) (\<lambda>(v, pos').
            case char_or_nul s pos' of
              None \<Rightarrow> Undef
            | Some c \<Rightarrow> if c = CHR '')'' then Val (v, pos' + 1) else Abort)
        else prim_loop s (pos + 1)
      else Val (0, pos))"
| "expr s pos =
     (if pos \<ge> length s then Val (0, pos)
      else obind (prim s pos) (\<lambda>(v, pos'). expr_loop s pos' v))"
| "expr_loop s pos result =
     (case char_or_nul s pos of
        None \<Rightarrow> Undef
      | Some c \<Rightarrow>
          if c = CHR ''+'' then
            obind (prim s (pos + 1)) (\<lambda>(v, pos'). obind (int_value (result + v)) (\<lambda>r. expr_loop s pos' r))
          else if c = CHR ''-'' then
            obind (prim s (pos + 1)) (\<lambda>(v, pos'). obind (int_value (result - v)) (\<lambda>r. expr_loop s pos' r))
          else if c = CHR '' '' then expr_loop s (pos + 1) result
          else Val (result, pos))"
  by pat_completeness auto

lemma takeWhile_bound: "length (takeWhile p xs) \<le> length xs"
  by (rule length_takeWhile_le)

text \<open>No call moves the position back: needed for the termination of the four functions.\<close>

lemma position_grows:
  "prim_prim_loop_expr_expr_loop_dom (Inl (Inl (s, pos))) \<Longrightarrow> prim s pos = Val (v, q) \<Longrightarrow> pos \<le> q"
  "prim_prim_loop_expr_expr_loop_dom (Inl (Inr (s, pos))) \<Longrightarrow> prim_loop s pos = Val (v, q) \<Longrightarrow> pos \<le> q"
  "prim_prim_loop_expr_expr_loop_dom (Inr (Inl (s, pos))) \<Longrightarrow> expr s pos = Val (v, q) \<Longrightarrow> pos \<le> q"
  "prim_prim_loop_expr_expr_loop_dom (Inr (Inr (s, pos, r))) \<Longrightarrow> expr_loop s pos r = Val (v, q) \<Longrightarrow> pos \<le> q"
proof (induction s pos and s pos and s pos and s pos r arbitrary: v q and v q and v q and v q
    rule: prim_prim_loop_expr_expr_loop.pinduct)
  case (1 s pos)
  then show ?case by (simp add: prim.psimps split: if_splits)
next
  case (2 s pos)
  show ?case
  proof (cases "pos < length s")
    case False
    then show ?thesis using 2 by (simp add: prim_loop.psimps)
  next
    case True
    consider (digit) "digit_char (s ! pos)" | (minus) "\<not> digit_char (s ! pos)" "s ! pos = CHR ''-''"
      | (paren) "\<not> digit_char (s ! pos)" "s ! pos \<noteq> CHR ''-''" "s ! pos = CHR ''(''"
      | (skip) "\<not> digit_char (s ! pos)" "s ! pos \<noteq> CHR ''-''" "s ! pos \<noteq> CHR ''(''"
      by blast
    then show ?thesis
    proof cases
      case digit
      then show ?thesis using 2 True by (auto simp: prim_loop.psimps obind_eq_Val)
    next
      case minus
      then obtain u q' where "prim s (pos + 1) = Val (u, q')" "q' = q"
        using 2 True by (auto simp: prim_loop.psimps obind_eq_Val)
      then show ?thesis using "2.IH"(1) [OF True minus] by fastforce
    next
      case paren
      then obtain u q' where "expr s (pos + 1) = Val (u, q')" "q = q' + 1"
        using 2 True by (auto simp: prim_loop.psimps obind_eq_Val split: option.splits if_splits)
      then show ?thesis using "2.IH"(2) [OF True paren] by fastforce
    next
      case skip
      then have "prim_loop s (pos + 1) = Val (v, q)" using 2 True by (simp add: prim_loop.psimps)
      then show ?thesis using "2.IH"(3) [OF True skip] by fastforce
    qed
  qed
next
  case (3 s pos)
  then show ?case by (fastforce simp: expr.psimps obind_eq_Val split: if_splits prod.splits)
next
  case (4 s pos r)
  obtain c where c: "char_or_nul s pos = Some c"
    using 4 by (cases "char_or_nul s pos") (auto simp: expr_loop.psimps)
  consider (plus) "c = CHR ''+''" | (minus) "c = CHR ''-''" | (blank) "c = CHR '' ''"
    | (other) "c \<noteq> CHR ''+''" "c \<noteq> CHR ''-''" "c \<noteq> CHR '' ''" by blast
  then show ?case
  proof cases
    case plus
    then obtain u q' w where "prim s (pos + 1) = Val (u, q')" "int_value (r + u) = Val w" "expr_loop s q' w = Val (v, q)"
      using "4.prems" "4.hyps" c by (auto simp: expr_loop.psimps obind_eq_Val simp del: One_nat_def)
    then show ?thesis using "4.IH"(1) [OF c plus] "4.IH"(2) [OF c plus _ refl] by fastforce
  next
    case minus
    then obtain u q' w where "prim s (pos + 1) = Val (u, q')" "int_value (r - u) = Val w" "expr_loop s q' w = Val (v, q)"
      using "4.prems" "4.hyps" c by (auto simp: expr_loop.psimps obind_eq_Val simp del: One_nat_def)
    then show ?thesis using "4.IH"(3) [OF c _ minus] "4.IH"(4) [OF c _ minus _ refl] minus by fastforce
  next
    case blank
    then have "expr_loop s (pos + 1) r = Val (v, q)" using 4 c by (simp add: expr_loop.psimps)
    then show ?thesis using "4.IH"(5) [OF c _ _ blank] blank by fastforce
  next
    case other
    then show ?thesis using 4 c by (simp add: expr_loop.psimps)
  qed
qed

termination prim
  by (relation "measure (\<lambda>x. case x of
      Inl (Inl (s, p)) \<Rightarrow> 4 * (Suc (length s) - p) + 2 | Inl (Inr (s, p)) \<Rightarrow> 4 * (Suc (length s) - p) + 1
    | Inr (Inl (s, p)) \<Rightarrow> 4 * (Suc (length s) - p) + 3 | Inr (Inr (s, p, r)) \<Rightarrow> 4 * (Suc (length s) - p))")
    (auto dest!: position_grows simp: char_or_nul_def split: if_splits)

definition calculate :: "string \<Rightarrow> (stol_error, int) outcome" where
  "calculate s = obind (expr s 0) (\<lambda>(v, pos). Val v)"

declare prim.simps [simp del] prim_loop.simps [simp del] expr.simps [simp del] expr_loop.simps [simp del]

section \<open>The pass with two stacks\<close>

record calc_state =
  prims :: "int list"
  ops :: "int list"
  result :: int
  sign :: int
  num :: int

definition calc_flush :: "calc_state \<Rightarrow> (stol_error, calc_state) outcome" where
  "calc_flush st = obind (int_value (sign st * num st)) (\<lambda>p. obind (int_value (result st + p)) (\<lambda>r.
     Val (st\<lparr>result := r, num := 0\<rparr>)))"

definition calc_char :: "char \<Rightarrow> calc_state \<Rightarrow> (stol_error, calc_state) outcome" where
  "calc_char c st =
     (if digit_char c then
        obind (int_value (num st * 10)) (\<lambda>t. obind (int_value (t + (of_char c - 48))) (\<lambda>n. Val (st\<lparr>num := n\<rparr>)))
      else obind (calc_flush st) (\<lambda>st.
        let st = (if c = CHR ''+'' then st\<lparr>sign := 1\<rparr> else st);
            st = (if c = CHR ''-'' then st\<lparr>sign := - 1\<rparr> else st);
            st = (if c = CHR ''('' then
                    st\<lparr>prims := result st # prims st, ops := sign st # ops st, result := 0, sign := 1\<rparr> else st) in
        if c = CHR '')'' then
          (case (prims st, ops st) of
             (p # ps, q # qs) \<Rightarrow>
               obind (int_value (q * result st)) (\<lambda>t. obind (int_value (p + t)) (\<lambda>r.
                 Val (st\<lparr>result := r, prims := ps, ops := qs\<rparr>)))
           | _ \<Rightarrow> Undef)
        else Val st))"

fun calc_pass :: "string \<Rightarrow> calc_state \<Rightarrow> (stol_error, calc_state) outcome" where
  "calc_pass [] st = Val st"
| "calc_pass (c # cs) st = obind (calc_char c st) (calc_pass cs)"

definition calculate2 :: "string \<Rightarrow> (stol_error, int) outcome" where
  "calculate2 s =
     obind (calc_pass s \<lparr>prims = [], ops = [], result = 0, sign = 1, num = 0\<rparr>) (\<lambda>st.
       obind (int_value (sign st * num st)) (\<lambda>p. int_value (result st + p)))"

lemma calculator_examples:
  "calculate ''(1 + 2) + 3 - ((2 + 4) - 8)'' = Val 8" "calculate2 ''(1 + 2) + 3 - ((2 + 4) - 8)'' = Val 8"
  "calculate ''2--1'' = Val 3" "calculate2 ''2--1'' = Val 1" "calculate ''()1'' = Abort" "calculate2 '')'' = Undef"
  by code_simp+

section \<open>Expressions and their texts\<close>

datatype calc_term = Number string | Parens calc_expr
  and calc_expr = Single calc_term | Negated calc_term | Sum_of calc_expr calc_term | Difference_of calc_expr calc_term

primrec term_value :: "calc_term \<Rightarrow> int" and expr_value :: "calc_expr \<Rightarrow> int" where
  "term_value (Number ds) = decimal_of ds"
| "term_value (Parens e) = expr_value e"
| "expr_value (Single t) = term_value t"
| "expr_value (Negated t) = - term_value t"
| "expr_value (Sum_of e t) = expr_value e + term_value t"
| "expr_value (Difference_of e t) = expr_value e - term_value t"

definition spans :: "int \<Rightarrow> bool" where
  \<comment> \<open>an \<^verbatim>\<open>int\<close> whose negation is one\<close>
  "spans v \<longleftrightarrow> \<bar>v\<bar> \<le> INT_MAX"

primrec term_fits :: "calc_term \<Rightarrow> bool" and expr_fits :: "calc_expr \<Rightarrow> bool" where
  "term_fits (Number ds) \<longleftrightarrow> spans (decimal_of ds)"
| "term_fits (Parens e) \<longleftrightarrow> expr_fits e"
| "expr_fits (Single t) \<longleftrightarrow> term_fits t"
| "expr_fits (Negated t) \<longleftrightarrow> term_fits t"
| "expr_fits (Sum_of e t) \<longleftrightarrow> expr_fits e \<and> term_fits t \<and> spans (expr_value e + term_value t)"
| "expr_fits (Difference_of e t) \<longleftrightarrow> expr_fits e \<and> term_fits t \<and> spans (expr_value e - term_value t)"

abbreviation blanks :: "nat \<Rightarrow> string" where
  "blanks n \<equiv> replicate n CHR '' ''"

inductive term_text :: "calc_term \<Rightarrow> string \<Rightarrow> bool" and expr_text :: "calc_expr \<Rightarrow> string \<Rightarrow> bool" where
  number: "ds \<noteq> [] \<Longrightarrow> \<forall>c\<in>set ds. digit_char c \<Longrightarrow> term_text (Number ds) ds"
| parens: "expr_text e u \<Longrightarrow> term_text (Parens e) (CHR ''('' # u @ [CHR '')''])"
| single: "term_text t w \<Longrightarrow> expr_text (Single t) (blanks a @ w @ blanks b)"
| negated: "term_text t w \<Longrightarrow> expr_text (Negated t) (blanks a @ CHR ''-'' # blanks b @ w @ blanks c)"
| sum: "expr_text e u \<Longrightarrow> term_text t w \<Longrightarrow> expr_text (Sum_of e t) (u @ CHR ''+'' # blanks a @ w @ blanks b)"
| difference: "expr_text e u \<Longrightarrow> term_text t w \<Longrightarrow>
    expr_text (Difference_of e t) (u @ CHR ''-'' # blanks a @ w @ blanks b)"

lemma values_span: "term_fits t \<Longrightarrow> spans (term_value t)" "expr_fits e \<Longrightarrow> spans (expr_value e)"
  by (induction t and e rule: calc_term.induct calc_expr.induct) (simp_all add: spans_def)

lemma spans_int_value: "spans v \<Longrightarrow> int_value v = Val v" "spans v \<Longrightarrow> int_value (- v) = Val (- v)"
  by (auto simp: int_value_def fits_int_def spans_def)

lemma no_digits [simp]:
  "\<not> digit_char CHR '' ''" "\<not> digit_char CHR ''+''" "\<not> digit_char CHR ''-''" "\<not> digit_char CHR ''(''" "\<not> digit_char CHR '')''"
  by (simp_all add: digit_char_def)

definition stops :: "string \<Rightarrow> bool" where
  "stops rest \<longleftrightarrow> rest = [] \<or> \<not> digit_char (hd rest)"

lemma stops_blanks: "stops rest \<Longrightarrow> stops (blanks b @ rest)"
  by (cases b) (simp_all add: stops_def)

lemma stops_Cons [simp]: "stops (c # cs) \<longleftrightarrow> \<not> digit_char c"
  by (simp add: stops_def)

section \<open>The parser on a text\<close>

lemma char_mid: "s = ps @ c # rest \<Longrightarrow> char_or_nul s (length ps) = Some c"
  by (simp add: char_or_nul_def)

lemma prim_loop_blanks:
  "s = ps @ blanks a @ rest \<Longrightarrow> prim_loop s (length ps) = prim_loop s (length ps + a)"
proof (induction a arbitrary: ps)
  case (Suc a)
  then have s: "s = (ps @ '' '') @ blanks a @ rest" "s ! length ps = CHR '' ''" "length ps < length s" by simp_all
  then have "prim_loop s (length ps) = prim_loop s (length (ps @ '' ''))" by (subst prim_loop.simps) simp
  then show ?case using Suc.IH [OF s(1)] by simp
qed simp

lemma expr_loop_blanks:
  "s = ps @ blanks a @ rest \<Longrightarrow> expr_loop s (length ps) r = expr_loop s (length ps + a) r"
proof (induction a arbitrary: ps)
  case (Suc a)
  then have s: "s = (ps @ '' '') @ blanks a @ rest" by simp
  have "char_or_nul s (length ps) = Some CHR '' ''" using Suc.prems by (simp add: char_or_nul_def)
  then have "expr_loop s (length ps) r = expr_loop s (length (ps @ '' '')) r" by (subst expr_loop.simps) simp
  then show ?case using Suc.IH [OF s] by simp
qed simp

lemma stol_digits:
  assumes "\<forall>c\<in>set ds. digit_char c" "stops rest" "spans (decimal_of ds)"
  shows "stol (ds @ rest) = Val (decimal_of ds, length ds)"
proof -
  have "takeWhile digit_char (ds @ rest) = ds"
    using assms(1,2) by (cases rest) (simp_all add: takeWhile_append2 stops_def)
  moreover have "signed_take_bit 31 (decimal_of ds) = decimal_of ds"
    using assms(3) by (intro signed_take_bit_int_eq_self) (auto simp: spans_def)
  ultimately show ?thesis using assms(3) by (simp add: stol_def Let_def spans_def)
qed

lemma prim_blanks:
  assumes "s = ps @ blanks a @ w @ rest" "w \<noteq> []"
  shows "prim s (length ps) = prim_loop s (length ps + a)"
  using assms prim_loop_blanks [of s ps a "w @ rest"] by (simp add: prim.simps)

lemma text_nonempty: "term_text t w \<Longrightarrow> w \<noteq> []" "expr_text e u \<Longrightarrow> True"
  by (induction rule: term_text_expr_text.inducts) simp_all

lemma operand_read:
  assumes w: "w \<noteq> []" and read: "\<And>s ps rest. s = ps @ w @ rest \<Longrightarrow> stops rest \<Longrightarrow> prim_loop s (length ps) = Val (v, length ps + length w)"
    and s: "s = ps @ blanks a @ w @ blanks b @ rest" "stops rest" and q: "q = length (ps @ blanks a @ w)"
  shows "prim s (length ps) = Val (v, q)" "expr_loop s q r = expr_loop s (q + b) r"
proof -
  have s': "s = (ps @ blanks a) @ w @ (blanks b @ rest)" "s = (ps @ blanks a @ w) @ blanks b @ rest" using s by simp_all
  show "prim s (length ps) = Val (v, q)"
    using prim_blanks [OF s(1) w] read [OF s'(1) stops_blanks [OF s(2)]] q by (simp add: ac_simps)
  show "expr_loop s q r = expr_loop s (q + b) r"
    using expr_loop_blanks [OF s'(2)] q by simp
qed

lemma parser_reads:
  "term_text t w \<Longrightarrow> (\<And>s ps rest. term_fits t \<Longrightarrow> s = ps @ w @ rest \<Longrightarrow> stops rest \<Longrightarrow>
     prim_loop s (length ps) = Val (term_value t, length ps + length w))"
  "expr_text e u \<Longrightarrow> (\<And>s ps rest. expr_fits e \<Longrightarrow> s = ps @ u @ rest \<Longrightarrow> stops rest \<Longrightarrow>
     expr s (length ps) = expr_loop s (length ps + length u) (expr_value e))"
proof (induction rule: term_text_expr_text.inducts)
  case (number ds)
  have "digit_char (s ! length ps)" "length ps < length s" using number by (cases ds; simp)+
  then show ?case using number stol_digits [OF number.hyps(2)] by (subst prim_loop.simps) simp
next
  case (parens e u)
  have s: "s = (ps @ ''('') @ u @ CHR '')'' # rest" "s ! length ps = CHR ''(''" "length ps < length s"
    using parens.prems by simp_all
  let ?q = "length ps + 1 + length u"
  have c: "char_or_nul s ?q = Some CHR '')''"
    using char_mid [of s "ps @ CHR ''('' # u" "CHR '')''" rest] s by simp
  have "expr s (length ps + 1) = expr_loop s ?q (expr_value e)"
    using parens.IH [OF _ s(1)] parens.prems by simp
  also have "\<dots> = Val (expr_value e, ?q)" using c by (subst expr_loop.simps) simp
  finally have run: "expr s (length ps + 1) = Val (expr_value e, ?q)" .
  have "prim_loop s (length ps) = Val (expr_value e, ?q + 1)"
    using s(2,3) c run by (subst prim_loop.simps) simp
  then show ?case by simp
next
  case (single t w a b)
  let ?q = "length (ps @ blanks a @ w)"
  have s: "s = ps @ blanks a @ w @ blanks b @ rest" using single.prems by simp
  have w: "w \<noteq> []" using text_nonempty single.hyps by blast
  have read: "\<And>s ps rest. s = ps @ w @ rest \<Longrightarrow> stops rest \<Longrightarrow> prim_loop s (length ps) = Val (term_value t, length ps + length w)"
    using single.IH single.prems(1) by simp
  note operand = operand_read [OF w read s single.prems(3) refl]
  have "expr s (length ps) = expr_loop s ?q (term_value t)" using operand(1) s w by (subst expr.simps) simp
  then show ?case using operand(2) [where r = "term_value t"] by (simp add: ac_simps)
next
  case (negated t w a b c)
  let ?ps = "ps @ blanks a @ ''-''" let ?q = "length (?ps @ blanks b @ w)"
  have s: "s = ?ps @ blanks b @ w @ blanks c @ rest" using negated.prems by simp
  have w: "w \<noteq> []" using text_nonempty negated.hyps by blast
  have read: "\<And>s ps rest. s = ps @ w @ rest \<Longrightarrow> stops rest \<Longrightarrow> prim_loop s (length ps) = Val (term_value t, length ps + length w)"
    using negated.IH negated.prems(1) by simp
  note operand = operand_read [OF w read s negated.prems(3) refl]
  have fits: "int_value (- term_value t) = Val (- term_value t)"
    using negated.prems(1) values_span(1) spans_int_value(2) by simp
  have at: "s ! (length ps + a) = CHR ''-''" "length ps + a < length s"
    using s nth_append_length [of "ps @ blanks a" "CHR ''-''" "blanks b @ w @ blanks c @ rest"] by simp_all
  have "prim s (length ps) = prim_loop s (length ps + a)"
    using prim_blanks [of s ps a "CHR ''-'' # blanks b @ w @ blanks c" rest] s by simp
  also have "\<dots> = Val (- term_value t, ?q)"
    using at operand(1) fits by (subst prim_loop.simps) simp
  finally have "expr s (length ps) = expr_loop s ?q (- term_value t)"
    using s by (subst expr.simps) simp
  then show ?case using operand(2) [where r = "- term_value t"] by (simp add: ac_simps)
next
  case (sum e u t w a b)
  let ?ps = "ps @ u @ ''+''" let ?q = "length (?ps @ blanks a @ w)"
  have s: "s = ?ps @ blanks a @ w @ blanks b @ rest" "s = ps @ u @ (CHR ''+'' # blanks a @ w @ blanks b @ rest)"
    using sum.prems by simp_all
  have w: "w \<noteq> []" using text_nonempty sum.hyps by blast
  have read: "\<And>s ps rest. s = ps @ w @ rest \<Longrightarrow> stops rest \<Longrightarrow> prim_loop s (length ps) = Val (term_value t, length ps + length w)"
    using sum.IH(2) sum.prems(1) by simp
  note operand = operand_read [OF w read s(1) sum.prems(3) refl]
  have c: "char_or_nul s (length ps + length u) = Some CHR ''+''"
    using char_mid [of s "ps @ u" "CHR ''+''" "blanks a @ w @ blanks b @ rest"] s(2) by simp
  have fits: "int_value (expr_value e + term_value t) = Val (expr_value e + term_value t)"
    using sum.prems(1) spans_int_value(1) by simp
  have "expr s (length ps) = expr_loop s (length ps + length u) (expr_value e)"
    using sum.IH(1) [OF _ s(2)] sum.prems(1) by simp
  also have "\<dots> = expr_loop s ?q (expr_value e + term_value t)"
    using c operand(1) fits by (subst expr_loop.simps) simp
  finally show ?case using operand(2) [where r = "expr_value e + term_value t"] by (simp add: ac_simps)
next
  case (difference e u t w a b)
  let ?ps = "ps @ u @ ''-''" let ?q = "length (?ps @ blanks a @ w)"
  have s: "s = ?ps @ blanks a @ w @ blanks b @ rest" "s = ps @ u @ (CHR ''-'' # blanks a @ w @ blanks b @ rest)"
    using difference.prems by simp_all
  have w: "w \<noteq> []" using text_nonempty difference.hyps by blast
  have read: "\<And>s ps rest. s = ps @ w @ rest \<Longrightarrow> stops rest \<Longrightarrow> prim_loop s (length ps) = Val (term_value t, length ps + length w)"
    using difference.IH(2) difference.prems(1) by simp
  note operand = operand_read [OF w read s(1) difference.prems(3) refl]
  have c: "char_or_nul s (length ps + length u) = Some CHR ''-''"
    using char_mid [of s "ps @ u" "CHR ''-''" "blanks a @ w @ blanks b @ rest"] s(2) by simp
  have fits: "int_value (expr_value e - term_value t) = Val (expr_value e - term_value t)"
    using difference.prems(1) spans_int_value(1) by simp
  have "expr s (length ps) = expr_loop s (length ps + length u) (expr_value e)"
    using difference.IH(1) [OF _ s(2)] difference.prems(1) by simp
  also have "\<dots> = expr_loop s ?q (expr_value e - term_value t)"
    using c operand(1) fits by (subst expr_loop.simps) simp
  finally show ?case using operand(2) [where r = "expr_value e - term_value t"] by (simp add: ac_simps)
qed

lemma calculate_value:
  assumes "expr_text e u" "expr_fits e"
  shows "expr u 0 = Val (expr_value e, length u)" "calculate u = Val (expr_value e)"
proof -
  have "expr u 0 = expr_loop u (length u) (expr_value e)"
    using parser_reads(2) [OF assms, of u "[]" "[]"] by (simp add: stops_def)
  also have "\<dots> = Val (expr_value e, length u)" by (subst expr_loop.simps) (simp add: char_or_nul_def)
  finally show "expr u 0 = Val (expr_value e, length u)" .
  then show "calculate u = Val (expr_value e)" by (simp add: calculate_def)
qed

section \<open>The pass on a text\<close>

lemma calc_pass_append: "calc_pass (a @ b) st = obind (calc_pass a st) (calc_pass b)"
proof (induction a arbitrary: st)
  case (Cons c a)
  then show ?case by (cases "calc_char c st") simp_all
qed simp

definition pending :: "calc_state \<Rightarrow> int \<Rightarrow> bool" where
  \<comment> \<open>the number read last is not yet added\<close>
  "pending st v \<longleftrightarrow> (sign st = 1 \<or> sign st = - 1) \<and> spans (result st) \<and> spans (num st) \<and> result st + sign st * num st = v"

lemma flush_pending:
  assumes "pending st v" "spans v"
  shows "calc_flush st = Val (st\<lparr>result := v, num := 0\<rparr>)"
proof -
  have "spans (sign st * num st)" using assms by (auto simp: pending_def spans_def)
  then show ?thesis using assms by (auto simp: calc_flush_def pending_def spans_int_value)
qed

definition same_stacks :: "calc_state \<Rightarrow> calc_state \<Rightarrow> bool" where
  "same_stacks st st' \<longleftrightarrow> prims st' = prims st \<and> ops st' = ops st"

lemma pass_blanks:
  "pending st v \<Longrightarrow> spans v \<Longrightarrow> \<exists>st'. calc_pass (blanks a) st = Val st' \<and> pending st' v \<and> same_stacks st st' \<and>
     (num st = 0 \<longrightarrow> st' = st)"
proof (induction a arbitrary: st)
  case (Suc a)
  let ?st = "st\<lparr>result := v, num := 0\<rparr>"
  have "pending ?st v" using Suc.prems by (auto simp: pending_def spans_def)
  then obtain st' where "calc_pass (blanks a) ?st = Val st'" "pending st' v" "same_stacks ?st st'" "st' = ?st"
    using Suc.IH [of ?st] Suc.prems(2) by auto
  moreover have "calc_char CHR '' '' st = Val ?st"
    using flush_pending [OF Suc.prems] by (simp add: calc_char_def)
  moreover have "?st = st" if "num st = 0" using that Suc.prems(1) by (simp add: pending_def)
  ultimately show ?case by (auto simp: same_stacks_def)
qed (simp add: same_stacks_def)

lemma pass_digits:
  "\<forall>c\<in>set (ds @ es). digit_char c \<Longrightarrow> spans (decimal_of (ds @ es)) \<Longrightarrow> num st = decimal_of ds \<Longrightarrow>
   calc_pass es st = Val (st\<lparr>num := decimal_of (ds @ es)\<rparr>)"
proof (induction es arbitrary: ds st)
  case (Cons c es)
  let ?n = "decimal_of (ds @ [c])"
  have d: "digit_char c" "0 \<le> decimal_of ds" "?n = decimal_of ds * 10 + (of_char c - 48)"
    using Cons.prems(1) decimal_of_nonneg [of ds] by (auto simp: decimal_of_snoc)
  have "?n \<le> decimal_of (ds @ c # es)" "0 \<le> ?n"
    using decimal_of_append [of es "ds @ [c]"] decimal_of_nonneg [of "ds @ [c]"] Cons.prems(1) by auto
  then have "spans ?n" "spans (decimal_of ds * 10)"
    using Cons.prems(2) d by (auto simp: spans_def digit_char_def)
  then have "calc_char c st = Val (st\<lparr>num := ?n\<rparr>)"
    using d Cons.prems(3) by (simp add: calc_char_def spans_int_value)
  then show ?case using Cons.IH [of "ds @ [c]" "st\<lparr>num := ?n\<rparr>"] Cons.prems by simp
qed simp

definition adds_up :: "string \<Rightarrow> int \<Rightarrow> bool" where
  \<comment> \<open>reading \<open>w\<close> adds \<open>v\<close> with the sign that stands before it\<close>
  "adds_up w v \<longleftrightarrow> (\<forall>st r. pending st r \<longrightarrow> num st = 0 \<longrightarrow> spans r \<longrightarrow> spans (r + sign st * v) \<longrightarrow>
     (\<exists>st'. calc_pass w st = Val st' \<and> pending st' (r + sign st * v) \<and> same_stacks st st'))"

lemma adds_up_blanks:
  assumes "adds_up w v"
  shows "adds_up (blanks a @ w @ blanks b) v"
  unfolding adds_up_def
proof (intro allI impI)
  fix st r
  assume st: "pending st r" "num st = 0" "spans r" "spans (r + sign st * v)"
  obtain st' where st': "calc_pass w st = Val st'" "pending st' (r + sign st * v)" "same_stacks st st'"
    using assms st by (auto simp: adds_up_def)
  obtain st'' where "calc_pass (blanks b) st' = Val st''" "pending st'' (r + sign st * v)" "same_stacks st' st''"
    using pass_blanks [OF st'(2) st(4)] by blast
  moreover have "calc_pass (blanks a) st = Val st" using pass_blanks [OF st(1,3)] st(2) by auto
  ultimately show "\<exists>st'. calc_pass (blanks a @ w @ blanks b) st = Val st' \<and> pending st' (r + sign st * v) \<and> same_stacks st st'"
    using st' by (simp add: calc_pass_append same_stacks_def)
qed

lemma adds_up_number:
  assumes "\<forall>c\<in>set ds. digit_char c" "spans (decimal_of ds)"
  shows "adds_up ds (decimal_of ds)"
  unfolding adds_up_def
proof (intro allI impI)
  fix st r
  assume st: "pending st r" "num st = 0"
  have "calc_pass ds st = Val (st\<lparr>num := decimal_of ds\<rparr>)"
    using pass_digits [of "[]" ds st] assms st(2) by (simp add: decimal_of_def)
  then show "\<exists>st'. calc_pass ds st = Val st' \<and> pending st' (r + sign st * decimal_of ds) \<and> same_stacks st st'"
    using st assms(2) by (auto simp: pending_def same_stacks_def)
qed

definition fresh :: "calc_state \<Rightarrow> bool" where
  "fresh st \<longleftrightarrow> result st = 0 \<and> sign st = 1 \<and> num st = 0"

definition computes :: "string \<Rightarrow> int \<Rightarrow> bool" where
  "computes u v \<longleftrightarrow> (\<forall>st. fresh st \<longrightarrow> (\<exists>st'. calc_pass u st = Val st' \<and> pending st' v \<and> same_stacks st st'))"

lemma fresh_pending: "fresh st \<Longrightarrow> pending st 0 \<and> num st = 0 \<and> sign st = 1"
  by (simp add: fresh_def pending_def spans_def)

lemma parens_add_up:
  assumes "computes u v" "spans v"
  shows "adds_up (CHR ''('' # u @ [CHR '')'']) v"
  unfolding adds_up_def
proof (intro allI impI)
  fix st r
  assume st: "pending st r" "num st = 0" "spans r" "spans (r + sign st * v)"
  let ?st1 = "st\<lparr>prims := r # prims st, ops := sign st # ops st, result := 0, sign := 1, num := 0\<rparr>"
  have sg: "sign st = 1 \<or> sign st = - 1" using st(1) by (simp add: pending_def)
  have opened: "calc_char CHR ''('' st = Val ?st1"
    using flush_pending [OF st(1,3)] st by (simp add: calc_char_def)
  have "fresh ?st1" by (simp add: fresh_def)
  then obtain st2 where st2: "calc_pass u ?st1 = Val st2" "pending st2 v" "same_stacks ?st1 st2"
    using assms(1) unfolding computes_def by blast
  let ?st3 = "st2\<lparr>result := r + sign st * v, num := 0, prims := prims st, ops := ops st\<rparr>"
  have "int_value (sign st * v) = Val (sign st * v)" "int_value (r + sign st * v) = Val (r + sign st * v)"
    using sg spans_int_value [OF assms(2)] spans_int_value(1) [OF st(4)] by auto
  then have "calc_char CHR '')'' st2 = Val ?st3"
    using flush_pending [OF st2(2) assms(2)] st2(3) by (simp add: calc_char_def same_stacks_def)
  then have "calc_pass (CHR ''('' # u @ [CHR '')'']) st = Val ?st3"
    using opened st2(1) by (simp add: calc_pass_append)
  moreover have "pending ?st3 (r + sign st * v)" using st2(2) st(4) by (simp add: pending_def spans_def)
  ultimately show "\<exists>st'. calc_pass (CHR ''('' # u @ [CHR '')'']) st = Val st' \<and> pending st' (r + sign st * v) \<and> same_stacks st st'"
    by (auto simp: same_stacks_def)
qed

lemma signed_operand:
  assumes "computes u x" "spans x" "adds_up w v" "c = CHR ''+'' \<and> sg = 1 \<or> c = CHR ''-'' \<and> sg = - 1" "spans (x + sg * v)"
  shows "computes (u @ c # w) (x + sg * v)"
  unfolding computes_def
proof (intro allI impI)
  fix st
  assume "fresh st"
  then obtain st1 where st1: "calc_pass u st = Val st1" "pending st1 x" "same_stacks st st1"
    using assms(1) by (auto simp: computes_def)
  let ?st2 = "st1\<lparr>result := x, num := 0, sign := sg\<rparr>"
  have "calc_char c st1 = Val ?st2"
    using flush_pending [OF st1(2) assms(2)] assms(4) by (auto simp: calc_char_def)
  moreover have "pending ?st2 x" using assms(2,4) by (auto simp: pending_def spans_def)
  then obtain st3 where "calc_pass w ?st2 = Val st3" "pending st3 (x + sg * v)" "same_stacks ?st2 st3"
    using assms(2,3,5) by (force simp: adds_up_def)
  ultimately show "\<exists>st'. calc_pass (u @ c # w) st = Val st' \<and> pending st' (x + sg * v) \<and> same_stacks st st'"
    using st1 by (simp add: calc_pass_append same_stacks_def)
qed

lemma blanks_compute: "computes (blanks a) 0"
  unfolding computes_def
proof (intro allI impI)
  fix st
  assume "fresh st"
  then show "\<exists>st'. calc_pass (blanks a) st = Val st' \<and> pending st' 0 \<and> same_stacks st st'"
    using pass_blanks [of st 0 a] by (auto simp: fresh_pending spans_def)
qed

lemma pass_reads:
  "term_text t w \<Longrightarrow> term_fits t \<Longrightarrow> adds_up w (term_value t)"
  "expr_text e u \<Longrightarrow> expr_fits e \<Longrightarrow> computes u (expr_value e)"
proof (induction rule: term_text_expr_text.inducts)
  case (number ds)
  then show ?case using adds_up_number by simp
next
  case (parens e u)
  then show ?case using parens_add_up values_span(2) [of e] by simp
next
  case (single t w a b)
  then have add: "adds_up (blanks a @ w @ blanks b) (term_value t)" using adds_up_blanks by simp
  have "spans (term_value t)" using values_span(1) [of t] single.prems by simp
  then show ?case
    using add fresh_pending unfolding computes_def adds_up_def by (fastforce simp: spans_def)
next
  case (negated t w a b c)
  have "spans (0 + - 1 * term_value t)" using values_span(1) [of t] negated.prems by (simp add: spans_def)
  then show ?case
    using signed_operand [OF blanks_compute [of a] _ adds_up_blanks [of w "term_value t" b c], of "CHR ''-''" "- 1"] negated
    by (simp add: spans_def)
next
  case (sum e u t w a b)
  then show ?case
    using signed_operand [of u "expr_value e" "blanks a @ w @ blanks b" "term_value t" "CHR ''+''" 1]
      adds_up_blanks [of w "term_value t" a b] values_span(2) [of e] by simp
next
  case (difference e u t w a b)
  then show ?case
    using signed_operand [of u "expr_value e" "blanks a @ w @ blanks b" "term_value t" "CHR ''-''" "- 1"]
      adds_up_blanks [of w "term_value t" a b] values_span(2) [of e] by simp
qed

lemma calculate2_value:
  assumes "expr_text e u" "expr_fits e"
  shows "calculate2 u = Val (expr_value e)"
proof -
  let ?init = "\<lparr>prims = [], ops = [], result = 0, sign = 1, num = 0\<rparr>"
  have "fresh ?init" by (simp add: fresh_def)
  then obtain st where st: "calc_pass u ?init = Val st" "pending st (expr_value e)"
    using pass_reads(2) [OF assms] unfolding computes_def by blast
  have "spans (expr_value e)" using values_span(2) assms(2) by simp
  then have "calc_flush st = Val (st\<lparr>result := expr_value e, num := 0\<rparr>)" using flush_pending [OF st(2)] by simp
  then have "obind (int_value (sign st * num st)) (\<lambda>p. int_value (result st + p)) = Val (expr_value e)"
    by (auto simp: calc_flush_def obind_eq_Val dest: arg_cong [where f = result])
  then show ?thesis using st(1) by (simp add: calculate2_def)
qed

text \<open>At the lowest \<^verbatim>\<open>int\<close> the two differ: the pass multiplies the value of the parentheses by the sign before them.\<close>

lemma lowest_int_differs:
  "calculate ''-1-(-2147483647-1)'' = Val 2147483647" "calculate2 ''-1-(-2147483647-1)'' = Undef"
  by code_simp+

text \<open>
  C32: Both calculators evaluate every expression: on each text of a sum of numbers and parenthesised
  sums, a minus before the first operand and blanks wherever the grammar lets them stand, they return
  the value of the expression, as long as every number and every partial sum is an \<^verbatim>\<open>int\<close> whose negation is one. The parser leaves its position
  behind the last character, its assertions hold, and the pass finds its stacks as deep as the closing
  parentheses need them. With a partial sum of the lowest \<^verbatim>\<open>int\<close> the parser can still return the value where
  the pass overflows.
\<close>

theorem calculators_evaluate:
  assumes "expr_text e u" "expr_fits e"
  shows "expr u 0 = Val (expr_value e, length u) \<and> calculate u = Val (expr_value e) \<and>
    calculate2 u = Val (expr_value e) \<and>
    calculate ''-1-(-2147483647-1)'' = Val 2147483647 \<and> calculate2 ''-1-(-2147483647-1)'' = Undef"
  using calculate_value [OF assms] calculate2_value [OF assms] lowest_int_differs by simp

theorem calculators_evaluate_witness:
  "calculate '' -(1+ 20) - 3'' = Val (- 24) \<and> calculate2 '' -(1+ 20) - 3'' = Val (- 24)"
proof -
  let ?i = "Sum_of (Single (Number ''1'')) (Number ''20'')"
  let ?e = "Difference_of (Negated (Parens ?i)) (Number ''3'')"
  have n: "term_text (Number ''1'') ''1''" "term_text (Number ''20'') ''20''" "term_text (Number ''3'') ''3''"
    by (rule number; simp add: digit_char_def)+
  have "expr_text ?i ''1+ 20''"
    using sum [OF single [OF n(1), of 0 0] n(2), of 1 0] by simp
  then have "expr_text ?e '' -(1+ 20) - 3''"
    using difference [OF negated [OF parens, of ?i "''1+ 20''" 1 0 1] n(3), of 1 0] by simp
  moreover have "expr_fits ?e" by (simp add: spans_def decimal_of_def)
  ultimately show ?thesis using calculators_evaluate [of ?e "'' -(1+ 20) - 3''"] by (simp add: decimal_of_def)
qed

end
