(* ===== verification/LcEnumerate.thy ===== *)
theory LcEnumerate
  imports LcVersions
begin

text \<open>
  Programs that list all solutions (\<^verbatim>\<open>hobbies/leetcode/algorithms\<close>): permutations (46), sums of
  candidates (39), letters of a telephone number (17, two versions) and addresses of a row of digits (93).
  \<open>None\<close> is a recursion that does not end or an exception of \<^verbatim>\<open>std::stoi\<close>. Positions and sums are unbounded.
\<close>

section \<open>Permutations\<close>

function permute :: "int list \<Rightarrow> int list list" where
  "permute nums =
     (if nums = [] then [[]]
      else concat (map (\<lambda>i. let rest = take i nums @ drop (i + 1) nums in map (\<lambda>x. x @ [nums ! i]) (permute rest))
        [0..<length nums]))"
  by pat_completeness auto
termination by (relation "measure length") auto

declare permute.simps [simp del]

lemma rest_mset: "i < length nums \<Longrightarrow> mset nums = add_mset (nums ! i) (mset (take i nums @ drop (i + 1) nums))"
  by (metis id_take_nth_drop mset_append mset.simps(2) union_mset_add_mset_right Suc_eq_plus1 mset_append)

lemma permute_step:
  "nums \<noteq> [] \<Longrightarrow> set (permute nums) = (\<Union>i<length nums. (\<lambda>x. x @ [nums ! i]) ` set (permute (take i nums @ drop (i + 1) nums)))"
  by (subst permute.simps) (auto simp: Let_def)

lemma permute_set: "set (permute nums) = {xs. mset xs = mset nums}"
proof (induction nums rule: length_induct)
  case (1 nums)
  show ?case
  proof (cases "nums = []")
    case True
    then show ?thesis by (simp add: permute.simps)
  next
    case False
    have IH: "set (permute (take i nums @ drop (i + 1) nums)) = {xs. mset xs = mset (take i nums @ drop (i + 1) nums)}"
      if "i < length nums" for i
      using 1 that by auto
    have char: "(\<exists>i<length nums. \<exists>x. xs = x @ [nums ! i] \<and> mset x = mset (take i nums @ drop (i + 1) nums)) \<longleftrightarrow> mset xs = mset nums" for xs
    proof
      assume "mset xs = mset nums"
      then have "xs \<noteq> []" "last xs \<in> set nums" using False by (metis mset_zero_iff_right, metis last_in_set mset_eq_setD mset_zero_iff_right)
      then obtain i where i: "i < length nums" "nums ! i = last xs" by (auto simp: in_set_conv_nth)
      have "add_mset (last xs) (mset (butlast xs)) = mset nums"
        using \<open>mset xs = mset nums\<close> \<open>xs \<noteq> []\<close> by (metis append_butlast_last_id mset.simps(2) mset_append union_code union_mset_add_mset_right mset.simps(1) add.right_neutral)
      then have "mset (butlast xs) = mset (take i nums @ drop (i + 1) nums)"
        using rest_mset [OF i(1)] i(2) by simp
      then show "\<exists>i<length nums. \<exists>x. xs = x @ [nums ! i] \<and> mset x = mset (take i nums @ drop (i + 1) nums)"
        using i \<open>xs \<noteq> []\<close> by (metis append_butlast_last_id)
    next
      assume "\<exists>i<length nums. \<exists>x. xs = x @ [nums ! i] \<and> mset x = mset (take i nums @ drop (i + 1) nums)"
      then show "mset xs = mset nums" using rest_mset by fastforce
    qed
    have "set (permute nums) = {xs. \<exists>i<length nums. \<exists>x. xs = x @ [nums ! i] \<and> mset x = mset (take i nums @ drop (i + 1) nums)}"
      unfolding permute_step [OF False] using IH by auto
    then show ?thesis unfolding char .
  qed
qed

lemma permute_length: "length (permute nums) = fact (length nums)"
proof (induction nums rule: length_induct)
  case (1 nums)
  show ?case
  proof (cases nums)
    case Nil
    then show ?thesis by (simp add: permute.simps)
  next
    case (Cons x xs)
    let ?n = "length nums"
    have "length (permute nums) = (\<Sum>i\<leftarrow>[0..<?n]. length (permute (take i nums @ drop (i + 1) nums)))"
      using Cons by (subst permute.simps) (simp add: length_concat comp_def Let_def)
    also have "\<dots> = (\<Sum>i\<leftarrow>[0..<?n]. fact (?n - 1))"
      using 1 Cons by (intro arg_cong [where f = sum_list] map_cong refl) (auto simp: min_def)
    also have "\<dots> = fact ?n" using Cons by (simp add: sum_list_triv)
    finally show ?thesis .
  qed
qed

lemma permute_distinct: "distinct nums \<Longrightarrow> distinct (permute nums)"
proof (induction nums rule: length_induct)
  case (1 nums)
  have sub: "distinct (permute (take i nums @ drop (i + 1) nums))" if "i < length nums" for i
  proof -
    have "distinct (take i nums @ drop (i + 1) nums)"
      using 1(2) rest_mset [OF that] by (metis distinct.simps(2) mset.simps(2) mset_eq_imp_distinct_iff)
    then show ?thesis using 1(1) that by auto
  qed
  have "distinct (concat (map (\<lambda>i. map (\<lambda>x. x @ [nums ! i]) (permute (take i nums @ drop (i + 1) nums))) is))"
    if "distinct is" "set is \<subseteq> {..<length nums}" for "is"
    using that
  proof (induction "is")
    case (Cons i js)
    have "nums ! i \<noteq> nums ! j" if "j \<in> set js" for j
      using Cons.prems that 1(2) by (auto simp: nth_eq_iff_index_eq)
    moreover have "distinct (map (\<lambda>x. x @ [nums ! i]) (permute (take i nums @ drop (i + 1) nums)))"
      using sub [of i] Cons.prems by (simp add: distinct_map inj_on_def)
    ultimately show ?case using Cons by auto
  qed simp
  from this [of "[0..<length nums]"] show ?case by (subst permute.simps) (auto simp: Let_def atLeast0LessThan)
qed

section \<open>Sums of candidates\<close>

partial_function (option) combine :: "int list \<Rightarrow> nat \<Rightarrow> int \<Rightarrow> int list \<Rightarrow> int list list \<Rightarrow> int list list option" where
  \<comment> \<open>the path is as it was when the call returns; the result is \<^verbatim>\<open>res\<close>\<close>
  "combine cand idx target path res =
     (if idx < length cand \<and> cand ! idx \<le> target then do {
        let path' = path @ [cand ! idx];
        res' \<leftarrow> (if cand ! idx = target then Some (res @ [path']) else combine cand idx (target - cand ! idx) path' res);
        combine cand (idx + 1) target path res' }
      else Some res)"

definition combinationSum :: "int list \<Rightarrow> int \<Rightarrow> int list list option" where
  "combinationSum candidates target = combine (sort candidates) 0 target [] []"

declare combine.simps [code]

definition sums_from :: "int list \<Rightarrow> nat \<Rightarrow> int \<Rightarrow> int list set" where
  \<comment> \<open>ascending rows of candidates from index \<open>idx\<close> on with the given sum\<close>
  "sums_from cand idx target =
     {xs. xs \<noteq> [] \<and> (\<exists>is. xs = map ((!) cand) is \<and> sorted is \<and> set is \<subseteq> {idx..<length cand}) \<and> sum_list xs = target}"

lemma sums_from_empty:
  assumes "\<forall>x\<in>set cand. 0 < x" "sorted cand" "\<not> (idx < length cand \<and> cand ! idx \<le> target)"
  shows "sums_from cand idx target = {}"
proof -
  have False if xs: "xs \<noteq> []" "xs = map ((!) cand) is" "set is \<subseteq> {idx..<length cand}" "sum_list xs = target" for xs "is"
  proof -
    obtain i js where is_eq: "is = i # js" using xs(1,2) by (cases "is") auto
    then have i: "idx \<le> i" "i < length cand" using xs(3) by auto
    have "0 \<le> cand ! j" if "j \<in> set js" for j
      using assms(1) xs(3) is_eq that nth_mem [of j cand] by fastforce
    then have "0 \<le> sum_list (map ((!) cand) js)" by (intro sum_list_nonneg) auto
    then have "cand ! i \<le> target" using xs(2,4) is_eq by simp
    moreover have "cand ! idx \<le> cand ! i" using assms(2) i by (simp add: sorted_nth_mono)
    ultimately show False using assms(3) i by auto
  qed
  then show ?thesis by (auto simp: sums_from_def)
qed

lemma sums_from_step:
  assumes "\<forall>x\<in>set cand. 0 < x" "idx < length cand" "cand ! idx \<le> target"
  shows "sums_from cand idx target =
    (if cand ! idx = target then {[cand ! idx]} else (#) (cand ! idx) ` sums_from cand idx (target - cand ! idx)) \<union>
    sums_from cand (Suc idx) target"
    (is "_ = ?first \<union> _")
proof (intro equalityI subsetI)
  fix xs
  assume "xs \<in> sums_from cand idx target"
  then obtain "is" where xs: "xs \<noteq> []" "xs = map ((!) cand) is" "sorted is" "set is \<subseteq> {idx..<length cand}" "sum_list xs = target"
    by (auto simp: sums_from_def)
  then obtain i js where is_eq: "is = i # js" by (cases "is") auto
  show "xs \<in> ?first \<union> sums_from cand (Suc idx) target"
  proof (cases "i = idx")
    case False
    have i: "idx \<le> i" "\<forall>j\<in>set js. i \<le> j" "\<forall>j\<in>set is. j < length cand" using xs(3,4) is_eq by auto
    have "Suc idx \<le> j" if "j \<in> set is" for j
      using that is_eq i(1,2) False by (cases "j = i") force+
    then have "set is \<subseteq> {Suc idx..<length cand}" using i(3) by auto
    then have "xs \<in> sums_from cand (Suc idx) target" unfolding sums_from_def using xs by blast
    then show ?thesis by simp
  next
    case True
    have sum: "sum_list (map ((!) cand) js) = target - cand ! idx" using xs(2,5) is_eq True by simp
    show ?thesis
    proof (cases "js = []")
      case True
      then show ?thesis using sum xs(2) is_eq \<open>i = idx\<close> by simp
    next
      case False
      have pos: "0 < cand ! j" if "j \<in> set js" for j using assms(1) xs(4) is_eq that by auto
      have "0 < sum_list (map ((!) cand) js)"
      proof -
        obtain j ks where js: "js = j # ks" using False by (cases js) auto
        have "0 \<le> sum_list (map ((!) cand) ks)" using pos js by (intro sum_list_nonneg) (auto intro: less_imp_le)
        then show ?thesis using pos [of j] js by simp
      qed
      then have "cand ! idx \<noteq> target" using sum by simp
      moreover have "map ((!) cand) js \<in> sums_from cand idx (target - cand ! idx)"
        unfolding sums_from_def using False xs(3,4) is_eq sum by (auto intro!: exI [of _ js])
      ultimately show ?thesis using xs(2) is_eq \<open>i = idx\<close> by simp
    qed
  qed
next
  fix xs
  assume "xs \<in> ?first \<union> sums_from cand (Suc idx) target"
  then consider "cand ! idx = target" "xs = [cand ! idx]" | ys where "ys \<in> sums_from cand idx (target - cand ! idx)" "xs = cand ! idx # ys"
    | "xs \<in> sums_from cand (Suc idx) target" by (auto split: if_splits)
  then show "xs \<in> sums_from cand idx target"
  proof cases
    case 1
    then show ?thesis using assms(2) by (auto simp: sums_from_def intro!: exI [of _ "[idx]"])
  next
    case 2
    then obtain "is" where "ys = map ((!) cand) is" "sorted is" "set is \<subseteq> {idx..<length cand}" "sum_list ys = target - cand ! idx"
      by (auto simp: sums_from_def)
    then show ?thesis using 2(2) assms(2) by (auto simp: sums_from_def subset_iff intro!: exI [of _ "idx # is"])
  next
    case 3
    then show ?thesis by (fastforce simp: sums_from_def)
  qed
qed

lemma sums_from_hd:
  assumes "distinct cand" "idx < length cand" "xs \<in> sums_from cand (Suc idx) target"
  shows "hd xs \<noteq> cand ! idx"
proof -
  obtain "is" where "xs = map ((!) cand) is" "xs \<noteq> []" "set is \<subseteq> {Suc idx..<length cand}"
    using assms(3) by (auto simp: sums_from_def)
  then obtain i where "hd xs = cand ! i" "Suc idx \<le> i" "i < length cand" by (cases "is") auto
  then show ?thesis using assms(1,2) by (simp add: nth_eq_iff_index_eq)
qed

lemma combine_spec:
  assumes "\<forall>x\<in>set cand. 0 < x" "sorted cand"
  shows "\<exists>res'. combine cand idx target path res = Some (res @ map (\<lambda>xs. path @ xs) res') \<and> set res' = sums_from cand idx target \<and>
    (distinct cand \<longrightarrow> distinct res')"
proof (induction "nat target + (length cand - idx)" arbitrary: idx target path res rule: less_induct)
  case less
  show ?case
  proof (cases "idx < length cand \<and> cand ! idx \<le> target")
    case False
    then show ?thesis using sums_from_empty [OF assms False] by (subst combine.simps) auto
  next
    case True
    let ?c = "cand ! idx"
    have c: "0 < ?c" "?c \<le> target" "idx < length cand" using True assms(1) by auto
    let ?first = "if ?c = target then {[?c]} else (#) ?c ` sums_from cand idx (target - ?c)"
    have "\<exists>r1. (if ?c = target then Some (res @ [path @ [?c]]) else combine cand idx (target - ?c) (path @ [?c]) res) =
        Some (res @ map (\<lambda>xs. path @ xs) r1) \<and> set r1 = ?first \<and> (distinct cand \<longrightarrow> distinct r1)"
    proof (cases "?c = target")
      case True
      then show ?thesis by (intro exI [of _ "[[?c]]"]) simp
    next
      case False
      then have "nat (target - ?c) + (length cand - idx) < nat target + (length cand - idx)" using c by simp
      from less [OF this, of "path @ [?c]" res] obtain r where
        "combine cand idx (target - ?c) (path @ [?c]) res = Some (res @ map (\<lambda>xs. (path @ [?c]) @ xs) r)" "set r = sums_from cand idx (target - ?c)"
        "distinct cand \<longrightarrow> distinct r" by blast
      then show ?thesis using False by (intro exI [of _ "map ((#) ?c) r"]) (simp add: distinct_map)
    qed
    then obtain r1 where r1: "(if ?c = target then Some (res @ [path @ [?c]]) else combine cand idx (target - ?c) (path @ [?c]) res) =
        Some (res @ map (\<lambda>xs. path @ xs) r1)" "set r1 = ?first" "distinct cand \<longrightarrow> distinct r1" by blast
    have "nat target + (length cand - Suc idx) < nat target + (length cand - idx)" using c by simp
    from less [OF this, of path "res @ map (\<lambda>xs. path @ xs) r1"] obtain r2 where
      r2: "combine cand (Suc idx) target path (res @ map (\<lambda>xs. path @ xs) r1) = Some ((res @ map (\<lambda>xs. path @ xs) r1) @ map (\<lambda>xs. path @ xs) r2)"
      "set r2 = sums_from cand (Suc idx) target" "distinct cand \<longrightarrow> distinct r2" by blast
    have "combine cand idx target path res = Some (res @ map (\<lambda>xs. path @ xs) (r1 @ r2))"
      using True r1(1) r2(1) by (subst combine.simps) (simp add: Let_def)
    moreover have "set (r1 @ r2) = sums_from cand idx target"
      using sums_from_step [OF assms(1) c(3,2)] r1(2) r2(2) by simp
    moreover have "set r1 \<inter> set r2 = {}" if "distinct cand"
      using sums_from_hd [OF that c(3)] r1(2) r2(2) by (fastforce split: if_splits)
    then have "distinct cand \<longrightarrow> distinct (r1 @ r2)" using r1(3) r2(3) by simp
    ultimately show ?thesis by blast
  qed
qed

lemma sums_from_sorted:
  assumes "sorted cand"
  shows "sums_from cand 0 target = {xs. xs \<noteq> [] \<and> sorted xs \<and> set xs \<subseteq> set cand \<and> sum_list xs = target}"
proof -
  have "(\<exists>is. xs = map ((!) cand) is \<and> sorted is \<and> set is \<subseteq> {0..<length cand}) \<longleftrightarrow> sorted xs \<and> set xs \<subseteq> set cand" for xs
  proof
    assume "\<exists>is. xs = map ((!) cand) is \<and> sorted is \<and> set is \<subseteq> {0..<length cand}"
    then obtain "is" where "is": "xs = map ((!) cand) is" "sorted is" "set is \<subseteq> {0..<length cand}" by blast
    have "sorted xs" unfolding "is"(1)
      using "is"(2,3) assms by (auto simp: sorted_wrt_map intro!: sorted_wrt_mono_rel [OF _ "is"(2)] sorted_nth_mono)
    then show "sorted xs \<and> set xs \<subseteq> set cand" using "is" by auto
  next
    assume xs: "sorted xs \<and> set xs \<subseteq> set cand"
    define f where "f x = (LEAST i. i < length cand \<and> cand ! i = x)" for x
    have f: "f x < length cand \<and> cand ! f x = x" if "x \<in> set cand" for x
      unfolding f_def using that by (rule in_set_conv_nth [THEN iffD1, THEN exE]) (rule LeastI)
    have mono: "f x \<le> f y" if "x \<le> y" "x \<in> set cand" "y \<in> set cand" for x y
    proof (rule ccontr)
      assume "\<not> f x \<le> f y"
      then have "cand ! f y \<le> cand ! f x" using f [OF that(2)] sorted_nth_mono [OF assms, of "f y" "f x"] by simp
      then have "x = y" using f that by auto
      then show False using \<open>\<not> f x \<le> f y\<close> by simp
    qed
    have "sorted (map f xs)" using xs mono by (auto simp: sorted_wrt_map intro!: sorted_wrt_mono_rel [of xs "(\<le>)"])
    moreover have "xs = map ((!) cand) (map f xs)" using xs f by (auto intro!: map_idI [symmetric])
    moreover have "set (map f xs) \<subseteq> {0..<length cand}" using xs f by auto
    ultimately show "\<exists>is. xs = map ((!) cand) is \<and> sorted is \<and> set is \<subseteq> {0..<length cand}" by blast
  qed
  then show ?thesis by (auto simp: sums_from_def)
qed

lemma combinationSum_spec:
  assumes "\<forall>x\<in>set candidates. 0 < x"
  shows "\<exists>res. combinationSum candidates target = Some res \<and>
    set res = {xs. xs \<noteq> [] \<and> sorted xs \<and> set xs \<subseteq> set candidates \<and> sum_list xs = target} \<and> (distinct candidates \<longrightarrow> distinct res)"
proof -
  have "\<forall>x\<in>set (sort candidates). 0 < x" "sorted (sort candidates)" using assms by simp_all
  from combine_spec [OF this, of 0 target "[]" "[]"] show ?thesis
    using sums_from_sorted [of "sort candidates" target] by (auto simp: combinationSum_def)
qed

text \<open>With a candidate 0 the recursion for the same index never ends.\<close>

lemma combine_zero_start:
  "combine cand idx target path res = Some r \<Longrightarrow> cand \<noteq> [] \<and> cand ! 0 = 0 \<and> 0 < target \<longrightarrow> idx \<noteq> 0"
proof (induction cand idx target path res r rule: combine.raw_induct [rotated, consumes 1])
  case (1 f cand idx target path res r)
  show ?case
  proof
    assume zero: "cand \<noteq> [] \<and> cand ! 0 = 0 \<and> 0 < target"
    show "idx \<noteq> 0"
    proof
      assume "idx = 0"
      then obtain r' where "f cand 0 target (path @ [0]) res = Some r'"
        using 1(2) zero by (auto simp: Let_def bind_eq_Some_conv split: if_splits)
      then show False using 1(1) zero by blast
    qed
  qed
qed

lemma combine_zero: "cand \<noteq> [] \<Longrightarrow> cand ! 0 = 0 \<Longrightarrow> 0 < target \<Longrightarrow> combine cand 0 target path res = None"
  using combine_zero_start [of cand 0 target path res] by (cases "combine cand 0 target path res") auto

section \<open>Letters of a telephone number\<close>

definition keypad :: "string list" where
  "keypad = [''abc'', ''def'', ''ghi'', ''jkl'', ''mno'', ''pqrs'', ''tuv'', ''wxyz'']"

definition has_letters :: "char \<Rightarrow> bool" where
  "has_letters x \<longleftrightarrow> 50 \<le> (of_char x :: nat) \<and> (of_char x :: nat) \<le> 57"

definition letters :: "char \<Rightarrow> string" where
  "letters x = keypad ! (of_char x - 50)"

fun letterCombinations :: "string \<Rightarrow> string list" where
  "letterCombinations [] = []"
| "letterCombinations (d # ds) =
     (if \<exists>x\<in>set (d # ds). \<not> has_letters x then []
      else let after = letterCombinations ds in
        concat (map (\<lambda>x. if after = [] then [[x]] else map (\<lambda>s. x # s) after) (letters d)))"

fun letters_loop :: "string \<Rightarrow> string list \<Rightarrow> string list" where
  "letters_loop [] result = result"
| "letters_loop (x # xs) result =
     (if \<not> has_letters x then result
      else letters_loop xs (concat (map (\<lambda>y. if result \<noteq> [] then map (\<lambda>s. s @ [y]) result else [[y]]) (letters x))))"

definition letterCombinations2 :: "string \<Rightarrow> string list" where
  "letterCombinations2 digits = letters_loop digits []"

definition spellings :: "string \<Rightarrow> string list" where
  \<comment> \<open>one letter for each digit, in lexicographic order\<close>
  "spellings ds = product_lists (map letters ds)"

lemma letters_nonempty: "has_letters x \<Longrightarrow> letters x \<noteq> []"
proof -
  assume "has_letters x"
  then have "50 \<le> (of_char x :: nat)" "(of_char x :: nat) \<le> 57" by (simp_all add: has_letters_def)
  moreover have "length keypad = 8" by (simp add: keypad_def)
  ultimately have "(of_char x :: nat) - 50 < length keypad" by linarith
  then have "letters x \<in> set keypad" unfolding letters_def by (rule nth_mem)
  then show ?thesis by (auto simp: keypad_def)
qed

lemma spellings_nonempty: "\<forall>x\<in>set ds. has_letters x \<Longrightarrow> spellings ds \<noteq> []"
  using letters_nonempty by (induction ds) (auto simp: spellings_def)

lemma letterCombinations_spec:
  "letterCombinations ds = (if ds = [] \<or> (\<exists>x\<in>set ds. \<not> has_letters x) then [] else spellings ds)"
proof (induction ds)
  case (Cons d ds)
  show ?case
  proof (cases "\<exists>x\<in>set (d # ds). \<not> has_letters x")
    case False
    then have "letterCombinations ds = (if ds = [] then [] else spellings ds)" "ds \<noteq> [] \<longrightarrow> spellings ds \<noteq> []"
      using Cons.IH spellings_nonempty [of ds] by auto
    then show ?thesis using False by (auto simp: spellings_def Let_def)
  qed simp
qed simp

lemma mset_concat_Cons: "mset (concat (map (\<lambda>y. g y # h y) zs)) = mset (map g zs) + mset (concat (map h zs))"
  by (induction zs) auto

lemma mset_concat_swap:
  "mset (concat (map (\<lambda>y. map (\<lambda>s. f s y) ss) ys)) = mset (concat (map (\<lambda>s. map (f s) ys) ss))"
proof (induction ss)
  case (Cons s ss)
  then show ?case using mset_concat_Cons [of "f s" "\<lambda>y. map (\<lambda>s. f s y) ss" ys] by simp
qed (induction ys; simp)

lemma mset_concat_map: "mset (concat (map f xs)) = (\<Sum>x\<in>#mset xs. mset (f x))"
  by (induction xs) simp_all

lemma product_lists_snoc: "product_lists (xss @ [ys]) = concat (map (\<lambda>s. map (\<lambda>y. s @ [y]) ys) (product_lists xss))"
proof (induction xss)
  case (Cons xs xss)
  have "concat (map (\<lambda>x. map ((#) x) (concat (map (\<lambda>s. map (\<lambda>y. s @ [y]) ys) ps))) xs) =
      concat (map (\<lambda>s. map (\<lambda>y. s @ [y]) ys) (concat (map (\<lambda>x. map ((#) x) ps) xs)))" for ps
    by (induction xs) (auto simp: map_concat comp_def)
  then show ?case using Cons by simp
qed (induction ys; simp)

lemma letters_loop_spec:
  "\<forall>x\<in>set ps. has_letters x \<Longrightarrow> mset result = (if ps = [] then {#} else mset (spellings ps)) \<Longrightarrow>
   mset (letters_loop ds result) =
     (let qs = ps @ takeWhile has_letters ds in if qs = [] then {#} else mset (spellings qs))"
proof (induction ds arbitrary: ps result)
  case (Cons d ds)
  show ?case
  proof (cases "has_letters d")
    case True
    let ?r = "concat (map (\<lambda>y. if result \<noteq> [] then map (\<lambda>s. s @ [y]) result else [[y]]) (letters d))"
    have "mset ?r = mset (spellings (ps @ [d]))"
    proof (cases "ps = []")
      case True
      then have "result = []" using Cons.prems(2) by simp
      moreover have "concat (map (\<lambda>y. [[y]]) zs) = map (\<lambda>y. [y]) zs" for zs :: string by (induction zs) simp_all
      ultimately show ?thesis using True by (simp add: spellings_def)
    next
      case False
      then have m: "mset result = mset (spellings ps)" using Cons.prems(2) by simp
      moreover have "spellings ps \<noteq> []" using spellings_nonempty Cons.prems(1) by blast
      ultimately have "result \<noteq> []" by (metis mset_zero_iff_right)
      then have "mset ?r = mset (concat (map (\<lambda>s. map (\<lambda>y. s @ [y]) (letters d)) result))"
        using mset_concat_swap [of "\<lambda>s y. s @ [y]" result "letters d"] by simp
      also have "\<dots> = mset (concat (map (\<lambda>s. map (\<lambda>y. s @ [y]) (letters d)) (spellings ps)))"
        unfolding mset_concat_map m ..
      finally show ?thesis by (simp add: spellings_def product_lists_snoc)
    qed
    then have "mset (letters_loop ds ?r) = (let qs = (ps @ [d]) @ takeWhile has_letters ds in if qs = [] then {#} else mset (spellings qs))"
      using Cons.prems(1) True by (intro Cons.IH) auto
    then show ?thesis using True by simp
  next
    case False
    then show ?thesis using Cons.prems by (auto simp: Let_def)
  qed
qed simp

section \<open>Addresses\<close>

function ip_helper :: "string list \<Rightarrow> string \<Rightarrow> string \<Rightarrow> nat \<Rightarrow> nat \<Rightarrow> string list option" where
  "ip_helper result s cur pos fields =
     (if fields = 4 \<and> pos = length s then Some (result @ [cur])
      else if pos \<ge> length s \<or> fields \<ge> 4 then Some result
      else
        let cur' = (if cur \<noteq> [] then cur @ ''.'' else cur) in
        if s ! pos = CHR ''0'' then ip_helper result s (cur' @ take 1 (drop pos s)) (pos + 1) (fields + 1)
        else do {
          r1 \<leftarrow> ip_helper result s (cur' @ take 1 (drop pos s)) (pos + 1) (fields + 1);
          r2 \<leftarrow> ip_helper r1 s (cur' @ take 2 (drop pos s)) (pos + 2) (fields + 1);
          let s3 = take 3 (drop pos s);
          v \<leftarrow> stoi s3;
          if v \<le> 255 then ip_helper r2 s (cur' @ s3) (pos + 3) (fields + 1) else Some r2 })"
  by pat_completeness auto
termination by (relation "measure (\<lambda>(r, s, c, p, fields). 4 - fields)") auto

definition restoreIpAddresses :: "string \<Rightarrow> string list option" where
  "restoreIpAddresses s = ip_helper [] s [] 0 0"

declare ip_helper.simps [simp del]

definition octet :: "string \<Rightarrow> bool" where
  "octet p \<longleftrightarrow> p \<noteq> [] \<and> (\<forall>c\<in>set p. digit_char c) \<and> (hd p = CHR ''0'' \<longrightarrow> length p = 1) \<and> length p \<le> 3 \<and> decimal_of p \<le> 255"

definition octets :: "nat \<Rightarrow> string \<Rightarrow> string list set" where
  "octets n t = {ps. length ps = n \<and> (\<forall>p\<in>set ps. octet p) \<and> concat ps = t}"

fun dots :: "string \<Rightarrow> string list \<Rightarrow> string" where
  "dots cur [] = cur"
| "dots cur (p # ps) = dots ((if cur \<noteq> [] then cur @ ''.'' else cur) @ p) ps"

lemma octets_0: "octets 0 t = (if t = [] then {[]} else {})"
  by (auto simp: octets_def)

lemma octets_Nil: "octets (Suc n) [] = {}"
  by (auto simp: octets_def octet_def length_Suc_conv)

lemma octets_Suc:
  "octets (Suc n) t = (\<Union>k\<in>{1, 2, 3}. if k \<le> length t \<and> octet (take k t) then (#) (take k t) ` octets n (drop k t) else {})"
proof (intro equalityI subsetI)
  fix ps
  assume "ps \<in> octets (Suc n) t"
  then obtain p qs where ps: "ps = p # qs" "octet p" "length qs = n" "\<forall>p\<in>set qs. octet p" "t = p @ concat qs"
    by (auto simp: octets_def length_Suc_conv)
  have "0 < length p" "length p \<le> 3" using ps(2) by (simp_all add: octet_def)
  then have "length p = 1 \<or> length p = 2 \<or> length p = 3" by linarith
  then have "length p \<in> {1, 2, 3}" by simp
  moreover have "qs \<in> octets n (drop (length p) t)" "take (length p) t = p" "length p \<le> length t" using ps by (simp_all add: octets_def)
  ultimately show "ps \<in> (\<Union>k\<in>{1, 2, 3}. if k \<le> length t \<and> octet (take k t) then (#) (take k t) ` octets n (drop k t) else {})"
    using ps by fastforce
next
  fix ps
  assume "ps \<in> (\<Union>k\<in>{1, 2, 3}. if k \<le> length t \<and> octet (take k t) then (#) (take k t) ` octets n (drop k t) else {})"
  then show "ps \<in> octets (Suc n) t" by (auto simp: octets_def split: if_splits)
qed

lemma decimal_of_bound:
  assumes "\<forall>c\<in>set p. digit_char c"
  shows "decimal_of p < 10 ^ length p"
  using assms
proof (induction p rule: rev_induct)
  case (snoc c p)
  then have "(of_char c :: int) - 48 \<le> 9" "decimal_of p + 1 \<le> 10 ^ length p" by (auto simp: digit_char_def)
  then show ?case by (simp add: decimal_of_snoc)
qed (simp add: decimal_of_def)

lemma decimal_of_short:
  assumes "\<forall>c\<in>set p. digit_char c" "length p \<le> 2"
  shows "decimal_of p \<le> 255"
proof -
  have "(10 :: int) ^ length p \<le> 10 ^ 2" using assms(2) by (intro power_increasing) simp_all
  then show ?thesis using decimal_of_bound [OF assms(1)] by simp
qed

lemma decimal_of_three:
  assumes "\<forall>c\<in>set p. digit_char c" "length p \<le> 3"
  shows "decimal_of p \<le> 999"
proof -
  have "(10 :: int) ^ length p \<le> 10 ^ 3" using assms(2) by (intro power_increasing) simp_all
  then show ?thesis using decimal_of_bound [OF assms(1)] by simp
qed

lemma octet_short:
  assumes "\<forall>c\<in>set t. digit_char c" "t \<noteq> []" "hd t \<noteq> CHR ''0''" "k \<le> length t" "0 < k"
  shows "octet (take k t) \<longleftrightarrow> k \<le> 3 \<and> (k = 3 \<longrightarrow> decimal_of (take k t) \<le> 255)"
proof -
  have "\<forall>c\<in>set (take k t). digit_char c" "take k t \<noteq> []" "hd (take k t) \<noteq> CHR ''0''" "length (take k t) = k"
    using assms by (auto dest: in_set_takeD simp: hd_take)
  moreover from this have "k \<le> 2 \<longrightarrow> decimal_of (take k t) \<le> 255" using decimal_of_short by simp
  moreover have "k \<le> 2 \<or> k = 3 \<or> 3 < k" by linarith
  ultimately show ?thesis by (elim disjE) (simp_all add: octet_def)
qed

lemma octet_zero:
  assumes "\<forall>c\<in>set t. digit_char c" "t \<noteq> []" "hd t = CHR ''0''" "k \<le> length t" "0 < k"
  shows "octet (take k t) \<longleftrightarrow> k = 1"
proof -
  have "\<forall>c\<in>set (take k t). digit_char c" "take k t \<noteq> []" "hd (take k t) = CHR ''0''" "length (take k t) = k"
    using assms by (auto dest: in_set_takeD simp: hd_take)
  moreover from this have "k = 1 \<longrightarrow> decimal_of (take k t) \<le> 255" using decimal_of_short by simp
  ultimately show ?thesis by (auto simp: octet_def)
qed

lemma ip_helper_past: "length s < pos \<Longrightarrow> ip_helper result s cur pos fields = Some result"
  by (subst ip_helper.simps) simp

lemma ip_helper_spec:
  assumes "\<forall>c\<in>set s. digit_char c"
  shows "fields + n = 4 \<Longrightarrow> pos \<le> length s \<Longrightarrow>
    \<exists>sols. ip_helper result s cur pos fields = Some (result @ map (dots cur) sols) \<and> set sols = octets n (drop pos s) \<and> distinct sols"
proof (induction n arbitrary: fields pos result cur)
  case 0
  then show ?case
    by (cases "pos = length s"; subst ip_helper.simps) (auto simp: octets_0 intro: exI [of _ "[[]]"])
next
  case (Suc n)
  show ?case
  proof (cases "pos = length s")
    case True
    then show ?thesis using Suc.prems by (subst ip_helper.simps) (simp add: octets_Nil)
  next
    case False
    let ?t = "drop pos s" let ?cur = "if cur \<noteq> [] then cur @ ''.'' else cur"
    have t: "pos < length s" "?t \<noteq> []" "\<forall>c\<in>set ?t. digit_char c" "hd ?t = s ! pos"
      using False Suc.prems(2) assms by (auto dest: in_set_dropD simp: hd_drop_conv_nth)
    have branch: "\<exists>sols. ip_helper r s (?cur @ take k ?t) (pos + k) (fields + 1) = Some (r @ map (dots cur) (map ((#) (take k ?t)) sols)) \<and>
        set sols = (if k \<le> length ?t then octets n (drop k ?t) else {}) \<and> distinct sols" for r k
    proof (cases "k \<le> length ?t")
      case True
      then have "pos + k \<le> length s" using t(1) by simp
      from Suc.IH [OF _ this, of "fields + 1" r "?cur @ take k ?t"] Suc.prems(1) True show ?thesis
        by (auto simp: comp_def add.commute)
    next
      case False
      then show ?thesis using ip_helper_past [of s "pos + k"] t(1) by (intro exI [of _ "[]"]) simp
    qed
    obtain s1 where s1: "ip_helper result s (?cur @ take 1 ?t) (pos + 1) (fields + 1) = Some (result @ map (dots cur) (map ((#) (take 1 ?t)) s1))"
      "set s1 = octets n (drop 1 ?t)" "distinct s1"
      using branch [of result 1] t(2) by (auto simp: Suc_le_eq simp del: drop_drop)
    show ?thesis
    proof (cases "s ! pos = CHR ''0''")
      case True
      then have "ip_helper result s cur pos fields = Some (result @ map (dots cur) (map ((#) (take 1 ?t)) s1))"
        using Suc.prems(1) t(1) s1(1) by (subst ip_helper.simps) (simp add: Let_def)
      moreover have "octets (Suc n) ?t = (#) (take 1 ?t) ` octets n (drop 1 ?t)"
        unfolding octets_Suc using octet_zero [OF t(3,2)] True t(1,2,4) by (auto simp: Suc_le_eq simp del: drop_drop)
      ultimately show ?thesis using s1(2,3) by (intro exI [of _ "map ((#) (take 1 ?t)) s1"]) (simp add: distinct_map)
    next
      case nz: False
      let ?r1 = "result @ map (dots cur) (map ((#) (take 1 ?t)) s1)"
      obtain s2 where s2: "ip_helper ?r1 s (?cur @ take 2 ?t) (pos + 2) (fields + 1) = Some (?r1 @ map (dots cur) (map ((#) (take 2 ?t)) s2))"
        "set s2 = (if 2 \<le> length ?t then octets n (drop 2 ?t) else {})" "distinct s2"
        using branch [of ?r1 2] by blast
      let ?r2 = "?r1 @ map (dots cur) (map ((#) (take 2 ?t)) s2)"
      obtain s3 where s3: "ip_helper ?r2 s (?cur @ take 3 ?t) (pos + 3) (fields + 1) = Some (?r2 @ map (dots cur) (map ((#) (take 3 ?t)) s3))"
        "set s3 = (if 3 \<le> length ?t then octets n (drop 3 ?t) else {})" "distinct s3"
        using branch [of ?r2 3] by blast
      let ?s3 = "if decimal_of (take 3 ?t) \<le> 255 then s3 else []"
      have bound: "decimal_of (take 3 ?t) \<le> 999" "0 \<le> decimal_of (take 3 ?t)"
        using decimal_of_three [of "take 3 ?t"] t(3) decimal_of_nonneg [of "take 3 ?t"] by (auto dest: in_set_takeD)
      then have "number_string (take 3 ?t)" using t(2,3) by (auto simp: number_string_def fits_int_def dest: in_set_takeD)
      then have stoi: "stoi (take 3 ?t) = Some (decimal_of (take 3 ?t))" using stoi_number [of "take 3 ?t" "[]"] by simp
      let ?sols = "map ((#) (take 1 ?t)) s1 @ map ((#) (take 2 ?t)) s2 @ map ((#) (take 3 ?t)) ?s3"
      have "ip_helper result s cur pos fields = Some (result @ map (dots cur) ?sols)"
        using Suc.prems(1) t(1) nz s1(1) s2(1) s3(1) stoi by (subst ip_helper.simps) (simp add: Let_def)
      moreover have "octets (Suc n) ?t = set ?sols"
        unfolding octets_Suc using octet_short [OF t(3,2)] nz t(2,4) s1(2) s2(2) s3(2) by (auto simp: Suc_le_eq simp del: drop_drop)
      moreover have "distinct ?sols"
      proof -
        have "take 1 ?t \<noteq> take 2 ?t" if "s2 \<noteq> []" using s2(2) that t(2) by (auto split: if_splits dest: arg_cong [where f = length])
        moreover have "take 1 ?t \<noteq> take 3 ?t" "take 2 ?t \<noteq> take 3 ?t" if "s3 \<noteq> []"
          using s3(2) that t(2) by (auto split: if_splits dest: arg_cong [where f = length])
        ultimately show ?thesis using s1(3) s2(3) s3(3) by (cases "s2 = []"; cases "s3 = []") (auto simp: distinct_map)
      qed
      ultimately show ?thesis by metis
    qed
  qed
qed

section \<open>What the programs list\<close>

text \<open>
  The enumerating programs are complete. \<^verbatim>\<open>permute\<close> returns exactly the permutations, each once when the
  numbers are distinct and always \<open>n!\<close> of them; for positive candidates \<^verbatim>\<open>combinationSum\<close> returns exactly the
  ascending rows of candidates with the given sum, each once when the candidates are distinct, but with the
  candidate 0 its recursion does not end; the two versions for telephone numbers return the same spellings of
  digits from 2 to 9 and differ on any other text, where one returns nothing and the other the spellings of what comes
  before the first other character; and \<^verbatim>\<open>restoreIpAddresses\<close> returns, each once, exactly the ways to cut a row of digits into
  four numbers up to 255 without leading zeros.
\<close>

theorem solutions_enumerated:
  "set (permute nums) = {xs. mset xs = mset nums} \<and> length (permute nums) = fact (length nums) \<and>
   (distinct nums \<longrightarrow> distinct (permute nums)) \<and>
   ((\<forall>x\<in>set candidates. 0 < x) \<longrightarrow> (\<exists>res. combinationSum candidates target = Some res \<and>
      set res = {xs. xs \<noteq> [] \<and> sorted xs \<and> set xs \<subseteq> set candidates \<and> sum_list xs = target} \<and>
      (distinct candidates \<longrightarrow> distinct res))) \<and>
   ((\<forall>x\<in>set candidates. 0 \<le> x) \<longrightarrow> 0 \<in> set candidates \<longrightarrow> 0 < target \<longrightarrow> combinationSum candidates target = None) \<and>
   letterCombinations digits = (if digits = [] \<or> (\<exists>x\<in>set digits. \<not> has_letters x) then [] else spellings digits) \<and>
   mset (letterCombinations2 digits) = mset (letterCombinations (takeWhile has_letters digits)) \<and>
   ((\<forall>c\<in>set s. digit_char c) \<longrightarrow> (\<exists>sols. restoreIpAddresses s = Some (map (dots []) sols) \<and> set sols = octets 4 s \<and> distinct sols))"
proof (intro conjI impI)
  show "\<exists>res. combinationSum candidates target = Some res \<and>
      set res = {xs. xs \<noteq> [] \<and> sorted xs \<and> set xs \<subseteq> set candidates \<and> sum_list xs = target} \<and> (distinct candidates \<longrightarrow> distinct res)"
    if "\<forall>x\<in>set candidates. 0 < x"
    using combinationSum_spec [OF that] .
  show "combinationSum candidates target = None"
    if zero: "\<forall>x\<in>set candidates. 0 \<le> x" "0 \<in> set candidates" "0 < target"
  proof -
    have "sort candidates \<noteq> []" using zero(2) by (metis empty_iff list.set(1) set_sort)
    moreover from this have "sort candidates ! 0 \<in> set candidates" by (metis length_greater_0_conv nth_mem set_sort)
    moreover obtain i where "i < length (sort candidates)" "sort candidates ! i = 0"
      using zero(2) by (metis in_set_conv_nth set_sort)
    then have "sort candidates ! 0 \<le> 0" using sorted_nth_mono [of "sort candidates" 0 i] by simp
    ultimately have "sort candidates ! 0 = 0" using zero(1) by fastforce
    then show ?thesis using combine_zero \<open>sort candidates \<noteq> []\<close> zero(3) by (simp add: combinationSum_def)
  qed
  have "\<forall>x\<in>set (takeWhile has_letters digits). has_letters x" by (auto dest: set_takeWhileD)
  then show "mset (letterCombinations2 digits) = mset (letterCombinations (takeWhile has_letters digits))"
    using letters_loop_spec [of "[]" "[]" digits] letterCombinations_spec [of "takeWhile has_letters digits"]
    by (auto simp: letterCombinations2_def Let_def)
  show "\<exists>sols. restoreIpAddresses s = Some (map (dots []) sols) \<and> set sols = octets 4 s \<and> distinct sols"
    if "\<forall>c\<in>set s. digit_char c"
    using ip_helper_spec [OF that, of 0 4 0 "[]" "[]"] by (simp add: restoreIpAddresses_def)
qed (simp_all add: permute_set permute_length permute_distinct letterCombinations_spec)

theorem solutions_enumerated_witness:
  "distinct (permute [1, 2, 3]) \<and> length (permute [1, 2, 3]) = 6 \<and> combinationSum [2, 0] 3 = None \<and>
   (\<exists>sols. restoreIpAddresses ''0000'' = Some (map (dots []) sols) \<and> set sols = octets 4 ''0000'') \<and>
   [2, 2, 3] \<in> set (the (combinationSum [3, 2, 7] 7))"
proof -
  have "\<forall>c\<in>set ''0000''. digit_char c" by (simp add: digit_char_def)
  then have ip: "\<exists>sols. restoreIpAddresses ''0000'' = Some (map (dots []) sols) \<and> set sols = octets 4 ''0000''"
    using solutions_enumerated [of "[]" "[]" 0 "[]" "''0000''"] by blast
  have "length (permute [1, 2, 3]) = 6" "distinct (permute [1, 2, 3])"
    "\<exists>res. combinationSum [3, 2, 7] 7 = Some res \<and>
       set res = {xs. xs \<noteq> [] \<and> sorted xs \<and> set xs \<subseteq> set [3, 2, 7] \<and> sum_list xs = 7}"
    using solutions_enumerated [of "[1, 2, 3]" "[3, 2, 7]" 7 "[]" "[]"] by (auto simp: fact_numeral)
  moreover have "combinationSum [2, 0] 3 = None"
    using solutions_enumerated [of "[]" "[2, 0]" 3 "[]" "[]"] by simp
  ultimately show ?thesis using ip by auto
qed

end
