(* ===== verification/LogThread.thy ===== *)
theory LogThread
  imports Prelude "HOL-Library.While_Combinator"
begin

text \<open>
  \<^verbatim>\<open>cpp/misc/log_thread.cpp\<close>: threads hand lines to a thread that writes them to a file, and
  \<^verbatim>\<open>cpp/misc/log_no_thread.cpp\<close>: threads write to the file themselves. Each critical section, and each
  write outside one, is a step. The thread that waits on the condition variable goes on only when notified.
\<close>

section \<open>The threads that are started\<close>

definition spawn_loop :: "int \<Rightarrow> int \<Rightarrow> (int \<times> int list) option" where
  "spawn_loop limit log_cnt_per_thd =
     while_option (\<lambda>(use_cnt, workers). use_cnt < limit)
       (\<lambda>(use_cnt, workers). (use_cnt + log_cnt_per_thd, workers @ [log_cnt_per_thd])) (0, [])"

definition spawn_workers :: "int \<Rightarrow> int \<Rightarrow> (unit, int list) outcome" where
  \<comment> \<open>the counts \<^verbatim>\<open>main\<close> gives its threads; a loop that does not end is \<open>Undef\<close>\<close>
  "spawn_workers log_cnt thread_num =
     (if \<not> fits_int (log_cnt + thread_num) \<or> \<not> fits_int (log_cnt + thread_num - 1) \<or> thread_num = 0 then Undef
      else
        let log_cnt_per_thd = cdiv (log_cnt + thread_num - 1) thread_num in
        if log_cnt_per_thd = 0 then Undef
        else case spawn_loop (cdiv log_cnt log_cnt_per_thd * log_cnt_per_thd) log_cnt_per_thd of
          None \<Rightarrow> Undef
        | Some (use_cnt, workers) \<Rightarrow> Val (if use_cnt < log_cnt then workers @ [log_cnt - use_cnt] else workers))"

lemma spawn_loop_rounds:
  assumes "0 < per"
  shows "spawn_loop (int k * per) per = Some (int k * per, replicate k per)"
proof -
  have "while_option (\<lambda>(use_cnt, workers). use_cnt < int (i + d) * per)
      (\<lambda>(use_cnt, workers). (use_cnt + per, workers @ [per])) (int i * per, replicate i per) =
    Some (int (i + d) * per, replicate (i + d) per)" for i d
  proof (induction d arbitrary: i)
    case 0
    then show ?case by (simp add: while_option_unfold)
  next
    case (Suc d)
    have "int i * per < int (i + Suc d) * per" using assms by simp
    then show ?case
      using Suc.IH [of "Suc i"]
      by (subst while_option_unfold) (simp add: distrib_right add.commute replicate_append_same)
  qed
  from this [of 0 k] show ?thesis by (simp add: spawn_loop_def)
qed

lemma workers_share:
  assumes "0 < n" "0 < t" "fits_int (n + t)"
  obtains ws where "spawn_workers n t = Val ws" "sum_list ws = n" "\<forall>w \<in> set ws. 0 < w" "int (length ws) \<le> t"
proof -
  define per where "per = (n + t - 1) div t"
  define k where "k = nat (n div per)"
  have per: "0 < per" using assms by (simp add: per_def pos_imp_zdiv_pos_iff)
  have k: "n div per = int k" using assms per by (simp add: k_def pos_imp_zdiv_nonneg_iff)
  have split: "n = int k * per + n mod per" using k by (metis div_mult_mod_eq)
  have "fits_int (n + t - 1)" using assms by (simp add: fits_int_def)
  then have val: "spawn_workers n t =
      Val (if int k * per < n then replicate k per @ [n - int k * per] else replicate k per)"
    using assms per k spawn_loop_rounds [OF per, of k] by (simp add: spawn_workers_def Let_def flip: per_def)
  have "n \<le> per * t"
  proof -
    have "n + t - 1 = per * t + (n + t - 1) mod t" unfolding per_def by simp
    moreover have "(n + t - 1) mod t < t" using assms by simp
    ultimately show ?thesis by linarith
  qed
  have few: "int k + (if int k * per < n then 1 else 0) \<le> t"
  proof (rule ccontr)
    assume "\<not> ?thesis"
    then consider "t < int k" | "t = int k" "int k * per < n"
      by (cases "int k * per < n"; cases "t = int k") auto
    then show False
    proof cases
      case 1
      then have "(t + 1) * per \<le> int k * per" using per by (intro mult_right_mono) auto
      then show False using split per \<open>n \<le> per * t\<close> pos_mod_sign [OF per, of n] by (simp add: algebra_simps)
    next
      case 2
      then show False using \<open>n \<le> per * t\<close> by (simp add: mult.commute)
    qed
  qed
  show thesis
  proof (rule that [OF val])
    show "sum_list (if int k * per < n then replicate k per @ [n - int k * per] else replicate k per) = n"
      using split pos_mod_sign [OF per, of n] by (simp add: sum_list_replicate)
  qed (use per few in auto)
qed

section \<open>Lines handed over\<close>

definition logged_line :: string where
  "logged_line = ''this is a test just for test.'' @ [CHR 0x0A]"

definition log_text :: "nat \<Rightarrow> string" where
  "log_text n = concat (replicate n logged_line)"

datatype logger =
  Log_head nat            \<comment> \<open>before the test \<^verbatim>\<open>i < log_cnt\<close>, with so many rounds to go\<close>
| Log_asleep nat          \<comment> \<open>in \<^verbatim>\<open>cv.wait\<close>; so many rounds are left after this one\<close>
| Log_awake nat           \<comment> \<open>notified, about to test the condition again\<close>
| Log_write nat string    \<comment> \<open>has taken \<^verbatim>\<open>content\<close> and released the mutex\<close>

record log_state =
  logs :: "string list"
  to_push :: "nat list"
  logger :: logger
  log_file :: string

definition log_start :: "int \<Rightarrow> int list \<Rightarrow> log_state" where
  "log_start log_cnt workers = \<lparr>logs = [], to_push = map nat workers, logger = Log_head (nat log_cnt), log_file = []\<rparr>"

definition notify_one :: "log_state \<Rightarrow> log_state" where
  "notify_one s = (case logger s of Log_asleep n \<Rightarrow> s\<lparr>logger := Log_awake n\<rparr> | _ \<Rightarrow> s)"

definition worker_push :: "nat \<Rightarrow> log_state \<Rightarrow> log_state option" where
  \<comment> \<open>a round of \<^verbatim>\<open>worker_routine\<close>; \<open>None\<close>: the thread is through\<close>
  "worker_push w s =
     (case to_push s ! w of
        0 \<Rightarrow> None
      | Suc k \<Rightarrow> Some (notify_one (s\<lparr>logs := logs s @ [logged_line], to_push := (to_push s)[w := k]\<rparr>)))"

definition take_or_sleep :: "nat \<Rightarrow> log_state \<Rightarrow> log_state" where
  "take_or_sleep n s =
     (case logs s of
        [] \<Rightarrow> s\<lparr>logger := Log_asleep n\<rparr>
      | content # rest \<Rightarrow> s\<lparr>logs := rest, logger := Log_write n content\<rparr>)"

definition log_routine :: "log_state \<Rightarrow> log_state option" where
  \<comment> \<open>\<open>None\<close>: the thread is through, or sleeps\<close>
  "log_routine s =
     (case logger s of
        Log_head 0 \<Rightarrow> None
      | Log_head (Suc n) \<Rightarrow> Some (take_or_sleep n s)
      | Log_asleep n \<Rightarrow> None
      | Log_awake n \<Rightarrow> Some (take_or_sleep n s)
      | Log_write n content \<Rightarrow> Some (s\<lparr>log_file := log_file s @ content, logger := Log_head n\<rparr>))"

inductive log_step :: "log_state \<Rightarrow> log_state \<Rightarrow> bool" where
  push: "w < length (to_push s) \<Longrightarrow> worker_push w s = Some s' \<Longrightarrow> log_step s s'"
| log: "log_routine s = Some s' \<Longrightarrow> log_step s s'"

inductive_simps log_step_iff: "log_step s s'"

section \<open>Lines written directly\<close>

definition direct_workers :: "int \<Rightarrow> nat list" where
  \<comment> \<open>\<^verbatim>\<open>LOG_CNT / thread_num\<close> lines for each of the threads\<close>
  "direct_workers thread_num = map (\<lambda>_. nat (cdiv 10000000 thread_num)) [0..<nat thread_num]"

inductive direct_step :: "nat list \<times> string \<Rightarrow> nat list \<times> string \<Rightarrow> bool" where
  direct: "w < length left \<Longrightarrow> left ! w = Suc k \<Longrightarrow> direct_step (left, file) (left[w := k], file @ logged_line)"

section \<open>What is in the file\<close>

lemma log_text_simps [simp]:
  "log_text 0 = []" "log_text n @ logged_line = log_text (Suc n)" "log_text n @ logged_line @ r = log_text (Suc n) @ r"
  by (simp_all add: log_text_def flip: replicate_append_same)

lemma sum_list_one_less: "w < length ns \<Longrightarrow> ns ! w = Suc k \<Longrightarrow> sum_list ns = Suc (sum_list (ns[w := k]))"
  by (induction ns arbitrary: w) (auto split: nat.splits)

definition log_written :: "nat \<Rightarrow> log_state \<Rightarrow> nat \<Rightarrow> bool" where
  "log_written n s j \<longleftrightarrow> log_file s = log_text j \<and>
     logs s = replicate (length (logs s)) logged_line \<and>
     (case logger s of
        Log_head m \<Rightarrow> j + m = n \<and> j + length (logs s) + sum_list (to_push s) = n
      | Log_asleep m \<Rightarrow> Suc (j + m) = n \<and> logs s = [] \<and> j + sum_list (to_push s) = n
      | Log_awake m \<Rightarrow> Suc (j + m) = n \<and> j + length (logs s) + sum_list (to_push s) = n
      | Log_write m content \<Rightarrow> Suc (j + m) = n \<and> content = logged_line \<and>
          Suc (j + length (logs s)) + sum_list (to_push s) = n)"

fun rounds_left :: "logger \<Rightarrow> nat" where
  "rounds_left (Log_head n) = 4 * n + 3"
| "rounds_left (Log_asleep n) = 4 * n + 5"
| "rounds_left (Log_awake n) = 4 * n + 6"
| "rounds_left (Log_write n _) = 4 * n + 4"

definition log_measure :: "log_state \<Rightarrow> nat" where
  "log_measure s = 3 * sum_list (to_push s) + rounds_left (logger s)"

lemma replicate_line [simp]: "xs = replicate (length xs) y \<Longrightarrow> xs @ [y] = replicate (Suc (length xs)) y"
  by (metis replicate_append_same replicate_Suc)

lemma push_written:
  assumes "w < length (to_push s)" "worker_push w s = Some s'" "log_written n s j"
  shows "log_written n s' j \<and> log_measure s' < log_measure s"
proof -
  obtain k where k: "to_push s ! w = Suc k"
    "s' = notify_one (s\<lparr>logs := logs s @ [logged_line], to_push := (to_push s)[w := k]\<rparr>)"
    using assms(2) by (auto simp: worker_push_def split: nat.splits)
  from sum_list_one_less [OF assms(1) k(1)] assms(3) show ?thesis
    unfolding k(2) by (auto simp: log_written_def notify_one_def log_measure_def split: logger.splits)
qed

lemma log_written_step:
  assumes "log_routine s = Some s'" "log_written n s j"
  shows "\<exists>j'. log_written n s' j' \<and> log_measure s' < log_measure s"
proof -
  have take: ?thesis if "s' = take_or_sleep m s" "logger s = Log_head (Suc m) \<or> logger s = Log_awake m" for m
    using that assms(2) by (intro exI [of _ j]) (auto simp: log_written_def take_or_sleep_def log_measure_def split: list.splits)
  show ?thesis
  proof (cases "logger s")
    case (Log_head m)
    then show ?thesis using assms(1) take by (cases m) (auto simp: log_routine_def)
  next
    case (Log_write m content)
    then have "s' = s\<lparr>log_file := log_file s @ content, logger := Log_head m\<rparr>" using assms(1) by (simp add: log_routine_def)
    then show ?thesis
      using assms(2) Log_write by (intro exI [of _ "Suc j"]) (auto simp: log_written_def log_measure_def)
  qed (use assms(1) take in \<open>auto simp: log_routine_def\<close>)
qed

lemma log_finished:
  assumes "log_written n s j" "\<nexists>s'. log_step s s'"
  shows "log_file s = log_text n"
proof -
  have "to_push s ! w = 0" if "w < length (to_push s)" for w
    using assms(2) that log_step.push [OF that] by (cases "to_push s ! w") (auto simp: worker_push_def)
  then have "sum_list (to_push s) = 0" by (auto simp: sum_list_eq_0_iff in_set_conv_nth)
  moreover have "log_routine s = None" using assms(2) by (cases "log_routine s") (auto simp: log_step_iff)
  ultimately show ?thesis
    using assms(1)
    by (auto simp: log_routine_def log_written_def simp del: sum_list_eq_0_iff split: logger.splits nat.splits)
qed

interpretation log: progress log_step "\<lambda>s. \<exists>j. log_written n s j" log_measure "\<lambda>s. log_file s = log_text n" for n
proof
  fix s s' assume "\<exists>j. log_written n s j" "log_step s s'"
  then obtain j where "log_written n s j" by blast
  with \<open>log_step s s'\<close> show "(\<exists>j. log_written n s' j) \<and> log_measure s' < log_measure s"
    by cases (use push_written log_written_step in fastforce)+
qed (use log_finished in blast)

lemma log_written_prefix: "log_written n s j \<Longrightarrow> log_file s = log_text j \<and> j \<le> n"
  by (auto simp: log_written_def split: logger.splits)

lemma direct_runs: "direct_step\<^sup>*\<^sup>* (ns, []) (ms, t) \<Longrightarrow> sum_list ms \<le> sum_list ns \<and> t = log_text (sum_list ns - sum_list ms)"
proof (induction "(ms, t)" arbitrary: ms t rule: rtranclp_induct)
  case (step s)
  obtain ms' t' where s: "s = (ms', t')" by (cases s)
  obtain w k where w: "w < length ms'" "ms' ! w = Suc k" "ms = ms'[w := k]" "t = t' @ logged_line"
    using step.hyps(2) s by (auto elim: direct_step.cases)
  have "sum_list ms' = Suc (sum_list ms)" using sum_list_one_less [OF w(1,2)] w(3) by simp
  with step.hyps(3) [OF s] w(4) show ?case by (simp add: Suc_diff_le flip: Suc_diff_Suc)
qed simp

lemma direct_finished:
  assumes "\<nexists>s'. direct_step (ms, t) s'"
  shows "sum_list ms = 0"
proof -
  have "ms ! w = 0" if "w < length ms" for w
    using assms that direct_step.direct [of w ms] by (cases "ms ! w") auto
  then show ?thesis by (auto simp: sum_list_eq_0_iff in_set_conv_nth)
qed

lemma direct_sum: "0 < t \<Longrightarrow> sum_list (direct_workers t) = nat (10000000 - 10000000 mod t)"
  by (simp add: direct_workers_def sum_list_triv nat_mult_distrib [symmetric] minus_mod_eq_mult_div)

text \<open>
  C28: No line is lost and nobody waits for ever. For a positive number of lines and of hardware threads, \<^verbatim>\<open>main\<close>
  starts at most that many threads and gives each at least one line, all of them together exactly the lines. In whatever order they and the
  logging thread run, they come to an end after at most seven steps per line and three more, the file holds whole
  lines at all times, and when nobody can go on it holds all of them. The program without the logging thread
  writes the same lines only if the number of threads divides their number: it drops the remainder.
\<close>

theorem log_programs_write:
  assumes "0 < n" "0 < t" "fits_int (n + t)"
  shows "(\<exists>ws. spawn_workers n t = Val ws \<and> int (length ws) \<le> t \<and> sum_list ws = n \<and> (\<forall>w \<in> set ws. 0 < w) \<and>
      (\<forall>k s. (log_step ^^ k) (log_start n ws) s \<longrightarrow>
        int k \<le> 7 * n + 3 \<and> (\<exists>j \<le> nat n. log_file s = log_text j) \<and>
        ((\<nexists>s'. log_step s s') \<longrightarrow> log_file s = log_text (nat n)))) \<and>
    (\<forall>s. direct_step\<^sup>*\<^sup>* (direct_workers t, []) s \<longrightarrow> (\<nexists>s'. direct_step s s') \<longrightarrow>
      snd s = log_text (nat (10000000 - 10000000 mod t)))"
proof (intro conjI allI impI)
  obtain ws where ws: "spawn_workers n t = Val ws" "sum_list ws = n" "\<forall>w \<in> set ws. 0 < w" "int (length ws) \<le> t"
    by (rule workers_share [OF assms])
  have sum: "sum_list (map nat ws) = nat n" if "\<forall>w \<in> set ws. 0 < w" "sum_list ws = n" for ws n
    using that by (induction ws arbitrary: n) (auto simp: nat_add_distrib sum_list_nonneg less_imp_le)
  have start: "log_written (nat n) (log_start n ws) 0" "log_measure (log_start n ws) = 7 * nat n + 3"
    using sum [OF ws(3,2)] by (simp_all add: log_written_def log_start_def log_measure_def)
  show "\<exists>ws. spawn_workers n t = Val ws \<and> int (length ws) \<le> t \<and> sum_list ws = n \<and> (\<forall>w \<in> set ws. 0 < w) \<and>
      (\<forall>k s. (log_step ^^ k) (log_start n ws) s \<longrightarrow>
        int k \<le> 7 * n + 3 \<and> (\<exists>j \<le> nat n. log_file s = log_text j) \<and>
        ((\<nexists>s'. log_step s s') \<longrightarrow> log_file s = log_text (nat n)))"
  proof (intro exI [of _ ws] conjI allI impI ws)
    fix k s assume run: "(log_step ^^ k) (log_start n ws) s"
    obtain j where j: "log_written (nat n) s j" "k + log_measure s \<le> 7 * nat n + 3"
      using log.runs [OF run] start by metis
    show "int k \<le> 7 * n + 3" using j(2) assms(1) by linarith
    show "\<exists>j \<le> nat n. log_file s = log_text j" using log_written_prefix [OF j(1)] by blast
    show "log_file s = log_text (nat n)" if "\<nexists>s'. log_step s s'" by (rule log_finished [OF j(1) that])
  qed
next
  fix s assume run: "direct_step\<^sup>*\<^sup>* (direct_workers t, []) s" and stop: "\<nexists>s'. direct_step s s'"
  have "sum_list (fst s) = 0" using direct_finished [of "fst s" "snd s"] stop by simp
  then show "snd s = log_text (nat (10000000 - 10000000 mod t))"
    using direct_runs [of "direct_workers t" "fst s" "snd s"] run direct_sum [OF assms(2)]
    by (simp del: sum_list_eq_0_iff)
qed

theorem log_programs_write_witness:
  "(\<exists>ws. spawn_workers 3 2 = Val ws \<and> int (length ws) \<le> 2 \<and> sum_list ws = 3 \<and> (\<forall>w \<in> set ws. 0 < w) \<and>
      (\<forall>k s. (log_step ^^ k) (log_start 3 ws) s \<longrightarrow>
        int k \<le> 24 \<and> (\<exists>j \<le> 3. log_file s = log_text j) \<and>
        ((\<nexists>s'. log_step s s') \<longrightarrow> log_file s = log_text 3)))"
  using log_programs_write [of 3 2] by (simp add: fits_int_def)

text \<open>
  Asked for no lines at all, \<^verbatim>\<open>main\<close> divides by zero.
\<close>

theorem no_lines_asked: "0 < t \<Longrightarrow> spawn_workers 0 t = Undef"
  by (simp add: spawn_workers_def)

theorem no_lines_asked_witness: "spawn_workers 0 4 = Undef"
  by (rule no_lines_asked) simp

end
