(* ===== verification/FileCopy.thy ===== *)
theory FileCopy
  imports Prelude "HOL-Library.Multiset"
begin

text \<open>
  \<^verbatim>\<open>cpp/misc/multi_thread_copy.cpp\<close>: a file is cut into one chunk per processor, and a thread per chunk copies
  it through two streams that all threads share. \<^verbatim>\<open>do_copy\<close> runs under the lock, so that a run of the program is
  an order of the chunks. The bytes of a fresh buffer are a parameter, \<open>fresh\<close>.
\<close>

section \<open>The chunks\<close>

primrec chunk_loop :: "nat \<Rightarrow> nat \<Rightarrow> u64 \<Rightarrow> u64 \<Rightarrow> (u64 \<times> u64) list" where
  \<comment> \<open>the threads from the \<open>i\<close>-th on: \<^verbatim>\<open>pos\<close> and \<^verbatim>\<open>size\<close> of each; the product is of type \<^verbatim>\<open>size_t\<close>\<close>
  "chunk_loop i 0 chunk_size remain_size = []"
| "chunk_loop i (Suc n) chunk_size remain_size =
     (let thread_size = (if remain_size > chunk_size then chunk_size else remain_size) in
      (of_nat i * chunk_size, thread_size) # chunk_loop (Suc i) n chunk_size (remain_size - thread_size))"

definition copy_plan :: "u32 \<Rightarrow> u64 \<Rightarrow> (u64 \<times> u64) list option" where
  \<comment> \<open>\<^verbatim>\<open>start\<close>, for what \<^verbatim>\<open>tellg\<close> returned; \<open>None\<close>: the division by zero\<close>
  "copy_plan cpu_count remain_size =
     (if cpu_count = 0 then None
      else Some (chunk_loop 0 (unat cpu_count) ((remain_size + ucast cpu_count - 1) div ucast cpu_count) remain_size))"

section \<open>The copy\<close>

record copy_state =
  in_good :: bool
  out_bytes :: bytes

definition do_copy :: "(nat \<Rightarrow> bytes) \<Rightarrow> bytes \<Rightarrow> u64 \<times> u64 \<Rightarrow> copy_state \<Rightarrow> copy_state" where
  \<comment> \<open>a failed stream neither seeks nor reads; the buffer is written all the same\<close>
  "do_copy fresh source chunk s =
     (case chunk of (pos, thread_size) \<Rightarrow>
        let n = unat thread_size;
            got = (if in_good s \<and> 0 \<le> sint pos then take n (drop (unat pos) source) else []) in
        \<lparr>in_good = in_good s \<and> 0 \<le> sint pos \<and> length got = n,
         out_bytes = out_bytes s @ got @ drop (length got) (fresh n)\<rparr>)"

definition told :: "bytes option \<Rightarrow> u64" where
  \<comment> \<open>what \<^verbatim>\<open>tellg\<close> says at the end: \<open>-1\<close> of a stream that has failed, because there is no such file\<close>
  "told source = (case source of None \<Rightarrow> - 1 | Some content \<Rightarrow> of_nat (length content))"

definition copy_file :: "(nat \<Rightarrow> bytes) \<Rightarrow> bytes option \<Rightarrow> (u64 \<times> u64) list \<Rightarrow> copy_state" where
  \<comment> \<open>the stream of a file that does not exist, \<open>None\<close>, has failed from the start\<close>
  "copy_file fresh source order =
     (case source of
        None \<Rightarrow> foldl (\<lambda>s chunk. do_copy fresh [] chunk s) \<lparr>in_good = False, out_bytes = []\<rparr> order
      | Some content \<Rightarrow> foldl (\<lambda>s chunk. do_copy fresh content chunk s) \<lparr>in_good = True, out_bytes = []\<rparr> order)"

definition cut :: "bytes \<Rightarrow> u64 \<times> u64 \<Rightarrow> bytes" where
  "cut source chunk = take (unat (snd chunk)) (drop (unat (fst chunk)) source)"

section \<open>What is copied\<close>

lemma sint_small:
  fixes w :: u64
  assumes "unat w < 2 ^ 63"
  shows "0 \<le> sint w"
proof -
  have "int (unat w) < 2 ^ 63" using assms by (metis of_nat_less_iff of_nat_numeral of_nat_power)
  moreover have "- (2 ^ 63) \<le> int (unat w)" by (rule order_trans [of _ 0]) simp_all
  ultimately have "signed_take_bit 63 (int (unat w)) = int (unat w)" by (intro signed_take_bit_int_eq_self)
  then show ?thesis by (simp add: sint_uint uint_nat del: of_nat_unat)
qed

lemma unat_chunk_pos:
  fixes c :: u64
  assumes "i * unat c < 2 ^ 63"
  shows "unat (of_nat i * c) = i * unat c" "0 \<le> sint (of_nat i * c)"
proof -
  have "of_nat i * c = of_nat (i * unat c)" by simp
  moreover have "unat (of_nat (i * unat c) :: u64) = i * unat c" by (rule unat_of_nat_small) (use assms in simp)
  ultimately show u: "unat (of_nat i * c) = i * unat c" by (simp only:)
  show "0 \<le> sint (of_nat i * c)" by (rule sint_small) (use u assms in \<open>simp only:\<close>)
qed

definition chunk_inside :: "bytes \<Rightarrow> u64 \<times> u64 \<Rightarrow> bool" where
  \<comment> \<open>the position is one the stream can seek to, and the whole chunk is in the file\<close>
  "chunk_inside source chunk \<longleftrightarrow> 0 \<le> sint (fst chunk) \<and> length (cut source chunk) = unat (snd chunk)"

lemma chunk_loop_cuts:
  assumes "(i + n) * unat chunk < 2 ^ 63" "length source \<le> (i + n) * unat chunk"
    and "unat remain = length source - i * unat chunk"
  shows "concat (map (cut source) (chunk_loop i n chunk remain)) = drop (i * unat chunk) source \<and>
    (\<forall>p \<in> set (chunk_loop i n chunk remain). chunk_inside source p)"
  using assms
proof (induction n arbitrary: i remain)
  case (Suc n)
  define part where "part = (if remain > chunk then chunk else remain)"
  have part: "unat part = min (unat chunk) (unat remain)" "part \<le> remain"
    by (auto simp: part_def word_less_nat_alt word_le_nat_alt)
  have "i * unat chunk \<le> (i + Suc n) * unat chunk" by (rule mult_right_mono) simp_all
  then have pos: "i * unat chunk < 2 ^ 63" using Suc.prems(1) by linarith
  have one: "cut source (of_nat i * chunk, part) = take (unat chunk) (drop (i * unat chunk) source)"
    using Suc.prems(3) by (simp add: cut_def part unat_chunk_pos [OF pos] min_def)
  have "unat (remain - part) = length source - Suc i * unat chunk"
    using part Suc.prems(3) by (simp add: unat_sub)
  from Suc.IH [OF _ _ this] Suc.prems(1,2)
  have rest: "concat (map (cut source) (chunk_loop (Suc i) n chunk (remain - part))) = drop (Suc i * unat chunk) source"
    "\<forall>p \<in> set (chunk_loop (Suc i) n chunk (remain - part)). chunk_inside source p"
    by simp_all
  have "chunk_inside source (of_nat i * chunk, part)"
    using Suc.prems(3) by (simp add: chunk_inside_def one part unat_chunk_pos [OF pos] min.commute)
  moreover have "take (unat chunk) (drop (i * unat chunk) source) @ drop (Suc i * unat chunk) source = drop (i * unat chunk) source"
    by (simp add: add.commute flip: drop_drop)
  ultimately show ?case using rest one by (simp add: Let_def flip: part_def)
qed simp

lemma unat_cpu [simp]: "unat (ucast (cpu :: u32) :: u64) = unat cpu"
  using unsigned_less [of cpu, where ?'a = nat] by (simp add: unsigned_ucast_eq take_bit_nat_eq_self)

lemma plan_cuts:
  assumes "cpu \<noteq> 0" "length source + unat cpu < 2 ^ 63"
  obtains plan where "copy_plan cpu (of_nat (length source)) = Some plan" "concat (map (cut source) plan) = source"
    "\<forall>p \<in> set plan. chunk_inside source p"
proof -
  let ?n = "length source" and ?t = "unat cpu"
  have t: "0 < ?t" using assms(1) by (simp add: unat_gt_0)
  define chunk :: u64 where "chunk = (of_nat ?n + ucast cpu - 1) div ucast cpu"
  have "of_nat ?n + ucast cpu - 1 = (of_nat (?n + ?t - 1) :: u64)" using t by (simp add: of_nat_diff)
  then have c: "unat chunk = (?n + ?t - 1) div ?t"
    using assms(2) by (simp add: chunk_def unat_div unat_of_nat_small)
  have "?n + ?t - 1 < ?t + ?t * unat chunk" unfolding c by (rule dividend_less_times_div [OF t])
  then have "?n \<le> ?t * unat chunk" by linarith
  moreover have "?t * unat chunk \<le> ?n + ?t - 1" unfolding c by (rule times_div_less_eq_dividend)
  then have "?t * unat chunk < 2 ^ 63" using assms(2) by linarith
  ultimately have "concat (map (cut source) (chunk_loop 0 ?t chunk (of_nat ?n))) = source"
    "\<forall>p \<in> set (chunk_loop 0 ?t chunk (of_nat ?n)). chunk_inside source p"
    using chunk_loop_cuts [of 0 ?t chunk source "of_nat ?n"] assms(2) by (simp_all add: unat_of_nat_small)
  with assms(1) show thesis by (intro that) (simp_all add: copy_plan_def chunk_def)
qed

lemma do_copy_chunk_inside:
  "chunk_inside source p \<Longrightarrow> in_good s \<Longrightarrow> length (fresh (unat (snd p))) = unat (snd p) \<Longrightarrow>
    do_copy fresh source p s = \<lparr>in_good = True, out_bytes = out_bytes s @ cut source p\<rparr>"
  by (cases p) (simp add: do_copy_def chunk_inside_def cut_def Let_def)

lemma copies_in_order:
  assumes "\<And>n. length (fresh n) = n"
  shows "\<forall>p \<in> set order. chunk_inside source p \<Longrightarrow> in_good s \<Longrightarrow>
    foldl (\<lambda>s chunk. do_copy fresh source chunk s) s order =
      \<lparr>in_good = True, out_bytes = out_bytes s @ concat (map (cut source) order)\<rparr>"
  by (induction order arbitrary: s) (use assms in \<open>simp_all add: do_copy_chunk_inside\<close>)

lemma failed_copies:
  "length (fresh 0) = 0 \<Longrightarrow> \<forall>p \<in> set order. p = (0, 0) \<Longrightarrow>
    foldl (\<lambda>s chunk. do_copy fresh [] chunk s) \<lparr>in_good = False, out_bytes = []\<rparr> order = \<lparr>in_good = False, out_bytes = []\<rparr>"
  by (induction order) (simp_all add: do_copy_def)

lemma no_file_chunks: "chunk_loop i n 0 remain = replicate n (0, 0)"
  by (induction n arbitrary: i remain) (auto simp: word_gt_0 Let_def)

lemma two_chunks:
  "copy_plan 2 2 = Some [(0, 1), (1, 1)]" "\<forall>p \<in> set [(1, 1), (0, 1)]. chunk_inside [1, 2] p"
  by (code_simp, simp add: chunk_inside_def cut_def)

text \<open>
  C29: The copy has every chunk, but not in their order. The chunks are cut so that one after the other they are
  the file. Whatever the order in which the threads get the lock, each reads its chunk completely and the target
  ends up with the chunks in that order: always the bytes of the file, and the file itself if the threads come in
  the order in which they were started. With another order the copy can differ. Of a source that does not exist the stream has failed
  from the start, and \<^verbatim>\<open>tellg\<close> says \<open>-1\<close>; two threads or more then copy empty chunks, and nothing but the state of the stream,
  which no one asks for, tells the empty target from the copy of an empty file.
\<close>

theorem chunks_copied:
  assumes "cpu \<noteq> 0" "length source + unat cpu < 2 ^ 63" "\<And>n. length (fresh n) = n"
  shows "(\<exists>plan. copy_plan cpu (told (Some source)) = Some plan \<and>
      concat (map (cut source) plan) = source \<and>
      copy_file fresh (Some source) plan = \<lparr>in_good = True, out_bytes = source\<rparr> \<and>
      (\<forall>order. mset order = mset plan \<longrightarrow>
        copy_file fresh (Some source) order = \<lparr>in_good = True, out_bytes = concat (map (cut source) order)\<rparr> \<and>
        mset (out_bytes (copy_file fresh (Some source) order)) = mset source)) \<and>
    (\<exists>plan. copy_plan 2 (told (Some [1, 2])) = Some plan \<and> out_bytes (copy_file fresh (Some [1, 2]) (rev plan)) = [2, 1]) \<and>
    (2 \<le> cpu \<longrightarrow> (\<exists>plan. copy_plan cpu (told None) = Some plan \<and>
      (\<forall>order. mset order = mset plan \<longrightarrow> copy_file fresh None order = \<lparr>in_good = False, out_bytes = []\<rparr>)))"
proof (intro conjI impI)
  obtain plan where plan: "copy_plan cpu (of_nat (length source)) = Some plan" "concat (map (cut source) plan) = source"
    "\<forall>p \<in> set plan. chunk_inside source p"
    by (rule plan_cuts [OF assms(1,2)])
  have copied: "copy_file fresh (Some source) order = \<lparr>in_good = True, out_bytes = concat (map (cut source) order)\<rparr>"
    if "mset order = mset plan" for order
    using copies_in_order [OF assms(3), of order source] plan(3) mset_eq_setD [OF that] by (simp add: copy_file_def)
  have "mset (concat (map (cut source) order)) = mset source" if "mset order = mset plan" for order
  proof -
    have "mset (concat (map (cut source) order)) = \<Sum>\<^sub># (image_mset (mset \<circ> cut source) (mset order))"
      by (induction order) auto
    also have "\<dots> = mset (concat (map (cut source) plan))"
      unfolding that by (induction plan) auto
    finally show ?thesis using plan(2) by simp
  qed
  then show "\<exists>plan. copy_plan cpu (told (Some source)) = Some plan \<and>
      concat (map (cut source) plan) = source \<and>
      copy_file fresh (Some source) plan = \<lparr>in_good = True, out_bytes = source\<rparr> \<and>
      (\<forall>order. mset order = mset plan \<longrightarrow>
        copy_file fresh (Some source) order = \<lparr>in_good = True, out_bytes = concat (map (cut source) order)\<rparr> \<and>
        mset (out_bytes (copy_file fresh (Some source) order)) = mset source)"
    using plan copied by (intro exI [of _ plan]) (auto simp: told_def)
next
  show "\<exists>plan. copy_plan 2 (told (Some [1, 2])) = Some plan \<and> out_bytes (copy_file fresh (Some [1, 2]) (rev plan)) = [2, 1]"
    using copies_in_order [OF assms(3) two_chunks(2), of "\<lparr>in_good = True, out_bytes = []\<rparr>"]
    by (simp add: told_def two_chunks(1) copy_file_def cut_def)
next
  assume "2 \<le> cpu"
  then have cpu: "2 \<le> unat cpu" by (simp add: word_le_nat_alt)
  then have "- 1 + ucast cpu - 1 = (of_nat (unat cpu - 2) :: u64)" by (simp add: of_nat_diff)
  then have "unat (- 1 + ucast cpu - 1 :: u64) = unat cpu - 2"
    using unsigned_less [of cpu, where ?'a = nat] by (simp add: unat_of_nat_small)
  then have "unat ((- 1 + ucast cpu - 1 :: u64) div ucast cpu) = 0" using cpu by (simp add: unat_div)
  then have "copy_plan cpu (- 1) = Some (replicate (unat cpu) (0, 0))"
    using assms(1) by (simp add: copy_plan_def no_file_chunks unat_eq_0)
  moreover have "copy_file fresh None order = \<lparr>in_good = False, out_bytes = []\<rparr>"
    if "mset order = mset (replicate (unat cpu) (0, 0))" for order
    using failed_copies [of fresh order] assms(3) mset_eq_setD [OF that] by (simp add: copy_file_def)
  ultimately show "\<exists>plan. copy_plan cpu (told None) = Some plan \<and>
      (\<forall>order. mset order = mset plan \<longrightarrow> copy_file fresh None order = \<lparr>in_good = False, out_bytes = []\<rparr>)"
    by (simp add: told_def)
qed

theorem chunks_copied_witness:
  "\<exists>plan. copy_plan 4 10 = Some plan \<and>
     copy_file (\<lambda>n. replicate n 0) (Some (map of_nat [0..<10])) plan =
       \<lparr>in_good = True, out_bytes = map of_nat [0..<10]\<rparr>"
  using chunks_copied [of 4 "map of_nat [0..<10]" "\<lambda>n. replicate n 0"] by (auto simp: told_def)

end
