(* ===== verification/FileItems.thy ===== *)
theory FileItems
  imports Wire
begin

text \<open>
  \<^verbatim>\<open>cpp/misc/file_writer.cpp\<close> and \<^verbatim>\<open>file_reader.cpp\<close>: a file of a header and fixed-size items, written and read
  through a stream or through a memory mapping. The number of items, \<^verbatim>\<open>8192\<close> in the source, is an argument.
  What uninitialised memory holds is an argument, too: the end of the name in the header, \<open>junk\<close>, and the
  header of the reader before it is read, \<open>stack\<close>.
\<close>

section \<open>Writing\<close>

abbreviation FILE_HEADER :: nat where "FILE_HEADER \<equiv> 20"
abbreviation ITEM_SIZE :: nat where "ITEM_SIZE \<equiv> 1024"

definition c_text :: "string \<Rightarrow> bytes" where
  \<comment> \<open>what \<^verbatim>\<open>sprintf\<close> stores\<close>
  "c_text s = map (\<lambda>c. of_nat (of_char c)) s @ [0]"

definition items_header :: "bytes \<Rightarrow> u32 \<Rightarrow> bytes" where
  "items_header junk item_size = c_text ''file-test'' @ junk @ le_enc 4 item_size"

definition fetch_item :: "nat \<Rightarrow> bytes \<Rightarrow> bytes" where
  \<comment> \<open>the item, 1024 bytes, after the call\<close>
  "fetch_item n item = (let text = c_text (''item'' @ to_string (int n)) in text @ drop (length text) item)"

definition write_stream :: "bytes \<Rightarrow> nat \<Rightarrow> bytes" where
  \<comment> \<open>the vector of items starts with zeros; an old file is truncated\<close>
  "write_stream junk item_count =
     items_header junk (of_nat item_count) @ concat (map (\<lambda>i. fetch_item i (replicate ITEM_SIZE 0)) [0..<item_count])"

definition ftruncate :: "nat \<Rightarrow> bytes \<Rightarrow> bytes" where
  "ftruncate n old = take n old @ replicate (n - length old) 0"

definition write_mapped :: "bytes \<Rightarrow> nat \<Rightarrow> bytes \<Rightarrow> bytes" where
  \<comment> \<open>the file that is there keeps its bytes where nothing is written\<close>
  "write_mapped junk item_count old =
     (let mapped = ftruncate (FILE_HEADER + item_count * ITEM_SIZE) old in
      items_header junk (of_nat item_count) @
      concat (map (\<lambda>i. fetch_item i (take ITEM_SIZE (drop (FILE_HEADER + i * ITEM_SIZE) mapped))) [0..<item_count]))"

section \<open>Reading\<close>

datatype reader_exit = Exit_failure | Length_error

definition item_of :: "bytes \<Rightarrow> bytes \<times> bytes" where
  "item_of bs = (take ITEM_SIZE bs, drop ITEM_SIZE bs)"

definition header_of :: "bytes \<Rightarrow> bytes \<Rightarrow> bytes" where
  \<comment> \<open>what the bytes that are there leave of the header\<close>
  "header_of stack file = take FILE_HEADER file @ drop (length (take FILE_HEADER file)) stack"

definition item_size_of :: "bytes \<Rightarrow> u32" where
  "item_size_of header = le_dec (take 4 (drop 16 header))"

definition stat_size :: "u32 \<Rightarrow> u64" where
  \<comment> \<open>\<^verbatim>\<open>sizeof(fh) + fh.item_size * sizeof(Item)\<close>, which the assertion assigns to \<^verbatim>\<open>fst.st_size\<close>\<close>
  "stat_size item_size = 20 + scast item_size * 1024"

definition resize_items :: "u32 \<Rightarrow> (reader_exit, nat) outcome" where
  \<comment> \<open>the assertion and \<^verbatim>\<open>resize\<close>; taking the address of the first of no items is undefined\<close>
  "resize_items item_size =
     (if stat_size item_size = 0 then Abort
      else if sint item_size < 0 then Throw Length_error
      else if item_size = 0 then Undef
      else Val (unat item_size))"

definition read_stream :: "bytes \<Rightarrow> bytes option \<Rightarrow> (reader_exit, bytes list) outcome" where
  \<comment> \<open>\<open>None\<close>: no such file\<close>
  "read_stream stack file =
     (case file of
        None \<Rightarrow> Throw Exit_failure
      | Some f \<Rightarrow>
          (case resize_items (item_size_of (header_of stack f)) of
             Val n \<Rightarrow>
               let data = take (n * ITEM_SIZE) (drop FILE_HEADER f) in
               Val (fst (read_times item_of n (data @ replicate (n * ITEM_SIZE - length data) 0)))
           | Throw e \<Rightarrow> Throw e | Abort \<Rightarrow> Abort | Undef \<Rightarrow> Undef))"

definition read_mapped :: "bytes option \<Rightarrow> (reader_exit, bytes list) outcome" where
  \<comment> \<open>\<^verbatim>\<open>mempcpy\<close> copies \<^verbatim>\<open>fst.st_size - sizeof(fh)\<close> bytes, where \<^verbatim>\<open>fh\<close> is a pointer of 8 bytes, to the items;
    behind the end of a file its last page is zero, and an empty file cannot be mapped\<close>
  "read_mapped file =
     (case file of
        None \<Rightarrow> Throw Exit_failure
      | Some f \<Rightarrow>
          if f = [] then Throw Exit_failure
          else (case resize_items (item_size_of (header_of (replicate FILE_HEADER 0) f)) of
             Val n \<Rightarrow>
               let copied = unat (stat_size (item_size_of (header_of (replicate FILE_HEADER 0) f)) - 8) in
               if n * ITEM_SIZE < copied then Undef
               else Val (fst (read_times item_of n (take copied (drop FILE_HEADER f))))
           | Throw e \<Rightarrow> Throw e | Abort \<Rightarrow> Abort | Undef \<Rightarrow> Undef))"

section \<open>Round trips\<close>

interpretation item: prefix_codec "\<lambda>x. x" item_of "\<lambda>x. length x = ITEM_SIZE"
  by unfold_locales (simp add: item_of_def)

lemma nat_digits_short: "n < 10 ^ Suc k \<Longrightarrow> length (nat_digits n) \<le> Suc k"
proof (induction k arbitrary: n)
  case (Suc k)
  show ?case
  proof (cases "n < 10")
    case False
    have "n div 10 < 10 ^ Suc k" using Suc.prems by (simp add: less_mult_imp_div_less)
    with Suc.IH False show ?thesis by (subst nat_digits.simps) auto
  qed (simp add: nat_digits.simps)
qed (simp add: nat_digits.simps)

lemma length_fetch_item: "n < 10 ^ 12 \<Longrightarrow> length item = ITEM_SIZE \<Longrightarrow> length (fetch_item n item) = ITEM_SIZE"
  using nat_digits_short [of n 11] by (simp add: fetch_item_def c_text_def to_string_def Let_def)

lemma sint_nonneg: "0 \<le> sint (v :: u32) \<Longrightarrow> sint v = int (unat v) \<and> unat v < 2 ^ 31"
proof -
  assume v: "0 \<le> sint v"
  have less: "sint v < 2 ^ 31" using sint_lt [of v] by simp
  have "uint v = take_bit 32 (sint v)" using uint_sint [of v] by simp
  also have "\<dots> = sint v" using v less by (intro take_bit_int_eq_self) simp_all
  finally show ?thesis using v less by (simp add: unat_eq_nat_uint nat_less_iff)
qed

lemma stat_size_nonneg:
  assumes "0 \<le> sint v"
  shows "unat (stat_size v) = 20 + unat v * 1024"
proof -
  have "(scast v :: u64) = of_int (sint v)" by simp
  then have "stat_size v = of_nat (20 + unat v * 1024)" using sint_nonneg [OF assms] by (simp add: stat_size_def)
  moreover have "unat (of_nat (20 + unat v * 1024) :: u64) = 20 + unat v * 1024"
    by (rule unat_of_nat_small) (use sint_nonneg [OF assms] in simp)
  ultimately show ?thesis by (simp only:)
qed

lemma resize_Val: "resize_items v = Val n \<longleftrightarrow> 0 \<le> sint v \<and> 0 < n \<and> unat v = n \<and> stat_size v \<noteq> 0"
  by (auto simp: resize_items_def unat_gt_0)

lemma small_item_size:
  assumes "0 < n" "n < 2 ^ 31"
  shows "resize_items (of_nat n) = Val n"
proof -
  have "unat (of_nat n :: u32) = n" using assms by (simp add: unat_of_nat_small)
  moreover have "0 \<le> sint (of_nat n :: u32)" using assms by (simp add: signed_of_nat signed_take_bit_int_eq_self)
  moreover from this stat_size_nonneg have "stat_size (of_nat n) \<noteq> 0" by fastforce
  ultimately show ?thesis using assms by (auto simp: resize_Val)
qed

lemma length_header_bytes: "length junk = 6 \<Longrightarrow> length (items_header junk v) = FILE_HEADER"
  by (simp add: items_header_def c_text_def)

lemma item_size_written:
  "length junk = 6 \<Longrightarrow> item_size_of (header_of stack (items_header junk v @ rest)) = v"
  by (simp add: item_size_of_def header_of_def items_header_def c_text_def)

lemma items_read_back:
  assumes "length junk = 6" "0 < length items" "length items < 2 ^ 31" "\<forall>x \<in> set items. length x = ITEM_SIZE"
  shows "read_stream stack (Some (items_header junk (of_nat (length items)) @ concat items)) = Val items"
proof -
  have len: "length (concat items) = length items * ITEM_SIZE"
    using assms(4) by (induction items) auto
  have "read_times item_of (length items) (concat items) = (items, [])"
    using item.reads_back [OF assms(4), of "[]"] by simp
  then show ?thesis
    using assms item_size_written [OF assms(1)] small_item_size [OF assms(2,3)]
    by (simp add: read_stream_def length_header_bytes len)
qed

lemma nth_ftruncate: "k < n \<Longrightarrow> ftruncate n old ! k = (if k < length old then old ! k else 0)"
  by (auto simp: ftruncate_def nth_append)

lemma fetch_item_zeros:
  "fetch_item i (replicate ITEM_SIZE 0) =
    (let text = c_text (''item'' @ to_string (int i)) in text @ replicate (ITEM_SIZE - length text) 0)"
  by (simp add: fetch_item_def Let_def)

lemma nth_fetch_item:
  "length (c_text (''item'' @ to_string (int n))) \<le> k \<Longrightarrow> k < length item \<Longrightarrow> fetch_item n item ! k = item ! k"
  by (simp add: fetch_item_def Let_def nth_append)

lemma mempcpy_size: "0 < sint v \<Longrightarrow> unat (stat_size v - 8) = unat v * ITEM_SIZE + 12"
  using stat_size_nonneg [of v] by (subst unat_sub) (simp_all add: word_le_nat_alt)

lemma read_mapped_overflows:
  assumes "f \<noteq> []" "v = item_size_of (header_of (replicate FILE_HEADER 0) f)" "0 < sint v"
  shows "read_mapped (Some f) = Undef"
proof -
  have "v \<noteq> 0" using assms(3) by auto
  then have "resize_items v = Val (unat v)"
    using assms(3) stat_size_nonneg [of v] by (auto simp: resize_Val unat_gt_0)
  then show ?thesis
    using mempcpy_size [OF assms(3)] assms(1) by (simp add: read_mapped_def Let_def flip: assms(2))
qed

lemma read_mapped_Val: "read_mapped file \<noteq> Val items"
proof
  assume v: "read_mapped file = Val items"
  then obtain f where f: "file = Some f" "f \<noteq> []" by (auto simp: read_mapped_def split: option.splits if_splits)
  let ?v = "item_size_of (header_of (replicate FILE_HEADER 0) f)"
  from v f obtain n where "resize_items ?v = Val n" by (auto simp: read_mapped_def split: outcome.splits)
  then have "0 \<le> sint ?v" "?v \<noteq> 0" by (auto simp: resize_Val)
  moreover from this have "sint ?v \<noteq> 0" using signed_eq_0_iff by blast
  ultimately have "0 < sint ?v" by (simp add: order_less_le)
  with read_mapped_overflows [OF f(2) refl] v f(1) show False by simp
qed

text \<open>
  C30: A written file reads back. Items written through the stream come back as they were written, each its text
  and zeros; items written through a mapping start with the same texts, and are followed, byte by byte, by what the old file held
  there, and by zeros where it had ended. So the two writers agree on a new file. Read through the mapping
  no file is: every one whose header has a positive number of items makes \<^verbatim>\<open>mempcpy\<close> write exactly twelve bytes behind them, because the size of a
  pointer is taken for that of the header.
\<close>

theorem item_files_round_trip:
  assumes "0 < n" "n < 2 ^ 31" "length junk = 6"
  shows "read_stream stack (Some (write_stream junk n)) = Val (map (\<lambda>i.
      let text = c_text (''item'' @ to_string (int i)) in text @ replicate (ITEM_SIZE - length text) 0) [0..<n]) \<and>
    (\<exists>items. read_stream stack (Some (write_mapped junk n old)) = Val items \<and> length items = n \<and>
      (\<forall>i<n. let text = c_text (''item'' @ to_string (int i)) in
        length (items ! i) = ITEM_SIZE \<and> take (length text) (items ! i) = text \<and>
        (\<forall>k. length text \<le> k \<and> k < ITEM_SIZE \<longrightarrow> items ! i ! k =
          (let pos = FILE_HEADER + i * ITEM_SIZE + k in if pos < length old then old ! pos else 0)))) \<and>
    write_mapped junk n [] = write_stream junk n \<and>
    (\<forall>f v. f \<noteq> [] \<and> v = item_size_of (header_of (replicate FILE_HEADER 0) f) \<and> 0 < sint v \<longrightarrow>
      read_mapped (Some f) = Undef \<and> unat (stat_size v - 8) = unat v * ITEM_SIZE + 12) \<and>
    (\<forall>file items. read_mapped file \<noteq> Val items)"
proof (intro conjI)
  have short: "i < 10 ^ 12" if "i < n" for i using that assms(2) by simp
  define zeros where "zeros = map (\<lambda>i. fetch_item i (replicate ITEM_SIZE 0)) [0..<n]"
  have zeros: "length zeros = n" "\<forall>x \<in> set zeros. length x = ITEM_SIZE"
    using short by (auto simp: zeros_def intro!: length_fetch_item)
  show "read_stream stack (Some (write_stream junk n)) = Val (map (\<lambda>i.
      let text = c_text (''item'' @ to_string (int i)) in text @ replicate (ITEM_SIZE - length text) 0) [0..<n])"
    unfolding fetch_item_zeros [symmetric]
    using items_read_back [of junk zeros stack] assms zeros by (simp add: write_stream_def zeros_def)
  define mapped where "mapped = ftruncate (FILE_HEADER + n * ITEM_SIZE) old"
  define place where "place i = take ITEM_SIZE (drop (FILE_HEADER + i * ITEM_SIZE) mapped)" for i
  define kept where "kept = map (\<lambda>i. fetch_item i (place i)) [0..<n]"
  have size: "length mapped = FILE_HEADER + n * ITEM_SIZE" by (simp add: mapped_def ftruncate_def)
  have inside: "i * ITEM_SIZE + ITEM_SIZE \<le> n * ITEM_SIZE" if "i < n" for i
    using mult_le_mono1 [of "Suc i" n ITEM_SIZE] that by simp
  have piece: "length (place i) = ITEM_SIZE" if "i < n" for i
    using inside [OF that] size by (simp add: place_def)
  have kept: "length kept = n" "\<forall>x \<in> set kept. length x = ITEM_SIZE"
    using piece short by (auto simp: kept_def intro!: length_fetch_item)
  have "write_mapped junk n old = items_header junk (of_nat (length kept)) @ concat kept"
    unfolding kept(1) by (simp only: write_mapped_def Let_def kept_def mapped_def place_def)
  then have "read_stream stack (Some (write_mapped junk n old)) = Val kept"
    using items_read_back [of junk kept stack] assms kept by metis
  moreover have "take (length t) (kept ! i) = t" if "i < n" "t = c_text (''item'' @ to_string (int i))" for i t
    using that by (simp add: kept_def fetch_item_def Let_def)
  moreover have "kept ! i ! k = (if FILE_HEADER + i * ITEM_SIZE + k < length old then old ! (FILE_HEADER + i * ITEM_SIZE + k) else 0)"
    if "i < n" "length (c_text (''item'' @ to_string (int i))) \<le> k" "k < ITEM_SIZE" for i k
  proof -
    have "kept ! i ! k = place i ! k" using that piece by (simp add: kept_def nth_fetch_item)
    also have "\<dots> = mapped ! (FILE_HEADER + i * ITEM_SIZE + k)" using that(3) inside [OF that(1)] size by (simp add: place_def)
    also have "\<dots> = (if FILE_HEADER + i * ITEM_SIZE + k < length old then old ! (FILE_HEADER + i * ITEM_SIZE + k) else 0)"
      unfolding mapped_def by (rule nth_ftruncate) (use inside [OF that(1)] that(3) in linarith)
    finally show ?thesis .
  qed
  ultimately show "\<exists>items. read_stream stack (Some (write_mapped junk n old)) = Val items \<and> length items = n \<and>
      (\<forall>i<n. let text = c_text (''item'' @ to_string (int i)) in
        length (items ! i) = ITEM_SIZE \<and> take (length text) (items ! i) = text \<and>
        (\<forall>k. length text \<le> k \<and> k < ITEM_SIZE \<longrightarrow> items ! i ! k =
          (let pos = FILE_HEADER + i * ITEM_SIZE + k in if pos < length old then old ! pos else 0)))"
    using kept by (intro exI [of _ kept]) (simp add: Let_def)
next
  show "write_mapped junk n [] = write_stream junk n"
  proof -
    have "take ITEM_SIZE (drop (FILE_HEADER + i * ITEM_SIZE) (ftruncate (FILE_HEADER + n * ITEM_SIZE) [])) = replicate ITEM_SIZE 0"
      if "i < n" for i
      using mult_le_mono1 [of "Suc i" n ITEM_SIZE] that by (simp add: ftruncate_def min_def)
    then have "map (\<lambda>i. fetch_item i (take ITEM_SIZE (drop (FILE_HEADER + i * ITEM_SIZE)
        (ftruncate (FILE_HEADER + n * ITEM_SIZE) [])))) [0..<n] = map (\<lambda>i. fetch_item i (replicate ITEM_SIZE 0)) [0..<n]"
      by (intro map_cong) simp_all
    then show ?thesis by (simp only: write_mapped_def write_stream_def Let_def)
  qed
qed (use read_mapped_overflows mempcpy_size read_mapped_Val in blast)+

theorem item_files_round_trip_witness:
  "read_stream [] (Some (write_stream (replicate 6 7) 8192)) =
     Val (map (\<lambda>i. let text = c_text (''item'' @ to_string (int i)) in text @ replicate (ITEM_SIZE - length text) 0) [0..<8192])"
  using item_files_round_trip [of 8192 "replicate 6 7" "[]"] by simp

end
