(* ===== verification/CharArrays.thy ===== *)
theory CharArrays
  imports Prelude
begin

text \<open>
  \<^verbatim>\<open>cpp/misc/bits.cpp\<close>: \<^verbatim>\<open>EncodeCharArray\<close> and \<^verbatim>\<open>DecodeCharArray\<close> copy an array of \<open>N\<close> elements of \<open>ssize\<close>
  bytes to a buffer and back. \<open>Undef\<close> stands for a \<^verbatim>\<open>memcpy\<close> that leaves one of its arrays.
\<close>

section \<open>The copies\<close>

abbreviation dsize :: nat where "dsize \<equiv> 4"  \<comment> \<open>\<^verbatim>\<open>sizeof(int)\<close>\<close>

definition step_of :: "nat \<Rightarrow> nat" where
  "step_of ssize = (if dsize \<le> ssize then 1 else dsize div ssize)"

definition copy_part :: "bytes \<Rightarrow> nat \<Rightarrow> nat \<Rightarrow> bytes \<Rightarrow> bytes option" where
  \<comment> \<open>\<^verbatim>\<open>memcpy(dst + offset, src + offset, n)\<close>\<close>
  "copy_part src offset n dst =
     (if offset + n \<le> length src \<and> offset + n \<le> length dst
      then Some (take offset dst @ take n (drop offset src) @ drop (offset + n) dst) else None)"

function copy_element :: "nat \<Rightarrow> bytes \<Rightarrow> nat \<Rightarrow> nat \<Rightarrow> bytes \<Rightarrow> (nat \<times> bytes) option" where
  \<comment> \<open>the inner loop; no type has the size 0\<close>
  "copy_element ssize src j offset dst =
     (if j < dsize \<and> 0 < ssize then
        let n = min (dsize - j) (step_of ssize * ssize) in
        (case copy_part src offset n dst of
           None \<Rightarrow> None
         | Some dst' \<Rightarrow> copy_element ssize src (j + ssize) (offset + n) dst')
      else Some (offset, dst))"
  by pat_completeness auto
termination by (relation "measure (\<lambda>(ssize, src, j, offset, dst). dsize - j)") auto

function copy_elements :: "nat \<Rightarrow> nat \<Rightarrow> bytes \<Rightarrow> nat \<Rightarrow> nat \<Rightarrow> bytes \<Rightarrow> bytes option" where
  "copy_elements N ssize src i offset dst =
     (if i < N \<and> 0 < step_of ssize then
        (case copy_element ssize src 0 offset dst of
           None \<Rightarrow> None
         | Some (offset', dst') \<Rightarrow> copy_elements N ssize src (i + step_of ssize) offset' dst')
      else Some dst)"
  by pat_completeness auto
termination by (relation "measure (\<lambda>(N, ssize, src, i, offset, dst). N - i)") auto

declare copy_element.simps [simp del] copy_elements.simps [simp del]

definition EncodeCharArray :: "nat \<Rightarrow> nat \<Rightarrow> bytes \<Rightarrow> bytes \<Rightarrow> (unit, bytes) outcome" where
  \<comment> \<open>the buffer afterwards\<close>
  "EncodeCharArray N ssize out array =
     (if ssize \<ge> dsize \<or> dsize mod ssize = 0 then
        (case copy_elements N ssize array 0 0 out of None \<Rightarrow> Undef | Some out \<Rightarrow> Val out)
      else Abort)"

definition DecodeCharArray :: "nat \<Rightarrow> nat \<Rightarrow> bytes \<Rightarrow> bytes \<Rightarrow> (unit, bytes) outcome" where
  \<comment> \<open>the array afterwards\<close>
  "DecodeCharArray N ssize encoded array =
     (if ssize \<ge> dsize \<or> dsize mod ssize = 0 then
        (case copy_elements N ssize encoded 0 0 array of None \<Rightarrow> Undef | Some array \<Rightarrow> Val array)
      else Abort)"

section \<open>What is copied\<close>

definition copied_to :: "bytes \<Rightarrow> bytes \<Rightarrow> nat \<Rightarrow> bytes" where
  "copied_to src dst offset = take offset src @ drop offset dst"

definition both_hold :: "bytes \<Rightarrow> bytes \<Rightarrow> nat \<Rightarrow> bool" where
  "both_hold src dst n \<longleftrightarrow> n \<le> length src \<and> n \<le> length dst"

lemma both_hold_less: "both_hold src dst n \<Longrightarrow> m \<le> n \<Longrightarrow> both_hold src dst m"
  by (simp add: both_hold_def)

lemma copy_part_next:
  "both_hold src dst offset \<Longrightarrow> copy_part src offset n (copied_to src dst offset) =
     (if both_hold src dst (offset + n) then Some (copied_to src dst (offset + n)) else None)"
  by (auto simp: copy_part_def copied_to_def both_hold_def take_add) (simp add: add.commute)

definition bytes_per_round :: "nat \<Rightarrow> nat" where
  \<comment> \<open>what a round of the outer loop copies\<close>
  "bytes_per_round ssize = (if ssize = 1 then 10 else if ssize = 2 then 6 else dsize)"

primrec copy_row :: "bytes \<Rightarrow> nat list \<Rightarrow> nat \<Rightarrow> bytes \<Rightarrow> (nat \<times> bytes) option" where
  \<comment> \<open>copies of the given sizes one after the other\<close>
  "copy_row src [] offset dst = Some (offset, dst)"
| "copy_row src (n # ns) offset dst =
     (case copy_part src offset n dst of None \<Rightarrow> None | Some dst' \<Rightarrow> copy_row src ns (offset + n) dst')"

lemma copy_row_spec:
  "both_hold src dst offset \<Longrightarrow> copy_row src ns offset (copied_to src dst offset) =
     (if both_hold src dst (offset + sum_list ns)
      then Some (offset + sum_list ns, copied_to src dst (offset + sum_list ns)) else None)"
proof (induction ns arbitrary: offset)
  case (Cons n ns)
  show ?case
  proof (cases "both_hold src dst (offset + n)")
    case True
    then show ?thesis using Cons.IH [OF True] Cons.prems by (simp add: copy_part_next add.assoc)
  next
    case False
    then have "\<not> both_hold src dst (offset + (n + sum_list ns))" by (auto simp: both_hold_def)
    then show ?thesis using Cons.prems False by (simp add: copy_part_next)
  qed
qed simp

lemma copy_element_row:
  "copy_element 1 src 0 offset dst = copy_row src [4, 3, 2, 1] offset dst"
  "copy_element 2 src 0 offset dst = copy_row src [4, 2] offset dst"
  "dsize \<le> ssize \<Longrightarrow> copy_element ssize src 0 offset dst = copy_row src [4] offset dst"
  by (simp_all add: copy_element.simps step_of_def Let_def split: option.splits)

lemma copy_element_spec:
  assumes "ssize = 1 \<or> ssize = 2 \<or> dsize \<le> ssize" "both_hold src dst offset"
  shows "copy_element ssize src 0 offset (copied_to src dst offset) =
    (if both_hold src dst (offset + bytes_per_round ssize)
     then Some (offset + bytes_per_round ssize, copied_to src dst (offset + bytes_per_round ssize)) else None)"
  using assms(1) copy_row_spec [OF assms(2)] by (auto simp: copy_element_row bytes_per_round_def simp del: copy_row.simps One_nat_def)

definition rounds_from :: "nat \<Rightarrow> nat \<Rightarrow> nat" where
  "rounds_from n step = (n + step - 1) div step"

lemma rounds_from_Suc: "0 < step \<Longrightarrow> 0 < n \<Longrightarrow> rounds_from n step = Suc (rounds_from (n - step) step)"
  by (cases "n \<le> step") (auto simp: rounds_from_def div_if le_div_geq)

lemma copy_elements_spec:
  assumes "ssize = 1 \<or> ssize = 2 \<or> dsize \<le> ssize" "both_hold src dst offset"
  shows "copy_elements N ssize src i offset (copied_to src dst offset) =
    (let end = offset + rounds_from (N - i) (step_of ssize) * bytes_per_round ssize in
     if both_hold src dst end then Some (copied_to src dst end) else None)"
  using assms(2)
proof (induction "N - i" arbitrary: i offset rule: less_induct)
  case less
  let ?step = "step_of ssize" and ?per = "bytes_per_round ssize"
  have step: "0 < ?step" using assms(1) by (auto simp: step_of_def)
  show ?case
  proof (cases "i < N")
    case True
    have rounds: "rounds_from (N - i) ?step = Suc (rounds_from (N - (i + ?step)) ?step)"
      using rounds_from_Suc [OF step, of "N - i"] True by simp
    show ?thesis
    proof (cases "both_hold src dst (offset + ?per)")
      case next_part: True
      have "N - (i + ?step) < N - i" using True step by simp
      from less.hyps [OF this next_part] show ?thesis
        using True step copy_element_spec [OF assms(1) less.prems] next_part
        by (subst copy_elements.simps) (simp add: rounds Let_def add.assoc)
    next
      case False
      then have "\<not> both_hold src dst (offset + Suc m * ?per)" for m
        using both_hold_less [of src dst "offset + Suc m * ?per" "offset + ?per"] by auto
      then show ?thesis
        using True step copy_element_spec [OF assms(1) less.prems] False
        by (subst copy_elements.simps) (simp add: rounds Let_def)
    qed
  next
    case False
    then show ?thesis using less.prems step by (simp add: copy_elements.simps rounds_from_def Let_def)
  qed
qed

text \<open>
  Only arrays of four-byte elements survive. For them encoding copies the array, and decoding what was encoded
  gives it back. Elements of one or two bytes are copied over and over, ten or six bytes in a round that should copy four, so
  that every such array is overrun in both directions; of wider elements only the first four bytes per
  element are copied, counted from the start of the array; and three bytes stop at the assertion.
\<close>

theorem char_arrays_copied:
  assumes "0 < N" "length array = N * ssize" "length out = N * ssize" "length other = N * ssize"
  shows "(ssize = 4 \<longrightarrow> EncodeCharArray N ssize out array = Val array \<and> DecodeCharArray N ssize array other = Val array) \<and>
    (ssize = 1 \<or> ssize = 2 \<longrightarrow> EncodeCharArray N ssize out array = Undef \<and> DecodeCharArray N ssize out array = Undef) \<and>
    (4 \<le> ssize \<longrightarrow> EncodeCharArray N ssize out array = Val (take (4 * N) array @ drop (4 * N) out)) \<and>
    (ssize = 3 \<longrightarrow> EncodeCharArray N ssize out array = Abort)"
proof -
  have start: "both_hold src dst 0" "copied_to src dst 0 = dst" for src dst :: bytes
    by (simp_all add: both_hold_def copied_to_def)
  note copied = copy_elements_spec [OF _ start(1), where i = 0 and N = N, unfolded start(2)]
  have wide: "copy_elements N ssize src 0 0 dst = Some (copied_to src dst (4 * N))"
    if "4 \<le> ssize" "length src = N * ssize" "length dst = N * ssize" for src dst
  proof -
    have "N * 4 \<le> N * ssize" using that(1) by simp
    then show ?thesis
      using copied [of ssize src dst] that
      by (simp add: step_of_def bytes_per_round_def rounds_from_def both_hold_def mult.commute Let_def)
  qed
  have narrow: "copy_elements N ssize src 0 0 dst = None"
    if "ssize = 1 \<or> ssize = 2" "length dst = N * ssize" for src dst
  proof -
    have "N \<le> (N + 3) div 4 * 4" "N \<le> (N + 1) div 2 * 2" by linarith+
    then have "N * ssize < rounds_from N (step_of ssize) * bytes_per_round ssize"
      using that(1) assms(1) by (auto simp: step_of_def bytes_per_round_def rounds_from_def)
    then show ?thesis using copied [of ssize src dst] that by (auto simp: both_hold_def Let_def)
  qed
  show ?thesis
    using wide [of array out] wide [of array other] narrow [of out array] narrow [of array out] assms
    by (auto simp: EncodeCharArray_def DecodeCharArray_def copied_to_def)
qed

theorem char_arrays_copied_witness:
  "EncodeCharArray 2 4 (replicate 8 0) [1, 2, 3, 4, 5, 6, 7, 8] = Val [1, 2, 3, 4, 5, 6, 7, 8] \<and>
    EncodeCharArray 3 2 (replicate 6 0) [1, 2, 3, 4, 5, 6] = Undef"
  using char_arrays_copied [of 2 "[1, 2, 3, 4, 5, 6, 7, 8]" 4 "replicate 8 0" "replicate 8 0"]
    char_arrays_copied [of 3 "[1, 2, 3, 4, 5, 6]" 2 "replicate 6 0" "replicate 6 0"] by simp

end
