(* ===== verification/DebugAlloc.thy ===== *)
theory DebugAlloc
  imports Wire
begin

text \<open>
  \<^verbatim>\<open>cpp/model/new/new.cpp\<close>: the debugging \<^verbatim>\<open>operator new\<close>, which keeps a header with a magic number and the
  place of the call in front of the block, and the \<^verbatim>\<open>operator delete\<close> that looks for it. What \<^verbatim>\<open>malloc\<close> returns
  is an argument; the result of \<open>operator_delete\<close> is the address that is passed to \<^verbatim>\<open>free\<close>.
\<close>

section \<open>The operators\<close>

definition alloc_magic :: u64 where "alloc_magic = 0x01332bfd"

abbreviation head_size :: nat where "head_size \<equiv> 64"

definition snprintf_text :: "nat \<Rightarrow> string \<Rightarrow> bytes" where
  \<comment> \<open>what \<^verbatim>\<open>snprintf\<close> stores in a buffer of \<open>n > 0\<close> bytes\<close>
  "snprintf_text n s = take (n - 1) (map (\<lambda>c. of_nat (of_char c)) s) @ [0]"

definition operator_new :: "(u64 \<Rightarrow> nat option) \<Rightarrow> u64 \<Rightarrow> string \<Rightarrow> int \<Rightarrow> mem \<Rightarrow> (unit, nat \<times> mem) outcome" where
  \<comment> \<open>also \<^verbatim>\<open>operator new[]\<close>; writing through the null pointer is undefined\<close>
  "operator_new malloc block_size place line m =
     (case malloc (block_size + of_nat head_size) of
        None \<Rightarrow> Undef
      | Some ptr \<Rightarrow>
          let m1 = poke m ptr (le_enc 8 alloc_magic);
              m2 = poke m1 (ptr + 8) (snprintf_text (head_size - 8) (place @ '':'' @ to_string line)) in
          Val (ptr + head_size, m2))"

definition operator_delete :: "nat \<Rightarrow> mem \<Rightarrow> (unit, nat option) outcome" where
  \<comment> \<open>also \<^verbatim>\<open>operator delete[]\<close>; below the header size there is no memory to look at\<close>
  "operator_delete ptr m =
     (if ptr = 0 then Val None
      else if ptr < head_size then Undef
      else if le_dec (peek m (ptr - head_size) 8) \<noteq> alloc_magic then Val (Some ptr)
      else Val (Some (ptr - head_size)))"

section \<open>Blocks are given back\<close>

lemma snprintf_short: "0 < n \<Longrightarrow> length (snprintf_text n s) \<le> n"
  by (simp add: snprintf_text_def)

lemma new_writes_header:
  assumes "operator_new malloc block_size place line m = Val (p, m')" "malloc (block_size + 64) = Some ptr"
  shows "p = ptr + head_size" "le_dec (peek m' ptr 8) = alloc_magic"
    "\<And>i. i < ptr \<or> ptr + head_size \<le> i \<Longrightarrow> m' i = m i"
proof -
  let ?text = "snprintf_text (head_size - 8) (place @ '':'' @ to_string line)"
  have m': "p = ptr + head_size" "m' = poke (poke m ptr (le_enc 8 alloc_magic)) (ptr + 8) ?text"
    using assms by (simp_all add: operator_new_def Let_def)
  show "p = ptr + head_size" by (rule m'(1))
  show "le_dec (peek m' ptr 8) = alloc_magic"
    unfolding m' by (simp add: mem.rd_wr_other) (rule mem.load_store, simp)
  show "m' i = m i" if "i < ptr \<or> ptr + head_size \<le> i" for i
    using that snprintf_short [of "head_size - 8" "place @ '':'' @ to_string line"] unfolding m' by (auto simp: poke_def)
qed

text \<open>
  What \<^verbatim>\<open>new\<close> took, \<^verbatim>\<open>delete\<close> gives back: \<^verbatim>\<open>new\<close> writes nothing but the header in front of the block, and as
  long as nobody else writes there \<^verbatim>\<open>delete\<close> frees the address that \<^verbatim>\<open>malloc\<close> returned. A block without
  the header is freed as it is, unless its neighbour in memory happens to hold the magic number. For a size
  near the end of the range the sum with the header wraps around, and even the header does not fit into the block.
\<close>

theorem blocks_given_back:
  assumes "operator_new malloc block_size place line m = Val (p, m')" "malloc (block_size + 64) = Some ptr"
  shows "p = ptr + head_size \<and> (\<forall>i. i < ptr \<or> p \<le> i \<longrightarrow> m' i = m i) \<and>
    (\<forall>later. peek later ptr head_size = peek m' ptr head_size \<longrightarrow>
      operator_delete p later = Val (Some ptr)) \<and>
    (\<forall>q later. head_size \<le> q \<longrightarrow>
      (operator_delete q later = Val (Some q) \<longleftrightarrow> le_dec (peek later (q - head_size) 8) \<noteq> alloc_magic)) \<and>
    (2 ^ 64 - 64 \<le> unat block_size \<longrightarrow> unat (block_size + 64) < head_size)"
proof (intro conjI allI impI)
  note new = new_writes_header [OF assms]
  show "p = ptr + head_size" by (rule new(1))
  show "m' i = m i" if "i < ptr \<or> p \<le> i" for i using new(1,3) that by simp
  show "operator_delete p later = Val (Some ptr)" if "peek later ptr head_size = peek m' ptr head_size" for later
  proof -
    have "peek later ptr 8 = peek m' ptr 8" using arg_cong [OF that, of "take 8"] by (simp add: take_peek)
    then show ?thesis using new(1,2) by (simp add: operator_delete_def)
  qed
  show "operator_delete q later = Val (Some q) \<longleftrightarrow> le_dec (peek later (q - head_size) 8) \<noteq> alloc_magic"
    if "head_size \<le> q" for q later
    using that by (auto simp: operator_delete_def)
  show "unat (block_size + 64) < head_size" if "2 ^ 64 - 64 \<le> unat block_size"
    using that unsigned_less [of block_size, where ?'a = nat] by (auto simp: unat_word_ariths(1) mod_if)
qed

theorem blocks_given_back_witness:
  "operator_delete 164 (snd (case operator_new (\<lambda>_. Some 100) 8 ''a.cpp'' 3 (\<lambda>_. 0) of Val r \<Rightarrow> r)) = Val (Some 100)"
  using blocks_given_back [of "\<lambda>_. Some 100" 8 "''a.cpp''" 3 "\<lambda>_. 0" 164] by (simp add: operator_new_def Let_def)

end
