(* ===== verification/GroupPrinter.thy ===== *)
theory GroupPrinter
  imports Prelude
begin

text \<open>
  \<^verbatim>\<open>cpp/misc/reverse.cpp\<close>: the groups of equal elements of a sorted vector are printed from the last one to
  the first, once with reverse iterators and once with indices. A group is the list of the values of a line.
\<close>

section \<open>The two loops\<close>

definition std_lower_bound :: "int list \<Rightarrow> nat \<Rightarrow> int \<Rightarrow> nat" where
  \<comment> \<open>\<^verbatim>\<open>std::lower_bound\<close> on the first \<open>n\<close> elements, which are sorted\<close>
  "std_lower_bound vi n v = length (takeWhile (\<lambda>x. x < v) (take n vi))"

lemma lower_bound_less: "0 < n \<Longrightarrow> n \<le> length vi \<Longrightarrow> std_lower_bound vi n (vi ! (n - Suc 0)) < n"
proof -
  assume n: "0 < n" "n \<le> length vi"
  have "length (takeWhile (\<lambda>x. x < vi ! (n - 1)) (take n vi)) \<noteq> n"
  proof
    assume "length (takeWhile (\<lambda>x. x < vi ! (n - 1)) (take n vi)) = n"
    then have "takeWhile (\<lambda>x. x < vi ! (n - 1)) (take n vi) = take n vi"
      using n by (metis length_take min.absorb2 takeWhile_eq_take take_all_iff order_refl)
    then have "\<forall>x \<in> set (take n vi). x < vi ! (n - 1)" by (simp add: takeWhile_eq_all_conv)
    moreover have "vi ! (n - 1) \<in> set (take n vi)" using n by (auto simp: in_set_conv_nth intro!: exI [of _ "n - 1"])
    ultimately show False by blast
  qed
  with length_takeWhile_le [of "\<lambda>x. x < vi ! (n - 1)" "take n vi"] n show ?thesis by (simp add: std_lower_bound_def)
qed

function iterator_loop :: "int list \<Rightarrow> nat \<Rightarrow> int list list" where
  \<comment> \<open>\<open>base\<close> is where \<^verbatim>\<open>it.base()\<close> points\<close>
  "iterator_loop vi base =
     (if 0 < base \<and> base \<le> length vi then
        let start = std_lower_bound vi base (vi ! (base - 1)) in
        drop start (take base vi) # iterator_loop vi start
      else [])"
  by pat_completeness auto
termination iterator_loop by (relation "measure snd") (auto simp: lower_bound_less)

fun group_start :: "int list \<Rightarrow> nat \<Rightarrow> int \<Rightarrow> nat" where
  \<comment> \<open>the inner loop; the argument and the result are \<open>j + 1\<close>\<close>
  "group_start vi 0 v = 0"
| "group_start vi (Suc j) v = (if vi ! j = v then group_start vi j v else Suc j)"

lemma group_start_le: "group_start vi j v \<le> j"
  by (induction vi j v rule: group_start.induct) auto

function index_loop :: "int list \<Rightarrow> nat \<Rightarrow> int list list" where
  \<comment> \<open>the argument is \<open>i + 1\<close>\<close>
  "index_loop vi 0 = []"
| "index_loop vi (Suc i) =
     (let k = group_start vi i (vi ! i) in map ((!) vi) [k..<Suc i] # index_loop vi k)"
  by pat_completeness auto
termination index_loop by (relation "measure snd") (auto simp: le_imp_less_Suc group_start_le)

definition printed_by_iterators :: "int list \<Rightarrow> int list list" where
  "printed_by_iterators vi = iterator_loop vi (length vi)"

definition printed_by_indices :: "int list \<Rightarrow> int list list" where
  "printed_by_indices vi = index_loop vi (length vi)"

declare iterator_loop.simps [simp del] index_loop.simps(2) [simp del]

section \<open>The groups\<close>

lemma group_start_equal:
  "k < j \<Longrightarrow> group_start vi j v \<le> k \<Longrightarrow> vi ! k = v"
  by (induction vi j v rule: group_start.induct) (auto split: if_splits simp: less_Suc_eq)

lemma group_start_other: "0 < group_start vi j v \<Longrightarrow> vi ! (group_start vi j v - 1) \<noteq> v"
  by (induction vi j v rule: group_start.induct) auto

lemma lower_bound_sorted:
  assumes "sorted vi" "i < length vi"
  shows "std_lower_bound vi (Suc i) (vi ! i) = group_start vi i (vi ! i)"
proof -
  let ?v = "vi ! i" and ?k = "group_start vi i (vi ! i)"
  have k: "?k \<le> i" by (rule group_start_le)
  have below: "vi ! j < ?v" if "j < ?k" for j
  proof -
    have "vi ! j \<le> vi ! (?k - 1)" "vi ! (?k - 1) \<le> ?v" using assms k that by (auto intro!: sorted_nth_mono)
    moreover have "vi ! (?k - 1) \<noteq> ?v" using group_start_other [of vi i ?v] that by simp
    ultimately show ?thesis by linarith
  qed
  have "vi ! ?k = ?v" using group_start_equal [of ?k i vi ?v] k by (cases "?k = i") auto
  then have "takeWhile (\<lambda>x. x < ?v) (take (Suc i) vi) = take ?k (take (Suc i) vi)"
    using below k assms(2) by (intro takeWhile_eq_take_P_nth) auto
  then show ?thesis using k assms(2) by (simp add: std_lower_bound_def)
qed

lemma one_value: "g \<noteq> [] \<Longrightarrow> (\<And>x. x \<in> set g \<Longrightarrow> x = v) \<Longrightarrow> set g = {v} \<and> hd g = v"
  by (cases g) auto

lemma index_loop_groups:
  "n \<le> length vi \<Longrightarrow>
    concat (rev (index_loop vi n)) = take n vi \<and> [] \<notin> set (index_loop vi n) \<and>
    (\<forall>g \<in> set (index_loop vi n). \<exists>v. set g = {v}) \<and>
    successively (\<lambda>g h. hd g \<noteq> hd h) (index_loop vi n) \<and>
    (0 < n \<longrightarrow> hd (hd (index_loop vi n)) = vi ! (n - 1))"
proof (induction n rule: less_induct)
  case (less n)
  show ?case
  proof (cases n)
    case (Suc i)
    let ?k = "group_start vi i (vi ! i)"
    let ?g = "map ((!) vi) [?k..<Suc i]"
    have k: "?k \<le> i" by (rule group_start_le)
    have equal: "vi ! j = vi ! i" if "?k \<le> j" "j \<le> i" for j
      using group_start_equal [of j i vi "vi ! i"] that by (cases "j = i") auto
    have g: "?g \<noteq> []" using k by simp
    have same: "x = vi ! i" if "x \<in> set ?g" for x
    proof -
      from that obtain j where "?k \<le> j" "j \<le> i" "x = vi ! j" by (auto simp del: upt_Suc)
      with equal [of j] show ?thesis by metis
    qed
    have g_set: "set ?g = {vi ! i} \<and> hd ?g = vi ! i" by (rule one_value [OF g]) (rule same)
    have "take ?k vi @ ?g = take n vi"
      using k less.prems Suc by (intro nth_equalityI) (auto simp: nth_append simp del: upt_Suc)
    moreover have "hd (hd (index_loop vi ?k)) \<noteq> vi ! i" if "0 < ?k"
      using less.IH [of ?k] group_start_other [of vi i "vi ! i"] that k less.prems Suc by simp
    moreover have "index_loop vi ?k \<noteq> [] \<Longrightarrow> 0 < ?k" by (cases ?k) auto
    ultimately show ?thesis
      using less.IH [of ?k] g g_set k less.prems Suc
      by (auto simp: index_loop.simps(2) Let_def successively_Cons simp del: upt_Suc)
  qed simp
qed

lemma loops_agree: "sorted vi \<Longrightarrow> n \<le> length vi \<Longrightarrow> iterator_loop vi n = index_loop vi n"
proof (induction n rule: less_induct)
  case (less n)
  show ?case
  proof (cases n)
    case (Suc i)
    let ?k = "group_start vi i (vi ! i)"
    have k: "?k \<le> i" by (rule group_start_le)
    have "drop ?k (take (Suc i) vi) = map ((!) vi) [?k..<Suc i]"
      using k less.prems Suc by (intro nth_equalityI) (auto simp del: upt_Suc)
    then show ?thesis
      using less.IH [of ?k] less.prems k Suc lower_bound_sorted [of vi i]
      by (subst iterator_loop.simps) (simp add: index_loop.simps(2) Let_def)
  qed (simp add: iterator_loop.simps)
qed

text \<open>
  On a sorted vector both loops print the same lines. Read from the last line to the first they are the vector,
  every line holds copies of one value, and lines next to each other hold different values.
\<close>

theorem groups_printed:
  assumes "sorted vi"
  shows "printed_by_iterators vi = printed_by_indices vi \<and> concat (rev (printed_by_indices vi)) = vi \<and>
    (\<forall>g \<in> set (printed_by_indices vi). \<exists>v. set g = {v}) \<and>
    successively (\<lambda>g h. hd g \<noteq> hd h) (printed_by_indices vi)"
  using loops_agree [OF assms, of "length vi"] index_loop_groups [of "length vi" vi]
  by (simp add: printed_by_iterators_def printed_by_indices_def)

theorem groups_printed_witness:
  "printed_by_iterators [1, 2, 2, 3, 5, 5] = printed_by_indices [1, 2, 2, 3, 5, 5] \<and>
    concat (rev (printed_by_indices [1, 2, 2, 3, 5, 5])) = [1, 2, 2, 3, 5, 5]"
  using groups_printed [of "[1, 2, 2, 3, 5, 5]"] by simp

end
