(* ===== verification/TaskTest.thy ===== *)
theory TaskTest
  imports TaskQueue
begin

text \<open>
  \<^verbatim>\<open>cpp/profile/task_queue/task_test.cpp\<close>: \<^verbatim>\<open>main\<close> starts its queues, pushes the same number of tasks into each,
  waits until all receivers have counted that many runs, and stops and joins the queues. The threads of the
  queues take the steps of \<open>tq_step\<close>; the run of a task calls \<^verbatim>\<open>receive\<close> of its receiver on that thread. The number
  of queues, 8 in the source, is an argument. The condition variable wakes \<^verbatim>\<open>main\<close> only when notified.
\<close>

section \<open>How many tasks a queue runs\<close>

fun held :: "'t worker \<Rightarrow> 't list" where
  "held (Taken tmp) = tmp"
| "held (Batch tmp) = tmp"
| "held w = []"

definition tasks_left :: "'t task_queue \<Rightarrow> nat" where
  "tasks_left s = length (tq_queue s) + length (held (tq_worker s)) + length (tq_blocked s)"

fun pushes :: "'t event list \<Rightarrow> nat" where
  "pushes [] = 0"
| "pushes (Push t # es) = Suc (pushes es)"
| "pushes (e # es) = pushes es"

definition accounted :: "'t task_queue \<Rightarrow> nat" where
  "accounted s = length (tq_ran s) + tasks_left s"

lemma held_notify [simp]: "held (tq_worker (notify_data s)) = held (tq_worker s)"
  by (auto simp: notify_data_def)

lemma notify_free_blocked [simp]: "length (tq_blocked (notify_free s)) = length (tq_blocked s)"
  by (simp add: notify_free_def)

lemma finish_push_accounted:
  "tq_running s \<Longrightarrow> accounted (finish_push t e s) = Suc (accounted s) \<and> tq_running (finish_push t e s)"
  by (auto simp: accounted_def tasks_left_def finish_push_def Let_def)

lemma push_accounted: "tq_running s \<Longrightarrow> accounted (tq_push t s) = Suc (accounted s) \<and> tq_running (tq_push t s)"
  using finish_push_accounted [of s t "tq_queue s = []"]
  by (auto simp: tq_push_def Let_def) (simp add: accounted_def tasks_left_def)

lemma resume_accounted:
  assumes "i < length (tq_blocked s)" "tq_running s"
  shows "accounted (tq_resume i s) = accounted s \<and> tq_running (tq_resume i s)"
proof (cases "tq_full s")
  case True
  then show ?thesis using assms by (simp add: tq_resume_def Let_def accounted_def tasks_left_def)
next
  case False
  let ?s = "s\<lparr>tq_blocked := take i (tq_blocked s) @ drop (Suc i) (tq_blocked s)\<rparr>"
  have "accounted s = Suc (accounted ?s)" using assms(1) by (simp add: accounted_def tasks_left_def)
  then show ?thesis
    using finish_push_accounted [of ?s "task (tq_blocked s ! i)" "was_empty (tq_blocked s ! i)"] assms(2) False
    by (simp add: tq_resume_def Let_def)
qed

lemma work_accounted: "accounted (tq_work (tq_worker s) s) = accounted s \<and> tq_running (tq_work (tq_worker s) s) = tq_running s"
  by (cases "tq_worker s" rule: held.cases; cases "held (tq_worker s)")
    (auto simp: accounted_def tasks_left_def work_locked_def)

lemma step_accounted:
  assumes "tq_step s e s'" "tq_running s" "e \<noteq> Stop"
  shows "accounted s' = accounted s + pushes [e] \<and> tq_running s'"
  using assms(1)
proof cases
  case (push t)
  then show ?thesis using push_accounted [OF assms(2)] by simp
next
  case (resume i)
  then show ?thesis using resume_accounted [OF resume(3) assms(2)] by simp
next
  case work
  then show ?thesis using work_accounted [of s] assms(2) by simp
next
  case start
  then show ?thesis using assms(2) by (simp add: tq_start_def)
next
  case join
  then show ?thesis using assms(2) by (simp add: tq_join_def accounted_def tasks_left_def)
qed (use assms(3) in simp)

text \<open>In any interleaving without \<^verbatim>\<open>stop\<close>, blocked pushes included, a running queue accounts for every task.\<close>

lemma pushes_Cons: "pushes (e # es) = pushes [e] + pushes es"
  by (cases e) auto

lemma steps_accounted:
  "tq_steps s es s' \<Longrightarrow> tq_running s \<Longrightarrow> Stop \<notin> set es \<Longrightarrow> accounted s' = accounted s + pushes es \<and> tq_running s'"
proof (induction rule: tq_steps.induct)
  case (more s e s' es s'')
  then show ?case using step_accounted [OF more.hyps(1)] pushes_Cons [of e es] by auto
qed simp

section \<open>The receivers and main\<close>

datatype receiver_phase = Receiving | Counting | Notifying

datatype main_phase =
  Main_starting nat      \<comment> \<open>the loop that starts the queues\<close>
| Main_pushing nat nat   \<comment> \<open>about to push task \<open>i\<close> into queue \<open>k\<close>\<close>
| Main_test              \<comment> \<open>about to test \<^verbatim>\<open>while (count < 8)\<close>\<close>
| Main_locked            \<comment> \<open>about to lock and test again\<close>
| Main_asleep
| Main_stopping nat      \<comment> \<open>\<^verbatim>\<open>wait\<close> of queue \<open>k\<close>, which first stops it\<close>
| Main_joining nat
| Main_done

record test_state =
  queues :: "nat task_queue list"
  received :: "(nat \<times> receiver_phase) list"   \<comment> \<open>\<^verbatim>\<open>rcvd_cnt_\<close>, and where its thread is in \<^verbatim>\<open>receive\<close>\<close>
  finished_count :: nat                        \<comment> \<open>\<^verbatim>\<open>count\<close>\<close>
  main_at :: main_phase

definition test_start :: "nat \<Rightarrow> test_state" where
  "test_start n = \<lparr>queues = replicate n (tq_new 0), received = replicate n (0, Receiving), finished_count = 0,
     main_at = Main_starting 0\<rparr>"

definition receive :: "nat \<Rightarrow> nat \<Rightarrow> nat \<times> receiver_phase" where
  \<comment> \<open>\<^verbatim>\<open>++rcvd_cnt_ == kTaskCount\<close>\<close>
  "receive task_count rcvd = (rcvd + 1, if rcvd + 1 = task_count then Counting else Receiving)"

definition main_loop :: "nat \<Rightarrow> test_state \<Rightarrow> test_state" where
  \<comment> \<open>under \<^verbatim>\<open>complete_mutex\<close>\<close>
  "main_loop n s = s\<lparr>main_at := if finished_count s < n then Main_asleep else Main_test\<rparr>"

fun main_next :: "nat \<Rightarrow> nat \<Rightarrow> main_phase \<Rightarrow> test_state \<Rightarrow> test_state option" where
  \<comment> \<open>the next step of \<^verbatim>\<open>main\<close>, if it can take one; no push blocks, for the queues have no limit\<close>
  "main_next n K (Main_starting k) s =
     (if k < n then
        (case tq_start (queues s ! k) of
           None \<Rightarrow> None
         | Some q \<Rightarrow> Some (s\<lparr>queues := (queues s)[k := q], main_at := Main_starting (k + 1)\<rparr>))
      else Some (s\<lparr>main_at := Main_pushing 0 0\<rparr>))"
| "main_next n K (Main_pushing i k) s =
     (if i < K then
        if k < n then Some (s\<lparr>queues := (queues s)[k := tq_push i (queues s ! k)], main_at := Main_pushing i (k + 1)\<rparr>)
        else Some (s\<lparr>main_at := Main_pushing (i + 1) 0\<rparr>)
      else Some (s\<lparr>main_at := Main_test\<rparr>))"
| "main_next n K Main_test s =
     Some (s\<lparr>main_at := if finished_count s < n then Main_locked else Main_stopping 0\<rparr>)"
| "main_next n K Main_locked s = Some (main_loop n s)"
| "main_next n K Main_asleep s = None"
| "main_next n K (Main_stopping k) s =
     (if k < n then Some (s\<lparr>queues := (queues s)[k := tq_stop (queues s ! k)], main_at := Main_joining k\<rparr>)
      else Some (s\<lparr>main_at := Main_done\<rparr>))"
| "main_next n K (Main_joining k) s =
     (if tq_worker (queues s ! k) = Finished
      then Some (s\<lparr>queues := (queues s)[k := tq_join (queues s ! k)], main_at := Main_stopping (k + 1)\<rparr>)
      else None)"
| "main_next n K Main_done s = None"

fun runs_task :: "'t worker \<Rightarrow> bool" where
  "runs_task (Batch (t # tmp)) = True"
| "runs_task w = False"

inductive test_step :: "nat \<Rightarrow> nat \<Rightarrow> test_state \<Rightarrow> test_state \<Rightarrow> bool" for n task_count where
  \<comment> \<open>a step of \<^verbatim>\<open>main\<close>; of the worker of queue \<open>k\<close>, where the run of a task calls \<^verbatim>\<open>receive\<close>; the count under
    the mutex; the notification\<close>
  main: "main_next n task_count (main_at s) s = Some s' \<Longrightarrow> test_step n task_count s s'"
| worker: "k < length (queues s) \<Longrightarrow> received s ! k = (r, Receiving) \<Longrightarrow> tq_step (queues s ! k) Work q \<Longrightarrow>
    test_step n task_count s
      (s\<lparr>queues := (queues s)[k := q],
         received := (received s)[k := if runs_task (tq_worker (queues s ! k)) then receive task_count r else (r, Receiving)]\<rparr>)"
| counted: "k < length (received s) \<Longrightarrow> received s ! k = (r, Counting) \<Longrightarrow>
    test_step n task_count s
      (s\<lparr>received := (received s)[k := (r, Notifying)], finished_count := finished_count s + 1\<rparr>)"
| notified: "k < length (received s) \<Longrightarrow> received s ! k = (r, Notifying) \<Longrightarrow>
    test_step n task_count s
      (s\<lparr>received := (received s)[k := (r, Receiving)],
         main_at := if main_at s = Main_asleep then Main_test else main_at s\<rparr>)"

section \<open>What holds of every queue\<close>

datatype stage = Fresh | Serving | Leaving | Gone

fun queue_stage :: "main_phase \<Rightarrow> nat \<Rightarrow> stage" where
  "queue_stage (Main_starting j) k = (if k < j then Serving else Fresh)"
| "queue_stage (Main_stopping j) k = (if k < j then Gone else Serving)"
| "queue_stage (Main_joining j) k = (if k < j then Gone else if k = j then Leaving else Serving)"
| "queue_stage Main_done k = Gone"
| "queue_stage m k = Serving"

text \<open>How many tasks \<^verbatim>\<open>main\<close> has pushed into queue \<open>k\<close>.\<close>

fun tasks_pushed :: "nat \<Rightarrow> main_phase \<Rightarrow> nat \<Rightarrow> nat" where
  "tasks_pushed K (Main_starting j) k = 0"
| "tasks_pushed K (Main_pushing i j) k = (if k < j then i + 1 else i)"
| "tasks_pushed K m k = K"

fun worker_ok :: "stage \<Rightarrow> 't task_queue \<Rightarrow> bool" where
  "worker_ok Serving q = (tq_running q \<and> tq_worker q \<notin> {NotStarted, Finished} \<and>
     (tq_worker q = Asleep \<longrightarrow> tq_queue q = []))"
| "worker_ok Leaving q = (\<not> tq_running q \<and> tq_worker q \<notin> {NotStarted, Asleep})"
| "worker_ok _ q = (\<not> tq_running q \<and> tq_worker q = NotStarted)"

definition queue_ok :: "nat \<Rightarrow> main_phase \<Rightarrow> nat \<Rightarrow> nat task_queue \<Rightarrow> nat \<times> receiver_phase \<Rightarrow> bool" where
  "queue_ok K m k q x \<longleftrightarrow> tq_limit q = 0 \<and> tq_blocked q = [] \<and> fst x = length (tq_ran q) \<and>
     accounted q = tasks_pushed K m k \<and> (snd x \<noteq> Receiving \<longrightarrow> fst x = K \<and> 0 < K) \<and> worker_ok (queue_stage m k) q"

fun main_ok :: "nat \<Rightarrow> nat \<Rightarrow> nat \<Rightarrow> main_phase \<Rightarrow> bool" where
  "main_ok n K c (Main_starting j) = (j \<le> n)"
| "main_ok n K c (Main_pushing i j) = (i \<le> K \<and> j \<le> n \<and> (i = K \<longrightarrow> j = 0))"
| "main_ok n K c (Main_stopping j) = (c = n \<and> j \<le> n)"
| "main_ok n K c (Main_joining j) = (c = n \<and> j < n)"
| "main_ok n K c Main_done = (c = n)"
| "main_ok n K c m = True"

fun through :: "nat \<Rightarrow> nat \<times> receiver_phase \<Rightarrow> bool" where
  "through K (r, p) = (0 < K \<and> r = K \<and> p \<noteq> Counting)"

definition test_ok :: "nat \<Rightarrow> nat \<Rightarrow> test_state \<Rightarrow> bool" where
  "test_ok n K s \<longleftrightarrow> length (queues s) = n \<and> length (received s) = n \<and>
     (\<forall>k < n. queue_ok K (main_at s) k (queues s ! k) (received s ! k)) \<and>
     finished_count s = length (filter (through K) (received s)) \<and>
     main_ok n K (finished_count s) (main_at s) \<and>
     (main_at s = Main_asleep \<longrightarrow> finished_count s < n \<or> Notifying \<in> snd ` set (received s))"

section \<open>The work left\<close>

fun worker_work :: "'t worker \<Rightarrow> nat" where
  "worker_work (Batch tmp) = 2 + length tmp"
| "worker_work (Taken tmp) = 3 + length tmp"
| "worker_work w = (if w \<in> {LoopHead, Awake} then 1 else 0)"

definition queue_work :: "'t task_queue \<Rightarrow> nat" where
  "queue_work q = 4 * length (tq_queue q) + worker_work (tq_worker q)"

fun receiver_work :: "nat \<Rightarrow> nat \<times> receiver_phase \<Rightarrow> nat" where
  "receiver_work K (r, p) = (case p of Receiving \<Rightarrow> if r < K then 5 else 0 | Counting \<Rightarrow> 5 | Notifying \<Rightarrow> 4)"

fun main_work :: "nat \<Rightarrow> nat \<Rightarrow> nat \<Rightarrow> main_phase \<Rightarrow> nat" where
  "main_work n K c (Main_starting j) = 2 * (n - j) + 6 * K * n + K + 3 * n + 6"
| "main_work n K c (Main_pushing i j) = 6 * ((K - i) * n - j) + (K - i) + 3 * n + 5"
| "main_work n K c Main_test = 3 * n + (if c < n then 4 else 2)"
| "main_work n K c Main_locked = 3 * n + 3"
| "main_work n K c Main_asleep = 3 * n + 1"
| "main_work n K c (Main_stopping j) = 3 * (n - j) + 1"
| "main_work n K c (Main_joining j) = 3 * (n - j) - 1"
| "main_work n K c Main_done = 0"

definition test_measure :: "nat \<Rightarrow> nat \<Rightarrow> test_state \<Rightarrow> nat" where
  "test_measure n K s = sum_list (map queue_work (queues s)) + sum_list (map (receiver_work K) (received s)) +
     main_work n K (finished_count s) (main_at s)"

lemma sum_update:
  "k < length xs \<Longrightarrow> sum_list (map f (xs[k := y])) + f (xs ! k) = sum_list (map f xs) + (f y :: nat)"
  by (induction xs arbitrary: k) (auto split: nat.splits)

lemma filter_sum: "length (filter P xs) = sum_list (map (\<lambda>x. of_bool (P x)) xs)"
  by (induction xs) auto

lemma filter_update:
  "k < length xs \<Longrightarrow> length (filter P (xs[k := y])) + of_bool (P (xs ! k)) = length (filter P xs) + of_bool (P y)"
  unfolding filter_sum by (rule sum_update)

lemma still_in: "x \<in> set xs \<Longrightarrow> xs ! k \<noteq> x \<Longrightarrow> x \<in> set (xs[k := y])"
  by (metis in_set_conv_nth length_list_update nth_list_update_neq)

lemma notifying_stays:
  "Notifying \<in> snd ` set xs \<Longrightarrow> snd (xs ! k) \<noteq> Notifying \<Longrightarrow> Notifying \<in> snd ` set (xs[k := y])"
  by (force intro: still_in)

lemma filter_at_most: "length (filter P xs) \<le> length xs"
  by simp

section \<open>Steps on a thread of a queue\<close>

definition woken :: "main_phase \<Rightarrow> main_phase \<Rightarrow> bool" where
  "woken m m' \<longleftrightarrow> m' = m \<or> m = Main_asleep \<and> m' = Main_test"

lemma woken_same: "woken m m' \<Longrightarrow> queue_ok K m' = queue_ok K m \<and> (main_ok n K c m' \<longleftrightarrow> main_ok n K c m)"
  by (auto simp: woken_def queue_ok_def fun_eq_iff)

lemma thread_moves:
  assumes "k < n" "test_ok n K s" "received s ! k = x" "queue_ok K (main_at s) k q y" "through K x \<longrightarrow> through K y"
    and "c + of_bool (through K x) = finished_count s + of_bool (through K y)" "woken (main_at s) m"
    and "m = Main_asleep \<Longrightarrow> snd y = Notifying \<or> c = finished_count s \<and> snd x \<noteq> Notifying"
  shows "test_ok n K (s\<lparr>queues := (queues s)[k := q], received := (received s)[k := y], finished_count := c, main_at := m\<rparr>)"
proof -
  let ?xs = "(received s)[k := y]"
  have k: "k < length (received s)" "k < length (queues s)" using assms(1,2) by (simp_all add: test_ok_def)
  have fc: "length (filter (through K) ?xs) = c"
    using filter_update [OF k(1), of "through K" y] assms(2,3,6) by (simp add: test_ok_def)
  have "queue_ok K m j ((queues s)[k := q] ! j) (?xs ! j)" if "j < n" for j
    using that assms(2,4) k woken_same [OF assms(7)] by (cases "j = k") (auto simp: test_ok_def)
  moreover have "main_ok n K c m"
  proof -
    have "main_ok n K (finished_count s) m" using woken_same [OF assms(7)] assms(2) unfolding test_ok_def by blast
    moreover have "c = n" if "finished_count s = n"
      using that fc assms(5,6) filter_at_most [of "through K" ?xs] assms(2)
      by (cases "through K x"; cases "through K y") (auto simp: test_ok_def)
    ultimately show ?thesis by (cases m) auto
  qed
  moreover have "c < n \<or> Notifying \<in> snd ` set ?xs" if m: "m = Main_asleep"
  proof (cases "snd y = Notifying")
    case True
    then show ?thesis using set_update_memI [OF k(1), of y] by (metis image_eqI)
  next
    case False
    then have "c = finished_count s" "snd x \<noteq> Notifying" "main_at s = Main_asleep"
      using assms(7,8) m by (auto simp: woken_def)
    then show ?thesis using assms(2,3) notifying_stays [of "received s" k y] by (auto simp: test_ok_def)
  qed
  ultimately show ?thesis using assms(2) fc by (simp add: test_ok_def)
qed

lemma thread_measure:
  assumes "k < n" "test_ok n K s" "received s ! k = x"
    and "queue_work q + receiver_work K y + main_work n K c m <
      queue_work (queues s ! k) + receiver_work K x + main_work n K (finished_count s) (main_at s)"
  shows "test_measure n K (s\<lparr>queues := (queues s)[k := q], received := (received s)[k := y], finished_count := c, main_at := m\<rparr>)
    < test_measure n K s"
  using sum_update [of k "received s" "receiver_work K" y] sum_update [of k "queues s" queue_work q] assms
  by (simp add: test_measure_def test_ok_def)

lemma worker_kept:
  assumes "queue_ok K m k q x" "tq_worker q \<notin> {NotStarted, Asleep, Finished}" "x = (r, Receiving)" "tasks_pushed K m k \<le> K"
    and "y = (if runs_task (tq_worker q) then receive K r else (r, Receiving))" "q' = tq_work (tq_worker q) q"
  shows "queue_ok K m k q' y \<and> through K y = through K x \<and> snd y \<noteq> Notifying \<and>
    queue_work q' + receiver_work K y < queue_work q + receiver_work K x"
proof (cases "runs_task (tq_worker q)")
  case True
  then obtain t tmp where w: "tq_worker q = Batch (t # tmp)" by (cases "tq_worker q" rule: runs_task.cases) auto
  have "r < K" using assms(1,3,4) w by (simp add: queue_ok_def accounted_def tasks_left_def)
  then show ?thesis using assms w work_accounted [of q]
    by (cases "queue_stage m k") (auto simp: queue_ok_def receive_def queue_work_def)
next
  case False
  then have y: "y = x" using assms(3,5) by simp
  have "length (tq_ran q') = length (tq_ran q) \<and> tq_limit q' = 0 \<and> tq_blocked q' = [] \<and> worker_ok (queue_stage m k) q' \<and>
      queue_work q' < queue_work q"
    using assms(1,2,6) False
    by (cases "tq_worker q" rule: runs_task.cases; cases "queue_stage m k"; cases "tq_queue q")
      (auto simp: queue_ok_def work_locked_def queue_work_def notify_free_def)
  then show ?thesis using assms(1,3,6) work_accounted [of q] y by (simp add: queue_ok_def)
qed

section \<open>Steps of main\<close>

lemma queue_moves:
  assumes "test_ok n K s" "k < n" "queue_ok K m k q (received s ! k)"
    and "\<And>j. j < n \<Longrightarrow> j \<noteq> k \<Longrightarrow> queue_stage m j = queue_stage (main_at s) j \<and> tasks_pushed K m j = tasks_pushed K (main_at s) j"
    and "main_ok n K (finished_count s) m" "m \<noteq> Main_asleep"
    and "queue_work q + main_work n K (finished_count s) m < queue_work (queues s ! k) + main_work n K (finished_count s) (main_at s)"
  shows "test_ok n K (s\<lparr>queues := (queues s)[k := q], main_at := m\<rparr>) \<and>
    test_measure n K (s\<lparr>queues := (queues s)[k := q], main_at := m\<rparr>) < test_measure n K s"
proof -
  have "queue_ok K m j ((queues s)[k := q] ! j) (received s ! j)" if "j < n" for j
    using that assms(1-4) by (cases "j = k") (auto simp: test_ok_def queue_ok_def)
  then show ?thesis
    using assms sum_update [of k "queues s" queue_work q] by (simp add: test_ok_def test_measure_def)
qed

lemma main_moves:
  assumes "test_ok n K s" "\<And>j. j < n \<Longrightarrow> queue_stage m j = queue_stage (main_at s) j \<and> tasks_pushed K m j = tasks_pushed K (main_at s) j"
    and "main_ok n K (finished_count s) m" "m = Main_asleep \<Longrightarrow> finished_count s < n"
    and "main_work n K (finished_count s) m < main_work n K (finished_count s) (main_at s)"
  shows "test_ok n K (s\<lparr>main_at := m\<rparr>) \<and> test_measure n K (s\<lparr>main_at := m\<rparr>) < test_measure n K s"
proof -
  have "\<forall>k < n. queue_ok K m k (queues s ! k) (received s ! k)"
    using assms(1,2) by (auto simp: test_ok_def queue_ok_def)
  then show ?thesis using assms by (simp add: test_ok_def test_measure_def)
qed

lemma push_room: "i < K \<Longrightarrow> k < n \<Longrightarrow> k < (K - i) * (n :: nat)"
  by (cases "K - i") auto

lemma main_step_kept:
  assumes "main_next n K m s = Some s'" "m = main_at s" "test_ok n K s"
  shows "test_ok n K s' \<and> test_measure n K s' < test_measure n K s"
proof (cases m)
  case (Main_starting k)
  note at [simp] = trans [OF assms(2) [symmetric] Main_starting]
  show ?thesis
  proof (cases "k < n")
    case True
    have q: "queue_ok K (Main_starting k) k (queues s ! k) (received s ! k)"
      using assms(3) True by (auto simp: test_ok_def)
    then have "tq_start (queues s ! k) = Some ((queues s ! k)\<lparr>tq_running := True, tq_worker := LoopHead\<rparr>)"
      by (simp add: queue_ok_def tq_start_def)
    then have s': "s' = s\<lparr>queues := (queues s)[k := (queues s ! k)\<lparr>tq_running := True, tq_worker := LoopHead\<rparr>],
        main_at := Main_starting (k + 1)\<rparr>"
      using assms(1) Main_starting True by simp
    show ?thesis unfolding s'
      by (rule queue_moves [OF assms(3) True])
        (use q True in \<open>auto simp: queue_ok_def queue_work_def accounted_def tasks_left_def\<close>)
  next
    case False
    then have "s' = s\<lparr>main_at := Main_pushing 0 0\<rparr>" "k = n"
      using assms Main_starting by (auto simp: test_ok_def split: if_splits)
    then show ?thesis
      using main_moves [OF assms(3), of "Main_pushing 0 0"] by (simp add: algebra_simps)
  qed
next
  case (Main_pushing i k)
  note at [simp] = trans [OF assms(2) [symmetric] Main_pushing]
  have ik: "i \<le> K" "k \<le> n" "i = K \<Longrightarrow> k = 0" using assms(3) by (auto simp: test_ok_def)
  consider "i < K" "k < n" | "i < K" "k = n" | "i = K" "k = 0" using ik by linarith
  then show ?thesis
  proof cases
    case 1
    let ?q = "queues s ! k"
    have q: "queue_ok K (Main_pushing i k) k ?q (received s ! k)"
      using assms(3) 1 by (auto simp: test_ok_def)
    then have run: "tq_running ?q" by (simp add: queue_ok_def)
    have s': "s' = s\<lparr>queues := (queues s)[k := tq_push i ?q], main_at := Main_pushing i (k + 1)\<rparr>"
      using assms(1) Main_pushing 1 by simp
    have f: "tq_limit (tq_push i ?q) = 0 \<and> tq_blocked (tq_push i ?q) = [] \<and> tq_ran (tq_push i ?q) = tq_ran ?q \<and>
        worker_ok Serving (tq_push i ?q) \<and> queue_work (tq_push i ?q) \<le> queue_work ?q + 5"
      using q by (auto simp: queue_ok_def tq_push_def tq_full_def finish_push_def notify_data_def queue_work_def Let_def)
    then have q': "queue_ok K (Main_pushing i (k + 1)) k (tq_push i ?q) (received s ! k)"
      "queue_work (tq_push i ?q) \<le> queue_work ?q + 5"
      using q push_accounted [OF run, of i] by (auto simp: queue_ok_def)
    show ?thesis unfolding s'
      by (rule queue_moves [OF assms(3) 1(2) q'(1)])
        (use q'(2) 1 assms(2) Main_pushing push_room [OF 1] in \<open>auto\<close>)
  next
    case 2
    have s': "s' = s\<lparr>main_at := Main_pushing (i + 1) 0\<rparr>" using assms(1) Main_pushing 2 by simp
    obtain d where d: "K = Suc (i + d)" using 2(1) by (auto simp: less_iff_Suc_add)
    show ?thesis unfolding s'
      by (rule main_moves [OF assms(3)]) (use 2 d in \<open>auto\<close>)
  next
    case 3
    have s': "s' = s\<lparr>main_at := Main_test\<rparr>" using assms(1) Main_pushing 3 by simp
    show ?thesis unfolding s'
      by (rule main_moves [OF assms(3)]) (use 3 in \<open>auto\<close>)
  qed
next
  case Main_test
  note at [simp] = trans [OF assms(2) [symmetric] Main_test]
  have s': "s' = s\<lparr>main_at := if finished_count s < n then Main_locked else Main_stopping 0\<rparr>" using assms(1) Main_test by simp
  have "finished_count s \<le> n"
    using assms(3) filter_at_most [of "through K" "received s"] by (auto simp: test_ok_def)
  then show ?thesis unfolding s'
    by (intro main_moves [OF assms(3)]) (auto split: if_splits)
next
  case Main_locked
  note at [simp] = trans [OF assms(2) [symmetric] Main_locked]
  have s': "s' = s\<lparr>main_at := if finished_count s < n then Main_asleep else Main_test\<rparr>"
    using assms(1) Main_locked by (simp add: main_loop_def)
  show ?thesis unfolding s'
    by (rule main_moves [OF assms(3)]) (auto split: if_splits)
next
  case (Main_stopping k)
  note at [simp] = trans [OF assms(2) [symmetric] Main_stopping]
  show ?thesis
  proof (cases "k < n")
    case True
    let ?q = "queues s ! k"
    have q: "queue_ok K (Main_stopping k) k ?q (received s ! k)" and c: "finished_count s = n"
      using assms(3) True by (auto simp: test_ok_def)
    have s': "s' = s\<lparr>queues := (queues s)[k := tq_stop ?q], main_at := Main_joining k\<rparr>"
      using assms(1) Main_stopping True by simp
    have q': "queue_ok K (Main_joining k) k (tq_stop ?q) (received s ! k)" "queue_work (tq_stop ?q) \<le> queue_work ?q + 1"
      using q by (auto simp: queue_ok_def tq_stop_def notify_data_def notify_free_def queue_work_def accounted_def tasks_left_def)
    show ?thesis unfolding s'
      by (rule queue_moves [OF assms(3) True q'(1)]) (use q'(2) c True in \<open>auto\<close>)
  next
    case False
    then have s': "s' = s\<lparr>main_at := Main_done\<rparr>" "k = n" and c: "finished_count s = n"
      using assms Main_stopping by (auto simp: test_ok_def split: if_splits)
    show ?thesis unfolding s'(1)
      by (rule main_moves [OF assms(3)]) (use c s'(2) in \<open>auto\<close>)
  qed
next
  case (Main_joining k)
  note at [simp] = trans [OF assms(2) [symmetric] Main_joining]
  let ?q = "queues s ! k"
  have k: "k < n" and c: "finished_count s = n" using assms(3) by (auto simp: test_ok_def)
  then have q: "queue_ok K (Main_joining k) k ?q (received s ! k)" using assms(3) by (auto simp: test_ok_def)
  have fin: "tq_worker ?q = Finished" and
    s': "s' = s\<lparr>queues := (queues s)[k := tq_join ?q], main_at := Main_stopping (k + 1)\<rparr>"
    using assms(1) Main_joining by (auto split: if_splits)
  have q': "queue_ok K (Main_stopping (k + 1)) k (tq_join ?q) (received s ! k)" "queue_work (tq_join ?q) = queue_work ?q"
    using q fin by (auto simp: queue_ok_def tq_join_def queue_work_def accounted_def tasks_left_def)
  show ?thesis unfolding s'
    by (rule queue_moves [OF assms(3) k q'(1)]) (use q'(2) c k in \<open>auto\<close>)
qed (use assms(1) in simp_all)

lemma pushed_at_most: "main_ok n K c m \<Longrightarrow> tasks_pushed K m k \<le> K"
  by (cases m) auto

lemma test_ok_step:
  assumes "test_step n K s s'" "test_ok n K s"
  shows "test_ok n K s' \<and> test_measure n K s' < test_measure n K s"
  using assms(1)
proof cases
  case main
  then show ?thesis using main_step_kept assms(2) by blast
next
  case (worker k r q)
  let ?q = "queues s ! k" and ?y = "if runs_task (tq_worker (queues s ! k)) then receive K r else (r, Receiving)"
  have k: "k < n" using worker(2) assms(2) by (simp add: test_ok_def)
  have q: "tq_worker ?q \<notin> {NotStarted, Asleep, Finished}" "q = tq_work (tq_worker ?q) ?q"
    using worker(4) by (auto elim: tq_step_cases)
  have ok: "queue_ok K (main_at s) k ?q (r, Receiving)" "tasks_pushed K (main_at s) k \<le> K"
    using assms(2) k worker(3) pushed_at_most by (auto simp: test_ok_def)
  note kept = worker_kept [OF ok(1) q(1) refl ok(2) refl q(2)]
  have s': "s' = s\<lparr>queues := (queues s)[k := q], received := (received s)[k := ?y], finished_count := finished_count s, main_at := main_at s\<rparr>"
    using worker(1) by simp
  show ?thesis unfolding s'
    by (intro conjI thread_moves [OF k assms(2) worker(3)] thread_measure [OF k assms(2) worker(3)])
      (use kept in \<open>auto simp: woken_def\<close>)
next
  case (counted k r)
  have k: "k < n" using counted(2) assms(2) by (simp add: test_ok_def)
  have ok: "queue_ok K (main_at s) k (queues s ! k) (r, Counting)" using assms(2) k counted(3) by (auto simp: test_ok_def)
  have s': "s' = s\<lparr>queues := (queues s)[k := queues s ! k], received := (received s)[k := (r, Notifying)],
      finished_count := finished_count s + 1, main_at := main_at s\<rparr>"
    using counted(1) by simp
  have "main_work n K (finished_count s + 1) (main_at s) \<le> main_work n K (finished_count s) (main_at s)"
    by (cases "main_at s") auto
  then show ?thesis unfolding s'
    by (intro conjI thread_moves [OF k assms(2) counted(3)] thread_measure [OF k assms(2) counted(3)])
      (use ok in \<open>auto simp: woken_def queue_ok_def\<close>)
next
  case (notified k r)
  have k: "k < n" using notified(2) assms(2) by (simp add: test_ok_def)
  have ok: "queue_ok K (main_at s) k (queues s ! k) (r, Notifying)" using assms(2) k notified(3) by (auto simp: test_ok_def)
  let ?m = "if main_at s = Main_asleep then Main_test else main_at s"
  have s': "s' = s\<lparr>queues := (queues s)[k := queues s ! k], received := (received s)[k := (r, Receiving)],
      finished_count := finished_count s, main_at := ?m\<rparr>"
    using notified(1) by simp
  show ?thesis unfolding s'
    by (intro conjI thread_moves [OF k assms(2) notified(3)] thread_measure [OF k assms(2) notified(3)])
      (use ok in \<open>auto simp: woken_def queue_ok_def split: if_splits\<close>)
qed

lemma test_start_ok:
  "test_ok n K (test_start n)" "test_measure n K (test_start n) \<le> 6 * K * n + K + 10 * n + 6"
proof -
  have "filter (through K) (replicate n (0, Receiving)) = []" by (induction n) auto
  then show "test_ok n K (test_start n)"
    by (auto simp: test_ok_def test_start_def queue_ok_def tq_new_def accounted_def tasks_left_def)
  show "test_measure n K (test_start n) \<le> 6 * K * n + K + 10 * n + 6"
    by (auto simp: test_measure_def test_start_def sum_list_replicate queue_work_def tq_new_def)
qed

definition all_served :: "nat \<Rightarrow> nat \<Rightarrow> test_state \<Rightarrow> bool" where
  "all_served n K s \<longleftrightarrow> (\<forall>k < n. received s ! k = (K, Receiving) \<and> length (tq_ran (queues s ! k)) = K \<and>
     tasks_left (queues s ! k) = 0)"

lemma all_counted:
  assumes "test_ok n K s" "finished_count s = n"
  shows "\<forall>x \<in> set (received s). through K x"
proof (rule ccontr)
  assume "\<not> ?thesis"
  then have "length (filter (through K) (received s)) < length (received s)" by (auto intro: length_filter_less)
  with assms show False by (simp add: test_ok_def)
qed

lemma ran_and_left:
  "queue_ok K m k q x \<Longrightarrow> length (tq_ran q) = fst x \<and> length (tq_ran q) + tasks_left q = tasks_pushed K m k"
  by (simp add: queue_ok_def accounted_def)

lemma idle_serving: "queue_ok K m k q x \<Longrightarrow> queue_stage m k = Serving \<Longrightarrow> tq_worker q = Asleep \<Longrightarrow> tasks_left q = 0"
  by (simp add: queue_ok_def tasks_left_def)

text \<open>A run that has come to rest: \<^verbatim>\<open>main\<close> has either joined all queues, or it was asked for no tasks.\<close>

lemma test_stuck:
  assumes "test_ok n K s" "\<nexists>s'. test_step n K s s'"
  shows "all_served n K s \<and> main_at s = (if K = 0 \<and> 0 < n then Main_asleep else Main_done)"
proof -
  let ?m = "main_at s"
  have len: "length (queues s) = n" "length (received s) = n" using assms(1) by (simp_all add: test_ok_def)
  have main: "main_next n K ?m s = None" using assms(2) test_step.main by (cases "main_next n K ?m s") blast+
  have q: "queue_ok K ?m k (queues s ! k) (received s ! k)" if "k < n" for k using assms(1) that by (simp add: test_ok_def)
  have rec: "received s ! k = (fst (received s ! k), Receiving)" if k: "k < n" for k
  proof (cases "snd (received s ! k)")
    case Receiving
    then show ?thesis by (simp add: prod_eq_iff)
  next
    case Counting
    then show ?thesis using assms(2) test_step.counted [of k s "fst (received s ! k)"] k len by (auto simp: prod_eq_iff)
  next
    case Notifying
    then show ?thesis using assms(2) test_step.notified [of k s "fst (received s ! k)"] k len by (auto simp: prod_eq_iff)
  qed
  have worker: "tq_worker (queues s ! k) \<in> {NotStarted, Asleep, Finished}" if k: "k < n" for k
    using assms(2) test_step.worker [of k s, OF _ rec [OF k] tq_step.work] k len by blast
  have quiet: "Notifying \<notin> snd ` set (received s)" using rec len(2) by (fastforce simp: in_set_conv_nth)
  have served: "all_served n K s" if "\<And>k. k < n \<Longrightarrow> tasks_left (queues s ! k) = 0" "\<And>k. tasks_pushed K ?m k = K"
    unfolding all_served_def using ran_and_left [OF q] rec that by (metis add.right_neutral)
  show ?thesis
  proof (cases ?m)
    case (Main_starting k)
    then show ?thesis using main q [of k] by (auto simp: queue_ok_def tq_start_def split: if_splits)
  next
    case (Main_joining k)
    then have k: "k < n" using assms(1) by (simp add: test_ok_def)
    with Main_joining main q [OF k] worker [OF k] show ?thesis by (auto simp: queue_ok_def)
  next
    case Main_asleep
    have left: "tasks_left (queues s ! k) = 0" if k: "k < n" for k
      using idle_serving [OF q [OF k]] worker [OF k] q [OF k] Main_asleep by (auto simp: queue_ok_def)
    have s: "all_served n K s" by (rule served) (use left Main_asleep in simp_all)
    have c: "finished_count s < n" using assms(1) Main_asleep quiet by (simp add: test_ok_def)
    have "K = 0"
    proof (rule ccontr)
      assume "K \<noteq> 0"
      then have "filter (through K) (received s) = received s"
        using s len(2) by (auto simp: filter_id_conv in_set_conv_nth all_served_def)
      with c assms(1) len(2) show False by (simp add: test_ok_def)
    qed
    with s c Main_asleep show ?thesis by simp
  next
    case Main_done
    have c: "finished_count s = n" using assms(1) Main_done by (simp add: test_ok_def)
    have thr: "through K (received s ! k)" if "k < n" for k using all_counted [OF assms(1) c] that len(2) by simp
    have "K \<noteq> 0" if "0 < n" using thr [OF that] by (cases "received s ! 0") simp
    moreover have "tasks_left (queues s ! k) = 0" if k: "k < n" for k
      using thr [OF k] ran_and_left [OF q [OF k]] Main_done by (cases "received s ! k") simp
    ultimately show ?thesis using served Main_done by auto
  qed (use main in \<open>auto split: if_splits\<close>)
qed

interpretation test: progress "test_step n K" "test_ok n K" "test_measure n K"
    "\<lambda>s. all_served n K s \<and> main_at s = (if K = 0 \<and> 0 < n then Main_asleep else Main_done)" for n K
  by unfold_locales (use test_ok_step test_stuck in blast)+

text \<open>
  C20: The test ends. In every state its threads can reach, each receiver has been called exactly as often as its
  queue has run tasks, and those runs, the tasks waiting in the queue and those the worker still holds are together
  the tasks that have been pushed into it. Every run comes to rest after a bounded number of steps, and then each
  of the \<open>n\<close> queues has made exactly \<open>K\<close> calls of \<^verbatim>\<open>receive\<close>, as many as it got tasks (although it runs the last
  task of a batch over and over), and holds no task; no wake-up is lost, of a worker or of \<^verbatim>\<open>main\<close>. With at least one task, \<^verbatim>\<open>main\<close> has then
  left its loop and stopped and joined all queues. Asked for no tasks, \<^verbatim>\<open>main\<close> sleeps for ever.
\<close>

theorem task_test_ends:
  assumes "((test_step n K) ^^ i) (test_start n) s"
  shows "(\<forall>k < n. fst (received s ! k) = length (tq_ran (queues s ! k)) \<and>
      length (tq_ran (queues s ! k)) + tasks_left (queues s ! k) = tasks_pushed K (main_at s) k) \<and>
    i \<le> 6 * K * n + K + 10 * n + 6 \<and>
    ((\<nexists>s'. test_step n K s s') \<longrightarrow>
      (\<forall>k < n. received s ! k = (K, Receiving) \<and> length (tq_ran (queues s ! k)) = K \<and> tasks_left (queues s ! k) = 0) \<and>
      main_at s = (if K = 0 \<and> 0 < n then Main_asleep else Main_done))"
proof (intro conjI)
  have r: "test_ok n K s" "i \<le> 6 * K * n + K + 10 * n + 6"
    using test.runs [OF assms test_start_ok(1)] test_start_ok(2) [of n K] by auto
  show "i \<le> 6 * K * n + K + 10 * n + 6" by (rule r(2))
  show "\<forall>k < n. fst (received s ! k) = length (tq_ran (queues s ! k)) \<and>
      length (tq_ran (queues s ! k)) + tasks_left (queues s ! k) = tasks_pushed K (main_at s) k"
    using r(1) by (fastforce simp: test_ok_def dest: ran_and_left)
  show "(\<nexists>s'. test_step n K s s') \<longrightarrow>
      (\<forall>k < n. received s ! k = (K, Receiving) \<and> length (tq_ran (queues s ! k)) = K \<and> tasks_left (queues s ! k) = 0) \<and>
      main_at s = (if K = 0 \<and> 0 < n then Main_asleep else Main_done)"
    using test.at_rest [OF r(1)] by (simp add: all_served_def)
qed

theorem task_test_ends_witness:
  "\<exists>i s. ((test_step 2 1) ^^ i) (test_start 2) s \<and> i \<le> 40 \<and> length (tq_ran (queues s ! 1)) = 1 \<and> main_at s = Main_done"
proof -
  obtain i s where run: "((test_step 2 1) ^^ i) (test_start 2) s" and rest: "\<nexists>s'. test_step 2 1 s s'"
    using test.completes [OF test_start_ok(1)] by blast
  from task_test_ends [OF run] rest have "length (tq_ran (queues s ! 1)) = 1 \<and> main_at s = Main_done" by simp
  moreover have "i \<le> 40" using task_test_ends [OF run] by simp
  ultimately show ?thesis using run by blast
qed

end
