(* ===== verification/QueueTest.thy ===== *)
theory QueueTest
  imports Queues
begin

text \<open>
  The \<^verbatim>\<open>main\<close> programs of \<^verbatim>\<open>cpp/misc/queue.cpp\<close> and \<^verbatim>\<open>cpp/misc/semqueue.cpp\<close>: a thread posts the numbers from
  1 on, another takes batches until it has as many. The number of items, 100000 in the sources, is an argument, as
  is the water mark.
\<close>

section \<open>With a condition variable\<close>

datatype taker = Take_ready | Take_asleep | Take_awake

record cond_test =
  ct_queue :: "nat cond_queue"
  ct_made :: nat            \<comment> \<open>\<^verbatim>\<open>i\<close> in \<^verbatim>\<open>productor\<close>\<close>
  ct_wanted :: nat          \<comment> \<open>\<^verbatim>\<open>count\<close> in \<^verbatim>\<open>consumer\<close>\<close>
  ct_taker :: taker
  ct_got :: "nat list"

definition cond_start :: "nat \<Rightarrow> nat \<Rightarrow> cond_test" where
  "cond_start mark n = \<lparr>ct_queue = \<lparr>cq_items = [], cq_mark = mark\<rparr>, ct_made = 0, ct_wanted = n, ct_taker = Take_ready,
     ct_got = []\<rparr>"

definition cond_produce :: "cond_test \<Rightarrow> cond_test" where
  "cond_produce s = (case cq_post (ct_made s + 1) (ct_queue s) of
     (notified, q) \<Rightarrow> s\<lparr>ct_queue := q, ct_made := ct_made s + 1,
       ct_taker := if notified \<and> ct_taker s = Take_asleep then Take_awake else ct_taker s\<rparr>)"

definition cond_consume :: "cond_test \<Rightarrow> cond_test" where
  "cond_consume s = (case cq_wait (ct_queue s) of
     None \<Rightarrow> s\<lparr>ct_taker := Take_asleep\<rparr>
   | Some (items, q) \<Rightarrow> s\<lparr>ct_queue := q, ct_wanted := ct_wanted s - length items, ct_taker := Take_ready,
       ct_got := ct_got s @ items\<rparr>)"

inductive cond_step :: "nat \<Rightarrow> cond_test \<Rightarrow> cond_test \<Rightarrow> bool" for n where
  produce: "ct_made s \<noteq> n \<Longrightarrow> cond_step n s (cond_produce s)"
| consume: "ct_taker s \<noteq> Take_asleep \<Longrightarrow> 0 < ct_wanted s \<Longrightarrow> cond_step n s (cond_consume s)"

definition cond_ok :: "nat \<Rightarrow> nat \<Rightarrow> cond_test \<Rightarrow> bool" where
  "cond_ok mark n s \<longleftrightarrow> cq_mark (ct_queue s) = mark \<and> ct_made s \<le> n \<and>
     ct_got s @ cq_items (ct_queue s) = [1..<Suc (ct_made s)] \<and>
     length (ct_got s) + ct_wanted s = n \<and>
     (ct_taker s = Take_asleep \<longrightarrow> cq_items (ct_queue s) = [] \<and> 0 < ct_wanted s)"

definition cond_work :: "nat \<Rightarrow> cond_test \<Rightarrow> nat" where
  "cond_work n s = 3 * (n - ct_made s) + 3 * ct_wanted s +
     (case ct_taker s of Take_ready \<Rightarrow> 2 | Take_asleep \<Rightarrow> 0 | Take_awake \<Rightarrow> 1)"

lemma numbers_next: "[1..<Suc m] @ [Suc m] = [1..<Suc (Suc m)]"
  by simp

lemma cond_produce_ok:
  assumes "cond_ok mark n s" "ct_made s \<noteq> n"
  shows "cond_ok mark n (cond_produce s) \<and> cond_work n (cond_produce s) < cond_work n s"
  using assms numbers_next [of "ct_made s"]
  by (auto simp: cond_ok_def cond_work_def cond_produce_def cq_post_def Let_def simp flip: append_assoc split: taker.splits
      simp del: upt_Suc)

lemma cond_consume_ok:
  assumes "0 < mark" "cond_ok mark n s" "ct_taker s \<noteq> Take_asleep" "0 < ct_wanted s"
  shows "cond_ok mark n (cond_consume s) \<and> cond_work n (cond_consume s) < cond_work n s"
proof (cases "cq_items (ct_queue s)")
  case Nil
  then show ?thesis
    using assms by (auto simp: cond_ok_def cond_work_def cond_consume_def cq_wait_def split: taker.splits)
next
  case (Cons x xs)
  define g where "g = take (min mark (length (cq_items (ct_queue s)))) (cq_items (ct_queue s))"
  define q where "q = (ct_queue s)\<lparr>cq_items := drop (min mark (length (cq_items (ct_queue s)))) (cq_items (ct_queue s))\<rparr>"
  have w: "cq_wait (ct_queue s) = Some (g, q)"
    using Cons assms(2) by (simp add: cq_wait_def pop_items_eq g_def q_def cond_ok_def)
  have g: "g @ cq_items q = cq_items (ct_queue s)" "0 < length g" "cq_mark q = mark"
    using Cons assms(1,2) by (simp_all add: g_def q_def cond_ok_def)
  have eq: "ct_got s @ cq_items (ct_queue s) = [1..<Suc (ct_made s)]" "ct_made s \<le> n" "length (ct_got s) + ct_wanted s = n"
    using assms(2) by (simp_all add: cond_ok_def del: upt_Suc)
  have "length g \<le> ct_wanted s"
    using arg_cong [OF eq(1), of length] arg_cong [OF g(1), of length] eq(2,3) by (simp del: upt_Suc)
  then have "3 * (ct_wanted s - length g) + 3 \<le> 3 * ct_wanted s" using g(2) by linarith
  with \<open>length g \<le> ct_wanted s\<close> show ?thesis
    using w g eq assms(3) by (auto simp: cond_ok_def cond_work_def cond_consume_def simp del: upt_Suc split: taker.splits)
qed

lemma cond_rest:
  assumes "cond_ok mark n s" "\<nexists>s'. cond_step n s s'"
  shows "ct_wanted s = 0 \<and> ct_got s = [1..<Suc n]"
proof -
  have made: "ct_made s = n" using assms(2) cond_step.produce by blast
  have eq: "ct_got s @ cq_items (ct_queue s) = [1..<Suc n]" "length (ct_got s) + ct_wanted s = n"
    using assms(1) made by (simp_all add: cond_ok_def del: upt_Suc)
  have "ct_wanted s = 0"
  proof (rule ccontr)
    assume wanted: "ct_wanted s \<noteq> 0"
    then have "ct_taker s = Take_asleep" using assms(2) cond_step.consume by blast
    then have "cq_items (ct_queue s) = []" using assms(1) by (simp add: cond_ok_def)
    then have "length (ct_got s) = n" using arg_cong [OF eq(1), of length] by simp
    with wanted eq(2) show False by simp
  qed
  moreover from this have "cq_items (ct_queue s) = []" using arg_cong [OF eq(1), of length] eq(2) by (simp del: upt_Suc)
  ultimately show ?thesis using eq(1) by simp
qed

section \<open>With semaphores\<close>

record sem_test =
  st_queue :: "nat sem_queue"
  st_made :: nat            \<comment> \<open>\<^verbatim>\<open>i\<close> in \<^verbatim>\<open>productor\<close>\<close>
  st_posting :: bool        \<comment> \<open>past \<^verbatim>\<open>sem_wait(&wsem_)\<close>\<close>
  st_total :: nat           \<comment> \<open>\<^verbatim>\<open>total\<close> in \<^verbatim>\<open>consumer\<close>\<close>
  st_taking :: bool         \<comment> \<open>past \<^verbatim>\<open>sem_wait(&rsem_)\<close>\<close>
  st_got :: "nat list"

definition sem_start :: "nat \<Rightarrow> sem_test" where
  "sem_start mark = \<lparr>st_queue = sq_new mark, st_made = 0, st_posting = False, st_total = 0, st_taking = False, st_got = []\<rparr>"

definition sem_produce :: "sem_test \<Rightarrow> sem_test" where
  "sem_produce s = (let q = st_queue s in
     if st_posting s
     then s\<lparr>st_queue := sq_post (st_made s + 1) (q\<lparr>sq_posting := sq_posting q - 1\<rparr>), st_made := st_made s + 1, st_posting := False\<rparr>
     else s\<lparr>st_queue := q\<lparr>sq_wsem := sq_wsem q - 1, sq_posting := sq_posting q + 1\<rparr>, st_posting := True\<rparr>)"

definition sem_consume :: "sem_test \<Rightarrow> sem_test" where
  "sem_consume s = (let q = st_queue s in
     if st_taking s
     then (case sq_take (q\<lparr>sq_taking := sq_taking q - 1\<rparr>) of
       (items, q') \<Rightarrow> s\<lparr>st_queue := q', st_total := st_total s + length items, st_taking := False, st_got := st_got s @ items\<rparr>)
     else s\<lparr>st_queue := q\<lparr>sq_rsem := sq_rsem q - 1, sq_taking := sq_taking q + 1\<rparr>, st_taking := True\<rparr>)"

inductive sem_test_step :: "nat \<Rightarrow> sem_test \<Rightarrow> sem_test \<Rightarrow> bool" for n where
  produce: "st_made s \<noteq> n \<Longrightarrow> st_posting s \<or> 0 < sq_wsem (st_queue s) \<Longrightarrow> sem_test_step n s (sem_produce s)"
| consume: "st_total s \<noteq> n \<Longrightarrow> st_taking s \<or> 0 < sq_rsem (st_queue s) \<Longrightarrow> sem_test_step n s (sem_consume s)"

definition sem_ok :: "nat \<Rightarrow> nat \<Rightarrow> sem_test \<Rightarrow> bool" where
  "sem_ok mark n s \<longleftrightarrow> sem_inv mark (st_queue s) \<and> sq_posting (st_queue s) = of_bool (st_posting s) \<and>
     sq_taking (st_queue s) = of_bool (st_taking s) \<and> st_made s \<le> n \<and> (st_posting s \<longrightarrow> st_made s < n) \<and>
     st_got s @ sq_items (st_queue s) = [1..<Suc (st_made s)] \<and> st_total s = length (st_got s)"

definition sem_work :: "nat \<Rightarrow> sem_test \<Rightarrow> nat" where
  "sem_work n s = 2 * (n - st_made s) + 2 * (n - st_total s) + of_bool (\<not> st_posting s) + of_bool (\<not> st_taking s)"

lemma sem_produce_ok:
  assumes "0 < mark" "sem_ok mark n s" "st_made s \<noteq> n" "st_posting s \<or> 0 < sq_wsem (st_queue s)"
  shows "sem_ok mark n (sem_produce s) \<and> sem_work n (sem_produce s) < sem_work n s"
proof -
  have "sem_step (st_queue s) (st_queue (sem_produce s))"
    using assms(2,4) sem_step.post_begin [of "st_queue s"] sem_step.post_locked [of "st_queue s" "st_made s + 1"]
    by (auto simp: sem_produce_def sem_ok_def Let_def)
  then have "sem_inv mark (st_queue (sem_produce s))" using sem_inv_step assms(1,2) by (auto simp: sem_ok_def)
  then show ?thesis
    using assms(2,3) numbers_next [of "st_made s"]
    by (auto simp: sem_ok_def sem_work_def sem_produce_def sq_post_def Let_def simp flip: append_assoc simp del: upt_Suc)
qed

lemma sem_consume_ok:
  assumes "0 < mark" "sem_ok mark n s" "st_total s \<noteq> n" "st_taking s \<or> 0 < sq_rsem (st_queue s)"
  shows "sem_ok mark n (sem_consume s) \<and> sem_work n (sem_consume s) < sem_work n s"
proof -
  let ?q = "st_queue s"
  have "sem_step ?q (st_queue (sem_consume s))"
    using assms(2,4) sem_step.wait_begin [of ?q] sem_step.wait_locked [of ?q]
    by (auto simp: sem_consume_def sem_ok_def Let_def split: prod.splits)
  then have inv: "sem_inv mark (st_queue (sem_consume s))" using sem_inv_step assms(1,2) by (auto simp: sem_ok_def)
  have eq: "st_got s @ sq_items ?q = [1..<Suc (st_made s)]" "st_made s \<le> n" "st_total s = length (st_got s)"
    using assms(2) by (simp_all add: sem_ok_def del: upt_Suc)
  show ?thesis
  proof (cases "st_taking s")
    case True
    define g where "g = take (min mark (length (sq_items ?q))) (sq_items ?q)"
    obtain q' where t: "sq_take (?q\<lparr>sq_taking := sq_taking ?q - 1\<rparr>) = (g, q')" "g @ sq_items q' = sq_items ?q"
      "sq_posting q' = sq_posting ?q" "sq_taking q' = sq_taking ?q - 1"
      using assms(2) by (simp add: sq_take_def pop_items_eq Let_def g_def sem_ok_def sem_inv_def)
    have "sq_items ?q \<noteq> []"
      using True assms(1,2) batches_facts(1) [of mark] by (auto simp: sem_ok_def sem_inv_def)
    then have "0 < length g" using assms(1) by (simp add: g_def)
    moreover have "length (st_got s) + length g \<le> n"
      using arg_cong [OF eq(1), of length] arg_cong [OF t(2), of length] eq(2) by (simp del: upt_Suc)
    ultimately have "2 * (n - (st_total s + length g)) + 2 \<le> 2 * (n - st_total s)" using eq(3) by linarith
    then show ?thesis
      using inv t eq True assms(2)
      by (auto simp: sem_ok_def sem_work_def sem_consume_def Let_def simp del: upt_Suc)
  next
    case False
    then show ?thesis
      using inv assms(2) by (auto simp: sem_ok_def sem_work_def sem_consume_def Let_def simp del: upt_Suc)
  qed
qed

lemma sem_rest:
  assumes "0 < mark" "sem_ok mark n s" "\<nexists>s'. sem_test_step n s s'"
  shows "st_total s = n \<and> st_got s = [1..<Suc n]"
proof -
  let ?q = "st_queue s"
  have eq: "st_got s @ sq_items ?q = [1..<Suc (st_made s)]" "st_made s \<le> n" "st_total s = length (st_got s)"
    "sem_inv mark ?q" "sq_posting ?q = of_bool (st_posting s)" "sq_taking ?q = of_bool (st_taking s)"
    using assms(2) by (simp_all add: sem_ok_def del: upt_Suc)
  have len: "length (st_got s) + length (sq_items ?q) = st_made s" using arg_cong [OF eq(1), of length] by (simp del: upt_Suc)
  have all: "st_total s = n"
  proof (rule ccontr)
    assume total: "st_total s \<noteq> n"
    then have "sq_rsem ?q = 0" "\<not> st_taking s" using assms(3) sem_test_step.consume by blast+
    then have empty: "sq_items ?q = []"
      using eq(4,6) batches_facts(2) [OF assms(1), of "length (sq_items ?q)"] by (auto simp: sem_inv_def)
    then have "st_made s \<noteq> n" using total eq(3) len by simp
    then have "sq_wsem ?q = 0" "\<not> st_posting s" using assms(3) sem_test_step.produce by blast+
    with empty eq(4,5) show False by (auto simp: sem_inv_def)
  qed
  then have "st_made s = n" "length (sq_items ?q) = 0" using len eq(2,3) by linarith+
  with eq(1) all show ?thesis by (simp del: upt_Suc)
qed

section \<open>Both tests end\<close>

interpretation cond: progress "cond_step n" "\<lambda>s. 0 < mark \<and> cond_ok mark n s" "cond_work n"
    "\<lambda>s. ct_wanted s = 0 \<and> ct_got s = [1..<Suc n]" for mark n
proof
  fix s s' assume "0 < mark \<and> cond_ok mark n s" "cond_step n s s'"
  then show "(0 < mark \<and> cond_ok mark n s') \<and> cond_work n s' < cond_work n s"
    by (auto elim!: cond_step.cases dest: cond_produce_ok cond_consume_ok)
qed (use cond_rest in blast)

interpretation sem: progress "sem_test_step n" "\<lambda>s. 0 < mark \<and> sem_ok mark n s" "sem_work n"
    "\<lambda>s. st_total s = n \<and> st_got s = [1..<Suc n]" for mark n
proof
  fix s s' assume "0 < mark \<and> sem_ok mark n s" "sem_test_step n s s'"
  then show "(0 < mark \<and> sem_ok mark n s') \<and> sem_work n s' < sem_work n s"
    by (auto elim!: sem_test_step.cases dest: sem_produce_ok sem_consume_ok)
qed (use sem_rest in blast)

lemma starts_ok:
  "0 < mark \<Longrightarrow> cond_ok mark n (cond_start mark n) \<and> cond_work n (cond_start mark n) = 6 * n + 2"
  "0 < mark \<Longrightarrow> sem_ok mark n (sem_start mark) \<and> sem_work n (sem_start mark) = 4 * n + 2"
  by (auto simp: cond_ok_def cond_work_def cond_start_def sem_ok_def sem_work_def sem_start_def sem_inv_def sq_new_def
      batches_facts)

text \<open>
  C23: Both queue tests end with everything delivered. For a positive water mark and any number of items, the
  producer and the consumer, taking turns in any order, come to rest after a bounded number of steps, whatever the
  semaphores or the condition variable make them wait for; and when neither can go on the consumer has received
  exactly the numbers 1, 2, ... in their order. Such a run exists.
\<close>

theorem queue_tests_end:
  assumes "0 < mark"
  shows "(\<forall>k s. ((cond_step n) ^^ k) (cond_start mark n) s \<longrightarrow>
      k \<le> 6 * n + 2 \<and> ((\<nexists>s'. cond_step n s s') \<longrightarrow> ct_got s = [1..<n + 1])) \<and>
    (\<exists>k s. ((cond_step n) ^^ k) (cond_start mark n) s \<and> ct_got s = [1..<n + 1]) \<and>
    (\<forall>k s. ((sem_test_step n) ^^ k) (sem_start mark) s \<longrightarrow>
      k \<le> 4 * n + 2 \<and> ((\<nexists>s'. sem_test_step n s s') \<longrightarrow> st_got s = [1..<n + 1])) \<and>
    (\<exists>k s. ((sem_test_step n) ^^ k) (sem_start mark) s \<and> st_got s = [1..<n + 1])"
proof (intro conjI allI impI)
  note start = starts_ok [OF assms, of n]
  have cond_start: "0 < mark \<and> cond_ok mark n (cond_start mark n)" and sem_start: "0 < mark \<and> sem_ok mark n (sem_start mark)"
    using start assms by simp_all
  show "k \<le> 6 * n + 2" if "((cond_step n) ^^ k) (cond_start mark n) s" for k s
    using cond.runs [OF that cond_start] start(1) by simp
  show "ct_got s = [1..<n + 1]" if "((cond_step n) ^^ k) (cond_start mark n) s" "\<nexists>s'. cond_step n s s'" for k s
    using cond.rests [OF that(1) cond_start that(2)] by simp
  show "\<exists>k s. ((cond_step n) ^^ k) (cond_start mark n) s \<and> ct_got s = [1..<n + 1]"
    using cond.completes [OF cond_start] by fastforce
  show "k \<le> 4 * n + 2" if "((sem_test_step n) ^^ k) (sem_start mark) s" for k s
    using sem.runs [OF that sem_start] start(2) by simp
  show "st_got s = [1..<n + 1]" if "((sem_test_step n) ^^ k) (sem_start mark) s" "\<nexists>s'. sem_test_step n s s'" for k s
    using sem.rests [OF that(1) sem_start that(2)] by simp
  show "\<exists>k s. ((sem_test_step n) ^^ k) (sem_start mark) s \<and> st_got s = [1..<n + 1]"
    using sem.completes [OF sem_start] by fastforce
qed

theorem queue_tests_end_witness:
  "(\<exists>k s. ((cond_step 100000) ^^ k) (cond_start 100 100000) s \<and> ct_got s = [1..<100001]) \<and>
    (\<exists>k s. ((sem_test_step 100000) ^^ k) (sem_start 100) s \<and> st_got s = [1..<100001])"
  using queue_tests_end [of 100 100000] by simp

end
