(* ===== verification/LcSums.thy ===== *)
theory LcSums
  imports Prelude "HOL-Library.Sublist"
begin

text \<open>
  Rows of three or four numbers with a given sum (\<^verbatim>\<open>hobbies/leetcode/algorithms/solution_15\<close>, \<open>16\<close>, \<open>18\<close>).
  The numbers are \<open>int\<close>: the sums of the sources are taken to fit. Indices are natural numbers, so the loop
  counters that start at \<open>-1\<close> are an option.
\<close>

section \<open>The programs\<close>

function three_k :: "int list \<Rightarrow> nat \<Rightarrow> nat \<Rightarrow> nat \<Rightarrow> nat option \<Rightarrow> int list list \<Rightarrow> int list list" where
  "three_k nums i j k prev_k result =
     (if k < length nums then
        if prev_k \<noteq> None \<and> nums ! the prev_k = nums ! k then three_k nums i j (k + 1) prev_k result
        else
          let prev_s = nums ! i + nums ! j + nums ! k in
          if prev_s > 0 then result
          else three_k nums i j (k + 1) (Some k) (if prev_s = 0 then result @ [[nums ! i, nums ! j, nums ! k]] else result)
      else result)"
  by pat_completeness auto
termination by (relation "measure (\<lambda>(nums, i, j, k, p, r). length nums - k)") auto

function three_j :: "int list \<Rightarrow> nat \<Rightarrow> nat \<Rightarrow> nat option \<Rightarrow> int list list \<Rightarrow> int list list" where
  "three_j nums i j prev_j result =
     (if j < length nums then
        if nums ! i + nums ! j > 0 then result
        else if prev_j \<noteq> None \<and> nums ! the prev_j = nums ! j then three_j nums i (j + 1) prev_j result
        else three_j nums i (j + 1) (Some j) (three_k nums i j (j + 1) None result)
      else result)"
  by pat_completeness auto
termination by (relation "measure (\<lambda>(nums, i, j, p, r). length nums - j)") auto

function three_i :: "int list \<Rightarrow> nat \<Rightarrow> nat option \<Rightarrow> int list list \<Rightarrow> int list list" where
  "three_i nums i prev_i result =
     (if i < length nums then
        if nums ! i > 0 then result
        else if prev_i \<noteq> None \<and> nums ! the prev_i = nums ! i then three_i nums (i + 1) prev_i result
        else three_i nums (i + 1) (Some i) (three_j nums i (i + 1) None result)
      else result)"
  by pat_completeness auto
termination by (relation "measure (\<lambda>(nums, i, p, r). length nums - i)") auto

definition threeSum :: "int list \<Rightarrow> int list list" where
  "threeSum nums = three_i (sort nums) 0 None []"

function skip_equal_up :: "int list \<Rightarrow> int \<Rightarrow> nat \<Rightarrow> nat \<Rightarrow> nat" where
  "skip_equal_up nums v k m = (if k < m \<and> nums ! k = v then skip_equal_up nums v (k + 1) m else k)"
  by pat_completeness auto
termination by (relation "measure (\<lambda>(nums, v, k, m). m - k)") auto

function skip_equal_down :: "int list \<Rightarrow> int \<Rightarrow> nat \<Rightarrow> nat \<Rightarrow> nat" where
  "skip_equal_down nums v k m = (if k < m \<and> nums ! m = v then skip_equal_down nums v k (m - 1) else m)"
  by pat_completeness auto
termination by (relation "measure (\<lambda>(nums, v, k, m). m - k)") auto

declare skip_equal_up.simps [simp del] skip_equal_down.simps [simp del]

lemma skip_equal_up_bounds: "k \<le> m \<Longrightarrow> k \<le> skip_equal_up nums v k m \<and> skip_equal_up nums v k m \<le> m"
proof (induction nums v k m rule: skip_equal_up.induct)
  case (1 nums v k m)
  then show ?case by (subst (1 2) skip_equal_up.simps) auto
qed

lemma skip_equal_down_bounds: "k \<le> m \<Longrightarrow> k \<le> skip_equal_down nums v k m \<and> skip_equal_down nums v k m \<le> m"
proof (induction nums v k m rule: skip_equal_down.induct)
  case (1 nums v k m)
  show ?case
  proof (cases "k < m \<and> nums ! m = v")
    case True
    then have "k \<le> m - 1" by linarith
    then have "k \<le> skip_equal_down nums v k (m - 1) \<and> skip_equal_down nums v k (m - 1) \<le> m - 1" by (rule "1.IH" [OF True])
    then show ?thesis using True by (subst (1 2) skip_equal_down.simps) auto
  next
    case False
    then show ?thesis using "1.prems" by (subst (1 2) skip_equal_down.simps) auto
  qed
qed

function four_pairs :: "int list \<Rightarrow> nat \<Rightarrow> nat \<Rightarrow> int \<Rightarrow> nat \<Rightarrow> nat \<Rightarrow> int list list \<Rightarrow> int list list" where
  "four_pairs nums i j except_ij k m result =
     (if k < m then
        let sum = nums ! k + nums ! m in
        if sum < except_ij then four_pairs nums i j except_ij (k + 1) m result
        else if sum > except_ij then four_pairs nums i j except_ij k (m - 1) result
        else
          let k' = skip_equal_up nums (nums ! k) k m; m' = skip_equal_down nums (nums ! m) k' m in
          four_pairs nums i j except_ij k' m' (result @ [[nums ! i, nums ! j, nums ! k, nums ! m]])
      else result)"
  by pat_completeness auto
termination four_pairs
proof (relation "measure (\<lambda>(nums, i, j, e, k, m, r). m - k)", goal_cases)
  case (4 nums i j except_ij k m result sum k' m')
  have "k + 1 \<le> k'"
    using 4(1) skip_equal_up_bounds [of "k + 1" m nums "nums ! k"] unfolding 4(5) by (subst skip_equal_up.simps) auto
  moreover have "k' \<le> m" "m' \<le> m" using 4(1) skip_equal_up_bounds [of k m nums] skip_equal_down_bounds [of k' m nums "nums ! m"] unfolding 4(5,6) by auto
  ultimately show ?case using 4(1) by auto
qed auto

function next_other :: "int list \<Rightarrow> nat \<Rightarrow> nat" where
  \<comment> \<open>the loops that skip equal values, and the increment behind them\<close>
  "next_other nums j = (if j + 1 < length nums \<and> nums ! j = nums ! (j + 1) then next_other nums (j + 1) else j + 1)"
  by pat_completeness auto
termination next_other by (relation "measure (\<lambda>(nums, j). length nums - j)") auto

declare next_other.simps [simp del]

lemma next_other_greater: "j < next_other nums j"
proof (induction nums j rule: next_other.induct)
  case (1 nums j)
  then show ?case by (subst next_other.simps) auto
qed

function four_j :: "int list \<Rightarrow> nat \<Rightarrow> int \<Rightarrow> nat \<Rightarrow> int list list \<Rightarrow> int list list" where
  "four_j nums i except_i j result =
     (if j < length nums then
        four_j nums i except_i (next_other nums j)
          (four_pairs nums i j (except_i - nums ! j) (j + 1) (length nums - 1) result)
      else result)"
  by pat_completeness auto
termination four_j
  by (relation "measure (\<lambda>(nums, i, e, j, r). length nums - j)") (auto simp: diff_less_mono2 next_other_greater)

function four_i :: "int list \<Rightarrow> int \<Rightarrow> nat \<Rightarrow> int list list \<Rightarrow> int list list" where
  "four_i nums target i result =
     (if i < length nums then
        four_i nums target (next_other nums i) (four_j nums i (target - nums ! i) (i + 1) result)
      else result)"
  by pat_completeness auto
termination four_i
  by (relation "measure (\<lambda>(nums, t, i, r). length nums - i)") (auto simp: diff_less_mono2 next_other_greater)

definition fourSum :: "int list \<Rightarrow> int \<Rightarrow> int list list" where
  "fourSum nums target = four_i (sort nums) target 0 []"

function closest_pair :: "int list \<Rightarrow> int \<Rightarrow> nat \<Rightarrow> nat \<Rightarrow> nat \<Rightarrow> int \<times> int \<Rightarrow> int + int \<times> int" where
  \<comment> \<open>the inner loop on \<open>(ans, closest)\<close>; \<open>Inl\<close>: the early return\<close>
  "closest_pair nums target f second third best =
     (if second < third then
        let tmp = nums ! f + nums ! second + nums ! third;
            best' = (if \<bar>tmp - target\<bar> < fst best then (\<bar>tmp - target\<bar>, tmp) else best) in
        if tmp = target then Inl tmp
        else if tmp < target then closest_pair nums target f (second + 1) third best'
        else closest_pair nums target f second (third - 1) best'
      else Inr best)"
  by pat_completeness auto
termination closest_pair by (relation "measure (\<lambda>(nums, t, f, s, u, b). u - s)") auto

function closest_first :: "int list \<Rightarrow> int \<Rightarrow> nat \<Rightarrow> int \<times> int \<Rightarrow> int" where
  "closest_first nums target f best =
     (if f < length nums - 2 then
        (case closest_pair nums target f (f + 1) (length nums - 1) best of
           Inl tmp \<Rightarrow> tmp
         | Inr best' \<Rightarrow> closest_first nums target (f + 1) best')
      else snd best)"
  by pat_completeness auto
termination closest_first by (relation "measure (\<lambda>(nums, t, f, b). length nums - f)") auto

definition threeSumClosest :: "int list \<Rightarrow> int \<Rightarrow> int" where
  "threeSumClosest nums target =
     (if length nums < 3 then sum_list nums else closest_first (sort nums) target 0 (INT_MAX, INT_MAX))"

declare three_k.simps [simp del] three_j.simps [simp del] three_i.simps [simp del] four_pairs.simps [simp del]
  four_j.simps [simp del] four_i.simps [simp del] closest_pair.simps [simp del] closest_first.simps [simp del]

lemma sums_examples:
  "threeSum [-1, 0, 1, 2, -1, -4] = [[-1, -1, 2], [-1, 0, 1]]"
  "fourSum [1, 0, -1, 0, -2, 2] 0 = [[-2, -1, 1, 2], [-2, 0, 0, 2], [-1, 0, 0, 1]]"
  "threeSumClosest [-1, 2, 1, -4] 1 = 2"
  by code_simp+

section \<open>Rows\<close>

definition rows :: "nat \<Rightarrow> int list \<Rightarrow> int list set" where
  "rows n xs = {r. length r = n \<and> subseq r xs}"

lemma rows_simps [simp]: "rows 0 xs = {[]}" "rows (Suc n) [] = {}"
  by (auto simp: rows_def)

lemma rows_Cons: "rows (Suc n) (y # ys) = (#) y ` rows n ys \<union> rows (Suc n) ys"
proof -
  have "r \<in> rows (Suc n) (y # ys) \<longleftrightarrow> r \<in> (#) y ` rows n ys \<union> rows (Suc n) ys" for r
    by (cases r) (auto simp: rows_def subseq_Cons2_iff dest: subseq_Cons')
  then show ?thesis by blast
qed

lemma rows_one: "rows (Suc 0) xs = (\<lambda>c. [c]) ` set xs"
  by (induction xs) (auto simp: rows_Cons)

lemma rows_first: "rows (Suc n) (y # ys) = (#) y ` rows n ys \<union> {r \<in> rows (Suc n) ys. hd r \<noteq> y}"
proof -
  have "r \<in> (#) y ` rows n ys" if "r \<in> rows (Suc n) ys" "hd r = y" for r
    using that by (cases r) (auto simp: rows_def dest: subseq_Cons')
  then show ?thesis by (auto simp: rows_Cons)
qed

lemma rows_elems: "r \<in> rows n xs \<Longrightarrow> set r \<subseteq> set xs"
  by (auto simp: rows_def dest: list_emb_set)

lemma rows_sorted:
  assumes "sorted xs"
  shows "r \<in> rows n xs \<longleftrightarrow> length r = n \<and> sorted r \<and> mset r \<subseteq># mset xs"
proof -
  have "subseq r xs \<longleftrightarrow> sorted r \<and> mset r \<subseteq># mset xs"
    using assms
  proof (induction xs arbitrary: r)
    case (Cons y ys)
    show ?case
    proof (cases r)
      case (Cons z zs)
      show ?thesis
      proof (cases "z = y")
        case True
        have "set zs \<subseteq> set ys \<Longrightarrow> \<forall>x \<in> set zs. y \<le> x" using Cons.prems by auto
        then show ?thesis using True Cons Cons.IH [of zs] Cons.prems by (auto dest: set_mset_mono)
      next
        case False
        have "mset r \<subseteq># mset (y # ys) \<longleftrightarrow> mset r \<subseteq># mset ys" if "sorted r"
        proof
          assume sub: "mset r \<subseteq># mset (y # ys)"
          have "z \<in># mset (y # ys)" using mset_subset_eqD [OF sub, of z] Cons by simp
          then have "y \<le> z" using Cons.prems by auto
          then have "y \<notin># mset r" using that Cons False by auto
          then show "mset r \<subseteq># mset ys"
            using mset_subset_eq_count [OF sub] by (intro mset_subset_eqI) (metis count_add_mset count_eq_zero_iff le0 mset.simps(2))
        qed (auto intro: subset_mset.order_trans)
        then show ?thesis using False Cons Cons.IH [of r] Cons.prems by auto
      qed
    qed simp
  qed (auto dest: list_emb_Nil2)
  then show ?thesis by (auto simp: rows_def)
qed

lemma drop_at: "j < length nums \<Longrightarrow> drop j nums = nums ! j # drop (Suc j) nums"
  by (simp add: Cons_nth_drop_Suc)

lemma sorted_drop_ge: "sorted nums \<Longrightarrow> j \<le> length nums \<Longrightarrow> p \<le> j \<Longrightarrow> p < length nums \<Longrightarrow> x \<in> set (drop j nums) \<Longrightarrow> nums ! p \<le> x"
  by (auto simp: in_set_conv_nth intro!: sorted_nth_mono)

section \<open>Sums of three\<close>

lemma three_k_spec:
  assumes "sorted nums" "\<forall>p. prev = Some p \<longrightarrow> p < k"
  shows "three_k nums i j k prev result = result @
    (if - (nums ! i + nums ! j) \<in> set (drop k nums) \<and> (prev = None \<or> nums ! the prev \<noteq> - (nums ! i + nums ! j))
     then [[nums ! i, nums ! j, - (nums ! i + nums ! j)]] else [])"
  using assms(2)
proof (induction "length nums - k" arbitrary: k prev result rule: less_induct)
  case less
  define c where "c = - (nums ! i + nums ! j)"
  show ?case
  proof (cases "k < length nums")
    case True
    have D: "set (drop k nums) = insert (nums ! k) (set (drop (Suc k) nums))" by (simp add: drop_at [OF True])
    have later: "nums ! k \<le> x" if "x \<in> set (drop (Suc k) nums)" for x
      using sorted_drop_ge [OF assms(1), of "Suc k" k x] True that by simp
    have before: "nums ! the prev \<le> nums ! k" if "prev \<noteq> None"
      using that less.prems True assms(1) by (auto intro!: sorted_nth_mono simp: less_imp_le)
    have s: "nums ! i + nums ! j + nums ! k = nums ! k - c" "- (nums ! i + nums ! j) = c" by (simp_all add: c_def)
    have rec: "three_k nums i j (Suc k) p' r' = r' @
        (if c \<in> set (drop (Suc k) nums) \<and> (p' = None \<or> nums ! the p' \<noteq> c) then [[nums ! i, nums ! j, c]] else [])"
      if "\<forall>p. p' = Some p \<longrightarrow> p < Suc k" for p' r'
      using less.hyps [of "Suc k" p' r'] that True unfolding s by simp
    show ?thesis
    proof (cases "prev \<noteq> None \<and> nums ! the prev = nums ! k")
      case skip: True
      then have "\<forall>p. prev = Some p \<longrightarrow> p < Suc k" using less.prems by auto
      from rec [OF this] show ?thesis
        using True skip unfolding s by (subst three_k.simps) (auto simp: D)
    next
      case False
      consider "nums ! k < c" | "nums ! k = c" | "c < nums ! k" by linarith
      then show ?thesis
      proof cases
        case 1
        then show ?thesis
          using True False before rec [of "Some k" result] unfolding s by (subst three_k.simps) (auto simp: D s Let_def)
      next
        case 2
        then show ?thesis
          using True False rec [of "Some k" "result @ [[nums ! i, nums ! j, nums ! k]]"] unfolding s
          by (subst three_k.simps) (auto simp: D s Let_def)
      next
        case 3
        then show ?thesis
          using True False later unfolding s by (subst three_k.simps) (force simp: D s Let_def)
      qed
    qed
  next
    case False
    then show ?thesis by (simp add: three_k.simps)
  qed
qed

lemma third: "a + (b + c) = 0 \<Longrightarrow> c = - a - (b :: int)"
  by linarith

lemma three_j_spec:
  assumes "sorted nums" "i < j" "\<forall>p. prev = Some p \<longrightarrow> p < j"
  shows "\<exists>new. three_j nums i j prev result = result @ new \<and> distinct new \<and>
    set new = {nums ! i # r | r. r \<in> rows 2 (drop j nums) \<and> nums ! i + sum_list r = 0 \<and>
      (prev = None \<or> hd r \<noteq> nums ! the prev)}"
  using assms(2,3)
proof (induction "length nums - j" arbitrary: j prev result rule: less_induct)
  case less
  let ?a = "nums ! i" and ?b = "nums ! j" and ?D = "drop (Suc j) nums"
  let ?ok = "\<lambda>prev r. prev = None \<or> hd r \<noteq> nums ! the prev"
  show ?case
  proof (cases "j < length nums")
    case True
    have D: "drop j nums = ?b # ?D" by (rule drop_at [OF True])
    have "?a \<le> ?b" using assms(1) less.prems(1) True by (simp add: sorted_nth_mono)
    have later: "?b \<le> x" if "x \<in> set ?D" for x
      using sorted_drop_ge [OF assms(1), of "Suc j" j x] True that by simp
    have before: "nums ! the prev \<le> ?b" if "prev \<noteq> None"
      using that less.prems(2) True assms(1) by (auto intro!: sorted_nth_mono simp: less_imp_le)
    have rec: "\<exists>new. three_j nums i (Suc j) p' r' = r' @ new \<and> distinct new \<and>
        set new = {?a # r | r. r \<in> rows 2 ?D \<and> ?a + sum_list r = 0 \<and> ?ok p' r}"
      if "\<forall>p. p' = Some p \<longrightarrow> p < Suc j" for p' r'
      using less.hyps [of "Suc j" p' r'] that less.prems(1) True by simp
    have elems: "\<exists>x y. r = [x, y] \<and> x \<in> set (drop k nums) \<and> y \<in> set (drop k nums)" if "r \<in> rows 2 (drop k nums)" for r k
      using that rows_elems [OF that] by (auto simp: rows_def length_Suc_conv eval_nat_numeral)
    show ?thesis
    proof (cases "?a + ?b > 0")
      case stop: True
      have "?a + sum_list r \<noteq> 0" if r: "r \<in> rows 2 (drop j nums)" for r
      proof -
        obtain x y where "r = [x, y]" "x \<in> set (drop j nums)" "y \<in> set (drop j nums)" using elems [OF r] by blast
        then have "r = [x, y]" "?b \<le> x" "?b \<le> y" using later by (auto simp: D)
        then show ?thesis using stop \<open>?a \<le> ?b\<close> by simp
      qed
      then show ?thesis using True stop by (intro exI [of _ "[]"]) (auto simp: three_j.simps)
    next
      case go: False
      show ?thesis
      proof (cases "prev \<noteq> None \<and> nums ! the prev = ?b")
        case skip: True
        then obtain q where q: "prev = Some q" by auto
        from skip have p: "\<forall>p. prev = Some p \<longrightarrow> p < Suc j" using less.prems(2) by auto
        have "{?a # r | r. r \<in> rows 2 ?D \<and> ?a + sum_list r = 0 \<and> ?ok prev r} =
            {?a # r | r. r \<in> rows 2 (drop j nums) \<and> ?a + sum_list r = 0 \<and> ?ok prev r}"
          using skip by (auto simp: D numeral_2_eq_2 rows_first)
        with rec [OF p, of result] show ?thesis using True go skip by (subst three_j.simps) (simp add: q)
      next
        case False
        define new1 where "new1 = (if - (?a + ?b) \<in> set ?D then [[?a, ?b, - (?a + ?b)]] else [])"
        have k: "three_k nums i j (Suc j) None result = result @ new1"
          using three_k_spec [OF assms(1), of None "Suc j" i j result] by (simp add: new1_def)
        obtain new2 where new2: "three_j nums i (Suc j) (Some j) (result @ new1) = (result @ new1) @ new2" "distinct new2"
          "set new2 = {?a # r | r. r \<in> rows 2 ?D \<and> ?a + sum_list r = 0 \<and> hd r \<noteq> ?b}"
          using rec [of "Some j" "result @ new1"] by auto
        have one: "set new1 = {?a # r | r. r \<in> (#) ?b ` rows (Suc 0) ?D \<and> ?a + sum_list r = 0}"
          by (auto simp: new1_def rows_one dest!: third)
        have ok: "?ok prev r" if "r \<in> rows 2 (drop j nums)" for r
          using elems [OF that] before False later by (fastforce simp: D)
        have "set (new1 @ new2) = {?a # r | r. r \<in> rows 2 (drop j nums) \<and> ?a + sum_list r = 0 \<and> ?ok prev r}"
          using ok unfolding set_append one new2(3) D numeral_2_eq_2 rows_first by blast
        moreover have "distinct (new1 @ new2)" using new2(2,3) by (auto simp: new1_def)
        ultimately show ?thesis
          using True go False k new2(1) by (intro exI [of _ "new1 @ new2"]) (subst three_j.simps, auto)
      qed
    qed
  next
    case False
    then show ?thesis by (intro exI [of _ "[]"]) (simp add: three_j.simps numeral_2_eq_2)
  qed
qed

lemma three_i_spec:
  assumes "sorted nums" "\<forall>p. prev = Some p \<longrightarrow> p < i"
  shows "\<exists>new. three_i nums i prev result = result @ new \<and> distinct new \<and>
    set new = {r. r \<in> rows 3 (drop i nums) \<and> sum_list r = 0 \<and> (prev = None \<or> hd r \<noteq> nums ! the prev)}"
  using assms(2)
proof (induction "length nums - i" arbitrary: i prev result rule: less_induct)
  case less
  let ?a = "nums ! i" and ?D = "drop (Suc i) nums"
  let ?ok = "\<lambda>prev r. prev = None \<or> hd r \<noteq> nums ! the prev"
  show ?case
  proof (cases "i < length nums")
    case True
    have D: "drop i nums = ?a # ?D" by (rule drop_at [OF True])
    have later: "?a \<le> x" if "x \<in> set (drop i nums)" for x
      using sorted_drop_ge [OF assms(1), of i i x] True that by simp
    have before: "nums ! the prev \<le> ?a" if "prev \<noteq> None"
      using that less.prems True assms(1) by (auto intro!: sorted_nth_mono simp: less_imp_le)
    have rec: "\<exists>new. three_i nums (Suc i) p' r' = r' @ new \<and> distinct new \<and>
        set new = {r. r \<in> rows 3 ?D \<and> sum_list r = 0 \<and> ?ok p' r}"
      if "\<forall>p. p' = Some p \<longrightarrow> p < Suc i" for p' r'
      using less.hyps [of "Suc i" p' r'] that True by simp
    have head: "hd r \<in> set (drop i nums)" if "r \<in> rows 3 (drop i nums)" for r
      using that rows_elems [OF that] by (auto simp: rows_def length_Suc_conv eval_nat_numeral)
    show ?thesis
    proof (cases "?a > 0")
      case stop: True
      have "sum_list r \<noteq> 0" if r: "r \<in> rows 3 (drop i nums)" for r
      proof -
        have pos: "0 < x" if "x \<in> set r" for x using rows_elems [OF r] later stop that by force
        obtain x y z where "r = [x, y, z]" using r by (auto simp: rows_def length_Suc_conv eval_nat_numeral)
        then show ?thesis using pos [of x] pos [of y] pos [of z] by simp
      qed
      then show ?thesis using True stop by (intro exI [of _ "[]"]) (auto simp: three_i.simps)
    next
      case go: False
      show ?thesis
      proof (cases "prev \<noteq> None \<and> nums ! the prev = ?a")
        case skip: True
        then obtain q where q: "prev = Some q" by auto
        from skip have p: "\<forall>p. prev = Some p \<longrightarrow> p < Suc i" using less.prems by auto
        have "{r. r \<in> rows 3 ?D \<and> sum_list r = 0 \<and> ?ok prev r} = {r. r \<in> rows 3 (drop i nums) \<and> sum_list r = 0 \<and> ?ok prev r}"
          using skip by (auto simp: D numeral_3_eq_3 rows_first)
        with rec [OF p, of result] show ?thesis using True go skip by (subst three_i.simps) (simp add: q)
      next
        case False
        obtain new1 where new1: "three_j nums i (Suc i) None result = result @ new1" "distinct new1"
          "set new1 = {?a # r | r. r \<in> rows 2 ?D \<and> ?a + sum_list r = 0}"
          using three_j_spec [OF assms(1), of i "Suc i" None result] by auto
        obtain new2 where new2: "three_i nums (Suc i) (Some i) (result @ new1) = (result @ new1) @ new2" "distinct new2"
          "set new2 = {r. r \<in> rows 3 ?D \<and> sum_list r = 0 \<and> hd r \<noteq> ?a}"
          using rec [of "Some i" "result @ new1"] by auto
        have ok: "?ok prev r" if "r \<in> rows 3 (drop i nums)" for r
          using later [OF head [OF that]] before False by fastforce
        have one: "set new1 = {r. r \<in> (#) ?a ` rows 2 ?D \<and> sum_list r = 0}" unfolding new1(3) by auto
        have "set (new1 @ new2) = {r. r \<in> rows 3 (drop i nums) \<and> sum_list r = 0 \<and> ?ok prev r}"
          using ok unfolding set_append one new2(3) D numeral_3_eq_3 numeral_2_eq_2 rows_first by blast
        moreover have "distinct (new1 @ new2)" using new1(2,3) new2(2,3) by auto
        ultimately show ?thesis
          using True go False new1(1) new2(1) by (intro exI [of _ "new1 @ new2"]) (subst three_i.simps, auto)
      qed
    qed
  next
    case False
    then show ?thesis by (intro exI [of _ "[]"]) (simp add: three_i.simps numeral_3_eq_3)
  qed
qed

lemma threeSum_spec:
  "distinct (threeSum nums) \<and> set (threeSum nums) = {r. length r = 3 \<and> sorted r \<and> mset r \<subseteq># mset nums \<and> sum_list r = 0}"
  using three_i_spec [of "sort nums" None 0 "[]"] by (auto simp: threeSum_def rows_sorted)

section \<open>Sums of four\<close>

lemma next_other_spec:
  "j < length nums \<Longrightarrow> next_other nums j \<le> length nums \<and>
    (\<forall>x. j \<le> x \<and> x < next_other nums j \<longrightarrow> nums ! x = nums ! j) \<and>
    (next_other nums j < length nums \<longrightarrow> nums ! next_other nums j \<noteq> nums ! j)"
proof (induction nums j rule: next_other.induct)
  case (1 nums j)
  show ?case
  proof (cases "j + 1 < length nums \<and> nums ! j = nums ! (j + 1)")
    case True
    then have "next_other nums j = next_other nums (j + 1)" by (subst next_other.simps) (rule if_P)
    with "1.IH" [OF True] True show ?thesis by (metis Suc_eq_plus1 le_antisym not_less_eq_eq)
  next
    case False
    then have "next_other nums j = j + 1" by (subst next_other.simps) (rule if_not_P)
    with False "1.prems" show ?thesis by (auto simp: le_less_Suc_eq)
  qed
qed

lemma subseq_drop_mono: "i \<le> k \<Longrightarrow> subseq (drop k xs) (drop i xs)"
  by (metis drop_drop le_add_diff_inverse2 suffix_drop suffix_imp_subseq)

lemma rows_next_other:
  assumes "sorted nums" "j < length nums"
  shows "rows (Suc n) (drop j nums) = (#) (nums ! j) ` rows n (drop (Suc j) nums) \<union> rows (Suc n) (drop (next_other nums j) nums)"
    "r \<in> rows (Suc n) (drop (next_other nums j) nums) \<Longrightarrow> nums ! j < hd r"
proof -
  have other: "\<And>x. j \<le> x \<Longrightarrow> x < next_other nums j \<Longrightarrow> x < length nums \<and> nums ! x = nums ! j"
    "next_other nums j < length nums \<Longrightarrow> nums ! next_other nums j \<noteq> nums ! j"
    using next_other_spec [OF assms(2)] by (blast intro: less_le_trans)+
  show "nums ! j < hd r" if r: "r \<in> rows (Suc n) (drop (next_other nums j) nums)"
  proof -
    have ne: "next_other nums j < length nums" by (rule ccontr) (use r in simp)
    have "r \<noteq> []" using r by (cases r) (simp_all add: rows_def)
    then have "hd r \<in> set (drop (next_other nums j) nums)" using rows_elems [OF r] hd_in_set by blast
    then have "nums ! next_other nums j \<le> hd r" by (intro sorted_drop_ge [OF assms(1)]) (use ne in auto)
    moreover have "nums ! j \<le> nums ! next_other nums j"
      using assms(1) ne next_other_greater [of j nums] by (intro sorted_nth_mono) auto
    ultimately show ?thesis using other(2) [OF ne] by linarith
  qed
  let ?rest = "rows (Suc n) (drop (next_other nums j) nums)"
  have "rows (Suc n) (drop (next_other nums j - d) nums) \<subseteq> (#) (nums ! j) ` rows n (drop (Suc j) nums) \<union> ?rest"
    if "d \<le> next_other nums j - j" for d
    using that
  proof (induction d)
    case (Suc d)
    let ?k = "next_other nums j - Suc d"
    have k: "j \<le> ?k" "?k < next_other nums j" "Suc ?k = next_other nums j - d" using Suc.prems by auto
    then have "drop ?k nums = nums ! j # drop (next_other nums j - d) nums" using other(1) [OF k(1,2)] drop_at [of ?k nums] by simp
    moreover have "rows n (drop (next_other nums j - d) nums) \<subseteq> rows n (drop (Suc j) nums)"
      using k(1) unfolding k(3) [symmetric] rows_def
      by (auto intro: subseq_order.trans [OF _ subseq_drop_mono])
    ultimately show ?case using Suc by (auto simp: rows_Cons)
  qed simp
  from this [of "next_other nums j - j"]
  have "rows (Suc n) (drop j nums) \<subseteq> (#) (nums ! j) ` rows n (drop (Suc j) nums) \<union> ?rest"
    using next_other_greater [of j nums] by simp
  moreover have "?rest \<subseteq> rows (Suc n) (drop j nums)"
    using next_other_greater [of j nums] unfolding rows_def by (auto intro: subseq_order.trans [OF _ subseq_drop_mono])
  moreover have "(#) (nums ! j) ` rows n (drop (Suc j) nums) \<subseteq> rows (Suc n) (drop j nums)"
    by (auto simp: drop_at [OF assms(2)] rows_Cons)
  ultimately show "rows (Suc n) (drop j nums) = (#) (nums ! j) ` rows n (drop (Suc j) nums) \<union> ?rest" by blast
qed

lemma skip_equal_up_spec: "k \<le> x \<Longrightarrow> x < skip_equal_up nums v k m \<Longrightarrow> nums ! x = v"
proof (induction nums v k m rule: skip_equal_up.induct)
  case (1 nums v k m)
  then show ?case by (cases "x = k") (auto simp: skip_equal_up.simps [of nums v k m] split: if_splits)
qed

lemma skip_equal_up_stops: "k \<le> m \<Longrightarrow> skip_equal_up nums v k m < m \<Longrightarrow> nums ! skip_equal_up nums v k m \<noteq> v"
proof (induction nums v k m rule: skip_equal_up.induct)
  case (1 nums v k m)
  then show ?case by (cases "k < m \<and> nums ! k = v") (auto simp: skip_equal_up.simps [of nums v k m])
qed

lemma skip_equal_down_spec: "x \<le> m \<Longrightarrow> skip_equal_down nums v k m < x \<Longrightarrow> nums ! x = v"
proof (induction nums v k m rule: skip_equal_down.induct)
  case (1 nums v k m)
  show ?case
  proof (cases "k < m \<and> nums ! m = v")
    case True
    then have "skip_equal_down nums v k m = skip_equal_down nums v k (m - 1)" by (subst skip_equal_down.simps) (rule if_P)
    then show ?thesis using "1.IH" [OF True] "1.prems" True by (cases "x = m") auto
  next
    case False
    then have "skip_equal_down nums v k m = m" by (subst skip_equal_down.simps) (rule if_not_P)
    then show ?thesis using "1.prems" by simp
  qed
qed

definition index_pairs :: "int list \<Rightarrow> nat \<Rightarrow> nat \<Rightarrow> int list set" where
  "index_pairs nums k m = {[nums ! x, nums ! y] | x y. k \<le> x \<and> x < y \<and> y \<le> m}"

lemma index_pairsI: "k \<le> x \<Longrightarrow> x < y \<Longrightarrow> y \<le> m \<Longrightarrow> [nums ! x, nums ! y] \<in> index_pairs nums k m"
  by (auto simp: index_pairs_def)

lemma index_pairsE:
  assumes "r \<in> index_pairs nums k m"
  obtains x y where "r = [nums ! x, nums ! y]" "k \<le> x" "x < y" "y \<le> m"
  using assms by (auto simp: index_pairs_def)

lemma index_pairs_mono: "k \<le> k' \<Longrightarrow> m' \<le> m \<Longrightarrow> index_pairs nums k' m' \<subseteq> index_pairs nums k m"
proof
  fix r assume "k \<le> k'" "m' \<le> m" "r \<in> index_pairs nums k' m'"
  moreover obtain x y where "r = [nums ! x, nums ! y]" "k' \<le> x" "x < y" "y \<le> m'"
    using \<open>r \<in> index_pairs nums k' m'\<close> by (rule index_pairsE)
  ultimately show "r \<in> index_pairs nums k m" using index_pairsI [of k x y m nums] by simp
qed

lemma index_pairs_rows:
  assumes "nums \<noteq> []"
  shows "index_pairs nums k (length nums - 1) = rows 2 (drop k nums)"
proof (induction "length nums - k" arbitrary: k rule: less_induct)
  case less
  show ?case
  proof (cases "k < length nums")
    case True
    have "index_pairs nums k (length nums - 1) =
        (\<lambda>c. [nums ! k, c]) ` set (drop (Suc k) nums) \<union> index_pairs nums (Suc k) (length nums - 1)"
    proof (intro set_eqI iffI)
      fix r assume "r \<in> index_pairs nums k (length nums - 1)"
      then obtain x y where r: "r = [nums ! x, nums ! y]" "k \<le> x" "x < y" "y < length nums"
        using assms by (auto simp: index_pairs_def less_Suc_eq_le [symmetric])
      have "nums ! y \<in> set (drop (Suc k) nums)" using r by (auto simp: in_set_conv_nth intro!: exI [of _ "y - Suc k"])
      with r show "r \<in> (\<lambda>c. [nums ! k, c]) ` set (drop (Suc k) nums) \<union> index_pairs nums (Suc k) (length nums - 1)"
        using index_pairsI [of "Suc k" x y "length nums - 1" nums] by (cases "x = k") auto
    next
      fix r assume "r \<in> (\<lambda>c. [nums ! k, c]) ` set (drop (Suc k) nums) \<union> index_pairs nums (Suc k) (length nums - 1)"
      then show "r \<in> index_pairs nums k (length nums - 1)"
      proof
        assume "r \<in> (\<lambda>c. [nums ! k, c]) ` set (drop (Suc k) nums)"
        then obtain z where "z < length nums - Suc k" "r = [nums ! k, nums ! (Suc k + z)]" by (auto simp: in_set_conv_nth)
        then show ?thesis unfolding index_pairs_def by (intro CollectI exI [of _ k] exI [of _ "Suc k + z"]) auto
      next
        assume "r \<in> index_pairs nums (Suc k) (length nums - 1)"
        then show ?thesis using index_pairs_mono [of k "Suc k" "length nums - 1" "length nums - 1" nums] by auto
      qed
    qed
    then show ?thesis using less.hyps [of "Suc k"] True by (simp add: drop_at numeral_2_eq_2 rows_Cons rows_one image_image)
  next
    case False
    then show ?thesis using assms by (auto simp: index_pairs_def numeral_2_eq_2)
  qed
qed

lemma four_pairs_spec:
  assumes "sorted nums" "m < length nums"
  shows "\<exists>new. four_pairs nums i j e k m result = result @ new \<and> distinct new \<and>
    set new = (\<lambda>r. nums ! i # nums ! j # r) ` {r \<in> index_pairs nums k m. sum_list r = e}"
  using assms
proof (induction nums i j e k m result rule: four_pairs.induct)
  case (1 nums i j e k m result)
  let ?row = "\<lambda>r. nums ! i # nums ! j # r"
  have mono: "nums ! x \<le> nums ! y" if "x \<le> y" "y \<le> m" for x y
    using that "1.prems" by (intro sorted_nth_mono) auto
  show ?case
  proof (cases "k < m")
    case True
    let ?u = "nums ! k" and ?v = "nums ! m"
    consider "?u + ?v < e" | "?u + ?v > e" | "?u + ?v = e" by linarith
    then show ?thesis
    proof cases
      case 1
      have "?u + nums ! y \<noteq> e" if "y \<le> m" for y using mono [of y m] that 1 by simp
      then have "{r \<in> index_pairs nums k m. sum_list r = e} = {r \<in> index_pairs nums (k + 1) m. sum_list r = e}"
        unfolding index_pairs_def by (auto simp: Suc_le_eq) (metis le_neq_implies_less less_imp_le)+
      then show ?thesis using "1.IH"(1) [OF True refl 1 "1.prems"] True 1 by (simp add: four_pairs.simps [of nums i j e k m] Let_def)
    next
      case 2
      have ne: "nums ! x + ?v \<noteq> e" if "k \<le> x" "x \<le> m" for x using mono [of k x] that 2 by simp
      have "r \<in> index_pairs nums k (m - 1)" if r: "r \<in> index_pairs nums k m" "sum_list r = e" for r
      proof -
        obtain x y where xy: "r = [nums ! x, nums ! y]" "k \<le> x" "x < y" "y \<le> m" using r(1) by (rule index_pairsE)
        then have "y \<noteq> m" using ne [of x] r(2) by auto
        with xy show ?thesis using index_pairsI [of k x y "m - 1" nums] by simp
      qed
      moreover have "index_pairs nums k (m - 1) \<subseteq> index_pairs nums k m" by (rule index_pairs_mono) simp_all
      ultimately have "{r \<in> index_pairs nums k m. sum_list r = e} = {r \<in> index_pairs nums k (m - 1). sum_list r = e}" by blast
      then show ?thesis
        using "1.IH"(2) [OF True refl _ 2] "1.prems" True 2 by (simp add: four_pairs.simps [of nums i j e k m] Let_def)
    next
      case 3
      let ?k = "skip_equal_up nums ?u k m" and ?m = "skip_equal_down nums ?v (skip_equal_up nums ?u k m) m"
      have bounds: "k \<le> ?k" "?k \<le> m" "?k \<le> ?m" "?m \<le> m"
        using skip_equal_up_bounds [of k m nums ?u] skip_equal_down_bounds [of ?k m nums ?v] True by auto
      have inner: "r = [?u, ?v] \<or> r \<in> index_pairs nums ?k ?m" if r: "r \<in> index_pairs nums k m" "sum_list r = e" for r
      proof -
        obtain x y where xy: "r = [nums ! x, nums ! y]" "k \<le> x" "x < y" "y \<le> m" using r(1) by (rule index_pairsE)
        show ?thesis
        proof (cases "nums ! x = ?u")
          case True
          then show ?thesis using xy(1) r(2) 3 by simp
        next
          case False
          then have "?k \<le> x" using skip_equal_up_spec [OF xy(2)] by (meson not_le)
          moreover have "nums ! y \<noteq> ?v" using False xy(1) r(2) 3 by simp
          then have "y \<le> ?m" using skip_equal_down_spec [OF xy(4)] by (meson not_le)
          ultimately show ?thesis using xy index_pairsI by blast
        qed
      qed
      have apart: "[?u, ?v] \<notin> index_pairs nums ?k ?m"
      proof
        assume "[?u, ?v] \<in> index_pairs nums ?k ?m"
        then obtain x y where xy: "[?u, ?v] = [nums ! x, nums ! y]" "?k \<le> x" "x < y" "y \<le> ?m" by (rule index_pairsE)
        then have "?k < m" using bounds by linarith
        then have "nums ! ?k \<noteq> ?u" using skip_equal_up_stops [of k m nums ?u] True by simp
        moreover have "x \<le> m" using xy(3,4) bounds(4) by linarith
        then have "nums ! k \<le> nums ! ?k" "nums ! ?k \<le> nums ! x" using mono [OF bounds(1,2)] mono [OF xy(2)] by blast+
        ultimately show False using xy(1) by simp
      qed
      have "index_pairs nums ?k ?m \<subseteq> index_pairs nums k m" using bounds by (intro index_pairs_mono)
      then have eq: "{r \<in> index_pairs nums k m. sum_list r = e} = insert [?u, ?v] {r \<in> index_pairs nums ?k ?m. sum_list r = e}"
        using inner True 3 index_pairsI [of k k m m nums] by auto
      have not: "\<not> ?u + ?v < e" "\<not> e < ?u + ?v" using 3 by simp_all
      obtain new where new: "four_pairs nums i j e ?k ?m (result @ [[nums ! i, nums ! j, ?u, ?v]]) =
          (result @ [[nums ! i, nums ! j, ?u, ?v]]) @ new" "distinct new"
        "set new = ?row ` {r \<in> index_pairs nums ?k ?m. sum_list r = e}"
        using "1.IH"(3) [OF True refl not refl refl "1.prems"(1)] "1.prems"(2) bounds(4) by (meson le_less_trans)
      have "four_pairs nums i j e k m result = four_pairs nums i j e ?k ?m (result @ [[nums ! i, nums ! j, ?u, ?v]])"
        using True not by (subst four_pairs.simps) (simp add: Let_def)
      then show ?thesis
        using new apart eq by (intro exI [of _ "[nums ! i, nums ! j, ?u, ?v] # new"]) auto
    qed
  next
    case False
    then show ?thesis by (intro exI [of _ "[]"]) (auto simp: four_pairs.simps index_pairs_def)
  qed
qed

lemma four_j_spec:
  assumes "sorted nums"
  shows "\<exists>new. four_j nums i e j result = result @ new \<and> distinct new \<and>
    set new = (#) (nums ! i) ` {r \<in> rows 3 (drop j nums). sum_list r = e}"
proof (induction "length nums - j" arbitrary: j result rule: less_induct)
  case less
  let ?j' = "next_other nums j" and ?b = "nums ! j"
  show ?case
  proof (cases "j < length nums")
    case True
    then have ne: "nums \<noteq> []" by auto
    obtain new1 where new1: "four_pairs nums i j (e - ?b) (j + 1) (length nums - 1) result = result @ new1" "distinct new1"
      "set new1 = (\<lambda>r. nums ! i # ?b # r) ` {r \<in> rows 2 (drop (Suc j) nums). sum_list r = e - ?b}"
      using four_pairs_spec [OF assms, of "length nums - 1" i j "e - ?b" "j + 1" result] ne
      by (auto simp: index_pairs_rows [OF ne, simplified])
    have "length nums - ?j' < length nums - j" using next_other_greater [of j nums] True by simp
    from less.hyps [OF this] obtain new2 where new2: "four_j nums i e ?j' (result @ new1) = (result @ new1) @ new2" "distinct new2"
      "set new2 = (#) (nums ! i) ` {r \<in> rows 3 (drop ?j' nums). sum_list r = e}" by blast
    have later: "?b < hd r" if "r \<in> rows 3 (drop ?j' nums)" for r
      using rows_next_other(2) [OF assms True, of r 2] that by (simp add: numeral_3_eq_3)
    have split: "rows 3 (drop j nums) = (#) ?b ` rows 2 (drop (Suc j) nums) \<union> rows 3 (drop ?j' nums)"
      using rows_next_other(1) [OF assms True, of 2] by (simp add: numeral_3_eq_3 numeral_2_eq_2)
    have "set new1 = (#) (nums ! i) ` {r \<in> (#) ?b ` rows 2 (drop (Suc j) nums). sum_list r = e}"
      unfolding new1(3) by (auto simp: image_iff)
    then have "set (new1 @ new2) = (#) (nums ! i) ` {r \<in> rows 3 (drop j nums). sum_list r = e}"
      unfolding set_append new2(3) split by blast
    moreover have "set new1 \<inter> set new2 = {}"
    proof -
      have "?b # r \<notin> rows 3 (drop ?j' nums)" for r using later [of "?b # r"] by auto
      then show ?thesis unfolding new1(3) new2(3) by blast
    qed
    then have "distinct (new1 @ new2)" using new1(2) new2(2) by simp
    ultimately show ?thesis
      using True new1(1) new2(1) by (intro exI [of _ "new1 @ new2"]) (subst four_j.simps, simp)
  next
    case False
    then show ?thesis by (intro exI [of _ "[]"]) (simp add: four_j.simps numeral_3_eq_3)
  qed
qed

lemma four_i_spec:
  assumes "sorted nums"
  shows "\<exists>new. four_i nums target i result = result @ new \<and> distinct new \<and>
    set new = {r \<in> rows 4 (drop i nums). sum_list r = target}"
proof (induction "length nums - i" arbitrary: i result rule: less_induct)
  case less
  let ?i' = "next_other nums i" and ?a = "nums ! i"
  have four: "4 = Suc 3" by simp
  show ?case
  proof (cases "i < length nums")
    case True
    obtain new1 where new1: "four_j nums i (target - ?a) (i + 1) result = result @ new1" "distinct new1"
      "set new1 = (#) ?a ` {r \<in> rows 3 (drop (Suc i) nums). sum_list r = target - ?a}"
      using four_j_spec [OF assms, of i "target - ?a" "i + 1" result] by auto
    have "length nums - ?i' < length nums - i" using next_other_greater [of i nums] True by simp
    from less.hyps [OF this] obtain new2 where new2: "four_i nums target ?i' (result @ new1) = (result @ new1) @ new2" "distinct new2"
      "set new2 = {r \<in> rows 4 (drop ?i' nums). sum_list r = target}" by blast
    have later: "?a < hd r" if "r \<in> rows 4 (drop ?i' nums)" for r
      using rows_next_other(2) [OF assms True, of r 3] that unfolding four by simp
    have "set new1 = {r \<in> (#) ?a ` rows 3 (drop (Suc i) nums). sum_list r = target}"
      unfolding new1(3) by auto
    then have "set (new1 @ new2) = {r \<in> rows 4 (drop i nums). sum_list r = target}"
      unfolding set_append new2(3) four rows_next_other(1) [OF assms True] by blast
    moreover have "set new1 \<inter> set new2 = {}"
    proof -
      have "?a # r \<notin> rows 4 (drop ?i' nums)" for r using later [of "?a # r"] by auto
      then show ?thesis unfolding new1(3) new2(3) by blast
    qed
    then have "distinct (new1 @ new2)" using new1(2) new2(2) by simp
    ultimately show ?thesis
      using True new1(1) new2(1) by (intro exI [of _ "new1 @ new2"]) (subst four_i.simps, simp)
  next
    case False
    then have "rows 4 (drop i nums) = {}" by (auto simp: rows_def)
    with False show ?thesis by (intro exI [of _ "[]"]) (simp add: four_i.simps)
  qed
qed

lemma fourSum_spec:
  "distinct (fourSum nums target) \<and>
    set (fourSum nums target) = {r. length r = 4 \<and> sorted r \<and> mset r \<subseteq># mset nums \<and> sum_list r = target}"
  using four_i_spec [of "sort nums" target 0 "[]"] by (auto simp: fourSum_def rows_sorted)

section \<open>The closest sum\<close>

definition triple_sums :: "int list \<Rightarrow> nat \<Rightarrow> nat \<Rightarrow> nat \<Rightarrow> int set" where
  "triple_sums nums f k m = (\<lambda>r. nums ! f + sum_list r) ` index_pairs nums k m"

definition best_of :: "int \<Rightarrow> int set \<Rightarrow> int \<times> int \<Rightarrow> bool" where
  \<comment> \<open>the distance and the sum are those of a closest one of the sums, or the initial values\<close>
  "best_of target S best \<longleftrightarrow> (\<forall>s \<in> S. fst best \<le> \<bar>s - target\<bar>) \<and>
     (best = (INT_MAX, INT_MAX) \<or> snd best \<in> S \<and> fst best = \<bar>snd best - target\<bar>)"

lemma best_of_dropped:
  assumes "best_of t (insert tmp S \<union> A) b" "A \<subseteq> B" "tmp \<in> B"
    and "\<And>s. s \<in> B \<Longrightarrow> s \<notin> A \<Longrightarrow> \<bar>tmp - t\<bar> \<le> \<bar>s - t\<bar>"
  shows "best_of t (S \<union> B) b"
proof -
  have "fst b \<le> \<bar>s - t\<bar>" if "s \<in> S \<union> B" for s
  proof (cases "s \<in> S \<or> s \<in> A")
    case False
    then have "\<bar>tmp - t\<bar> \<le> \<bar>s - t\<bar>" using assms(4) that by blast
    moreover have "fst b \<le> \<bar>tmp - t\<bar>" using assms(1) by (simp add: best_of_def)
    ultimately show ?thesis by (rule order_trans [rotated])
  qed (use assms(1) in \<open>auto simp: best_of_def\<close>)
  then show ?thesis using assms(1-3) by (auto simp: best_of_def)
qed

lemma closest_pair_spec:
  assumes "sorted nums" "m < length nums" "best_of target S best"
  shows "case closest_pair nums target f k m best of
      Inl tmp \<Rightarrow> tmp = target \<and> tmp \<in> triple_sums nums f k m
    | Inr best' \<Rightarrow> best_of target (S \<union> triple_sums nums f k m) best'"
  using assms
proof (induction nums target f k m best arbitrary: S rule: closest_pair.induct)
  case (1 nums target f k m best)
  have mono: "nums ! x \<le> nums ! y" if "x \<le> y" "y \<le> m" for x y
    using that "1.prems"(1,2) by (intro sorted_nth_mono) auto
  show ?case
  proof (cases "k < m")
    case True
    define tmp where "tmp = nums ! f + nums ! k + nums ! m"
    define best' where "best' = (if \<bar>tmp - target\<bar> < fst best then (\<bar>tmp - target\<bar>, tmp) else best)"
    have tmp_in: "tmp \<in> triple_sums nums f k m"
      using index_pairsI [of k k m m nums] True by (force simp: triple_sums_def tmp_def)
    have best': "best_of target (insert tmp S) best'" using "1.prems"(3) by (auto simp: best_of_def best'_def)
    have unfold: "closest_pair nums target f k m best =
        (if tmp = target then Inl tmp
         else if tmp < target then closest_pair nums target f (k + 1) m best'
         else closest_pair nums target f k (m - 1) best')"
      using True by (subst closest_pair.simps) (simp add: Let_def tmp_def best'_def)
    consider "tmp = target" | "tmp < target" | "target < tmp" by linarith
    then show ?thesis
    proof cases
      case 1
      then show ?thesis using tmp_in unfold by simp
    next
      case 2
      have less: "\<bar>tmp - target\<bar> \<le> \<bar>s - target\<bar>" if s: "s \<in> triple_sums nums f k m" "s \<notin> triple_sums nums f (k + 1) m" for s
      proof -
        obtain x y where xy: "s = nums ! f + nums ! x + nums ! y" "k \<le> x" "x < y" "y \<le> m"
          using s(1) by (auto simp: triple_sums_def elim!: index_pairsE)
        have "x = k"
          using s(2) xy index_pairsI [of "k + 1" x y m nums] by (force simp: triple_sums_def)
        then have "s \<le> tmp" using xy mono [of y m] by (simp add: tmp_def)
        then show ?thesis using 2 by linarith
      qed
      have sub: "triple_sums nums f (k + 1) m \<subseteq> triple_sums nums f k m"
        unfolding triple_sums_def by (intro image_mono index_pairs_mono) simp_all
      have "case closest_pair nums target f (k + 1) m best' of
          Inl tmp \<Rightarrow> tmp = target \<and> tmp \<in> triple_sums nums f (k + 1) m
        | Inr b \<Rightarrow> best_of target (insert tmp S \<union> triple_sums nums f (k + 1) m) b"
        using "1.IH"(1) [OF True tmp_def best'_def _ 2 "1.prems"(1,2) best'] 2 by simp
      then show ?thesis
        using 2 sub best_of_dropped [OF _ sub tmp_in less] by (auto simp: unfold split: sum.splits)
    next
      case 3
      have less: "\<bar>tmp - target\<bar> \<le> \<bar>s - target\<bar>" if s: "s \<in> triple_sums nums f k m" "s \<notin> triple_sums nums f k (m - 1)" for s
      proof -
        obtain x y where xy: "s = nums ! f + nums ! x + nums ! y" "k \<le> x" "x < y" "y \<le> m"
          using s(1) by (auto simp: triple_sums_def elim!: index_pairsE)
        have "y = m"
          using s(2) xy index_pairsI [of k x y "m - 1" nums] by (force simp: triple_sums_def)
        then have "tmp \<le> s" using xy mono [of k x] by (simp add: tmp_def)
        then show ?thesis using 3 by linarith
      qed
      have sub: "triple_sums nums f k (m - 1) \<subseteq> triple_sums nums f k m"
        unfolding triple_sums_def by (intro image_mono index_pairs_mono) simp_all
      have not: "\<not> tmp < target" "tmp \<noteq> target" using 3 by simp_all
      have "case closest_pair nums target f k (m - 1) best' of
          Inl tmp \<Rightarrow> tmp = target \<and> tmp \<in> triple_sums nums f k (m - 1)
        | Inr b \<Rightarrow> best_of target (insert tmp S \<union> triple_sums nums f k (m - 1)) b"
        using "1.IH"(2) [OF True tmp_def best'_def not(2,1) "1.prems"(1) _ best'] "1.prems"(2) by simp
      then show ?thesis
        using not sub best_of_dropped [OF _ sub tmp_in less] by (auto simp: unfold split: sum.splits)
    qed
  next
    case False
    then have "index_pairs nums k m = {}" by (auto elim: index_pairsE)
    then show ?thesis using False "1.prems"(3) by (simp add: closest_pair.simps triple_sums_def)
  qed
qed

definition rows_headed :: "int list \<Rightarrow> nat \<Rightarrow> int list set" where
  \<comment> \<open>rows of three whose first element stands at the given place\<close>
  "rows_headed nums f = (#) (nums ! f) ` rows 2 (drop (Suc f) nums)"

lemma rows_heads: "rows (Suc n) nums = (\<Union>f < length nums. (#) (nums ! f) ` rows n (drop (Suc f) nums))"
proof (induction nums)
  case (Cons y ys)
  have "{..<length (y # ys)} = insert 0 (Suc ` {..<length ys})" by (simp add: lessThan_Suc_eq_insert_0)
  then show ?case by (simp add: rows_Cons Cons.IH)
qed simp

lemma rows_headed_late:
  assumes "length nums - 2 \<le> f"
  shows "rows_headed nums f = {}"
proof -
  have "length (drop (Suc f) nums) < 2" using assms by auto
  then have "rows 2 (drop (Suc f) nums) = {}" by (auto simp: rows_def dest: list_emb_length)
  then show ?thesis by (simp add: rows_headed_def)
qed

lemma rows_three: "rows 3 nums = (\<Union>f < length nums - 2. rows_headed nums f)"
proof -
  have "rows 3 nums = (\<Union>f < length nums. rows_headed nums f)"
    using rows_heads [of 2 nums] by (simp add: rows_headed_def numeral_3_eq_3 numeral_2_eq_2)
  also have "\<dots> = (\<Union>f < length nums - 2. rows_headed nums f)"
  proof (rule subset_antisym)
    show "(\<Union>f < length nums. rows_headed nums f) \<subseteq> (\<Union>f < length nums - 2. rows_headed nums f)"
    proof
      fix r assume "r \<in> (\<Union>f < length nums. rows_headed nums f)"
      then obtain f where f: "r \<in> rows_headed nums f" by blast
      then have "f < length nums - 2" using rows_headed_late [of nums f] by (cases "f < length nums - 2") auto
      with f show "r \<in> (\<Union>f < length nums - 2. rows_headed nums f)" by blast
    qed
  qed (intro UN_mono, auto)
  finally show ?thesis .
qed

lemma triple_sums_headed: "nums \<noteq> [] \<Longrightarrow> triple_sums nums f (f + 1) (length nums - 1) = sum_list ` rows_headed nums f"
  by (simp add: triple_sums_def rows_headed_def index_pairs_rows [simplified] image_image)

lemma closest_first_spec:
  assumes "sorted nums" "nums \<noteq> []" "best_of target (sum_list ` (\<Union>g < f. rows_headed nums g)) best" "f \<le> length nums - 2"
  shows "\<exists>d. best_of target (sum_list ` rows 3 nums) (d, closest_first nums target f best) \<or>
    closest_first nums target f best = target \<and> target \<in> sum_list ` rows 3 nums"
  using assms(3,4)
proof (induction "length nums - f" arbitrary: f best rule: less_induct)
  case less
  show ?case
  proof (cases "f < length nums - 2")
    case True
    let ?r = "closest_pair nums target f (f + 1) (length nums - 1) best"
    have part: "triple_sums nums f (f + 1) (length nums - 1) \<subseteq> sum_list ` rows 3 nums"
      unfolding triple_sums_headed [OF assms(2)] rows_three using True by blast
    have grown: "sum_list ` (\<Union>g < Suc f. rows_headed nums g) =
        sum_list ` (\<Union>g < f. rows_headed nums g) \<union> triple_sums nums f (f + 1) (length nums - 1)"
      unfolding triple_sums_headed [OF assms(2)] lessThan_Suc by blast
    have spec: "case ?r of Inl tmp \<Rightarrow> tmp = target \<and> tmp \<in> triple_sums nums f (f + 1) (length nums - 1)
      | Inr best' \<Rightarrow> best_of target (sum_list ` (\<Union>g < Suc f. rows_headed nums g)) best'"
      unfolding grown using closest_pair_spec [OF assms(1) _ less.prems(1), of "length nums - 1" f "f + 1"] assms(2) by simp
    show ?thesis
    proof (cases ?r)
      case (Inl tmp)
      then show ?thesis using spec part True by (subst (1 2) closest_first.simps) auto
    next
      case (Inr best')
      have "length nums - Suc f < length nums - f" using True by simp
      from less.hyps [OF this, of best'] spec Inr True show ?thesis
        by (simp add: closest_first.simps [of nums target f best])
    qed
  next
    case False
    then have "f = length nums - 2" using less.prems(2) by simp
    then show ?thesis
      using less.prems(1) by (intro exI [of _ "fst best"]) (simp add: closest_first.simps rows_three)
  qed
qed

lemma threeSumClosest_spec:
  assumes "3 \<le> length nums" "\<And>r. length r = 3 \<Longrightarrow> mset r \<subseteq># mset nums \<Longrightarrow> \<bar>sum_list r - target\<bar> < INT_MAX"
  shows "\<exists>r. length r = 3 \<and> mset r \<subseteq># mset nums \<and> threeSumClosest nums target = sum_list r \<and>
    (\<forall>r'. length r' = 3 \<and> mset r' \<subseteq># mset nums \<longrightarrow> \<bar>sum_list r - target\<bar> \<le> \<bar>sum_list r' - target\<bar>)"
proof -
  let ?S = "sum_list ` rows 3 (sort nums)" and ?c = "closest_first (sort nums) target 0 (INT_MAX, INT_MAX)"
  have res: "threeSumClosest nums target = ?c" using assms(1) by (simp add: threeSumClosest_def)
  have all: "sum_list r \<in> ?S" if "length r = 3" "mset r \<subseteq># mset nums" for r
  proof -
    have "sort r \<in> rows 3 (sort nums)" using that by (simp add: rows_sorted)
    moreover have "sum_list (sort r) = sum_list r" by (metis mset_sort sum_mset_sum_list)
    ultimately show ?thesis by (metis image_eqI)
  qed
  have ne: "sort nums \<noteq> []" using assms(1) by (metis length_0_conv length_sort not_numeral_le_zero)
  have "take 3 nums \<in> {r. length r = 3 \<and> mset r \<subseteq># mset nums}"
    using assms(1) by simp (metis append_take_drop_id mset_append mset_subset_eq_add_left)
  then have some: "sum_list (take 3 nums) \<in> ?S" "\<bar>sum_list (take 3 nums) - target\<bar> < INT_MAX" using all assms(2) by auto
  have "best_of target {} (INT_MAX, INT_MAX)" by (simp add: best_of_def)
  then consider d where "best_of target ?S (d, ?c)" | "?c = target" "target \<in> ?S"
    using closest_first_spec [OF sorted_sort ne, of target 0 "(INT_MAX, INT_MAX)"] by auto
  then have "?c \<in> ?S \<and> (\<forall>s \<in> ?S. \<bar>?c - target\<bar> \<le> \<bar>s - target\<bar>)"
  proof cases
    case 1
    then have "(d, ?c) \<noteq> (INT_MAX, INT_MAX)" using some by (auto simp: best_of_def)
    then show ?thesis using 1 by (auto simp: best_of_def)
  qed simp
  then obtain r where r: "r \<in> rows 3 (sort nums)" "?c = sum_list r" "\<forall>s \<in> ?S. \<bar>?c - target\<bar> \<le> \<bar>s - target\<bar>" by auto
  have "\<bar>sum_list r - target\<bar> \<le> \<bar>sum_list r' - target\<bar>" if "length r' = 3 \<and> mset r' \<subseteq># mset nums" for r'
    using r(3) all [of r'] that unfolding r(2) by blast
  then show ?thesis using r(1,2) by (intro exI [of _ r]) (simp add: res rows_sorted)
qed

text \<open>
  Rows with a sum. threeSum and fourSum return every row of three or four of the numbers, each as often as it
  stands there, whose sum is 0 or the target, in ascending order, and each row once. threeSumClosest returns the
  sum of three of the numbers that no other three come closer to the target than, as long as the distances are
  less than the largest int, from which its search starts.
\<close>

theorem sums_found:
  assumes "3 \<le> length nums" "\<And>r. length r = 3 \<Longrightarrow> mset r \<subseteq># mset nums \<Longrightarrow> \<bar>sum_list r - target\<bar> < INT_MAX"
  shows "distinct (threeSum xs) \<and>
    set (threeSum xs) = {r. length r = 3 \<and> sorted r \<and> mset r \<subseteq># mset xs \<and> sum_list r = 0} \<and>
    distinct (fourSum xs goal) \<and>
    set (fourSum xs goal) = {r. length r = 4 \<and> sorted r \<and> mset r \<subseteq># mset xs \<and> sum_list r = goal} \<and>
    (\<exists>r. length r = 3 \<and> mset r \<subseteq># mset nums \<and> threeSumClosest nums target = sum_list r \<and>
      (\<forall>r'. length r' = 3 \<and> mset r' \<subseteq># mset nums \<longrightarrow> \<bar>sum_list r - target\<bar> \<le> \<bar>sum_list r' - target\<bar>))"
  using threeSum_spec [of xs] fourSum_spec [of xs goal] threeSumClosest_spec [OF assms] by blast

lemma small_sums: "length r = 3 \<Longrightarrow> mset r \<subseteq># mset [-1, 2, 1, -4] \<Longrightarrow> \<bar>sum_list r - 1\<bar> < (INT_MAX :: int)"
proof -
  assume r: "length r = 3" "mset r \<subseteq># mset [-1, 2, 1, -4 :: int]"
  then have "set r \<subseteq> {-1, 2, 1, -4}" by (metis list.simps(15) set_empty2 set_mset_mono set_mset_mset)
  moreover obtain x y z where "r = [x, y, z]" using r(1) by (auto simp: length_Suc_conv eval_nat_numeral)
  ultimately show ?thesis by auto
qed

theorem sums_found_witness:
  "\<exists>r. length r = 3 \<and> mset r \<subseteq># mset [-1, 2, 1, -4] \<and> threeSumClosest [-1, 2, 1, -4] 1 = sum_list r"
  using sums_found [of "[-1, 2, 1, -4]" 1 "[]" 0, OF _ small_sums] by auto

end
