(* ===== verification/LcNextPerm.thy ===== *)
theory LcNextPerm
  imports Prelude "HOL-Library.Multiset" "HOL-Library.List_Lexorder"
begin

text \<open>
  \<^verbatim>\<open>hobbies/leetcode/algorithms/solution_31\<close>: the next permutation, by hand and with the standard library.
  Iterators are positions; \<open>None\<close> is an iterator that leaves the vector.
\<close>

section \<open>The programs\<close>

fun last_greater :: "int list \<Rightarrow> nat \<Rightarrow> int \<Rightarrow> nat option" where
  \<comment> \<open>the loop \<^verbatim>\<open>while (*--j <= *i)\<close>, for \<open>j\<close> before the decrement\<close>
  "last_greater nums 0 v = None"
| "last_greater nums (Suc j) v = (if nums ! j \<le> v then last_greater nums j v else Some j)"

definition swap_positions :: "int list \<Rightarrow> nat \<Rightarrow> nat \<Rightarrow> int list" where
  "swap_positions nums i j = nums[i := nums ! j, j := nums ! i]"

definition reverse_from :: "int list \<Rightarrow> nat \<Rightarrow> int list" where
  "reverse_from nums i = take i nums @ rev (drop i nums)"

fun next_loop :: "int list \<Rightarrow> nat \<Rightarrow> int list option" where
  \<comment> \<open>the argument is \<open>ii\<close>\<close>
  "next_loop nums 0 = None"
| "next_loop nums (Suc i) =
     (if nums ! i < nums ! Suc i
      then map_option (\<lambda>j. reverse_from (swap_positions nums i j) (Suc i)) (last_greater nums (length nums) (nums ! i))
      else if i = 0 then Some (rev nums)
      else next_loop nums i)"

definition nextPermutation :: "int list \<Rightarrow> int list option" where
  "nextPermutation nums =
     (if nums = [] then None
      else if length nums = 1 then Some nums
      else next_loop nums (length nums - 1))"

fun sorted_until :: "int list \<Rightarrow> nat" where
  \<comment> \<open>\<^verbatim>\<open>std::is_sorted_until\<close>, as a number of elements\<close>
  "sorted_until (x # y # r) = (if y < x then 1 else Suc (sorted_until (y # r)))"
| "sorted_until xs = length xs"

definition upper_bound :: "int list \<Rightarrow> int \<Rightarrow> nat" where
  \<comment> \<open>\<^verbatim>\<open>std::upper_bound\<close> on a sorted range\<close>
  "upper_bound xs v = length (takeWhile (\<lambda>x. x \<le> v) xs)"

definition nextPermutation2 :: "int list \<Rightarrow> int list" where
  \<comment> \<open>on the reversed vector, where the reverse iterators run forward\<close>
  "nextPermutation2 nums =
     (let r = rev nums; i = sorted_until r;
          r' = (if i \<noteq> length r then swap_positions r i (upper_bound (take i r) (r ! i)) else r) in
      rev (rev (take i r') @ drop i r'))"

lemma next_permutation_examples:
  "nextPermutation [1, 2, 3] = Some [1, 3, 2]" "nextPermutation [3, 2, 1] = Some [1, 2, 3]"
  "nextPermutation2 [1, 5, 1] = [5, 1, 1]" "nextPermutation [3, 4, 2, 1] = Some [4, 1, 2, 3]"
  "nextPermutation2 [3, 5, 4, 2, 1] = [4, 1, 2, 3, 5]"
  by code_simp+

section \<open>The specification\<close>

definition next_in_order :: "int list \<Rightarrow> int list \<Rightarrow> bool" where
  "next_in_order nums r \<longleftrightarrow> mset r = mset nums \<and>
     (if \<exists>p. mset p = mset nums \<and> nums < p
      then nums < r \<and> (\<forall>p. mset p = mset nums \<and> nums < p \<longrightarrow> r \<le> p)
      else sorted r)"

lemma sorted_least: "sorted xs \<Longrightarrow> mset p = mset xs \<Longrightarrow> xs \<le> (p :: int list)"
proof (induction xs arbitrary: p)
  case (Cons x xs)
  then obtain y q where p: "p = y # q" by (cases p) auto
  have "y \<in> set (x # xs)" using Cons.prems(2) p by (metis list.set_intros(1) set_mset_mset)
  then have "x \<le> y" using Cons.prems(1) by auto
  moreover have "mset q = mset xs" if "y = x" using Cons.prems(2) p that by simp
  ultimately show ?case using Cons p by (cases "x = y") auto
qed simp

lemma descending_greatest: "sorted (rev xs) \<Longrightarrow> mset p = mset xs \<Longrightarrow> p \<le> (xs :: int list)"
proof (induction xs arbitrary: p)
  case (Cons x xs)
  then obtain y q where p: "p = y # q" by (cases p) auto
  have "y \<in> set (x # xs)" using Cons.prems(2) p by (metis list.set_intros(1) set_mset_mset)
  then have "y \<le> x" using Cons.prems(1) by (auto simp: sorted_append)
  moreover have "mset q = mset xs" if "y = x" using Cons.prems(2) p that by simp
  ultimately show ?case using Cons p by (cases "x = y") (auto simp: sorted_append)
qed simp

lemma next_exists:
  assumes "sorted (rev suf)" "suf = s1 @ b # s2" "a < b" "\<forall>x \<in> set s2. x \<le> a"
  shows "next_in_order (pre @ a # suf) (pre @ b # rev (s1 @ a # s2))"
proof -
  have sorted: "sorted (rev (s1 @ a # s2))"
    using assms by (auto simp: sorted_append intro: order_trans less_imp_le)
  have greater: "b \<le> x" if "x \<in> set suf" "a < x" for x
    using that assms by (auto simp: sorted_append)
  have least: "pre @ b # rev (s1 @ a # s2) \<le> p" if "mset p = mset (pre @ a # suf)" "pre @ a # suf < p" for p
    using that
  proof (induction pre arbitrary: p)
    case Nil
    then obtain c q where p: "p = c # q" by (cases p) auto
    have c: "c \<in> set (a # suf)" using Nil.prems(1) p by (metis append_Nil list.set_intros(1) set_mset_mset)
    have "c \<noteq> a"
    proof
      assume "c = a"
      then have "mset q = mset suf" "suf < q" using Nil.prems p by auto
      with descending_greatest [OF assms(1)] show False by fastforce
    qed
    moreover have "a \<le> c" using Nil.prems(2) p by auto
    ultimately have "b \<le> c" using greater c by auto
    moreover have "rev (s1 @ a # s2) \<le> q" if "c = b"
      using sorted_least [OF sorted, of q] Nil.prems(1) p that assms(2) by simp
    ultimately show ?case using p by (cases "b = c") auto
  next
    case (Cons x pre)
    then obtain y q where p: "p = y # q" by (cases p) auto
    show ?case
    proof (cases "x = y")
      case True
      then show ?thesis using Cons.IH [of q] Cons.prems p by auto
    next
      case False
      then show ?thesis using Cons.prems(2) p by auto
    qed
  qed
  have "pre @ a # suf < pre @ b # rev (s1 @ a # s2)"
    using assms(3) by (induction pre) auto
  moreover have "mset (pre @ b # rev (s1 @ a # s2)) = mset (pre @ a # suf)" using assms(2) by simp
  ultimately show ?thesis using least unfolding next_in_order_def by metis
qed

lemma next_last:
  assumes "sorted (rev nums)"
  shows "next_in_order nums (rev nums)"
proof -
  have "\<not> nums < p" if "mset p = mset nums" for p
    using descending_greatest [OF assms that] by simp
  with assms show ?thesis by (auto simp: next_in_order_def)
qed

section \<open>Both programs find it\<close>

lemma swap_parts: "swap_positions (p @ x # q @ y # r) (length p) (Suc (length p + length q)) = p @ y # q @ x # r"
  by (simp add: swap_positions_def nth_append list_update_append)

lemma last_greater_found:
  "v < nums ! j \<Longrightarrow> \<forall>k. j < k \<and> k \<le> j + d \<longrightarrow> nums ! k \<le> v \<Longrightarrow> last_greater nums (Suc (j + d)) v = Some j"
  by (induction d) auto

lemma last_greater_split:
  assumes "a < b" "\<forall>x \<in> set s2. x \<le> a"
  shows "last_greater (p @ b # s2) (length (p @ b # s2)) a = Some (length p)"
proof -
  have "(p @ b # s2) ! k \<le> a" if k: "length p < k" "k \<le> length p + length s2" for k
  proof -
    obtain m where "k = Suc (length p + m)" using less_imp_Suc_add [OF k(1)] by blast
    then show ?thesis using k(2) assms(2) by (simp add: nth_append)
  qed
  then show ?thesis
    using last_greater_found [of a "p @ b # s2" "length p" "length s2"] assms(1) by simp
qed

lemma found_by_hand:
  assumes "sorted (rev suf)" "suf \<noteq> []" "a < hd suf"
  shows "\<exists>r. map_option (\<lambda>j. reverse_from (swap_positions (pre @ a # suf) (length pre) j) (Suc (length pre)))
      (last_greater (pre @ a # suf) (length (pre @ a # suf)) a) = Some r \<and> next_in_order (pre @ a # suf) r"
proof -
  have "\<exists>x \<in> set suf. a < x" using assms(2,3) hd_in_set by blast
  then obtain s1 b s2 where s: "suf = s1 @ b # s2" "a < b" "\<forall>x \<in> set s2. \<not> a < x"
    using split_list_last_prop [of suf "\<lambda>x. a < x"] by blast
  then have s2: "\<forall>x \<in> set s2. x \<le> a" by (simp add: not_less)
  have j: "last_greater (pre @ a # suf) (length (pre @ a # suf)) a = Some (Suc (length pre + length s1))"
    using last_greater_split [OF s(2) s2, of "pre @ a # s1"] by (simp add: s(1))
  have "reverse_from (swap_positions (pre @ a # suf) (length pre) (Suc (length pre + length s1))) (Suc (length pre)) =
      pre @ b # rev (s1 @ a # s2)"
    by (simp add: s(1) swap_parts reverse_from_def)
  then show ?thesis using j next_exists [OF assms(1) s(1,2) s2, of pre] by simp
qed

lemma next_loop_spec:
  "0 < ii \<Longrightarrow> ii < length nums \<Longrightarrow> sorted (rev (drop ii nums)) \<Longrightarrow>
    \<exists>r. next_loop nums ii = Some r \<and> next_in_order nums r"
proof (induction nums ii rule: next_loop.induct)
  case (2 nums i)
  have parts: "nums = take i nums @ nums ! i # drop (Suc i) nums" "length (take i nums) = i"
    using "2.prems"(2) by (simp_all add: id_take_nth_drop)
  have suf: "drop (Suc i) nums \<noteq> []" "hd (drop (Suc i) nums) = nums ! Suc i"
    using "2.prems"(2) by (simp_all add: hd_drop_conv_nth)
  show ?case
  proof (cases "nums ! i < nums ! Suc i")
    case True
    then show ?thesis
      using found_by_hand [OF "2.prems"(3) suf(1), of "nums ! i" "take i nums"] suf(2)
      unfolding parts(1) [symmetric] parts(2) by simp
  next
    case False
    have "x \<le> nums ! Suc i" if "x \<in> set (drop (Suc i) nums)" for x
      using "2.prems"(3) that suf by (cases "drop (Suc i) nums") (auto simp: sorted_append)
    then have "\<forall>x \<in> set (drop (Suc i) nums). x \<le> nums ! i" using False by fastforce
    then have desc: "sorted (rev (drop i nums))"
      using "2.prems"(2,3) by (simp add: Cons_nth_drop_Suc [symmetric] sorted_append)
    show ?thesis
    proof (cases "i = 0")
      case True
      then show ?thesis using False desc next_last [of nums] by simp
    next
      case i: False
      then show ?thesis using "2.IH" [OF False i] "2.prems"(2) desc False by simp
    qed
  qed
qed simp

lemma nextPermutation_spec: "nums \<noteq> [] \<Longrightarrow> \<exists>r. nextPermutation nums = Some r \<and> next_in_order nums r"
proof -
  assume ne: "nums \<noteq> []"
  show ?thesis
  proof (cases "length nums = 1")
    case True
    then obtain x where "nums = [x]" by (auto simp: length_Suc_conv)
    then show ?thesis using next_last [of nums] by (simp add: nextPermutation_def)
  next
    case False
    then have n: "0 < length nums - 1" "length nums - 1 < length nums" using ne by (cases nums; auto)+
    have one: "sorted (rev xs)" if "length xs = 1" for xs :: "int list" using that by (cases xs) auto
    have "sorted (rev (drop (length nums - 1) nums))" by (rule one) (use n in simp)
    with next_loop_spec [OF n] show ?thesis using False ne by (simp add: nextPermutation_def)
  qed
qed

lemma sorted_until_spec:
  "sorted (take (sorted_until xs) xs) \<and> sorted_until xs \<le> length xs \<and> (xs \<noteq> [] \<longrightarrow> 0 < sorted_until xs) \<and>
    (sorted_until xs < length xs \<longrightarrow> xs ! sorted_until xs < xs ! (sorted_until xs - 1))"
proof (induction xs rule: sorted_until.induct)
  case (1 x y r)
  show ?case
  proof (cases "y < x")
    case False
    obtain k where k: "sorted_until (y # r) = Suc k" using 1 False by (cases "sorted_until (y # r)") auto
    have "y \<le> z" if "z \<in> set (take k r)" for z using 1 False k that by auto
    then show ?thesis using 1 False k by fastforce
  qed simp
qed auto

lemma nextPermutation2_spec: "next_in_order nums (nextPermutation2 nums)"
proof -
  define r where "r = rev nums"
  define i where "i = sorted_until r"
  note spec = sorted_until_spec [of r, folded i_def]
  show ?thesis
  proof (cases "i = length r")
    case True
    then have "nextPermutation2 nums = rev nums"
      unfolding nextPermutation2_def Let_def r_def [symmetric] i_def [symmetric] by simp
    moreover have "sorted (rev nums)" using spec True by (simp add: r_def)
    ultimately show ?thesis using next_last by simp
  next
    case False
    then have i: "i < length r" "0 < i" using spec by auto
    let ?a = "r ! i" and ?t = "take i r" and ?rest = "drop (Suc i) r"
    have sorted: "sorted ?t" using spec by simp
    have "?t ! (i - 1) \<in> set ?t" by (rule nth_mem) (use i in simp)
    then have "\<exists>x \<in> set ?t. ?a < x" using spec i by (intro bexI [of _ "?t ! (i - 1)"]) auto
    then obtain t1 b t2 where t: "?t = t1 @ b # t2" "?a < b" "\<forall>x \<in> set t1. \<not> ?a < x"
      using split_list_first_prop [of ?t "\<lambda>x. ?a < x"] by blast
    have k: "upper_bound ?t ?a = length t1"
      using t by (simp add: upper_bound_def takeWhile_tail not_less)
    have r: "r = t1 @ b # t2 @ ?a # ?rest" using id_take_nth_drop [OF i(1)] t(1) by simp
    have len: "i = Suc (length t1 + length t2)" using arg_cong [OF t(1), of length] i by simp
    have "swap_positions r i (length t1) = swap_positions r (length t1) i" by (simp add: swap_positions_def list_update_swap len)
    also have "\<dots> = t1 @ ?a # t2 @ b # ?rest"
      using swap_parts [of t1 b t2 ?a ?rest] unfolding r [symmetric] len [symmetric] .
    finally have "nextPermutation2 nums = rev ?rest @ b # t1 @ ?a # t2"
      unfolding nextPermutation2_def Let_def r_def [symmetric] i_def [symmetric]
      using False k len by simp
    moreover have "nums = rev ?rest @ ?a # rev ?t"
      using arg_cong [OF r, of rev] t(1) by (simp add: r_def)
    moreover have "\<forall>x \<in> set (rev t1). x \<le> ?a" using t(3) by (simp add: not_less)
    ultimately show ?thesis
      using next_exists [of "rev ?t" "rev t2" b "rev t1" ?a "rev ?rest"] sorted t(1,2) by simp
  qed
qed

text \<open>
  Both programs step to the next permutation: the least arrangement of the numbers, in lexicographic order,
  that is greater, and the ascending one after the greatest; so they agree. On an empty vector the first one
  moves its iterators out of the vector.
\<close>

theorem next_permutations_found:
  "next_in_order nums (nextPermutation2 nums) \<and>
    (case nextPermutation nums of None \<Rightarrow> nums = [] | Some r \<Rightarrow> next_in_order nums r \<and> r = nextPermutation2 nums)"
proof (cases "nums = []")
  case True
  then show ?thesis using nextPermutation2_spec [of nums] by (simp add: nextPermutation_def)
next
  case False
  obtain r where r: "nextPermutation nums = Some r" "next_in_order nums r" using nextPermutation_spec [OF False] by blast
  have "r = nextPermutation2 nums"
    using r(2) nextPermutation2_spec [of nums] unfolding next_in_order_def
    by (metis antisym properties_for_sort)
  then show ?thesis using r nextPermutation2_spec [of nums] by simp
qed

end
