(* ===== verification/LcMinStack.thy ===== *)
theory LcMinStack
  imports Prelude
begin

text \<open>
  \<^verbatim>\<open>hobbies/leetcode/algorithms/solution_155\<close>: a stack that knows its least element. The tops of both stacks are
  the heads of lists; \<open>None\<close> is \<^verbatim>\<open>top\<close> or \<^verbatim>\<open>pop\<close> on an empty \<^verbatim>\<open>std::stack\<close>.
\<close>

section \<open>The stack\<close>

record min_stack =
  ms_data :: "int list"
  ms_min :: "int list"

definition ms_new :: min_stack where
  "ms_new = \<lparr>ms_data = [], ms_min = []\<rparr>"

definition ms_getMin :: "min_stack \<Rightarrow> int option" where
  "ms_getMin s = (case ms_min s of [] \<Rightarrow> None | m # _ \<Rightarrow> Some m)"

definition ms_top :: "min_stack \<Rightarrow> int option" where
  "ms_top s = (case ms_data s of [] \<Rightarrow> None | x # _ \<Rightarrow> Some x)"

definition ms_push :: "int \<Rightarrow> min_stack \<Rightarrow> min_stack option" where
  "ms_push x s =
     (let s1 = s\<lparr>ms_data := x # ms_data s\<rparr> in
      if ms_min s1 = [] then Some (s1\<lparr>ms_min := x # ms_min s1\<rparr>)
      else (case ms_getMin s1 of
          None \<Rightarrow> None
        | Some m \<Rightarrow> Some (if x \<le> m then s1\<lparr>ms_min := x # ms_min s1\<rparr> else s1)))"

definition ms_pop :: "min_stack \<Rightarrow> min_stack option" where
  "ms_pop s =
     (case (ms_top s, ms_getMin s) of
        (Some x, Some m) \<Rightarrow>
          Some ((if x = m then s\<lparr>ms_min := tl (ms_min s)\<rparr> else s)\<lparr>ms_data := tl (ms_data s)\<rparr>)
      | _ \<Rightarrow> None)"

section \<open>The stack it promises to be\<close>

datatype stack_call = Call_push int | Call_pop | Call_top | Call_getMin

fun ms_call :: "stack_call \<Rightarrow> min_stack \<Rightarrow> (int list \<times> min_stack) option" where
  \<comment> \<open>what a call returns, and the stack afterwards\<close>
  "ms_call (Call_push x) s = map_option (Pair []) (ms_push x s)"
| "ms_call Call_pop s = map_option (Pair []) (ms_pop s)"
| "ms_call Call_top s = map_option (\<lambda>x. ([x], s)) (ms_top s)"
| "ms_call Call_getMin s = map_option (\<lambda>x. ([x], s)) (ms_getMin s)"

fun plain_call :: "stack_call \<Rightarrow> int list \<Rightarrow> (int list \<times> int list) option" where
  "plain_call (Call_push x) xs = Some ([], x # xs)"
| "plain_call c [] = None"
| "plain_call Call_pop (x # xs) = Some ([], xs)"
| "plain_call Call_top (x # xs) = Some ([x], x # xs)"
| "plain_call Call_getMin (x # xs) = Some ([Min (set (x # xs))], x # xs)"

primrec stack_calls :: "(stack_call \<Rightarrow> 's \<Rightarrow> (int list \<times> 's) option) \<Rightarrow> stack_call list \<Rightarrow> 's \<Rightarrow> (int list \<times> 's) option" where
  "stack_calls call [] s = Some ([], s)"
| "stack_calls call (c # cs) s =
     Option.bind (call c s) (\<lambda>(r, s'). map_option (\<lambda>(rs, t). (r @ rs, t)) (stack_calls call cs s'))"

text \<open>
  A simulation: an implementation whose every call returns what the plain stack returns, on states that the
  invariant relates, returns the same on every sequence of calls.
\<close>

locale stack_refinement =
  fixes call :: "stack_call \<Rightarrow> 's \<Rightarrow> (int list \<times> 's) option"
    and related :: "'s \<Rightarrow> int list \<Rightarrow> bool"
  assumes undefined_together: "related s xs \<Longrightarrow> plain_call c xs = None \<Longrightarrow> call c s = None"
    and same_result: "related s xs \<Longrightarrow> plain_call c xs = Some (r, xs') \<Longrightarrow> \<exists>s'. call c s = Some (r, s') \<and> related s' xs'"
begin

lemma calls_related:
  assumes "related s xs"
  shows "case stack_calls plain_call cs xs of
      None \<Rightarrow> stack_calls call cs s = None
    | Some (rs, xs') \<Rightarrow> \<exists>s'. stack_calls call cs s = Some (rs, s') \<and> related s' xs'"
  using assms
proof (induction cs arbitrary: s xs)
  case (Cons c cs)
  show ?case
  proof (cases "plain_call c xs")
    case None
    then show ?thesis using undefined_together [OF Cons.prems None] by simp
  next
    case (Some r)
    obtain out xs1 where r: "r = (out, xs1)" by (cases r)
    obtain s1 where s1: "call c s = Some (out, s1)" "related s1 xs1" using same_result [OF Cons.prems] Some r by blast
    from Cons.IH [OF s1(2)] show ?thesis
      by (auto simp: Some r s1(1) split: option.splits)
  qed
qed simp

lemma same_answers: "related s xs \<Longrightarrow> map_option fst (stack_calls call cs s) = map_option fst (stack_calls plain_call cs xs)"
  using calls_related [of s xs cs] by (auto split: option.splits)

end

section \<open>Why it is one\<close>

primrec minima :: "int list \<Rightarrow> int list" where
  "minima [] = []"
| "minima (x # xs) = (if \<forall>y \<in> set xs. x \<le> y then x # minima xs else minima xs)"

definition ms_related :: "min_stack \<Rightarrow> int list \<Rightarrow> bool" where
  "ms_related s xs \<longleftrightarrow> ms_data s = xs \<and> ms_min s = minima xs"

lemma minima_hd: "xs \<noteq> [] \<Longrightarrow> minima xs \<noteq> [] \<and> hd (minima xs) = Min (set xs)"
proof (induction xs)
  case (Cons x xs)
  show ?case
  proof (cases "xs = []")
    case False
    then show ?thesis using Cons.IH by (auto simp: min_def)
  qed simp
qed simp

lemma getMin_related: "ms_related s xs \<Longrightarrow> ms_getMin s = (if xs = [] then None else Some (Min (set xs)))"
  using minima_hd [of xs] by (cases "minima xs") (auto simp: ms_related_def ms_getMin_def)

interpretation min_stack: stack_refinement ms_call ms_related
proof
  fix s xs c assume rel: "ms_related s xs" and plain: "plain_call c xs = None"
  then have "xs = []" "\<forall>x. c \<noteq> Call_push x" by (cases c; cases xs; simp)+
  then show "ms_call c s = None"
    using rel getMin_related [OF rel] by (cases c) (auto simp: ms_top_def ms_pop_def ms_related_def)
next
  fix s xs c r xs' assume rel: "ms_related s xs" and plain: "plain_call c xs = Some (r, xs')"
  note least = getMin_related [OF rel]
  show "\<exists>s'. ms_call c s = Some (r, s') \<and> ms_related s' xs'"
  proof (cases c)
    case (Call_push x)
    have "ms_getMin (s\<lparr>ms_data := x # xs\<rparr>) = ms_getMin s" by (simp add: ms_getMin_def)
    then show ?thesis
      using Call_push plain rel least minima_hd [of xs]
      by (cases "xs = []") (auto simp: ms_push_def ms_related_def Let_def)
  next
    case Call_pop
    then obtain x ys where xs: "xs = x # ys" using plain by (cases xs) auto
    have "ms_pop s = Some ((if x = Min (set xs) then s\<lparr>ms_min := tl (ms_min s)\<rparr> else s)\<lparr>ms_data := ys\<rparr>)"
      using rel least xs by (simp add: ms_pop_def ms_top_def ms_related_def)
    moreover have "x = Min (set xs) \<longleftrightarrow> (\<forall>y \<in> set ys. x \<le> y)"
      using xs by (auto simp: eq_Min_iff)
    ultimately show ?thesis using Call_pop plain rel xs by (auto simp: ms_related_def)
  next
    case Call_top
    then show ?thesis using plain rel by (cases xs) (auto simp: ms_top_def ms_related_def)
  next
    case Call_getMin
    then show ?thesis using plain rel least by (cases xs) auto
  qed
qed

text \<open>
  C38: The stack with the least element refines a plain stack. On any sequence of calls it returns what a list
  would, with the least of all elements for \<^verbatim>\<open>getMin\<close>, and is undefined exactly when \<^verbatim>\<open>pop\<close>, \<^verbatim>\<open>top\<close> or \<^verbatim>\<open>getMin\<close> meets
  an empty stack.
\<close>

theorem min_stack_refines:
  "map_option fst (stack_calls ms_call cs ms_new) = map_option fst (stack_calls plain_call cs [])"
  by (rule min_stack.same_answers) (simp add: ms_related_def ms_new_def)

end
