(* ===== verification/Spec2Isabelle.thy ===== *)
theory Spec2Isabelle
  imports PacketRuns ClientProps Sockets MarketFiles BlockFile BitStream TimerQueue TaskQueue Queues ZkConfig ZkDownstream EtcdClient SetOps LcCommon
    LcSearch LcRotated LcMatrix LcBits LcBrackets LcCompact LcVectors LcHalves LcCycle LcMorris LcNumbers LcNumerals
    LcKmp LcRegex LcRob LcCoins LcProducts LcWindow LcPalindrome LcWordBreak
    LcWords LcVersions LcPaths LcStrings LcZigzag LcCalc LcEnumerate LogThread FileCopy FileItems CharArrays DebugAlloc GroupPrinter TaskTest QueueTest LcSums LcNextPerm LcMinStack
begin

text \<open>
  A verification library of the C++ programs of this repository. The repository is a collection:
  a robot client of a game server with its packet protocol (\<^verbatim>\<open>cpp/release\<close>), readers of market
  data files (\<^verbatim>\<open>cpp/money\<close>), smaller infrastructure (bit streams, timers, task queues, blocking
  queues, an allocator, a module registry, a zookeeper client), and a large set of programs for
  algorithmic problems (\<^verbatim>\<open>hobbies/leetcode/algorithms\<close>). Each theory models the files it names
  and opens with a text that says what it holds; names follow the source where Isabelle allows
  it.

  \<^bold>\<open>How code is modelled.\<close> Machine integers that wrap or are taken apart are words
  of their width; \<^verbatim>\<open>int\<close> counters and values whose overflow plays no role are \<open>int\<close>. Member
  functions that throw, assert or may be undefined are actions of \<open>Prelude\<close>: a function from the
  object to an outcome (\<open>Val\<close>, \<open>Throw\<close>, \<open>Abort\<close>, \<open>Undef\<close>) and the object as it is left behind.
  Functions without exceptions return an option; \<open>None\<close> is an access outside a vector or through
  a null pointer, and for the loops given by \<^verbatim>\<open>partial_function\<close> also a loop that does not end, so that a
  theorem with \<open>Some\<close> on the right says that the code returns and is defined. Threads are explicit
  steps on a shared state. Sockets, OpenSSL, random numbers, the clock, files and the bad-version
  predicate of a problem are parameters or inputs.

  \<^bold>\<open>The packet protocol.\<close> \<open>Wire\<close> has the byte memory and the little-endian codecs, behind locales
  that lead from a codec to a reader of sequences;
  \<open>Packet\<close> the buffer of \<^verbatim>\<open>packet.h\<close> as memory with its raw pointers as offsets, and every operation;
  \<open>PacketFields\<close> and \<open>PacketFraming\<close> the lemmas on fields and on received fragments; \<open>PacketProps\<close>
  the properties: what is written is what the receiver reads, over any fragmentation; the checked
  operators stay inside the buffer and throw at its end; the unchecked ones and \<^verbatim>\<open>append\<close> do not.
  \<open>PacketRuns\<close> runs whole programs of operations: well-typed ones keep the packet well formed, and the reading of a message
  cut short never returns: it ends in an exception or, close to the end of the buffer, in a failed assertion.
  \<open>Tea\<close> is the cipher and the encryption of packets. \<open>Client\<close> and \<open>ClientProps\<close> are \<^verbatim>\<open>base.cpp\<close> and
  \<^verbatim>\<open>login.cpp\<close>: the state machine of the key exchange, the login in clear or encrypted, delivery of
  received frames to the handlers, connecting and re-arming. \<open>Sockets\<close> has the operations around them: the
  blocking mode, the retried \<^verbatim>\<open>recv\<close>, registrations with \<^verbatim>\<open>epoll\<close> against what its manual promises, a round of the
  event loop, and the random choice of \<^verbatim>\<open>util.h\<close>.

  \<^bold>\<open>Market data.\<close> \<open>Stream\<close> and \<open>StreamProps\<close> are \<^verbatim>\<open>stream.h\<close>; the template over the input is the
  locale \<open>input_source\<close>, interpreted for files; the buffer input does not fulfil it, which is a
  finding. \<open>Market\<close>, \<open>MarketProps\<close>, \<open>MarketFiles\<close> are \<^verbatim>\<open>mx.cpp\<close> and \<^verbatim>\<open>types.h\<close>, \<open>CompactInt\<close> the two
  \<^verbatim>\<open>BigInt\<close> classes, \<open>BlockFile\<close> the chained blocks of \<^verbatim>\<open>rtmin.cpp\<close> and \<^verbatim>\<open>parser.h\<close>.

  \<^bold>\<open>Infrastructure.\<close> \<open>BitStream\<close> (\<^verbatim>\<open>utils/bitstream.h\<close>), \<open>TimerQueue\<close> (the heap of
  \<^verbatim>\<open>timerqueue.cpp\<close>), \<open>TaskQueue\<close> (\<^verbatim>\<open>task_queue.h\<close>: producers and worker as an inductive step relation over
  critical sections, with an executable version for runs), \<open>Queues\<close> (the two blocking queues
  behind one locale of batched fifos, the slot allocator, the module registry), \<open>ZkConfig\<close> (the
  callbacks of \<^verbatim>\<open>config_manager.cpp\<close> matched with outstanding requests), \<open>ZkDownstream\<close> (the same library
  used from C in \<^verbatim>\<open>downstream.c\<close>: copies of paths on a heap, read through their pointers until they are freed, and
  watches that serve once), \<open>EtcdClient\<close> (\<^verbatim>\<open>etcd_client.cc\<close>:
  configuration, retried reads, the watch), \<open>SetOps\<close> (set comparisons,
  string splitting, greatest common divisors, binary literals), \<open>LcCommon\<close> (common elements behind one
  locale, and the same comparison through iterators of maps).

  \<^bold>\<open>Threads and files.\<close> Programs of threads are step relations of the locale \<open>progress\<close> of the prelude: an
  invariant, work that every step uses up, and a goal reached where no step is possible, so that every run ends
  at the goal. \<open>TaskTest\<close> (\<^verbatim>\<open>task_test.cpp\<close>: \<^verbatim>\<open>main\<close>, the receivers and eight queues whose threads take the steps of \<open>TaskQueue\<close>), \<open>QueueTest\<close> (the producers and consumers of
  \<^verbatim>\<open>queue.cpp\<close> and \<^verbatim>\<open>semqueue.cpp\<close>, on \<open>Queues\<close>) and \<open>LogThread\<close> (\<^verbatim>\<open>log_thread.cpp\<close>, \<^verbatim>\<open>log_no_thread.cpp\<close>) fulfil it.
  Condition variables wake a thread only when notified; spurious wake-ups are left out.
  \<open>FileCopy\<close> (\<^verbatim>\<open>multi_thread_copy.cpp\<close>) takes a run as an order of the chunks, on streams that may have failed. \<open>FileItems\<close> has the writer and the reader of
  a file of items, \<open>CharArrays\<close> (\<^verbatim>\<open>bits.cpp\<close>) copies of arrays, \<open>DebugAlloc\<close> (\<^verbatim>\<open>new.cpp\<close>) the header in front of allocated
  blocks, \<open>GroupPrinter\<close> (\<^verbatim>\<open>reverse.cpp\<close>) the two ways to print groups of equal elements.

  \<^bold>\<open>Algorithms.\<close> \<open>LcSearch\<close>, \<open>LcRotated\<close>, \<open>LcMatrix\<close> (binary searches against their specification on
  sorted and rotated vectors and sorted matrices, peaks), \<open>LcBits\<close>, \<open>LcBrackets\<close>, \<open>LcCompact\<close>
  (in-place filters behind the locale \<open>compaction\<close>), \<open>LcVectors\<close> (merging, rotating, majority,
  decimal increment, pairs, near duplicates). \<open>LcHeap\<close> is the store of \<^verbatim>\<open>ListNode\<close>s with the \<^verbatim>\<open>ListNode*\<close>
  and \<^verbatim>\<open>ListNode**\<close> of the sources, list segments and what a write does to them; on it \<open>LcLists\<close>,
  \<open>LcRelink\<close>, \<open>LcHalves\<close> and \<open>LcCycle\<close> prove the pointer programs: which nodes the result links, in
  which order, without loss, duplication or cycle, and Floyd's search for a cycle. \<open>LcTrees\<close> and
  \<open>LcMorris\<close> do the same for \<^verbatim>\<open>TreeNode\<close>s: paths, traversals with stack and queue, the threaded test for
  search trees that restores what it changes, common ancestors, and an inversion that does not. \<open>LcNumbers\<close> (digits, division, roots) and
  \<open>LcNumerals\<close> (columns, roman and binary numerals), \<open>LcSieve\<close> (primes) and \<open>LcPaths\<close> (grid paths, stairs,
  happy numbers) are the arithmetic programs. \<open>LcRob\<close>, \<open>LcCoins\<close>, \<open>LcProducts\<close> and \<open>LcWindow\<close> prove dynamic
  programs and moving windows optimal over all choices they stand for. \<open>LcSums\<close> finds all rows of three or four
  numbers with a sum, and the sum closest to a target. \<open>LcNextPerm\<close> steps through the
  permutations in lexicographic order; \<open>LcMinStack\<close> refines a plain stack, by the simulation of the locale
  \<open>stack_refinement\<close>. \<open>LcKmp\<close>, \<open>LcRegex\<close>,
  \<open>LcPalindrome\<close>, \<open>LcWordBreak\<close>, \<open>LcWords\<close>, \<open>LcVersions\<close>, \<open>LcStrings\<close>, \<open>LcZigzag\<close>, \<open>LcCalc\<close> and \<open>LcEnumerate\<close> are the
  programs on strings, each against a declarative specification (occurrences, matches, segmentations,
  the grammar of expressions, the set of all solutions). Where a file
  has several solutions of one problem, they are proved equal or their difference is stated.

  \<^bold>\<open>Bounds and fuel.\<close> No definition uses fuel: loops that count are structural or have a
  measure; loops over pointers are partial functions whose results are proved to exist. Sizes are
  bounded only where the code's types bound them: \<open>PACKET_SIZE\<close>, files below \<open>2 ^ 64\<close> bytes, sizes
  of strings below \<open>2 ^ 16\<close>.

  \<^bold>\<open>Not modelled.\<close> \<^verbatim>\<open>main\<close> programs that only call what is modelled, printing and timing; programs that
  only string system or library calls together (boost, leveldb, fork, shared memory, the C samples of epoll);
  demonstrations of language features under \<^verbatim>\<open>cpp/misc\<close>, \<^verbatim>\<open>cpp/meta\<close>, \<^verbatim>\<open>cpp/cpp_oo\<close>, \<^verbatim>\<open>cpp/design\<close>; the
  JSON output of the market tools (boost); the copy of \<^verbatim>\<open>stream.h\<close> in \<^verbatim>\<open>cpp/daily\<close>, which differs in type
  names only. Overflow of \<^verbatim>\<open>int\<close> in the algorithm programs is not modelled where the text of the theory says
  that values are \<open>int\<close>. Some algorithm programs are not modelled: the rest
  of the interval, matrix and list programs, which use the same techniques, and those whose function is
  empty in the source.
\<close>

end
